(* ===== verification/Prelude.thy ===== *)
theory Prelude
  imports Main "HOL-Library.Word" "HOL-Library.Monad_Syntax"
begin

text \<open>
  Shared vocabulary of the development.

  \<^item> the machine types of the ia32 build (\<open>unsigned\<close> and \<open>long\<close> are 32 bits wide);
  \<^item> the error codes of \<^verbatim>\<open>src/include/errno.h\<close> the modelled files return, as a datatype,
    with their numeric values in \<open>errno_val\<close>;
  \<^item> the convention for memory faults: a pointer is an \<open>option\<close> (\<open>None\<close> is \<open>NULL\<close>), and an
    operation that may dereference \<open>NULL\<close> or leave an array returns \<open>None\<close> for the fault, so that
    a theorem saying that an operation returns \<open>Some\<close> is a memory-safety statement;
  \<^item> lemmas on words, lists and functions used by several components, and the named collections
    in which the components gather their rewrite rules.
\<close>

unbundle bit_operations_syntax

named_theorems status_simps \<open>numeric values of the error codes\<close>
named_theorems qrep_intros \<open>facts that rebuild a queue representation\<close>
named_theorems flag_simps \<open>algebra of the thread flag masks\<close>
named_theorems sched_defs \<open>definitions of the scheduler operations\<close>

type_synonym u8 = "8 word"
type_synonym u16 = "16 word"
type_synonym u32 = "32 word"
type_synonym u64 = "64 word"

section \<open>Error codes\<close>

datatype status =
    EOK | EPERM | ENOENT | EIO | ENXIO | EBADF | EAGAIN | ENOMEM | EACCES | EBUSY
  | EINVAL | ENFILE | ENOSYS | EOVERFLOW | EPACKSIZE | ENOBUFS | ETIMEDOUT | EGENERIC

fun errno_val :: "status \<Rightarrow> int" where
  "errno_val EOK = 0"
| "errno_val EPERM = -1"
| "errno_val ENOENT = -2"
| "errno_val EIO = -5"
| "errno_val ENXIO = -6"
| "errno_val EBADF = -9"
| "errno_val EAGAIN = -11"
| "errno_val ENOMEM = -12"
| "errno_val EACCES = -13"
| "errno_val EBUSY = -16"
| "errno_val EINVAL = -22"
| "errno_val ENFILE = -23"
| "errno_val ENOSYS = -38"
| "errno_val EOVERFLOW = -46"
| "errno_val EPACKSIZE = -50"
| "errno_val ENOBUFS = -51"
| "errno_val ETIMEDOUT = -61"
| "errno_val EGENERIC = -99"

lemma errno_val_inj [simp]: "errno_val a = errno_val b \<longleftrightarrow> a = b"
  by (cases a; cases b; simp)

lemma errno_val_nonpos: "errno_val a \<le> 0"
  by (cases a) simp_all

lemma errno_val_neg [status_simps]: "errno_val a < 0 \<longleftrightarrow> a \<noteq> EOK"
  by (cases a) simp_all

section \<open>Words\<close>

lemma unat_of_nat_small [simp]:
  "n < 2 ^ LENGTH('a) \<Longrightarrow> unat (of_nat n :: 'a::len word) = n"
  by (simp add: unat_of_nat)

lemma unat_bound: "unat (w :: 'a::len word) < 2 ^ LENGTH('a)"
  by (rule unsigned_less)

lemma unat_ucast_up:
  assumes "LENGTH('a) \<le> LENGTH('b)"
  shows "unat (ucast (w :: 'a::len word) :: 'b::len word) = unat w"
proof -
  have "unat w < 2 ^ LENGTH('b)"
    using unat_bound [of w] power_increasing [OF assms, of "2::nat"] by linarith
  then show ?thesis by (simp only: unsigned_ucast_eq take_bit_nat_eq_self)
qed

lemma unat_add_small:
  "unat a + unat b < 2 ^ LENGTH('a) \<Longrightarrow> unat (a + b :: 'a::len word) = unat a + unat b"
  by (simp add: unat_word_ariths)

lemma ucast_up_0_iff:
  "LENGTH('a) \<le> LENGTH('b) \<Longrightarrow> ucast (w :: 'a::len word) = (0 :: 'b::len word) \<longleftrightarrow> w = 0"
  by (simp add: word_unat_eq_iff unat_ucast_up)

lemma unat_sub_le: "b \<le> a \<Longrightarrow> unat (a - b) = unat a - unat (b :: 'a::len word)"
  by (simp add: unat_sub_if_size word_le_nat_alt)

lemma unat_add_one:
  "Suc (unat w) < 2 ^ LENGTH('a) \<Longrightarrow> unat (w + 1 :: 'a::len word) = Suc (unat w)"
  using unat_of_nat_small [of "Suc (unat w)", where 'a = 'a] by (simp add: add.commute)

lemma of_nat_word_0_iff:
  "n < 2 ^ LENGTH('a) \<Longrightarrow> (of_nat n :: 'a::len word) = 0 \<longleftrightarrow> n = 0"
  by (auto simp: word_of_nat_eq_0_iff dvd_imp_le dest: nat_dvd_not_less)

lemma of_nat_word_eq_iff:
  "m < 2 ^ LENGTH('a) \<Longrightarrow> n < 2 ^ LENGTH('a) \<Longrightarrow>
   (of_nat m :: 'a::len word) = of_nat n \<longleftrightarrow> m = n"
  by (simp add: word_unat_eq_iff)

lemma of_nat_word_less_iff:
  "m < 2 ^ LENGTH('a) \<Longrightarrow> n < 2 ^ LENGTH('a) \<Longrightarrow>
   (of_nat m :: 'a::len word) < of_nat n \<longleftrightarrow> m < n"
  by (simp add: word_less_nat_alt)

text \<open>The macro \<open>MULT\<close>: the next multiple of \<open>y\<close>.\<close>

definition MULT :: "u32 \<Rightarrow> u32 \<Rightarrow> u32" where
  "MULT x y = (x + y - 1) div y * y"

lemma unat_from_nat: "w = of_nat n \<Longrightarrow> n < 2 ^ 32 \<Longrightarrow> unat (w :: u32) = n"
  by simp

lemma MULT_ok:
  assumes "y \<noteq> 0" "unat x + unat y \<le> 2 ^ 32"
  shows "unat x \<le> unat (MULT x y)" "unat (MULT x y) < unat x + unat y" "unat y dvd unat (MULT x y)"
proof -
  define n where "n = (unat x + unat y - 1) div unat y"
  have y: "0 < unat y" using assms(1) by (simp add: unat_gt_0)
  have "x + y - 1 = of_nat (unat x + unat y - 1)" using y by (simp add: of_nat_diff)
  then have "unat (x + y - 1) = unat x + unat y - 1" 
    using assms(2) y by (intro unat_from_nat) linarith+
  then have d: "unat ((x + y - 1) div y) = n" by (simp add: unat_div n_def)
  have n: "n * unat y \<le> unat x + unat y - 1" "unat x + unat y - 1 < n * unat y + unat y"
    unfolding n_def using div_mult_mod_eq [of "unat x + unat y - 1" "unat y"] mod_less_divisor [OF y, of "unat x + unat y - 1"]
    by linarith+
  have "MULT x y = of_nat (n * unat y)" by (simp add: MULT_def d [symmetric])
  then have "unat (MULT x y) = n * unat y" using n(1) assms(2) y by (intro unat_from_nat) linarith+
  then show "unat x \<le> unat (MULT x y)" "unat (MULT x y) < unat x + unat y" "unat y dvd unat (MULT x y)"
    using n y by auto
qed

section \<open>Lists\<close>

lemma distinct_length_bound:
  "distinct xs \<Longrightarrow> set xs \<subseteq> {..<n} \<Longrightarrow> length xs \<le> n"
  by (metis card_lessThan card_mono distinct_card finite_lessThan)

section \<open>Arrays and strings\<close>

text \<open>Reading and writing an array element; an index outside the array is a fault.\<close>

definition arr_get :: "'a list \<Rightarrow> nat \<Rightarrow> 'a option" where
  "arr_get xs i = (if i < length xs then Some (xs ! i) else None)"

definition arr_set :: "'a list \<Rightarrow> nat \<Rightarrow> 'a \<Rightarrow> 'a list option" where
  "arr_set xs i v = (if i < length xs then Some (xs[i := v]) else None)"

lemma arr_get_in [simp]: "i < length xs \<Longrightarrow> arr_get xs i = Some (xs ! i)"
  by (simp add: arr_get_def)

lemma arr_set_in [simp]: "i < length xs \<Longrightarrow> arr_set xs i v = Some (xs[i := v])"
  by (simp add: arr_set_def)

text \<open>The conversion \<open>%x\<close> of \<open>snprintf\<close>.\<close>

fun hex_string :: "nat \<Rightarrow> string" where
  "hex_string n =
     (if n < 16 then [''0123456789abcdef'' ! n]
      else hex_string (n div 16) @ [''0123456789abcdef'' ! (n mod 16)])"

declare hex_string.simps [simp del]

text \<open>
  A \<open>list_inst\<close> of handles at list level. Prepending cannot fail for a handle that is not \<open>NULL\<close>;
  removing from an empty list is \<open>EINVAL\<close>.
\<close>

definition handles_remove :: "nat \<Rightarrow> nat list \<Rightarrow> status \<times> nat list" where
  "handles_remove h xs = (if xs = [] then (EINVAL, xs) else (EOK, remove1 h xs))"

lemma handles_remove_in: "h \<in> set xs \<Longrightarrow> handles_remove h xs = (EOK, remove1 h xs)"
  by (auto simp: handles_remove_def)

section \<open>Blocking calls\<close>

text \<open>
  A call that may put the caller to sleep runs up to its \<open>schedule_thread\<close>: it either returns at
  once with a code or leaves the caller blocked.
\<close>

datatype 'a entry = Return status 'a | Blocked 'a

end
