(* ===== verification/Queue.thy ===== *)
theory Queue
  imports Prelude
begin

text \<open>
  The intrusive queues of \<^verbatim>\<open>src/libs/queue.c\<close> and \<^verbatim>\<open>src/libs/stack.c\<close>, at pointer level.

  A node is an address of type \<open>'n\<close>; its \<open>next\<close> field is an entry of \<open>qnext\<close>. A queue instance
  is an address of type \<open>'q\<close>; its three fields are an entry of \<open>qinst\<close>. One memory holds all the
  instances and all the nodes, so that a node linked in two queues at once, or twice in one, is a
  state of the model with the behaviour the C code has. A result \<open>None\<close> is a \<open>NULL\<close> dereference.

  \<open>qrep m f\<close> says that every queue \<open>q\<close> of the memory \<open>m\<close> is a well-formed singly linked list with
  the contents \<open>f q\<close>, and that no node is shared. Each operation is proved to implement the list
  operation of the same name, and the locale \<open>queue_iface\<close> states that contract for its clients.
\<close>

section \<open>Data\<close>

record 'n queue_inst =
  qi_head :: "'n option"
  qi_tail :: "'n option"
  qi_counter :: u32

record ('q, 'n) qmem =
  qinst :: "'q \<Rightarrow> 'n queue_inst"
  qnext :: "'n \<Rightarrow> 'n option"

abbreviation upd_inst :: "'q \<Rightarrow> 'n queue_inst \<Rightarrow> ('q, 'n) qmem \<Rightarrow> ('q, 'n) qmem" where
  "upd_inst q i m \<equiv> m\<lparr>qinst := (qinst m)(q := i)\<rparr>"

abbreviation upd_next :: "'n \<Rightarrow> 'n option \<Rightarrow> ('q, 'n) qmem \<Rightarrow> ('q, 'n) qmem" where
  "upd_next n v m \<equiv> m\<lparr>qnext := (qnext m)(n := v)\<rparr>"

section \<open>The operations of queue.c\<close>

definition queue_init :: "'q option \<Rightarrow> ('q, 'n) qmem \<Rightarrow> status \<times> ('q, 'n) qmem" where
  "queue_init queue m =
     (case queue of None \<Rightarrow> (EINVAL, m)
      | Some q \<Rightarrow> (EOK, upd_inst q \<lparr>qi_head = None, qi_tail = None, qi_counter = 0\<rparr> m))"

definition queue_enqueue ::
  "'q option \<Rightarrow> 'n option \<Rightarrow> ('q, 'n) qmem \<Rightarrow> (status \<times> ('q, 'n) qmem) option" where
  "queue_enqueue queue data m =
     (case queue of None \<Rightarrow> Some (EINVAL, m) | Some q \<Rightarrow>
      case data of None \<Rightarrow> Some (EINVAL, m) | Some d \<Rightarrow>
      (let i = qinst m q in
       if qi_head i = None then
         Some (EOK, upd_next d None
                 (upd_inst q (i\<lparr>qi_head := Some d, qi_tail := Some d, qi_counter := 1\<rparr>) m))
       else
         case qi_tail i of None \<Rightarrow> None | Some t \<Rightarrow>
           Some (EOK, upd_next d None
                   (upd_inst q (i\<lparr>qi_tail := Some d, qi_counter := qi_counter i + 1\<rparr>)
                     (upd_next t (Some d) m)))))"

text \<open>
  \<open>out\<close> tells whether the out-parameter \<open>data\<close> is not \<open>NULL\<close>; the second component of the result is
  the value stored there (for \<open>EINVAL\<close> nothing is stored).
\<close>

definition queue_dequeue ::
  "'q option \<Rightarrow> bool \<Rightarrow> ('q, 'n) qmem \<Rightarrow> (status \<times> 'n option \<times> ('q, 'n) qmem) option" where
  "queue_dequeue queue out m =
     (case queue of None \<Rightarrow> Some (EINVAL, None, m) | Some q \<Rightarrow>
      if \<not> out then Some (EINVAL, None, m) else
      (let i = qinst m q in
       if qi_counter i = 0 then Some (EAGAIN, None, m)
       else
         case qi_head i of None \<Rightarrow> None | Some h \<Rightarrow>
           (let c = qi_counter i - 1;
                i1 = i\<lparr>qi_head := qnext m h, qi_counter := c\<rparr>;
                i2 = (if c = 0 then i1\<lparr>qi_tail := None\<rparr> else i1)
            in Some (EOK, Some h, upd_inst q i2 (upd_next h None m)))))"

definition queue_roll :: "'q option \<Rightarrow> ('q, 'n) qmem \<Rightarrow> (status \<times> ('q, 'n) qmem) option" where
  "queue_roll queue m =
     (case queue of None \<Rightarrow> Some (EINVAL, m) | Some q \<Rightarrow>
      (let i = qinst m q in
       if qi_counter i > 1 then
         case qi_tail i of None \<Rightarrow> None | Some t \<Rightarrow>
         (let m1 = upd_next t (qi_head i) m in
          case qi_head i of None \<Rightarrow> None | Some h \<Rightarrow>
          (let h' = qnext m1 h in
           case qnext m1 t of None \<Rightarrow> None | Some t' \<Rightarrow>
             Some (EOK, upd_next t' None
                     (upd_inst q (i\<lparr>qi_head := h', qi_tail := Some t'\<rparr>) m1))))
       else Some (EOK, m)))"

definition queue_head :: "'q option \<Rightarrow> ('q, 'n) qmem \<Rightarrow> 'n option" where
  "queue_head queue m = (case queue of None \<Rightarrow> None | Some q \<Rightarrow> qi_head (qinst m q))"

definition queue_tail :: "'q option \<Rightarrow> ('q, 'n) qmem \<Rightarrow> 'n option" where
  "queue_tail queue m = (case queue of None \<Rightarrow> None | Some q \<Rightarrow> qi_tail (qinst m q))"

definition queue_count :: "'q option \<Rightarrow> ('q, 'n) qmem \<Rightarrow> u32" where
  "queue_count queue m = (case queue of None \<Rightarrow> 0 | Some q \<Rightarrow> qi_counter (qinst m q))"

definition queue_insert ::
  "'q option \<Rightarrow> 'n option \<Rightarrow> 'n option \<Rightarrow> ('q, 'n) qmem \<Rightarrow> (status \<times> ('q, 'n) qmem) option" where
  "queue_insert queue data after m =
     (case queue of None \<Rightarrow> Some (EINVAL, m) | Some q \<Rightarrow>
      case data of None \<Rightarrow> Some (EINVAL, m) | Some d \<Rightarrow>
      if queue_count (Some q) m = 0 then queue_enqueue (Some q) (Some d) m
      else
       (let i = qinst m q in
        case after of
          None \<Rightarrow>
            Some (EOK, upd_inst q (i\<lparr>qi_head := Some d, qi_counter := qi_counter i + 1\<rparr>)
                    (upd_next d (qi_head i) m))
        | Some a \<Rightarrow>
            (let m1 = upd_next d (qnext m a) m;
                 m2 = upd_next a (Some d) m1;
                 i1 = i\<lparr>qi_counter := qi_counter i + 1\<rparr>;
                 i2 = (if qnext m2 d = None then i1\<lparr>qi_tail := Some d\<rparr> else i1)
             in Some (EOK, upd_inst q i2 m2))))"

section \<open>The operations of stack.c\<close>

text \<open>The stack reuses \<open>queue_inst\<close> and leaves its tail alone.\<close>

definition stack_init :: "'q option \<Rightarrow> ('q, 'n) qmem \<Rightarrow> status \<times> ('q, 'n) qmem" where
  "stack_init queue m =
     (case queue of None \<Rightarrow> (EINVAL, m)
      | Some q \<Rightarrow> (EOK, upd_inst q \<lparr>qi_head = None, qi_tail = None, qi_counter = 0\<rparr> m))"

definition stack_push ::
  "'q option \<Rightarrow> 'n option \<Rightarrow> ('q, 'n) qmem \<Rightarrow> status \<times> ('q, 'n) qmem" where
  "stack_push queue data m =
     (case queue of None \<Rightarrow> (EINVAL, m) | Some q \<Rightarrow>
      case data of None \<Rightarrow> (EINVAL, m) | Some d \<Rightarrow>
      (let i = qinst m q in
       if qi_head i = None then
         (EOK, upd_next d None (upd_inst q (i\<lparr>qi_head := Some d, qi_counter := 1\<rparr>) m))
       else
         (EOK, upd_inst q (i\<lparr>qi_head := Some d, qi_counter := qi_counter i + 1\<rparr>)
                 (upd_next d (qi_head i) m))))"

definition stack_pop ::
  "'q option \<Rightarrow> bool \<Rightarrow> ('q, 'n) qmem \<Rightarrow> (status \<times> 'n option \<times> ('q, 'n) qmem) option" where
  "stack_pop queue out m =
     (case queue of None \<Rightarrow> Some (EINVAL, None, m) | Some q \<Rightarrow>
      if \<not> out then Some (EINVAL, None, m) else
      (let i = qinst m q in
       if qi_counter i = 0 then Some (EGENERIC, None, m)
       else
         case qi_head i of None \<Rightarrow> None | Some h \<Rightarrow>
           Some (EOK, Some h,
                 upd_inst q (i\<lparr>qi_head := qnext m h, qi_counter := qi_counter i - 1\<rparr>)
                   (upd_next h None m))))"

definition stack_count :: "'q option \<Rightarrow> ('q, 'n) qmem \<Rightarrow> u32" where
  "stack_count queue m = (case queue of None \<Rightarrow> 0 | Some q \<Rightarrow> qi_counter (qinst m q))"

section \<open>Representation\<close>

fun nlist :: "('n \<Rightarrow> 'n option) \<Rightarrow> 'n option \<Rightarrow> 'n list \<Rightarrow> bool" where
  "nlist nx p [] \<longleftrightarrow> p = None"
| "nlist nx p (x # xs) \<longleftrightarrow> p = Some x \<and> nlist nx (nx x) xs"

definition last_ptr :: "'n list \<Rightarrow> 'n option" where
  "last_ptr xs = (if xs = [] then None else Some (last xs))"

definition qinst_rep :: "('n \<Rightarrow> 'n option) \<Rightarrow> 'n queue_inst \<Rightarrow> 'n list \<Rightarrow> bool" where
  "qinst_rep nx i xs \<longleftrightarrow>
     nlist nx (qi_head i) xs \<and> qi_tail i = last_ptr xs \<and>
     qi_counter i = of_nat (length xs) \<and> length xs < 2 ^ 32 \<and> distinct xs"

definition qrep :: "('q, 'n) qmem \<Rightarrow> ('q \<Rightarrow> 'n list) \<Rightarrow> bool" where
  "qrep m f \<longleftrightarrow>
     (\<forall>q. qinst_rep (qnext m) (qinst m q) (f q)) \<and>
     (\<forall>p q. p \<noteq> q \<longrightarrow> set (f p) \<inter> set (f q) = {})"

definition unlinked :: "('q \<Rightarrow> 'n list) \<Rightarrow> 'n \<Rightarrow> bool" where
  "unlinked f x \<longleftrightarrow> (\<forall>q. x \<notin> set (f q))"

lemma nlist_upd [simp]: "x \<notin> set xs \<Longrightarrow> nlist (nx(x := v)) p xs = nlist nx p xs"
  by (induction xs arbitrary: p) auto

lemma nlist_None [simp]: "nlist nx None xs \<longleftrightarrow> xs = []"
  by (cases xs) auto

lemma nlist_Nil_iff: "nlist nx p xs \<Longrightarrow> p = None \<longleftrightarrow> xs = []"
  by (cases xs) auto

lemma nlist_snoc:
  "nlist nx p xs \<Longrightarrow> xs \<noteq> [] \<Longrightarrow> distinct xs \<Longrightarrow> x \<notin> set xs \<Longrightarrow>
   nlist (nx(last xs := Some x, x := None)) p (xs @ [x])"
proof (induction xs arbitrary: p)
  case (Cons y ys)
  show ?case
  proof (cases "ys = []")
    case False
    with Cons.prems have "nlist (nx(last ys := Some x, x := None)) (nx y) (ys @ [x])"
      by (intro Cons.IH) auto
    with Cons.prems False show ?thesis by (cases "y = last ys") (auto simp del: fun_upd_apply simp: fun_upd_other)
  qed (use Cons.prems in auto)
qed simp

lemma nlist_last_next:
  "nlist nx p xs \<Longrightarrow> xs \<noteq> [] \<Longrightarrow> nx (last xs) = None"
  by (induction xs arbitrary: p) (auto split: if_splits)

lemma nlist_insert_after:
  "nlist nx p (ys @ a # zs) \<Longrightarrow> distinct (ys @ a # zs) \<Longrightarrow> x \<notin> set (ys @ a # zs) \<Longrightarrow>
   nlist (nx(x := nx a, a := Some x)) p (ys @ a # x # zs)"
  by (induction ys arbitrary: p) auto

lemma nlist_next_of:
  "nlist nx p (ys @ a # zs) \<Longrightarrow> nx a = (case zs of [] \<Rightarrow> None | z # _ \<Rightarrow> Some z)"
  by (induction ys arbitrary: p) (auto split: list.splits)

lemma nlist_unique: "nlist nx p xs \<Longrightarrow> nlist nx p ys \<Longrightarrow> xs = ys"
  by (induction xs arbitrary: p ys) (case_tac ys; auto)+

lemma last_ptr_simps [simp]:
  "last_ptr [] = None" "last_ptr (xs @ [x]) = Some x" "last_ptr [x] = Some x"
  "xs \<noteq> [] \<Longrightarrow> last_ptr (y # xs) = last_ptr xs"
  by (auto simp: last_ptr_def)


lemma qinst_rep_frame [simp]:
  "x \<notin> set xs \<Longrightarrow> qinst_rep (nx(x := v)) i xs = qinst_rep nx i xs"
  by (simp add: qinst_rep_def)

lemma qrep_inst: "qrep m f \<Longrightarrow> qinst_rep (qnext m) (qinst m q) (f q)"
  by (simp add: qrep_def)

lemma qrep_disjoint: "qrep m f \<Longrightarrow> p \<noteq> q \<Longrightarrow> x \<in> set (f p) \<Longrightarrow> x \<notin> set (f q)"
  by (auto simp: qrep_def)

lemma qrep_distinct: "qrep m f \<Longrightarrow> distinct (f q)"
  by (simp add: qrep_def qinst_rep_def)

lemma qrep_count: "qrep m f \<Longrightarrow> queue_count (Some q) m = of_nat (length (f q))"
  by (simp add: qrep_def qinst_rep_def queue_count_def)

lemma qrep_length: "qrep m f \<Longrightarrow> length (f q) < 2 ^ 32"
  by (simp add: qrep_def qinst_rep_def)

lemma qrep_unat_count [simp]: "qrep m f \<Longrightarrow> unat (queue_count (Some q) m) = length (f q)"
  using qrep_length [of m f q] by (simp add: qrep_count)

lemma qrep_count_0 [simp]: "qrep m f \<Longrightarrow> queue_count (Some q) m = 0 \<longleftrightarrow> f q = []"
  using qrep_length [of m f q] by (simp add: qrep_count of_nat_word_0_iff)

lemma qrep_head: "qrep m f \<Longrightarrow> queue_head (Some q) m = (case f q of [] \<Rightarrow> None | x # _ \<Rightarrow> Some x)"
  using qrep_inst [of m f q]
  by (auto simp: queue_head_def qinst_rep_def split: list.splits)

text \<open>
  The update rule all the operations share: a new instance record and a new next field change the
  contents of one queue and leave the others alone.
\<close>

lemma qrep_update [qrep_intros]:
  assumes "qrep m f"
    and "qinst m' = (qinst m)(q := i)"
    and "qinst_rep (qnext m') i xs"
    and "\<And>p. p \<noteq> q \<Longrightarrow> set (f p) \<inter> set xs = {}"
    and "\<And>p. p \<noteq> q \<Longrightarrow> qinst_rep (qnext m') (qinst m p) (f p)"
  shows "qrep m' (f(q := xs))"
  using assms unfolding qrep_def by (simp add: Int_commute)

lemma qrep_unique: "qrep m f \<Longrightarrow> qrep m g \<Longrightarrow> f = g"
  by (rule ext) (metis nlist_unique qinst_rep_def qrep_inst)

section \<open>Each operation implements its list operation\<close>

lemma queue_enqueue_rep:
  assumes R: "qrep m f" and U: "unlinked f x" and L: "Suc (length (f q)) < 2 ^ 32"
  shows "\<exists>m'. queue_enqueue (Some q) (Some x) m = Some (EOK, m') \<and> qrep m' (f(q := f q @ [x]))"
proof -
  let ?i = "qinst m q"
  have I: "qinst_rep (qnext m) ?i (f q)" using R by (rule qrep_inst)
  have X: "x \<notin> set (f p)" for p using U by (simp add: unlinked_def)
  show ?thesis
  proof (cases "f q = []")
    case True
    let ?j = "?i\<lparr>qi_head := Some x, qi_tail := Some x, qi_counter := 1\<rparr>"
    have "\<exists>m'. queue_enqueue (Some q) (Some x) m = Some (EOK, m') \<and>
      qinst m' = (qinst m)(q := ?j) \<and> qnext m' = (qnext m)(x := None)"
      using I True by (simp add: queue_enqueue_def qinst_rep_def)
    then obtain m' where E: "queue_enqueue (Some q) (Some x) m = Some (EOK, m')" and m': "qinst m' = (qinst m)(q := ?j)" "qnext m' = (qnext m)(x := None)" by blast
    have "qrep m' (f(q := [x]))"
      using R X by (intro qrep_update [OF R m'(1)]) (auto simp: m' qinst_rep_def qrep_def)
    with E True show ?thesis by simp
  next
    case False
    let ?t = "last (f q)"
    let ?j = "?i\<lparr>qi_tail := Some x, qi_counter := qi_counter ?i + 1\<rparr>"
    have h: "qi_head ?i \<noteq> None" using I False nlist_Nil_iff by (fastforce simp: qinst_rep_def)
    have t: "qi_tail ?i = Some ?t" using I False by (simp add: qinst_rep_def last_ptr_def)
    have "\<exists>m'. queue_enqueue (Some q) (Some x) m = Some (EOK, m') \<and>
      qinst m' = (qinst m)(q := ?j) \<and> qnext m' = (qnext m)(?t := Some x, x := None)"
      using h t by (auto simp add: queue_enqueue_def Let_def)
    then obtain m' where E: "queue_enqueue (Some q) (Some x) m = Some (EOK, m')" and m': "qinst m' = (qinst m)(q := ?j)" "qnext m' = (qnext m)(?t := Some x, x := None)" by blast
    have "nlist (qnext m') (qi_head ?i) (f q @ [x])"
      unfolding m' using I False X by (intro nlist_snoc) (auto simp: qinst_rep_def)
    then have J: "qinst_rep (qnext m') ?j (f q @ [x])"
      using I L X by (simp add: qinst_rep_def add.commute)
    have T: "?t \<notin> set (f p)" if "p \<noteq> q" for p
      using qrep_disjoint [OF R, of q p ?t] that False by auto
    have "qrep m' (f(q := f q @ [x]))"
      using R X T J by (intro qrep_update [OF R m'(1)])
        (auto simp: m'(2) qrep_inst dest: qrep_disjoint [of m f _ q])
    with E show ?thesis by simp
  qed
qed

lemma queue_dequeue_empty:
  "qrep m f \<Longrightarrow> f q = [] \<Longrightarrow> queue_dequeue (Some q) True m = Some (EAGAIN, None, m)"
  using qrep_inst [of m f q] by (simp add: queue_dequeue_def qinst_rep_def)

lemma queue_dequeue_rep:
  assumes R: "qrep m f" and Q: "f q = x # xs"
  shows "\<exists>m'. queue_dequeue (Some q) True m = Some (EOK, Some x, m') \<and> qrep m' (f(q := xs))"
proof -
  let ?i = "qinst m q"
  let ?c = "qi_counter ?i - 1"
  let ?i1 = "?i\<lparr>qi_head := qnext m x, qi_counter := ?c\<rparr>"
  let ?j = "if ?c = 0 then ?i1\<lparr>qi_tail := None\<rparr> else ?i1"
  have I: "qinst_rep (qnext m) ?i (x # xs)" using qrep_inst [OF R, of q] Q by simp
  then have len: "Suc (length xs) < 2 ^ 32" and cnt: "qi_counter ?i = of_nat (Suc (length xs))"
    by (simp_all add: qinst_rep_def)
  have c: "?c = of_nat (length xs)" by (simp add: cnt)
  have c0: "?c = 0 \<longleftrightarrow> xs = []" using len by (simp only: c) (simp add: of_nat_word_0_iff)
  have n0: "qi_counter ?i \<noteq> 0"
    using len by (simp only: cnt) (simp add: of_nat_word_0_iff del: of_nat_Suc)
  have "\<exists>m'. queue_dequeue (Some q) True m = Some (EOK, Some x, m') \<and>
      qinst m' = (qinst m)(q := ?j) \<and> qnext m' = (qnext m)(x := None)"
      using I n0 by (simp add: queue_dequeue_def qinst_rep_def Let_def)
    then obtain m' where E: "queue_dequeue (Some q) True m = Some (EOK, Some x, m')" and m': "qinst m' = (qinst m)(q := ?j)" "qnext m' = (qnext m)(x := None)" by blast
  have J: "qinst_rep (qnext m') ?j xs"
    using I c c0 len by (auto simp: m'(2) qinst_rep_def last_ptr_def)
  have X: "x \<notin> set (f p)" if "p \<noteq> q" for p using qrep_disjoint [OF R, of q p x] that Q by auto
  have "qrep m' (f(q := xs))"
    using R Q X J
    by (intro qrep_update [OF R m'(1)]) (auto simp: m'(2) qrep_inst dest: qrep_disjoint [of m f _ q])
  with E show ?thesis by simp
qed

lemma queue_roll_rep:
  assumes R: "qrep m f"
  shows "\<exists>m'. queue_roll (Some q) m = Some (EOK, m') \<and> qrep m' (f(q := rotate1 (f q)))"
proof -
  let ?i = "qinst m q"
  have I: "qinst_rep (qnext m) ?i (f q)" using R by (rule qrep_inst)
  have len: "length (f q) < 2 ^ 32" and cnt: "qi_counter ?i = of_nat (length (f q))"
    using I by (simp_all add: qinst_rep_def)
  have gt: "qi_counter ?i > 1 \<longleftrightarrow> length (f q) > 1"
    using of_nat_word_less_iff [of 1 "length (f q)", where 'a = 32] len by (simp add: cnt)
  show ?thesis
  proof (cases "length (f q) > 1")
    case False
    then have "rotate1 (f q) = f q" by (cases "f q"; cases "tl (f q)") auto
    with False gt R show ?thesis by (simp add: queue_roll_def)
  next
    case True
    then obtain x ys where Q: "f q = x # ys" and ys: "ys \<noteq> []" by (cases "f q") auto
    let ?t = "last ys"
    have d: "distinct (x # ys)" using I Q by (simp add: qinst_rep_def)
    then have tx: "?t \<noteq> x" "?t \<in> set ys" using ys by auto
    let ?j = "?i\<lparr>qi_head := qnext m x, qi_tail := Some x\<rparr>"
    have ht: "qi_head ?i = Some x" "qi_tail ?i = Some ?t"
      using I Q ys by (auto simp: qinst_rep_def last_ptr_def)
    have "\<exists>m'. queue_roll (Some q) m = Some (EOK, m') \<and>
      qinst m' = (qinst m)(q := ?j) \<and> qnext m' = (qnext m)(?t := Some x, x := None)"
      using ht gt True tx by (auto simp: queue_roll_def Let_def)
    then obtain m' where E: "queue_roll (Some q) m = Some (EOK, m')" and m': "qinst m' = (qinst m)(q := ?j)" "qnext m' = (qnext m)(?t := Some x, x := None)" by blast
    have "nlist (qnext m') (qnext m x) (ys @ [x])"
      unfolding m' using I Q ys d by (intro nlist_snoc) (auto simp: qinst_rep_def)
    then have J: "qinst_rep (qnext m') ?j (ys @ [x])"
      using I d Q by (simp add: qinst_rep_def)
    have X: "x \<notin> set (f p)" if "p \<noteq> q" for p using qrep_disjoint [OF R, of q p x] that Q by auto
    have T: "?t \<notin> set (f p)" if "p \<noteq> q" for p
      using qrep_disjoint [OF R, of q p ?t] that Q tx by auto
    have "qrep m' (f(q := ys @ [x]))"
      using R X T J Q
      by (intro qrep_update [OF R m'(1)])
        (auto simp: m'(2) qrep_inst dest: qrep_disjoint [of m f _ q])
    with E Q show ?thesis by simp
  qed
qed

lemma queue_insert_empty_rep:
  assumes "qrep m f" "unlinked f x" "f q = []"
  shows "\<exists>m'. queue_insert (Some q) (Some x) a m = Some (EOK, m') \<and> qrep m' (f(q := [x]))"
  using assms queue_enqueue_rep [of m f x q] by (simp add: queue_insert_def)

lemma queue_insert_front_rep:
  assumes R: "qrep m f" and U: "unlinked f x" and L: "Suc (length (f q)) < 2 ^ 32" and N: "f q \<noteq> []"
  shows "\<exists>m'. queue_insert (Some q) (Some x) None m = Some (EOK, m') \<and> qrep m' (f(q := x # f q))"
proof -
  let ?i = "qinst m q"
  let ?j = "?i\<lparr>qi_head := Some x, qi_counter := qi_counter ?i + 1\<rparr>"
  have I: "qinst_rep (qnext m) ?i (f q)" using R by (rule qrep_inst)
  have X: "x \<notin> set (f p)" for p using U by (simp add: unlinked_def)
  have "\<exists>m'. queue_insert (Some q) (Some x) None m = Some (EOK, m') \<and>
      qinst m' = (qinst m)(q := ?j) \<and> qnext m' = (qnext m)(x := qi_head ?i)"
    using R N by (simp add: queue_insert_def Let_def)
  then obtain m' where E: "queue_insert (Some q) (Some x) None m = Some (EOK, m')"
    and m': "qinst m' = (qinst m)(q := ?j)" "qnext m' = (qnext m)(x := qi_head ?i)" by blast
  have J: "qinst_rep (qnext m') ?j (x # f q)"
    using I L X N by (auto simp: m'(2) qinst_rep_def last_ptr_def)
  have "qrep m' (f(q := x # f q))"
    using R X J by (intro qrep_update [OF R m'(1)])
      (auto simp: m'(2) qrep_inst dest: qrep_disjoint [of m f _ q])
  with E show ?thesis by simp
qed

lemma queue_insert_after_rep:
  assumes R: "qrep m f" and U: "unlinked f x" and L: "Suc (length (f q)) < 2 ^ 32"
    and Q: "f q = ys @ a # zs"
  shows "\<exists>m'. queue_insert (Some q) (Some x) (Some a) m = Some (EOK, m') \<and>
    qrep m' (f(q := ys @ a # x # zs))"
proof -
  let ?i = "qinst m q"
  let ?i1 = "?i\<lparr>qi_counter := qi_counter ?i + 1\<rparr>"
  let ?j = "if qnext m a = None then ?i1\<lparr>qi_tail := Some x\<rparr> else ?i1"
  have I: "qinst_rep (qnext m) ?i (ys @ a # zs)" using qrep_inst [OF R, of q] Q by simp
  have X: "x \<notin> set (f p)" for p using U by (simp add: unlinked_def)
  have xa: "x \<noteq> a" using X [of q] Q by auto
  have "\<exists>m'. queue_insert (Some q) (Some x) (Some a) m = Some (EOK, m') \<and>
      qinst m' = (qinst m)(q := ?j) \<and> qnext m' = (qnext m)(x := qnext m a, a := Some x)"
    using R Q xa by (simp add: queue_insert_def Let_def)
  then obtain m' where E: "queue_insert (Some q) (Some x) (Some a) m = Some (EOK, m')"
    and m': "qinst m' = (qinst m)(q := ?j)" "qnext m' = (qnext m)(x := qnext m a, a := Some x)"
    by blast
  have "nlist (qnext m') (qi_head ?i) (ys @ a # x # zs)"
    unfolding m' using I X [of q] Q by (intro nlist_insert_after) (auto simp: qinst_rep_def)
  moreover have "qnext m a = None \<longleftrightarrow> zs = []"
    using I by (auto simp: qinst_rep_def dest: nlist_next_of split: list.splits)
  ultimately have J: "qinst_rep (qnext m') ?j (ys @ a # x # zs)"
    using I L X [of q] Q by (auto simp: qinst_rep_def last_ptr_def add.commute)
  have A: "a \<notin> set (f p)" if "p \<noteq> q" for p using qrep_disjoint [OF R, of q p a] that Q by auto
  have "qrep m' (f(q := ys @ a # x # zs))"
    using R X A J Q by (intro qrep_update [OF R m'(1)])
      (auto simp: m'(2) qrep_inst dest: qrep_disjoint [of m f _ q])
  with E show ?thesis by simp
qed

lemma queue_init_rep:
  assumes "\<And>p. p \<noteq> q \<Longrightarrow> qinst_rep (qnext m) (qinst m p) (f p)"
    and "\<And>p r. p \<noteq> r \<Longrightarrow> p \<noteq> q \<Longrightarrow> r \<noteq> q \<Longrightarrow> set (f p) \<inter> set (f r) = {}"
  shows "fst (queue_init (Some q) m) = EOK \<and> qrep (snd (queue_init (Some q) m)) (f(q := []))"
  using assms by (auto simp: queue_init_def qrep_def qinst_rep_def)

section \<open>The contract offered to clients\<close>

text \<open>
  The interface of a family of queues sharing one memory, as the scheduler and the event queues use
  it: \<open>rep m f\<close> gives the contents of every queue, and each operation has its list meaning. The
  capacity bound \<open>cap\<close> is the range of the element counter.
\<close>

locale queue_iface =
  fixes rep :: "'m \<Rightarrow> ('q \<Rightarrow> 'n list) \<Rightarrow> bool"
    and enq :: "'q \<Rightarrow> 'n \<Rightarrow> 'm \<Rightarrow> (status \<times> 'm) option"
    and deq :: "'q \<Rightarrow> 'm \<Rightarrow> (status \<times> 'n option \<times> 'm) option"
    and roll :: "'q \<Rightarrow> 'm \<Rightarrow> (status \<times> 'm) option"
    and cap :: nat
  assumes enq_rep: "rep m f \<Longrightarrow> unlinked f x \<Longrightarrow> Suc (length (f q)) < cap \<Longrightarrow>
      \<exists>m'. enq q x m = Some (EOK, m') \<and> rep m' (f(q := f q @ [x]))"
    and deq_Nil: "rep m f \<Longrightarrow> f q = [] \<Longrightarrow> deq q m = Some (EAGAIN, None, m)"
    and deq_Cons: "rep m f \<Longrightarrow> f q = x # xs \<Longrightarrow>
      \<exists>m'. deq q m = Some (EOK, Some x, m') \<and> rep m' (f(q := xs))"
    and roll_rep: "rep m f \<Longrightarrow> \<exists>m'. roll q m = Some (EOK, m') \<and> rep m' (f(q := rotate1 (f q)))"
    and rep_distinct: "rep m f \<Longrightarrow> distinct (f q)"
    and rep_disjoint: "rep m f \<Longrightarrow> p \<noteq> q \<Longrightarrow> x \<in> set (f p) \<Longrightarrow> x \<notin> set (f q)"
begin

lemma head_unlinked:
  assumes "rep m f" "f q = x # xs"
  shows "unlinked (f(q := xs)) x"
  using assms rep_distinct [of m f q] rep_disjoint [of m f q _ x]
  by (auto simp: unlinked_def)

text \<open>Moving the head of one queue to the tail of another never fails and loses no node.\<close>

lemma transfer:
  assumes R: "rep m f" and Q: "f p = x # xs" and pq: "p \<noteq> q" and L: "Suc (length (f q)) < cap"
  shows "\<exists>m1 m2. deq p m = Some (EOK, Some x, m1) \<and> rep m1 (f(p := xs)) \<and>
    enq q x m1 = Some (EOK, m2) \<and> rep m2 (f(p := xs, q := f q @ [x]))"
proof -
  obtain m1 where d: "deq p m = Some (EOK, Some x, m1)" "rep m1 (f(p := xs))"
    using deq_Cons [OF R Q] by blast
  have "Suc (length ((f(p := xs)) q)) < cap" using L pq by simp
  with enq_rep [of m1 "f(p := xs)" x q] d(2) head_unlinked [OF R Q] pq
  have "\<exists>m2. enq q x m1 = Some (EOK, m2) \<and> rep m2 (f(p := xs, q := f q @ [x]))"
    by simp
  with d show ?thesis by blast
qed

text \<open>Enqueueing and then dequeueing \<open>length (f q)\<close> other nodes first returns the node: FIFO order.\<close>

fun deq_many :: "nat \<Rightarrow> 'q \<Rightarrow> 'm \<Rightarrow> ('n list \<times> 'm) option" where
  "deq_many 0 q m = Some ([], m)"
| "deq_many (Suc n) q m =
     (case deq q m of
        Some (EOK, Some x, m') \<Rightarrow>
          (case deq_many n q m' of Some (ys, m'') \<Rightarrow> Some (x # ys, m'') | None \<Rightarrow> None)
      | _ \<Rightarrow> None)"

lemma deq_many_rep:
  "rep m f \<Longrightarrow> n \<le> length (f q) \<Longrightarrow>
   \<exists>m'. deq_many n q m = Some (take n (f q), m') \<and> rep m' (f(q := drop n (f q)))"
proof (induction n arbitrary: m f)
  case (Suc n)
  then obtain x xs where Q: "f q = x # xs" by (cases "f q") auto
  obtain m1 where d: "deq q m = Some (EOK, Some x, m1)" "rep m1 (f(q := xs))"
    using deq_Cons [OF Suc.prems(1) Q] by blast
  from Suc.IH [of m1 "f(q := xs)"] d(2) Suc.prems Q
  obtain m2 where "deq_many n q m1 = Some (take n xs, m2)" "rep m2 (f(q := drop n xs))"
    by (auto simp del: fun_upd_apply simp: fun_upd_same)
  with d(1) Q show ?case by (auto simp del: fun_upd_apply)
qed simp

end

interpretation cq: queue_iface qrep
  "\<lambda>q x. queue_enqueue (Some q) (Some x)" "\<lambda>q. queue_dequeue (Some q) True"
  "\<lambda>q. queue_roll (Some q)" "2 ^ 32"
  by unfold_locales
    (auto intro: queue_enqueue_rep queue_dequeue_empty queue_dequeue_rep queue_roll_rep
      qrep_distinct dest: qrep_disjoint)

section \<open>Stacks\<close>

lemma stack_push_pop:
  assumes h: "qi_head (qinst m q) = None \<longleftrightarrow> qi_counter (qinst m q) = 0" and c: "qi_counter (qinst m q) + 1 \<noteq> 0"
  shows "\<exists>m1 m2. stack_push (Some q) (Some x) m = (EOK, m1) \<and> stack_pop (Some q) True m1 = Some (EOK, Some x, m2) \<and>
    qinst m2 = qinst m \<and> qnext m2 = (qnext m)(x := None)"
proof (cases "qi_head (qinst m q)")
  case None
  then have "(qinst m)(q := (qinst m q)\<lparr>qi_head := None, qi_counter := 0\<rparr>) = qinst m"
    using h by (intro ext) (cases "qinst m q", auto)
  with None h show ?thesis by (simp add: stack_push_def stack_pop_def Let_def)
next
  case (Some y)
  then have "(qinst m)(q := (qinst m q)\<lparr>qi_head := Some y, qi_counter := qi_counter (qinst m q)\<rparr>) = qinst m"
    by (intro ext) (cases "qinst m q", auto)
  with Some c show ?thesis by (simp add: stack_push_def stack_pop_def Let_def)
qed

section \<open>First in, first out\<close>

fun deq_times :: "nat \<Rightarrow> 'q \<Rightarrow> ('q, 'n) qmem \<Rightarrow> ('n list \<times> ('q, 'n) qmem) option" where
  "deq_times 0 q m = Some ([], m)"
| "deq_times (Suc n) q m =
     (case queue_dequeue (Some q) True m of
        Some (EOK, Some x, m') \<Rightarrow>
          (case deq_times n q m' of Some (ys, m'') \<Rightarrow> Some (x # ys, m'') | None \<Rightarrow> None)
      | _ \<Rightarrow> None)"

lemma deq_times_many: "deq_times n q m = cq.deq_many n q m"
  by (induction n arbitrary: m) (simp_all split: option.splits prod.splits status.splits)

section \<open>Properties\<close>

definition no_queues :: "(nat, nat) qmem" where
  "no_queues = \<lparr>qinst = (\<lambda>_. \<lparr>qi_head = None, qi_tail = None, qi_counter = 0\<rparr>), qnext = (\<lambda>_. None)\<rparr>"

lemma no_queues_rep: "qrep no_queues (\<lambda>_. [])"
  by (simp add: qrep_def qinst_rep_def no_queues_def)

text \<open>C9: the pointer operations of the kernel queues implement the list operations. On a memory of
  well-formed, disjoint queues, enqueueing a node that is linked nowhere appends it, dequeueing takes
  the head (or reports \<open>EAGAIN\<close> for an empty queue and changes nothing), rolling moves the head to
  the tail; no pointer is dereferenced that is \<open>NULL\<close>, and every other queue keeps its contents.\<close>

theorem queue_refines_list:
  assumes "qrep m f" "unlinked f x" "Suc (length (f q)) < 2 ^ 32"
  shows "(\<exists>m'. queue_enqueue (Some q) (Some x) m = Some (EOK, m') \<and> qrep m' (f(q := f q @ [x]))) \<and>
    (case f q of
       [] \<Rightarrow> queue_dequeue (Some q) True m = Some (EAGAIN, None, m)
     | y # ys \<Rightarrow> \<exists>m'. queue_dequeue (Some q) True m = Some (EOK, Some y, m') \<and> qrep m' (f(q := ys))) \<and>
    (\<exists>m'. queue_roll (Some q) m = Some (EOK, m') \<and> qrep m' (f(q := rotate1 (f q))))"
  using cq.enq_rep [OF assms] cq.deq_Nil [of m f q] cq.deq_Cons [of m f q] cq.roll_rep [of m f q] assms(1)
  by (auto split: list.splits)

theorem queue_refines_list_witness:
  "qrep no_queues (\<lambda>_. []) \<and>
   (\<exists>m'. queue_enqueue (Some 0) (Some 7) no_queues = Some (EOK, m') \<and> qrep m' ((\<lambda>_. [])(0 := [7])))"
  using queue_refines_list [OF no_queues_rep, of 7 0] no_queues_rep by (simp add: unlinked_def)

text \<open>First in, first out. The first \<open>n\<close> dequeues of a queue return its first \<open>n\<close> nodes in order
  and leave the rest, whatever the other queues hold.\<close>

theorem queue_fifo:
  assumes "qrep m f" "n \<le> length (f q)"
  shows "\<exists>m'. deq_times n q m = Some (take n (f q), m') \<and> qrep m' (f(q := drop n (f q)))"
  using cq.deq_many_rep [OF assms] by (simp add: deq_times_many)

theorem queue_fifo_witness:
  "\<exists>m m'. qrep m ((\<lambda>_. [])(0 := [7, 9])) \<and> deq_times 2 (0::nat) m = Some ([7::nat, 9], m')"
proof -
  let ?m = "no_queues\<lparr>qinst := (qinst no_queues)(0 := \<lparr>qi_head = Some 7, qi_tail = Some 9, qi_counter = 2\<rparr>),
    qnext := (qnext no_queues)(7 := Some 9)\<rparr>"
  have r: "qrep ?m ((\<lambda>_. [])(0 := [7, 9]))"
    by (auto simp: qrep_def qinst_rep_def no_queues_def last_ptr_def)
  from queue_fifo [OF this, of 2 0] r show ?thesis by auto
qed

text \<open>Inserting into a queue. A node is inserted at the front when no predecessor is given, behind
  the given predecessor otherwise, and becomes the tail when it is last.\<close>

theorem queue_insert_correct:
  assumes "qrep m f" "unlinked f x" "Suc (length (f q)) < 2 ^ 32" "f q = ys @ zs"
  shows "\<exists>m'. queue_insert (Some q) (Some x) (if ys = [] then None else Some (last ys)) m = Some (EOK, m') \<and>
    qrep m' (f(q := ys @ x # zs)) \<and> queue_tail (Some q) m' = Some (last (x # zs))"
proof -
  have "\<exists>m'. queue_insert (Some q) (Some x) (if ys = [] then None else Some (last ys)) m = Some (EOK, m') \<and>
    qrep m' (f(q := ys @ x # zs))"
  proof (cases "ys = []")
    case True
    then show ?thesis
      using queue_insert_empty_rep [OF assms(1,2), of q None] queue_insert_front_rep [OF assms(1-3)] assms(4)
      by (cases zs) auto
  next
    case False
    then have e: "f q = butlast ys @ last ys # zs" "ys @ x # zs = butlast ys @ last ys # x # zs"
      using assms(4) by (simp_all flip: append_butlast_last_id)
    show ?thesis unfolding e(2) using queue_insert_after_rep [OF assms(1-3) e(1)] False by simp
  qed
  then obtain m' where m': "queue_insert (Some q) (Some x) (if ys = [] then None else Some (last ys)) m = Some (EOK, m')"
    "qrep m' (f(q := ys @ x # zs))" by blast
  have "qi_tail (qinst m' q) = last_ptr (ys @ x # zs)" using qrep_inst [OF m'(2), of q] by (simp add: qinst_rep_def)
  with m' show ?thesis by (auto simp: queue_tail_def last_ptr_def)
qed

theorem queue_insert_correct_witness:
  "qrep no_queues (\<lambda>_. []) \<and>
   (\<exists>m'. queue_insert (Some 0) (Some 7) None no_queues = Some (EOK, m') \<and>
      qrep m' ((\<lambda>_. [])(0 := [7])) \<and> queue_tail (Some 0) m' = Some 7)"
  using queue_insert_correct [OF no_queues_rep, where x = 7 and q = 0 and ys = "[]" and zs = "[]"] no_queues_rep by (simp add: unlinked_def)

text \<open>Pushing a node on a stack and popping it gives the node back and restores the stack, counter
  included.\<close>

theorem stack_roundtrip:
  assumes "qi_head (qinst m q) = None \<longleftrightarrow> qi_counter (qinst m q) = 0" "qi_counter (qinst m q) + 1 \<noteq> 0"
  shows "\<exists>m1 m2. stack_push (Some q) (Some x) m = (EOK, m1) \<and> stack_pop (Some q) True m1 = Some (EOK, Some x, m2) \<and>
    qinst m2 = qinst m \<and> qnext m2 = (qnext m)(x := None)"
  using assms by (rule stack_push_pop)

theorem stack_roundtrip_witness:
  "\<exists>m1 m2. stack_push (Some 0) (Some 7) no_queues = (EOK, m1) \<and> stack_pop (Some 0) True m1 = Some (EOK, Some 7, m2) \<and>
    qinst m2 = qinst no_queues \<and> qnext m2 = (qnext no_queues)(7 := None)"
  by (rule stack_roundtrip) (simp_all add: no_queues_def)

section \<open>Queues of at most one node\<close>

text \<open>A memory in which every queue holds at most one node; the sample states are built on it.\<close>

definition singles :: "('q \<Rightarrow> 'n option) \<Rightarrow> ('q, 'n) qmem" where
  "singles h = \<lparr>qinst = (\<lambda>q. \<lparr>qi_head = h q, qi_tail = h q, qi_counter = (if h q = None then 0 else 1)\<rparr>),
     qnext = (\<lambda>_. None)\<rparr>"

definition single_lists :: "('q \<Rightarrow> 'n option) \<Rightarrow> 'q \<Rightarrow> 'n list" where
  "single_lists h q = (case h q of None \<Rightarrow> [] | Some x \<Rightarrow> [x])"

lemma singles_rep:
  assumes "\<And>p q x. h p = Some x \<Longrightarrow> h q = Some x \<Longrightarrow> p = q"
  shows "qrep (singles h) (single_lists h)"
proof -
  have "set (single_lists h p) \<inter> set (single_lists h q) = {}" if "p \<noteq> q" for p q
    using assms [of p _ q] that by (cases "h p"; cases "h q") (auto simp: single_lists_def)
  then show ?thesis
    by (auto simp: qrep_def qinst_rep_def singles_def single_lists_def last_ptr_def split: option.splits)
qed

end
