(* ===== verification/Threads.thy ===== *)
theory Threads
  imports Queue
begin

text \<open>
  The thread table, \<^verbatim>\<open>src/kernel/threads_data.h\<close> and \<^verbatim>\<open>src/kernel/threads.c\<close>, and the data the
  scheduler keeps beside it (\<^verbatim>\<open>src/kernel/scheduler.c\<close>, lines 53 to 105). A pointer to a \<open>thread_t\<close> is
  the index of its slot in \<open>thread_storage\<close>; the embedded \<open>header\<close> is the first field, so the queue
  node of a thread has the same address and its \<open>next\<close> pointer lives in the queue memory \<open>sqm\<close>.

  What \<open>malloc\<close> returns for a new stack and what the platform's \<open>setup_context\<close> stores are
  arguments of \<open>init_thread\<close>. Messages printed on the console are not modelled.
\<close>

unbundle bit_operations_syntax

definition DIEGOS_MAX_THREADS :: nat where "DIEGOS_MAX_THREADS = 20"
definition THREAD_TID_IDLE :: u8 where "THREAD_TID_IDLE = 0"
definition THREAD_TID_TMRS :: u8 where "THREAD_TID_TMRS = 1"
definition THREAD_TID_INVALID :: u8 where "THREAD_TID_INVALID = 255"
definition THREAD_NAME_MAX :: nat where "THREAD_NAME_MAX = 15"
definition THREAD_PRIORITIES :: nat where "THREAD_PRIORITIES = 4"

lemmas thread_consts = DIEGOS_MAX_THREADS_def THREAD_TID_IDLE_def THREAD_TID_TMRS_def
  THREAD_TID_INVALID_def THREAD_NAME_MAX_def THREAD_PRIORITIES_def

datatype tstate = THREAD_RUNNING | THREAD_WAITING | THREAD_READY | THREAD_DEAD

text \<open>
  The flags are a 12 bit field. Masks passed as \<open>uint32_t\<close> arguments only ever meet this field in a
  conjunction, so their low 12 bits determine the result.
\<close>

type_synonym tflags = "12 word"

definition THREAD_FLAG_TERMINATE :: tflags where "THREAD_FLAG_TERMINATE = 1"
definition THREAD_FLAG_REL_STACK :: tflags where "THREAD_FLAG_REL_STACK = 2"
definition THREAD_FLAG_WAIT_TIMEOUT :: tflags where "THREAD_FLAG_WAIT_TIMEOUT = 4"
definition THREAD_FLAG_WAIT_MUTEX :: tflags where "THREAD_FLAG_WAIT_MUTEX = 8"
definition THREAD_FLAG_WAIT_EVENT :: tflags where "THREAD_FLAG_WAIT_EVENT = 16"
definition THREAD_FLAG_WAIT_BARRIER :: tflags where "THREAD_FLAG_WAIT_BARRIER = 32"
definition THREAD_FLAG_WAIT_COMPLETION :: tflags where "THREAD_FLAG_WAIT_COMPLETION = 64"

definition THREAD_MASK_EVENTS :: tflags where
  "THREAD_MASK_EVENTS = THREAD_FLAG_WAIT_MUTEX OR THREAD_FLAG_WAIT_EVENT OR
     THREAD_FLAG_WAIT_BARRIER OR THREAD_FLAG_WAIT_COMPLETION"

definition THREAD_MASK_WAIT :: tflags where
  "THREAD_MASK_WAIT = THREAD_FLAG_WAIT_TIMEOUT OR THREAD_FLAG_WAIT_MUTEX OR
     THREAD_FLAG_WAIT_EVENT OR THREAD_FLAG_WAIT_BARRIER OR THREAD_FLAG_WAIT_COMPLETION"

lemmas flag_defs = THREAD_FLAG_TERMINATE_def THREAD_FLAG_REL_STACK_def THREAD_FLAG_WAIT_TIMEOUT_def
  THREAD_FLAG_WAIT_MUTEX_def THREAD_FLAG_WAIT_EVENT_def THREAD_FLAG_WAIT_BARRIER_def
  THREAD_FLAG_WAIT_COMPLETION_def THREAD_MASK_EVENTS_def THREAD_MASK_WAIT_def

record thread =
  t_context :: nat
  t_name :: string
  t_priority :: nat
  t_state :: tstate
  t_flags :: tflags
  t_tid :: u8
  t_entry :: "nat option"
  t_stack :: "nat option"
  t_stack_size :: u32
  t_delay :: u64

text \<open>What \<open>memset(th, 0, sizeof( *th))\<close> leaves: \<open>THREAD_RUNNING\<close> is the enumerator with value 0.\<close>

definition zero_thread :: thread where
  "zero_thread = \<lparr>t_context = 0, t_name = '''', t_priority = 0, t_state = THREAD_RUNNING,
     t_flags = 0, t_tid = 0, t_entry = None, t_stack = None, t_stack_size = 0, t_delay = 0\<rparr>"

datatype sqid = Ready nat | Dead | Delay | Wait

record sched =
  running :: "nat option"
  sqm :: "(sqid, nat) qmem"
  storage :: "nat \<Rightarrow> thread"
  thread_num :: u32
  new_delay_wq :: u32
  new_delay_dq :: u32

abbreviation upd_thread :: "nat \<Rightarrow> (thread \<Rightarrow> thread) \<Rightarrow> sched \<Rightarrow> sched" where
  "upd_thread p g s \<equiv> s\<lparr>storage := (storage s)(p := g (storage s p))\<rparr>"

text \<open>Updates of different fields commute; the rules sort them in the order of the fields.\<close>

lemma sched_update_order [simp]:
  fixes s :: sched
  shows
  "running_update g0 (sqm_update g1 s) = sqm_update g1 (running_update g0 s)"
  "running_update g0 (storage_update g2 s) = storage_update g2 (running_update g0 s)"
  "running_update g0 (thread_num_update g3 s) = thread_num_update g3 (running_update g0 s)"
  "running_update g0 (new_delay_wq_update g4 s) = new_delay_wq_update g4 (running_update g0 s)"
  "running_update g0 (new_delay_dq_update g5 s) = new_delay_dq_update g5 (running_update g0 s)"
  "sqm_update g1 (storage_update g2 s) = storage_update g2 (sqm_update g1 s)"
  "sqm_update g1 (thread_num_update g3 s) = thread_num_update g3 (sqm_update g1 s)"
  "sqm_update g1 (new_delay_wq_update g4 s) = new_delay_wq_update g4 (sqm_update g1 s)"
  "sqm_update g1 (new_delay_dq_update g5 s) = new_delay_dq_update g5 (sqm_update g1 s)"
  "storage_update g2 (thread_num_update g3 s) = thread_num_update g3 (storage_update g2 s)"
  "storage_update g2 (new_delay_wq_update g4 s) = new_delay_wq_update g4 (storage_update g2 s)"
  "storage_update g2 (new_delay_dq_update g5 s) = new_delay_dq_update g5 (storage_update g2 s)"
  "thread_num_update g3 (new_delay_wq_update g4 s) = new_delay_wq_update g4 (thread_num_update g3 s)"
  "thread_num_update g3 (new_delay_dq_update g5 s) = new_delay_dq_update g5 (thread_num_update g3 s)"
  "new_delay_wq_update g4 (new_delay_dq_update g5 s) = new_delay_dq_update g5 (new_delay_wq_update g4 s)"
  by (cases s; simp)+

section \<open>The thread table\<close>

definition init_thread_lib :: "bool \<Rightarrow> sched \<Rightarrow> bool \<times> sched" where
  "init_thread_lib malloc_ok s =
     (if DIEGOS_MAX_THREADS \<ge> unat THREAD_TID_INVALID then (False, s)
      else if \<not> malloc_ok then (False, s)
      else (True, s\<lparr>storage := (\<lambda>i. if i < DIEGOS_MAX_THREADS
                                    then zero_thread\<lparr>t_tid := THREAD_TID_INVALID\<rparr> else storage s i)\<rparr>))"

definition get_thread :: "u8 \<Rightarrow> sched \<Rightarrow> nat option" where
  "get_thread tid s =
     (if tid < THREAD_TID_INVALID \<and> unat tid < DIEGOS_MAX_THREADS \<and> t_tid (storage s (unat tid)) = tid
      then Some (unat tid) else None)"

text \<open>
  The loop of \<open>init_thread\<close>: the first free slot is recorded and every other slot is compared by
  name; \<open>None\<close> is the early return for a name that is already there.
\<close>

fun scan_slots :: "(nat \<Rightarrow> thread) \<Rightarrow> string \<Rightarrow> nat list \<Rightarrow> nat option \<Rightarrow> nat option option" where
  "scan_slots st name [] new_tid = Some new_tid"
| "scan_slots st name (i # is) new_tid =
     (if new_tid = None \<and> t_name (st i) = [] \<and> t_tid (st i) = THREAD_TID_INVALID
      then scan_slots st name is (Some i)
      else if take THREAD_NAME_MAX (t_name (st i)) = take THREAD_NAME_MAX name then None
      else scan_slots st name is new_tid)"

definition init_thread ::
  "string option \<Rightarrow> u8 \<Rightarrow> nat option \<Rightarrow> nat option \<Rightarrow> u32 \<Rightarrow> nat option \<Rightarrow> nat \<Rightarrow> sched \<Rightarrow>
   (u8 \<times> sched) option" where
  "init_thread name prio entry_ptr stack stack_size malloced ctx s =
     (if unat (thread_num s) = DIEGOS_MAX_THREADS \<or> name = None \<or> entry_ptr = None \<or>
         \<not> unat prio < THREAD_PRIORITIES
      then Some (THREAD_TID_INVALID, s)
      else
        case scan_slots (storage s) (the name) [0..<DIEGOS_MAX_THREADS] None of
          None \<Rightarrow> Some (THREAD_TID_INVALID, s)
        | Some None \<Rightarrow> None
        | Some (Some i) \<Rightarrow>
           (let t0 = storage s i;
                t1 = (if stack \<noteq> None then t0\<lparr>t_stack := stack\<rparr>
                      else t0\<lparr>t_stack := malloced, t_flags := t_flags t0 OR THREAD_FLAG_REL_STACK\<rparr>)
            in if t_stack t1 = None then
                 Some (THREAD_TID_INVALID, s\<lparr>storage := (storage s)(i := t1\<lparr>t_flags := 0\<rparr>)\<rparr>)
               else
                 Some (of_nat i,
                   s\<lparr>storage := (storage s)(i := t1\<lparr>t_stack_size := stack_size,
                        t_name := take THREAD_NAME_MAX (the name), t_priority := unat prio,
                        t_state := THREAD_READY, t_tid := of_nat i, t_entry := entry_ptr,
                        t_delay := 0, t_context := ctx\<rparr>),
                     thread_num := thread_num s + 1\<rparr>)))"

text \<open>
  \<open>done_thread\<close> clears the whole descriptor, the \<open>next\<close> pointer of its header included. The
  components of the result are the stack handed to \<open>free\<close>, if any, the returned boolean and the
  new state.
\<close>

definition done_thread :: "u8 \<Rightarrow> sched \<Rightarrow> nat option \<times> bool \<times> sched" where
  "done_thread tid s =
     (case get_thread tid s of
        None \<Rightarrow> (None, False, s)
      | Some p \<Rightarrow>
         (let th = storage s p in
          (if t_flags th AND THREAD_FLAG_REL_STACK \<noteq> 0 then t_stack th else None, True,
           s\<lparr>storage := (storage s)(p := zero_thread\<lparr>t_tid := THREAD_TID_INVALID\<rparr>),
             sqm := upd_next p None (sqm s), thread_num := thread_num s - 1\<rparr>)))"

fun state2str :: "tstate \<Rightarrow> string" where
  "state2str THREAD_RUNNING = ''RUNNING''"
| "state2str THREAD_WAITING = ''WAITING''"
| "state2str THREAD_READY = ''READY''"
| "state2str THREAD_DEAD = ''DEAD''"

definition flags2str :: "tflags \<Rightarrow> string" where
  "flags2str flags =
     (if flags AND THREAD_FLAG_TERMINATE \<noteq> 0 then ''TERM '' else []) @
     (if flags AND THREAD_FLAG_REL_STACK \<noteq> 0 then ''RELS '' else []) @
     (if flags AND THREAD_FLAG_WAIT_TIMEOUT \<noteq> 0 then ''WTMO '' else []) @
     (if flags AND THREAD_FLAG_WAIT_MUTEX \<noteq> 0 then ''WMTX '' else []) @
     (if flags AND THREAD_FLAG_WAIT_EVENT \<noteq> 0 then ''WEVT '' else []) @
     (if flags AND THREAD_FLAG_WAIT_BARRIER \<noteq> 0 then ''WBAR '' else []) @
     (if flags AND THREAD_FLAG_WAIT_COMPLETION \<noteq> 0 then ''WCOM '' else [])"

section \<open>Well-formed thread tables\<close>

definition table_ok :: "(nat \<Rightarrow> thread) \<Rightarrow> bool" where
  "table_ok st \<longleftrightarrow> (\<forall>p < DIEGOS_MAX_THREADS.
     t_tid (st p) = of_nat p \<and> t_priority (st p) < THREAD_PRIORITIES \<or> t_tid (st p) = THREAD_TID_INVALID)"

section \<open>Flag algebra\<close>

abbreviation has :: "tflags \<Rightarrow> tflags \<Rightarrow> bool" where
  "has m w \<equiv> w AND m \<noteq> 0"

lemma mask_parts:
  "THREAD_MASK_WAIT = THREAD_MASK_EVENTS OR THREAD_FLAG_WAIT_TIMEOUT"
  by (simp add: flag_defs)

lemma and_swap: "(a AND b) AND c = (a AND c) AND (b :: 'a::len word)"
  by (simp add: ac_simps)

lemma clear_wait_has [flag_simps]:
  "(w AND NOT THREAD_MASK_WAIT) AND THREAD_MASK_WAIT = 0"
  "(w AND NOT THREAD_MASK_WAIT) AND THREAD_MASK_EVENTS = 0"
  "(w AND NOT THREAD_MASK_WAIT) AND THREAD_FLAG_WAIT_TIMEOUT = 0"
  "(w AND NOT THREAD_MASK_WAIT) AND THREAD_FLAG_TERMINATE = w AND THREAD_FLAG_TERMINATE"
  "(w AND NOT THREAD_MASK_WAIT) AND THREAD_FLAG_REL_STACK = w AND THREAD_FLAG_REL_STACK"
  by (simp_all add: flag_defs and.assoc)

lemma or_terminate_has [flag_simps]:
  "(w OR THREAD_FLAG_TERMINATE) AND THREAD_FLAG_TERMINATE \<noteq> 0"
  "(w OR THREAD_FLAG_TERMINATE) AND THREAD_MASK_WAIT = w AND THREAD_MASK_WAIT"
  by (simp_all add: flag_defs bit.conj_disj_distrib2)

end
