(* ===== verification/Scheduler.thy ===== *)
theory Scheduler
  imports Threads
begin

text \<open>
  The scheduler's queues, \<^verbatim>\<open>src/kernel/scheduler.c\<close>, operations that do not call other kernel
  components: the state changes of a single thread (suspend, resume, delay, wait, add), the passes
  over the wait queue and over the delay queue, the choice of the next running thread and the
  destruction of dead threads. The operations that call the event, barrier, I/O and mutex code
  (\<open>update_schedule\<close>, \<open>schedule_thread\<close>, \<open>scheduler_remove_thread\<close>) are in the theory \<open>Kernel\<close>.

  \<open>now\<close> is the value \<open>clock_get_milliseconds\<close> returns to the call. A pass of the scheduler is atomic:
  an interrupt between two of its statements is not modelled.
\<close>

unbundle bit_operations_syntax

definition SCHED_DELAY_MAX :: u32 where "SCHED_DELAY_MAX = 10 * 1000"

section \<open>Queue access\<close>

text \<open>\<open>ready_queues[prio]\<close>; an index outside the array is a fault.\<close>

definition ready_queue :: "nat \<Rightarrow> sqid option" where
  "ready_queue prio = (if prio < THREAD_PRIORITIES then Some (Ready prio) else None)"

definition sq_enq :: "sqid \<Rightarrow> nat \<Rightarrow> sched \<Rightarrow> (status \<times> sched) option" where
  "sq_enq q p s = do { (r, m) \<leftarrow> queue_enqueue (Some q) (Some p) (sqm s); Some (r, s\<lparr>sqm := m\<rparr>) }"

definition sq_deq :: "sqid \<Rightarrow> sched \<Rightarrow> (status \<times> nat option \<times> sched) option" where
  "sq_deq q s = do { (r, p, m) \<leftarrow> queue_dequeue (Some q) True (sqm s); Some (r, p, s\<lparr>sqm := m\<rparr>) }"

definition sq_roll :: "sqid \<Rightarrow> sched \<Rightarrow> (status \<times> sched) option" where
  "sq_roll q s = do { (r, m) \<leftarrow> queue_roll (Some q) (sqm s); Some (r, s\<lparr>sqm := m\<rparr>) }"

definition sq_insert :: "sqid \<Rightarrow> nat \<Rightarrow> nat option \<Rightarrow> sched \<Rightarrow> (status \<times> sched) option" where
  "sq_insert q p after s =
     do { (r, m) \<leftarrow> queue_insert (Some q) (Some p) after (sqm s); Some (r, s\<lparr>sqm := m\<rparr>) }"

abbreviation sq_head :: "sqid \<Rightarrow> sched \<Rightarrow> nat option" where
  "sq_head q s \<equiv> queue_head (Some q) (sqm s)"

abbreviation sq_count :: "sqid \<Rightarrow> sched \<Rightarrow> u32" where
  "sq_count q s \<equiv> queue_count (Some q) (sqm s)"

section \<open>State changes of one thread\<close>

definition scheduler_init :: "sched \<Rightarrow> bool \<times> sched" where
  "scheduler_init s =
     (let init = (\<lambda>q (ok, m). if ok then (case queue_init (Some q) m of (r, m') \<Rightarrow> (r = EOK, m'))
                              else (ok, m));
          (ok, m) = fold init (map Ready [0..<THREAD_PRIORITIES] @ [Delay, Dead, Wait]) (True, sqm s)
      in (ok, s\<lparr>sqm := m\<rparr>))"

definition scheduler_suspend_thread :: "sched \<Rightarrow> (bool \<times> sched) option" where
  "scheduler_suspend_thread s =
     do { r \<leftarrow> running s;
          q \<leftarrow> ready_queue (t_priority (storage s r));
          (st, s1) \<leftarrow> sq_enq q r s;
          if st \<noteq> EOK then Some (False, s1)
          else Some (True, upd_thread r (\<lambda>t. t\<lparr>t_state := THREAD_READY\<rparr>) s1) }"

definition scheduler_resume_thread :: "tflags \<Rightarrow> u8 \<Rightarrow> sched \<Rightarrow> bool \<times> sched" where
  "scheduler_resume_thread flags tid s =
     (case get_thread tid s of
        None \<Rightarrow> (False, s)
      | Some p \<Rightarrow>
         (let t = storage s p in
          if t_state t \<noteq> THREAD_WAITING then (False, s)
          else if flags AND (t_flags t AND THREAD_MASK_WAIT) = 0 then (False, s)
          else (True, upd_thread p (\<lambda>t. t\<lparr>t_flags := t_flags t AND NOT THREAD_MASK_WAIT,
                                          t_state := THREAD_READY, t_delay := 0\<rparr>) s)))"

text \<open>The walk of \<open>scheduler_delay_thread\<close> to the node after which the thread is inserted.\<close>

partial_function (option) delay_pos :: "u64 \<Rightarrow> sched \<Rightarrow> nat \<Rightarrow> nat option" where
  "delay_pos msecs s ptr =
     (case qnext (sqm s) ptr of
        None \<Rightarrow> Some ptr
      | Some ptr2 \<Rightarrow> if msecs < t_delay (storage s ptr2) then Some ptr else delay_pos msecs s ptr2)"

definition scheduler_delay_thread :: "u64 \<Rightarrow> u64 \<Rightarrow> sched \<Rightarrow> (bool \<times> sched) option" where
  "scheduler_delay_thread now ms s =
     do { r \<leftarrow> running s;
          if t_tid (storage s r) = THREAD_TID_IDLE \<or> t_tid (storage s r) = THREAD_TID_TMRS
          then Some (False, s)
          else do {
            let msecs = ms + now;
            after \<leftarrow> (case sq_head Delay s of
                 None \<Rightarrow> Some None
               | Some ptr \<Rightarrow>
                   if msecs < t_delay (storage s ptr) then Some None
                   else do { p \<leftarrow> delay_pos msecs s ptr; Some (Some p) });
            (st, s1) \<leftarrow> sq_insert Delay r after s;
            if st \<noteq> EOK then Some (False, s1)
            else Some (True, upd_thread r (\<lambda>t.
                   t\<lparr>t_flags := (t_flags t AND NOT THREAD_MASK_WAIT) OR THREAD_FLAG_WAIT_TIMEOUT,
                     t_state := THREAD_WAITING, t_delay := msecs\<rparr>) s1) } }"

definition scheduler_wait_thread :: "u64 \<Rightarrow> tflags \<Rightarrow> u64 \<Rightarrow> sched \<Rightarrow> (bool \<times> sched) option" where
  "scheduler_wait_thread now flags msecs s =
     do { r \<leftarrow> running s;
          if t_tid (storage s r) = THREAD_TID_IDLE then Some (False, s)
          else if THREAD_MASK_EVENTS AND flags = 0 then Some (False, s)
          else do {
            (st, s1) \<leftarrow> sq_enq Wait r s;
            if st \<noteq> EOK then Some (False, s1)
            else Some (True, upd_thread r (\<lambda>t.
              (let fl = (t_flags t AND NOT THREAD_MASK_WAIT) OR (flags AND THREAD_MASK_EVENTS)
               in if msecs \<noteq> 0
                  then t\<lparr>t_flags := fl OR THREAD_FLAG_WAIT_TIMEOUT, t_state := THREAD_WAITING,
                         t_delay := now + msecs\<rparr>
                  else t\<lparr>t_flags := fl, t_state := THREAD_WAITING, t_delay := 0\<rparr>)) s1) } }"

definition scheduler_add_thread :: "u8 \<Rightarrow> sched \<Rightarrow> (bool \<times> sched) option" where
  "scheduler_add_thread tid s =
     (case get_thread tid s of
        None \<Rightarrow> Some (False, s)
      | Some p \<Rightarrow>
         if t_state (storage s p) \<noteq> THREAD_READY then Some (False, s)
         else do { q \<leftarrow> ready_queue (t_priority (storage s p));
                   (st, s1) \<leftarrow> sq_enq q p s;
                   Some (st = EOK, s1) })"

definition scheduler_running_tid :: "sched \<Rightarrow> u8" where
  "scheduler_running_tid s =
     (case running s of None \<Rightarrow> THREAD_TID_INVALID | Some r \<Rightarrow> t_tid (storage s r))"

definition scheduler_running_thread :: "sched \<Rightarrow> nat option" where
  "scheduler_running_thread s = running s"

text \<open>The 8 bit total wraps; reading past the last ready queue is a fault.\<close>

fun ready_total :: "nat list \<Rightarrow> sched \<Rightarrow> u8 \<Rightarrow> u8 option" where
  "ready_total [] s tot = Some tot"
| "ready_total (i # is) s tot =
     do { q \<leftarrow> ready_queue i; ready_total is s (tot + ucast (sq_count q s)) }"

definition scheduler_ready_threads :: "u8 \<Rightarrow> sched \<Rightarrow> u8 option" where
  "scheduler_ready_threads prio s = ready_total [0..<unat prio] s 0"

section \<open>The passes of the scheduler\<close>

definition update_new_delay :: "u64 \<Rightarrow> thread \<Rightarrow> u32 \<Rightarrow> u32" where
  "update_new_delay now t nd =
     (if t_delay t > now \<and> t_delay t - now < ucast nd then ucast (t_delay t - now) else nd)"

definition should_do_house_keeping :: "sched \<Rightarrow> bool" where
  "should_do_house_keeping s =
     (let temp = sq_count Dead s in
      if temp = 1 \<and> sq_head Dead s = running s then False else temp \<noteq> 0)"

fun house_loop :: "nat \<Rightarrow> sched \<Rightarrow> sched option" where
  "house_loop 0 s = Some s"
| "house_loop (Suc i) s =
     do { (st, t, s1) \<leftarrow> sq_deq Dead s;
          if st \<noteq> EOK then Some s1
          else do {
            temp \<leftarrow> t;
            r \<leftarrow> running s1;
            s2 \<leftarrow> (if t_tid (storage s1 temp) \<noteq> t_tid (storage s1 r)
                  then Some (snd (snd (done_thread (t_tid (storage s1 temp)) s1)))
                  else do { (_, s2) \<leftarrow> sq_enq Dead temp s1; Some s2 });
            house_loop i s2 } }"

definition house_keeping :: "sched \<Rightarrow> sched option" where
  "house_keeping s = house_loop (unat (sq_count Dead s)) s"

partial_function (option) new_runner :: "sqid \<Rightarrow> sched \<Rightarrow> (bool \<times> sched) option" where
  "new_runner q s =
     do { (st, t, s1) \<leftarrow> sq_deq q s;
          if st \<noteq> EOK then Some (False, s1)
          else do {
            temp \<leftarrow> t;
            if t_flags (storage s1 temp) AND THREAD_FLAG_TERMINATE \<noteq> 0
            then do {
              (st2, s2) \<leftarrow> sq_enq Dead temp s1;
              new_runner q (if st2 \<noteq> EOK then s2
                            else upd_thread temp (\<lambda>t. t\<lparr>t_state := THREAD_DEAD\<rparr>) s2) }
            else Some (True, upd_thread temp (\<lambda>t. t\<lparr>t_state := THREAD_RUNNING\<rparr>)
                               (s1\<lparr>running := Some temp\<rparr>)) } }"

text \<open>The body of the loop of \<open>schedule_waiting\<close>, up to \<open>queue_roll\<close>.\<close>

definition wait_visit :: "u64 \<Rightarrow> sched \<Rightarrow> sched option" where
  "wait_visit expiration s =
     do { ptr \<leftarrow> sq_head Wait s;
          let t = storage s ptr;
          case t_state t of
            THREAD_WAITING \<Rightarrow>
              if t_flags t AND THREAD_FLAG_TERMINATE \<noteq> 0 then
                do { (st, tp, s1) \<leftarrow> sq_deq Wait s;
                     if st \<noteq> EOK then Some s1
                     else do { temp \<leftarrow> tp;
                               (st2, s2) \<leftarrow> sq_enq Dead temp s1;
                               if st2 \<noteq> EOK then Some s2
                               else Some (upd_thread temp (\<lambda>t. t\<lparr>t_state := THREAD_DEAD\<rparr>) s2) } }
              else if t_flags t AND THREAD_FLAG_WAIT_TIMEOUT \<noteq> 0 then
                (if t_delay t \<le> expiration then
                   do { (st, tp, s1) \<leftarrow> sq_deq Wait s;
                        if st \<noteq> EOK then Some s1
                        else do { temp \<leftarrow> tp;
                          let (ok, s2) = scheduler_resume_thread
                                (t_flags (storage s1 temp) AND THREAD_MASK_EVENTS)
                                (t_tid (storage s1 temp)) s1;
                          if \<not> ok then Some s2
                          else do { q \<leftarrow> ready_queue (t_priority t);
                                    (_, s3) \<leftarrow> sq_enq q temp s2; Some s3 } } }
                 else Some (s\<lparr>new_delay_wq := update_new_delay expiration t (new_delay_wq s)\<rparr>))
              else Some s
          | THREAD_READY \<Rightarrow>
              do { (st, tp, s1) \<leftarrow> sq_deq Wait s;
                   if st \<noteq> EOK then Some s1
                   else do { temp \<leftarrow> tp;
                             q \<leftarrow> ready_queue (t_priority t);
                             (_, s2) \<leftarrow> sq_enq q temp s1; Some s2 } }
          | _ \<Rightarrow> Some s }"

fun wait_loop :: "u64 \<Rightarrow> nat \<Rightarrow> sched \<Rightarrow> sched option" where
  "wait_loop expiration 0 s = Some s"
| "wait_loop expiration (Suc i) s =
     do { s1 \<leftarrow> wait_visit expiration s;
          (st, s2) \<leftarrow> sq_roll Wait s1;
          if st \<noteq> EOK then Some s2 else wait_loop expiration i s2 }"

definition schedule_waiting :: "u64 \<Rightarrow> sched \<Rightarrow> sched option" where
  "schedule_waiting now s =
     (let s1 = s\<lparr>new_delay_wq := SCHED_DELAY_MAX\<rparr> in wait_loop now (unat (sq_count Wait s1)) s1)"

partial_function (option) delayed_loop ::
  "u64 \<Rightarrow> nat option \<Rightarrow> sched \<Rightarrow> (nat option \<times> sched) option" where
  "delayed_loop expiration ptr s =
     (case ptr of
        None \<Rightarrow> Some (None, s)
      | Some p \<Rightarrow>
         if t_delay (storage s p) \<le> expiration then
           do { (st, tp, s1) \<leftarrow> sq_deq Delay s;
                if st \<noteq> EOK then Some (Some p, s1)
                else do {
                  temp \<leftarrow> tp;
                  let (ok, s2) = scheduler_resume_thread THREAD_FLAG_WAIT_TIMEOUT
                                   (t_tid (storage s1 temp)) s1;
                  s3 \<leftarrow> (if \<not> ok then Some s2
                        else do { q \<leftarrow> ready_queue (t_priority (storage s2 temp));
                                  (_, s3) \<leftarrow> sq_enq q temp s2; Some s3 });
                  delayed_loop expiration (sq_head Delay s3) s3 } }
         else Some (Some p, s))"

definition schedule_delayed :: "u64 \<Rightarrow> sched \<Rightarrow> sched option" where
  "schedule_delayed now s =
     do { (ptr, s1) \<leftarrow> delayed_loop now (sq_head Delay s) (s\<lparr>new_delay_dq := SCHED_DELAY_MAX\<rparr>);
          Some (case ptr of
              None \<Rightarrow> s1
            | Some p \<Rightarrow> s1\<lparr>new_delay_dq := update_new_delay now (storage s1 p) (new_delay_dq s1)\<rparr>) }"

section \<open>The invariant\<close>

text \<open>
  \<open>f\<close> gives the contents of every queue. A thread is linked in at most one queue (this is part of
  \<open>qrep\<close>), its slot is the one its identifier names, its state and flags are those its queue stands
  for, and the delay queue is sorted by expiration time.
\<close>

definition slot_ok :: "nat \<Rightarrow> thread \<Rightarrow> bool" where
  "slot_ok p t \<longleftrightarrow> p < DIEGOS_MAX_THREADS \<and> t_tid t = of_nat p \<and> t_priority t < THREAD_PRIORITIES"

fun place_ok :: "sqid \<Rightarrow> thread \<Rightarrow> bool" where
  "place_ok (Ready n) t \<longleftrightarrow> t_state t = THREAD_READY \<and> t_priority t = n"
| "place_ok Dead t \<longleftrightarrow> t_state t = THREAD_DEAD"
| "place_ok Delay t \<longleftrightarrow> t_state t = THREAD_WAITING \<and> \<not> has THREAD_MASK_EVENTS (t_flags t) \<and>
     (has THREAD_FLAG_WAIT_TIMEOUT (t_flags t) \<or> has THREAD_FLAG_TERMINATE (t_flags t))"
| "place_ok Wait t \<longleftrightarrow> t_state t = THREAD_READY \<or> t_state t = THREAD_WAITING \<and>
     (has THREAD_MASK_EVENTS (t_flags t) \<or> has THREAD_FLAG_TERMINATE (t_flags t))"

definition by_delay :: "(nat \<Rightarrow> thread) \<Rightarrow> nat list \<Rightarrow> bool" where
  "by_delay st xs \<longleftrightarrow> sorted_wrt (\<lambda>a b. t_delay (st a) \<le> t_delay (st b)) xs"

definition sinv :: "(nat \<Rightarrow> thread) \<Rightarrow> (sqid \<Rightarrow> nat list) \<Rightarrow> bool" where
  "sinv st f \<longleftrightarrow> (\<forall>q p. p \<in> set (f q) \<longrightarrow> slot_ok p (st p) \<and> place_ok q (st p)) \<and> by_delay st (f Delay)"

definition sched_inv :: "sched \<Rightarrow> (sqid \<Rightarrow> nat list) \<Rightarrow> bool" where
  "sched_inv s f \<longleftrightarrow> qrep (sqm s) f \<and> sinv (storage s) f"

text \<open>Between two calls of the kernel the running thread is linked nowhere.\<close>

definition run_ok :: "sched \<Rightarrow> (sqid \<Rightarrow> nat list) \<Rightarrow> bool" where
  "run_ok s f \<longleftrightarrow> (\<exists>r. running s = Some r \<and> slot_ok r (storage s r) \<and>
      t_state (storage s r) = THREAD_RUNNING \<and> unlinked f r)"

lemma sinvD:
  "sinv st f \<Longrightarrow> p \<in> set (f q) \<Longrightarrow> slot_ok p (st p)"
  "sinv st f \<Longrightarrow> p \<in> set (f q) \<Longrightarrow> place_ok q (st p)"
  "sinv st f \<Longrightarrow> by_delay st (f Delay)"
  by (auto simp: sinv_def)

lemma sched_invD: "sched_inv s f \<Longrightarrow> qrep (sqm s) f" "sched_inv s f \<Longrightarrow> sinv (storage s) f"
  by (simp_all add: sched_inv_def)

lemma by_delay_upd [simp]: "x \<notin> set xs \<Longrightarrow> by_delay (st(x := t)) xs = by_delay st xs"
  unfolding by_delay_def by (induction xs) auto

lemma by_delay_cong: "(\<And>y. y \<in> set xs \<Longrightarrow> st1 y = st y) \<Longrightarrow> by_delay st1 xs = by_delay st xs"
  unfolding by_delay_def by (induction xs) auto

lemma by_delay_Cons: "by_delay st (x # xs) \<Longrightarrow> by_delay st xs"
  by (simp add: by_delay_def)

lemma sinv_link:
  assumes "sinv st f" "unlinked f x" "slot_ok x t" "place_ok q t" "q \<noteq> Delay"
  shows "sinv (st(x := t)) (f(q := f q @ [x]))"
  using assms by (auto simp: sinv_def unlinked_def)

lemma sinv_unlink:
  assumes S: "sinv st f" and Q: "f q = x # xs"
  shows "sinv st (f(q := xs))"
proof -
  have "set ((f(q := xs)) r) \<subseteq> set (f r)" for r using Q by auto
  moreover have "by_delay st ((f(q := xs)) Delay)"
    using sinvD(3) [OF S] Q by (auto dest: by_delay_Cons)
  ultimately show ?thesis using S unfolding sinv_def by (blast dest: subsetD)
qed

lemma sinv_upd_unlinked:
  "sinv st f \<Longrightarrow> unlinked f x \<Longrightarrow> sinv (st(x := t)) f"
  by (auto simp: sinv_def unlinked_def)

lemma sinv_upd_linked:
  "sinv st f \<Longrightarrow> slot_ok x t \<Longrightarrow> (\<And>q. x \<in> set (f q) \<Longrightarrow> place_ok q t) \<Longrightarrow>
   x \<notin> set (f Delay) \<Longrightarrow> sinv (st(x := t)) f"
  by (auto simp: sinv_def)

lemma sinv_roll: "sinv st f \<Longrightarrow> q \<noteq> Delay \<Longrightarrow> sinv st (f(q := rotate1 (f q)))"
  by (auto simp: sinv_def)

lemma sinv_length: 
  assumes "sinv st f" "distinct (f q)"
  shows "length (f q) \<le> DIEGOS_MAX_THREADS"
  using assms by (intro distinct_length_bound) (auto simp: slot_ok_def dest: sinvD)

lemma sched_inv_room: "sched_inv s f \<Longrightarrow> Suc (length (f q)) < 2 ^ 32"
  using sinv_length [of "storage s" f q] qrep_distinct [of "sqm s" f q]
  by (simp add: sched_inv_def DIEGOS_MAX_THREADS_def)

lemma get_thread_slot: "slot_ok p (storage s p) \<Longrightarrow> get_thread (t_tid (storage s p)) s = Some p"
  by (simp add: slot_ok_def get_thread_def thread_consts word_less_nat_alt)

lemma ready_queue_slot: "slot_ok p t \<Longrightarrow> ready_queue (t_priority t) = Some (Ready (t_priority t))"
  by (simp add: slot_ok_def ready_queue_def)

lemma storage_upd_triv [simp]: "s\<lparr>sqm := sqm s\<rparr> = s" "s\<lparr>storage := storage s\<rparr> = s"
  by simp_all

section \<open>Queue access under the invariant\<close>

lemma sq_enq_rep:
  assumes "qrep (sqm s) f" "unlinked f x" "Suc (length (f q)) < 2 ^ 32"
  shows "\<exists>m. sq_enq q x s = Some (EOK, s\<lparr>sqm := m\<rparr>) \<and> qrep m (f(q := f q @ [x]))"
  using cq.enq_rep [OF assms] by (auto simp: sq_enq_def)

lemma sq_deq_rep:
  assumes "qrep (sqm s) f" "f q = x # xs"
  shows "\<exists>m. sq_deq q s = Some (EOK, Some x, s\<lparr>sqm := m\<rparr>) \<and> qrep m (f(q := xs))"
  using cq.deq_Cons [OF assms] by (auto simp: sq_deq_def)

lemma sq_deq_Nil:
  "qrep (sqm s) f \<Longrightarrow> f q = [] \<Longrightarrow> sq_deq q s = Some (EAGAIN, None, s)"
  using cq.deq_Nil [of "sqm s" f q] by (simp add: sq_deq_def)

lemma sq_roll_rep:
  "qrep (sqm s) f \<Longrightarrow> \<exists>m. sq_roll q s = Some (EOK, s\<lparr>sqm := m\<rparr>) \<and> qrep m (f(q := rotate1 (f q)))"
  using cq.roll_rep [of "sqm s" f q] by (auto simp: sq_roll_def)

lemma sq_head_Cons: "qrep (sqm s) f \<Longrightarrow> f q = x # xs \<Longrightarrow> sq_head q s = Some x"
  by (simp add: qrep_head)

text \<open>Dequeue from one queue, change the thread, enqueue in another.\<close>

lemma sq_move:
  assumes I: "sched_inv s f" and Q: "f p = x # xs" and pq: "p \<noteq> q"
  shows "\<exists>m1 m2. sq_deq p s = Some (EOK, Some x, s\<lparr>sqm := m1\<rparr>) \<and> qrep m1 (f(p := xs)) \<and>
    (\<forall>s'. sqm s' = m1 \<longrightarrow> sq_enq q x s' = Some (EOK, s'\<lparr>sqm := m2\<rparr>)) \<and>
    qrep m2 (f(p := xs, q := f q @ [x]))"
  using cq.transfer [OF sched_invD(1) [OF I] Q pq sched_inv_room [OF I]]
  by (fastforce simp: sq_deq_def sq_enq_def)

lemma sinv_move:
  assumes S: "sinv st f" and R: "qrep m f" and Q: "f p = x # xs" and pq: "p \<noteq> q"
    and T: "slot_ok x t" "place_ok q t" "q \<noteq> Delay"
  shows "sinv (st(x := t)) (f(p := xs, q := f q @ [x]))"
proof -
  have "sinv (st(x := t)) ((f(p := xs))(q := (f(p := xs)) q @ [x]))"
    using S Q T cq.head_unlinked [OF R Q] by (intro sinv_link sinv_unlink)
  with pq show ?thesis by simp
qed

end
