(* ===== verification/SchedulerOps.thy ===== *)
theory SchedulerOps
  imports Scheduler
begin

text \<open>
  What the state changes of one thread do under the scheduler invariant: each operation of
  \<^verbatim>\<open>src/kernel/scheduler.c\<close> returns, its effect on the queues is a list operation, and the invariant
  holds again. The insertion of \<open>scheduler_delay_thread\<close> is proved to keep the delay queue sorted.
\<close>

unbundle bit_operations_syntax

section \<open>Resuming\<close>

definition resumed :: "thread \<Rightarrow> thread" where
  "resumed t = t\<lparr>t_flags := t_flags t AND NOT THREAD_MASK_WAIT, t_state := THREAD_READY, t_delay := 0\<rparr>"

lemma resumed_simps [simp]:
  "t_state (resumed t) = THREAD_READY" "t_priority (resumed t) = t_priority t"
  "t_tid (resumed t) = t_tid t" "t_delay (resumed t) = 0"
  "slot_ok p (resumed t) = slot_ok p t"
  by (simp_all add: resumed_def slot_ok_def)

definition resumable :: "tflags \<Rightarrow> thread \<Rightarrow> bool" where
  "resumable flags t \<longleftrightarrow> t_state t = THREAD_WAITING \<and> flags AND (t_flags t AND THREAD_MASK_WAIT) \<noteq> 0"

lemma scheduler_resume_thread_eq:
  "scheduler_resume_thread flags tid s =
     (case get_thread tid s of
        None \<Rightarrow> (False, s)
      | Some p \<Rightarrow> if resumable flags (storage s p)
                  then (True, s\<lparr>storage := (storage s)(p := resumed (storage s p))\<rparr>) else (False, s))"
  by (auto simp: scheduler_resume_thread_def resumable_def resumed_def Let_def split: option.splits)

lemma get_thread_Some: 
  "get_thread tid s = Some p \<longleftrightarrow> p = unat tid \<and> p < DIEGOS_MAX_THREADS \<and> t_tid (storage s p) = tid"
  by (auto simp: get_thread_def thread_consts word_less_nat_alt split: if_splits)

lemma resumable_events:
  assumes "resumable flags t" "flags AND THREAD_FLAG_WAIT_TIMEOUT = 0"
  shows "has THREAD_MASK_EVENTS (t_flags t)"
proof
  assume "t_flags t AND THREAD_MASK_EVENTS = 0"
  then have "t_flags t AND THREAD_MASK_WAIT = t_flags t AND THREAD_FLAG_WAIT_TIMEOUT"
    by (simp add: mask_parts bit.conj_disj_distrib)
  then have "flags AND (t_flags t AND THREAD_MASK_WAIT) = (flags AND THREAD_FLAG_WAIT_TIMEOUT) AND t_flags t"
    by (simp add: ac_simps)
  with assms show False by (simp add: resumable_def)
qed

text \<open>
  Waking a thread because of an event changes its state where it is: it stays linked in the wait
  queue, from which the next pass takes it, and the queues are left alone.
\<close>

lemma resume_sinv:
  assumes S: "sinv st f" and p: "slot_ok p (st p)" and r: "resumable flags (st p)"
    and T: "flags AND THREAD_FLAG_WAIT_TIMEOUT = 0"
  shows "sinv (st(p := resumed (st p))) f"
proof (rule sinv_upd_linked [OF S])
  fix q assume "p \<in> set (f q)"
  then have "place_ok q (st p)" by (rule sinvD(2) [OF S])
  then show "place_ok q (resumed (st p))"
    using r resumable_events [OF r T] by (cases q) (auto simp: resumable_def)
next
  show "p \<notin> set (f Delay)"
    using sinvD(2) [OF S, of p Delay] resumable_events [OF r T] by auto
qed (use p in simp)

lemma resume_inv:
  assumes "sched_inv s f" "flags AND THREAD_FLAG_WAIT_TIMEOUT = 0"
    and "\<And>p. get_thread tid s = Some p \<Longrightarrow> slot_ok p (storage s p)"
  shows "sched_inv (snd (scheduler_resume_thread flags tid s)) f"
  using assms resume_sinv [of "storage s" f]
  by (auto simp: scheduler_resume_thread_eq sched_inv_def split: option.splits)

lemma resume_frame [simp]:
  "sqm (snd (scheduler_resume_thread flags tid s)) = sqm s"
  "running (snd (scheduler_resume_thread flags tid s)) = running s"
  "thread_num (snd (scheduler_resume_thread flags tid s)) = thread_num s"
  by (auto simp: scheduler_resume_thread_eq split: option.splits)

text \<open>
  The kernel wakes threads in groups: all the threads \<open>P\<close> selects that can be resumed with \<open>flags\<close>.
  Waking one thread is such a group, and groups with the same flags compose.
\<close>

definition resumed_by :: "tflags \<Rightarrow> (nat \<Rightarrow> bool) \<Rightarrow> sched \<Rightarrow> sched" where
  "resumed_by flags P s = s\<lparr>storage := (\<lambda>p.
     if P p \<and> p < DIEGOS_MAX_THREADS \<and> t_tid (storage s p) = of_nat p \<and> resumable flags (storage s p)
     then resumed (storage s p) else storage s p)\<rparr>"

lemma not_resumable_resumed [simp]: "\<not> resumable flags (resumed t)"
  by (simp add: resumable_def)

lemma resume_one: "snd (scheduler_resume_thread flags tid s) = resumed_by flags (\<lambda>p. p = unat tid) s"
  by (cases s) (auto simp: scheduler_resume_thread_eq resumed_by_def get_thread_def thread_consts
      word_less_nat_alt fun_eq_iff split: option.splits)

lemma resumed_by_comp: "resumed_by flags P (resumed_by flags Q s) = resumed_by flags (\<lambda>p. P p \<or> Q p) s"
  by (cases s) (auto simp: resumed_by_def fun_eq_iff)

lemma resumed_by_False [simp]: "resumed_by flags (\<lambda>p. False) s = s"
  by (simp add: resumed_by_def)

lemma resumed_by_frame [simp]:
  "sqm (resumed_by flags P s) = sqm s" "running (resumed_by flags P s) = running s"
  "thread_num (resumed_by flags P s) = thread_num s" "t_tid (storage (resumed_by flags P s) p) = t_tid (storage s p)"
  "t_priority (storage (resumed_by flags P s) p) = t_priority (storage s p)"
  "new_delay_wq (resumed_by flags P s) = new_delay_wq s" "new_delay_dq (resumed_by flags P s) = new_delay_dq s"
  by (simp_all add: resumed_by_def)

lemma fold_resumed_by:
  "fold (\<lambda>p s. resumed_by flags (\<lambda>q. q = p) s) ps s = resumed_by flags (\<lambda>p. p \<in> set ps) s"
proof (induction ps arbitrary: s)
  case (Cons p ps)
  then show ?case by (simp add: resumed_by_comp disj_commute)
qed simp

lemma fold_resume:
  assumes "\<And>p. p \<in> set ps \<Longrightarrow> p < 256"
  shows "fold (\<lambda>p s. snd (scheduler_resume_thread flags (of_nat p) s)) ps s =
    resumed_by flags (\<lambda>p. p \<in> set ps) s"
proof -
  have "fold (\<lambda>p s. snd (scheduler_resume_thread flags (of_nat p) s)) ps s =
      fold (\<lambda>p s. resumed_by flags (\<lambda>q. q = p) s) ps s"
    using assms by (intro fold_cong) (auto simp: resume_one)
  then show ?thesis by (simp add: fold_resumed_by)
qed

lemma resumed_by_inv:
  assumes I: "sched_inv s f" and T: "flags AND THREAD_FLAG_WAIT_TIMEOUT = 0"
  shows "sched_inv (resumed_by flags P s) f"
proof -
  let ?st = "storage (resumed_by flags P s)"
  have S: "sinv (storage s) f" using I by (rule sched_invD)
  have "slot_ok p (?st p) \<and> place_ok q (?st p)" if p: "p \<in> set (f q)" for p q
  proof (cases "?st p = storage s p")
    case True
    with sinvD(1,2) [OF S p] show ?thesis by simp
  next
    case False
    then have r: "?st p = resumed (storage s p)" "resumable flags (storage s p)"
      by (auto simp: resumed_by_def split: if_splits)
    have "place_ok q (resumed (storage s p))"
      using sinvD(2) [OF S p] resumable_events [OF r(2) T] r(2) by (cases q) (auto simp: resumable_def)
    with r sinvD(1) [OF S p] show ?thesis by simp
  qed
  moreover have "?st p = storage s p" if "p \<in> set (f Delay)" for p
    using sinvD(2) [OF S that] resumable_events [of flags "storage s p"] T
    by (auto simp: resumed_by_def)
  then have "by_delay ?st (f Delay) = by_delay (storage s) (f Delay)" by (rule by_delay_cong)
  ultimately show ?thesis using I by (simp add: sched_inv_def sinv_def)
qed

lemma resumed_by_table: "table_ok (storage s) \<Longrightarrow> table_ok (storage (resumed_by flags P s))"
  by (simp add: table_ok_def)

lemma resumed_by_run_ok: "run_ok s f \<Longrightarrow> run_ok (resumed_by flags P s) f"
proof -
  assume "run_ok s f"
  then obtain r where r: "running s = Some r" "slot_ok r (storage s r)"
    "t_state (storage s r) = THREAD_RUNNING" "unlinked f r" by (auto simp: run_ok_def)
  then have "storage (resumed_by flags P s) r = storage s r" by (simp add: resumed_by_def resumable_def)
  with r show ?thesis by (simp add: run_ok_def)
qed

section \<open>Suspending, waiting, adding\<close>

lemma unlinked_room:
  assumes "sched_inv s f" "unlinked f x"
  shows "\<exists>m. sq_enq q x s = Some (EOK, s\<lparr>sqm := m\<rparr>) \<and> qrep m (f(q := f q @ [x]))"
  using assms sched_inv_room by (intro sq_enq_rep) (auto simp: sched_inv_def)

text \<open>The running thread leaves the processor for the tail of a queue other than the delay queue.\<close>

lemma running_to_queue:
  assumes I: "sched_inv s f" and U: "unlinked f r" and T: "slot_ok r t" "place_ok q t" "q \<noteq> Delay"
  shows "\<exists>m. sq_enq q r s = Some (EOK, s\<lparr>sqm := m\<rparr>) \<and>
    sched_inv (s\<lparr>sqm := m, storage := (storage s)(r := t)\<rparr>) (f(q := f q @ [r]))"
  using unlinked_room [OF I U, of q] sinv_link [OF sched_invD(2) [OF I] U T]
  by (auto simp: sched_inv_def)

lemma suspend_spec:
  assumes I: "sched_inv s f" and r: "running s = Some r" "slot_ok r (storage s r)" "unlinked f r"
  shows "\<exists>m. scheduler_suspend_thread s =
      Some (True, s\<lparr>sqm := m, storage := (storage s)(r := (storage s r)\<lparr>t_state := THREAD_READY\<rparr>)\<rparr>) \<and>
    sched_inv (s\<lparr>sqm := m, storage := (storage s)(r := (storage s r)\<lparr>t_state := THREAD_READY\<rparr>)\<rparr>)
      (f(Ready (t_priority (storage s r)) := f (Ready (t_priority (storage s r))) @ [r]))"
  using running_to_queue [OF I r(3), of "(storage s r)\<lparr>t_state := THREAD_READY\<rparr>"
      "Ready (t_priority (storage s r))"] r
  by (auto simp: scheduler_suspend_thread_def ready_queue_slot slot_ok_def)

definition waiting_thread :: "u64 \<Rightarrow> tflags \<Rightarrow> u64 \<Rightarrow> thread \<Rightarrow> thread" where
  "waiting_thread now flags msecs t =
     t\<lparr>t_flags := (t_flags t AND NOT THREAD_MASK_WAIT) OR (flags AND THREAD_MASK_EVENTS) OR
                  (if msecs \<noteq> 0 then THREAD_FLAG_WAIT_TIMEOUT else 0),
       t_state := THREAD_WAITING, t_delay := (if msecs \<noteq> 0 then now + msecs else 0)\<rparr>"

lemma has_events_wait:
  "has m flags \<Longrightarrow> has m (a OR (flags AND m) OR b)"
  by (simp add: bit.conj_disj_distrib2 or_eq_0_iff and.assoc)

lemma waiting_thread_simps [simp]:
  "t_state (waiting_thread now fl ms t) = THREAD_WAITING"
  "slot_ok p (waiting_thread now fl ms t) = slot_ok p t"
  "t_delay (waiting_thread now fl ms t) = (if ms \<noteq> 0 then now + ms else 0)"
  "t_priority (waiting_thread now fl ms t) = t_priority t"
  "t_tid (waiting_thread now fl ms t) = t_tid t"
  by (simp_all add: waiting_thread_def slot_ok_def)

lemma waiting_thread_has:
  "has THREAD_MASK_EVENTS fl \<Longrightarrow> has THREAD_MASK_EVENTS (t_flags (waiting_thread now fl ms t))"
  unfolding waiting_thread_def by (simp add: has_events_wait del: if_split)

lemma waiting_thread_code:
  "(let fl = (t_flags t AND NOT THREAD_MASK_WAIT) OR (flags AND THREAD_MASK_EVENTS)
    in if msecs \<noteq> 0
       then t\<lparr>t_flags := fl OR THREAD_FLAG_WAIT_TIMEOUT, t_state := THREAD_WAITING,
              t_delay := now + msecs\<rparr>
       else t\<lparr>t_flags := fl, t_state := THREAD_WAITING, t_delay := 0\<rparr>) =
   waiting_thread now flags msecs t"
  by (simp add: waiting_thread_def or.assoc Let_def)

lemma wait_spec:
  assumes I: "sched_inv s f" and r: "running s = Some r" "slot_ok r (storage s r)" "unlinked f r"
    and idle: "t_tid (storage s r) \<noteq> THREAD_TID_IDLE" and fl: "has THREAD_MASK_EVENTS flags"
  shows "\<exists>m. scheduler_wait_thread now flags msecs s = Some (True,
      s\<lparr>sqm := m, storage := (storage s)(r := waiting_thread now flags msecs (storage s r))\<rparr>) \<and>
    sched_inv (s\<lparr>sqm := m, storage := (storage s)(r := waiting_thread now flags msecs (storage s r))\<rparr>)
      (f(Wait := f Wait @ [r]))"
proof -
  have E: "THREAD_MASK_EVENTS AND flags \<noteq> 0" using fl by (simp add: and.commute)
  show ?thesis
    using running_to_queue [OF I r(3), of "waiting_thread now flags msecs (storage s r)" Wait] r idle
      waiting_thread_has [OF fl] E
    by (auto simp: scheduler_wait_thread_def waiting_thread_code)
qed

lemma wait_refused:
  "running s = Some r \<Longrightarrow> t_tid (storage s r) = THREAD_TID_IDLE \<or> \<not> has THREAD_MASK_EVENTS flags \<Longrightarrow>
   scheduler_wait_thread now flags msecs s = Some (False, s)"
  by (auto simp: scheduler_wait_thread_def and.commute)

lemma add_spec:
  assumes I: "sched_inv s f" and g: "get_thread tid s = Some p" and p: "slot_ok p (storage s p)"
    and st: "t_state (storage s p) = THREAD_READY" and U: "unlinked f p"
  shows "\<exists>m. scheduler_add_thread tid s = Some (True, s\<lparr>sqm := m\<rparr>) \<and>
    sched_inv (s\<lparr>sqm := m\<rparr>)
      (f(Ready (t_priority (storage s p)) := f (Ready (t_priority (storage s p))) @ [p]))"
  using running_to_queue [OF I U, of "storage s p" "Ready (t_priority (storage s p))"] p st g
  by (auto simp: scheduler_add_thread_def ready_queue_slot)

lemma add_refused:
  "get_thread tid s = None \<or> (\<exists>p. get_thread tid s = Some p \<and> t_state (storage s p) \<noteq> THREAD_READY) \<Longrightarrow>
   scheduler_add_thread tid s = Some (False, s)"
  by (auto simp: scheduler_add_thread_def)

section \<open>Delaying\<close>

abbreviation not_after :: "(nat \<Rightarrow> thread) \<Rightarrow> u64 \<Rightarrow> nat \<Rightarrow> bool" where
  "not_after st ms \<equiv> \<lambda>y. \<not> ms < t_delay (st y)"

text \<open>The place of a new expiration time in the delay queue: behind the threads that expire no later.\<close>

definition insort_delay :: "(nat \<Rightarrow> thread) \<Rightarrow> u64 \<Rightarrow> nat \<Rightarrow> nat list \<Rightarrow> nat list" where
  "insort_delay st ms r xs = takeWhile (not_after st ms) xs @ r # dropWhile (not_after st ms) xs"

lemma delay_pos_spec:
  "nlist (qnext (sqm s)) (Some x) (x # zs) \<Longrightarrow>
   delay_pos ms s x = Some (last (x # takeWhile (not_after (storage s) ms) zs))"
proof (induction zs arbitrary: x)
  case Nil
  then show ?case by (simp add: delay_pos.simps)
next
  case (Cons y ys)
  then have "qnext (sqm s) x = Some y" "nlist (qnext (sqm s)) (Some y) (y # ys)" by auto
  with Cons.IH [of y] show ?case by (subst delay_pos.simps) simp
qed

lemma set_insort_delay [simp]: "set (insort_delay st ms r xs) = insert r (set xs)"
  by (metis Un_insert_right insort_delay_def list.simps(15) set_append takeWhile_dropWhile_id)

lemma by_delay_append:
  "by_delay st (ys @ zs) \<longleftrightarrow> by_delay st ys \<and> by_delay st zs \<and>
     (\<forall>a\<in>set ys. \<forall>b\<in>set zs. t_delay (st a) \<le> t_delay (st b))"
  by (simp add: by_delay_def sorted_wrt_append)

lemma by_delay_mid:
  assumes s: "by_delay st (ys @ zs)" and r: "r \<notin> set ys" "r \<notin> set zs"
    and y: "\<And>y. y \<in> set ys \<Longrightarrow> t_delay (st y) \<le> ms" and z: "\<And>z. z \<in> set zs \<Longrightarrow> ms \<le> t_delay (st z)"
  shows "by_delay (st(r := t\<lparr>t_delay := ms\<rparr>)) (ys @ r # zs)"
proof -
  let ?st = "st(r := t\<lparr>t_delay := ms\<rparr>)"
  have "by_delay ?st ys" "by_delay ?st zs"
    using s r by_delay_append [of st ys zs] by simp_all
  moreover have "t_delay (?st a) \<le> t_delay (?st b)" if "a \<in> set ys" "b \<in> set (r # zs)" for a b
  proof (cases "b = r")
    case True
    then show ?thesis using that r y by auto
  next
    case False
    then show ?thesis using that r s by (auto simp: by_delay_def sorted_wrt_append)
  qed
  moreover have "t_delay (?st r) \<le> t_delay (?st b)" if "b \<in> set zs" for b
    using that r z by auto
  ultimately show ?thesis unfolding by_delay_def sorted_wrt_append by simp
qed

lemma by_delay_dropWhile:
  assumes "by_delay st xs" "z \<in> set (dropWhile (not_after st ms) xs)"
  shows "ms < t_delay (st z)"
  using assms
proof (induction xs)
  case (Cons a xs)
  then show ?case by (cases "ms < t_delay (st a)") (auto simp: by_delay_def)
qed simp

lemma by_delay_insort:
  assumes "by_delay st xs" "r \<notin> set xs"
  shows "by_delay (st(r := t\<lparr>t_delay := ms\<rparr>)) (insort_delay st ms r xs)"
  unfolding insort_delay_def
  using assms set_takeWhileD [of _ "not_after st ms" xs] set_dropWhileD [of _ "not_after st ms" xs]
  by (intro by_delay_mid)
    (auto simp: not_less less_imp_le dest: by_delay_dropWhile)

definition delayed_thread :: "u64 \<Rightarrow> thread \<Rightarrow> thread" where
  "delayed_thread ms t =
     t\<lparr>t_flags := (t_flags t AND NOT THREAD_MASK_WAIT) OR THREAD_FLAG_WAIT_TIMEOUT,
       t_state := THREAD_WAITING, t_delay := ms\<rparr>"

lemma delayed_thread_simps [simp]:
  "t_state (delayed_thread ms t) = THREAD_WAITING" "t_delay (delayed_thread ms t) = ms"
  "slot_ok p (delayed_thread ms t) = slot_ok p t" "t_priority (delayed_thread ms t) = t_priority t"
  "t_tid (delayed_thread ms t) = t_tid t"
  by (simp_all add: delayed_thread_def slot_ok_def)

lemma delayed_thread_place: "place_ok Delay (delayed_thread ms t)"
  by (simp add: delayed_thread_def flag_simps bit.conj_disj_distrib2) (simp add: flag_defs)

lemma delay_insert_rep:
  assumes I: "sched_inv s f" and U: "unlinked f r"
  shows "\<exists>m. (case sq_head Delay s of None \<Rightarrow> Some None
               | Some ptr \<Rightarrow> if ms < t_delay (storage s ptr) then Some None
                   else do { p \<leftarrow> delay_pos ms s ptr; Some (Some p) }) \<bind>
             (\<lambda>a. sq_insert Delay r a s) = Some (EOK, s\<lparr>sqm := m\<rparr>) \<and>
    qrep m (f(Delay := insort_delay (storage s) ms r (f Delay)))"
proof (cases "f Delay")
  case Nil
  then show ?thesis
    using queue_insert_empty_rep [OF sched_invD(1) [OF I] U Nil, of None] sched_invD(1) [OF I]
    by (auto simp: qrep_head sq_insert_def insort_delay_def)
next
  case (Cons x zs)
  have R: "qrep (sqm s) f" using I by (rule sched_invD)
  have L: "Suc (length (f Delay)) < 2 ^ 32" using I by (rule sched_inv_room)
  have h: "sq_head Delay s = Some x" using R Cons by (simp add: qrep_head)
  show ?thesis
  proof (cases "ms < t_delay (storage s x)")
    case True
    then have "insort_delay (storage s) ms r (f Delay) = r # f Delay"
      by (simp add: insort_delay_def Cons)
    with True h queue_insert_front_rep [OF R U L] Cons show ?thesis
      by (auto simp: sq_insert_def)
  next
    case False
    let ?w = "x # takeWhile (not_after (storage s) ms) zs"
    let ?d = "dropWhile (not_after (storage s) ms) zs"
    have nl: "nlist (qnext (sqm s)) (Some x) (x # zs)"
      using qrep_inst [OF R, of Delay] Cons by (auto simp: qinst_rep_def)
    have sp: "f Delay = butlast ?w @ last ?w # ?d"
      using Cons append_butlast_last_id [of ?w] by (metis append.assoc append_Cons append_Nil
          list.distinct(1) takeWhile_dropWhile_id)
    have "butlast ?w @ last ?w # r # ?d = ?w @ r # ?d"
      using append_butlast_last_id [of ?w] by (metis append.assoc append_Cons append_Nil list.distinct(1))
    also have "\<dots> = insort_delay (storage s) ms r (f Delay)"
      using False Cons by (simp add: insort_delay_def)
    finally show ?thesis
      using queue_insert_after_rep [OF R U L sp] delay_pos_spec [OF nl, of ms] False h
      by (auto simp: sq_insert_def)
  qed
qed

lemma sinv_delay_link:
  assumes "sinv st f" "unlinked f r" "slot_ok r t"
  shows "sinv (st(r := delayed_thread ms t)) (f(Delay := insort_delay st ms r (f Delay)))"
proof -
  have "by_delay (st(r := delayed_thread ms t)) (insort_delay st ms r (f Delay))"
    using by_delay_insort [of st "f Delay" r ms "delayed_thread ms t"] assms
    by (simp add: sinv_def unlinked_def delayed_thread_def)
  then show ?thesis using assms delayed_thread_place [of ms t]
    by (auto simp: sinv_def unlinked_def simp del: place_ok.simps)
qed

lemma delay_spec:
  assumes I: "sched_inv s f" and r: "running s = Some r" "slot_ok r (storage s r)" "unlinked f r"
    and tid: "t_tid (storage s r) \<noteq> THREAD_TID_IDLE" "t_tid (storage s r) \<noteq> THREAD_TID_TMRS"
  shows "\<exists>m. scheduler_delay_thread now ms s = Some (True,
      s\<lparr>sqm := m, storage := (storage s)(r := delayed_thread (ms + now) (storage s r))\<rparr>) \<and>
    sched_inv (s\<lparr>sqm := m, storage := (storage s)(r := delayed_thread (ms + now) (storage s r))\<rparr>)
      (f(Delay := insort_delay (storage s) (ms + now) r (f Delay)))"
proof -
  obtain m where m: "(case sq_head Delay s of None \<Rightarrow> Some None
               | Some ptr \<Rightarrow> if ms + now < t_delay (storage s ptr) then Some None
                   else do { p \<leftarrow> delay_pos (ms + now) s ptr; Some (Some p) }) \<bind>
             (\<lambda>a. sq_insert Delay r a s) = Some (EOK, s\<lparr>sqm := m\<rparr>)"
    "qrep m (f(Delay := insort_delay (storage s) (ms + now) r (f Delay)))"
    using delay_insert_rep [OF I r(3), of "ms + now"] by blast
  have "sinv ((storage s)(r := delayed_thread (ms + now) (storage s r)))
      (f(Delay := insort_delay (storage s) (ms + now) r (f Delay)))"
    using I r by (intro sinv_delay_link) (auto simp: sched_inv_def)
  then show ?thesis
    using m r tid
    by (intro exI [of _ m])
      (simp add: scheduler_delay_thread_def Let_def sched_inv_def delayed_thread_def
        flip: bind_assoc)
qed

lemma delay_refused:
  "running s = Some r \<Longrightarrow> t_tid (storage s r) = THREAD_TID_IDLE \<or> t_tid (storage s r) = THREAD_TID_TMRS \<Longrightarrow>
   scheduler_delay_thread now ms s = Some (False, s)"
  by (auto simp: scheduler_delay_thread_def)

section \<open>Properties\<close>

text \<open>
  A sample state: the idle thread is ready, thread 2 runs, thread 3 waits for an event until 50 ms,
  thread 4 is delayed until 100 ms and thread 5 is dead.
\<close>

fun sample_heads :: "sqid \<Rightarrow> nat option" where
  "sample_heads (Ready n) = (if n = 3 then Some 0 else None)"
| "sample_heads Wait = Some 3"
| "sample_heads Delay = Some 4"
| "sample_heads Dead = Some 5"

definition sample_thread :: "nat \<Rightarrow> nat \<Rightarrow> tstate \<Rightarrow> tflags \<Rightarrow> u64 \<Rightarrow> thread" where
  "sample_thread p prio st fl d =
     zero_thread\<lparr>t_tid := of_nat p, t_name := ''T'', t_priority := prio, t_state := st, t_flags := fl, t_delay := d\<rparr>"

definition sample_storage :: "nat \<Rightarrow> thread" where
  "sample_storage = (\<lambda>p. zero_thread\<lparr>t_tid := THREAD_TID_INVALID\<rparr>)
     (0 := sample_thread 0 3 THREAD_READY 0 0,
      2 := sample_thread 2 1 THREAD_RUNNING 0 0,
      3 := sample_thread 3 2 THREAD_WAITING (THREAD_FLAG_WAIT_EVENT OR THREAD_FLAG_WAIT_TIMEOUT) 50,
      4 := sample_thread 4 1 THREAD_WAITING THREAD_FLAG_WAIT_TIMEOUT 100,
      5 := sample_thread 5 1 THREAD_DEAD 0 0)"

definition sample_sched :: sched where
  "sample_sched = \<lparr>running = Some 2, sqm = singles sample_heads, storage = sample_storage, thread_num = 5,
     new_delay_wq = SCHED_DELAY_MAX, new_delay_dq = SCHED_DELAY_MAX\<rparr>"

abbreviation sample_queues :: "sqid \<Rightarrow> nat list" where
  "sample_queues \<equiv> single_lists sample_heads"

lemma sample_rep: "qrep (singles sample_heads) sample_queues"
proof (rule singles_rep)
  fix p q x assume "sample_heads p = Some x" "sample_heads q = Some x"
  then show "p = q" by (cases p; cases q) (auto split: if_splits)
qed

lemma sample_inv: "sched_inv sample_sched sample_queues"
proof -
  have "slot_ok p (sample_storage p) \<and> place_ok q (sample_storage p)" if "p \<in> set (sample_queues q)" for p q
    using that by (cases q)
      (auto simp: single_lists_def sample_storage_def sample_thread_def zero_thread_def slot_ok_def thread_consts
        flag_defs split: if_splits)
  then show ?thesis
    using sample_rep by (simp add: sched_inv_def sinv_def sample_sched_def single_lists_def by_delay_def)
qed

lemma sample_unlinked: "unlinked sample_queues 2"
  unfolding unlinked_def
proof
  show "2 \<notin> set (sample_queues q)" for q by (cases q) (simp_all add: single_lists_def)
qed

lemma sample_run:
  "running sample_sched = Some 2" "slot_ok 2 (storage sample_sched 2)" "t_tid (storage sample_sched 2) = 2"
  "t_state (storage sample_sched 2) = THREAD_RUNNING"
  by (simp_all add: sample_sched_def sample_storage_def sample_thread_def slot_ok_def thread_consts)

text \<open>C5: delaying the running thread, unless it is the idle or the timer thread (which are refused). It is inserted in the delay queue behind every thread that expires
  no later and before every thread that expires later, so the queue stays sorted by expiration
  time; the thread waits until the requested time and the scheduler's invariant holds again.\<close>

theorem delay_keeps_queue_sorted:
  assumes "sched_inv s f" "running s = Some r" "slot_ok r (storage s r)" "unlinked f r"
    and "t_tid (storage s r) \<noteq> THREAD_TID_IDLE" "t_tid (storage s r) \<noteq> THREAD_TID_TMRS"
  shows "\<exists>s' xs ys. scheduler_delay_thread now ms s = Some (True, s') \<and> f Delay = xs @ ys \<and>
    sched_inv s' (f(Delay := xs @ r # ys)) \<and> by_delay (storage s') (xs @ r # ys) \<and>
    t_delay (storage s' r) = ms + now \<and> t_state (storage s' r) = THREAD_WAITING \<and>
    (\<forall>x \<in> set xs. t_delay (storage s x) \<le> ms + now) \<and> (\<forall>y \<in> set ys. ms + now < t_delay (storage s y))"
proof -
  let ?P = "not_after (storage s) (ms + now)"
  obtain m where m: "scheduler_delay_thread now ms s = Some (True,
      s\<lparr>sqm := m, storage := (storage s)(r := delayed_thread (ms + now) (storage s r))\<rparr>)"
    "sched_inv (s\<lparr>sqm := m, storage := (storage s)(r := delayed_thread (ms + now) (storage s r))\<rparr>)
      (f(Delay := insort_delay (storage s) (ms + now) r (f Delay)))"
    using delay_spec [OF assms, of now ms] by blast
  have "by_delay (storage s) (f Delay)" using sched_invD(2) [OF assms(1)] by (rule sinvD)
  then have "\<forall>y \<in> set (dropWhile ?P (f Delay)). ms + now < t_delay (storage s y)"
    using by_delay_dropWhile by blast
  moreover have "\<forall>x \<in> set (takeWhile ?P (f Delay)). t_delay (storage s x) \<le> ms + now"
    by (auto dest: set_takeWhileD)
  ultimately have xy: "\<forall>x \<in> set (takeWhile ?P (f Delay)). t_delay (storage s x) \<le> ms + now"
    "\<forall>y \<in> set (dropWhile ?P (f Delay)). ms + now < t_delay (storage s y)" by blast+
  define s' where "s' = s\<lparr>sqm := m, storage := (storage s)(r := delayed_thread (ms + now) (storage s r))\<rparr>"
  have s': "scheduler_delay_thread now ms s = Some (True, s')"
    "sched_inv s' (f(Delay := takeWhile ?P (f Delay) @ r # dropWhile ?P (f Delay)))"
    "t_delay (storage s' r) = ms + now" "t_state (storage s' r) = THREAD_WAITING"
    using m by (simp_all add: s'_def insort_delay_def del: fun_upd_apply) (simp_all add: s'_def)
  have "by_delay (storage s') (takeWhile ?P (f Delay) @ r # dropWhile ?P (f Delay))"
    using sinvD(3) [OF sched_invD(2) [OF s'(2)]] by simp
  then show ?thesis
    using s' xy by (intro exI [of _ s'] exI [of _ "takeWhile ?P (f Delay)"] exI [of _ "dropWhile ?P (f Delay)"] conjI)
      (rule takeWhile_dropWhile_id [symmetric] | assumption)+
qed

theorem delay_keeps_queue_sorted_witness:
  "sample_queues Delay = [4] \<and> (\<exists>s' xs ys. scheduler_delay_thread 60 20 sample_sched = Some (True, s') \<and>
     [4] = xs @ ys \<and> sched_inv s' (sample_queues(Delay := xs @ 2 # ys)) \<and> t_delay (storage s' 2) = 80)"
proof -
  have d: "sample_queues Delay = [4]" by (simp add: single_lists_def)
  have "t_tid (storage sample_sched 2) \<noteq> THREAD_TID_IDLE" "t_tid (storage sample_sched 2) \<noteq> THREAD_TID_TMRS"
    using sample_run by (simp_all add: thread_consts)
  from delay_keeps_queue_sorted [OF sample_inv sample_run(1,2) sample_unlinked this, of 60 20]
  obtain s' xs ys where "scheduler_delay_thread 60 20 sample_sched = Some (True, s')"
    "sample_queues Delay = xs @ ys" "sched_inv s' (sample_queues(Delay := xs @ 2 # ys))"
    "t_delay (storage s' 2) = 20 + 60" by blast
  then show ?thesis unfolding d by (intro conjI exI) (rule refl | assumption | simp)+
qed

end
