(* ===== verification/SchedulerPasses.thy ===== *)
theory SchedulerPasses
  imports SchedulerOps
begin

text \<open>
  The passes of \<^verbatim>\<open>src/kernel/scheduler.c\<close> over its queues, refined to list level: \<open>visit_spec\<close> and
  \<open>pass_spec\<close> say what \<open>schedule_waiting\<close> does, \<open>delayed_spec\<close> what \<open>schedule_delayed\<close> does. Each
  pass is proved to return (no dereference of \<open>NULL\<close>, no endless loop), to keep the invariant and to
  have exactly the effect of its specification.
\<close>

unbundle bit_operations_syntax

section \<open>The pass over the wait queue\<close>

definition due :: "u64 \<Rightarrow> thread \<Rightarrow> bool" where
  "due now t \<longleftrightarrow> t_state t = THREAD_READY \<or> has THREAD_FLAG_TERMINATE (t_flags t) \<or>
     has THREAD_FLAG_WAIT_TIMEOUT (t_flags t) \<and> t_delay t \<le> now"

definition woken :: "thread \<Rightarrow> thread" where
  "woken t = (if t_state t = THREAD_READY then t
              else if has THREAD_FLAG_TERMINATE (t_flags t) then t\<lparr>t_state := THREAD_DEAD\<rparr>
              else resumed t)"

definition goes_to :: "thread \<Rightarrow> sqid" where
  "goes_to t = (if t_state t = THREAD_READY then Ready (t_priority t)
                else if has THREAD_FLAG_TERMINATE (t_flags t) then Dead
                else Ready (t_priority t))"

type_synonym view = "(nat \<Rightarrow> thread) \<times> (sqid \<Rightarrow> nat list) \<times> u32"

definition visit_spec :: "u64 \<Rightarrow> nat \<Rightarrow> nat list \<Rightarrow> view \<Rightarrow> view" where
  "visit_spec now x xs v =
     (case v of (st, f, nd) \<Rightarrow>
       if due now (st x)
       then (st(x := woken (st x)), f(Wait := xs, goes_to (st x) := f (goes_to (st x)) @ [x]), nd)
       else (st, f, if has THREAD_FLAG_WAIT_TIMEOUT (t_flags (st x))
                    then update_new_delay now (st x) nd else nd))"

definition roll_view :: "view \<Rightarrow> view" where
  "roll_view v = (case v of (st, f, nd) \<Rightarrow> (st, f(Wait := rotate1 (f Wait)), nd))"

fun pass_spec :: "u64 \<Rightarrow> nat \<Rightarrow> view \<Rightarrow> view" where
  "pass_spec now 0 v = v"
| "pass_spec now (Suc i) v =
     (case fst (snd v) Wait of
        [] \<Rightarrow> v
      | x # xs \<Rightarrow> pass_spec now i (roll_view (visit_spec now x xs v)))"

text \<open>The concrete state that has a given view.\<close>

definition with_view :: "sched \<Rightarrow> (sqid, nat) qmem \<Rightarrow> view \<Rightarrow> sched" where
  "with_view s m v = s\<lparr>sqm := m, storage := fst v, new_delay_wq := snd (snd v)\<rparr>"

lemma goes_to_not [simp]: "goes_to t \<noteq> Delay" "Delay \<noteq> goes_to t" "goes_to t \<noteq> Wait" "Wait \<noteq> goes_to t"
  by (auto simp: goes_to_def)

lemma woken_slot [simp]: "slot_ok x (woken t) = slot_ok x t"
  by (simp add: woken_def slot_ok_def)

lemma woken_place: "place_ok (goes_to t) (woken t)"
  by (simp add: woken_def goes_to_def)

lemma wait_resumable:
  "place_ok Wait t \<Longrightarrow> t_state t = THREAD_WAITING \<Longrightarrow> \<not> has THREAD_FLAG_TERMINATE (t_flags t) \<Longrightarrow>
   resumable (t_flags t AND THREAD_MASK_EVENTS) t"
  by (simp add: resumable_def mask_parts bit.conj_disj_distrib ac_simps or_eq_0_iff)

lemma visit_due:
  assumes I: "sched_inv s f" and Q: "f Wait = x # xs" and D: "due now (storage s x)"
  shows "\<exists>m. wait_visit now s = Some (s\<lparr>sqm := m, storage := (storage s)(x := woken (storage s x))\<rparr>) \<and>
    qrep m (f(Wait := xs, goes_to (storage s x) := f (goes_to (storage s x)) @ [x]))"
proof -
  let ?t = "storage s x"
  have h: "sq_head Wait s = Some x" using sched_invD(1) [OF I] Q by (rule sq_head_Cons)
  have x: "slot_ok x ?t" and pl: "place_ok Wait ?t"
    using sinvD(1,2) [OF sched_invD(2) [OF I], of x Wait] Q by auto
  obtain m1 m2 where m: "sq_deq Wait s = Some (EOK, Some x, s\<lparr>sqm := m1\<rparr>)"
    "\<And>s'. sqm s' = m1 \<Longrightarrow> sq_enq (goes_to ?t) x s' = Some (EOK, s'\<lparr>sqm := m2\<rparr>)"
    "qrep m2 (f(Wait := xs, goes_to ?t := f (goes_to ?t) @ [x]))"
    using sq_move [OF I Q, of "goes_to ?t"] by auto
  have st: "t_state ?t = THREAD_READY \<or> t_state ?t = THREAD_WAITING" using pl by auto
  have rq: "ready_queue (t_priority ?t) = Some (Ready (t_priority ?t))"
    using x by (rule ready_queue_slot)
  have g: "get_thread (t_tid ?t) (s\<lparr>sqm := m1\<rparr>) = Some x"
    using get_thread_slot [of x "s\<lparr>sqm := m1\<rparr>"] x by simp
  consider (r) "t_state ?t = THREAD_READY"
    | (t) "t_state ?t = THREAD_WAITING" "has THREAD_FLAG_TERMINATE (t_flags ?t)"
    | (w) "t_state ?t = THREAD_WAITING" "\<not> has THREAD_FLAG_TERMINATE (t_flags ?t)"
    using st by blast
  then have "wait_visit now s = Some (s\<lparr>sqm := m2, storage := (storage s)(x := woken ?t)\<rparr>)"
  proof cases
    case r
    with h m(1) m(2) rq show ?thesis by (simp add: wait_visit_def Let_def goes_to_def woken_def)
  next
    case t
    with h m(1) m(2) show ?thesis by (simp add: wait_visit_def Let_def goes_to_def woken_def)
  next
    case w
    with D have "has THREAD_FLAG_WAIT_TIMEOUT (t_flags ?t)" "t_delay ?t \<le> now"
      by (auto simp: due_def)
    with w h m(1) m(2) rq g wait_resumable [OF pl w] show ?thesis
      by (simp add: wait_visit_def Let_def goes_to_def woken_def scheduler_resume_thread_eq)
  qed
  with m(3) show ?thesis by blast
qed

lemma visit_not_due:
  assumes I: "sched_inv s f" and Q: "f Wait = x # xs" and D: "\<not> due now (storage s x)"
  shows "wait_visit now s = Some (s\<lparr>new_delay_wq :=
      (if has THREAD_FLAG_WAIT_TIMEOUT (t_flags (storage s x))
       then update_new_delay now (storage s x) (new_delay_wq s) else new_delay_wq s)\<rparr>)"
proof -
  have "sq_head Wait s = Some x" using sched_invD(1) [OF I] Q by (rule sq_head_Cons)
  moreover have "t_state (storage s x) = THREAD_WAITING"
    using sinvD(2) [OF sched_invD(2) [OF I], of x Wait] Q D by (auto simp: due_def)
  ultimately show ?thesis using D by (auto simp: wait_visit_def Let_def due_def)
qed

lemma visit_sinv:
  assumes S: "sinv st f" and R: "qrep m f" and Q: "f Wait = x # xs"
  shows "(case roll_view (visit_spec now x xs (st, f, nd)) of (st', f', nd') \<Rightarrow> sinv st' f')"
proof (cases "due now (st x)")
  case True
  have "slot_ok x (woken (st x))" using sinvD(1) [OF S, of x Wait] Q by simp
  then have "sinv (st(x := woken (st x))) (f(Wait := xs, goes_to (st x) := f (goes_to (st x)) @ [x]))"
    by (intro sinv_move [OF S R Q] woken_place) auto
  from sinv_roll [OF this, of Wait] True show ?thesis by (simp add: visit_spec_def roll_view_def)
next
  case False
  with sinv_roll [OF S, of Wait] show ?thesis by (simp add: visit_spec_def roll_view_def)
qed

lemma visit_roll_ref:
  assumes I: "sched_inv s f" and Q: "f Wait = x # xs"
    and V: "roll_view (visit_spec now x xs (storage s, f, new_delay_wq s)) = (st', f', nd')"
  shows "\<exists>m. wait_visit now s \<bind> sq_roll Wait = Some (EOK, with_view s m (st', f', nd')) \<and>
    sched_inv (with_view s m (st', f', nd')) f'"
proof -
  have S: "sinv st' f'"
    using visit_sinv [OF sched_invD(2) [OF I] sched_invD(1) [OF I] Q, of now "new_delay_wq s"] V by simp
  show ?thesis
  proof (cases "due now (storage s x)")
    case True
    let ?g = "f(Wait := xs, goes_to (storage s x) := f (goes_to (storage s x)) @ [x])"
    let ?st = "(storage s)(x := woken (storage s x))"
    obtain m1 where m1: "wait_visit now s = Some (s\<lparr>sqm := m1, storage := ?st\<rparr>)" "qrep m1 ?g"
      using visit_due [OF I Q True] by blast
    obtain m2 where m2: "sq_roll Wait (s\<lparr>sqm := m1, storage := ?st\<rparr>) =
        Some (EOK, s\<lparr>sqm := m2, storage := ?st\<rparr>)" "qrep m2 (?g(Wait := rotate1 (?g Wait)))"
      using sq_roll_rep [of "s\<lparr>sqm := m1, storage := ?st\<rparr>" ?g Wait] m1(2) by auto
    have "st' = ?st" "f' = ?g(Wait := rotate1 (?g Wait))" "nd' = new_delay_wq s"
      using V True by (simp_all add: visit_spec_def roll_view_def)
    with m1 m2 S show ?thesis by (auto simp: with_view_def sched_inv_def)
  next
    case False
    let ?nd = "if has THREAD_FLAG_WAIT_TIMEOUT (t_flags (storage s x))
       then update_new_delay now (storage s x) (new_delay_wq s) else new_delay_wq s"
    obtain m2 where m2: "sq_roll Wait (s\<lparr>new_delay_wq := ?nd\<rparr>) =
        Some (EOK, s\<lparr>new_delay_wq := ?nd, sqm := m2\<rparr>)" "qrep m2 (f(Wait := rotate1 (f Wait)))"
      using sq_roll_rep [of "s\<lparr>new_delay_wq := ?nd\<rparr>" f Wait] sched_invD(1) [OF I] by auto
    have "st' = storage s" "f' = f(Wait := rotate1 (f Wait))" "nd' = ?nd"
      using V False by (auto simp: visit_spec_def roll_view_def)
    with m2 S visit_not_due [OF I Q False] show ?thesis
      by (auto simp: with_view_def sched_inv_def)
  qed
qed

lemma visit_length:
  assumes "f Wait = x # xs" "roll_view (visit_spec now x xs (st, f, nd)) = (st', f', nd')"
  shows "length (f Wait) \<le> Suc (length (f' Wait))"
  using assms by (auto simp: visit_spec_def roll_view_def split: if_splits)

lemma with_view_trans [simp]:
  "with_view (with_view s m v) m' v' = with_view s m' v'"
  "sqm (with_view s m v) = m" "storage (with_view s m v) = fst v"
  "new_delay_wq (with_view s m v) = snd (snd v)" "running (with_view s m v) = running s"
  "new_delay_dq (with_view s m v) = new_delay_dq s" "thread_num (with_view s m v) = thread_num s"
  "with_view (s\<lparr>new_delay_wq := n\<rparr>) m v = with_view s m v"
  by (simp_all add: with_view_def)

lemma wait_loop_ref:
  assumes "sched_inv s f" "i \<le> length (f Wait)"
    and "pass_spec now i (storage s, f, new_delay_wq s) = (st', f', nd')"
  shows "\<exists>m. wait_loop now i s = Some (with_view s m (st', f', nd')) \<and>
    sched_inv (with_view s m (st', f', nd')) f'"
  using assms
proof (induction i arbitrary: s f)
  case 0
  then show ?case by (intro exI [of _ "sqm s"]) (auto simp: with_view_def)
next
  case (Suc i)
  then obtain x xs where Q: "f Wait = x # xs" by (cases "f Wait") auto
  obtain st1 f1 nd1 where V: "roll_view (visit_spec now x xs (storage s, f, new_delay_wq s)) = (st1, f1, nd1)"
    by (metis prod_cases3)
  obtain m1 where m1: "wait_visit now s \<bind> sq_roll Wait = Some (EOK, with_view s m1 (st1, f1, nd1))"
    "sched_inv (with_view s m1 (st1, f1, nd1)) f1"
    using visit_roll_ref [OF Suc.prems(1) Q V] by blast
  have P: "pass_spec now i (st1, f1, nd1) = (st', f', nd')" using Suc.prems(3) Q V by simp
  have L: "i \<le> length (f1 Wait)" using visit_length [OF Q V] Suc.prems(2) by simp
  obtain m where "wait_loop now i (with_view s m1 (st1, f1, nd1)) = Some (with_view s m (st', f', nd'))"
    "sched_inv (with_view s m (st', f', nd')) f'"
    using Suc.IH [OF m1(2) L] P by auto
  moreover have "wait_loop now (Suc i) s = wait_loop now i (with_view s m1 (st1, f1, nd1))"
    using m1(1) by (auto simp: bind_eq_Some_conv)
  ultimately show ?case by auto
qed

lemma schedule_waiting_ref:
  assumes I: "sched_inv s f"
    and P: "pass_spec now (length (f Wait)) (storage s, f, SCHED_DELAY_MAX) = (st', f', nd')"
  shows "\<exists>m. schedule_waiting now s = Some (with_view s m (st', f', nd')) \<and>
    sched_inv (with_view s m (st', f', nd')) f'"
proof -
  let ?s = "s\<lparr>new_delay_wq := SCHED_DELAY_MAX\<rparr>"
  have "sched_inv ?s f" using I by (simp add: sched_inv_def)
  moreover have "unat (sq_count Wait ?s) = length (f Wait)" using sched_invD(1) [OF I] by simp
  ultimately show ?thesis
    using wait_loop_ref [of ?s f "length (f Wait)" now st' f' nd'] P
    by (simp add: schedule_waiting_def Let_def)
qed

section \<open>What the wait pass achieves\<close>

text \<open>What one step keeps: the membership of the other queues and the threads that are not due.\<close>

definition pass_rel :: "u64 \<Rightarrow> view \<Rightarrow> view \<Rightarrow> bool" where
  "pass_rel now v v' \<longleftrightarrow>
     (case v of (st, f, nd) \<Rightarrow> case v' of (st', f', nd') \<Rightarrow>
       (\<forall>x \<in> set (f Wait).
          x \<in> set (f' Wait) \<and> st' x = st x \<or>
          due now (st x) \<and> x \<notin> set (f' Wait) \<and> x \<in> set (f' (goes_to (st x))) \<and> st' x = woken (st x)) \<and>
       (\<forall>x. x \<notin> set (f Wait) \<longrightarrow> st' x = st x \<and> x \<notin> set (f' Wait)) \<and>
       (\<forall>q. q \<noteq> Wait \<longrightarrow> (\<exists>ys. f' q = f q @ ys)) \<and> f' Delay = f Delay)"

lemma pass_relI_step:
  assumes D: "distinct (f Wait)" and Q: "f Wait = x # xs"
  shows "pass_rel now (st, f, nd) (roll_view (visit_spec now x xs (st, f, nd)))"
  using assms by (auto simp: pass_rel_def visit_spec_def roll_view_def)

lemma pass_rel_trans:
  assumes "pass_rel now u v" "pass_rel now v w"
  shows "pass_rel now u w"
proof -
  obtain st f nd where u: "u = (st, f, nd)" by (metis prod_cases3)
  obtain st1 f1 nd1 where v: "v = (st1, f1, nd1)" by (metis prod_cases3)
  obtain st2 f2 nd2 where w: "w = (st2, f2, nd2)" by (metis prod_cases3)
  note a = assms(1) [unfolded pass_rel_def u v, simplified]
  note b = assms(2) [unfolded pass_rel_def v w, simplified]
  have "x \<in> set (f2 Wait) \<and> st2 x = st x \<or>
     due now (st x) \<and> x \<notin> set (f2 Wait) \<and> x \<in> set (f2 (goes_to (st x))) \<and> st2 x = woken (st x)"
    if x: "x \<in> set (f Wait)" for x
  proof (cases "x \<in> set (f1 Wait)")
    case True
    then have "st1 x = st x" using a x by blast
    with True b show ?thesis by metis
  next
    case False
    then have c: "due now (st x)" "x \<in> set (f1 (goes_to (st x)))" "st1 x = woken (st x)"
      using a x by blast+
    have "\<exists>ys. f2 (goes_to (st x)) = f1 (goes_to (st x)) @ ys" using b by simp
    then have "x \<in> set (f2 (goes_to (st x)))" using c(2) by auto
    with c False b show ?thesis by metis
  qed
  moreover have "\<exists>ys. f2 q = f q @ ys" if "q \<noteq> Wait" for q
  proof -
    obtain ys zs where "f1 q = f q @ ys" "f2 q = f1 q @ zs" using a b \<open>q \<noteq> Wait\<close> by blast
    then show ?thesis by simp
  qed
  moreover have "\<forall>x. x \<notin> set (f Wait) \<longrightarrow> st2 x = st x \<and> x \<notin> set (f2 Wait)" using a b by metis
  moreover have "f2 Delay = f Delay" using a b by simp
  ultimately show ?thesis unfolding pass_rel_def u w by blast
qed

lemma pass_rel_refl: "pass_rel now v v"
  by (auto simp: pass_rel_def split: prod.splits)

lemma visit_distinct:
  assumes "distinct (f Wait)" "f Wait = x # xs" "roll_view (visit_spec now x xs (st, f, nd)) = (st', f', nd')"
  shows "distinct (f' Wait)"
  using assms by (auto simp: visit_spec_def roll_view_def split: if_splits)

lemma pass_spec_rel:
  "distinct (f Wait) \<Longrightarrow> pass_rel now (st, f, nd) (pass_spec now i (st, f, nd))"
proof (induction i arbitrary: st f nd)
  case (Suc i)
  show ?case
  proof (cases "f Wait")
    case (Cons x xs)
    obtain st1 f1 nd1 where V: "roll_view (visit_spec now x xs (st, f, nd)) = (st1, f1, nd1)"
      by (metis prod_cases3)
    have "pass_rel now (st, f, nd) (st1, f1, nd1)"
      using pass_relI_step [of f x xs now st nd] Suc.prems Cons V by simp
    moreover have "pass_rel now (st1, f1, nd1) (pass_spec now i (st1, f1, nd1))"
      using visit_distinct [of f x xs now st nd st1 f1 nd1] Suc.prems Cons V by (intro Suc.IH) simp
    ultimately show ?thesis using V Cons by (auto dest: pass_rel_trans)
  qed (simp add: pass_rel_refl)
qed (simp add: pass_rel_refl)

text \<open>The first thread that is due leaves the wait queue, however many threads wait before it.\<close>

lemma pass_first_due:
  assumes "distinct (f Wait)" "f Wait = ys @ x # zs" "\<forall>y\<in>set ys. \<not> due now (st y)"
    "due now (st x)" "length ys < i" "pass_spec now i (st, f, nd) = (st', f', nd')"
  shows "x \<notin> set (f' Wait)"
  using assms
proof (induction ys arbitrary: i f nd zs)
  case Nil
  then obtain j where j: "i = Suc j" by (cases i) auto
  obtain st1 f1 nd1 where V: "roll_view (visit_spec now x zs (st, f, nd)) = (st1, f1, nd1)"
    by (metis prod_cases3)
  have "x \<notin> set (f1 Wait)" using V Nil by (auto simp: visit_spec_def roll_view_def)
  moreover have "pass_rel now (st1, f1, nd1) (st', f', nd')"
    using pass_spec_rel [of f1 now st1 nd1 j] visit_distinct [of f x zs now st nd st1 f1 nd1]
      Nil.prems V j by simp
  ultimately show ?case by (auto simp: pass_rel_def)
next
  case (Cons y ys)
  then obtain j where j: "i = Suc j" by (cases i) auto
  define g where "g = f(Wait := ys @ x # zs @ [y])"
  have gW: "g Wait = ys @ x # zs @ [y]" by (simp add: g_def)
  obtain nd1 where "roll_view (visit_spec now y (ys @ x # zs) (st, f, nd)) = (st, g, nd1)"
    using Cons.prems by (simp add: visit_spec_def roll_view_def g_def)
  then have "pass_spec now j (st, g, nd1) = (st', f', nd')" using Cons.prems j by simp
  with Cons.prems j gW show ?case by (intro Cons.IH [of g "zs @ [y]" j nd1]) auto
qed

text \<open>With no thread due, the pass leaves the queue in its order and takes the least remaining delay.\<close>

definition least_delay :: "u64 \<Rightarrow> (nat \<Rightarrow> thread) \<Rightarrow> nat list \<Rightarrow> u32 \<Rightarrow> u32" where
  "least_delay now st xs nd =
     fold (\<lambda>x nd. if has THREAD_FLAG_WAIT_TIMEOUT (t_flags (st x))
                  then update_new_delay now (st x) nd else nd) xs nd"

lemma pass_none_due_aux:
  assumes "f Wait = ys @ zs" "\<forall>y\<in>set (f Wait). \<not> due now (st y)"
  shows "pass_spec now (length ys) (st, f, nd) = (st, f(Wait := zs @ ys), least_delay now st ys nd)"
  using assms
proof (induction ys arbitrary: f nd zs)
  case (Cons y ys)
  define g where "g = f(Wait := ys @ zs @ [y])"
  have g: "g Wait = ys @ zs @ [y]" "g(Wait := v) = f(Wait := v)" for v by (simp_all add: g_def)
  obtain nd1 where nd1: "nd1 = least_delay now st [y] nd" by simp
  have "roll_view (visit_spec now y (ys @ zs) (st, f, nd)) = (st, g, nd1)"
    using Cons.prems nd1 by (simp add: visit_spec_def roll_view_def least_delay_def g_def)
  then have "pass_spec now (length (y # ys)) (st, f, nd) = pass_spec now (length ys) (st, g, nd1)"
    using Cons.prems by simp
  also have "\<dots> = (st, g(Wait := (zs @ [y]) @ ys), least_delay now st ys nd1)"
    using Cons.prems g(1) by (intro Cons.IH) auto
  also have "\<dots> = (st, f(Wait := zs @ y # ys), least_delay now st (y # ys) nd)"
    unfolding g(2) nd1 least_delay_def by simp
  finally show ?case .
qed (simp add: least_delay_def)

lemma pass_none_due:
  "\<forall>y\<in>set (f Wait). \<not> due now (st y) \<Longrightarrow>
   pass_spec now (length (f Wait)) (st, f, nd) = (st, f, least_delay now st (f Wait) nd)"
  using pass_none_due_aux [of f "f Wait" "[]" now st nd] by simp

lemma update_new_delay_le:
  "update_new_delay now t nd \<le> nd"
  "now < t_delay t \<Longrightarrow> ucast (update_new_delay now t nd) \<le> t_delay t - now"
proof -
  have u: "unat (ucast (d :: u64) :: u32) = unat d" if "d < ucast (nd :: u32)" for d
  proof -
    have "unat d < 2 ^ 32" using that unsigned_less [of nd, where ?'a = nat] by (simp add: word_less_nat_alt unat_ucast_up)
    then show ?thesis by (simp add: unsigned_ucast_eq take_bit_nat_eq_self)
  qed
  show "update_new_delay now t nd \<le> nd"
    using u [of "t_delay t - now"]
    by (auto simp: update_new_delay_def word_le_nat_alt word_less_nat_alt unat_ucast_up)
  show "ucast (update_new_delay now t nd) \<le> t_delay t - now" if "now < t_delay t"
    using u [of "t_delay t - now"] that
    by (auto simp: update_new_delay_def word_le_nat_alt word_less_nat_alt unat_ucast_up)
qed

text \<open>The delay the pass computes is a lower bound of the remaining times of the threads it visits.\<close>

lemma least_delay_le:
  "least_delay now st xs nd \<le> nd"
  "x \<in> set xs \<Longrightarrow> has THREAD_FLAG_WAIT_TIMEOUT (t_flags (st x)) \<Longrightarrow> now < t_delay (st x) \<Longrightarrow>
     ucast (least_delay now st xs nd) \<le> t_delay (st x) - now"
proof -
  show le: "least_delay now st xs nd \<le> nd" for xs nd
    unfolding least_delay_def
  proof (induction xs arbitrary: nd)
    case (Cons y ys)
    from order_trans [OF Cons update_new_delay_le(1)] Cons show ?case by simp
  qed simp
  show "ucast (least_delay now st xs nd) \<le> t_delay (st x) - now"
    if "x \<in> set xs" "has THREAD_FLAG_WAIT_TIMEOUT (t_flags (st x))" "now < t_delay (st x)"
    using that(1)
  proof (induction xs arbitrary: nd)
    case (Cons y ys)
    let ?n = "if has THREAD_FLAG_WAIT_TIMEOUT (t_flags (st y)) then update_new_delay now (st y) nd else nd"
    have e: "least_delay now st (y # ys) nd = least_delay now st ys ?n" by (simp add: least_delay_def)
    show ?case
    proof (cases "y = x")
      case True
      then have n: "?n = update_new_delay now (st x) nd" using that(2) by simp
      have "ucast (least_delay now st ys ?n) \<le> (ucast ?n :: u64)"
        using le [of ys ?n] by (simp add: word_le_nat_alt unat_ucast_up del: if_split)
      also have "\<dots> \<le> t_delay (st x) - now" unfolding n using that(3) by (rule update_new_delay_le)
      finally show ?thesis unfolding e .
    next
      case False
      with Cons show ?thesis unfolding e by simp
    qed
  qed simp
qed

section \<open>Properties\<close>

text \<open>C6: the pass over the wait queue loses no thread. It always returns with the invariant intact; a
  thread that waited either still waits, untouched, or was due and has moved: one already marked
  ready is unchanged in the ready queue of its priority, one marked for termination is in the dead
  queue with state dead and nothing else changed, one that timed out is resumed (ready, wait flags
  cleared) in the ready queue of its priority. No other thread is changed and the delay queue is
  left alone.\<close>

theorem schedule_waiting_loses_no_thread:
  assumes "sched_inv s f"
  shows "\<exists>s' f'. schedule_waiting now s = Some s' \<and> sched_inv s' f' \<and> running s' = running s \<and>
    (\<forall>x \<in> set (f Wait). x \<in> set (f' Wait) \<and> storage s' x = storage s x \<or>
       due now (storage s x) \<and> x \<in> set (f' (goes_to (storage s x))) \<and> storage s' x = woken (storage s x)) \<and>
    (\<forall>x. x \<notin> set (f Wait) \<longrightarrow> storage s' x = storage s x \<and> x \<notin> set (f' Wait)) \<and> f' Delay = f Delay"
proof -
  obtain st' f' nd' where P: "pass_spec now (length (f Wait)) (storage s, f, SCHED_DELAY_MAX) = (st', f', nd')"
    by (metis prod_cases3)
  obtain m where m: "schedule_waiting now s = Some (with_view s m (st', f', nd'))"
    "sched_inv (with_view s m (st', f', nd')) f'" using schedule_waiting_ref [OF assms P] by blast
  have "pass_rel now (storage s, f, SCHED_DELAY_MAX) (st', f', nd')"
    using pass_spec_rel [of f now "storage s" SCHED_DELAY_MAX "length (f Wait)"] P
      qrep_distinct [OF sched_invD(1) [OF assms]] by simp
  with m show ?thesis
    by (intro exI [of _ "with_view s m (st', f', nd')"] exI [of _ f']) (auto simp: pass_rel_def)
qed

theorem schedule_waiting_loses_no_thread_witness:
  "\<exists>s' f'. schedule_waiting 60 sample_sched = Some s' \<and> sched_inv s' f' \<and>
     (3 \<in> set (f' Wait) \<or> 3 \<in> set (f' (Ready 2)) \<and> t_state (storage s' 3) = THREAD_READY)"
proof -
  have w: "sample_queues Wait = [3]" by (simp add: single_lists_def)
  have "goes_to (storage sample_sched 3) = Ready 2" "t_state (woken (storage sample_sched 3)) = THREAD_READY"
    by (simp_all add: goes_to_def woken_def sample_sched_def sample_storage_def sample_thread_def zero_thread_def flag_defs)
  with schedule_waiting_loses_no_thread [OF sample_inv, of 60] show ?thesis unfolding w by fastforce
qed

text \<open>C10: the wait pass makes progress. The first thread of the wait queue that is due leaves it, however
  many threads that are not due stand before it.\<close>

theorem schedule_waiting_wakes_first_due:
  assumes "sched_inv s f" "f Wait = ys @ x # zs" "\<forall>y \<in> set ys. \<not> due now (storage s y)" "due now (storage s x)"
  shows "\<exists>s' f'. schedule_waiting now s = Some s' \<and> sched_inv s' f' \<and> x \<notin> set (f' Wait) \<and>
    x \<in> set (f' (goes_to (storage s x))) \<and> storage s' x = woken (storage s x)"
proof -
  have D: "distinct (f Wait)" using sched_invD(1) [OF assms(1)] by (rule qrep_distinct)
  obtain st' f' nd' where P: "pass_spec now (length (f Wait)) (storage s, f, SCHED_DELAY_MAX) = (st', f', nd')"
    by (metis prod_cases3)
  obtain m where m: "schedule_waiting now s = Some (with_view s m (st', f', nd'))"
    "sched_inv (with_view s m (st', f', nd')) f'" using schedule_waiting_ref [OF assms(1) P] by blast
  have x: "x \<notin> set (f' Wait)" using pass_first_due [OF D assms(2-4) _ P] assms(2) by simp
  have "pass_rel now (storage s, f, SCHED_DELAY_MAX) (st', f', nd')"
    using pass_spec_rel [of f now "storage s" SCHED_DELAY_MAX "length (f Wait)"] D P by simp
  then have "x \<in> set (f' (goes_to (storage s x))) \<and> st' x = woken (storage s x)"
    using x assms(2) by (auto simp: pass_rel_def)
  with m x show ?thesis
    by (intro exI [of _ "with_view s m (st', f', nd')"] exI [of _ f']) simp
qed

theorem schedule_waiting_wakes_first_due_witness:
  "due 60 (storage sample_sched 3) \<and> (\<exists>s' f'. schedule_waiting 60 sample_sched = Some s' \<and> sched_inv s' f' \<and>
     3 \<notin> set (f' Wait) \<and> 3 \<in> set (f' (goes_to (storage sample_sched 3))))"
proof -
  have w: "sample_queues Wait = [] @ 3 # []" by (simp add: single_lists_def)
  have d: "due 60 (storage sample_sched 3)"
    by (simp add: due_def sample_sched_def sample_storage_def sample_thread_def flag_defs)
  from schedule_waiting_wakes_first_due [OF sample_inv w _ d] d show ?thesis by auto
qed

text \<open>When no waiting thread is due the pass changes neither the queues, nor their order, nor any
  thread, and the delay it asks for ends no later than the earliest timeout of a waiting thread.\<close>

theorem schedule_waiting_idle:
  assumes "sched_inv s f" "\<forall>y \<in> set (f Wait). \<not> due now (storage s y)"
  shows "\<exists>s'. schedule_waiting now s = Some s' \<and> sched_inv s' f \<and> storage s' = storage s \<and>
    new_delay_wq s' \<le> SCHED_DELAY_MAX \<and>
    (\<forall>x \<in> set (f Wait). has THREAD_FLAG_WAIT_TIMEOUT (t_flags (storage s x)) \<longrightarrow>
       ucast (new_delay_wq s') \<le> t_delay (storage s x) - now)"
proof -
  let ?d = "least_delay now (storage s) (f Wait) SCHED_DELAY_MAX"
  have P: "pass_spec now (length (f Wait)) (storage s, f, SCHED_DELAY_MAX) = (storage s, f, ?d)"
    using pass_none_due [of f now "storage s" SCHED_DELAY_MAX] assms(2) by simp
  obtain m where m: "schedule_waiting now s = Some (with_view s m (storage s, f, ?d))"
    "sched_inv (with_view s m (storage s, f, ?d)) f"
    using schedule_waiting_ref [OF assms(1) P] by blast
  have "now < t_delay (storage s x)" if "x \<in> set (f Wait)" "has THREAD_FLAG_WAIT_TIMEOUT (t_flags (storage s x))" for x
    using assms(2) that by (auto simp: due_def not_le)
  with m least_delay_le show ?thesis
    by (intro exI [of _ "with_view s m (storage s, f, ?d)"]) (simp add: with_view_trans)
qed

theorem schedule_waiting_idle_witness:
  "\<not> due 20 (storage sample_sched 3) \<and> (\<exists>s'. schedule_waiting 20 sample_sched = Some s' \<and>
     storage s' = storage sample_sched \<and> (ucast (new_delay_wq s') :: u64) \<le> 30)"
proof -
  have w: "sample_queues Wait = [3]" by (simp add: single_lists_def)
  have d: "\<not> due 20 (storage sample_sched 3)" "has THREAD_FLAG_WAIT_TIMEOUT (t_flags (storage sample_sched 3))"
    "t_delay (storage sample_sched 3) - 20 = 30"
    by (simp_all add: due_def sample_sched_def sample_storage_def sample_thread_def zero_thread_def flag_defs)
  with schedule_waiting_idle [OF sample_inv, of 20] show ?thesis unfolding w by fastforce
qed

text \<open>A ready thread can be left behind. The pass visits as many heads as there were threads, but a
  visit that takes a thread off the queue is followed by a roll that moves the next thread to the
  tail unvisited. With a thread that stays and two that are due behind it, the last one is not
  visited: it stays in the wait queue, ready but not runnable, until a later pass.\<close>

theorem schedule_waiting_skips_a_ready_thread:
  assumes "sched_inv s f" "f Wait = [a, b, c]" "\<not> due now (storage s a)" "due now (storage s b)"
  shows "\<exists>s' f'. schedule_waiting now s = Some s' \<and> sched_inv s' f' \<and> set (f' Wait) = {a, c} \<and> storage s' c = storage s c"
proof -
  have d: "distinct [a, b, c]" using qrep_distinct [OF sched_invD(1) [OF assms(1)], of Wait] assms(2) by simp
  obtain st' f' nd' where P: "pass_spec now (length (f Wait)) (storage s, f, SCHED_DELAY_MAX) = (st', f', nd')"
    by (metis prod_cases3)
  obtain m where m: "schedule_waiting now s = Some (with_view s m (st', f', nd'))"
    "sched_inv (with_view s m (st', f', nd')) f'" using schedule_waiting_ref [OF assms(1) P] by blast
  have "set (f' Wait) = {a, c} \<and> st' c = storage s c"
    using P assms(2-4) d by (auto simp: visit_spec_def roll_view_def numeral_3_eq_3)
  with m show ?thesis by (intro exI [of _ "with_view s m (st', f', nd')"] exI [of _ f']) simp
qed

definition sample_three :: sched where
  "sample_three = \<lparr>running = Some 2,
     sqm = \<lparr>qinst = (\<lambda>q. if q = Wait then \<lparr>qi_head = Some 3, qi_tail = Some 5, qi_counter = 3\<rparr>
                         else \<lparr>qi_head = None, qi_tail = None, qi_counter = 0\<rparr>),
            qnext = (\<lambda>_. None)(3 := Some 4, 4 := Some 5)\<rparr>,
     storage = (\<lambda>p. sample_thread p 1 (if p = 3 then THREAD_WAITING else THREAD_READY) THREAD_FLAG_WAIT_EVENT 0),
     thread_num = 5, new_delay_wq = 0, new_delay_dq = 0\<rparr>"

theorem schedule_waiting_skips_a_ready_thread_witness:
  "t_state (storage sample_three 5) = THREAD_READY \<and>
   (\<exists>s' f'. schedule_waiting 0 sample_three = Some s' \<and> sched_inv s' f' \<and> set (f' Wait) = {3, 5})"
proof -
  let ?f = "(\<lambda>_. [])(Wait := [3, 4, 5])"
  have q: "qrep (sqm sample_three) ?f"
    by (auto simp: qrep_def qinst_rep_def sample_three_def last_ptr_def)
  have "slot_ok p (storage sample_three p) \<and> place_ok q (storage sample_three p)" if "p \<in> set (?f q)" for p q
    using that by (auto simp: sample_three_def sample_thread_def slot_ok_def thread_consts flag_defs split: if_splits)
  with q have I: "sched_inv sample_three ?f" by (simp add: sched_inv_def sinv_def by_delay_def)
  have W: "?f Wait = [3, 4, 5]" by simp
  have "\<not> due 0 (storage sample_three 3)" "due 0 (storage sample_three 4)" "t_state (storage sample_three 5) = THREAD_READY"
    by (simp_all add: due_def sample_three_def sample_thread_def flag_defs)
  with schedule_waiting_skips_a_ready_thread [OF I W] show ?thesis by blast
qed

end
