(* ===== verification/SchedulerRun.thy ===== *)
theory SchedulerRun
  imports SchedulerPasses
begin

text \<open>
  The pass over the delay queue, the choice of the next running thread and the destruction of dead
  threads of \<^verbatim>\<open>src/kernel/scheduler.c\<close>: each returns, keeps the invariant, and has the effect of a
  list-level specification.
\<close>

unbundle bit_operations_syntax

section \<open>The pass over the delay queue\<close>

text \<open>
  A thread in the delay queue that was marked for termination has lost its timeout flag: the code
  takes it off the queue and then fails to resume it, so it ends in no queue at all.
\<close>

fun delayed_spec :: "u64 \<Rightarrow> nat list \<Rightarrow> (nat \<Rightarrow> thread) \<Rightarrow> (sqid \<Rightarrow> nat list) \<Rightarrow>
    (nat \<Rightarrow> thread) \<times> (sqid \<Rightarrow> nat list)" where
  "delayed_spec now [] st f = (st, f)"
| "delayed_spec now (x # xs) st f =
     (if t_delay (st x) \<le> now then
        (if has THREAD_FLAG_WAIT_TIMEOUT (t_flags (st x))
         then delayed_spec now xs (st(x := resumed (st x)))
                (f(Delay := xs, Ready (t_priority (st x)) := f (Ready (t_priority (st x))) @ [x]))
         else delayed_spec now xs st (f(Delay := xs)))
      else (st, f))"

abbreviation head_ptr :: "'a list \<Rightarrow> 'a option" where
  "head_ptr xs \<equiv> (case xs of [] \<Rightarrow> None | x # _ \<Rightarrow> Some x)"

lemma timeout_resumable:
  "t_state t = THREAD_WAITING \<Longrightarrow>
   resumable THREAD_FLAG_WAIT_TIMEOUT t \<longleftrightarrow> has THREAD_FLAG_WAIT_TIMEOUT (t_flags t)"
proof -
  have "THREAD_FLAG_WAIT_TIMEOUT AND (t_flags t AND THREAD_MASK_WAIT) =
        t_flags t AND (THREAD_FLAG_WAIT_TIMEOUT AND THREAD_MASK_WAIT)"
    by (simp add: ac_simps)
  also have "\<dots> = t_flags t AND THREAD_FLAG_WAIT_TIMEOUT" by (simp add: flag_defs)
  finally have "THREAD_FLAG_WAIT_TIMEOUT AND (t_flags t AND THREAD_MASK_WAIT) =
        t_flags t AND THREAD_FLAG_WAIT_TIMEOUT" .
  then show "t_state t = THREAD_WAITING \<Longrightarrow> ?thesis" by (simp add: resumable_def)
qed

lemma delayed_loop_Nil: "delayed_loop now None s = Some (None, s)"
  by (simp add: delayed_loop.simps)

lemma delayed_loop_stop:
  "\<not> t_delay (storage s p) \<le> now \<Longrightarrow> delayed_loop now (Some p) s = Some (Some p, s)"
  by (subst delayed_loop.simps) simp

lemma delayed_loop_wake:
  assumes I: "sched_inv s f" and Q: "f Delay = x # xs" and e: "t_delay (storage s x) \<le> now"
    and t: "has THREAD_FLAG_WAIT_TIMEOUT (t_flags (storage s x))"
  shows "\<exists>m. delayed_loop now (Some x) s =
      delayed_loop now (head_ptr xs) (s\<lparr>sqm := m, storage := (storage s)(x := resumed (storage s x))\<rparr>) \<and>
    sched_inv (s\<lparr>sqm := m, storage := (storage s)(x := resumed (storage s x))\<rparr>)
      (f(Delay := xs, Ready (t_priority (storage s x)) := f (Ready (t_priority (storage s x))) @ [x]))"
proof -
  let ?t = "storage s x" and ?q = "Ready (t_priority (storage s x))"
  have x: "slot_ok x ?t" and pl: "place_ok Delay ?t"
    using sinvD(1,2) [OF sched_invD(2) [OF I], of x Delay] Q by auto
  obtain m1 m2 where m: "sq_deq Delay s = Some (EOK, Some x, s\<lparr>sqm := m1\<rparr>)"
    "\<And>s'. sqm s' = m1 \<Longrightarrow> sq_enq ?q x s' = Some (EOK, s'\<lparr>sqm := m2\<rparr>)"
    "qrep m2 (f(Delay := xs, ?q := f ?q @ [x]))"
    using sq_move [OF I Q, of ?q] by auto
  have g: "get_thread (t_tid ?t) (s\<lparr>sqm := m1\<rparr>) = Some x"
    using get_thread_slot [of x "s\<lparr>sqm := m1\<rparr>"] x by simp
  have rs: "resumable THREAD_FLAG_WAIT_TIMEOUT ?t" using pl t by (simp add: timeout_resumable)
  have hd: "queue_head (Some Delay) m2 = head_ptr xs" using m(3) by (simp add: qrep_head)
  have "sinv ((storage s)(x := resumed ?t)) (f(Delay := xs, ?q := f ?q @ [x]))"
    using x by (intro sinv_move [OF sched_invD(2) [OF I] sched_invD(1) [OF I] Q]) auto
  moreover have "delayed_loop now (Some x) s =
      delayed_loop now (head_ptr xs) (s\<lparr>sqm := m2, storage := (storage s)(x := resumed ?t)\<rparr>)"
    using e m(1,2) g rs x hd
    by (subst delayed_loop.simps) (simp add: scheduler_resume_thread_eq ready_queue_slot)
  ultimately show ?thesis using m(3) by (auto simp: sched_inv_def)
qed

lemma delayed_loop_lose:
  assumes I: "sched_inv s f" and Q: "f Delay = x # xs" and e: "t_delay (storage s x) \<le> now"
    and t: "\<not> has THREAD_FLAG_WAIT_TIMEOUT (t_flags (storage s x))"
  shows "\<exists>m. delayed_loop now (Some x) s = delayed_loop now (head_ptr xs) (s\<lparr>sqm := m\<rparr>) \<and>
    sched_inv (s\<lparr>sqm := m\<rparr>) (f(Delay := xs))"
proof -
  let ?t = "storage s x"
  have x: "slot_ok x ?t" and pl: "place_ok Delay ?t"
    using sinvD(1,2) [OF sched_invD(2) [OF I], of x Delay] Q by auto
  obtain m1 where m: "sq_deq Delay s = Some (EOK, Some x, s\<lparr>sqm := m1\<rparr>)" "qrep m1 (f(Delay := xs))"
    using sq_deq_rep [OF sched_invD(1) [OF I], of Delay x xs] Q by blast
  have g: "get_thread (t_tid ?t) (s\<lparr>sqm := m1\<rparr>) = Some x"
    using get_thread_slot [of x "s\<lparr>sqm := m1\<rparr>"] x by simp
  have rs: "\<not> resumable THREAD_FLAG_WAIT_TIMEOUT ?t" using pl t by (simp add: timeout_resumable)
  have hd: "queue_head (Some Delay) m1 = head_ptr xs" using m(2) by (simp add: qrep_head)
  have "sinv (storage s) (f(Delay := xs))"
    using sinv_unlink [of "storage s" f Delay x xs] sched_invD(2) [OF I] Q by simp
  moreover have "delayed_loop now (Some x) s = delayed_loop now (head_ptr xs) (s\<lparr>sqm := m1\<rparr>)"
    using e m(1) g rs hd by (subst delayed_loop.simps) (simp add: scheduler_resume_thread_eq)
  ultimately show ?thesis using m(2) by (auto simp: sched_inv_def)
qed

lemma delayed_loop_ref:
  assumes "sched_inv s f" "f Delay = xs" "delayed_spec now xs (storage s) f = (st', f')"
  shows "\<exists>m. delayed_loop now (head_ptr xs) s =
      Some (head_ptr (f' Delay), s\<lparr>sqm := m, storage := st'\<rparr>) \<and>
    sched_inv (s\<lparr>sqm := m, storage := st'\<rparr>) f'"
  using assms
proof (induction xs arbitrary: s f)
  case Nil
  then show ?case by (intro exI [of _ "sqm s"]) (auto simp: delayed_loop_Nil)
next
  case (Cons x xs)
  show ?case
  proof (cases "t_delay (storage s x) \<le> now")
    case False
    with Cons.prems show ?thesis by (intro exI [of _ "sqm s"]) (auto simp: delayed_loop_stop)
  next
    case True
    show ?thesis
    proof (cases "has THREAD_FLAG_WAIT_TIMEOUT (t_flags (storage s x))")
      case t: True
      define g where "g = f(Delay := xs, Ready (t_priority (storage s x)) :=
        f (Ready (t_priority (storage s x))) @ [x])"
      have g: "g Delay = xs" by (simp add: g_def)
      define st where "st = (storage s)(x := resumed (storage s x))"
      obtain m where m: "delayed_loop now (Some x) s =
          delayed_loop now (head_ptr xs) (s\<lparr>sqm := m, storage := st\<rparr>)"
        "sched_inv (s\<lparr>sqm := m, storage := st\<rparr>) g"
        using delayed_loop_wake [OF Cons.prems(1,2) True t] unfolding g_def st_def by blast
      have "delayed_spec now xs st g = (st', f')" using Cons.prems True t by (simp add: g_def st_def)
      with Cons.IH [OF m(2)] m(1) g(1) show ?thesis by auto
    next
      case t: False
      define g where "g = f(Delay := xs)"
      have g: "g Delay = xs" by (simp add: g_def)
      obtain m where m: "delayed_loop now (Some x) s = delayed_loop now (head_ptr xs) (s\<lparr>sqm := m\<rparr>)"
        "sched_inv (s\<lparr>sqm := m\<rparr>) g"
        using delayed_loop_lose [OF Cons.prems(1,2) True t] unfolding g_def by blast
      have "delayed_spec now xs (storage s) g = (st', f')" using Cons.prems True t by (simp add: g_def)
      with Cons.IH [OF m(2)] m(1) g(1) show ?thesis by auto
    qed
  qed
qed

definition delayed_next :: "u64 \<Rightarrow> (nat \<Rightarrow> thread) \<Rightarrow> nat list \<Rightarrow> u32" where
  "delayed_next now st xs =
     (case xs of [] \<Rightarrow> SCHED_DELAY_MAX | x # _ \<Rightarrow> update_new_delay now (st x) SCHED_DELAY_MAX)"

lemma schedule_delayed_ref:
  assumes I: "sched_inv s f" and D: "delayed_spec now (f Delay) (storage s) f = (st', f')"
  shows "\<exists>m. schedule_delayed now s =
      Some (s\<lparr>sqm := m, storage := st', new_delay_dq := delayed_next now st' (f' Delay)\<rparr>) \<and>
    sched_inv (s\<lparr>sqm := m, storage := st', new_delay_dq := delayed_next now st' (f' Delay)\<rparr>) f'"
proof -
  let ?s = "s\<lparr>new_delay_dq := SCHED_DELAY_MAX\<rparr>"
  have i: "sched_inv ?s f" using I by (simp add: sched_inv_def)
  obtain m where m: "delayed_loop now (head_ptr (f Delay)) ?s =
      Some (head_ptr (f' Delay), ?s\<lparr>sqm := m, storage := st'\<rparr>)" "sched_inv (?s\<lparr>sqm := m, storage := st'\<rparr>) f'"
    using delayed_loop_ref [OF i refl, of now st' f'] D by auto
  have "sq_head Delay s = head_ptr (f Delay)" using sched_invD(1) [OF I] by (simp add: qrep_head)
  with m(1) have "schedule_delayed now s =
      Some (s\<lparr>sqm := m, storage := st', new_delay_dq := delayed_next now st' (f' Delay)\<rparr>)"
    by (simp add: schedule_delayed_def delayed_next_def split: list.splits)
  then show ?thesis using m(2) by (auto simp: sched_inv_def)
qed

text \<open>What the pass achieves: nothing that has expired is left, and every expired thread is ready.\<close>

lemma delayed_spec_step:
  assumes "t_delay (st x) \<le> now"
  obtains st1 g where "delayed_spec now (x # xs) st f = delayed_spec now xs st1 g" "g Delay = xs"
    "\<And>y. y \<noteq> x \<Longrightarrow> st1 y = st y" "\<And>q y. y \<in> set (f q) \<Longrightarrow> q \<noteq> Delay \<Longrightarrow> y \<in> set (g q)"
    "has THREAD_FLAG_WAIT_TIMEOUT (t_flags (st x)) \<Longrightarrow>
       st1 x = resumed (st x) \<and> x \<in> set (g (Ready (t_priority (st x))))"
proof (cases "has THREAD_FLAG_WAIT_TIMEOUT (t_flags (st x))")
  case True
  with assms show ?thesis by (intro that [of "st(x := resumed (st x))"
        "f(Delay := xs, Ready (t_priority (st x)) := f (Ready (t_priority (st x))) @ [x])"]) auto
next
  case False
  with assms show ?thesis by (intro that [of st "f(Delay := xs)"]) auto
qed

lemma delayed_spec_head:
  assumes "delayed_spec now xs st f = (st', f')" "f Delay = xs" "f' Delay = y # ys"
  shows "now < t_delay (st' y)"
  using assms
proof (induction xs arbitrary: st f)
  case (Cons x xs)
  show ?case
  proof (cases "t_delay (st x) \<le> now")
    case True
    from True obtain st1 g where "delayed_spec now (x # xs) st f = delayed_spec now xs st1 g" "g Delay = xs"
      by (rule delayed_spec_step [where xs = xs and f = f])
    with Cons.IH [of st1 g] Cons.prems show ?thesis by simp
  qed (use Cons.prems in auto)
qed auto

lemma delayed_spec_frame:
  assumes "delayed_spec now xs st f = (st', f')" "f Delay = xs" "x \<notin> set xs"
  shows "st' x = st x \<and> x \<notin> set (f' Delay) \<and> (\<forall>q. x \<in> set (f q) \<longrightarrow> x \<in> set (f' q))"
  using assms
proof (induction xs arbitrary: st f)
  case (Cons y ys)
  show ?case
  proof (cases "t_delay (st y) \<le> now")
    case True
    then obtain st1 g where g: "delayed_spec now (y # ys) st f = delayed_spec now ys st1 g" "g Delay = ys"
      "\<And>z. z \<noteq> y \<Longrightarrow> st1 z = st z" "\<And>q z. z \<in> set (f q) \<Longrightarrow> q \<noteq> Delay \<Longrightarrow> z \<in> set (g q)"
      by (rule delayed_spec_step [where xs = ys and f = f]) blast
    have "st' x = st1 x \<and> x \<notin> set (f' Delay) \<and> (\<forall>q. x \<in> set (g q) \<longrightarrow> x \<in> set (f' q))"
      using Cons.IH [of st1 g] Cons.prems g(1,2) by simp
    then show ?thesis using g(3,4) [of x] Cons.prems(2,3) by force
  qed (use Cons.prems in auto)
qed auto

lemma delayed_spec_unlinked:
  assumes "delayed_spec now xs st f = (st', f')" "f Delay = xs" "unlinked f x"
  shows "unlinked f' x \<and> st' x = st x"
  using assms
proof (induction xs arbitrary: st f)
  case (Cons y ys)
  have y: "y \<noteq> x" and ys: "x \<notin> set ys"
    using Cons.prems(2) Cons.prems(3) [unfolded unlinked_def, rule_format, of Delay] by auto
  have "unlinked (f(Delay := ys)) x"
    "unlinked (f(Delay := ys, Ready (t_priority (st y)) := f (Ready (t_priority (st y))) @ [y])) x"
    using Cons.prems(3) y ys by (auto simp: unlinked_def)
  with Cons y show ?case by (auto split: if_splits simp del: fun_upd_apply simp: fun_upd_same fun_upd_other)
qed simp

lemma delayed_spec_wakes:
  assumes "delayed_spec now xs st f = (st', f')" "f Delay = xs" "distinct xs" "x \<in> set xs"
    "by_delay st xs" "t_delay (st x) \<le> now" "has THREAD_FLAG_WAIT_TIMEOUT (t_flags (st x))"
  shows "st' x = resumed (st x) \<and> x \<in> set (f' (Ready (t_priority (st x))))"
  using assms
proof (induction xs arbitrary: st f)
  case (Cons y ys)
  have "t_delay (st y) \<le> now" using Cons.prems(4-6) by (auto simp: by_delay_def)
  then obtain st1 g where g: "delayed_spec now (y # ys) st f = delayed_spec now ys st1 g" "g Delay = ys"
      "\<And>z. z \<noteq> y \<Longrightarrow> st1 z = st z" "\<And>q z. z \<in> set (f q) \<Longrightarrow> q \<noteq> Delay \<Longrightarrow> z \<in> set (g q)"
      "has THREAD_FLAG_WAIT_TIMEOUT (t_flags (st y)) \<Longrightarrow>
       st1 y = resumed (st y) \<and> y \<in> set (g (Ready (t_priority (st y))))"
    by (rule delayed_spec_step [where xs = ys and f = f]) blast
  have d: "delayed_spec now ys st1 g = (st', f')" using Cons.prems(1) g(1) by simp
  show ?case
  proof (cases "x = y")
    case True
    with delayed_spec_frame [OF d g(2), of y] Cons.prems g(5) show ?thesis by auto
  next
    case False
    have "by_delay st1 ys = by_delay st ys" using Cons.prems(3) g(3) by (intro by_delay_cong) (metis distinct.simps(2))
    then have "by_delay st1 ys" using Cons.prems(5) by (auto dest: by_delay_Cons)
    with Cons.IH [OF d g(2)] Cons.prems False g(3) [of x] show ?thesis by simp
  qed
qed simp

section \<open>Choosing the next thread\<close>

abbreviation doomed :: "(nat \<Rightarrow> thread) \<Rightarrow> nat \<Rightarrow> bool" where
  "doomed st p \<equiv> has THREAD_FLAG_TERMINATE (t_flags (st p))"

definition mark_dead :: "nat list \<Rightarrow> (nat \<Rightarrow> thread) \<Rightarrow> nat \<Rightarrow> thread" where
  "mark_dead ts st p = (if p \<in> set ts then (st p)\<lparr>t_state := THREAD_DEAD\<rparr> else st p)"

lemma mark_dead_simps [simp]:
  "mark_dead [] st = st"
  "mark_dead ts (st(x := (st x)\<lparr>t_state := THREAD_DEAD\<rparr>)) = mark_dead (x # ts) st"
  "t_flags (mark_dead ts st p) = t_flags (st p)" "t_priority (mark_dead ts st p) = t_priority (st p)"
  "t_tid (mark_dead ts st p) = t_tid (st p)"
  by (auto simp: mark_dead_def fun_eq_iff)

lemma new_runner_kill:
  assumes I: "sched_inv s f" and Q: "f (Ready n) = x # xs" and d: "doomed (storage s) x"
  shows "\<exists>m. new_runner (Ready n) s = new_runner (Ready n)
      (s\<lparr>sqm := m, storage := (storage s)(x := (storage s x)\<lparr>t_state := THREAD_DEAD\<rparr>)\<rparr>) \<and>
    sched_inv (s\<lparr>sqm := m, storage := (storage s)(x := (storage s x)\<lparr>t_state := THREAD_DEAD\<rparr>)\<rparr>)
      (f(Ready n := xs, Dead := f Dead @ [x]))"
proof -
  obtain m1 m2 where m: "sq_deq (Ready n) s = Some (EOK, Some x, s\<lparr>sqm := m1\<rparr>)"
    "\<And>s'. sqm s' = m1 \<Longrightarrow> sq_enq Dead x s' = Some (EOK, s'\<lparr>sqm := m2\<rparr>)"
    "qrep m2 (f(Ready n := xs, Dead := f Dead @ [x]))"
    using sq_move [OF I Q, of Dead] by auto
  have "slot_ok x (storage s x)" using sinvD(1) [OF sched_invD(2) [OF I], of x "Ready n"] Q by auto
  then have "sinv ((storage s)(x := (storage s x)\<lparr>t_state := THREAD_DEAD\<rparr>))
      (f(Ready n := xs, Dead := f Dead @ [x]))"
    by (intro sinv_move [OF sched_invD(2) [OF I] sched_invD(1) [OF I] Q]) (auto simp: slot_ok_def)
  moreover have "new_runner (Ready n) s = new_runner (Ready n)
      (s\<lparr>sqm := m2, storage := (storage s)(x := (storage s x)\<lparr>t_state := THREAD_DEAD\<rparr>)\<rparr>)"
    using m(1,2) d by (subst new_runner.simps) simp
  ultimately show ?thesis using m(3) by (auto simp: sched_inv_def)
qed

lemma new_runner_take:
  assumes I: "sched_inv s f" and Q: "f (Ready n) = x # xs" and d: "\<not> doomed (storage s) x"
  shows "\<exists>m. new_runner (Ready n) s = Some (True, s\<lparr>running := Some x, sqm := m,
      storage := (storage s)(x := (storage s x)\<lparr>t_state := THREAD_RUNNING\<rparr>)\<rparr>) \<and>
    sched_inv (s\<lparr>running := Some x, sqm := m,
      storage := (storage s)(x := (storage s x)\<lparr>t_state := THREAD_RUNNING\<rparr>)\<rparr>) (f(Ready n := xs)) \<and>
    run_ok (s\<lparr>running := Some x, sqm := m,
      storage := (storage s)(x := (storage s x)\<lparr>t_state := THREAD_RUNNING\<rparr>)\<rparr>) (f(Ready n := xs))"
proof -
  obtain m where m: "sq_deq (Ready n) s = Some (EOK, Some x, s\<lparr>sqm := m\<rparr>)" "qrep m (f(Ready n := xs))"
    using sq_deq_rep [OF sched_invD(1) [OF I], of "Ready n" x xs] Q by blast
  have x: "slot_ok x (storage s x)" using sinvD(1) [OF sched_invD(2) [OF I], of x "Ready n"] Q by auto
  have U: "unlinked (f(Ready n := xs)) x" by (rule cq.head_unlinked [OF sched_invD(1) [OF I] Q])
  have "sinv (storage s) (f(Ready n := xs))"
    using sinv_unlink [of "storage s" f "Ready n" x xs] sched_invD(2) [OF I] Q by simp
  from sinv_upd_unlinked [OF this U] m d x U show ?thesis
    by (intro exI [of _ m], subst new_runner.simps) (auto simp: sched_inv_def run_ok_def slot_ok_def)
qed

text \<open>The runner of a queue is its first thread not marked for termination; those before it are dead.\<close>

definition runner_queues :: "nat \<Rightarrow> nat list \<Rightarrow> nat list \<Rightarrow> (sqid \<Rightarrow> nat list) \<Rightarrow> sqid \<Rightarrow> nat list" where
  "runner_queues n ts rest f = f(Ready n := tl rest, Dead := f Dead @ ts)"

definition runner_state :: "nat list \<Rightarrow> nat list \<Rightarrow> sched \<Rightarrow> (sqid, nat) qmem \<Rightarrow> sched" where
  "runner_state ts rest s m =
     (if rest = [] then s\<lparr>sqm := m, storage := mark_dead ts (storage s)\<rparr>
      else s\<lparr>running := Some (hd rest), sqm := m, storage :=
        (mark_dead ts (storage s))(hd rest := (storage s (hd rest))\<lparr>t_state := THREAD_RUNNING\<rparr>)\<rparr>)"

lemma new_runner_spec:
  assumes "sched_inv s f" "f (Ready n) = xs" "\<And>p. doomed (storage s) p = D p"
  shows "\<exists>m. let s' = runner_state (takeWhile D xs) (dropWhile D xs) s m;
                 f' = runner_queues n (takeWhile D xs) (dropWhile D xs) f in
    new_runner (Ready n) s = Some (dropWhile D xs \<noteq> [], s') \<and> sched_inv s' f' \<and>
    (dropWhile D xs \<noteq> [] \<longrightarrow> run_ok s' f')"
  using assms
proof (induction xs arbitrary: s f)
  case Nil
  then have "new_runner (Ready n) s = Some (False, s)"
    using sq_deq_Nil [OF sched_invD(1)] by (subst new_runner.simps) simp
  moreover have "runner_queues n [] [] f = f" using Nil by (auto simp: runner_queues_def)
  ultimately show ?case using Nil by (intro exI [of _ "sqm s"]) (simp add: runner_state_def)
next
  case (Cons x xs)
  show ?case
  proof (cases "D x")
    case True
    define st where "st = (storage s)(x := (storage s x)\<lparr>t_state := THREAD_DEAD\<rparr>)"
    define g where "g = f(Ready n := xs, Dead := f Dead @ [x])"
    have dx: "doomed (storage s) x" using True Cons.prems(3) by blast
    obtain m where m: "new_runner (Ready n) s = new_runner (Ready n) (s\<lparr>sqm := m, storage := st\<rparr>)"
      "sched_inv (s\<lparr>sqm := m, storage := st\<rparr>) g"
      using new_runner_kill [OF Cons.prems(1,2) dx] unfolding st_def g_def by blast
    have g: "g (Ready n) = xs" "\<And>ts rest. runner_queues n ts rest g = runner_queues n (x # ts) rest f"
      by (auto simp: g_def runner_queues_def)
    have d: "doomed st p = D p" for p using Cons.prems(3) [of p] by (auto simp: st_def)
    have md: "mark_dead ts st = mark_dead (x # ts) (storage s)" for ts by (simp add: st_def)
    have h: "dropWhile D xs \<noteq> [] \<Longrightarrow> st (hd (dropWhile D xs)) = storage s (hd (dropWhile D xs))"
      using hd_dropWhile [of D xs] True by (auto simp: st_def)
    have rs: "runner_state ts (dropWhile D xs) (s\<lparr>sqm := m, storage := st\<rparr>) m' =
        runner_state (x # ts) (dropWhile D xs) s m'" for ts m'
      using h by (auto simp: runner_state_def md simp del: dropWhile_eq_Nil_conv)
    have "doomed (storage (s\<lparr>sqm := m, storage := st\<rparr>)) p = D p" for p using d by simp
    from Cons.IH [OF m(2) g(1) this] m(1) True show ?thesis unfolding rs g(2) by simp
  next
    case False
    then have nd: "\<not> doomed (storage s) x" using Cons.prems(3) by blast
    have q: "runner_queues n [] (x # xs) f = f(Ready n := xs)" by (auto simp: runner_queues_def)
    have r: "runner_state [] (x # xs) s m = s\<lparr>running := Some x, sqm := m,
        storage := (storage s)(x := (storage s x)\<lparr>t_state := THREAD_RUNNING\<rparr>)\<rparr>" for m
      by (simp add: runner_state_def)
    have D: "takeWhile D (x # xs) = []" "dropWhile D (x # xs) = x # xs" using False by simp_all
    show ?thesis using new_runner_take [OF Cons.prems(1,2) nd] unfolding D Let_def q r by simp
  qed
qed

section \<open>House keeping\<close>

definition free_slot :: thread where
  "free_slot = zero_thread\<lparr>t_tid := THREAD_TID_INVALID\<rparr>"

lemma qrep_next_unlinked: "qrep m f \<Longrightarrow> unlinked f x \<Longrightarrow> qrep (upd_next x v m) f"
  by (simp add: qrep_def unlinked_def)

lemma tid_inj:
  "slot_ok p t \<Longrightarrow> slot_ok r u \<Longrightarrow> t_tid t = t_tid u \<longleftrightarrow> p = r"
  by (auto simp: slot_ok_def thread_consts of_nat_word_eq_iff)

lemma done_thread_spec:
  assumes "slot_ok p (storage s p)"
  shows "snd (done_thread (t_tid (storage s p)) s) = (True, s\<lparr>sqm := upd_next p None (sqm s),
     storage := (storage s)(p := free_slot), thread_num := thread_num s - 1\<rparr>)"
  using assms by (simp add: done_thread_def get_thread_slot Let_def free_slot_def)

lemma house_loop_step:
  assumes I: "sched_inv s f" and Q: "f Dead = x # xs" and r: "running s = Some r" "slot_ok r (storage s r)"
    and xr: "x \<noteq> r"
  shows "\<exists>m. house_loop (Suc i) s = house_loop i
      (s\<lparr>sqm := m, storage := (storage s)(x := free_slot), thread_num := thread_num s - 1\<rparr>) \<and>
    sched_inv (s\<lparr>sqm := m, storage := (storage s)(x := free_slot), thread_num := thread_num s - 1\<rparr>)
      (f(Dead := xs))"
proof -
  have R: "qrep (sqm s) f" using I by (rule sched_invD)
  obtain m where m: "sq_deq Dead s = Some (EOK, Some x, s\<lparr>sqm := m\<rparr>)" "qrep m (f(Dead := xs))"
    using sq_deq_rep [OF R, of Dead x xs] Q by blast
  have x: "slot_ok x (storage s x)" using sinvD(1) [OF sched_invD(2) [OF I], of x Dead] Q by auto
  have U: "unlinked (f(Dead := xs)) x" by (rule cq.head_unlinked [OF R Q])
  have "sinv (storage s) (f(Dead := xs))"
    using sinv_unlink [of "storage s" f Dead x xs] sched_invD(2) [OF I] Q by simp
  then have "sinv ((storage s)(x := free_slot)) (f(Dead := xs))" using U by (rule sinv_upd_unlinked)
  with m r x xr U done_thread_spec [of x "s\<lparr>sqm := m\<rparr>"] show ?thesis
    by (intro exI [of _ "upd_next x None m"])
      (simp add: sched_inv_def tid_inj qrep_next_unlinked)
qed

lemma house_loop_self:
  assumes I: "sched_inv s f" and Q: "f Dead = r # xs" and r: "running s = Some r"
  shows "\<exists>m. house_loop (Suc i) s = house_loop i (s\<lparr>sqm := m\<rparr>) \<and>
    sched_inv (s\<lparr>sqm := m\<rparr>) (f(Dead := xs @ [r]))"
proof -
  have R: "qrep (sqm s) f" using I by (rule sched_invD)
  obtain m where m: "sq_deq Dead s = Some (EOK, Some r, s\<lparr>sqm := m\<rparr>)" "qrep m (f(Dead := xs))"
    using sq_deq_rep [OF R, of Dead r xs] Q by blast
  have U: "unlinked (f(Dead := xs)) r" by (rule cq.head_unlinked [OF R Q])
  have L: "Suc (length ((f(Dead := xs)) Dead)) < 2 ^ 32" using sched_inv_room [OF I, of Dead] Q by simp
  obtain m' where m': "sq_enq Dead r (s\<lparr>sqm := m\<rparr>) = Some (EOK, s\<lparr>sqm := m'\<rparr>)"
    "qrep m' (f(Dead := xs @ [r]))"
    using sq_enq_rep [of "s\<lparr>sqm := m\<rparr>" "f(Dead := xs)" r Dead] m(2) U L by auto
  have "sinv (storage s) (f(Dead := xs @ [r]))"
    using sinv_roll [OF sched_invD(2) [OF I], of Dead] Q by simp
  with m m' r show ?thesis by (intro exI [of _ m']) (simp add: sched_inv_def)
qed

definition destroyed :: "nat list \<Rightarrow> nat \<Rightarrow> (nat \<Rightarrow> thread) \<Rightarrow> nat \<Rightarrow> thread" where
  "destroyed xs r st p = (if p \<in> set xs \<and> p \<noteq> r then free_slot else st p)"

lemma house_loop_spec:
  assumes "sched_inv s f" "f Dead = xs @ ys" "running s = Some r" "slot_ok r (storage s r)"
  shows "\<exists>m. house_loop (length xs) s = Some (s\<lparr>sqm := m, storage := destroyed xs r (storage s),
        thread_num := thread_num s - of_nat (length (filter (\<lambda>p. p \<noteq> r) xs))\<rparr>) \<and>
    sched_inv (s\<lparr>sqm := m, storage := destroyed xs r (storage s),
        thread_num := thread_num s - of_nat (length (filter (\<lambda>p. p \<noteq> r) xs))\<rparr>)
      (f(Dead := ys @ filter (\<lambda>p. p = r) xs))"
  using assms
proof (induction xs arbitrary: s f ys)
  case Nil
  then have "(\<lambda>a. if a = Dead then ys else f a) = f" by auto
  with Nil show ?case by (intro exI [of _ "sqm s"]) (simp add: destroyed_def)
next
  case (Cons x xs)
  show ?case
  proof (cases "x = r")
    case True
    define g where "g = f(Dead := (xs @ ys) @ [r])"
    have g: "g Dead = xs @ (ys @ [r])" "\<And>v. g(Dead := v) = f(Dead := v)" by (auto simp: g_def)
    obtain m where m: "house_loop (Suc (length xs)) s = house_loop (length xs) (s\<lparr>sqm := m\<rparr>)"
      "sched_inv (s\<lparr>sqm := m\<rparr>) g"
      using house_loop_self [of s f r "xs @ ys" "length xs"] Cons.prems True unfolding g_def by auto
    have d: "destroyed (x # xs) r (storage s) = destroyed xs r (storage s)"
      using True by (auto simp: destroyed_def fun_eq_iff)
    from Cons.IH [OF m(2) g(1)] m(1) Cons.prems True show ?thesis unfolding g(2) d by simp
  next
    case False
    define g where "g = f(Dead := xs @ ys)"
    define st where "st = (storage s)(x := free_slot)"
    have g: "g Dead = xs @ ys" "\<And>v. g(Dead := v) = f(Dead := v)" by (auto simp: g_def)
    obtain m where m: "house_loop (Suc (length xs)) s = house_loop (length xs)
        (s\<lparr>sqm := m, storage := st, thread_num := thread_num s - 1\<rparr>)"
      "sched_inv (s\<lparr>sqm := m, storage := st, thread_num := thread_num s - 1\<rparr>) g"
      using house_loop_step [of s f x "xs @ ys" r "length xs"] Cons.prems False
      unfolding g_def st_def by auto
    have d: "destroyed (x # xs) r (storage s) = destroyed xs r st"
      using False by (auto simp: destroyed_def st_def fun_eq_iff)
    have "slot_ok r (st r)" using Cons.prems False by (simp add: st_def)
    with Cons.IH [OF m(2) g(1)] m(1) Cons.prems False show ?thesis
      unfolding g(2) d by (simp add: diff_diff_eq add.commute)
  qed
qed

lemma house_keeping_spec:
  assumes "sched_inv s f" "running s = Some r" "slot_ok r (storage s r)"
  shows "\<exists>m. house_keeping s = Some (s\<lparr>sqm := m, storage := destroyed (f Dead) r (storage s),
        thread_num := thread_num s - of_nat (length (filter (\<lambda>p. p \<noteq> r) (f Dead)))\<rparr>) \<and>
    sched_inv (s\<lparr>sqm := m, storage := destroyed (f Dead) r (storage s),
        thread_num := thread_num s - of_nat (length (filter (\<lambda>p. p \<noteq> r) (f Dead)))\<rparr>)
      (f(Dead := filter (\<lambda>p. p = r) (f Dead)))"
  using house_loop_spec [of s f "f Dead" "[]" r] assms sched_invD(1) [OF assms(1)]
  by (simp add: house_keeping_def)

lemma delayed_spec_lost:
  assumes "delayed_spec now xs st f = (st', f')" "f Delay = xs" "distinct xs" "x \<in> set xs"
    "by_delay st xs" "t_delay (st x) \<le> now" "\<not> has THREAD_FLAG_WAIT_TIMEOUT (t_flags (st x))"
    "\<And>q. q \<noteq> Delay \<Longrightarrow> x \<notin> set (f q)"
  shows "st' x = st x \<and> unlinked f' x"
  using assms
proof (induction xs arbitrary: st f)
  case (Cons y ys)
  have y: "t_delay (st y) \<le> now" using Cons.prems(4-6) by (auto simp: by_delay_def)
  show ?case
  proof (cases "x = y")
    case True
    then have d: "delayed_spec now ys st (f(Delay := ys)) = (st', f')" using Cons.prems(1,7) y by simp
    have "unlinked (f(Delay := ys)) x" using Cons.prems(3,8) True by (simp add: unlinked_def)
    with delayed_spec_unlinked [OF d] show ?thesis by simp
  next
    case False
    define st1 where "st1 = (if has THREAD_FLAG_WAIT_TIMEOUT (t_flags (st y)) then st(y := resumed (st y)) else st)"
    define g where "g = (if has THREAD_FLAG_WAIT_TIMEOUT (t_flags (st y))
      then f(Delay := ys, Ready (t_priority (st y)) := f (Ready (t_priority (st y))) @ [y]) else f(Delay := ys))"
    have d: "delayed_spec now ys st1 g = (st', f')" using Cons.prems(1) y by (simp add: st1_def g_def split: if_splits)
    have e: "st1 z = st z" if "z \<noteq> y" for z using that by (simp add: st1_def)
    have "by_delay st1 ys = by_delay st ys" using Cons.prems(3) e by (intro by_delay_cong) (metis distinct.simps(2))
    moreover have "by_delay st ys" using Cons.prems(5) by (rule by_delay_Cons)
    moreover have "x \<notin> set (g q)" if "q \<noteq> Delay" for q using Cons.prems(8) [OF that] Cons.prems(8) [of "Ready (t_priority (st y))"] False that by (simp add: g_def)
    moreover have "g Delay = ys" by (simp add: g_def)
    ultimately show ?thesis using Cons.IH [OF d] Cons.prems(3,4,6,7) False e [OF False] by simp
  qed
qed simp

section \<open>Properties\<close>

text \<open>C7: the pass over the delay queue. It always returns; every delayed thread whose time has come and
  that has its timeout flag is ready in the queue of its priority, with its wait flags cleared; one
  without the flag (killed while it was delayed) is taken off and ends unchanged in no queue at all.
  The delay queue stays sorted and holds no thread whose time has come; threads that were not
  delayed are untouched and stay in their queues.\<close>

theorem schedule_delayed_wakes_expired:
  assumes "sched_inv s f"
  shows "\<exists>s' f'. schedule_delayed now s = Some s' \<and> sched_inv s' f' \<and> by_delay (storage s') (f' Delay) \<and>
    (\<forall>x \<in> set (f Delay). t_delay (storage s x) \<le> now \<and> has THREAD_FLAG_WAIT_TIMEOUT (t_flags (storage s x)) \<longrightarrow>
       storage s' x = resumed (storage s x) \<and> x \<in> set (f' (Ready (t_priority (storage s x))))) \<and>
    (\<forall>x \<in> set (f Delay). t_delay (storage s x) \<le> now \<and> \<not> has THREAD_FLAG_WAIT_TIMEOUT (t_flags (storage s x)) \<longrightarrow>
       storage s' x = storage s x \<and> unlinked f' x) \<and>
    (\<forall>y \<in> set (f' Delay). now < t_delay (storage s' y)) \<and>
    (\<forall>x. x \<notin> set (f Delay) \<longrightarrow> storage s' x = storage s x \<and> (\<forall>q. x \<in> set (f q) \<longrightarrow> x \<in> set (f' q)))"
proof -
  obtain st' f' where P: "delayed_spec now (f Delay) (storage s) f = (st', f')" by fastforce
  let ?s = "\<lambda>m. s\<lparr>sqm := m, storage := st', new_delay_dq := delayed_next now st' (f' Delay)\<rparr>"
  obtain m where m: "schedule_delayed now s = Some (?s m)" "sched_inv (?s m) f'"
    using schedule_delayed_ref [OF assms P] by blast
  have b: "by_delay (storage s) (f Delay)" "by_delay st' (f' Delay)"
    using sinvD(3) [OF sched_invD(2) [OF assms]] sinvD(3) [OF sched_invD(2) [OF m(2)]] by simp_all
  have D: "distinct (f Delay)" using sched_invD(1) [OF assms] by (rule qrep_distinct)
  have a: "st' x = resumed (storage s x) \<and> x \<in> set (f' (Ready (t_priority (storage s x))))"
    if "x \<in> set (f Delay)" "t_delay (storage s x) \<le> now" "has THREAD_FLAG_WAIT_TIMEOUT (t_flags (storage s x))" for x
    using delayed_spec_wakes [OF P refl D that(1) b(1) that(2,3)] .
  have c: "now < t_delay (st' y)" if y: "y \<in> set (f' Delay)" for y
  proof -
    obtain z zs where z: "f' Delay = z # zs" using y by (cases "f' Delay") auto
    have "now < t_delay (st' z)" by (rule delayed_spec_head [OF P refl z])
    moreover have "t_delay (st' z) \<le> t_delay (st' y)" using b(2) y z by (auto simp: by_delay_def)
    ultimately show ?thesis by simp
  qed
  have d: "st' x = storage s x \<and> (\<forall>q. x \<in> set (f q) \<longrightarrow> x \<in> set (f' q))" if "x \<notin> set (f Delay)" for x
    using delayed_spec_frame [OF P refl that] by simp
  have l: "st' x = storage s x \<and> unlinked f' x"
    if "x \<in> set (f Delay)" "t_delay (storage s x) \<le> now" "\<not> has THREAD_FLAG_WAIT_TIMEOUT (t_flags (storage s x))" for x
  proof -
    have "x \<notin> set (f q)" if "q \<noteq> Delay" for q
      using qrep_disjoint [OF sched_invD(1) [OF assms], of Delay q x] \<open>x \<in> set (f Delay)\<close> that by simp
    then show ?thesis by (rule delayed_spec_lost [OF P refl D that(1) b(1) that(2,3)])
  qed
  show ?thesis using m b(2) a l c d by (intro exI [of _ "?s m"] exI [of _ f']) simp
qed

theorem schedule_delayed_wakes_expired_witness:
  "t_delay (storage sample_sched 4) \<le> 100 \<and> (\<exists>s' f'. schedule_delayed 100 sample_sched = Some s' \<and> sched_inv s' f' \<and>
     4 \<in> set (f' (Ready 1)) \<and> t_state (storage s' 4) = THREAD_READY)"
proof -
  have w: "sample_queues Delay = [4]" by (simp add: single_lists_def)
  have d: "t_delay (storage sample_sched 4) \<le> 100" "has THREAD_FLAG_WAIT_TIMEOUT (t_flags (storage sample_sched 4))"
    "t_priority (storage sample_sched 4) = 1"
    by (simp_all add: sample_sched_def sample_storage_def sample_thread_def zero_thread_def flag_defs)
  from schedule_delayed_wakes_expired [OF sample_inv, of 100]
  obtain s' f' where "schedule_delayed 100 sample_sched = Some s'" "sched_inv s' f'"
    "storage s' 4 = resumed (storage sample_sched 4)" "4 \<in> set (f' (Ready 1))"
    unfolding w using d by auto
  with d(1) show ?thesis by (intro conjI exI [of _ s'] exI [of _ f']) simp_all
qed

text \<open>The choice within one ready queue. The threads marked for termination at the front of the queue
  are moved, in order, to the dead queue; the first thread without the mark runs and is linked in
  no queue; the call reports failure exactly when every thread of the queue is marked.\<close>

theorem new_runner_correct:
  assumes "sched_inv s f" "f (Ready n) = ts @ rest" "\<forall>t \<in> set ts. doomed (storage s) t"
    and "rest = [] \<or> \<not> doomed (storage s) (hd rest)"
  shows "\<exists>s' f'. new_runner (Ready n) s = Some (rest \<noteq> [], s') \<and> sched_inv s' f' \<and>
    f' (Ready n) = tl rest \<and> f' Dead = f Dead @ ts \<and> (\<forall>q. q \<noteq> Ready n \<and> q \<noteq> Dead \<longrightarrow> f' q = f q) \<and>
    running s' = (if rest = [] then running s else Some (hd rest)) \<and> (rest \<noteq> [] \<longrightarrow> run_ok s' f') \<and>
    (\<forall>t \<in> set ts. t_state (storage s' t) = THREAD_DEAD)"
proof -
  let ?D = "doomed (storage s)"
  have e: "takeWhile ?D (f (Ready n)) = ts" "dropWhile ?D (f (Ready n)) = rest"
    using assms(2-4) by (simp_all add: takeWhile_append2 dropWhile_append2) (cases rest; simp)+
  obtain m where m: "new_runner (Ready n) s = Some (rest \<noteq> [], runner_state ts rest s m)"
    "sched_inv (runner_state ts rest s m) (runner_queues n ts rest f)"
    "rest \<noteq> [] \<longrightarrow> run_ok (runner_state ts rest s m) (runner_queues n ts rest f)"
    using new_runner_spec [of s f n "f (Ready n)" ?D] assms(1) unfolding e Let_def by blast
  have q: "runner_queues n ts rest f (Ready n) = tl rest" "runner_queues n ts rest f Dead = f Dead @ ts"
    "\<forall>q. q \<noteq> Ready n \<and> q \<noteq> Dead \<longrightarrow> runner_queues n ts rest f q = f q" by (simp_all add: runner_queues_def)
  have "t \<noteq> hd rest" if "t \<in> set ts" "rest \<noteq> []" for t using assms(3,4) that by auto
  then have r: "running (runner_state ts rest s m) = (if rest = [] then running s else Some (hd rest))"
    "\<forall>t \<in> set ts. t_state (storage (runner_state ts rest s m) t) = THREAD_DEAD"
    by (auto simp: runner_state_def mark_dead_def)
  from m q r show ?thesis by (intro exI [of _ "runner_state ts rest s m"] exI [of _ "runner_queues n ts rest f"] conjI) assumption+
qed

theorem new_runner_correct_witness:
  "sample_queues (Ready 3) = [0] \<and> (\<exists>s' f'. new_runner (Ready 3) sample_sched = Some (True, s') \<and> sched_inv s' f' \<and>
     running s' = Some 0 \<and> f' (Ready 3) = [])"
proof -
  have q: "sample_queues (Ready 3) = [] @ [0]" by (simp add: single_lists_def)
  have "\<not> doomed (storage sample_sched) (hd [0])"
    by (simp add: sample_sched_def sample_storage_def sample_thread_def zero_thread_def)
  with new_runner_correct [OF sample_inv q] q show ?thesis by auto
qed

text \<open>House keeping destroys exactly the dead threads that are not the running one: their slots are
  free again, the dead queue keeps only the running thread if it was there, the thread count
  drops by the number of threads destroyed and no other slot changes.\<close>

theorem house_keeping_frees_the_dead:
  assumes "sched_inv s f" "running s = Some r" "slot_ok r (storage s r)"
  shows "\<exists>s'. house_keeping s = Some s' \<and> sched_inv s' (f(Dead := filter (\<lambda>p. p = r) (f Dead))) \<and>
    running s' = Some r \<and> thread_num s' = thread_num s - of_nat (length (filter (\<lambda>p. p \<noteq> r) (f Dead))) \<and>
    (\<forall>p. storage s' p = (if p \<in> set (f Dead) \<and> p \<noteq> r then free_slot else storage s p)) \<and>
    (\<forall>p \<in> set (f Dead). p \<noteq> r \<longrightarrow> get_thread (of_nat p) s' = None)"
proof -
  let ?s = "\<lambda>m. s\<lparr>sqm := m, storage := destroyed (f Dead) r (storage s),
        thread_num := thread_num s - of_nat (length (filter (\<lambda>p. p \<noteq> r) (f Dead)))\<rparr>"
  obtain m where m: "house_keeping s = Some (?s m)"
    "sched_inv (?s m) (f(Dead := filter (\<lambda>p. p = r) (f Dead)))"
    using house_keeping_spec [OF assms] by blast
  have "get_thread (of_nat p) (?s m) = None" if "p \<in> set (f Dead)" "p \<noteq> r" for p
  proof -
    have "p < DIEGOS_MAX_THREADS" using sinvD(1) [OF sched_invD(2) [OF assms(1)] that(1)] by (simp add: slot_ok_def)
    then have "unat (of_nat p :: u8) = p" by (simp add: DIEGOS_MAX_THREADS_def unat_of_nat)
    with that show ?thesis by (auto simp: get_thread_def destroyed_def free_slot_def thread_consts)
  qed
  with m assms(2) show ?thesis
    by (intro exI [of _ "?s m"] conjI) (simp_all add: destroyed_def del: fun_upd_apply)
qed

theorem house_keeping_frees_the_dead_witness:
  "sample_queues Dead = [5] \<and> (\<exists>s'. house_keeping sample_sched = Some s' \<and> thread_num s' = 4 \<and>
     storage s' 5 = free_slot \<and> storage s' 4 = storage sample_sched 4)"
proof -
  have q: "sample_queues Dead = [5]" "thread_num sample_sched = 5" by (simp_all add: single_lists_def sample_sched_def)
  from house_keeping_frees_the_dead [OF sample_inv sample_run(1,2)]
  obtain s' where "house_keeping sample_sched = Some s'"
    "thread_num s' = thread_num sample_sched - of_nat (length (filter (\<lambda>p. p \<noteq> 2) (sample_queues Dead)))"
    "\<And>p. storage s' p = (if p \<in> set (sample_queues Dead) \<and> p \<noteq> 2 then free_slot else storage sample_sched p)" by blast
  with q show ?thesis by (intro conjI exI [of _ s']) simp_all
qed

text \<open>A thread killed while it was delayed is lost. Killing clears its timeout flag; when its time comes
  the pass takes it off the delay queue, fails to resume it and leaves it in no queue at all, still
  marked as waiting, so that no later pass can destroy it.\<close>

theorem killed_delayed_thread_is_lost:
  assumes "sched_inv s f" "f Delay = x # xs" "t_delay (storage s x) \<le> now"
    and "\<not> has THREAD_FLAG_WAIT_TIMEOUT (t_flags (storage s x))"
  shows "\<exists>s' f'. schedule_delayed now s = Some s' \<and> sched_inv s' f' \<and> unlinked f' x \<and>
    storage s' x = storage s x \<and> t_state (storage s' x) = THREAD_WAITING"
proof -
  obtain st' f' where P: "delayed_spec now (f Delay) (storage s) f = (st', f')" by fastforce
  let ?s = "\<lambda>m. s\<lparr>sqm := m, storage := st', new_delay_dq := delayed_next now st' (f' Delay)\<rparr>"
  obtain m where m: "schedule_delayed now s = Some (?s m)" "sched_inv (?s m) f'"
    using schedule_delayed_ref [OF assms(1) P] by blast
  define g where "g = f(Delay := xs)"
  have U: "unlinked g x" unfolding g_def using sched_invD(1) [OF assms(1)] assms(2) by (rule cq.head_unlinked)
  have "delayed_spec now xs (storage s) g = (st', f')" using P assms(2-4) by (simp add: g_def)
  from delayed_spec_unlinked [OF this _ U] have "unlinked f' x" "st' x = storage s x" by (simp_all add: g_def)
  moreover have "t_state (storage s x) = THREAD_WAITING"
    using sinvD(2) [OF sched_invD(2) [OF assms(1)], of x Delay] assms(2) by simp
  ultimately show ?thesis using m by (intro exI [of _ "?s m"] exI [of _ f']) simp
qed

theorem killed_delayed_thread_is_lost_witness:
  "\<exists>s f s' f'. sched_inv s f \<and> f Delay = [4] \<and> schedule_delayed 100 s = Some s' \<and> unlinked f' 4 \<and>
     sched_inv s' f' \<and> t_tid (storage s' 4) = 4"
proof -
  define s where "s = sample_sched\<lparr>storage := (storage sample_sched)(4 :=
     sample_thread 4 1 THREAD_WAITING THREAD_FLAG_TERMINATE 100)\<rparr>"
  have "slot_ok 4 (sample_thread 4 1 THREAD_WAITING THREAD_FLAG_TERMINATE 100)"
    "\<And>q. 4 \<in> set (sample_queues q) \<Longrightarrow> q = Delay"
    "place_ok Delay (sample_thread 4 1 THREAD_WAITING THREAD_FLAG_TERMINATE 100)"
  proof -
    show "q = Delay" if "4 \<in> set (sample_queues q)" for q
      using that by (cases q) (auto simp: single_lists_def split: if_splits)
  qed (simp_all add: sample_thread_def zero_thread_def slot_ok_def thread_consts flag_defs)
  moreover have "sample_queues Delay = [4]" by (simp add: single_lists_def)
  ultimately have I: "sched_inv s sample_queues"
    using sample_inv by (auto simp: sched_inv_def sinv_def s_def by_delay_def simp del: place_ok.simps)
  have D: "sample_queues Delay = 4 # []" by (simp add: single_lists_def)
  have t: "storage s 4 = sample_thread 4 1 THREAD_WAITING THREAD_FLAG_TERMINATE 100" by (simp add: s_def)
  have "t_delay (storage s 4) \<le> 100" "\<not> has THREAD_FLAG_WAIT_TIMEOUT (t_flags (storage s 4))"
    by (simp_all add: t sample_thread_def flag_defs)
  from killed_delayed_thread_is_lost [OF I D this] obtain s' f' where
    "schedule_delayed 100 s = Some s'" "sched_inv s' f'" "unlinked f' 4" "storage s' 4 = storage s 4" by blast
  with I D t show ?thesis
    by (intro exI [of _ s] exI [of _ sample_queues] exI [of _ s'] exI [of _ f']) (simp add: sample_thread_def)
qed

end
