(* ===== verification/Cbuffers.thy ===== *)
theory Cbuffers
  imports Prelude
begin

text \<open>
  The index arithmetic of circular buffers, \<^verbatim>\<open>src/include/libs/cbuffers.h\<close>: two indices in an array of
  \<open>bufsize\<close> slots, at 32 bit width. \<open>ring_contents\<close> reads the elements between head and tail;
  \<open>ring_push\<close> and \<open>ring_pop\<close> give the clients (the waiters of a mutex) FIFO behaviour.
\<close>

record cbuffer =
  cb_head :: u32
  cb_tail :: u32
  cb_bufsize :: u32

definition cbuffer_init :: "u32 \<Rightarrow> cbuffer" where
  "cbuffer_init buffersize = \<lparr>cb_head = 0, cb_tail = 0, cb_bufsize = buffersize\<rparr>"

definition cbuffer_add :: "cbuffer \<Rightarrow> cbuffer" where
  "cbuffer_add c =
     (let t = cb_tail c + 1 in c\<lparr>cb_tail := (if t = cb_bufsize c then 0 else t)\<rparr>)"

definition cbuffer_remove :: "cbuffer \<Rightarrow> cbuffer" where
  "cbuffer_remove c =
     (let h = cb_head c + 1 in c\<lparr>cb_head := (if h = cb_bufsize c then 0 else h)\<rparr>)"

definition cbuffer_add_n :: "u32 \<Rightarrow> cbuffer \<Rightarrow> cbuffer" where
  "cbuffer_add_n n c =
     (let t = cb_tail c + n in c\<lparr>cb_tail := (if t \<ge> cb_bufsize c then t - cb_bufsize c else t)\<rparr>)"

definition cbuffer_remove_n :: "u32 \<Rightarrow> cbuffer \<Rightarrow> cbuffer" where
  "cbuffer_remove_n n c =
     (let h = cb_head c + n in c\<lparr>cb_head := (if h \<ge> cb_bufsize c then h - cb_bufsize c else h)\<rparr>)"

definition cbuffer_free_space :: "cbuffer \<Rightarrow> u32" where
  "cbuffer_free_space c =
     (if cb_head c \<le> cb_tail c then cb_bufsize c - cb_tail c + cb_head c - 1
      else cb_head c - cb_tail c - 1)"

definition cbuffer_in_use :: "cbuffer \<Rightarrow> u32" where
  "cbuffer_in_use c =
     (if cb_head c \<le> cb_tail c then cb_tail c - cb_head c
      else cb_bufsize c - cb_head c + cb_tail c)"

definition cbuffer_is_full :: "cbuffer \<Rightarrow> bool" where
  "cbuffer_is_full c \<longleftrightarrow> cbuffer_free_space c = 1"

definition cbuffer_is_empty :: "cbuffer \<Rightarrow> bool" where
  "cbuffer_is_empty c \<longleftrightarrow> cb_head c = cb_tail c"

section \<open>Natural-number view\<close>

definition cb_ok :: "cbuffer \<Rightarrow> bool" where
  "cb_ok c \<longleftrightarrow> cb_head c < cb_bufsize c \<and> cb_tail c < cb_bufsize c"

abbreviation nhead :: "cbuffer \<Rightarrow> nat" where "nhead c \<equiv> unat (cb_head c)"
abbreviation ntail :: "cbuffer \<Rightarrow> nat" where "ntail c \<equiv> unat (cb_tail c)"
abbreviation nsize :: "cbuffer \<Rightarrow> nat" where "nsize c \<equiv> unat (cb_bufsize c)"

definition nused :: "cbuffer \<Rightarrow> nat" where
  "nused c = (if nhead c \<le> ntail c then ntail c - nhead c else nsize c - nhead c + ntail c)"

lemma cb_ok_nat: "cb_ok c \<longleftrightarrow> nhead c < nsize c \<and> ntail c < nsize c"
  by (simp add: cb_ok_def word_less_nat_alt)

lemma unat_inc_bounded:
  "unat a < unat (b :: u32) \<Longrightarrow> unat (a + 1 :: u32) = Suc (unat a)"
  using unat_bound [of b] by (intro unat_add_one) simp

lemma ntail_add:
  "cb_ok c \<Longrightarrow> ntail (cbuffer_add c) = (if Suc (ntail c) = nsize c then 0 else Suc (ntail c))"
  using unat_inc_bounded [of "cb_tail c" "cb_bufsize c"]
  by (auto simp: cbuffer_add_def Let_def cb_ok_nat word_unat_eq_iff)

lemma nhead_remove:
  "cb_ok c \<Longrightarrow> nhead (cbuffer_remove c) = (if Suc (nhead c) = nsize c then 0 else Suc (nhead c))"
  using unat_inc_bounded [of "cb_head c" "cb_bufsize c"]
  by (auto simp: cbuffer_remove_def Let_def cb_ok_nat word_unat_eq_iff)

lemma add_fields [simp]:
  "cb_head (cbuffer_add c) = cb_head c" "cb_bufsize (cbuffer_add c) = cb_bufsize c"
  by (simp_all add: cbuffer_add_def Let_def)

lemma remove_fields [simp]:
  "cb_tail (cbuffer_remove c) = cb_tail c" "cb_bufsize (cbuffer_remove c) = cb_bufsize c"
  by (simp_all add: cbuffer_remove_def Let_def)

lemma cb_ok_add: "cb_ok c \<Longrightarrow> cb_ok (cbuffer_add c)"
  by (auto simp: cb_ok_nat ntail_add [unfolded cb_ok_nat])

lemma cb_ok_remove: "cb_ok c \<Longrightarrow> cb_ok (cbuffer_remove c)"
  by (auto simp: cb_ok_nat nhead_remove [unfolded cb_ok_nat])

lemma cb_ok_init: "0 < n \<Longrightarrow> cb_ok (cbuffer_init n)"
  by (simp add: cb_ok_def cbuffer_init_def)

lemma nused_less: "cb_ok c \<Longrightarrow> nused c < nsize c"
  by (auto simp: nused_def cb_ok_nat)

lemma is_empty_nused: "cb_ok c \<Longrightarrow> cbuffer_is_empty c \<longleftrightarrow> nused c = 0"
  by (auto simp: cbuffer_is_empty_def nused_def cb_ok_nat word_unat_eq_iff)

lemma in_use_nused: "cb_ok c \<Longrightarrow> unat (cbuffer_in_use c) = nused c"
  using unat_bound [of "cb_bufsize c"]
  by (auto simp: cbuffer_in_use_def nused_def cb_ok_nat word_le_nat_alt unat_sub_if_size
      unat_word_ariths word_size not_le)

lemma free_space_nused: "cb_ok c \<Longrightarrow> unat (cbuffer_free_space c) = nsize c - 1 - nused c"
proof -
  assume ok: "cb_ok c"
  have s: "nsize c < 2 ^ 32" using unat_bound [of "cb_bufsize c"] by simp
  show ?thesis
  proof (cases "nhead c \<le> ntail c")
    case True
    have 1: "unat (cb_bufsize c - cb_tail c) = nsize c - ntail c"
      using ok by (simp add: cb_ok_nat unat_sub_le word_le_nat_alt)
    have 2: "unat (cb_bufsize c - cb_tail c + cb_head c) = nsize c - ntail c + nhead c"
      using ok True s by (simp add: unat_word_ariths 1 cb_ok_nat)
    have "unat (cb_bufsize c - cb_tail c + cb_head c - 1) = nsize c - ntail c + nhead c - 1"
      using ok by (subst unat_sub_le) (auto simp: 2 word_le_nat_alt cb_ok_nat)
    with True ok show ?thesis
      by (simp add: cbuffer_free_space_def word_le_nat_alt nused_def cb_ok_nat)
  next
    case False
    have 1: "unat (cb_head c - cb_tail c) = nhead c - ntail c"
      using False by (simp add: unat_sub_le word_le_nat_alt)
    have "unat (cb_head c - cb_tail c - 1) = nhead c - ntail c - 1"
      using False by (subst unat_sub_le) (simp_all add: 1 word_le_nat_alt)
    with False ok show ?thesis
      by (simp add: cbuffer_free_space_def word_le_nat_alt nused_def cb_ok_nat)
  qed
qed

lemma nused_add: "cb_ok c \<Longrightarrow> Suc (nused c) < nsize c \<Longrightarrow> nused (cbuffer_add c) = Suc (nused c)"
  by (auto simp: nused_def ntail_add cb_ok_nat split: if_splits)

lemma nused_remove: "cb_ok c \<Longrightarrow> 0 < nused c \<Longrightarrow> nused (cbuffer_remove c) = nused c - 1"
  by (auto simp: nused_def nhead_remove cb_ok_nat split: if_splits)

section \<open>Contents of a ring\<close>

text \<open>The elements stored in \<open>buf\<close> from the head to the slot before the tail, in order.\<close>

definition ring_contents :: "cbuffer \<Rightarrow> 'a list \<Rightarrow> 'a list" where
  "ring_contents c buf = map (\<lambda>k. buf ! ((nhead c + k) mod nsize c)) [0..<nused c]"

lemma length_ring_contents [simp]: "length (ring_contents c buf) = nused c"
  by (simp add: ring_contents_def)

lemma ntail_mod: "cb_ok c \<Longrightarrow> (nhead c + nused c) mod nsize c = ntail c"
  by (auto simp: nused_def cb_ok_nat)

lemma slot_neq_tail:
  assumes "cb_ok c" "k < nused c"
  shows "(nhead c + k) mod nsize c \<noteq> ntail c"
proof -
  have "nused c < nsize c" using assms nused_less by blast
  with assms show ?thesis
    by (auto simp: nused_def cb_ok_nat mod_if split: if_splits)
qed

lemma ring_push:
  assumes ok: "cb_ok c" and L: "length buf = nsize c" and S: "Suc (nused c) < nsize c"
  shows "ring_contents (cbuffer_add c) (buf[ntail c := x]) = ring_contents c buf @ [x]"
proof -
  have t: "ntail c < length buf" using ok L by (simp add: cb_ok_nat)
  have m: "map (\<lambda>k. buf[ntail c := x] ! ((nhead c + k) mod nsize c)) [0..<nused c] =
      map (\<lambda>k. buf ! ((nhead c + k) mod nsize c)) [0..<nused c]"
    using slot_neq_tail [OF ok] by (intro map_cong refl nth_list_update_neq) (metis atLeastLessThan_iff set_upt)
  show ?thesis
    using nused_add [OF ok S] t m ntail_mod [OF ok]
    by (simp add: ring_contents_def)
qed

lemma ring_pop:
  assumes ok: "cb_ok c" and N: "0 < nused c"
  shows "ring_contents c buf = buf ! nhead c # ring_contents (cbuffer_remove c) buf"
proof -
  have h: "nhead c < nsize c" using ok by (simp add: cb_ok_nat)
  have shift: "(nhead (cbuffer_remove c) + k) mod nsize c = (nhead c + Suc k) mod nsize c" for k
    using nhead_remove [OF ok] by (auto simp: mod_simps) (metis add.commute mod_add_self2 add_Suc_right)
  have "[0..<nused c] = 0 # map Suc [0..<nused c - 1]"
    using N by (simp add: upt_conv_Cons map_Suc_upt)
  then have "ring_contents c buf =
      buf ! nhead c # map (\<lambda>k. buf ! ((nhead c + Suc k) mod nsize c)) [0..<nused c - 1]"
    using h by (simp add: ring_contents_def comp_def)
  with nused_remove [OF ok N] shift show ?thesis by (simp add: ring_contents_def)
qed

lemma ring_contents_Nil [simp]: "cb_ok c \<Longrightarrow> cbuffer_is_empty c \<Longrightarrow> ring_contents c buf = []"
  by (simp add: ring_contents_def is_empty_nused)

section \<open>Properties\<close>

text \<open>A circular buffer is a first-in first-out queue of one element less than its slots. Storing at
  the tail and advancing it appends the element, the element at the head is the oldest one and
  advancing the head drops it; the counts of used and free slots are exact at 32 bits, and the
  indices stay inside the array.\<close>

theorem cbuffer_fifo:
  assumes "cb_ok c" "length buf = nsize c"
  shows "(Suc (nused c) < nsize c \<longrightarrow>
      ring_contents (cbuffer_add c) (buf[ntail c := x]) = ring_contents c buf @ [x] \<and> cb_ok (cbuffer_add c)) \<and>
    (\<not> cbuffer_is_empty c \<longrightarrow>
      ring_contents c buf = buf ! nhead c # ring_contents (cbuffer_remove c) buf \<and> cb_ok (cbuffer_remove c)) \<and>
    unat (cbuffer_in_use c) = length (ring_contents c buf) \<and>
    unat (cbuffer_free_space c) = nsize c - 1 - length (ring_contents c buf)"
  using assms ring_push [OF assms] ring_pop [OF assms(1), of buf] is_empty_nused [OF assms(1)] cb_ok_add cb_ok_remove
    in_use_nused [OF assms(1)] free_space_nused [OF assms(1)] by simp

theorem cbuffer_fifo_witness:
  "cb_ok (cbuffer_init 4) \<and>
   ring_contents (cbuffer_add (cbuffer_init 4)) ([0, 0, 0, 0][0 := 7]) = [7 :: nat] \<and>
   unat (cbuffer_free_space (cbuffer_init 4)) = 3"
  using cbuffer_fifo [of "cbuffer_init 4" "[0, 0, 0, 0]" "7 :: nat"]
  by (simp add: cb_ok_def cbuffer_init_def nused_def ring_contents_def)

text \<open>\<open>cbuffer_is_full\<close> holds for a buffer that still has room for one element, and fails for a
  buffer that has none.\<close>

theorem cbuffer_is_full_off_by_one:
  assumes "cb_ok c"
  shows "cbuffer_is_full c \<longleftrightarrow> nsize c = nused c + 2"
  using free_space_nused [OF assms] nused_less [OF assms]
  by (auto simp: cbuffer_is_full_def word_unat_eq_iff)

theorem cbuffer_is_full_off_by_one_witness:
  "cbuffer_is_full (cbuffer_init 2) \<and> cb_ok (cbuffer_init 2) \<and> nused (cbuffer_init 2) = 0"
  using cbuffer_is_full_off_by_one [of "cbuffer_init 2"]
  by (simp add: cb_ok_def cbuffer_init_def nused_def)

end
