(* ===== verification/Mutex.thy ===== *)
theory Mutex
  imports SchedulerOps Cbuffers
begin

text \<open>
  Mutexes, \<^verbatim>\<open>src/kernel/mutex.c\<close>. A mutex has an owner and a ring of the identifiers of the threads
  that wait for it. A pointer to a \<open>struct mutex\<close> is a handle into \<open>mtx_mem\<close>; the list of all
  mutexes is \<open>mtx_list\<close>. The address \<open>malloc\<close> returns is an argument of \<open>init_mutex\<close>.

  \<open>mtx_abs\<close> reads a mutex as an owner and a FIFO of waiters; the operations are proved to implement
  the abstract lock \<open>alock\<close>.
\<close>

record mutex =
  mtx_name :: string
  mtx_locker :: u8
  mtx_ids :: cbuffer
  mtx_buf :: "u8 list"

record mutexes =
  mtx_list :: "nat list"
  mtx_mem :: "nat \<Rightarrow> mutex"

abbreviation upd_mtx :: "nat \<Rightarrow> mutex \<Rightarrow> mutexes \<Rightarrow> mutexes" where
  "upd_mtx h m ms \<equiv> ms\<lparr>mtx_mem := (mtx_mem ms)(h := m)\<rparr>"

section \<open>Operations\<close>

definition init_mutex_lib :: "mutexes \<Rightarrow> bool \<times> mutexes" where
  "init_mutex_lib ms = (True, ms\<lparr>mtx_list := []\<rparr>)"

definition init_mutex :: "string option \<Rightarrow> nat option \<Rightarrow> mutexes \<Rightarrow> nat option \<times> mutexes" where
  "init_mutex name malloced ms =
     (case malloced of
        None \<Rightarrow> (None, ms)
      | Some h \<Rightarrow>
         (Some h,
          upd_mtx h \<lparr>mtx_name = take 15 (case name of Some n \<Rightarrow> n | None \<Rightarrow> ''Mutex'' @ hex_string h),
                     mtx_locker = THREAD_TID_INVALID,
                     mtx_ids = cbuffer_init (of_nat DIEGOS_MAX_THREADS),
                     mtx_buf = replicate DIEGOS_MAX_THREADS THREAD_TID_INVALID\<rparr>
            (ms\<lparr>mtx_list := h # mtx_list ms\<rparr>)))"

definition zero_mutex :: mutex where
  "zero_mutex = \<lparr>mtx_name = [], mtx_locker = 0, mtx_ids = \<lparr>cb_head = 0, cb_tail = 0, cb_bufsize = 0\<rparr>,
     mtx_buf = replicate DIEGOS_MAX_THREADS 0\<rparr>"

definition done_mutex :: "nat option \<Rightarrow> mutexes \<Rightarrow> bool \<times> mutexes" where
  "done_mutex mtx ms =
     (case mtx of
        None \<Rightarrow> (False, ms)
      | Some h \<Rightarrow>
         if mtx_locker (mtx_mem ms h) \<noteq> THREAD_TID_INVALID then (False, ms)
         else if \<not> cbuffer_is_empty (mtx_ids (mtx_mem ms h)) then (False, ms)
         else case handles_remove h (mtx_list ms) of (r, l) \<Rightarrow>
           if r \<noteq> EOK then (False, ms)
           else (True, upd_mtx h zero_mutex (ms\<lparr>mtx_list := l\<rparr>)))"

definition lock_mutex :: "u8 \<Rightarrow> nat option \<Rightarrow> sched \<Rightarrow> mutexes \<Rightarrow> (bool \<times> mutexes) option" where
  "lock_mutex tid mtx s ms =
     (case mtx of
        None \<Rightarrow> Some (False, ms)
      | Some h \<Rightarrow>
         (let m = mtx_mem ms h in
          if get_thread tid s = None then Some (False, ms)
          else if tid = mtx_locker m then Some (False, ms)
          else if mtx_locker m = THREAD_TID_INVALID
            then Some (True, upd_mtx h (m\<lparr>mtx_locker := tid\<rparr>) ms)
          else if cbuffer_free_space (mtx_ids m) = 0 then Some (False, ms)
          else do { buf \<leftarrow> arr_set (mtx_buf m) (unat (cb_tail (mtx_ids m))) tid;
                    Some (True, upd_mtx h (m\<lparr>mtx_buf := buf, mtx_ids := cbuffer_add (mtx_ids m)\<rparr>) ms) }))"

text \<open>The loop of \<open>unlock_mutex\<close> that drops cancelled waiters; it is entered with a ring in use.\<close>

partial_function (option) drop_cancelled :: "u8 list \<Rightarrow> cbuffer \<Rightarrow> cbuffer option" where
  "drop_cancelled buf c =
     do { tid \<leftarrow> arr_get buf (unat (cb_head c));
          if tid = THREAD_TID_INVALID
          then (let c1 = cbuffer_remove c in
                if cbuffer_is_empty c1 then Some c1 else drop_cancelled buf c1)
          else Some c }"

definition unlock_mutex :: "u8 \<Rightarrow> nat option \<Rightarrow> sched \<Rightarrow> mutexes \<Rightarrow> (bool \<times> mutexes) option" where
  "unlock_mutex tid mtx s ms =
     (case mtx of
        None \<Rightarrow> Some (False, ms)
      | Some h \<Rightarrow>
         (let m = mtx_mem ms h in
          if mtx_locker m = THREAD_TID_INVALID \<or> tid \<noteq> mtx_locker m then Some (False, ms)
          else do {
            c \<leftarrow> (if \<not> cbuffer_is_empty (mtx_ids m) then drop_cancelled (mtx_buf m) (mtx_ids m)
                  else Some (mtx_ids m));
            if \<not> cbuffer_is_empty c
            then do { nxt \<leftarrow> arr_get (mtx_buf m) (unat (cb_head c));
                      p \<leftarrow> get_thread nxt s;
                      Some (True, upd_mtx h (m\<lparr>mtx_locker := t_tid (storage s p),
                                               mtx_ids := cbuffer_remove c\<rparr>) ms) }
            else Some (True, upd_mtx h (m\<lparr>mtx_locker := THREAD_TID_INVALID, mtx_ids := c\<rparr>) ms) }))"

definition mutex_is_locked :: "nat option \<Rightarrow> mutexes \<Rightarrow> bool" where
  "mutex_is_locked mtx ms \<longleftrightarrow>
     (case mtx of None \<Rightarrow> False | Some h \<Rightarrow> mtx_locker (mtx_mem ms h) \<noteq> THREAD_TID_INVALID)"

definition mutex_is_locked_by_me :: "nat option \<Rightarrow> sched \<Rightarrow> mutexes \<Rightarrow> bool" where
  "mutex_is_locked_by_me mtx s ms \<longleftrightarrow>
     (case mtx of None \<Rightarrow> False | Some h \<Rightarrow> scheduler_running_tid s = mtx_locker (mtx_mem ms h))"

text \<open>The inner loop of \<open>cancel_wait_on_mutex\<close>: the slot of \<open>tid\<close> between head and tail, if any.\<close>

partial_function (option) find_waiter ::
  "u8 \<Rightarrow> u8 list \<Rightarrow> cbuffer \<Rightarrow> u32 \<Rightarrow> nat option option" where
  "find_waiter tid buf c i =
     (if i = cb_tail c then Some None
      else do { v \<leftarrow> arr_get buf (unat i);
                if v = tid then Some (Some (unat i))
                else find_waiter tid buf c ((i + 1) mod cb_bufsize c) })"

fun cancel_in :: "u8 \<Rightarrow> nat list \<Rightarrow> sched \<Rightarrow> mutexes \<Rightarrow> (status \<times> mutexes) option" where
  "cancel_in tid [] s ms = Some (EINVAL, ms)"
| "cancel_in tid (h # hs) s ms =
     (let m = mtx_mem ms h in
      if mtx_locker m = tid then
        do { (ok, ms1) \<leftarrow> unlock_mutex tid (Some h) s ms; Some (if ok then EOK else EPERM, ms1) }
      else if \<not> cbuffer_is_empty (mtx_ids m) then
        do { w \<leftarrow> find_waiter tid (mtx_buf m) (mtx_ids m) (cb_head (mtx_ids m));
             case w of
               Some i \<Rightarrow> Some (EOK, upd_mtx h (m\<lparr>mtx_buf := (mtx_buf m)[i := THREAD_TID_INVALID]\<rparr>) ms)
             | None \<Rightarrow> cancel_in tid hs s ms }
      else cancel_in tid hs s ms)"

definition cancel_wait_on_mutex :: "u8 \<Rightarrow> sched \<Rightarrow> mutexes \<Rightarrow> (status \<times> mutexes) option" where
  "cancel_wait_on_mutex tid s ms = cancel_in tid (mtx_list ms) s ms"

section \<open>Invariant and abstract view\<close>

definition mutex_ok :: "mutex \<Rightarrow> bool" where
  "mutex_ok m \<longleftrightarrow> cb_ok (mtx_ids m) \<and> nsize (mtx_ids m) = DIEGOS_MAX_THREADS \<and>
     length (mtx_buf m) = DIEGOS_MAX_THREADS \<and>
     (mtx_locker m = THREAD_TID_INVALID \<longrightarrow> cbuffer_is_empty (mtx_ids m))"

definition waiters :: "mutex \<Rightarrow> u8 list" where
  "waiters m = ring_contents (mtx_ids m) (mtx_buf m)"

text \<open>The abstract lock: an owner and the threads waiting, first come first served.\<close>

type_synonym alock = "u8 option \<times> u8 list"

definition mtx_abs :: "mutex \<Rightarrow> alock" where
  "mtx_abs m = (if mtx_locker m = THREAD_TID_INVALID then None else Some (mtx_locker m),
                filter (\<lambda>t. t \<noteq> THREAD_TID_INVALID) (waiters m))"

definition alock_release :: "alock \<Rightarrow> alock" where
  "alock_release a = (case snd a of [] \<Rightarrow> (None, []) | t # ts \<Rightarrow> (Some t, ts))"

definition alock_acquire :: "u8 \<Rightarrow> alock \<Rightarrow> alock" where
  "alock_acquire t a = (case fst a of None \<Rightarrow> (Some t, snd a) | Some _ \<Rightarrow> (fst a, snd a @ [t]))"

lemma ring_eq_Nil: "cb_ok c \<Longrightarrow> ring_contents c buf = [] \<longleftrightarrow> cbuffer_is_empty c"
  by (metis is_empty_nused length_0_conv length_ring_contents)

lemma is_empty_zero: "cb_ok c \<Longrightarrow> \<not> cbuffer_is_empty c \<Longrightarrow> 0 < nused c"
  by (simp add: is_empty_nused)

lemma drop_cancelled_spec:
  assumes "cb_ok c" "nsize c = length buf" "\<not> cbuffer_is_empty c"
  shows "\<exists>c'. drop_cancelled buf c = Some c' \<and> cb_ok c' \<and> cb_bufsize c' = cb_bufsize c \<and>
    ring_contents c' buf = dropWhile (\<lambda>t. t = THREAD_TID_INVALID) (ring_contents c buf)"
  using assms
proof (induction "nused c" arbitrary: c rule: less_induct)
  case less
  have N: "0 < nused c" using less.prems by (simp add: is_empty_zero)
  have h: "nhead c < length buf" using less.prems by (simp add: cb_ok_nat)
  have R: "ring_contents c buf = buf ! nhead c # ring_contents (cbuffer_remove c) buf"
    using less.prems(1) N by (rule ring_pop)
  have ok: "cb_ok (cbuffer_remove c)" using less.prems(1) by (rule cb_ok_remove)
  show ?case
  proof (cases "buf ! nhead c = THREAD_TID_INVALID")
    case False
    with h R less.prems show ?thesis by (subst drop_cancelled.simps) simp
  next
    case True
    show ?thesis
    proof (cases "cbuffer_is_empty (cbuffer_remove c)")
      case e: True
      with True h R ok show ?thesis by (subst drop_cancelled.simps) (simp add: Let_def)
    next
      case e: False
      have "drop_cancelled buf c = drop_cancelled buf (cbuffer_remove c)"
        using True h e by (subst drop_cancelled.simps) (simp add: Let_def)
      moreover have "nused (cbuffer_remove c) < nused c" using nused_remove [OF less.prems(1) N] N by simp
      ultimately show ?thesis
        using less.hyps [of "cbuffer_remove c"] ok e less.prems R True by simp
    qed
  qed
qed

section \<open>Locking and unlocking implement the abstract lock\<close>

lemma get_thread_valid: "get_thread tid s \<noteq> None \<Longrightarrow> tid \<noteq> THREAD_TID_INVALID"
  by (auto simp: get_thread_def)

lemma mutex_ok_free:
  "mutex_ok m \<Longrightarrow> cbuffer_free_space (mtx_ids m) = 0 \<longleftrightarrow> DIEGOS_MAX_THREADS \<le> Suc (length (waiters m))"
  using free_space_nused [of "mtx_ids m"] by (auto simp: mutex_ok_def waiters_def word_unat_eq_iff)

lemma lock_mutex_ref:
  assumes ok: "mutex_ok (mtx_mem ms h)" and g: "get_thread tid s \<noteq> None"
    and n: "tid \<noteq> mtx_locker (mtx_mem ms h)"
    and room: "Suc (length (waiters (mtx_mem ms h))) < DIEGOS_MAX_THREADS"
  shows "\<exists>m. lock_mutex tid (Some h) s ms = Some (True, upd_mtx h m ms) \<and> mutex_ok m \<and>
    mtx_abs m = alock_acquire tid (mtx_abs (mtx_mem ms h))"
proof -
  let ?m = "mtx_mem ms h"
  have t: "tid \<noteq> THREAD_TID_INVALID" using g by (rule get_thread_valid)
  show ?thesis
  proof (cases "mtx_locker ?m = THREAD_TID_INVALID")
    case True
    have "waiters ?m = []" using ok True by (simp add: mutex_ok_def waiters_def)
    with True ok g n t show ?thesis
      by (intro exI [of _ "?m\<lparr>mtx_locker := tid\<rparr>"])
        (auto simp: lock_mutex_def Let_def mutex_ok_def mtx_abs_def alock_acquire_def waiters_def)
  next
    case False
    let ?c = "mtx_ids ?m"
    let ?buf = "(mtx_buf ?m)[ntail ?c := tid]"
    have c: "cb_ok ?c" "nsize ?c = length (mtx_buf ?m)" "length (mtx_buf ?m) = DIEGOS_MAX_THREADS"
      using ok by (simp_all add: mutex_ok_def)
    have tl: "ntail ?c < length (mtx_buf ?m)" using c by (simp add: cb_ok_nat)
    have r: "ring_contents (cbuffer_add ?c) ?buf = ring_contents ?c (mtx_buf ?m) @ [tid]"
      using c room by (intro ring_push) (auto simp: waiters_def)
    have "cbuffer_free_space ?c \<noteq> 0" using mutex_ok_free [OF ok] room by simp
    with False g n tl have "lock_mutex tid (Some h) s ms =
        Some (True, upd_mtx h (?m\<lparr>mtx_buf := ?buf, mtx_ids := cbuffer_add ?c\<rparr>) ms)"
      by (auto simp: lock_mutex_def Let_def)
    moreover have "mutex_ok (?m\<lparr>mtx_buf := ?buf, mtx_ids := cbuffer_add ?c\<rparr>)"
      using ok False cb_ok_add [OF c(1)] by (simp add: mutex_ok_def)
    moreover have "mtx_abs (?m\<lparr>mtx_buf := ?buf, mtx_ids := cbuffer_add ?c\<rparr>) = alock_acquire tid (mtx_abs ?m)"
      using False t r by (simp add: mtx_abs_def alock_acquire_def waiters_def)
    ultimately show ?thesis by blast
  qed
qed

lemma filter_dropWhile_not: "filter (\<lambda>t. t \<noteq> x) (dropWhile (\<lambda>t. t = x) xs) = filter (\<lambda>t. t \<noteq> x) xs"
  by (induction xs) auto

lemma live_drop:
  assumes "dropWhile (\<lambda>t. t = x) xs = y # ys"
  shows "y \<noteq> x \<and> y \<in> set xs \<and> filter (\<lambda>t. t \<noteq> x) xs = y # filter (\<lambda>t. t \<noteq> x) ys"
proof -
  have "y \<noteq> x" using hd_dropWhile [of "\<lambda>t. t = x" xs] assms by auto
  moreover have "y \<in> set xs" using assms set_dropWhileD [of y "\<lambda>t. t = x" xs] by simp
  ultimately show ?thesis using filter_dropWhile_not [of x xs] assms by auto
qed

lemma unlock_ring:
  assumes ok: "mutex_ok m"
  shows "\<exists>c. (if \<not> cbuffer_is_empty (mtx_ids m) then drop_cancelled (mtx_buf m) (mtx_ids m)
              else Some (mtx_ids m)) = Some c \<and> cb_ok c \<and> cb_bufsize c = cb_bufsize (mtx_ids m) \<and>
    ring_contents c (mtx_buf m) = dropWhile (\<lambda>t. t = THREAD_TID_INVALID) (waiters m)"
proof (cases "cbuffer_is_empty (mtx_ids m)")
  case True
  with ok show ?thesis by (simp add: mutex_ok_def waiters_def)
next
  case False
  with ok drop_cancelled_spec [of "mtx_ids m" "mtx_buf m"] show ?thesis
    by (auto simp: mutex_ok_def waiters_def)
qed

lemma unlock_mutex_ref:
  assumes ok: "mutex_ok (mtx_mem ms h)" and l: "mtx_locker (mtx_mem ms h) = tid" "tid \<noteq> THREAD_TID_INVALID"
    and w: "\<And>y ys. snd (mtx_abs (mtx_mem ms h)) = y # ys \<Longrightarrow> get_thread y s \<noteq> None"
  shows "\<exists>m. unlock_mutex tid (Some h) s ms = Some (True, upd_mtx h m ms) \<and> mutex_ok m \<and>
    mtx_abs m = alock_release (mtx_abs (mtx_mem ms h))"
proof -
  let ?m = "mtx_mem ms h"
  obtain c where c: "(if \<not> cbuffer_is_empty (mtx_ids ?m) then drop_cancelled (mtx_buf ?m) (mtx_ids ?m)
              else Some (mtx_ids ?m)) = Some c" "cb_ok c" "cb_bufsize c = cb_bufsize (mtx_ids ?m)"
    "ring_contents c (mtx_buf ?m) = dropWhile (\<lambda>t. t = THREAD_TID_INVALID) (waiters ?m)"
    using unlock_ring [OF ok] by blast
  show ?thesis
  proof (cases "dropWhile (\<lambda>t. t = THREAD_TID_INVALID) (waiters ?m)")
    case Nil
    then have e: "cbuffer_is_empty c" using ring_eq_Nil [OF c(2), of "mtx_buf ?m"] c(4) by simp
    have "filter (\<lambda>t. t \<noteq> THREAD_TID_INVALID) (waiters ?m) = []"
      using filter_dropWhile_not [of THREAD_TID_INVALID "waiters ?m"] Nil by simp
    with e c l ok Nil show ?thesis
      by (intro exI [of _ "?m\<lparr>mtx_locker := THREAD_TID_INVALID, mtx_ids := c\<rparr>"])
        (simp add: unlock_mutex_def Let_def mutex_ok_def mtx_abs_def alock_release_def waiters_def)
  next
    case (Cons y ys)
    note live = live_drop [OF Cons]
    have e: "\<not> cbuffer_is_empty c" using ring_eq_Nil [OF c(2), of "mtx_buf ?m"] c(4) Cons by simp
    have N: "0 < nused c" using c(2) e by (rule is_empty_zero)
    have hd: "nhead c < length (mtx_buf ?m)" using c(2,3) ok by (simp add: cb_ok_nat mutex_ok_def)
    have p: "mtx_buf ?m ! nhead c = y" "ring_contents (cbuffer_remove c) (mtx_buf ?m) = ys"
      using ring_pop [OF c(2) N, of "mtx_buf ?m"] c(4) Cons by auto
    obtain q where q: "get_thread y s = Some q" using w [of y] live by (auto simp: mtx_abs_def)
    then have "t_tid (storage s q) = y" by (auto simp: get_thread_Some)
    with e c(1) l hd p q have "unlock_mutex tid (Some h) s ms =
        Some (True, upd_mtx h (?m\<lparr>mtx_locker := y, mtx_ids := cbuffer_remove c\<rparr>) ms)"
      by (simp add: unlock_mutex_def Let_def)
    moreover have "mutex_ok (?m\<lparr>mtx_locker := y, mtx_ids := cbuffer_remove c\<rparr>)"
      using ok c(2,3) live cb_ok_remove by (simp add: mutex_ok_def)
    moreover have "mtx_abs (?m\<lparr>mtx_locker := y, mtx_ids := cbuffer_remove c\<rparr>) = alock_release (mtx_abs ?m)"
      using live p(2) by (simp add: mtx_abs_def alock_release_def waiters_def)
    ultimately show ?thesis by blast
  qed
qed

text \<open>A waiter that no longer exists makes the owner's unlock dereference \<open>NULL\<close>.\<close>

lemma unlock_mutex_dead_waiter:
  assumes ok: "mutex_ok (mtx_mem ms h)" and l: "mtx_locker (mtx_mem ms h) = tid" "tid \<noteq> THREAD_TID_INVALID"
    and d: "dropWhile (\<lambda>t. t = THREAD_TID_INVALID) (waiters (mtx_mem ms h)) = y # ys" "get_thread y s = None"
  shows "unlock_mutex tid (Some h) s ms = None"
proof -
  let ?m = "mtx_mem ms h"
  obtain c where c: "(if \<not> cbuffer_is_empty (mtx_ids ?m) then drop_cancelled (mtx_buf ?m) (mtx_ids ?m)
              else Some (mtx_ids ?m)) = Some c" "cb_ok c" "cb_bufsize c = cb_bufsize (mtx_ids ?m)"
    "ring_contents c (mtx_buf ?m) = y # ys"
    using unlock_ring [OF ok] d by auto
  have e: "\<not> cbuffer_is_empty c" using ring_eq_Nil [OF c(2), of "mtx_buf ?m"] c(4) by simp
  have N: "0 < nused c" using c(2) e by (rule is_empty_zero)
  have hd: "nhead c < length (mtx_buf ?m)" using c(2,3) ok by (simp add: cb_ok_nat mutex_ok_def)
  have "mtx_buf ?m ! nhead c = y" using ring_pop [OF c(2) N, of "mtx_buf ?m"] c(4) by auto
  with e c(1) l hd d(2) show ?thesis by (simp add: unlock_mutex_def Let_def)
qed

text \<open>The first waiter that was not cancelled is the one the unlock finds.\<close>

lemma waiters_drop:
  assumes "snd (mtx_abs m) \<noteq> []"
  shows "\<exists>ys. dropWhile (\<lambda>t. t = THREAD_TID_INVALID) (waiters m) = hd (snd (mtx_abs m)) # ys"
proof (cases "dropWhile (\<lambda>t. t = THREAD_TID_INVALID) (waiters m)")
  case Nil
  then have "filter (\<lambda>t. t \<noteq> THREAD_TID_INVALID) (waiters m) = []"
    using filter_dropWhile_not [of THREAD_TID_INVALID "waiters m"] by simp
  with assms show ?thesis by (simp add: mtx_abs_def)
next
  case (Cons y ys)
  with live_drop [OF Cons] show ?thesis by (simp add: mtx_abs_def)
qed

section \<open>Cancelling a wait\<close>

lemma next_index:
  assumes "cb_ok c" "unat i < nsize c"
  shows "unat ((i + 1) mod cb_bufsize c) = Suc (unat i) mod nsize c"
  using assms unat_inc_bounded [of i "cb_bufsize c"] by (simp add: unat_mod)

lemma find_waiter_spec:
  assumes "cb_ok c" "nsize c = length buf" "k \<le> nused c" "unat i = (nhead c + k) mod nsize c"
  shows "find_waiter tid buf c i = Some (
    if tid \<in> set (drop k (ring_contents c buf))
    then Some ((nhead c + (k + length (takeWhile (\<lambda>t. t \<noteq> tid) (drop k (ring_contents c buf))))) mod nsize c)
    else None)"
  using assms
proof (induction "nused c - k" arbitrary: k i)
  case 0
  then have "k = nused c" by simp
  with 0 ntail_mod [OF 0(2)] have "i = cb_tail c" by (simp add: word_unat_eq_iff)
  with \<open>k = nused c\<close> show ?case by (subst find_waiter.simps) simp
next
  case (Suc n)
  then have k: "k < nused c" by simp
  have "i \<noteq> cb_tail c" using slot_neq_tail [OF Suc.prems(1) k] Suc.prems(4) by auto
  have "0 < nsize c" using Suc.prems(1) by (auto simp: cb_ok_nat)
  then have il: "unat i < nsize c" using Suc.prems(4) by simp
  have v: "ring_contents c buf ! k = buf ! unat i"
    using k Suc.prems(4) by (simp add: ring_contents_def)
  have D: "drop k (ring_contents c buf) = buf ! unat i # drop (Suc k) (ring_contents c buf)"
    using k v by (metis Cons_nth_drop_Suc length_ring_contents)
  show ?case
  proof (cases "buf ! unat i = tid")
    case True
    with \<open>i \<noteq> cb_tail c\<close> il Suc.prems D show ?thesis by (subst find_waiter.simps) simp
  next
    case False
    have "unat ((i + 1) mod cb_bufsize c) = (nhead c + Suc k) mod nsize c"
      using next_index [OF Suc.prems(1) il] Suc.prems(4) by (simp add: mod_Suc_eq)
    then have "find_waiter tid buf c ((i + 1) mod cb_bufsize c) = Some (
      if tid \<in> set (drop (Suc k) (ring_contents c buf))
      then Some ((nhead c + (Suc k + length (takeWhile (\<lambda>t. t \<noteq> tid) (drop (Suc k) (ring_contents c buf))))) mod nsize c)
      else None)"
      using Suc.hyps Suc.prems k by (intro Suc.hyps(1)) auto
    with False \<open>i \<noteq> cb_tail c\<close> il Suc.prems D show ?thesis by (subst find_waiter.simps) auto
  qed
qed

lemma ring_slot_inj:
  assumes "cb_ok c" "j < nused c" "k < nused c" "(nhead c + j) mod nsize c = (nhead c + k) mod nsize c"
  shows "j = k"
proof -
  have "j < nsize c" "k < nsize c" using assms nused_less [of c] by auto
  with assms show ?thesis by (auto simp: cb_ok_nat mod_if split: if_splits)
qed

lemma ring_overwrite:
  assumes "cb_ok c" "nsize c = length buf" "j < nused c"
  shows "ring_contents c (buf[(nhead c + j) mod nsize c := v]) = (ring_contents c buf)[j := v]"
proof (rule nth_equalityI)
  fix k assume "k < length (ring_contents c (buf[(nhead c + j) mod nsize c := v]))"
  then have k: "k < nused c" by simp
  have "0 < length buf" using assms by (auto simp: cb_ok_nat)
  then have l: "(nhead c + k) mod nsize c < length buf" using assms(2) by simp
  show "ring_contents c (buf[(nhead c + j) mod nsize c := v]) ! k = (ring_contents c buf)[j := v] ! k"
  proof (cases "j = k")
    case True
    with l k show ?thesis by (simp add: ring_contents_def)
  next
    case False
    then have "(nhead c + j) mod nsize c \<noteq> (nhead c + k) mod nsize c"
      using ring_slot_inj [OF assms(1,3) k] by blast
    with k False show ?thesis by (simp add: ring_contents_def)
  qed
qed simp

text \<open>Cancelling blanks the first entry of the thread in the first mutex that mentions it.\<close>

definition blanked :: "u8 \<Rightarrow> u8 list \<Rightarrow> u8 list" where
  "blanked tid ws = ws[length (takeWhile (\<lambda>t. t \<noteq> tid) ws) := THREAD_TID_INVALID]"

definition concerns :: "u8 \<Rightarrow> mutex \<Rightarrow> bool" where
  "concerns tid m \<longleftrightarrow> mtx_locker m = tid \<or> tid \<in> set (waiters m)"

lemma cancel_one:
  assumes ok: "mutex_ok m" and n: "mtx_locker m \<noteq> tid" and w: "tid \<in> set (waiters m)"
  shows "\<exists>i. find_waiter tid (mtx_buf m) (mtx_ids m) (cb_head (mtx_ids m)) = Some (Some i) \<and>
    mutex_ok (m\<lparr>mtx_buf := (mtx_buf m)[i := THREAD_TID_INVALID]\<rparr>) \<and>
    waiters (m\<lparr>mtx_buf := (mtx_buf m)[i := THREAD_TID_INVALID]\<rparr>) = blanked tid (waiters m)"
proof -
  let ?c = "mtx_ids m" and ?ws = "waiters m"
  let ?j = "length (takeWhile (\<lambda>t. t \<noteq> tid) ?ws)"
  have c: "cb_ok ?c" "nsize ?c = length (mtx_buf m)" using ok by (simp_all add: mutex_ok_def)
  have "nhead ?c = (nhead ?c + 0) mod nsize ?c" using c by (simp add: cb_ok_nat)
  then have f: "find_waiter tid (mtx_buf m) ?c (cb_head ?c) = Some (Some ((nhead ?c + ?j) mod nsize ?c))"
    using find_waiter_spec [OF c, of 0 "cb_head ?c" tid] w by (simp add: waiters_def)
  have "?j < nused ?c"
    using w takeWhile_eq_all_conv [of "\<lambda>t. t \<noteq> tid" ?ws] length_takeWhile_le [of "\<lambda>t. t \<noteq> tid" ?ws]
    by (metis append_eq_conv_conj le_neq_implies_less length_ring_contents take_all_iff
        takeWhile_eq_take waiters_def order_refl)
  then have "waiters (m\<lparr>mtx_buf := (mtx_buf m)[(nhead ?c + ?j) mod nsize ?c := THREAD_TID_INVALID]\<rparr>) =
      blanked tid ?ws"
    using ring_overwrite [OF c] by (simp add: waiters_def blanked_def)
  with f ok show ?thesis by (auto simp: mutex_ok_def)
qed

lemma cancel_in_skip:
  assumes "\<And>h. h \<in> set hs \<Longrightarrow> mutex_ok (mtx_mem ms h) \<and> \<not> concerns tid (mtx_mem ms h)"
  shows "cancel_in tid (hs @ rest) s ms = cancel_in tid rest s ms"
  using assms
proof (induction hs)
  case (Cons h hs)
  let ?m = "mtx_mem ms h" and ?c = "mtx_ids (mtx_mem ms h)"
  have ok: "mutex_ok ?m" and n: "mtx_locker ?m \<noteq> tid" "tid \<notin> set (waiters ?m)"
    using Cons.prems by (auto simp: concerns_def)
  have c: "cb_ok ?c" "nsize ?c = length (mtx_buf ?m)" using ok by (simp_all add: mutex_ok_def)
  have "nhead ?c = (nhead ?c + 0) mod nsize ?c" using c by (simp add: cb_ok_nat)
  then have "find_waiter tid (mtx_buf ?m) ?c (cb_head ?c) = Some None"
    using find_waiter_spec [OF c, of 0 "cb_head ?c" tid] n by (simp add: waiters_def)
  with n Cons show ?case by (simp add: Let_def)
qed simp

lemma cancel_wait_on_mutex_waiter:
  assumes L: "mtx_list ms = hs @ h # hs'"
    and skip: "\<And>k. k \<in> set hs \<Longrightarrow> mutex_ok (mtx_mem ms k) \<and> \<not> concerns tid (mtx_mem ms k)"
    and ok: "mutex_ok (mtx_mem ms h)" and n: "mtx_locker (mtx_mem ms h) \<noteq> tid"
    and w: "tid \<in> set (waiters (mtx_mem ms h))"
  shows "\<exists>m. cancel_wait_on_mutex tid s ms = Some (EOK, upd_mtx h m ms) \<and> mutex_ok m \<and>
    mtx_locker m = mtx_locker (mtx_mem ms h) \<and> waiters m = blanked tid (waiters (mtx_mem ms h))"
proof -
  have "\<not> cbuffer_is_empty (mtx_ids (mtx_mem ms h))"
    using w ok ring_eq_Nil by (fastforce simp: waiters_def mutex_ok_def)
  moreover have "cancel_wait_on_mutex tid s ms = cancel_in tid (h # hs') s ms"
    unfolding cancel_wait_on_mutex_def L using skip by (rule cancel_in_skip)
  ultimately show ?thesis using cancel_one [OF ok n w] n
    by (auto simp: Let_def)
qed

lemma cancel_wait_on_mutex_unknown:
  assumes "\<And>k. k \<in> set (mtx_list ms) \<Longrightarrow> mutex_ok (mtx_mem ms k) \<and> \<not> concerns tid (mtx_mem ms k)"
  shows "cancel_wait_on_mutex tid s ms = Some (EINVAL, ms)"
  using cancel_in_skip [of "mtx_list ms" ms tid "[]" s] assms by (simp add: cancel_wait_on_mutex_def)

lemma find_Some_split:
  "find P xs = Some y \<Longrightarrow> \<exists>ys zs. xs = ys @ y # zs \<and> (\<forall>x \<in> set ys. \<not> P x) \<and> P y"
proof (induction xs)
  case (Cons a xs)
  show ?case
  proof (cases "P a")
    case True
    with Cons.prems show ?thesis by (intro exI [of _ "[]"] exI [of _ xs]) auto
  next
    case False
    with Cons obtain ys zs where "xs = ys @ y # zs" "\<forall>x \<in> set ys. \<not> P x" "P y" by auto
    with False show ?thesis by (intro exI [of _ "a # ys"] exI [of _ zs]) auto
  qed
qed simp

text \<open>With one entry per thread, blanking it takes the thread out of the live waiters.\<close>

lemma filter_blanked:
  assumes "tid \<in> set ws" "distinct (filter (\<lambda>t. t = tid) ws)" "tid \<noteq> THREAD_TID_INVALID"
  shows "filter (\<lambda>t. t \<noteq> THREAD_TID_INVALID) (blanked tid ws) =
    filter (\<lambda>t. t \<noteq> tid) (filter (\<lambda>t. t \<noteq> THREAD_TID_INVALID) ws)"
  using assms
proof (induction ws)
  case (Cons a ws)
  show ?case
  proof (cases "a = tid")
    case True
    with Cons.prems have "tid \<notin> set ws" by (auto simp: filter_empty_conv)
    with True show ?thesis by (auto simp: blanked_def intro!: filter_cong)
  next
    case False
    with Cons show ?thesis by (auto simp: blanked_def)
  qed
qed simp

section \<open>Properties\<close>

definition sample_mutex :: mutex where
  "sample_mutex = \<lparr>mtx_name = ''m'', mtx_locker = 2,
     mtx_ids = \<lparr>cb_head = 0, cb_tail = 2, cb_bufsize = 20\<rparr>, mtx_buf = [255, 3] @ replicate 18 255\<rparr>"

definition sample_mutexes :: mutexes where
  "sample_mutexes = \<lparr>mtx_list = [7], mtx_mem = (\<lambda>_. sample_mutex)\<rparr>"

lemma sample_mutex_ok: "mutex_ok sample_mutex"
  by (simp add: mutex_ok_def sample_mutex_def cb_ok_nat thread_consts)

lemma sample_mutex_waiters: "waiters sample_mutex = [255, 3]"
  by (simp add: waiters_def sample_mutex_def ring_contents_def nused_def upt_rec)

text \<open>C8: a mutex is a fair lock, under the mutex's invariant. Locking by an existing thread that is not
  the owner, while fewer than DIEGOS_MAX_THREADS - 1 entries wait, makes the caller the owner of a
  free mutex and appends it to the waiters of a held one. The owner's unlock hands the mutex to the
  thread that has waited longest (skipping the entries of cancelled waits) if that thread still
  exists, or frees the mutex when nobody waits; both return and keep the invariant. If the thread
  that has waited longest no longer exists, the unlock dereferences NULL.\<close>

theorem mutex_refines_lock:
  assumes "mutex_ok (mtx_mem ms h)"
  shows "(get_thread tid s \<noteq> None \<and> tid \<noteq> mtx_locker (mtx_mem ms h) \<and>
      Suc (length (waiters (mtx_mem ms h))) < DIEGOS_MAX_THREADS \<longrightarrow>
      (\<exists>m. lock_mutex tid (Some h) s ms = Some (True, upd_mtx h m ms) \<and> mutex_ok m \<and>
         mtx_abs m = alock_acquire tid (mtx_abs (mtx_mem ms h)))) \<and>
    (mtx_locker (mtx_mem ms h) = tid \<and> tid \<noteq> THREAD_TID_INVALID \<longrightarrow>
      (if snd (mtx_abs (mtx_mem ms h)) = [] \<or> get_thread (hd (snd (mtx_abs (mtx_mem ms h)))) s \<noteq> None
       then \<exists>m. unlock_mutex tid (Some h) s ms = Some (True, upd_mtx h m ms) \<and> mutex_ok m \<and>
              mtx_abs m = alock_release (mtx_abs (mtx_mem ms h))
       else unlock_mutex tid (Some h) s ms = None))"
proof (rule conjI; rule impI)
  assume "get_thread tid s \<noteq> None \<and> tid \<noteq> mtx_locker (mtx_mem ms h) \<and>
      Suc (length (waiters (mtx_mem ms h))) < DIEGOS_MAX_THREADS"
  then show "\<exists>m. lock_mutex tid (Some h) s ms = Some (True, upd_mtx h m ms) \<and> mutex_ok m \<and>
         mtx_abs m = alock_acquire tid (mtx_abs (mtx_mem ms h))"
    by (intro lock_mutex_ref [OF assms]) auto
next
  assume l: "mtx_locker (mtx_mem ms h) = tid \<and> tid \<noteq> THREAD_TID_INVALID"
  let ?w = "snd (mtx_abs (mtx_mem ms h))"
  show "if ?w = [] \<or> get_thread (hd ?w) s \<noteq> None
       then \<exists>m. unlock_mutex tid (Some h) s ms = Some (True, upd_mtx h m ms) \<and> mutex_ok m \<and>
              mtx_abs m = alock_release (mtx_abs (mtx_mem ms h))
       else unlock_mutex tid (Some h) s ms = None"
  proof (cases "?w = [] \<or> get_thread (hd ?w) s \<noteq> None")
    case True
    then have w: "get_thread y s \<noteq> None" if "?w = y # ys" for y ys using that by auto
    have "\<exists>m. unlock_mutex tid (Some h) s ms = Some (True, upd_mtx h m ms) \<and> mutex_ok m \<and>
              mtx_abs m = alock_release (mtx_abs (mtx_mem ms h))"
      by (rule unlock_mutex_ref [OF assms _ _ w]) (use l in auto)
    with True show ?thesis by simp
  next
    case False
    with unlock_mutex_dead_waiter [OF assms, of tid _ _ s] l waiters_drop [of "mtx_mem ms h"] show ?thesis by auto
  qed
qed

theorem mutex_refines_lock_witness:
  "mtx_abs sample_mutex = (Some 2, [3]) \<and>
   (\<exists>m. lock_mutex 4 (Some 7) sample_sched sample_mutexes = Some (True, upd_mtx 7 m sample_mutexes) \<and>
      mtx_abs m = (Some 2, [3, 4])) \<and>
   (\<exists>m. unlock_mutex 2 (Some 7) sample_sched sample_mutexes = Some (True, upd_mtx 7 m sample_mutexes) \<and>
      mtx_abs m = (Some 3, []))"
proof -
  have m: "mtx_mem sample_mutexes 7 = sample_mutex" "mtx_locker sample_mutex = 2"
    by (simp_all add: sample_mutexes_def sample_mutex_def)
  have g: "get_thread 3 sample_sched \<noteq> None" "get_thread 4 sample_sched \<noteq> None"
    by (simp_all add: get_thread_def sample_sched_def sample_storage_def sample_thread_def thread_consts)
  have a: "mtx_abs sample_mutex = (Some 2, [3])"
    by (simp add: mtx_abs_def sample_mutex_waiters m THREAD_TID_INVALID_def)
  have "\<exists>m. lock_mutex 4 (Some 7) sample_sched sample_mutexes = Some (True, upd_mtx 7 m sample_mutexes) \<and>
      mtx_abs m = (Some 2, [3, 4])"
    using mutex_refines_lock [of sample_mutexes 7 4 sample_sched] sample_mutex_ok g a m
    by (auto simp: sample_mutex_waiters thread_consts alock_acquire_def)
  moreover have "\<exists>m. unlock_mutex 2 (Some 7) sample_sched sample_mutexes = Some (True, upd_mtx 7 m sample_mutexes) \<and>
      mtx_abs m = (Some 3, [])"
    using mutex_refines_lock [of sample_mutexes 7 2 sample_sched] sample_mutex_ok g a m
    by (auto simp: sample_mutex_waiters thread_consts alock_release_def)
  ultimately show ?thesis using a by blast
qed

text \<open>A mutex whose next waiter has been destroyed. The identifier of the thread is still in the ring
  (only a thread that is killed while it waits is taken out, not one that timed out and ended); the
  owner's unlock looks the thread up, gets \<open>NULL\<close> and dereferences it.\<close>

theorem unlock_with_dead_waiter_faults:
  assumes "mutex_ok (mtx_mem ms h)" "mtx_locker (mtx_mem ms h) = tid" "tid \<noteq> THREAD_TID_INVALID"
    and "dropWhile (\<lambda>t. t = THREAD_TID_INVALID) (waiters (mtx_mem ms h)) = y # ys" "get_thread y s = None"
  shows "unlock_mutex tid (Some h) s ms = None"
  using assms by (rule unlock_mutex_dead_waiter)

theorem unlock_with_dead_waiter_faults_witness:
  "\<exists>s. get_thread 2 s \<noteq> None \<and> unlock_mutex 2 (Some 7) s sample_mutexes = None"
proof -
  define s where "s = sample_sched\<lparr>storage := (storage sample_sched)(3 := zero_thread\<lparr>t_tid := THREAD_TID_INVALID\<rparr>)\<rparr>"
  have g: "get_thread 2 s \<noteq> None" "get_thread 3 s = None"
    by (simp_all add: s_def get_thread_def sample_sched_def sample_storage_def sample_thread_def thread_consts)
  have "unlock_mutex 2 (Some 7) s sample_mutexes = None"
    using sample_mutex_ok g(2) by (intro unlock_with_dead_waiter_faults [where y = 3 and ys = "[]"])
      (simp_all add: sample_mutexes_def sample_mutex_waiters THREAD_TID_INVALID_def, simp add: sample_mutex_def)
  with g(1) show ?thesis by blast
qed

text \<open>Cancelling the wait of a thread on a mutex removes it, and only it, from the waiters that will
  be served, and the owner is unchanged; a thread no mutex mentions is reported with \<open>EINVAL\<close>
  and nothing changes.\<close>

theorem cancel_wait_on_mutex_correct:
  assumes "\<forall>k \<in> set (mtx_list ms). mutex_ok (mtx_mem ms k)" "tid \<noteq> THREAD_TID_INVALID"
    and "\<forall>k \<in> set (mtx_list ms). mtx_locker (mtx_mem ms k) \<noteq> tid \<and> distinct (filter (\<lambda>t. t = tid) (waiters (mtx_mem ms k)))"
  shows "case find (\<lambda>k. tid \<in> set (waiters (mtx_mem ms k))) (mtx_list ms) of
      None \<Rightarrow> cancel_wait_on_mutex tid s ms = Some (EINVAL, ms)
    | Some h \<Rightarrow> \<exists>m. cancel_wait_on_mutex tid s ms = Some (EOK, upd_mtx h m ms) \<and> mutex_ok m \<and>
        mtx_abs m = (fst (mtx_abs (mtx_mem ms h)), filter (\<lambda>t. t \<noteq> tid) (snd (mtx_abs (mtx_mem ms h))))"
proof (cases "find (\<lambda>k. tid \<in> set (waiters (mtx_mem ms k))) (mtx_list ms)")
  case None
  then have "\<And>k. k \<in> set (mtx_list ms) \<Longrightarrow> mutex_ok (mtx_mem ms k) \<and> \<not> concerns tid (mtx_mem ms k)"
    using assms by (auto simp: find_None_iff concerns_def)
  with None show ?thesis by (simp add: cancel_wait_on_mutex_unknown)
next
  case (Some h)
  let ?m = "mtx_mem ms h"
  obtain hs hs' where L: "mtx_list ms = hs @ h # hs'" "\<forall>k \<in> set hs. tid \<notin> set (waiters (mtx_mem ms k))"
    and w: "tid \<in> set (waiters ?m)"
    using find_Some_split [OF Some] by blast
  have ok: "mutex_ok ?m" "mtx_locker ?m \<noteq> tid" and one: "distinct (filter (\<lambda>t. t = tid) (waiters ?m))"
    using assms L(1) by auto
  have skip: "\<And>k. k \<in> set hs \<Longrightarrow> mutex_ok (mtx_mem ms k) \<and> \<not> concerns tid (mtx_mem ms k)"
    using assms L by (auto simp: concerns_def)
  obtain m where m: "cancel_wait_on_mutex tid s ms = Some (EOK, upd_mtx h m ms)" "mutex_ok m"
    "mtx_locker m = mtx_locker ?m" "waiters m = blanked tid (waiters ?m)"
    using cancel_wait_on_mutex_waiter [OF L(1) skip ok w] by blast
  have "filter (\<lambda>t. t \<noteq> THREAD_TID_INVALID) (blanked tid (waiters ?m)) =
      filter (\<lambda>t. t \<noteq> tid) (filter (\<lambda>t. t \<noteq> THREAD_TID_INVALID) (waiters ?m))"
    using w one assms(2) by (rule filter_blanked)
  then have "mtx_abs m = (fst (mtx_abs ?m), filter (\<lambda>t. t \<noteq> tid) (snd (mtx_abs ?m)))"
    unfolding mtx_abs_def m(3,4) by simp
  with m(1,2) show ?thesis unfolding Some option.case by blast
qed

theorem cancel_wait_on_mutex_correct_witness:
  "\<exists>m. cancel_wait_on_mutex 3 sample_sched sample_mutexes = Some (EOK, upd_mtx 7 m sample_mutexes) \<and>
     mtx_abs m = (Some 2, [])"
proof -
  have l: "mtx_list sample_mutexes = [7]" "mtx_mem sample_mutexes 7 = sample_mutex" "mtx_locker sample_mutex = 2"
    by (simp_all add: sample_mutexes_def sample_mutex_def)
  have a: "mtx_abs sample_mutex = (Some 2, [3])"
    by (simp add: mtx_abs_def sample_mutex_waiters l THREAD_TID_INVALID_def)
  show ?thesis
    using cancel_wait_on_mutex_correct [of sample_mutexes 3 sample_sched] sample_mutex_ok
    by (auto simp: l a sample_mutex_waiters THREAD_TID_INVALID_def)
qed

end
