(* ===== verification/Bitmaps.thy ===== *)
theory Bitmaps
  imports Prelude
begin

text \<open>
  The bitmaps of \<^verbatim>\<open>src/include/libs/bitmaps.h\<close>. A bitmap is an array of \<open>long\<close>, 32 bits wide on the
  ia32 target, hence a list of 32 bit words; an index outside the array is a fault (\<open>None\<close>).
  The inner loop of the scanning functions, \<open>for (j = 1, k = 0; j; j += j, k++)\<close>, is kept as a loop
  on the mask \<open>j\<close>, whose doubling reaches 0 after 32 steps at most.
\<close>

unbundle bit_operations_syntax

type_synonym bitmap = "u32 list"

definition BINL :: nat where
  "BINL = 32"

definition BITMAPLEN :: "nat \<Rightarrow> nat" where
  "BITMAPLEN x = (x + BINL - 1) div BINL"

definition BITMAPBYTES :: "nat \<Rightarrow> nat" where
  "BITMAPBYTES x = BITMAPLEN x * 4"

definition bitmask :: "nat \<Rightarrow> u32" where
  "bitmask bitpos = push_bit (bitpos mod BINL) 1"

definition bitmap_set :: "bitmap \<Rightarrow> nat \<Rightarrow> bitmap option" where
  "bitmap_set bm bitpos =
     (let i = bitpos div BINL in
      if i < length bm then Some (bm[i := bm ! i OR bitmask bitpos]) else None)"

definition bitmap_clear :: "bitmap \<Rightarrow> nat \<Rightarrow> bitmap option" where
  "bitmap_clear bm bitpos =
     (let i = bitpos div BINL in
      if i < length bm then Some (bm[i := bm ! i AND NOT (bitmask bitpos)]) else None)"

definition bitmap_is_set :: "bitmap \<Rightarrow> nat \<Rightarrow> bool option" where
  "bitmap_is_set bm bitpos =
     (let i = bitpos div BINL in
      if i < length bm then Some (bm ! i AND bitmask bitpos \<noteq> 0) else None)"

section \<open>The mask loop\<close>

definition doublings :: "u32 \<Rightarrow> nat" where
  "doublings j = (LEAST n. push_bit n j = 0)"

lemma push_bit_32 [simp]: "push_bit 32 (j :: u32) = 0"
  by (rule bit_eqI) (auto simp: bit_push_bit_iff)

lemma doublings_decrease: "j \<noteq> 0 \<Longrightarrow> doublings (2 * j) < doublings j"
proof -
  assume "j \<noteq> 0"
  let ?n = "doublings j"
  have n: "push_bit ?n j = 0" unfolding doublings_def by (rule LeastI [of _ 32]) simp
  with \<open>j \<noteq> 0\<close> obtain k where k: "?n = Suc k" by (cases ?n) auto
  have "push_bit k (2 * j) = 0" using n k by (simp add: push_bit_eq_mult algebra_simps)
  then have "doublings (2 * j) \<le> k" unfolding doublings_def by (rule Least_le)
  with k show ?thesis by simp
qed

function scan_bits :: "(u32 \<Rightarrow> bool) \<Rightarrow> u32 \<Rightarrow> nat \<Rightarrow> nat option" where
  "scan_bits P j k =
     (if j = 0 then None else if P j then Some k else scan_bits P (j + j) (k + 1))"
  by pat_completeness auto
termination
  by (relation "measure (\<lambda>(P, j, k). doublings j)") (simp_all add: doublings_decrease)

declare scan_bits.simps [simp del]

lemma mask_0_iff: "(2 ^ k :: u32) = 0 \<longleftrightarrow> 32 \<le> k"
  by (simp add: exp_eq_zero_iff)

lemma scan_bits_find:
  "scan_bits P (2 ^ k) k = find (\<lambda>n. P (2 ^ n)) [k..<32]"
proof (induction "32 - k" arbitrary: k)
  case 0
  then show ?case by (subst scan_bits.simps) (simp add: mask_0_iff)
next
  case (Suc d)
  then have k: "k < 32" by simp
  have IH: "scan_bits P (2 ^ Suc k) (Suc k) = find (\<lambda>n. P (2 ^ n)) [Suc k..<32]"
    using Suc(2) by (intro Suc(1)) simp
  have "[k..<32] = k # [Suc k..<32]" using k by (rule upt_conv_Cons)
  with k IH show ?case by (subst scan_bits.simps) (simp add: mask_0_iff)
qed

section \<open>Searching\<close>

fun first_set_from :: "bitmap \<Rightarrow> nat \<Rightarrow> nat \<Rightarrow> nat option" where
  "first_set_from bm i 0 = Some (i * BINL)"
| "first_set_from bm i (Suc n) =
     (if \<not> i < length bm then None
      else if bm ! i \<noteq> 0 then
        (case scan_bits (\<lambda>j. bm ! i AND j \<noteq> 0) 1 0 of
           Some k \<Rightarrow> Some (i * BINL + k)
         | None \<Rightarrow> first_set_from bm (Suc i) n)
      else first_set_from bm (Suc i) n)"

definition bitmap_first_is_set :: "bitmap \<Rightarrow> nat \<Rightarrow> nat option" where
  "bitmap_first_is_set bm leninlongs = first_set_from bm 0 leninlongs"

fun first_clear_from :: "bitmap \<Rightarrow> nat \<Rightarrow> nat \<Rightarrow> nat option" where
  "first_clear_from bm i 0 = Some (i * BINL)"
| "first_clear_from bm i (Suc n) =
     (if \<not> i < length bm then None
      else if bm ! i = 0 then Some (i * BINL)
      else
        (case scan_bits (\<lambda>j. bm ! i AND j = 0) 1 0 of
           Some k \<Rightarrow> Some (i * BINL + k)
         | None \<Rightarrow> first_clear_from bm (Suc i) n))"

definition bitmap_first_is_clear :: "bitmap \<Rightarrow> nat \<Rightarrow> nat option" where
  "bitmap_first_is_clear bm leninlongs = first_clear_from bm 0 leninlongs"

section \<open>Callbacks\<close>

text \<open>
  The callback receives the bitmap, which it may change (the kernel's callbacks clear the bit they
  were called for), the position and the state; the loop reads the word again at every step.
\<close>

type_synonym 's bitmapcb = "bitmap \<Rightarrow> nat \<Rightarrow> 's \<Rightarrow> (bitmap \<times> 's) option"

function each_bit ::
  "(u32 \<Rightarrow> u32 \<Rightarrow> bool) \<Rightarrow> 's bitmapcb \<Rightarrow> nat \<Rightarrow> u32 \<Rightarrow> nat \<Rightarrow> bitmap \<Rightarrow> 's \<Rightarrow> (bitmap \<times> 's) option"
where
  "each_bit P cbfn i j k bm s =
     (if j = 0 then Some (bm, s)
      else if \<not> i < length bm then None
      else if P (bm ! i) j then
        (case cbfn bm (i * BINL + k) s of
           None \<Rightarrow> None
         | Some (bm', s') \<Rightarrow> each_bit P cbfn i (j + j) (k + 1) bm' s')
      else each_bit P cbfn i (j + j) (k + 1) bm s)"
  by pat_completeness auto
termination
  by (relation "measure (\<lambda>(P, cb, i, j, k, bm, s). doublings j)") (simp_all add: doublings_decrease)

declare each_bit.simps [simp del]

fun each_set_from :: "'s bitmapcb \<Rightarrow> nat \<Rightarrow> nat \<Rightarrow> bitmap \<Rightarrow> 's \<Rightarrow> (bitmap \<times> 's) option" where
  "each_set_from cbfn i 0 bm s = Some (bm, s)"
| "each_set_from cbfn i (Suc n) bm s =
     (if \<not> i < length bm then None
      else if bm ! i \<noteq> 0 then
        (case each_bit (\<lambda>w j. w AND j \<noteq> 0) cbfn i 1 0 bm s of
           None \<Rightarrow> None
         | Some (bm', s') \<Rightarrow> each_set_from cbfn (Suc i) n bm' s')
      else each_set_from cbfn (Suc i) n bm s)"

definition bitmap_for_each_set ::
  "bitmap \<Rightarrow> nat \<Rightarrow> 's bitmapcb \<Rightarrow> 's \<Rightarrow> (bitmap \<times> 's) option" where
  "bitmap_for_each_set bm leninlongs cbfn s = each_set_from cbfn 0 leninlongs bm s"

text \<open>
  In \<open>bitmap_for_each_clear\<close> the increment \<open>++i\<close> stands inside the \<open>if\<close>: the loop is kept as it is
  written, and a result \<open>None\<close> is also the result of a run that does not end.
\<close>

partial_function (option) each_clear_from ::
  "'s bitmapcb \<Rightarrow> nat \<Rightarrow> nat \<Rightarrow> bitmap \<Rightarrow> 's \<Rightarrow> (bitmap \<times> 's) option" where
  "each_clear_from cbfn i len bm s =
     (if i < len then
        if \<not> i < length bm then None
        else if bm ! i \<noteq> - 1 then
          Option.bind (each_bit (\<lambda>w j. w AND j = 0) cbfn i 1 0 bm s)
            (\<lambda>(bm', s'). each_clear_from cbfn (Suc i) len bm' s')
        else each_clear_from cbfn i len bm s
      else Some (bm, s))"

definition bitmap_for_each_clear ::
  "bitmap \<Rightarrow> nat \<Rightarrow> 's bitmapcb \<Rightarrow> 's \<Rightarrow> (bitmap \<times> 's) option" where
  "bitmap_for_each_clear bm leninlongs cbfn s = each_clear_from cbfn 0 leninlongs bm s"

section \<open>Contents\<close>

text \<open>The set of positions a bitmap stands for, which the operations update as a set.\<close>

definition bits_of :: "bitmap \<Rightarrow> nat set" where
  "bits_of bm = {p. p div BINL < length bm \<and> bit (bm ! (p div BINL)) (p mod BINL)}"

abbreviation bm_range :: "bitmap \<Rightarrow> nat" where
  "bm_range bm \<equiv> length bm * BINL"

lemma div_BINL_less: "p < n * BINL \<longleftrightarrow> p div BINL < n"
  by (simp add: BINL_def div_less_iff_less_mult)

lemma and_mask: "w AND 2 ^ k \<noteq> 0 \<longleftrightarrow> bit w k"
  using bit_iff_and_push_bit_not_eq_0 [of w k] by (simp add: push_bit_eq_mult)

lemma and_bitmask: "w AND bitmask p \<noteq> 0 \<longleftrightarrow> bit w (p mod BINL)"
  by (simp add: bitmask_def and_mask)

lemma bit_bitmask: "bit (bitmask p) n \<longleftrightarrow> n = p mod BINL"
proof -
  have "p mod BINL < 32" by (simp add: BINL_def)
  then show ?thesis by (auto simp: bitmask_def bit_exp_iff)
qed

lemma bitmap_is_set_bits: "p < bm_range bm \<Longrightarrow> bitmap_is_set bm p = Some (p \<in> bits_of bm)"
  by (simp add: bitmap_is_set_def bits_of_def and_bitmask div_BINL_less Let_def)

lemma mod_BINL_less [simp]: "p mod BINL < 32"
  by (simp add: BINL_def)

lemma div_mod_BINL_eq: "p div BINL = q div BINL \<Longrightarrow> p mod BINL = q mod BINL \<Longrightarrow> p = q"
  by (metis div_mult_mod_eq)

lemma bitmap_set_bits:
  "p < bm_range bm \<Longrightarrow>
   \<exists>bm'. bitmap_set bm p = Some bm' \<and> length bm' = length bm \<and> bits_of bm' = insert p (bits_of bm)"
  by (auto simp: bitmap_set_def bits_of_def div_BINL_less Let_def nth_list_update bit_or_iff
      bit_bitmask dest: div_mod_BINL_eq split: if_splits)

lemma bitmap_clear_bits:
  "p < bm_range bm \<Longrightarrow>
   \<exists>bm'. bitmap_clear bm p = Some bm' \<and> length bm' = length bm \<and> bits_of bm' = bits_of bm - {p}"
  by (auto simp: bitmap_clear_def bits_of_def div_BINL_less Let_def nth_list_update bit_and_iff
      bit_not_iff bit_bitmask mod_BINL_less dest: div_mod_BINL_eq split: if_splits)

lemma bits_of_range: "p \<in> bits_of bm \<Longrightarrow> p < bm_range bm"
  by (simp add: bits_of_def div_BINL_less)

lemma bits_of_zero [simp]: "bits_of (replicate n 0) = {}"
  by (auto simp: bits_of_def)

section \<open>The searches find the first position\<close>

lemma find_upt_None: "find P [i..<j] = None \<longleftrightarrow> (\<forall>n. i \<le> n \<and> n < j \<longrightarrow> \<not> P n)"
  by (auto simp: find_None_iff)

lemma find_upt_Some:
  assumes "find P [i..<j] = Some k"
  shows "i \<le> k \<and> k < j \<and> P k \<and> (\<forall>n. i \<le> n \<and> n < k \<longrightarrow> \<not> P n)"
proof -
  from assms obtain d where D: "d < length [i..<j]" "P ([i..<j] ! d)" "k = [i..<j] ! d"
      "\<forall>e < d. \<not> P ([i..<j] ! e)"
    unfolding find_Some_iff by blast
  then have d: "d < j - i" "P (i + d)" "k = i + d" by simp_all
  have "\<not> P n" if "i \<le> n" "n < k" for n
  proof -
    have "n - i < d" using that d by simp
    with D(4) have "\<not> P ([i..<j] ! (n - i))" by blast
    with that d show ?thesis by simp
  qed
  with d show ?thesis by auto
qed

lemma bits_of_word: "i < length bm \<Longrightarrow> k < 32 \<Longrightarrow> i * BINL + k \<in> bits_of bm \<longleftrightarrow> bit (bm ! i) k"
  by (simp add: bits_of_def BINL_def)

lemma pos_in_word: "i * BINL \<le> p \<Longrightarrow> p < Suc i * BINL \<Longrightarrow> \<exists>k < 32. p = i * BINL + k"
  by (rule exI [of _ "p - i * BINL"]) (simp add: BINL_def)

lemma scan_clear_word:
  assumes "i < length bm"
  shows "case scan_bits (\<lambda>j. bm ! i AND j = 0) 1 0 of
      None \<Rightarrow> (\<forall>p. i * BINL \<le> p \<and> p < Suc i * BINL \<longrightarrow> p \<in> bits_of bm)
    | Some k \<Rightarrow> k < 32 \<and> i * BINL + k \<notin> bits_of bm \<and>
        (\<forall>p. i * BINL \<le> p \<and> p < i * BINL + k \<longrightarrow> p \<in> bits_of bm)"
proof -
  have "scan_bits (\<lambda>j. bm ! i AND j = 0) 1 0 = find (\<lambda>k. \<not> bit (bm ! i) k) [0..<32]"
    using scan_bits_find [of "\<lambda>j. bm ! i AND j = 0" 0] by (simp add: and_mask [symmetric])
  then show ?thesis
    using pos_in_word [of i] bits_of_word [OF assms] find_upt_None [of "\<lambda>k. \<not> bit (bm ! i) k" 0 32]
    by (cases "find (\<lambda>k. \<not> bit (bm ! i) k) [0..<32]")
      (auto dest!: find_upt_Some simp: BINL_def; metis le_Suc_ex nat_add_left_cancel_less less_trans)+
qed

lemma first_clear_from_spec:
  "i + n \<le> length bm \<Longrightarrow>
   \<exists>p. first_clear_from bm i n = Some p \<and> i * BINL \<le> p \<and> p \<le> (i + n) * BINL \<and>
     (\<forall>q. i * BINL \<le> q \<and> q < p \<longrightarrow> q \<in> bits_of bm) \<and> (p < (i + n) * BINL \<longrightarrow> p \<notin> bits_of bm)"
proof (induction n arbitrary: i)
  case (Suc n)
  then have i: "i < length bm" by simp
  from Suc.IH [of "Suc i"] Suc.prems obtain p where p: "first_clear_from bm (Suc i) n = Some p"
      "Suc i * BINL \<le> p" "p \<le> (Suc i + n) * BINL"
      "\<forall>q. Suc i * BINL \<le> q \<and> q < p \<longrightarrow> q \<in> bits_of bm"
      "p < (Suc i + n) * BINL \<longrightarrow> p \<notin> bits_of bm" by auto
  have z: "bm ! i = 0 \<Longrightarrow> i * BINL \<notin> bits_of bm" using bits_of_word [OF i, of 0] by simp
  show ?case
  proof (cases "bm ! i = 0")
    case True
    with i z show ?thesis by (auto simp: BINL_def)
  next
    case False
    from scan_clear_word [OF i] show ?thesis
    proof (cases "scan_bits (\<lambda>j. bm ! i AND j = 0) 1 0")
      case None
      with scan_clear_word [OF i] have "\<forall>q. i * BINL \<le> q \<and> q < p \<longrightarrow> q \<in> bits_of bm"
        using p(4) None by (simp add: not_less) (meson not_le_imp_less)
      with None False i p show ?thesis by (auto simp: BINL_def)
    next
      case (Some k)
      with scan_clear_word [OF i] False i show ?thesis by (auto simp: BINL_def)
    qed
  qed
qed (auto simp: BINL_def)

section \<open>Resuming every recorded thread\<close>

text \<open>
  The contract between this library and the kernel's wake-up loops: a callback that clears the bit
  it was called for and updates the state by \<open>g\<close> is applied once to every set position, in
  increasing order, and the bitmap is empty afterwards.
\<close>

locale clearing_cb =
  fixes cbfn :: "'s bitmapcb" and g :: "nat \<Rightarrow> 's \<Rightarrow> 's"
  assumes cbfn_clears: "p < bm_range bm \<Longrightarrow>
    cbfn bm p s = map_option (\<lambda>b. (b, g p s)) (bitmap_clear bm p)"
begin

lemma each_bit_clears:
  assumes "i < length bm" "k \<le> 32"
  shows "\<exists>bm'. each_bit (\<lambda>w j. w AND j \<noteq> 0) cbfn i (2 ^ k) k bm s =
      Some (bm', fold g (filter (\<lambda>p. p \<in> bits_of bm) [i * BINL + k..<Suc i * BINL]) s) \<and>
    length bm' = length bm \<and> bits_of bm' = bits_of bm - {i * BINL + k..<Suc i * BINL}"
  using assms
proof (induction "32 - k" arbitrary: k bm s)
  case 0
  then have "k = 32" by simp
  then show ?case by (subst each_bit.simps) (simp add: mask_0_iff BINL_def)
next
  case (Suc d)
  let ?p = "i * BINL + k"
  have k: "k < 32" "d = 32 - Suc k" "Suc k \<le> 32" using Suc(2) by auto
  have r: "?p < bm_range bm" using Suc.prems k by (simp add: div_BINL_less) (simp add: BINL_def)
  have up: "[?p..<Suc i * BINL] = ?p # [Suc ?p..<Suc i * BINL]"
    using k by (intro upt_conv_Cons) (simp add: BINL_def)
  have b: "bm ! i AND 2 ^ k \<noteq> 0 \<longleftrightarrow> ?p \<in> bits_of bm"
    using bits_of_word [OF Suc.prems(1) k(1)] by (simp add: and_mask)
  have m0: "(2 ^ k :: u32) \<noteq> 0" using k by (simp add: mask_0_iff)
  show ?case
  proof (cases "?p \<in> bits_of bm")
    case True
    obtain bm1 where c: "bitmap_clear bm ?p = Some bm1" "length bm1 = length bm"
        "bits_of bm1 = bits_of bm - {?p}" using bitmap_clear_bits [OF r] by blast
    have cb: "cbfn bm ?p s = Some (bm1, g ?p s)" using cbfn_clears [OF r] c(1) by simp
    have f: "filter (\<lambda>p. p \<in> bits_of bm1) [Suc ?p..<Suc i * BINL] =
        filter (\<lambda>p. p \<in> bits_of bm) [Suc ?p..<Suc i * BINL]"
      by (rule filter_cong) (auto simp: c(3))
    have s: "bits_of bm - {?p} - {Suc ?p..<Suc i * BINL} = bits_of bm - {?p..<Suc i * BINL}"
      using up by (auto simp: set_upt [symmetric] simp del: set_upt)
    from Suc(1) [OF k(2), of bm1 "g ?p s"] Suc.prems c f s k(3) cb b True up m0 show ?thesis
      by (subst each_bit.simps) simp
  next
    case False
    have s: "bits_of bm - {Suc ?p..<Suc i * BINL} = bits_of bm - {?p..<Suc i * BINL}"
      using up False by (auto simp: set_upt [symmetric] simp del: set_upt)
    from Suc(1) [OF k(2), of bm s] Suc.prems s k(3) b False up m0 show ?thesis
      by (subst each_bit.simps) simp
  qed
qed

lemma each_set_from_clears:
  "i + n \<le> length bm \<Longrightarrow>
   \<exists>bm'. each_set_from cbfn i n bm s =
      Some (bm', fold g (filter (\<lambda>p. p \<in> bits_of bm) [i * BINL..<(i + n) * BINL]) s) \<and>
    length bm' = length bm \<and> bits_of bm' = bits_of bm - {i * BINL..<(i + n) * BINL}"
proof (induction n arbitrary: i bm s)
  case (Suc n)
  then have i: "i < length bm" by simp
  have up: "[i * BINL..<(i + Suc n) * BINL] = [i * BINL..<Suc i * BINL] @ [Suc i * BINL..<(Suc i + n) * BINL]"
    using upt_add_eq_append [of "i * BINL" "Suc i * BINL" "n * BINL"] by (simp add: BINL_def add_ac)
  have se: "{i * BINL..<(i + Suc n) * BINL} = {i * BINL..<Suc i * BINL} \<union> {Suc i * BINL..<(Suc i + n) * BINL}"
    using arg_cong [OF up, of set] by simp
  show ?case
  proof (cases "bm ! i = 0")
    case True
    then have "\<forall>p \<in> {i * BINL..<Suc i * BINL}. p \<notin> bits_of bm"
      using pos_in_word [of i] bits_of_word [OF i] by fastforce
    then have "filter (\<lambda>p. p \<in> bits_of bm) [i * BINL..<Suc i * BINL] = []"
        "bits_of bm - {Suc i * BINL..<(Suc i + n) * BINL} = bits_of bm - {i * BINL..<(i + Suc n) * BINL}"
      unfolding se by (auto simp: filter_empty_conv)
    with Suc.IH [of "Suc i" bm s] Suc.prems True i up show ?thesis by simp
  next
    case False
    from each_bit_clears [OF i, of 0 s] obtain bm1 where
      e: "each_bit (\<lambda>w j. w AND j \<noteq> 0) cbfn i 1 0 bm s =
          Some (bm1, fold g (filter (\<lambda>p. p \<in> bits_of bm) [i * BINL..<Suc i * BINL]) s)"
        "length bm1 = length bm" "bits_of bm1 = bits_of bm - {i * BINL..<Suc i * BINL}" by auto
    have f: "filter (\<lambda>p. p \<in> bits_of bm1) [Suc i * BINL..<(Suc i + n) * BINL] =
        filter (\<lambda>p. p \<in> bits_of bm) [Suc i * BINL..<(Suc i + n) * BINL]"
      by (rule filter_cong) (auto simp: e(3))
    show ?thesis
      using Suc.IH [of "Suc i" bm1] Suc.prems False i e f up se by (auto simp: Diff_eq Int_assoc)
  qed
qed simp

lemma for_each_set_clears:
  "\<exists>bm'. bitmap_for_each_set bm (length bm) cbfn s =
      Some (bm', fold g (filter (\<lambda>p. p \<in> bits_of bm) [0..<bm_range bm]) s) \<and>
    length bm' = length bm \<and> bits_of bm' = {}"
  using each_set_from_clears [of 0 "length bm" bm s] bits_of_range [of _ bm]
  by (auto simp: bitmap_for_each_set_def)

end

section \<open>A scan that does not end\<close>

lemma each_clear_from_stuck:
  assumes "i < len" "i < length bm" "bm ! i = - 1"
  shows "each_clear_from cbfn i len bm s = None"
proof (rule ccontr)
  assume "each_clear_from cbfn i len bm s \<noteq> None"
  then obtain r where r: "each_clear_from cbfn i len bm s = Some r" by blast
  have "\<not> (i < len \<and> i < length bm \<and> bm ! i = - 1)"
  proof (rule each_clear_from.raw_induct
      [where P = "\<lambda>cb i len bm s r. \<not> (i < len \<and> i < length bm \<and> bm ! i = - 1)", OF _ r])
    fix rec :: "'a bitmapcb \<Rightarrow> nat \<Rightarrow> nat \<Rightarrow> bitmap \<Rightarrow> 'a \<Rightarrow> (bitmap \<times> 'a) option"
    fix cb i len bm s r
    assume IH: "\<And>cb i len bm s r. rec cb i len bm s = Some r \<Longrightarrow> \<not> (i < len \<and> i < length bm \<and> bm ! i = - 1)"
      and body: "(if i < len
        then if \<not> i < length bm then None
             else if bm ! i \<noteq> - 1
                  then each_bit (\<lambda>w j. w AND j = 0) cb i 1 0 bm s \<bind> (\<lambda>(bm', s'). rec cb (Suc i) len bm' s')
                  else rec cb i len bm s
        else Some (bm, s)) = Some r"
    show "\<not> (i < len \<and> i < length bm \<and> bm ! i = - 1)"
      using body IH [of cb i len bm s r] by auto
  qed
  with assms show False by blast
qed

lemma bits_of_single: "k < 32 \<Longrightarrow> bits_of [2 ^ k] = {k}"
  by (auto simp: bits_of_def BINL_def bit_exp_iff)

section \<open>Properties\<close>

text \<open>A bitmap is a set of positions. Inside its range, setting and clearing a position insert and
  remove it, testing a position decides membership, and no access leaves the array.\<close>

theorem bitmap_set_operations:
  assumes "p < bm_range bm"
  shows "bitmap_is_set bm p = Some (p \<in> bits_of bm) \<and>
    (\<exists>bm'. bitmap_set bm p = Some bm' \<and> length bm' = length bm \<and> bits_of bm' = insert p (bits_of bm)) \<and>
    (\<exists>bm'. bitmap_clear bm p = Some bm' \<and> length bm' = length bm \<and> bits_of bm' = bits_of bm - {p})"
  using bitmap_is_set_bits [OF assms] bitmap_set_bits [OF assms] bitmap_clear_bits [OF assms] by blast

theorem bitmap_set_operations_witness:
  "\<exists>bm'. bitmap_set [0, 0] 40 = Some bm' \<and> bits_of bm' = {40}"
  using bitmap_set_operations [of 40 "[0, 0]"] bits_of_zero [of 2] by (auto simp: BINL_def numeral_2_eq_2)

text \<open>The search for a free position returns the least position whose bit is clear, and the size of
  the bitmap when there is none.\<close>

theorem bitmap_first_is_clear_least:
  "\<exists>p. bitmap_first_is_clear bm (length bm) = Some p \<and> p \<le> bm_range bm \<and> (\<forall>q < p. q \<in> bits_of bm) \<and>
     (p = bm_range bm \<or> p \<notin> bits_of bm)"
  using first_clear_from_spec [of 0 "length bm" bm] by (auto simp: bitmap_first_is_clear_def)

text \<open>The scan for clear bits does not return when a word of the bitmap has all its bits set, since
  the increment of the index is inside the branch for the other words.\<close>

theorem bitmap_for_each_clear_diverges:
  assumes "0 < leninlongs" "bm \<noteq> []" "hd bm = - 1"
  shows "bitmap_for_each_clear bm leninlongs cbfn s = None"
  unfolding bitmap_for_each_clear_def
  using assms by (intro each_clear_from_stuck) (auto simp: hd_conv_nth)

theorem bitmap_for_each_clear_diverges_witness:
  "bitmap_for_each_clear [- 1] 1 (\<lambda>bm p s. Some (bm, p # s)) [] = None"
  by (rule bitmap_for_each_clear_diverges) simp_all

end
