(* ===== verification/Events.thy ===== *)
theory Events
  imports SchedulerOps Bitmaps
begin

text \<open>
  Event queues, \<^verbatim>\<open>src/kernel/events.c\<close>. An event queue is a handle; its message queue is the instance
  of the same address in the queue memory \<open>ev_msgs\<close>, whose nodes are the events. \<open>ev_ids\<close> is the
  bitmap of the threads that wait. The part of \<open>wait_for_events_timed\<close> up to \<open>schedule_thread\<close> is
  \<open>wait_for_events_enter\<close>; the code it returns when the thread runs again is \<open>wait_for_events_code\<close>.
  \<open>lock\<close> and \<open>unlock\<close> disable interrupts, which the model has none of.
\<close>

unbundle bit_operations_syntax

record ev_queue =
  evq_name :: string
  evq_threadid :: u8

record events =
  ev_list :: "nat list"
  ev_mem :: "nat \<Rightarrow> ev_queue"
  ev_msgs :: "(nat, nat) qmem"
  ev_freefn :: "nat \<Rightarrow> nat option"
  ev_ids :: bitmap

abbreviation upd_evq :: "nat \<Rightarrow> ev_queue \<Rightarrow> events \<Rightarrow> events" where
  "upd_evq h q ev \<equiv> ev\<lparr>ev_mem := (ev_mem ev)(h := q)\<rparr>"

section \<open>Operations\<close>

definition init_events_lib :: "events \<Rightarrow> bool \<times> events" where
  "init_events_lib ev = (True, ev\<lparr>ev_list := [], ev_ids := replicate (BITMAPLEN DIEGOS_MAX_THREADS) 0\<rparr>)"

definition event_init_queue :: "string option \<Rightarrow> nat option \<Rightarrow> events \<Rightarrow> nat option \<times> events" where
  "event_init_queue name malloced ev =
     (case malloced of
        None \<Rightarrow> (None, ev)
      | Some h \<Rightarrow>
         (case queue_init (Some h) (ev_msgs ev) of (r, m) \<Rightarrow>
            if r \<noteq> EOK then (None, ev\<lparr>ev_msgs := m\<rparr>)
            else (Some h, ev\<lparr>ev_list := h # ev_list ev, ev_msgs := m,
              ev_mem := (ev_mem ev)(h := \<lparr>
                evq_name = take 15 (case name of Some n \<Rightarrow> n | None \<Rightarrow> ''Evtqueue'' @ hex_string h),
                evq_threadid = THREAD_TID_INVALID\<rparr>)\<rparr>)))"

partial_function (option) drain_queue :: "nat \<Rightarrow> (nat, nat) qmem \<Rightarrow> (nat, nat) qmem option" where
  "drain_queue h m =
     do { (r, _, m1) \<leftarrow> queue_dequeue (Some h) True m; if r = EOK then drain_queue h m1 else Some m1 }"

definition event_done_queue :: "nat option \<Rightarrow> events \<Rightarrow> (status \<times> events) option" where
  "event_done_queue evqueue ev =
     (case evqueue of
        None \<Rightarrow> Some (EINVAL, ev)
      | Some h \<Rightarrow>
         do { m \<leftarrow> (if queue_count (Some h) (ev_msgs ev) \<noteq> 0 then drain_queue h (ev_msgs ev)
                    else Some (ev_msgs ev));
              Some (case handles_remove h (ev_list ev) of (r, l) \<Rightarrow>
                      (if r \<noteq> EOK then EGENERIC else EOK, ev\<lparr>ev_list := l, ev_msgs := m\<rparr>)) })"

text \<open>The return type is \<open>unsigned\<close>: \<open>EINVAL\<close> comes back as its two's complement.\<close>

definition event_queue_size :: "nat option \<Rightarrow> events \<Rightarrow> u32" where
  "event_queue_size evqueue ev =
     (case evqueue of None \<Rightarrow> of_int (errno_val EINVAL) | Some h \<Rightarrow> queue_count (Some h) (ev_msgs ev))"

definition event_watch_queue :: "nat option \<Rightarrow> sched \<Rightarrow> events \<Rightarrow> status \<times> events" where
  "event_watch_queue evqueue s ev =
     (case evqueue of
        None \<Rightarrow> (EINVAL, ev)
      | Some h \<Rightarrow>
         if evq_threadid (ev_mem ev h) \<noteq> THREAD_TID_INVALID then (EINVAL, ev)
         else (EOK, upd_evq h ((ev_mem ev h)\<lparr>evq_threadid := scheduler_running_tid s\<rparr>) ev))"

definition event_put :: "nat option \<Rightarrow> nat option \<Rightarrow> nat option \<Rightarrow> events \<Rightarrow> (status \<times> events) option" where
  "event_put evqueue e fncb ev =
     (case evqueue of None \<Rightarrow> Some (EINVAL, ev) | Some h \<Rightarrow>
      case e of None \<Rightarrow> Some (EINVAL, ev) | Some x \<Rightarrow>
        do { (r, m) \<leftarrow> queue_enqueue (Some h) (Some x) (ev_msgs ev);
             Some (if r \<noteq> EOK then EPERM else r,
                   ev\<lparr>ev_freefn := (ev_freefn ev)(x := fncb), ev_msgs := m\<rparr>) })"

definition event_get :: "nat option \<Rightarrow> events \<Rightarrow> (nat option \<times> events) option" where
  "event_get evqueue ev =
     (case evqueue of
        None \<Rightarrow> Some (None, ev)
      | Some h \<Rightarrow> do { (r, x, m) \<leftarrow> queue_dequeue (Some h) True (ev_msgs ev);
                        Some (x, ev\<lparr>ev_msgs := m\<rparr>) })"

text \<open>The callback \<open>event_free\<close> calls on the event, if any.\<close>

definition event_free :: "nat option \<Rightarrow> events \<Rightarrow> (nat \<times> nat) option" where
  "event_free e ev =
     (case e of None \<Rightarrow> None | Some x \<Rightarrow> (case ev_freefn ev x of None \<Rightarrow> None | Some fn \<Rightarrow> Some (fn, x)))"

definition wait_for_events_enter ::
  "u64 \<Rightarrow> nat option \<Rightarrow> u32 \<Rightarrow> events \<times> sched \<Rightarrow> (events \<times> sched) entry option" where
  "wait_for_events_enter now evqueue msecs es =
     (case es of (ev, s) \<Rightarrow>
      case evqueue of
        None \<Rightarrow> Some (Return EINVAL (ev, s))
      | Some h \<Rightarrow>
         do { prev \<leftarrow> running s;
              if evq_threadid (ev_mem ev h) \<noteq> t_tid (storage s prev) then Some (Return EPERM (ev, s))
              else if queue_count (Some h) (ev_msgs ev) \<noteq> 0 then Some (Return EOK (ev, s))
              else do {
                (ok, s1) \<leftarrow> scheduler_wait_thread now THREAD_FLAG_WAIT_EVENT (ucast msecs) s;
                if \<not> ok then Some (Return EPERM (ev, s1))
                else do { ids \<leftarrow> bitmap_set (ev_ids ev) (unat (t_tid (storage s1 prev)));
                          Some (Blocked (ev\<lparr>ev_ids := ids\<rparr>, s1)) } } })"

definition wait_for_events_code :: "nat \<Rightarrow> events \<Rightarrow> status" where
  "wait_for_events_code h ev = (if queue_count (Some h) (ev_msgs ev) \<noteq> 0 then EOK else ETIMEDOUT)"

definition resume_event_step :: "nat \<Rightarrow> events \<times> sched \<Rightarrow> (events \<times> sched) option" where
  "resume_event_step h es =
     (case es of (ev, s) \<Rightarrow>
      (let tid = evq_threadid (ev_mem ev h) in
       if tid = THREAD_TID_INVALID then Some (ev, s)
       else do { b \<leftarrow> bitmap_is_set (ev_ids ev) (unat tid);
                 if b \<and> queue_count (Some h) (ev_msgs ev) \<noteq> 0
                 then do { ids \<leftarrow> bitmap_clear (ev_ids ev) (unat tid);
                           Some (ev\<lparr>ev_ids := ids\<rparr>,
                                 snd (scheduler_resume_thread THREAD_FLAG_WAIT_EVENT tid s)) }
                 else Some (ev, s) }))"

fun resume_events_loop :: "nat list \<Rightarrow> events \<times> sched \<Rightarrow> (events \<times> sched) option" where
  "resume_events_loop [] es = Some es"
| "resume_events_loop (h # hs) es = do { es1 \<leftarrow> resume_event_step h es; resume_events_loop hs es1 }"

definition resume_on_events :: "events \<times> sched \<Rightarrow> (events \<times> sched) option" where
  "resume_on_events es = resume_events_loop (ev_list (fst es)) es"

fun unwatch :: "u8 \<Rightarrow> nat list \<Rightarrow> events \<Rightarrow> status \<times> events" where
  "unwatch tid [] ev = (EINVAL, ev)"
| "unwatch tid (h # hs) ev =
     (if evq_threadid (ev_mem ev h) = tid
      then (EOK, upd_evq h ((ev_mem ev h)\<lparr>evq_threadid := THREAD_TID_INVALID\<rparr>) ev)
      else unwatch tid hs ev)"

definition cancel_wait_for_events :: "u8 \<Rightarrow> sched \<Rightarrow> events \<Rightarrow> status \<times> events" where
  "cancel_wait_for_events tid s ev =
     (case get_thread tid s of
        None \<Rightarrow> (EINVAL, ev)
      | Some p \<Rightarrow>
         if t_flags (storage s p) AND THREAD_FLAG_WAIT_EVENT = 0 then (EPERM, ev)
         else unwatch tid (ev_list ev) ev)"

section \<open>Messages\<close>

text \<open>\<open>msgs ev g\<close>: every message queue is well formed and has the contents \<open>g\<close> gives.\<close>

abbreviation msgs :: "events \<Rightarrow> (nat \<Rightarrow> nat list) \<Rightarrow> bool" where
  "msgs ev g \<equiv> qrep (ev_msgs ev) g"

lemma event_put_spec:
  assumes "msgs ev g" "unlinked g x" "Suc (length (g h)) < 2 ^ 32"
  shows "\<exists>m. event_put (Some h) (Some x) fn ev =
      Some (EOK, ev\<lparr>ev_freefn := (ev_freefn ev)(x := fn), ev_msgs := m\<rparr>) \<and> qrep m (g(h := g h @ [x]))"
  using cq.enq_rep [OF assms] by (auto simp: event_put_def)

lemma event_get_Nil: "msgs ev g \<Longrightarrow> g h = [] \<Longrightarrow> event_get (Some h) ev = Some (None, ev)"
  using cq.deq_Nil [of "ev_msgs ev" g h] by (simp add: event_get_def)

lemma event_get_Cons:
  assumes "msgs ev g" "g h = x # xs"
  shows "\<exists>m. event_get (Some h) ev = Some (Some x, ev\<lparr>ev_msgs := m\<rparr>) \<and> qrep m (g(h := xs))"
  using cq.deq_Cons [OF assms] by (auto simp: event_get_def)

lemma drain_queue_spec:
  "qrep m g \<Longrightarrow> \<exists>m'. drain_queue h m = Some m' \<and> qrep m' (g(h := []))"
proof (induction "length (g h)" arbitrary: m g)
  case 0
  then have "queue_dequeue (Some h) True m = Some (EAGAIN, None, m)"
    using cq.deq_Nil [of m g h] by simp
  moreover have "g(h := []) = g" using 0 by auto
  ultimately show ?case using 0 by (subst drain_queue.simps) (simp del: fun_upd_apply)
next
  case (Suc n)
  then obtain x xs where Q: "g h = x # xs" by (cases "g h") auto
  define g1 where "g1 = g(h := xs)"
  obtain m1 where m1: "queue_dequeue (Some h) True m = Some (EOK, Some x, m1)" "qrep m1 g1"
    using cq.deq_Cons [OF Suc.prems Q] unfolding g1_def by blast
  have g1: "g1(h := []) = g(h := [])" "length (g1 h) = n" using Suc.hyps(2) Q by (auto simp: g1_def)
  from Suc.hyps(1) [of g1 m1] g1(2) m1 show ?case unfolding g1(1) by (subst drain_queue.simps) simp
qed

lemma event_done_queue_spec:
  assumes "msgs ev g" "h \<in> set (ev_list ev)"
  shows "\<exists>m. event_done_queue (Some h) ev =
      Some (EOK, ev\<lparr>ev_list := remove1 h (ev_list ev), ev_msgs := m\<rparr>) \<and> qrep m (g(h := []))"
proof (cases "g h = []")
  case True
  then have "g(h := []) = g" by auto
  with True assms show ?thesis
    by (intro exI [of _ "ev_msgs ev"]) (auto simp: event_done_queue_def handles_remove_in)
next
  case False
  with drain_queue_spec [OF assms(1), of h] assms show ?thesis
    by (auto simp: event_done_queue_def handles_remove_in)
qed

section \<open>Waking the listeners\<close>

definition events_ok :: "events \<Rightarrow> (nat \<Rightarrow> nat list) \<Rightarrow> bool" where
  "events_ok ev g \<longleftrightarrow> msgs ev g \<and> bm_range (ev_ids ev) = 32 \<and>
     (\<forall>h \<in> set (ev_list ev). evq_threadid (ev_mem ev h) = THREAD_TID_INVALID \<or>
        unat (evq_threadid (ev_mem ev h)) < DIEGOS_MAX_THREADS)"

text \<open>The listener of one of the queues \<open>hs\<close> has a message waiting.\<close>

definition notified :: "nat list \<Rightarrow> events \<Rightarrow> (nat \<Rightarrow> nat list) \<Rightarrow> nat \<Rightarrow> bool" where
  "notified hs ev g p \<longleftrightarrow> (\<exists>h \<in> set hs. evq_threadid (ev_mem ev h) \<noteq> THREAD_TID_INVALID \<and>
     unat (evq_threadid (ev_mem ev h)) = p \<and> g h \<noteq> [])"

lemma resume_event_step_spec:
  assumes ok: "events_ok ev g" and h: "h \<in> set (ev_list ev)"
  shows "\<exists>ids. resume_event_step h (ev, s) = Some (ev\<lparr>ev_ids := ids\<rparr>,
      resumed_by THREAD_FLAG_WAIT_EVENT (\<lambda>p. p \<in> bits_of (ev_ids ev) \<and> notified [h] ev g p) s) \<and>
    bm_range ids = 32 \<and> bits_of ids = bits_of (ev_ids ev) - {p. notified [h] ev g p}"
proof -
  let ?tid = "evq_threadid (ev_mem ev h)"
  have bm: "bm_range (ev_ids ev) = 32" and q: "queue_count (Some h) (ev_msgs ev) = 0 \<longleftrightarrow> g h = []"
    using ok by (auto simp: events_ok_def)
  show ?thesis
  proof (cases "?tid = THREAD_TID_INVALID")
    case True
    then have "\<not> notified [h] ev g p" for p by (simp add: notified_def)
    with True bm show ?thesis by (intro exI [of _ "ev_ids ev"]) (simp add: resume_event_step_def)
  next
    case False
    then have t: "unat ?tid < bm_range (ev_ids ev)"
      using ok h bm by (auto simp: events_ok_def thread_consts)
    have n: "notified [h] ev g p \<longleftrightarrow> p = unat ?tid \<and> g h \<noteq> []" for p
      using False by (auto simp: notified_def)
    show ?thesis
    proof (cases "unat ?tid \<in> bits_of (ev_ids ev) \<and> g h \<noteq> []")
      case True
      obtain ids where ids: "bitmap_clear (ev_ids ev) (unat ?tid) = Some ids"
        "length ids = length (ev_ids ev)" "bits_of ids = bits_of (ev_ids ev) - {unat ?tid}"
        using bitmap_clear_bits [OF t] by blast
      have "(\<lambda>p. p \<in> bits_of (ev_ids ev) \<and> notified [h] ev g p) = (\<lambda>p. p = unat ?tid)"
        using True n by auto
      with True False ids bm n show ?thesis
        by (intro exI [of _ ids])
          (simp add: resume_event_step_def Let_def bitmap_is_set_bits [OF t] q resume_one)
    next
      case c: False
      have "(\<lambda>p. p \<in> bits_of (ev_ids ev) \<and> notified [h] ev g p) = (\<lambda>p. False)"
        using c n by auto
      moreover have "bits_of (ev_ids ev) - {p. notified [h] ev g p} = bits_of (ev_ids ev)" using c n by auto
      ultimately show ?thesis using c False bm
        by (intro exI [of _ "ev_ids ev"])
          (auto simp: resume_event_step_def Let_def bitmap_is_set_bits [OF t] q)
    qed
  qed
qed

lemma notified_ids [simp]: "notified hs (ev\<lparr>ev_ids := ids\<rparr>) g = notified hs ev g"
  by (simp add: notified_def fun_eq_iff)

lemma resume_events_loop_spec:
  assumes "events_ok ev g" "set hs \<subseteq> set (ev_list ev)"
  shows "\<exists>ids. resume_events_loop hs (ev, s) = Some (ev\<lparr>ev_ids := ids\<rparr>,
      resumed_by THREAD_FLAG_WAIT_EVENT (\<lambda>p. p \<in> bits_of (ev_ids ev) \<and> notified hs ev g p) s) \<and>
    bm_range ids = 32 \<and> bits_of ids = bits_of (ev_ids ev) - {p. notified hs ev g p}"
  using assms
proof (induction hs arbitrary: ev s)
  case Nil
  then show ?case by (intro exI [of _ "ev_ids ev"]) (simp add: notified_def events_ok_def)
next
  case (Cons h hs)
  let ?B = "bits_of (ev_ids ev)"
  obtain i1 where 1: "resume_event_step h (ev, s) = Some (ev\<lparr>ev_ids := i1\<rparr>,
      resumed_by THREAD_FLAG_WAIT_EVENT (\<lambda>p. p \<in> ?B \<and> notified [h] ev g p) s)"
    "bm_range i1 = 32" "bits_of i1 = ?B - {p. notified [h] ev g p}"
    using resume_event_step_spec [OF Cons.prems(1), of h s] Cons.prems(2) by auto
  have "events_ok (ev\<lparr>ev_ids := i1\<rparr>) g" using Cons.prems(1) 1(2) by (simp add: events_ok_def)
  from Cons.IH [OF this, of "resumed_by THREAD_FLAG_WAIT_EVENT (\<lambda>p. p \<in> ?B \<and> notified [h] ev g p) s"]
    Cons.prems(2)
  obtain i2 where 2: "resume_events_loop hs (ev\<lparr>ev_ids := i1\<rparr>,
      resumed_by THREAD_FLAG_WAIT_EVENT (\<lambda>p. p \<in> ?B \<and> notified [h] ev g p) s) =
      Some (ev\<lparr>ev_ids := i2\<rparr>, resumed_by THREAD_FLAG_WAIT_EVENT
        (\<lambda>p. (p \<in> bits_of i1 \<and> notified hs ev g p) \<or> (p \<in> ?B \<and> notified [h] ev g p)) s)"
    "bm_range i2 = 32" "bits_of i2 = bits_of i1 - {p. notified hs ev g p}"
    by (auto simp: resumed_by_comp)
  have n: "notified (h # hs) ev g p \<longleftrightarrow> notified [h] ev g p \<or> notified hs ev g p" for p
    by (auto simp: notified_def)
  have e: "(\<lambda>p. (p \<in> bits_of i1 \<and> notified hs ev g p) \<or> (p \<in> ?B \<and> notified [h] ev g p)) =
      (\<lambda>p. p \<in> ?B \<and> notified (h # hs) ev g p)" using 1(3) n by auto
  have "bits_of i2 = ?B - {p. notified (h # hs) ev g p}" using 1(3) 2(3) n by auto
  with 1(1) 2(1,2) e show ?case by (intro exI [of _ i2]) simp
qed

lemma resume_on_events_spec:
  assumes "events_ok ev g"
  shows "\<exists>ids. resume_on_events (ev, s) = Some (ev\<lparr>ev_ids := ids\<rparr>,
      resumed_by THREAD_FLAG_WAIT_EVENT (\<lambda>p. p \<in> bits_of (ev_ids ev) \<and> notified (ev_list ev) ev g p) s) \<and>
    bm_range ids = 32 \<and> bits_of ids = bits_of (ev_ids ev) - {p. notified (ev_list ev) ev g p}"
  using resume_events_loop_spec [OF assms order_refl] by (simp add: resume_on_events_def)

section \<open>Properties\<close>

definition sample_evs :: events where
  "sample_evs = \<lparr>ev_list = [6], ev_mem = (\<lambda>_. \<lparr>evq_name = ''q'', evq_threadid = 3\<rparr>),
     ev_msgs = singles (\<lambda>h. if h = 6 then Some 9 else None), ev_freefn = (\<lambda>_. None), ev_ids = [8]\<rparr>"

abbreviation sample_msgs :: "nat \<Rightarrow> nat list" where
  "sample_msgs \<equiv> single_lists (\<lambda>h. if h = 6 then Some 9 else None)"

lemma sample_msgs_rep: "msgs sample_evs sample_msgs"
  by (simp add: sample_evs_def) (rule singles_rep, auto split: if_splits)

lemma sample_events_ok: "events_ok sample_evs sample_msgs"
  using sample_msgs_rep by (simp add: events_ok_def sample_evs_def BINL_def thread_consts)

text \<open>Event queues are first in, first out and never drop an event. An event linked in no queue is
  appended, the listener's next \<open>event_get\<close> returns the oldest event, and the contents of every other
  queue stay as they were.\<close>

theorem event_queue_fifo:
  assumes "msgs ev g" "unlinked g x" "Suc (length (g h)) < 2 ^ 32"
  shows "\<exists>ev1 ev2. event_put (Some h) (Some x) fn ev = Some (EOK, ev1) \<and> msgs ev1 (g(h := g h @ [x])) \<and>
    unat (event_queue_size (Some h) ev1) = Suc (length (g h)) \<and>
    event_free (Some x) ev1 = map_option (\<lambda>f. (f, x)) fn \<and>
    event_get (Some h) ev1 = Some (Some (hd (g h @ [x])), ev2) \<and> msgs ev2 (g(h := tl (g h @ [x])))"
proof -
  define g1 where "g1 = g(h := g h @ [x])"
  have g1: "g1 h = g h @ [x]" "g1 h = hd (g h @ [x]) # tl (g h @ [x])" by (simp_all add: g1_def)
  obtain m where m: "event_put (Some h) (Some x) fn ev =
      Some (EOK, ev\<lparr>ev_freefn := (ev_freefn ev)(x := fn), ev_msgs := m\<rparr>)" "qrep m g1"
    using event_put_spec [OF assms, of fn] unfolding g1_def by blast
  define ev1 where "ev1 = ev\<lparr>ev_freefn := (ev_freefn ev)(x := fn), ev_msgs := m\<rparr>"
  have r: "msgs ev1 g1" using m(2) by (simp add: ev1_def)
  obtain m' where m': "event_get (Some h) ev1 = Some (Some (hd (g h @ [x])), ev1\<lparr>ev_msgs := m'\<rparr>)"
    "qrep m' (g1(h := tl (g h @ [x])))"
    using event_get_Cons [OF r g1(2)] by blast
  have "unat (queue_count (Some h) (ev_msgs ev1)) = length (g1 h)" using r by simp
  moreover have "g1(h := tl (g h @ [x])) = g(h := tl (g h @ [x]))" by (simp add: g1_def)
  moreover have "event_free (Some x) ev1 = map_option (\<lambda>f. (f, x)) fn"
    by (simp add: event_free_def ev1_def split: option.splits)
  ultimately show ?thesis using m(1) r m' g1(1)
    by (intro exI [of _ ev1] exI [of _ "ev1\<lparr>ev_msgs := m'\<rparr>"])
      (simp add: ev1_def g1_def event_queue_size_def del: fun_upd_apply)
qed

theorem event_queue_fifo_witness:
  "sample_msgs 6 = [9] \<and> (\<exists>ev1 ev2. event_put (Some 6) (Some 5) None sample_evs = Some (EOK, ev1) \<and>
     event_get (Some 6) ev1 = Some (Some 9, ev2) \<and> msgs ev2 (sample_msgs(6 := [5])))"
proof -
  have q: "sample_msgs 6 = [9]" "unlinked sample_msgs 5" by (auto simp: single_lists_def unlinked_def)
  from event_queue_fifo [OF sample_msgs_rep q(2), of 6 None]
  obtain ev1 ev2 where "event_put (Some 6) (Some 5) None sample_evs = Some (EOK, ev1)"
    "event_get (Some 6) ev1 = Some (Some (hd (sample_msgs 6 @ [5])), ev2)"
    "msgs ev2 (sample_msgs(6 := tl (sample_msgs 6 @ [5])))" by (auto simp: q(1) simp del: fun_upd_apply)
  with q(1) show ?thesis by (auto simp: simp del: fun_upd_apply)
qed

text \<open>The scheduler wakes exactly the listeners that have a message. A thread is made ready by
  \<open>resume_on_events\<close> if and only if it is registered as waiting, listens to a queue that holds a
  message and is in fact waiting for an event; it is then no longer registered; every other thread
  and every queue is unchanged.\<close>

theorem resume_on_events_exact:
  assumes "events_ok ev g"
  shows "\<exists>ev' s'. resume_on_events (ev, s) = Some (ev', s') \<and> events_ok ev' g \<and> sqm s' = sqm s \<and>
    bits_of (ev_ids ev') = bits_of (ev_ids ev) - {p. notified (ev_list ev) ev g p} \<and>
    (\<forall>p. storage s' p =
       (if p \<in> bits_of (ev_ids ev) \<and> notified (ev_list ev) ev g p \<and> p < DIEGOS_MAX_THREADS \<and>
           t_tid (storage s p) = of_nat p \<and> resumable THREAD_FLAG_WAIT_EVENT (storage s p)
        then resumed (storage s p) else storage s p))"
proof -
  let ?P = "\<lambda>p. p \<in> bits_of (ev_ids ev) \<and> notified (ev_list ev) ev g p"
  obtain ids where i: "resume_on_events (ev, s) = Some (ev\<lparr>ev_ids := ids\<rparr>, resumed_by THREAD_FLAG_WAIT_EVENT ?P s)"
    "bm_range ids = 32" "bits_of ids = bits_of (ev_ids ev) - {p. notified (ev_list ev) ev g p}"
    using resume_on_events_spec [OF assms] by blast
  have "events_ok (ev\<lparr>ev_ids := ids\<rparr>) g" using assms i(2) by (simp add: events_ok_def)
  with i show ?thesis
    by (intro exI [of _ "ev\<lparr>ev_ids := ids\<rparr>"] exI [of _ "resumed_by THREAD_FLAG_WAIT_EVENT ?P s"])
      (simp, simp add: resumed_by_def)
qed

theorem resume_on_events_exact_witness:
  "\<exists>ev' s'. resume_on_events (sample_evs, sample_sched) = Some (ev', s') \<and>
     t_state (storage s' 3) = THREAD_READY \<and> storage s' 4 = storage sample_sched 4"
proof -
  have b: "bits_of (ev_ids sample_evs) = {3}"
    using bits_of_single [of 3] by (simp add: sample_evs_def)
  have n: "notified (ev_list sample_evs) sample_evs sample_msgs 3"
    by (simp add: notified_def sample_evs_def thread_consts single_lists_def)
  have r: "resumable THREAD_FLAG_WAIT_EVENT (storage sample_sched 3)" "t_tid (storage sample_sched 3) = 3"
    by (simp_all add: resumable_def sample_sched_def sample_storage_def sample_thread_def flag_defs)
  from resume_on_events_exact [OF sample_events_ok, of sample_sched] obtain ev' s' where
    e: "resume_on_events (sample_evs, sample_sched) = Some (ev', s')"
    "\<And>p. storage s' p = (if p \<in> {3} \<and> notified (ev_list sample_evs) sample_evs sample_msgs p \<and>
        p < DIEGOS_MAX_THREADS \<and> t_tid (storage sample_sched p) = of_nat p \<and>
        resumable THREAD_FLAG_WAIT_EVENT (storage sample_sched p)
        then resumed (storage sample_sched p) else storage sample_sched p)" unfolding b by blast
  have "storage s' 3 = resumed (storage sample_sched 3)" "storage s' 4 = storage sample_sched 4"
    using e(2) [of 3] e(2) [of 4] n r by (simp_all add: DIEGOS_MAX_THREADS_def)
  with e(1) show ?thesis by (intro exI [of _ ev'] exI [of _ s']) simp
qed

end
