(* ===== verification/Barriers.thy ===== *)
theory Barriers
  imports SchedulerOps Bitmaps
begin

text \<open>
  Barriers, \<^verbatim>\<open>src/kernel/barriers.c\<close>: a flag word and the bitmap of the threads that wait. A barrier is
  a handle into \<open>bar_mem\<close>. \<open>wait_for_barrier_enter\<close> is the part of \<open>wait_for_barrier\<close> up to
  \<open>schedule_thread\<close>; a thread that was blocked returns \<open>EOK\<close>. The barrier callback of
  \<open>bitmap_for_each_set\<close> interprets the locale of callbacks that clear the bit they are called for.
\<close>

unbundle bit_operations_syntax

definition BARRIER_OPEN :: u32 where "BARRIER_OPEN = 1"
definition BARRIER_AUTOCLOSE :: u32 where "BARRIER_AUTOCLOSE = 2"

record barrier =
  bar_ids :: bitmap
  bar_name :: string
  bar_flags :: u32

record barriers =
  bar_list :: "nat list"
  bar_mem :: "nat \<Rightarrow> barrier"

abbreviation upd_bar :: "nat \<Rightarrow> barrier \<Rightarrow> barriers \<Rightarrow> barriers" where
  "upd_bar h b bs \<equiv> bs\<lparr>bar_mem := (bar_mem bs)(h := b)\<rparr>"

section \<open>Operations\<close>

definition init_barriers_lib :: "barriers \<Rightarrow> bool \<times> barriers" where
  "init_barriers_lib bs = (True, bs\<lparr>bar_list := []\<rparr>)"

definition barrier_create :: "string option \<Rightarrow> bool \<Rightarrow> nat option \<Rightarrow> barriers \<Rightarrow> nat option \<times> barriers" where
  "barrier_create name autoclose malloced bs =
     (case malloced of
        None \<Rightarrow> (None, bs)
      | Some h \<Rightarrow>
         (Some h, upd_bar h
            \<lparr>bar_ids = replicate (BITMAPLEN DIEGOS_MAX_THREADS) 0,
             bar_name = take 15 (case name of Some n \<Rightarrow> n | None \<Rightarrow> ''Barrier'' @ hex_string h),
             bar_flags = (if autoclose then BARRIER_AUTOCLOSE else 0)\<rparr>
            (bs\<lparr>bar_list := bar_list bs @ [h]\<rparr>)))"

definition barrier_open :: "nat option \<Rightarrow> barriers \<Rightarrow> status \<times> barriers" where
  "barrier_open barrier bs =
     (case barrier of
        None \<Rightarrow> (EINVAL, bs)
      | Some h \<Rightarrow> (EOK, upd_bar h ((bar_mem bs h)\<lparr>bar_flags := bar_flags (bar_mem bs h) OR BARRIER_OPEN\<rparr>) bs))"

definition barrier_close :: "nat option \<Rightarrow> barriers \<Rightarrow> status \<times> barriers" where
  "barrier_close barrier bs =
     (case barrier of
        None \<Rightarrow> (EINVAL, bs)
      | Some h \<Rightarrow>
         (EOK, upd_bar h ((bar_mem bs h)\<lparr>bar_flags := bar_flags (bar_mem bs h) AND NOT BARRIER_OPEN\<rparr>) bs))"

definition wait_for_barrier_enter ::
  "u64 \<Rightarrow> nat option \<Rightarrow> barriers \<times> sched \<Rightarrow> (barriers \<times> sched) entry option" where
  "wait_for_barrier_enter now barrier bss =
     (case bss of (bs, s) \<Rightarrow>
      case barrier of
        None \<Rightarrow> Some (Return EINVAL (bs, s))
      | Some h \<Rightarrow>
         if bar_flags (bar_mem bs h) AND BARRIER_OPEN \<noteq> 0 then Some (Return EOK (bs, s))
         else do {
           ids \<leftarrow> bitmap_set (bar_ids (bar_mem bs h)) (unat (scheduler_running_tid s));
           let bs1 = upd_bar h ((bar_mem bs h)\<lparr>bar_ids := ids\<rparr>) bs;
           (ok, s1) \<leftarrow> scheduler_wait_thread now THREAD_FLAG_WAIT_BARRIER 0 s;
           if \<not> ok then Some (Return EPERM (bs1, s1)) else Some (Blocked (bs1, s1)) })"

fun unbar :: "u8 \<Rightarrow> nat list \<Rightarrow> barriers \<Rightarrow> (status \<times> barriers) option" where
  "unbar tid [] bs = Some (EINVAL, bs)"
| "unbar tid (h # hs) bs =
     do { b \<leftarrow> bitmap_is_set (bar_ids (bar_mem bs h)) (unat tid);
          if b then do { ids \<leftarrow> bitmap_clear (bar_ids (bar_mem bs h)) (unat tid);
                         Some (EOK, upd_bar h ((bar_mem bs h)\<lparr>bar_ids := ids\<rparr>) bs) }
          else unbar tid hs bs }"

definition cancel_wait_for_barrier :: "u8 \<Rightarrow> sched \<Rightarrow> barriers \<Rightarrow> (status \<times> barriers) option" where
  "cancel_wait_for_barrier tid s bs =
     (case get_thread tid s of
        None \<Rightarrow> Some (EINVAL, bs)
      | Some p \<Rightarrow>
         if t_flags (storage s p) AND THREAD_FLAG_WAIT_BARRIER = 0 then Some (EPERM, bs)
         else unbar tid (bar_list bs) bs)"

definition barrier_resumecb :: "sched bitmapcb" where
  "barrier_resumecb bm pos s =
     (let s1 = snd (scheduler_resume_thread THREAD_FLAG_WAIT_BARRIER (of_nat pos) s) in
      do { bm1 \<leftarrow> bitmap_clear bm pos; Some (bm1, s1) })"

fun resume_barriers_loop :: "nat list \<Rightarrow> barriers \<times> sched \<Rightarrow> (barriers \<times> sched) option" where
  "resume_barriers_loop [] bss = Some bss"
| "resume_barriers_loop (h # hs) bss =
     (case bss of (bs, s) \<Rightarrow>
      (let b = bar_mem bs h in
       if bar_flags b AND BARRIER_OPEN \<noteq> 0 then
         do { (ids, s1) \<leftarrow> bitmap_for_each_set (bar_ids b) (BITMAPLEN DIEGOS_MAX_THREADS) barrier_resumecb s;
              let fl = (if bar_flags b AND BARRIER_AUTOCLOSE \<noteq> 0 then bar_flags b AND NOT BARRIER_OPEN
                        else bar_flags b);
              resume_barriers_loop hs (upd_bar h (b\<lparr>bar_ids := ids, bar_flags := fl\<rparr>) bs, s1) }
       else resume_barriers_loop hs (bs, s)))"

definition resume_on_barriers :: "barriers \<times> sched \<Rightarrow> (barriers \<times> sched) option" where
  "resume_on_barriers bss = resume_barriers_loop (bar_list (fst bss)) bss"

definition barrier_done :: "nat option \<Rightarrow> barriers \<times> sched \<Rightarrow> (status \<times> barriers \<times> sched) option" where
  "barrier_done barrier bss =
     (case barrier of
        None \<Rightarrow> Some (EINVAL, bss)
      | Some h \<Rightarrow>
         do { (bs, s) \<leftarrow> resume_on_barriers bss;
              Some (case handles_remove h (bar_list bs) of (r, l) \<Rightarrow>
                      if r \<noteq> EOK then (r, bs, s) else (r, bs\<lparr>bar_list := l\<rparr>, s)) })"

section \<open>Opening a barrier wakes exactly its waiters\<close>

interpretation bar: clearing_cb barrier_resumecb
  "\<lambda>p s. snd (scheduler_resume_thread THREAD_FLAG_WAIT_BARRIER (of_nat p) s)"
  by unfold_locales (auto simp: barrier_resumecb_def Let_def split: option.splits bind_split)

abbreviation is_open :: "barrier \<Rightarrow> bool" where "is_open b \<equiv> bar_flags b AND BARRIER_OPEN \<noteq> 0"

definition barriers_ok :: "barriers \<Rightarrow> bool" where
  "barriers_ok bs \<longleftrightarrow> distinct (bar_list bs) \<and>
     (\<forall>h \<in> set (bar_list bs). length (bar_ids (bar_mem bs h)) = BITMAPLEN DIEGOS_MAX_THREADS)"

text \<open>What the pass does to one barrier: an open barrier loses its waiters and may close again.\<close>

definition bar_passed :: "barrier \<Rightarrow> bitmap \<Rightarrow> barrier" where
  "bar_passed b ids =
     b\<lparr>bar_ids := ids, bar_flags := (if bar_flags b AND BARRIER_AUTOCLOSE \<noteq> 0 then bar_flags b AND NOT BARRIER_OPEN
                                     else bar_flags b)\<rparr>"

lemma for_each_wakes:
  assumes "length bm = BITMAPLEN DIEGOS_MAX_THREADS"
  shows "\<exists>ids. bitmap_for_each_set bm (BITMAPLEN DIEGOS_MAX_THREADS) barrier_resumecb s =
      Some (ids, resumed_by THREAD_FLAG_WAIT_BARRIER (\<lambda>p. p \<in> bits_of bm) s) \<and>
    length ids = BITMAPLEN DIEGOS_MAX_THREADS \<and> bits_of ids = {}"
proof -
  have r: "bm_range bm = 32" using assms by (simp add: BITMAPLEN_def BINL_def DIEGOS_MAX_THREADS_def)
  have "fold (\<lambda>p s. snd (scheduler_resume_thread THREAD_FLAG_WAIT_BARRIER (of_nat p) s))
      (filter (\<lambda>p. p \<in> bits_of bm) [0..<bm_range bm]) s =
      resumed_by THREAD_FLAG_WAIT_BARRIER (\<lambda>p. p \<in> bits_of bm) s"
    using bits_of_range [of _ bm] r by (subst fold_resume) (auto simp: conj_absorb intro!: arg_cong2 [of _ _ _ _ "resumed_by _"])
  with bar.for_each_set_clears [of bm s] assms show ?thesis by auto
qed

lemma resume_barriers_loop_spec:
  assumes "distinct hs" "\<And>h. h \<in> set hs \<Longrightarrow> length (bar_ids (bar_mem bs h)) = BITMAPLEN DIEGOS_MAX_THREADS"
  shows "\<exists>mem. resume_barriers_loop hs (bs, s) = Some (bs\<lparr>bar_mem := mem\<rparr>,
      resumed_by THREAD_FLAG_WAIT_BARRIER
        (\<lambda>p. \<exists>h \<in> set hs. is_open (bar_mem bs h) \<and> p \<in> bits_of (bar_ids (bar_mem bs h))) s) \<and>
    (\<forall>h. if h \<in> set hs \<and> is_open (bar_mem bs h)
         then \<exists>ids. mem h = bar_passed (bar_mem bs h) ids \<and> length ids = BITMAPLEN DIEGOS_MAX_THREADS \<and> bits_of ids = {}
         else mem h = bar_mem bs h)"
  using assms
proof (induction hs arbitrary: bs s)
  case Nil
  then show ?case by (intro exI [of _ "bar_mem bs"]) simp
next
  case (Cons h hs)
  let ?b = "bar_mem bs h"
  show ?case
  proof (cases "is_open ?b")
    case False
    obtain mem where m: "resume_barriers_loop hs (bs, s) = Some (bs\<lparr>bar_mem := mem\<rparr>,
      resumed_by THREAD_FLAG_WAIT_BARRIER
        (\<lambda>p. \<exists>h \<in> set hs. is_open (bar_mem bs h) \<and> p \<in> bits_of (bar_ids (bar_mem bs h))) s)"
      "\<forall>h. if h \<in> set hs \<and> is_open (bar_mem bs h)
         then \<exists>ids. mem h = bar_passed (bar_mem bs h) ids \<and> length ids = BITMAPLEN DIEGOS_MAX_THREADS \<and> bits_of ids = {}
         else mem h = bar_mem bs h"
      using Cons.IH [of bs s] Cons.prems by auto
    with False show ?thesis by (intro exI [of _ mem]) auto
  next
    case True
    obtain ids where i: "bitmap_for_each_set (bar_ids ?b) (BITMAPLEN DIEGOS_MAX_THREADS) barrier_resumecb s =
        Some (ids, resumed_by THREAD_FLAG_WAIT_BARRIER (\<lambda>p. p \<in> bits_of (bar_ids ?b)) s)"
      "length ids = BITMAPLEN DIEGOS_MAX_THREADS" "bits_of ids = {}"
      using for_each_wakes [of "bar_ids ?b" s] Cons.prems(2) [of h] by auto
    let ?bs = "upd_bar h (bar_passed ?b ids) bs"
    let ?s = "resumed_by THREAD_FLAG_WAIT_BARRIER (\<lambda>p. p \<in> bits_of (bar_ids ?b)) s"
    have ne: "k \<noteq> h" if "k \<in> set hs" for k using that Cons.prems(1) by auto
    have mem: "bar_mem ?bs k = bar_mem bs k" if "k \<in> set hs" for k using ne [OF that] by simp
    obtain mem where m: "resume_barriers_loop hs (?bs, ?s) = Some (?bs\<lparr>bar_mem := mem\<rparr>,
      resumed_by THREAD_FLAG_WAIT_BARRIER
        (\<lambda>p. \<exists>h \<in> set hs. is_open (bar_mem ?bs h) \<and> p \<in> bits_of (bar_ids (bar_mem ?bs h))) ?s)"
      "\<forall>k. if k \<in> set hs \<and> is_open (bar_mem ?bs k)
         then \<exists>ids. mem k = bar_passed (bar_mem ?bs k) ids \<and> length ids = BITMAPLEN DIEGOS_MAX_THREADS \<and> bits_of ids = {}
         else mem k = bar_mem ?bs k"
      using Cons.IH [of ?bs ?s] Cons.prems mem by auto
    have e: "(\<lambda>p. (\<exists>h \<in> set hs. is_open (bar_mem ?bs h) \<and> p \<in> bits_of (bar_ids (bar_mem ?bs h))) \<or>
          p \<in> bits_of (bar_ids ?b)) =
        (\<lambda>p. \<exists>k \<in> set (h # hs). is_open (bar_mem bs k) \<and> p \<in> bits_of (bar_ids (bar_mem bs k)))"
      using mem True by auto
    have "resume_barriers_loop (h # hs) (bs, s) = resume_barriers_loop hs (?bs, ?s)"
      using True i(1) by (simp add: Let_def bar_passed_def)
    moreover have "if k \<in> set (h # hs) \<and> is_open (bar_mem bs k)
         then \<exists>ids. mem k = bar_passed (bar_mem bs k) ids \<and> length ids = BITMAPLEN DIEGOS_MAX_THREADS \<and> bits_of ids = {}
         else mem k = bar_mem bs k" for k
      using m(2) [rule_format, of k] ne [of k] True i(2,3) Cons.prems(1) by (cases "k = h") auto
    ultimately show ?thesis using m(1) e by (intro exI [of _ mem]) (simp add: resumed_by_comp)
  qed
qed

lemma resume_on_barriers_spec:
  assumes "barriers_ok bs"
  shows "\<exists>mem. resume_on_barriers (bs, s) = Some (bs\<lparr>bar_mem := mem\<rparr>,
      resumed_by THREAD_FLAG_WAIT_BARRIER
        (\<lambda>p. \<exists>h \<in> set (bar_list bs). is_open (bar_mem bs h) \<and> p \<in> bits_of (bar_ids (bar_mem bs h))) s) \<and>
    (\<forall>h. if h \<in> set (bar_list bs) \<and> is_open (bar_mem bs h)
         then \<exists>ids. mem h = bar_passed (bar_mem bs h) ids \<and> length ids = BITMAPLEN DIEGOS_MAX_THREADS \<and> bits_of ids = {}
         else mem h = bar_mem bs h)"
  using resume_barriers_loop_spec [of "bar_list bs" bs s] assms
  by (simp add: resume_on_barriers_def barriers_ok_def)

section \<open>Properties\<close>

definition sample_bars :: barriers where
  "sample_bars = \<lparr>bar_list = [6], bar_mem = (\<lambda>_. \<lparr>bar_ids = [8], bar_name = ''b'',
     bar_flags = BARRIER_OPEN OR BARRIER_AUTOCLOSE\<rparr>)\<rparr>"

lemma sample_bars_ok: "barriers_ok sample_bars"
  by (simp add: barriers_ok_def sample_bars_def BITMAPLEN_def BINL_def thread_consts)

text \<open>The scheduler wakes exactly the threads registered at an open barrier. Such a thread is made
  ready if it is in fact waiting at a barrier; the open barriers forget all their waiters and, when
  they close automatically, are closed again; closed barriers, the other threads and the queues are
  unchanged.\<close>

theorem resume_on_barriers_exact:
  assumes "barriers_ok bs"
  shows "\<exists>bs' s'. resume_on_barriers (bs, s) = Some (bs', s') \<and> bar_list bs' = bar_list bs \<and> sqm s' = sqm s \<and>
    (\<forall>p. storage s' p =
       (if (\<exists>h \<in> set (bar_list bs). is_open (bar_mem bs h) \<and> p \<in> bits_of (bar_ids (bar_mem bs h))) \<and>
           p < DIEGOS_MAX_THREADS \<and> t_tid (storage s p) = of_nat p \<and> resumable THREAD_FLAG_WAIT_BARRIER (storage s p)
        then resumed (storage s p) else storage s p)) \<and>
    (\<forall>h. if h \<in> set (bar_list bs) \<and> is_open (bar_mem bs h)
         then bits_of (bar_ids (bar_mem bs' h)) = {} \<and>
           (is_open (bar_mem bs' h) \<longleftrightarrow> bar_flags (bar_mem bs h) AND BARRIER_AUTOCLOSE = 0)
         else bar_mem bs' h = bar_mem bs h)"
proof -
  let ?P = "\<lambda>p. \<exists>h \<in> set (bar_list bs). is_open (bar_mem bs h) \<and> p \<in> bits_of (bar_ids (bar_mem bs h))"
  obtain mem where m: "resume_on_barriers (bs, s) = Some (bs\<lparr>bar_mem := mem\<rparr>, resumed_by THREAD_FLAG_WAIT_BARRIER ?P s)"
    "\<And>h. if h \<in> set (bar_list bs) \<and> is_open (bar_mem bs h)
         then \<exists>ids. mem h = bar_passed (bar_mem bs h) ids \<and> length ids = BITMAPLEN DIEGOS_MAX_THREADS \<and> bits_of ids = {}
         else mem h = bar_mem bs h"
    using resume_on_barriers_spec [OF assms] by blast
  have c: "bits_of (bar_ids (bar_passed b ids)) = bits_of ids"
    "is_open b \<Longrightarrow> is_open (bar_passed b ids) \<longleftrightarrow> bar_flags b AND BARRIER_AUTOCLOSE = 0" for b ids
    by (simp_all add: bar_passed_def and.assoc)
  have "if h \<in> set (bar_list bs) \<and> is_open (bar_mem bs h)
         then bits_of (bar_ids (mem h)) = {} \<and> (is_open (mem h) \<longleftrightarrow> bar_flags (bar_mem bs h) AND BARRIER_AUTOCLOSE = 0)
         else mem h = bar_mem bs h" for h
    using m(2) [of h] c [of "bar_mem bs h"] by (cases "h \<in> set (bar_list bs) \<and> is_open (bar_mem bs h)") auto
  with m(1) show ?thesis
    by (intro exI [of _ "bs\<lparr>bar_mem := mem\<rparr>"] exI [of _ "resumed_by THREAD_FLAG_WAIT_BARRIER ?P s"] conjI)
      (simp_all, auto simp: resumed_by_def)
qed

theorem resume_on_barriers_exact_witness:
  "\<exists>s bs' s'. t_state (storage s 3) = THREAD_WAITING \<and> resume_on_barriers (sample_bars, s) = Some (bs', s') \<and>
     t_state (storage s' 3) = THREAD_READY \<and> storage s' 4 = storage s 4 \<and> \<not> is_open (bar_mem bs' 6)"
proof -
  define s where "s = sample_sched\<lparr>storage := (storage sample_sched)(3 :=
    sample_thread 3 2 THREAD_WAITING THREAD_FLAG_WAIT_BARRIER 0)\<rparr>"
  have b: "bits_of [8] = {3}" using bits_of_single [of 3] by simp
  have r: "resumable THREAD_FLAG_WAIT_BARRIER (storage s 3)" "t_tid (storage s 3) = 3"
    "t_state (storage s 3) = THREAD_WAITING"
    by (simp_all add: s_def resumable_def sample_thread_def flag_defs)
  obtain bs' s' where e: "resume_on_barriers (sample_bars, s) = Some (bs', s')"
    "\<And>p. storage s' p =
       (if (\<exists>h \<in> set (bar_list sample_bars). is_open (bar_mem sample_bars h) \<and> p \<in> bits_of (bar_ids (bar_mem sample_bars h))) \<and>
           p < DIEGOS_MAX_THREADS \<and> t_tid (storage s p) = of_nat p \<and> resumable THREAD_FLAG_WAIT_BARRIER (storage s p)
        then resumed (storage s p) else storage s p)"
    "\<And>h. if h \<in> set (bar_list sample_bars) \<and> is_open (bar_mem sample_bars h)
         then bits_of (bar_ids (bar_mem bs' h)) = {} \<and>
           (is_open (bar_mem bs' h) \<longleftrightarrow> bar_flags (bar_mem sample_bars h) AND BARRIER_AUTOCLOSE = 0)
         else bar_mem bs' h = bar_mem sample_bars h"
    using resume_on_barriers_exact [OF sample_bars_ok, of s] by blast
  have "storage s' 3 = resumed (storage s 3)" "storage s' 4 = storage s 4" "\<not> is_open (bar_mem bs' 6)"
    using e(2) [of 3] e(2) [of 4] e(3) [of 6] r b
    by (simp_all add: sample_bars_def BARRIER_OPEN_def BARRIER_AUTOCLOSE_def DIEGOS_MAX_THREADS_def)
  with e(1) r(3) show ?thesis by (intro exI [of _ s] exI [of _ bs'] exI [of _ s']) simp
qed

end
