(* ===== verification/IoPoll.thy ===== *)
theory IoPoll
  imports SchedulerOps Bitmaps
begin

text \<open>
  I/O waits and polling, \<^verbatim>\<open>src/kernel/io_waits.c\<close> and \<^verbatim>\<open>src/kernel/poll.c\<close>. The two files call each
  other, so they share one theory and one state record.

  A \<open>wait_queue_t\<close> is a list of items; \<open>iw_wq\<close> gives the items of every wait queue, \<open>iw_item\<close> their
  fields. The union of the identifier and the poll table pointer is one 32 bit word, read as a byte
  or as an address. What the chunk pools return is an argument of the operations that allocate, and
  returning a chunk to its pool is not modelled. The driver's poll entry (\<open>device_poll\<close>) and the
  descriptor table (\<open>fdget\<close>) are arguments of \<open>poll\<close>.
\<close>

unbundle bit_operations_syntax

definition IO_WAIT_DEFAULT :: u8 where "IO_WAIT_DEFAULT = 0"
definition IO_WAIT_POLL :: u8 where "IO_WAIT_POLL = 1"

record wait_queue_item =
  wqi_flags :: u8
  wqi_union :: u32

abbreviation wqi_tid :: "wait_queue_item \<Rightarrow> u8" where "wqi_tid i \<equiv> ucast (wqi_union i)"
abbreviation wqi_pt :: "wait_queue_item \<Rightarrow> u32" where "wqi_pt i \<equiv> wqi_union i"

definition set_tid :: "u8 \<Rightarrow> wait_queue_item \<Rightarrow> wait_queue_item" where
  "set_tid tid i = i\<lparr>wqi_union := (wqi_union i AND NOT 0xFF) OR ucast tid\<rparr>"

record poll_item =
  pi_wq :: nat
  pi_item :: nat

record poll_table =
  pt_table :: "nat list"
  pt_signalled :: bool
  pt_tid :: u8

record iopoll =
  iw_queues :: "nat list"
  iw_wq :: "nat \<Rightarrow> nat list"
  iw_item :: "nat \<Rightarrow> wait_queue_item"
  iw_ids :: bitmap
  pl_list :: "nat list"
  pl_table :: "nat \<Rightarrow> poll_table"
  pl_item :: "nat \<Rightarrow> poll_item"
  pl_ids :: bitmap

abbreviation upd_wq :: "nat \<Rightarrow> nat list \<Rightarrow> iopoll \<Rightarrow> iopoll" where
  "upd_wq w xs io \<equiv> io\<lparr>iw_wq := (iw_wq io)(w := xs)\<rparr>"

abbreviation upd_pt :: "nat \<Rightarrow> poll_table \<Rightarrow> iopoll \<Rightarrow> iopoll" where
  "upd_pt t v io \<equiv> io\<lparr>pl_table := (pl_table io)(t := v)\<rparr>"

section \<open>io\_waits.c\<close>

definition init_io_wait_lib :: "bool \<Rightarrow> bool \<Rightarrow> iopoll \<Rightarrow> bool \<times> iopoll" where
  "init_io_wait_lib pool1_ok pool2_ok io =
     (let io1 = io\<lparr>iw_queues := []\<rparr> in
      if \<not> pool1_ok then (False, io1)
      else if \<not> pool2_ok then (False, io1)
      else (True, io1\<lparr>iw_ids := replicate (BITMAPLEN DIEGOS_MAX_THREADS) 0\<rparr>))"

definition thread_io_wait_init :: "nat option \<Rightarrow> bool \<Rightarrow> iopoll \<Rightarrow> status \<times> iopoll" where
  "thread_io_wait_init wq chunk_ok io =
     (case wq of
        None \<Rightarrow> (EINVAL, io)
      | Some w \<Rightarrow> if \<not> chunk_ok then (EPERM, io) else (EOK, io\<lparr>iw_queues := iw_queues io @ [w]\<rparr>))"

definition thread_io_wait_enter ::
  "u64 \<Rightarrow> nat option \<Rightarrow> u8 \<Rightarrow> u32 \<Rightarrow> nat option \<Rightarrow> iopoll \<times> sched \<Rightarrow> (iopoll \<times> sched) entry option" where
  "thread_io_wait_enter now wq flags msecs chunk ios =
     (case ios of (io, s) \<Rightarrow>
      case wq of None \<Rightarrow> Some (Return EINVAL (io, s)) | Some w \<Rightarrow>
      case chunk of None \<Rightarrow> Some (Return EPERM (io, s)) | Some temp \<Rightarrow>
       (let i1 = (iw_item io temp)\<lparr>wqi_flags := flags\<rparr> in
        if flags \<noteq> IO_WAIT_DEFAULT then
          Some (Return EINVAL (io\<lparr>iw_item := (iw_item io)(temp := i1)\<rparr>, s))
        else
         (let io1 = io\<lparr>iw_item := (iw_item io)(temp := set_tid (scheduler_running_tid s) i1),
                       iw_wq := (iw_wq io)(w := iw_wq io w @ [temp])\<rparr> in
          do { (ok, s1) \<leftarrow> scheduler_wait_thread now THREAD_FLAG_WAIT_COMPLETION (ucast msecs) s;
               if \<not> ok then Some (Return EPERM (upd_wq w (snd (handles_remove temp (iw_wq io1 w))) io1, s1))
               else Some (Blocked (io1, s1)) })))"

text \<open>The code returned when the thread runs again: its item still queued means a timeout.\<close>

definition thread_io_wait_code :: "nat \<Rightarrow> u32 \<Rightarrow> iopoll \<times> sched \<Rightarrow> status" where
  "thread_io_wait_code w msecs ios =
     (case ios of (io, s) \<Rightarrow>
      if msecs \<noteq> 0 \<and> list_ex (\<lambda>x. wqi_tid (iw_item io x) = scheduler_running_tid s) (iw_wq io w)
      then ETIMEDOUT else EOK)"

definition poll_wakeup :: "nat option \<Rightarrow> iopoll \<Rightarrow> (status \<times> iopoll) option" where
  "poll_wakeup wqi io =
     (case wqi of
        None \<Rightarrow> Some (EINVAL, io)
      | Some x \<Rightarrow>
         (let i = iw_item io x in
          if wqi_pt i = 0 \<or> wqi_flags i \<noteq> IO_WAIT_POLL then Some (EINVAL, io)
          else
           (let t = unat (wqi_pt i); pt = pl_table io t in
            if pt_signalled pt then Some (EOK, io)
            else do { ids \<leftarrow> bitmap_set (pl_ids io) (unat (pt_tid pt));
                      Some (EOK, upd_pt t (pt\<lparr>pt_signalled := True\<rparr>) (io\<lparr>pl_ids := ids\<rparr>)) })))"

definition io_resume_item :: "nat \<Rightarrow> iopoll \<Rightarrow> iopoll option" where
  "io_resume_item cursor io =
     (let i = iw_item io cursor in
      if wqi_flags i = IO_WAIT_POLL
      then do { (_, io1) \<leftarrow> poll_wakeup (Some cursor) io; Some io1 }
      else do { ids \<leftarrow> bitmap_set (iw_ids io) (unat (wqi_tid i)); Some (io\<lparr>iw_ids := ids\<rparr>) })"

text \<open>Every iteration takes the head of the queue off, so the loop is a recursion on its contents.\<close>

fun io_resume_loop :: "nat \<Rightarrow> nat list \<Rightarrow> iopoll \<Rightarrow> iopoll option" where
  "io_resume_loop w [] io = Some (upd_wq w [] io)"
| "io_resume_loop w (cursor # rest) io =
     do { io1 \<leftarrow> io_resume_item cursor io; io_resume_loop w rest (upd_wq w rest io1) }"

definition thread_io_resume :: "nat option \<Rightarrow> iopoll \<Rightarrow> (status \<times> iopoll) option" where
  "thread_io_resume wq io =
     (case wq of
        None \<Rightarrow> Some (EINVAL, io)
      | Some w \<Rightarrow> do { io1 \<leftarrow> io_resume_loop w (iw_wq io w) io; Some (EOK, io1) })"

definition io_wait_add :: "nat option \<Rightarrow> nat option \<Rightarrow> iopoll \<Rightarrow> status \<times> iopoll" where
  "io_wait_add item wq io =
     (case item of None \<Rightarrow> (EINVAL, io) | Some x \<Rightarrow>
      case wq of None \<Rightarrow> (EINVAL, io) | Some w \<Rightarrow> (EOK, upd_wq w (iw_wq io w @ [x]) io))"

definition io_wait_remove :: "nat option \<Rightarrow> nat option \<Rightarrow> iopoll \<Rightarrow> status \<times> iopoll" where
  "io_wait_remove item wq io =
     (case item of None \<Rightarrow> (EINVAL, io) | Some x \<Rightarrow>
      case wq of None \<Rightarrow> (EINVAL, io) | Some w \<Rightarrow>
        (case handles_remove x (iw_wq io w) of (r, l) \<Rightarrow> (r, upd_wq w l io)))"

definition io_resumecb :: "sched bitmapcb" where
  "io_resumecb bm pos s =
     (let s1 = snd (scheduler_resume_thread THREAD_FLAG_WAIT_COMPLETION (of_nat pos) s) in
      do { bm1 \<leftarrow> bitmap_clear bm pos; Some (bm1, s1) })"

definition resume_on_io_wait :: "iopoll \<times> sched \<Rightarrow> (iopoll \<times> sched) option" where
  "resume_on_io_wait ios =
     (case ios of (io, s) \<Rightarrow>
      do { (ids, s1) \<leftarrow> bitmap_for_each_set (iw_ids io) (BITMAPLEN DIEGOS_MAX_THREADS) io_resumecb s;
           Some (io\<lparr>iw_ids := ids\<rparr>, s1) })"

text \<open>In every registered wait queue the first item whose identifier byte matches is removed.\<close>

definition cancel_in_wq :: "u8 \<Rightarrow> nat \<Rightarrow> iopoll \<Rightarrow> iopoll" where
  "cancel_in_wq tid w io =
     (case find (\<lambda>x. wqi_tid (iw_item io x) = tid) (iw_wq io w) of
        None \<Rightarrow> io
      | Some x \<Rightarrow> upd_wq w (snd (handles_remove x (iw_wq io w))) io)"

definition cancel_io_waits :: "u8 \<Rightarrow> iopoll \<Rightarrow> (status \<times> iopoll) option" where
  "cancel_io_waits tid io =
     (let io1 = fold (cancel_in_wq tid) (iw_queues io) io in
      do { ids \<leftarrow> bitmap_clear (iw_ids io1) (unat tid); Some (EOK, io1\<lparr>iw_ids := ids\<rparr>) })"

section \<open>poll.c\<close>

definition init_poll_lib :: "bool \<Rightarrow> bool \<Rightarrow> iopoll \<Rightarrow> bool \<times> iopoll" where
  "init_poll_lib pool1_ok pool2_ok io =
     (let io1 = io\<lparr>pl_list := []\<rparr> in
      if \<not> pool1_ok then (False, io1)
      else if \<not> pool2_ok then (False, io1)
      else (True, io1\<lparr>pl_ids := replicate (BITMAPLEN DIEGOS_MAX_THREADS) 0\<rparr>))"

definition cleanup_item :: "nat \<Rightarrow> iopoll \<Rightarrow> iopoll" where
  "cleanup_item c io = snd (io_wait_remove (Some (pi_item (pl_item io c))) (Some (pi_wq (pl_item io c))) io)"

definition cleanup :: "nat \<Rightarrow> iopoll \<Rightarrow> iopoll" where
  "cleanup t io =
     (let io1 = fold cleanup_item (pt_table (pl_table io t)) io;
          io2 = upd_pt t ((pl_table io1 t)\<lparr>pt_table := []\<rparr>) io1
      in io2\<lparr>pl_list := snd (handles_remove t (pl_list io2))\<rparr>)"

definition poll_wait :: "nat option \<Rightarrow> nat option \<Rightarrow> nat option \<Rightarrow> nat option \<Rightarrow> iopoll \<Rightarrow> status \<times> iopoll" where
  "poll_wait wq table chunk1 chunk2 io =
     (case wq of None \<Rightarrow> (EINVAL, io) | Some w \<Rightarrow>
      case table of None \<Rightarrow> (EOK, io) | Some t \<Rightarrow>
      case chunk1 of None \<Rightarrow> (EPERM, io) | Some temp \<Rightarrow>
      case chunk2 of None \<Rightarrow> (EPERM, io) | Some cursor \<Rightarrow>
        (case io_wait_add (Some temp) (Some w) io of (r, io1) \<Rightarrow>
          if r \<noteq> EOK then (EPERM, io1)
          else (EOK, upd_pt t ((pl_table io1 t)\<lparr>pt_table := pt_table (pl_table io1 t) @ [cursor]\<rparr>)
                 (io1\<lparr>iw_item := (iw_item io1)(temp := \<lparr>wqi_flags = IO_WAIT_POLL, wqi_union = of_nat t\<rparr>),
                      pl_item := (pl_item io1)(cursor := \<lparr>pi_wq = w, pi_item = temp\<rparr>)\<rparr>))))"

record pollfd =
  pf_fd :: int
  pf_events :: u16
  pf_revents :: u16

definition OPEN_MAX :: nat where "OPEN_MAX = 64"

type_synonym dpoll = "nat \<Rightarrow> nat option \<Rightarrow> iopoll \<Rightarrow> status \<times> u16 \<times> iopoll"

text \<open>
  One of the two loops of \<open>poll\<close> over the descriptors: the driver's events are masked with the
  requested ones. The result tells whether the loop ended (a driver that fails stops it), the
  descriptors as the loop leaves them, and how many have events.
\<close>

fun poll_scan :: "dpoll \<Rightarrow> (int \<Rightarrow> nat option) \<Rightarrow> nat option \<Rightarrow> pollfd list \<Rightarrow> iopoll \<Rightarrow>
    bool \<times> pollfd list \<times> nat \<times> iopoll" where
  "poll_scan dp fdget t [] io = (True, [], 0, io)"
| "poll_scan dp fdget t (p # ps) io =
     (case fdget (pf_fd p) of
        None \<Rightarrow> (case poll_scan dp fdget t ps io of (ok, qs, n, io1) \<Rightarrow> (ok, p # qs, n, io1))
      | Some dev \<Rightarrow>
          (case dp dev t io of (r, events, io1) \<Rightarrow>
           if r \<noteq> EOK then (False, p # ps, 0, io1)
           else
            (let ev = events AND pf_revents p in
             case poll_scan dp fdget t ps io1 of (ok, qs, n, io2) \<Rightarrow>
               (ok, p\<lparr>pf_events := ev\<rparr> # qs, if ev \<noteq> 0 then n + 1 else n, io2))))"

datatype poll_entry = PollDone int | PollBlocked | PollReady

text \<open>
  \<open>poll\<close> up to the point where it sleeps (\<open>PollBlocked\<close>) or goes on without sleeping (\<open>PollReady\<close>);
  \<open>poll_exit\<close> is the rest.
\<close>

definition poll_enter ::
  "u64 \<Rightarrow> dpoll \<Rightarrow> (int \<Rightarrow> nat option) \<Rightarrow> pollfd list option \<Rightarrow> int \<Rightarrow> nat option \<Rightarrow> iopoll \<times> sched \<Rightarrow>
   (poll_entry \<times> pollfd list \<times> iopoll \<times> sched) option" where
  "poll_enter now dp fdget ufds timeout chunk ios =
     (case ios of (io, s) \<Rightarrow>
      case ufds of None \<Rightarrow> Some (PollDone (errno_val EINVAL), [], io, s) | Some us \<Rightarrow>
      if us = [] \<or> length us > OPEN_MAX then Some (PollDone (errno_val EINVAL), us, io, s) else
      case chunk of None \<Rightarrow> Some (PollDone (errno_val ENOMEM), us, io, s) | Some t \<Rightarrow>
       (let io1 = upd_pt t \<lparr>pt_table = [], pt_signalled = False, pt_tid = scheduler_running_tid s\<rparr>
                    (io\<lparr>pl_list := t # pl_list io\<rparr>) in
        case poll_scan dp fdget (Some t) us io1 of (ok, qs, n, io2) \<Rightarrow>
        if \<not> ok then Some (PollDone (errno_val ENOSYS), qs, cleanup t io2, s)
        else
           (let sig = pt_signalled (pl_table io2 t) \<or> n \<noteq> 0;
                io3 = upd_pt t ((pl_table io2 t)\<lparr>pt_signalled := sig\<rparr>) io2 in
            if \<not> sig \<and> timeout \<noteq> 0 then
              do { (ok2, s1) \<leftarrow> scheduler_wait_thread now THREAD_FLAG_WAIT_COMPLETION
                                 (if timeout < 0 then 0 else of_int timeout) s;
                   if \<not> ok2 then Some (PollDone (errno_val EPERM), qs, cleanup t io3, s1)
                   else Some (PollBlocked, qs, io3, s1) }
            else Some (PollReady, qs, io3, s))))"

definition poll_exit ::
  "dpoll \<Rightarrow> (int \<Rightarrow> nat option) \<Rightarrow> pollfd list \<Rightarrow> nat \<Rightarrow> iopoll \<Rightarrow> int \<times> pollfd list \<times> iopoll" where
  "poll_exit dp fdget us t io =
     (case poll_scan dp fdget None us io of (ok, qs, n, io1) \<Rightarrow>
      if \<not> ok then (errno_val ENOSYS, qs, cleanup t io1)
      else (if n \<noteq> 0 then int n else errno_val ETIMEDOUT, qs, cleanup t io1))"

definition poll_network :: "pollfd list \<Rightarrow> int \<Rightarrow> status" where
  "poll_network ufds timeout = EOK"

definition poll_resumecb :: "sched bitmapcb" where
  "poll_resumecb bm pos s =
     (let s1 = snd (scheduler_resume_thread THREAD_FLAG_WAIT_COMPLETION (of_nat pos) s) in
      do { bm1 \<leftarrow> bitmap_clear bm pos; Some (bm1, s1) })"

definition resume_on_poll :: "iopoll \<times> sched \<Rightarrow> (iopoll \<times> sched) option" where
  "resume_on_poll ios =
     (case ios of (io, s) \<Rightarrow>
      do { (ids, s1) \<leftarrow> bitmap_for_each_set (pl_ids io) (BITMAPLEN DIEGOS_MAX_THREADS) poll_resumecb s;
           Some (io\<lparr>pl_ids := ids\<rparr>, s1) })"

section \<open>Waking the threads that wait for I/O\<close>

interpretation iow: clearing_cb io_resumecb
  "\<lambda>p s. snd (scheduler_resume_thread THREAD_FLAG_WAIT_COMPLETION (of_nat p) s)"
  by unfold_locales (auto simp: io_resumecb_def Let_def split: option.splits bind_split)

interpretation plw: clearing_cb poll_resumecb
  "\<lambda>p s. snd (scheduler_resume_thread THREAD_FLAG_WAIT_COMPLETION (of_nat p) s)"
  by unfold_locales (auto simp: poll_resumecb_def Let_def split: option.splits bind_split)

lemma fold_resume_bits:
  assumes "bm_range bm \<le> 256"
  shows "fold (\<lambda>p s. snd (scheduler_resume_thread flags (of_nat p) s))
      (filter (\<lambda>p. p \<in> bits_of bm) [0..<bm_range bm]) s = resumed_by flags (\<lambda>p. p \<in> bits_of bm) s"
  using bits_of_range [of _ bm] assms
  by (subst fold_resume) (auto simp: conj_absorb intro!: arg_cong2 [of _ _ _ _ "resumed_by _"])

definition iopoll_ok :: "iopoll \<Rightarrow> bool" where
  "iopoll_ok io \<longleftrightarrow> length (iw_ids io) = BITMAPLEN DIEGOS_MAX_THREADS \<and>
     length (pl_ids io) = BITMAPLEN DIEGOS_MAX_THREADS"

lemma ids_range: "length bm = BITMAPLEN DIEGOS_MAX_THREADS \<Longrightarrow> bm_range bm = 32"
  by (simp add: BITMAPLEN_def BINL_def DIEGOS_MAX_THREADS_def)

lemma resume_on_io_wait_spec:
  assumes "iopoll_ok io"
  shows "\<exists>ids. resume_on_io_wait (io, s) = Some (io\<lparr>iw_ids := ids\<rparr>,
      resumed_by THREAD_FLAG_WAIT_COMPLETION (\<lambda>p. p \<in> bits_of (iw_ids io)) s) \<and>
    iopoll_ok (io\<lparr>iw_ids := ids\<rparr>) \<and> bits_of ids = {}"
  using iow.for_each_set_clears [of "iw_ids io" s] fold_resume_bits [of "iw_ids io"] assms
    ids_range [of "iw_ids io"]
  by (auto simp: resume_on_io_wait_def iopoll_ok_def)

lemma resume_on_poll_spec:
  assumes "iopoll_ok io"
  shows "\<exists>ids. resume_on_poll (io, s) = Some (io\<lparr>pl_ids := ids\<rparr>,
      resumed_by THREAD_FLAG_WAIT_COMPLETION (\<lambda>p. p \<in> bits_of (pl_ids io)) s) \<and>
    iopoll_ok (io\<lparr>pl_ids := ids\<rparr>) \<and> bits_of ids = {}"
  using plw.for_each_set_clears [of "pl_ids io" s] fold_resume_bits [of "pl_ids io"] assms
    ids_range [of "pl_ids io"]
  by (auto simp: resume_on_poll_def iopoll_ok_def)

section \<open>Signalling a wait queue\<close>

definition default_tids :: "iopoll \<Rightarrow> nat list \<Rightarrow> nat set" where
  "default_tids io xs = {unat (wqi_tid (iw_item io x)) | x. x \<in> set xs \<and> wqi_flags (iw_item io x) \<noteq> IO_WAIT_POLL}"

lemma io_resume_loop_default:
  assumes "iopoll_ok io" "\<And>x. x \<in> set xs \<Longrightarrow> wqi_flags (iw_item io x) \<noteq> IO_WAIT_POLL \<and>
      unat (wqi_tid (iw_item io x)) < DIEGOS_MAX_THREADS"
  shows "\<exists>ids. io_resume_loop w xs io = Some (io\<lparr>iw_wq := (iw_wq io)(w := []), iw_ids := ids\<rparr>) \<and>
    length ids = BITMAPLEN DIEGOS_MAX_THREADS \<and> bits_of ids = bits_of (iw_ids io) \<union> default_tids io xs"
  using assms
proof (induction xs arbitrary: io)
  case Nil
  then show ?case by (intro exI [of _ "iw_ids io"]) (simp add: default_tids_def iopoll_ok_def fun_upd_def)
next
  case (Cons x xs)
  have "unat (wqi_tid (iw_item io x)) < bm_range (iw_ids io)"
    using Cons.prems(2) [of x] ids_range [of "iw_ids io"] Cons.prems(1)
    by (simp add: iopoll_ok_def DIEGOS_MAX_THREADS_def)
  then obtain ids where i: "bitmap_set (iw_ids io) (unat (wqi_tid (iw_item io x))) = Some ids"
    "length ids = length (iw_ids io)" "bits_of ids = insert (unat (wqi_tid (iw_item io x))) (bits_of (iw_ids io))"
    using bitmap_set_bits by blast
  let ?io = "upd_wq w xs (io\<lparr>iw_ids := ids\<rparr>)"
  have "io_resume_loop w (x # xs) io = io_resume_loop w xs ?io"
    using Cons.prems(2) [of x] i(1) by (simp add: io_resume_item_def Let_def)
  moreover have "\<exists>ids'. io_resume_loop w xs ?io = Some (?io\<lparr>iw_wq := (iw_wq ?io)(w := []), iw_ids := ids'\<rparr>) \<and>
    length ids' = BITMAPLEN DIEGOS_MAX_THREADS \<and> bits_of ids' = bits_of (iw_ids ?io) \<union> default_tids ?io xs"
    using Cons.prems i(2) by (intro Cons.IH) (auto simp: iopoll_ok_def)
  moreover have "?io\<lparr>iw_wq := (iw_wq ?io)(w := []), iw_ids := v\<rparr> =
      io\<lparr>iw_wq := (iw_wq io)(w := []), iw_ids := v\<rparr>" for v by simp
  moreover have "default_tids io (x # xs) = insert (unat (wqi_tid (iw_item io x))) (default_tids io xs)"
    using Cons.prems(2) [of x] by (auto simp: default_tids_def)
  moreover have "default_tids ?io xs = default_tids io xs" by (simp add: default_tids_def)
  ultimately show ?case using i(3) by (simp del: fun_upd_apply)
qed

lemma thread_io_resume_default:
  assumes "iopoll_ok io" "\<And>x. x \<in> set (iw_wq io w) \<Longrightarrow> wqi_flags (iw_item io x) \<noteq> IO_WAIT_POLL \<and>
      unat (wqi_tid (iw_item io x)) < DIEGOS_MAX_THREADS"
  shows "\<exists>ids. thread_io_resume (Some w) io = Some (EOK, io\<lparr>iw_wq := (iw_wq io)(w := []), iw_ids := ids\<rparr>) \<and>
    length ids = BITMAPLEN DIEGOS_MAX_THREADS \<and>
    bits_of ids = bits_of (iw_ids io) \<union> default_tids io (iw_wq io w)"
  using io_resume_loop_default [OF assms(1), of "iw_wq io w" w] assms(2)
  by (auto simp: thread_io_resume_def)

section \<open>The events poll reports\<close>

lemma poll_scan_spec:
  assumes "poll_scan dp fdget t us io = (True, qs, n, io')"
  shows "map pf_fd qs = map pf_fd us \<and> map pf_revents qs = map pf_revents us \<and>
    (\<forall>i < length us. fdget (pf_fd (us ! i)) \<noteq> None \<longrightarrow>
       pf_events (qs ! i) AND pf_revents (us ! i) = pf_events (qs ! i)) \<and>
    n = length (filter (\<lambda>q. fdget (pf_fd q) \<noteq> None \<and> pf_events q \<noteq> 0) qs)"
  using assms
proof (induction us arbitrary: io qs n io')
  case (Cons u us)
  show ?case
  proof (cases "fdget (pf_fd u)")
    case None
    with Cons.prems obtain rs where r: "poll_scan dp fdget t us io = (True, rs, n, io')" "qs = u # rs"
      by (auto split: prod.splits)
    with Cons.IH [OF r(1)] None show ?thesis by (auto simp: less_Suc_eq_0_disj nth_Cons')
  next
    case (Some dev)
    obtain r e io1 where d: "dp dev t io = (r, e, io1)" by (metis prod_cases3)
    with Cons.prems Some obtain rs m where r: "poll_scan dp fdget t us io1 = (True, rs, m, io')"
      "qs = u\<lparr>pf_events := e AND pf_revents u\<rparr> # rs" "n = (if e AND pf_revents u \<noteq> 0 then m + 1 else m)"
      by (auto simp: Let_def split: prod.splits if_splits)
    with Cons.IH [OF r(1)] Some show ?thesis
      by (auto simp: less_Suc_eq_0_disj nth_Cons' and.assoc)
  qed
qed simp

section \<open>Properties\<close>

definition sample_io :: iopoll where
  "sample_io = \<lparr>iw_queues = [1], iw_wq = (\<lambda>w. if w = 6 then [11] else []),
     iw_item = (\<lambda>_. \<lparr>wqi_flags = IO_WAIT_DEFAULT, wqi_union = 3\<rparr>), iw_ids = [0], pl_list = [],
     pl_table = (\<lambda>_. \<lparr>pt_table = [], pt_signalled = False, pt_tid = 0\<rparr>),
     pl_item = (\<lambda>_. \<lparr>pi_wq = 0, pi_item = 0\<rparr>), pl_ids = [0]\<rparr>"

lemma sample_io_ok: "iopoll_ok sample_io"
  by (simp add: iopoll_ok_def sample_io_def BITMAPLEN_def BINL_def thread_consts)

text \<open>Completing I/O on a wait queue. \<open>thread_io_resume\<close>, called by a driver, empties the queue and
  marks exactly the threads that waited there; the next scheduling pass then makes ready exactly the
  marked threads that wait for a completion, and clears the marks.\<close>

theorem io_completion_wakes_waiters:
  assumes "iopoll_ok io" "\<forall>x \<in> set (iw_wq io w). wqi_flags (iw_item io x) \<noteq> IO_WAIT_POLL \<and>
      unat (wqi_tid (iw_item io x)) < DIEGOS_MAX_THREADS"
  shows "\<exists>io1 io2 s'. thread_io_resume (Some w) io = Some (EOK, io1) \<and> iw_wq io1 w = [] \<and>
    bits_of (iw_ids io1) = bits_of (iw_ids io) \<union> default_tids io (iw_wq io w) \<and>
    resume_on_io_wait (io1, s) = Some (io2, s') \<and> bits_of (iw_ids io2) = {} \<and> sqm s' = sqm s \<and>
    (\<forall>p. storage s' p =
       (if p \<in> bits_of (iw_ids io) \<union> default_tids io (iw_wq io w) \<and> p < DIEGOS_MAX_THREADS \<and>
           t_tid (storage s p) = of_nat p \<and> resumable THREAD_FLAG_WAIT_COMPLETION (storage s p)
        then resumed (storage s p) else storage s p))"
proof -
  obtain ids where i: "thread_io_resume (Some w) io = Some (EOK, io\<lparr>iw_wq := (iw_wq io)(w := []), iw_ids := ids\<rparr>)"
    "length ids = BITMAPLEN DIEGOS_MAX_THREADS" "bits_of ids = bits_of (iw_ids io) \<union> default_tids io (iw_wq io w)"
    using thread_io_resume_default [OF assms(1), of w] assms(2) by blast
  define io1 where "io1 = io\<lparr>iw_wq := (iw_wq io)(w := []), iw_ids := ids\<rparr>"
  have "iopoll_ok io1" using assms(1) i(2) by (simp add: iopoll_ok_def io1_def)
  then obtain ids' where j: "resume_on_io_wait (io1, s) = Some (io1\<lparr>iw_ids := ids'\<rparr>,
      resumed_by THREAD_FLAG_WAIT_COMPLETION (\<lambda>p. p \<in> bits_of (iw_ids io1)) s)" "bits_of ids' = {}"
    using resume_on_io_wait_spec by blast
  have "iw_wq io1 w = []" "bits_of (iw_ids io1) = bits_of (iw_ids io) \<union> default_tids io (iw_wq io w)"
    using i(3) by (simp_all add: io1_def)
  note b = this
  define io2 s' where "io2 = io1\<lparr>iw_ids := ids'\<rparr>" and
    "s' = resumed_by THREAD_FLAG_WAIT_COMPLETION (\<lambda>p. p \<in> bits_of (iw_ids io1)) s"
  have "thread_io_resume (Some w) io = Some (EOK, io1)" "resume_on_io_wait (io1, s) = Some (io2, s')"
    "bits_of (iw_ids io2) = {}" "sqm s' = sqm s"
    using i(1) j by (simp_all add: io1_def io2_def s'_def)
  moreover have "\<forall>p. storage s' p =
       (if p \<in> bits_of (iw_ids io) \<union> default_tids io (iw_wq io w) \<and> p < DIEGOS_MAX_THREADS \<and>
           t_tid (storage s p) = of_nat p \<and> resumable THREAD_FLAG_WAIT_COMPLETION (storage s p)
        then resumed (storage s p) else storage s p)"
    unfolding s'_def b(2) by (simp add: resumed_by_def)
  ultimately show ?thesis using b by blast
qed

theorem io_completion_wakes_waiters_witness:
  "\<exists>s io1 io2 s'. t_state (storage s 3) = THREAD_WAITING \<and> thread_io_resume (Some 6) sample_io = Some (EOK, io1) \<and>
     resume_on_io_wait (io1, s) = Some (io2, s') \<and> t_state (storage s' 3) = THREAD_READY"
proof -
  define s where "s = sample_sched\<lparr>storage := (storage sample_sched)(3 :=
    sample_thread 3 2 THREAD_WAITING THREAD_FLAG_WAIT_COMPLETION 0)\<rparr>"
  have r: "resumable THREAD_FLAG_WAIT_COMPLETION (storage s 3)" "t_tid (storage s 3) = 3"
    "t_state (storage s 3) = THREAD_WAITING"
    by (simp_all add: s_def resumable_def sample_thread_def flag_defs)
  have w: "iw_wq sample_io 6 = [11]" "wqi_flags (iw_item sample_io 11) \<noteq> IO_WAIT_POLL"
    "unat (wqi_tid (iw_item sample_io 11)) = 3"
    by (simp_all add: sample_io_def IO_WAIT_DEFAULT_def IO_WAIT_POLL_def)
  then have t: "3 \<in> default_tids sample_io (iw_wq sample_io 6)" by (auto simp: default_tids_def)
  have "\<forall>x \<in> set (iw_wq sample_io 6). wqi_flags (iw_item sample_io x) \<noteq> IO_WAIT_POLL \<and>
      unat (wqi_tid (iw_item sample_io x)) < DIEGOS_MAX_THREADS"
    using w by (simp add: DIEGOS_MAX_THREADS_def)
  from io_completion_wakes_waiters [OF sample_io_ok this, of s]
  obtain io1 io2 s' where e: "thread_io_resume (Some 6) sample_io = Some (EOK, io1)"
    "resume_on_io_wait (io1, s) = Some (io2, s')"
    "\<And>p. storage s' p = (if p \<in> bits_of (iw_ids sample_io) \<union> default_tids sample_io (iw_wq sample_io 6) \<and>
        p < DIEGOS_MAX_THREADS \<and> t_tid (storage s p) = of_nat p \<and> resumable THREAD_FLAG_WAIT_COMPLETION (storage s p)
        then resumed (storage s p) else storage s p)" by blast
  have "storage s' 3 = resumed (storage s 3)" using e(3) [of 3] t r by (simp add: DIEGOS_MAX_THREADS_def)
  with e r(3) show ?thesis by (intro exI [of _ s] exI [of _ io1] exI [of _ io2] exI [of _ s']) simp
qed

text \<open>What \<open>poll\<close> reports. When every driver answers, the value is the number of descriptors with
  reported events, or \<open>ETIMEDOUT\<close> when there is none; a descriptor keeps its number and its request,
  and an open one reports only events that were requested, which are read from \<open>revents\<close> and
  reported in \<open>events\<close>.\<close>

theorem poll_reports_requested_events:
  assumes "poll_exit dp fdget us t io = (v, qs, io')" "v \<noteq> errno_val ENOSYS"
  shows "map pf_fd qs = map pf_fd us \<and> map pf_revents qs = map pf_revents us \<and>
    (\<forall>i < length us. fdget (pf_fd (us ! i)) \<noteq> None \<longrightarrow>
       pf_events (qs ! i) AND pf_revents (us ! i) = pf_events (qs ! i)) \<and>
    v = (let n = length (filter (\<lambda>q. fdget (pf_fd q) \<noteq> None \<and> pf_events q \<noteq> 0) qs) in
         if n \<noteq> 0 then int n else errno_val ETIMEDOUT)"
proof -
  obtain ok rs n io1 where p: "poll_scan dp fdget None us io = (ok, rs, n, io1)" by (metis prod_cases4)
  with assms have "ok" "rs = qs" "v = (if n \<noteq> 0 then int n else errno_val ETIMEDOUT)"
    by (auto simp: poll_exit_def split: if_splits)
  with poll_scan_spec [of dp fdget None us io qs n io1] p show ?thesis by (simp add: Let_def)
qed

theorem poll_reports_requested_events_witness:
  "\<exists>v qs io'. poll_exit (\<lambda>d t io. (EOK, 5, io)) (\<lambda>_. Some 0) [\<lparr>pf_fd = 3, pf_events = 0, pf_revents = 4\<rparr>] 0 sample_io =
      (v, qs, io') \<and> v = 1 \<and> map pf_revents qs = [4]"
proof -
  let ?us = "[\<lparr>pf_fd = 3, pf_events = 0, pf_revents = 4\<rparr>]"
  obtain v qs io' where e: "poll_exit (\<lambda>d t io. (EOK, 5, io)) (\<lambda>_. Some 0) ?us 0 sample_io = (v, qs, io')"
    by (metis prod_cases3)
  then have v: "v = 1" by (auto simp: poll_exit_def Let_def)
  have "map pf_revents qs = map pf_revents ?us"
    using poll_reports_requested_events [OF e] v by (simp add: errno_val.simps)
  with e v show ?thesis by (intro exI [of _ v] exI [of _ qs] exI [of _ io']) simp
qed

end
