(* ===== verification/Clock.thy ===== *)
theory Clock
  imports Prelude
begin

text \<open>
  Time keeping: the conversions of \<^verbatim>\<open>src/kernel/libs/time/kernel_time.c\<close> and the system clock
  of \<^verbatim>\<open>src/kernel/clock.c\<close>. Arithmetic is at the width the C code has it: the products of two
  \<open>uint32_t\<close> wrap at 32 bits before they are widened. A division by zero is a fault (\<open>None\<close>).

  The clock driver is a parameter: \<open>ioctl\<close> gives the code its \<open>ioctrl_fn\<close> returns for a command.
\<close>

section \<open>kernel\_time.c\<close>

record time_util =
  base_counter :: u32
  min_counter :: u32
  max_counter :: u32
  ticks_int :: u32
  ticks_fract :: u32
  elapsed_counter :: u64

definition cdiv :: "'a::len word \<Rightarrow> 'a word \<Rightarrow> 'a word option" where
  "cdiv a b = (if b = 0 then None else Some (a div b))"

definition kernel_time_init :: "u32 \<Rightarrow> u32 \<Rightarrow> u32 \<Rightarrow> time_util option \<Rightarrow> status \<times> time_util option" where
  "kernel_time_init base_val min_val max_val tu =
     (case tu of None \<Rightarrow> (EINVAL, tu) | Some t \<Rightarrow>
      if base_val = 0 \<or> min_val = 0 \<or> max_val = 0 then (EINVAL, tu)
      else (EOK, Some \<lparr>base_counter = base_val, min_counter = min_val, max_counter = max_val,
              ticks_int = base_val div 1000, ticks_fract = base_val mod 1000, elapsed_counter = 0\<rparr>))"

definition kernel_time_validate_range :: "u32 \<Rightarrow> time_util option \<Rightarrow> status" where
  "kernel_time_validate_range value tu =
     (case tu of None \<Rightarrow> EINVAL
      | Some t \<Rightarrow> if value < min_counter t \<or> value > max_counter t then EINVAL else EOK)"

definition kernel_time_adjust_range :: "u32 \<Rightarrow> time_util option \<Rightarrow> u32" where
  "kernel_time_adjust_range value tu =
     (case tu of None \<Rightarrow> value
      | Some t \<Rightarrow> if value < min_counter t then min_counter t
                  else if value > max_counter t then max_counter t else value)"

definition kernel_time_update_elapsed_counter :: "u32 \<Rightarrow> time_util \<Rightarrow> time_util" where
  "kernel_time_update_elapsed_counter value t = t\<lparr>elapsed_counter := elapsed_counter t + ucast value\<rparr>"

definition kernel_time_get_elapsed_counter :: "time_util option \<Rightarrow> u64" where
  "kernel_time_get_elapsed_counter tu = (case tu of None \<Rightarrow> 0 | Some t \<Rightarrow> elapsed_counter t)"

definition kernel_time_get_msecs :: "u32 \<Rightarrow> time_util \<Rightarrow> u32 option" where
  "kernel_time_get_msecs cntrticks t =
     (let c = kernel_time_adjust_range cntrticks (Some t) in
      do { r \<leftarrow> cdiv c (ticks_int t);
           Some (if c mod ticks_int t \<ge> ticks_int t div 2 then r + 1 else r) })"

definition kernel_time_get_elapsed_msecs :: "time_util option \<Rightarrow> u64 option" where
  "kernel_time_get_elapsed_msecs tu =
     (case tu of None \<Rightarrow> Some 0
      | Some t \<Rightarrow>
         (let b = ucast (base_counter t) :: u64 in
          do { q \<leftarrow> cdiv (elapsed_counter t) b;
               f \<leftarrow> cdiv (1000 * (elapsed_counter t mod b)) b;
               Some (q * 1000 + f) }))"

definition kernel_time_get_value :: "u32 \<Rightarrow> time_util option \<Rightarrow> u32" where
  "kernel_time_get_value msecs tu =
     (case tu of None \<Rightarrow> 0
      | Some t \<Rightarrow>
         if msecs = 0 then 0
         else
          (let retval = ucast (msecs * ticks_int t) :: u64;
               fract = ucast (msecs * ticks_fract t) :: u64;
               fract1 = (fract + 500) div 1000
           in kernel_time_adjust_range (ucast (retval + fract1)) tu))"

definition kernel_time_get_minmax_msecs :: "time_util option \<Rightarrow> (status \<times> u32 \<times> u32) option" where
  "kernel_time_get_minmax_msecs tu =
     (case tu of None \<Rightarrow> Some (EINVAL, 0, 0)
      | Some t \<Rightarrow>
         do { a \<leftarrow> cdiv (1000 * ucast (min_counter t)) (ucast (base_counter t) :: u64);
              b \<leftarrow> cdiv (1000 * ucast (max_counter t)) (ucast (base_counter t) :: u64);
              Some (EOK, ucast a, ucast b) })"

definition kernel_time_adjust_msecs :: "u32 \<Rightarrow> time_util option \<Rightarrow> u32 option" where
  "kernel_time_adjust_msecs msecs tu =
     do { (r, lo, hi) \<leftarrow> kernel_time_get_minmax_msecs tu;
          Some (if r = EOK then (if msecs < lo then lo else if msecs > hi then hi else msecs) else msecs) }"

section \<open>clock.c\<close>

text \<open>The build configures \<open>DEFAULT_CLOCK_RES\<close> (128 for the PC target).\<close>

definition DEFAULT_CLOCK_RES :: u32 where "DEFAULT_CLOCK_RES = 128"

definition CLK_INST_SCHEDULER :: nat where "CLK_INST_SCHEDULER = 0"
definition CLK_INST_ALARMS :: nat where "CLK_INST_ALARMS = 1"
definition CLK_INST_TIMERS :: nat where "CLK_INST_TIMERS = 2"
definition CLK_INST_MAX :: nat where "CLK_INST_MAX = 3"

lemmas clk_consts = CLK_INST_SCHEDULER_def CLK_INST_ALARMS_def CLK_INST_TIMERS_def CLK_INST_MAX_def

text \<open>The callbacks the kernel registers.\<close>

datatype clock_cb = AlarmCb | TimerCb

datatype clk_cmd = CLK_SET_CB | CLK_GET_PARAMS | CLK_SET_MODE u32 | CLK_SET_PERIOD u32

record clock_st =
  boot_ticks :: u64
  ck_period :: u32
  ck_mode :: u32
  callbacks :: "clock_cb option list"
  inst_period :: "u32 list"
  ck_dev :: bool
  sys_ticks :: time_util

text \<open>\<open>dev\<close>: whether \<open>device_lookup\<close> finds the clock; \<open>params\<close>: what \<open>CLK_GET_PARAMS\<close> stores.\<close>

definition clock_init :: "bool \<Rightarrow> (clk_cmd \<Rightarrow> status) \<Rightarrow> u32 \<times> u32 \<times> u32 \<Rightarrow> clock_st \<Rightarrow> bool \<times> clock_st" where
  "clock_init dev ioctl params ck =
     (let ck1 = ck\<lparr>callbacks := replicate CLK_INST_MAX None, inst_period := replicate CLK_INST_MAX (- 1),
                   ck_dev := dev\<rparr> in
      if \<not> dev then (False, ck1)
      else if ioctl CLK_SET_CB \<noteq> EOK then (False, ck1)
      else if ioctl CLK_GET_PARAMS \<noteq> EOK then (False, ck1)
      else
       (case kernel_time_init (fst params) (fst (snd params)) (snd (snd params)) (Some (sys_ticks ck1)) of (r, tu) \<Rightarrow>
        if r \<noteq> EOK then (False, ck1)
        else
         (let ck2 = ck1\<lparr>sys_ticks := the tu\<rparr> in
          if ioctl (CLK_SET_MODE (ck_mode ck2)) \<noteq> EOK then (False, ck2)
          else
           (let comp0 = 1000 div DEFAULT_CLOCK_RES;
                comp = (if 1000 mod DEFAULT_CLOCK_RES \<ge> DEFAULT_CLOCK_RES div 2 then comp0 + 1 else comp0);
                ck3 = ck2\<lparr>ck_period := kernel_time_get_value comp (Some (sys_ticks ck2))\<rparr>
            in (ioctl (CLK_SET_PERIOD (ck_period ck3)) = EOK, ck3)))))"

definition clock_add_cb :: "clock_cb option \<Rightarrow> nat \<Rightarrow> clock_st \<Rightarrow> bool \<times> clock_st" where
  "clock_add_cb cb i ck =
     (if i < CLK_INST_MAX \<and> callbacks ck ! i = None then (True, ck\<lparr>callbacks := (callbacks ck)[i := cb]\<rparr>)
      else (False, ck))"

definition clock_del_cb :: "clock_cb option \<Rightarrow> nat \<Rightarrow> clock_st \<Rightarrow> bool \<times> clock_st" where
  "clock_del_cb cb i ck =
     (if i < CLK_INST_MAX \<and> callbacks ck ! i = cb then (True, ck\<lparr>callbacks := (callbacks ck)[i := None]\<rparr>)
      else (False, ck))"

definition clock_set_mode :: "(clk_cmd \<Rightarrow> status) \<Rightarrow> u32 \<Rightarrow> clock_st \<Rightarrow> bool \<times> clock_st" where
  "clock_set_mode ioctl newmode ck =
     (if ck_mode ck = newmode then (True, ck)
      else if ck_dev ck then
        (if ioctl (CLK_SET_MODE newmode) \<noteq> EOK then (False, ck)
         else (let ck1 = ck\<lparr>ck_mode := newmode\<rparr> in (ioctl (CLK_SET_PERIOD (ck_period ck1)) = EOK, ck1)))
      else (False, ck))"

definition clock_set_periodic :: "(clk_cmd \<Rightarrow> status) \<Rightarrow> clock_st \<Rightarrow> bool \<times> clock_st" where
  "clock_set_periodic ioctl ck = clock_set_mode ioctl 0 ck"

definition clock_set_oneshot :: "(clk_cmd \<Rightarrow> status) \<Rightarrow> clock_st \<Rightarrow> bool \<times> clock_st" where
  "clock_set_oneshot ioctl ck = clock_set_mode ioctl 1 ck"

definition get_lowest :: "clock_st \<Rightarrow> u32" where
  "get_lowest ck =
     fold (\<lambda>i retval. if inst_period ck ! i < retval then inst_period ck ! i else retval)
       [1..<CLK_INST_MAX] (inst_period ck ! 0)"

definition clock_set_period :: "(clk_cmd \<Rightarrow> status) \<Rightarrow> u32 \<Rightarrow> nat \<Rightarrow> clock_st \<Rightarrow> (bool \<times> clock_st) option" where
  "clock_set_period ioctl ms i ck =
     (if \<not> i < CLK_INST_MAX then Some (False, ck)
      else do {
        ms1 \<leftarrow> kernel_time_adjust_msecs ms (Some (sys_ticks ck));
        let ck1 = ck\<lparr>inst_period := (inst_period ck)[i := kernel_time_get_value ms1 (Some (sys_ticks ck))]\<rparr>;
        let temp = get_lowest ck1;
        if temp = ck_period ck1 then Some (True, ck1)
        else if ck_dev ck1 \<and> ioctl (CLK_SET_PERIOD temp) = EOK then Some (True, ck1\<lparr>ck_period := temp\<rparr>)
        else Some (False, ck1) })"

definition clock_get_milliseconds :: "clock_st \<Rightarrow> u64 option" where
  "clock_get_milliseconds ck = kernel_time_get_elapsed_msecs (Some (sys_ticks ck))"

definition clock_convert_msecs_to_ticks :: "u32 \<Rightarrow> u64" where
  "clock_convert_msecs_to_ticks msecs = ucast msecs * ucast DEFAULT_CLOCK_RES div 1000"

text \<open>The 64 bit milliseconds are cut to the \<open>unsigned\<close> parameter of the conversion.\<close>

definition clock_get_ticks :: "clock_st \<Rightarrow> u64 option" where
  "clock_get_ticks ck =
     do { ms \<leftarrow> clock_get_milliseconds ck; Some (clock_convert_msecs_to_ticks (ucast ms)) }"

definition clock_get_seconds :: "clock_st \<Rightarrow> u64 option" where
  "clock_get_seconds ck = do { ms \<leftarrow> clock_get_milliseconds ck; Some (ms div 1000) }"

definition clock_set_boot_seconds :: "u32 \<Rightarrow> clock_st \<Rightarrow> clock_st" where
  "clock_set_boot_seconds seconds ck = ck\<lparr>boot_ticks := ucast seconds * ucast DEFAULT_CLOCK_RES\<rparr>"

definition clock_get_boot_seconds :: "clock_st \<Rightarrow> u32" where
  "clock_get_boot_seconds ck = ucast (boot_ticks ck div ucast DEFAULT_CLOCK_RES)"

section \<open>The conversions are exact\<close>

lemma elapsed_split: "0 < (b :: nat) \<Longrightarrow> e div b * 1000 + 1000 * (e mod b) div b = 1000 * e div b"
proof -
  assume "0 < b"
  define q r where "q = e div b" and "r = e mod b"
  have "e = q * b + r" by (simp add: q_def r_def)
  then have "1000 * e = 1000 * r + (q * 1000) * b" by (simp add: algebra_simps)
  then show ?thesis using \<open>0 < b\<close> by (simp add: q_def r_def add.commute)
qed

lemma elapsed_msecs_exact:
  assumes b: "base_counter t \<noteq> 0" and f: "1000 * unat (elapsed_counter t) div unat (base_counter t) < 2 ^ 64"
  shows "\<exists>r. kernel_time_get_elapsed_msecs (Some t) = Some r \<and>
    unat r = 1000 * unat (elapsed_counter t) div unat (base_counter t)"
proof -
  let ?b = "ucast (base_counter t) :: u64" and ?e = "elapsed_counter t"
  have ub: "unat ?b = unat (base_counter t)" by (simp add: unat_ucast_up)
  have b0: "?b \<noteq> 0" using b ub by (metis unat_eq_zero)
  have pos: "0 < unat ?b" using b0 by (simp add: unat_gt_0)
  have b32: "unat ?b < 2 ^ 32" using ub unat_bound [of "base_counter t"] by simp
  have m: "unat (?e mod ?b) = unat ?e mod unat ?b" by (simp add: unat_mod)
  have "1000 * (unat ?e mod unat ?b) < 1000 * 2 ^ 32"
    using b32 pos by (meson less_trans mod_less_divisor mult_strict_left_mono zero_less_numeral)
  then have p: "unat (1000 * (?e mod ?b)) = 1000 * (unat ?e mod unat ?b)"
    using m by (simp add: unat_word_ariths)
  have d: "unat (1000 * (?e mod ?b) div ?b) = 1000 * (unat ?e mod unat ?b) div unat ?b"
    by (simp add: unat_div p)
  have q: "unat (?e div ?b) = unat ?e div unat ?b" by (simp add: unat_div)
  have s: "unat ?e div unat ?b * 1000 + 1000 * (unat ?e mod unat ?b) div unat ?b = 1000 * unat ?e div unat ?b"
    using pos by (rule elapsed_split)
  have lt: "unat ?e div unat ?b * 1000 < 2 ^ 64" using s f ub by simp
  have "unat (?e div ?b * 1000) = unat ?e div unat ?b * 1000"
    using lt q by (simp add: unat_word_ariths)
  then have "unat (?e div ?b * 1000 + 1000 * (?e mod ?b) div ?b) = 1000 * unat ?e div unat ?b"
    using d s f ub by (simp add: unat_word_ariths)
  with b0 ub show ?thesis
    by (simp add: kernel_time_get_elapsed_msecs_def Let_def cdiv_def)
qed

lemma adjust_range_bounds:
  "min_counter t \<le> max_counter t \<Longrightarrow>
   min_counter t \<le> kernel_time_adjust_range v (Some t) \<and> kernel_time_adjust_range v (Some t) \<le> max_counter t"
  by (auto simp: kernel_time_adjust_range_def)

lemma get_value_split: "m * (b div 1000) + (m * (b mod 1000) + 500) div 1000 = (m * b + 500) div (1000::nat)"
proof -
  define q r where "q = b div 1000" and "r = b mod 1000"
  have "b = 1000 * q + r" by (simp add: q_def r_def)
  then have "m * b + 500 = (m * r + 500) + (m * q) * 1000" by (simp add: algebra_simps)
  then show ?thesis by (simp add: q_def r_def add.commute)
qed

text \<open>
  Milliseconds to counter ticks: the nearest tick count, as long as the two 32 bit products of the
  code do not wrap.
\<close>

lemma get_value_exact:
  assumes t: "ticks_int t = base_counter t div 1000" "ticks_fract t = base_counter t mod 1000"
    and m: "msecs \<noteq> 0"
    and w: "(unat msecs * unat (base_counter t) + 500) div 1000 < 2 ^ 32" "unat msecs * (unat (base_counter t) mod 1000) < 2 ^ 32"
  shows "kernel_time_get_value msecs (Some t) =
    kernel_time_adjust_range (of_nat ((unat msecs * unat (base_counter t) + 500) div 1000)) (Some t)"
proof -
  let ?m = "unat msecs" and ?b = "unat (base_counter t)"
  note sp = get_value_split [of ?m ?b]
  have i: "unat (ticks_int t) = ?b div 1000" "unat (ticks_fract t) = ?b mod 1000"
    by (simp_all add: t unat_div unat_mod)
  have p1: "unat (msecs * ticks_int t) = ?m * (?b div 1000)"
    using w(1) sp i by (simp add: unat_word_ariths)
  have p2: "unat (msecs * ticks_fract t) = ?m * (?b mod 1000)"
    using w(2) i by (simp add: unat_word_ariths)
  have f: "unat ((ucast (msecs * ticks_fract t) + 500 :: u64) div 1000) = (?m * (?b mod 1000) + 500) div 1000"
    using w(2) p2 by (simp add: unat_div unat_word_ariths unat_ucast_up)
  have "unat (ucast (msecs * ticks_int t) + (ucast (msecs * ticks_fract t) + 500) div 1000 :: u64) =
      (?m * ?b + 500) div 1000"
    using w(1) sp p1 f by (subst unat_add_small) (simp_all add: unat_ucast_up)
  then have "ucast (ucast (msecs * ticks_int t) + (ucast (msecs * ticks_fract t) + 500) div 1000 :: u64) =
      (of_nat ((?m * ?b + 500) div 1000) :: u32)"
    by (metis of_nat_unat)
  then show ?thesis using m by (simp add: kernel_time_get_value_def Let_def)
qed

section \<open>The period of the clock is the shortest one requested\<close>

lemma get_lowest_3: "get_lowest ck = min (inst_period ck ! 0) (min (inst_period ck ! 1) (inst_period ck ! 2))"
proof -
  have "[1..<CLK_INST_MAX] = [1, 2]" by (simp add: CLK_INST_MAX_def upt_rec)
  then show ?thesis by (auto simp: get_lowest_def min_def)
qed

lemma get_lowest_le:
  assumes "i < CLK_INST_MAX"
  shows "get_lowest ck \<le> inst_period ck ! i"
proof -
  have "i = 0 \<or> i = 1 \<or> i = 2" using assms by (auto simp: CLK_INST_MAX_def)
  then show ?thesis by (auto simp: get_lowest_3 min_le_iff_disj)
qed

lemma clock_set_period_spec:
  assumes b: "base_counter (sys_ticks ck) \<noteq> 0" and i: "i < CLK_INST_MAX"
  shows "\<exists>ok ck' v. clock_set_period ioctl ms i ck = Some (ok, ck') \<and>
    inst_period ck' = (inst_period ck)[i := v] \<and> sys_ticks ck' = sys_ticks ck \<and>
    callbacks ck' = callbacks ck \<and> (ok \<longrightarrow> ck_period ck' = get_lowest ck')"
proof -
  have "ucast (base_counter (sys_ticks ck)) \<noteq> (0 :: u64)"
    using b by (simp add: ucast_up_0_iff)
  then obtain ms1 where "kernel_time_adjust_msecs ms (Some (sys_ticks ck)) = Some ms1"
    by (simp add: kernel_time_adjust_msecs_def kernel_time_get_minmax_msecs_def cdiv_def)
  moreover define v where "v = kernel_time_get_value ms1 (Some (sys_ticks ck))"
  moreover define ck1 where "ck1 = ck\<lparr>inst_period := (inst_period ck)[i := v]\<rparr>"
  moreover have "get_lowest (ck1\<lparr>ck_period := p\<rparr>) = get_lowest ck1" for p by (simp add: get_lowest_3)
  moreover have "inst_period ck1 = (inst_period ck)[i := v]" "sys_ticks ck1 = sys_ticks ck"
    "callbacks ck1 = callbacks ck" by (simp_all add: ck1_def)
  ultimately show ?thesis
    using i by (cases "get_lowest ck1 = ck_period ck1";
        cases "ck_dev ck1 \<and> ioctl (CLK_SET_PERIOD (get_lowest ck1)) = EOK")
      (simp_all add: clock_set_period_def Let_def flip: ck1_def, blast+)
qed

section \<open>Properties\<close>

definition sample_ticks :: time_util where
  "sample_ticks = \<lparr>base_counter = 1193182, min_counter = 1, max_counter = 65535,
     ticks_int = 1193182 div 1000, ticks_fract = 1193182 mod 1000, elapsed_counter = 11931820\<rparr>"

definition sample_clock :: clock_st where
  "sample_clock = \<lparr>boot_ticks = 0, ck_period = 9546, ck_mode = 0, callbacks = [None, None, None],
     inst_period = [- 1, - 1, - 1], ck_dev = True, sys_ticks = sample_ticks\<rparr>"

text \<open>The elapsed time in milliseconds. Splitting the division into seconds and a remainder avoids the
  64 bit overflow of the product and loses nothing: the result is the elapsed counter times 1000
  divided by the counter frequency, rounded down.\<close>

theorem elapsed_msecs_correct:
  assumes "base_counter t \<noteq> 0" "1000 * unat (elapsed_counter t) div unat (base_counter t) < 2 ^ 64"
  shows "\<exists>r. kernel_time_get_elapsed_msecs (Some t) = Some r \<and>
    unat r = 1000 * unat (elapsed_counter t) div unat (base_counter t)"
  using assms by (rule elapsed_msecs_exact)

theorem elapsed_msecs_correct_witness:
  "\<exists>r. kernel_time_get_elapsed_msecs (Some sample_ticks) = Some r \<and> unat r = 10000"
  using elapsed_msecs_correct [of sample_ticks] by (simp add: sample_ticks_def)

text \<open>Milliseconds to counter ticks. The value programmed for a delay is the nearest whole number of
  ticks, saturated to the range of the device, as long as the two 32 bit products do not wrap.\<close>

theorem kernel_time_get_value_nearest:
  assumes "ticks_int t = base_counter t div 1000" "ticks_fract t = base_counter t mod 1000" "msecs \<noteq> 0"
    "(unat msecs * unat (base_counter t) + 500) div 1000 < 2 ^ 32" "unat msecs * (unat (base_counter t) mod 1000) < 2 ^ 32"
    "min_counter t \<le> max_counter t"
  shows "kernel_time_get_value msecs (Some t) =
      kernel_time_adjust_range (of_nat ((unat msecs * unat (base_counter t) + 500) div 1000)) (Some t) \<and>
    min_counter t \<le> kernel_time_get_value msecs (Some t) \<and> kernel_time_get_value msecs (Some t) \<le> max_counter t"
  using get_value_exact [OF assms(1-5)] adjust_range_bounds [OF assms(6)] by simp

theorem kernel_time_get_value_nearest_witness:
  "kernel_time_get_value 8 (Some sample_ticks) = 9545"
  using kernel_time_get_value_nearest [of sample_ticks 8]
  by (simp add: sample_ticks_def kernel_time_adjust_range_def)

text \<open>The clock runs at the shortest period any of its clients asked for. Setting the period of one
  client changes the request of that client only, and when the call succeeds the programmed period is
  the least of the three requests.\<close>

theorem clock_period_is_least:
  assumes "base_counter (sys_ticks ck) \<noteq> 0" "i < CLK_INST_MAX"
  shows "\<exists>ok ck' v. clock_set_period ioctl ms i ck = Some (ok, ck') \<and> inst_period ck' = (inst_period ck)[i := v] \<and>
    (ok \<longrightarrow> ck_period ck' = get_lowest ck' \<and> (\<forall>j < CLK_INST_MAX. ck_period ck' \<le> inst_period ck' ! j))"
  using clock_set_period_spec [OF assms, of ioctl ms] get_lowest_le by metis

theorem clock_period_is_least_witness:
  "\<exists>ok ck' v. clock_set_period (\<lambda>_. EOK) 10 CLK_INST_ALARMS sample_clock = Some (ok, ck') \<and>
    inst_period ck' = [- 1, v, - 1]"
  using clock_period_is_least [of sample_clock CLK_INST_ALARMS "\<lambda>_. EOK" 10]
  by (auto simp: sample_clock_def sample_ticks_def clk_consts)

end
