(* ===== verification/Kernel.thy ===== *)
theory Kernel
  imports SchedulerRun Mutex Events Barriers IoPoll Clock
begin

text \<open>
  The operations that span components: \<open>update_schedule\<close>, \<open>schedule_thread\<close> and
  \<open>scheduler_remove_thread\<close> of \<^verbatim>\<open>src/kernel/scheduler.c\<close>, the thread and mutex calls of
  \<^verbatim>\<open>src/kernel/kernel.c\<close>, and the blocking calls of the events, barriers, I/O and mutex code, which
  end in \<open>schedule_thread\<close>.

  A call that switches context ends, for the model, in the state in which the next thread runs: the
  saving and loading of processor contexts by the platform code is not modelled. \<open>kernel_panic\<close>
  is the outcome \<open>Panic\<close>. \<open>ioctl\<close> is the clock driver.
\<close>

unbundle bit_operations_syntax

record kernel =
  k_sched :: sched
  k_mutexes :: mutexes
  k_events :: events
  k_barriers :: barriers
  k_io :: iopoll
  k_clock :: clock_st

type_synonym ioctl = "clk_cmd \<Rightarrow> status"

datatype 'a outcome = Done 'a | Panic

section \<open>Scheduling\<close>

definition update_schedule :: "ioctl \<Rightarrow> kernel \<Rightarrow> kernel option" where
  "update_schedule ioctl k =
     do { (ev, s1) \<leftarrow> resume_on_events (k_events k, k_sched k);
          (bs, s2) \<leftarrow> resume_on_barriers (k_barriers k, s1);
          (io1, s3) \<leftarrow> resume_on_io_wait (k_io k, s2);
          (io2, s4) \<leftarrow> resume_on_poll (io1, s3);
          s5 \<leftarrow> (if sq_count Wait s4 \<noteq> 0
                then do { now \<leftarrow> clock_get_milliseconds (k_clock k); schedule_waiting now s4 } else Some s4);
          s6 \<leftarrow> (if sq_count Delay s5 \<noteq> 0
                then do { now \<leftarrow> clock_get_milliseconds (k_clock k); schedule_delayed now s5 } else Some s5);
          let new_delay = (if new_delay_dq s6 < new_delay_wq s6 then new_delay_dq s6 else new_delay_wq s6);
          (_, ck) \<leftarrow> clock_set_period ioctl new_delay CLK_INST_SCHEDULER (k_clock k);
          Some (k\<lparr>k_sched := s6, k_events := ev, k_barriers := bs, k_io := io2, k_clock := ck\<rparr>) }"

text \<open>The loop over the ready queues.\<close>

fun pick_runner :: "nat list \<Rightarrow> sched \<Rightarrow> sched option" where
  "pick_runner [] s = Some s"
| "pick_runner (i # is) s =
     (if sq_count (Ready i) s \<noteq> 0
      then do { (ok, s1) \<leftarrow> new_runner (Ready i) s; if ok then Some s1 else pick_runner is s1 }
      else pick_runner is s)"

definition schedule_thread :: "ioctl \<Rightarrow> kernel \<Rightarrow> kernel option" where
  "schedule_thread ioctl k =
     do { k1 \<leftarrow> update_schedule ioctl k;
          s1 \<leftarrow> pick_runner [0..<THREAD_PRIORITIES] (k_sched k1);
          s2 \<leftarrow> (if should_do_house_keeping s1 then house_keeping s1 else Some s1);
          Some (k1\<lparr>k_sched := s2\<rparr>) }"

section \<open>Removing a thread\<close>

definition scheduler_remove_thread :: "u8 \<Rightarrow> kernel \<Rightarrow> (bool \<times> kernel) option" where
  "scheduler_remove_thread tid k =
     (let s = k_sched k in
      case get_thread tid s of
        None \<Rightarrow> Some (False, k)
      | Some p \<Rightarrow>
         if tid = THREAD_TID_IDLE then Some (False, k)
         else if tid = THREAD_TID_TMRS then Some (False, k)
         else
          (let flag_it = (\<lambda>k1. k1\<lparr>k_sched := upd_thread p
                 (\<lambda>t. t\<lparr>t_flags := t_flags t OR THREAD_FLAG_TERMINATE\<rparr>) (k_sched k1)\<rparr>);
               clear_it = (\<lambda>k1. k1\<lparr>k_sched := upd_thread p
                 (\<lambda>t. t\<lparr>t_flags := t_flags t AND NOT THREAD_MASK_WAIT\<rparr>) (k_sched k1)\<rparr>);
               bury = (\<lambda>k1. do { (st, s1) \<leftarrow> sq_enq Dead p
                                    (upd_thread p (\<lambda>t. t\<lparr>t_state := THREAD_DEAD\<rparr>) (k_sched k1));
                                 Some (st, k1\<lparr>k_sched := s1\<rparr>) })
           in case t_state (storage s p) of
             THREAD_RUNNING \<Rightarrow> do { (st, k1) \<leftarrow> bury k; Some (st = EOK, k1) }
           | THREAD_WAITING \<Rightarrow>
              (let w = t_flags (storage s p) AND THREAD_MASK_WAIT in
               do { (st, k1) \<leftarrow>
                 (if w = THREAD_FLAG_WAIT_EVENT then
                    (case cancel_wait_for_events tid s (k_events k) of (r, ev) \<Rightarrow>
                       Some (r, k\<lparr>k_events := ev\<rparr>))
                  else if w = THREAD_FLAG_WAIT_BARRIER then
                    do { (r, bs) \<leftarrow> cancel_wait_for_barrier tid s (k_barriers k);
                         Some (r, k\<lparr>k_barriers := bs\<rparr>) }
                  else if w = THREAD_FLAG_WAIT_COMPLETION then
                    do { (r, io) \<leftarrow> cancel_io_waits tid (k_io k); Some (r, k\<lparr>k_io := io\<rparr>) }
                  else if w = THREAD_FLAG_WAIT_TIMEOUT then Some (EOK, k)
                  else if w = THREAD_FLAG_WAIT_MUTEX then
                    do { (r, ms) \<leftarrow> cancel_wait_on_mutex tid s (k_mutexes k);
                         if r \<noteq> EOK then Some (r, k\<lparr>k_mutexes := ms\<rparr>)
                         else bury (k\<lparr>k_mutexes := ms\<rparr>) }
                  else Some (EOK, k));
                    Some (if st \<noteq> EOK then (False, k1) else (True, flag_it (clear_it k1))) })
           | THREAD_READY \<Rightarrow> Some (True, flag_it k)
           | THREAD_DEAD \<Rightarrow> Some (False, k)))"

section \<open>kernel.c: threads\<close>

abbreviation now_of :: "kernel \<Rightarrow> u64 option" where
  "now_of k \<equiv> clock_get_milliseconds (k_clock k)"

definition thread_suspend :: "ioctl \<Rightarrow> kernel \<Rightarrow> kernel outcome option" where
  "thread_suspend ioctl k =
     do { (ok, s) \<leftarrow> scheduler_suspend_thread (k_sched k);
          if \<not> ok then Some Panic else map_option Done (schedule_thread ioctl (k\<lparr>k_sched := s\<rparr>)) }"

definition thread_may_suspend :: "ioctl \<Rightarrow> kernel \<Rightarrow> kernel outcome option" where
  "thread_may_suspend ioctl k =
     do { prev \<leftarrow> running (k_sched k);
          k1 \<leftarrow> update_schedule ioctl k;
          n \<leftarrow> scheduler_ready_threads (of_nat (t_priority (storage (k_sched k1) prev))) (k_sched k1);
          if n = 0 then Some (Done k1) else thread_suspend ioctl k1 }"

definition thread_delay :: "ioctl \<Rightarrow> u32 \<Rightarrow> kernel \<Rightarrow> kernel outcome option" where
  "thread_delay ioctl msecs k =
     (if msecs = 0 then Some (Done k)
      else do { now \<leftarrow> now_of k;
                (ok, s) \<leftarrow> scheduler_delay_thread now (ucast msecs) (k_sched k);
                if \<not> ok then Some Panic else map_option Done (schedule_thread ioctl (k\<lparr>k_sched := s\<rparr>)) })"

definition thread_terminate :: "ioctl \<Rightarrow> kernel \<Rightarrow> kernel outcome option" where
  "thread_terminate ioctl k =
     do { me \<leftarrow> running (k_sched k);
          (ok, k1) \<leftarrow> scheduler_remove_thread (t_tid (storage (k_sched k) me)) k;
          if \<not> ok then Some Panic else map_option Done (schedule_thread ioctl k1) }"

text \<open>\<open>out\<close>: the pointer for the new identifier is not \<open>NULL\<close>; the last component is what is stored there.\<close>

definition thread_create ::
  "string option \<Rightarrow> u8 \<Rightarrow> nat option \<Rightarrow> nat option \<Rightarrow> u32 \<Rightarrow> bool \<Rightarrow> nat option \<Rightarrow> nat \<Rightarrow> kernel \<Rightarrow>
   (bool \<times> u8 option \<times> kernel) outcome option" where
  "thread_create name prio entry_ptr stack stack_size out malloced ctx k =
     (if \<not> out \<or> stack_size = 0 \<or> entry_ptr = None \<or> name = None then Some (Done (False, None, k))
      else do {
        (ntid, s) \<leftarrow> init_thread name prio entry_ptr stack stack_size malloced ctx (k_sched k);
        if ntid = THREAD_TID_INVALID then Some (Done (False, None, k\<lparr>k_sched := s\<rparr>))
        else do {
          (ok, s1) \<leftarrow> scheduler_add_thread ntid s;
          if \<not> ok then Some Panic else Some (Done (True, Some ntid, k\<lparr>k_sched := s1\<rparr>)) } })"

definition thread_kill :: "u8 \<Rightarrow> kernel \<Rightarrow> kernel outcome option" where
  "thread_kill tid k =
     (if tid = scheduler_running_tid (k_sched k) then Some (Done k)
      else do { (ok, k1) \<leftarrow> scheduler_remove_thread tid k; Some (if ok then Done k1 else Panic) })"

definition my_thread_id :: "kernel \<Rightarrow> u8" where
  "my_thread_id k = scheduler_running_tid (k_sched k)"

definition my_thread_name :: "kernel \<Rightarrow> string option" where
  "my_thread_name k =
     map_option (\<lambda>p. t_name (storage (k_sched k) p)) (get_thread (scheduler_running_tid (k_sched k)) (k_sched k))"

definition THREAD_PRIO_REALTIME :: u8 where "THREAD_PRIO_REALTIME = 0"
definition THREAD_PRIO_IDLE :: u8 where "THREAD_PRIO_IDLE = 3"

text \<open>One of the two halves of \<open>kernel_threads_init\<close>: create a reserved thread and schedule it.\<close>

definition boot_thread ::
  "u8 \<Rightarrow> string \<Rightarrow> u8 \<Rightarrow> nat \<Rightarrow> u32 \<Rightarrow> nat option \<Rightarrow> nat \<Rightarrow> sched \<Rightarrow> sched outcome option" where
  "boot_thread expected name prio entry_fn stack_size malloced ctx s =
     do { (tid, s1) \<leftarrow> init_thread (Some name) prio (Some entry_fn) None stack_size malloced ctx s;
          if tid = THREAD_TID_INVALID \<or> tid \<noteq> expected then Some Panic
          else do { (ok, s2) \<leftarrow> scheduler_add_thread tid s1; Some (if ok then Done s2 else Panic) } }"

definition kernel_threads_init ::
  "nat \<Rightarrow> nat \<Rightarrow> nat option \<Rightarrow> nat option \<Rightarrow> nat \<Rightarrow> nat \<Rightarrow> sched \<Rightarrow> sched outcome option" where
  "kernel_threads_init idle_entry timers_entry m1 m2 c1 c2 s =
     do { r \<leftarrow> boot_thread THREAD_TID_IDLE ''Idle'' THREAD_PRIO_IDLE idle_entry 1024 m1 c1 s;
          case r of
            Panic \<Rightarrow> Some Panic
          | Done s1 \<Rightarrow> boot_thread THREAD_TID_TMRS ''Timers'' THREAD_PRIO_REALTIME timers_entry 4096 m2 c2 s1 }"

fun kill_all :: "nat list \<Rightarrow> kernel \<Rightarrow> kernel outcome option" where
  "kill_all [] k = Some (Done k)"
| "kill_all (i # is) k =
     (if get_thread (of_nat i) (k_sched k) = None then kill_all is k
      else do { r \<leftarrow> thread_kill (of_nat i) k;
                case r of Panic \<Rightarrow> Some Panic | Done k1 \<Rightarrow> kill_all is k1 })"

definition kernel_done :: "kernel \<Rightarrow> kernel outcome option" where
  "kernel_done k = kill_all [0..<unat THREAD_TID_INVALID] k"

text \<open>\<open>kernel_run\<close> after the device and interface start hooks: the first thread to run is chosen.\<close>

definition kernel_run :: "ioctl \<Rightarrow> kernel \<Rightarrow> (nat \<times> kernel) option" where
  "kernel_run ioctl k =
     do { k1 \<leftarrow> schedule_thread ioctl k; p \<leftarrow> running (k_sched k1); Some (t_context (storage (k_sched k1) p), k1) }"

section \<open>kernel.c: mutexes\<close>

definition thread_create_mutex :: "string option \<Rightarrow> nat option \<Rightarrow> kernel \<Rightarrow> (nat \<times> kernel) outcome" where
  "thread_create_mutex name malloced k =
     (case init_mutex name malloced (k_mutexes k) of
        (None, ms) \<Rightarrow> Panic
      | (Some h, ms) \<Rightarrow> Done (h, k\<lparr>k_mutexes := ms\<rparr>))"

definition thread_lock_mutex_timed :: "ioctl \<Rightarrow> nat option \<Rightarrow> u32 \<Rightarrow> kernel \<Rightarrow> kernel entry option" where
  "thread_lock_mutex_timed ioctl mtx msecs k =
     (case mtx of
        None \<Rightarrow> Some (Return EINVAL k)
      | Some h \<Rightarrow>
         do { prev \<leftarrow> running (k_sched k);
              let is_locked = mutex_is_locked (Some h) (k_mutexes k);
              (ok, ms) \<leftarrow> lock_mutex (t_tid (storage (k_sched k) prev)) (Some h) (k_sched k) (k_mutexes k);
              if ok \<and> is_locked
              then do { now \<leftarrow> now_of k;
                        (_, s) \<leftarrow> scheduler_wait_thread now THREAD_FLAG_WAIT_MUTEX (ucast msecs) (k_sched k);
                        k1 \<leftarrow> schedule_thread ioctl (k\<lparr>k_sched := s, k_mutexes := ms\<rparr>);
                        Some (Blocked k1) }
              else Some (Return EBUSY (k\<lparr>k_mutexes := ms\<rparr>)) })"

definition thread_lock_mutex :: "ioctl \<Rightarrow> nat option \<Rightarrow> kernel \<Rightarrow> kernel entry option" where
  "thread_lock_mutex ioctl mtx k = thread_lock_mutex_timed ioctl mtx 0 k"

text \<open>The code the call returns when the blocked thread runs again.\<close>

definition thread_lock_mutex_code :: "nat \<Rightarrow> u32 \<Rightarrow> kernel \<Rightarrow> status" where
  "thread_lock_mutex_code h msecs k =
     (if msecs \<noteq> 0 then (if mutex_is_locked_by_me (Some h) (k_sched k) (k_mutexes k) then EOK else ETIMEDOUT)
      else EOK)"

definition thread_unlock_mutex :: "nat option \<Rightarrow> kernel \<Rightarrow> (status \<times> kernel) option" where
  "thread_unlock_mutex mtx k =
     (case mtx of
        None \<Rightarrow> Some (EINVAL, k)
      | Some h \<Rightarrow>
         do { (ok, ms) \<leftarrow> unlock_mutex (my_thread_id k) (Some h) (k_sched k) (k_mutexes k);
              if ok
              then (let ptid = mtx_locker (mtx_mem ms h) in
                    Some (EOK, k\<lparr>k_mutexes := ms,
                       k_sched := (if get_thread ptid (k_sched k) \<noteq> None
                                   then snd (scheduler_resume_thread THREAD_FLAG_WAIT_MUTEX ptid (k_sched k))
                                   else k_sched k)\<rparr>))
              else Some (EPERM, k\<lparr>k_mutexes := ms\<rparr>) })"

definition thread_mutex_is_locked :: "nat option \<Rightarrow> kernel \<Rightarrow> bool" where
  "thread_mutex_is_locked mtx k = mutex_is_locked mtx (k_mutexes k)"

definition thread_destroy_mutex :: "nat option \<Rightarrow> kernel \<Rightarrow> status \<times> kernel" where
  "thread_destroy_mutex mtx k =
     (case mtx of
        None \<Rightarrow> (EINVAL, k)
      | Some h \<Rightarrow>
         if thread_mutex_is_locked (Some h) k then (EBUSY, k)
         else (case done_mutex (Some h) (k_mutexes k) of (ok, ms) \<Rightarrow>
                 (if ok then EOK else EINVAL, k\<lparr>k_mutexes := ms\<rparr>)))"

section \<open>The blocking calls of the other components\<close>

text \<open>What the calls have in common after their entry part: a caller that must wait schedules.\<close>

definition then_schedule :: "ioctl \<Rightarrow> ('a \<Rightarrow> kernel) \<Rightarrow> 'a entry option \<Rightarrow> kernel entry option" where
  "then_schedule ioctl put r =
     do { e \<leftarrow> r;
          case e of
            Return c x \<Rightarrow> Some (Return c (put x))
          | Blocked x \<Rightarrow> do { k \<leftarrow> schedule_thread ioctl (put x); Some (Blocked k) } }"

definition wait_for_events_timed :: "ioctl \<Rightarrow> nat option \<Rightarrow> u32 \<Rightarrow> kernel \<Rightarrow> kernel entry option" where
  "wait_for_events_timed ioctl evqueue msecs k =
     do { now \<leftarrow> now_of k;
          then_schedule ioctl (\<lambda>(ev, s). k\<lparr>k_events := ev, k_sched := s\<rparr>)
            (wait_for_events_enter now evqueue msecs (k_events k, k_sched k)) }"

definition wait_for_events :: "ioctl \<Rightarrow> nat option \<Rightarrow> kernel \<Rightarrow> kernel entry option" where
  "wait_for_events ioctl evqueue k = wait_for_events_timed ioctl evqueue 0 k"

definition wait_for_barrier :: "ioctl \<Rightarrow> nat option \<Rightarrow> kernel \<Rightarrow> kernel entry option" where
  "wait_for_barrier ioctl barrier k =
     do { now \<leftarrow> now_of k;
          then_schedule ioctl (\<lambda>(bs, s). k\<lparr>k_barriers := bs, k_sched := s\<rparr>)
            (wait_for_barrier_enter now barrier (k_barriers k, k_sched k)) }"

definition thread_io_wait_timed :: "ioctl \<Rightarrow> nat option \<Rightarrow> u32 \<Rightarrow> nat option \<Rightarrow> kernel \<Rightarrow> kernel entry option" where
  "thread_io_wait_timed ioctl wq msecs chunk k =
     do { now \<leftarrow> now_of k;
          then_schedule ioctl (\<lambda>(io, s). k\<lparr>k_io := io, k_sched := s\<rparr>)
            (thread_io_wait_enter now wq IO_WAIT_DEFAULT msecs chunk (k_io k, k_sched k)) }"

definition thread_io_wait :: "ioctl \<Rightarrow> nat option \<Rightarrow> nat option \<Rightarrow> kernel \<Rightarrow> kernel entry option" where
  "thread_io_wait ioctl wq chunk k = thread_io_wait_timed ioctl wq 0 chunk k"

end
