(* ===== verification/KernelInv.thy ===== *)
theory KernelInv
  imports Kernel
begin

text \<open>
  The kernel invariant and what a scheduling pass does: \<open>update_schedule\<close> and \<open>schedule_thread\<close>
  return, keep the invariant, and the thread that runs next is the first one of the highest
  priority that is not marked for termination.
\<close>

unbundle bit_operations_syntax

definition clock_ok :: "clock_st \<Rightarrow> bool" where
  "clock_ok ck \<longleftrightarrow> base_counter (sys_ticks ck) \<noteq> 0"

definition kinv :: "kernel \<Rightarrow> (sqid \<Rightarrow> nat list) \<Rightarrow> (nat \<Rightarrow> nat list) \<Rightarrow> bool" where
  "kinv k f g \<longleftrightarrow> sched_inv (k_sched k) f \<and> table_ok (storage (k_sched k)) \<and> events_ok (k_events k) g \<and>
     barriers_ok (k_barriers k) \<and> iopoll_ok (k_io k) \<and> clock_ok (k_clock k)"

text \<open>What every scheduling step keeps of a thread: its identity, its priority, whether it is doomed.\<close>

definition same_ids :: "(nat \<Rightarrow> thread) \<Rightarrow> (nat \<Rightarrow> thread) \<Rightarrow> bool" where
  "same_ids st st' \<longleftrightarrow> (\<forall>p. t_tid (st' p) = t_tid (st p) \<and> t_priority (st' p) = t_priority (st p) \<and>
     (doomed st' p \<longleftrightarrow> doomed st p))"

text \<open>
  The relation between the scheduler before and after a pass over the waiting threads: the running
  thread and the threads already ready are not touched, no ready thread leaves its queue and the threads that become ready are put at the end.
\<close>

definition upd_rel :: "sched \<Rightarrow> (sqid \<Rightarrow> nat list) \<Rightarrow> sched \<Rightarrow> (sqid \<Rightarrow> nat list) \<Rightarrow> bool" where
  "upd_rel s f s' f' \<longleftrightarrow> running s' = running s \<and> same_ids (storage s) (storage s') \<and>
     (\<forall>p. t_state (storage s p) = THREAD_RUNNING \<longrightarrow> storage s' p = storage s p) \<and>
     (\<forall>n p. p \<in> set (f (Ready n)) \<longrightarrow> p \<in> set (f' (Ready n)) \<and> storage s' p = storage s p) \<and>
     (\<forall>n. \<exists>ys. f' (Ready n) = f (Ready n) @ ys)"

lemma same_ids_refl: "same_ids st st" by (simp add: same_ids_def)

lemma same_ids_trans: "same_ids a b \<Longrightarrow> same_ids b c \<Longrightarrow> same_ids a c"
  by (simp add: same_ids_def)

lemma same_ids_table: "same_ids st st' \<Longrightarrow> table_ok st \<Longrightarrow> table_ok st'"
  by (simp add: same_ids_def table_ok_def)

lemma upd_rel_refl: "upd_rel s f s f" by (simp add: upd_rel_def same_ids_refl)

lemma upd_rel_readyD:
  assumes "upd_rel s f s' f'" "p \<in> set (f (Ready n))"
  shows "p \<in> set (f' (Ready n)) \<and> storage s' p = storage s p"
  using assms unfolding upd_rel_def by blast

lemma upd_rel_trans: "upd_rel s f s1 f1 \<Longrightarrow> upd_rel s1 f1 s2 f2 \<Longrightarrow> upd_rel s f s2 f2"
proof -
  assume a: "upd_rel s f s1 f1" "upd_rel s1 f1 s2 f2"
  then have "\<exists>ys. f2 (Ready n) = f (Ready n) @ ys" for n unfolding upd_rel_def by (metis append.assoc)
  moreover have "p \<in> set (f2 (Ready n)) \<and> storage s2 p = storage s p" if "p \<in> set (f (Ready n))" for p n
    using upd_rel_readyD [OF a(1) that] upd_rel_readyD [OF a(2)] by metis
  moreover have "same_ids (storage s) (storage s2)"
    using a same_ids_trans [of "storage s" "storage s1" "storage s2"] by (simp add: upd_rel_def)
  moreover have "storage s2 p = storage s p" if "t_state (storage s p) = THREAD_RUNNING" for p
    using a that unfolding upd_rel_def by metis
  moreover have "running s2 = running s" using a by (simp add: upd_rel_def)
  ultimately show ?thesis unfolding upd_rel_def by blast
qed

lemma resumed_doomed [simp]: "t_flags (resumed t) AND THREAD_FLAG_TERMINATE = t_flags t AND THREAD_FLAG_TERMINATE"
  by (simp add: resumed_def flag_simps)

lemma upd_rel_resumed:
  assumes I: "sched_inv s f"
  shows "upd_rel s f (resumed_by flags P s) f"
proof -
  have "storage (resumed_by flags P s) p = storage s p" if "p \<in> set (f (Ready n))" for p n
    using sinvD(2) [OF sched_invD(2) [OF I] that] by (simp add: resumed_by_def resumable_def)
  then show ?thesis
    by (auto simp: upd_rel_def same_ids_def resumed_by_def resumable_def)
qed

lemma running_unlinked: "sinv st f \<Longrightarrow> t_state (st r) = THREAD_RUNNING \<Longrightarrow> unlinked f r"
  unfolding unlinked_def
proof (intro allI notI)
  fix q assume a: "sinv st f" "t_state (st r) = THREAD_RUNNING" "r \<in> set (f q)"
  from sinvD(2) [OF a(1,3)] a(2) show False by (cases q) auto
qed

lemma upd_rel_run_ok:
  assumes "upd_rel s f s' f'" "run_ok s f" "sched_inv s' f'"
  shows "run_ok s' f'"
proof -
  obtain r where r: "running s = Some r" "slot_ok r (storage s r)" "t_state (storage s r) = THREAD_RUNNING"
    using assms(2) by (auto simp: run_ok_def)
  then have "storage s' r = storage s r" using assms(1) by (simp add: upd_rel_def)
  with r assms(1) running_unlinked [OF sched_invD(2) [OF assms(3)], of r] show ?thesis
    by (simp add: run_ok_def upd_rel_def)
qed

section \<open>The two passes\<close>

lemma upd_rel_waiting:
  assumes I: "sched_inv s f"
  shows "\<exists>s' f'. schedule_waiting now s = Some s' \<and> sched_inv s' f' \<and> upd_rel s f s' f'"
proof -
  obtain st' f' nd' where P: "pass_spec now (length (f Wait)) (storage s, f, SCHED_DELAY_MAX) = (st', f', nd')"
    by (metis prod_cases3)
  have D: "distinct (f Wait)" using sched_invD(1) [OF I] by (rule qrep_distinct)
  have R: "pass_rel now (storage s, f, SCHED_DELAY_MAX) (st', f', nd')"
    using pass_spec_rel [of f now "storage s" SCHED_DELAY_MAX "length (f Wait)"] D P by simp
  obtain m where m: "schedule_waiting now s = Some (with_view s m (st', f', nd'))"
    "sched_inv (with_view s m (st', f', nd')) f'"
    using schedule_waiting_ref [OF I P] by blast
  have w: "t_tid (woken t) = t_tid t" "t_priority (woken t) = t_priority t"
    "t_flags (woken t) AND THREAD_FLAG_TERMINATE = t_flags t AND THREAD_FLAG_TERMINATE" for t
    by (simp_all add: woken_def)
  have ch: "st' p = storage s p \<or> p \<in> set (f Wait) \<and> st' p = woken (storage s p)" for p
    using R by (auto simp: pass_rel_def)
  have "same_ids (storage s) st'"
    unfolding same_ids_def using ch w by metis
  moreover have "st' p = storage s p" if "t_state (storage s p) = THREAD_RUNNING" for p
    using ch [of p] running_unlinked [OF sched_invD(2) [OF I] that] by (auto simp: unlinked_def)
  moreover have "p \<in> set (f' (Ready n)) \<and> st' p = storage s p" if p: "p \<in> set (f (Ready n))" for n p
  proof -
    have "p \<notin> set (f Wait)" using qrep_disjoint [OF sched_invD(1) [OF I], of "Ready n" Wait p] p by simp
    moreover have "\<exists>ys. f' (Ready n) = f (Ready n) @ ys" using R by (simp add: pass_rel_def)
    ultimately show ?thesis using ch [of p] p by auto
  qed
  moreover have "\<forall>n. \<exists>ys. f' (Ready n) = f (Ready n) @ ys" using R by (simp add: pass_rel_def)
  ultimately have "upd_rel s f (with_view s m (st', f', nd')) f'" by (simp add: upd_rel_def)
  with m show ?thesis by blast
qed

lemma delayed_spec_ids:
  "delayed_spec now xs st f = (st', f') \<Longrightarrow> same_ids st st'"
proof (induction xs arbitrary: st f)
  case (Cons x xs)
  have "same_ids st (st(x := resumed (st x)))" by (simp add: same_ids_def)
  with Cons show ?case by (auto split: if_splits intro: same_ids_refl dest: same_ids_trans)
qed (simp add: same_ids_refl)

lemma delayed_spec_appends:
  "delayed_spec now xs st f = (st', f') \<Longrightarrow> \<exists>ys. f' (Ready n) = f (Ready n) @ ys"
proof (induction xs arbitrary: st f)
  case (Cons x xs)
  have "\<exists>ys. f' (Ready n) = g (Ready n) @ ys \<Longrightarrow> \<exists>zs. g (Ready n) = f (Ready n) @ zs \<Longrightarrow> \<exists>ys. f' (Ready n) = f (Ready n) @ ys" for g
    by auto
  with Cons show ?case by (fastforce split: if_splits)
qed simp

lemma upd_rel_delayed:
  assumes I: "sched_inv s f"
  shows "\<exists>s' f'. schedule_delayed now s = Some s' \<and> sched_inv s' f' \<and> upd_rel s f s' f'"
proof -
  obtain st' f' where P: "delayed_spec now (f Delay) (storage s) f = (st', f')" by fastforce
  obtain m d where m: "schedule_delayed now s = Some (s\<lparr>sqm := m, storage := st', new_delay_dq := d\<rparr>)"
    "sched_inv (s\<lparr>sqm := m, storage := st', new_delay_dq := d\<rparr>) f'"
    using schedule_delayed_ref [OF I P] by blast
  have keep: "st' p = storage s p \<and> (\<forall>q. p \<in> set (f q) \<longrightarrow> p \<in> set (f' q))" if "p \<notin> set (f Delay)" for p
    using delayed_spec_frame [OF P refl that] by simp
  have "st' p = storage s p" if "t_state (storage s p) = THREAD_RUNNING" for p
    using keep [of p] running_unlinked [OF sched_invD(2) [OF I] that] by (auto simp: unlinked_def)
  moreover have "p \<in> set (f' (Ready n)) \<and> st' p = storage s p" if p: "p \<in> set (f (Ready n))" for n p
    using keep [of p] qrep_disjoint [OF sched_invD(1) [OF I], of "Ready n" Delay p] p by simp
  ultimately have "upd_rel s f (s\<lparr>sqm := m, storage := st', new_delay_dq := d\<rparr>) f'"
    using delayed_spec_ids [OF P] delayed_spec_appends [OF P] by (simp add: upd_rel_def)
  with m show ?thesis by blast
qed

section \<open>A whole update\<close>

lemma clock_ok_ms: "clock_ok ck \<Longrightarrow> \<exists>ms. clock_get_milliseconds ck = Some ms"
  by (simp add: clock_ok_def clock_get_milliseconds_def kernel_time_get_elapsed_msecs_def cdiv_def
      Let_def ucast_up_0_iff)

lemma barriers_ok_pass:
  assumes "barriers_ok bs"
    and "\<forall>h. if h \<in> set (bar_list bs) \<and> is_open (bar_mem bs h)
         then \<exists>ids. mem h = bar_passed (bar_mem bs h) ids \<and> length ids = BITMAPLEN DIEGOS_MAX_THREADS \<and> bits_of ids = {}
         else mem h = bar_mem bs h"
  shows "barriers_ok (bs\<lparr>bar_mem := mem\<rparr>)"
proof -
  have "length (bar_ids (mem h)) = BITMAPLEN DIEGOS_MAX_THREADS" if h: "h \<in> set (bar_list bs)" for h
    using assms(2) [rule_format, of h] assms(1) h
    by (cases "is_open (bar_mem bs h)") (auto simp: barriers_ok_def bar_passed_def)
  then show ?thesis using assms(1) by (simp add: barriers_ok_def)
qed

text \<open>The first half of an update: the four libraries wake the threads whose event has come.\<close>

lemma wake_spec:
  assumes K: "kinv k f g"
  shows "\<exists>ev bs io1 io2 s1 s2 s3 s4.
    resume_on_events (k_events k, k_sched k) = Some (ev, s1) \<and> resume_on_barriers (k_barriers k, s1) = Some (bs, s2) \<and>
    resume_on_io_wait (k_io k, s2) = Some (io1, s3) \<and> resume_on_poll (io1, s3) = Some (io2, s4) \<and>
    events_ok ev g \<and> barriers_ok bs \<and> iopoll_ok io2 \<and> sched_inv s4 f \<and> upd_rel (k_sched k) f s4 f"
proof -
  let ?s = "k_sched k"
  have I: "sched_inv ?s f" using K by (simp add: kinv_def)
  have F: "THREAD_FLAG_WAIT_EVENT AND THREAD_FLAG_WAIT_TIMEOUT = 0"
    "THREAD_FLAG_WAIT_BARRIER AND THREAD_FLAG_WAIT_TIMEOUT = 0"
    "THREAD_FLAG_WAIT_COMPLETION AND THREAD_FLAG_WAIT_TIMEOUT = 0" by (simp_all add: flag_defs)
  obtain ids P1 where 1: "resume_on_events (k_events k, ?s) =
      Some (k_events k\<lparr>ev_ids := ids\<rparr>, resumed_by THREAD_FLAG_WAIT_EVENT P1 ?s)" "bm_range ids = 32"
    using resume_on_events_spec [of "k_events k" g ?s] K by (auto simp: kinv_def)
  let ?s1 = "resumed_by THREAD_FLAG_WAIT_EVENT P1 ?s"
  have I1: "sched_inv ?s1 f" using I F(1) by (rule resumed_by_inv)
  obtain mem P2 where 2: "resume_on_barriers (k_barriers k, ?s1) =
      Some (k_barriers k\<lparr>bar_mem := mem\<rparr>, resumed_by THREAD_FLAG_WAIT_BARRIER P2 ?s1)"
    "barriers_ok (k_barriers k\<lparr>bar_mem := mem\<rparr>)"
    using resume_on_barriers_spec [of "k_barriers k" ?s1] barriers_ok_pass [of "k_barriers k"] K
    by (auto simp: kinv_def)
  let ?s2 = "resumed_by THREAD_FLAG_WAIT_BARRIER P2 ?s1"
  have I2: "sched_inv ?s2 f" using I1 F(2) by (rule resumed_by_inv)
  obtain io1 P3 where 3: "resume_on_io_wait (k_io k, ?s2) =
      Some (io1, resumed_by THREAD_FLAG_WAIT_COMPLETION P3 ?s2)" "iopoll_ok io1"
    using resume_on_io_wait_spec [of "k_io k" ?s2] K by (auto simp: kinv_def)
  let ?s3 = "resumed_by THREAD_FLAG_WAIT_COMPLETION P3 ?s2"
  have I3: "sched_inv ?s3 f" using I2 F(3) by (rule resumed_by_inv)
  obtain io2 P4 where 4: "resume_on_poll (io1, ?s3) =
      Some (io2, resumed_by THREAD_FLAG_WAIT_COMPLETION P4 ?s3)" "iopoll_ok io2"
    using resume_on_poll_spec [of io1 ?s3] 3(2) by auto
  have I4: "sched_inv (resumed_by THREAD_FLAG_WAIT_COMPLETION P4 ?s3) f" using I3 F(3) by (rule resumed_by_inv)
  have "upd_rel ?s f (resumed_by THREAD_FLAG_WAIT_COMPLETION P4 ?s3) f"
    using upd_rel_resumed [OF I] upd_rel_resumed [OF I1] upd_rel_resumed [OF I2] upd_rel_resumed [OF I3]
    by (meson upd_rel_trans)
  moreover have "events_ok (k_events k\<lparr>ev_ids := ids\<rparr>) g" using K 1(2) by (simp add: kinv_def events_ok_def)
  ultimately show ?thesis using 1(1) 2 3(1) 4 I4 by auto
qed

lemma update_schedule_spec:
  assumes K: "kinv k f g"
  shows "\<exists>k' f'. update_schedule ioctl k = Some k' \<and> kinv k' f' g \<and> k_mutexes k' = k_mutexes k \<and>
    upd_rel (k_sched k) f (k_sched k') f'"
proof -
  have ck: "clock_ok (k_clock k)" using K by (simp add: kinv_def)
  obtain now where now: "clock_get_milliseconds (k_clock k) = Some now" using clock_ok_ms [OF ck] by blast
  obtain ev bs io1 io2 s1 s2 s3 s4 where w:
    "resume_on_events (k_events k, k_sched k) = Some (ev, s1)" "resume_on_barriers (k_barriers k, s1) = Some (bs, s2)"
    "resume_on_io_wait (k_io k, s2) = Some (io1, s3)" "resume_on_poll (io1, s3) = Some (io2, s4)"
    "events_ok ev g" "barriers_ok bs" "iopoll_ok io2" "sched_inv s4 f" "upd_rel (k_sched k) f s4 f"
    using wake_spec [OF K] by blast
  obtain s5 f5 where 5: "(if sq_count Wait s4 \<noteq> 0 then schedule_waiting now s4 else Some s4) = Some s5"
    "sched_inv s5 f5" "upd_rel s4 f s5 f5"
    using upd_rel_waiting [OF w(8), of now] upd_rel_refl [of s4 f] w(8) by (cases "sq_count Wait s4 = 0") auto
  obtain s6 f6 where 6: "(if sq_count Delay s5 \<noteq> 0 then schedule_delayed now s5 else Some s5) = Some s6"
    "sched_inv s6 f6" "upd_rel s5 f5 s6 f6"
    using upd_rel_delayed [OF 5(2), of now] upd_rel_refl [of s5 f5] 5(2) by (cases "sq_count Delay s5 = 0") auto
  let ?nd = "if new_delay_dq s6 < new_delay_wq s6 then new_delay_dq s6 else new_delay_wq s6"
  obtain ok ck' where c: "clock_set_period ioctl ?nd CLK_INST_SCHEDULER (k_clock k) = Some (ok, ck')"
    "sys_ticks ck' = sys_ticks (k_clock k)"
    using clock_set_period_spec [of "k_clock k" CLK_INST_SCHEDULER ioctl ?nd] ck
    by (auto simp: clock_ok_def clk_consts)
  let ?k = "k\<lparr>k_sched := s6, k_events := ev, k_barriers := bs, k_io := io2, k_clock := ck'\<rparr>"
  have u: "upd_rel (k_sched k) f s6 f6" using w(9) 5(3) 6(3) by (meson upd_rel_trans)
  then have "table_ok (storage s6)" using K same_ids_table by (auto simp: kinv_def upd_rel_def)
  then have "kinv ?k f6 g" using w 6 ck c(2) by (simp add: kinv_def clock_ok_def)
  moreover have "update_schedule ioctl k = Some ?k"
    using w(1-4) 5(1) 6(1) c(1) now by (simp add: update_schedule_def Let_def cong: if_cong split del: if_split)
  ultimately show ?thesis using u by auto
qed

section \<open>Choosing the runner\<close>

text \<open>
  What the choice keeps: identities, the threads that are neither chosen nor doomed, and no thread
  becomes ready.
\<close>

definition pick_rel :: "nat \<Rightarrow> sched \<Rightarrow> (sqid \<Rightarrow> nat list) \<Rightarrow> sched \<Rightarrow> (sqid \<Rightarrow> nat list) \<Rightarrow> bool" where
  "pick_rel x s f s' f' \<longleftrightarrow> same_ids (storage s) (storage s') \<and>
     (\<forall>p. \<not> doomed (storage s) p \<and> p \<noteq> x \<longrightarrow> storage s' p = storage s p \<and> (\<forall>q. p \<in> set (f q) \<longrightarrow> p \<in> set (f' q))) \<and>
     (\<forall>m. set (f' (Ready m)) \<subseteq> set (f (Ready m)))"

lemma mark_dead_same: "same_ids st (mark_dead ts st)"
  by (simp add: same_ids_def)

lemma set_dropWhile_subset: "set (tl (dropWhile P xs)) \<subseteq> set xs"
  by (induction xs) auto

lemma mem_dropWhile:
  "p \<in> set xs \<Longrightarrow> \<not> P p \<Longrightarrow> p \<noteq> hd (dropWhile P xs) \<Longrightarrow> p \<in> set (tl (dropWhile P xs))"
  by (induction xs) auto

lemma runner_pick_rel:
  assumes "f (Ready n) = xs"
  shows "pick_rel (hd (dropWhile (doomed (storage s)) xs)) s f
    (runner_state (takeWhile (doomed (storage s)) xs) (dropWhile (doomed (storage s)) xs) s m)
    (runner_queues n (takeWhile (doomed (storage s)) xs) (dropWhile (doomed (storage s)) xs) f)"
proof -
  let ?D = "doomed (storage s)"
  let ?ts = "takeWhile ?D xs" and ?rest = "dropWhile ?D xs"
  have a: "same_ids (storage s) (storage (runner_state ?ts ?rest s m))"
    by (auto simp: runner_state_def same_ids_def)
  have b: "storage (runner_state ?ts ?rest s m) p = storage s p" if "\<not> ?D p" "p \<noteq> hd ?rest" for p
    using that set_takeWhileD [of p ?D xs] by (auto simp: runner_state_def mark_dead_def)
  have c: "p \<in> set (runner_queues n ?ts ?rest f q)" if "\<not> ?D p" "p \<noteq> hd ?rest" "p \<in> set (f q)" for p q
    using that mem_dropWhile [of p xs ?D] assms by (auto simp: runner_queues_def)
  have d: "set (runner_queues n ?ts ?rest f (Ready i)) \<subseteq> set (f (Ready i))" for i
    using set_dropWhile_subset [of ?D xs] assms by (auto simp: runner_queues_def)
  show ?thesis using a b c d by (simp add: pick_rel_def)
qed

lemma find_append_Some: "find P xs = Some x \<Longrightarrow> find P (xs @ ys) = Some x"
  by (induction xs) (auto split: if_splits)

lemma find_dropWhile: "dropWhile P xs = y # ys \<Longrightarrow> find (\<lambda>p. \<not> P p) xs = Some y"
  by (induction xs) (auto split: if_splits)

lemma pick_rel_trans:
  assumes "pick_rel y s f s1 f1" "pick_rel x s1 f1 s2 f2" "doomed (storage s) y \<or> y = x \<or> (\<forall>q. y \<notin> set (f q)) \<and> storage s1 y = storage s y"
  shows "pick_rel x s f s2 f2"
  using assms unfolding pick_rel_def same_ids_def by (metis subset_trans)

lemma pick_runner_spec:
  assumes "sched_inv s f" "i \<in> set is" "c \<in> set (f (Ready i))" "\<not> doomed (storage s) c"
  shows "\<exists>s' f' n x pre post. is = pre @ n # post \<and> (\<forall>m\<in>set pre. \<forall>p\<in>set (f (Ready m)). doomed (storage s) p) \<and>
    find (\<lambda>p. \<not> doomed (storage s) p) (f (Ready n)) = Some x \<and> pick_runner is s = Some s' \<and>
    sched_inv s' f' \<and> run_ok s' f' \<and> running s' = Some x \<and> pick_rel x s f s' f'"
  using assms
proof (induction "is" arbitrary: s f)
  case (Cons j js)
  let ?D = "doomed (storage s)" and ?xs = "f (Ready j)"
  have R: "qrep (sqm s) f" using Cons.prems(1) by (rule sched_invD)
  show ?case
  proof (cases "?xs = []")
    case True
    then have e: "sq_count (Ready j) s = 0" using R by simp
    have "i \<in> set js" using Cons.prems True by auto
    from Cons.IH [OF Cons.prems(1) this Cons.prems(3,4)] obtain s' f' n x pre post where
      h: "js = pre @ n # post" "\<forall>m\<in>set pre. \<forall>p\<in>set (f (Ready m)). ?D p" "find (\<lambda>p. \<not> ?D p) (f (Ready n)) = Some x"
      "pick_runner js s = Some s'" "sched_inv s' f'" "run_ok s' f'" "running s' = Some x" "pick_rel x s f s' f'"
      by blast
    have "j # js = (j # pre) @ n # post" "\<forall>m\<in>set (j # pre). \<forall>p\<in>set (f (Ready m)). ?D p"
      using h(1,2) True by auto
    with h e show ?thesis
      by (intro exI [of _ s'] exI [of _ f'] exI [of _ n] exI [of _ x] exI [of _ "j # pre"] exI [of _ post]) auto
  next
    case False
    then have ne: "sq_count (Ready j) s \<noteq> 0" using R by simp
    let ?ts = "takeWhile ?D ?xs" and ?rest = "dropWhile ?D ?xs"
    obtain m where m: "new_runner (Ready j) s = Some (?rest \<noteq> [], runner_state ?ts ?rest s m)"
      "sched_inv (runner_state ?ts ?rest s m) (runner_queues j ?ts ?rest f)"
      "?rest \<noteq> [] \<longrightarrow> run_ok (runner_state ?ts ?rest s m) (runner_queues j ?ts ?rest f)"
      using new_runner_spec [of s f j "f (Ready j)" ?D] Cons.prems(1) unfolding Let_def by blast
    define s1 f1 where "s1 = runner_state ?ts ?rest s m" and "f1 = runner_queues j ?ts ?rest f"
    have pr: "pick_rel (hd ?rest) s f s1 f1" unfolding s1_def f1_def by (rule runner_pick_rel) simp
    show ?thesis
    proof (cases ?rest)
      case (Cons y ys)
      then have "running s1 = Some y" by (simp add: s1_def runner_state_def)
      moreover have "pick_runner (j # js) s = Some s1" using m(1) ne Cons by (simp add: s1_def)
      ultimately show ?thesis using m(2,3) pr find_dropWhile [OF Cons] Cons
        by (intro exI [of _ s1] exI [of _ f1] exI [of _ j] exI [of _ y] exI [of _ "[]"] exI [of _ js])
          (simp add: s1_def f1_def)
    next
      case Nil
      then have all: "\<forall>p\<in>set ?xs. ?D p" by (simp add: dropWhile_eq_Nil_conv)
      have ij: "i \<in> set js" using Cons.prems all by auto
      have s1: "s1 = s\<lparr>sqm := m, storage := mark_dead ?ts (storage s)\<rparr>" using Nil by (simp add: s1_def runner_state_def)
      have d: "doomed (storage s1) p = ?D p" for p by (simp add: s1)
      have st: "storage s1 p = storage s p" if "\<not> ?D p" for p
        using that set_takeWhileD [of p ?D ?xs] by (auto simp: s1 mark_dead_def)
      have f1: "f1 (Ready n) = (if n = j then [] else f (Ready n))" for n
        unfolding f1_def runner_queues_def Nil by simp
      have c1: "c \<in> set (f1 (Ready i))" using Cons.prems(3,4) all f1 by auto
      have I1: "sched_inv s1 f1" using m(2) by (simp add: s1_def f1_def)
      have c2: "\<not> doomed (storage s1) c" using Cons.prems(4) d [of c] by blast
      from Cons.IH [OF I1 ij c1 c2] obtain s' f' n x pre post where
        h: "js = pre @ n # post" "\<forall>m\<in>set pre. \<forall>p\<in>set (f1 (Ready m)). ?D p" "find (\<lambda>p. \<not> ?D p) (f1 (Ready n)) = Some x"
        "pick_runner js s1 = Some s'" "sched_inv s' f'" "run_ok s' f'" "running s' = Some x" "pick_rel x s1 f1 s' f'"
        unfolding d by blast
      have nj: "n \<noteq> j" using h(3) f1 [of n] by auto
      have "\<forall>m\<in>set (j # pre). \<forall>p\<in>set (f (Ready m)). ?D p"
        using h(2) all f1 by (metis empty_iff list.set(1) set_ConsD)
      moreover have "pick_rel x s f s' f'"
      proof -
        have "pick_rel x s f s1 f1"
          unfolding pick_rel_def
        proof (intro conjI allI impI)
          show "same_ids (storage s) (storage s1)" using pr by (simp add: pick_rel_def)
          show "set (f1 (Ready m)) \<subseteq> set (f (Ready m))" for m by (simp add: f1)
          show "storage s1 p = storage s p" if "\<not> ?D p \<and> p \<noteq> x" for p using st that by blast
          show "p \<in> set (f1 q)" if "\<not> ?D p \<and> p \<noteq> x" "p \<in> set (f q)" for p q
            using that all by (auto simp: f1_def runner_queues_def)
        qed
        with h(8) show ?thesis by (auto intro: pick_rel_trans)
      qed
      moreover have "new_runner (Ready j) s = Some (False, s1)"
        using m(1) unfolding s1_def [symmetric] by (simp add: Nil del: dropWhile_eq_Nil_conv)
      then have "pick_runner (j # js) s = Some s'" using ne h(4) by simp
      moreover have "find (\<lambda>p. \<not> ?D p) (f (Ready n)) = Some x" using h(3) f1 nj by simp
      moreover have "j # js = (j # pre) @ n # post" using h(1) by simp
      ultimately show ?thesis using h(5-7)
        by (intro exI [of _ s'] exI [of _ f'] exI [of _ n] exI [of _ x] exI [of _ "j # pre"] exI [of _ post]) blast
    qed
  qed
qed simp

section \<open>A whole scheduling step\<close>

lemma run_ok_not_dead:
  assumes "run_ok s f" "running s = Some r"
  shows "filter (\<lambda>p. p = r) (f Dead) = []" "slot_ok r (storage s r)"
  using assms by (auto simp: run_ok_def unlinked_def filter_empty_conv)

lemma house_spec:
  assumes I: "sched_inv s f" and r: "run_ok s f" "running s = Some r"
  shows "\<exists>s'. (if should_do_house_keeping s then house_keeping s else Some s) = Some s' \<and>
    sched_inv s' (f(Dead := [])) \<and> running s' = running s \<and> storage s' = destroyed (f Dead) r (storage s) \<and>
    thread_num s' = thread_num s - of_nat (length (f Dead))"
proof (cases "f Dead = []")
  case True
  then have "\<not> should_do_house_keeping s" using sched_invD(1) [OF I] by (simp add: should_do_house_keeping_def Let_def)
  moreover have "f(Dead := []) = f" using True by auto
  moreover have "destroyed (f Dead) r (storage s) = storage s" using True by (auto simp: destroyed_def)
  ultimately show ?thesis using I True by simp
next
  case False
  have R: "qrep (sqm s) f" using I by (rule sched_invD)
  have n: "r \<notin> set (f Dead)" using r by (auto simp: run_ok_def unlinked_def)
  have "sq_head Dead s \<noteq> running s" using qrep_head [OF R, of Dead] False n r(2) by (auto split: list.splits)
  then have h: "should_do_house_keeping s"
    using R False by (simp add: should_do_house_keeping_def Let_def)
  have fl: "filter (\<lambda>p. p \<noteq> r) (f Dead) = f Dead" using n by (auto simp: filter_id_conv)
  from house_keeping_spec [OF I r(2) run_ok_not_dead(2) [OF r]] h show ?thesis
    unfolding fl run_ok_not_dead(1) [OF r] by auto
qed

lemma destroyed_table: "table_ok st \<Longrightarrow> table_ok (destroyed xs r st)"
  by (auto simp: table_ok_def destroyed_def free_slot_def zero_thread_def)

text \<open>
  Threads that are ready before the call and not marked for termination are ready after it, except
  the chosen one, whose priority is at least as high. Of the threads of one priority the one that stood first is chosen.
\<close>

definition sched_post :: "kernel \<Rightarrow> (sqid \<Rightarrow> nat list) \<Rightarrow> kernel \<Rightarrow> (sqid \<Rightarrow> nat list) \<Rightarrow> nat \<Rightarrow> bool" where
  "sched_post k f k' f' x \<longleftrightarrow>
     running (k_sched k') = Some x \<and> run_ok (k_sched k') f' \<and> \<not> doomed (storage (k_sched k')) x \<and> f' Dead = [] \<and>
     (\<forall>m p. p \<in> set (f (Ready m)) \<and> \<not> doomed (storage (k_sched k)) p \<longrightarrow>
        t_priority (storage (k_sched k') x) \<le> m \<and> (p = x \<or> p \<in> set (f' (Ready m))) \<and>
        t_tid (storage (k_sched k') p) = t_tid (storage (k_sched k) p) \<and>
        t_priority (storage (k_sched k') p) = m \<and> \<not> doomed (storage (k_sched k')) p) \<and>
     (\<forall>m p. p \<in> set (f' (Ready m)) \<and> \<not> doomed (storage (k_sched k')) p \<longrightarrow>
        t_priority (storage (k_sched k') x) \<le> m) \<and>
     (\<forall>p. find (\<lambda>p. \<not> doomed (storage (k_sched k)) p) (f (Ready (t_priority (storage (k_sched k') x)))) = Some p \<longrightarrow> x = p)"

lemma schedule_thread_spec:
  assumes K: "kinv k f g" and c: "c \<in> set (f (Ready i))" "\<not> doomed (storage (k_sched k)) c"
  shows "\<exists>k' f' x. schedule_thread ioctl k = Some k' \<and> kinv k' f' g \<and> k_mutexes k' = k_mutexes k \<and> sched_post k f k' f' x"
proof -
  obtain k1 f1 where 1: "update_schedule ioctl k = Some k1" "kinv k1 f1 g" "k_mutexes k1 = k_mutexes k"
    "upd_rel (k_sched k) f (k_sched k1) f1"
    using update_schedule_spec [OF K] by blast
  let ?s = "k_sched k" and ?s1 = "k_sched k1"
  have I1: "sched_inv ?s1 f1" using 1(2) by (simp add: kinv_def)
  have prio: "m < THREAD_PRIORITIES \<and> t_priority (storage ?s1 p) = m" if "p \<in> set (f1 (Ready m))" for m p
    using sinvD(1,2) [OF sched_invD(2) [OF I1] that] by (auto simp: slot_ok_def)
  have ids1: "doomed (storage ?s1) p = doomed (storage ?s) p" for p
    using 1(4) by (auto simp: upd_rel_def same_ids_def)
  have up: "p \<in> set (f1 (Ready m))" if "p \<in> set (f (Ready m))" for m p using 1(4) that by (simp add: upd_rel_def)
  have cd: "i \<in> set [0..<THREAD_PRIORITIES]" "c \<in> set (f1 (Ready i))" "\<not> doomed (storage ?s1) c"
    using up [OF c(1)] prio [of c i] c(2) ids1 [of c] by auto
  obtain s2 f2 n x pre post where 2: "[0..<THREAD_PRIORITIES] = pre @ n # post"
    "\<forall>m\<in>set pre. \<forall>p\<in>set (f1 (Ready m)). doomed (storage ?s1) p"
    "find (\<lambda>p. \<not> doomed (storage ?s1) p) (f1 (Ready n)) = Some x"
    "pick_runner [0..<THREAD_PRIORITIES] ?s1 = Some s2" "sched_inv s2 f2" "run_ok s2 f2" "running s2 = Some x"
    "pick_rel x ?s1 f1 s2 f2"
    using pick_runner_spec [OF I1 cd] by blast
  obtain s3 where 3: "(if should_do_house_keeping s2 then house_keeping s2 else Some s2) = Some s3"
    "sched_inv s3 (f2(Dead := []))" "running s3 = running s2" "storage s3 = destroyed (f2 Dead) x (storage s2)"
    using house_spec [OF 2(5,6,7)] by blast
  have x: "x \<in> set (f1 (Ready n))" "\<not> doomed (storage ?s1) x"
    using 2(3) by (auto simp: find_Some_iff)
  have ids2: "same_ids (storage ?s1) (storage s2)" using 2(8) by (simp add: pick_rel_def)
  have tab: "table_ok (storage s3)"
    using 1(2) ids2 same_ids_table destroyed_table 3(4) by (auto simp: kinv_def)
  have sx: "storage s3 x = storage s2 x" by (simp add: 3(4) destroyed_def)
  have px: "t_priority (storage s3 x) = n" using sx ids2 prio [OF x(1)] by (simp add: same_ids_def)
  have low: "n \<le> m" if "p \<in> set (f1 (Ready m))" "\<not> doomed (storage ?s1) p" for m p
  proof (rule ccontr)
    assume "\<not> n \<le> m"
    moreover have "sorted_wrt (<) (pre @ n # post)" using 2(1) sorted_wrt_upt [of 0 THREAD_PRIORITIES] by simp
    moreover have "m \<in> set (pre @ n # post)" using prio [OF that(1)] unfolding 2(1) [symmetric] by simp
    ultimately have "m \<in> set pre" by (auto simp: sorted_wrt_append)
    with 2(2) that show False by blast
  qed
  have run3: "run_ok s3 (f2(Dead := []))"
    using 2(6,7) 3(3) sx by (auto simp: run_ok_def unlinked_def)
  have disj: "p \<notin> set (f2 Dead)" if "p \<in> set (f2 (Ready m))" for p m
    using qrep_disjoint [OF sched_invD(1) [OF 2(5)], of "Ready m" Dead p] that by simp
  have "kinv (k1\<lparr>k_sched := s3\<rparr>) (f2(Dead := [])) g"
    using 1(2) 3(2) tab by (simp add: kinv_def)
  moreover have "schedule_thread ioctl k = Some (k1\<lparr>k_sched := s3\<rparr>)"
    using 1(1) 2(4) 3(1) by (simp add: schedule_thread_def)
  moreover have "sched_post k f (k1\<lparr>k_sched := s3\<rparr>) (f2(Dead := [])) x"
  proof -
    have "doomed (storage s3) x = doomed (storage ?s1) x" using sx ids2 by (simp add: same_ids_def)
    moreover have "n \<le> m \<and> (p = x \<or> p \<in> set (f2 (Ready m))) \<and> t_tid (storage s3 p) = t_tid (storage ?s p) \<and>
        t_priority (storage s3 p) = m \<and> \<not> doomed (storage s3) p"
      if p: "p \<in> set (f (Ready m))" "\<not> doomed (storage ?s) p" for m p
    proof -
      have a: "n \<le> m" "p = x \<or> p \<in> set (f2 (Ready m))"
        using low [OF up [OF p(1)]] p up [OF p(1)] 2(8) ids1 [of p] by (auto simp: pick_rel_def)
      then have "storage s3 p = storage s2 p" using sx disj by (auto simp: 3(4) destroyed_def)
      then have "t_tid (storage s3 p) = t_tid (storage ?s1 p)" "t_priority (storage s3 p) = m" "\<not> doomed (storage s3) p"
        using ids2 prio [OF up [OF p(1)]] ids1 [of p] p(2) by (simp_all add: same_ids_def)
      moreover have "t_tid (storage ?s1 p) = t_tid (storage ?s p)" using 1(4) by (simp add: upd_rel_def same_ids_def)
      ultimately show ?thesis using a by simp
    qed
    moreover have "n \<le> m" if p: "p \<in> set (f2 (Ready m))" "\<not> doomed (storage s3) p" for m p
    proof -
      have "storage s3 p = storage s2 p" using disj [OF p(1)] by (simp add: 3(4) destroyed_def)
      then have "\<not> doomed (storage ?s1) p" using p(2) ids2 by (simp add: same_ids_def)
      then show ?thesis using low [of p m] p(1) 2(8) by (auto simp: pick_rel_def)
    qed
    moreover have "x = p" if "find (\<lambda>p. \<not> doomed (storage ?s) p) (f (Ready n)) = Some p" for p
    proof -
      obtain ys where "f1 (Ready n) = f (Ready n) @ ys" using 1(4) unfolding upd_rel_def by blast
      then show ?thesis using 2(3) find_append_Some [OF that, of ys] unfolding ids1 by simp
    qed
    ultimately show ?thesis using x(2) 2(7) 3(3) run3 px by (auto simp: sched_post_def)
  qed
  ultimately show ?thesis using 1(3) by auto
qed

end
