(* ===== verification/KernelSteps.thy ===== *)
theory KernelSteps
  imports KernelInv
begin

text \<open>
  The kernel as a state machine. \<open>kok k f g\<close> is the invariant between two kernel calls: the
  invariant of every component, a running thread that is linked nowhere, and an idle thread that is
  running or ready. Each call of the kernel keeps it; \<open>kstep\<close> is the step relation with one rule per
  call, \<open>kreach\<close> its reflexive and transitive closure.
\<close>

unbundle bit_operations_syntax

section \<open>The invariant between calls\<close>

definition idle_ok :: "sched \<Rightarrow> (sqid \<Rightarrow> nat list) \<Rightarrow> bool" where
  "idle_ok s f \<longleftrightarrow> t_tid (storage s 0) = THREAD_TID_IDLE \<and> t_priority (storage s 0) = 3 \<and>
     \<not> doomed (storage s) 0 \<and> (running s = Some 0 \<or> 0 \<in> set (f (Ready 3)))"

definition mutexes_ok :: "mutexes \<Rightarrow> bool" where
  "mutexes_ok ms \<longleftrightarrow> (\<forall>h \<in> set (mtx_list ms). mutex_ok (mtx_mem ms h))"

definition kok :: "kernel \<Rightarrow> (sqid \<Rightarrow> nat list) \<Rightarrow> (nat \<Rightarrow> nat list) \<Rightarrow> bool" where
  "kok k f g \<longleftrightarrow> kinv k f g \<and> run_ok (k_sched k) f \<and> idle_ok (k_sched k) f \<and> mutexes_ok (k_mutexes k) \<and>
     (\<forall>r. running (k_sched k) = Some r \<longrightarrow> \<not> doomed (storage (k_sched k)) r)"

abbreviation kernel_ok :: "kernel \<Rightarrow> bool" where
  "kernel_ok k \<equiv> \<exists>f g. kok k f g"

lemma kokD:
  assumes "kok k f g"
  shows "kinv k f g" "run_ok (k_sched k) f" "idle_ok (k_sched k) f" "mutexes_ok (k_mutexes k)"
    "sched_inv (k_sched k) f" "table_ok (storage (k_sched k))" "events_ok (k_events k) g"
    "barriers_ok (k_barriers k)" "iopoll_ok (k_io k)" "clock_ok (k_clock k)"
  using assms by (simp_all add: kok_def kinv_def)

lemma kok_runner:
  assumes "kok k f g"
  obtains r where "running (k_sched k) = Some r" "slot_ok r (storage (k_sched k) r)"
    "t_state (storage (k_sched k) r) = THREAD_RUNNING" "unlinked f r" "\<not> doomed (storage (k_sched k)) r"
  using assms by (auto simp: run_ok_def kok_def)

lemma kok_now: "kok k f g \<Longrightarrow> \<exists>now. clock_get_milliseconds (k_clock k) = Some now"
  using clock_ok_ms kokD(10) by blast

lemma tid_idle_slot: "slot_ok r t \<Longrightarrow> t_tid t = THREAD_TID_IDLE \<longleftrightarrow> r = 0"
  by (auto simp: slot_ok_def thread_consts of_nat_word_0_iff)

text \<open>A state that differs only in parts the scheduler's invariant does not read.\<close>

lemma kok_parts:
  assumes "kok k f g" "events_ok ev g'" "barriers_ok bs" "iopoll_ok io" "clock_ok ck" "mutexes_ok ms"
  shows "kok (k\<lparr>k_events := ev, k_barriers := bs, k_io := io, k_clock := ck, k_mutexes := ms\<rparr>) f g'"
  using assms by (simp add: kok_def kinv_def)

section \<open>Scheduling keeps the invariant\<close>

text \<open>
  A call that takes the running thread off the processor ends in \<open>schedule_thread\<close> with the idle
  thread ready; whatever the call did before, the pass establishes the invariant again.
\<close>

lemma schedule_kok:
  assumes K: "kinv k f g" and c: "0 \<in> set (f (Ready 3))" "\<not> doomed (storage (k_sched k)) 0"
    and m: "mutexes_ok (k_mutexes k)"
  shows "\<exists>k' f' x. schedule_thread ioctl k = Some k' \<and> kok k' f' g \<and> k_mutexes k' = k_mutexes k \<and> sched_post k f k' f' x"
proof -
  obtain k' f' x where s: "schedule_thread ioctl k = Some k'" "kinv k' f' g" "k_mutexes k' = k_mutexes k"
    "sched_post k f k' f' x" using schedule_thread_spec [OF K c] by blast
  have "slot_ok 0 (storage (k_sched k) 0)"
    using sinvD(1) [of "storage (k_sched k)" f 0 "Ready 3"] c(1) K by (auto simp: kinv_def sched_inv_def)
  then have t: "t_tid (storage (k_sched k) 0) = THREAD_TID_IDLE" by (simp add: slot_ok_def THREAD_TID_IDLE_def)
  have p: "run_ok (k_sched k') f'" "running (k_sched k') = Some x" "\<not> doomed (storage (k_sched k')) x"
    using s(4) by (simp_all add: sched_post_def)
  have "(0 = x \<or> 0 \<in> set (f' (Ready 3))) \<and> t_tid (storage (k_sched k') 0) = t_tid (storage (k_sched k) 0) \<and>
      t_priority (storage (k_sched k') 0) = 3 \<and> \<not> doomed (storage (k_sched k')) 0"
    using s(4) c unfolding sched_post_def by blast
  then have "idle_ok (k_sched k') f'" using t p(2) by (auto simp: idle_ok_def)
  with s p m show ?thesis by (auto simp: kok_def)
qed

text \<open>The common case: only the running thread's slot and the queues change before the pass.\<close>

lemma leave_kok:
  assumes K: "kok k f g" and r: "running (k_sched k) = Some r" and S: "sched_inv s1 f1"
    and st: "storage s1 = (storage (k_sched k))(r := t)" "slot_ok r t"
    and R: "f1 (Ready 3) = f (Ready 3) \<or> f1 (Ready 3) = f (Ready 3) @ [r]"
    and i: "r = 0 \<Longrightarrow> r \<in> set (f1 (Ready 3)) \<and> t_flags t = t_flags (storage (k_sched k) 0)"
    and E: "events_ok ev g'" "barriers_ok bs" "iopoll_ok io" "mutexes_ok ms"
  shows "\<exists>k' f' x. schedule_thread ioctl (k\<lparr>k_sched := s1, k_events := ev, k_barriers := bs, k_io := io, k_mutexes := ms\<rparr>) =
      Some k' \<and> kok k' f' g' \<and> k_mutexes k' = ms \<and>
      sched_post (k\<lparr>k_sched := s1, k_events := ev, k_barriers := bs, k_io := io, k_mutexes := ms\<rparr>) f1 k' f' x"
proof -
  let ?k = "k\<lparr>k_sched := s1, k_events := ev, k_barriers := bs, k_io := io, k_mutexes := ms\<rparr>"
  have tab: "table_ok (storage s1)"
    using kokD(6) [OF K] st(1,2) by (auto simp: table_ok_def slot_ok_def)
  from tab have "kinv ?k f1 g'" using S E kokD(10) [OF K] by (simp add: kinv_def)
  moreover have "0 \<in> set (f1 (Ready 3))"
    using kokD(3) [OF K] r R i by (auto simp: idle_ok_def)
  moreover have "\<not> doomed (storage s1) 0"
    using kokD(3) [OF K] st i by (cases "r = 0") (auto simp: idle_ok_def)
  ultimately show ?thesis using schedule_kok [of ?k f1 g' ioctl] E by simp
qed

lemma k_upd_triv:
  "k\<lparr>k_sched := s, k_events := k_events k, k_barriers := k_barriers k, k_io := k_io k, k_mutexes := k_mutexes k\<rparr> = k\<lparr>k_sched := s\<rparr>"
  by simp

section \<open>Threads\<close>

lemma thread_suspend_ok:
  assumes K: "kok k f g" and r: "running (k_sched k) = Some r"
  shows "\<exists>k' f' x. thread_suspend ioctl k = Some (Done k') \<and> kok k' f' g \<and> k_mutexes k' = k_mutexes k \<and>
    running (k_sched k') = Some x \<and> t_priority (storage (k_sched k') x) \<le> t_priority (storage (k_sched k) r) \<and>
    (r = x \<or> r \<in> set (f' (Ready (t_priority (storage (k_sched k) r))))) \<and>
    (\<forall>y. find (\<lambda>p. \<not> doomed (storage (k_sched k)) p) (f (Ready (t_priority (storage (k_sched k) r)))) = Some y \<longrightarrow>
      x \<noteq> r \<and> (t_priority (storage (k_sched k') x) = t_priority (storage (k_sched k) r) \<longrightarrow> x = y))"
proof -
  let ?s = "k_sched k" and ?n = "t_priority (storage (k_sched k) r)"
  let ?t = "(storage (k_sched k) r)\<lparr>t_state := THREAD_READY\<rparr>"
  have rs: "slot_ok r (storage ?s r)" "unlinked f r" and d: "\<not> doomed (storage ?s) r"
    using K r by (auto simp: run_ok_def kok_def)
  define f1 where "f1 = f(Ready ?n := f (Ready ?n) @ [r])"
  obtain m where m: "scheduler_suspend_thread ?s = Some (True, ?s\<lparr>sqm := m, storage := (storage ?s)(r := ?t)\<rparr>)"
    "sched_inv (?s\<lparr>sqm := m, storage := (storage ?s)(r := ?t)\<rparr>) f1"
    using suspend_spec [OF kokD(5) [OF K] r rs] unfolding f1_def by blast
  define s1 where "s1 = ?s\<lparr>sqm := m, storage := (storage ?s)(r := ?t)\<rparr>"
  have i: "r = 0 \<longrightarrow> ?n = 3" using kokD(3) [OF K] by (simp add: idle_ok_def)
  have st: "storage s1 = (storage ?s)(r := ?t)" "doomed (storage s1) r = doomed (storage ?s) r" by (simp_all add: s1_def)
  have "\<exists>k' f' x. schedule_thread ioctl (k\<lparr>k_sched := s1\<rparr>) = Some k' \<and> kok k' f' g \<and> k_mutexes k' = k_mutexes k \<and>
      sched_post (k\<lparr>k_sched := s1\<rparr>) f1 k' f' x"
    using leave_kok [OF K r, of s1 f1 ?t "k_events k" g "k_barriers k" "k_io k" "k_mutexes k" ioctl]
      m(2) st rs(1) i kokD [OF K] unfolding k_upd_triv by (auto simp: s1_def f1_def slot_ok_def)
  then obtain k' f' x where s: "schedule_thread ioctl (k\<lparr>k_sched := s1\<rparr>) = Some k'" "kok k' f' g"
    "k_mutexes k' = k_mutexes k" "sched_post (k\<lparr>k_sched := s1\<rparr>) f1 k' f' x" by blast
  have "r \<in> set (f1 (Ready ?n))" "\<not> doomed (storage s1) r" using d st by (simp_all add: f1_def)
  then have "t_priority (storage (k_sched k') x) \<le> ?n \<and> (r = x \<or> r \<in> set (f' (Ready ?n)))"
    "running (k_sched k') = Some x"
    using s(4) by (auto simp: sched_post_def)
  moreover have "x \<noteq> r \<and> (t_priority (storage (k_sched k') x) = ?n \<longrightarrow> x = y)"
    if y: "find (\<lambda>p. \<not> doomed (storage ?s) p) (f (Ready ?n)) = Some y" for y
  proof -
    have D: "doomed (storage s1) p = doomed (storage ?s) p" for p by (simp add: s1_def)
    have e: "t_priority (storage (k_sched k') x) = ?n \<longrightarrow> x = y"
    proof
      assume "t_priority (storage (k_sched k') x) = ?n"
      then have "find (\<lambda>p. \<not> doomed (storage s1) p) (f1 (Ready ?n)) = Some p \<longrightarrow> x = p" for p using s(4) unfolding sched_post_def by simp
      then show "x = y" using find_append_Some [OF y, of "[r]"] by (simp add: f1_def D)
    qed
    have "t_priority (storage (k_sched k') r) = ?n" 
    proof -
      have "r \<in> set (f1 (Ready ?n))" "\<not> doomed (storage s1) r" using d D by (simp_all add: f1_def)
      then show ?thesis using s(4) unfolding sched_post_def by simp
    qed
    moreover have "y \<in> set (f (Ready ?n))" using y by (auto simp: find_Some_iff)
    ultimately show ?thesis using e rs(2) by (auto simp: unlinked_def)
  qed
  moreover have "thread_suspend ioctl k = Some (Done k')"
    using m(1) s(1) by (simp add: thread_suspend_def s1_def)
  ultimately show ?thesis using s(2,3) by blast
qed

lemma thread_delay_ok:
  assumes K: "kok k f g" and r: "running (k_sched k) = Some r"
    and tid: "t_tid (storage (k_sched k) r) \<noteq> THREAD_TID_IDLE" "t_tid (storage (k_sched k) r) \<noteq> THREAD_TID_TMRS"
    and ms: "ms \<noteq> 0"
  shows "\<exists>k' f'. thread_delay ioctl ms k = Some (Done k') \<and> kok k' f' g \<and> k_mutexes k' = k_mutexes k"
proof -
  let ?s = "k_sched k"
  have rs: "slot_ok r (storage ?s r)" "unlinked f r" using K r by (auto simp: run_ok_def kok_def)
  obtain now where now: "clock_get_milliseconds (k_clock k) = Some now" using kok_now [OF K] by blast
  let ?t = "delayed_thread (ucast ms + now) (storage (k_sched k) r)"
  define f1 where "f1 = f(Delay := insort_delay (storage ?s) (ucast ms + now) r (f Delay))"
  obtain m where m: "scheduler_delay_thread now (ucast ms) ?s = Some (True, ?s\<lparr>sqm := m, storage := (storage ?s)(r := ?t)\<rparr>)"
    "sched_inv (?s\<lparr>sqm := m, storage := (storage ?s)(r := ?t)\<rparr>) f1"
    using delay_spec [OF kokD(5) [OF K] r rs tid] unfolding f1_def by blast
  define s1 where "s1 = ?s\<lparr>sqm := m, storage := (storage ?s)(r := ?t)\<rparr>"
  have "r \<noteq> 0" using tid(1) tid_idle_slot [OF rs(1)] by simp
  then have "\<exists>k' f' x. schedule_thread ioctl (k\<lparr>k_sched := s1\<rparr>) = Some k' \<and> kok k' f' g \<and> k_mutexes k' = k_mutexes k"
    using leave_kok [OF K r, of s1 f1 ?t "k_events k" g "k_barriers k" "k_io k" "k_mutexes k" ioctl]
      m(2) rs(1) kokD [OF K] unfolding k_upd_triv by (auto simp: s1_def f1_def)
  then show ?thesis using m(1) now ms by (auto simp: thread_delay_def s1_def)
qed

section \<open>Waiting\<close>

text \<open>
  The idle thread is refused; any other caller is appended to the wait queue, and the scheduling
  pass that follows establishes the invariant whatever well-formed changes the call made to the
  other components.
\<close>

definition resched_ok :: "ioctl \<Rightarrow> kernel \<Rightarrow> sched \<Rightarrow> bool" where
  "resched_ok ioctl k s1 \<longleftrightarrow> (\<forall>ev g bs io mt. events_ok ev g \<and> barriers_ok bs \<and> iopoll_ok io \<and> mutexes_ok mt \<longrightarrow>
      (\<exists>k' f'. schedule_thread ioctl (k\<lparr>k_sched := s1, k_events := ev, k_barriers := bs, k_io := io, k_mutexes := mt\<rparr>) =
         Some k' \<and> kok k' f' g))"

lemma k_sched_first:
  "k\<lparr>k_events := ev, k_sched := s\<rparr> = k\<lparr>k_sched := s, k_events := ev\<rparr>"
  "k\<lparr>k_barriers := bs, k_sched := s\<rparr> = k\<lparr>k_sched := s, k_barriers := bs\<rparr>"
  "k\<lparr>k_io := io, k_sched := s\<rparr> = k\<lparr>k_sched := s, k_io := io\<rparr>"
  by (cases k; simp)+

lemma resched_okD:
  assumes "resched_ok ioctl k s1" "kok k f g"
  shows "events_ok ev g' \<Longrightarrow> \<exists>k' f'. schedule_thread ioctl (k\<lparr>k_events := ev, k_sched := s1\<rparr>) = Some k' \<and> kok k' f' g'"
    "barriers_ok bs \<Longrightarrow> \<exists>k' f'. schedule_thread ioctl (k\<lparr>k_barriers := bs, k_sched := s1\<rparr>) = Some k' \<and> kok k' f' g"
    "iopoll_ok io \<Longrightarrow> \<exists>k' f'. schedule_thread ioctl (k\<lparr>k_io := io, k_sched := s1\<rparr>) = Some k' \<and> kok k' f' g"
    "mutexes_ok mt \<Longrightarrow> \<exists>k' f'. schedule_thread ioctl (k\<lparr>k_sched := s1, k_mutexes := mt\<rparr>) = Some k' \<and> kok k' f' g"
  using assms(1) [unfolded resched_ok_def, rule_format, of ev g' "k_barriers k" "k_io k" "k_mutexes k"]
    assms(1) [unfolded resched_ok_def, rule_format, of "k_events k" g bs "k_io k" "k_mutexes k"]
    assms(1) [unfolded resched_ok_def, rule_format, of "k_events k" g "k_barriers k" io "k_mutexes k"]
    assms(1) [unfolded resched_ok_def, rule_format, of "k_events k" g "k_barriers k" "k_io k" mt]
    kokD [OF assms(2)] unfolding k_sched_first by simp_all

lemma wait_kok:
  assumes K: "kok k f g" and r: "running (k_sched k) = Some r" "r \<noteq> 0" and fl: "has THREAD_MASK_EVENTS flags"
  shows "\<exists>s1. scheduler_wait_thread now flags ms (k_sched k) = Some (True, s1) \<and> running s1 = Some r \<and>
    t_tid (storage s1 r) = t_tid (storage (k_sched k) r) \<and> resched_ok ioctl k s1"
proof -
  let ?s = "k_sched k" and ?t = "waiting_thread now flags ms (storage (k_sched k) r)"
  have rs: "slot_ok r (storage ?s r)" "unlinked f r" using K r by (auto simp: run_ok_def kok_def)
  have tid: "t_tid (storage ?s r) \<noteq> THREAD_TID_IDLE" using r(2) tid_idle_slot [OF rs(1)] by simp
  define f1 where "f1 = f(Wait := f Wait @ [r])"
  obtain m where m: "scheduler_wait_thread now flags ms ?s = Some (True, ?s\<lparr>sqm := m, storage := (storage ?s)(r := ?t)\<rparr>)"
    "sched_inv (?s\<lparr>sqm := m, storage := (storage ?s)(r := ?t)\<rparr>) f1"
    using wait_spec [OF kokD(5) [OF K] r(1) rs tid fl] unfolding f1_def by blast
  define s1 where "s1 = ?s\<lparr>sqm := m, storage := (storage ?s)(r := ?t)\<rparr>"
  have "\<exists>k' f'. schedule_thread ioctl (k\<lparr>k_sched := s1, k_events := ev, k_barriers := bs, k_io := io, k_mutexes := mt\<rparr>) =
         Some k' \<and> kok k' f' g'" if "events_ok ev g'" "barriers_ok bs" "iopoll_ok io" "mutexes_ok mt" for ev g' bs io mt
    using leave_kok [OF K r(1), of s1 f1 ?t ev g' bs io mt ioctl] that m(2) rs(1) r(2)
    by (auto simp: s1_def f1_def)
  then have "resched_ok ioctl k s1" unfolding resched_ok_def by blast
  then show ?thesis using m(1) r(1) by (intro exI [of _ s1]) (simp add: s1_def)
qed

lemma wait_idle:
  "running s = Some 0 \<Longrightarrow> t_tid (storage s 0) = THREAD_TID_IDLE \<Longrightarrow> scheduler_wait_thread now flags ms s = Some (False, s)"
  using wait_refused by blast

lemma has_events:
  "has THREAD_MASK_EVENTS THREAD_FLAG_WAIT_EVENT" "has THREAD_MASK_EVENTS THREAD_FLAG_WAIT_BARRIER"
  "has THREAD_MASK_EVENTS THREAD_FLAG_WAIT_COMPLETION" "has THREAD_MASK_EVENTS THREAD_FLAG_WAIT_MUTEX"
  by (simp_all add: flag_defs)

text \<open>The state a blocking call returns in, or in which the next thread runs.\<close>

fun after :: "'a entry \<Rightarrow> 'a" where
  "after (Return c x) = x"
| "after (Blocked x) = x"

lemma bitmap_set_tid:
  assumes "slot_ok r t" "bm_range bm = 32"
  shows "\<exists>ids. bitmap_set bm (unat (t_tid t)) = Some ids \<and> length ids = length bm"
proof -
  have "unat (t_tid t) < bm_range bm" using assms by (simp add: slot_ok_def thread_consts)
  then show ?thesis using bitmap_set_bits by blast
qed

lemma wait_for_events_ok:
  assumes K: "kok k f g"
  shows "\<exists>e f'. wait_for_events_timed ioctl q ms k = Some e \<and> kok (after e) f' g"
proof -
  let ?s = "k_sched k" and ?ev = "k_events k"
  obtain now where now: "clock_get_milliseconds (k_clock k) = Some now" using kok_now [OF K] by blast
  obtain r where r: "running ?s = Some r" "slot_ok r (storage ?s r)" by (rule kok_runner [OF K])
  consider (none) "q = None" | (nomine) h where "q = Some h" "evq_threadid (ev_mem ?ev h) \<noteq> t_tid (storage ?s r)"
    | (msg) h where "q = Some h" "evq_threadid (ev_mem ?ev h) = t_tid (storage ?s r)" "queue_count (Some h) (ev_msgs ?ev) \<noteq> 0"
    | (wait) h where "q = Some h" "evq_threadid (ev_mem ?ev h) = t_tid (storage ?s r)" "queue_count (Some h) (ev_msgs ?ev) = 0"
    by (cases q) blast+
  then show ?thesis
  proof cases
    case wait
    show ?thesis
    proof (cases "r = 0")
      case True
      have "t_tid (storage ?s 0) = THREAD_TID_IDLE" using kokD(3) [OF K] by (simp add: idle_ok_def)
      with wait True r now wait_idle [of ?s] K show ?thesis
        by (auto simp: wait_for_events_timed_def wait_for_events_enter_def then_schedule_def)
    next
      case False
      obtain s1 where s1: "scheduler_wait_thread now THREAD_FLAG_WAIT_EVENT (ucast ms) ?s = Some (True, s1)"
        "running s1 = Some r" "t_tid (storage s1 r) = t_tid (storage ?s r)"
        "resched_ok ioctl k s1"
        using wait_kok [OF K r(1) False has_events(1)] by blast
      obtain ids where ids: "bitmap_set (ev_ids ?ev) (unat (t_tid (storage s1 r))) = Some ids" "length ids = length (ev_ids ?ev)"
        using bitmap_set_tid [OF r(2), of "ev_ids ?ev"] kokD(7) [OF K] s1(3) by (auto simp: events_ok_def)
      have "events_ok (?ev\<lparr>ev_ids := ids\<rparr>) g" using kokD(7) [OF K] ids(2) by (simp add: events_ok_def)
      then obtain k' f' where "schedule_thread ioctl (k\<lparr>k_events := ?ev\<lparr>ev_ids := ids\<rparr>, k_sched := s1\<rparr>) = Some k'" "kok k' f' g"
        using resched_okD(1) [OF s1(4) K] by blast
      then show ?thesis using wait r(1) now s1(1) ids(1)
        by (auto simp: wait_for_events_timed_def wait_for_events_enter_def then_schedule_def)
    qed
  qed (use K r now in \<open>auto simp: wait_for_events_timed_def wait_for_events_enter_def then_schedule_def\<close>)
qed

lemma wait_for_barrier_ok:
  assumes K: "kok k f g" and b: "\<And>h. q = Some h \<Longrightarrow> h \<in> set (bar_list (k_barriers k))"
  shows "\<exists>e f'. wait_for_barrier ioctl q k = Some e \<and> kok (after e) f' g"
proof -
  let ?s = "k_sched k" and ?bs = "k_barriers k"
  obtain now where now: "clock_get_milliseconds (k_clock k) = Some now" using kok_now [OF K] by blast
  obtain r where r: "running ?s = Some r" "slot_ok r (storage ?s r)" by (rule kok_runner [OF K])
  show ?thesis
  proof (cases "\<exists>h. q = Some h \<and> bar_flags (bar_mem ?bs h) AND BARRIER_OPEN = 0")
    case False
    then show ?thesis using K now
      by (cases q) (auto simp: wait_for_barrier_def wait_for_barrier_enter_def then_schedule_def)
  next
    case True
    then obtain h where h: "q = Some h" "bar_flags (bar_mem ?bs h) AND BARRIER_OPEN = 0" by blast
    have "bm_range (bar_ids (bar_mem ?bs h)) = 32"
      using kokD(8) [OF K] b [OF h(1)] ids_range by (auto simp: barriers_ok_def)
    then obtain ids where ids: "bitmap_set (bar_ids (bar_mem ?bs h)) (unat (t_tid (storage ?s r))) = Some ids"
      "length ids = length (bar_ids (bar_mem ?bs h))"
      using bitmap_set_tid [OF r(2)] by blast
    define bs1 where "bs1 = upd_bar h ((bar_mem ?bs h)\<lparr>bar_ids := ids\<rparr>) ?bs"
    have ok: "barriers_ok bs1" using kokD(8) [OF K] ids(2) by (auto simp: barriers_ok_def bs1_def)
    show ?thesis
    proof (cases "r = 0")
      case z: True
      have "t_tid (storage ?s 0) = THREAD_TID_IDLE" using kokD(3) [OF K] by (simp add: idle_ok_def)
      moreover have "kok (k\<lparr>k_barriers := bs1\<rparr>) f g" using K ok by (simp add: kok_def kinv_def)
      ultimately show ?thesis using h z r now wait_idle [of ?s] ids(1)
        by (auto simp: wait_for_barrier_def wait_for_barrier_enter_def then_schedule_def scheduler_running_tid_def bs1_def)
    next
      case nz: False
      obtain s1 where s1: "scheduler_wait_thread now THREAD_FLAG_WAIT_BARRIER 0 ?s = Some (True, s1)"
        "resched_ok ioctl k s1"
        using wait_kok [OF K r(1) nz has_events(2)] by blast
      obtain k' f' where "schedule_thread ioctl (k\<lparr>k_barriers := bs1, k_sched := s1\<rparr>) = Some k'" "kok k' f' g"
        using resched_okD(2) [OF s1(2) K ok] by blast
      then show ?thesis using h r(1) now s1(1) ids(1)
        by (auto simp: wait_for_barrier_def wait_for_barrier_enter_def then_schedule_def scheduler_running_tid_def bs1_def)
    qed
  qed
qed

lemma thread_io_wait_ok:
  assumes K: "kok k f g"
  shows "\<exists>e f'. thread_io_wait_timed ioctl q ms chunk k = Some e \<and> kok (after e) f' g"
proof -
  let ?s = "k_sched k" and ?io = "k_io k"
  obtain now where now: "clock_get_milliseconds (k_clock k) = Some now" using kok_now [OF K] by blast
  obtain r where r: "running ?s = Some r" "slot_ok r (storage ?s r)" by (rule kok_runner [OF K])
  have keep: "kok (k\<lparr>k_io := io, k_sched := ?s\<rparr>) f g" if "iopoll_ok io" for io
    using K that by (simp add: kok_def kinv_def)
  note D = thread_io_wait_timed_def thread_io_wait_enter_def then_schedule_def Let_def
  show ?thesis
  proof (cases "\<exists>w x. q = Some w \<and> chunk = Some x")
    case False
    then show ?thesis using K now by (cases q; cases chunk) (auto simp: D)
  next
    case True
    then obtain w x where q: "q = Some w" "chunk = Some x" by blast
    define io1 where "io1 = ?io\<lparr>iw_item := (iw_item ?io)(x := set_tid (scheduler_running_tid ?s)
        ((iw_item ?io x)\<lparr>wqi_flags := IO_WAIT_DEFAULT\<rparr>)), iw_wq := (iw_wq ?io)(w := iw_wq ?io w @ [x])\<rparr>"
    have ok: "iopoll_ok io1" using kokD(9) [OF K] by (simp add: io1_def iopoll_ok_def)
    show ?thesis
    proof (cases "r = 0")
      case True
      have "t_tid (storage ?s 0) = THREAD_TID_IDLE" using kokD(3) [OF K] by (simp add: idle_ok_def)
      then have "scheduler_wait_thread now THREAD_FLAG_WAIT_COMPLETION (ucast ms) ?s = Some (False, ?s)"
        using wait_idle r True by simp
      then have "thread_io_wait_timed ioctl q ms chunk k = Some (Return EPERM
          (k\<lparr>k_io := upd_wq w (snd (handles_remove x (iw_wq io1 w))) io1, k_sched := ?s\<rparr>))"
        using q now by (simp add: D io1_def)
      moreover have "iopoll_ok (upd_wq w (snd (handles_remove x (iw_wq io1 w))) io1)"
        using ok by (simp add: iopoll_ok_def)
      ultimately show ?thesis using keep by (metis after.simps(1))
    next
      case False
      obtain s1 where s1: "scheduler_wait_thread now THREAD_FLAG_WAIT_COMPLETION (ucast ms) ?s = Some (True, s1)"
        "resched_ok ioctl k s1"
        using wait_kok [OF K r(1) False has_events(3)] by blast
      obtain k' f' where k': "schedule_thread ioctl (k\<lparr>k_io := io1, k_sched := s1\<rparr>) = Some k'" "kok k' f' g"
        using resched_okD(3) [OF s1(2) K ok] by blast
      then have "thread_io_wait_timed ioctl q ms chunk k = Some (Blocked k')"
        using q now s1(1) by (simp add: D io1_def)
      with k'(2) show ?thesis by auto
    qed
  qed
qed

section \<open>Mutexes\<close>

lemma mutexes_ok_upd: "mutexes_ok ms \<Longrightarrow> h \<in> set (mtx_list ms) \<Longrightarrow> mutex_ok m \<Longrightarrow> mutexes_ok (upd_mtx h m ms)"
  by (auto simp: mutexes_ok_def)

lemma lock_mutex_keeps:
  assumes ok: "mutexes_ok ms" and h: "h \<in> set (mtx_list ms)"
  shows "\<exists>b ms'. lock_mutex tid (Some h) s ms = Some (b, ms') \<and> mutexes_ok ms' \<and> (\<not> b \<longrightarrow> ms' = ms)"
proof -
  let ?m = "mtx_mem ms h"
  have m: "mutex_ok ?m" using ok h by (simp add: mutexes_ok_def)
  consider (refuse) "get_thread tid s = None \<or> tid = mtx_locker ?m"
    | (full) "get_thread tid s \<noteq> None" "tid \<noteq> mtx_locker ?m" "mtx_locker ?m \<noteq> THREAD_TID_INVALID" "cbuffer_free_space (mtx_ids ?m) = 0"
    | (room) "get_thread tid s \<noteq> None" "tid \<noteq> mtx_locker ?m" "Suc (length (waiters ?m)) < DIEGOS_MAX_THREADS"
    | (free) "get_thread tid s \<noteq> None" "tid \<noteq> mtx_locker ?m" "mtx_locker ?m = THREAD_TID_INVALID"
    using mutex_ok_free [OF m] by fastforce
  then show ?thesis
  proof cases
    case room
    from lock_mutex_ref [OF m this] show ?thesis using mutexes_ok_upd [OF ok h] by blast
  next
    case free
    have "waiters ?m = []" using m free(3) by (simp add: mutex_ok_def waiters_def)
    then have "Suc (length (waiters ?m)) < DIEGOS_MAX_THREADS" by (simp add: DIEGOS_MAX_THREADS_def)
    from lock_mutex_ref [OF m free(1,2) this] show ?thesis using mutexes_ok_upd [OF ok h] by blast
  next
    case refuse
    then have "lock_mutex tid (Some h) s ms = Some (False, ms)" by (elim disjE) (simp_all add: lock_mutex_def Let_def)
    with ok show ?thesis by blast
  next
    case full
    then have "lock_mutex tid (Some h) s ms = Some (False, ms)" by (simp add: lock_mutex_def Let_def)
    with ok show ?thesis by blast
  qed
qed

lemma thread_lock_mutex_ok:
  assumes K: "kok k f g" and h: "\<And>h. q = Some h \<Longrightarrow> h \<in> set (mtx_list (k_mutexes k))"
    and me: "running (k_sched k) \<noteq> Some 0"
  shows "\<exists>e f'. thread_lock_mutex_timed ioctl q ms k = Some e \<and> kok (after e) f' g"
proof (cases q)
  case None
  with K show ?thesis by (auto simp: thread_lock_mutex_timed_def)
next
  case (Some h)
  let ?s = "k_sched k"
  obtain now where now: "clock_get_milliseconds (k_clock k) = Some now" using kok_now [OF K] by blast
  obtain r where r: "running ?s = Some r" by (rule kok_runner [OF K])
  obtain b mt where l: "lock_mutex (t_tid (storage ?s r)) (Some h) ?s (k_mutexes k) = Some (b, mt)" "mutexes_ok mt"
    using lock_mutex_keeps [OF kokD(4) [OF K] assms(2) [OF Some]] by blast
  show ?thesis
  proof (cases "b \<and> mutex_is_locked (Some h) (k_mutexes k)")
    case False
    have "kok (k\<lparr>k_mutexes := mt\<rparr>) f g" using K l(2) by (simp add: kok_def kinv_def)
    with False Some r l(1) show ?thesis by (auto simp: thread_lock_mutex_timed_def)
  next
    case True
    have "r \<noteq> 0" using me r by auto
    then obtain s1 where s1: "scheduler_wait_thread now THREAD_FLAG_WAIT_MUTEX (ucast ms) ?s = Some (True, s1)"
      "resched_ok ioctl k s1" using wait_kok [OF K r _ has_events(4)] by blast
    obtain k' f' where "schedule_thread ioctl (k\<lparr>k_sched := s1, k_mutexes := mt\<rparr>) = Some k'" "kok k' f' g"
      using resched_okD(4) [OF s1(2) K l(2)] by blast
    with True Some r l(1) now s1(1) show ?thesis by (auto simp: thread_lock_mutex_timed_def)
  qed
qed

lemma unlock_mutex_keeps:
  assumes ok: "mutexes_ok ms" and h: "h \<in> set (mtx_list ms)" and u: "unlock_mutex tid (Some h) s ms = Some (b, ms')"
  shows "mutexes_ok ms'"
proof -
  let ?m = "mtx_mem ms h"
  have m: "mutex_ok ?m" using ok h by (simp add: mutexes_ok_def)
  show ?thesis
  proof (cases "mtx_locker ?m = THREAD_TID_INVALID \<or> tid \<noteq> mtx_locker ?m")
    case True
    with u ok show ?thesis by (auto simp: unlock_mutex_def)
  next
    case False
    obtain c where c: "(if \<not> cbuffer_is_empty (mtx_ids ?m) then drop_cancelled (mtx_buf ?m) (mtx_ids ?m)
              else Some (mtx_ids ?m)) = Some c" "cb_ok c" "cb_bufsize c = cb_bufsize (mtx_ids ?m)"
      using unlock_ring [OF m] by blast
    show ?thesis
    proof (cases "cbuffer_is_empty c")
      case True
      then have "ms' = upd_mtx h (?m\<lparr>mtx_locker := THREAD_TID_INVALID, mtx_ids := c\<rparr>) ms"
        using u False c(1) by (simp add: unlock_mutex_def Let_def)
      then show ?thesis using True c(2,3) m by (auto intro!: mutexes_ok_upd [OF ok h] simp: mutex_ok_def)
    next
      case n: False
      then obtain nxt p where p: "get_thread nxt s = Some p"
        "ms' = upd_mtx h (?m\<lparr>mtx_locker := t_tid (storage s p), mtx_ids := cbuffer_remove c\<rparr>) ms"
        using u False c(1) by (auto simp: unlock_mutex_def Let_def bind_eq_Some_conv)
      have "t_tid (storage s p) \<noteq> THREAD_TID_INVALID"
        using get_thread_valid [of nxt s] p(1) by (auto simp: get_thread_Some)
      then show ?thesis using p(2) c(2,3) m cb_ok_remove
        by (auto intro!: mutexes_ok_upd [OF ok h] simp: mutex_ok_def)
    qed
  qed
qed

lemma kok_resumed:
  assumes K: "kok k f g" and T: "flags AND THREAD_FLAG_WAIT_TIMEOUT = 0"
  shows "kok (k\<lparr>k_sched := resumed_by flags P (k_sched k)\<rparr>) f g"
proof -
  let ?s = "k_sched k"
  have same: "storage (resumed_by flags P ?s) p = storage ?s p" if "t_state (storage ?s p) \<noteq> THREAD_WAITING" for p
    using that by (simp add: resumed_by_def resumable_def)
  have i: "t_state (storage ?s 0) \<noteq> THREAD_WAITING"
    using kokD(2,3) [OF K] sinvD(2) [OF sched_invD(2) [OF kokD(5) [OF K]], of 0 "Ready 3"]
    by (auto simp: idle_ok_def run_ok_def)
  obtain r where r: "running ?s = Some r" "t_state (storage ?s r) = THREAD_RUNNING" "\<not> doomed (storage ?s) r"
    by (rule kok_runner [OF K])
  then have "storage (resumed_by flags P ?s) r = storage ?s r" using same by simp
  moreover have "idle_ok (resumed_by flags P ?s) f" using kokD(3) [OF K] same [OF i] by (simp add: idle_ok_def)
  ultimately show ?thesis
    using K r resumed_by_inv [OF kokD(5) [OF K] T] resumed_by_table [OF kokD(6) [OF K]] resumed_by_run_ok [OF kokD(2) [OF K]]
    by (simp add: kok_def kinv_def)
qed

lemma thread_unlock_mutex_ok:
  assumes K: "kok k f g" and h: "\<And>h. q = Some h \<Longrightarrow> h \<in> set (mtx_list (k_mutexes k))"
    and u: "thread_unlock_mutex q k = Some (st, k')"
  shows "kok k' f g"
proof (cases q)
  case None
  with K u show ?thesis by (simp add: thread_unlock_mutex_def)
next
  case (Some h)
  then obtain b mt where l: "unlock_mutex (my_thread_id k) (Some h) (k_sched k) (k_mutexes k) = Some (b, mt)"
    using u by (auto simp: thread_unlock_mutex_def bind_eq_Some_conv)
  have ok: "mutexes_ok mt" using unlock_mutex_keeps [OF kokD(4) [OF K] assms(2) [OF Some] l] .
  have T: "THREAD_FLAG_WAIT_MUTEX AND THREAD_FLAG_WAIT_TIMEOUT = 0" by (simp add: flag_defs)
  have a: "kok (k\<lparr>k_mutexes := mt\<rparr>) f g" using K ok by (simp add: kok_def kinv_def)
  have "k' = k\<lparr>k_mutexes := mt\<rparr> \<or> (\<exists>P. k' = k\<lparr>k_mutexes := mt, k_sched := resumed_by THREAD_FLAG_WAIT_MUTEX P (k_sched k)\<rparr>)"
    using u Some l by (auto simp: thread_unlock_mutex_def Let_def resume_one split: if_splits)
  with a kok_resumed [OF a T] show ?thesis by auto
qed

section \<open>Creating and ending threads\<close>

text \<open>
  A change of one thread that keeps its slot, its place in its queue and, for the idle thread and
  the running thread, everything the invariant reads.
\<close>

lemma kok_flagged:
  assumes K: "kok k f g" and p: "slot_ok p (storage (k_sched k) p)" "p \<noteq> 0" "running (k_sched k) \<noteq> Some p"
    and t: "t_tid t = t_tid (storage (k_sched k) p)" "t_priority t = t_priority (storage (k_sched k) p)"
      "t_delay t = t_delay (storage (k_sched k) p)"
    and pl: "\<And>q. p \<in> set (f q) \<Longrightarrow> place_ok q t"
  shows "kok (k\<lparr>k_sched := (k_sched k)\<lparr>storage := (storage (k_sched k))(p := t)\<rparr>\<rparr>) f g"
proof -
  let ?s = "k_sched k" and ?st = "(storage (k_sched k))(p := t)"
  have S: "sinv (storage ?s) f" using sched_invD(2) [OF kokD(5) [OF K]] .
  have d: "t_delay (?st y) = t_delay (storage ?s y)" for y using t(3) by simp
  have "by_delay ?st (f Delay) = by_delay (storage ?s) (f Delay)" unfolding by_delay_def d ..
  moreover have "slot_ok y (?st y) \<and> place_ok q (?st y)" if "y \<in> set (f q)" for y q
    using that sinvD(1,2) [OF S that] p(1) t pl [of q] by (auto simp: slot_ok_def simp del: place_ok.simps)
  ultimately have "sinv ?st f" using sinvD(3) [OF S] by (simp add: sinv_def)
  moreover have "table_ok ?st" using kokD(6) [OF K] p(1) t by (auto simp: table_ok_def slot_ok_def)
  moreover obtain r where "running ?s = Some r" "slot_ok r (storage ?s r)" "t_state (storage ?s r) = THREAD_RUNNING"
    "unlinked f r" "\<not> doomed (storage ?s) r" by (rule kok_runner [OF K])
  ultimately show ?thesis using K p by (auto simp: kok_def kinv_def sched_inv_def run_ok_def idle_ok_def)
qed

lemma thread_terminate_ok:
  assumes K: "kok k f g" and r: "running (k_sched k) = Some r"
    and tid: "t_tid (storage (k_sched k) r) \<noteq> THREAD_TID_IDLE" "t_tid (storage (k_sched k) r) \<noteq> THREAD_TID_TMRS"
  shows "\<exists>k' f'. thread_terminate ioctl k = Some (Done k') \<and> kok k' f' g \<and> f' Dead = [] \<and> k_mutexes k' = k_mutexes k"
proof -
  let ?s = "k_sched k" and ?t = "(storage (k_sched k) r)\<lparr>t_state := THREAD_DEAD\<rparr>"
  have rs: "slot_ok r (storage ?s r)" "unlinked f r" "t_state (storage ?s r) = THREAD_RUNNING"
    using K r by (auto simp: run_ok_def kok_def)
  have "r \<noteq> 0" using tid(1) tid_idle_slot [OF rs(1)] by simp
  define s0 where "s0 = ?s\<lparr>storage := (storage ?s)(r := ?t)\<rparr>"
  define f1 where "f1 = f(Dead := f Dead @ [r])"
  have "sinv ((storage ?s)(r := ?t)) f"
    using sinv_upd_unlinked [OF sched_invD(2) [OF kokD(5) [OF K]] rs(2)] .
  then have I0: "sched_inv s0 f" using kokD(5) [OF K] by (simp add: sched_inv_def s0_def)
  have t: "slot_ok r ?t" "place_ok Dead ?t" using rs(1) by (simp_all add: slot_ok_def)
  obtain m where m: "sq_enq Dead r s0 = Some (EOK, s0\<lparr>sqm := m\<rparr>)"
    "sched_inv (s0\<lparr>sqm := m, storage := (storage s0)(r := ?t)\<rparr>) f1"
    using running_to_queue [OF I0 rs(2) t] unfolding f1_def by blast
  define s1 where "s1 = s0\<lparr>sqm := m\<rparr>"
  have s1: "sched_inv s1 f1" "storage s1 = (storage ?s)(r := ?t)" using m(2) by (simp_all add: s1_def s0_def)
  have "\<exists>k' f' x. schedule_thread ioctl (k\<lparr>k_sched := s1\<rparr>) = Some k' \<and> kok k' f' g \<and> k_mutexes k' = k_mutexes k \<and>
      sched_post (k\<lparr>k_sched := s1\<rparr>) f1 k' f' x"
    using leave_kok [OF K r, of s1 f1 ?t "k_events k" g "k_barriers k" "k_io k" "k_mutexes k" ioctl] s1 t(1) \<open>r \<noteq> 0\<close>
      kokD [OF K] unfolding k_upd_triv by (auto simp: f1_def)
  then obtain k' f' x where k': "schedule_thread ioctl (k\<lparr>k_sched := s1\<rparr>) = Some k'" "kok k' f' g"
    "k_mutexes k' = k_mutexes k" "f' Dead = []" by (auto simp: sched_post_def)
  have "scheduler_remove_thread (t_tid (storage ?s r)) k = Some (True, k\<lparr>k_sched := s1\<rparr>)"
    using get_thread_slot [OF rs(1)] tid rs(3) m(1)
    by (simp add: scheduler_remove_thread_def Let_def s0_def s1_def)
  with k' r show ?thesis by (auto simp: thread_terminate_def)
qed

lemma bitmap_clear_length: "bitmap_clear bm p = Some bm' \<Longrightarrow> length bm' = length bm"
  by (auto simp: bitmap_clear_def Let_def bind_eq_Some_conv arr_set_def split: if_splits)

lemma unwatch_keeps: "events_ok ev g \<Longrightarrow> set hs \<subseteq> set (ev_list ev) \<Longrightarrow> events_ok (snd (unwatch tid hs ev)) g"
  by (induction hs) (auto simp: events_ok_def)

lemma cancel_events_keeps: "events_ok ev g \<Longrightarrow> cancel_wait_for_events tid s ev = (r, ev') \<Longrightarrow> events_ok ev' g"
  using unwatch_keeps [of ev g "ev_list ev" tid] by (auto simp: cancel_wait_for_events_def split: option.splits if_splits)

lemma unbar_keeps: "barriers_ok bs \<Longrightarrow> unbar tid hs bs = Some (r, bs') \<Longrightarrow> barriers_ok bs'"
proof (induction hs)
  case (Cons h hs)
  from Cons.prems(2) obtain b where b: "bitmap_is_set (bar_ids (bar_mem bs h)) (unat tid) = Some b"
    by (auto simp: bind_eq_Some_conv)
  show ?case
  proof (cases b)
    case True
    with Cons.prems b obtain ids where i: "bitmap_clear (bar_ids (bar_mem bs h)) (unat tid) = Some ids"
      "bs' = upd_bar h ((bar_mem bs h)\<lparr>bar_ids := ids\<rparr>) bs" by (auto simp: bind_eq_Some_conv)
    with Cons.prems(1) bitmap_clear_length [OF i(1)] show ?thesis by (auto simp: barriers_ok_def)
  next
    case False
    with Cons b show ?thesis by simp
  qed
qed simp

lemma cancel_barrier_keeps: "barriers_ok bs \<Longrightarrow> cancel_wait_for_barrier tid s bs = Some (r, bs') \<Longrightarrow> barriers_ok bs'"
  by (auto simp: cancel_wait_for_barrier_def split: option.splits if_splits intro: unbar_keeps)

lemma cancel_io_keeps:
  assumes "iopoll_ok io" "cancel_io_waits tid io = Some (r, io')"
  shows "iopoll_ok io'"
proof -
  have "iopoll_ok (fold (cancel_in_wq tid) ws io)" for ws
    using assms(1)
  proof (induction ws arbitrary: io)
    case (Cons w ws)
    have "iopoll_ok (cancel_in_wq tid w io)"
      using Cons.prems by (auto simp: cancel_in_wq_def iopoll_ok_def split: option.splits)
    with Cons.IH show ?case by simp
  qed simp
  with assms(2) show ?thesis
    by (auto simp: cancel_io_waits_def Let_def bind_eq_Some_conv iopoll_ok_def dest: bitmap_clear_length)
qed

text \<open>A thread that waits for nothing but a mutex; killing it breaks the queues (see the root theory).\<close>

definition mutex_waiter :: "u8 \<Rightarrow> sched \<Rightarrow> bool" where
  "mutex_waiter tid s \<longleftrightarrow> (case get_thread tid s of None \<Rightarrow> False
     | Some p \<Rightarrow> t_state (storage s p) = THREAD_WAITING \<and>
                 t_flags (storage s p) AND THREAD_MASK_WAIT = THREAD_FLAG_WAIT_MUTEX)"

lemma doomed_place:
  assumes "place_ok q t" "t_state t = THREAD_WAITING"
  shows "place_ok q (t\<lparr>t_flags := (t_flags t AND NOT THREAD_MASK_WAIT) OR THREAD_FLAG_TERMINATE\<rparr>)"
proof -
  let ?w = "(t_flags t AND NOT THREAD_MASK_WAIT) OR THREAD_FLAG_TERMINATE"
  have "THREAD_FLAG_TERMINATE AND THREAD_MASK_EVENTS = 0" by (simp add: flag_defs)
  then have "?w AND THREAD_MASK_EVENTS = 0"
    by (simp add: bit.conj_disj_distrib2 clear_wait_has)
  then show ?thesis using assms or_terminate_has(1) [of "t_flags t AND NOT THREAD_MASK_WAIT"] by (cases q) auto
qed

lemma kok_kill_waiting:
  assumes K: "kok k f g" and p: "slot_ok p (storage (k_sched k) p)" "p \<noteq> 0" "t_state (storage (k_sched k) p) = THREAD_WAITING"
  shows "kok (k\<lparr>k_sched := upd_thread p (\<lambda>t. t\<lparr>t_flags := t_flags t OR THREAD_FLAG_TERMINATE\<rparr>)
      (upd_thread p (\<lambda>t. t\<lparr>t_flags := t_flags t AND NOT THREAD_MASK_WAIT\<rparr>) (k_sched k))\<rparr>) f g"
proof -
  let ?t = "storage (k_sched k) p"
  have "running (k_sched k) \<noteq> Some p" using kok_runner [OF K] p(3) by (metis option.sel tstate.distinct(1))
  moreover have "place_ok q (?t\<lparr>t_flags := (t_flags ?t AND NOT THREAD_MASK_WAIT) OR THREAD_FLAG_TERMINATE\<rparr>)"
    if "p \<in> set (f q)" for q
    using doomed_place [OF sinvD(2) [OF sched_invD(2) [OF kokD(5) [OF K]] that] p(3)] .
  ultimately have "kok (k\<lparr>k_sched := (k_sched k)\<lparr>storage := (storage (k_sched k))(p :=
      ?t\<lparr>t_flags := (t_flags ?t AND NOT THREAD_MASK_WAIT) OR THREAD_FLAG_TERMINATE\<rparr>)\<rparr>\<rparr>) f g"
    by (intro kok_flagged [OF K p(1,2)]) auto
  then show ?thesis by simp
qed

lemma kok_kill_ready:
  assumes K: "kok k f g" and p: "slot_ok p (storage (k_sched k) p)" "p \<noteq> 0" "t_state (storage (k_sched k) p) = THREAD_READY"
  shows "kok (k\<lparr>k_sched := upd_thread p (\<lambda>t. t\<lparr>t_flags := t_flags t OR THREAD_FLAG_TERMINATE\<rparr>) (k_sched k)\<rparr>) f g"
proof -
  have r: "running (k_sched k) \<noteq> Some p" using kok_runner [OF K] p(3) by (metis option.sel tstate.distinct(3))
  have "place_ok q ((storage (k_sched k) p)\<lparr>t_flags := t_flags (storage (k_sched k) p) OR THREAD_FLAG_TERMINATE\<rparr>)"
    if "p \<in> set (f q)" for q
    using sinvD(2) [OF sched_invD(2) [OF kokD(5) [OF K]] that] p(3) by (cases q) auto
  then show ?thesis by (intro kok_flagged [OF K p(1,2) r]) auto
qed

text \<open>Killing a thread whose state is running but which is not the running thread buries it.\<close>

lemma kok_bury:
  assumes K: "kok k f g" and p: "slot_ok p (storage (k_sched k) p)" "p \<noteq> 0" "running (k_sched k) \<noteq> Some p" "unlinked f p"
    and e: "sq_enq Dead p (upd_thread p (\<lambda>t. t\<lparr>t_state := THREAD_DEAD\<rparr>) (k_sched k)) = Some (st, s1)"
  shows "st = EOK \<and> kok (k\<lparr>k_sched := s1\<rparr>) (f(Dead := f Dead @ [p])) g"
proof -
  let ?s = "k_sched k" and ?t = "(storage (k_sched k) p)\<lparr>t_state := THREAD_DEAD\<rparr>"
  define s0 where "s0 = ?s\<lparr>storage := (storage ?s)(p := ?t)\<rparr>"
  have "sinv ((storage ?s)(p := ?t)) f"
    using sinv_upd_unlinked [OF sched_invD(2) [OF kokD(5) [OF K]] p(4)] .
  then have I0: "sched_inv s0 f" using kokD(5) [OF K] by (simp add: sched_inv_def s0_def)
  have t: "slot_ok p ?t" "place_ok Dead ?t" using p(1) by (simp_all add: slot_ok_def)
  obtain m where m: "sq_enq Dead p s0 = Some (EOK, s0\<lparr>sqm := m\<rparr>)"
    "sched_inv (s0\<lparr>sqm := m, storage := (storage s0)(p := ?t)\<rparr>) (f(Dead := f Dead @ [p]))"
    using running_to_queue [OF I0 p(4) t] by blast
  have s1: "st = EOK" "s1 = s0\<lparr>sqm := m\<rparr>" using e m(1) by (simp_all add: s0_def)
  have "sched_inv s1 (f(Dead := f Dead @ [p]))" using m(2) by (simp add: s1 s0_def)
  moreover have "table_ok (storage s1)" using kokD(6) [OF K] p(1) by (auto simp: s1 s0_def table_ok_def slot_ok_def)
  moreover obtain r where r: "running ?s = Some r" "slot_ok r (storage ?s r)" "t_state (storage ?s r) = THREAD_RUNNING"
    "unlinked f r" "\<not> doomed (storage ?s) r" by (rule kok_runner [OF K])
  then have "run_ok s1 (f(Dead := f Dead @ [p]))" using p(3) by (auto simp: run_ok_def s1 s0_def unlinked_def)
  ultimately show ?thesis using K p(2,3) r s1(1)
    by (auto simp: kok_def kinv_def idle_ok_def s1 s0_def)
qed

lemma kill_waiting:
  assumes K: "kok k f g" and p: "get_thread tid (k_sched k) = Some p" "slot_ok p (storage (k_sched k) p)"
      "t_state (storage (k_sched k) p) = THREAD_WAITING"
    and t: "tid \<noteq> THREAD_TID_IDLE" "tid \<noteq> THREAD_TID_TMRS" and w: "\<not> mutex_waiter tid (k_sched k)"
    and R: "scheduler_remove_thread tid k = Some (True, k')"
  shows "kok k' f g"
proof -
  let ?s = "k_sched k" and ?w = "t_flags (storage (k_sched k) p) AND THREAD_MASK_WAIT"
  let ?fin = "\<lambda>k1. k1\<lparr>k_sched := upd_thread p (\<lambda>t. t\<lparr>t_flags := t_flags t OR THREAD_FLAG_TERMINATE\<rparr>)
      (upd_thread p (\<lambda>t. t\<lparr>t_flags := t_flags t AND NOT THREAD_MASK_WAIT\<rparr>) (k_sched k1))\<rparr>"
  have p0: "p \<noteq> 0" using t(1) p(1) by (auto simp: get_thread_Some thread_consts unat_eq_0)
  have fin: "kok (?fin k1) f g" if "kok k1 f g" "k_sched k1 = ?s" for k1
    using kok_kill_waiting [OF that(1), of p] p(2,3) p0 that(2) by simp
  have m: "?w \<noteq> THREAD_FLAG_WAIT_MUTEX" using w p(1,3) by (simp add: mutex_waiter_def)
  consider (ev) "?w = THREAD_FLAG_WAIT_EVENT" | (ba) "?w = THREAD_FLAG_WAIT_BARRIER" | (io) "?w = THREAD_FLAG_WAIT_COMPLETION"
    | (other) "?w \<notin> {THREAD_FLAG_WAIT_EVENT, THREAD_FLAG_WAIT_BARRIER, THREAD_FLAG_WAIT_COMPLETION}" by blast
  then show ?thesis
  proof cases
    case ev
    obtain r e where c: "cancel_wait_for_events tid ?s (k_events k) = (r, e)" by fastforce
    have "k' = ?fin (k\<lparr>k_events := e\<rparr>)"
      using R p t ev c by (auto simp: scheduler_remove_thread_def Let_def split: if_splits)
    moreover have "kok (k\<lparr>k_events := e\<rparr>) f g"
      using K cancel_events_keeps [OF kokD(7) [OF K] c] by (simp add: kok_def kinv_def)
    ultimately show ?thesis using fin [of "k\<lparr>k_events := e\<rparr>"] by simp
  next
    case ba
    then have "?w \<noteq> THREAD_FLAG_WAIT_EVENT" by (simp add: flag_defs)
    with R p t ba obtain bs where c: "cancel_wait_for_barrier tid ?s (k_barriers k) = Some (EOK, bs)"
      "k' = ?fin (k\<lparr>k_barriers := bs\<rparr>)"
      by (auto simp: scheduler_remove_thread_def Let_def bind_eq_Some_conv split: if_splits)
    moreover have "kok (k\<lparr>k_barriers := bs\<rparr>) f g"
      using K cancel_barrier_keeps [OF kokD(8) [OF K] c(1)] by (simp add: kok_def kinv_def)
    ultimately show ?thesis using fin [of "k\<lparr>k_barriers := bs\<rparr>"] by simp
  next
    case io
    then have "?w \<noteq> THREAD_FLAG_WAIT_EVENT" "?w \<noteq> THREAD_FLAG_WAIT_BARRIER" by (simp_all add: flag_defs)
    with R p t io obtain i where c: "cancel_io_waits tid (k_io k) = Some (EOK, i)" "k' = ?fin (k\<lparr>k_io := i\<rparr>)"
      by (auto simp: scheduler_remove_thread_def Let_def bind_eq_Some_conv split: if_splits)
    moreover have "kok (k\<lparr>k_io := i\<rparr>) f g"
      using K cancel_io_keeps [OF kokD(9) [OF K] c(1)] by (simp add: kok_def kinv_def)
    ultimately show ?thesis using fin [of "k\<lparr>k_io := i\<rparr>"] by simp
  next
    case other
    with R p t m have "k' = ?fin k"
      by (auto simp: scheduler_remove_thread_def Let_def split: if_splits)
    with fin [OF K] show ?thesis by simp
  qed
qed

lemma thread_kill_ok:
  assumes K: "kok k f g" and R: "thread_kill tid k = Some (Done k')" and w: "\<not> mutex_waiter tid (k_sched k)"
  shows "\<exists>f'. kok k' f' g"
proof (cases "tid = scheduler_running_tid (k_sched k)")
  case True
  with R K show ?thesis by (auto simp: thread_kill_def)
next
  case False
  let ?s = "k_sched k"
  have T: "scheduler_remove_thread tid k = Some (True, k')"
    using R False by (auto simp: thread_kill_def bind_eq_Some_conv split: if_splits)
  then obtain p where p: "get_thread tid ?s = Some p" and t: "tid \<noteq> THREAD_TID_IDLE" "tid \<noteq> THREAD_TID_TMRS"
    by (auto simp: scheduler_remove_thread_def Let_def split: option.splits if_splits)
  have "t_tid (storage ?s p) \<noteq> THREAD_TID_INVALID" "p < DIEGOS_MAX_THREADS" "t_tid (storage ?s p) = tid"
    using p get_thread_valid [of tid ?s] by (auto simp: get_thread_Some)
  then have sl: "slot_ok p (storage ?s p)" using kokD(6) [OF K] by (auto simp: table_ok_def slot_ok_def)
  have p0: "p \<noteq> 0" using t(1) p by (auto simp: get_thread_Some thread_consts unat_eq_0)
  have nr: "running ?s \<noteq> Some p"
    using False p by (auto simp: scheduler_running_tid_def get_thread_Some)
  show ?thesis
  proof (cases "t_state (storage ?s p)")
    case THREAD_RUNNING
    then obtain st s1 where "sq_enq Dead p (upd_thread p (\<lambda>t. t\<lparr>t_state := THREAD_DEAD\<rparr>) ?s) = Some (st, s1)"
      "k' = k\<lparr>k_sched := s1\<rparr>"
      using T p t by (auto simp: scheduler_remove_thread_def Let_def bind_eq_Some_conv)
    moreover have "unlinked f p" using running_unlinked [OF sched_invD(2) [OF kokD(5) [OF K]] THREAD_RUNNING] .
    ultimately show ?thesis using kok_bury [OF K sl p0 nr] by blast
  next
    case THREAD_WAITING
    from kill_waiting [OF K p sl this t w T] show ?thesis by blast
  next
    case THREAD_READY
    then have "k' = k\<lparr>k_sched := upd_thread p (\<lambda>t. t\<lparr>t_flags := t_flags t OR THREAD_FLAG_TERMINATE\<rparr>) ?s\<rparr>"
      using T p t by (simp add: scheduler_remove_thread_def Let_def)
    with kok_kill_ready [OF K sl p0 THREAD_READY] show ?thesis by blast
  next
    case THREAD_DEAD
    with T p t show ?thesis by (simp add: scheduler_remove_thread_def Let_def)
  qed
qed

lemma scan_slots_free:
  "scan_slots st name xs o1 = Some (Some i) \<Longrightarrow> o1 = Some i \<or> i \<in> set xs \<and> t_name (st i) = [] \<and> t_tid (st i) = THREAD_TID_INVALID"
proof (induction xs arbitrary: o1)
  case (Cons j js)
  then show ?case by (fastforce split: if_splits)
qed simp

lemma free_unlinked:
  assumes K: "kok k f g" and i: "i < DIEGOS_MAX_THREADS" "t_tid (storage (k_sched k) i) = THREAD_TID_INVALID"
  shows "unlinked f i" "i \<noteq> 0" "running (k_sched k) \<noteq> Some i"
proof -
  have n: "\<not> slot_ok i (storage (k_sched k) i)"
    using i by (auto simp: slot_ok_def thread_consts word_unat_eq_iff)
  then show "unlinked f i"
    using sinvD(1) [OF sched_invD(2) [OF kokD(5) [OF K]]] by (auto simp: unlinked_def)
  show "i \<noteq> 0"
  proof
    assume "i = 0"
    with i(2) kokD(3) [OF K] show False by (simp add: idle_ok_def thread_consts)
  qed
  show "running (k_sched k) \<noteq> Some i" using n kokD(2) [OF K] by (auto simp: run_ok_def)
qed

lemma kok_free_upd:
  assumes K: "kok k f g" and i: "i < DIEGOS_MAX_THREADS" "t_tid (storage (k_sched k) i) = THREAD_TID_INVALID"
    and t: "t_tid t = THREAD_TID_INVALID \<or> slot_ok i t"
  shows "kok (k\<lparr>k_sched := (k_sched k)\<lparr>storage := (storage (k_sched k))(i := t), thread_num := n\<rparr>\<rparr>) f g"
proof -
  let ?s = "k_sched k"
  note fr = free_unlinked [OF K i]
  have "sinv ((storage ?s)(i := t)) f"
    using sinv_upd_unlinked [OF sched_invD(2) [OF kokD(5) [OF K]] fr(1)] .
  moreover have "table_ok ((storage ?s)(i := t))" using kokD(6) [OF K] t by (auto simp: table_ok_def slot_ok_def)
  moreover obtain r where "running ?s = Some r" "slot_ok r (storage ?s r)" "t_state (storage ?s r) = THREAD_RUNNING"
    "unlinked f r" "\<not> doomed (storage ?s) r" by (rule kok_runner [OF K])
  ultimately show ?thesis using K fr(2,3) by (auto simp: kok_def kinv_def sched_inv_def run_ok_def idle_ok_def)
qed

lemma kok_queued:
  assumes K: "kok k f g" and S: "sched_inv ((k_sched k)\<lparr>sqm := m\<rparr>) f'" and p: "t_state (storage (k_sched k) p) = THREAD_READY"
    and f': "f' = f(Ready n := f (Ready n) @ [p])"
  shows "kok (k\<lparr>k_sched := (k_sched k)\<lparr>sqm := m\<rparr>\<rparr>) f' g"
proof -
  obtain r where r: "running (k_sched k) = Some r" "slot_ok r (storage (k_sched k) r)" "unlinked f r"
    "t_state (storage (k_sched k) r) = THREAD_RUNNING" "\<not> doomed (storage (k_sched k)) r" by (rule kok_runner [OF K])
  then have "p \<noteq> r" using p by auto
  with r(3) have "unlinked f' r" by (auto simp: unlinked_def f')
  with K S r show ?thesis by (auto simp: kok_def kinv_def run_ok_def idle_ok_def f')
qed

text \<open>A thread that was just created is ready and joins the ready queue of its priority.\<close>

lemma init_thread_ok:
  assumes K: "kok k f g" and I: "init_thread name prio en stack sz malloced ctx (k_sched k) = Some (ntid, s)"
  shows "kok (k\<lparr>k_sched := s\<rparr>) f g \<and> (ntid \<noteq> THREAD_TID_INVALID \<longrightarrow>
    (\<exists>p. get_thread ntid s = Some p \<and> slot_ok p (storage s p) \<and> t_state (storage s p) = THREAD_READY \<and>
       t_priority (storage s p) = unat prio \<and> unlinked f p))"
proof (cases "scan_slots (storage (k_sched k)) (the name) [0..<DIEGOS_MAX_THREADS] None")
  case None
  with I K show ?thesis by (auto simp: init_thread_def split: if_splits)
next
  case (Some o1)
  let ?s = "k_sched k"
  show ?thesis
  proof (cases "s = ?s \<and> ntid = THREAD_TID_INVALID")
    case True
    with K show ?thesis by simp
  next
    case False
    with I Some obtain i where o1: "o1 = Some i" by (cases o1) (auto simp: init_thread_def split: if_splits)
    have i: "i < DIEGOS_MAX_THREADS" "t_tid (storage ?s i) = THREAD_TID_INVALID"
      using scan_slots_free [of "storage ?s" "the name" "[0..<DIEGOS_MAX_THREADS]" None i] Some o1 by auto
    let ?bad = "unat (thread_num ?s) = DIEGOS_MAX_THREADS \<or> name = None \<or> en = None \<or> \<not> unat prio < THREAD_PRIORITIES"
    have gd: "\<not> ?bad"
    proof
      assume "?bad"
      then have "init_thread name prio en stack sz malloced ctx ?s = Some (THREAD_TID_INVALID, ?s)"
        unfolding init_thread_def by (rule if_P)
      with I False show False by simp
    qed
    define t1 where "t1 = (if stack \<noteq> None then (storage ?s i)\<lparr>t_stack := stack\<rparr>
        else (storage ?s i)\<lparr>t_stack := malloced, t_flags := t_flags (storage ?s i) OR THREAD_FLAG_REL_STACK\<rparr>)"
    define t2 where "t2 = t1\<lparr>t_stack_size := sz, t_name := take THREAD_NAME_MAX (the name), t_priority := unat prio,
        t_state := THREAD_READY, t_tid := of_nat i, t_entry := en, t_delay := 0, t_context := ctx\<rparr>"
    have E: "init_thread name prio en stack sz malloced ctx ?s = (if t_stack t1 = None
        then Some (THREAD_TID_INVALID, ?s\<lparr>storage := (storage ?s)(i := t1\<lparr>t_flags := 0\<rparr>)\<rparr>)
        else Some (of_nat i, ?s\<lparr>storage := (storage ?s)(i := t2), thread_num := thread_num ?s + 1\<rparr>))"
      unfolding init_thread_def if_not_P [OF gd] Some o1 option.case Let_def t1_def [symmetric] t2_def [symmetric] ..
    have pr: "unat prio < THREAD_PRIORITIES" using gd by simp
    have t1: "t_tid (t1\<lparr>t_flags := 0\<rparr>) = THREAD_TID_INVALID" using i(2) by (simp add: t1_def)
    have t2: "t_tid t2 = of_nat i" "t_priority t2 = unat prio" "t_state t2 = THREAD_READY" by (simp_all add: t2_def)
    show ?thesis
    proof (cases "t_stack t1 = None")
      case True
      then have "s = ?s\<lparr>storage := (storage ?s)(i := t1\<lparr>t_flags := 0\<rparr>), thread_num := thread_num ?s\<rparr>" "ntid = THREAD_TID_INVALID"
        using I E by auto
      with kok_free_upd [OF K i, of "t1\<lparr>t_flags := 0\<rparr>" "thread_num ?s"] t1 show ?thesis by blast
    next
      case n: False
      then have s: "s = ?s\<lparr>storage := (storage ?s)(i := t2), thread_num := thread_num ?s + 1\<rparr>" "ntid = of_nat i"
        using I E by auto
      have sl: "slot_ok i t2" using t2 i(1) pr by (simp add: slot_ok_def)
      have st: "storage s i = t2" by (simp add: s)
      have "kok (k\<lparr>k_sched := s\<rparr>) f g" using kok_free_upd [OF K i] sl unfolding s by blast
      moreover have "get_thread ntid s = Some i" using get_thread_slot [of i s] st sl t2(1) s(2) by simp
      ultimately show ?thesis using st sl t2 free_unlinked(1) [OF K i] by auto
    qed
  qed
qed

lemma thread_create_ok:
  assumes K: "kok k f g"
    and C: "thread_create name prio en stack sz out malloced ctx k = Some (Done (b, tid, k'))"
  shows "\<exists>f'. kok k' f' g"
proof (cases "\<not> out \<or> sz = 0 \<or> en = None \<or> name = None")
  case True
  with C K show ?thesis by (auto simp: thread_create_def split: if_splits)
next
  case False
  with C obtain ntid s where I: "init_thread name prio en stack sz malloced ctx (k_sched k) = Some (ntid, s)"
    by (auto simp: thread_create_def bind_eq_Some_conv)
  note N = init_thread_ok [OF K I]
  show ?thesis
  proof (cases "ntid = THREAD_TID_INVALID")
    case True
    with C False I N show ?thesis by (auto simp: thread_create_def)
  next
    case n: False
    then obtain p where p: "get_thread ntid s = Some p" "slot_ok p (storage s p)" "t_state (storage s p) = THREAD_READY" "unlinked f p"
      using N by blast
    let ?k = "k\<lparr>k_sched := s\<rparr>" and ?q = "Ready (t_priority (storage s p))"
    have K1: "kok ?k f g" using N by simp
    have S1: "sched_inv s f" using kokD(5) [OF K1] by simp
    obtain m where m: "scheduler_add_thread ntid s = Some (True, s\<lparr>sqm := m\<rparr>)"
      "sched_inv (s\<lparr>sqm := m\<rparr>) (f(?q := f ?q @ [p]))"
      using add_spec [OF S1 p] by blast
    have "k' = k\<lparr>k_sched := s\<lparr>sqm := m\<rparr>\<rparr>" using C False I n m(1) by (auto simp: thread_create_def)
    then show ?thesis using kok_queued [OF K1, of m "f(?q := f ?q @ [p])" p "t_priority (storage s p)"] m(2) p(3) by auto
  qed
qed

section \<open>Suspending when others are ready\<close>

lemma update_kok:
  assumes K: "kok k f g"
  shows "\<exists>k' f'. update_schedule ioctl k = Some k' \<and> kok k' f' g \<and> running (k_sched k') = running (k_sched k)"
proof -
  obtain k' f' where u: "update_schedule ioctl k = Some k'" "kinv k' f' g" "k_mutexes k' = k_mutexes k"
    "upd_rel (k_sched k) f (k_sched k') f'" using update_schedule_spec [OF kokD(1) [OF K]] by blast
  have "run_ok (k_sched k') f'" using upd_rel_run_ok [OF u(4) kokD(2) [OF K]] u(2) by (simp add: kinv_def)
  moreover have "idle_ok (k_sched k') f'"
    using kokD(3) [OF K] u(4) by (auto simp: idle_ok_def upd_rel_def same_ids_def)
  moreover have "\<not> doomed (storage (k_sched k')) r" if "running (k_sched k') = Some r" for r
    using K u(4) that by (auto simp: kok_def upd_rel_def same_ids_def)
  ultimately show ?thesis using u K by (auto simp: kok_def upd_rel_def)
qed

lemma ready_total_Some: "\<forall>i \<in> set is. i < THREAD_PRIORITIES \<Longrightarrow> \<exists>n. ready_total is s tot = Some n"
  by (induction "is" arbitrary: tot) (auto simp: ready_queue_def)

lemma thread_may_suspend_ok:
  assumes K: "kok k f g"
  shows "\<exists>k' f'. thread_may_suspend ioctl k = Some (Done k') \<and> kok k' f' g"
proof -
  obtain r where r: "running (k_sched k) = Some r" by (rule kok_runner [OF K])
  obtain k1 f1 where u: "update_schedule ioctl k = Some k1" "kok k1 f1 g" "running (k_sched k1) = Some r"
    using update_kok [OF K, of ioctl] r by metis
  have "slot_ok r (storage (k_sched k1) r)" using kokD(2) [OF u(2)] u(3) by (auto simp: run_ok_def)
  then have p: "t_priority (storage (k_sched k1) r) < THREAD_PRIORITIES" by (simp add: slot_ok_def)
  then have "unat (of_nat (t_priority (storage (k_sched k1) r)) :: u8) = t_priority (storage (k_sched k1) r)"
    by (simp add: THREAD_PRIORITIES_def)
  then obtain n where n: "scheduler_ready_threads (of_nat (t_priority (storage (k_sched k1) r))) (k_sched k1) = Some n"
    using ready_total_Some [of "[0..<t_priority (storage (k_sched k1) r)]" "k_sched k1" 0] p
    by (auto simp: scheduler_ready_threads_def)
  show ?thesis
  proof (cases "n = 0")
    case True
    with r u n show ?thesis by (auto simp: thread_may_suspend_def)
  next
    case False
    obtain k' f' where "thread_suspend ioctl k1 = Some (Done k')" "kok k' f' g"
      using thread_suspend_ok [OF u(2,3)] by blast
    with False r u n show ?thesis by (auto simp: thread_may_suspend_def)
  qed
qed

section \<open>The calls that do not switch\<close>

lemma kok_events: "kok k f g \<Longrightarrow> events_ok ev g' \<Longrightarrow> kok (k\<lparr>k_events := ev\<rparr>) f g'"
  by (simp add: kok_def kinv_def)

lemma kok_barriers: "kok k f g \<Longrightarrow> barriers_ok bs \<Longrightarrow> kok (k\<lparr>k_barriers := bs\<rparr>) f g"
  by (simp add: kok_def kinv_def)

lemma kok_io: "kok k f g \<Longrightarrow> iopoll_ok io \<Longrightarrow> kok (k\<lparr>k_io := io\<rparr>) f g"
  by (simp add: kok_def kinv_def)

lemma events_ok_put:
  assumes "events_ok ev g" "unlinked g x" "Suc (length (g h)) < 2 ^ 32" "event_put (Some h) (Some x) fn ev = Some (r, ev')"
  shows "\<exists>g'. events_ok ev' g'"
proof -
  obtain m where m: "event_put (Some h) (Some x) fn ev = Some (EOK, ev\<lparr>ev_freefn := (ev_freefn ev)(x := fn), ev_msgs := m\<rparr>)"
    "qrep m (g(h := g h @ [x]))" using event_put_spec [of ev g x h fn] assms(1-3) by (auto simp: events_ok_def)
  then have "events_ok ev' (g(h := g h @ [x]))" using assms(1,4) by (auto simp: events_ok_def)
  then show ?thesis by blast
qed

lemma events_ok_get:
  assumes "events_ok ev g" "event_get q ev = Some (x, ev')"
  shows "\<exists>g'. events_ok ev' g'"
proof (cases q)
  case None
  with assms show ?thesis by (auto simp: event_get_def)
next
  case (Some h)
  have q: "msgs ev g" using assms(1) by (simp add: events_ok_def)
  show ?thesis
  proof (cases "g h")
    case Nil
    with event_get_Nil [OF q] assms Some show ?thesis by auto
  next
    case (Cons y ys)
    obtain m where m: "event_get (Some h) ev = Some (Some y, ev\<lparr>ev_msgs := m\<rparr>)" "qrep m (g(h := ys))"
      using event_get_Cons [OF q Cons] by blast
    then have "events_ok ev' (g(h := ys))" using assms Some by (auto simp: events_ok_def)
    then show ?thesis by blast
  qed
qed

lemma events_ok_watch:
  assumes "events_ok ev g" "slot_ok r (storage s r)" "running s = Some r"
  shows "events_ok (snd (event_watch_queue q s ev)) g"
proof -
  have "unat (t_tid (storage s r)) < DIEGOS_MAX_THREADS" using assms(2) by (simp add: slot_ok_def thread_consts)
  with assms show ?thesis
    by (cases q) (auto simp: event_watch_queue_def events_ok_def scheduler_running_tid_def)
qed

lemma barriers_ok_open: "barriers_ok bs \<Longrightarrow> barriers_ok (snd (barrier_open b bs))"
  by (cases b) (auto simp: barrier_open_def barriers_ok_def)

lemma barriers_ok_close: "barriers_ok bs \<Longrightarrow> barriers_ok (snd (barrier_close b bs))"
  by (cases b) (auto simp: barrier_close_def barriers_ok_def)

lemma barriers_ok_create:
  "barriers_ok bs \<Longrightarrow> (\<And>h. m = Some h \<Longrightarrow> h \<notin> set (bar_list bs)) \<Longrightarrow> barriers_ok (snd (barrier_create n a m bs))"
  by (cases m) (auto simp: barrier_create_def barriers_ok_def)

lemma bitmap_set_length: "bitmap_set bm p = Some bm' \<Longrightarrow> length bm' = length bm"
  by (auto simp: bitmap_set_def Let_def bind_eq_Some_conv arr_set_def split: if_splits)

lemma io_resume_item_keeps:
  assumes "iopoll_ok io" "io_resume_item c io = Some io'"
  shows "iopoll_ok io'"
  using assms
  by (auto simp: io_resume_item_def poll_wakeup_def Let_def bind_eq_Some_conv iopoll_ok_def
      split: if_splits dest!: bitmap_set_length)

lemma io_resume_loop_keeps: "iopoll_ok io \<Longrightarrow> io_resume_loop w xs io = Some io' \<Longrightarrow> iopoll_ok io'"
proof (induction xs arbitrary: io)
  case Nil
  then show ?case by (auto simp: iopoll_ok_def)
next
  case (Cons x xs)
  from Cons.prems(2) obtain io1 where 1: "io_resume_item x io = Some io1" "io_resume_loop w xs (upd_wq w xs io1) = Some io'"
    by (auto simp: bind_eq_Some_conv)
  have "iopoll_ok (upd_wq w xs io1)" using io_resume_item_keeps [OF Cons.prems(1) 1(1)] by (simp add: iopoll_ok_def)
  from Cons.IH [OF this 1(2)] show ?case .
qed

lemma thread_io_resume_keeps: "iopoll_ok io \<Longrightarrow> thread_io_resume q io = Some (r, io') \<Longrightarrow> iopoll_ok io'"
  by (cases q) (auto simp: thread_io_resume_def bind_eq_Some_conv dest: io_resume_loop_keeps)

section \<open>The step relation\<close>

text \<open>
  One rule per call of the kernel. A call that panics or faults is no step. Four rules carry an
  obligation of the caller: an event is linked in one queue at a time, a barrier handle is new when
  it is created and exists when it is used, a mutex handle exists, and the idle thread locks no
  mutex. \<open>Kill\<close> excludes the threads that wait for a mutex. \<open>Tick\<close> is the part of the clock interrupt
  that counts the time; its callbacks are \<open>Put\<close> and \<open>Open\<close> steps.
\<close>

inductive kstep :: "ioctl \<Rightarrow> kernel \<Rightarrow> kernel \<Rightarrow> bool" for ioctl where
  Suspend: "thread_suspend ioctl k = Some (Done k') \<Longrightarrow> kstep ioctl k k'"
| MaySuspend: "thread_may_suspend ioctl k = Some (Done k') \<Longrightarrow> kstep ioctl k k'"
| SDelay: "thread_delay ioctl ms k = Some (Done k') \<Longrightarrow> kstep ioctl k k'"
| Terminate: "thread_terminate ioctl k = Some (Done k') \<Longrightarrow> kstep ioctl k k'"
| Kill: "thread_kill tid k = Some (Done k') \<Longrightarrow> \<not> mutex_waiter tid (k_sched k) \<Longrightarrow> kstep ioctl k k'"
| Create: "thread_create name prio en stack sz out malloced ctx k = Some (Done (b, tid, k')) \<Longrightarrow> kstep ioctl k k'"
| Lock: "thread_lock_mutex_timed ioctl (Some h) ms k = Some e \<Longrightarrow> h \<in> set (mtx_list (k_mutexes k)) \<Longrightarrow>
    running (k_sched k) \<noteq> Some 0 \<Longrightarrow> kstep ioctl k (after e)"
| Unlock: "thread_unlock_mutex (Some h) k = Some (st, k') \<Longrightarrow> h \<in> set (mtx_list (k_mutexes k)) \<Longrightarrow> kstep ioctl k k'"
| WaitEvents: "wait_for_events_timed ioctl q ms k = Some e \<Longrightarrow> kstep ioctl k (after e)"
| WaitBarrier: "wait_for_barrier ioctl (Some h) k = Some e \<Longrightarrow> h \<in> set (bar_list (k_barriers k)) \<Longrightarrow> kstep ioctl k (after e)"
| WaitIo: "thread_io_wait_timed ioctl q ms chunk k = Some e \<Longrightarrow> kstep ioctl k (after e)"
| IoResume: "thread_io_resume q (k_io k) = Some (st, io) \<Longrightarrow> kstep ioctl k (k\<lparr>k_io := io\<rparr>)"
| Put: "event_put (Some h) (Some x) fn (k_events k) = Some (st, ev) \<Longrightarrow> msgs (k_events k) g \<Longrightarrow> unlinked g x \<Longrightarrow>
    Suc (length (g h)) < 2 ^ 32 \<Longrightarrow> kstep ioctl k (k\<lparr>k_events := ev\<rparr>)"
| Get: "event_get q (k_events k) = Some (x, ev) \<Longrightarrow> kstep ioctl k (k\<lparr>k_events := ev\<rparr>)"
| Watch: "event_watch_queue q (k_sched k) (k_events k) = (st, ev) \<Longrightarrow> kstep ioctl k (k\<lparr>k_events := ev\<rparr>)"
| NewBarrier: "barrier_create name a (Some h) (k_barriers k) = (r, bs) \<Longrightarrow> h \<notin> set (bar_list (k_barriers k)) \<Longrightarrow>
    kstep ioctl k (k\<lparr>k_barriers := bs\<rparr>)"
| Open: "barrier_open b (k_barriers k) = (st, bs) \<Longrightarrow> kstep ioctl k (k\<lparr>k_barriers := bs\<rparr>)"
| Close: "barrier_close b (k_barriers k) = (st, bs) \<Longrightarrow> kstep ioctl k (k\<lparr>k_barriers := bs\<rparr>)"
| Tick: "kstep ioctl k (k\<lparr>k_clock := (k_clock k)\<lparr>sys_ticks :=
    kernel_time_update_elapsed_counter (ck_period (k_clock k)) (sys_ticks (k_clock k))\<rparr>\<rparr>)"

abbreviation kreach :: "ioctl \<Rightarrow> kernel \<Rightarrow> kernel \<Rightarrow> bool" where
  "kreach ioctl \<equiv> (kstep ioctl)\<^sup>*\<^sup>*"

text \<open>A call of the delay or terminate functions by a reserved thread panics; otherwise it is covered above.\<close>

lemma delay_step:
  assumes K: "kok k f g" and D: "thread_delay ioctl ms k = Some (Done k')"
  shows "\<exists>f'. kok k' f' g"
proof (cases "ms = 0")
  case True
  with D K show ?thesis by (auto simp: thread_delay_def)
next
  case False
  obtain r where r: "running (k_sched k) = Some r" by (rule kok_runner [OF K])
  obtain now where now: "clock_get_milliseconds (k_clock k) = Some now" using kok_now [OF K] by blast
  show ?thesis
  proof (cases "t_tid (storage (k_sched k) r) = THREAD_TID_IDLE \<or> t_tid (storage (k_sched k) r) = THREAD_TID_TMRS")
    case True
    with delay_refused [OF r True] D False now show ?thesis by (simp add: thread_delay_def)
  next
    case n: False
    with thread_delay_ok [OF K r _ _ False, of ioctl] D show ?thesis by auto
  qed
qed

lemma remove_reserved:
  "tid = THREAD_TID_IDLE \<or> tid = THREAD_TID_TMRS \<Longrightarrow> scheduler_remove_thread tid k = Some (False, k)"
  by (cases "get_thread tid (k_sched k)") (auto simp: scheduler_remove_thread_def Let_def)

lemma terminate_step:
  assumes K: "kok k f g" and D: "thread_terminate ioctl k = Some (Done k')"
  shows "\<exists>f'. kok k' f' g"
proof -
  obtain r where r: "running (k_sched k) = Some r" "slot_ok r (storage (k_sched k) r)" by (rule kok_runner [OF K])
  show ?thesis
  proof (cases "t_tid (storage (k_sched k) r) = THREAD_TID_IDLE \<or> t_tid (storage (k_sched k) r) = THREAD_TID_TMRS")
    case True
    with D r remove_reserved [OF True, of k] show ?thesis by (auto simp: thread_terminate_def)
  next
    case n: False
    with thread_terminate_ok [OF K r(1), of ioctl] D show ?thesis by auto
  qed
qed

lemma kstep_keeps:
  assumes "kstep ioctl k k'" "kok k f g"
  shows "kernel_ok k'"
  using assms
proof cases
  case Suspend
  obtain r where "running (k_sched k) = Some r" by (rule kok_runner [OF assms(2)])
  from thread_suspend_ok [OF assms(2) this, of ioctl] Suspend show ?thesis by auto
next
  case MaySuspend
  from thread_may_suspend_ok [OF assms(2), of ioctl] MaySuspend show ?thesis by auto
next
  case SDelay
  from delay_step [OF assms(2) SDelay] show ?thesis by blast
next
  case Terminate
  from terminate_step [OF assms(2) Terminate] show ?thesis by blast
next
  case Kill
  from thread_kill_ok [OF assms(2) Kill] show ?thesis by blast
next
  case Create
  from thread_create_ok [OF assms(2) Create] show ?thesis by blast
next
  case (Lock h ms e)
  from thread_lock_mutex_ok [OF assms(2), of "Some h" ioctl ms] Lock show ?thesis by auto
next
  case (Unlock h)
  from thread_unlock_mutex_ok [OF assms(2) _ Unlock(1)] Unlock(2) show ?thesis by blast
next
  case (WaitEvents q ms e)
  from wait_for_events_ok [OF assms(2), of ioctl q ms] WaitEvents show ?thesis by auto
next
  case (WaitBarrier h e)
  from wait_for_barrier_ok [OF assms(2), of "Some h" ioctl] WaitBarrier show ?thesis by auto
next
  case (WaitIo q ms chunk e)
  from thread_io_wait_ok [OF assms(2), of ioctl q ms chunk] WaitIo show ?thesis by auto
next
  case IoResume
  from kok_io [OF assms(2) thread_io_resume_keeps [OF kokD(9) [OF assms(2)] IoResume(2)]] IoResume(1) show ?thesis by blast
next
  case (Put h x fn st ev g1)
  have "g1 = g" using qrep_unique [OF Put(3)] kokD(7) [OF assms(2)] by (simp add: events_ok_def)
  with events_ok_put [OF kokD(7) [OF assms(2)] _ _ Put(2)] Put obtain g' where "events_ok ev g'" by blast
  from kok_events [OF assms(2) this] Put(1) show ?thesis by blast
next
  case (Get q x ev)
  obtain g' where "events_ok ev g'" using events_ok_get [OF kokD(7) [OF assms(2)] Get(2)] by blast
  from kok_events [OF assms(2) this] Get(1) show ?thesis by blast
next
  case (Watch q st ev)
  obtain r where "running (k_sched k) = Some r" "slot_ok r (storage (k_sched k) r)" by (rule kok_runner [OF assms(2)])
  then have "events_ok ev g" using events_ok_watch [OF kokD(7) [OF assms(2)], of r "k_sched k" q] Watch(2) by simp
  from kok_events [OF assms(2) this] Watch(1) show ?thesis by blast
next
  case (NewBarrier name a h r bs)
  have "barriers_ok bs" using barriers_ok_create [OF kokD(8) [OF assms(2)], of "Some h" name a] NewBarrier by simp
  from kok_barriers [OF assms(2) this] NewBarrier(1) show ?thesis by blast
next
  case (Open b st bs)
  have "barriers_ok bs" using barriers_ok_open [OF kokD(8) [OF assms(2)], of b] Open by simp
  from kok_barriers [OF assms(2) this] Open(1) show ?thesis by blast
next
  case (Close b st bs)
  have "barriers_ok bs" using barriers_ok_close [OF kokD(8) [OF assms(2)], of b] Close by simp
  from kok_barriers [OF assms(2) this] Close(1) show ?thesis by blast
next
  case Tick
  have "kok k' f g" using assms(2) Tick by (simp add: kok_def kinv_def clock_ok_def kernel_time_update_elapsed_counter_def)
  then show ?thesis by blast
qed

lemma kreach_keeps: "kreach ioctl k k' \<Longrightarrow> kernel_ok k \<Longrightarrow> kernel_ok k'"
proof (induction rule: rtranclp_induct)
  case (step y z)
  then obtain f g where "kok y f g" by blast
  from kstep_keeps [OF step.hyps(2) this] show ?case .
qed

end
