(* ===== verification/Boot.thy ===== *)
theory Boot
  imports KernelSteps
begin

text \<open>
  Start-up, \<^verbatim>\<open>src/kernel/kernel.c\<close>: \<open>kernel_libs_init\<close>, \<open>kernel_init\<close>, \<open>kernel_threads_init\<close> and
  \<open>kernel_run\<close>, in the order in which \<^verbatim>\<open>src/kernel/diegos_init.c\<close> calls them. The first scheduling
  pass ends in a state that satisfies the kernel invariant.

  \<open>stacks_ok\<close> and the pool arguments say which allocations of the libraries succeed. The alarm and
  timer libraries only reset their own lists and always succeed; \<open>others_ok\<close> says whether the network,
  driver, device and interface libraries succeed, which do not touch the state of the kernel.
\<close>

definition kernel_libs_init :: "bool \<Rightarrow> bool \<times> bool \<Rightarrow> bool \<times> bool \<Rightarrow> bool \<Rightarrow> kernel \<Rightarrow> kernel outcome" where
  "kernel_libs_init stacks_ok io_pools poll_pools others_ok k =
     (case init_thread_lib stacks_ok (k_sched k) of (ok1, s) \<Rightarrow> if \<not> ok1 then Panic else
      case init_mutex_lib (k_mutexes k) of (ok2, ms) \<Rightarrow> if \<not> ok2 then Panic else
      case init_events_lib (k_events k) of (ok3, ev) \<Rightarrow> if \<not> ok3 then Panic else
      case init_barriers_lib (k_barriers k) of (ok4, bs) \<Rightarrow> if \<not> ok4 then Panic else
      case init_io_wait_lib (fst io_pools) (snd io_pools) (k_io k) of (ok5, io) \<Rightarrow> if \<not> ok5 then Panic else
      case init_poll_lib (fst poll_pools) (snd poll_pools) io of (ok6, io') \<Rightarrow> if \<not> ok6 then Panic else
      if \<not> others_ok then Panic
      else Done (k\<lparr>k_sched := s, k_mutexes := ms, k_events := ev, k_barriers := bs, k_io := io'\<rparr>))"

definition kernel_init :: "bool \<Rightarrow> ioctl \<Rightarrow> u32 \<times> u32 \<times> u32 \<Rightarrow> kernel \<Rightarrow> kernel outcome" where
  "kernel_init dev ioctl params k =
     (case clock_init dev ioctl params (k_clock k) of (ok1, ck) \<Rightarrow> if \<not> ok1 then Panic else
      case scheduler_init (k_sched k) of (ok2, s) \<Rightarrow> if \<not> ok2 then Panic
      else Done (k\<lparr>k_clock := ck, k_sched := s\<rparr>))"

section \<open>What the first calls leave\<close>

text \<open>The image of the kernel before its first instruction: static data is zero.\<close>

definition bss :: "kernel \<Rightarrow> bool" where
  "bss k \<longleftrightarrow> running (k_sched k) = None \<and> thread_num (k_sched k) = 0 \<and> sqm (k_sched k) = singles (\<lambda>_. None) \<and>
     ev_msgs (k_events k) = singles (\<lambda>_. None)"

lemma queue_init_zero: "queue_init (Some q) (singles (\<lambda>_. None)) = (EOK, singles (\<lambda>_. None))"
  by (simp add: queue_init_def singles_def fun_eq_iff)

lemma scheduler_init_zero:
  assumes "sqm s = singles (\<lambda>_. None)"
  shows "scheduler_init s = (True, s)"
proof -
  have "fold (\<lambda>q (ok, m). if ok then (case queue_init (Some q) m of (r, m') \<Rightarrow> (r = EOK, m')) else (ok, m)) qs
      (True, singles (\<lambda>_. None)) = (True, singles (\<lambda>_. None))" for qs :: "sqid list"
    by (induction qs) (simp_all add: queue_init_zero)
  note 1 = this
  have "s\<lparr>sqm := singles (\<lambda>_. None)\<rparr> = s" using assms by (cases s) simp
  then show ?thesis unfolding scheduler_init_def Let_def assms 1 by simp
qed

lemma init_thread_lib_table:
  "init_thread_lib True s = (True, s\<lparr>storage := (\<lambda>i. if i < DIEGOS_MAX_THREADS then free_slot else storage s i)\<rparr>)"
proof -
  have "\<not> unat THREAD_TID_INVALID \<le> DIEGOS_MAX_THREADS" by (simp add: thread_consts)
  then show ?thesis unfolding init_thread_lib_def free_slot_def by simp
qed

lemma free_slot_simps [simp]: "t_name free_slot = []" "t_tid free_slot = THREAD_TID_INVALID" "t_flags free_slot = 0" "t_stack free_slot = None"
  by (simp_all add: free_slot_def zero_thread_def)

text \<open>After the slots before it, which all hold other names, the first free slot is found.\<close>

lemma scan_slots_skip:
  assumes "\<And>i. i \<in> set xs \<Longrightarrow> t_tid (st i) \<noteq> THREAD_TID_INVALID \<and> take THREAD_NAME_MAX (t_name (st i)) \<noteq> take THREAD_NAME_MAX name"
  shows "scan_slots st name (xs @ ys) None = scan_slots st name ys None"
  using assms by (induction xs) auto

lemma scan_slots_rest:
  assumes "\<And>i. i \<in> set xs \<Longrightarrow> st i = free_slot" "name \<noteq> []"
  shows "scan_slots st name xs (Some j) = Some (Some j)"
  using assms by (induction xs) (auto simp: THREAD_NAME_MAX_def)

lemma scan_slots_first:
  assumes "j < DIEGOS_MAX_THREADS" "\<And>i. j \<le> i \<Longrightarrow> i < DIEGOS_MAX_THREADS \<Longrightarrow> st i = free_slot" "name \<noteq> []"
    and "\<And>i. i < j \<Longrightarrow> t_tid (st i) \<noteq> THREAD_TID_INVALID \<and> take THREAD_NAME_MAX (t_name (st i)) \<noteq> take THREAD_NAME_MAX name"
  shows "scan_slots st name [0..<DIEGOS_MAX_THREADS] None = Some (Some j)"
proof -
  have "[0..<DIEGOS_MAX_THREADS] = [0..<j] @ j # [Suc j..<DIEGOS_MAX_THREADS]"
    using assms(1) upt_add_eq_append [of 0 j "DIEGOS_MAX_THREADS - j"] upt_conv_Cons [of j DIEGOS_MAX_THREADS] by simp
  then have "scan_slots st name [0..<DIEGOS_MAX_THREADS] None = scan_slots st name (j # [Suc j..<DIEGOS_MAX_THREADS]) None"
    using assms(4) by (simp only:) (rule scan_slots_skip, auto)
  also have "\<dots> = scan_slots st name [Suc j..<DIEGOS_MAX_THREADS] (Some j)" using assms(1,2) by simp
  also have "\<dots> = Some (Some j)" using assms by (intro scan_slots_rest) auto
  finally show ?thesis .
qed

text \<open>A reserved thread gets the first free slot and joins the queue of its priority.\<close>

lemma boot_thread_spec:
  assumes I: "sched_inv s f" and j: "j < DIEGOS_MAX_THREADS"
    and fr: "\<And>i. j \<le> i \<Longrightarrow> i < DIEGOS_MAX_THREADS \<Longrightarrow> storage s i = free_slot" "name \<noteq> []"
    and us: "\<And>i. i < j \<Longrightarrow> t_tid (storage s i) \<noteq> THREAD_TID_INVALID \<and> take THREAD_NAME_MAX (t_name (storage s i)) \<noteq> take THREAD_NAME_MAX name"
    and n: "unat (thread_num s) = j" and p: "unat prio < THREAD_PRIORITIES"
  shows "\<exists>m t. boot_thread (of_nat j) name prio e sz (Some stk) ctx s =
      Some (Done (s\<lparr>sqm := m, storage := (storage s)(j := t), thread_num := thread_num s + 1\<rparr>)) \<and>
    sched_inv (s\<lparr>sqm := m, storage := (storage s)(j := t), thread_num := thread_num s + 1\<rparr>)
      (f(Ready (unat prio) := f (Ready (unat prio)) @ [j])) \<and>
    t_tid t = of_nat j \<and> t_priority t = unat prio \<and> t_name t = take THREAD_NAME_MAX name \<and> \<not> has THREAD_FLAG_TERMINATE (t_flags t)"
proof -
  define t where "t = free_slot\<lparr>t_stack := Some stk, t_flags := THREAD_FLAG_REL_STACK, t_stack_size := sz,
     t_name := take THREAD_NAME_MAX name, t_priority := unat prio, t_state := THREAD_READY, t_tid := of_nat j,
     t_entry := Some e, t_delay := 0, t_context := ctx\<rparr>"
  define s1 where "s1 = s\<lparr>storage := (storage s)(j := t), thread_num := thread_num s + 1\<rparr>"
  have sj: "storage s j = free_slot" using fr(1) [of j] j by simp
  have "scan_slots (storage s) name [0..<DIEGOS_MAX_THREADS] None = Some (Some j)"
    using j fr us by (intro scan_slots_first) auto
  then have it: "init_thread (Some name) prio (Some e) None sz (Some stk) ctx s = Some (of_nat j, s1)"
    using n j p sj by (simp add: init_thread_def Let_def s1_def t_def)
  have U: "unlinked f j"
    using sinvD(1) [OF sched_invD(2) [OF I], of j] sj j by (auto simp: unlinked_def slot_ok_def thread_consts word_unat_eq_iff)
  have tt: "slot_ok j t" "t_state t = THREAD_READY" "t_priority t = unat prio" using j p by (simp_all add: t_def slot_ok_def)
  have "sinv ((storage s)(j := t)) f" using sinv_upd_unlinked [OF sched_invD(2) [OF I] U] .
  then have I1: "sched_inv s1 f" using sched_invD(1) [OF I] by (simp add: sched_inv_def s1_def)
  have st: "storage s1 j = t" by (simp add: s1_def)
  then have "get_thread (of_nat j) s1 = Some j" using get_thread_slot [of j s1] tt by (simp add: slot_ok_def)
  with add_spec [OF I1 this] st tt U obtain m where m: "scheduler_add_thread (of_nat j) s1 = Some (True, s1\<lparr>sqm := m\<rparr>)"
    "sched_inv (s1\<lparr>sqm := m\<rparr>) (f(Ready (unat prio) := f (Ready (unat prio)) @ [j]))" by auto
  have "of_nat j \<noteq> THREAD_TID_INVALID" using j by (simp add: thread_consts word_unat_eq_iff)
  then have "boot_thread (of_nat j) name prio e sz (Some stk) ctx s = Some (Done (s1\<lparr>sqm := m\<rparr>))"
    using it m(1) by (simp add: boot_thread_def)
  moreover have "\<not> has THREAD_FLAG_TERMINATE (t_flags t)" "t_tid t = of_nat j" "t_name t = take THREAD_NAME_MAX name"
    by (simp_all add: t_def flag_defs)
  ultimately show ?thesis using m(2) tt(3) by (intro exI [of _ m] exI [of _ t]) (simp add: s1_def)
qed

lemma libs_init_spec:
  assumes "bss k"
  shows "\<exists>k1. kernel_libs_init True (True, True) (True, True) True k = Done k1 \<and> bss k1 \<and>
    (\<forall>i < DIEGOS_MAX_THREADS. storage (k_sched k1) i = free_slot) \<and> events_ok (k_events k1) (\<lambda>_. []) \<and>
    barriers_ok (k_barriers k1) \<and> iopoll_ok (k_io k1) \<and> mutexes_ok (k_mutexes k1)"
proof -
  have "qrep (singles (\<lambda>_. None)) (\<lambda>_. [])"
    using singles_rep [of "\<lambda>_. None"] by (simp add: single_lists_def [abs_def])
  then show ?thesis using assms
    by (simp add: kernel_libs_init_def init_thread_lib_table init_mutex_lib_def init_events_lib_def init_barriers_lib_def
        init_io_wait_lib_def init_poll_lib_def bss_def events_ok_def barriers_ok_def iopoll_ok_def mutexes_ok_def
        BITMAPLEN_def BINL_def DIEGOS_MAX_THREADS_def)
qed

lemma kernel_init_spec:
  assumes "sqm (k_sched k) = singles (\<lambda>_. None)" "\<forall>c. ioctl c = EOK" "fst params \<noteq> 0" "fst (snd params) \<noteq> 0" "snd (snd params) \<noteq> 0"
  shows "\<exists>ck. kernel_init True ioctl params k = Done (k\<lparr>k_clock := ck\<rparr>) \<and> clock_ok ck"
proof -
  have "\<exists>ck. clock_init True ioctl params (k_clock k) = (True, ck) \<and> clock_ok ck"
    using assms(2-5) by (simp add: clock_init_def kernel_time_init_def Let_def clock_ok_def)
  then obtain ck where "clock_init True ioctl params (k_clock k) = (True, ck)" "clock_ok ck" by blast
  with scheduler_init_zero [OF assms(1)] show ?thesis by (intro exI [of _ ck]) (simp add: kernel_init_def)
qed

lemma threads_init_spec:
  assumes z: "sqm s = singles (\<lambda>_. None)" "\<And>i. i < DIEGOS_MAX_THREADS \<Longrightarrow> storage s i = free_slot" "thread_num s = 0"
  shows "\<exists>s'. kernel_threads_init ie te (Some a) (Some b) c1 c2 s = Some (Done s') \<and>
    sched_inv s' ((\<lambda>_. [])(Ready 3 := [0], Ready 0 := [1])) \<and> table_ok (storage s') \<and> \<not> doomed (storage s') 0 \<and>
    \<not> doomed (storage s') 1 \<and> thread_num s' = 2"
proof -
  have R: "qrep (sqm s) (\<lambda>_. [])"
    using singles_rep [of "\<lambda>_. None"] z(1) by (simp add: single_lists_def [abs_def])
  then have I: "sched_inv s (\<lambda>_. [])" by (simp add: sched_inv_def sinv_def by_delay_def)
  have P: "unat THREAD_PRIO_IDLE = 3" "unat THREAD_PRIO_REALTIME = 0"
    by (simp_all add: THREAD_PRIO_IDLE_def THREAD_PRIO_REALTIME_def)
  obtain m1 t1 where 1: "boot_thread THREAD_TID_IDLE ''Idle'' THREAD_PRIO_IDLE ie 1024 (Some a) c1 s =
      Some (Done (s\<lparr>sqm := m1, storage := (storage s)(0 := t1), thread_num := thread_num s + 1\<rparr>))"
    "sched_inv (s\<lparr>sqm := m1, storage := (storage s)(0 := t1), thread_num := thread_num s + 1\<rparr>) ((\<lambda>_. [])(Ready 3 := [0]))"
    "t_tid t1 = 0" "t_priority t1 = 3" "t_name t1 = ''Idle''" "\<not> has THREAD_FLAG_TERMINATE (t_flags t1)"
    using boot_thread_spec [OF I, of 0 "''Idle''" THREAD_PRIO_IDLE ie 1024 a c1] z P
    by (auto simp: thread_consts)
  define s1 where "s1 = s\<lparr>sqm := m1, storage := (storage s)(0 := t1), thread_num := thread_num s + 1\<rparr>"
  have s1: "storage s1 0 = t1" "\<And>i. 1 \<le> i \<Longrightarrow> i < DIEGOS_MAX_THREADS \<Longrightarrow> storage s1 i = free_slot" "thread_num s1 = 1"
    using z(2,3) by (simp_all add: s1_def)
  obtain m2 t2 where 2: "boot_thread (of_nat 1) ''Timers'' THREAD_PRIO_REALTIME te 4096 (Some b) c2 s1 =
      Some (Done (s1\<lparr>sqm := m2, storage := (storage s1)(1 := t2), thread_num := thread_num s1 + 1\<rparr>))"
    "sched_inv (s1\<lparr>sqm := m2, storage := (storage s1)(1 := t2), thread_num := thread_num s1 + 1\<rparr>)
       ((\<lambda>_. [])(Ready 3 := [0], Ready 0 := [1]))"
    "t_tid t2 = 1" "t_priority t2 = 0" "\<not> has THREAD_FLAG_TERMINATE (t_flags t2)"
    using boot_thread_spec [OF 1(2) [folded s1_def], of 1 "''Timers''" THREAD_PRIO_REALTIME te 4096 b c2] s1 P 1(3,5)
    by (auto simp: thread_consts simp del: of_nat_1)
  let ?s = "s1\<lparr>sqm := m2, storage := (storage s1)(1 := t2), thread_num := thread_num s1 + 1\<rparr>"
  have "kernel_threads_init ie te (Some a) (Some b) c1 c2 s = Some (Done ?s)"
    using 1(1) 2(1) by (simp add: kernel_threads_init_def s1_def THREAD_TID_TMRS_def)
  moreover have "table_ok (storage ?s)"
    unfolding table_ok_def
  proof (intro allI impI)
    fix p assume "p < DIEGOS_MAX_THREADS"
    then show "t_tid (storage ?s p) = of_nat p \<and> t_priority (storage ?s p) < THREAD_PRIORITIES \<or>
        t_tid (storage ?s p) = THREAD_TID_INVALID"
      using s1(1) s1(2) [of p] 1(3,4) 2(3,4) by (cases "p = 0"; cases "p = 1") (auto simp: THREAD_PRIORITIES_def)
  qed
  moreover have "\<not> doomed (storage ?s) 0" "\<not> doomed (storage ?s) 1" using 1(6) 2(5) s1(1) by auto
  ultimately show ?thesis using 2(2) s1(3) by (intro exI [of _ ?s]) simp
qed

section \<open>Properties\<close>

text \<open>C4: the kernel boots into a state that satisfies its invariant. From zeroed static data, with a
  clock driver that accepts its commands and allocations that succeed, the initialisation calls of
  the start-up sequence return without a panic, the idle and timer threads get the identifiers the
  rest of the kernel reserves for them, and the first scheduling pass starts a thread of the highest
  priority with every invariant established.\<close>

theorem boot_establishes_invariant:
  assumes "bss k" "\<forall>c. ioctl c = EOK" "fst params \<noteq> 0" "fst (snd params) \<noteq> 0" "snd (snd params) \<noteq> 0"
  shows "\<exists>k1 k2 s3 ctx k4 r. kernel_libs_init True (True, True) (True, True) True k = Done k1 \<and>
    kernel_init True ioctl params k1 = Done k2 \<and>
    kernel_threads_init ie te (Some a) (Some b) c1 c2 (k_sched k2) = Some (Done s3) \<and> thread_num s3 = 2 \<and>
    kernel_run ioctl (k2\<lparr>k_sched := s3\<rparr>) = Some (ctx, k4) \<and> kernel_ok k4 \<and>
    running (k_sched k4) = Some r \<and> t_priority (storage (k_sched k4) r) = 0"
proof -
  obtain k1 where 1: "kernel_libs_init True (True, True) (True, True) True k = Done k1" "bss k1"
    "\<And>i. i < DIEGOS_MAX_THREADS \<Longrightarrow> storage (k_sched k1) i = free_slot" "events_ok (k_events k1) (\<lambda>_. [])"
    "barriers_ok (k_barriers k1)" "iopoll_ok (k_io k1)" "mutexes_ok (k_mutexes k1)"
    using libs_init_spec [OF assms(1)] by blast
  have b: "sqm (k_sched k1) = singles (\<lambda>_. None)" "thread_num (k_sched k1) = 0" using 1(2) by (simp_all add: bss_def)
  obtain ck where 2: "kernel_init True ioctl params k1 = Done (k1\<lparr>k_clock := ck\<rparr>)" "clock_ok ck"
    using kernel_init_spec [of k1 ioctl params] b(1) assms(2-5) by blast
  let ?f = "(\<lambda>_. [])(Ready 3 := [0], Ready 0 := [1])"
  obtain s3 where 3: "kernel_threads_init ie te (Some a) (Some b) c1 c2 (k_sched k1) = Some (Done s3)"
    "sched_inv s3 ?f" "table_ok (storage s3)" "\<not> doomed (storage s3) 0" "\<not> doomed (storage s3) 1" "thread_num s3 = 2"
    using threads_init_spec [OF b(1) 1(3) b(2)] by blast
  let ?k = "k1\<lparr>k_clock := ck, k_sched := s3\<rparr>"
  have K: "kinv ?k ?f (\<lambda>_. [])" using 1 2(2) 3 by (simp add: kinv_def)
  obtain k4 f' r where 4: "schedule_thread ioctl ?k = Some k4" "kok k4 f' (\<lambda>_. [])" "sched_post ?k ?f k4 f' r"
    using schedule_kok [OF K, of ioctl] 3(4) 1(7) by auto
  have "1 \<in> set (?f (Ready 0)) \<and> \<not> doomed (storage (k_sched ?k)) 1" using 3(5) by simp
  then have "t_priority (storage (k_sched k4) r) \<le> 0" using 4(3) unfolding sched_post_def by blast
  moreover have r: "running (k_sched k4) = Some r" using 4(3) by (simp add: sched_post_def)
  then have "kernel_run ioctl ?k = Some (t_context (storage (k_sched k4) r), k4)"
    using 4(1) by (simp add: kernel_run_def)
  ultimately show ?thesis using 1(1) 2(1) 3(1,6) 4(2) r
    by (intro exI [of _ k1] exI [of _ "k1\<lparr>k_clock := ck\<rparr>"] exI [of _ s3]) auto
qed

text \<open>The static data of the kernel, all zero.\<close>

definition zero_kernel :: kernel where
  "zero_kernel = \<lparr>k_sched = \<lparr>running = None, sqm = singles (\<lambda>_. None), storage = (\<lambda>_. zero_thread), thread_num = 0,
       new_delay_wq = 0, new_delay_dq = 0\<rparr>,
     k_mutexes = \<lparr>mtx_list = [], mtx_mem = (\<lambda>_. zero_mutex)\<rparr>,
     k_events = \<lparr>ev_list = [], ev_mem = (\<lambda>_. \<lparr>evq_name = [], evq_threadid = 0\<rparr>), ev_msgs = singles (\<lambda>_. None),
       ev_freefn = (\<lambda>_. None), ev_ids = [0]\<rparr>,
     k_barriers = \<lparr>bar_list = [], bar_mem = (\<lambda>_. \<lparr>bar_ids = [0], bar_name = [], bar_flags = 0\<rparr>)\<rparr>,
     k_io = sample_io, k_clock = sample_clock\<rparr>"

theorem boot_establishes_invariant_witness:
  "\<exists>k1 k2 s3 ctx k4. kernel_libs_init True (True, True) (True, True) True zero_kernel = Done k1 \<and>
     kernel_init True (\<lambda>_. EOK) (1193182, 1000, 65535) k1 = Done k2 \<and>
     kernel_threads_init 1 2 (Some 100) (Some 200) 0 0 (k_sched k2) = Some (Done s3) \<and>
     kernel_run (\<lambda>_. EOK) (k2\<lparr>k_sched := s3\<rparr>) = Some (ctx, k4) \<and> kernel_ok k4"
proof -
  have "bss zero_kernel" by (simp add: bss_def zero_kernel_def)
  moreover have "fst (1193182 :: u32, 1000 :: u32, 65535 :: u32) \<noteq> 0" "fst (snd (1193182 :: u32, 1000 :: u32, 65535 :: u32)) \<noteq> 0"
    "snd (snd (1193182 :: u32, 1000 :: u32, 65535 :: u32)) \<noteq> 0" by simp_all
  moreover have "\<forall>c :: clk_cmd. (\<lambda>_. EOK) c = EOK" by simp
  ultimately show ?thesis using boot_establishes_invariant [of zero_kernel "\<lambda>_. EOK" "(1193182, 1000, 65535)" 1 2 100 200 0 0]
    by blast
qed

end
