(* ===== verification/Alarms.thy ===== *)
theory Alarms
  imports Events Clock
begin

text \<open>
  Alarms, \<^verbatim>\<open>src/kernel/alarms.c\<close>: an alarm posts its event on a queue when the clock reaches its
  expiration. The event is embedded in the alarm; \<open>al_event\<close> is its address. \<open>alarm_cb\<close> is the
  clock callback.
\<close>

unbundle bit_operations_syntax

definition ALM_RECURSIVE :: u32 where "ALM_RECURSIVE = 1"
definition ALM_TRIGGERED :: u32 where "ALM_TRIGGERED = 2"
definition ALM_EXPIRED :: u32 where "ALM_EXPIRED = 4"

lemmas alm_flags = ALM_RECURSIVE_def ALM_TRIGGERED_def ALM_EXPIRED_def

record alarm =
  al_expiration :: u64
  al_flags :: u32
  al_notify :: nat
  al_event :: nat
  al_eventid :: u16
  al_name :: string
  al_msecs :: u32

record alarms =
  al_list :: "nat list"
  al_mem :: "nat \<Rightarrow> alarm"
  al_period :: u32

abbreviation upd_alm :: "nat \<Rightarrow> alarm \<Rightarrow> alarms \<Rightarrow> alarms" where
  "upd_alm h a al \<equiv> al\<lparr>al_mem := (al_mem al)(h := a)\<rparr>"

section \<open>Operations\<close>

definition init_alarms_lib :: "alarms \<Rightarrow> bool \<times> alarms" where
  "init_alarms_lib al = (True, al\<lparr>al_list := []\<rparr>)"

definition alarm_step :: "u64 \<Rightarrow> nat \<Rightarrow> alarms \<times> events \<Rightarrow> (alarms \<times> events) option" where
  "alarm_step msecs h ae =
     (case ae of (al, ev) \<Rightarrow>
      (let a = al_mem al h in
       if al_flags a AND (ALM_TRIGGERED OR ALM_EXPIRED) = ALM_TRIGGERED \<and> msecs \<ge> al_expiration a then
         do { (r, ev1) \<leftarrow> event_put (Some (al_notify a)) (Some (al_event a)) None ev;
              if r \<noteq> EOK then Some (al, ev1)
              else
               (let f1 = al_flags a OR ALM_EXPIRED in
                if f1 AND ALM_RECURSIVE = 0
                then Some (upd_alm h (a\<lparr>al_flags := f1 AND NOT ALM_TRIGGERED\<rparr>) al, ev1)
                else Some (upd_alm h (a\<lparr>al_flags := f1\<rparr>)
                             (al\<lparr>al_period := (if al_msecs a < al_period al then al_msecs a else al_period al)\<rparr>), ev1)) }
       else Some (al, ev)))"

fun alarm_loop :: "u64 \<Rightarrow> nat list \<Rightarrow> alarms \<times> events \<Rightarrow> (alarms \<times> events) option" where
  "alarm_loop msecs [] ae = Some ae"
| "alarm_loop msecs (h # hs) ae = do { ae1 \<leftarrow> alarm_step msecs h ae; alarm_loop msecs hs ae1 }"

definition alarm_cb :: "(clk_cmd \<Rightarrow> status) \<Rightarrow> u64 \<Rightarrow> alarms \<times> events \<times> clock_st \<Rightarrow> (alarms \<times> events \<times> clock_st) option" where
  "alarm_cb ioctl msecs aec =
     (case aec of (al, ev, ck) \<Rightarrow>
      (let al1 = al\<lparr>al_period := - 1\<rparr> in
       if al_list al1 = [] then Some (al1, ev, ck)
       else do { (al2, ev2) \<leftarrow> alarm_loop msecs (al_list al1) (al1, ev);
                 (_, ck2) \<leftarrow> clock_set_period ioctl (al_period al2) CLK_INST_ALARMS ck;
                 Some (al2, ev2, ck2) }))"

definition alarm_create ::
  "(clk_cmd \<Rightarrow> status) \<Rightarrow> string option \<Rightarrow> u16 \<Rightarrow> u32 \<Rightarrow> bool \<Rightarrow> nat option \<Rightarrow> (nat \<times> nat) option \<Rightarrow>
   alarms \<times> clock_st \<Rightarrow> (nat option \<times> alarms \<times> clock_st) option" where
  "alarm_create ioctl name alarmid millisecs recursive evqueue malloced ac =
     (case ac of (al, ck) \<Rightarrow>
      if millisecs = 0 then Some (None, al, ck) else
      case evqueue of None \<Rightarrow> Some (None, al, ck) | Some q \<Rightarrow>
      case malloced of None \<Rightarrow> Some (None, al, ck) | Some (h, e) \<Rightarrow>
       (let (ok, ck1) = (if al_list al = [] then clock_add_cb (Some AlarmCb) CLK_INST_ALARMS ck else (True, ck)) in
        if \<not> ok then Some (None, al, ck1)
        else
         (let al1 = upd_alm h
             \<lparr>al_expiration = 0, al_flags = (if recursive then ALM_RECURSIVE else 0), al_notify = q,
              al_event = e, al_eventid = alarmid,
              al_name = take 15 (case name of Some n \<Rightarrow> n | None \<Rightarrow> ''Alarm'' @ hex_string h),
              al_msecs = millisecs\<rparr> (al\<lparr>al_list := h # al_list al\<rparr>) in
          if millisecs < al_period al1
          then do { (_, ck2) \<leftarrow> clock_set_period ioctl millisecs CLK_INST_ALARMS ck1; Some (Some h, al1, ck2) }
          else Some (Some h, al1, ck1))))"

text \<open>\<open>now\<close> is what \<open>clock_get_milliseconds\<close> returns; the first component is what \<open>errno\<close> is set to.\<close>

definition alarm_set :: "u64 \<Rightarrow> nat option \<Rightarrow> bool \<Rightarrow> alarms \<Rightarrow> status \<times> alarms" where
  "alarm_set now alm start al =
     (case alm of
        None \<Rightarrow> (EINVAL, al)
      | Some h \<Rightarrow>
         (let a = al_mem al h in
          if start
          then (EOK, upd_alm h (a\<lparr>al_flags := (al_flags a OR ALM_TRIGGERED) AND NOT ALM_EXPIRED,
                                 al_expiration := ucast (al_msecs a) + now\<rparr>) al)
          else (EOK, upd_alm h (a\<lparr>al_flags := (al_flags a AND NOT ALM_TRIGGERED) OR ALM_EXPIRED,
                                 al_expiration := 0\<rparr>) al)))"


definition alarm_update ::
  "(clk_cmd \<Rightarrow> status) \<Rightarrow> nat option \<Rightarrow> u32 \<Rightarrow> bool \<Rightarrow> alarms \<times> clock_st \<Rightarrow> (status \<times> alarms \<times> clock_st) option" where
  "alarm_update ioctl alm millisecs recursive ac =
     (case ac of (al, ck) \<Rightarrow>
      case alm of None \<Rightarrow> Some (EINVAL, al, ck) | Some h \<Rightarrow>
      if millisecs = 0 then Some (EINVAL, al, ck) else
      do { ck1 \<leftarrow> (if millisecs \<noteq> al_msecs (al_mem al h) \<and> millisecs < al_period al
                   then map_option snd (clock_set_period ioctl millisecs CLK_INST_ALARMS ck) else Some ck);
           let a1 = (al_mem al h)\<lparr>al_msecs := millisecs\<rparr>;
           let a2 = (if recursive then a1\<lparr>al_flags := al_flags a1 OR ALM_RECURSIVE\<rparr>
                     else a1\<lparr>al_flags := al_flags a1 AND NOT ALM_RECURSIVE\<rparr>);
           Some (EOK, upd_alm h a2 al, ck1) })"

definition alarm_done ::
  "(clk_cmd \<Rightarrow> status) \<Rightarrow> nat option \<Rightarrow> alarms \<times> clock_st \<Rightarrow> (status \<times> alarms \<times> clock_st) option" where
  "alarm_done ioctl alm ac =
     (case ac of (al, ck) \<Rightarrow>
      case alm of None \<Rightarrow> Some (EINVAL, al, ck) | Some h \<Rightarrow>
       (case handles_remove h (al_list al) of (r, l) \<Rightarrow>
        if r \<noteq> EOK then Some (EGENERIC, al, ck)
        else if l = [] then
          do { (_, ck1) \<leftarrow> clock_set_period ioctl (- 1) CLK_INST_ALARMS ck;
               Some (EOK, al\<lparr>al_list := l\<rparr>, snd (clock_del_cb (Some AlarmCb) CLK_INST_ALARMS ck1)) }
        else Some (EOK, al\<lparr>al_list := l\<rparr>, ck)))"

section \<open>When an alarm fires\<close>

definition armed :: "alarm \<Rightarrow> bool" where
  "armed a \<longleftrightarrow> al_flags a AND (ALM_TRIGGERED OR ALM_EXPIRED) = ALM_TRIGGERED"

lemma alarm_set_arms:
  "armed (al_mem (snd (alarm_set now (Some h) True al)) h)"
  "al_expiration (al_mem (snd (alarm_set now (Some h) True al)) h) = ucast (al_msecs (al_mem al h)) + now"
  "\<not> armed (al_mem (snd (alarm_set now (Some h) False al)) h)"
  by (simp_all add: alarm_set_def armed_def Let_def alm_flags bit.conj_disj_distrib bit.conj_disj_distrib2 and.assoc)

text \<open>An alarm that is not due is left alone; one that is due posts its event, once.\<close>

lemma alarm_step_not_due:
  "\<not> (armed (al_mem al h) \<and> al_expiration (al_mem al h) \<le> msecs) \<Longrightarrow> alarm_step msecs h (al, ev) = Some (al, ev)"
  by (auto simp: alarm_step_def armed_def Let_def)











lemma alarm_loop_none_due:
  "(\<And>h. h \<in> set hs \<Longrightarrow> \<not> (armed (al_mem al h) \<and> al_expiration (al_mem al h) \<le> msecs)) \<Longrightarrow>
   alarm_loop msecs hs (al, ev) = Some (al, ev)"
  by (induction hs) (simp_all add: alarm_step_not_due)


section \<open>Properties\<close>

definition sample_alarms :: alarms where
  "sample_alarms = \<lparr>al_list = [1], al_mem = (\<lambda>_. \<lparr>al_expiration = 50, al_flags = ALM_TRIGGERED, al_notify = 0,
     al_event = 7, al_eventid = 0, al_name = ''a'', al_msecs = 50\<rparr>), al_period = - 1\<rparr>"

definition sample_events :: events where
  "sample_events = \<lparr>ev_list = [], ev_mem = (\<lambda>_. \<lparr>evq_name = [], evq_threadid = THREAD_TID_INVALID\<rparr>),
     ev_msgs = no_queues, ev_freefn = (\<lambda>_. None), ev_ids = [0]\<rparr>"



text \<open>A tick at which no alarm is due withdraws the alarm library's request on the clock. The call asks
  for the longest period the clock has, whatever alarms are still armed, so a pending alarm no longer
  bounds the time to the next tick.\<close>

theorem alarm_cb_drops_pending:
  assumes "al_list al \<noteq> []" "\<And>h. h \<in> set (al_list al) \<Longrightarrow> ms < al_expiration (al_mem al h)"
    "base_counter (sys_ticks ck) \<noteq> 0"
  shows "\<exists>ok ck'. alarm_cb ioctl ms (al, ev, ck) = Some (al\<lparr>al_period := - 1\<rparr>, ev, ck') \<and>
    clock_set_period ioctl (- 1) CLK_INST_ALARMS ck = Some (ok, ck')"
proof -
  obtain ok ck' where c: "clock_set_period ioctl (- 1) CLK_INST_ALARMS ck = Some (ok, ck')"
    using clock_set_period_spec [OF assms(3), of CLK_INST_ALARMS ioctl "- 1"] by (auto simp: clk_consts)
  have "alarm_loop ms (al_list al) (al\<lparr>al_period := - 1\<rparr>, ev) = Some (al\<lparr>al_period := - 1\<rparr>, ev)"
    using assms(2) by (intro alarm_loop_none_due) (auto simp: not_le)
  with c assms(1) show ?thesis by (simp add: alarm_cb_def Let_def)
qed

theorem alarm_cb_drops_pending_witness:
  "armed (al_mem sample_alarms 1) \<and>
   (\<exists>ck'. alarm_cb (\<lambda>_. EOK) 10 (sample_alarms, sample_events, sample_clock) =
      Some (sample_alarms, sample_events, ck'))"
  using alarm_cb_drops_pending [of sample_alarms 10 sample_clock "\<lambda>_. EOK" sample_events]
  by (auto simp: sample_alarms_def sample_clock_def sample_ticks_def armed_def alm_flags)

end
