(* ===== verification/Timers.thy ===== *)
theory Timers
  imports Alarms Barriers
begin

text \<open>
  Timers, \<^verbatim>\<open>src/kernel/timers.c\<close>, and the interrupt handler of \<^verbatim>\<open>src/kernel/clock.c\<close>, which calls the
  alarm and the timer callbacks. A timer's callback is user code: \<open>timers_run\<close>, the body of the loop
  of \<open>timers_thread_entry\<close>, returns the calls it makes as a list of callbacks and arguments.
\<close>

unbundle bit_operations_syntax

definition TMR_RECURSIVE :: u32 where "TMR_RECURSIVE = 1"
definition TMR_TRIGGERED :: u32 where "TMR_TRIGGERED = 2"
definition TMR_EXPIRED :: u32 where "TMR_EXPIRED = 4"

lemmas tmr_flags = TMR_RECURSIVE_def TMR_TRIGGERED_def TMR_EXPIRED_def

record timer =
  tm_expiration :: u64
  tm_flags :: u32
  tm_name :: string
  tm_msecs :: u32
  tm_cb :: nat
  tm_arg :: nat

record timers =
  tm_list :: "nat list"
  tm_mem :: "nat \<Rightarrow> timer"
  tm_period :: u32
  tm_bar :: "nat option"

abbreviation upd_tmr :: "nat \<Rightarrow> timer \<Rightarrow> timers \<Rightarrow> timers" where
  "upd_tmr h t tm \<equiv> tm\<lparr>tm_mem := (tm_mem tm)(h := t)\<rparr>"

section \<open>Operations\<close>

definition init_timers_lib :: "timers \<Rightarrow> bool \<times> timers" where
  "init_timers_lib tm = (True, tm\<lparr>tm_list := []\<rparr>)"

definition timer_step :: "u64 \<Rightarrow> nat \<Rightarrow> timers \<times> nat \<Rightarrow> timers \<times> nat" where
  "timer_step msecs h te =
     (case te of (tm, expired) \<Rightarrow>
      (let t = tm_mem tm h in
       if tm_flags t AND (TMR_TRIGGERED OR TMR_EXPIRED) = TMR_TRIGGERED \<and> msecs \<ge> tm_expiration t then
        (let f1 = tm_flags t OR TMR_EXPIRED in
         if f1 AND TMR_RECURSIVE = 0
         then (upd_tmr h (t\<lparr>tm_flags := f1 AND NOT TMR_TRIGGERED\<rparr>) tm, expired + 1)
         else (upd_tmr h (t\<lparr>tm_flags := f1\<rparr>)
                 (tm\<lparr>tm_period := (if tm_msecs t < tm_period tm then tm_msecs t else tm_period tm)\<rparr>), expired + 1))
       else (tm, expired)))"

definition timer_cb ::
  "(clk_cmd \<Rightarrow> status) \<Rightarrow> u64 \<Rightarrow> timers \<times> barriers \<times> clock_st \<Rightarrow> (timers \<times> barriers \<times> clock_st) option" where
  "timer_cb ioctl msecs tbc =
     (case tbc of (tm, bs, ck) \<Rightarrow>
      (case fold (timer_step msecs) (tm_list tm) (tm\<lparr>tm_period := - 1\<rparr>, 0) of (tm1, expired) \<Rightarrow>
       do { (_, ck1) \<leftarrow> clock_set_period ioctl (tm_period tm1) CLK_INST_ALARMS ck;
            Some (tm1, if expired \<noteq> 0 then snd (barrier_open (tm_bar tm1) bs) else bs, ck1) }))"

definition timer_create ::
  "(clk_cmd \<Rightarrow> status) \<Rightarrow> string option \<Rightarrow> u32 \<Rightarrow> bool \<Rightarrow> nat option \<Rightarrow> nat \<Rightarrow> nat option \<Rightarrow>
   timers \<times> clock_st \<Rightarrow> (status \<times> nat option \<times> timers \<times> clock_st) option" where
  "timer_create ioctl name millisecs recursive cb arg malloced tc =
     (case tc of (tm, ck) \<Rightarrow>
      if millisecs = 0 then Some (EINVAL, None, tm, ck) else
      case cb of None \<Rightarrow> Some (EINVAL, None, tm, ck) | Some c \<Rightarrow>
      case malloced of None \<Rightarrow> Some (ENOMEM, None, tm, ck) | Some h \<Rightarrow>
       (let (ok, ck1) = (if tm_list tm = [] then clock_add_cb (Some TimerCb) CLK_INST_TIMERS ck else (True, ck)) in
        if \<not> ok then Some (EPERM, None, tm, ck1)
        else
         (let tm1 = upd_tmr h
             \<lparr>tm_expiration = 0, tm_flags = (if recursive then TMR_RECURSIVE else 0),
              tm_name = take 15 (case name of Some n \<Rightarrow> n | None \<Rightarrow> ''Timer'' @ hex_string h),
              tm_msecs = millisecs, tm_cb = c, tm_arg = arg\<rparr> (tm\<lparr>tm_list := h # tm_list tm\<rparr>) in
          if millisecs < tm_period tm1
          then do { (_, ck2) \<leftarrow> clock_set_period ioctl millisecs CLK_INST_TIMERS ck1;
                    Some (EOK, Some h, tm1, ck2) }
          else Some (EOK, Some h, tm1, ck1))))"

definition timer_set :: "u64 \<Rightarrow> nat option \<Rightarrow> bool \<Rightarrow> timers \<Rightarrow> status \<times> timers" where
  "timer_set now tmr start tm =
     (case tmr of
        None \<Rightarrow> (EINVAL, tm)
      | Some h \<Rightarrow>
         (let t = tm_mem tm h in
          if start
          then (EOK, upd_tmr h (t\<lparr>tm_flags := (tm_flags t OR TMR_TRIGGERED) AND NOT TMR_EXPIRED,
                                 tm_expiration := ucast (tm_msecs t) + now\<rparr>) tm)
          else (EOK, upd_tmr h (t\<lparr>tm_flags := (tm_flags t AND NOT TMR_TRIGGERED) OR TMR_EXPIRED,
                                 tm_expiration := 0\<rparr>) tm)))"

definition timer_update ::
  "(clk_cmd \<Rightarrow> status) \<Rightarrow> nat option \<Rightarrow> u32 \<Rightarrow> bool \<Rightarrow> timers \<times> clock_st \<Rightarrow> (status \<times> timers \<times> clock_st) option" where
  "timer_update ioctl tmr millisecs recursive tc =
     (case tc of (tm, ck) \<Rightarrow>
      case tmr of None \<Rightarrow> Some (EINVAL, tm, ck) | Some h \<Rightarrow>
      if millisecs = 0 then Some (EINVAL, tm, ck) else
      do { ck1 \<leftarrow> (if millisecs \<noteq> tm_msecs (tm_mem tm h) \<and> millisecs < tm_period tm
                   then map_option snd (clock_set_period ioctl millisecs CLK_INST_TIMERS ck) else Some ck);
           let t1 = (tm_mem tm h)\<lparr>tm_msecs := millisecs\<rparr>;
           let t2 = (if recursive then t1\<lparr>tm_flags := tm_flags t1 OR TMR_RECURSIVE\<rparr>
                     else t1\<lparr>tm_flags := tm_flags t1 AND NOT TMR_RECURSIVE\<rparr>);
           Some (EOK, upd_tmr h t2 tm, ck1) })"

definition timer_done ::
  "(clk_cmd \<Rightarrow> status) \<Rightarrow> nat option \<Rightarrow> timers \<times> clock_st \<Rightarrow> (status \<times> timers \<times> clock_st) option" where
  "timer_done ioctl tmr tc =
     (case tc of (tm, ck) \<Rightarrow>
      case tmr of None \<Rightarrow> Some (EINVAL, tm, ck) | Some h \<Rightarrow>
       (case handles_remove h (tm_list tm) of (r, l) \<Rightarrow>
        if r \<noteq> EOK then Some (EPERM, tm, ck)
        else if l = [] then
          do { (_, ck1) \<leftarrow> clock_set_period ioctl (- 1) CLK_INST_TIMERS ck;
               Some (EOK, tm\<lparr>tm_list := l\<rparr>, snd (clock_del_cb (Some TimerCb) CLK_INST_TIMERS ck1)) }
        else Some (EOK, tm\<lparr>tm_list := l\<rparr>, ck)))"

text \<open>
  The inner loop of \<open>timers_thread_entry\<close>. The list is taken when the loop starts: a callback that
  creates or destroys timers is outside the model.
\<close>

definition timer_run_step :: "u64 \<Rightarrow> nat \<Rightarrow> timers \<times> (nat \<times> nat) list \<Rightarrow> timers \<times> (nat \<times> nat) list" where
  "timer_run_step now h tc =
     (case tc of (tm, calls) \<Rightarrow>
      (let t = tm_mem tm h in
       if tm_flags t AND TMR_EXPIRED \<noteq> 0 then
        (let t1 = t\<lparr>tm_flags := tm_flags t AND NOT TMR_EXPIRED\<rparr>;
             t2 = (if tm_flags t1 AND TMR_RECURSIVE \<noteq> 0
                   then t1\<lparr>tm_expiration := ucast (tm_msecs t1) + now\<rparr> else t1)
         in (upd_tmr h t2 tm, calls @ [(tm_cb t, tm_arg t)]))
       else (tm, calls)))"

definition timers_run :: "u64 \<Rightarrow> timers \<Rightarrow> timers \<times> (nat \<times> nat) list" where
  "timers_run now tm = fold (timer_run_step now) (tm_list tm) (tm, [])"

section \<open>The clock interrupt\<close>

record clock_world =
  cw_clock :: clock_st
  cw_alarms :: alarms
  cw_events :: events
  cw_timers :: timers
  cw_barriers :: barriers

text \<open>One iteration of the callback loop of \<open>clock_int_handler\<close>.\<close>

definition call_cb :: "(clk_cmd \<Rightarrow> status) \<Rightarrow> nat \<Rightarrow> clock_world \<Rightarrow> clock_world option" where
  "call_cb ioctl i w =
     do { cb \<leftarrow> arr_get (callbacks (cw_clock w)) i;
          case cb of
            None \<Rightarrow> Some w
          | Some c \<Rightarrow>
             do { ms \<leftarrow> kernel_time_get_elapsed_msecs (Some (sys_ticks (cw_clock w)));
                  case c of
                    AlarmCb \<Rightarrow> do { (al, ev, ck) \<leftarrow> alarm_cb ioctl ms (cw_alarms w, cw_events w, cw_clock w);
                                    Some (w\<lparr>cw_alarms := al, cw_events := ev, cw_clock := ck\<rparr>) }
                  | TimerCb \<Rightarrow> do { (tm, bs, ck) \<leftarrow> timer_cb ioctl ms (cw_timers w, cw_barriers w, cw_clock w);
                                    Some (w\<lparr>cw_timers := tm, cw_barriers := bs, cw_clock := ck\<rparr>) } } }"

text \<open>In one-shot mode the handler also programs the driver again and ignores the result.\<close>

definition clock_int_handler :: "(clk_cmd \<Rightarrow> status) \<Rightarrow> clock_world \<Rightarrow> clock_world option" where
  "clock_int_handler ioctl w =
     (let ck = cw_clock w;
          w0 = w\<lparr>cw_clock := ck\<lparr>sys_ticks := kernel_time_update_elapsed_counter (ck_period ck) (sys_ticks ck)\<rparr>\<rparr>
      in do { w1 \<leftarrow> call_cb ioctl 0 w0; w2 \<leftarrow> call_cb ioctl 1 w1; call_cb ioctl 2 w2 })"

section \<open>What a tick and a run of the timer thread do\<close>

definition tm_armed :: "timer \<Rightarrow> bool" where
  "tm_armed t \<longleftrightarrow> tm_flags t AND (TMR_TRIGGERED OR TMR_EXPIRED) = TMR_TRIGGERED"

definition tm_due :: "u64 \<Rightarrow> timer \<Rightarrow> bool" where
  "tm_due ms t \<longleftrightarrow> tm_armed t \<and> tm_expiration t \<le> ms"

definition tm_fired :: "timer \<Rightarrow> timer" where
  "tm_fired t = t\<lparr>tm_flags := (if tm_flags t AND TMR_RECURSIVE = 0
                               then (tm_flags t OR TMR_EXPIRED) AND NOT TMR_TRIGGERED
                               else tm_flags t OR TMR_EXPIRED)\<rparr>"

lemma or_expired_recursive: "(w OR TMR_EXPIRED) AND TMR_RECURSIVE = w AND TMR_RECURSIVE"
  by (simp add: bit.conj_disj_distrib2 tmr_flags)

lemma timer_step_spec:
  "\<exists>p. timer_step ms h (tm, n) =
     (if tm_due ms (tm_mem tm h) then (upd_tmr h (tm_fired (tm_mem tm h)) (tm\<lparr>tm_period := p\<rparr>), n + 1) else (tm, n))"
proof (cases "tm_due ms (tm_mem tm h)")
  case True
  then show ?thesis
    by (cases "tm_flags (tm_mem tm h) AND TMR_RECURSIVE = 0")
      (auto simp: timer_step_def tm_due_def tm_armed_def tm_fired_def Let_def or_expired_recursive
        intro: exI [of _ "tm_period tm"])
next
  case False
  then show ?thesis by (auto simp: timer_step_def tm_due_def tm_armed_def Let_def)
qed

lemma timer_fold_spec:
  assumes "distinct hs"
  shows "\<exists>p. fold (timer_step ms) hs (tm, n) =
    (tm\<lparr>tm_mem := (\<lambda>h. if h \<in> set hs \<and> tm_due ms (tm_mem tm h) then tm_fired (tm_mem tm h) else tm_mem tm h),
        tm_period := p\<rparr>, n + length (filter (\<lambda>h. tm_due ms (tm_mem tm h)) hs))"
  using assms
proof (induction hs arbitrary: tm n)
  case Nil
  then show ?case by (intro exI [of _ "tm_period tm"]) simp
next
  case (Cons h hs)
  obtain p where p: "timer_step ms h (tm, n) =
     (if tm_due ms (tm_mem tm h) then (upd_tmr h (tm_fired (tm_mem tm h)) (tm\<lparr>tm_period := p\<rparr>), n + 1) else (tm, n))"
    using timer_step_spec [of ms h tm n] by blast
  define mem where "mem = (if tm_due ms (tm_mem tm h) then (tm_mem tm)(h := tm_fired (tm_mem tm h)) else tm_mem tm)"
  define n1 where "n1 = (if tm_due ms (tm_mem tm h) then n + 1 else n)"
  define p1 where "p1 = (if tm_due ms (tm_mem tm h) then p else tm_period tm)"
  have 1: "timer_step ms h (tm, n) = (tm\<lparr>tm_mem := mem, tm_period := p1\<rparr>, n1)"
    unfolding p by (cases tm) (auto simp: mem_def n1_def p1_def)
  have ne: "mem k = tm_mem tm k" if "k \<in> set hs" for k
    using that Cons.prems by (auto simp: mem_def)
  define tm1 where "tm1 = tm\<lparr>tm_mem := mem, tm_period := p1\<rparr>"
  have tm1: "tm_mem tm1 = mem" "\<And>x y. tm1\<lparr>tm_mem := x, tm_period := y\<rparr> = tm\<lparr>tm_mem := x, tm_period := y\<rparr>"
    by (simp_all add: tm1_def)
  obtain p2 where 2: "fold (timer_step ms) hs (tm1, n1) =
    (tm\<lparr>tm_mem := (\<lambda>h. if h \<in> set hs \<and> tm_due ms (mem h) then tm_fired (mem h) else mem h), tm_period := p2\<rparr>,
      n1 + length (filter (\<lambda>h. tm_due ms (mem h)) hs))"
    using Cons.IH [of tm1 n1] Cons.prems unfolding tm1 by auto
  have 3: "(\<lambda>k. if k \<in> set hs \<and> tm_due ms (mem k) then tm_fired (mem k) else mem k) =
      (\<lambda>k. if k \<in> set (h # hs) \<and> tm_due ms (tm_mem tm k) then tm_fired (tm_mem tm k) else tm_mem tm k)"
    using ne Cons.prems by (auto simp: fun_eq_iff mem_def)
  have 4: "filter (\<lambda>h. tm_due ms (mem h)) hs = filter (\<lambda>h. tm_due ms (tm_mem tm h)) hs"
    using ne by (intro filter_cong) auto
  show ?case using 1 2 unfolding 3 4 tm1_def by (auto simp: n1_def)
qed

text \<open>
  The timer thread calls the callback of every timer whose expired flag is set, whether the clock
  or \<open>timer_set\<close> put it there.
\<close>

lemma timers_run_calls_step:
  "snd (timer_run_step now h (tm, calls)) =
     calls @ (if tm_flags (tm_mem tm h) AND TMR_EXPIRED \<noteq> 0 then [(tm_cb (tm_mem tm h), tm_arg (tm_mem tm h))] else [])"
  "k \<noteq> h \<Longrightarrow> tm_mem (fst (timer_run_step now h (tm, calls))) k = tm_mem tm k"
  by (simp_all add: timer_run_step_def Let_def)

lemma timers_run_calls:
  assumes "distinct hs"
  shows "snd (fold (timer_run_step now) hs (tm, calls)) =
    calls @ map (\<lambda>h. (tm_cb (tm_mem tm h), tm_arg (tm_mem tm h)))
              (filter (\<lambda>h. tm_flags (tm_mem tm h) AND TMR_EXPIRED \<noteq> 0) hs)"
  using assms
proof (induction hs arbitrary: tm calls)
  case (Cons h hs)
  obtain tm1 c1 where s: "timer_run_step now h (tm, calls) = (tm1, c1)" by fastforce
  have c1: "c1 = calls @ (if tm_flags (tm_mem tm h) AND TMR_EXPIRED \<noteq> 0
      then [(tm_cb (tm_mem tm h), tm_arg (tm_mem tm h))] else [])"
    using timers_run_calls_step(1) [of now h tm calls] s by simp
  have m: "tm_mem tm1 k = tm_mem tm k" if "k \<in> set hs" for k
    using timers_run_calls_step(2) [of k h now tm calls] s that Cons.prems by auto
  have f: "filter (\<lambda>h. tm_flags (tm_mem tm1 h) AND TMR_EXPIRED \<noteq> 0) hs =
      filter (\<lambda>h. tm_flags (tm_mem tm h) AND TMR_EXPIRED \<noteq> 0) hs"
    using m by (intro filter_cong) auto
  have "snd (fold (timer_run_step now) hs (tm1, c1)) = c1 @ map (\<lambda>h. (tm_cb (tm_mem tm h), tm_arg (tm_mem tm h)))
      (filter (\<lambda>h. tm_flags (tm_mem tm h) AND TMR_EXPIRED \<noteq> 0) hs)"
    using Cons.IH [of tm1 c1] Cons.prems m unfolding f by auto
  with s c1 show ?case by simp
qed simp

lemma timer_cb_spec:
  assumes "distinct (tm_list tm)" "base_counter (sys_ticks ck) \<noteq> 0"
  shows "\<exists>p ok ck'. clock_set_period ioctl p CLK_INST_ALARMS ck = Some (ok, ck') \<and>
    timer_cb ioctl ms (tm, bs, ck) = Some
      (tm\<lparr>tm_mem := (\<lambda>h. if h \<in> set (tm_list tm) \<and> tm_due ms (tm_mem tm h) then tm_fired (tm_mem tm h) else tm_mem tm h),
          tm_period := p\<rparr>,
       if \<exists>h\<in>set (tm_list tm). tm_due ms (tm_mem tm h) then snd (barrier_open (tm_bar tm) bs) else bs, ck')"
proof -
  define tm0 where "tm0 = tm\<lparr>tm_period := - 1\<rparr>"
  have tm0: "tm_mem tm0 = tm_mem tm" "\<And>x y. tm0\<lparr>tm_mem := x, tm_period := y\<rparr> = tm\<lparr>tm_mem := x, tm_period := y\<rparr>"
    by (simp_all add: tm0_def)
  obtain p where p: "fold (timer_step ms) (tm_list tm) (tm\<lparr>tm_period := - 1\<rparr>, 0) =
    (tm\<lparr>tm_mem := (\<lambda>h. if h \<in> set (tm_list tm) \<and> tm_due ms (tm_mem tm h) then tm_fired (tm_mem tm h) else tm_mem tm h),
        tm_period := p\<rparr>, length (filter (\<lambda>h. tm_due ms (tm_mem tm h)) (tm_list tm)))"
    using timer_fold_spec [OF assms(1), of ms tm0 0] unfolding tm0 add_0 unfolding tm0_def by blast
  obtain ok ck' where c: "clock_set_period ioctl p CLK_INST_ALARMS ck = Some (ok, ck')"
    using clock_set_period_spec [OF assms(2), of CLK_INST_ALARMS ioctl p] by (auto simp: clk_consts)
  have "length (filter (\<lambda>h. tm_due ms (tm_mem tm h)) (tm_list tm)) \<noteq> 0 \<longleftrightarrow>
      (\<exists>h\<in>set (tm_list tm). tm_due ms (tm_mem tm h))"
    by (auto simp: filter_empty_conv)
  with p c show ?thesis by (intro exI [of _ p] exI [of _ ok] exI [of _ ck']) (simp add: timer_cb_def)
qed

section \<open>Properties\<close>

definition sample_timers :: timers where
  "sample_timers = \<lparr>tm_list = [1, 2], tm_mem = (\<lambda>h. \<lparr>tm_expiration = 50 * of_nat h, tm_flags = TMR_TRIGGERED,
     tm_name = ''t'', tm_msecs = 50, tm_cb = 9, tm_arg = h\<rparr>), tm_period = - 1, tm_bar = Some 0\<rparr>"

definition sample_barriers :: barriers where
  "sample_barriers = \<lparr>bar_list = [0], bar_mem = (\<lambda>_. \<lparr>bar_ids = [0], bar_name = ''Timers'',
     bar_flags = BARRIER_AUTOCLOSE\<rparr>)\<rparr>"

text \<open>What a clock tick does to the timers. Exactly the timers that are armed and whose time has come are
  marked expired, one-shot timers are disarmed, no other timer changes, and the barrier the timer
  thread waits on is opened if and only if some timer expired.\<close>

theorem timer_tick_correct:
  assumes "distinct (tm_list tm)" "base_counter (sys_ticks ck) \<noteq> 0"
  shows "\<exists>tm' bs' ck'. timer_cb ioctl ms (tm, bs, ck) = Some (tm', bs', ck') \<and> tm_list tm' = tm_list tm \<and>
    (\<forall>h. tm_mem tm' h = (if h \<in> set (tm_list tm) \<and> tm_due ms (tm_mem tm h) then tm_fired (tm_mem tm h) else tm_mem tm h)) \<and>
    bs' = (if \<exists>h\<in>set (tm_list tm). tm_due ms (tm_mem tm h) then snd (barrier_open (tm_bar tm) bs) else bs)"
  using timer_cb_spec [OF assms, of ioctl ms bs] by auto

theorem timer_tick_correct_witness:
  "tm_due 60 (tm_mem sample_timers 1) \<and> \<not> tm_due 60 (tm_mem sample_timers 2) \<and>
   (\<exists>tm' bs' ck'. timer_cb (\<lambda>_. EOK) 60 (sample_timers, sample_barriers, sample_clock) = Some (tm', bs', ck') \<and>
      tm_mem tm' 2 = tm_mem sample_timers 2 \<and> tm_mem tm' 1 = tm_fired (tm_mem sample_timers 1))"
proof -
  have d: "tm_due 60 (tm_mem sample_timers 1)" "\<not> tm_due 60 (tm_mem sample_timers 2)"
    by (simp_all add: sample_timers_def tm_due_def tm_armed_def tmr_flags)
  have "distinct (tm_list sample_timers)" "base_counter (sys_ticks sample_clock) \<noteq> 0" "1 \<in> set (tm_list sample_timers)"
    by (simp_all add: sample_timers_def sample_clock_def sample_ticks_def)
  with timer_tick_correct [of sample_timers sample_clock "\<lambda>_. EOK" 60 sample_barriers] d show ?thesis by metis
qed

text \<open>The timer callback stores the period it computes as the request of the alarm library. The alarms'
  own request is overwritten and the timers' request is never updated by a tick.\<close>

theorem timer_cb_sets_alarm_period:
  assumes "distinct (tm_list tm)" "base_counter (sys_ticks ck) \<noteq> 0" "length (inst_period ck) = CLK_INST_MAX"
  shows "\<exists>tm' bs' ck' v. timer_cb ioctl ms (tm, bs, ck) = Some (tm', bs', ck') \<and>
    inst_period ck' = (inst_period ck)[CLK_INST_ALARMS := v] \<and>
    inst_period ck' ! CLK_INST_TIMERS = inst_period ck ! CLK_INST_TIMERS"
proof -
  obtain p ok ck' where c: "clock_set_period ioctl p CLK_INST_ALARMS ck = Some (ok, ck')"
    and t: "\<exists>tm' bs'. timer_cb ioctl ms (tm, bs, ck) = Some (tm', bs', ck')"
    using timer_cb_spec [OF assms(1,2), of ioctl ms bs] by blast
  obtain v where "inst_period ck' = (inst_period ck)[CLK_INST_ALARMS := v]"
    using clock_set_period_spec [OF assms(2), of CLK_INST_ALARMS ioctl p] c by (auto simp: clk_consts)
  with t show ?thesis by (auto simp: clk_consts)
qed

theorem timer_cb_sets_alarm_period_witness:
  "\<exists>tm' bs' ck' v. timer_cb (\<lambda>_. EOK) 60 (sample_timers, sample_barriers, sample_clock) = Some (tm', bs', ck') \<and>
    inst_period ck' = [- 1, v, - 1]"
  using timer_cb_sets_alarm_period [of sample_timers sample_clock "\<lambda>_. EOK" 60 sample_barriers]
  by (auto simp: sample_timers_def sample_clock_def sample_ticks_def clk_consts)

text \<open>Stopping a timer marks it expired, and the timer thread calls back every timer so marked: the
  callback of a stopped timer is run the next time any timer expires.\<close>

theorem stopped_timer_is_called:
  assumes "distinct (tm_list tm)" "h \<in> set (tm_list tm)"
  shows "(tm_cb (tm_mem tm h), tm_arg (tm_mem tm h)) \<in>
    set (snd (timers_run now (snd (timer_set now' (Some h) False tm))))"
proof -
  let ?tm = "snd (timer_set now' (Some h) False tm)"
  have m: "tm_flags (tm_mem ?tm h) AND TMR_EXPIRED \<noteq> 0" "tm_cb (tm_mem ?tm h) = tm_cb (tm_mem tm h)"
    "tm_arg (tm_mem ?tm h) = tm_arg (tm_mem tm h)" "tm_list ?tm = tm_list tm"
    by (simp_all add: timer_set_def Let_def bit.conj_disj_distrib2 or_eq_0_iff tmr_flags)
  then have "h \<in> set (filter (\<lambda>h. tm_flags (tm_mem ?tm h) AND TMR_EXPIRED \<noteq> 0) (tm_list ?tm))"
    using assms(2) by simp
  with m assms(1) show ?thesis
    unfolding timers_run_def using timers_run_calls [of "tm_list ?tm" now ?tm "[]"] by force
qed

theorem stopped_timer_is_called_witness:
  "(9, 1) \<in> set (snd (timers_run 60 (snd (timer_set 10 (Some 1) False sample_timers))))"
  using stopped_timer_is_called [of sample_timers 1 60 10] by (simp add: sample_timers_def)

end
