(* ===== verification/DList.thy ===== *)
theory DList
  imports Queue
begin

text \<open>
  The doubly linked lists of \<^verbatim>\<open>src/libs/list.c\<close> and \<^verbatim>\<open>src/include/libs/list.h\<close>, at pointer level, in
  the style of theory \<open>Queue\<close>: list instances have addresses of type \<open>'l\<close>, nodes addresses of type
  \<open>'n\<close>, and one memory holds them all. \<open>lrep m f\<close> gives the contents of every list. The locale
  \<open>dlist_iface\<close> states what the kernel libraries (mutexes, events, barriers, alarms, timers,
  devices, chunk pools) rely on: with it their lists are plain HOL lists of handles.
\<close>

section \<open>Data\<close>

record 'n list_inst =
  li_head :: "'n option"
  li_tail :: "'n option"
  li_counter :: u32

record ('l, 'n) lmem =
  linst :: "'l \<Rightarrow> 'n list_inst"
  lnext :: "'n \<Rightarrow> 'n option"
  lprev :: "'n \<Rightarrow> 'n option"

section \<open>The operations\<close>

definition list_init :: "'l option \<Rightarrow> ('l, 'n) lmem \<Rightarrow> status \<times> ('l, 'n) lmem" where
  "list_init list m =
     (case list of None \<Rightarrow> (EINVAL, m)
      | Some l \<Rightarrow>
         (EOK, m\<lparr>linst := (linst m)(l := \<lparr>li_head = None, li_tail = None, li_counter = 0\<rparr>)\<rparr>))"

definition list_add ::
  "'l option \<Rightarrow> 'n option \<Rightarrow> 'n option \<Rightarrow> ('l, 'n) lmem \<Rightarrow> (status \<times> ('l, 'n) lmem) option" where
  "list_add list prev data m =
     (case list of None \<Rightarrow> Some (EINVAL, m) | Some l \<Rightarrow>
      case data of None \<Rightarrow> Some (EINVAL, m) | Some d \<Rightarrow>
      (let i = linst m l in
       if li_counter i = 0 then
         Some (EOK, m\<lparr>linst := (linst m)(l := i\<lparr>li_head := Some d, li_tail := Some d, li_counter := 1\<rparr>),
                      lnext := (lnext m)(d := None), lprev := (lprev m)(d := None)\<rparr>)
       else
        (let pv = (lprev m)(d := prev); c = li_counter i + 1 in
         case prev of
           None \<Rightarrow>
             (case li_head i of None \<Rightarrow> None | Some h \<Rightarrow>
                Some (EOK, m\<lparr>linst := (linst m)(l := i\<lparr>li_head := Some d, li_counter := c\<rparr>),
                             lnext := (lnext m)(d := Some h), lprev := pv(h := Some d)\<rparr>))
         | Some p \<Rightarrow>
             if li_tail i = Some p then
               Some (EOK, m\<lparr>linst := (linst m)(l := i\<lparr>li_tail := Some d, li_counter := c\<rparr>),
                            lnext := (lnext m)(d := None, p := Some d), lprev := pv\<rparr>)
             else
              (let nx = (lnext m)(d := lnext m p, p := Some d) in
               case nx d of None \<Rightarrow> None | Some n \<Rightarrow>
                 Some (EOK, m\<lparr>linst := (linst m)(l := i\<lparr>li_counter := c\<rparr>),
                              lnext := nx, lprev := pv(n := Some d)\<rparr>)))))"

definition list_prepend ::
  "'l option \<Rightarrow> 'n option \<Rightarrow> ('l, 'n) lmem \<Rightarrow> (status \<times> ('l, 'n) lmem) option" where
  "list_prepend list data m = list_add list None data m"

definition list_append ::
  "'l option \<Rightarrow> 'n option \<Rightarrow> ('l, 'n) lmem \<Rightarrow> (status \<times> ('l, 'n) lmem) option" where
  "list_append list data m =
     (case list of None \<Rightarrow> None | Some l \<Rightarrow> list_add list (li_tail (linst m l)) data m)"

definition list_remove ::
  "'l option \<Rightarrow> 'n option \<Rightarrow> ('l, 'n) lmem \<Rightarrow> status \<times> ('l, 'n) lmem" where
  "list_remove list data m =
     (case list of None \<Rightarrow> (EINVAL, m) | Some l \<Rightarrow>
      (let i = linst m l in
       if li_counter i = 0 then (EINVAL, m) else
       case data of None \<Rightarrow> (EINVAL, m) | Some d \<Rightarrow>
        (let i1 = i\<lparr>li_counter := li_counter i - 1\<rparr>;
             i2 = (if li_head i = Some d then i1\<lparr>li_head := lnext m d\<rparr> else i1);
             i3 = (if li_tail i = Some d then i2\<lparr>li_tail := lprev m d\<rparr> else i2);
             nx = (case lprev m d of None \<Rightarrow> lnext m | Some p \<Rightarrow> (lnext m)(p := lnext m d));
             pv = (case nx d of None \<Rightarrow> lprev m | Some n \<Rightarrow> (lprev m)(n := lprev m d))
         in (EOK, m\<lparr>linst := (linst m)(l := i3), lnext := nx(d := None), lprev := pv(d := None)\<rparr>))))"

text \<open>
  The search loop follows \<open>next\<close> pointers; on a cyclic chain with no match it would not return,
  which is \<open>None\<close> here.
\<close>

partial_function (option) search_from ::
  "('n \<Rightarrow> 'n option) \<Rightarrow> ('n \<Rightarrow> bool) \<Rightarrow> 'n option \<Rightarrow> 'n option option" where
  "search_from nx fn cursor =
     (case cursor of None \<Rightarrow> Some None
      | Some c \<Rightarrow> if fn c then Some (Some c) else search_from nx fn (nx c))"

definition list_search ::
  "'l option \<Rightarrow> ('n \<Rightarrow> bool) option \<Rightarrow> ('l, 'n) lmem \<Rightarrow> 'n option option" where
  "list_search list fn m =
     (case list of None \<Rightarrow> Some None | Some l \<Rightarrow>
      if li_counter (linst m l) = 0 then Some None else
      case fn of None \<Rightarrow> Some None
      | Some g \<Rightarrow> search_from (lnext m) g (li_head (linst m l)))"

definition list_head :: "'l option \<Rightarrow> ('l, 'n) lmem \<Rightarrow> 'n option" where
  "list_head list m = (case list of None \<Rightarrow> None | Some l \<Rightarrow> li_head (linst m l))"

definition list_tail :: "'l option \<Rightarrow> ('l, 'n) lmem \<Rightarrow> 'n option" where
  "list_tail list m = (case list of None \<Rightarrow> None | Some l \<Rightarrow> li_tail (linst m l))"

definition list_count :: "'l option \<Rightarrow> ('l, 'n) lmem \<Rightarrow> u32" where
  "list_count list m = (case list of None \<Rightarrow> 0 | Some l \<Rightarrow> li_counter (linst m l))"

section \<open>Representation\<close>

fun dseg ::
  "('n \<Rightarrow> 'n option) \<Rightarrow> ('n \<Rightarrow> 'n option) \<Rightarrow> 'n option \<Rightarrow> 'n option \<Rightarrow> 'n list \<Rightarrow> 'n option \<Rightarrow> bool"
where
  "dseg nx pv b p [] e \<longleftrightarrow> p = e"
| "dseg nx pv b p (x # xs) e \<longleftrightarrow> p = Some x \<and> pv x = b \<and> dseg nx pv (Some x) (nx x) xs e"

definition linst_rep ::
  "('n \<Rightarrow> 'n option) \<Rightarrow> ('n \<Rightarrow> 'n option) \<Rightarrow> 'n list_inst \<Rightarrow> 'n list \<Rightarrow> bool" where
  "linst_rep nx pv i xs \<longleftrightarrow>
     dseg nx pv None (li_head i) xs None \<and> li_tail i = last_ptr xs \<and>
     li_counter i = of_nat (length xs) \<and> length xs < 2 ^ 32 \<and> distinct xs"

definition lrep :: "('l, 'n) lmem \<Rightarrow> ('l \<Rightarrow> 'n list) \<Rightarrow> bool" where
  "lrep m f \<longleftrightarrow>
     (\<forall>l. linst_rep (lnext m) (lprev m) (linst m l) (f l)) \<and>
     (\<forall>k l. k \<noteq> l \<longrightarrow> set (f k) \<inter> set (f l) = {})"

definition pred_of :: "'n option \<Rightarrow> 'n list \<Rightarrow> 'n option" where
  "pred_of b xs = (if xs = [] then b else Some (last xs))"

lemma pred_of_simps [simp]: "pred_of b [] = b" "pred_of b (xs @ [x]) = Some x" "pred_of b [x] = Some x"
  by (auto simp: pred_of_def)

lemma dseg_upd_next [simp]: "x \<notin> set xs \<Longrightarrow> dseg (nx(x := v)) pv b p xs e = dseg nx pv b p xs e"
  by (induction xs arbitrary: b p) auto

lemma dseg_upd_prev [simp]: "x \<notin> set xs \<Longrightarrow> dseg nx (pv(x := v)) b p xs e = dseg nx pv b p xs e"
  by (induction xs arbitrary: b p) auto

lemma dseg_append:
  "dseg nx pv b p (xs @ ys) e \<longleftrightarrow> (\<exists>r. dseg nx pv b p xs r \<and> dseg nx pv (pred_of b xs) r ys e)"
  by (induction xs arbitrary: b p) (auto simp: pred_of_def)

lemma dseg_relink_last:
  "dseg nx pv b p xs e \<Longrightarrow> distinct xs \<Longrightarrow> xs \<noteq> [] \<Longrightarrow> dseg (nx(last xs := e')) pv b p xs e'"
proof (induction xs arbitrary: b p)
  case (Cons x xs)
  then show ?case
    by (cases "xs = []") (auto simp del: fun_upd_apply simp: fun_upd_other fun_upd_same,
      metis fun_upd_other last_in_set)
qed simp

lemma dseg_rebase:
  "dseg nx pv b p (x # xs) e \<Longrightarrow> x \<notin> set xs \<Longrightarrow> dseg nx (pv(x := b')) b' p (x # xs) e"
  by simp

lemma dseg_head: "dseg nx pv b p xs None \<Longrightarrow> p = (case xs of [] \<Rightarrow> None | x # _ \<Rightarrow> Some x)"
  by (cases xs) auto

lemma lrep_inst: "lrep m f \<Longrightarrow> linst_rep (lnext m) (lprev m) (linst m l) (f l)"
  by (simp add: lrep_def)

lemma lrep_disjoint: "lrep m f \<Longrightarrow> k \<noteq> l \<Longrightarrow> x \<in> set (f k) \<Longrightarrow> x \<notin> set (f l)"
  by (auto simp: lrep_def)

lemma lrep_distinct: "lrep m f \<Longrightarrow> distinct (f l)"
  by (simp add: lrep_def linst_rep_def)

lemma lrep_length: "lrep m f \<Longrightarrow> length (f l) < 2 ^ 32"
  by (simp add: lrep_def linst_rep_def)

lemma lrep_count: "lrep m f \<Longrightarrow> list_count (Some l) m = of_nat (length (f l))"
  by (simp add: lrep_def linst_rep_def list_count_def)

lemma lrep_counter_0 [simp]: "lrep m f \<Longrightarrow> li_counter (linst m l) = 0 \<longleftrightarrow> f l = []"
  using lrep_length [of m f l] by (simp add: lrep_def linst_rep_def of_nat_word_0_iff)

lemma lrep_update:
  assumes "lrep m f"
    and "linst m' = (linst m)(l := i)"
    and "linst_rep (lnext m') (lprev m') i xs"
    and "\<And>k. k \<noteq> l \<Longrightarrow> set (f k) \<inter> set xs = {}"
    and "\<And>k. k \<noteq> l \<Longrightarrow> linst_rep (lnext m') (lprev m') (linst m k) (f k)"
  shows "lrep m' (f(l := xs))"
  using assms unfolding lrep_def by (simp add: Int_commute)

lemma linst_rep_frame_next [simp]:
  "x \<notin> set xs \<Longrightarrow> linst_rep (nx(x := v)) pv i xs = linst_rep nx pv i xs"
  by (simp add: linst_rep_def)

lemma linst_rep_frame_prev [simp]:
  "x \<notin> set xs \<Longrightarrow> linst_rep nx (pv(x := v)) i xs = linst_rep nx pv i xs"
  by (simp add: linst_rep_def)

section \<open>Each operation implements its list operation\<close>

lemma list_add_empty_rep:
  assumes R: "lrep m f" and U: "unlinked f d" and N: "f l = []"
  shows "\<exists>m'. list_add (Some l) p (Some d) m = Some (EOK, m') \<and> lrep m' (f(l := [d]))"
proof -
  let ?i = "linst m l"
  let ?j = "?i\<lparr>li_head := Some d, li_tail := Some d, li_counter := 1\<rparr>"
  have X: "d \<notin> set (f k)" for k using U by (simp add: unlinked_def)
  have "\<exists>m'. list_add (Some l) p (Some d) m = Some (EOK, m') \<and> linst m' = (linst m)(l := ?j) \<and>
      lnext m' = (lnext m)(d := None) \<and> lprev m' = (lprev m)(d := None)"
    using R N by (simp add: list_add_def Let_def)
  then obtain m' where E: "list_add (Some l) p (Some d) m = Some (EOK, m')"
    and m': "linst m' = (linst m)(l := ?j)"
      "lnext m' = (lnext m)(d := None)" "lprev m' = (lprev m)(d := None)" by blast
  have "lrep m' (f(l := [d]))"
    using R X by (intro lrep_update [OF R m'(1)]) (auto simp: m'(2,3) linst_rep_def lrep_def)
  with E show ?thesis by simp
qed

lemma list_prepend_rep:
  assumes R: "lrep m f" and U: "unlinked f d" and L: "Suc (length (f l)) < 2 ^ 32"
  shows "\<exists>m'. list_prepend (Some l) (Some d) m = Some (EOK, m') \<and> lrep m' (f(l := d # f l))"
proof (cases "f l")
  case Nil
  with list_add_empty_rep [OF R U, of l None] show ?thesis by (simp add: list_prepend_def)
next
  case (Cons h hs)
  let ?i = "linst m l"
  let ?j = "?i\<lparr>li_head := Some d, li_counter := li_counter ?i + 1\<rparr>"
  have X: "d \<notin> set (f k)" for k using U by (simp add: unlinked_def)
  have I: "linst_rep (lnext m) (lprev m) ?i (h # hs)" using lrep_inst [OF R, of l] Cons by simp
  have H: "h \<notin> set (f k)" if "k \<noteq> l" for k using lrep_disjoint [OF R, of l k h] that Cons by auto
  have hd: "li_head ?i = Some h" using I by (simp add: linst_rep_def)
  have "\<exists>m'. list_prepend (Some l) (Some d) m = Some (EOK, m') \<and> linst m' = (linst m)(l := ?j) \<and>
      lnext m' = (lnext m)(d := Some h) \<and> lprev m' = (lprev m)(d := None, h := Some d)"
    using R hd Cons by (simp add: list_add_def list_prepend_def Let_def)
  then obtain m' where E: "list_prepend (Some l) (Some d) m = Some (EOK, m')"
    and m': "linst m' = (linst m)(l := ?j)"
      "lnext m' = (lnext m)(d := Some h)" "lprev m' = (lprev m)(d := None, h := Some d)" by blast
  have "linst_rep (lnext m') (lprev m') ?j (d # h # hs)"
    using I X [of l] L Cons by (auto simp: m'(2,3) linst_rep_def last_ptr_def)
  then have "lrep m' (f(l := d # h # hs))"
    using R X H Cons by (intro lrep_update [OF R m'(1)])
      (auto simp: m'(2,3) lrep_inst dest: lrep_disjoint [of m f _ l])
  with E Cons show ?thesis by simp
qed

lemma list_add_after_rep:
  assumes R: "lrep m f" and U: "unlinked f d" and L: "Suc (length (f l)) < 2 ^ 32"
    and Q: "f l = ys @ a # zs"
  shows "\<exists>m'. list_add (Some l) (Some a) (Some d) m = Some (EOK, m') \<and>
    lrep m' (f(l := ys @ a # d # zs))"
proof -
  let ?i = "linst m l"
  let ?c = "li_counter ?i + 1"
  have X: "d \<notin> set (f k)" for k using U by (simp add: unlinked_def)
  have A: "a \<notin> set (f k)" if "k \<noteq> l" for k using lrep_disjoint [OF R, of l k a] that Q by auto
  have I: "linst_rep (lnext m) (lprev m) ?i (ys @ a # zs)" using lrep_inst [OF R, of l] Q by simp
  have da: "d \<noteq> a" using X [of l] Q by auto
  obtain r where S: "dseg (lnext m) (lprev m) None (li_head ?i) ys r" "r = Some a"
      "lprev m a = pred_of None ys" "dseg (lnext m) (lprev m) (Some a) (lnext m a) zs None"
    using I by (auto simp: linst_rep_def dseg_append)
  have D: "distinct (ys @ a # zs)" using I by (simp add: linst_rep_def)
  have tl: "li_tail ?i = last_ptr (ys @ a # zs)" using I by (simp add: linst_rep_def)
  show ?thesis
  proof (cases zs)
    case Nil
    let ?j = "?i\<lparr>li_tail := Some d, li_counter := ?c\<rparr>"
    have "\<exists>m'. list_add (Some l) (Some a) (Some d) m = Some (EOK, m') \<and> linst m' = (linst m)(l := ?j) \<and>
        lnext m' = (lnext m)(d := None, a := Some d) \<and> lprev m' = (lprev m)(d := Some a)"
      using R Q tl Nil by (simp add: list_add_def Let_def)
    then obtain m' where E: "list_add (Some l) (Some a) (Some d) m = Some (EOK, m')"
      and m': "linst m' = (linst m)(l := ?j)" "lnext m' = (lnext m)(d := None, a := Some d)"
        "lprev m' = (lprev m)(d := Some a)" by blast
    have "linst_rep (lnext m') (lprev m') ?j (ys @ [a, d])"
      using I S D X [of l] L Q Nil da by (auto simp: m'(2,3) linst_rep_def dseg_append last_ptr_def)
    then have "lrep m' (f(l := ys @ [a, d]))"
      using R X A Q Nil by (intro lrep_update [OF R m'(1)])
        (auto simp: m'(2,3) lrep_inst dest: lrep_disjoint [of m f _ l])
    with E Nil show ?thesis by simp
  next
    case (Cons z zs')
    let ?j = "?i\<lparr>li_counter := ?c\<rparr>"
    have Z: "z \<notin> set (f k)" if "k \<noteq> l" for k
      using lrep_disjoint [OF R, of l k z] that Q Cons by auto
    have az: "a \<noteq> last zs" using D Cons by auto
    have "\<exists>m'. list_add (Some l) (Some a) (Some d) m = Some (EOK, m') \<and> linst m' = (linst m)(l := ?j) \<and>
        lnext m' = (lnext m)(d := Some z, a := Some d) \<and> lprev m' = (lprev m)(d := Some a, z := Some d)"
      using R Q tl S Cons da az by (auto simp: list_add_def Let_def last_ptr_def)
    then obtain m' where E: "list_add (Some l) (Some a) (Some d) m = Some (EOK, m')"
      and m': "linst m' = (linst m)(l := ?j)" "lnext m' = (lnext m)(d := Some z, a := Some d)"
        "lprev m' = (lprev m)(d := Some a, z := Some d)" by blast
    have "linst_rep (lnext m') (lprev m') ?j (ys @ a # d # zs)"
      using I S D X [of l] L Q Cons da by (auto simp: m'(2,3) linst_rep_def dseg_append last_ptr_def)
    then have "lrep m' (f(l := ys @ a # d # zs))"
      using R X A Z Q by (intro lrep_update [OF R m'(1)])
        (auto simp: m'(2,3) lrep_inst dest: lrep_disjoint [of m f _ l])
    with E show ?thesis by simp
  qed
qed

lemma list_append_rep:
  assumes R: "lrep m f" and U: "unlinked f d" and L: "Suc (length (f l)) < 2 ^ 32"
  shows "\<exists>m'. list_append (Some l) (Some d) m = Some (EOK, m') \<and> lrep m' (f(l := f l @ [d]))"
proof (cases "f l" rule: rev_cases)
  case Nil
  with list_add_empty_rep [OF R U, of l] show ?thesis by (simp add: list_append_def)
next
  case (snoc ys a)
  then have "li_tail (linst m l) = Some a" using lrep_inst [OF R, of l] by (simp add: linst_rep_def)
  with list_add_after_rep [OF R U L, of ys a "[]"] snoc show ?thesis by (simp add: list_append_def)
qed

lemma list_remove_rep:
  assumes R: "lrep m f" and Q: "f l = ys @ d # zs"
  shows "fst (list_remove (Some l) (Some d) m) = EOK \<and>
    lrep (snd (list_remove (Some l) (Some d) m)) (f(l := ys @ zs))"
proof -
  let ?i = "linst m l" and ?m = "snd (list_remove (Some l) (Some d) m)"
  let ?n = "lnext m d" and ?p = "lprev m d"
  have I: "linst_rep (lnext m) (lprev m) ?i (ys @ d # zs)" using lrep_inst [OF R, of l] Q by simp
  have S: "dseg (lnext m) (lprev m) None (li_head ?i) ys (Some d)" "?p = pred_of None ys"
      "dseg (lnext m) (lprev m) (Some d) ?n zs None"
    using I by (auto simp: linst_rep_def dseg_append)
  have D: "distinct (ys @ d # zs)" and t: "li_tail ?i = last_ptr (ys @ d # zs)"
    and c: "li_counter ?i = of_nat (length (ys @ d # zs))" and len: "length (ys @ d # zs) < 2 ^ 32"
    using I by (simp_all add: linst_rep_def)
  have n: "?n = (case zs of [] \<Rightarrow> None | z # _ \<Rightarrow> Some z)" using S(3) by (rule dseg_head)
  have h: "li_head ?i = Some d \<longleftrightarrow> ys = []" using S(1) D by (cases ys) auto
  have t': "li_tail ?i = Some d \<longleftrightarrow> zs = []" using t D by (auto simp: last_ptr_def)
  let ?j = "?i\<lparr>li_counter := li_counter ?i - 1,
      li_head := (if ys = [] then ?n else li_head ?i), li_tail := (if zs = [] then ?p else li_tail ?i)\<rparr>"
  let ?nx = "(if ys = [] then lnext m else (lnext m)(last ys := ?n))(d := None)"
  let ?pv = "(case zs of [] \<Rightarrow> lprev m | z # _ \<Rightarrow> (lprev m)(z := ?p))(d := None)"
  have pn: "d \<noteq> last ys \<or> ys = []" using D by (cases ys rule: rev_cases) auto
  have m': "fst (list_remove (Some l) (Some d) m) = EOK" "linst ?m = (linst m)(l := ?j)"
      "lnext ?m = ?nx" "lprev ?m = ?pv"
    using R Q h t' n pn S(2)
    by (auto simp: list_remove_def Let_def pred_of_def fun_eq_iff split: list.splits option.splits)
  have lz: "ys \<noteq> [] \<Longrightarrow> last ys \<notin> set zs" using D by (cases ys rule: rev_cases) auto
  have Z: "dseg ?nx ?pv ?p ?n zs None"
    using S(3) D lz by (cases zs) auto
  have Y: "dseg ?nx ?pv None (if ys = [] then ?n else li_head ?i) ys ?n"
    using dseg_relink_last [OF S(1), of ?n] D by (cases zs) auto
  have "of_nat (length (ys @ d # zs)) - 1 = (of_nat (length (ys @ zs)) :: u32)" by simp
  then have J: "linst_rep ?nx ?pv ?j (ys @ zs)"
    using Y Z S(2) D t c len by (auto simp: linst_rep_def dseg_append last_ptr_def pred_of_def)
  have F: "linst_rep ?nx ?pv (linst m k) (f k)" if "k \<noteq> l" for k
  proof -
    have "\<forall>x \<in> set (ys @ d # zs). x \<notin> set (f k)" using lrep_disjoint [OF R, of l k] that Q by auto
    then show ?thesis using lrep_inst [OF R, of k] by (cases zs) auto
  qed
  have "lrep ?m (f(l := ys @ zs))"
    using J F Q by (intro lrep_update [OF R m'(2)])
      (auto simp: m'(3,4) dest: lrep_disjoint [OF R, of _ l])
  with m'(1) show ?thesis by simp
qed

lemma search_from_rep:
  "dseg nx pv b p xs None \<Longrightarrow> search_from nx g p = Some (find g xs)"
  by (induction xs arbitrary: b p) (auto simp: search_from.simps)

lemma list_search_rep: "lrep m f \<Longrightarrow> list_search (Some l) (Some g) m = Some (find g (f l))"
  using lrep_inst [of m f l] search_from_rep
  by (fastforce simp: list_search_def linst_rep_def of_nat_word_0_iff)

lemma list_head_rep: "lrep m f \<Longrightarrow> list_head (Some l) m = (case f l of [] \<Rightarrow> None | x # _ \<Rightarrow> Some x)"
  using lrep_inst [of m f l] by (auto simp: list_head_def linst_rep_def dest: dseg_head)

lemma list_tail_rep: "lrep m f \<Longrightarrow> list_tail (Some l) m = last_ptr (f l)"
  using lrep_inst [of m f l] by (simp add: list_tail_def linst_rep_def)

lemma list_next_rep:
  assumes "lrep m f" "f l = ys @ x # zs"
  shows "lnext m x = (case zs of [] \<Rightarrow> None | z # _ \<Rightarrow> Some z)"
  using lrep_inst [OF assms(1), of l] assms(2)
  by (auto simp: linst_rep_def dseg_append dest: dseg_head)

section \<open>The contract offered to clients\<close>

text \<open>
  What the kernel libraries rely on when they keep their objects in a \<open>list_inst\<close>: prepending,
  appending and removing a handle, and walking the list by its \<open>next\<close> fields.
\<close>

locale dlist_iface =
  fixes rep :: "'m \<Rightarrow> ('l \<Rightarrow> 'n list) \<Rightarrow> bool"
    and prepend :: "'l \<Rightarrow> 'n \<Rightarrow> 'm \<Rightarrow> (status \<times> 'm) option"
    and append :: "'l \<Rightarrow> 'n \<Rightarrow> 'm \<Rightarrow> (status \<times> 'm) option"
    and remove :: "'l \<Rightarrow> 'n \<Rightarrow> 'm \<Rightarrow> status \<times> 'm"
    and first :: "'l \<Rightarrow> 'm \<Rightarrow> 'n option"
    and succ :: "'n \<Rightarrow> 'm \<Rightarrow> 'n option"
    and cap :: nat
  assumes prepend_rep: "rep m f \<Longrightarrow> unlinked f x \<Longrightarrow> Suc (length (f l)) < cap \<Longrightarrow>
      \<exists>m'. prepend l x m = Some (EOK, m') \<and> rep m' (f(l := x # f l))"
    and append_rep: "rep m f \<Longrightarrow> unlinked f x \<Longrightarrow> Suc (length (f l)) < cap \<Longrightarrow>
      \<exists>m'. append l x m = Some (EOK, m') \<and> rep m' (f(l := f l @ [x]))"
    and remove_rep: "rep m f \<Longrightarrow> f l = ys @ x # zs \<Longrightarrow>
      \<exists>m'. remove l x m = (EOK, m') \<and> rep m' (f(l := ys @ zs))"
    and first_rep: "rep m f \<Longrightarrow> first l m = (case f l of [] \<Rightarrow> None | x # _ \<Rightarrow> Some x)"
    and succ_rep: "rep m f \<Longrightarrow> f l = ys @ x # zs \<Longrightarrow>
      succ x m = (case zs of [] \<Rightarrow> None | z # _ \<Rightarrow> Some z)"
    and list_distinct: "rep m f \<Longrightarrow> distinct (f l)"
begin

text \<open>A handle linked once is removed by \<open>remove1\<close>, wherever it stands.\<close>

lemma remove1_rep:
  assumes R: "rep m f" and x: "x \<in> set (f l)"
  shows "\<exists>m'. remove l x m = (EOK, m') \<and> rep m' (f(l := remove1 x (f l)))"
proof -
  obtain ys zs where Q: "f l = ys @ x # zs" and n: "x \<notin> set ys"
    using x by (meson split_list_first)
  then have "remove1 x (f l) = ys @ zs" by (simp add: remove1_append)
  with remove_rep [OF R Q] show ?thesis by simp
qed

lemma prepend_remove_roundtrip:
  assumes R: "rep m f" and U: "unlinked f x" and L: "Suc (length (f l)) < cap"
  shows "\<exists>m1 m2. prepend l x m = Some (EOK, m1) \<and> remove l x m1 = (EOK, m2) \<and> rep m2 f"
proof -
  obtain m1 where p: "prepend l x m = Some (EOK, m1)" and r: "rep m1 (f(l := x # f l))"
    using prepend_rep [OF R U L] by blast
  have "\<exists>m2. remove l x m1 = (EOK, m2) \<and> rep m2 (f(l := x # f l, l := [] @ f l))"
    by (rule remove_rep [OF r, of l "[]"]) simp
  then have "\<exists>m2. remove l x m1 = (EOK, m2) \<and> rep m2 f" by simp
  with p show ?thesis by blast
qed

text \<open>The cursor loop \<open>for (c = head; c; c = c->next)\<close> visits the elements in order.\<close>

fun walk :: "nat \<Rightarrow> 'n option \<Rightarrow> 'm \<Rightarrow> 'n list" where
  "walk 0 c m = []"
| "walk (Suc n) c m = (case c of None \<Rightarrow> [] | Some x \<Rightarrow> x # walk n (succ x m) m)"

lemma walk_suffix:
  "rep m f \<Longrightarrow> f l = ys @ zs \<Longrightarrow> length zs \<le> n \<Longrightarrow>
   walk n (case zs of [] \<Rightarrow> None | z # _ \<Rightarrow> Some z) m = zs"
proof (induction zs arbitrary: n ys)
  case Nil
  then show ?case by (cases n) auto
next
  case (Cons z zs)
  then obtain k where n: "n = Suc k" and k: "length zs \<le> k" by (cases n) auto
  have "succ z m = (case zs of [] \<Rightarrow> None | z # _ \<Rightarrow> Some z)"
    using succ_rep [OF Cons.prems(1), of l ys z zs] Cons.prems(2) by simp
  moreover have "walk k (case zs of [] \<Rightarrow> None | z # _ \<Rightarrow> Some z) m = zs"
    by (rule Cons.IH [of "ys @ [z]"]) (use Cons.prems k in auto)
  ultimately show ?case using n by simp
qed

lemma walk_all: "rep m f \<Longrightarrow> length (f l) \<le> n \<Longrightarrow> walk n (first l m) m = f l"
  using walk_suffix [of m f l "[]" "f l" n] by (simp add: first_rep)

end

interpretation cl: dlist_iface lrep
  "\<lambda>l x. list_prepend (Some l) (Some x)" "\<lambda>l x. list_append (Some l) (Some x)"
  "\<lambda>l x. list_remove (Some l) (Some x)" "\<lambda>l. list_head (Some l)" "\<lambda>x m. lnext m x" "2 ^ 32"
proof (unfold_locales, goal_cases)
  case (3 m f l ys x zs)
  then show ?case using list_remove_rep [of m f l ys x zs] by (cases "list_remove (Some l) (Some x) m") auto
qed (auto intro: list_prepend_rep list_append_rep lrep_distinct simp: list_head_rep list_next_rep)

section \<open>Properties\<close>

definition no_lists :: "(nat, nat) lmem" where
  "no_lists = \<lparr>linst = (\<lambda>_. \<lparr>li_head = None, li_tail = None, li_counter = 0\<rparr>),
     lnext = (\<lambda>_. None), lprev = (\<lambda>_. None)\<rparr>"

lemma no_lists_rep: "lrep no_lists (\<lambda>_. [])"
  by (simp add: lrep_def linst_rep_def no_lists_def)

text \<open>The doubly linked lists implement lists of handles. Prepending and appending a node that is
  linked nowhere add it at the ends, removing a linked node takes out exactly that node, searching
  returns the first node that satisfies the predicate; the other lists keep their contents.\<close>

theorem list_refines_list:
  assumes "lrep m f" "unlinked f x" "Suc (length (f l)) < 2 ^ 32"
  shows "(\<exists>m'. list_prepend (Some l) (Some x) m = Some (EOK, m') \<and> lrep m' (f(l := x # f l))) \<and>
    (\<exists>m'. list_append (Some l) (Some x) m = Some (EOK, m') \<and> lrep m' (f(l := f l @ [x]))) \<and>
    (\<forall>y \<in> set (f l). \<exists>m'. list_remove (Some l) (Some y) m = (EOK, m') \<and> lrep m' (f(l := remove1 y (f l)))) \<and>
    list_search (Some l) (Some P) m = Some (find P (f l))"
  using cl.prepend_rep [OF assms] cl.append_rep [OF assms] cl.remove1_rep [OF assms(1)] list_search_rep [OF assms(1)]
  by blast

theorem list_refines_list_witness:
  "lrep no_lists (\<lambda>_. []) \<and>
   (\<exists>m'. list_append (Some 0) (Some 7) no_lists = Some (EOK, m') \<and> lrep m' ((\<lambda>_. [])(0 := [7])))"
  using list_refines_list [OF no_lists_rep, of 7 0] no_lists_rep by (simp add: unlinked_def)

end
