(* ===== verification/RBTree.thy ===== *)
theory RBTree
  imports Prelude
begin

text \<open>
  The red-black trees of \<^verbatim>\<open>src/libs/red_black_tree.c\<close>. The nodes of a tree are linked once, and every
  operation of the file replaces a link by the pointer a call returns, so a pointer to a node is the
  tree that hangs from it (\<open>Leaf\<close> is \<open>NULL\<close>); \<open>'a\<close> is the object a node is embedded in, which is what
  the comparison function reads. \<open>None\<close> is a dereference of \<open>NULL\<close>, a write outside the output array,
  or a loop that never ends because the comparison function returns none of its three values.
\<close>

unbundle bit_operations_syntax

section \<open>Nodes\<close>

definition KEY_LOWER :: int where "KEY_LOWER = - 1"
definition KEY_EQUAL :: int where "KEY_EQUAL = 0"
definition KEY_GREATER :: int where "KEY_GREATER = 1"

lemmas key_defs = KEY_LOWER_def KEY_EQUAL_def KEY_GREATER_def

definition NODE_IS_RED :: u32 where "NODE_IS_RED = 1"
definition NODE_IS_ROOT :: u32 where "NODE_IS_ROOT = 2"

datatype 'a rbtree_node =
    Leaf
  | Node (left: "'a rbtree_node") (obj: 'a) (flags: u32) (right: "'a rbtree_node")
  where "left Leaf = Leaf" | "right Leaf = Leaf"

datatype dir = DIR_LEFT | DIR_RIGHT

type_synonym 'a rbtreecmpfn = "'a \<Rightarrow> 'a \<Rightarrow> int"

fun opp :: "dir \<Rightarrow> dir" where
  "opp DIR_LEFT = DIR_RIGHT"
| "opp DIR_RIGHT = DIR_LEFT"

fun color_node_red :: "'a rbtree_node \<Rightarrow> 'a rbtree_node" where
  "color_node_red Leaf = Leaf"
| "color_node_red (Node l a f r) = Node l a (f OR NODE_IS_RED) r"

fun color_node_black :: "'a rbtree_node \<Rightarrow> 'a rbtree_node" where
  "color_node_black Leaf = Leaf"
| "color_node_black (Node l a f r) = Node l a (f AND NOT NODE_IS_RED) r"

fun node_is_red :: "'a rbtree_node \<Rightarrow> bool" where
  "node_is_red Leaf = False"
| "node_is_red (Node l a f r) = (f AND NODE_IS_RED \<noteq> 0)"

fun node_is_root :: "'a rbtree_node \<Rightarrow> bool" where
  "node_is_root Leaf = False"
| "node_is_root (Node l a f r) = (f AND NODE_IS_ROOT \<noteq> 0)"

fun set_node_as_root :: "'a rbtree_node \<Rightarrow> 'a rbtree_node" where
  "set_node_as_root Leaf = Leaf"
| "set_node_as_root (Node l a f r) = Node l a (f OR NODE_IS_ROOT) r"

fun clear_node_as_root :: "'a rbtree_node \<Rightarrow> 'a rbtree_node" where
  "clear_node_as_root Leaf = Leaf"
| "clear_node_as_root (Node l a f r) = Node l a (f AND NOT NODE_IS_ROOT) r"

section \<open>Rotations\<close>

text \<open>The two nodes of a rotation exchange the root mark, if the upper one has it.\<close>

definition move_root_mark :: "'a rbtree_node \<times> 'a rbtree_node \<Rightarrow> 'a rbtree_node \<times> 'a rbtree_node" where
  "move_root_mark = (\<lambda>(root, save).
     if node_is_root root then (clear_node_as_root root, set_node_as_root save) else (root, save))"

fun rotate_right :: "'a rbtree_node \<Rightarrow> 'a rbtree_node option" where
  "rotate_right (Node (Node ll la lf lr) a f r) =
     (case move_root_mark (color_node_red (Node lr a f r), color_node_black (Node ll la lf lr)) of
        (root, save) \<Rightarrow> Some (Node (left save) (obj save) (flags save) root))"
| "rotate_right _ = None"

fun rotate_left :: "'a rbtree_node \<Rightarrow> 'a rbtree_node option" where
  "rotate_left (Node l a f (Node rl ra rf rr)) =
     (case move_root_mark (color_node_red (Node l a f rl), color_node_black (Node rl ra rf rr)) of
        (root, save) \<Rightarrow> Some (Node root (obj save) (flags save) (right save)))"
| "rotate_left _ = None"

definition rotate_node :: "'a rbtree_node \<Rightarrow> dir \<Rightarrow> 'a rbtree_node option" where
  "rotate_node root dir = (if dir = DIR_RIGHT then rotate_right root else rotate_left root)"

fun double_rotate_right :: "'a rbtree_node \<Rightarrow> 'a rbtree_node option" where
  "double_rotate_right Leaf = None"
| "double_rotate_right (Node l a f r) = do { l' \<leftarrow> rotate_left l; rotate_right (Node l' a f r) }"

fun double_rotate_left :: "'a rbtree_node \<Rightarrow> 'a rbtree_node option" where
  "double_rotate_left Leaf = None"
| "double_rotate_left (Node l a f r) = do { r' \<leftarrow> rotate_right r; rotate_left (Node l a f r') }"

definition double_rotate :: "'a rbtree_node \<Rightarrow> dir \<Rightarrow> 'a rbtree_node option" where
  "double_rotate root dir = (if dir = DIR_RIGHT then double_rotate_right root else double_rotate_left root)"

fun get_child :: "'a rbtree_node \<Rightarrow> dir \<Rightarrow> 'a rbtree_node option" where
  "get_child Leaf dir = None"
| "get_child (Node l a f r) dir = Some (if dir = DIR_RIGHT then r else l)"

fun set_child :: "'a rbtree_node \<Rightarrow> dir \<Rightarrow> 'a rbtree_node \<Rightarrow> 'a rbtree_node option" where
  "set_child Leaf dir t = None"
| "set_child (Node l a f r) dir t = Some (if dir = DIR_RIGHT then Node l a f t else Node t a f r)"

section \<open>Searching\<close>

fun get_from_rbtree_internal :: "'a rbtree_node \<Rightarrow> 'a \<Rightarrow> 'a rbtreecmpfn \<Rightarrow> 'a rbtree_node option" where
  "get_from_rbtree_internal Leaf target cmpfn = Some Leaf"
| "get_from_rbtree_internal (Node l a f r) target cmpfn =
     (let cmpresval = cmpfn a target in
      if cmpresval = KEY_GREATER then get_from_rbtree_internal l target cmpfn
      else if cmpresval = KEY_LOWER then get_from_rbtree_internal r target cmpfn
      else if cmpresval = KEY_EQUAL then Some (Node l a f r)
      else None)"

text \<open>The last two components are \<open>parents[DIR_LEFT]\<close> and \<open>parents[DIR_RIGHT]\<close>.\<close>

fun find_common ::
  "'a rbtree_node \<Rightarrow> 'a \<Rightarrow> 'a rbtreecmpfn \<Rightarrow> 'a rbtree_node \<times> 'a rbtree_node \<Rightarrow>
   ('a rbtree_node \<times> 'a rbtree_node \<times> 'a rbtree_node) option" where
  "find_common Leaf target cmpfn (pl, pr) = Some (Leaf, pl, pr)"
| "find_common (Node l a f r) target cmpfn (pl, pr) =
     (let retval = cmpfn a target in
      if retval = KEY_GREATER then find_common l target cmpfn (pl, Node l a f r)
      else if retval = KEY_LOWER then find_common r target cmpfn (Node l a f r, pr)
      else if retval = KEY_EQUAL then Some (Node l a f r, pl, pr)
      else None)"

text \<open>\<open>while (root && get_child(root, dir)) root = get_child(root, dir)\<close>\<close>

fun walk_down :: "dir \<Rightarrow> 'a rbtree_node \<Rightarrow> 'a rbtree_node" where
  "walk_down dir Leaf = Leaf"
| "walk_down DIR_LEFT (Node l a f r) = (if l \<noteq> Leaf then walk_down DIR_LEFT l else Node l a f r)"
| "walk_down DIR_RIGHT (Node l a f r) = (if r \<noteq> Leaf then walk_down DIR_RIGHT r else Node l a f r)"

definition find_in_rbtree :: "'a rbtree_node \<Rightarrow> 'a \<Rightarrow> 'a rbtreecmpfn \<Rightarrow> bool \<Rightarrow> 'a rbtree_node option" where
  "find_in_rbtree root target cmpfn lower =
     do { (root, pl, pr) \<leftarrow> find_common root target cmpfn (Leaf, Leaf);
          let dir = (if lower then DIR_LEFT else DIR_RIGHT);
          let lastp = (if lower then pl else pr);
          if root = Leaf then Some lastp
          else do { c \<leftarrow> get_child root dir;
                    if c \<noteq> Leaf then Some (walk_down (opp dir) c) else Some lastp } }"

definition find_in_rbtree_exact :: "'a rbtree_node \<Rightarrow> 'a \<Rightarrow> 'a rbtreecmpfn \<Rightarrow> bool \<Rightarrow> 'a rbtree_node option" where
  "find_in_rbtree_exact root target cmpfn lower =
     do { (root, pl, pr) \<leftarrow> find_common root target cmpfn (Leaf, Leaf);
          if root = Leaf then Some Leaf
          else do {
            let dir = (if lower then DIR_LEFT else DIR_RIGHT);
            c \<leftarrow> get_child root dir;
            if c \<noteq> Leaf then Some (walk_down (opp dir) c) else Some (if lower then pl else pr) } }"

section \<open>Insertion\<close>

text \<open>The rebalancing after the recursive call of \<open>insert_recursive\<close>, on the side \<open>dir\<close> it descended into.\<close>

definition insert_balance :: "dir \<Rightarrow> 'a rbtree_node \<Rightarrow> 'a rbtree_node option" where
  "insert_balance dir root =
     do { temp \<leftarrow> get_child root dir;
          other \<leftarrow> get_child root (opp dir);
          if \<not> node_is_red temp then Some root
          else if node_is_red other
          then (case color_node_red root of
                  Leaf \<Rightarrow> None
                | Node l a f r \<Rightarrow> Some (Node (color_node_black l) a f (color_node_black r)))
          else do { outer \<leftarrow> get_child temp dir;
                    inner \<leftarrow> get_child temp (opp dir);
                    if node_is_red outer then rotate_node root (opp dir)
                    else if node_is_red inner then double_rotate root (opp dir)
                    else Some root } }"

text \<open>The new node is given by its object and its flags; \<open>rbtree_insert\<close> has cleared its links. The
  boolean is \<open>*dup\<close>.\<close>

fun insert_recursive ::
  "'a rbtree_node \<Rightarrow> 'a \<Rightarrow> u32 \<Rightarrow> 'a rbtreecmpfn \<Rightarrow> ('a rbtree_node \<times> bool) option" where
  "insert_recursive Leaf newn nflags cmpfn = Some (Node Leaf newn nflags Leaf, False)"
| "insert_recursive (Node l a f r) newn nflags cmpfn =
     (let cmpval = cmpfn a newn in
      if cmpval \<noteq> KEY_EQUAL then
        (let dir = (if cmpval = KEY_GREATER then DIR_LEFT else DIR_RIGHT) in
         do { (c, dup) \<leftarrow> insert_recursive (if cmpval = KEY_GREATER then l else r) newn nflags cmpfn;
              root \<leftarrow> set_child (Node l a f r) dir c;
              root' \<leftarrow> insert_balance dir root;
              Some (root', dup) })
      else Some (Node l a f r, True))"

text \<open>Arguments that are pointers may be \<open>NULL\<close>; the result is the returned node and the new root.\<close>

definition rbtree_insert ::
  "'a rbtree_node option \<Rightarrow> ('a \<times> u32) option \<Rightarrow> 'a rbtreecmpfn option \<Rightarrow>
   ('a option \<times> 'a rbtree_node option) option" where
  "rbtree_insert root node cmpfn =
     (case (root, node, cmpfn) of
        (Some t, Some (x, f), Some cmp) \<Rightarrow>
          (let nf = f OR NODE_IS_RED in
           if t = Leaf
           then Some (Some x, Some (color_node_black (set_node_as_root (Node Leaf x nf Leaf))))
           else do { (t', dup) \<leftarrow> insert_recursive t x nf cmp;
                     if dup then Some (None, Some t')
                     else Some (Some x, Some (set_node_as_root (color_node_black t'))) })
      | _ \<Rightarrow> Some (None, root))"

section \<open>Extraction\<close>

text \<open>The boolean is \<open>*done\<close>, which is false on entry.\<close>

definition rbtree_extract_balance :: "'a rbtree_node \<Rightarrow> dir \<Rightarrow> ('a rbtree_node \<times> bool) option" where
  "rbtree_extract_balance root dir =
     do { s0 \<leftarrow> get_child root (opp dir);
          let turned = node_is_red s0;
          top \<leftarrow> (if turned then rotate_node root dir else Some root);
          p \<leftarrow> (if turned then get_child top dir else Some root);
          s \<leftarrow> get_child p (opp dir);
          if s = Leaf then Some (top, False)
          else if \<not> node_is_red (left s) \<and> \<not> node_is_red (right s) then
            do { p' \<leftarrow> set_child (color_node_black p) (opp dir) (color_node_red s);
                 top' \<leftarrow> (if turned then set_child top dir p' else Some p');
                 Some (top', node_is_red p) }
          else
            do { let save = node_is_red top;
                 outer \<leftarrow> get_child s (opp dir);
                 q \<leftarrow> (if node_is_red outer then rotate_node p dir else double_rotate p dir);
                 q' \<leftarrow> (case (if save then color_node_red q else color_node_black q) of
                         Leaf \<Rightarrow> None
                       | Node l a f r \<Rightarrow> Some (Node (color_node_black l) a f (color_node_black r)));
                 top' \<leftarrow> (if turned then set_child top dir (color_node_red q') else Some q');
                 Some (top', True) } }"

text \<open>The result: the new subtree, \<open>*done\<close> and \<open>*retv\<close>.\<close>

fun rbtree_extract_recursive ::
  "'a rbtree_node \<Rightarrow> 'a \<Rightarrow> 'a rbtreecmpfn \<Rightarrow> ('a rbtree_node \<times> bool \<times> 'a option) option" where
  "rbtree_extract_recursive Leaf target cmpfn = Some (Leaf, True, None)"
| "rbtree_extract_recursive (Node l a f r) target cmpfn =
     (let res = cmpfn a target in
      if res = KEY_EQUAL \<and> (l = Leaf \<or> r = Leaf) then
        (let save = (if l = Leaf then r else l) in
         if node_is_red (Node l a f r) then Some (save, True, Some a)
         else if node_is_red save then Some (color_node_black save, True, Some a)
         else Some (save, False, Some a))
      else
        (let heir = (if res = KEY_EQUAL then Some (obj (walk_down DIR_RIGHT l)) else None);
             dir = (if res = KEY_LOWER then DIR_RIGHT else DIR_LEFT)
         in do { (c, done, retv) \<leftarrow> rbtree_extract_recursive (if res = KEY_LOWER then r else l)
                                       (case heir of Some h \<Rightarrow> h | None \<Rightarrow> target) cmpfn;
                 root \<leftarrow> set_child (Node l a f r) dir c;
                 let (root', retv') = (case heir of
                        Some h \<Rightarrow> (Node (left root) h f (right root), Some a)
                      | None \<Rightarrow> (root, retv));
                 if \<not> done
                 then do { (t, d) \<leftarrow> rbtree_extract_balance root' dir; Some (t, d, retv') }
                 else Some (root', True, retv') }))"

definition rbtree_extract ::
  "'a rbtree_node option \<Rightarrow> 'a option \<Rightarrow> 'a rbtreecmpfn option \<Rightarrow>
   ('a option \<times> 'a rbtree_node option) option" where
  "rbtree_extract root target cmpfn =
     (case (root, target, cmpfn) of
        (Some t, Some x, Some cmp) \<Rightarrow>
          if t = Leaf then Some (None, root)
          else do { (t', done, retval) \<leftarrow> rbtree_extract_recursive t x cmp;
                    Some (retval, Some (set_node_as_root (color_node_black t'))) }
      | _ \<Rightarrow> Some (None, root))"

section \<open>Public queries\<close>

text \<open>A returned node is the tree that hangs from it, \<open>Leaf\<close> for \<open>NULL\<close>.\<close>

definition rbtree_search ::
  "'a rbtree_node \<Rightarrow> 'a option \<Rightarrow> 'a rbtreecmpfn option \<Rightarrow> 'a rbtree_node option" where
  "rbtree_search root target cmpfn =
     (case (target, cmpfn) of
        (Some x, Some cmp) \<Rightarrow> if root = Leaf then Some Leaf else get_from_rbtree_internal root x cmp
      | _ \<Rightarrow> Some Leaf)"

definition rbtree_first :: "'a rbtree_node \<Rightarrow> 'a rbtree_node" where
  "rbtree_first root = walk_down DIR_LEFT root"

definition rbtree_last :: "'a rbtree_node \<Rightarrow> 'a rbtree_node" where
  "rbtree_last root = walk_down DIR_RIGHT root"

definition guarded_find ::
  "('a rbtree_node \<Rightarrow> 'a \<Rightarrow> 'a rbtreecmpfn \<Rightarrow> bool \<Rightarrow> 'a rbtree_node option) \<Rightarrow> bool \<Rightarrow>
   'a rbtree_node \<Rightarrow> 'a option \<Rightarrow> 'a rbtreecmpfn option \<Rightarrow> 'a rbtree_node option" where
  "guarded_find find_fn lower root target cmpfn =
     (case (target, cmpfn) of
        (Some x, Some cmp) \<Rightarrow> if root = Leaf then Some Leaf else find_fn root x cmp lower
      | _ \<Rightarrow> Some Leaf)"

definition rbtree_previous :: "'a rbtree_node \<Rightarrow> 'a option \<Rightarrow> 'a rbtreecmpfn option \<Rightarrow> 'a rbtree_node option" where
  "rbtree_previous = guarded_find find_in_rbtree_exact True"

definition rbtree_next :: "'a rbtree_node \<Rightarrow> 'a option \<Rightarrow> 'a rbtreecmpfn option \<Rightarrow> 'a rbtree_node option" where
  "rbtree_next = guarded_find find_in_rbtree_exact False"

definition rbtree_search_previous ::
  "'a rbtree_node \<Rightarrow> 'a option \<Rightarrow> 'a rbtreecmpfn option \<Rightarrow> 'a rbtree_node option" where
  "rbtree_search_previous = guarded_find find_in_rbtree True"

definition rbtree_search_next ::
  "'a rbtree_node \<Rightarrow> 'a option \<Rightarrow> 'a rbtreecmpfn option \<Rightarrow> 'a rbtree_node option" where
  "rbtree_search_next = guarded_find find_in_rbtree False"

text \<open>\<open>rbtree_verify\<close> without its messages; 0 reports a violation.\<close>

fun rbtree_verify :: "'a rbtree_node \<Rightarrow> 'a rbtreecmpfn \<Rightarrow> int" where
  "rbtree_verify Leaf cmpfn = 1"
| "rbtree_verify (Node ln a f rn) cmpfn =
     (if node_is_red (Node ln a f rn) \<and> (node_is_red ln \<or> node_is_red rn) then 0
      else
        (let lh = rbtree_verify ln cmpfn; rh = rbtree_verify rn cmpfn in
         if ln \<noteq> Leaf \<and> cmpfn (obj ln) a \<noteq> KEY_LOWER \<or> rn \<noteq> Leaf \<and> cmpfn (obj rn) a \<noteq> KEY_GREATER then 0
         else if lh \<noteq> 0 \<and> rh \<noteq> 0 \<and> lh \<noteq> rh then 0
         else if lh \<noteq> 0 \<and> rh \<noteq> 0 then (if node_is_red (Node ln a f rn) then lh else lh + 1)
         else 0))"

fun rbtree_count :: "'a rbtree_node \<Rightarrow> u32" where
  "rbtree_count Leaf = 0"
| "rbtree_count (Node l a f r) = 1 + rbtree_count l + rbtree_count r"

text \<open>
  The loop of \<open>rbtree_enumerate_inorder_range\<close>. \<open>list\<close> is \<open>None\<close> for a \<open>NULL\<close> array; nodes are compared
  by the object they are embedded in, the pointer the code compares.
\<close>

partial_function (option) range_loop ::
  "'a rbtree_node \<Rightarrow> 'a rbtreecmpfn \<Rightarrow> 'a \<Rightarrow> 'a option \<Rightarrow> 'a option list option \<Rightarrow> nat \<Rightarrow>
   (nat \<times> 'a option list option) option" where
  "range_loop root cmpfn stop cursor lst counter =
     do { lst' \<leftarrow> (case lst of None \<Rightarrow> Some None | Some xs \<Rightarrow> map_option Some (arr_set xs counter cursor));
          if cursor = Some stop then Some (counter + 1, lst')
          else do { c \<leftarrow> cursor;
                    nx \<leftarrow> rbtree_next root (Some c) (Some cmpfn);
                    range_loop root cmpfn stop (if nx = Leaf then None else Some (obj nx)) lst' (counter + 1) } }"

definition rbtree_enumerate_inorder_range ::
  "'a rbtree_node \<Rightarrow> 'a option \<Rightarrow> 'a option \<Rightarrow> 'a rbtreecmpfn option \<Rightarrow> 'a option list option \<Rightarrow>
   (nat \<times> 'a option list option) option" where
  "rbtree_enumerate_inorder_range root low high cmpfn lst =
     (case (low, high, cmpfn) of
        (Some lo, Some hi, Some cmp) \<Rightarrow>
          if root = Leaf then Some (0, lst)
          else do {
            s0 \<leftarrow> rbtree_search root (Some lo) (Some cmp);
            start \<leftarrow> (if s0 = Leaf then rbtree_search_next root (Some lo) (Some cmp) else Some s0);
            e0 \<leftarrow> rbtree_search root (Some hi) (Some cmp);
            stop \<leftarrow> (if e0 = Leaf then rbtree_search_previous root (Some hi) (Some cmp) else Some e0);
            if start = Leaf \<or> stop = Leaf then Some (0, lst)
            else if cmp (obj start) (obj stop) \<noteq> KEY_LOWER then Some (0, lst)
            else range_loop root cmp (obj stop) (Some (obj start)) lst 0 }
      | _ \<Rightarrow> Some (0, lst))"

fun rbtree_enum_recursive ::
  "'a rbtree_node \<Rightarrow> 'a option list \<Rightarrow> nat \<Rightarrow> ('a option list \<times> nat) option" where
  "rbtree_enum_recursive Leaf item pos = None"
| "rbtree_enum_recursive (Node l a f r) item pos =
     do { (item1, pos1) \<leftarrow> (if l \<noteq> Leaf then rbtree_enum_recursive l item pos else Some (item, pos));
          item2 \<leftarrow> arr_set item1 pos1 (Some a);
          if r \<noteq> Leaf then rbtree_enum_recursive r item2 (pos1 + 1) else Some (item2, pos1 + 1) }"

definition rbtree_enumerate_inorder :: "'a rbtree_node \<Rightarrow> 'a option list \<Rightarrow> 'a option list option" where
  "rbtree_enumerate_inorder root lst = map_option fst (rbtree_enum_recursive root lst 0)"

text \<open>
  \<open>rbtree_enumerate_layered\<close>: the inner loop appends the children of the nodes between \<open>r1\<close> and
  \<open>r2\<close> at \<open>c\<close>; the outer one goes on as long as a round appended something. The array holds
  the nodes themselves, since the loop reads their links.
\<close>

definition append_node ::
  "'a rbtree_node \<Rightarrow> 'a rbtree_node list \<times> nat \<Rightarrow> ('a rbtree_node list \<times> nat) option" where
  "append_node t = (\<lambda>(lst, c).
     if t \<noteq> Leaf then do { lst' \<leftarrow> arr_set lst c t; Some (lst', c + 1) } else Some (lst, c))"

fun layer_loop ::
  "nat \<Rightarrow> nat \<Rightarrow> 'a rbtree_node list \<times> nat \<Rightarrow> ('a rbtree_node list \<times> nat) option" where
  "layer_loop 0 r1 st = Some st"
| "layer_loop (Suc n) r1 (lst, c) =
     do { t \<leftarrow> arr_get lst r1;
          if t = Leaf then None
          else do { st1 \<leftarrow> append_node (left t) (lst, c);
                    st2 \<leftarrow> append_node (right t) st1;
                    layer_loop n (r1 + 1) st2 } }"

partial_function (option) layers_loop ::
  "nat \<Rightarrow> 'a rbtree_node list \<Rightarrow> nat \<Rightarrow> 'a rbtree_node list option" where
  "layers_loop r1 lst c =
     do { (lst', c') \<leftarrow> layer_loop (c - r1) r1 (lst, c);
          if c \<noteq> c' then layers_loop c lst' c' else Some lst' }"

definition rbtree_enumerate_layered ::
  "'a rbtree_node \<Rightarrow> 'a rbtree_node list option \<Rightarrow> 'a rbtree_node list option option" where
  "rbtree_enumerate_layered root lst =
     (case lst of
        None \<Rightarrow> Some None
      | Some xs \<Rightarrow>
          if root = Leaf then Some lst
          else do { xs1 \<leftarrow> arr_set xs 0 root; map_option Some (layers_loop 0 xs1 1) })"

text \<open>The walk function gets the node and returns a boolean; \<open>'s\<close> is what it changes through its parameter.\<close>

fun rbtree_walk_recursive :: "'a rbtree_node \<Rightarrow> ('a \<Rightarrow> 's \<Rightarrow> bool \<times> 's) \<Rightarrow> 's \<Rightarrow> bool \<times> 's" where
  "rbtree_walk_recursive Leaf wlkfn s = (True, s)"
| "rbtree_walk_recursive (Node l a f r) wlkfn s =
     (case rbtree_walk_recursive l wlkfn s of
        (False, s1) \<Rightarrow> (False, s1)
      | (True, s1) \<Rightarrow> (case wlkfn a s1 of
           (False, s2) \<Rightarrow> (False, s2)
         | (True, s2) \<Rightarrow> rbtree_walk_recursive r wlkfn s2))"

definition rbtree_walk :: "'a rbtree_node \<Rightarrow> ('a \<Rightarrow> 's \<Rightarrow> bool \<times> 's) option \<Rightarrow> 's \<Rightarrow> 's" where
  "rbtree_walk root wlkfn s =
     (case wlkfn of None \<Rightarrow> s | Some w \<Rightarrow> if root = Leaf then s else snd (rbtree_walk_recursive root w s))"

end
