(* ===== verification/RBTreeInv.thy ===== *)
theory RBTreeInv
  imports RBTree
begin

text \<open>
  The invariants of the red-black trees (equal black heights, no two adjacent red nodes, keys in order),
  the two rebalancing steps, and in the locale \<open>key_order\<close> what insertion, extraction and the search
  for a key do to the in-order list of a tree.
\<close>

unbundle bit_operations_syntax

section \<open>Colours and links\<close>

definition red :: "u32 \<Rightarrow> bool" where
  "red f \<longleftrightarrow> f AND NODE_IS_RED \<noteq> 0"

lemma red_iff: "red f \<longleftrightarrow> bit f 0"
  by (simp add: red_def NODE_IS_RED_def and_one_eq odd_iff_mod_2_eq_one bit_0)

lemma red_flags [simp]:
  "red (f OR NODE_IS_RED)" "\<not> red (f AND NOT NODE_IS_RED)"
  "red (f OR NODE_IS_ROOT) = red f" "red (f AND NOT NODE_IS_ROOT) = red f"
  unfolding red_iff NODE_IS_RED_def NODE_IS_ROOT_def
  by (simp_all only: bit_or_iff bit_and_iff bit_not_iff bit_1_iff bit_numeral_simps) (simp_all add: bit_0)

text \<open>The flags the lower and the upper node have after a rotation.\<close>

definition lowered :: "u32 \<Rightarrow> u32" where
  "lowered f = (if (f OR NODE_IS_RED) AND NODE_IS_ROOT \<noteq> 0
     then (f OR NODE_IS_RED) AND NOT NODE_IS_ROOT else f OR NODE_IS_RED)"

definition raised :: "u32 \<Rightarrow> u32 \<Rightarrow> u32" where
  "raised f g = (if (f OR NODE_IS_RED) AND NODE_IS_ROOT \<noteq> 0
     then (g AND NOT NODE_IS_RED) OR NODE_IS_ROOT else g AND NOT NODE_IS_RED)"

lemma red_rotated [simp]: "red (lowered f)" "\<not> red (raised f g)"
  by (simp_all add: lowered_def raised_def)

lemma rotate_right_Node [simp]:
  "rotate_right (Node (Node ll la lf lr) a f r) = Some (Node ll la (raised f lf) (Node lr a (lowered f) r))"
  by (simp add: move_root_mark_def lowered_def raised_def)

lemma rotate_left_Node [simp]:
  "rotate_left (Node l a f (Node rl ra rf rr)) = Some (Node (Node l a (lowered f) rl) ra (raised f rf) rr)"
  by (simp add: move_root_mark_def lowered_def raised_def)

lemma node_is_red_Node [simp]: "node_is_red (Node l a f r) = red f"
  by (simp add: red_def)

declare rotate_right.simps(1) [simp del] rotate_left.simps(1) [simp del] node_is_red.simps(2) [simp del]

lemma red_nodeE:
  assumes "node_is_red t"
  obtains l a f r where "t = Node l a f r" "red f"
  using assms by (cases t) auto

section \<open>Trees as lists, and the balance invariants\<close>

fun inorder :: "'a rbtree_node \<Rightarrow> 'a list" where
  "inorder Leaf = []"
| "inorder (Node l a f r) = inorder l @ a # inorder r"

fun bheight :: "'a rbtree_node \<Rightarrow> nat" where
  "bheight Leaf = 0"
| "bheight (Node l a f r) = (if red f then bheight l else Suc (bheight l))"

fun invh :: "'a rbtree_node \<Rightarrow> bool" where
  "invh Leaf = True"
| "invh (Node l a f r) = (bheight l = bheight r \<and> invh l \<and> invh r)"

fun invc :: "'a rbtree_node \<Rightarrow> bool" where
  "invc Leaf = True"
| "invc (Node l a f r) = ((red f \<longrightarrow> \<not> node_is_red l \<and> \<not> node_is_red r) \<and> invc l \<and> invc r)"

text \<open>Two adjacent red nodes are allowed at the root only; an insertion makes at most one such pair.\<close>

definition invc2 :: "'a rbtree_node \<Rightarrow> bool" where
  "invc2 t \<longleftrightarrow> invc (color_node_black t)"

definition one_pair :: "'a rbtree_node \<Rightarrow> bool" where
  "one_pair t \<longleftrightarrow> invc2 t \<and> \<not> (node_is_red t \<and> node_is_red (left t) \<and> node_is_red (right t))"

definition rb_ok :: "'a rbtree_node \<Rightarrow> bool" where
  "rb_ok t \<longleftrightarrow> invc t \<and> invh t \<and> \<not> node_is_red t"

lemma invc2_Node [simp]: "invc2 (Node l a f r) \<longleftrightarrow> invc l \<and> invc r"
  by (simp add: invc2_def)

lemma invc2_Leaf [simp]: "invc2 Leaf"
  by (simp add: invc2_def)

lemma invc_invc2: "invc t \<Longrightarrow> invc2 t"
  by (cases t) auto

lemma invc_one_pair: "invc t \<Longrightarrow> one_pair t"
  by (cases t) (auto simp: one_pair_def)

lemma painted [simp]:
  "inorder (color_node_black t) = inorder t" "inorder (color_node_red t) = inorder t"
  "inorder (set_node_as_root t) = inorder t"
  "\<not> node_is_red (color_node_black t)" "node_is_red (set_node_as_root t) = node_is_red t"
  "invh (color_node_black t) = invh t" "invh (set_node_as_root t) = invh t"
  "invc (set_node_as_root t) = invc t" "invc (color_node_black t) = invc2 t"
  "bheight (set_node_as_root t) = bheight t" "left (color_node_black t) = left t" "right (color_node_black t) = right t"
  by (cases t; simp)+

lemma painted_Leaf [simp]:
  "color_node_black t = Leaf \<longleftrightarrow> t = Leaf" "color_node_red t = Leaf \<longleftrightarrow> t = Leaf" "set_node_as_root t = Leaf \<longleftrightarrow> t = Leaf"
  by (cases t; simp)+

lemma bheight_black: "bheight (color_node_black t) = (if node_is_red t then Suc (bheight t) else bheight t)"
  by (cases t) auto

lemma inorder_Leaf [simp]: "inorder t = [] \<longleftrightarrow> t = Leaf"
  by (cases t) auto

section \<open>The rebalancing of an insertion\<close>

lemma insert_balance_cases:
  "insert_balance DIR_LEFT (Node c a f r) =
     (if \<not> node_is_red c then Some (Node c a f r)
      else if node_is_red r then Some (Node (color_node_black c) a (f OR NODE_IS_RED) (color_node_black r))
      else if node_is_red (left c) then rotate_right (Node c a f r)
      else if node_is_red (right c) then double_rotate_right (Node c a f r) else Some (Node c a f r))"
    "insert_balance DIR_RIGHT (Node l a f c) =
     (if \<not> node_is_red c then Some (Node l a f c)
      else if node_is_red l then Some (Node (color_node_black l) a (f OR NODE_IS_RED) (color_node_black c))
      else if node_is_red (right c) then rotate_left (Node l a f c)
      else if node_is_red (left c) then double_rotate_left (Node l a f c) else Some (Node l a f c))"
  by (cases c; simp add: insert_balance_def rotate_node_def double_rotate_def)+

lemma insert_balance_left:
  assumes "one_pair c" "invh c" "invc r" "invh r" "bheight c = bheight r"
    and "red f \<Longrightarrow> \<not> node_is_red r \<and> invc c"
  shows "\<exists>t. insert_balance DIR_LEFT (Node c a f r) = Some t \<and> inorder t = inorder c @ a # inorder r \<and>
    one_pair t \<and> (\<not> red f \<longrightarrow> invc t) \<and> invh t \<and> bheight t = bheight (Node c a f r)"
  using assms
  by (cases c; cases r; auto simp: insert_balance_cases bheight_black one_pair_def split: if_splits elim!: red_nodeE)

lemma insert_balance_right:
  assumes "one_pair c" "invh c" "invc l" "invh l" "bheight l = bheight c"
    and "red f \<Longrightarrow> \<not> node_is_red l \<and> invc c"
  shows "\<exists>t. insert_balance DIR_RIGHT (Node l a f c) = Some t \<and> inorder t = inorder l @ a # inorder c \<and>
    one_pair t \<and> (\<not> red f \<longrightarrow> invc t) \<and> invh t \<and> bheight t = bheight (Node l a f c)"
  using assms
  by (cases c; cases l; auto simp: insert_balance_cases bheight_black one_pair_def split: if_splits elim!: red_nodeE)

lemma insert_balance_inorder:
  "\<exists>t. insert_balance DIR_LEFT (Node c a f r) = Some t \<and> inorder t = inorder c @ a # inorder r"
  "\<exists>t. insert_balance DIR_RIGHT (Node l a f c) = Some t \<and> inorder t = inorder l @ a # inorder c"
  by (cases c; cases r; auto simp: insert_balance_cases elim!: red_nodeE)
     (cases c; cases l; auto simp: insert_balance_cases elim!: red_nodeE)

text \<open>The comparison function is only read at the nodes of the tree and the new node.\<close>

lemma insert_recursive_cong:
  "(\<And>a. a \<in> set (inorder t) \<Longrightarrow> cmp a x = cmp' a x) \<Longrightarrow> insert_recursive t x nf cmp = insert_recursive t x nf cmp'"
  by (induction t) (auto simp: Let_def)

lemma rbtree_insert_cong:
  "(\<And>a. a \<in> set (inorder t) \<Longrightarrow> cmp a x = cmp' a x) \<Longrightarrow>
   rbtree_insert (Some t) (Some (x, nf)) (Some cmp) = rbtree_insert (Some t) (Some (x, nf)) (Some cmp')"
  by (simp add: rbtree_insert_def Let_def insert_recursive_cong [of t cmp x cmp'])

section \<open>The rebalancing of an extraction\<close>

text \<open>
  What a step of an extraction leaves of a subtree \<open>t\<close>: when \<open>done\<close> is set the black height is that of
  \<open>t\<close> and a black root stays black; otherwise a black \<open>t\<close> became one level shorter.
\<close>

definition shrunk :: "bool \<Rightarrow> 'a rbtree_node \<Rightarrow> 'a rbtree_node \<Rightarrow> bool" where
  "shrunk done t t' \<longleftrightarrow> invc t' \<and> invh t' \<and>
     (if done then bheight t' = bheight t \<and> (node_is_red t' \<longrightarrow> node_is_red t)
      else bheight t = Suc (bheight t') \<and> \<not> node_is_red t \<and> \<not> node_is_red t')"

text \<open>The flags of the node that takes the place of the root, whose old flags are \<open>f\<close>.\<close>

definition recolored :: "u32 \<Rightarrow> u32 \<Rightarrow> u32" where
  "recolored f g = (if red f then g OR NODE_IS_RED else g AND NOT NODE_IS_RED)"

lemma red_recolored [simp]: "red (recolored f g) = red f"
  by (simp add: recolored_def)

lemma ex_bool [simp]: "\<exists>d. d" "(\<exists>d. d \<and> P d) \<longleftrightarrow> P True" "(\<exists>d. \<not> d \<and> P d) \<longleftrightarrow> P False"
  by (auto intro: exI [of _ True])

text \<open>The second half of the step on the left side, when the sibling is black.\<close>

lemma extract_balance_left_flip:
  assumes "\<not> red sf" "\<not> node_is_red sl" "\<not> node_is_red sr"
  shows "rbtree_extract_balance (Node l b f (Node sl sa sf sr)) DIR_LEFT =
    Some (Node l b (f AND NOT NODE_IS_RED) (Node sl sa (sf OR NODE_IS_RED) sr), red f)"
  using assms by (simp add: rbtree_extract_balance_def)

lemma extract_balance_left_outer:
  assumes "\<not> red sf" "node_is_red sr"
  shows "rbtree_extract_balance (Node l b f (Node sl sa sf sr)) DIR_LEFT =
    Some (Node (Node l b (lowered f AND NOT NODE_IS_RED) sl) sa (recolored f (raised f sf)) (color_node_black sr), True)"
  using assms by (simp add: rbtree_extract_balance_def rotate_node_def recolored_def)

lemma extract_balance_left_inner:
  assumes "\<not> red sf" "\<not> node_is_red sr" "red g"
  shows "rbtree_extract_balance (Node l b f (Node (Node x c g y) sa sf sr)) DIR_LEFT =
    Some (Node (Node l b (lowered f AND NOT NODE_IS_RED) x) c (recolored f (raised f (raised sf g)))
      (Node y sa (lowered sf AND NOT NODE_IS_RED) sr), True)"
  using assms by (simp add: rbtree_extract_balance_def double_rotate_def recolored_def)

lemmas extract_balance_left_black = extract_balance_left_flip extract_balance_left_outer extract_balance_left_inner

text \<open>A red sibling is turned above the root first; the step then goes on below it.\<close>

lemma clear_then_set: "(w AND NOT m) OR m = w OR (m :: u32)"
  by (simp add: bit.disj_conj_distrib2)

lemma extract_balance_left_turned:
  assumes "red sf" "sl = Node x c g y" "\<not> red g" "rbtree_extract_balance (Node l b (lowered f) sl) DIR_LEFT = Some (t, d)"
  shows "rbtree_extract_balance (Node l b f (Node sl sa sf sr)) DIR_LEFT = Some (Node t sa (raised f sf) sr, True)"
proof (cases "node_is_red y")
  case True
  then show ?thesis using assms
    by (auto simp: extract_balance_left_outer) (simp add: rbtree_extract_balance_def rotate_node_def recolored_def clear_then_set)
next
  case y: False
  show ?thesis
  proof (cases "node_is_red x")
    case True
    then show ?thesis using assms y
      by (auto simp: extract_balance_left_inner elim!: red_nodeE)
        (simp add: rbtree_extract_balance_def rotate_node_def double_rotate_def recolored_def clear_then_set)
  next
    case False
    then show ?thesis using assms y
      by (auto simp: extract_balance_left_flip) (simp add: rbtree_extract_balance_def rotate_node_def)
  qed
qed

lemma extract_balance_left_of_black:
  assumes "invc l'" "invh l'" "\<not> node_is_red l'" "invc r" "invh r" "bheight r = Suc (bheight l')" "\<not> node_is_red r"
  shows "\<exists>t d. rbtree_extract_balance (Node l' b f r) DIR_LEFT = Some (t, d) \<and> inorder t = inorder l' @ b # inorder r \<and>
    invc t \<and> invh t \<and> (red f \<longrightarrow> d) \<and> (if d then bheight t = (if red f then bheight r else Suc (bheight r)) \<and> (node_is_red t \<longrightarrow> red f)
      else bheight t = bheight r \<and> \<not> node_is_red t)"
proof -
  obtain sl sa sf sr where r: "r = Node sl sa sf sr" "\<not> red sf" using assms by (cases r) auto
  consider "\<not> node_is_red sl" "\<not> node_is_red sr" | "node_is_red sr"
    | x c g y where "\<not> node_is_red sr" "sl = Node x c g y" "red g"
    by (metis red_nodeE)
  then show ?thesis
  proof cases
    case 1
    then show ?thesis using assms r by (simp add: extract_balance_left_flip)
  next
    case 2
    then show ?thesis using assms r by (simp add: extract_balance_left_outer bheight_black invc_invc2)
  next
    case 3
    then show ?thesis using assms r by (simp add: extract_balance_left_inner)
  qed
qed

lemma extract_balance_left:
  assumes "invc (Node l a f r)" "invh (Node l a f r)" "shrunk False l l'"
  shows "\<exists>t d. rbtree_extract_balance (Node l' b f r) DIR_LEFT = Some (t, d) \<and>
    shrunk d (Node l a f r) t \<and> inorder t = inorder l' @ b # inorder r"
proof (cases "node_is_red r")
  case False
  obtain t d where "rbtree_extract_balance (Node l' b f r) DIR_LEFT = Some (t, d)" "inorder t = inorder l' @ b # inorder r"
    "invc t" "invh t" "red f \<longrightarrow> d" "if d then bheight t = (if red f then bheight r else Suc (bheight r)) \<and> (node_is_red t \<longrightarrow> red f)
      else bheight t = bheight r \<and> \<not> node_is_red t"
    using extract_balance_left_of_black [of l' r b f] False assms by (auto simp: shrunk_def)
  then show ?thesis using assms by (intro exI [of _ t] exI [of _ d]) (simp add: shrunk_def split: if_splits)
next
  case True
  then obtain sl sa sf sr where r: "r = Node sl sa sf sr" "red sf" by (rule red_nodeE)
  with assms have sl: "bheight sl = Suc (bheight l')" "\<not> node_is_red sl" "invc sl" "invh sl" "\<not> red f"
    by (auto simp: shrunk_def)
  then obtain x c g y where sl': "sl = Node x c g y" "\<not> red g" by (cases sl) auto
  obtain t d where t: "rbtree_extract_balance (Node l' b (lowered f) sl) DIR_LEFT = Some (t, d)"
      "inorder t = inorder l' @ b # inorder sl" "invc t" "invh t" "bheight t = bheight sl"
    using extract_balance_left_of_black [of l' sl b "lowered f"] assms sl by (auto simp: shrunk_def)
  show ?thesis
    using extract_balance_left_turned [OF r(2) sl' t(1), of sa sr] assms r sl t by (simp add: shrunk_def)
qed

text \<open>The step on the right side is the mirror image.\<close>

fun mirror :: "'a rbtree_node \<Rightarrow> 'a rbtree_node" where
  "mirror Leaf = Leaf"
| "mirror (Node l a f r) = Node (mirror r) a f (mirror l)"

lemma mirror_mirror [simp]: "mirror (mirror t) = t"
  by (induction t) auto

lemma mirror_Leaf [simp]: "mirror t = Leaf \<longleftrightarrow> t = Leaf"
  by (cases t) auto

lemma mirror_nodes [simp]:
  "node_is_red (mirror t) = node_is_red t" "color_node_red (mirror t) = mirror (color_node_red t)"
  "color_node_black (mirror t) = mirror (color_node_black t)"
  "left (mirror t) = mirror (right t)" "right (mirror t) = mirror (left t)"
  by (cases t; simp)+

lemma mirror_invs [simp]: "inorder (mirror t) = rev (inorder t)" "invc (mirror t) = invc t"
  by (induction t) auto

lemma mirror_height: "invh t \<Longrightarrow> bheight (mirror t) = bheight t \<and> invh (mirror t)"
  by (induction t) auto

lemma mirror_invh [simp]: "invh (mirror t) = invh t"
  using mirror_height [of t] mirror_height [of "mirror t"] by auto

lemma mirror_rotate [simp]:
  "rotate_right (mirror t) = map_option mirror (rotate_left t)" "rotate_left (mirror t) = map_option mirror (rotate_right t)"
  by (cases t; cases "left t"; cases "right t"; simp)+

lemma mirror_double_rotate [simp]:
  "double_rotate_right (mirror t) = map_option mirror (double_rotate_left t)"
  by (cases t; cases "right t"; cases "left (right t)"; simp)

lemma mirror_extract_balance_black:
  assumes "\<not> node_is_red r"
  shows "rbtree_extract_balance (mirror (Node l a f r)) DIR_RIGHT =
    map_option (\<lambda>(t, b). (mirror t, b)) (rbtree_extract_balance (Node l a f r) DIR_LEFT)"
proof (cases r)
  case (Node sl sa sf sr)
  then show ?thesis using assms
    by (cases "node_is_red sr"; cases "node_is_red sl")
      (auto simp: rbtree_extract_balance_def rotate_node_def double_rotate_def elim!: red_nodeE)
qed (simp add: rbtree_extract_balance_def)

lemma mirror_extract_balance:
  "rbtree_extract_balance (mirror t) DIR_RIGHT =
   map_option (\<lambda>(t, b). (mirror t, b)) (rbtree_extract_balance t DIR_LEFT)"
proof (cases "t \<noteq> Leaf \<and> node_is_red (right t)")
  case True
  then obtain l a f sl sa sf sr where t: "t = Node l a f (Node sl sa sf sr)" "red sf"
    by (metis red_nodeE rbtree_node.exhaust_sel)
  show ?thesis
  proof (cases sl)
    case (Node x c g y)
    then show ?thesis using t
      by (cases "node_is_red y"; cases "node_is_red x")
        (auto simp: rbtree_extract_balance_def rotate_node_def double_rotate_def elim!: red_nodeE)
  qed (simp add: t rbtree_extract_balance_def rotate_node_def)
next
  case False
  show ?thesis
  proof (cases t)
    case (Node l a f r)
    with False show ?thesis using mirror_extract_balance_black [of r l a f] by simp
  qed (simp add: rbtree_extract_balance_def)
qed

lemma extract_balance_right:
  assumes "invc (Node l a f r)" "invh (Node l a f r)" "shrunk False r r'"
  shows "\<exists>t d. rbtree_extract_balance (Node l b f r') DIR_RIGHT = Some (t, d) \<and>
    shrunk d (Node l a f r) t \<and> inorder t = inorder l @ b # inorder r'"
proof -
  have h: "bheight (mirror l) = bheight l" "bheight (mirror r) = bheight r" "bheight (mirror r') = bheight r'"
    using assms by (auto simp: shrunk_def mirror_height)
  obtain t d where t: "rbtree_extract_balance (Node (mirror r') b f (mirror l)) DIR_LEFT = Some (t, d)"
      "shrunk d (Node (mirror r) a f (mirror l)) t" "inorder t = inorder (mirror r') @ b # inorder (mirror l)"
    using extract_balance_left [of "mirror r" a f "mirror l" "mirror r'" b] assms h by (auto simp: shrunk_def)
  have "rbtree_extract_balance (Node l b f r') DIR_RIGHT = Some (mirror t, d)"
    using mirror_extract_balance [of "Node (mirror r') b f (mirror l)"] t by simp
  moreover have "shrunk d (Node l a f r) (mirror t)"
    using t(2) h assms mirror_height [of t] by (auto simp: shrunk_def split: if_splits)
  ultimately show ?thesis using t(3) by simp
qed

text \<open>The end of a step: nothing more to do, or a rebalancing on the side of the shortened subtree.\<close>

definition extract_finish :: "dir \<Rightarrow> bool \<Rightarrow> 'a rbtree_node \<Rightarrow> ('a rbtree_node \<times> bool) option" where
  "extract_finish dir done root = (if done then Some (root, True) else rbtree_extract_balance root dir)"

lemma extract_finish_left:
  assumes "invc (Node l a f r)" "invh (Node l a f r)" "shrunk d l c"
  shows "\<exists>t d'. extract_finish DIR_LEFT d (Node c b f r) = Some (t, d') \<and> shrunk d' (Node l a f r) t \<and>
    inorder t = inorder c @ b # inorder r"
proof (cases d)
  case True
  then show ?thesis using assms by (auto simp: extract_finish_def shrunk_def)
next
  case False
  then show ?thesis using assms extract_balance_left [of l a f r c b] by (simp add: extract_finish_def)
qed

lemma extract_finish_right:
  assumes "invc (Node l a f r)" "invh (Node l a f r)" "shrunk d r c"
  shows "\<exists>t d'. extract_finish DIR_RIGHT d (Node l a f c) = Some (t, d') \<and> shrunk d' (Node l a f r) t \<and>
    inorder t = inorder l @ a # inorder c"
proof (cases d)
  case True
  then show ?thesis using assms by (auto simp: extract_finish_def shrunk_def)
next
  case False
  then show ?thesis using assms extract_balance_right [of l a f r c a] by (simp add: extract_finish_def)
qed

lemma shrunk_spliced:
  assumes "invc (Node l a f r)" "invh (Node l a f r)" "l = Leaf \<or> r = Leaf" "save = (if l = Leaf then r else l)"
  shows "red f \<Longrightarrow> shrunk True (Node l a f r) save"
    "\<not> red f \<Longrightarrow> node_is_red save \<Longrightarrow> shrunk True (Node l a f r) (color_node_black save)"
    "\<not> red f \<Longrightarrow> \<not> node_is_red save \<Longrightarrow> shrunk False (Node l a f r) save"
  using assms by (auto simp: shrunk_def bheight_black invc_invc2 split: if_splits)

text \<open>A pointer to a node as the object it belongs to, \<open>None\<close> for \<open>NULL\<close>.\<close>

definition node_obj :: "'a rbtree_node \<Rightarrow> 'a option" where
  "node_obj n = (if n = Leaf then None else Some (obj n))"

lemma node_obj_simps [simp]: "node_obj Leaf = None" "node_obj (Node l a f r) = Some a"
  by (simp_all add: node_obj_def)

lemma walk_down_last: "t \<noteq> Leaf \<Longrightarrow> \<exists>l f. walk_down DIR_RIGHT t = Node l (last (inorder t)) f Leaf"
  by (induction t) auto

lemma walk_down_first: "t \<noteq> Leaf \<Longrightarrow> \<exists>f r. walk_down DIR_LEFT t = Node Leaf (hd (inorder t)) f r"
  by (induction t) auto

section \<open>Trees ordered by a key\<close>

text \<open>What the operations rely on: the comparison function compares keys from a linear order.\<close>

locale key_order =
  fixes cmpfn :: "'a rbtreecmpfn" and key :: "'a \<Rightarrow> 'k::linorder"
  assumes cmp_greater: "key b < key a \<Longrightarrow> cmpfn a b = KEY_GREATER"
    and cmp_lower: "key a < key b \<Longrightarrow> cmpfn a b = KEY_LOWER"
    and cmp_equal: "key a = key b \<Longrightarrow> cmpfn a b = KEY_EQUAL"
begin

lemma cmp_cases [simp]:
  "cmpfn a b = KEY_GREATER \<longleftrightarrow> key b < key a" "cmpfn a b = KEY_LOWER \<longleftrightarrow> key a < key b"
  "cmpfn a b = KEY_EQUAL \<longleftrightarrow> key a = key b"
  using cmp_greater [of b a] cmp_lower [of a b] cmp_equal [of a b]
  by (cases "key a" "key b" rule: linorder_cases; auto simp: key_defs)+

abbreviation ordered :: "'a list \<Rightarrow> bool" where
  "ordered \<equiv> sorted_wrt (\<lambda>a b. key a < key b)"

lemma filter_below: "\<forall>y \<in> set xs. key y < k \<Longrightarrow> filter (\<lambda>y. key y < k) xs = xs \<and> filter (\<lambda>y. k < key y) xs = []"
  by (induction xs) (auto simp: less_not_sym)

lemma filter_above: "\<forall>y \<in> set xs. k < key y \<Longrightarrow> filter (\<lambda>y. key y < k) xs = [] \<and> filter (\<lambda>y. k < key y) xs = xs"
  by (induction xs) (auto simp: less_not_sym)

definition inserted :: "'a \<Rightarrow> 'a list \<Rightarrow> 'a list" where
  "inserted x xs = (if key x \<in> key ` set xs then xs
     else filter (\<lambda>y. key y < key x) xs @ x # filter (\<lambda>y. key x < key y) xs)"

lemma ordered_parts:
  "ordered (xs @ a # ys) \<Longrightarrow> ordered xs \<and> ordered ys \<and> (\<forall>y \<in> set xs. key y < key a) \<and> (\<forall>y \<in> set ys. key a < key y)"
  by (auto simp: sorted_wrt_append)

lemma inserted_left:
  assumes "ordered (xs @ a # ys)" "key x < key a"
  shows "inserted x (xs @ a # ys) = inserted x xs @ a # ys"
proof -
  have "\<forall>y \<in> set ys. key x < key y" using assms by (auto simp: sorted_wrt_append)
  then show ?thesis using assms filter_above [of ys "key x"]
    by (auto simp: inserted_def sorted_wrt_append)
qed

lemma inserted_right:
  assumes "ordered (xs @ a # ys)" "key a < key x"
  shows "inserted x (xs @ a # ys) = xs @ a # inserted x ys"
proof -
  have "\<forall>y \<in> set xs. key y < key x" using assms by (auto simp: sorted_wrt_append)
  then show ?thesis using assms filter_below [of xs "key x"]
    by (auto simp: inserted_def sorted_wrt_append)
qed

lemma ordered_inserted: "ordered xs \<Longrightarrow> ordered (inserted x xs)"
  by (auto simp: inserted_def sorted_wrt_append intro: sorted_wrt_filter)

lemma set_inserted: "key x \<notin> key ` set xs \<Longrightarrow> set (inserted x xs) = insert x (set xs)"
  by (auto simp: inserted_def)

lemma insert_recursive_step:
  "key x < key a \<Longrightarrow> insert_recursive (Node l a f r) x nf cmpfn =
     do { (c, dup) \<leftarrow> insert_recursive l x nf cmpfn; t \<leftarrow> insert_balance DIR_LEFT (Node c a f r); Some (t, dup) }"
  "key a < key x \<Longrightarrow> insert_recursive (Node l a f r) x nf cmpfn =
     do { (c, dup) \<leftarrow> insert_recursive r x nf cmpfn; t \<leftarrow> insert_balance DIR_RIGHT (Node l a f c); Some (t, dup) }"
  "key a = key x \<Longrightarrow> insert_recursive (Node l a f r) x nf cmpfn = Some (Node l a f r, True)"
  by (auto simp: Let_def)

lemma insert_recursive_ok:
  assumes "invc t" "invh t" "ordered (inorder t)" "red nf"
  shows "\<exists>t'. insert_recursive t x nf cmpfn = Some (t', key x \<in> key ` set (inorder t)) \<and>
    one_pair t' \<and> (\<not> node_is_red t \<longrightarrow> invc t') \<and> invh t' \<and> bheight t' = bheight t \<and> inorder t' = inserted x (inorder t)"
  using assms
proof (induction t)
  case Leaf
  then show ?case by (simp add: one_pair_def inserted_def)
next
  case (Node l a f r)
  note ord = ordered_parts [OF Node.prems(3) [unfolded inorder.simps]]
  consider "key x < key a" | "key a < key x" | "key a = key x" using linorder_less_linear by blast
  then show ?case
  proof cases
    case 1
    then have out: "key x \<notin> key ` set (inorder r)" using ord by auto
    obtain c where c: "insert_recursive l x nf cmpfn = Some (c, key x \<in> key ` set (inorder l))" "one_pair c"
        "\<not> node_is_red l \<longrightarrow> invc c" "invh c" "bheight c = bheight l" "inorder c = inserted x (inorder l)"
      using Node ord by auto
    have "red f \<Longrightarrow> \<not> node_is_red r \<and> invc c" using Node.prems c by simp
    then obtain t where t: "insert_balance DIR_LEFT (Node c a f r) = Some t" "inorder t = inorder c @ a # inorder r"
        "one_pair t" "\<not> red f \<longrightarrow> invc t" "invh t" "bheight t = bheight (Node c a f r)"
      using insert_balance_left [of c r f a] c Node.prems by auto
    show ?thesis using t c 1 out inserted_left [OF Node.prems(3) [unfolded inorder.simps] 1]
      by (auto simp: insert_recursive_step(1) simp del: insert_recursive.simps)
  next
    case 2
    then have out: "key x \<notin> key ` set (inorder l)" using ord by auto
    obtain c where c: "insert_recursive r x nf cmpfn = Some (c, key x \<in> key ` set (inorder r))" "one_pair c"
        "\<not> node_is_red r \<longrightarrow> invc c" "invh c" "bheight c = bheight r" "inorder c = inserted x (inorder r)"
      using Node ord by auto
    have "red f \<Longrightarrow> \<not> node_is_red l \<and> invc c" using Node.prems c by simp
    then obtain t where t: "insert_balance DIR_RIGHT (Node l a f c) = Some t" "inorder t = inorder l @ a # inorder c"
        "one_pair t" "\<not> red f \<longrightarrow> invc t" "invh t" "bheight t = bheight (Node l a f c)"
      using insert_balance_right [of c l f a] c Node.prems by auto
    show ?thesis using t c 2 out inserted_right [OF Node.prems(3) [unfolded inorder.simps] 2]
      by (auto simp: insert_recursive_step(2) simp del: insert_recursive.simps)
  next
    case 3
    then show ?thesis using Node.prems invc_one_pair [of "Node l a f r"] by (simp add: inserted_def)
  qed
qed

definition removed :: "'a \<Rightarrow> 'a list \<Rightarrow> 'a list" where
  "removed x xs = filter (\<lambda>y. key y \<noteq> key x) xs"

definition found :: "'a \<Rightarrow> 'a list \<Rightarrow> 'a option" where
  "found x xs = find (\<lambda>y. key y = key x) xs"

lemma key_absent: "\<forall>y \<in> set xs. key y \<noteq> key x \<Longrightarrow> removed x xs = xs \<and> found x xs = None"
  by (auto simp: removed_def found_def find_None_iff intro!: filter_True)

lemma found_append: "found x (xs @ ys) = (case found x xs of None \<Rightarrow> found x ys | Some y \<Rightarrow> Some y)"
  by (induction xs) (auto simp: found_def)

lemma removed_split:
  assumes "ordered (xs @ a # ys)"
  shows "key x < key a \<Longrightarrow> removed x (xs @ a # ys) = removed x xs @ a # ys \<and> found x (xs @ a # ys) = found x xs"
    "key a < key x \<Longrightarrow> removed x (xs @ a # ys) = xs @ a # removed x ys \<and> found x (xs @ a # ys) = found x ys"
    "key a = key x \<Longrightarrow> removed x (xs @ a # ys) = xs @ ys \<and> found x (xs @ a # ys) = Some a"
proof -
  have out: "key x \<le> key a \<Longrightarrow> removed x ys = ys \<and> found x ys = None" "key a \<le> key x \<Longrightarrow> removed x xs = xs \<and> found x xs = None"
    using ordered_parts [OF assms] key_absent [of ys x] key_absent [of xs x] by force+
  have app: "removed x (xs @ a # ys) = removed x xs @ (if key a = key x then [] else [a]) @ removed x ys"
    "found x (a # ys) = (if key a = key x then Some a else found x ys)" by (simp_all add: removed_def found_def)
  show "key x < key a \<Longrightarrow> removed x (xs @ a # ys) = removed x xs @ a # ys \<and> found x (xs @ a # ys) = found x xs"
    "key a < key x \<Longrightarrow> removed x (xs @ a # ys) = xs @ a # removed x ys \<and> found x (xs @ a # ys) = found x ys"
    "key a = key x \<Longrightarrow> removed x (xs @ a # ys) = xs @ ys \<and> found x (xs @ a # ys) = Some a"
    using out by (auto simp: app found_append split: option.split)
qed

lemma removed_last: "ordered xs \<Longrightarrow> xs \<noteq> [] \<Longrightarrow> removed (last xs) xs @ [last xs] = xs"
  using removed_split(3) [of "butlast xs" "last xs" "[]" "last xs"] by simp

lemma extract_recursive_step:
  "key x < key a \<Longrightarrow> rbtree_extract_recursive (Node l a f r) x cmpfn =
     do { (c, d, v) \<leftarrow> rbtree_extract_recursive l x cmpfn;
          (t, d') \<leftarrow> extract_finish DIR_LEFT d (Node c a f r); Some (t, d', v) }"
  "key a < key x \<Longrightarrow> rbtree_extract_recursive (Node l a f r) x cmpfn =
     do { (c, d, v) \<leftarrow> rbtree_extract_recursive r x cmpfn;
          (t, d') \<leftarrow> extract_finish DIR_RIGHT d (Node l a f c); Some (t, d', v) }"
  "key a = key x \<Longrightarrow> l \<noteq> Leaf \<Longrightarrow> r \<noteq> Leaf \<Longrightarrow> rbtree_extract_recursive (Node l a f r) x cmpfn =
     do { (c, d, v) \<leftarrow> rbtree_extract_recursive l (last (inorder l)) cmpfn;
          (t, d') \<leftarrow> extract_finish DIR_LEFT d (Node c (last (inorder l)) f r); Some (t, d', Some a) }"
  using walk_down_last [of l]
  by (auto simp: Let_def extract_finish_def fun_eq_iff split: if_splits intro!: Option.bind_cong)

lemma extract_recursive_splice:
  assumes "key a = key x" "l = Leaf \<or> r = Leaf" "save = (if l = Leaf then r else l)"
  shows "rbtree_extract_recursive (Node l a f r) x cmpfn =
    (if red f then Some (save, True, Some a)
     else if node_is_red save then Some (color_node_black save, True, Some a) else Some (save, False, Some a))"
  using assms by (simp add: Let_def)

lemma extract_recursive_ok:
  assumes "invc t" "invh t" "ordered (inorder t)"
  shows "\<exists>t' d. rbtree_extract_recursive t x cmpfn = Some (t', d, found x (inorder t)) \<and> shrunk d t t' \<and>
    inorder t' = removed x (inorder t)"
  using assms
proof (induction t arbitrary: x)
  case Leaf
  then show ?case by (simp add: shrunk_def removed_def found_def)
next
  case (Node l a f r)
  note inv = Node.prems(1,2)
  note ord = ordered_parts [OF Node.prems(3) [unfolded inorder.simps]]
  note split = removed_split [OF Node.prems(3) [unfolded inorder.simps], of x]
  consider "key x < key a" | "key a < key x" | "key a = key x" "l = Leaf \<or> r = Leaf" | "key a = key x" "l \<noteq> Leaf" "r \<noteq> Leaf"
    using linorder_less_linear by blast
  then show ?case
  proof cases
    case 1
    obtain c d where c: "rbtree_extract_recursive l x cmpfn = Some (c, d, found x (inorder l))" "shrunk d l c"
        "inorder c = removed x (inorder l)" using Node.IH(1) [of x] Node.prems ord by auto
    then show ?thesis using extract_finish_left [OF inv c(2), of a] split(1) [OF 1]
      by (auto simp: extract_recursive_step(1) [OF 1] simp del: rbtree_extract_recursive.simps)
  next
    case 2
    obtain c d where c: "rbtree_extract_recursive r x cmpfn = Some (c, d, found x (inorder r))" "shrunk d r c"
        "inorder c = removed x (inorder r)" using Node.IH(2) [of x] Node.prems ord by auto
    then show ?thesis using extract_finish_right [OF inv c(2)] split(2) [OF 2]
      by (auto simp: extract_recursive_step(2) [OF 2] simp del: rbtree_extract_recursive.simps)
  next
    case 3
    define save where "save = (if l = Leaf then r else l)"
    have "inorder save = inorder l @ inorder r" using 3(2) by (auto simp: save_def)
    then show ?thesis using shrunk_spliced [OF inv 3(2) save_def] split(3) [OF 3(1)]
      by (simp add: extract_recursive_splice [OF 3 save_def] del: rbtree_extract_recursive.simps)
  next
    case 4
    define h where "h = last (inorder l)"
    obtain c d v where c: "rbtree_extract_recursive l h cmpfn = Some (c, d, v)" "shrunk d l c"
        "inorder c = removed h (inorder l)" using Node.IH(1) [of h] Node.prems ord by auto
    have "inorder c @ [h] = inorder l" using removed_last [of "inorder l"] ord 4(2) c(3) by (simp add: h_def)
    then have "inorder c @ h # inorder r = inorder l @ inorder r" by (metis append.assoc append_Cons append_Nil)
    moreover obtain t d' where "extract_finish DIR_LEFT d (Node c h f r) = Some (t, d')" "shrunk d' (Node l a f r) t"
        "inorder t = inorder c @ h # inorder r" using extract_finish_left [OF inv c(2)] by blast
    ultimately show ?thesis using split(3) [OF 4(1)] c(1)
      by (simp add: extract_recursive_step(3) [OF 4, folded h_def] del: rbtree_extract_recursive.simps)
  qed
qed

lemma rbtree_insert_fresh:
  assumes "rb_ok t" "ordered (inorder t)" "key x \<notin> key ` set (inorder t)"
  shows "\<exists>t'. rbtree_insert (Some t) (Some (x, nf)) (Some cmpfn) = Some (Some x, Some t') \<and> rb_ok t' \<and>
    inorder t' = inserted x (inorder t)"
proof (cases "t = Leaf")
  case True
  then show ?thesis by (simp add: rbtree_insert_def rb_ok_def inserted_def)
next
  case False
  then show ?thesis using assms insert_recursive_ok [of t "nf OR NODE_IS_RED" x]
    by (auto simp: rbtree_insert_def rb_ok_def invc_invc2)
qed

lemma rbtree_insert_dup:
  assumes "rb_ok t" "ordered (inorder t)" "key x \<in> key ` set (inorder t)"
  shows "\<exists>t'. rbtree_insert (Some t) (Some (x, nf)) (Some cmpfn) = Some (None, Some t') \<and> invc t' \<and> invh t' \<and>
    inorder t' = inorder t"
proof -
  have "t \<noteq> Leaf" using assms(3) by auto
  then show ?thesis using assms insert_recursive_ok [of t "nf OR NODE_IS_RED" x]
    by (auto simp: rbtree_insert_def rb_ok_def inserted_def)
qed

text \<open>The order alone: without any assumption on the colours an insertion ends and keeps the nodes sorted.\<close>

lemma insert_recursive_order:
  assumes "ordered (inorder t)"
  shows "\<exists>t'. insert_recursive t x nf cmpfn = Some (t', key x \<in> key ` set (inorder t)) \<and> inorder t' = inserted x (inorder t)"
  using assms
proof (induction t)
  case Leaf
  then show ?case by (simp add: inserted_def)
next
  case (Node l a f r)
  note ord = ordered_parts [OF Node.prems [unfolded inorder.simps]]
  consider "key x < key a" | "key a < key x" | "key a = key x" using linorder_less_linear by blast
  then show ?case
  proof cases
    case 1
    then have out: "key x \<notin> key ` set (inorder r)" using ord by auto
    obtain c where c: "insert_recursive l x nf cmpfn = Some (c, key x \<in> key ` set (inorder l))" "inorder c = inserted x (inorder l)"
      using Node.IH(1) ord by blast
    obtain t where "insert_balance DIR_LEFT (Node c a f r) = Some t" "inorder t = inorder c @ a # inorder r"
      using insert_balance_inorder(1) [of c a f r] by auto
    then show ?thesis using c 1 out inserted_left [OF Node.prems [unfolded inorder.simps] 1]
      by (auto simp: insert_recursive_step(1) simp del: insert_recursive.simps)
  next
    case 2
    then have out: "key x \<notin> key ` set (inorder l)" using ord by auto
    obtain c where c: "insert_recursive r x nf cmpfn = Some (c, key x \<in> key ` set (inorder r))" "inorder c = inserted x (inorder r)"
      using Node.IH(2) ord by blast
    obtain t where "insert_balance DIR_RIGHT (Node l a f c) = Some t" "inorder t = inorder l @ a # inorder c"
      using insert_balance_inorder(2) [of l a f c] by auto
    then show ?thesis using c 2 out inserted_right [OF Node.prems [unfolded inorder.simps] 2]
      by (auto simp: insert_recursive_step(2) simp del: insert_recursive.simps)
  next
    case 3
    then show ?thesis by (simp add: inserted_def)
  qed
qed

lemma rbtree_insert_order:
  assumes "ordered (inorder t)"
  shows "\<exists>t'. rbtree_insert (Some t) (Some (x, nf)) (Some cmpfn) =
      Some (if key x \<in> key ` set (inorder t) then None else Some x, Some t') \<and> inorder t' = inserted x (inorder t)"
  using insert_recursive_order [OF assms, of x "nf OR NODE_IS_RED"]
  by (cases "t = Leaf") (auto simp: rbtree_insert_def inserted_def)

lemma rbtree_extract_ok:
  assumes "invc t" "invh t" "ordered (inorder t)"
  shows "\<exists>t'. rbtree_extract (Some t) (Some x) (Some cmpfn) = Some (found x (inorder t), Some t') \<and> rb_ok t' \<and>
    inorder t' = removed x (inorder t)"
proof (cases "t = Leaf")
  case True
  then show ?thesis by (simp add: rbtree_extract_def rb_ok_def removed_def found_def)
next
  case False
  then show ?thesis using extract_recursive_ok [OF assms, of x]
    by (auto simp: rbtree_extract_def rb_ok_def shrunk_def invc_invc2)
qed

text \<open>Searching: the nodes below and beyond a key.\<close>

definition below :: "'a \<Rightarrow> 'a list \<Rightarrow> 'a list" where
  "below x xs = filter (\<lambda>y. key y < key x) xs"

definition beyond :: "'a \<Rightarrow> 'a list \<Rightarrow> 'a list" where
  "beyond x xs = filter (\<lambda>y. key x < key y) xs"

lemma sides_split:
  assumes "ordered (xs @ a # ys)"
  shows "key x < key a \<Longrightarrow> below x (xs @ a # ys) = below x xs \<and> beyond x (xs @ a # ys) = beyond x xs @ a # ys"
    "key a < key x \<Longrightarrow> below x (xs @ a # ys) = xs @ a # below x ys \<and> beyond x (xs @ a # ys) = beyond x ys"
    "key a = key x \<Longrightarrow> below x (xs @ a # ys) = xs \<and> beyond x (xs @ a # ys) = ys"
proof -
  have "key x \<le> key a \<Longrightarrow> \<forall>y \<in> set ys. key x < key y" "key a \<le> key x \<Longrightarrow> \<forall>y \<in> set xs. key y < key x"
    using ordered_parts [OF assms] by (meson le_less_trans less_le_trans)+
  then have "key x \<le> key a \<Longrightarrow> below x ys = [] \<and> beyond x ys = ys" "key a \<le> key x \<Longrightarrow> below x xs = xs \<and> beyond x xs = []"
    using filter_above [of ys "key x"] filter_below [of xs "key x"] unfolding below_def beyond_def by blast+
  then show "key x < key a \<Longrightarrow> below x (xs @ a # ys) = below x xs \<and> beyond x (xs @ a # ys) = beyond x xs @ a # ys"
    "key a < key x \<Longrightarrow> below x (xs @ a # ys) = xs @ a # below x ys \<and> beyond x (xs @ a # ys) = beyond x ys"
    "key a = key x \<Longrightarrow> below x (xs @ a # ys) = xs \<and> beyond x (xs @ a # ys) = ys"
    by (auto simp: below_def beyond_def)
qed

lemma find_common_ok:
  assumes "ordered (inorder t)"
  shows "\<exists>n pl' pr' bs as. find_common t x cmpfn (pl, pr) = Some (n, pl', pr') \<and> node_obj n = found x (inorder t) \<and>
    below x (inorder t) = bs @ inorder (left n) \<and> beyond x (inorder t) = inorder (right n) @ as \<and>
    node_obj pl' = (if bs = [] then node_obj pl else Some (last bs)) \<and>
    node_obj pr' = (if as = [] then node_obj pr else Some (hd as))"
  using assms
proof (induction t arbitrary: pl pr)
  case Leaf
  then show ?case by (simp add: found_def below_def beyond_def)
next
  case (Node l a f r)
  note ord = ordered_parts [OF Node.prems [unfolded inorder.simps]]
  note sides = sides_split [OF Node.prems [unfolded inorder.simps], of x] removed_split [OF Node.prems [unfolded inorder.simps], of x]
  consider "key x < key a" | "key a < key x" | "key a = key x" using linorder_less_linear by blast
  then show ?case
  proof cases
    case 1
    obtain n pl' pr' bs as where "find_common l x cmpfn (pl, Node l a f r) = Some (n, pl', pr')" "node_obj n = found x (inorder l)"
      "below x (inorder l) = bs @ inorder (left n)" "beyond x (inorder l) = inorder (right n) @ as"
      "node_obj pl' = (if bs = [] then node_obj pl else Some (last bs))" "node_obj pr' = (if as = [] then Some a else Some (hd as))"
      using Node.IH(1) [of pl "Node l a f r"] ord by auto
    then show ?thesis using sides(1,4) [OF 1] 1
      by (intro exI [of _ n] exI [of _ pl'] exI [of _ pr'] exI [of _ bs] exI [of _ "as @ a # inorder r"]) (auto simp: Let_def)
  next
    case 2
    obtain n pl' pr' bs as where "find_common r x cmpfn (Node l a f r, pr) = Some (n, pl', pr')" "node_obj n = found x (inorder r)"
      "below x (inorder r) = bs @ inorder (left n)" "beyond x (inorder r) = inorder (right n) @ as"
      "node_obj pl' = (if bs = [] then Some a else Some (last bs))" "node_obj pr' = (if as = [] then node_obj pr else Some (hd as))"
      using Node.IH(2) [of "Node l a f r" pr] ord by auto
    then show ?thesis using sides(2,5) [OF 2] 2
      by (intro exI [of _ n] exI [of _ pl'] exI [of _ pr'] exI [of _ "inorder l @ a # bs"] exI [of _ as]) (auto simp: Let_def)
  next
    case 3
    then show ?thesis using sides(3,6) [OF 3]
      by (intro exI [of _ "Node l a f r"] exI [of _ pl] exI [of _ pr] exI [of _ "[]"]) (auto simp: Let_def)
  qed
qed

end

end
