(* ===== verification/RBTreeQuery.thy ===== *)
theory RBTreeQuery
  imports RBTreeInv
begin

text \<open>
  The searches, the range and in-order enumerations and the checks of the red-black trees.
\<close>

section \<open>Neighbours\<close>

context key_order
begin

lemma search_ok:
  assumes "ordered (inorder t)"
  shows "\<exists>n. rbtree_search t (Some x) (Some cmpfn) = Some n \<and> node_obj n = found x (inorder t)"
proof -
  have "get_from_rbtree_internal t x cmpfn = map_option fst (find_common t x cmpfn (pl, pr))" for pl pr
    by (induction t arbitrary: pl pr) (auto simp: Let_def)
  from this [of Leaf Leaf] show ?thesis using find_common_ok [OF assms, of x Leaf Leaf]
    by (cases "t = Leaf") (auto simp: rbtree_search_def found_def)
qed

definition neighbour :: "bool \<Rightarrow> 'a \<Rightarrow> 'a list \<Rightarrow> 'a option" where
  "neighbour lower x xs =
     (if lower then (if below x xs = [] then None else Some (last (below x xs)))
      else (if beyond x xs = [] then None else Some (hd (beyond x xs))))"

lemma neighbour_parts:
  assumes "below x xs = bs @ inorder (left n)" "beyond x xs = inorder (right n) @ as"
    and "node_obj pl = (if bs = [] then None else Some (last bs))" "node_obj pr = (if as = [] then None else Some (hd as))"
  shows "neighbour True x xs = (if left n \<noteq> Leaf then node_obj (walk_down DIR_RIGHT (left n)) else node_obj pl)"
    "neighbour False x xs = (if right n \<noteq> Leaf then node_obj (walk_down DIR_LEFT (right n)) else node_obj pr)"
  using assms walk_down_last [of "left n"] walk_down_first [of "right n"] by (auto simp: neighbour_def)

lemma find_in_rbtree_ok:
  assumes "ordered (inorder t)"
  shows "\<exists>n. find_in_rbtree t x cmpfn lower = Some n \<and> node_obj n = neighbour lower x (inorder t)"
    "\<exists>n. find_in_rbtree_exact t x cmpfn lower = Some n \<and>
       node_obj n = (if found x (inorder t) = None then None else neighbour lower x (inorder t))"
proof -
  obtain n pl pr bs as where n: "find_common t x cmpfn (Leaf, Leaf) = Some (n, pl, pr)" "node_obj n = found x (inorder t)"
    "below x (inorder t) = bs @ inorder (left n)" "beyond x (inorder t) = inorder (right n) @ as"
    "node_obj pl = (if bs = [] then None else Some (last bs))" "node_obj pr = (if as = [] then None else Some (hd as))"
    using find_common_ok [OF assms, of x Leaf Leaf] by auto
  note sides = neighbour_parts [OF n(3-6)]
  show "\<exists>n. find_in_rbtree t x cmpfn lower = Some n \<and> node_obj n = neighbour lower x (inorder t)"
    using sides by (cases n; cases lower) (auto simp: find_in_rbtree_def n(1))
  show "\<exists>n. find_in_rbtree_exact t x cmpfn lower = Some n \<and>
       node_obj n = (if found x (inorder t) = None then None else neighbour lower x (inorder t))"
    using sides n(2) by (cases n; cases lower) (auto simp: find_in_rbtree_exact_def n(1))
qed

lemma neighbours_ok:
  assumes "ordered (inorder t)"
  shows "\<exists>n. rbtree_next t (Some x) (Some cmpfn) = Some n \<and>
      node_obj n = (if found x (inorder t) = None then None else neighbour False x (inorder t))"
    "\<exists>n. rbtree_previous t (Some x) (Some cmpfn) = Some n \<and>
      node_obj n = (if found x (inorder t) = None then None else neighbour True x (inorder t))"
    "\<exists>n. rbtree_search_next t (Some x) (Some cmpfn) = Some n \<and> node_obj n = neighbour False x (inorder t)"
    "\<exists>n. rbtree_search_previous t (Some x) (Some cmpfn) = Some n \<and> node_obj n = neighbour True x (inorder t)"
proof -
  have "guarded_find find_in_rbtree lower t (Some x) (Some cmpfn) = find_in_rbtree t x cmpfn lower"
    "guarded_find find_in_rbtree_exact lower t (Some x) (Some cmpfn) = find_in_rbtree_exact t x cmpfn lower" for lower
    by (auto simp: guarded_find_def find_in_rbtree_def find_in_rbtree_exact_def)
  then show "\<exists>n. rbtree_next t (Some x) (Some cmpfn) = Some n \<and>
      node_obj n = (if found x (inorder t) = None then None else neighbour False x (inorder t))"
    "\<exists>n. rbtree_previous t (Some x) (Some cmpfn) = Some n \<and>
      node_obj n = (if found x (inorder t) = None then None else neighbour True x (inorder t))"
    "\<exists>n. rbtree_search_next t (Some x) (Some cmpfn) = Some n \<and> node_obj n = neighbour False x (inorder t)"
    "\<exists>n. rbtree_search_previous t (Some x) (Some cmpfn) = Some n \<and> node_obj n = neighbour True x (inorder t)"
    unfolding rbtree_next_def rbtree_previous_def rbtree_search_next_def rbtree_search_previous_def
    by (simp_all only: find_in_rbtree_ok [OF assms])
qed

end

section \<open>Counting, checking, walking\<close>

lemma rbtree_count_ok: "rbtree_count t = of_nat (length (inorder t))"
  by (induction t) simp_all

text \<open>What \<open>rbtree_verify\<close> checks of the order: a child against its parent.\<close>

fun local_order :: "'a rbtreecmpfn \<Rightarrow> 'a rbtree_node \<Rightarrow> bool" where
  "local_order cmpfn Leaf = True"
| "local_order cmpfn (Node l a f r) =
     ((l \<noteq> Leaf \<longrightarrow> cmpfn (obj l) a = KEY_LOWER) \<and> (r \<noteq> Leaf \<longrightarrow> cmpfn (obj r) a = KEY_GREATER) \<and>
      local_order cmpfn l \<and> local_order cmpfn r)"

lemma rbtree_verify_value:
  "rbtree_verify t cmpfn = (if invc t \<and> invh t \<and> local_order cmpfn t then int (bheight t) + 1 else 0)"
  by (induction t) (auto simp: Let_def)

context key_order
begin

lemma ordered_local: "ordered (inorder t) \<Longrightarrow> local_order cmpfn t"
proof (induction t)
  case (Node l a f r)
  moreover have "l \<noteq> Leaf \<Longrightarrow> obj l \<in> set (inorder l)" "r \<noteq> Leaf \<Longrightarrow> obj r \<in> set (inorder r)"
    by (cases l; simp) (cases r; simp)
  ultimately show ?case by (auto simp: sorted_wrt_append)
qed simp

end

text \<open>Visiting the elements of a list in order until the function returns false.\<close>

fun visit :: "('a \<Rightarrow> 's \<Rightarrow> bool \<times> 's) \<Rightarrow> 'a list \<Rightarrow> 's \<Rightarrow> bool \<times> 's" where
  "visit w [] s = (True, s)"
| "visit w (x # xs) s = (case w x s of (False, s') \<Rightarrow> (False, s') | (True, s') \<Rightarrow> visit w xs s')"

lemma visit_append: "visit w (xs @ ys) s = (case visit w xs s of (False, s') \<Rightarrow> (False, s') | (True, s') \<Rightarrow> visit w ys s')"
  by (induction xs arbitrary: s) (auto split: prod.split bool.split)

lemma walk_visit: "rbtree_walk_recursive t w s = visit w (inorder t) s"
  by (induction t arbitrary: s) (auto simp: visit_append split: prod.split bool.split)

text \<open>Writing a list into an array from a position on.\<close>

definition put :: "'a list \<Rightarrow> nat \<Rightarrow> 'a list \<Rightarrow> 'a list" where
  "put xs n ys = take n xs @ ys @ drop (n + length ys) xs"

lemma put_Nil [simp]: "put xs n [] = xs"
  by (simp add: put_def)

lemma length_put [simp]: "n + length ys \<le> length xs \<Longrightarrow> length (put xs n ys) = length xs"
  by (simp add: put_def)

lemma put_put: "n + length ys + length zs \<le> length xs \<Longrightarrow> put (put xs n ys) (n + length ys) zs = put xs n (ys @ zs)"
  by (simp add: put_def ac_simps)

lemma arr_set_put: "n < length xs \<Longrightarrow> arr_set xs n y = Some (put xs n [y])"
  by (simp add: put_def arr_set_def upd_conv_take_nth_drop)

lemma arr_set_put_next:
  assumes "n + length ys < length xs"
  shows "arr_set (put xs n ys) (n + length ys) y = Some (put xs n (ys @ [y]))"
  using assms put_put [of n ys "[y]" xs] by (simp add: arr_set_put del: arr_set_in)

lemma enum_recursive_ok:
  "t \<noteq> Leaf \<Longrightarrow> pos + length (inorder t) \<le> length item \<Longrightarrow>
   rbtree_enum_recursive t item pos = Some (put item pos (map Some (inorder t)), pos + length (inorder t))"
proof (induction t arbitrary: item pos)
  case (Node l a f r)
  define L where "L = map Some (inorder l)"
  have l: "(if l \<noteq> Leaf then rbtree_enum_recursive l item pos else Some (item, pos)) = Some (put item pos L, pos + length L)"
    using Node by (auto simp: L_def)
  have a: "arr_set (put item pos L) (pos + length L) (Some a) = Some (put item pos (L @ [Some a]))"
    using arr_set_put_next [of pos L item "Some a"] Node.prems by (simp add: L_def)
  have "r \<noteq> Leaf \<Longrightarrow> rbtree_enum_recursive r (put item pos (L @ [Some a])) (pos + length L + 1) =
      Some (put item pos (L @ Some a # map Some (inorder r)), pos + length L + 1 + length (inorder r))"
    using Node.IH(2) [of "pos + length L + 1" "put item pos (L @ [Some a])"] Node.prems
      put_put [of pos "L @ [Some a]" "map Some (inorder r)" item] by (simp add: L_def)
  moreover have "length L = length (inorder l)" by (simp add: L_def)
  ultimately show ?case using l a Node.prems by (cases "r = Leaf") (simp_all add: L_def [symmetric] del: arr_set_in)
qed simp

text \<open>The height of the tree is logarithmic in the number of its nodes.\<close>

fun height :: "'a rbtree_node \<Rightarrow> nat" where
  "height Leaf = 0"
| "height (Node l a f r) = Suc (max (height l) (height r))"

lemma height_bheight: "invc t \<Longrightarrow> invh t \<Longrightarrow> height t \<le> 2 * bheight t + (if node_is_red t then 1 else 0)"
  by (induction t) (auto split: if_splits)

lemma bheight_size: "invh t \<Longrightarrow> 2 ^ bheight t \<le> Suc (length (inorder t))"
  by (induction t) (auto split: if_splits)

section \<open>Ranges\<close>

context key_order
begin

definition within :: "'a \<Rightarrow> 'a \<Rightarrow> 'a list \<Rightarrow> 'a list" where
  "within lo hi xs = filter (\<lambda>y. key lo \<le> key y \<and> key y \<le> key hi) xs"

lemma found_split:
  assumes "ordered xs" "found x xs = Some a"
  obtains ps qs where "xs = ps @ a # qs" "key a = key x"
    "\<forall>y \<in> set ps. key y < key x" "\<forall>y \<in> set qs. key x < key y"
proof -
  have a: "a \<in> set xs" "key a = key x" using assms(2) by (auto simp: found_def find_Some_iff)
  then obtain ps qs where s: "xs = ps @ a # qs" by (meson split_list)
  with assms(1) a(2) have "\<forall>y \<in> set ps. key y < key x" "\<forall>y \<in> set qs. key x < key y"
    by (auto simp: sorted_wrt_append)
  with s a(2) show thesis by (rule that)
qed

lemma range_start:
  assumes "ordered xs"
  shows "(case found lo xs of Some a \<Rightarrow> Some a | None \<Rightarrow> neighbour False lo xs) =
    (if filter (\<lambda>y. key lo \<le> key y) xs = [] then None else Some (hd (filter (\<lambda>y. key lo \<le> key y) xs)))"
proof (cases "found lo xs")
  case None
  then have "filter (\<lambda>y. key lo \<le> key y) xs = beyond lo xs"
    by (auto simp: found_def find_None_iff beyond_def le_less intro!: filter_cong)
  then show ?thesis by (simp add: None neighbour_def)
next
  case (Some a)
  then obtain ps qs where "xs = ps @ a # qs" "key a = key lo" "\<forall>y \<in> set ps. key y < key lo" by (rule found_split [OF assms])
  then show ?thesis using Some by (simp add: filter_False not_le)
qed

lemma range_stop:
  assumes "ordered xs"
  shows "(case found hi xs of Some a \<Rightarrow> Some a | None \<Rightarrow> neighbour True hi xs) =
    (if filter (\<lambda>y. key y \<le> key hi) xs = [] then None else Some (last (filter (\<lambda>y. key y \<le> key hi) xs)))"
proof (cases "found hi xs")
  case None
  then have "filter (\<lambda>y. key y \<le> key hi) xs = below hi xs"
    by (auto simp: found_def find_None_iff below_def le_less intro!: filter_cong)
  then show ?thesis by (simp add: None neighbour_def)
next
  case (Some a)
  then obtain ps qs where "xs = ps @ a # qs" "key a = key hi" "\<forall>y \<in> set qs. key hi < key y" by (rule found_split [OF assms])
  then show ?thesis using Some by (simp add: filter_False not_le)
qed

lemma filter_prefix: "ordered xs \<Longrightarrow> filter (\<lambda>y. key y \<le> k) xs = takeWhile (\<lambda>y. key y \<le> k) xs"
proof (induction xs)
  case (Cons a xs)
  moreover have "\<not> key a \<le> k \<Longrightarrow> \<forall>y \<in> set xs. \<not> key y \<le> k" using Cons.prems by force
  ultimately show ?case by (cases "key a \<le> k") (simp_all add: filter_empty_conv)
qed simp

lemma filter_suffix: "ordered xs \<Longrightarrow> filter (\<lambda>y. k \<le> key y) xs = dropWhile (\<lambda>y. key y < k) xs"
proof (induction xs)
  case (Cons a xs)
  moreover have "k \<le> key a \<Longrightarrow> \<forall>y \<in> set xs. k \<le> key y" using Cons.prems by force
  ultimately show ?case by (cases "k \<le> key a") (simp_all add: not_le not_less filter_id_conv)
qed simp

lemma within_segment:
  assumes "ordered xs"
  shows "\<exists>ps qs. xs = ps @ within lo hi xs @ qs"
proof -
  define G where "G = dropWhile (\<lambda>y. key y < key lo) xs"
  have "ordered G" using assms by (simp add: G_def sorted_wrt_dropWhile)
  then have "within lo hi xs = takeWhile (\<lambda>y. key y \<le> key hi) G"
    using filter_prefix [of G] filter_suffix [OF assms, of "key lo"] by (simp add: within_def G_def flip: filter_filter)
  then have "xs = takeWhile (\<lambda>y. key y < key lo) xs @ within lo hi xs @ dropWhile (\<lambda>y. key y \<le> key hi) G"
    by (simp add: G_def)
  then show ?thesis by blast
qed

lemma range_loop_ok:
  assumes "inorder t = ps @ ys @ qs" "ordered (inorder t)" "ys \<noteq> []" "\<forall>arr. lst = Some arr \<longrightarrow> n + length ys \<le> length arr"
  shows "range_loop t cmpfn (last ys) (Some (hd ys)) lst n =
    Some (n + length ys, map_option (\<lambda>arr. put arr n (map Some ys)) lst)"
  using assms
proof (induction ys arbitrary: ps n lst)
  case (Cons c ys)
  define lst1 where "lst1 = map_option (\<lambda>arr. put arr n [Some c]) lst"
  have w: "(case lst of None \<Rightarrow> Some None | Some xs \<Rightarrow> map_option Some (arr_set xs n (Some c))) = Some lst1"
    using Cons.prems(4) by (auto simp: lst1_def arr_set_put simp del: arr_set_in split: option.split)
  show ?case
  proof (cases ys)
    case Nil
    then show ?thesis using w by (simp add: range_loop.simps lst1_def)
  next
    case (Cons d zs)
    have ord: "ordered (ps @ c # ys @ qs)" using Cons.prems(1,2) by simp
    then have ne: "last ys \<noteq> c" using Cons last_in_set [of ys] by (auto simp: sorted_wrt_append)
    have "found c (inorder t) = Some c" "beyond c (inorder t) = ys @ qs"
      using removed_split(3) [OF ord, of c] sides_split(3) [OF ord, of c] Cons.prems(1) by simp_all
    then obtain m where m: "rbtree_next t (Some c) (Some cmpfn) = Some m" "node_obj m = Some d"
      using neighbours_ok(1) [OF Cons.prems(2), of c] Cons by (auto simp: neighbour_def)
    have "\<forall>arr. lst1 = Some arr \<longrightarrow> n + 1 + length ys \<le> length arr" using Cons.prems(4) by (auto simp: lst1_def)
    then have "range_loop t cmpfn (last ys) (Some (hd ys)) lst1 (n + 1) =
        Some (n + 1 + length ys, map_option (\<lambda>arr. put arr (n + 1) (map Some ys)) lst1)"
      using Cons.IH [of "ps @ [c]" lst1 "n + 1"] Cons.prems Cons by simp
    moreover have "map_option (\<lambda>arr. put arr (n + 1) (map Some ys)) lst1 = map_option (\<lambda>arr. put arr n (map Some (c # ys))) lst"
      using Cons.prems(4) put_put [of n "[Some c]" "map Some ys"] by (cases lst) (auto simp: lst1_def)
    moreover have "range_loop t cmpfn (last ys) (Some c) lst n = range_loop t cmpfn (last ys) (Some (hd ys)) lst1 (n + 1)"
      using w m ne Cons by (subst range_loop.simps) (simp add: node_obj_def split: if_splits)
    ultimately show ?thesis using Cons by simp
  qed
qed simp

lemma range_ends:
  assumes "ordered xs" and G: "G = filter (\<lambda>y. key lo \<le> key y) xs" and H: "H = filter (\<lambda>y. key y \<le> key hi) xs"
  shows "2 \<le> length (within lo hi xs) \<longleftrightarrow> G \<noteq> [] \<and> H \<noteq> [] \<and> key (hd G) < key (last H)"
    "within lo hi xs \<noteq> [] \<Longrightarrow> hd (within lo hi xs) = hd G \<and> last (within lo hi xs) = last H"
proof -
  define W where "W = within lo hi xs"
  have oG: "ordered G" and oH: "ordered H" using assms by (auto intro: sorted_wrt_filter)
  have WG: "W = filter (\<lambda>y. key y \<le> key hi) G" and WH: "W = filter (\<lambda>y. key lo \<le> key y) H"
    using G H by (auto simp: W_def within_def conj_commute)
  have hd: "W \<noteq> [] \<Longrightarrow> hd W = hd G"
    using filter_prefix [OF oG, of "key hi"] WG by (cases G) (auto split: if_splits)
  have last: "W \<noteq> [] \<Longrightarrow> last W = last H"
    using filter_suffix [OF oH, of "key lo"] WH by (metis last_appendR takeWhile_dropWhile_id)
  show "within lo hi xs \<noteq> [] \<Longrightarrow> hd (within lo hi xs) = hd G \<and> last (within lo hi xs) = last H"
    using hd last by (simp add: W_def)
  show "2 \<le> length (within lo hi xs) \<longleftrightarrow> G \<noteq> [] \<and> H \<noteq> [] \<and> key (hd G) < key (last H)"
  proof
    assume len: "2 \<le> length (within lo hi xs)"
    then obtain a b zs where ab: "W = a # b # zs" by (cases W; cases "tl W") (auto simp: W_def)
    moreover have "ordered W" using oG WG by (auto intro: sorted_wrt_filter)
    moreover have "last W \<in> set (b # zs)" using ab by auto
    ultimately have "key (hd W) < key (last W)" by auto
    then show "G \<noteq> [] \<and> H \<noteq> [] \<and> key (hd G) < key (last H)" using ab hd last WG WH by auto
  next
    assume ends: "G \<noteq> [] \<and> H \<noteq> [] \<and> key (hd G) < key (last H)"
    then have "hd G \<in> set G" "last H \<in> set H" by auto
    then have "hd G \<in> set W" "last H \<in> set W" using ends G H by (auto simp: W_def within_def intro: order.trans)
    moreover have "hd G \<noteq> last H" using ends by auto
    ultimately have "2 \<le> card (set W)" by (metis card_2_iff card_mono empty_subsetI finite_set insert_subset)
    then show "2 \<le> length (within lo hi xs)" using card_length [of W] by (simp add: W_def)
  qed
qed

lemma enumerate_range_ok:
  assumes "ordered (inorder t)" "\<forall>arr. lst = Some arr \<longrightarrow> length (within lo hi (inorder t)) \<le> length arr"
  shows "rbtree_enumerate_inorder_range t (Some lo) (Some hi) (Some cmpfn) lst =
    (if length (within lo hi (inorder t)) < 2 then Some (0, lst)
     else Some (length (within lo hi (inorder t)), map_option (\<lambda>arr. put arr 0 (map Some (within lo hi (inorder t)))) lst))"
proof -
  define W G H where "W = within lo hi (inorder t)" and "G = filter (\<lambda>y. key lo \<le> key y) (inorder t)"
    and "H = filter (\<lambda>y. key y \<le> key hi) (inorder t)"
  note defs = W_def G_def H_def
  obtain s0 e0 where s0: "rbtree_search t (Some lo) (Some cmpfn) = Some s0" "node_obj s0 = found lo (inorder t)"
    and e0: "rbtree_search t (Some hi) (Some cmpfn) = Some e0" "node_obj e0 = found hi (inorder t)"
    using search_ok [OF assms(1)] by metis
  have "\<exists>start. (if s0 = Leaf then rbtree_search_next t (Some lo) (Some cmpfn) else Some s0) = Some start \<and>
      node_obj start = (case found lo (inorder t) of Some a \<Rightarrow> Some a | None \<Rightarrow> neighbour False lo (inorder t))"
    using neighbours_ok(3) [OF assms(1), of lo] s0(2) [symmetric] by (auto simp: node_obj_def)
  then obtain start where start: "(if s0 = Leaf then rbtree_search_next t (Some lo) (Some cmpfn) else Some s0) = Some start"
      "node_obj start = (if G = [] then None else Some (hd G))"
    using range_start [OF assms(1), of lo] by (auto simp: G_def)
  have "\<exists>stop. (if e0 = Leaf then rbtree_search_previous t (Some hi) (Some cmpfn) else Some e0) = Some stop \<and>
      node_obj stop = (case found hi (inorder t) of Some a \<Rightarrow> Some a | None \<Rightarrow> neighbour True hi (inorder t))"
    using neighbours_ok(4) [OF assms(1), of hi] e0(2) [symmetric] by (auto simp: node_obj_def)
  then obtain stop where stop: "(if e0 = Leaf then rbtree_search_previous t (Some hi) (Some cmpfn) else Some e0) = Some stop"
      "node_obj stop = (if H = [] then None else Some (last H))"
    using range_stop [OF assms(1), of hi] by (auto simp: H_def)
  have val: "rbtree_enumerate_inorder_range t (Some lo) (Some hi) (Some cmpfn) lst =
      (if G = [] \<or> H = [] \<or> \<not> key (hd G) < key (last H) then Some (0, lst)
       else range_loop t cmpfn (last H) (Some (hd G)) lst 0)"
    using start stop s0(1) e0(1) by (auto simp: rbtree_enumerate_inorder_range_def node_obj_def G_def split: if_splits)
  show ?thesis
  proof (cases "2 \<le> length W")
    case True
    then obtain ps qs where "inorder t = ps @ W @ qs" "W \<noteq> []" using within_segment [OF assms(1), of lo hi] W_def by fastforce
    then show ?thesis using True val range_ends [OF assms(1) G_def H_def] range_loop_ok [of t ps W qs lst 0] assms
      by (auto simp: W_def)
  next
    case False
    then show ?thesis using val range_ends(1) [OF assms(1) G_def H_def] by (auto simp: W_def)
  qed
qed

end

end
