(* ===== verification/RBTreeEnum.thy ===== *)
theory RBTreeEnum
  imports RBTreeQuery "HOL-Library.Multiset"
begin

text \<open>
  The layered enumeration of the red-black trees, and the properties of the library.
\<close>

section \<open>Layers\<close>

definition kids :: "'a rbtree_node \<Rightarrow> 'a rbtree_node list" where
  "kids t = filter (\<lambda>c. c \<noteq> Leaf) [left t, right t]"

definition weight :: "'a rbtree_node list \<Rightarrow> nat" where
  "weight q = sum_list (map (\<lambda>t. length (inorder t)) q)"

lemma weight_Cons [simp]: "weight (t # q) = length (inorder t) + weight q" "weight [] = 0" "weight (p @ q) = weight p + weight q"
  by (simp_all add: weight_def)

lemma weight_kids: "t \<noteq> Leaf \<Longrightarrow> Suc (weight (kids t)) = length (inorder t)"
  by (cases t) (auto simp: kids_def)

lemma weight_layer: "Leaf \<notin> set q \<Longrightarrow> length q + weight (concat (map kids q)) = weight q"
  by (induction q) (auto simp: weight_kids [symmetric])

lemma length_weight: "Leaf \<notin> set q \<Longrightarrow> length q \<le> weight q"
  using weight_layer [of q] by simp

text \<open>The nodes of a forest, layer by layer.\<close>

function layers :: "'a rbtree_node list \<Rightarrow> 'a rbtree_node list" where
  "layers q = (if q = [] \<or> Leaf \<in> set q then q else q @ layers (concat (map kids q)))"
  by pat_completeness auto
termination
  by (relation "measure weight") (auto simp: weight_layer [symmetric])

declare layers.simps [simp del]

lemma kids_not_Leaf: "Leaf \<notin> set (concat (map kids q))"
  by (auto simp: kids_def)

lemma mset_kids: "t \<noteq> Leaf \<Longrightarrow> mset (inorder t) = add_mset (obj t) (mset (concat (map inorder (kids t))))"
  by (cases t) (auto simp: kids_def)

lemma mset_layer:
  "Leaf \<notin> set q \<Longrightarrow> mset (concat (map inorder q)) = mset (map obj q) + mset (concat (map inorder (concat (map kids q))))"
  by (induction q) (auto simp: mset_kids)

lemma mset_layers: "Leaf \<notin> set q \<Longrightarrow> mset (map obj (layers q)) = mset (concat (map inorder q))"
proof (induction q rule: layers.induct)
  case (1 q)
  show ?case
  proof (cases "q = []")
    case False
    then show ?thesis using 1 mset_layer [of q] kids_not_Leaf [of q] by (subst layers.simps) simp
  qed (simp add: layers.simps)
qed

lemma append_node_put:
  assumes "length ys + length (filter (\<lambda>c. c \<noteq> Leaf) [t]) \<le> length base"
  shows "append_node t (put base 0 ys, length ys) =
    Some (put base 0 (ys @ filter (\<lambda>c. c \<noteq> Leaf) [t]), length (ys @ filter (\<lambda>c. c \<noteq> Leaf) [t]))"
  using assms arr_set_put_next [of 0 ys base t] by (cases "t = Leaf") (simp_all add: append_node_def del: arr_set_in)

lemma append_kids_put:
  assumes "length ys + length (kids t) \<le> length base"
  shows "do { st \<leftarrow> append_node (left t) (put base 0 ys, length ys); append_node (right t) st } =
    Some (put base 0 (ys @ kids t), length (ys @ kids t))"
  using assms append_node_put [of ys "left t" base] append_node_put [of "ys @ filter (\<lambda>c. c \<noteq> Leaf) [left t]" "right t" base]
  by (auto simp: kids_def split: if_splits)

lemma arr_get_put: "length ys \<le> length base \<Longrightarrow> i < length ys \<Longrightarrow> arr_get (put base 0 ys) i = Some (ys ! i)"
  by (simp add: put_def nth_append)

lemma layer_loop_ok:
  assumes "Leaf \<notin> set q" "length (pre @ q @ new @ concat (map kids q)) \<le> length base"
  shows "layer_loop (length q) (length pre) (put base 0 (pre @ q @ new), length (pre @ q @ new)) =
    Some (put base 0 (pre @ q @ new @ concat (map kids q)), length (pre @ q @ new @ concat (map kids q)))"
  using assms
proof (induction q arbitrary: pre new)
  case (Cons t q)
  have "arr_get (put base 0 (pre @ (t # q) @ new)) (length pre) = Some t"
    using Cons.prems arr_get_put [of "pre @ (t # q) @ new" base "length pre"] by (simp add: nth_append)
  moreover have "do { st \<leftarrow> append_node (left t) (put base 0 (pre @ (t # q) @ new), length (pre @ (t # q) @ new));
      append_node (right t) st } = Some (put base 0 (pre @ (t # q) @ new @ kids t), length (pre @ (t # q) @ new @ kids t))"
    using append_kids_put [of "pre @ (t # q) @ new" t base] Cons.prems by simp
  moreover have "layer_loop (length q) (length (pre @ [t])) (put base 0 ((pre @ [t]) @ q @ new @ kids t), length ((pre @ [t]) @ q @ new @ kids t)) =
      Some (put base 0 ((pre @ [t]) @ q @ (new @ kids t) @ concat (map kids q)), length ((pre @ [t]) @ q @ (new @ kids t) @ concat (map kids q)))"
    using Cons.IH [of "pre @ [t]" "new @ kids t"] Cons.prems by simp
  ultimately show ?case using Cons.prems by (auto simp: bind_eq_Some_conv)
qed simp

lemma layers_loop_ok:
  assumes "Leaf \<notin> set q" "q \<noteq> []" "length pre + weight q \<le> length base"
  shows "layers_loop (length pre) (put base 0 (pre @ q)) (length (pre @ q)) = Some (put base 0 (pre @ layers q))"
  using assms
proof (induction q arbitrary: pre rule: layers.induct)
  case (1 q)
  define ks where "ks = concat (map kids q)"
  have w: "length q + weight ks = weight q" using weight_layer [OF "1.prems"(1)] by (simp add: ks_def)
  have ks: "Leaf \<notin> set ks" "length ks \<le> weight ks" using kids_not_Leaf [of q] length_weight [of ks] by (auto simp: ks_def)
  have loop: "layer_loop (length q) (length pre) (put base 0 (pre @ q), length (pre @ q)) =
      Some (put base 0 (pre @ q @ ks), length (pre @ q @ ks))"
    using layer_loop_ok [of q pre "[]" base] "1.prems" w ks by (simp add: ks_def)
  have lay: "layers q = q @ layers ks" using "1.prems" by (subst layers.simps) (simp add: ks_def)
  show ?case
  proof (cases "ks = []")
    case True
    then show ?thesis using loop lay by (subst layers_loop.simps) (simp add: layers.simps)
  next
    case False
    then have "layers_loop (length (pre @ q)) (put base 0 ((pre @ q) @ ks)) (length ((pre @ q) @ ks)) =
        Some (put base 0 ((pre @ q) @ layers ks))"
      using "1.IH" [of "pre @ q"] "1.prems" ks w by (simp add: ks_def)
    then show ?thesis using loop lay False by (subst layers_loop.simps) simp
  qed
qed

lemma enumerate_layered_ok:
  assumes "t \<noteq> Leaf" "length (inorder t) \<le> length arr"
  shows "rbtree_enumerate_layered t (Some arr) = Some (Some (put arr 0 (layers [t])))"
proof -
  have "0 < length arr" using assms by (cases t) auto
  then have "arr_set arr 0 t = Some (put arr 0 [t])" by (rule arr_set_put)
  then show ?thesis using layers_loop_ok [of "[t]" "[]" arr] assms by (simp add: rbtree_enumerate_layered_def del: arr_set_in)
qed

section \<open>Properties\<close>

text \<open>A comparison function on integers, and trees for the examples.\<close>

definition icmp :: "int rbtreecmpfn" where
  "icmp a b = (if a < b then KEY_LOWER else if b < a then KEY_GREATER else KEY_EQUAL)"

interpretation icmp: key_order icmp "\<lambda>a. a"
  by unfold_locales (auto simp: icmp_def)

definition small_tree :: "int rbtree_node" where
  "small_tree = Node (Node Leaf 2 1 Leaf) 4 2 (Node Leaf 6 1 Leaf)"

lemma small_tree_ok: "rb_ok small_tree" "inorder small_tree = [2, 4, 6]"
  by (simp_all add: small_tree_def rb_ok_def red_def NODE_IS_RED_def)

text \<open>C28: insertion into a red-black tree. In a well-formed tree a node with a new key is linked at its place
  in the order and the tree is well formed again; a node whose key is there already is refused and no
  node is added or lost, though nodes may be recoloured.\<close>

theorem rbtree_insert_correct:
  assumes "key_order cmpfn key" "rb_ok t" "sorted_wrt (\<lambda>a b. key a < key b) (inorder t)"
  shows "\<exists>v t'. rbtree_insert (Some t) (Some (x, nf)) (Some cmpfn) = Some (v, Some t') \<and>
    (if key x \<in> key ` set (inorder t)
     then v = None \<and> inorder t' = inorder t \<and> invc t' \<and> invh t'
     else v = Some x \<and> rb_ok t' \<and> sorted_wrt (\<lambda>a b. key a < key b) (inorder t') \<and>
       inorder t' = filter (\<lambda>y. key y < key x) (inorder t) @ x # filter (\<lambda>y. key x < key y) (inorder t))"
proof (cases "key x \<in> key ` set (inorder t)")
  case True
  then show ?thesis using key_order.rbtree_insert_dup [OF assms True, of nf] by auto
next
  case False
  then show ?thesis
    using key_order.rbtree_insert_fresh [OF assms False, of nf] key_order.ordered_inserted [OF assms(1,3), of x]
    by (auto simp: key_order.inserted_def [OF assms(1)])
qed

theorem rbtree_insert_correct_witness:
  "\<exists>t'. rbtree_insert (Some small_tree) (Some (5, 0)) (Some icmp) = Some (Some 5, Some t') \<and> rb_ok t' \<and>
     inorder t' = [2, 4, 5, 6]"
  using rbtree_insert_correct [OF icmp.key_order_axioms small_tree_ok(1), of 5 0] by (auto simp: small_tree_ok(2))

text \<open>C29: extraction from a red-black tree. The node with the given key, and only that node, is unlinked and
  returned (\<open>NULL\<close> when there is none); the tree that is left is well formed.\<close>

theorem rbtree_extract_correct:
  assumes "key_order cmpfn key" "invc t" "invh t" "sorted_wrt (\<lambda>a b. key a < key b) (inorder t)"
  shows "\<exists>t'. rbtree_extract (Some t) (Some x) (Some cmpfn) = Some (find (\<lambda>y. key y = key x) (inorder t), Some t') \<and>
    rb_ok t' \<and> inorder t' = filter (\<lambda>y. key y \<noteq> key x) (inorder t)"
  using key_order.rbtree_extract_ok [OF assms, of x]
  by (simp add: key_order.removed_def [OF assms(1)] key_order.found_def [OF assms(1)])

theorem rbtree_extract_correct_witness:
  "\<exists>t'. rbtree_extract (Some small_tree) (Some 4) (Some icmp) = Some (Some 4, Some t') \<and> rb_ok t' \<and> inorder t' = [2, 6]"
  using rbtree_extract_correct [OF icmp.key_order_axioms, of small_tree 4] small_tree_ok by (simp add: rb_ok_def)

text \<open>Searching a red-black tree. The search for a key returns the node that has it, the next and the
  previous node are the nearest ones in the order, and the variants that accept a key that is not in
  the tree return the nearest node on that side.\<close>

theorem rbtree_search_correct:
  assumes "key_order cmpfn key" "sorted_wrt (\<lambda>a b. key a < key b) (inorder t)"
    and nxt: "nxt = find (\<lambda>y. key x < key y) (inorder t)" and prv: "prv = find (\<lambda>y. key y < key x) (rev (inorder t))"
  shows "\<exists>n nx pv sn sp. rbtree_search t (Some x) (Some cmpfn) = Some n \<and> node_obj n = find (\<lambda>y. key y = key x) (inorder t) \<and>
    rbtree_next t (Some x) (Some cmpfn) = Some nx \<and> node_obj nx = (if n = Leaf then None else nxt) \<and>
    rbtree_previous t (Some x) (Some cmpfn) = Some pv \<and> node_obj pv = (if n = Leaf then None else prv) \<and>
    rbtree_search_next t (Some x) (Some cmpfn) = Some sn \<and> node_obj sn = nxt \<and>
    rbtree_search_previous t (Some x) (Some cmpfn) = Some sp \<and> node_obj sp = prv"
proof -
  have h: "(if filter P xs = [] then None else Some (hd (filter P xs))) = find P xs" for P and xs :: "'a list"
    by (induction xs) auto
  have l: "(if filter P xs = [] then None else Some (last (filter P xs))) = find P (rev xs)" for P and xs :: "'a list"
    using h [of P "rev xs"] by (metis hd_rev rev_filter rev_is_Nil_conv)
  have nb: "key_order.neighbour key False x (inorder t) = nxt" "key_order.neighbour key True x (inorder t) = prv"
    unfolding key_order.neighbour_def [OF assms(1)] key_order.below_def [OF assms(1)] key_order.beyond_def [OF assms(1)] nxt prv
    using h l by simp_all
  obtain n where n: "rbtree_search t (Some x) (Some cmpfn) = Some n" "node_obj n = key_order.found key x (inorder t)"
    using key_order.search_ok [OF assms(1,2)] by metis
  then have "key_order.found key x (inorder t) = None \<longleftrightarrow> n = Leaf" by (metis node_obj_def option.distinct(1))
  then show ?thesis
    using n key_order.neighbours_ok [OF assms(1,2), of x, unfolded nb]
    by (cases "n = Leaf") (auto simp: key_order.found_def [OF assms(1)])
qed

theorem rbtree_search_correct_witness:
  "\<exists>n nx. rbtree_search small_tree (Some 4) (Some icmp) = Some n \<and> node_obj n = Some 4 \<and>
     rbtree_next small_tree (Some 4) (Some icmp) = Some nx \<and> node_obj nx = Some 6"
  using rbtree_search_correct [OF icmp.key_order_axioms _ refl refl, of small_tree 4]
  by (auto simp: small_tree_ok(2) node_obj_def split: if_splits)

text \<open>Listing a range of a red-black tree. The nodes with keys between the two bounds are stored in
  order and counted when there are at least two of them; for a range that holds a single node the
  result is 0 and nothing is stored, although the bounds are documented to be included.\<close>

theorem rbtree_enumerate_range_correct:
  assumes "key_order cmpfn key" "sorted_wrt (\<lambda>a b. key a < key b) (inorder t)"
    and "W = filter (\<lambda>y. key lo \<le> key y \<and> key y \<le> key hi) (inorder t)" "length W \<le> length arr"
  shows "rbtree_enumerate_inorder_range t (Some lo) (Some hi) (Some cmpfn) (Some arr) =
    (if length W < 2 then Some (0, Some arr)
     else Some (length W, Some (map Some W @ drop (length W) arr)))"
  using key_order.enumerate_range_ok [OF assms(1,2), of "Some arr" lo hi] assms(3,4)
  by (simp add: key_order.within_def [OF assms(1)] put_def)

theorem rbtree_enumerate_range_correct_witness:
  "rbtree_enumerate_inorder_range small_tree (Some 3) (Some 9) (Some icmp) (Some [None, None, None]) =
     Some (2, Some [Some 4, Some 6, None])"
  using rbtree_enumerate_range_correct [OF icmp.key_order_axioms _ refl, of small_tree 3 9 "[None, None, None]"]
  by (simp add: small_tree_ok(2))

text \<open>Listing a whole red-black tree. The in-order listing stores the nodes in the order of their keys, the
  layered listing stores the root, then its children and so on down, every node exactly once; both stay
  inside an array with as many elements as the tree has nodes.\<close>

theorem rbtree_enumerations_correct:
  assumes "t \<noteq> Leaf" "length (inorder t) \<le> length arr" "length (inorder t) \<le> length arr2"
  shows "rbtree_enumerate_inorder t arr = Some (map Some (inorder t) @ drop (length (inorder t)) arr) \<and>
    rbtree_enumerate_layered t (Some arr2) = Some (Some (layers [t] @ drop (length (inorder t)) arr2)) \<and>
    mset (map obj (layers [t])) = mset (inorder t)"
proof -
  have m: "mset (map obj (layers [t])) = mset (inorder t)" using mset_layers [of "[t]"] assms(1) by simp
  then have "length (layers [t]) = length (inorder t)" using mset_eq_length by (metis length_map)
  then show ?thesis using enum_recursive_ok [of t 0 arr] enumerate_layered_ok [of t arr2] assms m
    by (simp add: rbtree_enumerate_inorder_def put_def)
qed

theorem rbtree_enumerations_correct_witness:
  "rbtree_enumerate_inorder small_tree [None, None, None, None] = Some [Some 2, Some 4, Some 6, None]"
  using rbtree_enumerations_correct [of small_tree "[None, None, None, None]" "[Leaf, Leaf, Leaf]"]
  by (simp add: small_tree_ok(2)) (simp add: small_tree_def)

text \<open>The height of a red-black tree with \<open>n\<close> nodes is at most twice the binary logarithm of \<open>n + 1\<close>, so a
  search compares at most that many keys.\<close>

theorem rbtree_height_bound:
  assumes "rb_ok t"
  shows "2 ^ ((height t + 1) div 2) \<le> Suc (length (inorder t)) \<and> rbtree_count t = of_nat (length (inorder t))"
proof -
  have "(height t + 1) div 2 \<le> bheight t" using height_bheight [of t] assms by (simp add: rb_ok_def)
  then have "(2::nat) ^ ((height t + 1) div 2) \<le> 2 ^ bheight t" by (rule power_increasing) simp
  also have "\<dots> \<le> Suc (length (inorder t))" using bheight_size [of t] assms by (simp add: rb_ok_def)
  finally show ?thesis using rbtree_count_ok [of t] by blast
qed

theorem rbtree_height_bound_witness: "2 ^ ((height small_tree + 1) div 2) \<le> Suc (length (inorder small_tree))"
  using rbtree_height_bound [OF small_tree_ok(1)] by blast

text \<open>Fifteen keys in the tree whose second and third level are red and black.\<close>

definition full_tree :: "int rbtree_node" where
  "full_tree = (let leaf = (\<lambda>a. Node Leaf a 1 Leaf); sub = (\<lambda>a. Node (leaf (a - 1)) a 0 (leaf (a + 1))) in
     Node (Node (sub 2) 4 1 (sub 6)) 8 2 (Node (sub 10) 12 1 (sub 14)))"

text \<open>Refused insertions can break a red-black tree. \<open>rbtree_insert\<close> returns before it blackens the root
  when the key is a duplicate, but the recursion has already recoloured nodes on the way up: after two
  refused insertions into a well-formed tree the red root has a red child, which the library's own check
  reports as a violation.\<close>

theorem duplicate_inserts_break_colours:
  "rb_ok full_tree \<and> inorder full_tree = [1..15] \<and>
   (case rbtree_insert (Some full_tree) (Some (1, 0)) (Some icmp) of
      Some (v1, t1) \<Rightarrow> v1 = None \<and>
        (case rbtree_insert t1 (Some (5, 0)) (Some icmp) of
           Some (v2, Some t2) \<Rightarrow> v2 = None \<and> rbtree_verify t2 icmp = 0 | _ \<Rightarrow> False)
    | None \<Rightarrow> False)"
  by code_simp

end
