(* ===== verification/Chunks.thy ===== *)
theory Chunks
  imports Bitmaps
begin

text \<open>
  The memory pools of \<^verbatim>\<open>src/libs/chunks.c\<close>. A pool keeps a list of arrays of equal chunks, the newest
  first, each with a bitmap of the chunks in use; the arrays are reached through the list only, so they
  are kept in it by value. Addresses and sizes are 32 bit words. What \<open>malloc\<close> returns for the three
  blocks of a new array is an argument (\<open>alloc\<close>), and \<open>free\<close> of an array is its removal from the list;
  the contents of the chunks are not modelled.
\<close>

unbundle bit_operations_syntax

record pool_array =
  pa_buffer :: u32
  pa_bufstart :: u32
  pa_numitems :: u32
  pa_free :: u32
  pa_bitmap :: bitmap

record chunks_pool =
  cp_aln :: u32
  cp_size :: u32
  cp_delta :: u32
  cp_pools :: "pool_array list"
  cp_name :: string

record alloc =
  al_header :: bool
  al_buffer :: "u32 option"
  al_bits :: bool

text \<open>The number of bytes asked for the buffer of a new array.\<close>

definition pool_bytes :: "chunks_pool \<Rightarrow> u32 \<Rightarrow> u32" where
  "pool_bytes ptr numitems = cp_size ptr * numitems + cp_aln ptr"

definition create_pool :: "alloc \<Rightarrow> chunks_pool \<Rightarrow> u32 \<Rightarrow> status \<times> chunks_pool" where
  "create_pool al ptr numitems =
     (if \<not> al_header al then (ENOMEM, ptr)
      else case al_buffer al of
        None \<Rightarrow> (ENOMEM, ptr)
      | Some buffer \<Rightarrow>
         if \<not> al_bits al then (ENOMEM, ptr)
         else (EOK, ptr\<lparr>cp_pools :=
           \<lparr>pa_buffer = buffer, pa_bufstart = MULT buffer (cp_aln ptr), pa_numitems = numitems,
            pa_free = numitems, pa_bitmap = replicate (BITMAPLEN (unat numitems)) 0\<rparr> # cp_pools ptr\<rparr>))"

text \<open>\<open>handle\<close> is the address \<open>malloc\<close> returns for the pool itself, printed in the name of an anonymous pool.\<close>

definition chunks_pool_create ::
  "nat option \<Rightarrow> alloc \<Rightarrow> string option \<Rightarrow> u32 \<Rightarrow> u32 \<Rightarrow> u32 \<Rightarrow> u32 \<Rightarrow> chunks_pool option" where
  "chunks_pool_create handle al name aln sz numitems delta =
     (if sz = 0 \<or> numitems = 0 then None
      else
        (let aln = (if aln = 0 then 4 else aln) in
         case handle of
           None \<Rightarrow> None
         | Some h \<Rightarrow>
            (let ptr = \<lparr>cp_aln = aln, cp_size = MULT sz aln, cp_delta = delta, cp_pools = [],
                        cp_name = take 15 (case name of Some s \<Rightarrow> s | None \<Rightarrow> ''Chunk_'' @ hex_string h)\<rparr>
             in case create_pool al ptr numitems of (st, ptr') \<Rightarrow> if st \<noteq> EOK then None else Some ptr')))"

text \<open>The loop of \<open>chunks_pool_malloc\<close>: the first free chunk of the first array that has one.\<close>

fun malloc_scan :: "u32 \<Rightarrow> pool_array list \<Rightarrow> (u32 \<times> pool_array list) option option" where
  "malloc_scan sz [] = Some None"
| "malloc_scan sz (ptr # ps) =
     do { pos \<leftarrow> (if pa_free ptr \<noteq> 0
                 then bitmap_first_is_clear (pa_bitmap ptr) (BITMAPLEN (unat (pa_numitems ptr)))
                 else Some (unat (pa_numitems ptr)));
          if pos < unat (pa_numitems ptr)
          then do { bm \<leftarrow> bitmap_set (pa_bitmap ptr) pos;
                    Some (Some (pa_bufstart ptr + of_nat pos * sz,
                      ptr\<lparr>pa_free := pa_free ptr - 1, pa_bitmap := bm\<rparr> # ps)) }
          else do { r \<leftarrow> malloc_scan sz ps;
                    Some (map_option (\<lambda>(a, ps'). (a, ptr # ps')) r) } }"

definition chunks_pool_malloc :: "alloc \<Rightarrow> chunks_pool option \<Rightarrow> (u32 option \<times> chunks_pool option) option" where
  "chunks_pool_malloc al pool =
     (case pool of
        None \<Rightarrow> Some (None, None)
      | Some cp \<Rightarrow>
         do { r \<leftarrow> malloc_scan (cp_size cp) (cp_pools cp);
              case r of
                Some (a, ps) \<Rightarrow> Some (Some a, Some (cp\<lparr>cp_pools := ps\<rparr>))
              | None \<Rightarrow>
                 (let (st, cp1) = (if cp_delta cp \<noteq> 0 then create_pool al cp (cp_delta cp) else (ENOMEM, cp)) in
                  if st \<noteq> EOK then Some (None, Some cp1)
                  else (case cp_pools cp1 of
                      [] \<Rightarrow> None
                    | ptr # ps \<Rightarrow>
                       do { bm \<leftarrow> bitmap_set (pa_bitmap ptr) 0;
                            Some (Some (pa_bufstart ptr),
                              Some (cp1\<lparr>cp_pools := ptr\<lparr>pa_free := pa_free ptr - 1, pa_bitmap := bm\<rparr> # ps\<rparr>)) })) })"

text \<open>\<open>chunks_pool_zalloc\<close>: the second component is the block that is cleared, address and size.\<close>

definition chunks_pool_zalloc ::
  "alloc \<Rightarrow> chunks_pool option \<Rightarrow> (u32 option \<times> (u32 \<times> u32) option \<times> chunks_pool option) option" where
  "chunks_pool_zalloc al pool =
     do { (ptr, pool') \<leftarrow> chunks_pool_malloc al pool;
          Some (ptr, (case (ptr, pool') of (Some p, Some cp) \<Rightarrow> Some (p, cp_size cp) | _ \<Rightarrow> None), pool') }"

text \<open>
  The loop of \<open>chunks_pool_free\<close>. \<open>delete_pool\<close> keeps the last array of the list, the one the pool
  was created with, and removes any other one that has become free.
\<close>

fun delete_pool :: "pool_array \<Rightarrow> pool_array list \<Rightarrow> pool_array list" where
  "delete_pool dlt [] = [dlt]"
| "delete_pool dlt (p # ps) = p # ps"

fun free_scan :: "u32 \<Rightarrow> u32 \<Rightarrow> pool_array list \<Rightarrow> pool_array list option" where
  "free_scan sz ptr [] = Some []"
| "free_scan sz ptr (cur # ps) =
     (if pa_bufstart cur \<le> ptr \<and> ptr \<le> pa_bufstart cur + sz * (pa_numitems cur - 1)
      then (let val = unat ((ptr - pa_bufstart cur) div sz) in
            do { used \<leftarrow> bitmap_is_set (pa_bitmap cur) val;
                 if \<not> used then Some (cur # ps)
                 else do { bm \<leftarrow> bitmap_clear (pa_bitmap cur) val;
                           let cur' = cur\<lparr>pa_bitmap := bm, pa_free := pa_free cur + 1\<rparr>;
                           Some (if pa_free cur' = pa_numitems cur' then delete_pool cur' ps else cur' # ps) } })
      else do { ps' \<leftarrow> free_scan sz ptr ps; Some (cur # ps') })"

definition chunks_pool_free :: "chunks_pool option \<Rightarrow> u32 \<Rightarrow> chunks_pool option option" where
  "chunks_pool_free pool ptr =
     (case pool of
        None \<Rightarrow> Some None
      | Some cp \<Rightarrow>
         if ptr = 0 then Some pool
         else do { ps \<leftarrow> free_scan (cp_size cp) ptr (cp_pools cp); Some (Some (cp\<lparr>cp_pools := ps\<rparr>)) })"

text \<open>\<open>chunks_pool_done\<close> returns the buffers in the order it frees them.\<close>

definition chunks_pool_done :: "chunks_pool option \<Rightarrow> u32 list" where
  "chunks_pool_done pool = (case pool of None \<Rightarrow> [] | Some cp \<Rightarrow> map pa_buffer (cp_pools cp))"

section \<open>Well-formed pools\<close>

abbreviation pbase :: "pool_array \<Rightarrow> nat" where
  "pbase p \<equiv> unat (pa_bufstart p)"

abbreviation pcount :: "pool_array \<Rightarrow> nat" where
  "pcount p \<equiv> unat (pa_numitems p)"

definition array_ok :: "nat \<Rightarrow> pool_array \<Rightarrow> bool" where
  "array_ok sz p \<longleftrightarrow> 0 < pbase p \<and> 0 < pcount p \<and> length (pa_bitmap p) = BITMAPLEN (pcount p) \<and>
     bits_of (pa_bitmap p) \<subseteq> {..<pcount p} \<and> unat (pa_free p) + card (bits_of (pa_bitmap p)) = pcount p \<and>
     pbase p + sz * pcount p < 2 ^ 32"

definition apart :: "nat \<Rightarrow> pool_array \<Rightarrow> pool_array \<Rightarrow> bool" where
  "apart sz p q \<longleftrightarrow> pbase p + sz * pcount p \<le> pbase q \<or> pbase q + sz * pcount q \<le> pbase p"

definition pool_ok :: "chunks_pool \<Rightarrow> bool" where
  "pool_ok cp \<longleftrightarrow> cp_size cp \<noteq> 0 \<and> unat (cp_aln cp) dvd unat (cp_size cp) \<and> cp_pools cp \<noteq> [] \<and>
     (\<forall>p \<in> set (cp_pools cp). unat (cp_aln cp) dvd pbase p) \<and> (\<forall>p \<in> set (cp_pools cp). array_ok (unat (cp_size cp)) p) \<and>
     sorted_wrt (apart (unat (cp_size cp))) (cp_pools cp)"

text \<open>The addresses of the chunks in use.\<close>

definition chunk_at :: "nat \<Rightarrow> pool_array \<Rightarrow> nat \<Rightarrow> nat" where
  "chunk_at sz p i = pbase p + i * sz"

definition used_in :: "nat \<Rightarrow> pool_array list \<Rightarrow> nat set" where
  "used_in sz ps = (\<Union>p \<in> set ps. chunk_at sz p ` bits_of (pa_bitmap p))"

definition chunks_used :: "chunks_pool \<Rightarrow> nat set" where
  "chunks_used cp = used_in (unat (cp_size cp)) (cp_pools cp)"

lemma used_in_simps [simp]:
  "used_in sz [] = {}" "used_in sz (p # ps) = chunk_at sz p ` bits_of (pa_bitmap p) \<union> used_in sz ps"
  "used_in sz (ps @ qs) = used_in sz ps \<union> used_in sz qs"
  by (auto simp: used_in_def)

lemma array_bits_range:
  assumes "array_ok sz p"
  shows "pcount p \<le> bm_range (pa_bitmap p)" "finite (bits_of (pa_bitmap p))"
  using assms finite_subset by (auto simp: array_ok_def BITMAPLEN_def BINL_def)

lemma chunk_in_array:
  assumes "array_ok sz p" "i < pcount p" "0 < sz"
  shows "pbase p \<le> chunk_at sz p i" "chunk_at sz p i + sz \<le> pbase p + sz * pcount p" "chunk_at sz p i < 2 ^ 32"
proof -
  have "(i + 1) * sz \<le> pcount p * sz" using assms(2) by (intro mult_right_mono) auto
  then show "chunk_at sz p i + sz \<le> pbase p + sz * pcount p" "chunk_at sz p i < 2 ^ 32"
    using assms by (auto simp: chunk_at_def array_ok_def algebra_simps)
qed (simp add: chunk_at_def)

lemma chunk_elsewhere:
  assumes "array_ok sz q" "apart sz p q \<or> apart sz q p" "pbase p \<le> a" "a + sz \<le> pbase p + sz * pcount p" "0 < sz"
  shows "a \<notin> chunk_at sz q ` bits_of (pa_bitmap q)"
proof
  assume "a \<in> chunk_at sz q ` bits_of (pa_bitmap q)"
  then obtain i where "a = chunk_at sz q i" "i < pcount q" using assms(1) by (auto simp: array_ok_def)
  then show False using chunk_in_array [OF assms(1), of i] assms by (auto simp: apart_def)
qed

lemma chunk_word:
  assumes "array_ok (unat sz) p" "i < pcount p" "sz \<noteq> 0"
  shows "unat (pa_bufstart p + of_nat i * sz) = chunk_at (unat sz) p i"
proof -
  have lt: "chunk_at (unat sz) p i < 2 ^ 32" using chunk_in_array [OF assms(1,2)] assms(3) by (simp add: unat_gt_0)
  have "pa_bufstart p + of_nat i * sz = of_nat (chunk_at (unat sz) p i)" by (simp add: chunk_at_def)
  then show ?thesis using lt by simp
qed

section \<open>Allocation\<close>

lemma array_free_pos:
  assumes "array_ok sz p"
  shows "pa_free p = 0 \<Longrightarrow> bits_of (pa_bitmap p) = {..<pcount p}"
    "pa_free p \<noteq> 0 \<Longrightarrow> \<exists>i. bitmap_first_is_clear (pa_bitmap p) (BITMAPLEN (pcount p)) = Some i \<and> i < pcount p \<and> i \<notin> bits_of (pa_bitmap p)"
proof -
  note ok = assms [unfolded array_ok_def]
  show "bits_of (pa_bitmap p) = {..<pcount p}" if "pa_free p = 0"
    using ok that card_subset_eq [of "{..<pcount p}" "bits_of (pa_bitmap p)"] by simp
  assume f: "pa_free p \<noteq> 0"
  then have "card (bits_of (pa_bitmap p)) < pcount p" using ok by (simp add: word_unat_eq_iff)
  then obtain j where j: "j < pcount p" "j \<notin> bits_of (pa_bitmap p)"
    using card_mono [of "bits_of (pa_bitmap p)" "{..<pcount p}"] array_bits_range(2) [OF assms] by fastforce
  obtain i where i: "bitmap_first_is_clear (pa_bitmap p) (BITMAPLEN (pcount p)) = Some i"
      "\<forall>q. q < i \<longrightarrow> q \<in> bits_of (pa_bitmap p)" "i < bm_range (pa_bitmap p) \<longrightarrow> i \<notin> bits_of (pa_bitmap p)"
    using first_clear_from_spec [of 0 "length (pa_bitmap p)" "pa_bitmap p"] ok by (auto simp: bitmap_first_is_clear_def)
  then have "i \<le> j" using j by (meson not_le)
  then show "\<exists>i. bitmap_first_is_clear (pa_bitmap p) (BITMAPLEN (pcount p)) = Some i \<and> i < pcount p \<and> i \<notin> bits_of (pa_bitmap p)"
    using i j array_bits_range(1) [OF assms] by auto
qed

text \<open>Taking and giving back one chunk of an array.\<close>

definition takes :: "pool_array \<Rightarrow> nat \<Rightarrow> pool_array \<Rightarrow> bool" where
  "takes p i p' \<longleftrightarrow> i < pcount p \<and> i \<notin> bits_of (pa_bitmap p) \<and>
     (\<exists>bm. p' = p\<lparr>pa_free := pa_free p - 1, pa_bitmap := bm\<rparr> \<and> length bm = length (pa_bitmap p) \<and>
           bits_of bm = insert i (bits_of (pa_bitmap p)))"

lemma takes_ok:
  assumes "array_ok sz p" "takes p i p'"
  shows "array_ok sz p'" "pbase p' = pbase p" "pcount p' = pcount p"
    "chunk_at sz p' ` bits_of (pa_bitmap p') = insert (chunk_at sz p i) (chunk_at sz p ` bits_of (pa_bitmap p))"
proof -
  have "pa_free p \<noteq> 0" using assms array_free_pos(1) [OF assms(1)] by (auto simp: takes_def)
  then have "unat (pa_free p - 1) = unat (pa_free p) - 1" "0 < unat (pa_free p)" by (simp_all add: unat_minus_one unat_gt_0)
  then show "array_ok sz p'" using assms array_bits_range(2) [OF assms(1)] by (auto simp: array_ok_def takes_def)
  show "pbase p' = pbase p" "pcount p' = pcount p" using assms by (auto simp: takes_def)
  then show "chunk_at sz p' ` bits_of (pa_bitmap p') = insert (chunk_at sz p i) (chunk_at sz p ` bits_of (pa_bitmap p))"
    using assms by (auto simp: takes_def chunk_at_def)
qed

lemma malloc_scan_ok:
  assumes "\<forall>p \<in> set ps. array_ok sz' p"
  shows "malloc_scan sz ps = Some None \<and> (\<forall>p \<in> set ps. bits_of (pa_bitmap p) = {..<pcount p}) \<or>
    (\<exists>xs p ys i p'. ps = xs @ p # ys \<and> takes p i p' \<and>
       malloc_scan sz ps = Some (Some (pa_bufstart p + of_nat i * sz, xs @ p' # ys)))"
  using assms
proof (induction ps)
  case (Cons p ps)
  show ?case
  proof (cases "pa_free p = 0")
    case True
    then have full: "bits_of (pa_bitmap p) = {..<pcount p}" using array_free_pos(1) [of sz' p] Cons.prems by simp
    consider "malloc_scan sz ps = Some None" "\<forall>q \<in> set ps. bits_of (pa_bitmap q) = {..<pcount q}"
      | xs q ys i q' where "ps = xs @ q # ys" "takes q i q'" "malloc_scan sz ps = Some (Some (pa_bufstart q + of_nat i * sz, xs @ q' # ys))"
      using Cons by auto
    then show ?thesis
    proof cases
      case 1
      then show ?thesis using True full by simp
    next
      case 2
      then have "p # ps = (p # xs) @ q # ys"
        "malloc_scan sz (p # ps) = Some (Some (pa_bufstart q + of_nat i * sz, (p # xs) @ q' # ys))" using True by simp_all
      with 2(2) show ?thesis by blast
    qed
  next
    case False
    then obtain i where i: "bitmap_first_is_clear (pa_bitmap p) (BITMAPLEN (pcount p)) = Some i" "i < pcount p" "i \<notin> bits_of (pa_bitmap p)"
      using array_free_pos(2) [of sz' p] Cons.prems by auto
    then obtain bm where bm: "bitmap_set (pa_bitmap p) i = Some bm" "length bm = length (pa_bitmap p)" "bits_of bm = insert i (bits_of (pa_bitmap p))"
      using bitmap_set_bits [of i "pa_bitmap p"] array_bits_range(1) [of sz' p] Cons.prems by auto
    define p' where "p' = p\<lparr>pa_free := pa_free p - 1, pa_bitmap := bm\<rparr>"
    have "takes p i p'" using i bm by (auto simp: takes_def p'_def)
    moreover have "malloc_scan sz (p # ps) = Some (Some (pa_bufstart p + of_nat i * sz, [] @ p' # ps))"
      using False i bm by (simp add: p'_def)
    ultimately show ?thesis by (metis append_Nil)
  qed
qed simp

lemma take_chunk:
  assumes "sz \<noteq> 0" "\<forall>p \<in> set ps. array_ok (unat sz) p" "sorted_wrt (apart (unat sz)) ps" "ps = xs @ p # ys" "takes p i p'"
  defines "a \<equiv> unat (pa_bufstart p + of_nat i * sz)"
  shows "\<forall>q \<in> set (xs @ p' # ys). array_ok (unat sz) q" "sorted_wrt (apart (unat sz)) (xs @ p' # ys)"
    "a \<notin> used_in (unat sz) ps" "used_in (unat sz) (xs @ p' # ys) = insert a (used_in (unat sz) ps)"
proof -
  have p: "array_ok (unat sz) p" and s: "0 < unat sz" using assms by (auto simp: unat_gt_0)
  note t = takes_ok [OF p assms(5)]
  have i: "i < pcount p" "i \<notin> bits_of (pa_bitmap p)" using assms(5) by (auto simp: takes_def)
  have a: "a = chunk_at (unat sz) p i" using chunk_word [OF p i(1) assms(1)] by (simp add: a_def)
  show "\<forall>q \<in> set (xs @ p' # ys). array_ok (unat sz) q" using assms t(1) by auto
  show "sorted_wrt (apart (unat sz)) (xs @ p' # ys)" using assms(3,4) t(2,3) by (auto simp: sorted_wrt_append apart_def)
  show "used_in (unat sz) (xs @ p' # ys) = insert a (used_in (unat sz) ps)" using t(4) a assms(4) by auto
  have "a \<notin> chunk_at (unat sz) q ` bits_of (pa_bitmap q)" if "q \<in> set xs \<union> set ys" for q
    using that assms(2-4) chunk_in_array [OF p i(1) s] s a
    by (intro chunk_elsewhere [where p = p]) (auto simp: sorted_wrt_append)
  moreover have "a \<notin> chunk_at (unat sz) p ` bits_of (pa_bitmap p)" using i(2) s a by (auto simp: chunk_at_def)
  ultimately show "a \<notin> used_in (unat sz) ps" using assms(4) by (auto simp: used_in_def)
qed

section \<open>New arrays\<close>

text \<open>
  What \<open>malloc\<close> promises for the buffer of a new array: a block of the size asked for, not at address 0,
  inside the address space and apart from the arrays the pool has. The size itself must not wrap.
\<close>

definition fresh_block :: "chunks_pool \<Rightarrow> u32 \<Rightarrow> u32 \<Rightarrow> bool" where
  "fresh_block cp n b \<longleftrightarrow> unat (cp_size cp) * unat n + unat (cp_aln cp) < 2 ^ 32 \<and> 0 < unat b \<and>
     unat b + unat (pool_bytes cp n) \<le> 2 ^ 32 \<and>
     (\<forall>p \<in> set (cp_pools cp). unat b + unat (pool_bytes cp n) \<le> pbase p \<or> pbase p + unat (cp_size cp) * pcount p \<le> unat b)"

lemma pool_bytes_unat:
  "unat (cp_size cp) * unat n + unat (cp_aln cp) < 2 ^ 32 \<Longrightarrow> unat (pool_bytes cp n) = unat (cp_size cp) * unat n + unat (cp_aln cp)"
proof -
  assume lt: "unat (cp_size cp) * unat n + unat (cp_aln cp) < 2 ^ 32"
  have "pool_bytes cp n = of_nat (unat (cp_size cp) * unat n + unat (cp_aln cp))" by (simp add: pool_bytes_def)
  then show ?thesis using lt by (rule unat_from_nat)
qed

lemma BITMAPLEN_pos: "0 < n \<Longrightarrow> 0 < BITMAPLEN n"
  by (simp add: BITMAPLEN_def BINL_def div_greater_zero_iff)

lemma create_pool_ok:
  assumes "al_header al" "al_buffer al = Some b" "al_bits al" "fresh_block cp n b" "0 < unat n" "cp_aln cp \<noteq> 0"
    and "cp_size cp \<noteq> 0" "unat (cp_aln cp) dvd unat (cp_size cp)" "\<forall>p \<in> set (cp_pools cp). unat (cp_aln cp) dvd pbase p"
    and "\<forall>p \<in> set (cp_pools cp). array_ok (unat (cp_size cp)) p" "sorted_wrt (apart (unat (cp_size cp))) (cp_pools cp)"
  shows "\<exists>p. create_pool al cp n = (EOK, cp\<lparr>cp_pools := p # cp_pools cp\<rparr>) \<and> pool_ok (cp\<lparr>cp_pools := p # cp_pools cp\<rparr>) \<and>
    pa_numitems p = n \<and> bits_of (pa_bitmap p) = {}"
proof -
  define p where "p = \<lparr>pa_buffer = b, pa_bufstart = MULT b (cp_aln cp), pa_numitems = n, pa_free = n,
    pa_bitmap = replicate (BITMAPLEN (unat n)) 0\<rparr>"
  note fresh = assms(4) [unfolded fresh_block_def pool_bytes_unat [of cp n]]
  have bytes: "unat (pool_bytes cp n) = unat (cp_size cp) * unat n + unat (cp_aln cp)"
    using assms(4) pool_bytes_unat by (simp add: fresh_block_def)
  then have b: "unat b + unat (cp_size cp) * unat n + unat (cp_aln cp) \<le> 2 ^ 32" using assms(4) by (simp add: fresh_block_def)
  then have m: "unat b \<le> pbase p" "pbase p < unat b + unat (cp_aln cp)" "unat (cp_aln cp) dvd pbase p"
    using MULT_ok [OF assms(6), of b] by (simp_all add: p_def)
  have "array_ok (unat (cp_size cp)) p" using m b assms(4,5) by (simp add: array_ok_def p_def fresh_block_def)
  moreover have "apart (unat (cp_size cp)) p q" if "q \<in> set (cp_pools cp)" for q
    using assms(4) that m bytes by (auto simp: fresh_block_def apart_def p_def)
  ultimately have "pool_ok (cp\<lparr>cp_pools := p # cp_pools cp\<rparr>)" using assms m by (simp add: pool_ok_def)
  moreover have "create_pool al cp n = (EOK, cp\<lparr>cp_pools := p # cp_pools cp\<rparr>)" using assms by (simp add: create_pool_def p_def)
  ultimately show ?thesis by (auto simp: p_def)
qed

lemma pool_take:
  assumes "pool_ok c" "cp_pools c = xs @ p # ys" "takes p i p'"
  defines "a \<equiv> pa_bufstart p + of_nat i * cp_size c" and "c' \<equiv> c\<lparr>cp_pools := xs @ p' # ys\<rparr>"
  shows "pool_ok c'" "unat a \<notin> chunks_used c" "chunks_used c' = insert (unat a) (chunks_used c)" "unat (cp_aln c) dvd unat a"
proof -
  note ok = assms(1) [unfolded pool_ok_def]
  note t = take_chunk [of "cp_size c" "cp_pools c" xs p ys i p']
  have p: "array_ok (unat (cp_size c)) p" "i < pcount p" "pbase p' = pbase p" using ok assms(2,3) by (auto simp: takes_def)
  have "unat a = pbase p + i * unat (cp_size c)" using chunk_word [OF p(1,2)] ok by (simp add: chunk_at_def a_def)
  then show "unat (cp_aln c) dvd unat a" using ok assms(2) by auto
  show "pool_ok c'" "unat a \<notin> chunks_used c" "chunks_used c' = insert (unat a) (chunks_used c)"
    using t ok assms(2,3) p(3) by (auto simp: pool_ok_def chunks_used_def a_def c'_def)
qed

lemma first_chunk_taken:
  assumes "array_ok sz p" "bits_of (pa_bitmap p) = {}"
  shows "\<exists>bm. bitmap_set (pa_bitmap p) 0 = Some bm \<and> takes p 0 (p\<lparr>pa_free := pa_free p - 1, pa_bitmap := bm\<rparr>)"
proof -
  have "0 < bm_range (pa_bitmap p)" using array_bits_range(1) [OF assms(1)] assms(1) by (metis array_ok_def less_le_trans)
  then show ?thesis using bitmap_set_bits [of 0 "pa_bitmap p"] assms by (auto simp: takes_def array_ok_def)
qed

lemma malloc_grown:
  assumes "pool_ok cp" "cp_aln cp \<noteq> 0" "malloc_scan (cp_size cp) (cp_pools cp) = Some None" "cp_delta cp \<noteq> 0"
    and "al_header al" "al_buffer al = Some b" "al_bits al" "fresh_block cp (cp_delta cp) b"
  shows "\<exists>a cp'. chunks_pool_malloc al (Some cp) = Some (Some a, Some cp') \<and> pool_ok cp' \<and> cp_aln cp' = cp_aln cp \<and>
    cp_size cp' = cp_size cp \<and> unat a \<notin> chunks_used cp \<and> chunks_used cp' = insert (unat a) (chunks_used cp) \<and>
    unat (cp_aln cp) dvd unat a"
proof -
  have "0 < unat (cp_delta cp)" using assms(4) by (simp add: unat_gt_0)
  then obtain p where p: "create_pool al cp (cp_delta cp) = (EOK, cp\<lparr>cp_pools := p # cp_pools cp\<rparr>)"
      "pool_ok (cp\<lparr>cp_pools := p # cp_pools cp\<rparr>)" "bits_of (pa_bitmap p) = {}"
    using create_pool_ok [of al b cp "cp_delta cp"] assms by (auto simp: pool_ok_def)
  have "array_ok (unat (cp_size cp)) p" using p(2) by (simp add: pool_ok_def)
  then obtain bm where bm: "bitmap_set (pa_bitmap p) 0 = Some bm" "takes p 0 (p\<lparr>pa_free := pa_free p - 1, pa_bitmap := bm\<rparr>)"
    using first_chunk_taken p(3) by blast
  have "chunks_used (cp\<lparr>cp_pools := p # cp_pools cp\<rparr>) = chunks_used cp" using p(3) by (simp add: chunks_used_def)
  then show ?thesis using pool_take [OF p(2) _ bm(2), of "[]" "cp_pools cp"] assms(3,4) p(1) bm(1)
    by (simp add: chunks_pool_malloc_def)
qed

lemma malloc_ok:
  assumes "pool_ok cp" "cp_aln cp \<noteq> 0"
    and fresh: "\<And>b. al_buffer al = Some b \<Longrightarrow> cp_delta cp \<noteq> 0 \<Longrightarrow> fresh_block cp (cp_delta cp) b"
  shows "\<exists>r cp'. chunks_pool_malloc al (Some cp) = Some (r, Some cp') \<and> pool_ok cp' \<and> cp_aln cp' = cp_aln cp \<and>
    cp_size cp' = cp_size cp \<and> (case r of
       Some a \<Rightarrow> unat a \<notin> chunks_used cp \<and> chunks_used cp' = insert (unat a) (chunks_used cp) \<and> unat (cp_aln cp) dvd unat a
     | None \<Rightarrow> cp' = cp \<and> (\<forall>p \<in> set (cp_pools cp). bits_of (pa_bitmap p) = {..<pcount p}))"
proof -
  consider (scan) xs p ys i p' where "cp_pools cp = xs @ p # ys" "takes p i p'"
      "malloc_scan (cp_size cp) (cp_pools cp) = Some (Some (pa_bufstart p + of_nat i * cp_size cp, xs @ p' # ys))"
    | (full) "malloc_scan (cp_size cp) (cp_pools cp) = Some None" "\<forall>p \<in> set (cp_pools cp). bits_of (pa_bitmap p) = {..<pcount p}"
    using malloc_scan_ok [of "cp_pools cp" "unat (cp_size cp)" "cp_size cp"] assms(1) pool_ok_def by blast
  then show ?thesis
  proof cases
    case scan
    then show ?thesis using pool_take [OF assms(1) scan(1,2)] by (simp add: chunks_pool_malloc_def)
  next
    case full
    show ?thesis
    proof (cases "cp_delta cp \<noteq> 0 \<and> al_header al \<and> al_bits al \<and> al_buffer al \<noteq> None")
      case True
      then obtain b where b: "al_buffer al = Some b" by blast
      then obtain a cp' where "chunks_pool_malloc al (Some cp) = Some (Some a, Some cp')" "pool_ok cp'" "cp_aln cp' = cp_aln cp"
        "cp_size cp' = cp_size cp" "unat a \<notin> chunks_used cp" "chunks_used cp' = insert (unat a) (chunks_used cp)" "unat (cp_aln cp) dvd unat a"
        using malloc_grown [OF assms(1,2) full(1)] fresh [OF b] True by blast
      then show ?thesis by auto
    next
      case False
      then have "chunks_pool_malloc al (Some cp) = Some (None, Some cp)"
        using full by (auto simp: chunks_pool_malloc_def create_pool_def split: option.splits)
      then show ?thesis using full assms(1) by auto
    qed
  qed
qed

section \<open>Release\<close>

definition gives :: "pool_array \<Rightarrow> nat \<Rightarrow> pool_array \<Rightarrow> bool" where
  "gives p i p' \<longleftrightarrow> i \<in> bits_of (pa_bitmap p) \<and>
     (\<exists>bm. p' = p\<lparr>pa_bitmap := bm, pa_free := pa_free p + 1\<rparr> \<and> length bm = length (pa_bitmap p) \<and>
           bits_of bm = bits_of (pa_bitmap p) - {i})"

lemma gives_ok:
  assumes "array_ok sz p" "gives p i p'" "0 < sz"
  shows "array_ok sz p'" "pbase p' = pbase p" "pcount p' = pcount p"
    "chunk_at sz p' ` bits_of (pa_bitmap p') = chunk_at sz p ` bits_of (pa_bitmap p) - {chunk_at sz p i}"
    "pa_free p' = pa_numitems p' \<longleftrightarrow> bits_of (pa_bitmap p') = {}"
proof -
  note ok = assms(1) [unfolded array_ok_def]
  have i: "i \<in> bits_of (pa_bitmap p)" and fin: "finite (bits_of (pa_bitmap p))"
    using assms array_bits_range(2) by (auto simp: gives_def)
  then have pos: "0 < card (bits_of (pa_bitmap p))" by (auto simp: card_gt_0_iff)
  then have "Suc (unat (pa_free p)) < 2 ^ LENGTH(32)" using ok unat_bound [of "pa_numitems p"] by simp
  then have f: "unat (pa_free p + 1) = Suc (unat (pa_free p))" by (rule unat_add_one)
  obtain bm where p': "p' = p\<lparr>pa_bitmap := bm, pa_free := pa_free p + 1\<rparr>" and bm: "length bm = length (pa_bitmap p)"
      "bits_of bm = bits_of (pa_bitmap p) - {i}" using assms(2) unfolding gives_def by blast
  show b: "pbase p' = pbase p" "pcount p' = pcount p" by (simp_all add: p')
  have c: "card (bits_of bm) = card (bits_of (pa_bitmap p)) - 1" using i bm(2) by simp
  have sub: "bits_of bm \<subseteq> {..<pcount p}" using ok bm(2) by blast
  have sum: "unat (pa_free p + 1) + card (bits_of bm) = pcount p" using ok f c pos by linarith
  show ok': "array_ok sz p'"
    unfolding array_ok_def b using ok bm(1) sub sum by (simp add: p')
  have same: "chunk_at sz p' = chunk_at sz p" by (simp add: fun_eq_iff chunk_at_def b)
  have "inj (chunk_at sz p)" using assms(3) by (auto simp: inj_def chunk_at_def)
  then show "chunk_at sz p' ` bits_of (pa_bitmap p') = chunk_at sz p ` bits_of (pa_bitmap p) - {chunk_at sz p i}"
    unfolding same using bm(2) by (simp add: p' image_set_diff)
  show "pa_free p' = pa_numitems p' \<longleftrightarrow> bits_of (pa_bitmap p') = {}"
    using ok' array_bits_range(2) [OF ok'] by (auto simp: array_ok_def word_unat_eq_iff)
qed

text \<open>The range test of the loop: exact for the addresses of chunks.\<close>

lemma free_range:
  assumes "array_ok (unat sz) p" "sz \<noteq> 0"
  shows "pa_bufstart p \<le> ptr \<and> ptr \<le> pa_bufstart p + sz * (pa_numitems p - 1) \<longleftrightarrow>
    pbase p \<le> unat ptr \<and> unat ptr \<le> pbase p + unat sz * (pcount p - 1)"
proof -
  have n: "pa_numitems p \<noteq> 0" "pbase p + unat sz * pcount p < 2 ^ 32" using assms(1) by (auto simp: array_ok_def)
  have lt: "pbase p + unat sz * (pcount p - 1) < 2 ^ 32"
    by (rule le_less_trans [OF _ n(2)]) simp
  have "pa_bufstart p + sz * (pa_numitems p - 1) = of_nat (pbase p + unat sz * (pcount p - 1))"
    unfolding unat_minus_one [OF n(1), symmetric] by simp
  then have "unat (pa_bufstart p + sz * (pa_numitems p - 1)) = pbase p + unat sz * (pcount p - 1)" using lt by (rule unat_from_nat)
  then show ?thesis by (simp add: word_le_nat_alt)
qed

lemma free_scan_ok:
  assumes "sz \<noteq> 0" "\<forall>p \<in> set ps. array_ok (unat sz) p" "sorted_wrt (apart (unat sz)) ps" "ps = xs @ p # ys"
    and "unat ptr = chunk_at (unat sz) p i" "i \<in> bits_of (pa_bitmap p)"
  shows "\<exists>p'. gives p i p' \<and> free_scan sz ptr ps = Some (xs @ (if pa_free p' = pa_numitems p' then delete_pool p' ys else p' # ys))"
  using assms
proof (induction xs arbitrary: ps)
  case Nil
  have s: "0 < unat sz" and p: "array_ok (unat sz) p" and i: "i < pcount p"
    using Nil.prems by (auto simp: unat_gt_0 array_ok_def)
  have "i * unat sz \<le> (pcount p - 1) * unat sz" using i by (intro mult_right_mono) auto
  then have r: "pa_bufstart p \<le> ptr \<and> ptr \<le> pa_bufstart p + sz * (pa_numitems p - 1)"
    using free_range [OF p Nil.prems(1)] Nil.prems(5) by (simp add: chunk_at_def mult.commute)
  then have "unat ((ptr - pa_bufstart p) div sz) = i"
    using Nil.prems(5) s by (simp add: unat_div unat_sub_le chunk_at_def)
  moreover obtain bm where bm: "bitmap_clear (pa_bitmap p) i = Some bm" "length bm = length (pa_bitmap p)" "bits_of bm = bits_of (pa_bitmap p) - {i}"
    using bitmap_clear_bits [of i "pa_bitmap p"] bits_of_range [OF Nil.prems(6)] by blast
  moreover have "bitmap_is_set (pa_bitmap p) i = Some True" using bitmap_is_set_bits [OF bits_of_range] Nil.prems(6) by simp
  moreover from bm have "gives p i (p\<lparr>pa_bitmap := bm, pa_free := pa_free p + 1\<rparr>)" using Nil.prems(6) by (auto simp: gives_def)
  ultimately show ?case using r Nil.prems(4)
    by (intro exI [of _ "p\<lparr>pa_bitmap := bm, pa_free := pa_free p + 1\<rparr>"]) simp
next
  case (Cons q xs)
  have s: "0 < unat sz" and p: "array_ok (unat sz) p" and i: "i < pcount p" and q: "array_ok (unat sz) q" "apart (unat sz) q p"
    using Cons.prems by (auto simp: unat_gt_0 array_ok_def)
  have "Suc (pcount q - 1) = pcount q" using q(1) by (simp add: array_ok_def)
  then have "unat sz * (pcount q - 1) + unat sz = unat sz * pcount q" by (metis add.commute mult_Suc_right)
  then have "\<not> (pa_bufstart q \<le> ptr \<and> ptr \<le> pa_bufstart q + sz * (pa_numitems q - 1))"
    using free_range [OF q(1) Cons.prems(1)] q(2) chunk_in_array [OF p i s] Cons.prems(5) s by (auto simp: apart_def)
  moreover obtain p' where "gives p i p'"
      "free_scan sz ptr (xs @ p # ys) = Some (xs @ (if pa_free p' = pa_numitems p' then delete_pool p' ys else p' # ys))"
    using Cons.IH [of "xs @ p # ys"] Cons.prems by auto
  moreover have "ps = q # (xs @ p # ys)" using Cons.prems(4) by simp
  ultimately show ?case by (intro exI [of _ p']) (simp only: free_scan.simps if_False bind.bind_lunit append_Cons)
qed

lemma delete_pool_cases: "delete_pool p ys = p # ys \<or> delete_pool p ys = ys \<and> ys \<noteq> []"
  by (cases ys) auto

lemma free_ok:
  assumes "pool_ok cp" "unat ptr \<in> chunks_used cp"
  shows "\<exists>cp'. chunks_pool_free (Some cp) ptr = Some (Some cp') \<and> pool_ok cp' \<and> chunks_used cp' = chunks_used cp - {unat ptr}"
proof -
  define sz where "sz = unat (cp_size cp)"
  note ok = assms(1) [unfolded pool_ok_def]
  have s: "0 < sz" using ok by (simp add: sz_def unat_gt_0)
  obtain p i where "p \<in> set (cp_pools cp)" and i: "unat ptr = chunk_at sz p i" "i \<in> bits_of (pa_bitmap p)"
    using assms(2) by (auto simp: chunks_used_def used_in_def sz_def)
  then obtain xs ys where ps: "cp_pools cp = xs @ p # ys" by (meson split_list)
  obtain p' where g: "gives p i p'" and scan: "free_scan (cp_size cp) ptr (cp_pools cp) =
      Some (xs @ (if pa_free p' = pa_numitems p' then delete_pool p' ys else p' # ys))"
    using free_scan_ok [of "cp_size cp" "cp_pools cp" xs p ys ptr i] ok ps i by (auto simp: sz_def)
  have p: "array_ok sz p" using ok ps by (simp add: sz_def)
  note g' = gives_ok [OF p g s]
  have nz: "ptr \<noteq> 0" using i(1) p s by (auto simp: array_ok_def chunk_at_def)
  define rest where "rest = xs @ (if pa_free p' = pa_numitems p' then delete_pool p' ys else p' # ys)"
  consider "rest = xs @ p' # ys" | "rest = xs @ ys" "ys \<noteq> []" "bits_of (pa_bitmap p') = {}"
    using delete_pool_cases [of p' ys] g'(5) by (cases "bits_of (pa_bitmap p') = {}") (auto simp: rest_def)
  then have "pool_ok (cp\<lparr>cp_pools := rest\<rparr>) \<and> used_in sz rest = used_in sz (xs @ p' # ys)"
    using ok ps g'(1-3) by cases (auto simp: pool_ok_def sorted_wrt_append apart_def sz_def)
  moreover have "unat ptr \<notin> chunk_at sz q ` bits_of (pa_bitmap q)" if "q \<in> set xs \<union> set ys" for q
    using that ok ps chunk_in_array [OF p _ s, of i] s i p
    by (intro chunk_elsewhere [where p = p]) (auto simp: sorted_wrt_append sz_def array_ok_def)
  then have "used_in sz (xs @ p' # ys) = used_in sz (cp_pools cp) - {unat ptr}" using g'(4) i(1) by (auto simp: ps used_in_def)
  ultimately show ?thesis using scan nz by (simp add: chunks_pool_free_def chunks_used_def rest_def sz_def)
qed

section \<open>Creation and the properties of pools\<close>

lemma create_ok:
  assumes "sz \<noteq> 0" "numitems \<noteq> 0" "handle = Some h" "al_header al" "al_bits al" "al_buffer al = Some b"
    and "aln' = (if aln = 0 then 4 else aln)" "unat sz + unat aln' \<le> 2 ^ 32" "0 < unat b"
    and "unat b + unat (MULT sz aln') * unat numitems + unat aln' < 2 ^ 32"
  shows "\<exists>cp. chunks_pool_create handle al name aln sz numitems delta = Some cp \<and> pool_ok cp \<and> chunks_used cp = {} \<and>
    cp_aln cp = aln' \<and> cp_delta cp = delta \<and> unat sz \<le> unat (cp_size cp) \<and> unat (cp_size cp) < unat sz + unat aln'"
proof -
  define nm where "nm = take 15 (case name of Some s \<Rightarrow> s | None \<Rightarrow> ''Chunk_'' @ hex_string h)"
  define c0 where "c0 = \<lparr>cp_aln = aln', cp_size = MULT sz aln', cp_delta = delta, cp_pools = [], cp_name = nm\<rparr>"
  have a: "aln' \<noteq> 0" using assms(7) by simp
  have m: "unat sz \<le> unat (MULT sz aln')" "unat (MULT sz aln') < unat sz + unat aln'" "unat aln' dvd unat (MULT sz aln')"
    using MULT_ok [OF a assms(8)] by simp_all
  have "0 < unat sz" "0 < unat numitems" using assms(1,2) by (simp_all add: unat_gt_0)
  then have s: "MULT sz aln' \<noteq> 0" using m(1) by auto
  have "fresh_block c0 numitems b"
    using assms(9,10) pool_bytes_unat [of c0 numitems] by (simp add: fresh_block_def c0_def)
  then obtain p where p: "create_pool al c0 numitems = (EOK, c0\<lparr>cp_pools := p # cp_pools c0\<rparr>)"
      "pool_ok (c0\<lparr>cp_pools := p # cp_pools c0\<rparr>)" "bits_of (pa_bitmap p) = {}"
    using create_pool_ok [of al b c0 numitems] assms(4-6) a s m \<open>0 < unat numitems\<close> by (auto simp: c0_def)
  have "chunks_pool_create handle al name aln sz numitems delta = Some (c0\<lparr>cp_pools := p # cp_pools c0\<rparr>)"
    unfolding chunks_pool_create_def Let_def assms(7) [symmetric] c0_def [folded nm_def, symmetric]
    using assms(1-3) p(1) by (simp add: nm_def [symmetric] c0_def [symmetric])
  then show ?thesis using p(2,3) m by (simp add: chunks_used_def c0_def)
qed

text \<open>Creating a pool. When \<open>malloc\<close> answers with a block that fits in the address space, the pool is
  created well formed with no chunk in use, the alignment that was asked for (4 for 0), and chunks at least
  as large as asked for and rounded up by less than the alignment.
\<close>

theorem chunks_pool_create_correct:
  assumes "sz \<noteq> 0" "numitems \<noteq> 0" "handle = Some h" "al_header al" "al_bits al" "al_buffer al = Some b"
    and "aln' = (if aln = 0 then 4 else aln)" "unat sz + unat aln' \<le> 2 ^ 32" "0 < unat b"
    and "unat b + unat (MULT sz aln') * unat numitems + unat aln' < 2 ^ 32"
  shows "\<exists>cp. chunks_pool_create handle al name aln sz numitems delta = Some cp \<and> pool_ok cp \<and> chunks_used cp = {} \<and>
    cp_aln cp = aln' \<and> cp_delta cp = delta \<and> unat sz \<le> unat (cp_size cp) \<and> unat (cp_size cp) < unat sz + unat aln'"
  using create_ok assms .

definition blocks_at :: "u32 \<Rightarrow> alloc" where
  "blocks_at b = \<lparr>al_header = True, al_buffer = Some b, al_bits = True\<rparr>"

theorem chunks_pool_create_correct_witness:
  "\<exists>cp. chunks_pool_create (Some 64) (blocks_at 4097) None 0 10 3 2 = Some cp \<and> pool_ok cp \<and> chunks_used cp = {} \<and>
    cp_aln cp = 4 \<and> cp_delta cp = 2 \<and> unat (10 :: u32) \<le> unat (cp_size cp) \<and> unat (cp_size cp) < unat (10 :: u32) + unat (4 :: u32)"
  using chunks_pool_create_correct [of 10 3 "Some 64" 64 "blocks_at 4097" 4097 4 0 None 2]
  by (simp add: blocks_at_def MULT_def)

text \<open>The pool of the witnesses: three chunks of 12 bytes at address 4100, growing by two.\<close>

definition sample_pool :: chunks_pool where
  "sample_pool = the (chunks_pool_create (Some 64) (blocks_at 4097) (Some ''test'') 4 10 3 2)"

lemma sample_pool_eq:
  "sample_pool = \<lparr>cp_aln = 4, cp_size = 12, cp_delta = 2, cp_pools =
     [\<lparr>pa_buffer = 4097, pa_bufstart = 4100, pa_numitems = 3, pa_free = 3, pa_bitmap = [0]\<rparr>], cp_name = ''test''\<rparr>"
  by (simp add: sample_pool_def chunks_pool_create_def create_pool_def blocks_at_def MULT_def BITMAPLEN_def BINL_def)

lemma sample_pool_ok: "pool_ok sample_pool" "chunks_used sample_pool = {}"
proof -
  obtain cp where "chunks_pool_create (Some 64) (blocks_at 4097) (Some ''test'') 4 10 3 2 = Some cp" "pool_ok cp" "chunks_used cp = {}"
    using create_ok [of 10 3 "Some 64" 64 "blocks_at 4097" 4097 4 4 "Some ''test''" 2] by (auto simp: blocks_at_def MULT_def)
  then show "pool_ok sample_pool" "chunks_used sample_pool = {}" by (simp_all add: sample_pool_def)
qed

text \<open>C30: allocation. On a well-formed pool \<open>chunks_pool_malloc\<close> never faults, keeps the pool well formed,
  and either returns the aligned address of a chunk that was not in use, which is then the only new chunk in
  use, or returns NULL with the pool unchanged and every chunk of every array in use. Of \<open>malloc\<close> it relies
  on that a block it returns is inside the address space and apart from the arrays of the pool; of the pool, that it has an alignment and that the size of a new array
  and the alignment do not wrap at 2^32, which the code does not check.
\<close>

theorem chunks_pool_malloc_correct:
  assumes "pool_ok cp" "cp_aln cp \<noteq> 0"
    and "\<And>b. al_buffer al = Some b \<Longrightarrow> cp_delta cp \<noteq> 0 \<Longrightarrow> fresh_block cp (cp_delta cp) b"
  shows "\<exists>r cp'. chunks_pool_malloc al (Some cp) = Some (r, Some cp') \<and> pool_ok cp' \<and> cp_aln cp' = cp_aln cp \<and>
    cp_size cp' = cp_size cp \<and> (case r of
       Some a \<Rightarrow> unat a \<notin> chunks_used cp \<and> chunks_used cp' = insert (unat a) (chunks_used cp) \<and> unat (cp_aln cp) dvd unat a
     | None \<Rightarrow> cp' = cp \<and> (\<forall>p \<in> set (cp_pools cp). bits_of (pa_bitmap p) = {..<pcount p}))"
  using malloc_ok [OF assms] .

lemma sample_pool_fresh: "al_buffer (blocks_at 8192) = Some b \<Longrightarrow> fresh_block sample_pool (cp_delta sample_pool) b" "cp_aln sample_pool \<noteq> 0"
  by (auto simp: blocks_at_def fresh_block_def sample_pool_eq pool_bytes_def)

theorem chunks_pool_malloc_correct_witness:
  "\<exists>r cp'. chunks_pool_malloc (blocks_at 8192) (Some sample_pool) = Some (r, Some cp') \<and> pool_ok cp' \<and> cp_aln cp' = cp_aln sample_pool \<and>
    cp_size cp' = cp_size sample_pool \<and> (case r of
       Some a \<Rightarrow> unat a \<notin> chunks_used sample_pool \<and> chunks_used cp' = insert (unat a) (chunks_used sample_pool) \<and> unat (cp_aln sample_pool) dvd unat a
     | None \<Rightarrow> cp' = sample_pool \<and> (\<forall>p \<in> set (cp_pools sample_pool). bits_of (pa_bitmap p) = {..<pcount p}))"
  by (rule chunks_pool_malloc_correct [OF sample_pool_ok(1) sample_pool_fresh(2,1)])

text \<open>Release. Giving back an address that \<open>chunks_pool_malloc\<close> returned never faults, keeps the pool
  well formed and takes exactly this chunk out of the chunks in use, also when the array of the chunk has
  become free and is removed.
\<close>

theorem chunks_pool_free_correct:
  assumes "pool_ok cp" "unat ptr \<in> chunks_used cp"
  shows "\<exists>cp'. chunks_pool_free (Some cp) ptr = Some (Some cp') \<and> pool_ok cp' \<and> chunks_used cp' = chunks_used cp - {unat ptr}"
  using free_ok [OF assms] .

theorem chunks_pool_free_correct_witness:
  "\<exists>cp a cp'. chunks_pool_malloc (blocks_at 8192) (Some sample_pool) = Some (Some a, Some cp) \<and>
     chunks_pool_free (Some cp) a = Some (Some cp') \<and> pool_ok cp' \<and> chunks_used cp' = {}"
proof -
  obtain r cp where m: "chunks_pool_malloc (blocks_at 8192) (Some sample_pool) = Some (r, Some cp)" "pool_ok cp"
      "\<And>a. r = Some a \<Longrightarrow> chunks_used cp = {unat a}"
    using malloc_ok [of sample_pool "blocks_at 8192"] sample_pool_ok sample_pool_fresh by (auto split: option.splits)
  have "r = Some 4100" using m(1)
    by (simp add: chunks_pool_malloc_def sample_pool_eq bitmap_first_is_clear_def BITMAPLEN_def BINL_def first_clear_from.simps split: bind_splits)
  with m show ?thesis using chunks_pool_free_correct [of cp 4100] by auto
qed

end
