(* ===== verification/CStrings.thy ===== *)
theory CStrings
  imports Prelude "HOL-Library.List_Lexorder" "HOL-Library.Char_ord"
begin

text \<open>
  The string functions of \<^verbatim>\<open>src/libs/libc/ansi\<close> that the registries of interfaces and devices use. A
  character array is the list of its characters before the terminator. The sign of \<open>strncmp\<close> is the
  lexicographic order of the library, so that a name is a key of a linear order.
\<close>

section \<open>Functions\<close>

fun strncmp_loop :: "string \<Rightarrow> string \<Rightarrow> nat \<Rightarrow> int" where
  "strncmp_loop cs ct 0 = 0"
| "strncmp_loop [] [] (Suc n) = 0"
| "strncmp_loop [] (d # ct) (Suc n) = - 1"
| "strncmp_loop (c # cs) [] (Suc n) = 1"
| "strncmp_loop (c # cs) (d # ct) (Suc n) = (if c \<noteq> d then of_char c - of_char d else strncmp_loop cs ct n)"

definition strncmp :: "string option \<Rightarrow> string option \<Rightarrow> nat \<Rightarrow> int" where
  "strncmp cs ct n = (case (cs, ct) of (Some s, Some t) \<Rightarrow> strncmp_loop s t n | _ \<Rightarrow> 0)"

text \<open>What \<open>strncpy\<close> leaves in a destination of \<open>n\<close> characters.\<close>

definition strncpy :: "string \<Rightarrow> nat \<Rightarrow> string" where
  "strncpy ct n = take n ct"

section \<open>The order of names\<close>

lemma char_diff: "of_char c < (of_char d :: int) \<longleftrightarrow> c < d"
  by (metis less_char_def of_nat_of_char of_nat_less_iff)

lemma strncmp_sign:
  "0 < strncmp_loop s t n \<longleftrightarrow> take n t < take n s" "strncmp_loop s t n < 0 \<longleftrightarrow> take n s < take n t"
  by (induction s t n rule: strncmp_loop.induct) (auto simp: char_diff)

lemma strncmp_zero: "strncmp_loop s t n = 0 \<longleftrightarrow> take n s = take n t"
  using strncmp_sign [of s t n] by (metis less_irrefl linorder_neqE)

end
