(* ===== verification/NetIf.thy ===== *)
theory NetIf
  imports Chunks RBTreeQuery CStrings
begin

text \<open>
  The registry of network interfaces, \<^verbatim>\<open>src/kernel/net_interfaces.c\<close>: two red-black trees over the same
  interfaces, one sorted by name and one by index, whose nodes come from two memory pools. A pointer to
  an interface is the interface with its address in \<open>ni_addr\<close>; this file writes an interface only before
  it links it. A character array is the list of its characters before the terminator. The functions of
  the drivers are arguments: \<open>nd_init\<close> and \<open>nd_start\<close> are the results of \<open>cmn.init_fn\<close> and \<open>cmn.start_fn\<close>.
\<close>

section \<open>Interfaces\<close>

definition NETIF_NAME_LEN :: nat where "NETIF_NAME_LEN = 5"
definition MAX_ADDR_LEN :: nat where "MAX_ADDR_LEN = 8"
definition CACHE_ALN :: u32 where "CACHE_ALN = 64"

record net_driver =
  nd_init :: "(u32 \<Rightarrow> u32) option"
  nd_start :: "u32 \<Rightarrow> u32"
  nd_mtu :: u32
  nd_ifname :: string

record net_interface =
  ni_addr :: u32
  ni_name :: string
  ni_unit :: u32
  ni_flags :: u32
  ni_ifindex :: u32
  ni_iflink :: u32
  ni_operstate :: "8 word"
  ni_link_mode :: "8 word"
  ni_mtu :: u32
  ni_type :: "16 word"
  ni_hard_header_len :: "16 word"
  ni_perm_addr :: "8 word list"
  ni_addr_assign_type :: "8 word"
  ni_addr_len :: "8 word"
  ni_broadcast :: "8 word list"
  ni_drv :: "net_driver option"

record tree_node =
  tn_addr :: u32
  tn_ni :: net_interface

record net_state =
  interface_tree :: "tree_node rbtree_node"
  interface_tree_if :: "tree_node rbtree_node"
  tree_node_pool :: "chunks_pool option"
  interfaces_pool :: "chunks_pool option"
  ifindex_counter :: u32

text \<open>A cleared interface at the given address.\<close>

definition zero_interface :: "u32 \<Rightarrow> net_interface" where
  "zero_interface a = \<lparr>ni_addr = a, ni_name = [], ni_unit = 0, ni_flags = 0, ni_ifindex = 0, ni_iflink = 0,
     ni_operstate = 0, ni_link_mode = 0, ni_mtu = 0, ni_type = 0, ni_hard_header_len = 0,
     ni_perm_addr = replicate MAX_ADDR_LEN 0, ni_addr_assign_type = 0, ni_addr_len = 0,
     ni_broadcast = replicate MAX_ADDR_LEN 0, ni_drv = None\<rparr>"

definition cmpfn :: "tree_node rbtreecmpfn" where
  "cmpfn a b =
     (let retcode = strncmp (Some (ni_name (tn_ni a))) (Some (ni_name (tn_ni b))) (NETIF_NAME_LEN + 1) in
      if retcode > 0 then KEY_GREATER else if retcode < 0 then KEY_LOWER else KEY_EQUAL)"

definition cmpfnif :: "tree_node rbtreecmpfn" where
  "cmpfnif a b =
     (let retcode = sint (ni_ifindex (tn_ni a) - ni_ifindex (tn_ni b)) in
      if retcode > 0 then KEY_GREATER else if retcode < 0 then KEY_LOWER else KEY_EQUAL)"

text \<open>16 and 60 bytes are the sizes of a tree node and of an interface.\<close>

definition init_net_interfaces_lib ::
  "nat option \<times> alloc \<Rightarrow> nat option \<times> alloc \<Rightarrow> net_state \<Rightarrow> bool \<times> net_state" where
  "init_net_interfaces_lib m1 m2 s =
     (let p1 = chunks_pool_create (fst m1) (snd m1) (Some ''Intf tree'') CACHE_ALN 16 (2 * 8) (2 * 8);
          s1 = s\<lparr>tree_node_pool := p1\<rparr>
      in if p1 = None then (False, s1)
         else (let p2 = chunks_pool_create (fst m2) (snd m2) (Some ''Intf'') CACHE_ALN 60 8 8;
                   s2 = s1\<lparr>interfaces_pool := p2\<rparr>
               in (p2 \<noteq> None, s2)))"

text \<open>The returned list: every interface with the result of starting it (\<open>True\<close>: reported as failed).\<close>

definition start_fails :: "net_interface \<Rightarrow> bool" where
  "start_fails ni = (case ni_drv ni of Some d \<Rightarrow> nd_start d (ni_unit ni) \<noteq> 0 | None \<Rightarrow> False)"

partial_function (option) start_loop ::
  "tree_node rbtree_node \<Rightarrow> tree_node rbtree_node \<Rightarrow> (net_interface \<times> bool) list option" where
  "start_loop tree ptr =
     (case node_obj ptr of
        None \<Rightarrow> Some []
      | Some n \<Rightarrow>
         do { nxt \<leftarrow> rbtree_next tree (Some n) (Some cmpfn);
              rest \<leftarrow> start_loop tree nxt;
              Some ((tn_ni n, start_fails (tn_ni n)) # rest) })"

definition start_net_interfaces_lib :: "net_state \<Rightarrow> (net_interface \<times> bool) list option" where
  "start_net_interfaces_lib s = start_loop (interface_tree s) (rbtree_first (interface_tree s))"

text \<open>\<open>if (x) chunks_pool_free(pool, x)\<close>\<close>

definition give_back :: "chunks_pool option \<Rightarrow> u32 option \<Rightarrow> chunks_pool option option" where
  "give_back pool x = (case x of None \<Rightarrow> Some pool | Some a \<Rightarrow> chunks_pool_free pool a)"

definition drop_blocks ::
  "net_state \<Rightarrow> u32 option \<Rightarrow> u32 option \<Rightarrow> u32 option \<Rightarrow> (net_interface option \<times> net_state) option" where
  "drop_blocks s temp node node2 =
     do { ip \<leftarrow> give_back (interfaces_pool s) temp;
          tp \<leftarrow> give_back (tree_node_pool s) node;
          tp' \<leftarrow> give_back tp node2;
          Some (None, s\<lparr>interfaces_pool := ip, tree_node_pool := tp'\<rparr>) }"

text \<open>\<open>snprintf(name, 6, "%s%u", ifname, 0)\<close>\<close>

definition first_name :: "net_driver \<Rightarrow> string" where
  "first_name d = take NETIF_NAME_LEN (nd_ifname d @ ''0'')"

text \<open>The three blocks are there: link the interface into both trees.\<close>

definition link_interface ::
  "net_state \<Rightarrow> net_driver \<Rightarrow> u32 \<Rightarrow> u32 \<Rightarrow> u32 \<Rightarrow> u32 \<Rightarrow> (net_interface option \<times> net_state) option" where
  "link_interface s inst unitno temp node node2 =
     (let ni = (zero_interface temp)\<lparr>ni_unit := unitno, ni_drv := Some inst, ni_mtu := nd_mtu inst,
                  ni_ifindex := ifindex_counter s, ni_name := first_name inst\<rparr>;
          s = s\<lparr>ifindex_counter := ifindex_counter s + 1\<rparr>
      in do { (v, t) \<leftarrow> rbtree_insert (Some (interface_tree s)) (Some (\<lparr>tn_addr = node, tn_ni = ni\<rparr>, 0)) (Some cmpfn);
              let s = s\<lparr>interface_tree := the t\<rparr>;
              if v = None then drop_blocks s (Some temp) (Some node) (Some node2)
              else do { (v2, t2) \<leftarrow> rbtree_insert (Some (interface_tree_if s)) (Some (\<lparr>tn_addr = node2, tn_ni = ni\<rparr>, 0)) (Some cmpfnif);
                        let s = s\<lparr>interface_tree_if := the t2\<rparr>;
                        if v2 = None then drop_blocks s (Some temp) (Some node) (Some node2)
                        else Some (Some ni, s) } })"

text \<open>The three arguments \<open>a1\<close>, \<open>a2\<close> and \<open>a3\<close> are what \<open>malloc\<close> answers if a pool has to grow.\<close>

definition net_interface_create ::
  "alloc \<Rightarrow> alloc \<Rightarrow> alloc \<Rightarrow> net_state \<Rightarrow> net_driver option \<Rightarrow> u32 \<Rightarrow> (net_interface option \<times> net_state) option" where
  "net_interface_create a1 a2 a3 s inst unitno =
     (case inst of
        None \<Rightarrow> Some (None, s)
      | Some drv \<Rightarrow>
         if (case nd_init drv of Some f \<Rightarrow> f unitno \<noteq> 0 | None \<Rightarrow> False) then Some (None, s)
         else do { (temp, z1, ip) \<leftarrow> chunks_pool_zalloc a1 (interfaces_pool s);
                   (node, z2, tp) \<leftarrow> chunks_pool_zalloc a2 (tree_node_pool s);
                   (node2, z3, tp') \<leftarrow> chunks_pool_zalloc a3 tp;
                   let s = s\<lparr>interfaces_pool := ip, tree_node_pool := tp'\<rparr>;
                   case (temp, node, node2) of
                     (Some t, Some n, Some n2) \<Rightarrow> link_interface s drv unitno t n n2
                   | _ \<Rightarrow> drop_blocks s temp node node2 })"

definition ni_of :: "tree_node rbtree_node \<Rightarrow> net_interface option" where
  "ni_of n = map_option tn_ni (node_obj n)"

text \<open>The local node of the searches: only the field that the comparison reads is set.\<close>

definition key_node :: "net_interface \<Rightarrow> tree_node" where
  "key_node ni = \<lparr>tn_addr = 0, tn_ni = ni\<rparr>"

definition net_interface_lookup_name :: "net_state \<Rightarrow> string option \<Rightarrow> net_interface option option" where
  "net_interface_lookup_name s ifname =
     (case ifname of
        None \<Rightarrow> Some None
      | Some nm \<Rightarrow>
         do { n \<leftarrow> rbtree_search (interface_tree s)
                   (Some (key_node ((zero_interface 0)\<lparr>ni_name := strncpy nm (NETIF_NAME_LEN + 1)\<rparr>))) (Some cmpfn);
              Some (ni_of n) })"

definition net_interface_lookup_index :: "net_state \<Rightarrow> u32 \<Rightarrow> net_interface option option" where
  "net_interface_lookup_index s ifindex =
     do { n \<leftarrow> rbtree_search (interface_tree s) (Some (key_node ((zero_interface 0)\<lparr>ni_ifindex := ifindex\<rparr>))) (Some cmpfnif);
          Some (ni_of n) }"

definition net_interface_first :: "net_state \<Rightarrow> net_interface option" where
  "net_interface_first s = ni_of (rbtree_first (interface_tree s))"

definition net_interface_next :: "net_state \<Rightarrow> net_interface option \<Rightarrow> net_interface option option" where
  "net_interface_next s intp =
     (case intp of
        None \<Rightarrow> if interface_tree s = Leaf then Some None else None
      | Some ni \<Rightarrow> do { n \<leftarrow> rbtree_next (interface_tree s) (Some (key_node ni)) (Some cmpfn); Some (ni_of n) })"

section \<open>The orders of the two trees\<close>

definition name_key :: "tree_node \<Rightarrow> string" where
  "name_key n = take (NETIF_NAME_LEN + 1) (ni_name (tn_ni n))"

interpretation by_name: key_order cmpfn name_key
  by unfold_locales (auto simp: cmpfn_def strncmp_def name_key_def strncmp_sign Let_def)

text \<open>The difference of two indexes that are not negative does not wrap.\<close>

definition index_key :: "tree_node \<Rightarrow> int" where
  "index_key n = sint (ni_ifindex (tn_ni n))"

definition index_cmp :: "tree_node rbtreecmpfn" where
  "index_cmp a b = (if index_key a > index_key b then KEY_GREATER else if index_key a < index_key b then KEY_LOWER else KEY_EQUAL)"

interpretation by_index: key_order index_cmp index_key
  by unfold_locales (auto simp: index_cmp_def)

lemma cmpfnif_index:
  assumes "0 \<le> index_key a" "0 \<le> index_key b"
  shows "cmpfnif a b = index_cmp a b"
proof -
  define x y where "x = ni_ifindex (tn_ni a)" and "y = ni_ifindex (tn_ni b)"
  have r: "0 \<le> sint x" "0 \<le> sint y" "sint x < 2 ^ 31" "sint y < 2 ^ 31"
    using assms sint_lt [of x] sint_lt [of y] by (simp_all add: x_def y_def index_key_def)
  have "sint (x - y) = signed_take_bit 31 (sint x - sint y)" by (simp add: sint_word_ariths)
  also have "\<dots> = sint x - sint y" using r by (intro signed_take_bit_int_eq_self) auto
  finally show ?thesis by (simp add: cmpfnif_def index_cmp_def index_key_def x_def [symmetric] y_def [symmetric] Let_def)
qed

section \<open>The state of the registry\<close>

definition interfaces :: "net_state \<Rightarrow> net_interface set" where
  "interfaces s = tn_ni ` set (inorder (interface_tree s))"

definition owns :: "chunks_pool option \<Rightarrow> nat set \<Rightarrow> bool" where
  "owns pool U \<longleftrightarrow> (case pool of None \<Rightarrow> False | Some cp \<Rightarrow> pool_ok cp \<and> cp_aln cp \<noteq> 0 \<and> chunks_used cp = U)"

definition trees_ok :: "net_state \<Rightarrow> bool" where
  "trees_ok s \<longleftrightarrow> sorted_wrt (\<lambda>a b. name_key a < name_key b) (inorder (interface_tree s)) \<and>
     sorted_wrt (\<lambda>a b. index_key a < index_key b) (inorder (interface_tree_if s)) \<and>
     tn_ni ` set (inorder (interface_tree_if s)) = interfaces s \<and> 0 \<le> sint (ifindex_counter s) \<and>
     (\<forall>n \<in> set (inorder (interface_tree_if s)). 0 \<le> index_key n \<and> index_key n < sint (ifindex_counter s)) \<and>
     (\<forall>ni \<in> interfaces s. length (ni_name ni) \<le> NETIF_NAME_LEN)"

definition node_blocks :: "net_state \<Rightarrow> nat set" where
  "node_blocks s = (unat \<circ> tn_addr) ` (set (inorder (interface_tree s)) \<union> set (inorder (interface_tree_if s)))"

definition interface_blocks :: "net_state \<Rightarrow> nat set" where
  "interface_blocks s = (unat \<circ> ni_addr) ` interfaces s"

definition net_ok :: "net_state \<Rightarrow> bool" where
  "net_ok s \<longleftrightarrow> trees_ok s \<and> owns (tree_node_pool s) (node_blocks s) \<and> owns (interfaces_pool s) (interface_blocks s)"

text \<open>What the pools rely on: a block that \<open>malloc\<close> returns is a fresh one.\<close>

definition grows :: "alloc \<Rightarrow> chunks_pool option \<Rightarrow> bool" where
  "grows al pool \<longleftrightarrow> (\<forall>cp b. pool = Some cp \<longrightarrow> al_buffer al = Some b \<longrightarrow> cp_delta cp \<noteq> 0 \<longrightarrow> fresh_block cp (cp_delta cp) b)"

definition taken :: "u32 option \<Rightarrow> nat set" where
  "taken r = (case r of None \<Rightarrow> {} | Some a \<Rightarrow> {unat a})"

lemma zalloc_ok:
  assumes "owns pool U" "grows al pool"
  shows "\<exists>r z pool'. chunks_pool_zalloc al pool = Some (r, z, pool') \<and> owns pool' (U \<union> taken r) \<and> U \<inter> taken r = {} \<and>
    chunks_pool_malloc al pool = Some (r, pool')"
proof -
  obtain cp where cp: "pool = Some cp" "pool_ok cp" "cp_aln cp \<noteq> 0" "chunks_used cp = U"
    using assms(1) by (auto simp: owns_def split: option.splits)
  obtain r cp' where "chunks_pool_malloc al pool = Some (r, Some cp')" "pool_ok cp'" "cp_aln cp' = cp_aln cp"
      "case r of Some a \<Rightarrow> unat a \<notin> chunks_used cp \<and> chunks_used cp' = insert (unat a) (chunks_used cp) \<and> unat (cp_aln cp) dvd unat a
       | None \<Rightarrow> cp' = cp \<and> (\<forall>p \<in> set (cp_pools cp). bits_of (pa_bitmap p) = {..<pcount p})"
    using malloc_ok [OF cp(2,3), of al] assms(2) cp(1) by (auto simp: grows_def)
  then show ?thesis using cp by (auto simp: chunks_pool_zalloc_def owns_def taken_def split: option.splits)
qed

lemma free_aln: "chunks_pool_free (Some cp) p = Some (Some cp') \<Longrightarrow> cp_aln cp' = cp_aln cp"
  by (auto simp: chunks_pool_free_def split: if_splits bind_splits)

lemma give_back_ok:
  assumes "owns pool U" "taken r \<subseteq> U"
  shows "\<exists>pool'. give_back pool r = Some pool' \<and> owns pool' (U - taken r)"
proof (cases r)
  case None
  then show ?thesis using assms by (simp add: give_back_def taken_def)
next
  case (Some a)
  obtain cp where cp: "pool = Some cp" "pool_ok cp" "cp_aln cp \<noteq> 0" "chunks_used cp = U"
    using assms(1) by (auto simp: owns_def split: option.splits)
  moreover have "unat a \<in> chunks_used cp" using assms(2) cp(4) Some by (simp add: taken_def)
  ultimately obtain cp' where "chunks_pool_free pool a = Some (Some cp')" "pool_ok cp'" "chunks_used cp' = U - {unat a}"
      "cp_aln cp' = cp_aln cp" using free_ok [of cp a] free_aln [of cp a] by blast
  then show ?thesis using Some cp(3) by (simp add: give_back_def owns_def taken_def)
qed

lemma drop_blocks_ok:
  assumes "owns (interfaces_pool s) (I \<union> taken x)" "owns (tree_node_pool s) (N \<union> taken y \<union> taken z)"
    and "I \<inter> taken x = {}" "N \<inter> taken y = {}" "(N \<union> taken y) \<inter> taken z = {}"
  shows "\<exists>ip tp. drop_blocks s x y z = Some (None, s\<lparr>interfaces_pool := ip, tree_node_pool := tp\<rparr>) \<and> owns ip I \<and> owns tp N"
proof -
  obtain ip where ip: "give_back (interfaces_pool s) x = Some ip" "owns ip (I \<union> taken x - taken x)"
    using give_back_ok [OF assms(1), of x] by auto
  obtain tp where tp: "give_back (tree_node_pool s) y = Some tp" "owns tp (N \<union> taken y \<union> taken z - taken y)"
    using give_back_ok [OF assms(2), of y] by auto
  moreover have "taken z \<subseteq> N \<union> taken y \<union> taken z - taken y" using assms(5) by auto
  ultimately obtain tp' where tp': "give_back tp z = Some tp'" "owns tp' (N \<union> taken y \<union> taken z - taken y - taken z)"
    using give_back_ok by metis
  have "I \<union> taken x - taken x = I" "N \<union> taken y \<union> taken z - taken y - taken z = N" using assms(3-5) by auto
  then have "owns ip I" "owns tp' N" using ip(2) tp'(2) by simp_all
  moreover have "drop_blocks s x y z = Some (None, s\<lparr>interfaces_pool := ip, tree_node_pool := tp'\<rparr>)"
    by (simp add: drop_blocks_def ip(1) tp(1) tp'(1))
  ultimately show ?thesis by blast
qed

lemma name_key_short: "length (ni_name (tn_ni n)) \<le> NETIF_NAME_LEN \<Longrightarrow> name_key n = ni_name (tn_ni n)"
  by (simp add: name_key_def)

lemma name_keys: "trees_ok s \<Longrightarrow> name_key ` set (inorder (interface_tree s)) = ni_name ` interfaces s"
  by (force simp: trees_ok_def interfaces_def name_key_short)

text \<open>The trees do not depend on the pools.\<close>

lemma pools_only [simp]:
  "interfaces (s\<lparr>interfaces_pool := ip, tree_node_pool := tp\<rparr>) = interfaces s"
  "trees_ok (s\<lparr>interfaces_pool := ip, tree_node_pool := tp\<rparr>) = trees_ok s"
  "interface_blocks (s\<lparr>interfaces_pool := ip, tree_node_pool := tp\<rparr>) = interface_blocks s"
  "node_blocks (s\<lparr>interfaces_pool := ip, tree_node_pool := tp\<rparr>) = node_blocks s"
  by (simp_all add: interfaces_def trees_ok_def interface_blocks_def node_blocks_def)


section \<open>Linking an interface\<close>

lemma counter_next:
  assumes "0 \<le> sint c" "sint c < 2 ^ 31 - 1"
  shows "sint (c + 1 :: u32) = sint c + 1"
proof -
  have "sint (c + 1) = signed_take_bit 31 (sint c + 1)" by (simp add: sint_word_ariths)
  then show ?thesis using assms by (simp add: signed_take_bit_int_eq_self)
qed

text \<open>The interface that \<open>net_interface_create\<close> fills in.\<close>

definition new_interface :: "net_state \<Rightarrow> net_driver \<Rightarrow> u32 \<Rightarrow> u32 \<Rightarrow> net_interface" where
  "new_interface s inst unitno temp = (zero_interface temp)\<lparr>ni_unit := unitno, ni_drv := Some inst, ni_mtu := nd_mtu inst,
     ni_ifindex := ifindex_counter s, ni_name := first_name inst\<rparr>"

lemma new_interface_sel [simp]:
  "ni_name (new_interface s d u t) = first_name d" "ni_addr (new_interface s d u t) = t"
  "ni_ifindex (new_interface s d u t) = ifindex_counter s" "ni_unit (new_interface s d u t) = u"
  "ni_drv (new_interface s d u t) = Some d" "ni_mtu (new_interface s d u t) = nd_mtu d"
  by (simp_all add: new_interface_def zero_interface_def)

lemma first_name_key [simp]: "name_key \<lparr>tn_addr = n, tn_ni = new_interface s d u t\<rparr> = first_name d"
  by (simp add: name_key_def first_name_def min_def)

lemma first_name_length: "length (first_name d) \<le> NETIF_NAME_LEN"
  by (simp add: first_name_def)

lemma insert_name:
  fixes d :: net_driver and a u t :: u32
  assumes "trees_ok s"
  defines "n \<equiv> \<lparr>tn_addr = a, tn_ni = new_interface s d u t\<rparr>"
  shows "\<exists>tr. rbtree_insert (Some (interface_tree s)) (Some (n, f)) (Some cmpfn) =
      Some (if first_name d \<in> ni_name ` interfaces s then None else Some n, Some tr) \<and>
    inorder tr = by_name.inserted n (inorder (interface_tree s))"
  using by_name.rbtree_insert_order [of "interface_tree s" n f] assms name_keys [OF assms(1)]
  by (simp add: trees_ok_def)

lemma insert_index:
  fixes d :: net_driver and a u t :: u32
  assumes "trees_ok s"
  defines "n \<equiv> \<lparr>tn_addr = a, tn_ni = new_interface s d u t\<rparr>"
  shows "\<exists>tr. rbtree_insert (Some (interface_tree_if s)) (Some (n, f)) (Some cmpfnif) = Some (Some n, Some tr) \<and>
    inorder tr = inorder (interface_tree_if s) @ [n]"
proof -
  have k: "index_key n = sint (ifindex_counter s)" by (simp add: n_def index_key_def)
  have low: "\<forall>m \<in> set (inorder (interface_tree_if s)). index_key m < index_key n" "0 \<le> index_key n"
    using assms(1) k by (auto simp: trees_ok_def)
  have "cmpfnif m n = index_cmp m n" if "m \<in> set (inorder (interface_tree_if s))" for m
    using that assms(1) low(2) by (intro cmpfnif_index) (auto simp: trees_ok_def)
  then have eq: "rbtree_insert (Some (interface_tree_if s)) (Some (n, f)) (Some cmpfnif) =
      rbtree_insert (Some (interface_tree_if s)) (Some (n, f)) (Some index_cmp)" by (rule rbtree_insert_cong)
  have "index_key n \<notin> index_key ` set (inorder (interface_tree_if s))" using low by auto
  moreover from this have "by_index.inserted n (inorder (interface_tree_if s)) = inorder (interface_tree_if s) @ [n]"
    using by_index.filter_below [OF low(1)] by (simp add: by_index.inserted_def)
  ultimately show ?thesis using by_index.rbtree_insert_order [of "interface_tree_if s" n f] assms(1)
    unfolding eq by (simp add: trees_ok_def)
qed

lemma link_refused:
  assumes "trees_ok s" "sint (ifindex_counter s) < 2 ^ 31 - 1" "first_name d \<in> ni_name ` interfaces s"
    and "owns (interfaces_pool s) (interface_blocks s \<union> {unat t})" "owns (tree_node_pool s) (node_blocks s \<union> {unat n} \<union> {unat n2})"
    and "unat t \<notin> interface_blocks s" "unat n \<notin> node_blocks s" "unat n2 \<notin> node_blocks s \<union> {unat n}"
  shows "\<exists>s'. link_interface s d u t n n2 = Some (None, s') \<and> net_ok s' \<and> interfaces s' = interfaces s"
proof -
  define node where "node = \<lparr>tn_addr = n, tn_ni = new_interface s d u t\<rparr>"
  obtain tr where tr: "rbtree_insert (Some (interface_tree s)) (Some (node, 0)) (Some cmpfn) = Some (None, Some tr)"
      "inorder tr = by_name.inserted node (inorder (interface_tree s))"
    using insert_name [OF assms(1), of n d u t 0] assms(3) by (auto simp: node_def)
  have "name_key node \<in> name_key ` set (inorder (interface_tree s))"
    using assms(3) unfolding name_keys [OF assms(1)] node_def first_name_key .
  then have same: "inorder tr = inorder (interface_tree s)" by (simp add: tr(2) by_name.inserted_def)
  define s1 where "s1 = s\<lparr>ifindex_counter := ifindex_counter s + 1, interface_tree := tr\<rparr>"
  have "link_interface s d u t n n2 = drop_blocks s1 (Some t) (Some n) (Some n2)"
    using tr(1) by (simp add: link_interface_def Let_def s1_def node_def new_interface_def)
  moreover obtain ip tp where ip: "drop_blocks s1 (Some t) (Some n) (Some n2) = Some (None, s1\<lparr>interfaces_pool := ip, tree_node_pool := tp\<rparr>)"
      "owns ip (interface_blocks s)" "owns tp (node_blocks s)"
    using drop_blocks_ok [of s1 "interface_blocks s" "Some t" "node_blocks s" "Some n" "Some n2"] assms(4-8)
    by (auto simp: taken_def s1_def)
  moreover have "trees_ok (s1\<lparr>interfaces_pool := ip, tree_node_pool := tp\<rparr>)"
    using assms(1,2) counter_next [of "ifindex_counter s"] by (auto simp: trees_ok_def s1_def interfaces_def same)
  ultimately show ?thesis
    by (simp add: net_ok_def interfaces_def node_blocks_def interface_blocks_def s1_def same)
qed

lemma link_done:
  assumes "trees_ok s" "sint (ifindex_counter s) < 2 ^ 31 - 1" "first_name d \<notin> ni_name ` interfaces s"
    and "owns (interfaces_pool s) (interface_blocks s \<union> {unat t})" "owns (tree_node_pool s) (node_blocks s \<union> {unat n} \<union> {unat n2})"
  shows "\<exists>s'. link_interface s d u t n n2 = Some (Some (new_interface s d u t), s') \<and> net_ok s' \<and>
    interfaces s' = insert (new_interface s d u t) (interfaces s) \<and> ifindex_counter s' = ifindex_counter s + 1"
proof -
  define ni where "ni = new_interface s d u t"
  define node where "node = \<lparr>tn_addr = n, tn_ni = ni\<rparr>"
  define node2 where "node2 = \<lparr>tn_addr = n2, tn_ni = ni\<rparr>"
  obtain tr where tr: "rbtree_insert (Some (interface_tree s)) (Some (node, 0)) (Some cmpfn) = Some (Some node, Some tr)"
      "inorder tr = by_name.inserted node (inorder (interface_tree s))"
    using insert_name [OF assms(1), of n d u t 0] assms(3) by (auto simp: node_def ni_def)
  obtain tr2 where tr2: "rbtree_insert (Some (interface_tree_if s)) (Some (node2, 0)) (Some cmpfnif) = Some (Some node2, Some tr2)"
      "inorder tr2 = inorder (interface_tree_if s) @ [node2]"
    using insert_index [OF assms(1), of n2 d u t 0] by (auto simp: node2_def ni_def)
  define s' where "s' = s\<lparr>ifindex_counter := ifindex_counter s + 1, interface_tree := tr, interface_tree_if := tr2\<rparr>"
  have "link_interface s d u t n n2 = Some (Some ni, s')"
    using tr(1) tr2(1) by (simp add: link_interface_def Let_def s'_def node_def node2_def ni_def new_interface_def)
  moreover have new: "name_key node \<notin> name_key ` set (inorder (interface_tree s))"
    using assms(3) unfolding name_keys [OF assms(1)] node_def ni_def first_name_key .
  have set: "set (inorder tr) = insert node (set (inorder (interface_tree s)))"
    using by_name.set_inserted [OF new] by (simp add: tr(2))
  then have ints: "interfaces s' = insert ni (interfaces s)" by (simp add: interfaces_def s'_def node_def)
  have "trees_ok s'"
    using assms(1) counter_next [OF _ assms(2)] by_name.ordered_inserted [of "inorder (interface_tree s)" node] ints first_name_length [of d]
    by (auto simp: trees_ok_def s'_def tr(2) tr2(2) sorted_wrt_append node2_def index_key_def ni_def)
  moreover have "interface_blocks s' = interface_blocks s \<union> {unat t}" by (simp add: interface_blocks_def ints ni_def)
  moreover have "node_blocks s' = node_blocks s \<union> {unat n} \<union> {unat n2}"
    using set tr2(2) by (auto simp: node_blocks_def s'_def node_def node2_def)
  ultimately show ?thesis using assms(4,5) ints by (simp add: net_ok_def s'_def ni_def)
qed


section \<open>Creation\<close>

definition net_fresh :: "alloc \<Rightarrow> alloc \<Rightarrow> alloc \<Rightarrow> net_state \<Rightarrow> bool" where
  "net_fresh a1 a2 a3 s \<longleftrightarrow> grows a1 (interfaces_pool s) \<and> grows a2 (tree_node_pool s) \<and>
     (\<forall>r tp. chunks_pool_malloc a2 (tree_node_pool s) = Some (r, tp) \<longrightarrow> grows a3 tp)"

lemma create_blocks:
  assumes "net_ok s" "net_fresh a1 a2 a3 s"
  shows "\<exists>t n n2 z1 z2 z3 ip tp tp'. chunks_pool_zalloc a1 (interfaces_pool s) = Some (t, z1, ip) \<and>
    chunks_pool_zalloc a2 (tree_node_pool s) = Some (n, z2, tp) \<and> chunks_pool_zalloc a3 tp = Some (n2, z3, tp') \<and>
    owns ip (interface_blocks s \<union> taken t) \<and> interface_blocks s \<inter> taken t = {} \<and>
    owns tp' (node_blocks s \<union> taken n \<union> taken n2) \<and> node_blocks s \<inter> taken n = {} \<and> (node_blocks s \<union> taken n) \<inter> taken n2 = {}"
proof -
  obtain t z1 ip where t: "chunks_pool_zalloc a1 (interfaces_pool s) = Some (t, z1, ip)" "owns ip (interface_blocks s \<union> taken t)"
      "interface_blocks s \<inter> taken t = {}" using zalloc_ok assms by (metis net_ok_def net_fresh_def)
  obtain n z2 tp where n: "chunks_pool_zalloc a2 (tree_node_pool s) = Some (n, z2, tp)" "owns tp (node_blocks s \<union> taken n)"
      "node_blocks s \<inter> taken n = {}" "chunks_pool_malloc a2 (tree_node_pool s) = Some (n, tp)"
    using zalloc_ok assms by (metis net_ok_def net_fresh_def)
  obtain n2 z3 tp' where "chunks_pool_zalloc a3 tp = Some (n2, z3, tp')" "owns tp' (node_blocks s \<union> taken n \<union> taken n2)"
      "(node_blocks s \<union> taken n) \<inter> taken n2 = {}" using zalloc_ok [OF n(2)] n(4) assms(2) by (metis net_fresh_def)
  with t n show ?thesis by blast
qed

definition created :: "net_state \<Rightarrow> net_driver option \<Rightarrow> u32 \<Rightarrow> net_interface option \<Rightarrow> net_state \<Rightarrow> bool" where
  "created s inst unitno r s' \<longleftrightarrow> (case r of
       None \<Rightarrow> interfaces s' = interfaces s
     | Some ni \<Rightarrow> inst \<noteq> None \<and> ni_drv ni = inst \<and> ni_unit ni = unitno \<and> ni_name ni = first_name (the inst) \<and>
         ni_mtu ni = nd_mtu (the inst) \<and> ni_ifindex ni = ifindex_counter s \<and>
         ni_name ni \<notin> ni_name ` interfaces s \<and> interfaces s' = insert ni (interfaces s))"

lemma create_linked:
  assumes "net_ok s" "net_fresh a1 a2 a3 s" "sint (ifindex_counter s) < 2 ^ 31 - 1"
    and init: "case nd_init d of Some f \<Rightarrow> f u = 0 | None \<Rightarrow> True"
  shows "\<exists>r s'. net_interface_create a1 a2 a3 s (Some d) u = Some (r, s') \<and> net_ok s' \<and> created s (Some d) u r s'"
proof -
  obtain t n n2 z1 z2 z3 ip tp tp' where z: "chunks_pool_zalloc a1 (interfaces_pool s) = Some (t, z1, ip)"
    "chunks_pool_zalloc a2 (tree_node_pool s) = Some (n, z2, tp)" "chunks_pool_zalloc a3 tp = Some (n2, z3, tp')"
    and o: "owns ip (interface_blocks s \<union> taken t)" "owns tp' (node_blocks s \<union> taken n \<union> taken n2)"
    and f: "interface_blocks s \<inter> taken t = {}" "node_blocks s \<inter> taken n = {}" "(node_blocks s \<union> taken n) \<inter> taken n2 = {}"
    using create_blocks [OF assms(1,2)] by metis
  define s1 where "s1 = s\<lparr>interfaces_pool := ip, tree_node_pool := tp'\<rparr>"
  have ok: "trees_ok s1" "interfaces s1 = interfaces s" "interface_blocks s1 = interface_blocks s" "node_blocks s1 = node_blocks s"
      "ifindex_counter s1 = ifindex_counter s" "interfaces_pool s1 = ip" "tree_node_pool s1 = tp'"
    using assms(1) by (simp_all add: s1_def net_ok_def)
  have step: "net_interface_create a1 a2 a3 s (Some d) u = (case (t, n, n2) of
      (Some t, Some n, Some n2) \<Rightarrow> link_interface s1 d u t n n2 | _ \<Rightarrow> drop_blocks s1 t n n2)"
    using init z by (simp add: net_interface_create_def s1_def Let_def split: option.splits)
  show ?thesis
  proof (cases "t \<noteq> None \<and> n \<noteq> None \<and> n2 \<noteq> None")
    case True
    then obtain t' n' n2' where e: "t = Some t'" "n = Some n'" "n2 = Some n2'" by auto
    note link = link_done [of s1 d t' n' n2' u] link_refused [of s1 d t' n' n2' u]
    show ?thesis
    proof (cases "first_name d \<in> ni_name ` interfaces s")
      case True
      then show ?thesis using link(2) ok o f e step assms(3) by (auto simp: taken_def created_def)
    next
      case False
      then obtain s' where "link_interface s1 d u t' n' n2' = Some (Some (new_interface s1 d u t'), s')" "net_ok s'"
          "interfaces s' = insert (new_interface s1 d u t') (interfaces s1)"
        using link(1) ok o e assms(3) by (auto simp: taken_def)
      then show ?thesis using step e ok False by (simp add: created_def)
    qed
  next
    case False
    then have "net_interface_create a1 a2 a3 s (Some d) u = drop_blocks s1 t n n2" using step by (auto split: option.splits)
    moreover obtain ip' tq where "drop_blocks s1 t n n2 = Some (None, s1\<lparr>interfaces_pool := ip', tree_node_pool := tq\<rparr>)"
        "owns ip' (interface_blocks s)" "owns tq (node_blocks s)"
      using drop_blocks_ok [of s1 "interface_blocks s" t "node_blocks s" n n2] o f ok by auto
    moreover have "net_ok (s1\<lparr>interfaces_pool := ip', tree_node_pool := tq\<rparr>)" "interfaces (s1\<lparr>interfaces_pool := ip', tree_node_pool := tq\<rparr>) = interfaces s"
      using calculation(3,4) ok by (simp_all add: net_ok_def)
    ultimately show ?thesis by (simp add: created_def)
  qed
qed

section \<open>Looking up and walking\<close>

lemma lookup_name_ok:
  assumes "trees_ok s"
  shows "\<exists>r. net_interface_lookup_name s (Some nm) = Some r \<and> (case r of
      Some ni \<Rightarrow> ni \<in> interfaces s \<and> ni_name ni = nm | None \<Rightarrow> nm \<notin> ni_name ` interfaces s)"
proof -
  define x where "x = key_node ((zero_interface 0)\<lparr>ni_name := strncpy nm (NETIF_NAME_LEN + 1)\<rparr>)"
  have k: "name_key x = take (NETIF_NAME_LEN + 1) nm" by (simp add: x_def key_node_def name_key_def strncpy_def)
  have key: "name_key y = name_key x \<longleftrightarrow> ni_name (tn_ni y) = nm" if "y \<in> set (inorder (interface_tree s))" for y
  proof -
    have "length (ni_name (tn_ni y)) \<le> NETIF_NAME_LEN" using that assms by (auto simp: trees_ok_def interfaces_def)
    moreover have "take (NETIF_NAME_LEN + 1) nm = nm" if "length (take (NETIF_NAME_LEN + 1) nm) \<le> NETIF_NAME_LEN" using that by simp
    ultimately show ?thesis using name_key_short [of y] k by auto
  qed
  obtain n where n: "rbtree_search (interface_tree s) (Some x) (Some cmpfn) = Some n" "node_obj n = by_name.found x (inorder (interface_tree s))"
    using by_name.search_ok assms by (metis trees_ok_def)
  have "case ni_of n of Some ni \<Rightarrow> ni \<in> interfaces s \<and> ni_name ni = nm | None \<Rightarrow> nm \<notin> ni_name ` interfaces s"
    using key n(2) by (auto simp: ni_of_def by_name.found_def interfaces_def find_None_iff find_Some_iff split: option.splits)
  then show ?thesis using n(1) by (simp add: net_interface_lookup_name_def x_def)
qed


lemma next_of:
  assumes "trees_ok s" "inorder (interface_tree s) = xs @ n # ys" "name_key x = name_key n"
  shows "\<exists>m. rbtree_next (interface_tree s) (Some x) (Some cmpfn) = Some m \<and> node_obj m = (if ys = [] then None else Some (hd ys))"
proof -
  have ord: "by_name.ordered (xs @ n # ys)" using assms by (simp add: trees_ok_def)
  note p = by_name.ordered_parts [OF ord]
  have "by_name.beyond x (xs @ n # ys) = ys"
    using by_name.filter_below [of xs "name_key n"] by_name.filter_above [of ys "name_key n"] p assms(3) by (auto simp: by_name.beyond_def)
  moreover have "by_name.found x (xs @ n # ys) \<noteq> None" using assms(3) by (auto simp: by_name.found_def find_None_iff)
  ultimately show ?thesis using by_name.neighbours_ok(1) [of "interface_tree s" x] ord assms(2) by (auto simp: by_name.neighbour_def)
qed

lemma start_loop_ok:
  assumes "trees_ok s" "inorder (interface_tree s) = xs @ ys" "node_obj ptr = (if ys = [] then None else Some (hd ys))"
  shows "start_loop (interface_tree s) ptr = Some (map (\<lambda>n. (tn_ni n, start_fails (tn_ni n))) ys)"
  using assms(2,3)
proof (induction ys arbitrary: xs ptr)
  case Nil
  then show ?case by (simp add: start_loop.simps)
next
  case (Cons n ys)
  obtain m where m: "rbtree_next (interface_tree s) (Some n) (Some cmpfn) = Some m" "node_obj m = (if ys = [] then None else Some (hd ys))"
    using next_of [OF assms(1) Cons.prems(1) refl] by auto
  then have "start_loop (interface_tree s) m = Some (map (\<lambda>n. (tn_ni n, start_fails (tn_ni n))) ys)"
    using Cons.IH [of "xs @ [n]" m] Cons.prems(1) by simp
  then show ?case using Cons.prems(2) m(1) by (simp add: start_loop.simps [of _ ptr])
qed

lemma first_node: "node_obj (rbtree_first t) = (if inorder t = [] then None else Some (hd (inorder t)))"
  using walk_down_first [of t] by (cases "t = Leaf") (auto simp: rbtree_first_def)

section \<open>Properties\<close>

text \<open>Creating the pools of the registry. With blocks from \<open>malloc\<close> that fit in the address space
  \<open>init_net_interfaces_lib\<close> succeeds, and with empty trees the registry is then in a well-formed state
  without interfaces.
\<close>

theorem init_net_interfaces_lib_correct:
  assumes "interface_tree s = Leaf" "interface_tree_if s = Leaf" "ifindex_counter s = 0" "0 < unat b1" "0 < unat b2"
    and "unat b1 + 1088 < 2 ^ 32" "unat b2 + 576 < 2 ^ 32"
  shows "\<exists>s'. init_net_interfaces_lib (Some h1, blocks_at b1) (Some h2, blocks_at b2) s = (True, s') \<and> net_ok s' \<and> interfaces s' = {}"
proof -
  have m: "MULT 16 64 = 64" "MULT 60 64 = 64" by (simp_all add: MULT_def)
  obtain tp where tp: "chunks_pool_create (Some h1) (blocks_at b1) (Some ''Intf tree'') 64 16 16 16 = Some tp" "pool_ok tp" "chunks_used tp = {}" "cp_aln tp = 64"
    using create_ok [of 16 16 "Some h1" h1 "blocks_at b1" b1 64 64 "Some ''Intf tree''" 16] assms(4,6) by (auto simp: blocks_at_def m)
  obtain ip where ip: "chunks_pool_create (Some h2) (blocks_at b2) (Some ''Intf'') 64 60 8 8 = Some ip" "pool_ok ip" "chunks_used ip = {}" "cp_aln ip = 64"
    using create_ok [of 60 8 "Some h2" h2 "blocks_at b2" b2 64 64 "Some ''Intf''" 8] assms(5,7) by (auto simp: blocks_at_def m)
  show ?thesis using tp ip assms(1-3)
    by (simp add: init_net_interfaces_lib_def CACHE_ALN_def net_ok_def trees_ok_def interfaces_def owns_def node_blocks_def interface_blocks_def)
qed

definition empty_registry :: net_state where
  "empty_registry = \<lparr>interface_tree = Leaf, interface_tree_if = Leaf, tree_node_pool = None, interfaces_pool = None, ifindex_counter = 0\<rparr>"

theorem init_net_interfaces_lib_correct_witness:
  "\<exists>s'. init_net_interfaces_lib (Some 1, blocks_at 4096) (Some 2, blocks_at 8192) empty_registry = (True, s') \<and> net_ok s' \<and> interfaces s' = {}"
  using init_net_interfaces_lib_correct [of empty_registry 4096 8192 1 2] by (simp add: empty_registry_def)

text \<open>C31: registering an interface. In a well-formed registry \<open>net_interface_create\<close> never faults and keeps
  the registry well formed: it either returns NULL with the same interfaces and every block given back, or
  a new interface of the driver with the next index and a name no other interface has. As the name always
  ends in 0, a driver that has an interface is refused a second one. Of \<open>malloc\<close> it relies on that a block it returns for a
  pool is inside the address space, apart from the arrays of the pool and of a size that does not wrap; the counter of the indexes is below its largest value.
\<close>

theorem net_interface_create_correct:
  assumes "net_ok s" "net_fresh a1 a2 a3 s" "sint (ifindex_counter s) < 2 ^ 31 - 1"
  shows "\<exists>r s'. net_interface_create a1 a2 a3 s inst unitno = Some (r, s') \<and> net_ok s' \<and> created s inst unitno r s' \<and>
    (first_name (the inst) \<in> ni_name ` interfaces s \<longrightarrow> r = None)"
proof -
  obtain r s' where r: "net_interface_create a1 a2 a3 s inst unitno = Some (r, s')" "net_ok s'" "created s inst unitno r s'"
  proof (cases "inst = None \<or> (\<exists>f. nd_init (the inst) = Some f \<and> f unitno \<noteq> 0)")
    case True
    then have "net_interface_create a1 a2 a3 s inst unitno = Some (None, s)" by (cases inst) (auto simp: net_interface_create_def)
    then show ?thesis using that assms(1) by (simp add: created_def)
  next
    case False
    then obtain d where d: "inst = Some d" "case nd_init d of Some f \<Rightarrow> f unitno = 0 | None \<Rightarrow> True"
      by (auto split: option.splits)
    show ?thesis using that create_linked [OF assms d(2)] unfolding d(1) by blast
  qed
  then show ?thesis by (intro exI [of _ r] exI [of _ s']) (auto simp: created_def split: option.splits)
qed

text \<open>Finding an interface by its name. In a well-formed registry the look-up returns the one interface
  with the given name and NULL exactly when there is none.\<close>

theorem net_interface_lookup_name_correct:
  assumes "net_ok s"
  shows "\<exists>r. net_interface_lookup_name s (Some nm) = Some r \<and> (case r of
      Some ni \<Rightarrow> ni \<in> interfaces s \<and> ni_name ni = nm | None \<Rightarrow> nm \<notin> ni_name ` interfaces s)"
  using assms lookup_name_ok by (simp add: net_ok_def)

text \<open>Starting the interfaces. The loop over the tree ends, visits every interface exactly once in the order of
  the names and starts its driver; \<open>net_interface_first\<close> is the first of them.
\<close>

theorem start_net_interfaces_lib_correct:
  assumes "net_ok s" "ns = map tn_ni (inorder (interface_tree s))"
  shows "start_net_interfaces_lib s = Some (map (\<lambda>ni. (ni, start_fails ni)) ns) \<and> set ns = interfaces s \<and>
    sorted_wrt (\<lambda>a b. ni_name a < ni_name b) ns \<and> net_interface_first s = (if ns = [] then None else Some (hd ns))"
proof -
  have t: "trees_ok s" using assms(1) by (simp add: net_ok_def)
  have "start_net_interfaces_lib s = Some (map (\<lambda>n. (tn_ni n, start_fails (tn_ni n))) (inorder (interface_tree s)))"
    unfolding start_net_interfaces_lib_def by (rule start_loop_ok [OF t, of "[]"]) (auto simp: first_node)
  moreover have "\<forall>n \<in> set (inorder (interface_tree s)). name_key n = ni_name (tn_ni n)"
    using t by (auto simp: trees_ok_def interfaces_def name_key_short)
  then have "sorted_wrt (\<lambda>a b. ni_name (tn_ni a) < ni_name (tn_ni b)) (inorder (interface_tree s))"
    using t sorted_wrt_mono_rel [of "inorder (interface_tree s)" "\<lambda>a b. name_key a < name_key b"] by (auto simp: trees_ok_def)
  ultimately show ?thesis using assms(2)
    by (auto simp: sorted_wrt_map interfaces_def net_interface_first_def ni_of_def first_node hd_map)
qed


text \<open>A registry with two interfaces, registered in the order \<open>eth\<close>, \<open>atm\<close>.\<close>

definition sample_driver :: "string \<Rightarrow> net_driver" where
  "sample_driver nm = \<lparr>nd_init = None, nd_start = (\<lambda>u. 0), nd_mtu = 1500, nd_ifname = nm\<rparr>"

definition no_blocks :: alloc where
  "no_blocks = \<lparr>al_header = False, al_buffer = None, al_bits = False\<rparr>"

text \<open>The two pools after \<open>k\<close> allocations.\<close>

definition npool :: "nat \<Rightarrow> chunks_pool" where
  "npool k = \<lparr>cp_aln = 64, cp_size = 64, cp_delta = 16, cp_pools = [\<lparr>pa_buffer = 4096, pa_bufstart = 4096,
     pa_numitems = 16, pa_free = 16 - of_nat k, pa_bitmap = [mask k]\<rparr>], cp_name = ''Intf tree''\<rparr>"

definition ipool :: "nat \<Rightarrow> chunks_pool" where
  "ipool k = \<lparr>cp_aln = 64, cp_size = 64, cp_delta = 8, cp_pools = [\<lparr>pa_buffer = 8192, pa_bufstart = 8192,
     pa_numitems = 8, pa_free = 8 - of_nat k, pa_bitmap = [mask k]\<rparr>], cp_name = ''Intf''\<rparr>"

lemma npool_alloc [simp]:
  "chunks_pool_zalloc no_blocks (Some (npool 0)) = Some (Some 4096, Some (4096, 64), Some (npool 1))"
  "chunks_pool_zalloc no_blocks (Some (npool 1)) = Some (Some 4160, Some (4160, 64), Some (npool 2))"
  "chunks_pool_zalloc no_blocks (Some (npool 2)) = Some (Some 4224, Some (4224, 64), Some (npool 3))"
  "chunks_pool_zalloc no_blocks (Some (npool 3)) = Some (Some 4288, Some (4288, 64), Some (npool 4))"
  by code_simp+

lemma ipool_alloc [simp]:
  "chunks_pool_zalloc no_blocks (Some (ipool 0)) = Some (Some 8192, Some (8192, 64), Some (ipool 1))"
  "chunks_pool_zalloc no_blocks (Some (ipool 1)) = Some (Some 8256, Some (8256, 64), Some (ipool 2))"
  by code_simp+

definition registry0 :: net_state where
  "registry0 = snd (init_net_interfaces_lib (Some 1, blocks_at 4096) (Some 2, blocks_at 8192) empty_registry)"

definition sample_ni :: "u32 \<Rightarrow> u32 \<Rightarrow> string \<Rightarrow> net_interface" where
  "sample_ni a i nm = (zero_interface a)\<lparr>ni_unit := 0, ni_drv := Some (sample_driver nm), ni_mtu := 1500, ni_ifindex := i, ni_name := nm @ ''0''\<rparr>"

definition registry1 :: net_state where
  "registry1 = registry0\<lparr>interface_tree := Node Leaf \<lparr>tn_addr = 4096, tn_ni = sample_ni 8192 0 ''eth''\<rparr> 2 Leaf,
     interface_tree_if := Node Leaf \<lparr>tn_addr = 4160, tn_ni = sample_ni 8192 0 ''eth''\<rparr> 2 Leaf,
     tree_node_pool := Some (npool 2), interfaces_pool := Some (ipool 1), ifindex_counter := 1\<rparr>"

definition registry2 :: net_state where
  "registry2 = registry0\<lparr>interface_tree :=
       Node (Node Leaf \<lparr>tn_addr = 4224, tn_ni = sample_ni 8256 1 ''atm''\<rparr> 1 Leaf) \<lparr>tn_addr = 4096, tn_ni = sample_ni 8192 0 ''eth''\<rparr> 2 Leaf,
     interface_tree_if :=
       Node Leaf \<lparr>tn_addr = 4160, tn_ni = sample_ni 8192 0 ''eth''\<rparr> 2 (Node Leaf \<lparr>tn_addr = 4288, tn_ni = sample_ni 8256 1 ''atm''\<rparr> 1 Leaf),
     tree_node_pool := Some (npool 4), interfaces_pool := Some (ipool 2), ifindex_counter := 2\<rparr>"

lemma registry0_eq:
  "registry0 = \<lparr>interface_tree = Leaf, interface_tree_if = Leaf, tree_node_pool = Some (npool 0),
     interfaces_pool = Some (ipool 0), ifindex_counter = 0\<rparr>"
  by (simp add: registry0_def init_net_interfaces_lib_def chunks_pool_create_def create_pool_def blocks_at_def MULT_def
      BITMAPLEN_def BINL_def CACHE_ALN_def empty_registry_def npool_def ipool_def Let_def)

lemma sample_names:
  "cmpfn \<lparr>tn_addr = a, tn_ni = sample_ni b i ''eth''\<rparr> \<lparr>tn_addr = c, tn_ni = sample_ni d j ''atm''\<rparr> = KEY_GREATER"
  "cmpfnif \<lparr>tn_addr = a, tn_ni = sample_ni b 0 ''eth''\<rparr> \<lparr>tn_addr = c, tn_ni = sample_ni d 1 ''atm''\<rparr> = KEY_LOWER"
  by (simp_all add: cmpfn_def strncmp_def sample_ni_def NETIF_NAME_LEN_def eval_nat_numeral cmpfnif_def)

lemma sample_fill:
  "(zero_interface a)\<lparr>ni_unit := 0, ni_drv := Some (sample_driver nm), ni_mtu := nd_mtu (sample_driver nm), ni_ifindex := i,
     ni_name := first_name (sample_driver nm)\<rparr> = sample_ni a i (take 4 nm)" if "length nm = 3" for nm
  using that by (simp add: sample_ni_def sample_driver_def first_name_def NETIF_NAME_LEN_def)

lemma registry_steps:
  "net_interface_create no_blocks no_blocks no_blocks registry0 (Some (sample_driver ''eth'')) 0 = Some (Some (sample_ni 8192 0 ''eth''), registry1)"
  "net_interface_create no_blocks no_blocks no_blocks registry1 (Some (sample_driver ''atm'')) 0 = Some (Some (sample_ni 8256 1 ''atm''), registry2)"
  by (simp_all add: net_interface_create_def registry0_eq registry1_def registry2_def link_interface_def Let_def sample_fill
      rbtree_insert_def sample_driver_def [THEN arg_cong [of _ _ nd_init]] NODE_IS_RED_def NODE_IS_ROOT_def sample_names insert_balance_cases
      key_defs red_iff del: One_nat_def by_name.cmp_cases by_index.cmp_cases)


lemma registry_ok: "net_ok registry0" "net_ok registry1" "net_ok registry2"
proof -
  have fresh: "net_fresh no_blocks no_blocks no_blocks s" for s by (simp add: net_fresh_def grows_def no_blocks_def)
  have init: "case nd_init (sample_driver nm) of Some f \<Rightarrow> f 0 = 0 | None \<Rightarrow> True" for nm by (simp add: sample_driver_def)
  have pools: "owns (Some (npool 0)) {}" "owns (Some (ipool 0)) {}"
    using create_ok [of 16 16 "Some 1" 1 "blocks_at 4096" 4096 64 64 "Some ''Intf tree''" 16]
      create_ok [of 60 8 "Some 1" 1 "blocks_at 8192" 8192 64 64 "Some ''Intf''" 8]
    by (auto simp: chunks_pool_create_def create_pool_def blocks_at_def MULT_def BITMAPLEN_def BINL_def owns_def npool_def ipool_def)
  show 0: "net_ok registry0"
    using pools by (simp add: net_ok_def registry0_eq trees_ok_def interfaces_def node_blocks_def interface_blocks_def)
  show 1: "net_ok registry1" using create_linked [OF 0 fresh _ init, of "''eth''"] registry_steps(1) by (simp add: registry0_eq)
  show "net_ok registry2" using create_linked [OF 1 fresh _ init, of "''atm''"] registry_steps(2) by (simp add: registry1_def)
qed

lemma registry_interfaces: "interfaces registry1 = {sample_ni 8192 0 ''eth''}"
  "interfaces registry2 = {sample_ni 8192 0 ''eth'', sample_ni 8256 1 ''atm''}"
  by (auto simp: interfaces_def registry1_def registry2_def)

lemma sample_ni_names: "ni_name (sample_ni a i nm) = nm @ ''0''"
  by (simp add: sample_ni_def)

theorem net_interface_create_correct_witness:
  "\<exists>r s'. net_interface_create no_blocks no_blocks no_blocks registry1 (Some (sample_driver ''eth'')) 1 = Some (r, s') \<and> net_ok s' \<and> r = None"
proof -
  have "net_fresh no_blocks no_blocks no_blocks registry1" by (simp add: net_fresh_def grows_def no_blocks_def)
  moreover have "first_name (sample_driver ''eth'') \<in> ni_name ` interfaces registry1"
    by (simp add: registry_interfaces sample_ni_def first_name_def sample_driver_def NETIF_NAME_LEN_def)
  ultimately show ?thesis
    using net_interface_create_correct [OF registry_ok(2), of no_blocks no_blocks no_blocks "Some (sample_driver ''eth'')" 1]
    by (auto simp: registry1_def)
qed

theorem net_interface_lookup_name_correct_witness:
  "\<exists>r. net_interface_lookup_name registry2 (Some ''atm0'') = Some r \<and> r = Some (sample_ni 8256 1 ''atm'')"
proof -
  have n: "ni_name (sample_ni 8192 0 ''eth'') \<noteq> ''atm0''" "ni_name (sample_ni 8256 1 ''atm'') = ''atm0''"
    unfolding sample_ni_names by simp_all
  obtain r where "net_interface_lookup_name registry2 (Some ''atm0'') = Some r"
      "case r of Some ni \<Rightarrow> ni \<in> interfaces registry2 \<and> ni_name ni = ''atm0'' | None \<Rightarrow> ''atm0'' \<notin> ni_name ` interfaces registry2"
    using net_interface_lookup_name_correct [OF registry_ok(3)] by blast
  then show ?thesis using n unfolding registry_interfaces(2) by (cases r) auto
qed

theorem start_net_interfaces_lib_correct_witness:
  "start_net_interfaces_lib registry2 = Some [(sample_ni 8256 1 ''atm'', False), (sample_ni 8192 0 ''eth'', False)]"
  using start_net_interfaces_lib_correct [OF registry_ok(3) refl]
  by (simp add: registry2_def) (simp add: start_fails_def sample_ni_def sample_driver_def)

text \<open>Finding an interface by its index fails. \<open>net_interface_lookup_index\<close> compares indexes while it
  descends the tree that is sorted by name: in a well-formed registry with two interfaces the second one
  is registered, in the tree sorted by index as well, and the look-up of its index returns NULL.
\<close>

theorem lookup_index_misses_an_interface:
  "net_ok registry2 \<and> sample_ni 8256 1 ''atm'' \<in> interfaces registry2 \<and>
   ni_ifindex (sample_ni 8256 1 ''atm'') = 1 \<and> net_interface_lookup_index registry2 1 = Some None"
  using registry_ok(3) registry_interfaces(2)
  by (simp add: sample_ni_def net_interface_lookup_index_def registry2_def rbtree_search_def key_node_def cmpfnif_def key_defs ni_of_def zero_interface_def)



end
