(* ===== verification/Devices.thy ===== *)
theory Devices
  imports DList CStrings
begin

text \<open>
  The registry of devices, \<^verbatim>\<open>src/kernel/devices.c\<close>: a doubly linked list of devices, sorted by name, at
  pointer level. The functions of a driver are arguments: a driver is the record of what they return. What
  \<open>calloc\<close> returns for a new device is an argument; messages are not modelled.
\<close>

unbundle bit_operations_syntax

section \<open>Data\<close>

definition DEV_NAME_LEN :: nat where "DEV_NAME_LEN = 7"

definition DEV_TYPE_CHAR :: u32 where "DEV_TYPE_CHAR = 0"
definition DEV_TYPE_BLOCK :: u32 where "DEV_TYPE_BLOCK = 1"
definition DEV_TYPE_GFX_UI :: u32 where "DEV_TYPE_GFX_UI = 2"
definition DEV_TYPE_TXT_UI :: u32 where "DEV_TYPE_TXT_UI = 3"

definition DRV_IS_CHAR :: u32 where "DRV_IS_CHAR = push_bit 16 1"
definition DRV_IS_BLOCK :: u32 where "DRV_IS_BLOCK = push_bit 17 1"
definition DRV_IS_NET :: u32 where "DRV_IS_NET = push_bit 18 1"
definition DRV_IS_TXT_UI :: u32 where "DRV_IS_TXT_UI = push_bit 19 1"
definition DRV_IS_GFX_UI :: u32 where "DRV_IS_GFX_UI = push_bit 20 1"

text \<open>A read function returns its code and what it stores in the buffer.\<close>

record driver =
  dr_name :: string
  dr_init :: "u32 \<Rightarrow> int"
  dr_start :: "u32 \<Rightarrow> int"
  dr_status :: "u32 \<Rightarrow> u32"
  dr_poll :: "(u32 \<Rightarrow> u16) option"
  dr_write :: "u8 list \<Rightarrow> u32 \<Rightarrow> u32 \<Rightarrow> int"
  dr_read :: "u32 \<Rightarrow> u32 \<Rightarrow> int \<times> u8 list"

record device =
  dv_name :: string
  dv_unitno :: u32
  dv_type :: u32
  dv_write_fn :: "(u8 list \<Rightarrow> u32 \<Rightarrow> driver \<Rightarrow> u32 \<Rightarrow> int) option"
  dv_read_fn :: "(u32 \<Rightarrow> driver \<Rightarrow> u32 \<Rightarrow> int \<times> u8 list) option"
  dv_drv :: "driver option"

text \<open>The list has one instance, \<open>device_list\<close>; \<open>devs\<close> gives the device of a list node.\<close>

record dev_state =
  dev_mem :: "(unit, nat) lmem"
  devs :: "nat \<Rightarrow> device"

section \<open>The sorted list\<close>

partial_function (option) lookup_loop :: "dev_state \<Rightarrow> string \<Rightarrow> nat option \<Rightarrow> nat option option" where
  "lookup_loop s name nn =
     (case nn of
        None \<Rightarrow> Some None
      | Some n \<Rightarrow>
         (let retval = strncmp (Some (dv_name (devs s n))) (Some name) (DEV_NAME_LEN + 1) in
          if retval < 0 then lookup_loop s name (lnext (dev_mem s) n)
          else if retval = 0 then Some (Some n) else Some None))"

definition lookup_name :: "dev_state \<Rightarrow> string \<Rightarrow> nat option option" where
  "lookup_name s name = lookup_loop s name (list_head (Some ()) (dev_mem s))"

partial_function (option) insert_loop :: "dev_state \<Rightarrow> nat \<Rightarrow> nat option \<Rightarrow> (status \<times> (unit, nat) lmem) option" where
  "insert_loop s dev prev =
     (case prev of
        None \<Rightarrow> list_append (Some ()) (Some dev) (dev_mem s)
      | Some p \<Rightarrow>
         if strncmp (Some (dv_name (devs s p))) (Some (dv_name (devs s dev))) (DEV_NAME_LEN + 1) < 0
         then insert_loop s dev (lnext (dev_mem s) p)
         else list_add (Some ()) (lprev (dev_mem s) p) (Some dev) (dev_mem s))"

definition insert_device :: "dev_state \<Rightarrow> nat \<Rightarrow> (status \<times> dev_state) option" where
  "insert_device s dev =
     do { (st, m) \<leftarrow> insert_loop s dev (list_head (Some ()) (dev_mem s)); Some (st, s\<lparr>dev_mem := m\<rparr>) }"

text \<open>What is reported of a device at the start.\<close>

datatype started = Started | Failed | Not_supported | Second_UI | Unknown_type

definition start_device :: "device \<Rightarrow> bool \<Rightarrow> (started \<times> bool) option" where
  "start_device dv ui =
     (if dv_type dv = DEV_TYPE_CHAR then
        do { d \<leftarrow> dv_drv dv; Some (if dr_start d (dv_unitno dv) \<noteq> 0 then Failed else Started, ui) }
      else if dv_type dv = DEV_TYPE_BLOCK then Some (Not_supported, ui)
      else if dv_type dv = DEV_TYPE_TXT_UI \<or> dv_type dv = DEV_TYPE_GFX_UI then
        (if ui then Some (Second_UI, ui)
         else do { d \<leftarrow> dv_drv dv; Some (if dr_start d (dv_unitno dv) \<noteq> 0 then (Failed, False) else (Started, True)) })
      else Some (Unknown_type, ui))"

text \<open>The loop of \<open>start_devices_lib\<close>: the reports in order and the counter of started devices.\<close>

partial_function (option) start_dev_loop ::
  "dev_state \<Rightarrow> nat option \<Rightarrow> bool \<Rightarrow> u32 \<Rightarrow> ((nat \<times> started) list \<times> u32) option" where
  "start_dev_loop s ptr ui counter =
     (case ptr of
        None \<Rightarrow> Some ([], counter)
      | Some p \<Rightarrow>
         do { (r, ui') \<leftarrow> start_device (devs s p) ui;
              (rs, c) \<leftarrow> start_dev_loop s (lnext (dev_mem s) p) ui' (if r = Started then counter + 1 else counter);
              Some ((p, r) # rs, c) })"

definition start_devices_lib :: "dev_state \<Rightarrow> ((nat \<times> started) list \<times> u32) option" where
  "start_devices_lib s = start_dev_loop s (list_head (Some ()) (dev_mem s)) False 0"

section \<open>Devices\<close>

text \<open>\<open>snprintf(temp, sizeof(temp), "%.5s%1u", name, unitno)\<close>: the digit loop of this \<open>printf\<close> (\<^verbatim>\<open>libs/libc/stdio/doprnt.c\<close>)
  stops at the width, so only the last digit of the unit is printed.\<close>

definition device_name :: "string \<Rightarrow> u32 \<Rightarrow> string" where
  "device_name name unitno = take DEV_NAME_LEN (take 5 name @ [char_of (48 + unat unitno mod 10)])"

definition device_type :: "u32 \<Rightarrow> u32 option" where
  "device_type status =
     (let drvtype = status AND (DRV_IS_CHAR OR DRV_IS_BLOCK OR DRV_IS_NET OR DRV_IS_TXT_UI OR DRV_IS_GFX_UI) in
      if drvtype = DRV_IS_NET \<or> drvtype = DRV_IS_CHAR then Some DEV_TYPE_CHAR
      else if drvtype = DRV_IS_BLOCK then Some DEV_TYPE_BLOCK
      else if drvtype = DRV_IS_TXT_UI then Some DEV_TYPE_TXT_UI
      else if drvtype = DRV_IS_GFX_UI then Some DEV_TYPE_GFX_UI
      else None)"

definition device_create :: "nat option \<Rightarrow> dev_state \<Rightarrow> driver option \<Rightarrow> u32 \<Rightarrow> (nat option \<times> dev_state) option" where
  "device_create mem s inst unitno =
     (case inst of
        None \<Rightarrow> Some (None, s)
      | Some drv \<Rightarrow>
         if dr_init drv unitno \<noteq> 0 then Some (None, s)
         else case device_type (dr_status drv unitno) of
           None \<Rightarrow> Some (None, s)
         | Some type \<Rightarrow>
            (let temp = device_name (dr_name drv) unitno in
             do { tmp \<leftarrow> lookup_name s temp;
                  if tmp \<noteq> None then Some (None, s)
                  else case mem of
                    None \<Rightarrow> Some (None, s)
                  | Some p \<Rightarrow>
                     do { (st, s') \<leftarrow> insert_device (s\<lparr>devs := (devs s)(p := \<lparr>dv_name = temp, dv_unitno = unitno, dv_type = type,
                            dv_write_fn = None, dv_read_fn = None, dv_drv = Some drv\<rparr>)\<rparr>) p;
                          if st \<noteq> EOK then Some (None, s) else Some (Some p, s') } }))"

definition device_set_access ::
  "dev_state \<Rightarrow> nat option \<Rightarrow> (u8 list \<Rightarrow> u32 \<Rightarrow> driver \<Rightarrow> u32 \<Rightarrow> int) option \<Rightarrow>
   (u32 \<Rightarrow> driver \<Rightarrow> u32 \<Rightarrow> int \<times> u8 list) option \<Rightarrow> status \<times> dev_state" where
  "device_set_access s dev wfn rfn =
     (case dev of
        None \<Rightarrow> (EINVAL, s)
      | Some p \<Rightarrow>
         if wfn \<noteq> None \<and> dv_write_fn (devs s p) \<noteq> None then (EINVAL, s)
         else if rfn \<noteq> None \<and> dv_read_fn (devs s p) \<noteq> None then (EINVAL, s)
         else (EOK, s\<lparr>devs := (devs s)(p := (devs s p)\<lparr>dv_write_fn := wfn, dv_read_fn := rfn\<rparr>)\<rparr>))"

definition device_lookup :: "dev_state \<Rightarrow> string option \<Rightarrow> u32 \<Rightarrow> nat option option" where
  "device_lookup s drvname unitno =
     (case drvname of None \<Rightarrow> Some None | Some nm \<Rightarrow> lookup_name s (device_name nm unitno))"

definition device_lookup_name :: "dev_state \<Rightarrow> string option \<Rightarrow> nat option option" where
  "device_lookup_name s devname = (case devname of None \<Rightarrow> Some None | Some nm \<Rightarrow> lookup_name s nm)"

section \<open>Input and output\<close>

text \<open>The pointer arguments may be \<open>NULL\<close>.\<close>

definition device_io_tx :: "device option \<Rightarrow> u8 list option \<Rightarrow> u32 \<Rightarrow> int" where
  "device_io_tx dev buf bytes =
     (case (dev, buf) of
        (Some dv, Some b) \<Rightarrow>
          (case dv_drv dv of
             None \<Rightarrow> errno_val EINVAL
           | Some drv \<Rightarrow>
              if dv_type dv \<noteq> DEV_TYPE_CHAR then errno_val EPERM
              else (let retcode = (case dv_write_fn dv of
                          Some f \<Rightarrow> f b bytes drv (dv_unitno dv) | None \<Rightarrow> dr_write drv b bytes (dv_unitno dv))
                    in if retcode > 0 then retcode else errno_val EIO))
      | _ \<Rightarrow> errno_val EINVAL)"

definition device_io_rx :: "device option \<Rightarrow> bool \<Rightarrow> u32 \<Rightarrow> int \<times> u8 list" where
  "device_io_rx dev buf bytes =
     (case dev of
        None \<Rightarrow> (errno_val EINVAL, [])
      | Some dv \<Rightarrow>
         (case dv_drv dv of
            None \<Rightarrow> (errno_val EINVAL, [])
          | Some drv \<Rightarrow>
             if \<not> buf then (errno_val EINVAL, [])
             else if dv_type dv \<noteq> DEV_TYPE_CHAR then (errno_val EPERM, [])
             else (let (retcode, out) = (case dv_read_fn dv of
                         Some f \<Rightarrow> f bytes drv (dv_unitno dv) | None \<Rightarrow> dr_read drv bytes (dv_unitno dv))
                   in (if retcode \<ge> 0 then retcode else errno_val EIO, out))))"

definition device_poll :: "device option \<Rightarrow> bool \<Rightarrow> status \<times> u16 option" where
  "device_poll dev events =
     (case dev of
        None \<Rightarrow> (EINVAL, None)
      | Some dv \<Rightarrow>
         (case dv_drv dv of
            None \<Rightarrow> (EINVAL, None)
          | Some drv \<Rightarrow>
             if \<not> events then (EINVAL, None)
             else (EOK, Some (case dr_poll drv of Some f \<Rightarrow> f (dv_unitno dv) | None \<Rightarrow> 0))))"

section \<open>The list is sorted\<close>

definition name_at :: "dev_state \<Rightarrow> nat \<Rightarrow> string" where
  "name_at s p = dv_name (devs s p)"

definition dev_ok :: "dev_state \<Rightarrow> nat list \<Rightarrow> bool" where
  "dev_ok s ds \<longleftrightarrow> lrep (dev_mem s) (\<lambda>_. ds) \<and> sorted_wrt (\<lambda>a b. name_at s a < name_at s b) ds \<and>
     (\<forall>p \<in> set ds. length (name_at s p) \<le> DEV_NAME_LEN)"

definition first_ptr :: "nat list \<Rightarrow> nat option" where
  "first_ptr ds = (case ds of [] \<Rightarrow> None | d # _ \<Rightarrow> Some d)"

lemma first_ptr_simps [simp]: "first_ptr [] = None" "first_ptr (d # ds) = Some d"
  by (simp_all add: first_ptr_def)

lemma less_take: "length a < n \<Longrightarrow> a < take n b \<longleftrightarrow> a < b" for a b :: "'a::linorder list"
proof (induction a arbitrary: b n)
  case Nil
  then show ?case by (cases b; cases n) auto
next
  case (Cons x a)
  then show ?case by (cases b; cases n) auto
qed

lemma eq_take: "length a < n \<Longrightarrow> a = take n b \<longleftrightarrow> a = b"
  by (metis length_take linorder_not_less min_def nat_less_le take_all)

lemma name_cmp:
  assumes "length (name_at s p) \<le> DEV_NAME_LEN"
  shows "strncmp (Some (dv_name (devs s p))) (Some nm) (DEV_NAME_LEN + 1) < 0 \<longleftrightarrow> name_at s p < nm"
    "strncmp (Some (dv_name (devs s p))) (Some nm) (DEV_NAME_LEN + 1) = 0 \<longleftrightarrow> name_at s p = nm"
proof -
  define n where "n = DEV_NAME_LEN + 1"
  have l: "length (name_at s p) < n" and t: "take n (dv_name (devs s p)) = name_at s p"
    using assms by (simp_all add: n_def name_at_def)
  show "strncmp (Some (dv_name (devs s p))) (Some nm) (DEV_NAME_LEN + 1) < 0 \<longleftrightarrow> name_at s p < nm"
    "strncmp (Some (dv_name (devs s p))) (Some nm) (DEV_NAME_LEN + 1) = 0 \<longleftrightarrow> name_at s p = nm"
    unfolding n_def [symmetric] by (simp_all add: strncmp_def strncmp_sign strncmp_zero t less_take [OF l] eq_take [OF l])
qed

lemma list_next_ptr: "dev_ok s ds \<Longrightarrow> ds = xs @ p # ys \<Longrightarrow> lnext (dev_mem s) p = first_ptr ys"
  using list_next_rep [of "dev_mem s" "\<lambda>_. ds" "()" xs p ys] by (simp add: dev_ok_def first_ptr_def)

lemma list_first_ptr: "dev_ok s ds \<Longrightarrow> list_head (Some ()) (dev_mem s) = first_ptr ds"
  using list_head_rep [of "dev_mem s" "\<lambda>_. ds" "()"] by (simp add: dev_ok_def first_ptr_def)

lemma lookup_loop_ok:
  assumes "dev_ok s ds" "ds = xs @ ys"
  shows "lookup_loop s nm (first_ptr ys) = Some (find (\<lambda>p. name_at s p = nm) ys)"
  using assms(2)
proof (induction ys arbitrary: xs)
  case Nil
  then show ?case by (simp add: lookup_loop.simps)
next
  case (Cons p ys)
  have p: "length (name_at s p) \<le> DEV_NAME_LEN" using assms(1) Cons.prems by (simp add: dev_ok_def)
  have nxt: "lnext (dev_mem s) p = first_ptr ys" using list_next_ptr [OF assms(1) Cons.prems] .
  have above: "name_at s p < name_at s q" if "q \<in> set ys" for q using assms(1) Cons.prems that by (auto simp: dev_ok_def sorted_wrt_append)
  consider "name_at s p < nm" | "name_at s p = nm" | "nm < name_at s p" using linorder_less_linear by blast
  then show ?case
  proof cases
    case 1
    then show ?thesis using Cons.IH [of "xs @ [p]"] Cons.prems nxt name_cmp [OF p]
      by (auto simp: lookup_loop.simps [of s nm "Some p"] Let_def)
  next
    case 2
    then show ?thesis using name_cmp [OF p] by (simp add: lookup_loop.simps [of s nm "Some p"] Let_def)
  next
    case 3
    then have "find (\<lambda>p. name_at s p = nm) ys = None" using above by (force simp: find_None_iff)
    then show ?thesis using 3 name_cmp [OF p] by (auto simp: lookup_loop.simps [of s nm "Some p"] Let_def)
  qed
qed

lemma device_find_ok: "dev_ok s ds \<Longrightarrow> lookup_name s nm = Some (find (\<lambda>p. name_at s p = nm) ds)"
  using lookup_loop_ok [of s ds "[]" ds nm] list_first_ptr [of s ds] by (simp add: lookup_name_def)

section \<open>Inserting a device\<close>

lemma list_prev_ptr: "dev_ok s ds \<Longrightarrow> ds = xs @ p # ys \<Longrightarrow> lprev (dev_mem s) p = pred_of None xs"
  using lrep_inst [of "dev_mem s" "\<lambda>_. ds" "()"] by (auto simp: dev_ok_def linst_rep_def dseg_append)

lemma add_before:
  assumes "dev_ok s ds" "ds = xs @ ys" "dev \<notin> set ds" "Suc (length ds) < 2 ^ 32" "ys \<noteq> []"
  shows "\<exists>m. list_add (Some ()) (pred_of None xs) (Some dev) (dev_mem s) = Some (EOK, m) \<and> lrep m (\<lambda>_. xs @ dev # ys)"
proof -
  have R: "lrep (dev_mem s) (\<lambda>_. ds)" and U: "unlinked (\<lambda>_ :: unit. ds) dev" using assms(1,3) by (auto simp: dev_ok_def unlinked_def)
  have one: "(\<lambda>_. ds)(() := zs) = (\<lambda>_ :: unit. zs)" for zs by (simp add: fun_eq_iff)
  show ?thesis
  proof (cases xs rule: rev_cases)
    case Nil
    then show ?thesis using list_prepend_rep [OF R U, of "()"] assms(2,4) one by (auto simp: list_prepend_def)
  next
    case (snoc us a)
    then show ?thesis using list_add_after_rep [OF R U, where l = "()" and ys = us and a = a and zs = ys] assms(2,4) one by auto
  qed
qed

lemma insert_loop_ok:
  assumes "dev_ok s ds" "ds = xs @ ys" "dev \<notin> set ds" "Suc (length ds) < 2 ^ 32" "\<forall>p \<in> set xs. name_at s p < name_at s dev"
    and "name_at s dev \<notin> name_at s ` set ds"
  shows "\<exists>m us vs. insert_loop s dev (first_ptr ys) = Some (EOK, m) \<and> lrep m (\<lambda>_. us @ dev # vs) \<and> ds = us @ vs \<and>
    (\<forall>p \<in> set us. name_at s p < name_at s dev) \<and> (\<forall>p \<in> set vs. name_at s dev < name_at s p)"
  using assms(2,5)
proof (induction ys arbitrary: xs)
  case Nil
  have R: "lrep (dev_mem s) (\<lambda>_. ds)" and U: "unlinked (\<lambda>_ :: unit. ds) dev" using assms(1,3) by (auto simp: dev_ok_def unlinked_def)
  have one: "(\<lambda>_. ds)(() := zs) = (\<lambda>_ :: unit. zs)" for zs by (simp add: fun_eq_iff)
  obtain m where "list_append (Some ()) (Some dev) (dev_mem s) = Some (EOK, m)" "lrep m (\<lambda>_. ds @ [dev])"
    using list_append_rep [OF R U, of "()"] assms(4) one by auto
  then show ?case using Nil by (intro exI [of _ m] exI [of _ ds] exI [of _ "[]"]) (simp add: insert_loop.simps)
next
  case (Cons p ys)
  have p: "length (name_at s p) \<le> DEV_NAME_LEN" "name_at s p \<noteq> name_at s dev" using assms(1,6) Cons.prems by (auto simp: dev_ok_def)
  note cmp = name_cmp(1) [OF p(1), of "dv_name (devs s dev)", folded name_at_def]
  show ?case
  proof (cases "name_at s p < name_at s dev")
    case True
    have "insert_loop s dev (first_ptr (p # ys)) = insert_loop s dev (first_ptr ys)"
      using True cmp list_next_ptr [OF assms(1) Cons.prems(1)] by (simp add: insert_loop.simps [of s dev "Some p"] name_at_def)
    then show ?thesis using Cons.IH [of "xs @ [p]"] Cons.prems True by simp
  next
    case False
    have gt: "\<forall>q \<in> set (p # ys). name_at s dev < name_at s q"
      using False p(2) assms(1) Cons.prems(1) by (auto simp: dev_ok_def sorted_wrt_append)
    have "insert_loop s dev (first_ptr (p # ys)) = list_add (Some ()) (pred_of None xs) (Some dev) (dev_mem s)"
      using False cmp list_prev_ptr [OF assms(1) Cons.prems(1)] by (simp add: insert_loop.simps [of s dev "Some p"] name_at_def)
    moreover obtain m where "list_add (Some ()) (pred_of None xs) (Some dev) (dev_mem s) = Some (EOK, m)" "lrep m (\<lambda>_. xs @ dev # p # ys)"
      using add_before [OF assms(1) Cons.prems(1) assms(3,4)] by auto
    ultimately show ?thesis using Cons.prems gt by (intro exI [of _ m] exI [of _ xs] exI [of _ "p # ys"]) simp
  qed
qed

lemma device_create_ok:
  assumes "dev_ok s ds" "mem = Some p \<Longrightarrow> p \<notin> set ds" "Suc (length ds) < 2 ^ 32" "dr_init drv u = 0" "device_type (dr_status drv u) = Some ty"
  defines "nm \<equiv> device_name (dr_name drv) u"
  shows "nm \<in> name_at s ` set ds \<or> mem = None \<Longrightarrow> device_create mem s (Some drv) u = Some (None, s)"
    "nm \<notin> name_at s ` set ds \<Longrightarrow> mem = Some p \<Longrightarrow> \<exists>s' us vs. device_create mem s (Some drv) u = Some (Some p, s') \<and>
       ds = us @ vs \<and> dev_ok s' (us @ p # vs) \<and> (\<forall>q. q \<noteq> p \<longrightarrow> devs s' q = devs s q) \<and>
       devs s' p = \<lparr>dv_name = nm, dv_unitno = u, dv_type = ty, dv_write_fn = None, dv_read_fn = None, dv_drv = Some drv\<rparr>"
proof -
  note look = device_find_ok [OF assms(1), of nm]
  have f: "find (\<lambda>p. name_at s p = nm) ds \<noteq> None \<longleftrightarrow> nm \<in> name_at s ` set ds" by (force simp: find_None_iff)
  show "device_create mem s (Some drv) u = Some (None, s)" if "nm \<in> name_at s ` set ds \<or> mem = None"
    using that f look assms(4,5) by (auto simp: device_create_def nm_def Let_def)
  assume new: "nm \<notin> name_at s ` set ds" "mem = Some p"
  define dv where "dv = \<lparr>dv_name = nm, dv_unitno = u, dv_type = ty, dv_write_fn = None, dv_read_fn = None, dv_drv = Some drv\<rparr>"
  define s1 where "s1 = s\<lparr>devs := (devs s)(p := dv)\<rparr>"
  have p: "p \<notin> set ds" using assms(2) new(2) .
  have names: "name_at s1 p = nm" "\<And>q. q \<in> set ds \<Longrightarrow> name_at s1 q = name_at s q" using p by (auto simp: name_at_def s1_def dv_def)
  have ok1: "dev_ok s1 ds"
    using assms(1) sorted_wrt_mono_rel [of ds "\<lambda>a b. name_at s a < name_at s b" "\<lambda>a b. name_at s1 a < name_at s1 b"] names(2)
    by (auto simp: dev_ok_def) (simp add: s1_def)
  obtain m us vs where m: "insert_loop s1 p (first_ptr ds) = Some (EOK, m)" "lrep m (\<lambda>_. us @ p # vs)" "ds = us @ vs"
      "\<forall>q \<in> set us. name_at s1 q < nm" "\<forall>q \<in> set vs. nm < name_at s1 q"
    using insert_loop_ok [OF ok1, of "[]" ds p] p assms(3) names new(1) by (auto simp: image_iff)
  define s' where "s' = s1\<lparr>dev_mem := m\<rparr>"
  have ins: "insert_device s1 p = Some (EOK, s')" using m(1) list_first_ptr [OF ok1] by (simp add: insert_device_def s'_def)
  have "name_at s' = name_at s1" by (simp add: fun_eq_iff name_at_def s'_def)
  moreover have "length nm \<le> DEV_NAME_LEN" by (simp add: nm_def device_name_def)
  moreover have "dev_ok s1 (us @ vs)" using ok1 m(3) by simp
  ultimately have "dev_ok s' (us @ p # vs)" using m(2,4,5) names(1) by (auto simp: dev_ok_def sorted_wrt_append s'_def)
  moreover have "find (\<lambda>p. name_at s p = nm) ds = None" using f new(1) by blast
  then have "device_create mem s (Some drv) u = Some (Some p, s')"
    using look new(2) assms(4,5) ins by (simp add: device_create_def nm_def [symmetric] Let_def s1_def dv_def)
  ultimately show "\<exists>s' us vs. device_create mem s (Some drv) u = Some (Some p, s') \<and>
       ds = us @ vs \<and> dev_ok s' (us @ p # vs) \<and> (\<forall>q. q \<noteq> p \<longrightarrow> devs s' q = devs s q) \<and>
       devs s' p = \<lparr>dv_name = nm, dv_unitno = u, dv_type = ty, dv_write_fn = None, dv_read_fn = None, dv_drv = Some drv\<rparr>"
    using m(3) by (intro exI [of _ s'] exI [of _ us] exI [of _ vs]) (auto simp: s'_def s1_def dv_def)
qed

section \<open>Starting the devices\<close>

definition is_ui :: "device \<Rightarrow> bool" where
  "is_ui dv \<longleftrightarrow> dv_type dv = DEV_TYPE_TXT_UI \<or> dv_type dv = DEV_TYPE_GFX_UI"

definition ui_started :: "dev_state \<Rightarrow> (nat \<times> started) list \<Rightarrow> nat" where
  "ui_started s rs = length (filter (\<lambda>(p, r). r = Started \<and> is_ui (devs s p)) rs)"

lemmas dev_types = DEV_TYPE_CHAR_def DEV_TYPE_BLOCK_def DEV_TYPE_GFX_UI_def DEV_TYPE_TXT_UI_def

text \<open>The report of one device: a character device is started, a user interface unless one already runs.\<close>

definition report_ok :: "device \<Rightarrow> started \<Rightarrow> bool" where
  "report_ok dv r \<longleftrightarrow> (r = Started \<longrightarrow> (\<exists>d. dv_drv dv = Some d \<and> dr_start d (dv_unitno dv) = 0)) \<and>
     (dv_type dv = DEV_TYPE_CHAR \<longrightarrow> r = Started \<or> r = Failed)"

lemma start_device_ok:
  assumes "dv_drv dv \<noteq> None"
  shows "\<exists>r ui'. start_device dv ui = Some (r, ui') \<and> report_ok dv r \<and> ui' = (ui \<or> r = Started \<and> is_ui dv) \<and> (ui \<longrightarrow> \<not> (r = Started \<and> is_ui dv))"
  using assms by (auto simp: start_device_def report_ok_def is_ui_def dev_types)

lemma start_dev_loop_ok:
  assumes "dev_ok s ds" "ds = xs @ ys" "\<forall>p \<in> set ds. dv_drv (devs s p) \<noteq> None"
  shows "\<exists>rs. start_dev_loop s (first_ptr ys) ui c = Some (rs, c + of_nat (length (filter (\<lambda>(p, r). r = Started) rs))) \<and> map fst rs = ys \<and>
    (\<forall>(p, r) \<in> set rs. report_ok (devs s p) r) \<and> ui_started s rs \<le> (if ui then 0 else 1)"
  using assms(2)
proof (induction ys arbitrary: xs ui c)
  case Nil
  then show ?case by (simp add: start_dev_loop.simps ui_started_def)
next
  case (Cons p ys)
  obtain r ui' where r: "start_device (devs s p) ui = Some (r, ui')" "report_ok (devs s p) r"
      "ui' = (ui \<or> r = Started \<and> is_ui (devs s p))" "ui \<longrightarrow> \<not> (r = Started \<and> is_ui (devs s p))"
    using start_device_ok [of "devs s p" ui] assms(3) Cons.prems by auto
  define c' where "c' = (if r = Started then c + 1 else c)"
  obtain rs where rs: "start_dev_loop s (first_ptr ys) ui' c' = Some (rs, c' + of_nat (length (filter (\<lambda>(p, r). r = Started) rs)))"
      "map fst rs = ys" "\<forall>(p, r) \<in> set rs. report_ok (devs s p) r" "ui_started s rs \<le> (if ui' then 0 else 1)"
    using Cons.IH [of "xs @ [p]" ui' c'] Cons.prems by auto
  have "start_dev_loop s (Some p) ui c = Some ((p, r) # rs, c' + of_nat (length (filter (\<lambda>(p, r). r = Started) rs)))"
    using r(1) rs(1) list_next_ptr [OF assms(1) Cons.prems] by (simp add: start_dev_loop.simps [of s "Some p"] c'_def)
  moreover have "ui_started s ((p, r) # rs) \<le> (if ui then 0 else 1)" using rs(4) r(3,4) by (auto simp: ui_started_def split: if_splits)
  ultimately show ?case using rs(2,3) r(2)
    by (intro exI [of _ "(p, r) # rs"]) (simp add: c'_def algebra_simps)
qed

section \<open>Properties\<close>

text \<open>C32: creating a device. With the list of devices sorted by name and the new block not in it, \<open>device_create\<close> never faults and keeps the
  list sorted. It returns NULL without a change when the driver is missing, its unit does not
  initialise, its type is unknown, the name (five characters of the driver's name and the last digit of the unit) is taken or there is
  no memory; otherwise the new device is in the list, the others are untouched, and looking up the driver name and the unit finds
  it. A unit whose number ends in the digit of a unit of the same driver already present is refused as taken.\<close>

theorem device_create_correct:
  assumes "dev_ok s ds" "\<And>p. mem = Some p \<Longrightarrow> p \<notin> set ds" "Suc (length ds) < 2 ^ 32"
  shows "\<exists>r s' ds'. device_create mem s inst u = Some (r, s') \<and> dev_ok s' ds' \<and>
    (r \<noteq> None \<longleftrightarrow> mem \<noteq> None \<and> (\<exists>d. inst = Some d \<and> dr_init d u = 0 \<and> device_type (dr_status d u) \<noteq> None \<and>
       device_name (dr_name d) u \<notin> name_at s ` set ds)) \<and>
    (case r of None \<Rightarrow> s' = s
     | Some p \<Rightarrow> p \<notin> set ds \<and> set ds' = insert p (set ds) \<and> (\<forall>q \<in> set ds. devs s' q = devs s q) \<and>
         device_lookup s' (Some (dr_name (the inst))) u = Some (Some p)) \<and>
    (\<forall>v. unat v mod 10 = unat u mod 10 \<and> inst \<noteq> None \<and> device_name (dr_name (the inst)) v \<in> name_at s ` set ds \<longrightarrow> r = None)"
proof (cases "\<exists>d ty p. inst = Some d \<and> dr_init d u = 0 \<and> device_type (dr_status d u) = Some ty \<and> mem = Some p \<and>
    device_name (dr_name d) u \<notin> name_at s ` set ds")
  case True
  then obtain d ty p where d: "inst = Some d" "dr_init d u = 0" "device_type (dr_status d u) = Some ty" "mem = Some p"
      "device_name (dr_name d) u \<notin> name_at s ` set ds" by blast
  then obtain s' us vs where c: "device_create mem s (Some d) u = Some (Some p, s')" "ds = us @ vs" "dev_ok s' (us @ p # vs)"
      "\<forall>q. q \<noteq> p \<longrightarrow> devs s' q = devs s q" "dv_name (devs s' p) = device_name (dr_name d) u"
    using device_create_ok(2) [OF assms(1,2,3) d(2,3)] by auto
  have p: "p \<notin> set ds" using assms(2) d(4) .
  then have "\<forall>q \<in> set us. name_at s' q \<noteq> device_name (dr_name d) u"
    using c(2,4) d(5) by (force simp: name_at_def)
  then have "find (\<lambda>q. name_at s' q = device_name (dr_name d) u) (us @ p # vs) = Some p"
    using c(5) by (induction us) (auto simp: name_at_def)
  then have "device_lookup s' (Some (dr_name d)) u = Some (Some p)"
    using device_find_ok [OF c(3)] by (simp add: device_lookup_def)
  moreover have "device_name (dr_name d) v \<notin> name_at s ` set ds" if "unat v mod 10 = unat u mod 10" for v
    using d(5) that by (simp add: device_name_def)
  moreover have "\<forall>q \<in> set ds. devs s' q = devs s q" using c(4) p by metis
  ultimately show ?thesis using c(1-3,5) p d by (intro exI [of _ "Some p"] exI [of _ s'] exI [of _ "us @ p # vs"]) auto
next
  case False
  have "device_create mem s inst u = Some (None, s)"
  proof (cases "\<exists>d ty. inst = Some d \<and> dr_init d u = 0 \<and> device_type (dr_status d u) = Some ty")
    case True
    then obtain d ty where d: "inst = Some d" "dr_init d u = 0" "device_type (dr_status d u) = Some ty" by blast
    then have "device_name (dr_name d) u \<in> name_at s ` set ds \<or> mem = None" using False by auto
    then show ?thesis using device_create_ok(1) [OF assms(1,2,3) d(2,3)] d(1) by blast
  qed (auto simp: device_create_def split: option.splits)
  then show ?thesis using False assms(1) by (intro exI [of _ None] exI [of _ s] exI [of _ ds]) auto
qed

definition no_devices :: dev_state where
  "no_devices = \<lparr>dev_mem = \<lparr>linst = (\<lambda>_. \<lparr>li_head = None, li_tail = None, li_counter = 0\<rparr>), lnext = (\<lambda>_. None), lprev = (\<lambda>_. None)\<rparr>,
     devs = (\<lambda>_. \<lparr>dv_name = [], dv_unitno = 0, dv_type = 0, dv_write_fn = None, dv_read_fn = None, dv_drv = None\<rparr>)\<rparr>"

lemma no_devices_ok: "dev_ok no_devices []"
  by (simp add: dev_ok_def no_devices_def lrep_def linst_rep_def)

definition sample_tty :: driver where
  "sample_tty = \<lparr>dr_name = ''tty'', dr_init = (\<lambda>_. 0), dr_start = (\<lambda>_. 0), dr_status = (\<lambda>_. DRV_IS_CHAR), dr_poll = None,
     dr_write = (\<lambda>b n u. sint n), dr_read = (\<lambda>n u. (0, []))\<rparr>"

lemma sample_tty_type: "device_type (dr_status sample_tty u) = Some DEV_TYPE_CHAR"
  by (simp add: device_type_def sample_tty_def DRV_IS_CHAR_def DRV_IS_BLOCK_def DRV_IS_NET_def DRV_IS_TXT_UI_def DRV_IS_GFX_UI_def push_bit_eq_mult)

theorem device_create_correct_witness:
  "\<exists>p s'. device_create (Some 9) no_devices (Some sample_tty) 1 = Some (Some p, s') \<and> device_lookup s' (Some ''tty'') 1 = Some (Some p)"
proof -
  obtain r s' ds' where r: "device_create (Some 9) no_devices (Some sample_tty) 1 = Some (r, s')"
      "r \<noteq> None \<longleftrightarrow> Some 9 \<noteq> None \<and> (\<exists>d. Some sample_tty = Some d \<and> dr_init d 1 = 0 \<and> device_type (dr_status d 1) \<noteq> None \<and>
         device_name (dr_name d) 1 \<notin> name_at no_devices ` set [])"
      "case r of None \<Rightarrow> s' = no_devices | Some p \<Rightarrow> p \<notin> set [] \<and> set ds' = insert p (set []) \<and> (\<forall>q \<in> set []. devs s' q = devs no_devices q) \<and>
         device_lookup s' (Some (dr_name (the (Some sample_tty)))) 1 = Some (Some p)"
    using device_create_correct [OF no_devices_ok, of "Some 9" "Some sample_tty" 1] by auto
  have "r \<noteq> None" using r(2) sample_tty_type [of 1] by (simp add: sample_tty_def)
  with r(1,3) show ?thesis by (auto simp: sample_tty_def)
qed

lemma one_device:
  "\<exists>s. device_create (Some 9) no_devices (Some sample_tty) 1 = Some (Some 9, s) \<and> dev_ok s [9] \<and>
     name_at s 9 = ''tty1'' \<and> dv_drv (devs s 9) = Some sample_tty \<and>
     dv_read_fn (devs s 9) = None \<and> dv_write_fn (devs s 9) = None"
proof -
  have "dr_init sample_tty 1 = 0" by (simp add: sample_tty_def)
  from device_create_ok(2) [OF no_devices_ok _ _ this sample_tty_type, of "Some 9" 9]
  obtain s us vs where s: "device_create (Some 9) no_devices (Some sample_tty) 1 = Some (Some 9, s)" "[] = us @ vs" "dev_ok s (us @ 9 # vs)"
      "devs s 9 = \<lparr>dv_name = device_name (dr_name sample_tty) 1, dv_unitno = 1, dv_type = DEV_TYPE_CHAR,
         dv_write_fn = None, dv_read_fn = None, dv_drv = Some sample_tty\<rparr>" by auto
  moreover have "device_name (dr_name sample_tty) 1 = ''tty1''"
    by (simp add: device_name_def sample_tty_def DEV_NAME_LEN_def char_of_def bit_0)
  ultimately show ?thesis by (auto simp: name_at_def)
qed

text \<open>Looking up a device by its name finds the one device with that name, and NULL exactly when there is none,
  although the search stops at the first name that is greater.\<close>

theorem device_lookup_name_correct:
  assumes "dev_ok s ds"
  shows "\<exists>r. device_lookup_name s (Some nm) = Some r \<and>
    (case r of Some p \<Rightarrow> p \<in> set ds \<and> name_at s p = nm | None \<Rightarrow> nm \<notin> name_at s ` set ds)"
  using device_find_ok [OF assms, of nm]
  by (auto simp: device_lookup_name_def find_None_iff find_Some_iff image_iff split: option.splits)

theorem device_lookup_name_correct_witness:
  "\<exists>s. device_create (Some 9) no_devices (Some sample_tty) 1 = Some (Some 9, s) \<and>
     device_lookup_name s (Some ''tty1'') = Some (Some 9) \<and> device_lookup_name s (Some ''tty2'') = Some None"
proof -
  obtain s where s: "device_create (Some 9) no_devices (Some sample_tty) 1 = Some (Some 9, s)" "dev_ok s [9]" "name_at s 9 = ''tty1''"
    using one_device by blast
  then show ?thesis using device_lookup_name_correct [OF s(2), of "''tty1''"] device_lookup_name_correct [OF s(2), of "''tty2''"]
    by (auto split: option.splits)
qed

text \<open>Starting the devices. The loop ends, reports every device exactly once in the order of the list and counts
  the devices it started; a device counts as started only when its driver's start function
  succeeded, every character device is tried, and at most one user interface is started.\<close>

theorem start_devices_lib_correct:
  assumes "dev_ok s ds" "\<forall>p \<in> set ds. dv_drv (devs s p) \<noteq> None"
  shows "\<exists>rs. start_devices_lib s = Some (rs, of_nat (length (filter (\<lambda>(p, r). r = Started) rs))) \<and> map fst rs = ds \<and>
    (\<forall>(p, r) \<in> set rs. report_ok (devs s p) r) \<and> ui_started s rs \<le> 1"
  using start_dev_loop_ok [OF assms(1), of "[]" ds False 0] assms list_first_ptr [OF assms(1)] by (simp add: start_devices_lib_def)

theorem start_devices_lib_correct_witness:
  "\<exists>s rs c. device_create (Some 9) no_devices (Some sample_tty) 1 = Some (Some 9, s) \<and>
     start_devices_lib s = Some (rs, c) \<and> map fst rs = [9] \<and> ui_started s rs \<le> 1"
proof -
  obtain s where s: "device_create (Some 9) no_devices (Some sample_tty) 1 = Some (Some 9, s)" "dev_ok s [9]" "dv_drv (devs s 9) = Some sample_tty"
    using one_device by blast
  then show ?thesis using start_devices_lib_correct [OF s(2)] by auto
qed

text \<open>The results of reading and writing. A write returns the positive count of the driver or one of the codes EINVAL,
  EPERM and EIO; it never returns 0 or EAGAIN, which the description of the call promises for an empty
  transmission and a busy device: both arrive as EIO. A read returns the count, 0 included.\<close>

theorem device_io_results:
  "(device_io_tx dev buf n > 0 \<or> device_io_tx dev buf n \<in> errno_val ` {EINVAL, EPERM, EIO}) \<and>
   (fst (device_io_rx dev b n) \<ge> 0 \<or> fst (device_io_rx dev b n) \<in> errno_val ` {EINVAL, EPERM, EIO}) \<and>
   device_io_tx dev buf n \<notin> {0, errno_val EAGAIN}"
  by (auto simp: device_io_tx_def device_io_rx_def Let_def split: option.splits prod.splits)

end
