(* ===== verification/Unistd.thy ===== *)
theory Unistd
  imports Devices
begin

text \<open>
  The file descriptors of \<^verbatim>\<open>src/kernel/libs/unistd\<close>: an array of descriptors over the registry of devices.
  A call returns its result and the value it stores in \<open>errno\<close>, if any. \<open>None\<close> is a read beyond the
  terminator of a path or a copy beyond the end of a block. The block for the name of a file is kept as its size and what is copied into it.
\<close>

unbundle bit_operations_syntax

section \<open>Data\<close>

definition FD_MAX :: nat where "FD_MAX = 64"

definition FD_DATA_IS_RAW :: u32 where "FD_DATA_IS_RAW = 1"
definition FD_DATA_IS_INUSE :: u32 where "FD_DATA_IS_INUSE = 8"
definition FD_DATA_IS_R :: u32 where "FD_DATA_IS_R = 16"
definition FD_DATA_IS_W :: u32 where "FD_DATA_IS_W = 32"

definition O_RDONLY :: u32 where "O_RDONLY = 0"
definition O_WRONLY :: u32 where "O_WRONLY = 1"
definition O_RDWR :: u32 where "O_RDWR = 2"

definition F_OK :: u32 where "F_OK = 0"
definition X_OK :: u32 where "X_OK = 1"
definition W_OK :: u32 where "W_OK = 2"
definition R_OK :: u32 where "R_OK = 4"

definition F_GETFL :: u32 where "F_GETFL = 3"

lemmas fd_bits = FD_DATA_IS_RAW_def FD_DATA_IS_INUSE_def FD_DATA_IS_R_def FD_DATA_IS_W_def

record fd_data =
  fd_flags :: u32
  fd_absfname :: "(nat \<times> string) option"
  fd_rawdev :: "nat option"

record fd_state =
  fdarray :: "fd_data list"
  fd_devs :: dev_state

definition in_use :: "fd_data \<Rightarrow> bool" where
  "in_use d \<longleftrightarrow> fd_flags d AND FD_DATA_IS_INUSE \<noteq> 0"

definition fdget :: "fd_state \<Rightarrow> int \<Rightarrow> fd_data option" where
  "fdget s fd = (if 0 \<le> fd \<and> fd < int (length (fdarray s)) then Some (fdarray s ! nat fd) else None)"

section \<open>Operations\<close>

definition DEV_PATH :: string where "DEV_PATH = ''/dev''"

text \<open>\<open>filename + sizeof(DEV_PATH)\<close>: the path after the prefix and the character that follows it.\<close>

definition dev_part :: "string \<Rightarrow> string option" where
  "dev_part path = (if length path > length DEV_PATH then Some (drop (length DEV_PATH + 1) path) else None)"

fun free_fd :: "fd_data list \<Rightarrow> nat" where
  "free_fd [] = 0"
| "free_fd (d # ds) = (if in_use d then Suc (free_fd ds) else 0)"

definition open_mode :: "u32 \<Rightarrow> u32 option" where
  "open_mode flags =
     (let m = flags AND 255 in
      if m = O_WRONLY then Some FD_DATA_IS_W
      else if m = O_RDONLY then Some FD_DATA_IS_R
      else if m = O_RDWR then Some (FD_DATA_IS_W OR FD_DATA_IS_R)
      else None)"

text \<open>\<open>mem\<close> is the size of the block \<open>malloc\<close> returns for the name, \<open>None\<close> when it fails. The size asked for is \<open>strlen(filename)\<close>;
  \<open>strcpy\<close> stores the terminator too.\<close>

definition fd_open :: "nat option \<Rightarrow> fd_state \<Rightarrow> string option \<Rightarrow> u32 \<Rightarrow> (int \<times> status option \<times> fd_state) option" where
  "fd_open mem s filename flags =
     (case filename of
        None \<Rightarrow> Some (- 1, Some EINVAL, s)
      | Some path \<Rightarrow>
         if strncmp (Some path) (Some DEV_PATH) (length DEV_PATH) \<noteq> 0 then Some (- 1, Some EACCES, s)
         else
           (let fd = free_fd (fdarray s) in
            if fd = length (fdarray s) then Some (- 1, Some ENFILE, s)
            else case open_mode flags of
              None \<Rightarrow> Some (- 1, Some EINVAL, s)
            | Some flg \<Rightarrow>
               (case mem of
                  None \<Rightarrow> Some (- 1, None, s\<lparr>fdarray := (fdarray s)[fd := (fdarray s ! fd)\<lparr>fd_absfname := None\<rparr>]\<rparr>)
                | Some room \<Rightarrow> do {
                   nm \<leftarrow> dev_part path;
                   dev \<leftarrow> device_lookup_name (fd_devs s) (Some nm);
                   if dev = None
                   then Some (- 1, Some ENXIO, s\<lparr>fdarray := (fdarray s)[fd := (fdarray s ! fd)\<lparr>fd_absfname := None, fd_rawdev := None\<rparr>]\<rparr>)
                   else if room < length path + 1 then None
                   else Some (int fd, None, s\<lparr>fdarray := (fdarray s)[fd :=
                          \<lparr>fd_flags = flg OR FD_DATA_IS_RAW OR FD_DATA_IS_INUSE,
                           fd_absfname = Some (room, path), fd_rawdev = dev\<rparr>]\<rparr>) })))"

text \<open>\<open>do { retcode = call } while (retries-- && retcode == EAGAIN)\<close>; the second component counts the calls.\<close>

fun retry :: "(nat \<Rightarrow> int) \<Rightarrow> nat \<Rightarrow> nat \<Rightarrow> int \<times> nat" where
  "retry call k 0 = (call k, k + 1)"
| "retry call k (Suc retries) = (if call k = errno_val EAGAIN then retry call (k + 1) retries else (call k, k + 1))"

definition fd_device :: "fd_state \<Rightarrow> fd_data \<Rightarrow> device option" where
  "fd_device s d = map_option (devs (fd_devs s)) (fd_rawdev d)"

text \<open>The checks \<open>read\<close> and \<open>write\<close> share; \<open>io\<close> is the call of the device.\<close>

definition fd_transfer :: "fd_state \<Rightarrow> int \<Rightarrow> bool \<Rightarrow> (device option \<Rightarrow> int) \<Rightarrow> int \<times> status option" where
  "fd_transfer s fd buf io =
     (case fdget s fd of
        None \<Rightarrow> (- 1, Some EBADF)
      | Some d \<Rightarrow>
         if \<not> buf \<or> \<not> in_use d then (- 1, Some EINVAL)
         else if fd_flags d AND FD_DATA_IS_RAW \<noteq> 0
         then (let (retcode, calls) = retry (\<lambda>_. io (fd_device s d)) 0 10 in
               if retcode < 0 then (- 1, Some EIO) else (retcode, None))
         else (- 1, Some EINVAL))"

definition fd_read :: "fd_state \<Rightarrow> int \<Rightarrow> bool \<Rightarrow> u32 \<Rightarrow> int \<times> status option" where
  "fd_read s fd buf n = fd_transfer s fd buf (\<lambda>dev. fst (device_io_rx dev buf n))"

definition fd_write :: "fd_state \<Rightarrow> int \<Rightarrow> u8 list option \<Rightarrow> u32 \<Rightarrow> int \<times> status option" where
  "fd_write s fd buf n = fd_transfer s fd (buf \<noteq> None) (\<lambda>dev. device_io_tx dev buf n)"

definition fd_access :: "fd_state \<Rightarrow> string option \<Rightarrow> u32 \<Rightarrow> (int \<times> status option) option" where
  "fd_access s path amode =
     (case path of
        None \<Rightarrow> Some (- 1, Some EINVAL)
      | Some p \<Rightarrow>
         if amode AND NOT (R_OK OR W_OK OR X_OK OR F_OK) \<noteq> 0 then Some (- 1, Some EINVAL)
         else if strncmp (Some p) (Some DEV_PATH) (length DEV_PATH) \<noteq> 0 then Some (- 1, Some EACCES)
         else do {
           nm \<leftarrow> dev_part p;
           r \<leftarrow> device_lookup_name (fd_devs s) (Some nm);
           case r of
             None \<Rightarrow> Some (- 1, Some ENOENT)
           | Some dev \<Rightarrow>
              if amode = F_OK then Some (0, None)
              else if amode AND X_OK \<noteq> 0 then Some (- 1, Some EACCES)
              else
                (let dv = devs (fd_devs s) dev;
                     tmode = (if dv_read_fn dv \<noteq> None then R_OK else 0) OR (if dv_write_fn dv \<noteq> None then W_OK else 0)
                 in if amode AND tmode \<noteq> amode then Some (- 1, Some EACCES) else Some (0, None)) })"

text \<open>The branch \<open>F_GETFL\<close> of \<open>fcntl\<close>.\<close>

definition fd_mode :: "u32 \<Rightarrow> u32" where
  "fd_mode flags =
     (if flags AND (FD_DATA_IS_R OR FD_DATA_IS_W) = FD_DATA_IS_R OR FD_DATA_IS_W then O_RDWR
      else if flags AND FD_DATA_IS_R \<noteq> 0 then O_RDONLY
      else if flags AND FD_DATA_IS_W \<noteq> 0 then O_WRONLY else 0)"

definition fd_fcntl :: "fd_state \<Rightarrow> int \<Rightarrow> u32 \<Rightarrow> int \<times> status option" where
  "fd_fcntl s fd cmd =
     (case fdget s fd of
        None \<Rightarrow> (- 1, Some EINVAL)
      | Some d \<Rightarrow> if cmd = F_GETFL then (uint (fd_mode (fd_flags d)), None) else (- 1, Some EINVAL))"

definition fd_lseek :: "int \<Rightarrow> int \<Rightarrow> int \<Rightarrow> int" where
  "fd_lseek fd offset whence = - 1"

section \<open>Descriptors\<close>

definition fd_ok :: "fd_state \<Rightarrow> nat list \<Rightarrow> bool" where
  "fd_ok s ds \<longleftrightarrow> dev_ok (fd_devs s) ds \<and> length (fdarray s) = FD_MAX \<and>
     (\<forall>d \<in> set (fdarray s). in_use d \<longrightarrow> fd_flags d AND FD_DATA_IS_RAW \<noteq> 0 \<and> (\<exists>p \<in> set ds. fd_rawdev d = Some p))"

lemma free_fd_least: "free_fd ds \<le> length ds" "\<forall>i < free_fd ds. in_use (ds ! i)" "free_fd ds < length ds \<Longrightarrow> \<not> in_use (ds ! free_fd ds)"
  by (induction ds) (auto simp: nth_Cons' less_Suc_eq_0_disj)

lemma retry_one: "\<forall>k. call k \<noteq> errno_val EAGAIN \<Longrightarrow> retry call k n = (call k, k + 1)"
  by (cases n) auto

lemma path_prefix: "strncmp (Some (DEV_PATH @ c # nm)) (Some DEV_PATH) (length DEV_PATH) = 0"
  by (simp add: strncmp_def strncmp_zero)

lemma sorted_keys_inj: "sorted_wrt (\<lambda>a b. (f a :: 'k :: order) < f b) ds \<Longrightarrow> inj_on f (set ds)"
proof (induction ds)
  case (Cons a ds)
  then have "f a \<notin> f ` set ds" by fastforce
  then show ?case using Cons by (auto simp: inj_on_insert)
qed simp

lemma names_inj:
  assumes "dev_ok s ds" "p \<in> set ds" "q \<in> set ds" "name_at s p = name_at s q"
  shows "p = q"
proof -
  have "inj_on (name_at s) (set ds)" using assms(1) sorted_keys_inj [of "name_at s" ds] by (simp add: dev_ok_def)
  then show ?thesis using assms(2-4) by (simp only: inj_on_eq_iff)
qed

lemma lookup_exact:
  assumes "dev_ok s ds" "p \<in> set ds" "name_at s p = nm"
  shows "device_lookup_name s (Some nm) = Some (Some p)"
proof -
  have "find (\<lambda>q. name_at s q = nm) ds \<noteq> None" using assms(2,3) by (auto simp: find_None_iff)
  then obtain q where q: "find (\<lambda>q. name_at s q = nm) ds = Some q" by blast
  then have "q \<in> set ds" "name_at s q = nm" by (auto simp: find_Some_iff)
  then show ?thesis using q device_find_ok [OF assms(1)] names_inj [OF assms(1,2)] assms(3) by (simp add: device_lookup_name_def)
qed

lemma mode_bits:
  assumes "open_mode flags = Some flg"
  shows "(flg OR FD_DATA_IS_RAW OR FD_DATA_IS_INUSE) AND FD_DATA_IS_RAW \<noteq> 0" "(flg OR FD_DATA_IS_RAW OR FD_DATA_IS_INUSE) AND FD_DATA_IS_INUSE \<noteq> 0"
    "fd_mode (flg OR FD_DATA_IS_RAW OR FD_DATA_IS_INUSE) = flags AND 255"
  using assms by (auto simp: open_mode_def fd_mode_def fd_bits O_RDONLY_def O_WRONLY_def O_RDWR_def Let_def split: if_splits)

lemma tx_not_again: "device_io_tx dev buf n \<noteq> errno_val EAGAIN" "fst (device_io_rx dev b n) \<noteq> errno_val EAGAIN"
  by (auto simp: device_io_tx_def device_io_rx_def Let_def split: option.splits prod.splits)

lemma write_once:
  assumes "fdget s fd = Some d" "in_use d" "fd_flags d AND FD_DATA_IS_RAW \<noteq> 0"
  shows "fd_write s fd (Some b) n =
    (let r = device_io_tx (fd_device s d) (Some b) n in if r < 0 then (- 1, Some EIO) else (r, None))"
  using assms tx_not_again(1) by (simp add: fd_write_def fd_transfer_def retry_one Let_def)

lemma open_eq:
  assumes "fd_ok s ds" "open_mode flags = Some flg" "p \<in> set ds" "name_at (fd_devs s) p = nm" "path = DEV_PATH @ c # nm"
    and "free_fd (fdarray s) < length (fdarray s)"
  shows "fd_open (Some room) s (Some path) flags = (if room < length path + 1 then None
    else Some (int (free_fd (fdarray s)), None, s\<lparr>fdarray := (fdarray s)[free_fd (fdarray s) :=
      \<lparr>fd_flags = flg OR FD_DATA_IS_RAW OR FD_DATA_IS_INUSE, fd_absfname = Some (room, path), fd_rawdev = Some p\<rparr>]\<rparr>))"
proof -
  have "device_lookup_name (fd_devs s) (Some nm) = Some (Some p)" using lookup_exact [of "fd_devs s" ds p nm] assms(1,3,4) by (simp add: fd_ok_def)
  moreover have "dev_part path = Some nm" using assms(5) by (simp add: dev_part_def)
  moreover have "strncmp (Some path) (Some DEV_PATH) (length DEV_PATH) = 0" using path_prefix assms(5) by simp
  ultimately show ?thesis using assms(2,6) by (simp add: fd_open_def Let_def)
qed

text \<open>Without a block for the name only the pointer of a free descriptor changes.\<close>

lemma no_block:
  assumes "fd_ok s ds" "free_fd (fdarray s) < length (fdarray s)" "open_mode flags = Some flg"
    "strncmp (Some path) (Some DEV_PATH) (length DEV_PATH) = 0"
  shows "\<exists>s'. fd_open None s (Some path) flags = Some (- 1, None, s') \<and> map fd_flags (fdarray s') = map fd_flags (fdarray s) \<and> fd_ok s' ds"
proof -
  let ?i = "free_fd (fdarray s)"
  let ?d = "(fdarray s ! ?i)\<lparr>fd_absfname := None\<rparr>"
  have "\<not> in_use ?d" using free_fd_least(3) [OF assms(2)] by (simp add: in_use_def)
  then have "fd_ok (s\<lparr>fdarray := (fdarray s)[?i := ?d]\<rparr>) ds"
    using assms(1) set_update_subset_insert [of "fdarray s" ?i ?d] by (auto simp: fd_ok_def)
  moreover have "map fd_flags ((fdarray s)[?i := ?d]) = map fd_flags (fdarray s)"
    using assms(2) by (simp add: map_update list_update_same_conv)
  ultimately show ?thesis using assms(2-4) by (simp add: fd_open_def Let_def)
qed

section \<open>Properties\<close>

text \<open>C33: opening a device. With a well-formed table of descriptors, \<open>open\<close> of the path of a device fails with ENFILE
  when all descriptors are in use, with EINVAL when the mode is none of the three, and without an error code when \<open>malloc\<close> fails;
  none of these changes a descriptor in use. Otherwise, if the block for the name has room for the terminator, it returns the lowest
  free descriptor and leaves the others alone, \<open>fcntl\<close> gives back the mode it was opened with, and a write through it returns the count of
  the device, or EIO for any failure. If the block has only the strlen(filename) bytes that were asked for, the copy of the name
  writes behind it.\<close>

theorem fd_open_correct:
  assumes "fd_ok s ds" "p \<in> set ds" "name_at (fd_devs s) p = nm" "path = DEV_PATH @ c # nm"
  shows "if \<forall>d \<in> set (fdarray s). in_use d then fd_open mem s (Some path) flags = Some (- 1, Some ENFILE, s)
    else if open_mode flags = None then fd_open mem s (Some path) flags = Some (- 1, Some EINVAL, s)
    else (case mem of
        None \<Rightarrow> \<exists>s'. fd_open mem s (Some path) flags = Some (- 1, None, s') \<and> map fd_flags (fdarray s') = map fd_flags (fdarray s) \<and> fd_ok s' ds
      | Some room \<Rightarrow>
         if room \<le> length path then fd_open mem s (Some path) flags = None
         else \<exists>fd s'. fd_open mem s (Some path) flags = Some (int fd, None, s') \<and> fd < FD_MAX \<and> fd_ok s' ds \<and>
           \<not> in_use (fdarray s ! fd) \<and> (\<forall>i < fd. in_use (fdarray s ! i)) \<and> in_use (fdarray s' ! fd) \<and>
           (\<forall>i. i \<noteq> fd \<longrightarrow> fdarray s' ! i = fdarray s ! i) \<and> fd_fcntl s' (int fd) F_GETFL = (uint (flags AND 255), None) \<and>
           fd_write s' (int fd) (Some b) n =
             (let r = device_io_tx (Some (devs (fd_devs s) p)) (Some b) n in if r < 0 then (- 1, Some EIO) else (r, None)))"
proof (cases "free_fd (fdarray s) = length (fdarray s) \<or> open_mode flags = None \<or> mem = None \<or> (\<exists>room. mem = Some room \<and> room \<le> length path)")
  case True
  have "\<not> (\<forall>d \<in> set (fdarray s). in_use d)" if "free_fd (fdarray s) \<noteq> length (fdarray s)"
    using that free_fd_least(1,3) [of "fdarray s"] nth_mem [of "free_fd (fdarray s)" "fdarray s"] by auto
  then have all: "(\<forall>d \<in> set (fdarray s). in_use d) \<longleftrightarrow> free_fd (fdarray s) = length (fdarray s)"
    using free_fd_least(2) [of "fdarray s"] by (metis in_set_conv_nth)
  have pre: "strncmp (Some path) (Some DEV_PATH) (length DEV_PATH) = 0" using path_prefix assms(4) by simp
  show ?thesis
  proof (cases "free_fd (fdarray s) = length (fdarray s) \<or> open_mode flags = None")
    case True
    then show ?thesis using all pre by (auto simp: fd_open_def Let_def)
  next
    case False
    then obtain flg where flg: "open_mode flags = Some flg" by blast
    have lt: "free_fd (fdarray s) < length (fdarray s)" using False free_fd_least(1) [of "fdarray s"] by simp
    show ?thesis
    proof (cases mem)
      case None
      then show ?thesis using no_block [OF assms(1) lt flg pre] all lt flg by auto
    next
      case (Some room)
      then have "room \<le> length path" using True False by auto
      then show ?thesis using open_eq [OF assms(1) flg assms(2-4) lt, of room] Some all lt flg by simp
    qed
  qed
next
  case False
  then obtain flg room where flg: "open_mode flags = Some flg" and room: "mem = Some room" "length path < room" by auto
  note bits = mode_bits [OF flg]
  define fd where "fd = free_fd (fdarray s)"
  have lt: "fd < length (fdarray s)" using False free_fd_least(1) [of "fdarray s"] by (simp add: fd_def)
  note least = free_fd_least(2,3) [of "fdarray s", folded fd_def]
  define d where "d = \<lparr>fd_flags = flg OR FD_DATA_IS_RAW OR FD_DATA_IS_INUSE, fd_absfname = Some (room, path), fd_rawdev = Some p\<rparr>"
  define s' where "s' = s\<lparr>fdarray := (fdarray s)[fd := d]\<rparr>"
  have op: "fd_open mem s (Some path) flags = Some (int fd, None, s')"
    using open_eq [OF assms(1) flg assms(2-4), of room] lt room by (simp add: fd_def s'_def d_def)
  have use: "in_use d" using bits(2) by (simp add: in_use_def d_def)
  have get: "fdget s' (int fd) = Some d" using lt by (simp add: fdget_def s'_def)
  have "fd_ok s' ds"
    using assms(1,2) bits(1) set_update_subset_insert [of "fdarray s" fd d] by (auto simp: fd_ok_def s'_def d_def)
  moreover have "fd_fcntl s' (int fd) F_GETFL = (uint (flags AND 255), None)"
    using get bits(3) by (simp add: fd_fcntl_def d_def)
  moreover have "fd_write s' (int fd) (Some b) n =
      (let r = device_io_tx (Some (devs (fd_devs s) p)) (Some b) n in if r < 0 then (- 1, Some EIO) else (r, None))"
    using write_once [OF get use, of b n] bits(1) by (simp add: d_def fd_device_def s'_def)
  moreover have "\<not> (\<forall>d \<in> set (fdarray s). in_use d)" using least(2) lt nth_mem by blast
  moreover have "in_use (fdarray s' ! fd)" using use lt by (simp add: s'_def)
  moreover have "\<forall>i. i \<noteq> fd \<longrightarrow> fdarray s' ! i = fdarray s ! i" by (simp add: s'_def)
  moreover have "fd < FD_MAX" using lt assms(1) by (simp add: fd_ok_def)
  moreover have "\<not> room \<le> length path" using room(2) by simp
  ultimately show ?thesis using op lt least flg unfolding room(1) by (simp only: if_False option.case option.distinct) blast
qed

definition zero_fd :: fd_data where
  "zero_fd = \<lparr>fd_flags = 0, fd_absfname = None, fd_rawdev = None\<rparr>"

theorem fd_open_correct_witness:
  "\<exists>dv s'. device_create (Some 9) no_devices (Some sample_tty) 1 = Some (Some 9, dv) \<and>
     fd_open (Some 12) \<lparr>fdarray = replicate 64 zero_fd, fd_devs = dv\<rparr> (Some ''/dev/tty1'') O_RDWR = Some (0, None, s') \<and>
     fd_fcntl s' 0 F_GETFL = (2, None)"
proof -
  obtain dv where dv: "device_create (Some 9) no_devices (Some sample_tty) 1 = Some (Some 9, dv)" "dev_ok dv [9]" "name_at dv 9 = ''tty1''"
    using one_device by blast
  define s where "s = \<lparr>fdarray = replicate 64 zero_fd, fd_devs = dv\<rparr>"
  have z: "\<not> in_use zero_fd" by (simp add: in_use_def zero_fd_def)
  have ok: "fd_ok s [9]" using dv(2) z by (simp add: fd_ok_def s_def FD_MAX_def)
  have m: "open_mode O_RDWR \<noteq> None" "uint (O_RDWR AND 255) = 2" by (simp_all add: open_mode_def O_RDWR_def O_WRONLY_def O_RDONLY_def)
  have "\<not> (\<forall>d \<in> set (fdarray s). in_use d)" using z by (simp add: s_def)
  then obtain fd s' where fd: "fd_open (Some 12) s (Some ''/dev/tty1'') O_RDWR = Some (int fd, None, s')"
      "\<forall>i < fd. in_use (fdarray s ! i)" "fd < FD_MAX" "fd_fcntl s' (int fd) F_GETFL = (2, None)"
    using fd_open_correct [OF ok, of 9 "''tty1''" "''/dev/tty1''" "CHR ''/''" "Some 12" O_RDWR "[]" 0] dv(3) m
    by (auto simp: s_def DEV_PATH_def)
  have "fd = 0"
  proof (rule ccontr)
    assume "fd \<noteq> 0"
    then have "in_use (fdarray s ! 0)" using fd(2) by blast
    then show False using z by (simp add: s_def)
  qed
  then show ?thesis using fd dv(1) by (auto simp: s_def)
qed

text \<open>\<open>access\<close> denies what \<open>read\<close> and \<open>write\<close> do. It looks at the optional functions of the device only: a device that
  uses its driver's functions, as every device does after \<open>device_create\<close>, is reported as neither
  readable nor writable, although \<open>open\<close> and the transfers accept it.\<close>

theorem access_denies_plain_devices:
  assumes "fd_ok s ds" "p \<in> set ds" "name_at (fd_devs s) p = nm" "dv_read_fn (devs (fd_devs s) p) = None"
    "dv_write_fn (devs (fd_devs s) p) = None" "amode = R_OK \<or> amode = W_OK"
  shows "fd_access s (Some (DEV_PATH @ c # nm)) amode = Some (- 1, Some EACCES)"
proof -
  have "device_lookup_name (fd_devs s) (Some nm) = Some (Some p)" using lookup_exact [of "fd_devs s" ds p nm] assms(1-3) by (simp add: fd_ok_def)
  moreover have "dev_part (DEV_PATH @ c # nm) = Some nm" by (simp add: dev_part_def)
  ultimately show ?thesis using assms(4-6) path_prefix [of c nm]
    by (auto simp: fd_access_def Let_def R_OK_def W_OK_def X_OK_def F_OK_def)
qed

theorem access_denies_plain_devices_witness:
  "\<exists>dv. device_create (Some 9) no_devices (Some sample_tty) 1 = Some (Some 9, dv) \<and>
     fd_access \<lparr>fdarray = replicate 64 zero_fd, fd_devs = dv\<rparr> (Some ''/dev/tty1'') R_OK = Some (- 1, Some EACCES)"
proof -
  obtain dv where dv: "device_create (Some 9) no_devices (Some sample_tty) 1 = Some (Some 9, dv)" "dev_ok dv [9]" "name_at dv 9 = ''tty1''"
      "dv_read_fn (devs dv 9) = None" "dv_write_fn (devs dv 9) = None"
    using one_device by blast
  define s where "s = \<lparr>fdarray = replicate 64 zero_fd, fd_devs = dv\<rparr>"
  have ok: "fd_ok s [9]" using dv(2) by (simp add: fd_ok_def s_def FD_MAX_def in_use_def zero_fd_def)
  show ?thesis using access_denies_plain_devices [OF ok, of 9 "''tty1''" R_OK "CHR ''/''"] dv by (auto simp: s_def DEV_PATH_def)
qed

end
