(* ===== verification/Hashes.thy ===== *)
theory Hashes
  imports Prelude
begin

text \<open>
  The FNV-1a hashes of \<^verbatim>\<open>src/libs/fnv.c\<close> and the hash lists of \<^verbatim>\<open>src/libs/hash_list.c\<close>. A buffer is the
  list of its bytes, and reading beyond it is the fault \<open>None\<close>. A row of a hash list is its cell in the
  array followed by the cells chained to it; a row is reached through the array only, so the rows are
  kept by value. Whether \<open>malloc\<close> succeeds is an argument.
\<close>

unbundle bit_operations_syntax

section \<open>FNV-1a\<close>

definition FNV_PRIME_64 :: u64 where "FNV_PRIME_64 = 1099511628211"
definition FNV_OFS_64 :: u64 where "FNV_OFS_64 = 14695981039346656037"
definition FNV_PRIME_32 :: u32 where "FNV_PRIME_32 = 16777619"
definition FNV_OFS_32 :: u32 where "FNV_OFS_32 = 2166136261"

definition fnv_step_64 :: "u64 \<Rightarrow> u8 \<Rightarrow> u64" where
  "fnv_step_64 hash b = (hash XOR ucast b) * FNV_PRIME_64"

definition fnv_step_32 :: "u32 \<Rightarrow> u8 \<Rightarrow> u32" where
  "fnv_step_32 hash b = (hash XOR ucast b) * FNV_PRIME_32"

text \<open>The two loops: over a number of bytes, and up to the terminator.\<close>

fun buf_loop :: "('h \<Rightarrow> u8 \<Rightarrow> 'h) \<Rightarrow> 'h \<Rightarrow> u8 list \<Rightarrow> nat \<Rightarrow> 'h option" where
  "buf_loop step hash cur 0 = Some hash"
| "buf_loop step hash [] (Suc n) = None"
| "buf_loop step hash (b # cur) (Suc n) = buf_loop step (step hash b) cur n"

fun str_loop :: "('h \<Rightarrow> u8 \<Rightarrow> 'h) \<Rightarrow> 'h \<Rightarrow> u8 list \<Rightarrow> 'h option" where
  "str_loop step hash [] = None"
| "str_loop step hash (b # cur) = (if b \<noteq> 0 then str_loop step (step hash b) cur else Some hash)"

definition fnv_buf_64 :: "u8 list \<Rightarrow> nat \<Rightarrow> u64 option" where
  "fnv_buf_64 buffer n = buf_loop fnv_step_64 FNV_OFS_64 buffer n"

definition fnv_str_64 :: "u8 list \<Rightarrow> u64 option" where
  "fnv_str_64 str = str_loop fnv_step_64 FNV_OFS_64 str"

definition fnv_buf_32 :: "u8 list \<Rightarrow> nat \<Rightarrow> u32 option" where
  "fnv_buf_32 buffer n = buf_loop fnv_step_32 FNV_OFS_32 buffer n"

definition fnv_str_32 :: "u8 list \<Rightarrow> u32 option" where
  "fnv_str_32 str = str_loop fnv_step_32 FNV_OFS_32 str"

definition fold_16 :: "u32 \<Rightarrow> u16" where
  "fold_16 hash = ucast (drop_bit 16 hash XOR (hash AND 65535))"

definition fnv_buf_16 :: "u8 list \<Rightarrow> nat \<Rightarrow> u16 option" where
  "fnv_buf_16 buffer n = map_option fold_16 (fnv_buf_32 buffer n)"

definition fnv_str_16 :: "u8 list \<Rightarrow> u16 option" where
  "fnv_str_16 str = map_option fold_16 (fnv_str_32 str)"

section \<open>Hash lists\<close>

definition USHRT_MAX :: u32 where "USHRT_MAX = 65535"

text \<open>A cell: its data, \<open>None\<close> for \<open>NULL\<close>, and its hash.\<close>

record 'a hash_list_item =
  hi_data :: "'a option"
  hi_hash :: u16

record 'a hash_list_inst =
  hl_list :: "'a hash_list_item list list"
  hl_size :: u32

definition zero_item :: "'a hash_list_item" where
  "zero_item = \<lparr>hi_data = None, hi_hash = 0\<rparr>"

definition hash_list_init :: "bool \<Rightarrow> 'a hash_list_inst option \<Rightarrow> u32 \<Rightarrow> status \<times> 'a hash_list_inst option" where
  "hash_list_init mem inst hash_size =
     (case inst of
        None \<Rightarrow> (EINVAL, None)
      | Some i \<Rightarrow>
         if hash_size \<ge> 16 \<and> hash_size > USHRT_MAX then (EINVAL, inst)
         else (let hash_size = (if hash_size < 16 then 16 else hash_size) in
               if \<not> mem then (ENOMEM, inst)
               else (EOK, Some \<lparr>hl_list = replicate (unat hash_size) [zero_item], hl_size = hash_size\<rparr>)))"

text \<open>The row of a hash.\<close>

definition row_of :: "u16 \<Rightarrow> 'a hash_list_inst \<Rightarrow> nat" where
  "row_of hash l = unat (ucast hash mod hl_size l)"

definition upd_row :: "'a hash_list_inst \<Rightarrow> nat \<Rightarrow> 'a hash_list_item list \<Rightarrow> 'a hash_list_inst option" where
  "upd_row l i row = do { ls \<leftarrow> arr_set (hl_list l) i row; Some (l\<lparr>hl_list := ls\<rparr>) }"

definition hash_list_add ::
  "bool \<Rightarrow> 'a hash_list_inst option \<Rightarrow> 'a option \<Rightarrow> u16 \<Rightarrow> (status \<times> 'a hash_list_inst option) option" where
  "hash_list_add mem inst item hash =
     (case (inst, item) of
        (Some l, Some x) \<Rightarrow>
          if hl_size l = 0 then None
          else do { row \<leftarrow> arr_get (hl_list l) (row_of hash l);
                    case row of
                      [] \<Rightarrow> None
                    | cell # chain \<Rightarrow>
                       if hi_data cell = None
                       then do { l' \<leftarrow> upd_row l (row_of hash l) (\<lparr>hi_data = Some x, hi_hash = hash\<rparr> # chain); Some (EOK, Some l') }
                       else if mem
                       then do { l' \<leftarrow> upd_row l (row_of hash l) (row @ [\<lparr>hi_data = Some x, hi_hash = hash\<rparr>]); Some (EOK, Some l') }
                       else Some (EGENERIC, Some l) }
      | _ \<Rightarrow> Some (EINVAL, inst))"

definition hash_list_get :: "'a hash_list_inst option \<Rightarrow> u16 \<Rightarrow> 'a hash_list_item option option" where
  "hash_list_get inst hash =
     (case inst of
        None \<Rightarrow> Some None
      | Some l \<Rightarrow>
         if hl_size l = 0 then None
         else do { row \<leftarrow> arr_get (hl_list l) (row_of hash l); Some (find (\<lambda>c. hi_hash c = hash) row) })"

text \<open>
  \<open>hash_list_shrink_row\<close> copies every following cell one place forward and frees the last one; the result
  is the row that is left from this cell on.
\<close>

fun hash_list_shrink_row :: "'a hash_list_item list \<Rightarrow> 'a hash_list_item list" where
  "hash_list_shrink_row [] = []"
| "hash_list_shrink_row [item] = []"
| "hash_list_shrink_row (item # nxt # row) = nxt # hash_list_shrink_row (nxt # row)"

text \<open>The loop of \<open>hash_list_del\<close>; the boolean tells that the hash was found.\<close>

fun del_loop :: "u16 \<Rightarrow> 'a hash_list_item list \<Rightarrow> bool \<times> 'a hash_list_item list" where
  "del_loop hash [] = (False, [])"
| "del_loop hash (cursor # row) =
     (if hi_hash cursor = hash then (True, if row \<noteq> [] then hash_list_shrink_row (cursor # row) else [])
      else (case del_loop hash row of (found, row') \<Rightarrow> (found, cursor # row')))"

definition hash_list_del :: "'a hash_list_inst option \<Rightarrow> u16 \<Rightarrow> (status \<times> 'a hash_list_inst option) option" where
  "hash_list_del inst hash =
     (case inst of
        None \<Rightarrow> Some (EINVAL, None)
      | Some l \<Rightarrow>
         if hl_size l = 0 then None
         else do { row \<leftarrow> arr_get (hl_list l) (row_of hash l);
                   case row of
                     [] \<Rightarrow> None
                   | cell # chain \<Rightarrow>
                      if hi_hash cell = hash \<and> chain = []
                      then do { l' \<leftarrow> upd_row l (row_of hash l) [zero_item]; Some (EOK, Some l') }
                      else (case del_loop hash row of
                          (True, row') \<Rightarrow> do { l' \<leftarrow> upd_row l (row_of hash l) row'; Some (EOK, Some l') }
                        | (False, row') \<Rightarrow> Some (EGENERIC, Some l)) })"

text \<open>\<open>hash_list_done\<close> returns the number of cells it frees, row by row from the last cell on.\<close>

fun hash_list_clear_row :: "'a hash_list_item list \<Rightarrow> 'a hash_list_item list" where
  "hash_list_clear_row [] = []"
| "hash_list_clear_row (item # nxt) = hash_list_clear_row nxt @ [item]"

definition hash_list_done :: "'a hash_list_inst option \<Rightarrow> (status \<times> 'a hash_list_item list \<times> 'a hash_list_inst option) option" where
  "hash_list_done inst =
     (case inst of
        None \<Rightarrow> Some (EINVAL, [], None)
      | Some l \<Rightarrow>
         if length (hl_list l) < unat (hl_size l) \<or> [] \<in> set (hl_list l) then None
         else Some (EOK, concat (map (\<lambda>row. hash_list_clear_row (tl row)) (take (unat (hl_size l)) (hl_list l))),
                Some \<lparr>hl_list = [], hl_size = - 1\<rparr>))"

section \<open>FNV-1a: every byte counts\<close>

lemma buf_loop_foldl: "n \<le> length bs \<Longrightarrow> buf_loop step h bs n = Some (foldl step h (take n bs))"
  by (induction step h bs n rule: buf_loop.induct) auto

lemma str_loop_foldl: "0 \<notin> set bs \<Longrightarrow> str_loop step h (bs @ 0 # cs) = Some (foldl step h bs)"
  by (induction bs arbitrary: h) auto

lemma ucast_u8_inj:
  fixes a b :: u8
  shows "(ucast a :: u32) = ucast b \<Longrightarrow> a = b" "(ucast a :: u64) = ucast b \<Longrightarrow> a = b"
  by (simp_all add: word_unat_eq_iff unat_ucast_up)

lemma mult_cancel_inverse: "p * q = 1 \<Longrightarrow> x * p = y * p \<longleftrightarrow> x = y" for x y p q :: "'a::comm_monoid_mult"
  by (metis mult.assoc mult.right_neutral)

lemma xor_cancel:
  fixes u v w :: "'a::len word"
  shows "u XOR v = u XOR w \<longleftrightarrow> v = w" "v XOR u = w XOR u \<longleftrightarrow> v = w"
  by (metis xor.assoc xor.left_neutral xor_self_eq, metis xor.assoc xor.right_neutral xor_self_eq)

lemma fnv_step_32_inj: "fnv_step_32 h a = fnv_step_32 k a \<longleftrightarrow> h = k" "fnv_step_32 h a = fnv_step_32 h b \<longleftrightarrow> a = b"
proof -
  have p: "FNV_PRIME_32 * 899433627 = 1" by (simp add: FNV_PRIME_32_def)
  show "fnv_step_32 h a = fnv_step_32 k a \<longleftrightarrow> h = k" "fnv_step_32 h a = fnv_step_32 h b \<longleftrightarrow> a = b"
    unfolding fnv_step_32_def mult_cancel_inverse [OF p] xor_cancel using ucast_u8_inj(1) by auto
qed

lemma fnv_step_64_inj: "fnv_step_64 h a = fnv_step_64 k a \<longleftrightarrow> h = k" "fnv_step_64 h a = fnv_step_64 h b \<longleftrightarrow> a = b"
proof -
  have p: "FNV_PRIME_64 * 14886173955864302971 = 1" by (simp add: FNV_PRIME_64_def)
  show "fnv_step_64 h a = fnv_step_64 k a \<longleftrightarrow> h = k" "fnv_step_64 h a = fnv_step_64 h b \<longleftrightarrow> a = b"
    unfolding fnv_step_64_def mult_cancel_inverse [OF p] xor_cancel using ucast_u8_inj(2) by auto
qed

text \<open>The contract of a step: it can be undone for a known byte and separates bytes.\<close>

locale hash_step =
  fixes step :: "'h \<Rightarrow> u8 \<Rightarrow> 'h"
  assumes step_hash: "step h a = step k a \<Longrightarrow> h = k"
    and step_byte: "step h a = step h b \<Longrightarrow> a = b"
begin

lemma foldl_inj: "foldl step h bs = foldl step k bs \<longleftrightarrow> h = k"
  by (induction bs arbitrary: h k) (auto dest: step_hash)

lemma one_byte:
  assumes "a \<noteq> b"
  shows "foldl step h (xs @ a # ys) \<noteq> foldl step h (xs @ b # ys)"
  using assms by (auto simp: foldl_inj dest: step_byte)

end

interpretation fnv32: hash_step fnv_step_32
  by unfold_locales (simp_all add: fnv_step_32_inj)

interpretation fnv64: hash_step fnv_step_64
  by unfold_locales (simp_all add: fnv_step_64_inj)

text \<open>FNV-1a hashes. The hash of a string is the hash of the bytes before its terminator, and two buffers of
  the same length that differ in one byte never have the same 32 or 64 bit hash.\<close>

theorem fnv_correct:
  assumes "0 \<notin> set bs" "a \<noteq> b" "n = length xs + Suc (length ys)"
  shows "fnv_str_32 (bs @ 0 # cs) = fnv_buf_32 bs (length bs) \<and> fnv_str_64 (bs @ 0 # cs) = fnv_buf_64 bs (length bs) \<and>
    fnv_buf_32 (xs @ a # ys) n \<noteq> fnv_buf_32 (xs @ b # ys) n \<and> fnv_buf_64 (xs @ a # ys) n \<noteq> fnv_buf_64 (xs @ b # ys) n"
proof -
  have "fnv_buf_32 (xs @ a # ys) n \<noteq> fnv_buf_32 (xs @ b # ys) n"
    using fnv32.one_byte [OF assms(2), of FNV_OFS_32 xs ys] by (simp add: fnv_buf_32_def buf_loop_foldl assms(3))
  moreover have "fnv_buf_64 (xs @ a # ys) n \<noteq> fnv_buf_64 (xs @ b # ys) n"
    using fnv64.one_byte [OF assms(2), of FNV_OFS_64 xs ys] by (simp add: fnv_buf_64_def buf_loop_foldl assms(3))
  moreover have "fnv_str_32 (bs @ 0 # cs) = fnv_buf_32 bs (length bs)" "fnv_str_64 (bs @ 0 # cs) = fnv_buf_64 bs (length bs)"
    by (simp_all add: fnv_buf_32_def fnv_buf_64_def fnv_str_32_def fnv_str_64_def buf_loop_foldl str_loop_foldl assms(1))
  ultimately show ?thesis by blast
qed

lemma fnv_test_vectors:
  "fnv_buf_32 [] 0 = Some 0x811c9dc5" "fnv_buf_32 [97] 1 = Some 0xe40c292c" "fnv_buf_64 [97] 1 = Some 0xaf63dc4c8601ec8c"
  "fnv_str_32 [102, 111, 111, 98, 97, 114, 0] = Some 0xbf9cf968"
  by code_simp+

theorem fnv_correct_witness:
  "fnv_str_32 [97, 0] = fnv_buf_32 [97] 1 \<and> fnv_buf_32 [1, 2, 3] 3 \<noteq> fnv_buf_32 [1, 7, 3] 3"
  using fnv_correct [of "[97]" 2 7 3 "[1]" "[3]" "[]"] by simp

section \<open>Hash lists refine a map of queues\<close>

definition row_ok :: "'a hash_list_inst \<Rightarrow> nat \<Rightarrow> 'a hash_list_item list \<Rightarrow> bool" where
  "row_ok l i row \<longleftrightarrow> row = [zero_item] \<or> row \<noteq> [] \<and> (\<forall>c \<in> set row. hi_data c \<noteq> None \<and> row_of (hi_hash c) l = i)"

definition hlist_ok :: "'a hash_list_inst \<Rightarrow> bool" where
  "hlist_ok l \<longleftrightarrow> hl_size l \<noteq> 0 \<and> length (hl_list l) = unat (hl_size l) \<and> (\<forall>i < length (hl_list l). row_ok l i (hl_list l ! i))"

text \<open>The abstraction: for every hash the items stored with it, the oldest first.\<close>

definition items_in :: "u16 \<Rightarrow> 'a hash_list_item list \<Rightarrow> 'a list" where
  "items_in h row = map (\<lambda>c. the (hi_data c)) (filter (\<lambda>c. hi_hash c = h \<and> hi_data c \<noteq> None) row)"

definition stored :: "'a hash_list_inst \<Rightarrow> u16 \<Rightarrow> 'a list" where
  "stored l h = items_in h (hl_list l ! row_of h l)"

lemma items_in_simps [simp]:
  "items_in h [] = []" "items_in h (xs @ ys) = items_in h xs @ items_in h ys" "items_in h [zero_item] = []"
  "items_in h (\<lparr>hi_data = Some x, hi_hash = k\<rparr> # row) = (if k = h then [x] else []) @ items_in h row"
  by (simp_all add: items_in_def zero_item_def)

lemma row_of_upd [simp]: "row_of h (l\<lparr>hl_list := ls\<rparr>) = row_of h l"
  by (simp add: row_of_def)

lemma row_of_bound: "hlist_ok l \<Longrightarrow> row_of h l < length (hl_list l)"
  by (simp add: hlist_ok_def row_of_def unat_mod unat_gt_0)

lemma row_get: "hlist_ok l \<Longrightarrow> arr_get (hl_list l) (row_of h l) = Some (hl_list l ! row_of h l)"
  "hlist_ok l \<Longrightarrow> row_ok l (row_of h l) (hl_list l ! row_of h l)"
  using row_of_bound [of l h] by (auto simp: hlist_ok_def)

text \<open>Replacing the row of a hash by one that only differs in the items of this hash.\<close>

lemma row_put:
  assumes "hlist_ok l" "row_ok l (row_of h l) row" "\<And>k. k \<noteq> h \<Longrightarrow> items_in k row = items_in k (hl_list l ! row_of h l)"
  shows "\<exists>l'. upd_row l (row_of h l) row = Some l' \<and> hlist_ok l' \<and> stored l' = (stored l)(h := items_in h row)"
proof -
  define l' where "l' = l\<lparr>hl_list := (hl_list l)[row_of h l := row]\<rparr>"
  note b = row_of_bound [OF assms(1)]
  have r: "row_ok l' i = row_ok l i" for i by (simp add: fun_eq_iff row_ok_def l'_def)
  have "upd_row l (row_of h l) row = Some l'" using b [of h] by (simp add: upd_row_def l'_def)
  moreover have "row_ok l i ((hl_list l)[row_of h l := row] ! i)" if "i < length (hl_list l)" for i
    using that assms(1,2) by (cases "i = row_of h l") (auto simp: hlist_ok_def)
  then have "hlist_ok l'" using assms(1) unfolding hlist_ok_def r by (simp add: l'_def)
  moreover have "stored l' k = ((stored l)(h := items_in h row)) k" for k
    using assms(3) b [of h] by (auto simp: stored_def l'_def nth_list_update)
  ultimately show ?thesis by blast
qed

lemma hash_add_ok:
  assumes "hlist_ok l"
  shows "\<exists>l'. hash_list_add True (Some l) (Some x) h = Some (EOK, Some l') \<and> hlist_ok l' \<and>
    stored l' = (stored l)(h := stored l h @ [x])"
proof -
  define row where "row = hl_list l ! row_of h l"
  have nz: "hl_size l \<noteq> 0" using assms by (simp add: hlist_ok_def)
  note get = row_get [OF assms, of h, folded row_def]
  define new where "new = \<lparr>hi_data = Some x, hi_hash = h\<rparr>"
  define row' where "row' = (if row = [zero_item] then [new] else row @ [new])"
  have "row_ok l (row_of h l) row'" using get(2) by (auto simp: row_ok_def row'_def new_def)
  moreover have "\<And>k. k \<noteq> h \<Longrightarrow> items_in k row' = items_in k row" by (simp add: row'_def new_def)
  ultimately obtain l' where l': "upd_row l (row_of h l) row' = Some l'" "hlist_ok l'" "stored l' = (stored l)(h := items_in h row')"
    using row_put [OF assms] row_def by blast
  have "items_in h row' = stored l h @ [x]" by (simp add: row'_def new_def stored_def row_def [symmetric])
  moreover have "hash_list_add True (Some l) (Some x) h = Some (EOK, Some l')"
  proof (cases "row = [zero_item]")
    case True
    then show ?thesis using get(1) l'(1) nz by (simp add: hash_list_add_def row'_def new_def zero_item_def)
  next
    case False
    then obtain c chain y where c: "row = c # chain" "hi_data c = Some y" using get(2) by (cases row) (auto simp: row_ok_def)
    have "upd_row l (row_of h l) (row @ [new]) = Some l'" using False l'(1) by (simp add: row'_def)
    then show ?thesis using get(1) nz c by (simp add: hash_list_add_def new_def)
  qed
  ultimately show ?thesis using l' by simp
qed

lemma hash_get_ok:
  assumes "hlist_ok l"
  shows "\<exists>r. hash_list_get (Some l) h = Some r \<and> (case stored l h of
      x # xs \<Rightarrow> r = Some \<lparr>hi_data = Some x, hi_hash = h\<rparr> | [] \<Rightarrow> r = None \<or> h = 0 \<and> r = Some zero_item)"
proof -
  define row where "row = hl_list l ! row_of h l"
  have nz: "hl_size l \<noteq> 0" using assms by (simp add: hlist_ok_def)
  note get = row_get [OF assms, of h, folded row_def]
  have "(case items_in h row of x # xs \<Rightarrow> find (\<lambda>c. hi_hash c = h) row = Some \<lparr>hi_data = Some x, hi_hash = h\<rparr>
      | [] \<Rightarrow> find (\<lambda>c. hi_hash c = h) row = None)" if "\<forall>c \<in> set row. hi_data c \<noteq> None"
    using that by (induction row) (auto simp: items_in_def split: list.splits)
  then show ?thesis using get nz
    by (cases "row = [zero_item]") (auto simp: hash_list_get_def stored_def row_def [symmetric] row_ok_def zero_item_def items_in_def split: list.splits)
qed

lemma shrink_row: "hash_list_shrink_row (c # row) = row"
  by (induction row arbitrary: c) auto

lemma del_loop_found:
  "\<forall>x \<in> set xs. hi_hash x \<noteq> h \<Longrightarrow> hi_hash c = h \<Longrightarrow> del_loop h (xs @ c # ys) = (True, xs @ ys)"
  by (induction xs) (auto simp: shrink_row)

lemma del_loop_absent: "\<forall>x \<in> set row. hi_hash x \<noteq> h \<Longrightarrow> del_loop h row = (False, row)"
  by (induction row) auto

lemma items_in_Nil: "\<forall>c \<in> set row. hi_data c \<noteq> None \<Longrightarrow> items_in h row = [] \<longleftrightarrow> (\<forall>c \<in> set row. hi_hash c \<noteq> h)"
  by (auto simp: items_in_def filter_empty_conv)

lemma items_in_Cons: "hi_data c = Some x \<Longrightarrow> items_in h (c # row) = (if hi_hash c = h then [x] else []) @ items_in h row"
  by (simp add: items_in_def)

text \<open>A row with several cells, or with one cell of another hash.\<close>

lemma del_row:
  assumes "\<forall>c \<in> set row. hi_data c \<noteq> None"
  shows "items_in h row = [] \<Longrightarrow> del_loop h row = (False, row)"
    "items_in h row \<noteq> [] \<Longrightarrow> \<exists>row'. del_loop h row = (True, row') \<and> set row' \<subseteq> set row \<and> length row = Suc (length row') \<and>
       items_in h row' = tl (items_in h row) \<and> (\<forall>k. k \<noteq> h \<longrightarrow> items_in k row' = items_in k row)"
proof -
  show "items_in h row = [] \<Longrightarrow> del_loop h row = (False, row)" using items_in_Nil [OF assms] del_loop_absent by blast
  assume "items_in h row \<noteq> []"
  then have "\<exists>c \<in> set row. hi_hash c = h" using items_in_Nil [OF assms] by blast
  then obtain xs c ys where row: "row = xs @ c # ys" "hi_hash c = h" "\<forall>x \<in> set xs. hi_hash x \<noteq> h"
    using split_list_first_prop [of row "\<lambda>c. hi_hash c = h"] by blast
  obtain x where x: "hi_data c = Some x" using assms row(1) by auto
  have none: "items_in h xs = []" using row(3) by (simp add: items_in_def filter_empty_conv)
  have "items_in h (xs @ ys) = tl (items_in h row)" unfolding row(1) items_in_simps(2) items_in_Cons [OF x] none by (simp add: row(2))
  moreover have "items_in k (xs @ ys) = items_in k row" if "k \<noteq> h" for k
    unfolding row(1) items_in_simps(2) items_in_Cons [OF x] using that row(2) by simp
  moreover have "set (xs @ ys) \<subseteq> set row" "length row = Suc (length (xs @ ys))" unfolding row(1) by auto
  moreover have "del_loop h row = (True, xs @ ys)" unfolding row(1) by (rule del_loop_found [OF row(3,2)])
  ultimately show "\<exists>row'. del_loop h row = (True, row') \<and> set row' \<subseteq> set row \<and> length row = Suc (length row') \<and>
       items_in h row' = tl (items_in h row) \<and> (\<forall>k. k \<noteq> h \<longrightarrow> items_in k row' = items_in k row)" by blast
qed

lemma hash_del_ok:
  assumes "hlist_ok l"
  shows "\<exists>st l'. hash_list_del (Some l) h = Some (st, Some l') \<and> hlist_ok l' \<and> stored l' = (stored l)(h := tl (stored l h)) \<and>
    (stored l h \<noteq> [] \<longrightarrow> st = EOK) \<and> (stored l h = [] \<and> h \<noteq> 0 \<longrightarrow> st = EGENERIC \<and> l' = l)"
proof -
  define row where "row = hl_list l ! row_of h l"
  have nz: "hl_size l \<noteq> 0" using assms by (simp add: hlist_ok_def)
  note get = row_get [OF assms, of h, folded row_def]
  have st: "stored l h = items_in h row" by (simp add: stored_def row_def)
  obtain c chain where row: "row = c # chain" using get(2) by (cases row) (auto simp: row_ok_def)
  have triv: "(stored l)(h := tl (stored l h)) = stored l" if "stored l h = []" using that by (simp add: fun_eq_iff)
  show ?thesis
  proof (cases "hi_hash c = h \<and> chain = []")
    case True
    then have "items_in k [zero_item] = items_in k row" if "k \<noteq> h" for k using that by (simp add: row items_in_def zero_item_def)
    moreover have "row_ok l (row_of h l) [zero_item]" by (simp add: row_ok_def)
    ultimately obtain l' where l': "upd_row l (row_of h l) [zero_item] = Some l'" "hlist_ok l'" "stored l' = (stored l)(h := [])"
      using row_put [OF assms, of h "[zero_item]"] row_def by auto
    have "hash_list_del (Some l) h = Some (EOK, Some l')" using True get(1) nz l'(1) by (simp add: hash_list_del_def row)
    moreover have "tl (stored l h) = []" using True by (simp add: st row items_in_def)
    moreover have "stored l h = [] \<Longrightarrow> h = 0" using True get(2) by (auto simp: st row row_ok_def items_in_def zero_item_def)
    ultimately show ?thesis using l' by auto
  next
    case False
    then have step: "hash_list_del (Some l) h = (case del_loop h row of
        (True, row') \<Rightarrow> do { l' \<leftarrow> upd_row l (row_of h l) row'; Some (EOK, Some l') } | (False, row') \<Rightarrow> Some (EGENERIC, Some l))"
      using get(1) nz by (auto simp: hash_list_del_def row)
    show ?thesis
    proof (cases "row = [zero_item]")
      case True
      then have "del_loop h row = (False, row)" "stored l h = []" using False row by (auto simp: st)
      then show ?thesis using step triv assms by simp
    next
      case full: False
      then have data: "\<forall>c \<in> set row. hi_data c \<noteq> None \<and> row_of (hi_hash c) l = row_of h l" using get(2) by (auto simp: row_ok_def)
      then have data': "\<forall>c \<in> set row. hi_data c \<noteq> None" by blast
      show ?thesis
      proof (cases "items_in h row = []")
        case True
        then show ?thesis using del_row(1) [OF data' True] step triv assms st by simp
      next
        case False2: False
        obtain row' where row': "del_loop h row = (True, row')" "set row' \<subseteq> set row" "length row = Suc (length row')"
            "items_in h row' = tl (items_in h row)" "\<forall>k. k \<noteq> h \<longrightarrow> items_in k row' = items_in k row"
          using del_row(2) [OF data' False2] by blast
        have "row' \<noteq> []"
        proof
          assume "row' = []"
          then show False using row'(3) row False False2 by (auto simp: items_in_def)
        qed
        then have "row_ok l (row_of h l) row'" using row'(2) data by (auto simp: row_ok_def)
        then obtain l' where "upd_row l (row_of h l) row' = Some l'" "hlist_ok l'" "stored l' = (stored l)(h := items_in h row')"
          using row_put [OF assms, of h row'] row'(5) row_def by blast
        then show ?thesis using step row'(1,4) st False2 by simp
      qed
    qed
  qed
qed

text \<open>C34: hash lists. A hash list is a map from hashes to queues of items: an item added is the last of its hash,
  a look-up finds the oldest item of the hash, and a deletion removes it; the items of all other hashes, also
  those that share the row, stay as they are. For a hash without items the look-up returns NULL and the
  deletion EGENERIC, except that hash 0 also matches the cell of an empty row. An addition that needs memory for a cell is stated for a successful allocation.\<close>

theorem hash_list_refines_map:
  assumes "hlist_ok l"
  shows "(\<exists>l'. hash_list_add True (Some l) (Some x) h = Some (EOK, Some l') \<and> hlist_ok l' \<and> stored l' = (stored l)(h := stored l h @ [x])) \<and>
    (\<exists>r. hash_list_get (Some l) h = Some r \<and> (case stored l h of
       y # ys \<Rightarrow> r = Some \<lparr>hi_data = Some y, hi_hash = h\<rparr> | [] \<Rightarrow> r = None \<or> h = 0 \<and> r = Some zero_item)) \<and>
    (\<exists>st l'. hash_list_del (Some l) h = Some (st, Some l') \<and> hlist_ok l' \<and> stored l' = (stored l)(h := tl (stored l h)) \<and>
       (stored l h \<noteq> [] \<longrightarrow> st = EOK) \<and> (stored l h = [] \<and> h \<noteq> 0 \<longrightarrow> st = EGENERIC \<and> l' = l))"
  using hash_add_ok [OF assms] hash_get_ok [OF assms] hash_del_ok [OF assms] by blast

lemma init_ok:
  assumes "hash_size \<le> USHRT_MAX"
  shows "\<exists>l. hash_list_init True (Some i) hash_size = (EOK, Some l) \<and> hlist_ok l \<and> (\<forall>h. stored l h = [])"
proof -
  define n where "n = (if hash_size < 16 then 16 else hash_size)"
  define l where "l = \<lparr>hl_list = replicate (unat n) [zero_item :: 'a hash_list_item], hl_size = n\<rparr>"
  have "n \<noteq> 0" by (auto simp: n_def)
  then have "hlist_ok l" by (simp add: hlist_ok_def l_def row_ok_def)
  moreover from this have "stored l h = []" for h using row_of_bound [of l h] by (simp add: stored_def l_def)
  moreover have "hash_list_init True (Some i) hash_size = (EOK, Some l)"
    using assms by (auto simp: hash_list_init_def l_def n_def)
  ultimately show ?thesis by blast
qed

theorem hash_list_refines_map_witness:
  "\<exists>l l'. hash_list_init True (Some \<lparr>hl_list = [], hl_size = 0\<rparr>) 8 = (EOK, Some l) \<and>
     hash_list_add True (Some l) (Some (7::nat)) 300 = Some (EOK, Some l') \<and> stored l' 300 = [7] \<and> hash_list_get (Some l) 300 = Some None"
proof -
  obtain l where l: "hash_list_init True (Some \<lparr>hl_list = [], hl_size = 0\<rparr>) 8 = (EOK, Some l)" "hlist_ok l" "\<forall>h. stored l h = ([] :: nat list)"
    using init_ok [of 8 "\<lparr>hl_list = [], hl_size = 0\<rparr>"] by (auto simp: USHRT_MAX_def)
  then show ?thesis using hash_list_refines_map [OF l(2), of 7 300] by auto
qed

end
