(* ===== verification/Pakman.thy ===== *)
theory Pakman
  imports Cbuffers
begin

text \<open>
  The packet pools of \<^verbatim>\<open>src/libs/pakman.c\<close>: a circular buffer of packet descriptors over a storage area
  that is handed out in cache lines. A pointer to a packet is the index of its descriptor; addresses are
  32 bit words. What \<open>calloc\<close> returns for the three blocks is an argument; the bytes of the storage are
  not modelled.
\<close>

unbundle bit_operations_syntax

definition CACHE_LINE :: u32 where "CACHE_LINE = 64"

definition ALNC :: "u32 \<Rightarrow> u32" where
  "ALNC x = (x + CACHE_LINE - 1) AND NOT (CACHE_LINE - 1)"

record packet_int =
  pk_data :: u32
  pk_payload_start :: u32
  pk_payload_cursor :: u32
  pk_payload_size :: u16
  pk_data_size :: u16
  pk_chunks :: u16

record pakman =
  pm_flags :: u16
  packets_number :: u16
  storage_free_chunks :: u32
  pkts :: "packet_int list"
  pkts_head :: u32
  pkts_tail :: u32
  pm_storage :: u32
  storage_first_chunk :: u32
  storage_next_chunk :: u32
  storage_last_chunk :: u32

definition zero_packet :: packet_int where
  "zero_packet = \<lparr>pk_data = 0, pk_payload_start = 0, pk_payload_cursor = 0, pk_payload_size = 0, pk_data_size = 0, pk_chunks = 0\<rparr>"

definition space_in_packet :: "pakman \<Rightarrow> u32" where
  "space_in_packet pk =
     (if pkts_head pk = pkts_tail pk then ucast (packets_number pk) - 1
      else if pkts_head pk < pkts_tail pk then pkts_head pk + ucast (packets_number pk) - pkts_tail pk - 1
      else pkts_head pk - pkts_tail pk - 1)"

definition space_in_storage :: "pakman \<Rightarrow> u32" where
  "space_in_storage pk = storage_free_chunks pk"

text \<open>\<open>hdr\<close>, \<open>dsc\<close> and \<open>stg\<close>: the descriptor of the pool, the packet descriptors and the storage from \<open>calloc\<close>;
  \<open>ptr\<close> tells that \<open>pakmanptr\<close> is not \<open>NULL\<close>. The second component is what is stored through it.\<close>

definition init_pakman :: "bool \<Rightarrow> bool \<Rightarrow> u32 option \<Rightarrow> u32 \<Rightarrow> u32 \<Rightarrow> bool \<Rightarrow> status \<times> pakman option" where
  "init_pakman hdr dsc stg bytes packets ptr =
     (if bytes = 0 \<or> packets = 0 \<or> \<not> ptr then (EINVAL, None)
      else
        (let slot_num = ALNC bytes div CACHE_LINE;
             packets = (if slot_num < packets then slot_num else packets)
         in if \<not> hdr \<or> \<not> dsc then (ENOMEM, None)
            else case stg of
              None \<Rightarrow> (ENOMEM, None)
            | Some storage \<Rightarrow>
               (EOK, Some \<lparr>pm_flags = 0, packets_number = ucast packets, storage_free_chunks = slot_num,
                  pkts = replicate (unat packets) zero_packet, pkts_head = 0, pkts_tail = 0, pm_storage = storage,
                  storage_first_chunk = ALNC storage, storage_next_chunk = ALNC storage,
                  storage_last_chunk = ALNC storage + CACHE_LINE * slot_num\<rparr>)))"

text \<open>The length as it is stored back into its 16 bit variable.\<close>

definition aligned_len :: "u16 \<Rightarrow> u16" where
  "aligned_len len = ucast (ALNC (ucast len))"

definition pakman_get_packet :: "pakman option \<Rightarrow> u16 \<Rightarrow> (nat option \<times> pakman option) option" where
  "pakman_get_packet pakmanptr len =
     (case pakmanptr of
        None \<Rightarrow> Some (None, None)
      | Some pk \<Rightarrow>
         if space_in_packet pk = 0 \<or> space_in_storage pk = 0 then Some (None, pakmanptr)
         else
           (let len = aligned_len len in
            if ucast len > CACHE_LINE * space_in_storage pk then Some (None, pakmanptr)
            else if packets_number pk = 0 then None
            else do {
              let i = unat (pkts_tail pk);
              let data = storage_next_chunk pk;
              ps \<leftarrow> arr_set (pkts pk) i \<lparr>pk_data = data, pk_payload_start = data, pk_payload_cursor = data,
                     pk_payload_size = len, pk_data_size = len, pk_chunks = len div ucast CACHE_LINE\<rparr>;
              let nxt = data + ucast len;
              Some (Some i, Some (pk\<lparr>pkts := ps,
                pkts_tail := (pkts_tail pk + 1) mod ucast (packets_number pk),
                storage_free_chunks := storage_free_chunks pk - ucast (len div ucast CACHE_LINE),
                storage_next_chunk := (if nxt = storage_last_chunk pk then storage_first_chunk pk else nxt)\<rparr>)) }))"

definition pakman_put_packet :: "pakman option \<Rightarrow> nat option \<Rightarrow> (status \<times> pakman option) option" where
  "pakman_put_packet pakmanptr pkt =
     (case (pakmanptr, pkt) of
        (Some pk, Some i) \<Rightarrow>
          if i \<noteq> unat (pkts_head pk) then Some (EPERM, pakmanptr)
          else if packets_number pk = 0 then None
          else do { p \<leftarrow> arr_get (pkts pk) i;
                    ps \<leftarrow> arr_set (pkts pk) i zero_packet;
                    Some (EOK, Some (pk\<lparr>pkts := ps, pkts_head := (pkts_head pk + 1) mod ucast (packets_number pk),
                      storage_free_chunks := storage_free_chunks pk + ucast (pk_chunks p)\<rparr>)) }
      | _ \<Rightarrow> Some (EINVAL, pakmanptr))"

text \<open>\<open>delete_pakman\<close> returns the block of the storage it frees.\<close>

definition delete_pakman :: "pakman option \<Rightarrow> status \<times> u32 option" where
  "delete_pakman pakmanptr = (case pakmanptr of None \<Rightarrow> (EINVAL, None) | Some pk \<Rightarrow> (EOK, Some (pm_storage pk)))"

section \<open>The descriptors as a ring\<close>

definition ring_of :: "pakman \<Rightarrow> cbuffer" where
  "ring_of pk = \<lparr>cb_head = pkts_head pk, cb_tail = pkts_tail pk, cb_bufsize = ucast (packets_number pk)\<rparr>"

text \<open>The packets in use, the oldest first.\<close>

definition outstanding :: "pakman \<Rightarrow> packet_int list" where
  "outstanding pk = ring_contents (ring_of pk) (pkts pk)"

definition lines :: "packet_int list \<Rightarrow> nat" where
  "lines ps = sum_list (map (\<lambda>p. unat (pk_chunks p)) ps)"

definition pk_ok :: "nat \<Rightarrow> pakman \<Rightarrow> bool" where
  "pk_ok slots pk \<longleftrightarrow> cb_ok (ring_of pk) \<and> length (pkts pk) = nsize (ring_of pk) \<and> 64 * slots < 2 ^ 32 \<and>
     unat (storage_free_chunks pk) + lines (outstanding pk) = slots"

lemma lines_simps [simp]: "lines [] = 0" "lines (p # ps) = unat (pk_chunks p) + lines ps" "lines (ps @ qs) = lines ps + lines qs"
  by (simp_all add: lines_def)

lemma space_ring: "space_in_packet pk = cbuffer_free_space (ring_of pk)"
  by (auto simp: space_in_packet_def cbuffer_free_space_def ring_of_def algebra_simps)

lemma nsize_ring [simp]: "nsize (ring_of pk) = unat (packets_number pk)"
  by (simp add: ring_of_def unat_ucast_up)

lemma advance_mod:
  assumes "a < (n :: u32)"
  shows "(a + 1) mod n = (if a + 1 = n then 0 else a + 1)"
proof -
  have "unat (a + 1) = Suc (unat a)" using assms by (intro unat_inc_bounded [of _ n]) (simp add: word_less_nat_alt)
  then have "a + 1 \<le> n" using assms by (simp add: word_le_nat_alt word_less_nat_alt)
  then show ?thesis by (auto simp: word_unat_eq_iff unat_mod word_le_nat_alt)
qed

section \<open>Rounding to cache lines\<close>

lemma unat_clear_low: "unat (x AND NOT 63 :: u32) = 64 * (unat x div 64)"
proof -
  have m: "(63 :: u32) = mask 6" by (simp add: mask_eq_exp_minus_1)
  have "x AND NOT 63 = push_bit 6 (drop_bit 6 x)" unfolding m by (rule bit_eqI) (auto simp: bit_simps)
  also have "\<dots> = of_nat (64 * unat (drop_bit 6 x))" by (simp add: push_bit_eq_mult mult.commute)
  also have "unat (drop_bit 6 x) = unat x div 64" by (simp add: drop_bit_eq_div unat_div)
  finally have e: "x AND NOT 63 = of_nat (64 * (unat x div 64))" .
  have "64 * (unat x div 64) \<le> unat x" by simp
  then show ?thesis unfolding e using unat_bound [of x] by (intro unat_of_nat_small) simp
qed

lemma ALNC_small:
  assumes "unat x + 63 < 2 ^ 32"
  shows "unat (ALNC x) = 64 * ((unat x + 63) div 64)"
proof -
  have "unat (x + 63) = unat x + 63" using assms by (simp add: unat_word_ariths)
  moreover have "ALNC x = (x + 63) AND NOT 63" by (simp add: ALNC_def CACHE_LINE_def add.commute)
  ultimately show ?thesis by (simp only: unat_clear_low)
qed

text \<open>The cache lines of a request; a length above 65472 is rounded up to 65536 and stored as 0.\<close>

definition need :: "u16 \<Rightarrow> nat" where
  "need len = (if unat len \<le> 65472 then (unat len + 63) div 64 else 0)"

lemma aligned_len_need: "unat (aligned_len len) = 64 * need len"
proof -
  have b: "unat len < 65536" using unat_bound [of len] by simp
  have u: "unat (ucast len :: u32) = unat len" by (simp add: unat_ucast_up)
  have a: "unat (ALNC (ucast len)) = 64 * ((unat len + 63) div 64)"
    using ALNC_small [of "ucast len"] b u by simp
  have "unat (aligned_len len) = 64 * ((unat len + 63) div 64) mod 65536"
    by (simp add: aligned_len_def unsigned_ucast_eq a take_bit_eq_mod)
  also have "\<dots> = 64 * need len"
  proof (cases "unat len \<le> 65472")
    case True
    then have "(unat len + 63) div 64 \<le> 1023" using div_le_mono [of "unat len + 63" 65535 64] by simp
    then show ?thesis using True by (simp add: need_def)
  next
    case False
    then have "(unat len + 63) div 64 = 1024"
      using b div_le_mono [of 65536 "unat len + 63" 64] div_le_mono [of "unat len + 63" 65599 64] by simp
    then show ?thesis using False by (simp add: need_def)
  qed
  finally show ?thesis .
qed

lemma need_bound: "need len < 1024"
  using aligned_len_need [of len] unat_bound [of "aligned_len len"] by simp

lemma len_chunks: "unat (aligned_len len div ucast CACHE_LINE) = need len"
  by (simp add: unat_div aligned_len_need CACHE_LINE_def)

text \<open>The slot that the head leaves is not read by the ring that remains.\<close>

lemma popped_slot:
  assumes ok: "cb_ok c" and N: "0 < nused c"
  shows "ring_contents (cbuffer_remove c) (buf[nhead c := x]) = ring_contents (cbuffer_remove c) buf"
proof -
  have "(nhead (cbuffer_remove c) + k) mod nsize c \<noteq> nhead c" if "k < nused c - 1" for k
  proof -
    have l: "Suc k < nused c" "nused c < nsize c" "nhead c < nsize c" using that nused_less [OF ok] ok by (auto simp: cb_ok_nat)
    have "(nhead (cbuffer_remove c) + k) mod nsize c = (nhead c + Suc k) mod nsize c"
    proof (cases "Suc (nhead c) = nsize c")
      case True
      then have "(nhead c + Suc k) mod nsize c = k mod nsize c" by (metis add_Suc_shift mod_add_self1)
      then show ?thesis unfolding nhead_remove [OF ok] using True by (simp only: refl if_True add_0)
    qed (simp add: nhead_remove [OF ok])
    also have "\<dots> = (if nhead c + Suc k < nsize c then nhead c + Suc k else nhead c + Suc k - nsize c)"
      using l by (simp add: mod_if)
    finally show ?thesis using l by (auto split: if_splits)
  qed
  then have "buf[nhead c := x] ! ((nhead (cbuffer_remove c) + k) mod nsize c) = buf ! ((nhead (cbuffer_remove c) + k) mod nsize c)"
    if "k < nused c - 1" for k using that by (metis nth_list_update_neq)
  then show ?thesis using nused_remove [OF ok N] by (auto simp: ring_contents_def)
qed

section \<open>Getting and returning packets\<close>

lemma ring_advance:
  assumes "cb_ok (ring_of pk)"
  shows "ring_of (pk\<lparr>pkts := ps, pkts_tail := (pkts_tail pk + 1) mod ucast (packets_number pk), storage_free_chunks := f, storage_next_chunk := x\<rparr>)
      = cbuffer_add (ring_of pk)"
    "ring_of (pk\<lparr>pkts := ps, pkts_head := (pkts_head pk + 1) mod ucast (packets_number pk), storage_free_chunks := f\<rparr>)
      = cbuffer_remove (ring_of pk)"
  using assms advance_mod by (auto simp: ring_of_def cbuffer_add_def cbuffer_remove_def cb_ok_def Let_def)

definition new_packet :: "pakman \<Rightarrow> u16 \<Rightarrow> packet_int" where
  "new_packet pk len = \<lparr>pk_data = storage_next_chunk pk, pk_payload_start = storage_next_chunk pk,
     pk_payload_cursor = storage_next_chunk pk, pk_payload_size = aligned_len len, pk_data_size = aligned_len len,
     pk_chunks = aligned_len len div ucast CACHE_LINE\<rparr>"

definition next_after :: "pakman \<Rightarrow> u16 \<Rightarrow> u32" where
  "next_after pk len =
     (let nxt = storage_next_chunk pk + ucast (aligned_len len) in
      if nxt = storage_last_chunk pk then storage_first_chunk pk else nxt)"

definition fits :: "pakman \<Rightarrow> u16 \<Rightarrow> bool" where
  "fits pk len \<longleftrightarrow> length (outstanding pk) + 1 < unat (packets_number pk) \<and> storage_free_chunks pk \<noteq> 0 \<and>
     need len \<le> unat (storage_free_chunks pk)"

lemma fits_code:
  assumes "pk_ok slots pk"
  shows "space_in_packet pk = 0 \<or> space_in_storage pk = 0 \<or> ucast (aligned_len len) > CACHE_LINE * space_in_storage pk \<longleftrightarrow> \<not> fits pk len"
proof -
  have s: "64 * unat (storage_free_chunks pk) < 2 ^ 32" using assms by (auto simp: pk_ok_def)
  then have "unat (CACHE_LINE * storage_free_chunks pk) = 64 * unat (storage_free_chunks pk)"
    by (simp add: CACHE_LINE_def unat_word_ariths)
  then have l: "ucast (aligned_len len) > CACHE_LINE * storage_free_chunks pk \<longleftrightarrow> unat (storage_free_chunks pk) < need len"
    by (simp add: word_less_nat_alt unat_ucast_up aligned_len_need)
  have ok: "cb_ok (ring_of pk)" using assms by (simp add: pk_ok_def)
  have "space_in_packet pk = 0 \<longleftrightarrow> \<not> length (outstanding pk) + 1 < unat (packets_number pk)"
    using free_space_nused [OF ok] nused_less [OF ok] by (auto simp: space_ring outstanding_def word_unat_eq_iff)
  then show ?thesis using l by (auto simp: fits_def space_in_storage_def)
qed

lemma get_refused: "pk_ok slots pk \<Longrightarrow> \<not> fits pk len \<Longrightarrow> pakman_get_packet (Some pk) len = Some (None, Some pk)"
  using fits_code [of slots pk len] by (auto simp: pakman_get_packet_def Let_def)

lemma get_ok:
  assumes "pk_ok slots pk" "fits pk len"
  shows "\<exists>pk'. pakman_get_packet (Some pk) len = Some (Some (unat (pkts_tail pk)), Some pk') \<and> pk_ok slots pk' \<and>
    outstanding pk' = outstanding pk @ [new_packet pk len] \<and> storage_next_chunk pk' = next_after pk len \<and>
    storage_first_chunk pk' = storage_first_chunk pk \<and> storage_last_chunk pk' = storage_last_chunk pk"
proof -
  have ok: "cb_ok (ring_of pk)" "length (pkts pk) = nsize (ring_of pk)" using assms(1) by (auto simp: pk_ok_def)
  have t: "unat (pkts_tail pk) < length (pkts pk)" "ntail (ring_of pk) = unat (pkts_tail pk)" using ok by (auto simp: cb_ok_nat) (simp_all add: ring_of_def)
  define pk' where "pk' = pk\<lparr>pkts := (pkts pk)[unat (pkts_tail pk) := new_packet pk len],
    pkts_tail := (pkts_tail pk + 1) mod ucast (packets_number pk),
    storage_free_chunks := storage_free_chunks pk - ucast (aligned_len len div ucast CACHE_LINE),
    storage_next_chunk := next_after pk len\<rparr>"
  have r: "ring_of pk' = cbuffer_add (ring_of pk)" unfolding pk'_def by (rule ring_advance(1) [OF ok(1)])
  have S: "Suc (nused (ring_of pk)) < nsize (ring_of pk)" using assms(2) by (simp add: fits_def outstanding_def)
  have out: "outstanding pk' = outstanding pk @ [new_packet pk len]"
    using ring_push [OF ok S, of "new_packet pk len"] unfolding outstanding_def r by (simp add: pk'_def t(2))
  have n: "unat (ucast (aligned_len len div ucast CACHE_LINE) :: u32) = need len" using len_chunks by (simp add: unat_ucast_up)
  have "ucast (aligned_len len div ucast CACHE_LINE) \<le> storage_free_chunks pk" using assms(2) n by (simp add: word_le_nat_alt fits_def)
  then have "unat (storage_free_chunks pk') = unat (storage_free_chunks pk) - need len" by (simp add: pk'_def unat_sub_le n)
  moreover have "unat (pk_chunks (new_packet pk len)) = need len" by (simp add: new_packet_def len_chunks)
  ultimately have "pk_ok slots pk'" using assms ok cb_ok_add [OF ok(1)] unfolding pk_ok_def r out
    by (simp add: fits_def) (simp add: pk'_def)
  moreover have "pakman_get_packet (Some pk) len = Some (Some (unat (pkts_tail pk)), Some pk')"
    using fits_code [OF assms(1), of len] assms(2) t(1) S
    by (auto simp: pakman_get_packet_def Let_def pk'_def new_packet_def next_after_def unat_gt_0)
  ultimately show ?thesis using out by (simp add: pk'_def)
qed

lemma put_refused: "i \<noteq> unat (pkts_head pk) \<Longrightarrow> pakman_put_packet (Some pk) (Some i) = Some (EPERM, Some pk)"
  by (simp add: pakman_put_packet_def)

lemma put_ok:
  assumes "pk_ok slots pk" "outstanding pk = p # rest"
  shows "\<exists>pk'. pakman_put_packet (Some pk) (Some (unat (pkts_head pk))) = Some (EOK, Some pk') \<and> pk_ok slots pk' \<and>
    outstanding pk' = rest \<and> storage_next_chunk pk' = storage_next_chunk pk \<and>
    storage_first_chunk pk' = storage_first_chunk pk \<and> storage_last_chunk pk' = storage_last_chunk pk"
proof -
  have ok: "cb_ok (ring_of pk)" "length (pkts pk) = nsize (ring_of pk)" using assms(1) by (auto simp: pk_ok_def)
  have h: "unat (pkts_head pk) < length (pkts pk)" "nhead (ring_of pk) = unat (pkts_head pk)" using ok by (auto simp: cb_ok_nat) (simp_all add: ring_of_def)
  have N: "0 < nused (ring_of pk)" using assms(2) length_ring_contents [of "ring_of pk" "pkts pk"] by (simp add: outstanding_def)
  have pop: "p = pkts pk ! unat (pkts_head pk)" "rest = ring_contents (cbuffer_remove (ring_of pk)) (pkts pk)"
    using ring_pop [OF ok(1) N, of "pkts pk"] assms(2) by (simp_all add: outstanding_def h(2))
  define pk' where "pk' = pk\<lparr>pkts := (pkts pk)[unat (pkts_head pk) := zero_packet],
    pkts_head := (pkts_head pk + 1) mod ucast (packets_number pk), storage_free_chunks := storage_free_chunks pk + ucast (pk_chunks p)\<rparr>"
  have r: "ring_of pk' = cbuffer_remove (ring_of pk)" unfolding pk'_def by (rule ring_advance(2) [OF ok(1)])
  have "ring_contents (cbuffer_remove (ring_of pk)) (pkts pk') = ring_contents (cbuffer_remove (ring_of pk)) (pkts pk)"
    unfolding pk'_def by (simp add: popped_slot [OF ok(1) N] h(2) [symmetric])
  then have out: "outstanding pk' = rest" by (simp add: outstanding_def r pop(2))
  have "unat (storage_free_chunks pk) + unat (pk_chunks p) + lines rest = slots" "slots < 2 ^ 32"
    using assms by (auto simp: pk_ok_def)
  moreover from this have "unat (storage_free_chunks pk') = unat (storage_free_chunks pk) + unat (pk_chunks p)"
    by (simp add: pk'_def unat_word_ariths unat_ucast_up)
  ultimately have "pk_ok slots pk'" using assms ok cb_ok_remove [OF ok(1)] unfolding pk_ok_def r out
    by simp (simp add: pk'_def)
  moreover have "pakman_put_packet (Some pk) (Some (unat (pkts_head pk))) = Some (EOK, Some pk')"
    using h(1) ok by (auto simp: pakman_put_packet_def pk'_def pop(1) [symmetric])
  ultimately show ?thesis using out by (simp add: pk'_def)
qed


section \<open>Packets of one cache line\<close>

definition line_at :: "nat \<Rightarrow> pakman \<Rightarrow> nat \<Rightarrow> nat" where
  "line_at slots pk k = unat (storage_first_chunk pk) + 64 * (k mod slots)"

text \<open>All packets in use have one line, and they lie one after the other from line \<open>c\<close> on.\<close>

definition line_layout :: "nat \<Rightarrow> nat \<Rightarrow> pakman \<Rightarrow> bool" where
  "line_layout slots c pk \<longleftrightarrow> 0 < slots \<and> unat (storage_first_chunk pk) + 64 * slots < 2 ^ 32 \<and>
     unat (storage_last_chunk pk) = unat (storage_first_chunk pk) + 64 * slots \<and>
     unat (storage_next_chunk pk) = line_at slots pk (c + length (outstanding pk)) \<and>
     (\<forall>i < length (outstanding pk). pk_chunks (outstanding pk ! i) = 1 \<and> unat (pk_data (outstanding pk ! i)) = line_at slots pk (c + i))"

lemma line_next:
  assumes "line_layout slots c pk" "need len = 1"
  shows "unat (next_after pk len) = line_at slots pk (Suc (c + length (outstanding pk)))"
proof -
  define k where "k = (c + length (outstanding pk)) mod slots"
  have l: "k < slots" "unat (storage_first_chunk pk) + 64 * slots < 2 ^ 32" "unat (storage_next_chunk pk) = unat (storage_first_chunk pk) + 64 * k"
    using assms(1) by (simp_all add: line_layout_def line_at_def k_def)
  have "unat (ucast (aligned_len len) :: u32) = 64" using assms(2) aligned_len_need [of len] by (simp add: unat_ucast_up)
  then have n: "unat (storage_next_chunk pk + ucast (aligned_len len)) = unat (storage_first_chunk pk) + 64 * Suc k"
    using l by (simp add: unat_word_ariths)
  have "Suc (c + length (outstanding pk)) mod slots = (if Suc k = slots then 0 else Suc k)" by (simp add: k_def mod_Suc)
  moreover have "storage_next_chunk pk + ucast (aligned_len len) = storage_last_chunk pk \<longleftrightarrow> Suc k = slots"
    using n assms(1) by (simp add: word_unat_eq_iff line_layout_def) arith
  ultimately show ?thesis using n by (simp add: next_after_def Let_def line_at_def)
qed

lemma line_get:
  assumes "line_layout slots c pk" "need len = 1" "outstanding pk' = outstanding pk @ [new_packet pk len]"
    and "storage_next_chunk pk' = next_after pk len" "storage_first_chunk pk' = storage_first_chunk pk" "storage_last_chunk pk' = storage_last_chunk pk"
  shows "line_layout slots c pk'"
proof -
  have "unat (pk_chunks (new_packet pk len)) = 1" by (simp add: new_packet_def len_chunks assms(2))
  then have "pk_chunks (new_packet pk len) = 1" by (simp add: word_unat_eq_iff)
  then show ?thesis using assms(1,3-6) line_next [OF assms(1,2)]
    by (auto simp: line_layout_def line_at_def nth_append less_Suc_eq) (simp add: new_packet_def)
qed

lemma line_put:
  assumes "line_layout slots c pk" "outstanding pk = p # outstanding pk'"
    and "storage_next_chunk pk' = storage_next_chunk pk" "storage_first_chunk pk' = storage_first_chunk pk" "storage_last_chunk pk' = storage_last_chunk pk"
  shows "line_layout slots (Suc c) pk'"
  using assms by (auto simp: line_layout_def line_at_def nth_Cons' dest: spec [of _ "Suc _"])

lemma lines_ones: "\<forall>p \<in> set ps. pk_chunks p = 1 \<Longrightarrow> lines ps = length ps"
  by (induction ps) auto

lemma line_apart:
  assumes "line_layout slots c pk" "pk_ok slots pk"
  shows "distinct (map pk_data (outstanding pk))"
    "\<forall>p \<in> set (outstanding pk). unat (storage_first_chunk pk) \<le> unat (pk_data p) \<and> unat (pk_data p) + 64 \<le> unat (storage_last_chunk pk) \<and>
      64 dvd unat (pk_data p) - unat (storage_first_chunk pk)"
proof -
  let ?n = "length (outstanding pk)"
  have one: "\<forall>p \<in> set (outstanding pk). pk_chunks p = 1" using assms(1) by (auto simp: line_layout_def in_set_conv_nth)
  then have n: "?n \<le> slots" using lines_ones [OF one] assms(2) by (simp add: pk_ok_def)
  have d: "unat (pk_data (outstanding pk ! i)) = unat (storage_first_chunk pk) + 64 * ((c + i) mod slots)" if "i < ?n" for i
    using that assms(1) by (simp add: line_layout_def line_at_def)
  show "\<forall>p \<in> set (outstanding pk). unat (storage_first_chunk pk) \<le> unat (pk_data p) \<and> unat (pk_data p) + 64 \<le> unat (storage_last_chunk pk) \<and>
      64 dvd unat (pk_data p) - unat (storage_first_chunk pk)"
  proof
    fix p assume "p \<in> set (outstanding pk)"
    then obtain i where i: "i < ?n" "p = outstanding pk ! i" by (auto simp: in_set_conv_nth)
    have "(c + i) mod slots < slots" using assms(1) by (simp add: line_layout_def)
    then have "64 * ((c + i) mod slots) + 64 \<le> 64 * slots" by simp
    then show "unat (storage_first_chunk pk) \<le> unat (pk_data p) \<and> unat (pk_data p) + 64 \<le> unat (storage_last_chunk pk) \<and>
      64 dvd unat (pk_data p) - unat (storage_first_chunk pk)" using d [OF i(1)] i(2) assms(1) by (simp add: line_layout_def)
  qed
  have le: "i = j" if "i \<le> j" "j < ?n" "pk_data (outstanding pk ! i) = pk_data (outstanding pk ! j)" for i j
  proof -
    have "(c + i) mod slots = (c + j) mod slots" using d [of i] d [of j] that by simp
    then have "slots dvd j - i" using mod_eq_dvd_iff_nat [of "c + i" "c + j" slots] that(1) by simp
    then show ?thesis using that n nat_dvd_not_less [of "j - i" slots] by linarith
  qed
  then have "i = j" if "i < ?n" "j < ?n" "pk_data (outstanding pk ! i) = pk_data (outstanding pk ! j)" for i j
    using that by (metis nat_le_linear)
  then show "distinct (map pk_data (outstanding pk))" by (auto simp: distinct_conv_nth)
qed


section \<open>Properties\<close>

text \<open>C35: packet descriptors. The packets in use form a queue and the cache lines they hold are accounted for: a
  request that fits (a free descriptor is left and as many lines as the length rounded up, where a length
  above 65472 counts as 0) appends a packet at the next chunk, any other one is refused without a change;
  while packets are in use only the oldest can be returned, and returning it gives its lines back; a descriptor that is not at the head is
  refused with EPERM.\<close>

theorem pakman_refines_queue:
  assumes "pk_ok slots pk"
  shows "(\<exists>r pk'. pakman_get_packet (Some pk) len = Some (r, Some pk') \<and> pk_ok slots pk' \<and>
      (if fits pk len then r = Some (unat (pkts_tail pk)) \<and> outstanding pk' = outstanding pk @ [new_packet pk len]
       else r = None \<and> pk' = pk)) \<and>
    (\<forall>i. i \<noteq> unat (pkts_head pk) \<longrightarrow> pakman_put_packet (Some pk) (Some i) = Some (EPERM, Some pk)) \<and>
    (\<forall>p rest. outstanding pk = p # rest \<longrightarrow>
       (\<exists>pk'. pakman_put_packet (Some pk) (Some (unat (pkts_head pk))) = Some (EOK, Some pk') \<and> pk_ok slots pk' \<and> outstanding pk' = rest))"
  using get_ok [OF assms, of len] get_refused [OF assms, of len] put_refused [of _ pk] put_ok [OF assms] assms
  by (cases "fits pk len") auto

lemma init_layout:
  assumes "0 < unat bytes" "0 < unat packets" "unat packets < 2 ^ 16" "unat bytes + 63 < 2 ^ 32" "unat storage + 64 * ((unat bytes + 63) div 64) + 63 < 2 ^ 32"
  defines "slots \<equiv> (unat bytes + 63) div 64"
  shows "\<exists>pk. init_pakman True True (Some storage) bytes packets True = (EOK, Some pk) \<and> pk_ok slots pk \<and> line_layout slots 0 pk \<and>
    outstanding pk = [] \<and> unat (packets_number pk) = min (unat packets) slots"
proof -
  define n where "n = ALNC bytes div CACHE_LINE"
  define m where "m = (if n < packets then n else packets)"
  define pk where "pk = \<lparr>pm_flags = 0, packets_number = ucast m, storage_free_chunks = n, pkts = replicate (unat m) zero_packet,
    pkts_head = 0, pkts_tail = 0, pm_storage = storage, storage_first_chunk = ALNC storage, storage_next_chunk = ALNC storage,
    storage_last_chunk = ALNC storage + CACHE_LINE * n\<rparr>"
  have n: "unat n = slots" using ALNC_small [OF assms(4)] by (simp add: n_def unat_div CACHE_LINE_def slots_def)
  have s: "0 < slots" "64 * slots < 2 ^ 32" using assms(1,5) by (simp_all add: slots_def div_greater_zero_iff)
  have m: "unat m = min (unat packets) slots" using n by (auto simp: m_def word_less_nat_alt min_def)
  then have p: "unat (ucast m :: u16) = unat m" using assms(3) by (simp add: unsigned_ucast_eq take_bit_eq_mod)
  have "0 < unat m" using m s assms(2) by simp
  then have ring: "cb_ok (ring_of pk)" "nsize (ring_of pk) = unat m" using p by (simp_all add: cb_ok_nat ring_of_def pk_def unat_ucast_up)
  have "cbuffer_is_empty (ring_of pk)" by (simp add: cbuffer_is_empty_def ring_of_def pk_def)
  then have out: "outstanding pk = []" using ring(1) by (simp add: outstanding_def)
  have f: "unat (ALNC storage) + 64 * slots < 2 ^ 32"
  proof -
    have "64 * ((unat storage + 63) div 64) \<le> unat storage + 63" by simp
    moreover have "unat (ALNC storage) = 64 * ((unat storage + 63) div 64)" using assms(5) by (intro ALNC_small) linarith
    ultimately show ?thesis using assms(5) unfolding slots_def by linarith
  qed
  then have "unat (ALNC storage + CACHE_LINE * n) = unat (ALNC storage) + 64 * slots"
    using n s by (simp add: unat_word_ariths CACHE_LINE_def)
  then have "line_layout slots 0 pk" using s f out by (simp add: line_layout_def line_at_def pk_def)
  moreover have "pk_ok slots pk" using ring s n out by (simp add: pk_ok_def) (simp add: pk_def)
  moreover have "init_pakman True True (Some storage) bytes packets True = (EOK, Some pk)"
    using assms(1,2) by (auto simp: init_pakman_def Let_def pk_def n_def m_def)
  ultimately show ?thesis using out m p by (simp add: pk_def)
qed

theorem pakman_refines_queue_witness:
  "\<exists>pk. init_pakman True True (Some 4096) 256 4 True = (EOK, Some pk) \<and>
     (\<exists>pk'. pakman_get_packet (Some pk) 100 = Some (Some (unat (pkts_tail pk)), Some pk') \<and> length (outstanding pk') = 1)"
proof -
  obtain pk where pk: "init_pakman True True (Some 4096) 256 4 True = (EOK, Some pk)" "pk_ok 4 pk" "outstanding pk = []" "unat (packets_number pk) = 4"
    using init_layout [of 256 4 4096] by auto
  moreover have "fits pk 100" using pk by (auto simp: fits_def need_def pk_ok_def word_unat_eq_iff)
  ultimately show ?thesis using pakman_refines_queue [OF pk(2), of 100] by auto
qed

text \<open>Packets of one cache line. As long as every request is for 1 to 64 bytes, the packets in use lie in
  different lines inside the storage, however often the pool wraps around: getting and returning
  packets keeps the layout.\<close>

theorem pakman_lines_disjoint:
  assumes "pk_ok slots pk" "line_layout slots c pk" "1 \<le> unat len" "unat len \<le> 64"
  shows "distinct (map pk_data (outstanding pk)) \<and>
    (\<forall>p \<in> set (outstanding pk). unat (storage_first_chunk pk) \<le> unat (pk_data p) \<and> unat (pk_data p) + 64 \<le> unat (storage_last_chunk pk) \<and>
      64 dvd unat (pk_data p) - unat (storage_first_chunk pk)) \<and>
    (\<exists>r pk'. pakman_get_packet (Some pk) len = Some (r, Some pk') \<and> pk_ok slots pk' \<and> line_layout slots c pk') \<and>
    (outstanding pk \<noteq> [] \<longrightarrow> (\<exists>pk'. pakman_put_packet (Some pk) (Some (unat (pkts_head pk))) = Some (EOK, Some pk') \<and>
      pk_ok slots pk' \<and> line_layout slots (Suc c) pk'))"
proof -
  have "need len = 1" using assms(3,4) by (auto simp: need_def)
  then have "\<exists>r pk'. pakman_get_packet (Some pk) len = Some (r, Some pk') \<and> pk_ok slots pk' \<and> line_layout slots c pk'"
    using get_ok [OF assms(1), of len] get_refused [OF assms(1), of len] line_get [OF assms(2)] assms(1,2)
    by (cases "fits pk len") blast+
  moreover have "\<exists>pk'. pakman_put_packet (Some pk) (Some (unat (pkts_head pk))) = Some (EOK, Some pk') \<and>
      pk_ok slots pk' \<and> line_layout slots (Suc c) pk'" if "outstanding pk = p # rest" for p rest
    using put_ok [OF assms(1) that] line_put [OF assms(2), of p] that by auto
  ultimately show ?thesis using line_apart [OF assms(2,1)] by (cases "outstanding pk") auto
qed

theorem pakman_lines_disjoint_witness:
  "\<exists>pk pk' r. init_pakman True True (Some 4096) 256 4 True = (EOK, Some pk) \<and>
     pakman_get_packet (Some pk) 60 = Some (r, Some pk') \<and> line_layout 4 0 pk'"
proof -
  obtain pk where pk: "init_pakman True True (Some 4096) 256 4 True = (EOK, Some pk)" "pk_ok 4 pk" "line_layout 4 0 pk"
    using init_layout [of 256 4 4096] by auto
  then show ?thesis using pakman_lines_disjoint [OF pk(2,3), of 60] by auto
qed

definition overrun :: "(packet_int \<times> pakman) option" where
  "overrun =
     do { (_, p1) \<leftarrow> pakman_get_packet (snd (init_pakman True True (Some 4096) 256 4 True)) 64;
          (_, p2) \<leftarrow> pakman_put_packet p1 (Some 0);
          (_, p3) \<leftarrow> pakman_get_packet p2 128;
          (_, p4) \<leftarrow> pakman_put_packet p3 (Some 1);
          (i, p5) \<leftarrow> pakman_get_packet p4 128;
          pk \<leftarrow> p5; k \<leftarrow> i;
          Some (pkts pk ! k, pk) }"

text \<open>Packets can run past the storage. The next chunk goes back to the start only when it is exactly the last
  one: with a storage of four lines at address 4096, after packets of one and two lines that were
  returned, a packet of two lines gets the addresses 4288 to 4416, beyond the end at 4352, and the following packets
  start outside of the storage.\<close>

theorem packet_runs_past_the_storage:
  "case overrun of
     Some (p, pk) \<Rightarrow> pk_data p = 4288 \<and> pk_data_size p = 128 \<and> storage_last_chunk pk = 4352 \<and> storage_next_chunk pk = 4416
   | None \<Rightarrow> False"
  by code_simp


end
