(* ===== verification/Memory.thy ===== *)
theory Memory
  imports Prelude
begin

text \<open>
  Memory as the C library sees it: a function from 32 bit addresses to bytes, with 32 bit loads and
  stores in the byte order of the machine, and the block functions of \<^verbatim>\<open>src/libs/libc/ansi\<close>
  (\<open>memcpy\<close>, \<open>memmove\<close>, \<open>memset\<close>, \<open>memcmp\<close>, \<open>memchr\<close>) as loops over it. \<open>char\<close> is signed. A count is a natural number
  below \<open>2 ^ 32\<close>; it only decreases.
\<close>

unbundle bit_operations_syntax

type_synonym mem = "u32 \<Rightarrow> u8"

section \<open>Loads and stores\<close>

definition ld32 :: "mem \<Rightarrow> u32 \<Rightarrow> u32" where
  "ld32 m a = ucast (m a) OR push_bit 8 (ucast (m (a + 1))) OR push_bit 16 (ucast (m (a + 2))) OR push_bit 24 (ucast (m (a + 3)))"

definition st32 :: "mem \<Rightarrow> u32 \<Rightarrow> u32 \<Rightarrow> mem" where
  "st32 m a v = m(a := ucast v, a + 1 := ucast (drop_bit 8 v), a + 2 := ucast (drop_bit 16 v), a + 3 := ucast (drop_bit 24 v))"

definition signed_char :: "u8 \<Rightarrow> int" where
  "signed_char c = sint c"

section \<open>The block functions\<close>

fun copy_bytes :: "mem \<Rightarrow> u32 \<Rightarrow> u32 \<Rightarrow> nat \<Rightarrow> mem" where
  "copy_bytes m p1 p2 0 = m"
| "copy_bytes m p1 p2 (Suc n) = copy_bytes (m(p1 := m p2)) (p1 + 1) (p2 + 1) n"

fun copy_longs :: "mem \<Rightarrow> u32 \<Rightarrow> u32 \<Rightarrow> nat \<Rightarrow> mem \<times> u32 \<times> u32 \<times> nat" where
  "copy_longs m p3 p4 n =
     (if n > 4 then copy_longs (st32 m p3 (ld32 m p4)) (p3 + 4) (p4 + 4) (n - 4) else (m, p3, p4, n))"

declare copy_longs.simps [simp del]

definition memcpy :: "mem \<Rightarrow> u32 \<Rightarrow> u32 \<Rightarrow> nat \<Rightarrow> mem" where
  "memcpy m s ct n =
     (if s \<noteq> 0 \<and> ct \<noteq> 0 \<and> n > 0
      then (if (s OR ct) AND 3 = 0
            then (case copy_longs m s ct n of (m', p1, p2, k) \<Rightarrow> copy_bytes m' p1 p2 k)
            else copy_bytes m s ct n)
      else m)"

text \<open>The backward loop of \<open>memmove\<close>; the pointers start one past the last byte.\<close>

fun copy_down :: "mem \<Rightarrow> u32 \<Rightarrow> u32 \<Rightarrow> nat \<Rightarrow> mem" where
  "copy_down m p1 p2 0 = m"
| "copy_down m p1 p2 (Suc n) = copy_down (m(p1 - 1 := m (p2 - 1))) (p1 - 1) (p2 - 1) n"

definition memmove :: "mem \<Rightarrow> u32 \<Rightarrow> u32 \<Rightarrow> nat \<Rightarrow> mem" where
  "memmove m s ct n =
     (if s \<noteq> 0 \<and> ct \<noteq> 0 \<and> n > 0
      then (if ct \<le> s \<and> ct + of_nat n > s
            then copy_down m (s + of_nat n) (ct + of_nat n) n
            else copy_bytes m s ct n)
      else m)"

fun set_bytes :: "mem \<Rightarrow> u32 \<Rightarrow> u8 \<Rightarrow> nat \<Rightarrow> mem" where
  "set_bytes m s1 c 0 = m"
| "set_bytes m s1 c (Suc n) = set_bytes (m(s1 := c)) (s1 + 1) c n"

fun set_words :: "mem \<Rightarrow> u32 \<Rightarrow> u32 \<Rightarrow> nat \<Rightarrow> mem \<times> u32 \<times> nat" where
  "set_words m s2 c n = (if n > 4 then set_words (st32 m s2 c) (s2 + 4) c (n - 4) else (m, s2, n))"

declare set_words.simps [simp del]

definition memset :: "mem \<Rightarrow> u32 \<Rightarrow> u32 \<Rightarrow> nat \<Rightarrow> mem" where
  "memset m s c n =
     (if s \<noteq> 0 \<and> n > 0
      then (if s AND 3 \<noteq> 0 then set_bytes m s (ucast c) n
            else
              (let c1 = c AND 255; c2 = c1 OR push_bit 8 c1; c3 = c2 OR push_bit 16 c2 in
               case set_words m s c3 n of (m', s1, k) \<Rightarrow> set_bytes m' s1 (ucast c3) k))
      else m)"

fun cmp_longs :: "mem \<Rightarrow> u32 \<Rightarrow> u32 \<Rightarrow> nat \<Rightarrow> u32 \<times> u32 \<times> nat" where
  "cmp_longs m p3 p4 n =
     (if n > 4 \<and> ld32 m p3 = ld32 m p4 then cmp_longs m (p3 + 4) (p4 + 4) (n - 4) else (p3, p4, n))"

declare cmp_longs.simps [simp del]

fun cmp_bytes :: "mem \<Rightarrow> u32 \<Rightarrow> u32 \<Rightarrow> nat \<Rightarrow> int" where
  "cmp_bytes m p1 p2 0 = 0"
| "cmp_bytes m p1 p2 (Suc n) =
     (if m p1 = m p2 then cmp_bytes m (p1 + 1) (p2 + 1) n else signed_char (m p1) - signed_char (m p2))"

definition memcmp :: "mem \<Rightarrow> u32 \<Rightarrow> u32 \<Rightarrow> nat \<Rightarrow> int" where
  "memcmp m cs ct n =
     (if cs \<noteq> 0 \<and> ct \<noteq> 0 \<and> n > 0
      then (if (cs OR ct) AND 3 = 0
            then (case cmp_longs m cs ct n of (p1, p2, k) \<Rightarrow> cmp_bytes m p1 p2 k)
            else cmp_bytes m cs ct n)
      else 0)"

section \<open>Lemmas on loads and stores\<close>

lemma bit_u8_high [simp]: "8 \<le> n \<Longrightarrow> \<not> bit (b :: u8) n"
  using impossible_bit [of 8 b] by (auto dest: bit_imp_le_length)

lemma ld32_byte:
  "ucast (ld32 m a) = m a" "ucast (drop_bit 8 (ld32 m a)) = m (a + 1)"
  "ucast (drop_bit 16 (ld32 m a)) = m (a + 2)" "ucast (drop_bit 24 (ld32 m a)) = m (a + 3)"
  by (rule bit_word_eqI; auto simp: ld32_def bit_simps)+

lemma byte_addr_ne [simp]:
  "a + 1 \<noteq> (a :: u32)" "a + 2 \<noteq> a" "a + 3 \<noteq> a" "a + 2 \<noteq> a + 1" "a + 3 \<noteq> a + 1" "a + 3 \<noteq> a + 2"
  "a \<noteq> a + 1" "a \<noteq> a + 2" "a \<noteq> a + 3" "a + 1 \<noteq> a + 2" "a + 1 \<noteq> a + 3" "a + 2 \<noteq> a + 3"
  by simp_all

lemma split_u32:
  "ucast (ucast v :: u8) OR push_bit 8 (ucast (ucast (drop_bit 8 v) :: u8)) OR
   push_bit 16 (ucast (ucast (drop_bit 16 v) :: u8)) OR push_bit 24 (ucast (ucast (drop_bit 24 v) :: u8)) = (v :: u32)"
  (is "?l = v")
proof (rule bit_word_eqI)
  fix n assume "n < LENGTH(32)"
  then have "n < 8 \<or> 8 \<le> n \<and> n < 16 \<or> 16 \<le> n \<and> n < 24 \<or> 24 \<le> n \<and> n < 32" by simp linarith
  then show "bit ?l n = bit v n"
    by (elim disjE) (auto simp: bit_simps)
qed

lemma ld32_st32_same [simp]: "ld32 (st32 m a v) a = v"
  using split_u32 [of v] by (simp add: ld32_def st32_def)

lemma st32_ld32_bytes:
  "st32 m a (ld32 m b) = m(a := m b, a + 1 := m (b + 1), a + 2 := m (b + 2), a + 3 := m (b + 3))"
  by (simp add: st32_def ld32_byte)

lemma st32_ld32_at:
  assumes "k < 4"
  shows "st32 m a (ld32 m b) (a + of_nat k) = m (b + of_nat k)"
proof -
  have "k = 0 \<or> k = 1 \<or> k = 2 \<or> k = 3" using assms by auto
  then show ?thesis by (elim disjE) (simp_all add: st32_ld32_bytes)
qed

text \<open>Addresses are compared as natural numbers below \<open>2 ^ 32\<close>.\<close>

abbreviation ad :: "nat \<Rightarrow> u32" where "ad \<equiv> of_nat"

lemma ad_eq [simp]: "x < 2 ^ 32 \<Longrightarrow> y < 2 ^ 32 \<Longrightarrow> ad x = ad y \<longleftrightarrow> x = y"
  by (rule of_nat_word_eq_iff) simp_all

lemma ad_Suc: "ad x + 1 = ad (Suc x)" by simp

lemma st32_other:
  assumes "x < 2 ^ 32" "a + 4 \<le> 2 ^ 32" "x < a \<or> a + 4 \<le> x"
  shows "st32 m (ad a) v (ad x) = m (ad x)"
proof -
  have "ad x \<noteq> ad (a + k)" if "k < 4" for k using assms that by (subst ad_eq) auto
  from this [of 0] this [of 1] this [of 2] this [of 3] show ?thesis by (simp add: st32_def add.commute)
qed

lemma ld32_cong:
  assumes "\<And>k. k < 4 \<Longrightarrow> m (ad (a + k)) = m' (ad (a + k))"
  shows "ld32 m (ad a) = ld32 m' (ad a)"
  using assms [of 0] assms [of 1] assms [of 2] assms [of 3] by (simp add: ld32_def add.commute)

lemma ld32_st32_other:
  assumes "a + 4 \<le> 2 ^ 32" "b + 4 \<le> 2 ^ 32" "a + 4 \<le> b \<or> b + 4 \<le> a"
  shows "ld32 (st32 m (ad a) v) (ad b) = ld32 m (ad b)"
  by (rule ld32_cong, rule st32_other) (use assms in auto)


section \<open>Copying\<close>

lemma copy_bytes_at:
  assumes "d + n \<le> 2 ^ 32" "s + n \<le> 2 ^ 32" "d \<le> s \<or> s + n \<le> d" "x < 2 ^ 32"
  shows "copy_bytes m (ad d) (ad s) n (ad x) = (if d \<le> x \<and> x < d + n then m (ad (s + (x - d))) else m (ad x))"
  using assms
proof (induction n arbitrary: m d s)
  case (Suc n)
  let ?m = "m(ad d := m (ad s))"
  have "copy_bytes m (ad d) (ad s) (Suc n) (ad x) = copy_bytes ?m (ad (Suc d)) (ad (Suc s)) n (ad x)"
    by (simp add: add.commute)
  also have "\<dots> = (if Suc d \<le> x \<and> x < Suc d + n then ?m (ad (Suc s + (x - Suc d))) else ?m (ad x))"
    by (rule Suc.IH) (use Suc.prems in auto)
  also have "\<dots> = (if d \<le> x \<and> x < d + Suc n then m (ad (s + (x - d))) else m (ad x))"
  proof (cases "Suc d \<le> x \<and> x < Suc d + n")
    case True
    then have "Suc s + (x - Suc d) = s + (x - d)" "s + (x - d) < 2 ^ 32" "s + (x - d) \<noteq> d" "d < 2 ^ 32" using Suc.prems by auto
    then have "ad (Suc s + (x - Suc d)) = ad (s + (x - d))" "ad (s + (x - d)) \<noteq> ad d" by (simp_all only: ad_eq simp_thms)
    then show ?thesis using True by (simp add: of_nat_diff add_diff_eq)
  next
    case False
    then have "x = d \<or> \<not> (d \<le> x \<and> x < d + Suc n)" by auto
    moreover have "ad x \<noteq> ad d" if "x \<noteq> d" using that Suc.prems by (subst ad_eq) auto
    ultimately show ?thesis using False by auto
  qed
  finally show ?case .
qed auto

lemma copy_bytes_add: "copy_bytes m a b (k + n) = copy_bytes (copy_bytes m a b k) (a + of_nat k) (b + of_nat k) n"
  by (induction k arbitrary: m a b) (simp_all add: add.assoc)

lemma mem_eqI: "(\<And>y. y < 2 ^ 32 \<Longrightarrow> m (ad y) = m' (ad y)) \<Longrightarrow> m = (m' :: mem)"
proof
  fix x assume *: "\<And>y. y < 2 ^ 32 \<Longrightarrow> m (ad y) = m' (ad y)"
  show "m x = m' x" using * [of "unat x"] unat_bound [of x] by simp
qed

lemma copy_long_is_bytes:
  assumes "d + 4 \<le> 2 ^ 32" "s + 4 \<le> 2 ^ 32" "d \<le> s \<or> s + 4 \<le> d"
  shows "st32 m (ad d) (ld32 m (ad s)) = copy_bytes m (ad d) (ad s) 4"
proof (rule mem_eqI)
  fix y :: nat assume y: "y < 2 ^ 32"
  show "st32 m (ad d) (ld32 m (ad s)) (ad y) = copy_bytes m (ad d) (ad s) 4 (ad y)"
  proof (cases "d \<le> y \<and> y < d + 4")
    case True
    then have "st32 m (ad d) (ld32 m (ad s)) (ad d + of_nat (y - d)) = m (ad s + of_nat (y - d))" by (intro st32_ld32_at) auto
    then show ?thesis using True by (subst copy_bytes_at [OF assms y]) (simp add: of_nat_diff add_diff_eq)
  next
    case False
    then show ?thesis using y assms by (subst copy_bytes_at [OF assms y], subst st32_other) auto
  qed
qed

lemma copy_longs_is_bytes:
  assumes "copy_longs m (ad d) (ad s) n = (m', p, q, k)" "d + n \<le> 2 ^ 32" "s + n \<le> 2 ^ 32" "d \<le> s \<or> s + n \<le> d"
  shows "copy_bytes m' p q k = copy_bytes m (ad d) (ad s) n"
  using assms
proof (induction n arbitrary: m d s rule: less_induct)
  case (less n)
  show ?case
  proof (cases "n > 4")
    case True
    let ?m = "st32 m (ad d) (ld32 m (ad s))"
    have "copy_longs ?m (ad (d + 4)) (ad (s + 4)) (n - 4) = (m', p, q, k)"
      using less.prems(1) True by (simp add: copy_longs.simps [of _ _ _ n] add.commute)
    then have "copy_bytes m' p q k = copy_bytes ?m (ad (d + 4)) (ad (s + 4)) (n - 4)"
      by (rule less.IH [rotated]) (use less.prems True in auto)
    also have "?m = copy_bytes m (ad d) (ad s) 4" by (rule copy_long_is_bytes) (use less.prems True in auto)
    also have "copy_bytes (copy_bytes m (ad d) (ad s) 4) (ad (d + 4)) (ad (s + 4)) (n - 4) = copy_bytes m (ad d) (ad s) (4 + (n - 4))"
      by (subst copy_bytes_add) (simp add: add.commute)
    finally show ?thesis using True by simp
  next
    case False
    then show ?thesis using less.prems(1) by (simp add: copy_longs.simps)
  qed
qed

lemma memcpy_is_bytes:
  assumes "d + n \<le> 2 ^ 32" "s + n \<le> 2 ^ 32" "d \<le> s \<or> s + n \<le> d" "0 < d" "0 < s"
  shows "memcpy m (ad d) (ad s) n = copy_bytes m (ad d) (ad s) n"
proof (cases "n = 0")
  case False
  then have "ad d \<noteq> ad 0" "ad s \<noteq> ad 0" using assms by (subst ad_eq; simp)+
  then show ?thesis using assms False copy_longs_is_bytes [OF _ assms(1-3)]
    by (auto simp: memcpy_def split: prod.splits)
qed (simp add: memcpy_def)


lemma memcpy_at:
  assumes "d + n \<le> 2 ^ 32" "s + n \<le> 2 ^ 32" "d \<le> s \<or> s + n \<le> d" "0 < d" "0 < s" "x < 2 ^ 32"
  shows "memcpy m (ad d) (ad s) n (ad x) = (if d \<le> x \<and> x < d + n then m (ad (s + (x - d))) else m (ad x))"
  using memcpy_is_bytes [OF assms(1-5)] copy_bytes_at [OF assms(1-3,6)] by simp

lemma copy_down_at:
  assumes "d + n \<le> 2 ^ 32" "s + n \<le> 2 ^ 32" "s \<le> d" "x < 2 ^ 32"
  shows "copy_down m (ad (d + n)) (ad (s + n)) n (ad x) = (if d \<le> x \<and> x < d + n then m (ad (s + (x - d))) else m (ad x))"
  using assms
proof (induction n arbitrary: m)
  case (Suc n)
  let ?m = "m(ad (d + n) := m (ad (s + n)))"
  have "copy_down m (ad (d + Suc n)) (ad (s + Suc n)) (Suc n) (ad x) = copy_down ?m (ad (d + n)) (ad (s + n)) n (ad x)"
    by simp
  also have "\<dots> = (if d \<le> x \<and> x < d + n then ?m (ad (s + (x - d))) else ?m (ad x))"
    by (rule Suc.IH) (use Suc.prems in auto)
  also have "\<dots> = (if d \<le> x \<and> x < d + Suc n then m (ad (s + (x - d))) else m (ad x))"
  proof (cases "d \<le> x \<and> x < d + n")
    case True
    then have "s + (x - d) < 2 ^ 32" "s + (x - d) \<noteq> d + n" "d + n < 2 ^ 32" using Suc.prems by auto
    then have "ad (s + (x - d)) \<noteq> ad (d + n)" by (simp only: ad_eq simp_thms)
    then show ?thesis using True by simp
  next
    case False
    then have "x = d + n \<or> \<not> (d \<le> x \<and> x < d + Suc n)" by auto
    moreover have "ad x \<noteq> ad (d + n)" if "x \<noteq> d + n" using that Suc.prems by (subst ad_eq) auto
    ultimately show ?thesis using False by auto
  qed
  finally show ?case .
qed auto

section \<open>Filling and comparing\<close>

lemma set_bytes_at:
  assumes "d + n \<le> 2 ^ 32" "x < 2 ^ 32"
  shows "set_bytes m (ad d) c n (ad x) = (if d \<le> x \<and> x < d + n then c else m (ad x))"
  using assms
proof (induction n arbitrary: m d)
  case (Suc n)
  have "set_bytes m (ad d) c (Suc n) (ad x) = set_bytes (m(ad d := c)) (ad (Suc d)) c n (ad x)" by (simp add: add.commute)
  also have "\<dots> = (if Suc d \<le> x \<and> x < Suc d + n then c else (m(ad d := c)) (ad x))" by (rule Suc.IH) (use Suc.prems in auto)
  finally show ?case using Suc.prems by (auto simp del: of_nat_add)
qed auto

lemma set_bytes_add: "set_bytes m a c (k + n) = set_bytes (set_bytes m a c k) (a + of_nat k) c n"
  by (induction k arbitrary: m a) (simp_all add: add.assoc)

lemma spread_byte:
  fixes c :: u32
  defines "c3 \<equiv> ((c AND 255) OR push_bit 8 (c AND 255)) OR push_bit 16 ((c AND 255) OR push_bit 8 (c AND 255))"
  shows "ucast c3 = (ucast c :: u8)" "ucast (drop_bit 8 c3) = (ucast c :: u8)" "ucast (drop_bit 16 c3) = (ucast c :: u8)"
    "ucast (drop_bit 24 c3) = (ucast c :: u8)"
proof -
  have b: "c AND 255 = take_bit 8 c" by (simp add: take_bit_eq_mask mask_eq_exp_minus_1)
  show "ucast c3 = (ucast c :: u8)" "ucast (drop_bit 8 c3) = (ucast c :: u8)" "ucast (drop_bit 16 c3) = (ucast c :: u8)"
    "ucast (drop_bit 24 c3) = (ucast c :: u8)"
    by (rule bit_word_eqI; auto simp: c3_def b bit_simps)+
qed

lemma st32_bytes:
  assumes "ucast v = c" "ucast (drop_bit 8 v) = c" "ucast (drop_bit 16 v) = c" "ucast (drop_bit 24 v) = c"
  shows "st32 m a v = set_bytes m a c 4"
  using assms by (simp add: st32_def numeral_eq_Suc add.assoc)

lemma set_words_is_bytes:
  assumes "set_words m a v n = (m', p, k)" "\<And>m a. st32 m a v = set_bytes m a c 4"
  shows "set_bytes m' p c k = set_bytes m a c n"
  using assms(1)
proof (induction n arbitrary: m a rule: less_induct)
  case (less n)
  show ?case
  proof (cases "n > 4")
    case True
    then have "set_words (set_bytes m a c 4) (a + 4) v (n - 4) = (m', p, k)"
      using less.prems assms(2) by (simp add: set_words.simps [of _ _ _ n])
    then have "set_bytes m' p c k = set_bytes (set_bytes m a c 4) (a + 4) c (n - 4)" using True by (intro less.IH) auto
    then show ?thesis using set_bytes_add [of m a c 4 "n - 4"] True by simp
  next
    case False
    then show ?thesis using less.prems by (simp add: set_words.simps)
  qed
qed

lemma memset_is_bytes:
  assumes "s \<noteq> 0"
  shows "memset m s c n = set_bytes m s (ucast c) n"
proof -
  define c3 where "c3 = ((c AND 255) OR push_bit 8 (c AND 255)) OR push_bit 16 ((c AND 255) OR push_bit 8 (c AND 255))"
  note sp = spread_byte [of c, folded c3_def]
  obtain m' p k where w: "set_words m s c3 n = (m', p, k)" by (cases "set_words m s c3 n")
  have "set_bytes m' p (ucast c) k = set_bytes m s (ucast c) n" by (rule set_words_is_bytes [OF w]) (rule st32_bytes [OF sp])
  then show ?thesis using assms w sp(1) by (simp add: memset_def Let_def c3_def)
qed

lemma cmp_bytes_skip: "(\<And>i. i < k \<Longrightarrow> m (a + of_nat i) = m (b + of_nat i)) \<Longrightarrow>
  cmp_bytes m a b (k + n) = cmp_bytes m (a + of_nat k) (b + of_nat k) n"
proof (induction k arbitrary: a b)
  case (Suc k)
  have "m a = m b" using Suc.prems [of 0] by simp
  moreover have "m (a + 1 + of_nat i) = m (b + 1 + of_nat i)" if "i < k" for i using Suc.prems [of "Suc i"] that by (simp add: add.assoc)
  then have "cmp_bytes m (a + 1) (b + 1) (k + n) = cmp_bytes m (a + 1 + of_nat k) (b + 1 + of_nat k) n" by (intro Suc.IH)
  ultimately show ?case by (simp add: add.assoc)
qed simp

lemma ld32_eq_bytes:
  assumes "ld32 m a = ld32 m b" "i < 4"
  shows "m (a + of_nat i) = m (b + of_nat i)"
proof -
  have "i = 0 \<or> i = 1 \<or> i = 2 \<or> i = 3" using assms(2) by auto
  then show ?thesis using ld32_byte [of m a] ld32_byte [of m b] assms(1) by auto
qed

lemma memcmp_is_bytes:
  assumes "cs \<noteq> 0" "ct \<noteq> 0"
  shows "memcmp m cs ct n = cmp_bytes m cs ct n"
proof -
  have "case cmp_longs m a b n of (p, q, k) \<Rightarrow> cmp_bytes m p q k = cmp_bytes m a b n" for a b
  proof (induction n arbitrary: a b rule: less_induct)
    case (less n)
    have "cmp_bytes m a b (4 + (n - 4)) = cmp_bytes m (a + 4) (b + 4) (n - 4)" if "ld32 m a = ld32 m b"
      using cmp_bytes_skip [of 4 m a b] ld32_eq_bytes [OF that] by simp
    then show ?case using less.IH [of "n - 4" "a + 4" "b + 4"]
      by (subst cmp_longs.simps) (auto split: prod.splits)
  qed
  from this [of cs ct] show ?thesis using assms by (auto simp: memcmp_def split: prod.splits)
qed

lemma signed_char_inj: "signed_char a - signed_char b = 0 \<longleftrightarrow> a = b" "signed_char a = signed_char b \<longleftrightarrow> a = b"
  by (auto simp: signed_char_def intro: signed_word_eqI)

lemma cmp_bytes_zero: "cmp_bytes m a b n = 0 \<longleftrightarrow> (\<forall>i < n. m (a + of_nat i) = m (b + of_nat i))"
proof (induction n arbitrary: a b)
  case (Suc n)
  show ?case using Suc.IH [of "a + 1" "b + 1"]
    by (auto simp: All_less_Suc2 add.assoc signed_char_inj)
qed simp

lemma cmp_bytes_first:
  assumes "i < n" "m (a + of_nat i) \<noteq> m (b + of_nat i)" "\<And>j. j < i \<Longrightarrow> m (a + of_nat j) = m (b + of_nat j)"
  shows "cmp_bytes m a b n = signed_char (m (a + of_nat i)) - signed_char (m (b + of_nat i))"
proof -
  obtain k where "n = i + Suc k" using assms(1) less_iff_Suc_add by auto
  then show ?thesis using cmp_bytes_skip [of i m a b "Suc k"] assms(2,3) by simp
qed

section \<open>Properties\<close>

text \<open>\<open>memmove\<close> copies correctly whatever the overlap. For blocks inside the address space every byte of the
  destination afterwards is the byte the source had before the call, and no other byte changes.\<close>

theorem memmove_correct:
  assumes "0 < d" "0 < s" "d + n < 2 ^ 32" "s + n < 2 ^ 32" "x < 2 ^ 32"
  shows "memmove m (ad d) (ad s) n (ad x) = (if d \<le> x \<and> x < d + n then m (ad (s + (x - d))) else m (ad x))"
proof (cases "n = 0")
  case False
  have nz: "ad d \<noteq> ad 0" "ad s \<noteq> ad 0" using assms by (subst ad_eq; simp)+
  have le: "ad s \<le> ad d \<longleftrightarrow> s \<le> d" "ad (s + n) > ad d \<longleftrightarrow> d < s + n"
    using assms by (auto simp del: of_nat_add simp: word_le_nat_alt word_less_nat_alt)
  show ?thesis
  proof (cases "s \<le> d \<and> d < s + n")
    case True
    then have "memmove m (ad d) (ad s) n = copy_down m (ad (d + n)) (ad (s + n)) n"
      using nz le False by (simp add: memmove_def)
    then show ?thesis using copy_down_at [of d n s x m] assms True by simp
  next
    case False
    then have "memmove m (ad d) (ad s) n = copy_bytes m (ad d) (ad s) n"
      using nz le \<open>n \<noteq> 0\<close> by (auto simp: memmove_def)
    then show ?thesis using copy_bytes_at [of d n s x m] assms False by auto
  qed
qed (auto simp: memmove_def)

theorem memmove_correct_witness:
  "memmove (\<lambda>a. ucast a) 12 10 5 14 = 12 \<and> memmove (\<lambda>a. ucast a) 12 10 5 17 = 17"
  using memmove_correct [of 12 10 5 14 "\<lambda>a. ucast a"] memmove_correct [of 12 10 5 17 "\<lambda>a. ucast a"] by simp

lemma block_function_facts:
  assumes "0 < d" "0 < s" "d + n \<le> 2 ^ 32" "s + n \<le> 2 ^ 32" "d \<le> s \<or> s + n \<le> d" "x < 2 ^ 32"
  shows "memcpy m (ad d) (ad s) n (ad x) = (if d \<le> x \<and> x < d + n then m (ad (s + (x - d))) else m (ad x))"
    and "memset m (ad d) c n (ad x) = (if d \<le> x \<and> x < d + n then ucast c else m (ad x))"
    and "memcmp m (ad d) (ad s) n = 0 \<longleftrightarrow> (\<forall>i < n. m (ad (d + i)) = m (ad (s + i)))"
    and "i < n \<Longrightarrow> m (ad (d + i)) \<noteq> m (ad (s + i)) \<Longrightarrow> (\<forall>j < i. m (ad (d + j)) = m (ad (s + j))) \<Longrightarrow>
      memcmp m (ad d) (ad s) n = signed_char (m (ad (d + i))) - signed_char (m (ad (s + i)))"
proof -
  consider "n = 0" | "ad d \<noteq> 0" "ad s \<noteq> 0" using ad_eq [of d 0] ad_eq [of s 0] assms by fastforce
  note nz = this
  show "memcpy m (ad d) (ad s) n (ad x) = (if d \<le> x \<and> x < d + n then m (ad (s + (x - d))) else m (ad x))"
    by (rule memcpy_at [OF assms(3-5,1,2,6)])
  show "memset m (ad d) c n (ad x) = (if d \<le> x \<and> x < d + n then ucast c else m (ad x))"
    using nz by cases (auto simp: memset_def [of _ _ _ 0] memset_is_bytes set_bytes_at [OF assms(3,6)])
  show "memcmp m (ad d) (ad s) n = 0 \<longleftrightarrow> (\<forall>i < n. m (ad (d + i)) = m (ad (s + i)))"
    using nz by cases (simp add: memcmp_def, simp add: memcmp_is_bytes cmp_bytes_zero)
  show "memcmp m (ad d) (ad s) n = signed_char (m (ad (d + i))) - signed_char (m (ad (s + i)))"
    if "i < n" "m (ad (d + i)) \<noteq> m (ad (s + i))" "\<forall>j < i. m (ad (d + j)) = m (ad (s + j))"
    using nz by cases (use that cmp_bytes_first [of i n m "ad d" "ad s"] in \<open>auto simp: memcmp_is_bytes\<close>)
qed


text \<open>The word-wise block functions agree with their byte-wise definition. \<open>memcpy\<close> of blocks of which the
  destination does not start inside the source copies byte by byte, and fills nothing else; \<open>memset\<close> stores the low byte of
  its argument in every byte; \<open>memcmp\<close> is 0 exactly for equal blocks and otherwise the difference of the first two bytes that
  differ, as signed characters.\<close>

theorem block_functions_bytewise:
  assumes "0 < d" "0 < s" "d + n \<le> 2 ^ 32" "s + n \<le> 2 ^ 32" "d \<le> s \<or> s + n \<le> d" "x < 2 ^ 32"
  shows "memcpy m (ad d) (ad s) n (ad x) = (if d \<le> x \<and> x < d + n then m (ad (s + (x - d))) else m (ad x)) \<and>
    memset m (ad d) c n (ad x) = (if d \<le> x \<and> x < d + n then ucast c else m (ad x)) \<and>
    (memcmp m (ad d) (ad s) n = 0 \<longleftrightarrow> (\<forall>i < n. m (ad (d + i)) = m (ad (s + i)))) \<and>
    (\<forall>i < n. m (ad (d + i)) \<noteq> m (ad (s + i)) \<and> (\<forall>j < i. m (ad (d + j)) = m (ad (s + j))) \<longrightarrow>
      memcmp m (ad d) (ad s) n = signed_char (m (ad (d + i))) - signed_char (m (ad (s + i))))"
  using block_function_facts [OF assms] by blast

theorem block_functions_bytewise_witness:
  "memcpy (\<lambda>a. ucast a) 8 16 7 10 = 18 \<and> memset (\<lambda>a. 0) 8 257 9 14 = 1 \<and> memcmp (\<lambda>a. if a = 10 then 200 else 0) 8 16 7 = - 56"
proof -
  let ?m = "\<lambda>a :: u32. if a = 10 then 200 else 0 :: u8"
  have "memcpy (\<lambda>a. ucast a) 8 16 7 10 = 18" using block_functions_bytewise [of 8 16 7 10 "\<lambda>a. ucast a"] by simp
  moreover have "memset (\<lambda>a. 0) 8 257 9 14 = 1" using block_functions_bytewise [of 8 17 9 14 "\<lambda>a. 0" 257] by simp
  moreover have "memcmp ?m 8 16 7 = - 56"
  proof -
    have "\<forall>j < 2. ?m (ad (8 + j)) = ?m (ad (16 + j))" by (auto dest!: less_2_cases)
    moreover have "?m (ad (8 + 2)) \<noteq> ?m (ad (16 + 2))" by simp
    ultimately have "memcmp ?m (ad 8) (ad 16) 7 = signed_char (?m (ad (8 + 2))) - signed_char (?m (ad (16 + 2)))"
      by (intro block_functions_bytewise [of 8 16 7 0 ?m, THEN conjunct2, THEN conjunct2, THEN conjunct2, rule_format, of 2] conjI) simp_all
    then show ?thesis by (simp add: signed_char_def)
  qed
  ultimately show ?thesis by blast
qed

end
