(* ===== verification/Allocator.thy ===== *)
theory Allocator
  imports Prelude
begin

text \<open>
  What a client expects of a memory allocator. A client takes and gives back blocks and writes into the blocks it holds, in any
  order; \<open>client\<close> is the relation between the state of the allocator at the start, the state reached and the blocks held, each with the
  size asked for. The locale states the laws of an allocator; \<open>owns s B\<close> says that exactly the blocks \<open>B\<close> are handed out.
\<close>

inductive client ::
  "(nat \<Rightarrow> bool) \<Rightarrow> ('s \<Rightarrow> nat \<Rightarrow> (nat option \<times> 's) option) \<Rightarrow> ('s \<Rightarrow> nat \<Rightarrow> 's option) \<Rightarrow> ('s \<Rightarrow> nat \<Rightarrow> u8 \<Rightarrow> 's) \<Rightarrow>
   's \<Rightarrow> 's \<Rightarrow> (nat \<times> nat) set \<Rightarrow> bool"
  for fits get put poke s0 where
  start: "client fits get put poke s0 s0 {}"
| took: "client fits get put poke s0 s C \<Longrightarrow> fits n \<Longrightarrow> get s n = Some (Some p, s') \<Longrightarrow>
    client fits get put poke s0 s' (insert (p, n) C)"
| denied: "client fits get put poke s0 s C \<Longrightarrow> fits n \<Longrightarrow> get s n = Some (None, s') \<Longrightarrow>
    client fits get put poke s0 s' C"
| gave: "client fits get put poke s0 s C \<Longrightarrow> (p, n) \<in> C \<Longrightarrow> put s p = Some s' \<Longrightarrow>
    client fits get put poke s0 s' {c \<in> C. fst c \<noteq> p}"
| wrote: "client fits get put poke s0 s C \<Longrightarrow> (p, n) \<in> C \<Longrightarrow> p \<le> x \<Longrightarrow> x < p + n \<Longrightarrow>
    client fits get put poke s0 (poke s x v) C"

definition disjoint_blocks :: "(nat \<times> nat) set \<Rightarrow> bool" where
  "disjoint_blocks C \<longleftrightarrow> (\<forall>(p, n) \<in> C. \<forall>(q, k) \<in> C. (p, n) \<noteq> (q, k) \<longrightarrow> p + n \<le> q \<or> q + k \<le> p)"

locale allocator =
  fixes fits :: "nat \<Rightarrow> bool"
    and owns :: "'s \<Rightarrow> (nat \<times> nat) set \<Rightarrow> bool"
    and get :: "'s \<Rightarrow> nat \<Rightarrow> (nat option \<times> 's) option"
    and put :: "'s \<Rightarrow> nat \<Rightarrow> 's option"
    and poke :: "'s \<Rightarrow> nat \<Rightarrow> u8 \<Rightarrow> 's"
  assumes get_ok: "owns s B \<Longrightarrow> fits n \<Longrightarrow> \<exists>r s'. get s n = Some (r, s') \<and>
      (case r of None \<Rightarrow> owns s' B | Some p \<Rightarrow> p \<notin> fst ` B \<and> (\<exists>k \<ge> n. owns s' (insert (p, k) B)))"
    and put_ok: "owns s B \<Longrightarrow> (p, k) \<in> B \<Longrightarrow> \<exists>s'. put s p = Some s' \<and> owns s' (B - {(p, k)})"
    and poke_ok: "owns s B \<Longrightarrow> (p, k) \<in> B \<Longrightarrow> p \<le> x \<Longrightarrow> x < p + k \<Longrightarrow> owns (poke s x v) B"
    and owns_apart: "owns s B \<Longrightarrow> disjoint_blocks B"
    and owns_fst: "owns s B \<Longrightarrow> inj_on fst B"
begin

text \<open>The blocks a client holds are parts of the blocks handed out, and every one handed out is held.\<close>

definition holds :: "(nat \<times> nat) set \<Rightarrow> (nat \<times> nat) set \<Rightarrow> bool" where
  "holds C B \<longleftrightarrow> fst ` B = fst ` C \<and> inj_on fst C \<and> (\<forall>(p, n) \<in> C. \<exists>k \<ge> n. (p, k) \<in> B)"

lemma holdsE:
  assumes "holds C B" "(p, n) \<in> C"
  obtains k where "n \<le> k" "(p, k) \<in> B"
  using assms by (auto simp: holds_def)

lemma holds_put:
  assumes "holds C B" "(p, k) \<in> B" "inj_on fst B"
  shows "holds {c \<in> C. fst c \<noteq> p} (B - {(p, k)})"
proof -
  have i: "(q, j) \<in> B - {(p, k)} \<longleftrightarrow> (q, j) \<in> B \<and> q \<noteq> p" for q j using assms(2) inj_onD [OF assms(3), of "(q, j)" "(p, k)"] by auto
  have "fst ` (B - {(p, k)}) = fst ` B - {p}" using i by (force simp: image_iff)
  moreover have "fst ` {c \<in> C. fst c \<noteq> p} = fst ` C - {p}" by auto
  moreover have "inj_on fst {c \<in> C. fst c \<noteq> p}" using assms(1) by (auto simp: holds_def inj_on_def)
  moreover have "\<exists>j \<ge> n. (q, j) \<in> B - {(p, k)}" if c: "(q, n) \<in> C" "q \<noteq> p" for q n
    using holdsE [OF assms(1) c(1)] c(2) by auto
  moreover have "fst ` B = fst ` C" using assms(1) by (simp add: holds_def)
  ultimately show ?thesis by (auto simp: holds_def)
qed

lemma holds_apart: "holds C B \<Longrightarrow> disjoint_blocks B \<Longrightarrow> disjoint_blocks C"
proof -
  assume h: "holds C B" and a: "disjoint_blocks B"
  have "p + n \<le> q \<or> q + k \<le> p" if c: "(p, n) \<in> C" "(q, k) \<in> C" "(p, n) \<noteq> (q, k)" for p n q k
  proof -
    obtain n' k' where b: "n \<le> n'" "(p, n') \<in> B" "k \<le> k'" "(q, k') \<in> B" using holdsE [OF h] c(1,2) by metis
    have "p \<noteq> q" using h inj_onD [of fst C "(p, n)" "(q, k)"] c by (auto simp: holds_def)
    then show ?thesis using a b unfolding disjoint_blocks_def by fastforce
  qed
  then show ?thesis unfolding disjoint_blocks_def by blast
qed

lemma client_owns:
  assumes "client fits get put poke s0 s C" "owns s0 {}"
  shows "\<exists>B. owns s B \<and> holds C B"
  using assms
proof (induction rule: client.induct)
  case start
  then show ?case by (auto simp: holds_def)
next
  case (took s C n p s')
  then obtain B where B: "owns s B" "holds C B" by blast
  then obtain k where "k \<ge> n" "owns s' (insert (p, k) B)" "p \<notin> fst ` B" using get_ok [of s B n] took.hyps by auto
  moreover have "holds (insert (p, n) C) (insert (p, k) B)" using B(2) \<open>k \<ge> n\<close> \<open>p \<notin> fst ` B\<close> by (fastforce simp: holds_def inj_on_def)
  ultimately show ?case by blast
next
  case (denied s C n s')
  then obtain B where B: "owns s B" "holds C B" by blast
  then show ?case using get_ok [of s B n] denied.hyps by auto
next
  case (gave s C p n s')
  then obtain B where B: "owns s B" "holds C B" by blast
  obtain k where k: "(p, k) \<in> B" using holdsE [OF B(2) gave.hyps(2)] by blast
  then show ?case using put_ok [OF B(1) k] holds_put [OF B(2) k owns_fst [OF B(1)]] gave.hyps by auto
next
  case (wrote s C p n x v)
  then obtain B where B: "owns s B" "holds C B" by blast
  obtain k where k: "(p, k) \<in> B" "n \<le> k" using holdsE [OF B(2) wrote.hyps(2)] by blast
  then show ?case using poke_ok [OF B(1) k(1), of x v] wrote.hyps B(2) by auto
qed

lemma client_safe:
  assumes "client fits get put poke s0 s C" "owns s0 {}"
  shows "disjoint_blocks C" "fits n \<Longrightarrow> get s n \<noteq> None" "(p, n) \<in> C \<Longrightarrow> put s p \<noteq> None"
proof -
  obtain B where B: "owns s B" "holds C B" using client_owns [OF assms] by blast
  show "disjoint_blocks C" using holds_apart [OF B(2) owns_apart [OF B(1)]] .
  show "get s n \<noteq> None" if "fits n" using get_ok [OF B(1) that] by auto
  show "put s p \<noteq> None" if c: "(p, n) \<in> C"
  proof -
    obtain k where "(p, k) \<in> B" using holdsE [OF B(2) c] by blast
    then show ?thesis using put_ok [OF B(1)] by auto
  qed
qed

end

end
