(* ===== verification/Malloc.thy ===== *)
theory Malloc
  imports Memory Allocator
begin

text \<open>
  The heap of \<^verbatim>\<open>src/libs/libc/ansi/malloc.c\<close>: a chain of headers (\<open>struct mempart\<close>, two 32 bit words) in the
  memory it manages. The headers are read and written in the byte memory of theory \<open>Memory\<close>, so that they and the contents of
  the blocks are one state. The loops follow pointers found in memory and need not end on a damaged heap:
  \<open>None\<close> is a loop that does not end, or the failed assertion of \<open>free\<close>. A call returns the value it stores in \<open>errno\<close>, if any.
\<close>

unbundle bit_operations_syntax

section \<open>The heap\<close>

definition MAGIC_ALLOC_NUMBER :: u32 where "MAGIC_ALLOC_NUMBER = 0x1A2B3C4D"
definition MAGIC_FREE_NUMBER :: u32 where "MAGIC_FREE_NUMBER = 0x5E6F8A9B"
definition MAGIC_LAST_NUMBER :: u32 where "MAGIC_LAST_NUMBER = 0xDEADBEEF"

record heap =
  h_mem :: mem
  heap_start :: u32
  heap_end :: u32
  freebytes :: u32
  allocbytes :: u32

definition mp_next :: "mem \<Rightarrow> u32 \<Rightarrow> u32" where "mp_next m p = ld32 m p"
definition mp_magic :: "mem \<Rightarrow> u32 \<Rightarrow> u32" where "mp_magic m p = ld32 m (p + 4)"
definition set_next :: "mem \<Rightarrow> u32 \<Rightarrow> u32 \<Rightarrow> mem" where "set_next m p v = st32 m p v"
definition set_magic :: "mem \<Rightarrow> u32 \<Rightarrow> u32 \<Rightarrow> mem" where "set_magic m p v = st32 m (p + 4) v"

definition is_alloc :: "mem \<Rightarrow> u32 \<Rightarrow> bool" where "is_alloc m p \<longleftrightarrow> MAGIC_ALLOC_NUMBER = mp_magic m p"
definition is_free :: "mem \<Rightarrow> u32 \<Rightarrow> bool" where "is_free m p \<longleftrightarrow> MAGIC_FREE_NUMBER = mp_magic m p"
definition is_last :: "mem \<Rightarrow> u32 \<Rightarrow> bool" where "is_last m p \<longleftrightarrow> MAGIC_LAST_NUMBER = mp_magic m p"

definition get_size :: "mem \<Rightarrow> u32 \<Rightarrow> u32" where "get_size m p = mp_next m p - (p + 8)"

section \<open>Operations\<close>

text \<open>The inner loop of \<open>defrag_mem\<close>.\<close>

partial_function (option) defrag_skip :: "mem \<Rightarrow> u32 \<Rightarrow> u32 \<Rightarrow> (u32 \<times> u32) option" where
  "defrag_skip m this bytes =
     (if is_free m this then defrag_skip m (mp_next m this) (bytes + 8) else Some (this, bytes))"

partial_function (option) defrag_loop :: "mem \<Rightarrow> u32 \<Rightarrow> u32 \<Rightarrow> (mem \<times> u32) option" where
  "defrag_loop m this bytes =
     (if is_last m this then Some (m, bytes)
      else if is_free m this
      then Option.bind (defrag_skip m (mp_next m this) bytes)
             (\<lambda>(t, b). let m' = (if mp_next m this \<noteq> t then set_next m this t else m)
                        in defrag_loop m' (mp_next m' t) b)
      else defrag_loop m (mp_next m this) bytes)"

definition defrag_mem :: "heap \<Rightarrow> heap option" where
  "defrag_mem h =
     do { (m, bytes) \<leftarrow> defrag_loop (h_mem h) (heap_start h) 0;
          Some (h\<lparr>h_mem := m, freebytes := freebytes h + bytes, allocbytes := allocbytes h - bytes\<rparr>) }"

text \<open>\<open>heap_end -= sizeof(*heap_end)\<close> steps back eight structures of eight bytes.\<close>

definition malloc_init :: "heap \<Rightarrow> u32 \<Rightarrow> u32 \<Rightarrow> status \<times> heap" where
  "malloc_init h heapstart heapend =
     (if heapstart > heapend then (EINVAL, h)
      else if (heapstart XOR heapend) AND 7 \<noteq> 0 then (EINVAL, h)
      else
        (let hs = heapstart; he = heapend - 8 * 8;
             m = set_magic (set_next (h_mem h) hs he) hs MAGIC_FREE_NUMBER;
             m = set_magic (set_next m he he) he MAGIC_LAST_NUMBER
         in (EOK, \<lparr>h_mem = m, heap_start = hs, heap_end = he, freebytes = he - hs - 16, allocbytes = 16\<rparr>)))"

partial_function (option) skip_alloc :: "mem \<Rightarrow> u32 \<Rightarrow> u32 option" where
  "skip_alloc m this = (if is_alloc m this then skip_alloc m (mp_next m this) else Some this)"

text \<open>The search of \<open>malloc_internal\<close>: the first slot that is large enough.\<close>

partial_function (option) malloc_search :: "mem \<Rightarrow> u32 \<Rightarrow> u32 \<Rightarrow> u32 option option" where
  "malloc_search m this newsize =
     (if is_last m this then Some None
      else Option.bind (skip_alloc m this)
        (\<lambda>t. if is_last m t then Some None
              else if get_size m t < newsize then malloc_search m (mp_next m t) newsize
              else Some (Some t)))"

definition malloc_internal :: "heap \<Rightarrow> u32 \<Rightarrow> (u32 option \<times> heap) option" where
  "malloc_internal h newsize =
     do { slot \<leftarrow> malloc_search (h_mem h) (heap_start h) newsize;
          case slot of
            None \<Rightarrow> Some (None, h)
          | Some this \<Rightarrow>
             (let available = get_size (h_mem h) this;
                  m = set_magic (h_mem h) this MAGIC_ALLOC_NUMBER
              in if available < newsize + 8
                 then Some (Some (this + 8), h\<lparr>h_mem := m, allocbytes := allocbytes h + available, freebytes := freebytes h - available\<rparr>)
                 else
                   (let middle = this + 8 + newsize;
                        m = set_magic m middle MAGIC_FREE_NUMBER;
                        m = set_next m middle (mp_next m this);
                        m = set_next m this middle
                    in Some (Some (this + 8), h\<lparr>h_mem := m, allocbytes := allocbytes h + (newsize + 8),
                         freebytes := freebytes h - (newsize + 8)\<rparr>))) }"

definition malloc :: "heap \<Rightarrow> u32 \<Rightarrow> (u32 option \<times> status option \<times> heap) option" where
  "malloc h sz =
     (if sz = 0 then Some (None, None, h)
      else
        (let newsize = MULT sz 4 in
         do { (retval, h1) \<leftarrow> malloc_internal h newsize;
              (retval, h2) \<leftarrow> (case retval of
                  Some p \<Rightarrow> Some (Some p, h1)
                | None \<Rightarrow> do { hd \<leftarrow> defrag_mem h1; malloc_internal hd newsize });
              Some (retval, if retval = None then Some ENOMEM else None, h2) }))"

definition free :: "heap \<Rightarrow> u32 \<Rightarrow> heap option" where
  "free h p =
     (if p = 0 then Some h
      else
        (let this = p - 8 in
         if \<not> is_alloc (h_mem h) this then None
         else (let m = set_magic (h_mem h) this MAGIC_FREE_NUMBER in
               Some (h\<lparr>h_mem := m, allocbytes := allocbytes h - get_size m this, freebytes := freebytes h + get_size m this\<rparr>))))"


definition diegos_malloc_stats :: "heap \<Rightarrow> u32 \<times> u32" where
  "diegos_malloc_stats h = (freebytes h, allocbytes h)"

section \<open>Chains of headers\<close>

text \<open>A block is its size and whether it is allocated; \<open>seg\<close> says that a list of blocks is laid out from an address on.\<close>

type_synonym blk = "nat \<times> bool"

definition magic_of :: "bool \<Rightarrow> u32" where
  "magic_of al = (if al then MAGIC_ALLOC_NUMBER else MAGIC_FREE_NUMBER)"

definition hdr :: "mem \<Rightarrow> nat \<Rightarrow> nat \<Rightarrow> u32 \<Rightarrow> bool" where
  "hdr m a nx mg \<longleftrightarrow> ld32 m (ad a) = ad nx \<and> ld32 m (ad (a + 4)) = mg"

fun span :: "blk list \<Rightarrow> nat" where
  "span [] = 0"
| "span ((n, al) # bs) = 8 + n + span bs"

fun seg :: "mem \<Rightarrow> nat \<Rightarrow> blk list \<Rightarrow> bool" where
  "seg m a [] \<longleftrightarrow> True"
| "seg m a ((n, al) # bs) \<longleftrightarrow> hdr m a (a + 8 + n) (magic_of al) \<and> seg m (a + 8 + n) bs"

definition chain :: "mem \<Rightarrow> nat \<Rightarrow> blk list \<Rightarrow> bool" where
  "chain m a bs \<longleftrightarrow> seg m a bs \<and> hdr m (a + span bs) (a + span bs) MAGIC_LAST_NUMBER \<and> a + span bs + 8 \<le> 2 ^ 32"

lemma span_append [simp]: "span (xs @ ys) = span xs + span ys"
  by (induction xs rule: span.induct) simp_all

lemma seg_append [simp]: "seg m a (xs @ ys) \<longleftrightarrow> seg m a xs \<and> seg m (a + span xs) ys"
  by (induction xs arbitrary: a rule: span.induct) (simp_all add: add.assoc)

lemma chain_append: "chain m a (xs @ ys) \<longleftrightarrow> seg m a xs \<and> chain m (a + span xs) ys"
  by (simp add: chain_def add.assoc)

lemmas magics = MAGIC_ALLOC_NUMBER_def MAGIC_FREE_NUMBER_def MAGIC_LAST_NUMBER_def magic_of_def

lemma hdr_kind:
  assumes "hdr m a nx mg"
  shows "mp_next m (ad a) = ad nx" "is_alloc m (ad a) \<longleftrightarrow> mg = MAGIC_ALLOC_NUMBER"
    "is_free m (ad a) \<longleftrightarrow> mg = MAGIC_FREE_NUMBER" "is_last m (ad a) \<longleftrightarrow> mg = MAGIC_LAST_NUMBER"
  using assms by (auto simp: hdr_def mp_next_def is_alloc_def is_free_def is_last_def mp_magic_def add.commute)

lemma chain_Cons:
  assumes "chain m a ((n, al) # bs)"
  shows "mp_next m (ad a) = ad (a + 8 + n)" "is_alloc m (ad a) \<longleftrightarrow> al" "is_free m (ad a) \<longleftrightarrow> \<not> al" "\<not> is_last m (ad a)"
    "get_size m (ad a) = of_nat n" "chain m (a + 8 + n) bs" "a + 16 + n \<le> 2 ^ 32"
proof -
  have h: "hdr m a (a + 8 + n) (magic_of al)" using assms by (simp add: chain_def)
  show "mp_next m (ad a) = ad (a + 8 + n)" "is_alloc m (ad a) \<longleftrightarrow> al" "is_free m (ad a) \<longleftrightarrow> \<not> al" "\<not> is_last m (ad a)"
    using hdr_kind [OF h] by (auto simp: magics)
  then show "get_size m (ad a) = of_nat n" by (simp add: get_size_def)
  show "chain m (a + 8 + n) bs" "a + 16 + n \<le> 2 ^ 32" using assms by (auto simp: chain_def add.assoc)
qed

lemma chain_Nil:
  assumes "chain m a []"
  shows "mp_next m (ad a) = ad a" "\<not> is_alloc m (ad a)" "\<not> is_free m (ad a)" "is_last m (ad a)"
  using assms hdr_kind [of m a a MAGIC_LAST_NUMBER] by (auto simp: chain_def magics)


section \<open>Searching\<close>

text \<open>The abstract allocator: first fit on the list of blocks, and joining neighbours that are free.\<close>

fun skipped :: "nat \<Rightarrow> blk \<Rightarrow> bool" where
  "skipped n (k, al) \<longleftrightarrow> al \<or> k < n"

definition place :: "nat \<Rightarrow> nat \<Rightarrow> blk list" where
  "place n k = (if k < n + 8 then [(k, True)] else [(n, True), (k - n - 8, False)])"

definition first_fit :: "nat \<Rightarrow> blk list \<Rightarrow> (nat \<times> blk list) option" where
  "first_fit n bs =
     (case dropWhile (skipped n) bs of
        [] \<Rightarrow> None
      | (k, al) # ys \<Rightarrow> (let xs = takeWhile (skipped n) bs in Some (span xs + 8, xs @ place n k @ ys)))"

fun join :: "blk \<Rightarrow> blk list \<Rightarrow> blk list" where
  "join (n, False) ((k, False) # bs) = (n + 8 + k, False) # bs"
| "join b bs = b # bs"

fun joined :: "blk list \<Rightarrow> blk list" where
  "joined [] = []"
| "joined (b # bs) = join b (joined bs)"

lemma skip_alloc_chain:
  assumes "chain m a bs"
  shows "skip_alloc m (ad a) = Some (ad (a + span (takeWhile snd bs)))"
  using assms
proof (induction bs arbitrary: a)
  case Nil
  then show ?case using chain_Nil [OF Nil] by (subst skip_alloc.simps) simp
next
  case (Cons b bs)
  obtain n al where b: "b = (n, al)" by (cases b)
  note c = chain_Cons [OF Cons.prems [unfolded b]]
  show ?case using c(1,2) Cons.IH [OF c(6)] b by (subst skip_alloc.simps) (auto simp: add.assoc)
qed

lemma malloc_search_alloc: 
  assumes "is_alloc m p" "\<not> is_last m p"
  shows "malloc_search m p n = malloc_search m (mp_next m p) n"
proof -
  have s: "skip_alloc m p = skip_alloc m (mp_next m p)" using assms by (subst skip_alloc.simps) simp
  show ?thesis
  proof (cases "is_last m (mp_next m p)")
    case True
    then have "\<not> is_alloc m (mp_next m p)" by (auto simp: is_last_def is_alloc_def magics)
    then have "skip_alloc m p = Some (mp_next m p)" using s by (simp add: skip_alloc.simps [of m "mp_next m p"])
    then show ?thesis using True assms(2) by (subst (1 2) malloc_search.simps) simp
  next
    case False
    then show ?thesis using assms(2) s by (subst (1 2) malloc_search.simps) simp
  qed
qed

lemma malloc_search_chain:
  assumes "chain m a bs" "n < 2 ^ 32"
  shows "malloc_search m (ad a) (of_nat n) =
    Some (if \<forall>b \<in> set bs. skipped n b then None else Some (ad (a + span (takeWhile (skipped n) bs))))"
  using assms(1)
proof (induction bs arbitrary: a)
  case Nil
  then show ?case using chain_Nil [OF Nil] by (subst malloc_search.simps) simp
next
  case (Cons b bs)
  obtain k al where b: "b = (k, al)" by (cases b)
  note c = chain_Cons [OF Cons.prems [unfolded b]]
  show ?case
  proof (cases al)
    case True
    then show ?thesis using malloc_search_alloc [OF _ c(4)] c(1,2) Cons.IH [OF c(6)] b by (simp add: add.assoc)
  next
    case False
    have "skip_alloc m (ad a) = Some (ad a)" using c(2) False by (subst skip_alloc.simps) simp
    moreover have "get_size m (ad a) < of_nat n \<longleftrightarrow> k < n" unfolding c(5) using c(7) assms(2) by (intro of_nat_word_less_iff) simp_all
    ultimately show ?thesis using c(1,4) Cons.IH [OF c(6)] b False by (subst malloc_search.simps) (simp add: add.assoc)
  qed
qed

section \<open>Updating headers\<close>

text \<open>The bytes of the headers of a list of blocks, and of the blocks themselves.\<close>

fun hdr_bytes :: "nat \<Rightarrow> blk list \<Rightarrow> nat set" where
  "hdr_bytes a [] = {}"
| "hdr_bytes a ((n, al) # bs) = {a..<a + 8} \<union> hdr_bytes (a + 8 + n) bs"

lemma hdr_cong:
  assumes "hdr m a nx mg" "\<And>x. a \<le> x \<Longrightarrow> x < a + 8 \<Longrightarrow> m' (ad x) = m (ad x)"
  shows "hdr m' a nx mg"
proof -
  have "ld32 m' (ad a) = ld32 m (ad a)" by (rule ld32_cong) (use assms(2) in \<open>auto simp del: of_nat_add\<close>)
  moreover have "ld32 m' (ad (a + 4)) = ld32 m (ad (a + 4))" by (rule ld32_cong) (use assms(2) in \<open>auto simp del: of_nat_add\<close>)
  ultimately show ?thesis using assms(1) by (simp add: hdr_def)
qed

lemma seg_cong:
  assumes "seg m a bs" "\<And>x. x \<in> hdr_bytes a bs \<Longrightarrow> m' (ad x) = m (ad x)"
  shows "seg m' a bs"
  using assms
proof (induction bs arbitrary: a)
  case (Cons b bs)
  obtain n al where b: "b = (n, al)" by (cases b)
  have "hdr m' a (a + 8 + n) (magic_of al)" by (rule hdr_cong [of m]) (use Cons.prems b in auto)
  moreover have "seg m' (a + 8 + n) bs" by (rule Cons.IH) (use Cons.prems b in auto)
  ultimately show ?case using b by simp
qed simp

lemma hdr_bytes_range: "hdr_bytes a bs \<subseteq> {a..<a + span bs}"
  by (induction bs arbitrary: a rule: span.induct) (simp, fastforce simp: subset_iff)

lemma hdr_bytes_append: "hdr_bytes a (xs @ ys) = hdr_bytes a xs \<union> hdr_bytes (a + span xs) ys"
  by (induction xs arbitrary: a rule: span.induct) (auto simp: add.assoc)

lemma chain_cong:
  assumes "chain m a bs" "\<And>x. x \<in> hdr_bytes a bs \<union> {a + span bs..<a + span bs + 8} \<Longrightarrow> m' (ad x) = m (ad x)"
  shows "chain m' a bs"
  using assms seg_cong [of m a bs m'] hdr_cong [of m "a + span bs" _ _ m'] by (auto simp: chain_def)


lemma set_magic_ad: "set_magic m (ad a) v = st32 m (ad (a + 4)) v" "set_next m (ad a) v = st32 m (ad a) v"
  by (simp_all add: set_magic_def set_next_def add.commute)

lemma set_other:
  assumes "x < 2 ^ 32" "a + 8 \<le> 2 ^ 32"
  shows "x < a + 4 \<or> a + 8 \<le> x \<Longrightarrow> set_magic m (ad a) v (ad x) = m (ad x)"
    and "x < a \<or> a + 4 \<le> x \<Longrightarrow> set_next m (ad a) v (ad x) = m (ad x)"
  using assms unfolding set_magic_ad by (auto intro!: st32_other simp del: of_nat_add)

lemma hdr_set:
  assumes "a + 8 \<le> 2 ^ 32"
  shows "hdr (set_magic m (ad a) v) a nx mg \<longleftrightarrow> ld32 m (ad a) = ad nx \<and> mg = v"
    and "hdr (set_next m (ad a) w) a nx mg \<longleftrightarrow> w = ad nx \<and> ld32 m (ad (a + 4)) = mg"
proof -
  have "ld32 (st32 m (ad (a + 4)) v) (ad a) = ld32 m (ad a)" "ld32 (st32 m (ad a) w) (ad (a + 4)) = ld32 m (ad (a + 4))"
    using assms by (simp_all add: ld32_st32_other del: of_nat_add)
  then show "hdr (set_magic m (ad a) v) a nx mg \<longleftrightarrow> ld32 m (ad a) = ad nx \<and> mg = v"
    "hdr (set_next m (ad a) w) a nx mg \<longleftrightarrow> w = ad nx \<and> ld32 m (ad (a + 4)) = mg"
    by (auto simp: hdr_def set_magic_ad simp del: of_nat_add)
qed

text \<open>Changing a part of the chain keeps the rest, when only bytes of that part change.\<close>

lemma chain_replace:
  assumes "chain m a (xs @ bs @ ys)" "seg m' (a + span xs) cs" "span cs = span bs"
    and "\<And>x. x < 2 ^ 32 \<Longrightarrow> x < a + span xs \<or> a + span xs + span bs \<le> x \<Longrightarrow> m' (ad x) = m (ad x)"
  shows "chain m' a (xs @ cs @ ys)"
proof -
  have s: "seg m a xs" "chain m (a + span xs + span bs) ys" "a + span xs + span bs + span ys + 8 \<le> 2 ^ 32"
    using assms(1) by (auto simp: chain_append) (auto simp: chain_def)
  have "seg m' a xs"
    by (rule seg_cong [OF s(1)], rule assms(4)) (use hdr_bytes_range [of a xs] s(3) in \<open>auto simp: subset_iff\<close>)
  moreover have "chain m' (a + span xs + span bs) ys"
    by (rule chain_cong [OF s(2)], rule assms(4)) (use hdr_bytes_range [of "a + span xs + span bs" ys] s(3) in \<open>auto simp: subset_iff\<close>)
  ultimately show ?thesis using assms(2,3) by (simp add: chain_append)
qed

lemma chain_replace1:
  assumes "chain m a (xs @ (k, al) # ys)" "seg m' (a + span xs) cs" "span cs = 8 + k"
    and "\<And>x. x < 2 ^ 32 \<Longrightarrow> x < a + span xs \<or> a + span xs + 8 + k \<le> x \<Longrightarrow> m' (ad x) = m (ad x)"
  shows "chain m' a (xs @ cs @ ys)"
  by (rule chain_replace [of m a xs "[(k, al)]"]) (use assms in auto)

lemma mark_block:
  assumes "chain m a (xs @ (k, al) # ys)" "m' = set_magic m (ad (a + span xs)) (magic_of al')"
  shows "chain m' a (xs @ (k, al') # ys)"
    "\<And>x. x < 2 ^ 32 \<Longrightarrow> x < a + span xs \<or> a + span xs + 8 \<le> x \<Longrightarrow> m' (ad x) = m (ad x)"
proof -
  let ?p = "a + span xs"
  have b: "?p + 8 + k + span ys + 8 \<le> 2 ^ 32" using assms(1) by (simp add: chain_def)
  have h: "hdr m ?p (?p + 8 + k) (magic_of al)" using assms(1) by (simp add: chain_def)
  show fr: "m' (ad x) = m (ad x)" if "x < 2 ^ 32" "x < ?p \<or> ?p + 8 \<le> x" for x
    unfolding assms(2) by (rule set_other) (use that b in auto)
  have "seg m' ?p [(k, al')]" using h b hdr_set(1) [of ?p m "magic_of al'" "?p + 8 + k"] by (simp add: assms(2) hdr_def)
  then have "chain m' a (xs @ [(k, al')] @ ys)" by (rule chain_replace1 [OF assms(1)]) (use fr in auto)
  then show "chain m' a (xs @ (k, al') # ys)" by simp
qed

lemma split_block:
  assumes "chain m a (xs @ (k, False) # ys)" "n + 8 \<le> k" "p = ad (a + span xs)"
    and "m1 = set_magic (set_magic m p MAGIC_ALLOC_NUMBER) (p + 8 + of_nat n) MAGIC_FREE_NUMBER"
    and "m2 = set_next m1 (p + 8 + of_nat n) (mp_next m1 p)" "m3 = set_next m2 p (p + 8 + of_nat n)"
  shows "chain m3 a (xs @ [(n, True), (k - n - 8, False)] @ ys)"
    "\<And>x. x < 2 ^ 32 \<Longrightarrow> x < a + span xs \<or> a + span xs + 8 + k \<le> x \<Longrightarrow> m3 (ad x) = m (ad x)"
proof -
  let ?p = "a + span xs" and ?q = "a + span xs + 8 + n"
  have b: "?p + 8 + k + span ys + 8 \<le> 2 ^ 32" using assms(1) by (simp add: chain_def)
  have q: "p + 8 + of_nat n = ad ?q" by (simp add: assms(3))
  have h: "ld32 m (ad ?p) = ad (?p + 8 + k)" using assms(1) by (simp add: chain_def hdr_def del: of_nat_add)
  note defs = assms(4-6) [unfolded q, unfolded assms(3) set_magic_ad mp_next_def]
  have far: "ld32 (st32 mm (ad i) v) (ad j) = ld32 mm (ad j)"
    if "i + 4 \<le> j \<or> j + 4 \<le> i" "i + 4 \<le> 2 ^ 32" "j + 4 \<le> 2 ^ 32" for mm v i j using that ld32_st32_other by blast
  have l1: "ld32 m1 (ad ?p) = ad (?p + 8 + k)" "ld32 m1 (ad (?p + 4)) = MAGIC_ALLOC_NUMBER" "ld32 m1 (ad (?q + 4)) = MAGIC_FREE_NUMBER"
    unfolding defs(1) using b assms(2) h by (simp_all add: far del: of_nat_add)
  have l2: "ld32 m2 (ad ?q) = ad (?p + 8 + k)" "ld32 m2 (ad (?p + 4)) = MAGIC_ALLOC_NUMBER" "ld32 m2 (ad (?q + 4)) = MAGIC_FREE_NUMBER"
    unfolding defs(2) using b assms(2) l1 by (simp_all add: far del: of_nat_add)
  have l3: "ld32 m3 (ad ?p) = ad ?q" "ld32 m3 (ad (?p + 4)) = MAGIC_ALLOC_NUMBER" "ld32 m3 (ad ?q) = ad (?p + 8 + k)"
    "ld32 m3 (ad (?q + 4)) = MAGIC_FREE_NUMBER"
    unfolding defs(3) using b assms(2) l2 by (simp_all add: far del: of_nat_add)
  show fr: "m3 (ad x) = m (ad x)" if "x < 2 ^ 32" "x < ?p \<or> ?p + 8 + k \<le> x" for x
  proof -
    have near: "st32 mm (ad i) v (ad x) = mm (ad x)" if "?p \<le> i" "i + 4 \<le> ?p + 8 + k" for mm v i
      by (rule st32_other) (use that b \<open>x < 2 ^ 32\<close> \<open>x < ?p \<or> ?p + 8 + k \<le> x\<close> in auto)
    show ?thesis unfolding defs using assms(2) by (simp add: near del: of_nat_add)
  qed
  have "seg m3 ?p [(n, True), (k - n - 8, False)]"
    using l3 assms(2) by (simp add: hdr_def magic_of_def add_ac del: of_nat_add)
  then show "chain m3 a (xs @ [(n, True), (k - n - 8, False)] @ ys)"
    by (rule chain_replace1 [OF assms(1)]) (use fr assms(2) in auto)
qed


section \<open>The invariant of the heap\<close>

fun alloc_sum :: "blk list \<Rightarrow> nat" where
  "alloc_sum [] = 0"
| "alloc_sum ((n, al) # bs) = (if al then n else 0) + alloc_sum bs"

fun free_sum :: "blk list \<Rightarrow> nat" where
  "free_sum [] = 0"
| "free_sum ((n, al) # bs) = (if al then 0 else n) + free_sum bs"

lemma sums_append [simp]: "alloc_sum (xs @ ys) = alloc_sum xs + alloc_sum ys" "free_sum (xs @ ys) = free_sum xs + free_sum ys"
  by (induction xs rule: span.induct) simp_all

definition heap_rep :: "heap \<Rightarrow> nat \<Rightarrow> blk list \<Rightarrow> bool" where
  "heap_rep h a bs \<longleftrightarrow> chain (h_mem h) a bs \<and> heap_start h = ad a \<and> heap_end h = ad (a + span bs) \<and> 0 < a \<and>
     (\<forall>b \<in> set bs. 4 dvd fst b) \<and>
     allocbytes h = of_nat (8 * length bs + 8 + alloc_sum bs) \<and> freebytes h = of_nat (free_sum bs) - 8"

lemma first_fit_cases:
  assumes "first_fit n bs = Some (off, bs')"
  obtains xs k ys where "bs = xs @ (k, False) # ys" "xs = takeWhile (skipped n) bs" "n \<le> k" "off = span xs + 8" "bs' = xs @ place n k @ ys"
proof -
  obtain k al ys where d: "dropWhile (skipped n) bs = (k, al) # ys" using assms by (auto simp: first_fit_def split: list.splits)
  then have "\<not> skipped n (k, al)" using hd_dropWhile [of "skipped n" bs] by force
  moreover have "bs = takeWhile (skipped n) bs @ (k, al) # ys" using takeWhile_dropWhile_id [of "skipped n" bs] d by simp
  ultimately show ?thesis using that [of "takeWhile (skipped n) bs" k ys] assms d by (simp add: first_fit_def Let_def)
qed

lemma first_fit_none: "first_fit n bs = None \<longleftrightarrow> (\<forall>b \<in> set bs. skipped n b)"
proof -
  have "first_fit n bs = None \<longleftrightarrow> dropWhile (skipped n) bs = []"
    by (cases "dropWhile (skipped n) bs") (auto simp: first_fit_def Let_def simp del: dropWhile_eq_Nil_conv)
  then show ?thesis by (simp add: dropWhile_eq_Nil_conv)
qed

lemma place_span: "n \<le> k \<Longrightarrow> span (place n k) = 8 + k"
  by (simp add: place_def)

text \<open>The bytes of the free blocks with their headers, and the live blocks: address and size.\<close>

fun free_area :: "nat \<Rightarrow> blk list \<Rightarrow> nat set" where
  "free_area a [] = {}"
| "free_area a ((n, al) # bs) = (if al then {} else {a..<a + 8 + n}) \<union> free_area (a + 8 + n) bs"

fun live :: "nat \<Rightarrow> blk list \<Rightarrow> (nat \<times> nat) list" where
  "live a [] = []"
| "live a ((n, al) # bs) = (if al then [(a + 8, n)] else []) @ live (a + 8 + n) bs"

lemma free_area_append: "free_area a (xs @ ys) = free_area a xs \<union> free_area (a + span xs) ys"
  by (induction xs arbitrary: a rule: span.induct) (auto simp: add.assoc)

lemma live_append: "live a (xs @ ys) = live a xs @ live (a + span xs) ys"
  by (induction xs arbitrary: a rule: span.induct) (auto simp: add.assoc)

text \<open>\<open>malloc_internal\<close> takes the first block that fits and changes no byte outside the free blocks.\<close>

lemma malloc_internal_fit:
  assumes "heap_rep h a bs" "n < 2 ^ 32" "4 dvd n" "bs = xs @ (k, False) # ys" "xs = takeWhile (skipped n) bs" "n \<le> k"
  obtains h' where "malloc_internal h (of_nat n) = Some (Some (ad (a + span xs + 8)), h')" "heap_rep h' a (xs @ place n k @ ys)"
    "\<And>x. x < 2 ^ 32 \<Longrightarrow> x \<notin> free_area a bs \<Longrightarrow> h_mem h' (ad x) = h_mem h (ad x)"
proof -
  let ?p = "a + span xs"
  have c: "chain (h_mem h) a bs" "heap_start h = ad a" using assms(1) by (simp_all add: heap_rep_def)
  have cs: "chain (h_mem h) ?p ((k, False) # ys)" using c(1) assms(4) by (simp add: chain_append)
  note cc = chain_Cons [OF cs]
  have "\<not> (\<forall>b \<in> set bs. skipped n b)" using assms(4,6) by auto
  then have se: "malloc_search (h_mem h) (ad a) (of_nat n) = Some (Some (ad ?p))"
    using malloc_search_chain [OF c(1) assms(2)] assms(5) by simp
  have n8: "(of_nat n + 8 :: u32) = of_nat (n + 8)" by (simp add: add.commute)
  have lt: "get_size (h_mem h) (ad ?p) < of_nat n + 8 \<longleftrightarrow> k < n + 8"
    unfolding cc(5) n8 using cc(7) assms(6) by (intro of_nat_word_less_iff) simp_all
  have out: "x < ?p \<or> ?p + 8 + k \<le> x" if "x \<notin> free_area a bs" for x using that assms(4) by (auto simp: free_area_append)
  show ?thesis
  proof (cases "k < n + 8")
    case True
    define m where "m = set_magic (h_mem h) (ad ?p) (magic_of True)"
    define h' where "h' = h\<lparr>h_mem := m, allocbytes := allocbytes h + of_nat k, freebytes := freebytes h - of_nat k\<rparr>"
    have mk: "chain m a (xs @ (k, True) # ys)" "\<And>x. x < 2 ^ 32 \<Longrightarrow> x < ?p \<or> ?p + 8 \<le> x \<Longrightarrow> m (ad x) = h_mem h (ad x)"
      using mark_block [OF c(1) [unfolded assms(4)] m_def] by auto
    have "malloc_internal h (of_nat n) = Some (Some (ad (?p + 8)), h')"
      using se lt True c(2) cc(5) by (simp add: malloc_internal_def Let_def h'_def m_def magic_of_def add.commute)
    moreover have "heap_rep h' a (xs @ place n k @ ys)"
      using assms(1,4) mk(1) True by (simp add: heap_rep_def h'_def place_def)
    moreover have "h_mem h' (ad x) = h_mem h (ad x)" if "x < 2 ^ 32" "x \<notin> free_area a bs" for x
      using mk(2) [OF that(1)] out [OF that(2)] by (auto simp: h'_def)
    ultimately show ?thesis using that by blast
  next
    case False
    define m1 where "m1 = set_magic (set_magic (h_mem h) (ad ?p) MAGIC_ALLOC_NUMBER) (ad ?p + 8 + of_nat n) MAGIC_FREE_NUMBER"
    define m2 where "m2 = set_next m1 (ad ?p + 8 + of_nat n) (mp_next m1 (ad ?p))"
    define m3 where "m3 = set_next m2 (ad ?p) (ad ?p + 8 + of_nat n)"
    define h' where "h' = h\<lparr>h_mem := m3, allocbytes := allocbytes h + (of_nat n + 8), freebytes := freebytes h - (of_nat n + 8)\<rparr>"
    have nk: "n + 8 \<le> k" using False by simp
    note sp = split_block [OF c(1) [unfolded assms(4)] nk refl m1_def m2_def m3_def]
    have "malloc_internal h (of_nat n) = Some (Some (ad (?p + 8)), h')"
      using se lt False c(2) by (simp add: malloc_internal_def Let_def h'_def m1_def m2_def m3_def add.commute)
    moreover have "heap_rep h' a (xs @ place n k @ ys)"
      using assms(1,3,4) sp(1) nk by (simp add: heap_rep_def h'_def place_def of_nat_diff)
    moreover have "h_mem h' (ad x) = h_mem h (ad x)" if "x < 2 ^ 32" "x \<notin> free_area a bs" for x
      using sp(2) [OF that(1)] out [OF that(2)] by (simp add: h'_def)
    ultimately show ?thesis using that by blast
  qed
qed


section \<open>Joining free blocks\<close>

lemma join_keeps:
  "span (join b bs) = span (b # bs)" "alloc_sum (join b bs) = alloc_sum (b # bs)" "length (join b bs) \<le> Suc (length bs)"
  "free_sum (join b bs) + 8 * length (join b bs) = free_sum (b # bs) + 8 * Suc (length bs)"
  "free_area a (join b bs) = free_area a (b # bs)" "live a (join b bs) = live a (b # bs)"
  "\<forall>c \<in> set (b # bs). 4 dvd fst c \<Longrightarrow> \<forall>c \<in> set (join b bs). 4 dvd fst c"
  by (cases "(b, bs)" rule: join.cases; auto simp: add.assoc)+

lemma joined_keeps:
  "span (joined bs) = span bs" "alloc_sum (joined bs) = alloc_sum bs" "length (joined bs) \<le> length bs"
  "free_sum (joined bs) + 8 * length (joined bs) = free_sum bs + 8 * length bs"
proof (induction bs)
  case (Cons b bs)
  { case 1 show ?case using Cons by (cases b) (simp add: join_keeps) }
  { case 2 show ?case using Cons by (cases b) (simp add: join_keeps) }
  { case 3 show ?case using Cons join_keeps(3) [of b "joined bs"] by simp }
  { case 4 show ?case using Cons join_keeps(4) [of b "joined bs"] by (cases b) simp }
qed simp_all

lemma joined_areas: "free_area a (joined bs) = free_area a bs" "live a (joined bs) = live a bs"
proof (induction bs arbitrary: a)
  case (Cons b bs)
  { case 1 show ?case using Cons by (cases b) (simp add: join_keeps) }
  { case 2 show ?case using Cons by (cases b) (simp add: join_keeps) }
qed simp_all

lemma joined_dvd: "\<forall>b \<in> set bs. 4 dvd fst b \<Longrightarrow> \<forall>b \<in> set (joined bs). 4 dvd fst b"
proof (induction bs)
  case (Cons b bs)
  have "\<forall>c \<in> set (b # joined bs). 4 dvd fst c" using Cons.IH Cons.prems by simp
  then show ?case unfolding joined.simps by (rule join_keeps(7))
qed simp

lemma joined_run:
  assumes "\<forall>b \<in> set fs. \<not> snd b" "rest = [] \<or> snd (hd rest)"
  shows "joined ((n, False) # fs @ rest) = (n + span fs, False) # joined rest"
  using assms(1)
proof (induction fs arbitrary: n)
  case Nil
  then show ?case using assms(2) by (cases rest) auto
next
  case (Cons b fs)
  obtain k where "b = (k, False)" using Cons.prems by (cases b) auto
  then show ?case using Cons by (simp add: add.assoc)
qed

lemma defrag_skip_chain:
  assumes "chain m a bs"
  shows "defrag_skip m (ad a) b = Some (ad (a + span (takeWhile (\<lambda>b. \<not> snd b) bs)), b + of_nat (8 * length (takeWhile (\<lambda>b. \<not> snd b) bs)))"
  using assms
proof (induction bs arbitrary: a b)
  case Nil
  then show ?case using chain_Nil [OF Nil] by (subst defrag_skip.simps) simp
next
  case (Cons c bs)
  obtain n al where c: "c = (n, al)" by (cases c)
  note cc = chain_Cons [OF Cons.prems [unfolded c]]
  show ?case using cc(1,3) Cons.IH [OF cc(6)] c by (subst defrag_skip.simps) (auto simp: add_ac)
qed

lemma join_run:
  assumes "chain m a ((n, False) # fs @ rest)" "t = a + 8 + n + span fs"
    and "m' = (if mp_next m (ad a) \<noteq> ad t then set_next m (ad a) (ad t) else m)"
  shows "chain m' a ((n + span fs, False) # rest)" "\<And>x. x < 2 ^ 32 \<Longrightarrow> x < a \<or> a + 8 \<le> x \<Longrightarrow> m' (ad x) = m (ad x)"
proof -
  have b: "t + span rest + 8 \<le> 2 ^ 32" "a + 8 \<le> t" using assms(1,2) by (auto simp: chain_def)
  have h: "ld32 m (ad (a + 4)) = magic_of False" "hdr m a (a + 8 + n) (magic_of False)" using assms(1) by (simp_all add: chain_def hdr_def)
  show fr: "m' (ad x) = m (ad x)" if "x < 2 ^ 32" "x < a \<or> a + 8 \<le> x" for x
    unfolding assms(3) using set_other(2) [of x a m "ad t"] that b by auto
  have sg: "seg m' a [(n + span fs, False)]"
  proof (cases "mp_next m (ad a) = ad t")
    case True
    then show ?thesis using h assms(2,3) by (simp add: hdr_def mp_next_def add_ac)
  next
    case False
    then have "m' = set_next m (ad a) (ad t)" by (simp add: assms(3))
    then show ?thesis using hdr_set(2) [of a m "ad t" t "magic_of False"] h(1) b assms(2) by (simp add: add_ac)
  qed
  have "chain m' a ([] @ [(n + span fs, False)] @ rest)"
  proof (rule chain_replace [of m a "[]" "(n, False) # fs" rest])
    show "m' (ad x) = m (ad x)" if "x < 2 ^ 32" "x < a + span [] \<or> a + span [] + span ((n, False) # fs) \<le> x" for x
      using fr [OF that(1)] that(2) by auto
  qed (use assms(1) sg in simp_all)
  then show "chain m' a ((n + span fs, False) # rest)" by simp
qed

lemma free_area_range: "x \<in> free_area a bs \<Longrightarrow> a \<le> x \<and> x < a + span bs"
proof (induction bs arbitrary: a)
  case (Cons b bs)
  obtain n al where b: "b = (n, al)" by (cases b)
  have "(a \<le> x \<and> x < a + 8 + n) \<or> x \<in> free_area (a + 8 + n) bs" using Cons.prems b by (auto split: if_splits)
  then show ?case using Cons.IH [of "a + 8 + n"] b by auto
qed simp

lemma chain_head:
  assumes "chain m a ((n, al) # bs)" "chain m' (a + 8 + n) bs'" "span bs' = span bs" "\<And>x. x < 2 ^ 32 \<Longrightarrow> x < a + 8 + n \<Longrightarrow> m' (ad x) = m (ad x)"
  shows "chain m' a ((n, al) # bs')"
proof -
  have "hdr m' a (a + 8 + n) (magic_of al)"
    by (rule hdr_cong [of m]) (use assms(1,4) in \<open>auto simp: chain_def\<close>)
  then show ?thesis using assms(2,3) by (simp add: chain_def add.assoc)
qed

lemma defrag_loop_chain:
  assumes "chain m a bs"
  shows "\<exists>m'. defrag_loop m (ad a) b = Some (m', b + of_nat (8 * (length bs - length (joined bs)))) \<and> chain m' a (joined bs) \<and>
    (\<forall>x < 2 ^ 32. x \<notin> free_area a bs \<longrightarrow> m' (ad x) = m (ad x))"
  using assms
proof (induction "length bs" arbitrary: m a b bs rule: less_induct)
  case less
  show ?case
  proof (cases bs)
    case Nil
    then show ?thesis using chain_Nil less.prems by (subst defrag_loop.simps) auto
  next
    case (Cons c cs)
    obtain n al where c: "c = (n, al)" by (cases c)
    note bs = Cons [unfolded c]
    note cc = chain_Cons [OF less.prems [unfolded bs]]
    show ?thesis
    proof (cases al)
      case True
      obtain m' where m': "defrag_loop m (ad (a + 8 + n)) b = Some (m', b + of_nat (8 * (length cs - length (joined cs))))"
          "chain m' (a + 8 + n) (joined cs)" "\<forall>x < 2 ^ 32. x \<notin> free_area (a + 8 + n) cs \<longrightarrow> m' (ad x) = m (ad x)"
        using less.hyps [OF _ cc(6)] bs by auto
      have "defrag_loop m (ad a) b = defrag_loop m (ad (a + 8 + n)) b"
        using cc(1,3,4) True by (subst defrag_loop.simps) simp
      moreover have "chain m' a ((n, al) # joined cs)"
        by (rule chain_head [OF less.prems [unfolded bs] m'(2) joined_keeps(1)]) (use m'(3) free_area_range [of _ "a + 8 + n" cs] in force)
      ultimately show ?thesis using m' bs True by auto
    next
      case False
      define fs where "fs = takeWhile (\<lambda>b. \<not> snd b) cs"
      define rest where "rest = dropWhile (\<lambda>b. \<not> snd b) cs"
      have cs: "cs = fs @ rest" "\<forall>b \<in> set fs. \<not> snd b" "rest = [] \<or> snd (hd rest)"
        using hd_dropWhile [of "\<lambda>b. \<not> snd b" cs] by (auto simp: fs_def rest_def dest: set_takeWhileD)
      define t where "t = a + 8 + n + span fs"
      define m1 where "m1 = (if mp_next m (ad a) \<noteq> ad t then set_next m (ad a) (ad t) else m)"
      have j: "joined bs = (n + span fs, False) # joined rest" using joined_run [OF cs(2,3)] bs False cs(1) by simp
      have ch: "chain m a ((n, False) # fs @ rest)" using less.prems bs False cs(1) by simp
      note jr = join_run [OF ch t_def m1_def]
      have sk: "defrag_skip m (mp_next m (ad a)) b = Some (ad t, b + of_nat (8 * length fs))"
        using defrag_skip_chain [OF cc(6), of b] cc(1) by (simp add: fs_def t_def add_ac)
      have lp: "defrag_loop m (ad a) b = defrag_loop m1 (mp_next m1 (ad t)) (b + of_nat (8 * length fs))"
        using cc(3,4) False sk by (subst defrag_loop.simps) (simp add: m1_def Let_def)
      have out: "m1 (ad x) = m (ad x)" if "x < 2 ^ 32" "x \<notin> free_area a bs" for x using jr(2) that bs False by auto
      have ct: "chain m1 t rest" using chain_Cons(6) [OF jr(1)] by (simp add: t_def add_ac)
      show ?thesis
      proof (cases rest)
        case Nil
        have "defrag_loop m1 (mp_next m1 (ad t)) bb = Some (m1, bb)" for bb
          using chain_Nil [OF ct [unfolded Nil]] by (subst defrag_loop.simps) simp
        moreover have "length bs - length (joined bs) = length fs" using bs cs(1) j Nil by simp
        ultimately show ?thesis using lp jr(1) j out Nil by simp
      next
        case (Cons d rs)
        obtain k where d: "d = (k, True)" using cs(3) Cons by (cases d) auto
        note cd = chain_Cons [OF ct [unfolded Cons d]]
        have "length rs < length bs" using bs cs(1) Cons by simp
        then obtain m' where m': "defrag_loop m1 (ad (t + 8 + k)) (b + of_nat (8 * length fs)) =
              Some (m', b + of_nat (8 * length fs) + of_nat (8 * (length rs - length (joined rs))))"
            "chain m' (t + 8 + k) (joined rs)" "\<forall>x < 2 ^ 32. x \<notin> free_area (t + 8 + k) rs \<longrightarrow> m' (ad x) = m1 (ad x)"
          using less.hyps [OF _ cd(6)] by blast
        have fa: "free_area (t + 8 + k) rs \<subseteq> free_area a bs" using bs cs(1) Cons d by (auto simp: t_def free_area_append add_ac)
        have fr: "m' (ad x) = m1 (ad x)" if "x < 2 ^ 32" "x < t + 8 + k" for x using m'(3) that free_area_range [of x "t + 8 + k" rs] by force
        have "chain m' t ((k, True) # joined rs)" by (rule chain_head [OF ct [unfolded Cons d] m'(2) joined_keeps(1)]) (use fr in auto)
        moreover have tt: "a + 8 + (n + span fs) = t" by (simp add: t_def)
        ultimately have "chain m' (a + 8 + (n + span fs)) ((k, True) # joined rs)" by simp
        then have "chain m' a ((n + span fs, False) # (k, True) # joined rs)"
          by (rule chain_head [OF jr(1)]) (use fr Cons d joined_keeps(1) tt in auto)
        moreover have "length bs - length (joined bs) = length fs + (length rs - length (joined rs))"
          using bs cs(1) Cons d j joined_keeps(3) [of rs] by simp
        ultimately show ?thesis using lp cd(1) m' j out fa Cons d by (auto simp: subset_iff algebra_simps)
      qed
    qed
  qed
qed


section \<open>The operations on the list of blocks\<close>

lemma defrag_mem_ok:
  assumes "heap_rep h a bs"
  obtains h' where "defrag_mem h = Some h'" "heap_rep h' a (joined bs)"
    "\<And>x. x < 2 ^ 32 \<Longrightarrow> x \<notin> free_area a bs \<Longrightarrow> h_mem h' (ad x) = h_mem h (ad x)"
proof -
  let ?d = "length bs - length (joined bs)"
  have h: "chain (h_mem h) a bs" "heap_start h = ad a" using assms by (simp_all add: heap_rep_def)
  obtain m where m: "defrag_loop (h_mem h) (ad a) 0 = Some (m, of_nat (8 * ?d))" "chain m a (joined bs)"
      "\<forall>x < 2 ^ 32. x \<notin> free_area a bs \<longrightarrow> m (ad x) = h_mem h (ad x)"
    using defrag_loop_chain [OF h(1), of 0] by auto
  define h' where "h' = h\<lparr>h_mem := m, freebytes := freebytes h + of_nat (8 * ?d), allocbytes := allocbytes h - of_nat (8 * ?d)\<rparr>"
  have "8 * length bs = 8 * length (joined bs) + 8 * ?d" "free_sum (joined bs) = free_sum bs + 8 * ?d"
    using joined_keeps(3,4) [of bs] by auto
  then have "heap_rep h' a (joined bs)" using assms m(2) joined_keeps(1,2) joined_dvd [of bs] by (simp add: heap_rep_def h'_def)
  then show ?thesis using that [of h'] m h(2) by (simp add: defrag_mem_def h'_def)
qed

definition malloc_spec :: "nat \<Rightarrow> blk list \<Rightarrow> nat option \<times> blk list" where
  "malloc_spec n bs =
     (case first_fit n bs of
        Some (off, bs') \<Rightarrow> (Some off, bs')
      | None \<Rightarrow> (case first_fit n (joined bs) of
           Some (off, bs') \<Rightarrow> (Some off, bs')
         | None \<Rightarrow> (None, joined bs)))"

lemma malloc_internal_spec:
  assumes "heap_rep h a bs" "n < 2 ^ 32" "4 dvd n"
  shows "first_fit n bs = None \<Longrightarrow> malloc_internal h (of_nat n) = Some (None, h)"
    "first_fit n bs = Some (off, bs') \<Longrightarrow> \<exists>h'. malloc_internal h (of_nat n) = Some (Some (ad (a + off)), h') \<and> heap_rep h' a bs' \<and>
       (\<forall>x < 2 ^ 32. x \<notin> free_area a bs \<longrightarrow> h_mem h' (ad x) = h_mem h (ad x))"
proof -
  have c: "chain (h_mem h) a bs" "heap_start h = ad a" using assms(1) by (simp_all add: heap_rep_def)
  show "malloc_internal h (of_nat n) = Some (None, h)" if "first_fit n bs = None"
    using malloc_search_chain [OF c(1) assms(2)] that c(2) by (simp add: malloc_internal_def first_fit_none)
  show "\<exists>h'. malloc_internal h (of_nat n) = Some (Some (ad (a + off)), h') \<and> heap_rep h' a bs' \<and>
       (\<forall>x < 2 ^ 32. x \<notin> free_area a bs \<longrightarrow> h_mem h' (ad x) = h_mem h (ad x))" if f: "first_fit n bs = Some (off, bs')"
  proof -
    obtain xs k ys where b: "bs = xs @ (k, False) # ys" "xs = takeWhile (skipped n) bs" "n \<le> k" "off = span xs + 8" "bs' = xs @ place n k @ ys"
      using first_fit_cases [OF f] by blast
    obtain h' where "malloc_internal h (of_nat n) = Some (Some (ad (a + span xs + 8)), h')" "heap_rep h' a (xs @ place n k @ ys)"
        "\<And>x. x < 2 ^ 32 \<Longrightarrow> x \<notin> free_area a bs \<Longrightarrow> h_mem h' (ad x) = h_mem h (ad x)"
      using malloc_internal_fit [OF assms b(1-3)] by blast
    moreover have "a + off = a + span xs + 8" by (simp add: b(4))
    ultimately show ?thesis using b(5) by (simp only:) blast
  qed
qed

text \<open>The size of the block for a request: the next multiple of 4.\<close>

definition rounded :: "u32 \<Rightarrow> nat" where
  "rounded sz = unat (MULT sz 4)"

lemma rounded_ok:
  assumes "unat sz + 4 \<le> 2 ^ 32"
  shows "unat sz \<le> rounded sz" "rounded sz < 2 ^ 32" "4 dvd rounded sz" "of_nat (rounded sz) = MULT sz 4"
  using MULT_ok [of 4 sz] assms unat_bound [of "MULT sz 4"] by (simp_all add: rounded_def)

lemma malloc_refines:
  assumes "heap_rep h a bs" "sz \<noteq> 0" "unat sz + 4 \<le> 2 ^ 32" "malloc_spec (rounded sz) bs = (off, bs')"
  obtains h' where "malloc h sz = Some (map_option (\<lambda>off. ad (a + off)) off, if off = None then Some ENOMEM else None, h')"
    "heap_rep h' a bs'" "\<And>x. x < 2 ^ 32 \<Longrightarrow> x \<notin> free_area a bs \<Longrightarrow> h_mem h' (ad x) = h_mem h (ad x)"
proof -
  note r = rounded_ok [OF assms(3)]
  note sp = malloc_internal_spec [OF _ r(2,3), unfolded r(4)]
  show ?thesis
  proof (cases "first_fit (rounded sz) bs")
    case (Some c)
    then have "first_fit (rounded sz) bs = Some (the off, bs')" "off = Some (the off)" using assms(4) by (auto simp: malloc_spec_def split: prod.splits)
    then obtain h' where "malloc_internal h (MULT sz 4) = Some (Some (ad (a + the off)), h')" "heap_rep h' a bs'"
        "\<forall>x < 2 ^ 32. x \<notin> free_area a bs \<longrightarrow> h_mem h' (ad x) = h_mem h (ad x)" "off = Some (the off)" using sp(2) [OF assms(1)] by blast
    then show ?thesis using that [of h'] assms(2) by (cases off) (auto simp: malloc_def Let_def)
  next
    case None
    note n1 = sp(1) [OF assms(1) None]
    obtain hd where hd: "defrag_mem h = Some hd" "heap_rep hd a (joined bs)"
        "\<And>x. x < 2 ^ 32 \<Longrightarrow> x \<notin> free_area a bs \<Longrightarrow> h_mem hd (ad x) = h_mem h (ad x)" using defrag_mem_ok [OF assms(1)] by blast
    show ?thesis
    proof (cases "first_fit (rounded sz) (joined bs)")
      case None2: None
      then show ?thesis using that [of hd] assms(2,4) n1 hd None sp(1) [OF hd(2) None2]
        by (simp add: malloc_def Let_def malloc_spec_def)
    next
      case (Some c)
      then have "first_fit (rounded sz) (joined bs) = Some (the off, bs')" "off = Some (the off)" using assms(4) None by (auto simp: malloc_spec_def split: prod.splits)
      then obtain h' where "malloc_internal hd (MULT sz 4) = Some (Some (ad (a + the off)), h')" "heap_rep h' a bs'"
          "\<forall>x < 2 ^ 32. x \<notin> free_area a bs \<longrightarrow> h_mem h' (ad x) = h_mem hd (ad x)" "off = Some (the off)"
        using sp(2) [OF hd(2)] unfolding joined_areas by blast
      then show ?thesis using that [of h'] assms(2) n1 hd by (cases off) (auto simp: malloc_def Let_def)
    qed
  qed
qed

lemma first_fit_live:
  assumes "first_fit n bs = Some (off, bs')"
  obtains xs k ys where "n \<le> k" "live a bs = xs @ ys" "live a bs' = xs @ (a + off, k) # ys" "span bs' = span bs"
proof -
  obtain xs k ys where b: "bs = xs @ (k, False) # ys" "n \<le> k" "off = span xs + 8" "bs' = xs @ place n k @ ys"
    using first_fit_cases [OF assms] by metis
  define j where "j = (if k < n + 8 then k else n)"
  have "n \<le> j" "live a bs = live a xs @ live (a + span xs + 8 + k) ys" "live a bs' = live a xs @ (a + off, j) # live (a + span xs + 8 + k) ys"
    using b by (auto simp: live_append place_def j_def add_ac)
  moreover have "span bs' = span bs" using b place_span [OF b(2)] by simp
  ultimately show ?thesis using that by blast
qed

lemma malloc_spec_live:
  assumes "malloc_spec n bs = (off, bs')"
  shows "off = None \<Longrightarrow> bs' = joined bs \<and> (\<forall>(k, al) \<in> set (joined bs). al \<or> k < n)"
    "off = Some p \<Longrightarrow> \<exists>xs k ys. n \<le> k \<and> live a bs = xs @ ys \<and> live a bs' = xs @ (a + p, k) # ys"
    "span bs' = span bs"
proof -
  show "bs' = joined bs \<and> (\<forall>(k, al) \<in> set (joined bs). al \<or> k < n)" if "off = None"
    using assms that first_fit_none [of n "joined bs"] by (auto simp: malloc_spec_def split: option.splits)
  show "\<exists>xs k ys. n \<le> k \<and> live a bs = xs @ ys \<and> live a bs' = xs @ (a + p, k) # ys" if "off = Some p"
    using assms that first_fit_live [of n bs p bs' a] first_fit_live [of n "joined bs" p bs' a] joined_areas(2) [of a bs]
    by (auto simp: malloc_spec_def split: option.splits) metis+
  show "span bs' = span bs"
    using assms first_fit_live [of n bs _ bs' a] first_fit_live [of n "joined bs" _ bs' a] joined_keeps(1) [of bs]
    by (auto simp: malloc_spec_def split: option.splits)
qed


lemma live_split:
  assumes "(p, k) \<in> set (live a bs)"
  obtains xs ys where "bs = xs @ (k, True) # ys" "p = a + span xs + 8"
proof -
  have "\<exists>xs ys. bs = xs @ (k, True) # ys \<and> p = a + span xs + 8"
    using assms
  proof (induction bs arbitrary: a)
    case (Cons b bs)
    obtain n al where b: "b = (n, al)" by (cases b)
    consider "al" "p = a + 8" "k = n" | "(p, k) \<in> set (live (a + 8 + n) bs)" using Cons.prems b by (auto split: if_splits)
    then show ?case
    proof cases
      case 1
      then show ?thesis using b by (intro exI [of _ "[]"] exI [of _ bs]) simp
    next
      case 2
      then obtain xs ys where "bs = xs @ (k, True) # ys" "p = a + 8 + n + span xs + 8" using Cons.IH by blast
      then show ?thesis using b by (intro exI [of _ "(n, al) # xs"] exI [of _ ys]) simp
    qed
  qed simp
  then show ?thesis using that by blast
qed

lemma live_range: "(p, k) \<in> set (live a bs) \<Longrightarrow> a + 8 \<le> p \<and> p + k \<le> a + span bs"
  by (elim live_split) simp

lemma live_sorted: "sorted_wrt (\<lambda>x y. fst x + snd x + 8 \<le> fst y) (live a bs)"
proof (induction bs arbitrary: a)
  case (Cons b bs)
  obtain n al where b: "b = (n, al)" by (cases b)
  show ?case using Cons.IH [of "a + 8 + n"] live_range [of _ _ "a + 8 + n" bs] b by fastforce
qed simp

lemma live_apart: "disjoint_blocks (set (live a bs))" "inj_on fst (set (live a bs))" "distinct (live a bs)"
proof -
  have *: "x = y \<or> fst x + snd x + 8 \<le> fst y \<or> fst y + snd y + 8 \<le> fst x"
    if "sorted_wrt (\<lambda>x y. fst x + snd x + 8 \<le> fst y) l" "x \<in> set l" "y \<in> set l" for x y and l :: "(nat \<times> nat) list"
    using that by (induction l) (auto split: prod.splits)
  note * = * [OF live_sorted]
  show "disjoint_blocks (set (live a bs))" unfolding disjoint_blocks_def using * by fastforce
  show "inj_on fst (set (live a bs))" by (rule inj_onI) (use * in fastforce)
  have "distinct l" if "sorted_wrt (\<lambda>x y. fst x + snd x + 8 \<le> fst y) l" for l :: "(nat \<times> nat) list"
    using that by (induction l) (auto split: prod.splits)
  then show "distinct (live a bs)" using live_sorted by blast
qed

lemma live_new:
  assumes "live a bs = xs @ ys" "live a bs' = xs @ (q, n) # ys"
  shows "q \<notin> fst ` set (live a bs)"
  using live_apart(2) [of a bs'] live_apart(3) [of a bs'] assms by (auto simp: inj_on_def image_iff)

lemma live_not_free:
  assumes "(p, k) \<in> set (live a bs)" "p \<le> x" "x < p + k"
  shows "x \<notin> free_area a bs" "x \<notin> hdr_bytes a bs"
proof -
  obtain xs ys where b: "bs = xs @ (k, True) # ys" "p = a + span xs + 8" using live_split [OF assms(1)] .
  show "x \<notin> free_area a bs"
    using free_area_range [of x a xs] free_area_range [of x "a + span xs + 8 + k" ys] b assms(2,3) by (auto simp: free_area_append)
  show "x \<notin> hdr_bytes a bs"
    using hdr_bytes_range [of a xs] hdr_bytes_range [of "a + span xs + 8 + k" ys] b assms(2,3) by (auto simp: hdr_bytes_append subset_iff)
qed

lemma free_block_ok:
  assumes "heap_rep h a (xs @ (k, True) # ys)" "p = a + span xs + 8"
  obtains h' where "free h (ad p) = Some h'" "heap_rep h' a (xs @ (k, False) # ys)"
    "\<And>x. x < 2 ^ 32 \<Longrightarrow> x < p - 8 \<or> p \<le> x \<Longrightarrow> h_mem h' (ad x) = h_mem h (ad x)"
proof -
  let ?q = "a + span xs"
  have c: "chain (h_mem h) a (xs @ (k, True) # ys)" using assms(1) by (simp add: heap_rep_def)
  have b: "?q + 8 + k + span ys + 8 \<le> 2 ^ 32" using c by (simp add: chain_def)
  have cc: "chain (h_mem h) ?q ((k, True) # ys)" using c by (simp add: chain_append)
  have q: "ad p - 8 = ad ?q" by (simp add: assms(2))
  have nz: "ad p \<noteq> 0" using ad_eq [of p 0] b assms(2) by simp
  define m where "m = set_magic (h_mem h) (ad ?q) (magic_of False)"
  note mk = mark_block [OF c m_def]
  have sz: "get_size m (ad ?q) = of_nat k" using chain_Cons(5) [of m ?q k False ys] mk(1) by (simp add: chain_append)
  define h' where "h' = h\<lparr>h_mem := m, allocbytes := allocbytes h - of_nat k, freebytes := freebytes h + of_nat k\<rparr>"
  have "free h (ad p) = Some h'"
    unfolding free_def q Let_def using nz chain_Cons(2) [OF cc] sz by (simp add: h'_def m_def magic_of_def)
  moreover have "heap_rep h' a (xs @ (k, False) # ys)" using assms(1) mk(1) by (simp add: heap_rep_def h'_def)
  moreover have "h_mem h' (ad x) = h_mem h (ad x)" if "x < 2 ^ 32" "x < p - 8 \<or> p \<le> x" for x
    using mk(2) [OF that(1)] that(2) assms(2) by (simp add: h'_def)
  ultimately show ?thesis using that by blast
qed

text \<open>Whoever writes inside a live block leaves the heap as it is.\<close>

lemma write_rep:
  assumes "heap_rep h a bs" "(p, k) \<in> set (live a bs)" "\<And>x. x < 2 ^ 32 \<Longrightarrow> x < p \<or> p + k \<le> x \<Longrightarrow> m (ad x) = h_mem h (ad x)"
  shows "heap_rep (h\<lparr>h_mem := m\<rparr>) a bs"
proof -
  have c: "chain (h_mem h) a bs" using assms(1) by (simp add: heap_rep_def)
  have r: "a + span bs + 8 \<le> 2 ^ 32" "p + k \<le> a + span bs" using c live_range [OF assms(2)] by (auto simp: chain_def)
  have "chain m a bs"
  proof (rule chain_cong [OF c])
    fix y assume y: "y \<in> hdr_bytes a bs \<union> {a + span bs..<a + span bs + 8}"
    moreover have "\<not> (p \<le> y \<and> y < p + k)" if "y \<in> hdr_bytes a bs" using live_not_free(2) [OF assms(2)] that by blast
    ultimately have "y < p \<or> p + k \<le> y" using r(2) by auto
    moreover have "y < 2 ^ 32" using y r hdr_bytes_range [of a bs] by auto
    ultimately show "m (ad y) = h_mem h (ad y)" using assms(3) by blast
  qed
  then show ?thesis using assms(1) by (simp add: heap_rep_def)
qed

lemma poke_rep:
  assumes "heap_rep h a bs" "(p, k) \<in> set (live a bs)" "p \<le> x" "x < p + k"
  shows "heap_rep (h\<lparr>h_mem := (h_mem h)(ad x := v)\<rparr>) a bs"
proof (rule write_rep [OF assms(1,2)])
  fix y :: nat assume y: "y < 2 ^ 32" "y < p \<or> p + k \<le> y"
  have "x < 2 ^ 32" using live_range [OF assms(2)] assms(1,4) by (auto simp: heap_rep_def chain_def)
  then have "ad y \<noteq> ad x" using y assms(3,4) by (subst ad_eq) auto
  then show "((h_mem h)(ad x := v)) (ad y) = h_mem h (ad y)" by simp
qed

section \<open>The heap as an allocator\<close>

definition heap_fits :: "nat \<Rightarrow> bool" where
  "heap_fits n \<longleftrightarrow> 0 < n \<and> n + 4 \<le> 2 ^ 32"

definition heap_owns :: "nat \<Rightarrow> nat \<Rightarrow> heap \<Rightarrow> (nat \<times> nat) set \<Rightarrow> bool" where
  "heap_owns a len h B \<longleftrightarrow> (\<exists>bs. heap_rep h a bs \<and> span bs = len \<and> B = set (live a bs))"

definition heap_get :: "heap \<Rightarrow> nat \<Rightarrow> (nat option \<times> heap) option" where
  "heap_get h n = map_option (\<lambda>(p, e, h'). (map_option unat p, h')) (malloc h (of_nat n))"

definition heap_put :: "heap \<Rightarrow> nat \<Rightarrow> heap option" where
  "heap_put h p = free h (of_nat p)"

definition heap_poke :: "heap \<Rightarrow> nat \<Rightarrow> u8 \<Rightarrow> heap" where
  "heap_poke h x v = h\<lparr>h_mem := (h_mem h)(of_nat x := v)\<rparr>"

lemma heap_get_ok:
  assumes "heap_owns a len h B" "heap_fits n"
  shows "\<exists>r h'. heap_get h n = Some (r, h') \<and>
    (case r of None \<Rightarrow> heap_owns a len h' B | Some p \<Rightarrow> p \<notin> fst ` B \<and> (\<exists>k \<ge> n. heap_owns a len h' (insert (p, k) B)))"
proof -
  obtain bs where h: "heap_rep h a bs" "B = set (live a bs)" "span bs = len" using assms(1) by (auto simp: heap_owns_def)
  define sz :: u32 where "sz = of_nat n"
  have n: "unat sz = n" "sz \<noteq> 0" "unat sz + 4 \<le> 2 ^ 32" using assms(2) of_nat_word_0_iff [of n, where 'a = 32]
    by (auto simp: heap_fits_def sz_def)
  obtain off bs' where sp: "malloc_spec (rounded sz) bs = (off, bs')" by (cases "malloc_spec (rounded sz) bs")
  have len: "span bs' = len" using malloc_spec_live(3) [OF sp] h(3) by simp
  obtain h' where h': "malloc h sz = Some (map_option (\<lambda>off. ad (a + off)) off, if off = None then Some ENOMEM else None, h')" "heap_rep h' a bs'"
    using malloc_refines [OF h(1) n(2,3) sp] by metis
  show ?thesis
  proof (cases off)
    case None
    then have "bs' = joined bs" using malloc_spec_live(1) [OF sp] by blast
    then have "heap_owns a len h' B" unfolding heap_owns_def using h'(2) h(2) joined_areas(2) len by (intro exI [of _ bs']) simp
    then show ?thesis using h'(1) None by (simp add: heap_get_def sz_def)
  next
    case (Some o')
    obtain xs k ys where l: "rounded sz \<le> k" "live a bs = xs @ ys" "live a bs' = xs @ (a + o', k) # ys"
      using malloc_spec_live(2) [OF sp Some] by blast
    have "a + o' < 2 ^ 32" using live_range [of "a + o'" k a bs'] l(3) h'(2) by (simp add: heap_rep_def chain_def)
    then have u: "unat (ad (a + o')) = a + o'" by (simp del: of_nat_add)
    have "a + o' \<notin> fst ` B" using live_new [OF l(2,3)] h(2) by simp
    moreover have "heap_owns a len h' (insert (a + o', k) B)" using h'(2) l h(2) len by (auto simp: heap_owns_def)
    ultimately show ?thesis using h'(1) Some u l(1) rounded_ok(1) [OF n(3)] n(1)
      by (auto simp: heap_get_def sz_def intro!: exI [of _ k] simp del: of_nat_add)
  qed
qed

lemma heap_put_ok:
  assumes "heap_owns a len h B" "(p, k) \<in> B"
  shows "\<exists>h'. heap_put h p = Some h' \<and> heap_owns a len h' (B - {(p, k)})"
proof -
  obtain bs where h: "heap_rep h a bs" "B = set (live a bs)" "span bs = len" using assms(1) by (auto simp: heap_owns_def)
  obtain xs ys where b: "bs = xs @ (k, True) # ys" "p = a + span xs + 8" using live_split assms(2) h(2) by blast
  obtain h' where h': "free h (ad p) = Some h'" "heap_rep h' a (xs @ (k, False) # ys)"
    using free_block_ok [OF h(1) [unfolded b(1)] b(2)] by blast
  have "set (live a (xs @ (k, False) # ys)) = B - {(p, k)}"
    using live_apart(3) [of a bs] h(2) b by (auto simp: live_append)
  moreover have "span (xs @ (k, False) # ys) = len" using h(3) b(1) by simp
  ultimately show ?thesis using h' unfolding heap_put_def heap_owns_def by metis
qed

interpretation ma: allocator heap_fits "heap_owns a len" heap_get heap_put heap_poke for a len
proof (unfold_locales, goal_cases)
  case (1 s B n)
  then show ?case by (rule heap_get_ok)
next
  case (2 s B p k)
  then show ?case by (rule heap_put_ok)
next
  case (3 s B p k x v)
  then show ?case using poke_rep by (fastforce simp: heap_owns_def heap_poke_def)
next
  case (4 s B)
  then show ?case using live_apart(1) by (auto simp: heap_owns_def)
next
  case (5 s B)
  then show ?case using live_apart(2) by (auto simp: heap_owns_def)
qed

section \<open>Initialisation\<close>

lemma same_low_bits:
  assumes "(x XOR y) AND 7 = (0 :: u32)"
  shows "unat x mod 8 = unat y mod 8"
proof -
  have "take_bit 3 (x XOR y) = 0" using assms by (simp add: take_bit_eq_mask mask_eq_exp_minus_1)
  then have "take_bit 3 x XOR take_bit 3 y = 0" by (simp add: take_bit_xor)
  then have "take_bit 3 x = take_bit 3 y" by (auto simp: bit_eq_iff bit_xor_iff)
  then have "take_bit 3 (unat x) = take_bit 3 (unat y)" by (metis unsigned_take_bit_eq)
  then show ?thesis by (simp add: take_bit_eq_mod)
qed

lemma init_chain:
  assumes "a + 8 \<le> b" "b + 8 \<le> 2 ^ 32"
    and "m1 = set_magic (set_next m (ad a) (ad b)) (ad a) MAGIC_FREE_NUMBER"
    and "m2 = set_magic (set_next m1 (ad b) (ad b)) (ad b) MAGIC_LAST_NUMBER"
  shows "chain m2 a [(b - a - 8, False)]"
proof -
  have m1: "hdr m1 a b MAGIC_FREE_NUMBER" unfolding assms(3) using assms(1,2) by (subst hdr_set(1)) (auto simp: set_next_def)
  have m2: "hdr m2 b b MAGIC_LAST_NUMBER" unfolding assms(4) using assms(2) by (subst hdr_set(1)) (auto simp: set_next_def)
  have "hdr m2 a b MAGIC_FREE_NUMBER"
  proof (rule hdr_cong [OF m1])
    fix x assume "a \<le> x" "x < a + 8"
    then show "m2 (ad x) = m1 (ad x)" unfolding assms(4) using assms(1,2) by (simp add: set_other)
  qed
  then show ?thesis using m2 assms(1,2) by (simp add: chain_def magic_of_def)
qed

lemma malloc_init_ok:
  assumes "malloc_init h s e = (EOK, h')" "0 < s" "unat s + 72 \<le> unat e"
  shows "heap_rep h' (unat s) [(unat e - unat s - 72, False)]"
proof -
  have g: "(s XOR e) AND 7 = 0" using assms(1) by (auto simp: malloc_init_def split: if_splits)
  define a where "a = unat s"
  define b where "b = unat e - 64"
  have ab: "a + 8 \<le> b" "b + 8 \<le> 2 ^ 32" "0 < a" "unat e - unat s - 72 = b - a - 8"
    using assms(2,3) unat_bound [of e] by (auto simp: unat_gt_0 a_def b_def)
  have e: "e - 64 = ad b" "s = ad a" using assms(3) by (simp_all add: of_nat_diff a_def b_def)
  define m1 where "m1 = set_magic (set_next (h_mem h) (ad a) (ad b)) (ad a) MAGIC_FREE_NUMBER"
  define m2 where "m2 = set_magic (set_next m1 (ad b) (ad b)) (ad b) MAGIC_LAST_NUMBER"
  have "chain m2 a [(b - a - 8, False)]" by (rule init_chain [OF ab(1,2) m1_def m2_def])
  moreover have "h' = \<lparr>h_mem = m2, heap_start = ad a, heap_end = ad b, freebytes = ad b - ad a - 16, allocbytes = 16\<rparr>"
    using assms(1) g e unfolding malloc_init_def Let_def m2_def m1_def by (simp split: if_splits)
  moreover have "4 dvd b - a - 8"
  proof -
    have "8 dvd unat e - unat s" using same_low_bits [OF g] assms(3) mod_eq_dvd_iff_nat [of "unat s" "unat e" 8] by simp
    then have "8 dvd unat e - unat s - 72" using dvd_diff_nat [of 8 "unat e - unat s" 72] by simp
    then show ?thesis unfolding ab(4) by (rule dvd_trans [rotated]) simp
  qed
  ultimately show ?thesis unfolding ab(4) using ab by (simp add: heap_rep_def of_nat_diff flip: a_def)
qed


section \<open>Growing a block\<close>



lemma live_mem:
  assumes "heap_rep h a bs" "(p, k) \<in> set (live a bs)"
  shows "is_alloc (h_mem h) (ad p - 8)" "get_size (h_mem h) (ad p - 8) = of_nat k" "ad p \<noteq> 0" "unat (of_nat k :: u32) = k" "p + k + 8 \<le> 2 ^ 32"
proof -
  obtain xs ys where b: "bs = xs @ (k, True) # ys" "p = a + span xs + 8" using live_split [OF assms(2)] .
  have c: "chain (h_mem h) (a + span xs) ((k, True) # ys)" using assms(1) b(1) by (simp add: heap_rep_def chain_append)
  have q: "ad p - 8 = ad (a + span xs)" by (simp add: b(2))
  show "is_alloc (h_mem h) (ad p - 8)" "get_size (h_mem h) (ad p - 8) = of_nat k" unfolding q using chain_Cons [OF c] by auto
  show r: "p + k + 8 \<le> 2 ^ 32" using live_range [OF assms(2)] assms(1) by (auto simp: heap_rep_def chain_def)
  then show "ad p \<noteq> 0" using ad_eq [of p 0] b(2) by auto
  show "unat (of_nat k :: u32) = k" using r by (intro unat_of_nat_small) simp
qed

section \<open>Properties\<close>

lemma heap_client_facts:
  assumes "malloc_init h0 s e = (EOK, h1)" "0 < s" "unat s + 72 \<le> unat e"
    and "client heap_fits heap_get heap_put heap_poke h1 h C"
  shows "disjoint_blocks C" "(p, n) \<in> C \<Longrightarrow> unat s + 8 \<le> p \<and> p + n \<le> unat e - 64"
    "heap_fits n \<Longrightarrow> malloc h (of_nat n) \<noteq> None" "(p, n) \<in> C \<Longrightarrow> free h (of_nat p) \<noteq> None"
proof -
  have o: "heap_owns (unat s) (unat e - 64 - unat s) h1 {}"
    using malloc_init_ok [OF assms(1-3)] assms(3) by (auto simp: heap_owns_def intro!: exI [of _ "[(unat e - unat s - 72, False)]"])
  note safe = ma.client_safe [OF assms(4) o]
  show "disjoint_blocks C" by (rule safe(1))
  show "malloc h (of_nat n) \<noteq> None" if "heap_fits n" using safe(2) [OF that] by (auto simp: heap_get_def)
  show "free h (of_nat p) \<noteq> None" if "(p, n) \<in> C" using safe(3) [OF that] by (simp add: heap_put_def)
  show "unat s + 8 \<le> p \<and> p + n \<le> unat e - 64" if c: "(p, n) \<in> C"
  proof -
    obtain B where B: "heap_owns (unat s) (unat e - 64 - unat s) h B" "ma.holds C B" using ma.client_owns [OF assms(4) o] by blast
    obtain k where k: "n \<le> k" "(p, k) \<in> B" using ma.holdsE [OF B(2) c] .
    then show ?thesis using B(1) live_range assms(3) by (fastforce simp: heap_owns_def)
  qed
qed

text \<open>C12: the heap is safe for every client. Start from an initialised heap of at least 72 bytes and let a client allocate, free
  the blocks it holds and write inside them, in any order, with requests of 1 to 2^32 - 4 bytes (larger ones are rounded to 0): the blocks it holds lie inside the heap and never
  overlap, and every further \<open>malloc\<close>, and \<open>free\<close> of a block held, ends without a fault or an endless loop.\<close>

theorem heap_clients_safe:
  assumes "malloc_init h0 s e = (EOK, h1)" "0 < s" "unat s + 72 \<le> unat e"
    and "client heap_fits heap_get heap_put heap_poke h1 h C"
  shows "disjoint_blocks C \<and> (\<forall>(p, n) \<in> C. unat s + 8 \<le> p \<and> p + n \<le> unat e - 64 \<and> free h (of_nat p) \<noteq> None) \<and>
    (\<forall>n. heap_fits n \<longrightarrow> malloc h (of_nat n) \<noteq> None)"
  using heap_client_facts [OF assms] by fast

definition raw_heap :: heap where
  "raw_heap = \<lparr>h_mem = (\<lambda>_. 0), heap_start = 0, heap_end = 0, freebytes = 0, allocbytes = 0\<rparr>"

lemma first_block:
  obtains h1 h2 where "malloc_init raw_heap 4096 8192 = (EOK, h1)" "heap_rep h1 4096 [(4024, False)]"
    "malloc h1 16 = Some (Some 4104, None, h2)" "heap_rep h2 4096 [(16, True), (4000, False)]"
proof -
  obtain h1 where h1: "malloc_init raw_heap 4096 8192 = (EOK, h1)" by (simp add: malloc_init_def Let_def)
  have r: "heap_rep h1 4096 [(4024, False)]" using malloc_init_ok [OF h1] by simp
  have "rounded 16 = 16" by (simp add: rounded_def MULT_def)
  then have "malloc_spec (rounded 16) [(4024, False)] = (Some 8, [(16, True), (4000, False)])"
    by (simp add: malloc_spec_def first_fit_def place_def)
  from malloc_refines [OF r _ _ this] obtain h2 where "malloc h1 16 = Some (Some 4104, None, h2)" "heap_rep h2 4096 [(16, True), (4000, False)]"
    by auto
  then show ?thesis by (rule that [OF h1 r])
qed

theorem heap_clients_safe_witness:
  "\<exists>h1 h. malloc_init raw_heap 4096 8192 = (EOK, h1) \<and> client heap_fits heap_get heap_put heap_poke h1 h {(4104, 16)} \<and>
     malloc h 100 \<noteq> None \<and> free h 4104 \<noteq> None"
proof -
  obtain h1 h2 where h: "malloc_init raw_heap 4096 8192 = (EOK, h1)" "malloc h1 16 = Some (Some 4104, None, h2)"
    using first_block by metis
  have g: "heap_fits 16" "heap_get h1 16 = Some (Some 4104, h2)" "heap_fits 100" using h(2) by (simp_all add: heap_get_def heap_fits_def)
  have c: "client heap_fits heap_get heap_put heap_poke h1 h2 {(4104, 16)}" by (rule client.took [where s = h1 and C = "{}", OF client.start]) (rule g)+
  have s: "(\<forall>(p, n) \<in> {(4104, 16)}. free h2 (of_nat p) \<noteq> None) \<and> (\<forall>n. heap_fits n \<longrightarrow> malloc h2 (of_nat n) \<noteq> None)"
    using heap_clients_safe [OF h(1) _ _ c] by auto
  have "malloc h2 100 \<noteq> None" using s g(3) by (auto dest!: spec [of _ 100])
  moreover have "free h2 4104 \<noteq> None" using s by simp
  ultimately show ?thesis using c h(1) by blast
qed

text \<open>C13: \<open>malloc\<close> is first fit with deferred joining. On a well-formed heap a request of 1 to 2^32 - 4 bytes is served from the first free block
  that is large enough, split when a header still fits; when there is none the free neighbours are joined
  and the search repeated, and \<open>ENOMEM\<close> means that no joined free block is large enough. The new block starts behind its header,
  has at least the size asked for, and no byte of a live block changes.\<close>

theorem malloc_correct:
  assumes "heap_rep h a bs" "sz \<noteq> 0" "unat sz + 4 \<le> 2 ^ 32" "malloc_spec (rounded sz) bs = (off, bs')"
  shows "\<exists>h'. malloc h sz = Some (map_option (\<lambda>off. of_nat (a + off)) off, if off = None then Some ENOMEM else None, h') \<and>
      heap_rep h' a bs' \<and>
      (\<forall>(p, k) \<in> set (live a bs). \<forall>x. p \<le> x \<and> x < p + k \<longrightarrow> h_mem h' (of_nat x) = h_mem h (of_nat x)) \<and>
      (case off of None \<Rightarrow> bs' = joined bs \<and> (\<forall>(k, al) \<in> set bs'. al \<or> k < rounded sz)
       | Some p \<Rightarrow> \<exists>xs k ys. unat sz \<le> k \<and> live a bs = xs @ ys \<and> live a bs' = xs @ (a + p, k) # ys)"
proof -
  obtain h' where h': "malloc h sz = Some (map_option (\<lambda>off. of_nat (a + off)) off, if off = None then Some ENOMEM else None, h')"
      "heap_rep h' a bs'" "\<And>x. x < 2 ^ 32 \<Longrightarrow> x \<notin> free_area a bs \<Longrightarrow> h_mem h' (ad x) = h_mem h (ad x)"
    using malloc_refines [OF assms] by metis
  have "h_mem h' (of_nat x) = h_mem h (of_nat x)" if "(p, k) \<in> set (live a bs)" "p \<le> x" "x < p + k" for p k x
    by (rule h'(3)) (use live_not_free(1) [OF that] live_mem(5) [OF assms(1) that(1)] that(3) in auto)
  moreover have "case off of None \<Rightarrow> bs' = joined bs \<and> (\<forall>(k, al) \<in> set bs'. al \<or> k < rounded sz)
       | Some p \<Rightarrow> \<exists>xs k ys. unat sz \<le> k \<and> live a bs = xs @ ys \<and> live a bs' = xs @ (a + p, k) # ys"
  proof (cases off)
    case None
    then show ?thesis using malloc_spec_live(1) [OF assms(4) None] by auto
  next
    case (Some p)
    obtain xs k ys where "rounded sz \<le> k" "live a bs = xs @ ys" "live a bs' = xs @ (a + p, k) # ys"
      using malloc_spec_live(2) [OF assms(4) Some] by blast
    moreover have "unat sz \<le> k" using rounded_ok(1) [OF assms(3)] \<open>rounded sz \<le> k\<close> by linarith
    ultimately show ?thesis using Some by auto
  qed
  ultimately show ?thesis using h'(1,2) by blast
qed

theorem malloc_correct_witness:
  "\<exists>h1 h2. malloc_init raw_heap 4096 8192 = (EOK, h1) \<and> malloc h1 4025 = Some (None, Some ENOMEM, h2) \<and> heap_rep h2 4096 [(4024, False)]"
proof -
  obtain h1 where h: "malloc_init raw_heap 4096 8192 = (EOK, h1)" "heap_rep h1 4096 [(4024, False)]" using first_block by metis
  have "rounded 4025 = 4028" by (simp add: rounded_def MULT_def)
  then have "malloc_spec (rounded 4025) [(4024, False)] = (None, [(4024, False)])" by (simp add: malloc_spec_def first_fit_def)
  then show ?thesis using malloc_correct [OF h(2), of 4025 None] h(1) by auto
qed




end
