(* ===== verification/Sorting.thy ===== *)
theory Sorting
  imports Prelude "HOL-Library.Multiset"
begin

text \<open>
  \<open>qsort\<close> and \<open>bsearch\<close> of \<^verbatim>\<open>src/libs/libc/ansi\<close>. The array is the list of its elements and a pointer into it an
  index; the width of an element cancels out of all pointer arithmetic. What is left of \<open>lefteq - width\<close> at index 0
  is 0, which ends the recursive call at once as the pointer before the array does. The locale \<open>compares\<close> states what a comparison function
  promises: its sign orders the elements by a key.
\<close>

section \<open>Exchanging elements\<close>

definition qexchange :: "'a list \<Rightarrow> nat \<Rightarrow> nat \<Rightarrow> 'a list" where
  "qexchange xs p q = (let c = xs ! p; xs = xs[p := xs ! q] in xs[q := c])"

definition q3exchange :: "'a list \<Rightarrow> nat \<Rightarrow> nat \<Rightarrow> nat \<Rightarrow> 'a list" where
  "q3exchange xs p q r = (let c = xs ! p; xs = xs[p := xs ! r]; xs = xs[r := xs ! q] in xs[q := c])"

section \<open>Partitioning\<close>

text \<open>
  The body of \<open>qsort1\<close> between the choice of the pivot and the recursive call. In the phase \<open>True\<close> control is at the label
  \<open>again\<close>, in the loop that moves \<open>left\<close>; in the phase \<open>False\<close> it is in the loop that moves \<open>right\<close>.
\<close>

function partition_loop :: "('a \<Rightarrow> 'a \<Rightarrow> int) \<Rightarrow> bool \<Rightarrow> 'a list \<Rightarrow> nat \<Rightarrow> nat \<Rightarrow> nat \<Rightarrow> nat \<Rightarrow> 'a list \<times> nat \<times> nat" where
  "partition_loop qcompar True xs left lefteq righteq right =
     (if left < lefteq \<and> qcompar (xs ! left) (xs ! lefteq) \<le> 0
      then (if qcompar (xs ! left) (xs ! lefteq) < 0
            then partition_loop qcompar True xs (left + 1) lefteq righteq right
            else partition_loop qcompar True (qexchange xs left (lefteq - 1)) left (lefteq - 1) righteq right)
      else partition_loop qcompar False xs left lefteq righteq right)"
| "partition_loop qcompar False xs left lefteq righteq right =
     (if right > righteq
      then (if qcompar (xs ! right) (xs ! righteq) < 0
            then (if left < lefteq
                  then partition_loop qcompar True (qexchange xs left right) (left + 1) lefteq righteq (right - 1)
                  else partition_loop qcompar False (q3exchange xs left (righteq + 1) right) (lefteq + 1) (lefteq + 1) (righteq + 1) right)
            else if qcompar (xs ! right) (xs ! righteq) = 0
            then partition_loop qcompar False (qexchange xs right (righteq + 1)) left lefteq (righteq + 1) right
            else partition_loop qcompar False xs left lefteq righteq (right - 1))
      else if left < lefteq
      then partition_loop qcompar True (q3exchange xs right (lefteq - 1) left) left (lefteq - 1) (righteq - 1) (righteq - 1)
      else (xs, lefteq, righteq))"
  by pat_completeness auto

termination
  by (relation "measure (\<lambda>(c, ph, xs, l, le, re, r). 2 * ((le - l) + (r - re)) + (if ph then 1 else 0))") auto

declare partition_loop.simps [simp del]

lemma partition_bounds:
  assumes "partition_loop qcompar ph xs l le re r = (ys, le', re')" "l \<le> le" "le \<le> re" "re \<le> r"
  shows "l \<le> le' \<and> le' \<le> re' \<and> re' \<le> r"
  using assms
proof (induction qcompar ph xs l le re r rule: partition_loop.induct)
  case (1 c xs l le re r)
  show ?case using "1.prems"(1) "1.IH" "1.prems"(2-) by (subst (asm) partition_loop.simps) (force split: if_splits)
next
  case (2 c xs l le re r)
  show ?case using "2.prems"(1) "2.IH" "2.prems"(2-) by (subst (asm) partition_loop.simps) (force split: if_splits)
qed

section \<open>Sorting and searching\<close>

function qsort1 :: "('a \<Rightarrow> 'a \<Rightarrow> int) \<Rightarrow> 'a list \<Rightarrow> nat \<Rightarrow> nat \<Rightarrow> 'a list" where
  "qsort1 qcompar xs a1 a2 =
     (if a2 \<le> a1 then xs
      else
        (let mid = a1 + (a2 - a1 + 1) div 2;
             (ys, lefteq, righteq) = partition_loop qcompar True xs a1 mid mid a2
         in qsort1 qcompar (qsort1 qcompar ys a1 (lefteq - 1)) (righteq + 1) a2))"
  by pat_completeness auto

termination
proof (relation "measure (\<lambda>(c, xs, a1, a2). a2 - a1)", goal_cases)
  case (2 c xs a1 a2 mid p ys q le re)
  then have "partition_loop c True xs a1 mid mid a2 = (ys, le, re)" by simp
  then have "le \<le> a2" using partition_bounds 2 by fastforce
  then show ?case using 2 by auto
next
  case (3 c xs a1 a2 mid p ys q le re)
  then have "partition_loop c True xs a1 mid mid a2 = (ys, le, re)" by simp
  then have "a1 \<le> re" using partition_bounds 3 by fastforce
  then show ?case using 3 by auto
qed simp

declare qsort1.simps [simp del]

definition qsort :: "('a \<Rightarrow> 'a \<Rightarrow> int) \<Rightarrow> 'a list \<Rightarrow> 'a list" where
  "qsort cmp xs = (if length xs = 0 then xs else qsort1 cmp xs 0 (length xs - 1))"

fun bsearch :: "('k \<Rightarrow> 'a \<Rightarrow> int) \<Rightarrow> 'k \<Rightarrow> 'a list \<Rightarrow> nat \<Rightarrow> nat \<Rightarrow> nat option" where
  "bsearch cmp key xs base n =
     (if n > 0
      then (let mid_point = base + n div 2; retval = cmp key (xs ! mid_point) in
            if retval = 0 then Some mid_point
            else if retval \<ge> 0 then bsearch cmp key xs (mid_point + 1) ((n - 1) div 2)
            else bsearch cmp key xs base (n div 2))
      else None)"

declare bsearch.simps [simp del]


section \<open>Lemmas on exchanges\<close>

lemma exchange_nth:
  assumes "p < length xs" "q < length xs" "i < length xs"
  shows "qexchange xs p q ! i = (if i = q then xs ! p else if i = p then xs ! q else xs ! i)"
  using assms by (auto simp: qexchange_def Let_def nth_list_update)

lemma q3exchange_nth:
  assumes "p < length xs" "q < length xs" "r < length xs" "p \<noteq> q" "p \<noteq> r" "i < length xs"
  shows "q3exchange xs p q r ! i = (if i = q then xs ! p else if i = r then xs ! q else if i = p then xs ! r else xs ! i)"
  using assms by (auto simp: q3exchange_def Let_def nth_list_update)

lemma exchange_length [simp]: "length (qexchange xs p q) = length xs" "length (q3exchange xs p q r) = length xs"
  by (simp_all add: qexchange_def q3exchange_def Let_def)

lemma exchange_mset: "p < length xs \<Longrightarrow> q < length xs \<Longrightarrow> mset (qexchange xs p q) = mset xs"
  using mset_swap [of q xs p] by (simp add: qexchange_def Let_def)

lemma q3exchange_swaps:
  assumes "p < length xs" "q < length xs" "r < length xs" "p \<noteq> q" "p \<noteq> r"
  shows "q3exchange xs p q r = qexchange (qexchange xs p r) r q"
  by (rule nth_equalityI) (use assms in \<open>auto simp: q3exchange_nth exchange_nth\<close>)

lemma q3exchange_mset:
  "p < length xs \<Longrightarrow> q < length xs \<Longrightarrow> r < length xs \<Longrightarrow> p \<noteq> q \<Longrightarrow> p \<noteq> r \<Longrightarrow> mset (q3exchange xs p q r) = mset xs"
  by (simp add: q3exchange_swaps exchange_mset)

locale compares =
  fixes cmp :: "'a \<Rightarrow> 'a \<Rightarrow> int" and key :: "'a \<Rightarrow> 'k::linorder"
  assumes cmp_less: "cmp a b < 0 \<longleftrightarrow> key a < key b"
    and cmp_greater: "0 < cmp a b \<longleftrightarrow> key b < key a"
begin

lemma cmp_eq: "cmp a b = 0 \<longleftrightarrow> key a = key b"
  using cmp_less [of a b] cmp_greater [of a b] by force

lemma cmp_le: "cmp a b \<le> 0 \<longleftrightarrow> key a \<le> key b"
  using cmp_greater [of a b] by force

text \<open>Between \<open>a1\<close> and \<open>left\<close> are smaller elements, the interval of equals holds the pivot, beyond \<open>right\<close> are larger ones.\<close>

definition part_inv :: "nat \<Rightarrow> nat \<Rightarrow> 'k \<Rightarrow> bool \<Rightarrow> 'a list \<Rightarrow> nat \<Rightarrow> nat \<Rightarrow> nat \<Rightarrow> nat \<Rightarrow> bool" where
  "part_inv a1 a2 pv ph xs l le re r \<longleftrightarrow> a1 \<le> l \<and> l \<le> le \<and> le \<le> re \<and> re \<le> r \<and> r \<le> a2 \<and> a2 < length xs \<and>
     (\<forall>i. le \<le> i \<and> i \<le> re \<longrightarrow> key (xs ! i) = pv) \<and> (\<forall>i. a1 \<le> i \<and> i < l \<longrightarrow> key (xs ! i) < pv) \<and>
     (\<forall>i. r < i \<and> i \<le> a2 \<longrightarrow> pv < key (xs ! i)) \<and> (\<not> ph \<and> l < le \<longrightarrow> pv < key (xs ! l))"

text \<open>What a step may do: permute the elements between \<open>a1\<close> and \<open>a2\<close>.\<close>

definition permutes_in :: "nat \<Rightarrow> nat \<Rightarrow> 'a list \<Rightarrow> 'a list \<Rightarrow> bool" where
  "permutes_in a1 a2 xs ys \<longleftrightarrow> mset ys = mset xs \<and> (\<forall>i. i < a1 \<or> a2 < i \<longrightarrow> ys ! i = xs ! i)"

lemma permutes_in_refl: "permutes_in a1 a2 xs xs"
  by (simp add: permutes_in_def)

lemma permutes_in_trans: "permutes_in a1 a2 xs ys \<Longrightarrow> permutes_in a1 a2 ys zs \<Longrightarrow> permutes_in a1 a2 xs zs"
  by (simp add: permutes_in_def)

lemma permutes_exchange:
  assumes "a1 \<le> p" "p \<le> a2" "a1 \<le> q" "q \<le> a2" "a2 < length xs"
  shows "permutes_in a1 a2 xs (qexchange xs p q)"
proof -
  have "qexchange xs p q ! i = xs ! i" if "i < a1 \<or> a2 < i" for i
    using that assms by (auto simp: qexchange_def Let_def)
  then show ?thesis using assms exchange_mset [of p xs q] by (simp add: permutes_in_def)
qed

lemma permutes_q3exchange:
  assumes "a1 \<le> p" "p \<le> a2" "a1 \<le> q" "q \<le> a2" "a1 \<le> r" "r \<le> a2" "a2 < length xs" "p \<noteq> q" "p \<noteq> r"
  shows "permutes_in a1 a2 xs (q3exchange xs p q r)"
proof -
  have "q3exchange xs p q r ! i = xs ! i" if "i < a1 \<or> a2 < i" for i
    using that assms by (auto simp: q3exchange_def Let_def)
  then show ?thesis using assms q3exchange_mset [of p xs q r] by (simp add: permutes_in_def)
qed

lemma inv_smaller:
  assumes "part_inv a1 a2 pv True xs l le re r" "l < le" "cmp (xs ! l) (xs ! le) < 0"
  shows "part_inv a1 a2 pv True xs (l + 1) le re r"
  using assms unfolding part_inv_def by (auto simp: cmp_less less_Suc_eq)

lemma inv_equal_left:
  assumes "part_inv a1 a2 pv True xs l le re r" "l < le" "cmp (xs ! l) (xs ! le) = 0"
  shows "part_inv a1 a2 pv True (qexchange xs l (le - 1)) l (le - 1) re r"
proof -
  have b: "a1 \<le> l" "l \<le> le - 1" "le - 1 \<le> re" "re \<le> r" "r \<le> a2" "a2 < length xs" using assms(1,2) by (auto simp: part_inv_def)
  have eq: "key (xs ! i) = pv" if "le \<le> i" "i \<le> re" for i using assms(1) that by (simp add: part_inv_def)
  have "key (xs ! l) = pv" using assms(3) eq [of le] assms(1) by (simp add: cmp_eq part_inv_def)
  moreover have "le \<le> i" if "le - 1 \<le> i" "i \<noteq> le - 1" for i using that by linarith
  ultimately have "key (qexchange xs l (le - 1) ! i) = pv" if "le - 1 \<le> i" "i \<le> re" for i
    using that b eq by (auto simp: exchange_nth)
  moreover have "qexchange xs l (le - 1) ! i = xs ! i" if "i < l \<or> r < i" "i \<le> a2" for i
    using that b by (subst exchange_nth) auto
  ultimately show ?thesis using assms(1) b by (simp add: part_inv_def)
qed

lemma inv_phase:
  assumes "part_inv a1 a2 pv True xs l le re r" "l < le \<longrightarrow> 0 < cmp (xs ! l) (xs ! le)"
  shows "part_inv a1 a2 pv False xs l le re r"
  using assms unfolding part_inv_def cmp_greater by auto

lemma inv_swap:
  assumes "part_inv a1 a2 pv False xs l le re r" "re < r" "cmp (xs ! r) (xs ! re) < 0" "l < le"
  shows "part_inv a1 a2 pv True (qexchange xs l r) (l + 1) le re (r - 1)"
  using assms unfolding part_inv_def cmp_less by (auto simp: exchange_nth)

lemma inv_shift_right:
  assumes "part_inv a1 a2 pv False xs l le re r" "re < r" "cmp (xs ! r) (xs ! re) < 0" "\<not> l < le"
  shows "part_inv a1 a2 pv False (q3exchange xs l (re + 1) r) (le + 1) (le + 1) (re + 1) r"
  using assms unfolding part_inv_def cmp_less by (auto simp: q3exchange_nth)

lemma inv_equal_right:
  assumes "part_inv a1 a2 pv False xs l le re r" "re < r" "cmp (xs ! r) (xs ! re) = 0"
  shows "part_inv a1 a2 pv False (qexchange xs r (re + 1)) l le (re + 1) r"
  using assms unfolding part_inv_def cmp_eq by (auto simp: exchange_nth)

lemma inv_larger:
  assumes "part_inv a1 a2 pv False xs l le re r" "re < r" "0 < cmp (xs ! r) (xs ! re)"
  shows "part_inv a1 a2 pv False xs l le re (r - 1)"
proof -
  have "r < i \<or> i = r" if "r - 1 < i" for i using that by linarith
  then show ?thesis using assms unfolding part_inv_def cmp_greater by auto
qed

lemma inv_shift_left:
  assumes "part_inv a1 a2 pv False xs l le re r" "\<not> re < r" "l < le"
  shows "part_inv a1 a2 pv True (q3exchange xs r (le - 1) l) l (le - 1) (re - 1) (re - 1)"
proof -
  let ?zs = "q3exchange xs r (le - 1) l"
  have b: "a1 \<le> l" "l \<le> le - 1" "le - 1 < re" "re = r" "r \<le> a2" "a2 < length xs" using assms by (auto simp: part_inv_def)
  have eq: "key (xs ! i) = pv" if "le \<le> i" "i \<le> r" for i using assms(1) b(4) that by (simp add: part_inv_def)
  have nth: "?zs ! i = (if i = le - 1 then xs ! r else if i = l then xs ! (le - 1) else if i = r then xs ! l else xs ! i)" if "i \<le> a2" for i
    using b that by (intro q3exchange_nth) auto
  have "key (?zs ! i) = pv" if "le - 1 \<le> i" "i \<le> re - 1" for i
  proof (cases "i = le - 1")
    case True
    then show ?thesis using nth [of i] eq [of r] b that by simp
  next
    case False
    then have "le \<le> i" "i \<noteq> l" "i \<noteq> r" using that b by linarith+
    then show ?thesis using nth [of i] eq [of i] b that False by simp
  qed
  moreover have "key (?zs ! i) < pv" if "a1 \<le> i" "i < l" for i
    using nth [of i] assms(1) b that by (simp add: part_inv_def)
  moreover have "pv < key (?zs ! i)" if "re - 1 < i" "i \<le> a2" for i
  proof -
    have "i \<noteq> le - 1" "i \<noteq> l" "i = r \<or> r < i" using that b by linarith+
    then show ?thesis using nth [OF that(2)] assms(1,3) that(2) by (auto simp: part_inv_def)
  qed
  moreover have "le - 1 \<le> re - 1" "re - 1 \<le> a2" using b by linarith+
  ultimately show ?thesis using b by (simp add: part_inv_def)
qed

lemma partition_correct:
  "partition_loop c ph xs l le re r = (ys, le', re') \<Longrightarrow> c = cmp \<Longrightarrow> part_inv a1 a2 pv ph xs l le re r \<Longrightarrow>
   part_inv a1 a2 pv False ys le' le' re' re' \<and> permutes_in a1 a2 xs ys"
proof (induction c ph xs l le re r rule: partition_loop.induct)
  case (1 c xs l le re r)
  note c = \<open>c = cmp\<close> and inv = \<open>part_inv a1 a2 pv True xs l le re r\<close>
  have b: "a1 \<le> l" "l \<le> le" "le \<le> re" "re \<le> r" "r \<le> a2" "a2 < length xs" using inv by (auto simp: part_inv_def)
  note un = "1.prems"(1) [unfolded c partition_loop.simps(1) [of cmp xs l le re r]]
  consider "l < le" "cmp (xs ! l) (xs ! le) < 0" | "l < le" "cmp (xs ! l) (xs ! le) = 0" | "l < le \<longrightarrow> 0 < cmp (xs ! l) (xs ! le)" by linarith
  then show ?case
  proof cases
    case 1
    then show ?thesis using "1.IH"(1) [OF _ _ _ c inv_smaller [OF inv 1]] un c 1 by simp
  next
    case 2
    have "permutes_in a1 a2 xs (qexchange xs l (le - 1))" using b 2(1) by (intro permutes_exchange) auto
    then show ?thesis using "1.IH"(2) [OF _ _ _ c inv_equal_left [OF inv 2]] un c 2 permutes_in_trans by auto
  next
    case 3
    then show ?thesis using "1.IH"(3) [OF _ _ c inv_phase [OF inv 3]] un c 3 by (simp split: if_splits)
  qed
next
  case (2 c xs l le re r)
  note c = \<open>c = cmp\<close> and inv = \<open>part_inv a1 a2 pv False xs l le re r\<close>
  have b: "a1 \<le> l" "l \<le> le" "le \<le> re" "re \<le> r" "r \<le> a2" "a2 < length xs" using inv by (auto simp: part_inv_def)
  note un = "2.prems"(1) [unfolded c partition_loop.simps(2) [of cmp xs l le re r]]
  consider "re < r" "cmp (xs ! r) (xs ! re) < 0" "l < le" | "re < r" "cmp (xs ! r) (xs ! re) < 0" "\<not> l < le" |
    "re < r" "cmp (xs ! r) (xs ! re) = 0" | "re < r" "0 < cmp (xs ! r) (xs ! re)" | "\<not> re < r" "l < le" | "\<not> re < r" "\<not> l < le"
    by linarith
  then show ?case
  proof cases
    case 1
    have "permutes_in a1 a2 xs (qexchange xs l r)" using b 1 by (intro permutes_exchange) auto
    then show ?thesis using "2.IH"(1) [OF _ _ _ _ c inv_swap [OF inv 1]] un c 1 permutes_in_trans by auto
  next
    case 2
    have "permutes_in a1 a2 xs (q3exchange xs l (re + 1) r)" using b 2 by (intro permutes_q3exchange) auto
    then show ?thesis using "2.IH"(2) [OF _ _ _ _ c inv_shift_right [OF inv 2]] un c 2 permutes_in_trans by auto
  next
    case 3
    have "permutes_in a1 a2 xs (qexchange xs r (re + 1))" using b 3 by (intro permutes_exchange) auto
    then show ?thesis using "2.IH"(3) [OF _ _ _ _ c inv_equal_right [OF inv 3]] un c 3 permutes_in_trans by auto
  next
    case 4
    then show ?thesis using "2.IH"(4) [OF _ _ _ _ c inv_larger [OF inv 4]] un c by simp
  next
    case 5
    have "permutes_in a1 a2 xs (q3exchange xs r (le - 1) l)" using b 5 by (intro permutes_q3exchange) auto
    then show ?thesis using "2.IH"(5) [OF _ _ _ c inv_shift_left [OF inv 5]] un c 5 permutes_in_trans by auto
  next
    case 6
    then show ?thesis using un inv b permutes_in_refl by (auto simp: part_inv_def)
  qed
qed


text \<open>\<open>qsort1\<close> orders the part of the array it is given.\<close>

definition sorted_in :: "nat \<Rightarrow> nat \<Rightarrow> 'a list \<Rightarrow> bool" where
  "sorted_in a1 a2 xs \<longleftrightarrow> (\<forall>i j. a1 \<le> i \<and> i \<le> j \<and> j \<le> a2 \<longrightarrow> key (xs ! i) \<le> key (xs ! j))"

text \<open>A property of all elements of a part is kept by a permutation of that part.\<close>

lemma permutes_in_elems:
  assumes "permutes_in b1 b2 xs ys" "b2 < length xs" "\<And>i. b1 \<le> i \<Longrightarrow> i \<le> b2 \<Longrightarrow> P (xs ! i)" "b1 \<le> i" "i \<le> b2"
  shows "P (ys ! i)"
proof -
  have len: "length ys = length xs" using assms(1) by (metis permutes_in_def size_mset)
  have outer: "take b1 ys = take b1 xs" "drop (Suc b2) ys = drop (Suc b2) xs"
    using assms(1) len by (auto simp: permutes_in_def list_eq_iff_nth_eq)
  have parts: "zs = take b1 zs @ take (Suc b2 - b1) (drop b1 zs) @ drop (Suc b2) zs" for zs :: "'a list"
  proof -
    have "drop (Suc b2) zs = drop (Suc b2 - b1) (drop b1 zs)" using assms(4,5) by simp
    then show ?thesis by (metis append_take_drop_id)
  qed
  have "mset xs = mset (take b1 xs) + mset (take (Suc b2 - b1) (drop b1 xs)) + mset (drop (Suc b2) xs)"
    "mset ys = mset (take b1 ys) + mset (take (Suc b2 - b1) (drop b1 ys)) + mset (drop (Suc b2) ys)"
    by (metis parts mset_append add.assoc)+
  then have "mset (take (Suc b2 - b1) (drop b1 ys)) = mset (take (Suc b2 - b1) (drop b1 xs))"
    using assms(1) outer by (simp add: permutes_in_def)
  then have "set (take (Suc b2 - b1) (drop b1 ys)) = set (take (Suc b2 - b1) (drop b1 xs))" by (metis set_mset_mset)
  moreover have "ys ! i \<in> set (take (Suc b2 - b1) (drop b1 ys))"
    using assms(2,4,5) len nth_mem [of "i - b1" "take (Suc b2 - b1) (drop b1 ys)"] by simp
  ultimately obtain j where "j < Suc b2 - b1" "ys ! i = xs ! (b1 + j)"
    using assms(2) by (auto simp: in_set_conv_nth)
  then show ?thesis using assms(3) [of "b1 + j"] by simp
qed

lemma permutes_in_mono: "permutes_in b1 b2 xs ys \<Longrightarrow> a1 \<le> b1 \<Longrightarrow> b2 \<le> a2 \<Longrightarrow> permutes_in a1 a2 xs ys"
  by (simp add: permutes_in_def)

lemma qsort1_correct:
  "c = cmp \<Longrightarrow> a2 < length xs \<Longrightarrow> sorted_in a1 a2 (qsort1 c xs a1 a2) \<and> permutes_in a1 a2 xs (qsort1 c xs a1 a2)"
proof (induction c xs a1 a2 rule: qsort1.induct)
  case (1 c xs a1 a2)
  note c = \<open>c = cmp\<close>
  show ?case
  proof (cases "a2 \<le> a1")
    case True
    then have "qsort1 c xs a1 a2 = xs" by (subst qsort1.simps) simp
    moreover have "i = j" if "a1 \<le> i" "i \<le> j" "j \<le> a2" for i j using that True by linarith
    ultimately show ?thesis using permutes_in_refl by (auto simp: sorted_in_def)
  next
    case False
    define mid where "mid = a1 + (a2 - a1 + 1) div 2"
    obtain ys le re where p: "partition_loop cmp True xs a1 mid mid a2 = (ys, le, re)" by (metis prod_cases3)
    have "part_inv a1 a2 (key (xs ! mid)) True xs a1 mid mid a2" using False "1.prems"(2) by (auto simp: part_inv_def mid_def)
    note pc = partition_correct [OF p refl this]
    have b: "a1 \<le> le" "le \<le> re" "re \<le> a2" using pc by (auto simp: part_inv_def)
    define zs where "zs = qsort1 cmp ys a1 (le - 1)"
    define ws where "ws = qsort1 cmp zs (re + 1) a2"
    have q: "qsort1 c xs a1 a2 = ws" using False p [unfolded mid_def] c by (subst qsort1.simps) (simp add: zs_def ws_def Let_def)
    have len: "length ys = length xs" using pc by (metis permutes_in_def size_mset)
    have z: "sorted_in a1 (le - 1) zs" "permutes_in a1 (le - 1) ys zs"
      using "1.IH"(1) [OF False mid_def refl, OF p [folded c, symmetric] refl c] "1.prems"(2) b len c by (auto simp: zs_def)
    have lz: "length zs = length xs" using z(2) len by (metis permutes_in_def size_mset)
    have w: "sorted_in (re + 1) a2 ws" "permutes_in (re + 1) a2 zs ws"
      using "1.IH"(2) [OF False mid_def refl, OF p [folded c, symmetric] refl c] "1.prems"(2) lz c by (auto simp: ws_def zs_def)
    let ?pv = "key (xs ! mid)"
    have ys: "key (ys ! i) < ?pv" if "a1 \<le> i" "i < le" for i using pc that by (simp add: part_inv_def)
    have ye: "key (ys ! i) = ?pv" if "le \<le> i" "i \<le> re" for i using pc that by (simp add: part_inv_def)
    have yl: "?pv < key (ys ! i)" if "re < i" "i \<le> a2" for i using pc that by (simp add: part_inv_def)
    have zk: "zs ! i = ys ! i" if "le \<le> i" for i
    proof (cases "le = 0")
      case True
      then show ?thesis by (simp add: zs_def qsort1.simps)
    next
      case False
      then show ?thesis using z(2) that by (simp add: permutes_in_def)
    qed
    have zl: "key (zs ! i) < ?pv" if "a1 \<le> i" "i < le" for i
      by (rule permutes_in_elems [OF z(2), of "\<lambda>x. key x < ?pv"]) (use that ys b len "1.prems"(2) in auto)
    have wk: "ws ! i = zs ! i" if "i \<le> re" for i using w(2) that by (simp add: permutes_in_def)
    have wl: "?pv < key (ws ! i)" if "re < i" "i \<le> a2" for i
      by (rule permutes_in_elems [OF w(2), of "\<lambda>x. ?pv < key x"]) (use that yl zk b lz "1.prems"(2) in auto)
    have low: "key (ws ! i) \<le> ?pv" if "a1 \<le> i" "i \<le> re" for i
      using that wk zl [of i] zk [of i] ye [of i] by (cases "i < le") auto
    have high: "?pv \<le> key (ws ! j)" if "le \<le> j" "j \<le> a2" for j
      using that wk zk [of j] ye [of j] wl [of j] by (cases "j \<le> re") auto
    have "key (ws ! i) \<le> key (ws ! j)" if ij: "a1 \<le> i" "i \<le> j" "j \<le> a2" for i j
    proof -
      consider "j < le" | "re < i" | "i \<le> re" "le \<le> j" by linarith
      then show ?thesis
      proof cases
        case 1
        then show ?thesis using z(1) ij b wk [of i] wk [of j] by (simp add: sorted_in_def)
      next
        case 2
        then show ?thesis using w(1) ij by (simp add: sorted_in_def)
      next
        case 3
        then show ?thesis using low [of i] high [of j] ij by simp
      qed
    qed
    moreover have "permutes_in a1 a2 xs ws"
    proof -
      have "permutes_in a1 a2 ys zs" by (rule permutes_in_mono [OF z(2)]) (use b in linarith)+
      moreover have "permutes_in a1 a2 zs ws" by (rule permutes_in_mono [OF w(2)]) (use b in linarith)+
      ultimately show ?thesis using pc permutes_in_trans by blast
    qed
    ultimately show ?thesis by (simp add: q sorted_in_def)
  qed
qed

lemma qsort_sorts: "sorted (map key (qsort cmp xs)) \<and> mset (qsort cmp xs) = mset xs"
proof (cases "xs = []")
  case False
  have q: "sorted_in 0 (length xs - 1) (qsort cmp xs)" "mset (qsort cmp xs) = mset xs"
    using qsort1_correct [of cmp "length xs - 1" xs 0] False by (auto simp: qsort_def permutes_in_def)
  have "length (qsort cmp xs) = length xs" using q(2) by (metis size_mset)
  then show ?thesis using q by (auto simp: sorted_iff_nth_mono sorted_in_def)
qed (simp add: qsort_def)

end


text \<open>The locale of a search: the sign of the comparison places a key among the elements.\<close>

locale searches =
  fixes cmp :: "'q \<Rightarrow> 'a \<Rightarrow> int" and val :: "'q \<Rightarrow> 'k::linorder" and key :: "'a \<Rightarrow> 'k"
  assumes cmp_less: "cmp q a < 0 \<longleftrightarrow> val q < key a"
    and cmp_greater: "0 < cmp q a \<longleftrightarrow> key a < val q"
begin

lemma bsearch_loop:
  assumes "sorted (map key xs)" "base + n \<le> length xs"
  shows "case bsearch cmp q xs base n of
      Some i \<Rightarrow> base \<le> i \<and> i < base + n \<and> key (xs ! i) = val q
    | None \<Rightarrow> \<forall>i. base \<le> i \<and> i < base + n \<longrightarrow> key (xs ! i) \<noteq> val q"
  using assms(2)
proof (induction n arbitrary: base rule: less_induct)
  case (less n)
  show ?case
  proof (cases "n = 0")
    case False
    define mid where "mid = base + n div 2"
    have m: "mid < length xs" "base \<le> mid" "mid < base + n" using less.prems False by (auto simp: mid_def)
    have mono: "key (xs ! i) \<le> key (xs ! j)" if "i \<le> j" "j < length xs" for i j
      using assms(1) that by (simp add: sorted_iff_nth_mono)
    consider "cmp q (xs ! mid) = 0" | "0 < cmp q (xs ! mid)" | "cmp q (xs ! mid) < 0" by linarith
    then show ?thesis
    proof cases
      case 1
      then have "key (xs ! mid) = val q" using cmp_less [of q "xs ! mid"] cmp_greater [of q "xs ! mid"] by force
      then show ?thesis using 1 False m by (subst bsearch.simps) (simp add: Let_def mid_def)
    next
      case 2
      then have lt: "key (xs ! i) \<noteq> val q" if "base \<le> i" "i \<le> mid" for i using mono [of i mid] that m cmp_greater by force
      have e: "bsearch cmp q xs base n = bsearch cmp q xs (mid + 1) ((n - 1) div 2)"
        using 2 False by (subst bsearch.simps) (simp add: Let_def mid_def)
      have r: "mid + 1 + (n - 1) div 2 = base + n" using False by (simp add: mid_def)
      have "(n - 1) div 2 < n" "mid + 1 + (n - 1) div 2 \<le> length xs" using False r less.prems by linarith+
      note ih = less.IH [OF this, unfolded r]
      show ?thesis
      proof (cases "bsearch cmp q xs (mid + 1) ((n - 1) div 2)")
        case None
        then have "key (xs ! i) \<noteq> val q" if "base \<le> i" "i < base + n" for i using that ih lt [of i] by (cases "i \<le> mid") auto
        then show ?thesis using None e by simp
      next
        case (Some i)
        then show ?thesis using ih e m by simp
      qed
    next
      case 3
      then have gt: "key (xs ! i) \<noteq> val q" if "mid \<le> i" "i < base + n" for i using mono [of mid i] that less.prems cmp_less by force
      have e: "bsearch cmp q xs base n = bsearch cmp q xs base (n div 2)"
        using 3 False by (subst bsearch.simps) (simp add: Let_def mid_def)
      have "n div 2 < n" "base + n div 2 \<le> length xs" using False less.prems by auto
      note ih = less.IH [OF this, folded mid_def]
      show ?thesis
      proof (cases "bsearch cmp q xs base (n div 2)")
        case None
        then have "key (xs ! i) \<noteq> val q" if "base \<le> i" "i < base + n" for i using that ih gt [of i] by (cases "i < mid") auto
        then show ?thesis using None e by simp
      next
        case (Some i)
        then show ?thesis using ih e m by simp
      qed
    qed
  qed (subst bsearch.simps, auto)
qed

end


section \<open>Properties\<close>

text \<open>C24: \<open>qsort\<close> sorts. For every comparison function whose sign orders the elements by a key, the result is in
  ascending order of the keys and has the same elements as the array; the sorting ends for every array.\<close>

theorem qsort_correct:
  assumes "\<forall>a b. (cmp a b < 0 \<longleftrightarrow> key a < key b) \<and> (0 < cmp a b \<longleftrightarrow> key b < (key a :: 'k :: linorder))"
  shows "sorted (map key (qsort cmp xs)) \<and> mset (qsort cmp xs) = mset xs"
proof -
  from assms have "compares cmp key" by unfold_locales auto
  then show ?thesis by (rule compares.qsort_sorts)
qed

definition int_cmp :: "int \<Rightarrow> int \<Rightarrow> int" where
  "int_cmp a b = a - b"

theorem qsort_correct_witness: "sorted (qsort int_cmp [3, 1, 2, 1]) \<and> mset (qsort int_cmp [3, 1, 2, 1]) = {#1, 1, 2, 3#}"
  using qsort_correct [of int_cmp "\<lambda>a. a" "[3, 1, 2, 1]"] by (simp add: int_cmp_def)

text \<open>\<open>bsearch\<close> on an array that is sorted by the same key finds an element that compares equal, and returns \<open>NULL\<close> exactly when there
  is none.\<close>

theorem bsearch_correct:
  assumes "\<forall>q a. (cmp q a < 0 \<longleftrightarrow> val q < key a) \<and> (0 < cmp q a \<longleftrightarrow> key a < (val q :: 'k :: linorder))" "sorted (map key xs)"
  shows "case bsearch cmp q xs 0 (length xs) of
      Some i \<Rightarrow> i < length xs \<and> key (xs ! i) = val q
    | None \<Rightarrow> val q \<notin> key ` set xs"
proof -
  from assms(1) have "searches cmp val key" by unfold_locales auto
  from searches.bsearch_loop [OF this assms(2), of 0 "length xs" q] show ?thesis
    by (auto simp: in_set_conv_nth split: option.splits)
qed

theorem bsearch_correct_witness: "bsearch int_cmp 5 [1, 3, 5, 9] 0 4 = Some 2 \<and> bsearch int_cmp 4 [1, 3, 5, 9] 0 4 = None"
proof -
  have "bsearch int_cmp 5 [1, 3, 5, 9] 0 4 \<noteq> None" "bsearch int_cmp 4 [1, 3, 5, 9] 0 4 = None"
    using bsearch_correct [of int_cmp "\<lambda>a. a" "\<lambda>a. a" "[1, 3, 5, 9]" 5] bsearch_correct [of int_cmp "\<lambda>a. a" "\<lambda>a. a" "[1, 3, 5, 9]" 4]
    by (auto simp: int_cmp_def nth_Cons' less_Suc_eq numeral_eq_Suc split: option.splits)
  then show ?thesis by (simp add: bsearch.simps int_cmp_def)
qed

end
