(* ===== verification/IoMalloc.thy ===== *)
theory IoMalloc
  imports Sorting "HOL-Library.Product_Lexorder"
begin

text \<open>
  The allocator of I/O memory, \<^verbatim>\<open>src/kernel/libs/iomemory/iomalloc.c\<close>: a table of blocks, sorted by address, outside the memory it
  manages. \<open>None\<close> is an access outside the table. A call returns the value it stores in \<open>errno\<close>, if any. The contents of the memory
  are not touched by the allocator and are not modelled.
\<close>

unbundle bit_operations_syntax

section \<open>Data\<close>

definition MAX_IO_ALLOCS :: nat where "MAX_IO_ALLOCS = 128"

record mempart =
  pointer :: u32
  psize :: u32

record iomem =
  io_storage :: "mempart list"
  stored :: nat
  start_of_memory :: u32
  end_of_memory :: u32
  iofreebytes :: u32
  ioallocbytes :: u32

definition no_part :: mempart where "no_part = \<lparr>pointer = 0, psize = 0\<rparr>"

definition ALN :: "u32 \<Rightarrow> u32 \<Rightarrow> u32" where
  "ALN x y = (x + y - 1) AND NOT (y - 1)"

section \<open>Operations\<close>

definition compare :: "mempart \<Rightarrow> mempart \<Rightarrow> int" where
  "compare aa bb = (if pointer aa > pointer bb then 1 else if pointer aa < pointer bb then - 1 else 0)"

definition iomalloc_init :: "iomem \<Rightarrow> u32 \<Rightarrow> u32 \<Rightarrow> status \<times> iomem" where
  "iomalloc_init s start end' =
     (if start > end' then (EINVAL, s)
      else if start AND 3 \<noteq> 0 then (EINVAL, s)
      else if end' AND 3 \<noteq> 0 then (EINVAL, s)
      else (EOK, s\<lparr>start_of_memory := start, end_of_memory := end', ioallocbytes := 0, iofreebytes := end' - start,
                    io_storage := replicate MAX_IO_ALLOCS no_part\<rparr>))"

text \<open>\<open>location\<close> is an index of the table.\<close>

definition simple_alloc :: "iomem \<Rightarrow> nat \<Rightarrow> u32 \<Rightarrow> u32 \<Rightarrow> u32 \<Rightarrow> (u32 \<times> iomem) option" where
  "simple_alloc s location cursor aln newsize =
     (if location < length (io_storage s)
      then (let temp = MULT cursor aln in
            if temp + newsize > end_of_memory s
            then Some (0, s\<lparr>io_storage := (io_storage s)[location := no_part]\<rparr>)
            else Some (temp, s\<lparr>io_storage := (io_storage s)[location := \<lparr>pointer = temp, psize = newsize\<rparr>],
                   ioallocbytes := ioallocbytes s + newsize, iofreebytes := iofreebytes s - newsize, stored := stored s + 1\<rparr>))
      else None)"

text \<open>The loop \<open>while (dst != this) *dst-- = *src--\<close>.\<close>

fun move_down :: "mempart list \<Rightarrow> nat \<Rightarrow> nat \<Rightarrow> mempart list" where
  "move_down st dst this = (if dst > this then move_down (st[dst := st ! (dst - 1)]) (dst - 1) this else st)"

declare move_down.simps [simp del]

text \<open>The loop over the table: where it stops, the table and the cursor then.\<close>

function hole_loop :: "mempart list \<Rightarrow> nat \<Rightarrow> nat \<Rightarrow> u32 \<Rightarrow> u32 \<Rightarrow> u32 \<Rightarrow> (nat \<times> mempart list \<times> u32) option" where
  "hole_loop st n this newsize aln cursor =
     (if this \<ge> length st then None
      else if pointer (st ! this) = 0 then Some (this, st, cursor)
      else if this + 1 \<ge> length st then None
      else if pointer (st ! this) + psize (st ! this) < pointer (st ! (this + 1))
      then (let cursor = MULT (pointer (st ! this) + psize (st ! this)) aln in
            if cursor + newsize < pointer (st ! (this + 1)) then Some (this, move_down st n this, cursor)
            else hole_loop st n (this + 1) newsize aln cursor)
      else hole_loop st n (this + 1) newsize aln cursor)"
  by pat_completeness auto

termination
  by (relation "measure (\<lambda>(st, n, this, _). length st - this)") auto

declare hole_loop.simps [simp del]

definition iomalloc_internal :: "iomem \<Rightarrow> u32 \<Rightarrow> u32 \<Rightarrow> (u32 \<times> iomem) option" where
  "iomalloc_internal s newsize aln =
     (if stored s = MAX_IO_ALLOCS then Some (0, s)
      else if stored s = 0 then simple_alloc s 0 (start_of_memory s) aln newsize
      else do { (this, st, cursor) \<leftarrow> hole_loop (io_storage s) (stored s) 0 newsize aln (pointer (io_storage s ! 0));
                let s1 = s\<lparr>io_storage := st\<rparr>;
                if pointer (st ! this) = 0
                then (if this = 0 then None
                      else simple_alloc s1 this (MULT (pointer (st ! (this - 1)) + psize (st ! (this - 1))) aln) aln newsize)
                else simple_alloc s1 this cursor aln newsize })"

definition iomalloc :: "iomem \<Rightarrow> u32 \<Rightarrow> u32 \<Rightarrow> (u32 \<times> status option \<times> iomem) option" where
  "iomalloc s sz aln =
     (if sz = 0 then Some (0, None, s)
      else
        (let aln = (if aln = 0 then 4 else aln); newsize = ALN sz 4 in
         do { (retval, s') \<leftarrow> iomalloc_internal s newsize aln;
              Some (retval, if retval = 0 then Some ENOMEM else None, s') }))"

text \<open>The loop that closes the gap.\<close>

fun move_up :: "mempart list \<Rightarrow> nat \<Rightarrow> nat \<Rightarrow> mempart list" where
  "move_up st i 0 = st"
| "move_up st i (Suc k) = move_up (st[i := st ! (i + 1)]) (i + 1) k"

definition iofree :: "iomem \<Rightarrow> u32 \<Rightarrow> iomem" where
  "iofree s ptr =
     (if ptr = 0 then s
      else (case bsearch compare \<lparr>pointer = ptr, psize = 0\<rparr> (io_storage s) 0 (stored s) of
          None \<Rightarrow> s
        | Some i \<Rightarrow>
           s\<lparr>iofreebytes := iofreebytes s + psize (io_storage s ! i), ioallocbytes := ioallocbytes s - psize (io_storage s ! i),
             io_storage := (move_up (io_storage s) i (stored s - 1 - i))[stored s - 1 := no_part], stored := stored s - 1\<rparr>))"

definition diegos_iomalloc_stats :: "iomem \<Rightarrow> u32 \<times> u32" where
  "diegos_iomalloc_stats s = (iofreebytes s, ioallocbytes s)"

section \<open>The order of blocks\<close>

interpretation by_pointer: compares compare pointer
  by unfold_locales (auto simp: compare_def)

interpretation by_address: searches compare pointer pointer
  by unfold_locales (auto simp: compare_def)

definition raw_io :: iomem where
  "raw_io = \<lparr>io_storage = replicate MAX_IO_ALLOCS no_part, stored = 0, start_of_memory = 0, end_of_memory = 0, iofreebytes = 0, ioallocbytes = 0\<rparr>"


section \<open>The table\<close>

definition base :: "mempart \<Rightarrow> nat" where "base b = unat (pointer b)"
definition past :: "mempart \<Rightarrow> nat" where "past b = base b + unat (psize b)"

definition table :: "mempart list \<Rightarrow> mempart list" where
  "table bs = bs @ replicate (MAX_IO_ALLOCS - length bs) no_part"

text \<open>The blocks in use are in ascending order, apart, and inside the memory.\<close>

definition io_ok :: "iomem \<Rightarrow> mempart list \<Rightarrow> bool" where
  "io_ok s bs \<longleftrightarrow> io_storage s = table bs \<and> stored s = length bs \<and> length bs \<le> MAX_IO_ALLOCS \<and> 0 < unat (start_of_memory s) \<and>
     sorted_wrt (\<lambda>a b. past a \<le> base b) bs \<and> (\<forall>b \<in> set bs. unat (start_of_memory s) \<le> base b \<and> 0 < unat (psize b) \<and> past b \<le> unat (end_of_memory s))"

lemma table_nth: "i < MAX_IO_ALLOCS \<Longrightarrow> length bs \<le> MAX_IO_ALLOCS \<Longrightarrow> table bs ! i = (if i < length bs then bs ! i else no_part)"
  by (simp add: table_def nth_append)

lemma table_length [simp]: "length bs \<le> MAX_IO_ALLOCS \<Longrightarrow> length (table bs) = MAX_IO_ALLOCS"
  by (simp add: table_def)

lemma move_down_nth:
  assumes "this \<le> dst" "dst < length st" "j < length st"
  shows "move_down st dst this ! j = (if this < j \<and> j \<le> dst then st ! (j - 1) else st ! j)" "length (move_down st dst this) = length st"
  using assms
proof (induction st dst this rule: move_down.induct)
  case (1 st dst this)
  { case 1 then show ?case using "1.IH"(1) by (subst move_down.simps) (auto simp: nth_list_update) }
  { case 2 then show ?case using "1.IH"(2) by (subst move_down.simps) auto }
qed

lemma carve_table:
  assumes "k < length bs" "length bs < MAX_IO_ALLOCS"
  shows "(move_down (table bs) (length bs) k)[k := b] = table (take k bs @ b # drop k bs)"
proof (rule nth_equalityI)
  show l: "length ((move_down (table bs) (length bs) k)[k := b]) = length (table (take k bs @ b # drop k bs))"
    using assms move_down_nth(2) [of k "length bs" "table bs" 0] by simp
  fix j assume "j < length ((move_down (table bs) (length bs) k)[k := b])"
  then have j: "j < MAX_IO_ALLOCS" using assms move_down_nth(2) [of k "length bs" "table bs" 0] by simp
  have r: "table (take k bs @ b # drop k bs) ! j = (if j < k then bs ! j else if j = k then b else if j \<le> length bs then bs ! (j - 1) else no_part)"
    using j assms by (subst table_nth) (auto simp: nth_append nth_Cons')
  have "move_down (table bs) (length bs) k ! j = (if k < j \<and> j \<le> length bs then table bs ! (j - 1) else table bs ! j)"
    using assms j by (intro move_down_nth) auto
  then show "(move_down (table bs) (length bs) k)[k := b] ! j = table (take k bs @ b # drop k bs) ! j"
    unfolding r using assms j move_down_nth(2) [of k "length bs" "table bs" 0] by (auto simp: nth_list_update table_nth)
qed

lemma append_table: "length bs < MAX_IO_ALLOCS \<Longrightarrow> (table bs)[length bs := b] = table (bs @ [b])"
proof -
  assume a: "length bs < MAX_IO_ALLOCS"
  then have "replicate (MAX_IO_ALLOCS - length bs) no_part = no_part # replicate (MAX_IO_ALLOCS - Suc (length bs)) no_part"
    by (simp add: Suc_diff_Suc flip: replicate_Suc)
  then show ?thesis by (simp add: table_def list_update_append)
qed

lemma move_up_nth:
  assumes "i + k < length st" "j < length st"
  shows "move_up st i k ! j = (if i \<le> j \<and> j < i + k then st ! (j + 1) else st ! j)" "length (move_up st i k) = length st"
  using assms
proof (induction k arbitrary: st i)
  case (Suc k)
  { case 1 then show ?case using Suc.IH(1) [of "i + 1" "st[i := st ! (i + 1)]"] by (auto simp: nth_list_update) }
  { case 2 then show ?case using Suc.IH(2) [of "i + 1" "st[i := st ! (i + 1)]"] by auto }
qed auto

lemma remove_table:
  assumes "k < length bs" "length bs \<le> MAX_IO_ALLOCS"
  shows "(move_up (table bs) k (length bs - 1 - k))[length bs - 1 := no_part] = table (take k bs @ drop (k + 1) bs)"
proof (rule nth_equalityI)
  have b: "k + (length bs - 1 - k) < length (table bs)" using assms by simp
  show l: "length ((move_up (table bs) k (length bs - 1 - k))[length bs - 1 := no_part]) = length (table (take k bs @ drop (k + 1) bs))"
    using assms move_up_nth(2) [OF b, of 0] by simp
  fix j assume "j < length ((move_up (table bs) k (length bs - 1 - k))[length bs - 1 := no_part])"
  then have j: "j < MAX_IO_ALLOCS" using assms move_up_nth(2) [OF b, of 0] by simp
  have r: "table (take k bs @ drop (k + 1) bs) ! j = (if j < k then bs ! j else if j + 1 < length bs then bs ! (j + 1) else no_part)"
    using j assms by (subst table_nth) (auto simp: nth_append)
  have "move_up (table bs) k (length bs - 1 - k) ! j = (if k \<le> j \<and> j < k + (length bs - 1 - k) then table bs ! (j + 1) else table bs ! j)"
    using assms j by (intro move_up_nth) auto
  then show "(move_up (table bs) k (length bs - 1 - k))[length bs - 1 := no_part] ! j = table (take k bs @ drop (k + 1) bs) ! j"
    unfolding r using assms j move_up_nth(2) [OF b, of 0] by (auto simp: nth_list_update table_nth)
qed


section \<open>Sizes and alignment\<close>

lemma ALN_4:
  assumes "unat x + 3 < 2 ^ 32"
  shows "unat x \<le> unat (ALN x 4)" "unat (ALN x 4) < unat x + 4" "4 dvd unat (ALN x 4)"
proof -
  have m: "(3 :: u32) = mask 2" by (simp add: mask_eq_exp_minus_1)
  have p: "(x + 3) AND NOT 3 = push_bit 2 (drop_bit 2 (x + 3))"
    unfolding m by (rule bit_word_eqI) (auto simp: bit_simps not_less dest!: le_Suc_ex simp del: add_2_eq_Suc add_2_eq_Suc')
  have u: "unat (x + 3) = unat x + 3" using assms by (subst unat_add_small) simp_all
  have a: "ALN x 4 = push_bit 2 (drop_bit 2 (x + 3))" unfolding p [symmetric] by (simp add: ALN_def add.commute)
  have "drop_bit 2 (x + 3) = of_nat ((unat x + 3) div 4)"
  proof (rule word_unat_eq_iff [THEN iffD2])
    have "(unat x + 3) div 4 < 2 ^ LENGTH(32)" using assms by simp
    then show "unat (drop_bit 2 (x + 3)) = unat (of_nat ((unat x + 3) div 4) :: u32)"
      using u by (subst unat_of_nat_small) (simp_all add: drop_bit_eq_div unat_div)
  qed
  then have "ALN x 4 = of_nat ((unat x + 3) div 4 * 4)" unfolding a by (simp add: push_bit_eq_mult)
  then have "unat (ALN x 4) = (unat x + 3) div 4 * 4"
    by (rule unat_from_nat) (use assms in linarith)
  then show "unat x \<le> unat (ALN x 4)" "unat (ALN x 4) < unat x + 4" "4 dvd unat (ALN x 4)" by (linarith, linarith, simp)
qed

lemma MULT_fixed:
  assumes "y \<noteq> 0" "unat z + unat y \<le> 2 ^ 32" "unat y dvd unat z"
  shows "MULT z y = z"
proof -
  note m = MULT_ok [OF assms(1,2)]
  have "unat y dvd unat (MULT z y) - unat z" using m(3) assms(3) by (rule dvd_diff_nat)
  then have "unat (MULT z y) - unat z = 0" using m(1,2) by (metis add_diff_cancel_left' diff_less_mono dvd_imp_le not_le zero_less_iff_neq_zero le_add_diff_inverse)
  then show ?thesis using m(1) by (simp add: word_unat_eq_iff)
qed

section \<open>Finding a place\<close>

lemma hole_loop_table:
  assumes "length bs < MAX_IO_ALLOCS" "\<forall>b \<in> set bs. pointer b \<noteq> 0" "i \<le> length bs"
  shows "(\<exists>c'. hole_loop (table bs) (length bs) i newsize aln c = Some (length bs, table bs, c')) \<or>
    (\<exists>k. k + 1 < length bs \<and> hole_loop (table bs) (length bs) i newsize aln c =
        Some (k, move_down (table bs) (length bs) k, MULT (pointer (bs ! k) + psize (bs ! k)) aln) \<and>
      MULT (pointer (bs ! k) + psize (bs ! k)) aln + newsize < pointer (bs ! (k + 1)))"
  using assms(3)
proof (induction "length bs - i" arbitrary: i c rule: less_induct)
  case less
  show ?case
  proof (cases "i = length bs")
    case True
    then show ?thesis using assms(1) by (subst hole_loop.simps) (simp add: table_nth no_part_def)
  next
    case False
    then have i: "i < length bs" using less.prems by simp
    then have p: "pointer (bs ! i) \<noteq> 0" using assms(2) by simp
    have e: "hole_loop (table bs) (length bs) i newsize aln c =
      (if pointer (bs ! i) + psize (bs ! i) < pointer (table bs ! (i + 1))
       then (let cursor = MULT (pointer (bs ! i) + psize (bs ! i)) aln in
             if cursor + newsize < pointer (table bs ! (i + 1)) then Some (i, move_down (table bs) (length bs) i, cursor)
             else hole_loop (table bs) (length bs) (i + 1) newsize aln cursor)
       else hole_loop (table bs) (length bs) (i + 1) newsize aln c)"
      using i assms(1) p by (subst hole_loop.simps) (simp add: table_nth)
    show ?thesis
    proof (cases "i + 1 < length bs")
      case True
      then have "table bs ! (i + 1) = bs ! (i + 1)" using assms(1) by (simp add: table_nth)
      then show ?thesis unfolding e Let_def using less.hyps [of "i + 1"] i True by auto
    next
      case False
      then have "pointer (table bs ! (i + 1)) = 0" using assms(1) i by (simp add: table_nth no_part_def)
      then show ?thesis unfolding e Let_def using less.hyps [of "i + 1"] i by auto
    qed
  qed
qed


section \<open>Allocating\<close>

text \<open>The requests whose arithmetic stays inside 32 bits.\<close>

definition io_fits :: "iomem \<Rightarrow> u32 \<Rightarrow> u32 \<Rightarrow> bool" where
  "io_fits s newsize aln \<longleftrightarrow> newsize \<noteq> 0 \<and> aln \<noteq> 0 \<and> unat (end_of_memory s) + 2 * unat aln + unat newsize < 2 ^ 32 \<and>
     unat (start_of_memory s) \<le> unat (end_of_memory s)"

text \<open>The result of placing a block at the cursor rounded up: at index \<open>k\<close>, or no memory.\<close>

definition io_result :: "iomem \<Rightarrow> mempart list \<Rightarrow> u32 \<Rightarrow> u32 \<Rightarrow> (u32 \<times> iomem) option \<Rightarrow> bool" where
  "io_result s bs newsize aln r \<longleftrightarrow>
     (\<exists>s'. r = Some (0, s') \<and> s' = s \<and> io_ok s bs) \<or>
     (\<exists>p s' k. r = Some (p, s') \<and> p \<noteq> 0 \<and> k \<le> length bs \<and> io_storage s' = table (take k bs @ \<lparr>pointer = p, psize = newsize\<rparr> # drop k bs) \<and>
        stored s' = Suc (length bs) \<and> start_of_memory s' = start_of_memory s \<and> end_of_memory s' = end_of_memory s \<and>
        unat aln dvd unat p \<and> unat (start_of_memory s) \<le> unat p \<and> unat p + unat newsize \<le> unat (end_of_memory s) \<and>
        (\<forall>b \<in> set bs. unat p + unat newsize \<le> base b \<or> past b \<le> unat p) \<and>
        (k = length bs \<longrightarrow> io_ok s' (bs @ [\<lparr>pointer = p, psize = newsize\<rparr>])))"

lemma simple_alloc_at:
  assumes "MULT cursor aln = p" "unat p + unat newsize < 2 ^ 32" "location < length (io_storage s)"
  shows "simple_alloc s location cursor aln newsize =
    (if unat p + unat newsize > unat (end_of_memory s) then Some (0, s\<lparr>io_storage := (io_storage s)[location := no_part]\<rparr>)
     else Some (p, s\<lparr>io_storage := (io_storage s)[location := \<lparr>pointer = p, psize = newsize\<rparr>],
                   ioallocbytes := ioallocbytes s + newsize, iofreebytes := iofreebytes s - newsize, stored := stored s + 1\<rparr>))"
proof -
  have "unat (p + newsize) = unat p + unat newsize" using assms(2) by (intro unat_add_small) simp
  then show ?thesis using assms(1,3) by (simp add: simple_alloc_def Let_def word_less_nat_alt)
qed

lemma MULT_end:
  assumes "io_fits s newsize aln" "unat c \<le> unat (end_of_memory s)" "p = MULT c aln"
  shows "unat c \<le> unat p" "unat p < unat c + unat aln" "unat aln dvd unat p" "unat p + unat newsize < 2 ^ 32" "MULT p aln = p"
proof -
  have a: "aln \<noteq> 0" "unat c + unat aln \<le> 2 ^ 32" using assms(1,2) by (auto simp: io_fits_def)
  show m: "unat c \<le> unat p" "unat p < unat c + unat aln" "unat aln dvd unat p" using MULT_ok [OF a] assms(3) by auto
  show "unat p + unat newsize < 2 ^ 32" using m(2) assms(1,2) by (auto simp: io_fits_def)
  have "unat p + unat aln \<le> 2 ^ 32" using m(2) assms(1,2) by (auto simp: io_fits_def)
  then show "MULT p aln = p" using MULT_fixed a(1) m(3) by blast
qed

text \<open>Appending behind the last block.\<close>

lemma append_ok:
  assumes "io_ok s bs" "io_fits s newsize aln" "length bs < MAX_IO_ALLOCS" "MULT cursor aln = p" "unat p + unat newsize < 2 ^ 32"
    and "unat aln dvd unat p" "unat (start_of_memory s) \<le> unat p" "\<forall>b \<in> set bs. past b \<le> unat p"
  shows "io_result s bs newsize aln (simple_alloc s (length bs) cursor aln newsize)"
proof -
  have st: "io_storage s = table bs" "stored s = length bs" "0 < unat (start_of_memory s)" using assms(1) by (auto simp: io_ok_def)
  have "length bs < length (io_storage s)" using st assms(3) by simp
  note sa = simple_alloc_at [OF assms(4,5) this]
  show ?thesis
  proof (cases "unat p + unat newsize > unat (end_of_memory s)")
    case True
    have "(table bs)[length bs := no_part] = table bs"
      using table_nth [of "length bs" bs] assms(3) by (metis less_imp_le less_irrefl list_update_id)
    then show ?thesis using sa True st assms(1) by (simp add: io_result_def)
  next
    case False
    let ?b = "\<lparr>pointer = p, psize = newsize\<rparr>"
    have "p \<noteq> 0" using assms(7) st(3) by auto
    moreover have "sorted_wrt (\<lambda>a b. past a \<le> base b) (bs @ [?b])"
      using assms(1,8) by (simp add: io_ok_def sorted_wrt_append base_def)
    moreover have "0 < unat newsize" using assms(2) by (simp add: io_fits_def unat_gt_0)
    ultimately show ?thesis using sa False st assms append_table [OF assms(3)]
      unfolding io_result_def by (intro disjI2 exI [of _ p] exI [of _ "length bs"]) (auto simp: io_ok_def base_def past_def)
  qed
qed


lemma io_ok_nth:
  assumes "io_ok s bs" "i < length bs"
  shows "pointer (bs ! i) \<noteq> 0" "unat (start_of_memory s) \<le> base (bs ! i)" "past (bs ! i) \<le> unat (end_of_memory s)"
    "unat (pointer (bs ! i) + psize (bs ! i)) = past (bs ! i)" "base (bs ! i) < past (bs ! i)"
    "j < i \<Longrightarrow> past (bs ! j) \<le> base (bs ! i)"
proof -
  have m: "bs ! i \<in> set bs" using assms(2) by simp
  show b: "unat (start_of_memory s) \<le> base (bs ! i)" "past (bs ! i) \<le> unat (end_of_memory s)" "base (bs ! i) < past (bs ! i)"
    using assms(1) m by (auto simp: io_ok_def past_def)
  show "pointer (bs ! i) \<noteq> 0" using b(1) assms(1) by (auto simp: io_ok_def base_def)
  show "unat (pointer (bs ! i) + psize (bs ! i)) = past (bs ! i)"
    using b(2) unat_bound [of "end_of_memory s"] unfolding past_def base_def by (intro unat_add_small) simp
  show "past (bs ! j) \<le> base (bs ! i)" if "j < i" using assms that sorted_wrt_nth_less by (fastforce simp: io_ok_def)
qed

lemma io_ok_tops: "io_ok s bs \<Longrightarrow> j \<le> i \<Longrightarrow> i < length bs \<Longrightarrow> past (bs ! j) \<le> past (bs ! i)"
  using io_ok_nth(5) [of s bs i] io_ok_nth(6) [of s bs i j] by (cases "j = i") auto

lemma carve_ok:
  assumes "io_ok s bs" "io_fits s newsize aln" "length bs < MAX_IO_ALLOCS" "k + 1 < length bs"
    and "p = MULT (pointer (bs ! k) + psize (bs ! k)) aln" "p + newsize < pointer (bs ! (k + 1))"
  shows "io_result s bs newsize aln (simple_alloc (s\<lparr>io_storage := move_down (table bs) (length bs) k\<rparr>) k p aln newsize)"
proof -
  let ?s = "s\<lparr>io_storage := move_down (table bs) (length bs) k\<rparr>" and ?b = "\<lparr>pointer = p, psize = newsize\<rparr>"
  have k: "k < length bs" using assms(4) by simp
  note n = io_ok_nth [OF assms(1)]
  have c: "unat (pointer (bs ! k) + psize (bs ! k)) \<le> unat (end_of_memory s)" using n(3,4) [OF k] by simp
  note m = MULT_end [OF assms(2) c assms(5)]
  have p: "past (bs ! k) \<le> unat p" "unat (start_of_memory s) \<le> unat p" using m(1) n(2,4,5) [OF k] by auto
  have "unat (p + newsize) = unat p + unat newsize" using m(4) by (intro unat_add_small) simp
  then have lt: "unat p + unat newsize < base (bs ! (k + 1))" using assms(6) by (simp add: word_less_nat_alt base_def)
  then have e: "unat p + unat newsize \<le> unat (end_of_memory s)" using n(3,5) [OF assms(4)] by linarith
  have len: "length (move_down (table bs) (length bs) k) = MAX_IO_ALLOCS" using assms(3) k move_down_nth(2) [of k "length bs" "table bs" 0] by simp
  define s2 where "s2 = ?s\<lparr>io_storage := (io_storage ?s)[k := ?b],
      ioallocbytes := ioallocbytes s + newsize, iofreebytes := iofreebytes s - newsize, stored := stored s + 1\<rparr>"
  have "simple_alloc ?s k p aln newsize = Some (p, s2)"
    using simple_alloc_at [OF m(5,4), of k ?s] e len k assms(3) by (simp add: s2_def)
  moreover have "unat p + unat newsize \<le> base b \<or> past b \<le> unat p" if b: "b \<in> set bs" for b
  proof -
    obtain i where i: "i < length bs" "b = bs ! i" using b by (auto simp: in_set_conv_nth)
    consider "i \<le> k" | "i = k + 1" | "k + 1 < i" by linarith
    then show ?thesis
    proof cases
      case 1
      then show ?thesis using io_ok_tops [OF assms(1) 1 k] p(1) i(2) by simp
    next
      case 2
      then show ?thesis using lt i(2) by simp
    next
      case 3
      then show ?thesis using n(6) [OF i(1) 3] n(5) [OF assms(4)] lt i(2) by simp
    qed
  qed
  moreover have "p \<noteq> 0" using p(2) assms(1) by (auto simp: io_ok_def)
  moreover have "(move_down (table bs) (length bs) k)[k := ?b] = table (take k bs @ ?b # drop k bs)" by (rule carve_table [OF k assms(3)])
  ultimately show ?thesis using m(3) p(2) e k assms(1) unfolding io_result_def
    by (intro disjI2 exI [of _ p] exI [of _ s2] exI [of _ k]) (auto simp: io_ok_def s2_def)
qed

lemma iomalloc_internal_ok:
  assumes "io_ok s bs" "io_fits s newsize aln"
  shows "io_result s bs newsize aln (iomalloc_internal s newsize aln)"
proof -
  have st: "io_storage s = table bs" "stored s = length bs" "length bs \<le> MAX_IO_ALLOCS" using assms(1) by (auto simp: io_ok_def)
  consider "length bs = MAX_IO_ALLOCS" | "bs = []" "length bs < MAX_IO_ALLOCS" | "bs \<noteq> []" "length bs < MAX_IO_ALLOCS" using st(3) by fastforce
  then show ?thesis
  proof cases
    case 1
    then show ?thesis using st assms(1) by (simp add: iomalloc_internal_def io_result_def)
  next
    case 2
    have "unat (start_of_memory s) \<le> unat (end_of_memory s)" using assms(2) by (simp add: io_fits_def)
    note m = MULT_end [OF assms(2) this refl]
    have "io_result s bs newsize aln (simple_alloc s (length bs) (start_of_memory s) aln newsize)"
      by (rule append_ok [OF assms 2(2) refl]) (use m 2(1) in auto)
    then show ?thesis using 2 st by (simp add: iomalloc_internal_def)
  next
    case 3
    let ?l = "bs ! (length bs - 1)"
    have l: "length bs - 1 < length bs" using 3(1) by simp
    note n = io_ok_nth [OF assms(1) l]
    have "unat (pointer ?l + psize ?l) \<le> unat (end_of_memory s)" using n(3,4) by simp
    note m = MULT_end [OF assms(2) this refl]
    have tops: "\<forall>b \<in> set bs. past b \<le> unat (MULT (pointer ?l + psize ?l) aln)"
    proof
      fix b assume "b \<in> set bs"
      then obtain i where i: "i < length bs" "b = bs ! i" by (auto simp: in_set_conv_nth)
      then show "past b \<le> unat (MULT (pointer ?l + psize ?l) aln)" using io_ok_tops [OF assms(1), of i "length bs - 1"] m(1) n(4) by fastforce
    qed
    have app: "io_result s bs newsize aln (simple_alloc s (length bs) (MULT (pointer ?l + psize ?l) aln) aln newsize)"
      by (rule append_ok [OF assms 3(2) m(5,4,3) _ tops]) (use n(2,4,5) m(1) in linarith)
    have nz: "\<forall>b \<in> set bs. pointer b \<noteq> 0" using io_ok_nth(1) [OF assms(1)] by (auto simp: in_set_conv_nth)
    have le0: "0 \<le> length bs" by simp
    have e: "iomalloc_internal s newsize aln = Option.bind (hole_loop (table bs) (length bs) 0 newsize aln (pointer (bs ! 0)))
      (\<lambda>(this, st, cursor). let s1 = s\<lparr>io_storage := st\<rparr> in
         if pointer (st ! this) = 0
         then (if this = 0 then None else simple_alloc s1 this (MULT (pointer (st ! (this - 1)) + psize (st ! (this - 1))) aln) aln newsize)
         else simple_alloc s1 this cursor aln newsize)"
      using st 3 by (simp add: iomalloc_internal_def table_nth)
    from hole_loop_table [OF 3(2) nz le0, of newsize aln "pointer (bs ! 0)"] show ?thesis
    proof (elim disjE exE conjE, goal_cases)
      case 1
      have id: "s\<lparr>io_storage := table bs\<rparr> = s" using st(1) by (cases s) simp
      show ?case using 1 e app 3 by (simp add: table_nth no_part_def id)
    next
      case (2 k)
      have "pointer (move_down (table bs) (length bs) k ! k) = pointer (bs ! k)"
        using move_down_nth(1) [of k "length bs" "table bs" k] 2(1) 3(2) by (simp add: table_nth)
      then show ?case using e 2 carve_ok [OF assms 3(2) 2(1) refl 2(3)] io_ok_nth(1) [OF assms(1), of k] by simp
    qed
  qed
qed


section \<open>Freeing\<close>

lemma iofree_ok:
  assumes "io_ok s bs" "k < length bs"
  shows "io_ok (iofree s (pointer (bs ! k))) (take k bs @ drop (k + 1) bs)"
    "start_of_memory (iofree s ptr) = start_of_memory s" "end_of_memory (iofree s ptr) = end_of_memory s"
proof -
  show "start_of_memory (iofree s ptr) = start_of_memory s" "end_of_memory (iofree s ptr) = end_of_memory s"
    by (simp_all add: iofree_def split: option.splits)
  let ?q = "\<lparr>pointer = pointer (bs ! k), psize = 0\<rparr>"
  have st: "io_storage s = table bs" "stored s = length bs" "length bs \<le> MAX_IO_ALLOCS" using assms(1) by (auto simp: io_ok_def)
  have inc: "pointer (bs ! i) < pointer (bs ! j)" if "i < j" "j < length bs" for i j
    using io_ok_nth(6) [OF assms(1) that(2,1)] io_ok_nth(5) [OF assms(1), of i] that by (simp add: base_def word_less_nat_alt)
  have same: "bsearch compare q (table bs) b n = bsearch compare q bs b n" if "b + n \<le> length bs" for q b n
    using that
  proof (induction n arbitrary: b rule: less_induct)
    case (less n)
    show ?case
    proof (cases "n = 0")
      case False
      then have "table bs ! (b + n div 2) = bs ! (b + n div 2)" using less.prems st(3) by (intro trans [OF table_nth]) auto
      moreover have "b + n div 2 + 1 + (n - 1) div 2 \<le> length bs" "(n - 1) div 2 < n" using False less.prems by linarith+
      ultimately show ?thesis using less.IH [of "(n - 1) div 2" "b + n div 2 + 1"] less.IH [of "n div 2" b] False less.prems
        by (subst (1 2) bsearch.simps) (simp add: Let_def)
    qed (simp add: bsearch.simps)
  qed
  have "sorted (map pointer bs)" using inc by (auto simp: sorted_iff_nth_mono_less less_imp_le)
  note bs = by_address.bsearch_loop [OF this, of 0 "length bs" ?q]
  have "bsearch compare ?q bs 0 (length bs) = Some k"
  proof (cases "bsearch compare ?q bs 0 (length bs)")
    case None
    then show ?thesis using bs assms(2) by auto
  next
    case (Some i)
    then have "i < length bs" "pointer (bs ! i) = pointer (bs ! k)" using bs by auto
    then show ?thesis using inc [of i k] inc [of k i] assms(2) Some by (metis less_irrefl linorder_neqE_nat)
  qed
  then have f: "iofree s (pointer (bs ! k)) = s\<lparr>iofreebytes := iofreebytes s + psize (bs ! k), ioallocbytes := ioallocbytes s - psize (bs ! k),
      io_storage := table (take k bs @ drop (k + 1) bs), stored := length bs - 1\<rparr>"
    using io_ok_nth(1) [OF assms] same [of 0 "length bs"] st assms(2) remove_table [OF assms(2) st(3)] by (simp add: iofree_def table_nth)
  have sub: "set (take k bs @ drop (k + 1) bs) \<subseteq> set bs" using set_take_subset [of k bs] set_drop_subset [of "k + 1" bs] by auto
  have "sorted_wrt (\<lambda>a b. past a \<le> base b) (take k bs @ [bs ! k] @ drop (k + 1) bs)"
    using assms by (simp add: io_ok_def Cons_nth_drop_Suc)
  then have "sorted_wrt (\<lambda>a b. past a \<le> base b) (take k bs @ drop (k + 1) bs)" by (auto simp: sorted_wrt_append)
  then show "io_ok (iofree s (pointer (bs ! k))) (take k bs @ drop (k + 1) bs)"
    unfolding f using assms sub by (auto simp: io_ok_def)
qed

lemma wrapped_sum:
  fixes a b m :: nat
  assumes "a < m" "b < m" "m \<le> a + b"
  shows "(a + b) mod m = a + b - m"
  using assms by (simp add: le_mod_geq)

section \<open>Properties\<close>

text \<open>C14: one allocation of I/O memory, of a size and an alignment for which no sum of the code wraps (the end
  of the memory plus the rounded size plus twice the alignment is below 2^32; the size is at most 2^32 - 4). With the table in order
  \<open>iomalloc\<close> never leaves the table; it returns \<open>NULL\<close> with ENOMEM and changes nothing, or a block that is aligned, lies inside the
  memory, has at least the size asked for and overlaps no block in use. The table is in order again when the block was put behind the
  last one.\<close>

theorem iomalloc_correct:
  assumes "io_ok s bs" "sz \<noteq> 0" "unat sz + 3 < 2 ^ 32" "aln' = (if aln = 0 then 4 else aln)" "io_fits s (ALN sz 4) aln'"
  shows "iomalloc s sz aln = Some (0, Some ENOMEM, s) \<or>
    (\<exists>p s' k. iomalloc s sz aln = Some (p, None, s') \<and> p \<noteq> 0 \<and> unat aln' dvd unat p \<and> unat (start_of_memory s) \<le> unat p \<and>
      unat p + unat sz \<le> unat (end_of_memory s) \<and> (\<forall>b \<in> set bs. unat p + unat sz \<le> base b \<or> past b \<le> unat p) \<and>
      io_storage s' = table (take k bs @ \<lparr>pointer = p, psize = ALN sz 4\<rparr> # drop k bs) \<and>
      (k = length bs \<longrightarrow> io_ok s' (bs @ [\<lparr>pointer = p, psize = ALN sz 4\<rparr>])))"
proof -
  have e: "iomalloc s sz aln = do { (retval, s') \<leftarrow> iomalloc_internal s (ALN sz 4) aln'; Some (retval, if retval = 0 then Some ENOMEM else None, s') }"
    using assms(2,4) by (simp add: iomalloc_def Let_def)
  note a = ALN_4(1) [OF assms(3)]
  from iomalloc_internal_ok [OF assms(1,5)] show ?thesis
    unfolding io_result_def
  proof (elim disjE exE conjE, goal_cases)
    case 1
    then show ?case using e by simp
  next
    case (2 p s' k)
    then have "\<forall>b \<in> set bs. unat p + unat sz \<le> base b \<or> past b \<le> unat p" "unat p + unat sz \<le> unat (end_of_memory s)" using a by fastforce+
    then show ?case using 2 e by (intro disjI2 exI [of _ p] exI [of _ s'] exI [of _ k]) simp
  qed
qed

lemma fresh_io:
  obtains s where "iomalloc_init raw_io 4096 8192 = (EOK, s)" "io_ok s []" "start_of_memory s = 4096" "end_of_memory s = 8192"
proof -
  obtain s where "iomalloc_init raw_io 4096 8192 = (EOK, s)" by (simp add: iomalloc_init_def)
  moreover from this have "io_ok s []" "start_of_memory s = 4096" "end_of_memory s = 8192"
    by (auto simp: iomalloc_init_def raw_io_def io_ok_def table_def)
  ultimately show ?thesis using that by blast
qed

theorem iomalloc_correct_witness:
  "\<exists>s p e s'. iomalloc_init raw_io 4096 8192 = (EOK, s) \<and> iomalloc s 10 16 = Some (p, e, s') \<and> (e = None \<longrightarrow> 16 dvd unat p \<and> 4096 \<le> unat p)"
proof -
  obtain s where s: "iomalloc_init raw_io 4096 8192 = (EOK, s)" "io_ok s []" "start_of_memory s = 4096" "end_of_memory s = 8192" using fresh_io .
  have "io_fits s (ALN 10 4) 16" by (simp add: io_fits_def ALN_def s)
  then show ?thesis using iomalloc_correct [OF s(2), of 10 16 16] s by auto
qed

text \<open>Freeing I/O memory. With the table in order \<open>iofree\<close> of the address of a block in use removes exactly that block and keeps the order.\<close>

theorem iofree_correct:
  assumes "io_ok s (xs @ b # ys)"
  shows "io_ok (iofree s (pointer b)) (xs @ ys)"
  using iofree_ok(1) [OF assms, of "length xs"] by simp

theorem iofree_correct_witness:
  "\<exists>s p s'. iomalloc_init raw_io 4096 8192 = (EOK, s) \<and> iomalloc s 16 0 = Some (p, None, s') \<and> io_ok (iofree s' p) []"
proof -
  obtain s where s: "iomalloc_init raw_io 4096 8192 = (EOK, s)" "io_ok s []" "start_of_memory s = 4096" "end_of_memory s = 8192" using fresh_io .
  have "io_fits s (ALN 16 4) 4" by (simp add: io_fits_def ALN_def s)
  note r = iomalloc_internal_ok [OF s(2) this]
  have "iomalloc_internal s (ALN 16 4) 4 \<noteq> Some (0, s)" using s
    by (auto simp: iomalloc_internal_def simple_alloc_def ALN_def MULT_def io_ok_def Let_def MAX_IO_ALLOCS_def)
  then obtain p s' where p: "iomalloc_internal s (ALN 16 4) 4 = Some (p, s')" "p \<noteq> 0" "io_ok s' ([] @ \<lparr>pointer = p, psize = ALN 16 4\<rparr> # [])"
    using r unfolding io_result_def by auto
  have "iomalloc s 16 0 = Some (p, None, s')" using p by (simp add: iomalloc_def Let_def)
  then show ?thesis using s(1) iofree_correct [OF p(3)] by auto
qed

text \<open>A size near the top of the address space is granted. On the empty I/O memory, whose start is a multiple of the alignment, every
  request whose rounded size reaches past the last address from the start of the memory succeeds: the sum of address and size in
  the bound test wraps, and \<open>iomalloc\<close> returns the start of the memory with no error although the block does not fit.\<close>

theorem iomalloc_grants_what_wraps:
  assumes "io_ok s []" "start_of_memory s \<le> end_of_memory s" "sz \<noteq> 0" "unat sz + 3 < 2 ^ 32" "aln' = (if aln = 0 then 4 else aln)"
    and "unat aln' dvd unat (start_of_memory s)" "unat (start_of_memory s) + unat aln' \<le> 2 ^ 32"
    and "2 ^ 32 \<le> unat (start_of_memory s) + unat (ALN sz 4)"
  shows "\<exists>s'. iomalloc s sz aln = Some (start_of_memory s, None, s') \<and> ioallocbytes s' = ioallocbytes s + ALN sz 4"
proof -
  let ?p = "start_of_memory s" and ?n = "ALN sz 4"
  have st: "stored s = 0" "length (io_storage s) = MAX_IO_ALLOCS" "?p \<noteq> 0"
    using assms(1) by (simp_all add: io_ok_def) (auto simp: io_ok_def)
  have "aln' \<noteq> 0" using assms(5) by simp
  then have m: "MULT ?p aln' = ?p" using assms(7,6) by (rule MULT_fixed)
  have b: "unat ?p < 2 ^ 32" "unat ?n < 2 ^ 32" using unsigned_less [of ?p] unsigned_less [of ?n] by simp_all
  have "unat (?p + ?n) = (unat ?p + unat ?n) mod 2 ^ 32" by (simp add: unat_word_ariths)
  also have "\<dots> = unat ?p + unat ?n - 2 ^ 32" by (rule wrapped_sum [OF b assms(8)])
  also have "\<dots> \<le> unat ?p" using b by linarith
  also have "\<dots> \<le> unat (end_of_memory s)" using assms(2) by (simp add: word_le_nat_alt)
  finally have "\<not> end_of_memory s < ?p + ?n" by (simp add: word_less_nat_alt)
  moreover have "iomalloc s sz aln = do { (retval, s') \<leftarrow> iomalloc_internal s ?n aln'; Some (retval, if retval = 0 then Some ENOMEM else None, s') }"
    using assms(3,5) by (simp add: iomalloc_def Let_def)
  ultimately show ?thesis using st m by (simp add: iomalloc_internal_def simple_alloc_def MAX_IO_ALLOCS_def Let_def)
qed

theorem iomalloc_grants_what_wraps_witness:
  "\<exists>s s'. iomalloc_init raw_io 4096 8192 = (EOK, s) \<and> iomalloc s 0xFFFFF000 0 = Some (4096, None, s')"
proof -
  obtain s where s: "iomalloc_init raw_io 4096 8192 = (EOK, s)" "io_ok s []" "start_of_memory s = 4096" "end_of_memory s = 8192" using fresh_io .
  then show ?thesis using iomalloc_grants_what_wraps [of s "0xFFFFF000" 4 0] by (auto simp: ALN_def)
qed

text \<open>Filling a hole hands out the same memory twice. After three blocks and a \<open>iofree\<close> of the middle one the next two allocations
  return the same address: the block that fills the hole is put in front of the block below it, and the table is no longer in order.\<close>

theorem iomalloc_hands_out_memory_twice:
  "(let s0 = snd (iomalloc_init raw_io 4096 8192) in
    do { (a, _, s1) \<leftarrow> iomalloc s0 16 0; (b, _, s2) \<leftarrow> iomalloc s1 64 0; (c, _, s3) \<leftarrow> iomalloc s2 16 0;
         (d, _, s4) \<leftarrow> iomalloc (iofree s3 b) 16 0; (e, _, s5) \<leftarrow> iomalloc s4 16 0;
         Some (a, b, c, d, e) }) = Some (4096, 4112, 4176, 4112, 4112)"
  by code_simp

end
