(* ===== verification/Ctype.thy ===== *)
theory Ctype
  imports Prelude
begin

text \<open>
  The character classes of \<^verbatim>\<open>src/libs/libc/ansi/is*.c\<close> and the two case conversions. A character is the \<open>int\<close> it is promoted to:
  a plain \<open>char\<close> is signed on this machine, so that the upper half of the bytes is negative.
\<close>

section \<open>Functions\<close>

definition char_int :: "char \<Rightarrow> int" where
  "char_int c = (if of_char c < (128 :: int) then of_char c else of_char c - 256)"

definition isdigit :: "int \<Rightarrow> bool" where "isdigit c \<longleftrightarrow> 48 \<le> c \<and> c \<le> 57"

definition islower :: "int \<Rightarrow> bool" where "islower c \<longleftrightarrow> 97 \<le> c \<and> c \<le> 122"

definition isupper :: "int \<Rightarrow> bool" where "isupper c \<longleftrightarrow> 65 \<le> c \<and> c \<le> 90"

definition isalpha :: "int \<Rightarrow> bool" where "isalpha c \<longleftrightarrow> isupper c \<or> islower c"

definition isalnum :: "int \<Rightarrow> bool" where "isalnum c \<longleftrightarrow> isalpha c \<or> isdigit c"

definition iscntrl :: "int \<Rightarrow> bool" where "iscntrl c \<longleftrightarrow> 0 \<le> c \<and> c \<le> 31 \<or> c = 127"

definition isgraph :: "int \<Rightarrow> bool" where "isgraph c \<longleftrightarrow> 32 < c \<and> c < 127"

definition isprint :: "int \<Rightarrow> bool" where "isprint c \<longleftrightarrow> 31 < c \<and> c < 127"

definition ispunct :: "int \<Rightarrow> bool" where
  "ispunct c \<longleftrightarrow> 33 \<le> c \<and> c \<le> 47 \<or> 58 \<le> c \<and> c \<le> 64 \<or> 91 \<le> c \<and> c \<le> 96 \<or> 123 \<le> c \<and> c \<le> 126"

definition isspace :: "int \<Rightarrow> bool" where "isspace c \<longleftrightarrow> 9 \<le> c \<and> c \<le> 13 \<or> c = 32"

definition isxdigit :: "int \<Rightarrow> bool" where
  "isxdigit c \<longleftrightarrow> isdigit c \<or> 65 \<le> c \<and> c \<le> 70 \<or> 97 \<le> c \<and> c \<le> 102"

definition tolower :: "int \<Rightarrow> int" where "tolower c = (if isupper c then c - 65 + 97 else c)"

definition toupper :: "int \<Rightarrow> int" where "toupper c = (if islower c then c - 97 + 65 else c)"

lemmas ctype_defs = isdigit_def islower_def isupper_def isalpha_def isalnum_def iscntrl_def isgraph_def isprint_def ispunct_def
  isspace_def isxdigit_def tolower_def toupper_def

section \<open>The classes\<close>

text \<open>Every character below 128 is a control character or printable, a printable one is a blank, a letter, a digit or
  punctuation, and these exclude each other; no class holds of a character beyond.\<close>

lemma classes_partition:
  "0 \<le> c \<and> c < 128 \<longleftrightarrow> iscntrl c \<or> isprint c" "\<not> (iscntrl c \<and> isprint c)"
  "isprint c \<longleftrightarrow> c = 32 \<or> isgraph c" "isgraph c \<longleftrightarrow> isalnum c \<or> ispunct c" "\<not> (isalnum c \<and> ispunct c)" "\<not> (isalpha c \<and> isdigit c)"
  "isxdigit c \<Longrightarrow> isalnum c" "isspace c \<Longrightarrow> iscntrl c \<or> c = 32"
  by (auto simp: ctype_defs)

lemma case_conversions:
  "isupper c \<Longrightarrow> islower (tolower c) \<and> toupper (tolower c) = c" "islower c \<Longrightarrow> isupper (toupper c) \<and> tolower (toupper c) = c"
  "\<not> isupper c \<Longrightarrow> tolower c = c" "\<not> islower c \<Longrightarrow> toupper c = c" "tolower (tolower c) = tolower c"
  by (auto simp: ctype_defs)

lemma of_char_range: "0 \<le> (of_char c :: int)" "(of_char c :: int) < 256"
  using pos_mod_sign [of 256 "of_char c :: int"] pos_mod_bound [of 256 "of_char c :: int"] by simp_all

lemma char_int_range: "- 128 \<le> char_int c \<and> char_int c < 128"
  using of_char_range [of c] by (auto simp: char_int_def)

lemma char_int_inject [simp]: "char_int c = char_int d \<longleftrightarrow> c = d"
proof
  assume e: "char_int c = char_int d"
  have "(of_char c :: int) = of_char d"
    using e of_char_range [of c] of_char_range [of d] unfolding char_int_def by (auto split: if_splits)
  then show "c = d" by simp
qed simp

end
