(* ===== verification/Conversions.thy ===== *)
theory Conversions
  imports Ctype "HOL-Library.Signed_Division"
begin

text \<open>
  Conversions and integer functions of the C library: \<^verbatim>\<open>src/libs/libc/ansi/strtol.c\<close>, \<^verbatim>\<open>atoi.c\<close>, \<^verbatim>\<open>atol.c\<close>, \<^verbatim>\<open>abs.c\<close>, \<^verbatim>\<open>labs.c\<close>,
  \<^verbatim>\<open>div.c\<close>, \<^verbatim>\<open>ldiv.c\<close>, \<^verbatim>\<open>rand.c\<close>. A string is the list of its characters before the terminator, a pointer into it the suffix that
  starts there. \<open>long\<close> has 32 bits.
\<close>

section \<open>Numbers in strings\<close>

text \<open>The character at a pointer, as an \<open>int\<close>.\<close>

definition deref :: "string \<Rightarrow> int" where
  "deref s = (case s of [] \<Rightarrow> 0 | c # _ \<Rightarrow> char_int c)"

definition between :: "int \<Rightarrow> int \<Rightarrow> int \<Rightarrow> bool" where
  "between a c z \<longleftrightarrow> (word_of_int (c - a) :: u32) \<le> word_of_int (z - a)"

definition digit_value :: "int \<Rightarrow> int option" where
  "digit_value c =
     (if between 48 c 57 then Some (c - 48)
      else if between 97 c 122 then Some (c - 97 + 10)
      else if between 65 c 90 then Some (c - 65 + 10)
      else None)"

text \<open>The loop over the digits; a terminator is no digit.\<close>

fun digits_loop :: "int \<Rightarrow> u32 \<Rightarrow> bool \<Rightarrow> string \<Rightarrow> u32 \<times> bool \<times> string" where
  "digits_loop base val ovfl [] = (val, ovfl, [])"
| "digits_loop base val ovfl (c # s) =
     (case digit_value (char_int c) of
        None \<Rightarrow> (val, ovfl, c # s)
      | Some v \<Rightarrow>
          if v \<ge> base then (val, ovfl, c # s)
          else digits_loop base (val * word_of_int base + word_of_int v)
                 (ovfl \<or> val > (- 1 - word_of_int v) div word_of_int base) s)"

definition LONG_MAX :: u32 where "LONG_MAX = 0x7FFFFFFF"
definition LONG_MIN :: u32 where "LONG_MIN = 0x80000000"
definition ULONG_MAX :: u32 where "ULONG_MAX = 0xFFFFFFFF"

text \<open>The base and the pointer past its prefix.\<close>

definition skip_prefix :: "int \<Rightarrow> string \<Rightarrow> int \<times> string" where
  "skip_prefix base s =
     (if base = 0
      then (if deref s = 48
            then (if deref (tl s) = 120 \<or> deref (tl s) = 88 then (16, tl (tl s)) else (8, tl s))
            else (10, s))
      else if base = 16 \<and> deref s = 48 \<and> (deref (tl s) = 120 \<or> deref (tl s) = 88) then (base, tl (tl s))
      else (base, s))"

text \<open>The result, what is stored through \<open>endp\<close>, and whether \<open>errno\<close> is set to \<open>ERANGE\<close>.\<close>

definition string2long :: "string \<Rightarrow> int \<Rightarrow> bool \<Rightarrow> u32 \<times> string \<times> bool" where
  "string2long s base is_signed =
     (let s1 = dropWhile (\<lambda>c. isspace (char_int c)) s;
          c = deref s1;
          neg = (c = 45);
          nrstart = (if c = 45 \<or> c = 43 then tl s1 else s1);
          (base, s2) = skip_prefix base nrstart;
          (val, ovfl, s3) = digits_loop base 0 False s2;
          endp = (if length nrstart = length s3 then s else s3);
          ovfl = (ovfl \<or> is_signed \<and> (neg \<and> val > - LONG_MIN \<or> \<not> neg \<and> val > LONG_MAX))
      in (if ovfl then (if is_signed then (if neg then LONG_MIN else LONG_MAX) else ULONG_MAX)
          else if neg then - val else val,
          endp, ovfl))"

definition strtol :: "string \<Rightarrow> int \<Rightarrow> int \<times> string \<times> bool" where
  "strtol s base = (let (v, e, r) = string2long s base True in (sint v, e, r))"

definition strtoul :: "string \<Rightarrow> int \<Rightarrow> u32 \<times> string \<times> bool" where
  "strtoul s base = string2long s base False"

definition atol :: "string \<Rightarrow> int" where "atol s = fst (strtol s 10)"

definition atoi :: "string \<Rightarrow> int" where "atoi s = fst (strtol s 10)"

section \<open>Integer functions\<close>

text \<open>\<open>abs\<close> and \<open>labs\<close>: the negation wraps at the smallest value.\<close>

definition c_abs :: "u32 \<Rightarrow> u32" where "c_abs n = (if sint n \<ge> 0 then n else - n)"

text \<open>\<open>div\<close> and \<open>ldiv\<close>; \<open>None\<close> is the trap of a division by zero or of a quotient that does not fit. \<open>/\<close> and \<open>%\<close> truncate.\<close>

definition c_div :: "int \<Rightarrow> int \<Rightarrow> (int \<times> int) option" where
  "c_div num denom =
     (if denom = 0 \<or> num = - (2 ^ 31) \<and> denom = - 1 then None
      else if num = 0 then Some (num sdiv denom, num smod denom)
      else if (num < 0) \<noteq> (denom < 0) then Some (num sdiv denom + 1, num - (num sdiv denom + 1) * denom)
      else Some (num sdiv denom, num smod denom))"

definition RAND_MAX :: u32 where "RAND_MAX = 32767"

definition rand :: "u32 \<Rightarrow> u32 \<times> u32" where
  "rand nxt = (let n = nxt * 1103515245 + 12345 in (n div (2 * (RAND_MAX + 1)) mod (RAND_MAX + 1), n))"

definition srand :: "u32 \<Rightarrow> u32" where "srand seed = seed"

section \<open>Digits\<close>

lemma between_iff:
  assumes "- 128 \<le> c" "c < 128" "0 \<le> a" "a \<le> z" "z < 128"
  shows "between a c z \<longleftrightarrow> a \<le> c \<and> c \<le> z"
proof -
  have z: "uint (word_of_int (z - a) :: u32) = z - a" using assms by (simp add: uint_word_of_int del: of_int_diff)
  show ?thesis
  proof (cases "a \<le> c")
    case True
    then have "uint (word_of_int (c - a) :: u32) = c - a" using assms by (simp add: uint_word_of_int del: of_int_diff)
    then show ?thesis using True z by (simp add: between_def word_le_def del: of_int_diff)
  next
    case False
    have "(c - a) mod 2 ^ 32 = (c - a + 2 ^ 32) mod 2 ^ 32" by simp
    also have "\<dots> = c - a + 2 ^ 32" using False assms by (intro mod_pos_pos_trivial) auto
    finally have "uint (word_of_int (c - a) :: u32) = c - a + 2 ^ 32" by (simp add: uint_word_of_int del: of_int_diff)
    then show ?thesis using False z assms by (simp add: between_def word_le_def del: of_int_diff)
  qed
qed

lemma digit_value_char:
  "digit_value (char_int c) =
     (let i = char_int c in if isdigit i then Some (i - 48) else if islower i then Some (i - 87)
      else if isupper i then Some (i - 55) else None)"
  using char_int_range [of c] by (auto simp: digit_value_def between_iff ctype_defs Let_def)

lemma digit_value_range: "digit_value (char_int c) = Some v \<Longrightarrow> 0 \<le> v \<and> v < 36"
  by (auto simp: digit_value_char Let_def ctype_defs split: if_splits)

text \<open>A digit of a base, and the number a list of digits stands for.\<close>

definition is_digit :: "int \<Rightarrow> char \<Rightarrow> bool" where
  "is_digit base c \<longleftrightarrow> (case digit_value (char_int c) of None \<Rightarrow> False | Some v \<Rightarrow> v < base)"

lemma is_digit_iff: "is_digit base c \<longleftrightarrow> (\<exists>v. digit_value (char_int c) = Some v \<and> v < base)"
  by (auto simp: is_digit_def split: option.split)

fun value_of :: "int \<Rightarrow> int \<Rightarrow> string \<Rightarrow> int" where
  "value_of base n [] = n"
| "value_of base n (c # s) = value_of base (n * base + the (digit_value (char_int c))) s"

lemma value_of_mono:
  assumes "0 \<le> n" "1 \<le> base" "\<forall>c\<in>set s. is_digit base c"
  shows "n \<le> value_of base n s"
  using assms
proof (induction base n s rule: value_of.induct)
  case (2 base n c s)
  obtain v where v: "digit_value (char_int c) = Some v" "0 \<le> v" using "2.prems" digit_value_range by (auto simp: is_digit_iff)
  have "n \<le> n * base" using "2.prems" by (simp add: mult_le_cancel_left1)
  then show ?case using "2.IH" "2.prems" v by fastforce
qed simp

lemma int_le_div:
  assumes "0 < (b :: int)"
  shows "c \<le> a div b \<longleftrightarrow> c * b \<le> a"
proof
  assume "c \<le> a div b"
  then have "c * b \<le> a div b * b" using assms by simp
  also have "\<dots> \<le> a" using assms by (metis div_mod_decomp_int le_add_same_cancel1 pos_mod_sign)
  finally show "c * b \<le> a" .
qed (use zdiv_mono1 [of "c * b" a b] assms in simp)

lemma overflow_check:
  assumes "0 \<le> v" "v < 36" "2 \<le> base" "base \<le> 36"
  shows "(val :: u32) > (- 1 - word_of_int v) div word_of_int base \<longleftrightarrow> 2 ^ 32 \<le> uint val * base + v"
proof -
  have b: "uint (word_of_int base :: u32) = base" "uint (word_of_int v :: u32) = v" using assms by (simp_all add: uint_word_of_int)
  have "uint (- 1 - word_of_int v :: u32) = (2 ^ 32 - 1 - v) mod 2 ^ 32" using b(2) by (simp add: uint_word_ariths)
  then have "uint (- 1 - word_of_int v :: u32) = 2 ^ 32 - 1 - v" using assms by simp
  then have "uint ((- 1 - word_of_int v) div word_of_int base :: u32) = (2 ^ 32 - 1 - v) div base" using b(1) by (simp add: uint_div)
  then have "val > (- 1 - word_of_int v) div word_of_int base \<longleftrightarrow> (2 ^ 32 - 1 - v) div base < uint val" by (simp add: word_less_def)
  also have "\<dots> \<longleftrightarrow> 2 ^ 32 - 1 - v < uint val * base" using assms int_le_div [of base "uint val" "2 ^ 32 - 1 - v"] by linarith
  finally show ?thesis by linarith
qed

lemma digits_loop_correct:
  assumes "2 \<le> base" "base \<le> 36" "\<forall>c\<in>set ds. is_digit base c" "rest = [] \<or> \<not> is_digit base (hd rest)"
    and "digits_loop base val ovfl (ds @ rest) = (val', ovfl', rest')" "0 \<le> n" "if ovfl then 2 ^ 32 \<le> n else uint val = n"
  shows "rest' = rest \<and> (if ovfl' then 2 ^ 32 \<le> value_of base n ds else uint val' = value_of base n ds)"
  using assms(3,5-)
proof (induction ds arbitrary: val ovfl n)
  case Nil
  have "digits_loop base val ovfl rest = (val, ovfl, rest)"
    using assms(4) by (cases rest) (auto simp: is_digit_iff split: option.split)
  then have "val' = val" "ovfl' = ovfl" "rest' = rest" using Nil.prems(2) by simp_all
  then show ?case using Nil.prems(4) by (auto split: if_splits)
next
  case (Cons c ds)
  obtain v where v: "digit_value (char_int c) = Some v" "v < base" using Cons.prems(1) by (auto simp: is_digit_iff)
  have r: "0 \<le> v" "v < 36" using digit_value_range [OF v(1)] by auto
  let ?o = "ovfl \<or> val > (- 1 - word_of_int v) div word_of_int base" and ?val = "val * word_of_int base + word_of_int v :: u32"
  have n: "n \<le> n * base" using Cons.prems(3) assms(1) by (simp add: mult_le_cancel_left1)
  have "if ?o then 2 ^ 32 \<le> n * base + v else uint ?val = n * base + v"
  proof (cases ovfl)
    case False
    then have u: "uint val = n" using Cons.prems(4) by simp
    show ?thesis
    proof (cases "2 ^ 32 \<le> n * base + v")
      case F: False
      have "uint ?val = (uint val * base + v) mod 2 ^ 32" using r assms(1,2) by (simp add: uint_word_ariths uint_word_of_int mod_simps)
      then have "uint ?val = n * base + v" using F u Cons.prems(3) r assms(1) by simp
      then show ?thesis using False F overflow_check [OF r assms(1,2), of val] u by simp
    qed (use overflow_check [OF r assms(1,2), of val] u in simp)
  next
    case True
    then have "2 ^ 32 \<le> n" using Cons.prems(4) by simp
    then have "2 ^ 32 \<le> n * base + v" using n r by linarith
    then show ?thesis using True by simp
  qed
  then show ?case using Cons.IH [of ?val ?o "n * base + v"] Cons.prems(1-3) v r n by (auto split: if_splits)
qed

section \<open>Reading numbers\<close>

definition int_of :: "bool \<Rightarrow> int \<Rightarrow> int" where
  "int_of neg n = (if neg then - n else n)"

definition sign_text :: "bool \<Rightarrow> bool \<Rightarrow> string" where
  "sign_text neg explicit = (if neg then ''-'' else if explicit then ''+'' else [])"

lemma digit_is_alnum:
  assumes "is_digit base c"
  shows "isalnum (char_int c)" "\<not> isspace (char_int c)" "char_int c \<noteq> 45" "char_int c \<noteq> 43" "base \<le> 33 \<Longrightarrow> char_int c \<noteq> 120 \<and> char_int c \<noteq> 88"
  using assms by (auto simp: is_digit_iff digit_value_char Let_def ctype_defs split: if_splits)

text \<open>A numeral in a string: blanks, a sign, digits, and something that does not continue it. With base 16 the
  prefix \<^verbatim>\<open>0x\<close> would be skipped.\<close>

definition numeral_in :: "int \<Rightarrow> string \<Rightarrow> string \<Rightarrow> string \<Rightarrow> bool" where
  "numeral_in base ws ds rest \<longleftrightarrow>
     2 \<le> base \<and> base \<le> 36 \<and> list_all (\<lambda>c. isspace (char_int c)) ws \<and> ds \<noteq> [] \<and> list_all (is_digit base) ds \<and>
     (rest = [] \<or> \<not> is_digit base (hd rest)) \<and> \<not> (base = 16 \<and> deref rest \<in> {120, 88})"

lemma dropWhile_blanks:
  assumes "list_all (\<lambda>c. isspace (char_int c)) ws" "s \<noteq> []" "\<not> isspace (char_int (hd s))"
  shows "dropWhile (\<lambda>c. isspace (char_int c)) (ws @ s) = s"
  using assms by (induction ws) (auto simp: dropWhile_eq_self_iff)

lemma no_prefix:
  assumes "numeral_in base ws ds rest"
  shows "skip_prefix base (ds @ rest) = (base, ds @ rest)"
proof -
  obtain d ds' where d: "ds = d # ds'" using assms by (cases ds) (auto simp: numeral_in_def)
  have "deref (ds' @ rest) \<noteq> 120 \<and> deref (ds' @ rest) \<noteq> 88" if "base = 16"
    using assms digit_is_alnum(5) [of base "hd ds'"] that d by (cases ds') (auto simp: numeral_in_def deref_def)
  then show ?thesis using assms d by (auto simp: skip_prefix_def numeral_in_def)
qed

lemma string2long_numeral:
  assumes "numeral_in base ws ds rest" "n = value_of base 0 ds" "s = ws @ sign_text neg explicit @ ds @ rest"
  shows "string2long s base is_signed =
    (if is_signed \<and> \<not> (- (2 ^ 31) \<le> int_of neg n \<and> int_of neg n < 2 ^ 31) then (if neg then LONG_MIN else LONG_MAX, rest, True)
     else if \<not> is_signed \<and> 2 ^ 32 \<le> n then (ULONG_MAX, rest, True)
     else (word_of_int (int_of neg n), rest, False))"
proof -
  note a = assms(1) [unfolded numeral_in_def]
  obtain d ds' where d: "ds = d # ds'" using a by (cases ds) auto
  have dd: "is_digit base d" using a d by simp
  let ?t = "sign_text neg explicit @ ds @ rest"
  have "dropWhile (\<lambda>c. isspace (char_int c)) s = ?t" unfolding assms(3)
    by (rule dropWhile_blanks) (use a d digit_is_alnum(2) [OF dd] in \<open>auto simp: sign_text_def char_int_def ctype_defs\<close>)
  moreover have "(deref ?t = 45) = neg" "(if neg \<or> deref ?t = 43 then tl ?t else ?t) = ds @ rest"
    using digit_is_alnum [OF dd] d by (auto simp: sign_text_def deref_def char_int_def)
  moreover obtain val ovfl rest' where l: "digits_loop base 0 False (ds @ rest) = (val, ovfl, rest')" by (metis prod_cases3)
  have r: "rest' = rest" "if ovfl then 2 ^ 32 \<le> n else uint val = n"
    using digits_loop_correct [OF _ _ _ _ l, of 0] a assms(2) by (auto simp: list_all_iff)
  have e: "length (ds @ rest) \<noteq> length rest" using d by simp
  ultimately have s: "string2long s base is_signed =
     (let o1 = (ovfl \<or> is_signed \<and> (neg \<and> val > - LONG_MIN \<or> \<not> neg \<and> val > LONG_MAX))
      in (if o1 then (if is_signed then (if neg then LONG_MIN else LONG_MAX) else ULONG_MAX) else if neg then - val else val, rest, o1))"
    unfolding string2long_def Let_def using no_prefix [OF assms(1)] l r(1) by (simp split del: if_split cong: if_cong)
  have n0: "0 \<le> n" using value_of_mono [of 0 base ds] a assms(2) by (simp add: list_all_iff)
  show ?thesis
  proof (cases ovfl)
    case True
    then show ?thesis using s r(2) n0 by (auto simp: int_of_def)
  next
    case False
    then have u: "uint val = n" using r(2) by simp
    then have v: "val = word_of_int n" by (metis word_of_int_uint)
    have "n < 2 ^ 32" using u uint_lt2p [of val] by simp
    moreover have "val > - LONG_MIN \<longleftrightarrow> 2 ^ 31 < n" "val > LONG_MAX \<longleftrightarrow> 2 ^ 31 \<le> n"
      using u by (auto simp: word_less_def LONG_MIN_def LONG_MAX_def)
    ultimately show ?thesis using s False n0 by (auto simp: int_of_def v)
  qed
qed

lemma numeral_read:
  assumes "numeral_in base ws ds rest" "n = value_of base 0 ds" "s = ws @ sign_text neg explicit @ ds @ rest"
  shows "strtol s base =
      (if int_of neg n < - (2 ^ 31) then (- (2 ^ 31), rest, True)
       else if 2 ^ 31 \<le> int_of neg n then (2 ^ 31 - 1, rest, True) else (int_of neg n, rest, False)) \<and>
    strtoul s base = (if 2 ^ 32 \<le> n then (ULONG_MAX, rest, True) else (word_of_int (int_of neg n), rest, False))"
proof -
  have n0: "0 \<le> n" using value_of_mono [of 0 base ds] assms(1,2) by (simp add: numeral_in_def list_all_iff)
  have "sint (word_of_int i :: u32) = i" if "- (2 ^ 31) \<le> i" "i < 2 ^ 31" for i
    using that by (simp add: signed_of_int signed_take_bit_int_eq_self)
  then show ?thesis using string2long_numeral [OF assms] n0
    by (auto simp: strtol_def strtoul_def LONG_MIN_def LONG_MAX_def int_of_def)
qed

text \<open>C27: reading a number in a base from 2 to 36. On blanks, an optional sign and at least one digit of the base, followed by no digit (and, in base 16, by no x), \<open>strtol\<close> returns the number they stand for when it fits in a
  \<open>long\<close>, otherwise the limit on its side together with \<open>ERANGE\<close>, and points to the first character that is no digit; \<open>strtoul\<close> does so
  for an \<open>unsigned long\<close>, a sign negating the result modulo \<open>2 ^ 32\<close>.\<close>

theorem strtol_correct:
  assumes "numeral_in base ws ds rest" "n = value_of base 0 ds" "s = ws @ sign_text neg explicit @ ds @ rest"
  shows "strtol s base =
      (if int_of neg n < - (2 ^ 31) then (- (2 ^ 31), rest, True)
       else if 2 ^ 31 \<le> int_of neg n then (2 ^ 31 - 1, rest, True) else (int_of neg n, rest, False)) \<and>
    strtoul s base = (if 2 ^ 32 \<le> n then (ULONG_MAX, rest, True) else (word_of_int (int_of neg n), rest, False))"
  using numeral_read [OF assms] .

theorem strtol_correct_witness:
  "strtol '' -2147483649z'' 10 = (- 2147483648, ''z'', True) \<and> strtoul ''ffg'' 16 = (255, ''g'', False)"
proof -
  have "numeral_in 10 '' '' ''2147483649'' ''z''" "numeral_in 16 [] ''ff'' ''g''" by code_simp+
  moreover have "value_of 10 0 ''2147483649'' = 2147483649" "value_of 16 0 ''ff'' = 255" by code_simp+
  ultimately show ?thesis
    using strtol_correct [of 10 "'' ''" "''2147483649''" "''z''" 2147483649 _ True False]
      strtol_correct [of 16 "[]" "''ff''" "''g''" 255 _ False False]
    by (simp add: sign_text_def int_of_def)
qed

section \<open>The integer functions\<close>

lemma c_abs_correct: "- (2 ^ 31) < sint n \<Longrightarrow> sint (c_abs n) = \<bar>sint n\<bar>"
proof -
  assume a: "- (2 ^ 31) < sint n"
  have l: "sint n < 2 ^ 31" using sint_lt [of n] by simp
  have "sint (- n) = - sint n" if "sint n < 0"
  proof -
    have e: "- n = word_of_int (- sint n)" by simp
    show ?thesis using a that unfolding e by (simp add: signed_of_int signed_take_bit_int_eq_self del: of_int_minus) 
  qed
  then show ?thesis by (simp add: c_abs_def)
qed

text \<open>The quotient of \<open>div\<close> is the truncated one when the signs agree; when they differ it is one too large, and the remainder is off by
  the divisor.\<close>

lemma c_div_result:
  assumes "c_div num denom = Some (q, r)"
  shows "num = q * denom + r" "q = num sdiv denom \<longleftrightarrow> num = 0 \<or> (num < 0) = (denom < 0)"
  using assms by (auto simp: c_div_def sdiv_mult_smod_eq split: if_splits)

lemma rand_bounds: "unat (fst (rand nxt)) \<le> 32767"
proof -
  have "fst (rand nxt) < 32768" unfolding rand_def Let_def RAND_MAX_def by (simp add: word_mod_less_divisor)
  then show ?thesis by (simp add: word_less_nat_alt)
qed

end
