(* ===== verification/KPrint.thy ===== *)
theory KPrint
  imports Conversions
begin

text \<open>
  The formatted output of the kernel, \<^verbatim>\<open>src/kernel/kprintf.c\<close>. The output is the list of the blocks handed to \<open>kputb\<close>. A
  format is the list of its characters before the terminator. An argument is a 32 bit word, as \<open>int\<close> and \<open>long\<close> are on this
  machine, a 64 bit word, or a pointer to a string; \<open>None\<close> is a missing argument, one of the wrong kind, or a write outside
  the array \<open>temp\<close>. \<open>width\<close> and \<open>max\<close> are integers.
\<close>

section \<open>Data\<close>

datatype karg = KInt u32 | KLongLong u64 | KStr "string option"

datatype ksize = CHAR_SIZE | SHORT_SIZE | INT_SIZE | LONG_SIZE | LONGLONG_SIZE

definition VPRINTF_BUFSIZE :: nat where "VPRINTF_BUFSIZE = 80"

record kout =
  ko_blocks :: "string list"
  ko_buffer :: string
  ko_count :: nat

text \<open>A format specifier, \<open>%[flags][width][.precision][length]specifier\<close>. \<open>ks_right\<close>, \<open>ks_sign\<close> and \<open>ks_prepend\<close> are
  the bits \<open>RIGHT\<close>, \<open>FORCE_SIGN\<close> and \<open>PREPEND\<close> of the variable \<open>flags\<close>; the other bits of it are never read, and of
  the five sizes always one is set.\<close>

record kspec =
  ks_right :: bool
  ks_sign :: bool
  ks_prepend :: bool
  ks_fill :: char
  ks_width :: int
  ks_max :: int
  ks_size :: ksize

definition X2C_tab :: string where "X2C_tab = ''0123456789ABCDEF''"
definition x2c_tab :: string where "x2c_tab = ''0123456789abcdef''"

definition INT_MAX :: int where "INT_MAX = 2147483647"

definition TEMP_SIZE :: nat where "TEMP_SIZE = 8 * 8 div 3 + 2"

section \<open>Output\<close>

definition count_kputc :: "char \<Rightarrow> kout \<Rightarrow> kout" where
  "count_kputc c o1 =
     (let o2 = o1\<lparr>ko_count := ko_count o1 + 1\<rparr>;
          o3 = (if length (ko_buffer o2) = VPRINTF_BUFSIZE
                then o2\<lparr>ko_blocks := ko_blocks o2 @ [ko_buffer o2], ko_buffer := []\<rparr> else o2)
      in o3\<lparr>ko_buffer := ko_buffer o3 @ [c]\<rparr>)"

fun put_chars :: "string \<Rightarrow> kout \<Rightarrow> kout" where
  "put_chars [] o1 = o1"
| "put_chars (c # cs) o1 = put_chars cs (count_kputc c o1)"

text \<open>\<open>while (width > 0)\<close> a fill character.\<close>

definition put_fill :: "char \<Rightarrow> int \<Rightarrow> kout \<Rightarrow> kout" where
  "put_fill c width = put_chars (replicate (nat width) c)"

section \<open>Parsing\<close>

definition NUL :: char where "NUL = CHR 0x00"

text \<open>\<open>c = *fmt++\<close>; at the terminator the pointer is not used again.\<close>

fun next_char :: "string \<Rightarrow> char \<times> string" where
  "next_char [] = (NUL, [])"
| "next_char (c # cs) = (c, cs)"

text \<open>The loop over the flags, with \<open>c\<close> the current character.\<close>

fun parse_flags :: "char \<Rightarrow> string \<Rightarrow> kspec \<Rightarrow> kspec \<times> char \<times> string" where
  "parse_flags c fmt ks =
     (let ks' = (if c = CHR ''-'' then Some (ks\<lparr>ks_right := False, ks_sign := False, ks_prepend := False\<rparr>)
                 else if c = CHR ''+'' then Some (ks\<lparr>ks_sign := True\<rparr>)
                 else if c = CHR '' '' then Some (ks\<lparr>ks_sign := False\<rparr>)
                 else if c = CHR ''#'' then Some (ks\<lparr>ks_prepend := True\<rparr>)
                 else if c = CHR ''0'' then Some (ks\<lparr>ks_fill := CHR ''0''\<rparr>)
                 else None)
      in case ks' of
           None \<Rightarrow> (ks, c, fmt)
         | Some ks1 \<Rightarrow> (case fmt of [] \<Rightarrow> (ks1, NUL, []) | d # ds \<Rightarrow> parse_flags d ds ks1))"

fun read_number :: "int \<Rightarrow> char \<Rightarrow> string \<Rightarrow> int \<times> char \<times> string" where
  "read_number w c [] = (w * 10 + (char_int c - 48), NUL, [])"
| "read_number w c (d # ds) =
     (if isdigit (char_int d) then read_number (w * 10 + (char_int c - 48)) d ds else (w * 10 + (char_int c - 48), d, ds))"

definition int_arg :: "karg list \<Rightarrow> (u32 \<times> karg list) option" where
  "int_arg as = (case as of KInt v # as' \<Rightarrow> Some (v, as') | _ \<Rightarrow> None)"

definition longlong_arg :: "karg list \<Rightarrow> (u64 \<times> karg list) option" where
  "longlong_arg as = (case as of KLongLong v # as' \<Rightarrow> Some (v, as') | _ \<Rightarrow> None)"

text \<open>A width, and a precision after its dot: a star takes an argument, a number is read, otherwise the default stays.\<close>

definition parse_amount :: "int \<Rightarrow> char \<Rightarrow> string \<Rightarrow> karg list \<Rightarrow> (int \<times> char \<times> string \<times> karg list) option" where
  "parse_amount dflt c fmt as =
     (if c = CHR ''*''
      then do { (v, as') \<leftarrow> int_arg as; let (c', fmt') = next_char fmt; Some (sint v, c', fmt', as') }
      else if isdigit (char_int c) then (let (w, c', fmt') = read_number 0 c fmt in Some (w, c', fmt', as))
      else Some (dflt, c, fmt, as))"

definition parse_precision :: "char \<Rightarrow> string \<Rightarrow> karg list \<Rightarrow> (int \<times> char \<times> string \<times> karg list) option" where
  "parse_precision c fmt as =
     (if c = CHR ''.'' then (let (c1, fmt1) = next_char fmt in parse_amount INT_MAX c1 fmt1 as)
      else Some (INT_MAX, c, fmt, as))"

definition parse_size :: "char \<Rightarrow> string \<Rightarrow> ksize \<times> char \<times> string" where
  "parse_size c fmt =
     (if c = CHR ''l''
      then (let (c1, fmt1) = next_char fmt in
            if c1 = CHR ''l'' then (let (c2, fmt2) = next_char fmt1 in (LONGLONG_SIZE, c2, fmt2)) else (LONG_SIZE, c1, fmt1))
      else if c = CHR ''h''
      then (let (c1, fmt1) = next_char fmt in
            if c1 = CHR ''h'' then (let (c2, fmt2) = next_char fmt1 in (CHAR_SIZE, c2, fmt2)) else (SHORT_SIZE, c1, fmt1))
      else if c = CHR ''L'' then (let (c1, fmt1) = next_char fmt in (LONG_SIZE, c1, fmt1))
      else (INT_SIZE, c, fmt))"

definition no_flags :: kspec where
  "no_flags = \<lparr>ks_right = True, ks_sign = False, ks_prepend = False, ks_fill = CHR '' '', ks_width = 0, ks_max = INT_MAX, ks_size = INT_SIZE\<rparr>"

text \<open>The specifier after a percent sign, the key and what follows it.\<close>

definition parse_spec :: "string \<Rightarrow> karg list \<Rightarrow> (kspec \<times> char \<times> string \<times> karg list) option" where
  "parse_spec fmt as =
     (let (c, fmt) = next_char fmt;
          (ks, c, fmt) = parse_flags c fmt no_flags
      in do { (width, c, fmt, as) \<leftarrow> parse_amount 0 c fmt as;
              (mx, c, fmt, as) \<leftarrow> parse_precision c fmt as;
              let (sz, c, fmt) = parse_size c fmt;
              Some (ks\<lparr>ks_width := width, ks_max := mx, ks_size := sz\<rparr>, c, fmt, as) })"

section \<open>Conversions\<close>

text \<open>The limits on \<open>max\<close> by the size of the number, for \<open>CHAR_SIZE\<close>, \<open>SHORT_SIZE\<close>, \<open>INT_SIZE\<close> and \<open>LONG_SIZE\<close>, \<open>LONGLONG_SIZE\<close>.\<close>

definition adjust_max :: "kspec \<Rightarrow> int \<Rightarrow> int \<Rightarrow> int \<Rightarrow> int \<Rightarrow> kspec" where
  "adjust_max ks c s i l =
     (if ks_max ks \<noteq> INT_MAX
      then ks\<lparr>ks_max := min (ks_max ks) (case ks_size ks of CHAR_SIZE \<Rightarrow> c | SHORT_SIZE \<Rightarrow> s | INT_SIZE \<Rightarrow> i | LONG_SIZE \<Rightarrow> i | LONGLONG_SIZE \<Rightarrow> l)\<rparr>
      else ks)"

definition signed_arg :: "ksize \<Rightarrow> karg list \<Rightarrow> (int \<times> karg list) option" where
  "signed_arg sz as =
     (if sz = LONGLONG_SIZE then do { (v, as') \<leftarrow> longlong_arg as; Some (sint v, as') }
      else do { (v, as') \<leftarrow> int_arg as; Some (sint v, as') })"

definition unsigned_arg :: "ksize \<Rightarrow> karg list \<Rightarrow> (nat \<times> karg list) option" where
  "unsigned_arg sz as =
     (if sz = LONGLONG_SIZE then do { (v, as') \<leftarrow> longlong_arg as; Some (unat v, as') }
      else do { (v, as') \<leftarrow> int_arg as; Some (unat v, as') })"

text \<open>The array \<open>temp\<close> is filled from its end: \<open>p\<close> is what has been stored and \<open>room\<close> what is left in front of it.\<close>

fun int2ascii :: "string \<Rightarrow> nat \<Rightarrow> int \<Rightarrow> nat \<Rightarrow> nat \<Rightarrow> string \<Rightarrow> (string \<times> nat) option" where
  "int2ascii x2c base width u 0 p = None"
| "int2ascii x2c base width u (Suc room) p =
     (let p = x2c ! (u mod base) # p;
          u = (if width \<noteq> 0 \<and> \<not> int (length p) < width then 0 else u);
          u = u div base
      in if u > 0 then int2ascii x2c base width u room p else Some (p, room))"

fun pad_temp :: "char \<Rightarrow> int \<Rightarrow> nat \<Rightarrow> string \<Rightarrow> (string \<times> nat) option" where
  "pad_temp fill mx 0 p = (if int (length p) < mx then None else Some (p, 0))"
| "pad_temp fill mx (Suc room) p = (if int (length p) < mx then pad_temp fill mx room (fill # p) else Some (p, Suc room))"

definition prepend_temp :: "nat \<Rightarrow> nat \<Rightarrow> string \<Rightarrow> string option" where
  "prepend_temp base room p =
     (if base = 8 then (if room < 1 then None else Some (CHR ''0'' # p))
      else if base = 16 then (if room < 2 then None else Some (CHR ''0'' # CHR ''x'' # p))
      else Some p)"

definition number :: "kspec \<Rightarrow> string \<Rightarrow> nat \<Rightarrow> nat \<Rightarrow> string option" where
  "number ks x2c base u =
     do { (p, room) \<leftarrow> int2ascii x2c base (ks_width ks) u (TEMP_SIZE - 1) [];
          (p, room) \<leftarrow> (if ks_max ks \<noteq> INT_MAX then pad_temp (ks_fill ks) (min (ks_max ks) (ks_width ks)) room p else Some (p, room));
          if ks_prepend ks then prepend_temp base room p else Some p }"

text \<open>At \<open>string_print\<close>, with the number \<open>i\<close> and the \<open>len\<close> characters at \<open>p\<close>.\<close>

definition string_print :: "kspec \<Rightarrow> int \<Rightarrow> string \<Rightarrow> kout \<Rightarrow> kout" where
  "string_print ks i p o1 =
     (let width = ks_width ks - int (length p);
          (width, o2) = (if i < 0 \<or> ks_sign ks
                         then (width - 1, count_kputc (if i < 0 then CHR ''-'' else CHR ''+'') o1) else (width, o1));
          (width, o3) = (if ks_right ks then (min width 0, put_fill (ks_fill ks) width o2) else (width, o2));
          o4 = put_chars p o3
      in put_fill (ks_fill ks) width o4)"

definition print_unsigned :: "kspec \<Rightarrow> string \<Rightarrow> nat \<Rightarrow> karg list \<Rightarrow> kout \<Rightarrow> (karg list \<times> kout) option" where
  "print_unsigned ks x2c base as o1 =
     do { (u, as') \<leftarrow> unsigned_arg (ks_size ks) as; p \<leftarrow> number ks x2c base u; Some (as', string_print ks 0 p o1) }"

text \<open>The switch over the key. A string is read up to its terminator or \<open>max\<close> characters.\<close>

definition convert :: "kspec \<Rightarrow> char \<Rightarrow> karg list \<Rightarrow> kout \<Rightarrow> (karg list \<times> kout) option" where
  "convert ks c as o1 =
     (if c = CHR ''d'' \<or> c = CHR ''i''
      then do { (i, as') \<leftarrow> signed_arg (ks_size ks) as;
                p \<leftarrow> number (adjust_max ks 3 5 10 (int TEMP_SIZE - 1)) x2c_tab 10 (nat \<bar>i\<bar>);
                Some (as', string_print ks i p o1) }
      else if c = CHR ''o'' then print_unsigned (adjust_max ks 3 6 11 22) x2c_tab 8 as o1
      else if c = CHR ''p'' then print_unsigned (adjust_max (ks\<lparr>ks_prepend := True\<rparr>) 2 4 8 16) X2C_tab 16 as o1
      else if c = CHR ''X'' then print_unsigned (adjust_max ks 2 4 8 16) X2C_tab 16 as o1
      else if c = CHR ''x'' then print_unsigned (adjust_max ks 2 4 8 16) x2c_tab 16 as o1
      else if c = CHR ''u'' then print_unsigned ks x2c_tab 10 as o1
      else if c = CHR ''c''
      then do { (v, as') \<leftarrow> int_arg as; Some (as', string_print ks 0 [char_of (unat v)] o1) }
      else if c = CHR ''%'' then Some (as, string_print ks 0 ''%'' o1)
      else if c = CHR ''s''
      then (case as of
          KStr p # as' \<Rightarrow> Some (as', string_print ks 0 (take (nat (ks_max ks)) (case p of Some s \<Rightarrow> s | None \<Rightarrow> ''(null)'')) o1)
        | _ \<Rightarrow> None)
      else Some (as, count_kputc c (count_kputc (CHR ''%'') o1)))"

section \<open>Formats\<close>

lemma next_char_length: "length (snd (next_char fmt)) \<le> length fmt"
  by (cases fmt) auto

lemma parse_flags_length: "length (snd (snd (parse_flags c fmt ks))) \<le> length fmt"
proof (induction fmt arbitrary: c ks)
  case Nil
  show ?case by (simp split: option.split)
next
  case (Cons d ds)
  show ?case using Cons [of d] by (auto simp: Let_def split: option.split intro: le_SucI simp del: parse_flags.simps simp: parse_flags.simps [of c])
qed

lemma read_number_length: "length (snd (snd (read_number w c fmt))) \<le> length fmt"
  by (induction w c fmt rule: read_number.induct) (auto intro: le_SucI)

lemma parse_amount_length: "parse_amount dflt c fmt as = Some (w, c', fmt', as') \<Longrightarrow> length fmt' \<le> length fmt"
  using next_char_length [of fmt] read_number_length [of 0 c fmt]
  by (auto simp: parse_amount_def case_prod_unfold Let_def bind_eq_Some_conv split: if_splits)

lemma parse_precision_length: "parse_precision c fmt as = Some (w, c', fmt', as') \<Longrightarrow> length fmt' \<le> length fmt"
  using next_char_length [of fmt] parse_amount_length [of INT_MAX "fst (next_char fmt)" "snd (next_char fmt)" as w c' fmt' as']
  by (auto simp: parse_precision_def case_prod_unfold Let_def split: if_splits)

lemma parse_size_length: "length (snd (snd (parse_size c fmt))) \<le> length fmt"
  using next_char_length [of fmt] next_char_length [of "snd (next_char fmt)"]
  by (auto simp: parse_size_def case_prod_unfold Let_def)

lemma parse_spec_length:
  assumes "parse_spec fmt as = Some (ks, c', fmt', as')"
  shows "length fmt' \<le> length fmt"
proof -
  define f1 where "f1 = snd (snd (parse_flags (fst (next_char fmt)) (snd (next_char fmt)) no_flags))"
  have l: "length f1 \<le> length fmt" using next_char_length [of fmt] parse_flags_length order_trans unfolding f1_def by blast
  obtain c1 w c2 f2 a2 m c3 f3 a3 where p: "parse_amount 0 c1 f1 as = Some (w, c2, f2, a2)"
    "parse_precision c2 f2 a2 = Some (m, c3, f3, a3)" "fmt' = snd (snd (parse_size c3 f3))"
    using assms unfolding parse_spec_def f1_def
    by (auto simp: case_prod_unfold Let_def bind_eq_Some_conv simp del: parse_flags.simps)
  show ?thesis using l parse_amount_length [OF p(1)] parse_precision_length [OF p(2)] parse_size_length [of c3 f3] p(3) by simp
qed

function kvprintf_loop :: "string \<Rightarrow> karg list \<Rightarrow> kout \<Rightarrow> kout option" where
  "kvprintf_loop [] as o1 = Some o1"
| "kvprintf_loop (c # fmt) as o1 =
     (if c \<noteq> CHR ''%'' then kvprintf_loop fmt as (count_kputc c o1)
      else Option.bind (parse_spec fmt as)
        (\<lambda>(ks, key, fmt', as'). if key = NUL then Some o1
           else Option.bind (convert ks key as' o1) (\<lambda>(as'', o2). kvprintf_loop fmt' as'' o2)))"
  by pat_completeness auto

termination
  by (relation "measure (\<lambda>(fmt, _). length fmt)") (auto dest: parse_spec_length)

definition kvprintf :: "string \<Rightarrow> karg list \<Rightarrow> (nat \<times> string list) option" where
  "kvprintf fmt ap =
     do { o1 \<leftarrow> kvprintf_loop fmt ap \<lparr>ko_blocks = [], ko_buffer = [], ko_count = 0\<rparr>;
          Some (ko_count o1, ko_blocks o1 @ [ko_buffer o1]) }"

definition tagged :: "string \<Rightarrow> string \<Rightarrow> karg list \<Rightarrow> (nat \<times> string list) option" where
  "tagged tag fmt ap = do { (n, b1) \<leftarrow> kvprintf tag ap; (n, b2) \<leftarrow> kvprintf fmt ap; Some (n, b1 @ b2) }"

definition kprintf :: "string \<Rightarrow> karg list \<Rightarrow> (nat \<times> string list) option" where
  "kprintf = tagged ''[KRN]: ''"

definition kmsgprintf :: "string \<Rightarrow> karg list \<Rightarrow> (nat \<times> string list) option" where
  "kmsgprintf = tagged ''[INF]: ''"

definition kerrprintf :: "string \<Rightarrow> karg list \<Rightarrow> (nat \<times> string list) option" where
  "kerrprintf = tagged ''[ERR]: ''"

definition kwrnprintf :: "string \<Rightarrow> karg list \<Rightarrow> (nat \<times> string list) option" where
  "kwrnprintf = tagged ''[WRN]: ''"

section \<open>The text and its blocks\<close>

text \<open>What the blocks spell out, and the blocks of a text.\<close>

definition spelled :: "kout \<Rightarrow> string" where
  "spelled o1 = concat (ko_blocks o1) @ ko_buffer o1"

definition kout_ok :: "kout \<Rightarrow> bool" where
  "kout_ok o1 \<longleftrightarrow> ko_count o1 = length (spelled o1) \<and> length (ko_buffer o1) \<le> VPRINTF_BUFSIZE \<and>
     (\<forall>b\<in>set (ko_blocks o1). length b = VPRINTF_BUFSIZE) \<and> (ko_blocks o1 \<noteq> [] \<longrightarrow> ko_buffer o1 \<noteq> [])"

fun blocks :: "string \<Rightarrow> string list" where
  "blocks t = (if length t \<le> 80 then [t] else take 80 t # blocks (drop 80 t))"

declare blocks.simps [simp del]

lemma put_chars_append: "put_chars (xs @ ys) o1 = put_chars ys (put_chars xs o1)"
  by (induction xs arbitrary: o1) auto

lemma count_kputc_ok:
  assumes "kout_ok o1"
  shows "kout_ok (count_kputc c o1)" "spelled (count_kputc c o1) = spelled o1 @ [c]"
  using assms by (auto simp: kout_ok_def spelled_def count_kputc_def Let_def VPRINTF_BUFSIZE_def)

lemma put_chars_ok:
  "kout_ok o1 \<Longrightarrow> kout_ok (put_chars t o1) \<and> spelled (put_chars t o1) = spelled o1 @ t"
  by (induction t arbitrary: o1) (auto simp: count_kputc_ok)

lemma blocks_of_full:
  assumes "\<forall>b\<in>set bs. length b = 80" "length t \<le> 80" "bs \<noteq> [] \<longrightarrow> t \<noteq> []"
  shows "blocks (concat bs @ t) = bs @ [t]"
  using assms
proof (induction bs)
  case Nil
  then show ?case by (simp add: blocks.simps)
next
  case (Cons b bs)
  have "0 < length (concat bs @ t)" using Cons.prems(3) by simp
  then show ?case using Cons by (subst blocks.simps) simp
qed

lemma kout_blocks: "kout_ok o1 \<Longrightarrow> ko_blocks o1 @ [ko_buffer o1] = blocks (spelled o1)"
  unfolding spelled_def kout_ok_def VPRINTF_BUFSIZE_def by (simp add: blocks_of_full)

section \<open>The text of a format\<close>

text \<open>The text without the buffer: a field is the sign, the fill, the characters and the rest of the fill.\<close>

definition field :: "kspec \<Rightarrow> int \<Rightarrow> string \<Rightarrow> string" where
  "field ks i p =
     (let sign = (if i < 0 then ''-'' else if ks_sign ks then ''+'' else []);
          fill = replicate (nat (ks_width ks - int (length p) - int (length sign))) (ks_fill ks)
      in if ks_right ks then sign @ fill @ p else sign @ p @ fill)"

lemma string_print_field: "string_print ks i p o1 = put_chars (field ks i p) o1"
  by (auto simp: string_print_def field_def Let_def put_fill_def put_chars_append)

definition unsigned_text :: "kspec \<Rightarrow> string \<Rightarrow> nat \<Rightarrow> karg list \<Rightarrow> (karg list \<times> string) option" where
  "unsigned_text ks x2c base as =
     do { (u, as') \<leftarrow> unsigned_arg (ks_size ks) as; p \<leftarrow> number ks x2c base u; Some (as', field ks 0 p) }"

definition conversion :: "kspec \<Rightarrow> char \<Rightarrow> karg list \<Rightarrow> (karg list \<times> string) option" where
  "conversion ks c as =
     (if c \<in> set ''di''
      then do { (i, as') \<leftarrow> signed_arg (ks_size ks) as;
                p \<leftarrow> number (adjust_max ks 3 5 10 22) x2c_tab 10 (nat \<bar>i\<bar>); Some (as', field ks i p) }
      else if c = CHR ''o'' then unsigned_text (adjust_max ks 3 6 11 22) x2c_tab 8 as
      else if c = CHR ''p'' then unsigned_text (adjust_max (ks\<lparr>ks_prepend := True\<rparr>) 2 4 8 16) X2C_tab 16 as
      else if c = CHR ''X'' then unsigned_text (adjust_max ks 2 4 8 16) X2C_tab 16 as
      else if c = CHR ''x'' then unsigned_text (adjust_max ks 2 4 8 16) x2c_tab 16 as
      else if c = CHR ''u'' then unsigned_text ks x2c_tab 10 as
      else if c = CHR ''c'' then map_option (\<lambda>(v, as'). (as', field ks 0 [char_of (unat v)])) (int_arg as)
      else if c = CHR ''%'' then Some (as, field ks 0 ''%'')
      else if c = CHR ''s''
      then (case as of
          KStr p # as' \<Rightarrow> Some (as', field ks 0 (take (nat (ks_max ks)) (case p of Some s \<Rightarrow> s | None \<Rightarrow> ''(null)'')))
        | _ \<Rightarrow> None)
      else Some (as, [CHR ''%'', c]))"

lemma print_unsigned_text:
  "print_unsigned ks x2c base as o1 = map_option (\<lambda>(as', t). (as', put_chars t o1)) (unsigned_text ks x2c base as)"
  by (cases "unsigned_arg (ks_size ks) as"; cases "number ks x2c base (fst (the (unsigned_arg (ks_size ks) as)))")
    (auto simp: print_unsigned_def unsigned_text_def string_print_field)

lemma signed_text:
  "do { (i, as') \<leftarrow> a; p \<leftarrow> f i; Some (as', string_print ks i p o1) } =
   map_option (\<lambda>(as', t). (as', put_chars t o1)) (do { (i, as') \<leftarrow> a; p \<leftarrow> f i; Some (as', field ks i p) })"
  by (cases a; cases "f (fst (the a))") (auto simp: string_print_field)

lemma char_text:
  "do { (v, as') \<leftarrow> a; Some (as', string_print ks 0 (f v) o1) } =
   map_option (\<lambda>(as', t). (as', put_chars t o1)) (map_option (\<lambda>(v, as'). (as', field ks 0 (f v))) a)"
  by (cases a) (auto simp: string_print_field)

lemma convert_text: "convert ks c as o1 = map_option (\<lambda>(as', t). (as', put_chars t o1)) (conversion ks c as)"
  unfolding convert_def conversion_def print_unsigned_text signed_text char_text
  by (simp add: string_print_field TEMP_SIZE_def split: list.split karg.split)

function rendered :: "string \<Rightarrow> karg list \<Rightarrow> string option" where
  "rendered [] as = Some []"
| "rendered (c # fmt) as =
     (if c \<noteq> CHR ''%'' then map_option ((#) c) (rendered fmt as)
      else Option.bind (parse_spec fmt as)
        (\<lambda>(ks, key, fmt', as'). if key = NUL then Some []
           else Option.bind (conversion ks key as') (\<lambda>(as'', t). map_option ((@) t) (rendered fmt' as''))))"
  by pat_completeness auto

termination
  by (relation "measure (\<lambda>(fmt, _). length fmt)") (auto dest: parse_spec_length)

lemma kvprintf_loop_text: "kvprintf_loop fmt as o1 = map_option (\<lambda>t. put_chars t o1) (rendered fmt as)"
proof (induction fmt as arbitrary: o1 rule: rendered.induct)
  case (2 c fmt as)
  show ?case
  proof (cases "c = CHR ''%''")
    case False
    then show ?thesis using 2 by (simp add: option.map_comp comp_def)
  next
    case True
    show ?thesis
    proof (cases "parse_spec fmt as")
      case (Some x)
      then obtain ks key fmt' as' where x: "parse_spec fmt as = Some (ks, key, fmt', as')" by (cases x) auto
      show ?thesis
      proof (cases "conversion ks key as'")
        case (Some y)
        then obtain as'' t where y: "conversion ks key as' = Some (as'', t)" by (cases y) auto
        show ?thesis using 2(2) [OF _ x refl refl refl _ y refl] True x y
          by (auto simp: convert_text option.map_comp comp_def put_chars_append)
      qed (use True x in \<open>simp add: convert_text\<close>)
    qed (use True in simp)
  qed
qed simp

lemma kvprintf_text: "kvprintf fmt ap = map_option (\<lambda>t. (length t, blocks t)) (rendered fmt ap)"
proof -
  define o1 where "o1 = \<lparr>ko_blocks = [], ko_buffer = [], ko_count = 0\<rparr>"
  have ok: "kout_ok o1" and sp: "spelled o1 = []" by (simp_all add: o1_def kout_ok_def spelled_def)
  have "ko_count (put_chars t o1) = length t \<and> ko_blocks (put_chars t o1) @ [ko_buffer (put_chars t o1)] = blocks t" for t
    using put_chars_ok [OF ok, of t] kout_blocks [of "put_chars t o1"] sp by (simp add: kout_ok_def)
  then show ?thesis unfolding kvprintf_def o1_def [symmetric] by (cases "rendered fmt ap") (auto simp: kvprintf_loop_text)
qed

section \<open>Numbers\<close>

lemma value_of_append: "value_of b n (xs @ ys) = value_of b (value_of b n xs) ys"
  by (induction xs arbitrary: n) auto

text \<open>The tables of digits.\<close>

definition digit_table :: "string \<Rightarrow> bool" where
  "digit_table x2c \<longleftrightarrow> length x2c = 16 \<and> (\<forall>i < 16. digit_value (char_int (x2c ! i)) = Some (int i))"

lemma digit_table_code: "length x2c = 16 \<and> list_all (\<lambda>i. digit_value (char_int (x2c ! i)) = Some (int i)) [0..<16] \<Longrightarrow> digit_table x2c"
  by (auto simp: digit_table_def list_all_iff)

lemma digit_tables: "digit_table x2c_tab" "digit_table X2C_tab"
  by (rule digit_table_code, code_simp)+

lemma int2ascii_digits:
  assumes "digit_table x2c" "2 \<le> base" "base \<le> 16" "u < base ^ room" "0 < room"
  shows "\<exists>q. int2ascii x2c base 0 u room p = Some (q @ p, room - length q) \<and> q \<noteq> [] \<and> length q \<le> room \<and>
    list_all (is_digit (int base)) q \<and> value_of (int base) 0 q = int u \<and> (0 < u \<longrightarrow> hd q \<noteq> x2c ! 0)"
  using assms(4,5)
proof (induction room arbitrary: u p)
  case (Suc room)
  let ?d = "x2c ! (u mod base)"
  have m: "u mod base < 16" using assms(2,3) mod_less_divisor [of base u] by linarith
  then have dv: "digit_value (char_int ?d) = Some (int (u mod base))" using assms(1) by (simp add: digit_table_def)
  have d: "is_digit (int base) ?d" using dv assms(2) by (simp add: is_digit_def)
  show ?case
  proof (cases "u div base = 0")
    case True
    then have u: "u < base" using assms(2) by (auto simp: div_eq_0_iff)
    moreover have "x2c ! u \<noteq> x2c ! 0" if "0 < u"
      using assms(1,3) u that unfolding digit_table_def by (metis less_le_trans option.inject of_nat_eq_iff order_less_trans gr_implies_not0)
    ultimately show ?thesis using d dv True by (intro exI [of _ "[?d]"]) simp
  next
    case False
    have "u div base < base ^ room" using Suc.prems(1) by (simp add: less_mult_imp_div_less mult.commute)
    moreover have "0 < room" using False calculation by (cases room) auto
    ultimately obtain q where q: "int2ascii x2c base 0 (u div base) room (?d # p) = Some (q @ ?d # p, room - length q)" "q \<noteq> []"
      "length q \<le> room" "list_all (is_digit (int base)) q" "value_of (int base) 0 q = int (u div base)" "hd q \<noteq> x2c ! 0"
      using Suc.IH [of "u div base" "?d # p"] False by blast
    have "int (u div base) * int base + int (u mod base) = int u" by (metis div_mult_mod_eq of_nat_add of_nat_mult)
    then show ?thesis using q False d dv by (intro exI [of _ "q @ [?d]"]) (auto simp: value_of_append)
  qed
qed simp

text \<open>Without a width, a precision and a prefix the digits are those of the number; 22 places are enough for 64 bits in base 8.\<close>

lemma number_digits:
  assumes "digit_table x2c" "8 \<le> base" "base \<le> 16" "u < 2 ^ 64" "ks_width ks = 0" "ks_max ks = INT_MAX" "\<not> ks_prepend ks"
  obtains q where "number ks x2c base u = Some q" "q \<noteq> []" "list_all (is_digit (int base)) q" "value_of (int base) 0 q = int u" "length q \<le> 22"
proof -
  have "(2 :: nat) ^ 64 \<le> 8 ^ 22" by simp
  also have "\<dots> \<le> base ^ 22" using assms(2) by (rule power_mono) simp
  finally have "u < base ^ 22" using assms(4) by simp
  from int2ascii_digits [OF assms(1) _ assms(3) this, of "[]"] assms(2) obtain q where
    "int2ascii x2c base 0 u 22 [] = Some (q, 22 - length q)" "q \<noteq> []" "list_all (is_digit (int base)) q" "value_of (int base) 0 q = int u" "length q \<le> 22"
    by auto
  then show ?thesis using assms(5-) by (intro that [of q]) (simp_all add: number_def TEMP_SIZE_def)
qed

lemma digits_read_back:
  assumes "q \<noteq> []" "list_all (is_digit b) q" "2 \<le> b" "b \<le> 36" "value_of b 0 q = n"
  shows "strtol (sign_text neg False @ q) b =
      (if int_of neg n < - (2 ^ 31) then (- (2 ^ 31), [], True)
       else if 2 ^ 31 \<le> int_of neg n then (2 ^ 31 - 1, [], True) else (int_of neg n, [], False))"
    "strtoul (sign_text neg False @ q) b = (if 2 ^ 32 \<le> n then (ULONG_MAX, [], True) else (word_of_int (int_of neg n), [], False))"
proof -
  have "numeral_in b [] q []" using assms by (simp add: numeral_in_def deref_def)
  from numeral_read [OF this, of n "sign_text neg False @ q" neg False] assms(5) show
    "strtol (sign_text neg False @ q) b =
      (if int_of neg n < - (2 ^ 31) then (- (2 ^ 31), [], True)
       else if 2 ^ 31 \<le> int_of neg n then (2 ^ 31 - 1, [], True) else (int_of neg n, [], False))"
    "strtoul (sign_text neg False @ q) b = (if 2 ^ 32 \<le> n then (ULONG_MAX, [], True) else (word_of_int (int_of neg n), [], False))"
    by simp_all
qed

lemma spec_of_key:
  assumes "k \<notin> set ''-+ #0*.lhL''" "\<not> isdigit (char_int k)"
  shows "parse_spec [k] as = Some (no_flags, k, [], as)"
  using assms by (simp add: parse_spec_def parse_amount_def parse_precision_def parse_size_def no_flags_def)

lemma kvprintf_key:
  assumes "k \<notin> set ''-+ #0*.lhL''" "\<not> isdigit (char_int k)" "k \<noteq> NUL" "conversion no_flags k as = Some ([], t)" "length t \<le> 80"
  shows "kvprintf [CHR ''%'', k] as = Some (length t, [t])"
  using assms by (simp add: kvprintf_text spec_of_key blocks.simps)

lemma unsigned_key:
  assumes "digit_table x2c" "8 \<le> base" "base \<le> 16"
    and "conversion no_flags k [KInt v] = unsigned_text no_flags x2c base [KInt v]"
    and "k \<in> set ''ouxX''"
  shows "\<exists>t. kvprintf [CHR ''%'', k] [KInt v] = Some (length t, [t]) \<and> strtoul t (int base) = (v, [], False)"
proof -
  have n: "unat v < 2 ^ 32" using unat_bound [of v] by simp
  obtain q where q: "number no_flags x2c base (unat v) = Some q" "q \<noteq> []" "list_all (is_digit (int base)) q" "value_of (int base) 0 q = int (unat v)" "length q \<le> 22"
    using number_digits [OF assms(1-3), of "unat v" no_flags] n by (auto simp: no_flags_def)
  have "conversion no_flags k [KInt v] = Some ([], q)"
    unfolding assms(4) using q(1) by (simp add: unsigned_text_def unsigned_arg_def int_arg_def field_def no_flags_def)
  moreover have "k \<notin> set ''-+ #0*.lhL''" "\<not> isdigit (char_int k)" "k \<noteq> NUL"
    using assms(5) by (auto simp: isdigit_def char_int_def NUL_def)
  ultimately have "kvprintf [CHR ''%'', k] [KInt v] = Some (length q, [q])" using q(5) by (intro kvprintf_key) simp_all
  moreover have "strtoul q (int base) = (v, [], False)"
    using digits_read_back(2) [OF q(2,3) _ _ q(4), of False] assms(2,3) uint_lt2p [of v] by (simp add: sign_text_def int_of_def)
  ultimately show ?thesis by blast
qed

lemma signed_key:
  "\<exists>t. kvprintf ''%d'' [KInt v] = Some (length t, [t]) \<and> strtol t 10 = (sint v, [], False)"
proof -
  have r: "- (2 ^ 31) \<le> sint v" "sint v < 2 ^ 31" using sint_ge [of v] sint_lt [of v] by simp_all
  then have "nat \<bar>sint v\<bar> < 2 ^ 64" by simp
  from number_digits [OF digit_tables(1) _ _ this, of 10 no_flags] obtain q where
    q: "number no_flags x2c_tab 10 (nat \<bar>sint v\<bar>) = Some q" "q \<noteq> []" "list_all (is_digit 10) q" "value_of 10 0 q = \<bar>sint v\<bar>" "length q \<le> 22"
    by (auto simp: no_flags_def)
  let ?t = "sign_text (sint v < 0) False @ q"
  have "conversion no_flags (CHR ''d'') [KInt v] = Some ([], ?t)"
    using q(1) by (simp add: conversion_def signed_arg_def int_arg_def adjust_max_def no_flags_def field_def sign_text_def)
  then have "kvprintf ''%d'' [KInt v] = Some (length ?t, [?t])"
    using q(5) by (intro kvprintf_key) (auto simp: isdigit_def char_int_def NUL_def sign_text_def)
  moreover have "strtol ?t 10 = (sint v, [], False)"
    using digits_read_back(1) [OF q(2,3) _ _ q(4), of "sint v < 0"] r by (auto simp: int_of_def)
  ultimately show ?thesis by blast
qed

section \<open>Properties\<close>

text \<open>C26: printed numbers read back. The text that \<^verbatim>\<open>%d\<close> gives for a 32 bit number is read by \<open>strtol\<close> as this number, to the end and
  without \<open>ERANGE\<close>; those of \<^verbatim>\<open>%u\<close>, \<^verbatim>\<open>%o\<close>, \<^verbatim>\<open>%x\<close> and \<^verbatim>\<open>%X\<close> are read by \<open>strtoul\<close> in their base.\<close>

theorem printed_numbers_read_back:
  "(\<exists>t. kvprintf ''%d'' [KInt v] = Some (length t, [t]) \<and> strtol t 10 = (sint v, [], False)) \<and>
   (\<exists>t. kvprintf ''%u'' [KInt v] = Some (length t, [t]) \<and> strtoul t 10 = (v, [], False)) \<and>
   (\<exists>t. kvprintf ''%o'' [KInt v] = Some (length t, [t]) \<and> strtoul t 8 = (v, [], False)) \<and>
   (\<exists>t. kvprintf ''%x'' [KInt v] = Some (length t, [t]) \<and> strtoul t 16 = (v, [], False)) \<and>
   (\<exists>t. kvprintf ''%X'' [KInt v] = Some (length t, [t]) \<and> strtoul t 16 = (v, [], False))"
proof -
  have a: "adjust_max no_flags c s i l = no_flags" for c s i l by (simp add: adjust_max_def no_flags_def)
  note u = unsigned_key [where v = v]
  show ?thesis
    using signed_key [of v] u [OF digit_tables(1), of 10 "CHR ''u''"] u [OF digit_tables(1), of 8 "CHR ''o''"]
      u [OF digit_tables(1), of 16 "CHR ''x''"] u [OF digit_tables(2), of 16 "CHR ''X''"]
    by (simp add: conversion_def a)
qed

lemma value_of_bound:
  assumes "0 \<le> n" "1 \<le> b" "list_all (is_digit b) q"
  shows "value_of b n q < (n + 1) * b ^ length q"
  using assms
proof (induction b n q rule: value_of.induct)
  case (2 b n c s)
  obtain v where v: "digit_value (char_int c) = Some v" "0 \<le> v" "v < b" using "2.prems"(3) digit_value_range by (auto simp: is_digit_iff)
  have "value_of b (n * b + v) s < (n * b + v + 1) * b ^ length s" using 2 v by simp
  also have "\<dots> \<le> (n + 1) * b * b ^ length s" using v "2.prems" by (intro mult_right_mono) (auto simp: algebra_simps)
  finally show ?case using v by (simp add: algebra_simps)
qed simp

lemma octal_prefix_overflow:
  assumes "2 ^ 63 \<le> u" "u < (2 :: nat) ^ 64" "ks_width ks = 0" "ks_max ks = INT_MAX" "ks_prepend ks"
  shows "number ks x2c_tab 8 u = None"
proof -
  have "u < 8 ^ 22" using assms(2) by simp
  from int2ascii_digits [OF digit_tables(1) _ _ this, of "[]"] obtain q where
    q: "int2ascii x2c_tab 8 0 u 22 [] = Some (q, 22 - length q)" "list_all (is_digit 8) q" "value_of 8 0 q = int u" by auto
  have "(2 :: nat) ^ 63 < 8 ^ length q" using value_of_bound [of 0 8 q] q(2,3) assms(1) by simp
  then have "(2 :: nat) ^ 63 < 2 ^ (3 * length q)" by (simp add: power_mult)
  then have "63 < 3 * length q" by (rule power_less_imp_less_exp [rotated]) simp
  then have "22 - length q < 1" by simp
  then show ?thesis using q(1) assms(3-) by (simp add: number_def TEMP_SIZE_def prepend_temp_def)
qed

text \<open>Conversions that write outside \<open>temp\<close> or print the wrong digits. A precision of an unsigned number is not limited by the size of
  \<open>temp\<close>, and a 64 bit number with its top bit set, in octal with its prefix, needs one byte more than there is; a
  width below the number of digits drops the leading ones, and blanks are put between the sign and the digits.\<close>

theorem kvprintf_defects:
  "kvprintf ''%40.30u'' [KInt 1] = None \<and> kvprintf ''%#llo'' [KLongLong (- 1)] = None \<and>
   kvprintf ''%2d'' [KInt 123] = Some (2, [''23'']) \<and> kvprintf ''%5d'' [KInt (- 5)] = Some (5, [''-   5''])"
proof (intro conjI)
  have "unat (- 1 :: u64) = 2 ^ 64 - 1" by (simp add: unsigned_minus_1_eq_mask mask_eq_exp_minus_1)
  then have "number (no_flags\<lparr>ks_prepend := True, ks_size := LONGLONG_SIZE\<rparr>) x2c_tab 8 (unat (- 1 :: u64)) = None"
    by (intro octal_prefix_overflow) (simp_all add: no_flags_def)
  moreover have "parse_spec ''#llo'' [KLongLong (- 1)] =
      Some (no_flags\<lparr>ks_prepend := True, ks_size := LONGLONG_SIZE\<rparr>, CHR ''o'', [], [KLongLong (- 1)])" by code_simp
  moreover have "adjust_max ks 3 6 11 22 = ks" if "ks_max ks = INT_MAX" for ks using that by (simp add: adjust_max_def)
  ultimately show "kvprintf ''%#llo'' [KLongLong (- 1)] = None"
    by (simp add: kvprintf_text conversion_def unsigned_text_def unsigned_arg_def longlong_arg_def no_flags_def NUL_def)
qed code_simp+

end
