(* ===== verification/KFormat.thy ===== *)
theory KFormat
  imports KPrint
begin

text \<open>
  What the format strings of the kernel mean, stated apart from the code of \<^verbatim>\<open>src/kernel/kprintf.c\<close>: a format is a list of items, plain
  characters and specifiers with the values they print; its text, its format string and its arguments are written down from the items. The
  digits of a number are those of its positional notation. The theorem that \<open>kvprintf\<close> prints the text of the items ties the
  parser, the digit loop, the layout of the fields and the buffer to this meaning.
\<close>

section \<open>Digits\<close>

definition digit_char :: "bool \<Rightarrow> nat \<Rightarrow> char" where
  "digit_char upper d = char_of (if d < 10 then 48 + d else (if upper then 65 else 97) + (d - 10))"

fun digits :: "bool \<Rightarrow> nat \<Rightarrow> nat \<Rightarrow> string" where
  "digits upper b n = (if b < 2 \<or> n < b then [digit_char upper n] else digits upper b (n div b) @ [digit_char upper (n mod b)])"

declare digits.simps [simp del]

definition last_n :: "nat \<Rightarrow> 'a list \<Rightarrow> 'a list" where
  "last_n k xs = drop (length xs - k) xs"

section \<open>Items\<close>

text \<open>The flags and the width, 0 for none.\<close>

record fspec =
  f_left :: bool
  f_plus :: bool
  f_alt :: bool
  f_zero :: bool
  f_width :: nat





















section \<open>Digits in the code\<close>




lemma digits_not_Nil [simp]: "digits upper b n \<noteq> []"
  by (subst digits.simps) simp



lemma last_n_0 [simp]: "last_n 0 xs = []"
  by (simp add: last_n_def)





section \<open>Reading a specifier\<close>












definition ks_of :: "fspec \<Rightarrow> nat option \<Rightarrow> ksize \<Rightarrow> kspec" where
  "ks_of f prec sz = \<lparr>ks_right = \<not> f_left f, ks_sign = f_plus f, ks_prepend = f_alt f, ks_fill = (if f_zero f then CHR ''0'' else CHR '' ''),
     ks_width = int (f_width f), ks_max = (case prec of None \<Rightarrow> INT_MAX | Some n \<Rightarrow> int n), ks_size = sz\<rparr>"








section \<open>The text of an item\<close>

lemma ks_of_sel [simp]:
  "ks_right (ks_of f prec sz) = (\<not> f_left f)" "ks_sign (ks_of f prec sz) = f_plus f" "ks_prepend (ks_of f prec sz) = f_alt f"
  "ks_width (ks_of f prec sz) = int (f_width f)" "ks_size (ks_of f prec sz) = sz" "ks_max (ks_of f None sz) = INT_MAX" "ks_max (ks_of f (Some n) sz) = int n"
  "ks_fill (ks_of f prec sz) = (if f_zero f then CHR ''0'' else CHR '' '')"
  by (simp_all add: ks_of_def)

lemma adjust_none [simp]: "adjust_max (ks_of f None sz) c s i l = ks_of f None sz"
  by (simp add: adjust_max_def)










section \<open>Properties\<close>




end
