(* ===== verification/FatDisk.thy ===== *)
theory FatDisk
  imports Prelude
begin

text \<open>
  The disk of the FAT file system and what is stored on it: \<^verbatim>\<open>src/fat/disk_access.c\<close>, a disk image in a file, and the structures of
  \<^verbatim>\<open>src/fat/fat_data.h\<close> with their layout in bytes. A file is the list of its bytes; an image is shorter than 2 GB, so that
  positions in it are a \<open>long\<close>. Reading and writing inside the file succeeds.
\<close>

unbundle bit_operations_syntax

section \<open>Bytes\<close>

text \<open>Little-endian integers, as the processor stores them.\<close>

fun le_bytes :: "nat \<Rightarrow> nat \<Rightarrow> u8 list" where
  "le_bytes 0 n = []"
| "le_bytes (Suc k) n = of_nat (n mod 256) # le_bytes k (n div 256)"

fun le_nat :: "u8 list \<Rightarrow> nat" where
  "le_nat [] = 0"
| "le_nat (b # bs) = unat b + 256 * le_nat bs"

lemma le_bytes_length [simp]: "length (le_bytes k n) = k"
  by (induction k n rule: le_bytes.induct) auto

lemma le_nat_bytes: "le_nat (le_bytes k n) = n mod 256 ^ k"
proof (induction k n rule: le_bytes.induct)
  case (2 k n)
  have "n mod (256 * 256 ^ k) = n mod 256 + 256 * (n div 256 mod 256 ^ k)" by (simp add: mod_mult2_eq)
  then show ?case using 2 by simp
qed simp

lemma le_nat_bound: "le_nat bs < 256 ^ length bs"
proof (induction bs)
  case (Cons b bs)
  have "unat b < 256" using unat_bound [of b] by simp
  then show ?case using Cons by simp
qed simp

lemma le_bytes_nat: "length bs = k \<Longrightarrow> le_bytes k (le_nat bs) = bs"
proof (induction bs arbitrary: k)
  case (Cons b bs)
  have "unat b < 256" using unat_bound [of b] by simp
  then show ?case using Cons by (cases k) simp_all
qed simp

text \<open>The bytes \<open>n\<close> from position \<open>a\<close> on, and a block written at a position.\<close>

definition bytes_at :: "u8 list \<Rightarrow> nat \<Rightarrow> nat \<Rightarrow> u8 list" where
  "bytes_at xs a n = take n (drop a xs)"

definition splice :: "u8 list \<Rightarrow> nat \<Rightarrow> u8 list \<Rightarrow> u8 list" where
  "splice xs a ys = take a xs @ ys @ drop (a + length ys) xs"

lemma bytes_at_length: "a + n \<le> length xs \<Longrightarrow> length (bytes_at xs a n) = n"
  by (simp add: bytes_at_def)

lemma splice_length: "a + length ys \<le> length xs \<Longrightarrow> length (splice xs a ys) = length xs"
  by (simp add: splice_def)

lemma bytes_at_nth: "i < n \<Longrightarrow> a + n \<le> length xs \<Longrightarrow> bytes_at xs a n ! i = xs ! (a + i)"
  by (simp add: bytes_at_def)

lemma splice_nth:
  "a + length ys \<le> length xs \<Longrightarrow> i < length xs \<Longrightarrow>
   splice xs a ys ! i = (if a \<le> i \<and> i < a + length ys then ys ! (i - a) else xs ! i)"
  by (auto simp: splice_def nth_append)

lemma bytes_at_splice_same: "a + length ys \<le> length xs \<Longrightarrow> n = length ys \<Longrightarrow> bytes_at (splice xs a ys) a n = ys"
  by (simp add: bytes_at_def splice_def)

lemma bytes_at_splice_apart:
  assumes "a + length ys \<le> length xs" "b + n \<le> length xs" "b + n \<le> a \<or> a + length ys \<le> b"
  shows "bytes_at (splice xs a ys) b n = bytes_at xs b n"
  by (rule nth_equalityI)
    (use assms in \<open>auto simp: bytes_at_length splice_length bytes_at_nth splice_nth\<close>)

lemma bytes_at_splice_inside:
  assumes "a + length ys \<le> length xs" "a \<le> b" "b + n \<le> a + length ys"
  shows "bytes_at (splice xs a ys) b n = bytes_at ys (b - a) n"
  by (rule nth_equalityI)
    (use assms in \<open>auto simp: bytes_at_length splice_length bytes_at_nth splice_nth\<close>)

lemma bytes_at_bytes_at: "i + k \<le> n \<Longrightarrow> bytes_at (bytes_at xs a n) i k = bytes_at xs (a + i) k"
  by (simp add: bytes_at_def drop_take min_def add.commute)

lemma bytes_at_append:
  "b = a + n \<Longrightarrow> bytes_at xs a n @ bytes_at xs b m = bytes_at xs a (n + m)"
  "b = a + n \<Longrightarrow> bytes_at xs a n @ bytes_at xs b m @ zs = bytes_at xs a (n + m) @ zs"
  by (simp_all add: bytes_at_def take_add drop_drop add.commute [of a])

lemma bytes_at_splice_covers:
  assumes "b + length ys \<le> n" "a + n \<le> length xs"
  shows "bytes_at (splice xs (a + b) ys) a n = splice (bytes_at xs a n) b ys"
  by (rule nth_equalityI)
    (use assms in \<open>auto simp: bytes_at_length splice_length bytes_at_nth splice_nth\<close>)

section \<open>The disk\<close>

record disk =
  d_file :: "u8 list"
  bytes_per_sector :: u16
  num_of_sectors :: u32

definition disk_init :: "u8 list \<Rightarrow> disk" where
  "disk_init f = \<lparr>d_file = f, bytes_per_sector = 512,
     num_of_sectors = (if length f mod 512 \<noteq> 0 then of_nat (length f div 512) + 1 else of_nat (length f div 512))\<rparr>"

definition disk_get_geometry :: "disk \<Rightarrow> u16 \<times> u32" where
  "disk_get_geometry d = (bytes_per_sector d, num_of_sectors d)"

definition bad_range :: "disk \<Rightarrow> u32 \<Rightarrow> u32 \<Rightarrow> bool" where
  "bad_range d sec numsec \<longleftrightarrow> numsec = 0 \<or> sec > num_of_sectors d \<or> numsec > num_of_sectors d \<or> sec + numsec > num_of_sectors d"

text \<open>\<open>None\<close> is the error result.\<close>

definition disk_read :: "disk \<Rightarrow> u32 \<Rightarrow> u32 \<Rightarrow> u8 list option" where
  "disk_read d sec numsec =
     (if bad_range d sec numsec then None
      else (let a = unat sec * unat (bytes_per_sector d); n = unat numsec * unat (bytes_per_sector d)
            in if a + n \<le> length (d_file d) then Some (bytes_at (d_file d) a n) else None))"

text \<open>\<open>fwrite\<close> of the first \<open>numsec\<close> sectors of \<open>buf\<close>; the file grows when it ends inside the last sector.\<close>

definition disk_write :: "disk \<Rightarrow> u32 \<Rightarrow> u32 \<Rightarrow> u8 list \<Rightarrow> disk option" where
  "disk_write d sec numsec buf =
     (if bad_range d sec numsec then None
      else Some (d\<lparr>d_file := splice (d_file d) (unat sec * unat (bytes_per_sector d))
                               (take (unat numsec * unat (bytes_per_sector d)) buf)\<rparr>))"

text \<open>A disk whose file consists of whole sectors.\<close>

definition disk_ok :: "disk \<Rightarrow> bool" where
  "disk_ok d \<longleftrightarrow> bytes_per_sector d \<noteq> 0 \<and> length (d_file d) = unat (num_of_sectors d) * unat (bytes_per_sector d) \<and>
     unat (num_of_sectors d) < 2 ^ 31"

lemma range_ok:
  assumes "disk_ok d" "n \<noteq> 0" "unat s + unat n \<le> unat (num_of_sectors d)"
  shows "\<not> bad_range d s n" "unat s * unat (bytes_per_sector d) + unat n * unat (bytes_per_sector d) \<le> length (d_file d)"
proof -
  have "unat (s + n) = unat s + unat n" by (rule unat_add_small) (use assms in \<open>simp add: disk_ok_def\<close>)
  then show "\<not> bad_range d s n" using assms by (auto simp: bad_range_def word_less_nat_alt)
  show "unat s * unat (bytes_per_sector d) + unat n * unat (bytes_per_sector d) \<le> length (d_file d)"
    using assms by (simp add: disk_ok_def add_mult_distrib [symmetric])
qed

lemma range_bad:
  assumes "disk_ok d" "unat (num_of_sectors d) < unat s + unat n"
  shows "bad_range d s n"
proof (cases "s > num_of_sectors d \<or> n > num_of_sectors d")
  case False
  then have "unat (s + n) = unat s + unat n" 
    by (intro unat_add_small) (use assms in \<open>simp add: disk_ok_def word_less_nat_alt\<close>)
  then show ?thesis using assms by (auto simp: bad_range_def word_less_nat_alt)
qed (auto simp: bad_range_def)

lemma disk_read_ok:
  assumes "disk_ok d" "n \<noteq> 0" "unat s + unat n \<le> unat (num_of_sectors d)"
  shows "disk_read d s n = Some (bytes_at (d_file d) (unat s * unat (bytes_per_sector d)) (unat n * unat (bytes_per_sector d)))"
  using range_ok [OF assms] by (simp add: disk_read_def)

lemma disk_write_ok:
  assumes "disk_ok d" "n \<noteq> 0" "unat s + unat n \<le> unat (num_of_sectors d)" "length buf = unat n * unat (bytes_per_sector d)"
  shows "disk_write d s n buf = Some (d\<lparr>d_file := splice (d_file d) (unat s * unat (bytes_per_sector d)) buf\<rparr>)"
    "disk_ok (d\<lparr>d_file := splice (d_file d) (unat s * unat (bytes_per_sector d)) buf\<rparr>)"
  using range_ok [OF assms(1-3)] assms(1,4) by (simp_all add: disk_write_def disk_ok_def splice_length)

section \<open>Directory entries\<close>

definition DIR_NAMELEN :: nat where "DIR_NAMELEN = 39"

definition DIR_ENTRY_FREE :: u8 where "DIR_ENTRY_FREE = 0xE5"
definition DIR_ENTRY_LAST_FREE :: u8 where "DIR_ENTRY_LAST_FREE = 0"

definition ATTR_READ_ONLY :: u8 where "ATTR_READ_ONLY = 0x01"
definition ATTR_HIDDEN :: u8 where "ATTR_HIDDEN = 0x02"
definition ATTR_SYSTEM :: u8 where "ATTR_SYSTEM = 0x04"
definition ATTR_VOLUME_ID :: u8 where "ATTR_VOLUME_ID = 0x08"
definition ATTR_DIRECTORY :: u8 where "ATTR_DIRECTORY = 0x10"
definition ATTR_LINK :: u8 where "ATTR_LINK = 0x20"

text \<open>The time stamps are kept as the integers that hold their bit fields.\<close>

record dirent =
  DIR_Name :: "u8 list"
  DIR_Attr :: u8
  DIR_FstClus :: u16
  DIR_AccDate :: u16
  DIR_CrtDate :: u16
  DIR_WrtDate :: u16
  DIR_AccTime :: u32
  DIR_CrtTime :: u32
  DIR_WrtTime :: u32
  DIR_FileSize :: u32

definition ENTRY_SIZE :: nat where "ENTRY_SIZE = 64"

definition encode_entry :: "dirent \<Rightarrow> u8 list" where
  "encode_entry e = DIR_Name e @ [DIR_Attr e] @ le_bytes 2 (unat (DIR_FstClus e)) @
     le_bytes 2 (unat (DIR_AccDate e)) @ le_bytes 2 (unat (DIR_CrtDate e)) @ le_bytes 2 (unat (DIR_WrtDate e)) @
     le_bytes 4 (unat (DIR_AccTime e)) @ le_bytes 4 (unat (DIR_CrtTime e)) @ le_bytes 4 (unat (DIR_WrtTime e)) @
     le_bytes 4 (unat (DIR_FileSize e))"

definition decode_entry :: "u8 list \<Rightarrow> dirent" where
  "decode_entry bs = \<lparr>DIR_Name = take 39 bs, DIR_Attr = bs ! 39, DIR_FstClus = of_nat (le_nat (bytes_at bs 40 2)),
     DIR_AccDate = of_nat (le_nat (bytes_at bs 42 2)), DIR_CrtDate = of_nat (le_nat (bytes_at bs 44 2)),
     DIR_WrtDate = of_nat (le_nat (bytes_at bs 46 2)), DIR_AccTime = of_nat (le_nat (bytes_at bs 48 4)),
     DIR_CrtTime = of_nat (le_nat (bytes_at bs 52 4)), DIR_WrtTime = of_nat (le_nat (bytes_at bs 56 4)),
     DIR_FileSize = of_nat (le_nat (bytes_at bs 60 4))\<rparr>"

text \<open>\<open>memset\<close> of an entry to 0.\<close>

definition zero_entry :: dirent where
  "zero_entry = decode_entry (replicate 64 0)"

lemma encode_length: "length (DIR_Name e) = 39 \<Longrightarrow> length (encode_entry e) = 64"
  by (simp add: encode_entry_def)

lemma decode_encode: "length (DIR_Name e) = 39 \<Longrightarrow> decode_entry (encode_entry e) = e"
proof -
  assume n: "length (DIR_Name e) = 39"
  have w: "le_nat (le_bytes 2 (unat (w :: u16))) = unat w" "le_nat (le_bytes 4 (unat (v :: u32))) = unat v" for w v
    using unat_bound [of w] unat_bound [of v] by (simp_all add: le_nat_bytes)
  show ?thesis using n by (simp add: decode_entry_def encode_entry_def bytes_at_def nth_append w)
qed

lemma encode_decode:
  assumes "length bs = 64"
  shows "encode_entry (decode_entry bs) = bs"
proof -
  have w: "le_bytes 2 (unat (of_nat (le_nat (bytes_at bs i 2)) :: u16)) = bytes_at bs i 2" if "i + 2 \<le> 64" for i
    using le_nat_bound [of "bytes_at bs i 2"] that assms by (subst unat_of_nat_small) (simp_all add: bytes_at_length le_bytes_nat)
  have v: "le_bytes 4 (unat (of_nat (le_nat (bytes_at bs i 4)) :: u32)) = bytes_at bs i 4" if "i + 4 \<le> 64" for i
    using le_nat_bound [of "bytes_at bs i 4"] that assms by (subst unat_of_nat_small) (simp_all add: bytes_at_length le_bytes_nat)
  have n: "take 39 bs = bytes_at bs 0 39" "[bs ! 39] = bytes_at bs 39 1"
    using assms by (simp_all add: bytes_at_def take_Suc_conv_app_nth [of 0, simplified] hd_drop_conv_nth)
  have "encode_entry (decode_entry bs) = bytes_at bs 0 64"
    by (simp add: encode_entry_def decode_entry_def w v n bytes_at_append del: unat_of_nat_small One_nat_def)
  then show ?thesis using assms by (simp add: bytes_at_def)
qed

end
