(* ===== verification/FatTable.thy ===== *)
theory FatTable
  imports FatDisk
begin

text \<open>
  A mounted volume and its allocation table: \<^verbatim>\<open>src/fat/fat_internals.c\<close> and the functions of \<^verbatim>\<open>src/fat/fat.c\<close> on chains of
  clusters. A volume contains its disk. \<open>None\<close> is an access outside the table, a division by zero or a loop that does not
  end. The scratch buffer of the volume is filled before every use and is not part of the state; pointers to volumes and
  entries are not \<open>NULL\<close>.
\<close>

section \<open>Volumes\<close>

record param_block =
  OEMName :: "u8 list"
  BytsPerSec :: u16
  SecPerClus :: u8
  NumFATs :: u8
  ResvdSecCnt :: u16
  FATSz16 :: u16
  HiddSec :: u32
  TotSec :: u32
  VolID :: u32
  PBFlags :: u32
  VolLab :: "u8 list"
  FilSysType :: "u8 list"
  RootClus :: u16

record fatvol =
  PB :: param_block
  FAT :: "u16 list option"
  FirstSector :: u32
  FirstDataSector :: u32
  CountOfClusters :: u16
  DataSectors :: u32
  BytesPerCluster :: u16
  FATSize :: u16
  FATEntriesPerSec :: nat
  mounted :: bool
  vctx :: disk
  lastFreeFATEntry :: u16

text \<open>The contents of a table entry.\<close>

definition FAT_EOC :: u16 where "FAT_EOC = 0xFFF8"
definition FAT_BAD :: u16 where "FAT_BAD = 0xFFF7"
definition FAT_UNUSED :: u16 where "FAT_UNUSED = 0"

definition FAT_cluster_isEOC :: "u16 \<Rightarrow> bool" where "FAT_cluster_isEOC c \<longleftrightarrow> c \<ge> FAT_EOC"
definition FAT_cluster_isBAD :: "u16 \<Rightarrow> bool" where "FAT_cluster_isBAD c \<longleftrightarrow> c = FAT_BAD"
definition FAT_cluster_isFREE :: "u16 \<Rightarrow> bool" where "FAT_cluster_isFREE c \<longleftrightarrow> c = FAT_UNUSED"

definition FAT_cluster_isReadable :: "u16 \<Rightarrow> bool" where
  "FAT_cluster_isReadable c \<longleftrightarrow> \<not> (FAT_cluster_isEOC c \<or> FAT_cluster_isBAD c \<or> FAT_cluster_isFREE c)"

section \<open>The table\<close>

definition FAT_get_cluster_from_table :: "fatvol \<Rightarrow> u16 \<Rightarrow> u16 option" where
  "FAT_get_cluster_from_table vol N =
     (case FAT vol of
        None \<Rightarrow> Some (- 1)
      | Some t \<Rightarrow> if N < FATSize vol then arr_get t (unat N) else Some (- 1))"

definition FAT_set_cluster_into_table :: "fatvol \<Rightarrow> u16 \<Rightarrow> u16 \<Rightarrow> (bool \<times> fatvol) option" where
  "FAT_set_cluster_into_table vol N val =
     (case FAT vol of
        None \<Rightarrow> Some (False, vol)
      | Some t \<Rightarrow>
          if N < 2 then Some (False, vol)
          else if N < FATSize vol then map_option (\<lambda>t'. (True, vol\<lparr>FAT := Some t'\<rparr>)) (arr_set t (unat N) val)
          else Some (False, vol))"

definition FAT_set_EOC_into_table :: "fatvol \<Rightarrow> u16 \<Rightarrow> (bool \<times> fatvol) option" where
  "FAT_set_EOC_into_table vol N = FAT_set_cluster_into_table vol N 0xFFFF"

text \<open>The two loops of the search for a free entry; the result 0 stands for none.\<close>

function fat_free_scan :: "u16 list \<Rightarrow> nat \<Rightarrow> nat \<Rightarrow> nat option option" where
  "fat_free_scan t N limit =
     (if N < limit
      then do { w \<leftarrow> arr_get t N; if w = FAT_UNUSED then Some (Some N) else fat_free_scan t (N + 1) limit }
      else Some None)"
  by pat_completeness auto

termination
  by (relation "measure (\<lambda>(t, N, limit). limit - N)") auto

declare fat_free_scan.simps [simp del]

definition FAT_get_free_cluster_from_table :: "fatvol \<Rightarrow> (u16 \<times> fatvol) option" where
  "FAT_get_free_cluster_from_table vol =
     do { t \<leftarrow> FAT vol;
          r \<leftarrow> fat_free_scan t (unat (lastFreeFATEntry vol)) (unat (FATSize vol));
          case r of
            Some N \<Rightarrow> Some (of_nat N, vol\<lparr>lastFreeFATEntry := of_nat N\<rparr>)
          | None \<Rightarrow>
             do { r2 \<leftarrow> fat_free_scan t 2 (unat (lastFreeFATEntry vol) + 1);
                  case r2 of
                    Some N \<Rightarrow> Some (of_nat N, vol\<lparr>lastFreeFATEntry := of_nat N\<rparr>)
                  | None \<Rightarrow> Some (FAT_UNUSED, vol) } }"

section \<open>Chains of clusters\<close>

fun fat_lookup_loop :: "fatvol \<Rightarrow> u16 \<Rightarrow> nat \<Rightarrow> u16 option" where
  "fat_lookup_loop vol cluster 0 = Some cluster"
| "fat_lookup_loop vol cluster (Suc n) =
     do { c \<leftarrow> FAT_get_cluster_from_table vol cluster;
          if \<not> FAT_cluster_isReadable c then Some c else fat_lookup_loop vol c n }"

definition FAT_lookup_FAT_table :: "fatvol \<Rightarrow> dirent \<Rightarrow> u32 \<Rightarrow> u16 option" where
  "FAT_lookup_FAT_table vol entry offset =
     (if BytesPerCluster vol = 0 then None
      else fat_lookup_loop vol (DIR_FstClus entry) (unat offset div unat (BytesPerCluster vol)))"

text \<open>The character \<open>DIR_ENTRY_FREE\<close> as a 16 bit number: it is negative and its sign is extended.\<close>

definition freed_mark :: u16 where "freed_mark = scast DIR_ENTRY_FREE"

partial_function (option) clear_loop :: "fatvol \<Rightarrow> u16 \<Rightarrow> (bool \<times> fatvol) option" where
  "clear_loop vol N =
     (if FAT_cluster_isEOC N then Some (True, vol)
      else do { cluster \<leftarrow> FAT_get_cluster_from_table vol N;
                (ok, vol1) \<leftarrow> FAT_set_cluster_into_table vol N freed_mark;
                if \<not> ok then Some (False, vol1) else clear_loop vol1 cluster })"

declare clear_loop.simps [code]

definition FAT_clear_cluster_chain :: "fatvol \<Rightarrow> dirent \<Rightarrow> (bool \<times> fatvol) option" where
  "FAT_clear_cluster_chain vol entry =
     (let N = DIR_FstClus entry in
      if FAT_cluster_isFREE N \<or> DIR_FileSize entry = 0 \<and> DIR_Attr entry AND ATTR_DIRECTORY = 0 then Some (True, vol)
      else clear_loop vol N)"

partial_function (option) last_loop :: "fatvol \<Rightarrow> u16 \<Rightarrow> u16 \<Rightarrow> u16 option" where
  "last_loop vol cluster content =
     (if FAT_cluster_isEOC content then Some cluster
      else do { c \<leftarrow> FAT_get_cluster_from_table vol content; last_loop vol content c })"

declare last_loop.simps [code]

text \<open>\<open>None\<close> inside is the error result.\<close>

definition FAT_append_cluster_chain :: "fatvol \<Rightarrow> u16 \<Rightarrow> (u16 option \<times> fatvol) option" where
  "FAT_append_cluster_chain vol cluster =
     do { (freecluster, vol1) \<leftarrow> FAT_get_free_cluster_from_table vol;
          if freecluster = 0 then Some (None, vol1)
          else
            do { (ok, cluster, vol2) \<leftarrow>
                   (if cluster \<noteq> 0
                    then do { content \<leftarrow> FAT_get_cluster_from_table vol1 cluster;
                              last \<leftarrow> last_loop vol1 cluster content;
                              (ok, v) \<leftarrow> FAT_set_cluster_into_table vol1 last freecluster;
                              Some (ok, last, v) }
                    else Some (True, cluster, vol1));
                 if \<not> ok then Some (None, vol2)
                 else do { (ok2, vol3) \<leftarrow> FAT_set_EOC_into_table vol2 freecluster;
                           if \<not> ok2 then do { (_, vol4) \<leftarrow> FAT_set_EOC_into_table vol3 cluster; Some (None, vol4) }
                           else Some (Some freecluster, vol3) } } }"

section \<open>Well-formed tables\<close>

text \<open>The entries of the data region have numbers from 2 on; the largest number stays below the marks.\<close>

definition vol_table :: "fatvol \<Rightarrow> u16 list \<Rightarrow> bool" where
  "vol_table vol t \<longleftrightarrow> FAT vol = Some t \<and> unat (FATSize vol) \<le> length t \<and> FATSize vol \<le> 0xFFF0 \<and>
     2 \<le> lastFreeFATEntry vol \<and> lastFreeFATEntry vol < FATSize vol"

definition in_data :: "nat \<Rightarrow> u16 \<Rightarrow> bool" where
  "in_data n c \<longleftrightarrow> 2 \<le> unat c \<and> unat c < n"

fun cluster_chain :: "u16 list \<Rightarrow> nat \<Rightarrow> u16 \<Rightarrow> u16 list \<Rightarrow> bool" where
  "cluster_chain t n c [] \<longleftrightarrow> FAT_cluster_isEOC c"
| "cluster_chain t n c (x # xs) \<longleftrightarrow> x = c \<and> in_data n c \<and> cluster_chain t n (t ! unat c) xs"

lemmas cluster_defs = FAT_cluster_isEOC_def FAT_cluster_isBAD_def FAT_cluster_isFREE_def FAT_cluster_isReadable_def
  FAT_EOC_def FAT_BAD_def FAT_UNUSED_def

lemma in_data_readable:
  assumes "in_data n c" "n \<le> 0xFFF0"
  shows "\<not> FAT_cluster_isEOC c" "FAT_cluster_isReadable c" "c \<noteq> 0"
  using assms by (auto simp: in_data_def cluster_defs word_le_nat_alt word_unat_eq_iff)

lemma chain_det: "cluster_chain t n c xs \<Longrightarrow> cluster_chain t n c ys \<Longrightarrow> n \<le> 0xFFF0 \<Longrightarrow> xs = ys"
proof (induction xs arbitrary: c ys)
  case Nil
  then show ?case using in_data_readable(1) by (cases ys) auto
next
  case (Cons x xs)
  then show ?case using in_data_readable(1) by (cases ys) auto
qed

lemma chain_in_data: "cluster_chain t n c xs \<Longrightarrow> x \<in> set xs \<Longrightarrow> in_data n x"
  by (induction xs arbitrary: c) auto

lemma chain_suffix: "cluster_chain t n c (xs @ y # ys) \<Longrightarrow> cluster_chain t n y (y # ys)"
  by (induction xs arbitrary: c) auto

lemma chain_distinct:
  assumes "cluster_chain t n c xs" "n \<le> 0xFFF0"
  shows "distinct xs"
  using assms(1)
proof (induction xs arbitrary: c)
  case (Cons x xs)
  have "x \<notin> set xs"
  proof
    assume "x \<in> set xs"
    then obtain as bs where xs: "xs = as @ x # bs" by (meson split_list)
    then have "cluster_chain t n c ((x # as) @ x # bs)" using Cons.prems by (simp only: append_Cons)
    then have "cluster_chain t n x (x # bs)" by (rule chain_suffix)
    then show False using chain_det [OF Cons.prems _ assms(2), of "x # bs"] Cons.prems xs by auto
  qed
  then show ?case using Cons by auto
qed simp

lemma chain_next:
  assumes "cluster_chain t n c xs" "x \<in> set xs"
  shows "FAT_cluster_isEOC (t ! unat x) \<or> (in_data n (t ! unat x) \<and> t ! unat x \<in> set xs)"
proof -
  obtain as bs where "xs = as @ x # bs" using assms(2) by (meson split_list)
  then have "cluster_chain t n x (x # bs)" "xs = as @ x # bs" using assms(1) chain_suffix by auto
  then show ?thesis by (cases bs) auto
qed

lemma chain_nonzero: "cluster_chain t n c xs \<Longrightarrow> x \<in> set xs \<Longrightarrow> t ! unat x \<noteq> 0"
  using chain_next by (fastforce simp: in_data_def cluster_defs)

lemma chain_update:
  "cluster_chain t n c xs \<Longrightarrow> x \<notin> set xs \<Longrightarrow> cluster_chain (t[unat x := v]) n c xs"
proof (induction xs arbitrary: c)
  case (Cons y ys)
  then have "unat x \<noteq> unat y" by (auto simp: word_unat_eq_iff)
  then show ?case using Cons by auto
qed simp

lemma cluster_chain_append:
  assumes "cluster_chain t n c xs" "xs \<noteq> []" "y \<notin> set xs" "in_data n y" "n \<le> length t" "n \<le> 0xFFF0"
  shows "cluster_chain (t[unat (last xs) := y, unat y := 0xFFFF]) n c (xs @ [y])"
  using assms(1-3)
proof (induction xs arbitrary: c)
  case (Cons x xs)
  have c: "x = c" "in_data n x" "cluster_chain t n (t ! unat x) xs" using Cons.prems by auto
  have ne: "unat y \<noteq> unat x" using Cons.prems(3) by (auto simp: word_unat_eq_iff)
  have e: "FAT_cluster_isEOC (0xFFFF :: u16)" by (simp add: cluster_defs)
  show ?case
  proof (cases "xs = []")
    case True
    then show ?thesis using c ne assms(4,5) e by (simp add: in_data_def)
  next
    case False
    have "distinct (x # xs)" using chain_distinct [OF Cons.prems(1) assms(6)] .
    then have "unat (last xs) \<noteq> unat x" using last_in_set [OF False] by (metis distinct.simps(2) word_unat_eq_iff)
    moreover have "cluster_chain (t[unat (last xs) := y, unat y := 0xFFFF]) n (t ! unat x) (xs @ [y])"
      using Cons.IH [OF c(3) False] Cons.prems(3) by simp
    ultimately show ?thesis using False c ne by simp
  qed
qed simp

section \<open>The operations on a well-formed table\<close>

definition fsize :: "fatvol \<Rightarrow> nat" where "fsize vol = unat (FATSize vol)"

lemma vol_tableD:
  assumes "vol_table vol t"
  shows "FAT vol = Some t" "fsize vol \<le> length t" "fsize vol \<le> 0xFFF0" "in_data (fsize vol) (lastFreeFATEntry vol)"
  using assms by (auto simp: vol_table_def fsize_def in_data_def word_le_nat_alt word_less_nat_alt)

lemma get_cluster:
  assumes "vol_table vol t"
  shows "FAT_get_cluster_from_table vol N = Some (if unat N < fsize vol then t ! unat N else 0xFFFF)"
  using vol_tableD(1,2) [OF assms] by (auto simp: FAT_get_cluster_from_table_def fsize_def word_less_nat_alt)

lemma set_cluster:
  assumes "vol_table vol t"
  shows "FAT_set_cluster_into_table vol N val =
    Some (if in_data (fsize vol) N then (True, vol\<lparr>FAT := Some (t[unat N := val])\<rparr>) else (False, vol))"
  using vol_tableD(1,2) [OF assms]
  by (auto simp: FAT_set_cluster_into_table_def fsize_def in_data_def word_less_nat_alt)

lemma vol_table_set [simp]: "vol_table vol t \<Longrightarrow> vol_table (vol\<lparr>FAT := Some (t[i := v])\<rparr>) (t[i := v])"
  by (simp add: vol_table_def)

lemma vol_table_upd:
  "vol_table (vol\<lparr>lastFreeFATEntry := y\<rparr>) t \<Longrightarrow> length t' = length t \<Longrightarrow> vol_table (vol\<lparr>FAT := Some t', lastFreeFATEntry := y\<rparr>) t'"
  by (simp add: vol_table_def)

lemma fsize_simps [simp]: "fsize (vol\<lparr>FAT := x\<rparr>) = fsize vol" "fsize (vol\<lparr>lastFreeFATEntry := c\<rparr>) = fsize vol"
  by (simp_all add: fsize_def)

lemma fat_free_scan_ok:
  assumes "limit \<le> length t"
  shows "\<exists>r. fat_free_scan t N limit = Some r \<and>
    (case r of None \<Rightarrow> \<forall>M. N \<le> M \<and> M < limit \<longrightarrow> t ! M \<noteq> 0 | Some M \<Rightarrow> N \<le> M \<and> M < limit \<and> t ! M = 0)"
  using assms
proof (induction t N limit rule: fat_free_scan.induct)
  case (1 t N limit)
  show ?case
  proof (cases "N < limit")
    case True
    show ?thesis
    proof (cases "t ! N = 0")
      case False
      then obtain r where r: "fat_free_scan t (N + 1) limit = Some r"
        "case r of None \<Rightarrow> \<forall>M. N + 1 \<le> M \<and> M < limit \<longrightarrow> t ! M \<noteq> 0 | Some M \<Rightarrow> N + 1 \<le> M \<and> M < limit \<and> t ! M = 0"
        using "1.IH" [OF True, of "t ! N"] "1.prems" True by (auto simp: FAT_UNUSED_def)
      have "t ! M \<noteq> 0" if "r = None" "N \<le> M" "M < limit" for M
        using r(2) that False by (cases "M = N") auto
      then show ?thesis using r True False "1.prems"
        by (subst fat_free_scan.simps) (auto simp: FAT_UNUSED_def split: option.splits)
    qed (use True "1.prems" in \<open>subst fat_free_scan.simps, simp add: FAT_UNUSED_def\<close>)
  qed (subst fat_free_scan.simps, auto)
qed

text \<open>A free cluster is found whenever there is one.\<close>

lemma get_free:
  assumes "vol_table vol t"
  obtains "FAT_get_free_cluster_from_table vol = Some (0, vol)" "\<And>c. in_data (fsize vol) c \<Longrightarrow> t ! unat c \<noteq> 0"
  | c where "FAT_get_free_cluster_from_table vol = Some (c, vol\<lparr>lastFreeFATEntry := c\<rparr>)" "in_data (fsize vol) c" "t ! unat c = 0"
      "vol_table (vol\<lparr>lastFreeFATEntry := c\<rparr>) t"
proof -
  note found_one = that(2) and none = that(1)
  note d = vol_tableD [OF assms]
  let ?l = "unat (lastFreeFATEntry vol)"
  have l: "2 \<le> ?l" "?l < fsize vol" using d(4) by (simp_all add: in_data_def)
  have found: thesis if "M < fsize vol" "2 \<le> M" "t ! M = 0" "FAT_get_free_cluster_from_table vol = Some (of_nat M, vol\<lparr>lastFreeFATEntry := of_nat M\<rparr>)" for M
  proof -
    have u: "unat (of_nat M :: u16) = M" using that(1) d(3) by simp
    moreover have "vol_table (vol\<lparr>lastFreeFATEntry := of_nat M\<rparr>) t"
      using assms u that(1,2) by (simp add: vol_table_def fsize_def word_le_nat_alt word_less_nat_alt)
    ultimately show thesis using that by (intro found_one [of "of_nat M"]) (auto simp: in_data_def)
  qed
  obtain r where r: "fat_free_scan t ?l (fsize vol) = Some r"
    "case r of None \<Rightarrow> \<forall>M. ?l \<le> M \<and> M < fsize vol \<longrightarrow> t ! M \<noteq> 0 | Some M \<Rightarrow> ?l \<le> M \<and> M < fsize vol \<and> t ! M = 0"
    using fat_free_scan_ok [OF d(2)] by blast
  show thesis
  proof (cases r)
    case (Some M)
    then show thesis using r d(1) l found [of M] by (simp add: FAT_get_free_cluster_from_table_def fsize_def)
  next
    case None
    have "?l + 1 \<le> length t" using l d(2) by linarith
    then obtain r2 where r2: "fat_free_scan t 2 (?l + 1) = Some r2"
      "case r2 of None \<Rightarrow> \<forall>M. 2 \<le> M \<and> M < ?l + 1 \<longrightarrow> t ! M \<noteq> 0 | Some M \<Rightarrow> 2 \<le> M \<and> M < ?l + 1 \<and> t ! M = 0"
      using fat_free_scan_ok by blast
    show thesis
    proof (cases r2)
      case (Some M)
      then show thesis using r r2 None d(1) l found [of M] by (simp add: FAT_get_free_cluster_from_table_def fsize_def)
    next
      case N2: None
      have "t ! unat c \<noteq> 0" if "in_data (fsize vol) c" for c
        using r(2) r2(2) None N2 that by (cases "?l \<le> unat c") (auto simp: in_data_def)
      then show thesis using r(1) r2(1) None N2 d(1)
        by (intro none) (simp_all add: FAT_get_free_cluster_from_table_def fsize_def FAT_UNUSED_def)
    qed
  qed
qed

lemma lookup_chain:
  assumes "vol_table vol t" "cluster_chain t (fsize vol) c cs" "k < length cs"
  shows "fat_lookup_loop vol c k = Some (cs ! k)"
  using assms(2,3)
proof (induction k arbitrary: c cs)
  case 0
  then show ?case by (cases cs) auto
next
  case (Suc k)
  obtain x xs where cs: "cs = x # xs" "k < length xs" using Suc.prems by (cases cs) auto
  then obtain y ys where "xs = y # ys" by (cases xs) auto
  then have y: "in_data (fsize vol) (t ! unat c)" using Suc.prems cs by simp
  have u: "unat c < fsize vol" using Suc.prems(1) cs by (simp add: in_data_def)
  show ?case using Suc.IH [of "t ! unat c" xs] Suc.prems cs in_data_readable(2) [OF y vol_tableD(3) [OF assms(1)]]
    by (simp add: get_cluster [OF assms(1)] u)
qed

lemma lookup_end:
  assumes "vol_table vol t" "cluster_chain t (fsize vol) c cs" "cs \<noteq> []"
  shows "\<exists>e. fat_lookup_loop vol c (length cs) = Some e \<and> FAT_cluster_isEOC e"
  using assms(2,3)
proof (induction cs arbitrary: c)
  case (Cons x xs)
  have u: "unat c < fsize vol" using Cons.prems by (simp add: in_data_def)
  show ?case
  proof (cases "xs = []")
    case True
    then have "FAT_cluster_isEOC (t ! unat c)" using Cons.prems by simp
    then show ?thesis using True by (simp add: get_cluster [OF assms(1)] u FAT_cluster_isReadable_def)
  next
    case False
    then have "in_data (fsize vol) (t ! unat c)" using Cons.prems by (cases xs) auto
    then show ?thesis using Cons.IH [of "t ! unat c"] Cons.prems False in_data_readable(2) vol_tableD(3) [OF assms(1)]
      by (simp add: get_cluster [OF assms(1)] u)
  qed
qed simp

lemma last_chain:
  assumes "vol_table vol t" "cluster_chain t (fsize vol) c cs" "cs \<noteq> []"
  shows "last_loop vol c (t ! unat c) = Some (last cs)"
  using assms(2,3)
proof (induction cs arbitrary: c)
  case (Cons x xs)
  show ?case
  proof (cases "xs = []")
    case True
    then show ?thesis using Cons.prems by (subst last_loop.simps) simp
  next
    case False
    then have y: "in_data (fsize vol) (t ! unat c)" using Cons.prems by (cases xs) auto
    then show ?thesis using Cons.IH [of "t ! unat c"] Cons.prems False in_data_readable(1) [OF y vol_tableD(3) [OF assms(1)]]
      by (subst last_loop.simps) (simp add: get_cluster [OF assms(1)] in_data_def)
  qed
qed simp

text \<open>Appending: the chain grows by a cluster that was free, and nothing else of the table changes.\<close>

lemma append_chain:
  assumes "vol_table vol t" "cs = [] \<and> x = 0 \<or> cluster_chain t (fsize vol) (hd cs) cs \<and> x \<in> set cs"
  obtains "FAT_append_cluster_chain vol x = Some (None, vol)" "\<And>c. in_data (fsize vol) c \<Longrightarrow> t ! unat c \<noteq> 0"
  | y t' where "FAT_append_cluster_chain vol x = Some (Some y, vol\<lparr>FAT := Some t', lastFreeFATEntry := y\<rparr>)"
      "in_data (fsize vol) y" "t ! unat y = 0" "y \<notin> set cs" "vol_table (vol\<lparr>FAT := Some t', lastFreeFATEntry := y\<rparr>) t'"
      "cluster_chain t' (fsize vol) (hd (cs @ [y])) (cs @ [y])" "t' = (if cs = [] then t else t[unat (last cs) := y])[unat y := 0xFFFF]"
proof -
  note none = that(1) and one = that(2)
  note d = vol_tableD [OF assms(1)]
  have e: "FAT_cluster_isEOC (0xFFFF :: u16)" by (simp add: cluster_defs)
  show thesis
  proof (rule get_free [OF assms(1)])
    assume "FAT_get_free_cluster_from_table vol = Some (0, vol)" "\<And>c. in_data (fsize vol) c \<Longrightarrow> t ! unat c \<noteq> 0"
    then show thesis by (intro none) (simp_all add: FAT_append_cluster_chain_def)
  next
    fix y assume y: "FAT_get_free_cluster_from_table vol = Some (y, vol\<lparr>lastFreeFATEntry := y\<rparr>)" "in_data (fsize vol) y"
      "t ! unat y = 0" "vol_table (vol\<lparr>lastFreeFATEntry := y\<rparr>) t"
    let ?v = "vol\<lparr>lastFreeFATEntry := y\<rparr>"
    have y0: "y \<noteq> 0" using in_data_readable(3) [OF y(2) d(3)] .
    show thesis
    proof (cases "cs = []")
      case True
      then have "FAT_append_cluster_chain vol x = Some (Some y, vol\<lparr>FAT := Some (t[unat y := 0xFFFF]), lastFreeFATEntry := y\<rparr>)"
        using y y0 assms(2) by (simp add: FAT_append_cluster_chain_def FAT_set_EOC_into_table_def set_cluster [OF y(4)])
      then show thesis using True y d(2) e vol_table_upd [OF y(4)] by (intro one) (auto simp: in_data_def)
    next
      case False
      then have c: "cluster_chain t (fsize vol) (hd cs) cs" "x \<in> set cs" using assms(2) by auto
      obtain as bs where cs: "cs = as @ x # bs" using c(2) by (meson split_list)
      have x: "cluster_chain t (fsize ?v) x (x # bs)" using c(1) chain_suffix unfolding cs by simp
      have ll: "last (x # bs) = last cs" by (simp add: cs)
      let ?l = "last cs"
      have l: "last_loop ?v x (t ! unat x) = Some ?l" using last_chain [OF y(4) x] ll by simp
      have il: "in_data (fsize vol) ?l" using chain_in_data [OF c(1)] False by simp
      have x0: "x \<noteq> 0" "unat x < fsize vol" using in_data_readable(3) [OF chain_in_data [OF c] d(3)] chain_in_data [OF c] by (auto simp: in_data_def)
      have yn: "y \<notin> set cs" using chain_nonzero [OF c(1)] y(3) by auto
      let ?t = "t[unat ?l := y]"
      have "FAT_append_cluster_chain vol x = Some (Some y, vol\<lparr>FAT := Some (?t[unat y := 0xFFFF]), lastFreeFATEntry := y\<rparr>)"
        using y0 x0 il y(2) set_cluster [OF vol_table_set [OF y(4), where i = "unat ?l" and v = y], of y "0xFFFF"]
        by (simp add: FAT_append_cluster_chain_def y(1) get_cluster [OF y(4)] l set_cluster [OF y(4)] FAT_set_EOC_into_table_def)
      then show thesis
        using False y(2,3) yn cluster_chain_append [OF c(1) False yn y(2) d(2,3)] vol_table_upd [OF y(4)]
        by (intro one [of y "?t[unat y := 0xFFFF]"]) auto
    qed
  qed
qed

text \<open>Other chains keep their clusters.\<close>

lemma chain_frame:
  assumes "cluster_chain t n c xs" "set xs \<inter> set cs = {}" "t ! unat y = 0" "t' = (if cs = [] then t else t[unat (last cs) := y])[unat y := v]"
  shows "cluster_chain t' n c xs"
proof -
  have y: "y \<notin> set xs" using chain_nonzero [OF assms(1)] assms(3) by auto
  have "cs \<noteq> [] \<Longrightarrow> last cs \<notin> set xs" using assms(2) by auto
  then show ?thesis using assms(1,4) y by (auto intro!: chain_update)
qed

text \<open>Clearing: every entry of the chain gets the mark; the mark is not \<open>FAT_UNUSED\<close>.\<close>

fun marked :: "u16 list \<Rightarrow> u16 list \<Rightarrow> u16 list" where
  "marked t [] = t"
| "marked t (c # cs) = marked (t[unat c := freed_mark]) cs"

lemma marked_length [simp]: "length (marked t cs) = length t"
  by (induction t cs rule: marked.induct) auto

lemma marked_nth: "unat c < length t \<Longrightarrow> marked t cs ! unat c = (if c \<in> set cs then freed_mark else t ! unat c)"
  by (induction t cs rule: marked.induct) (auto simp: nth_list_update word_unat_eq_iff)

lemma clear_chain:
  assumes "vol_table vol t" "cluster_chain t (fsize vol) c cs"
  shows "clear_loop vol c = Some (True, vol\<lparr>FAT := Some (marked t cs)\<rparr>)" "vol_table (vol\<lparr>FAT := Some (marked t cs)\<rparr>) (marked t cs)"
proof -
  have "clear_loop vol c = Some (True, vol\<lparr>FAT := Some (marked t cs)\<rparr>) \<and> vol_table (vol\<lparr>FAT := Some (marked t cs)\<rparr>) (marked t cs)"
    using assms
  proof (induction cs arbitrary: c vol t)
    case Nil
    then show ?case using vol_tableD(1) [OF Nil.prems(1)] by (subst clear_loop.simps) (auto simp: vol_table_def)
  next
    case (Cons x xs)
    let ?v = "vol\<lparr>FAT := Some (t[unat x := freed_mark])\<rparr>"
    have c: "x = c" "in_data (fsize vol) x" "cluster_chain t (fsize vol) (t ! unat x) xs" using Cons.prems(2) by auto
    have "x \<notin> set xs" using chain_distinct [OF Cons.prems(2) vol_tableD(3) [OF Cons.prems(1)]] by simp
    then have "cluster_chain (t[unat x := freed_mark]) (fsize ?v) (t ! unat x) xs" using chain_update [OF c(3)] by simp
    from Cons.IH [OF vol_table_set [OF Cons.prems(1)] this]
    have ih: "clear_loop ?v (t ! unat x) = Some (True, vol\<lparr>FAT := Some (marked t (x # xs))\<rparr>)"
      "vol_table (vol\<lparr>FAT := Some (marked t (x # xs))\<rparr>) (marked t (x # xs))" by simp_all
    have "\<not> FAT_cluster_isEOC c" using in_data_readable(1) [OF c(2) vol_tableD(3) [OF Cons.prems(1)]] c(1) by simp
    then show ?case using ih c by (subst clear_loop.simps) (simp add: get_cluster [OF Cons.prems(1)] set_cluster [OF Cons.prems(1)] in_data_def)
  qed
  then show "clear_loop vol c = Some (True, vol\<lparr>FAT := Some (marked t cs)\<rparr>)" "vol_table (vol\<lparr>FAT := Some (marked t cs)\<rparr>) (marked t cs)"
    by simp_all
qed

lemma freed_mark_val: "freed_mark = 0xFFE5"
  by (simp add: freed_mark_def DIR_ENTRY_FREE_def)

end
