(* ===== verification/FatNames.thy ===== *)
theory FatNames
  imports FatDisk Ctype
begin

text \<open>
  The names of the FAT file system, \<^verbatim>\<open>src/fat/fat_names.c\<close>. A path is the list of its bytes before the terminator; a name on disk
  is an array of 39 bytes, in upper case and padded with blanks. What \<open>malloc\<close> and \<open>realloc\<close> can serve is the argument \<open>mem\<close>.
\<close>

section \<open>Functions\<close>

definition SEP :: u8 where "SEP = 0x5C"

definition check :: "u8 \<Rightarrow> bool" where
  "check chk \<longleftrightarrow> (let c = sint chk in
     c < 0x20 \<or> c = 0x22 \<or> 0x2A \<le> c \<and> c \<le> 0x2C \<or> c = 0x2F \<or> 0x3A \<le> c \<and> c \<le> 0x3F \<or> 0x5B \<le> c \<and> c \<le> 0x5D \<or> c = 0x7C)"

definition upper :: "u8 \<Rightarrow> u8" where
  "upper c = word_of_int (toupper (sint c))"

fun build_loop :: "u8 list \<Rightarrow> u8 list option" where
  "build_loop [] = Some []"
| "build_loop (c # cs) = (if check c then None else map_option ((#) (upper c)) (build_loop cs))"

definition FAT_build_DIR_name :: "u8 list \<Rightarrow> u8 list option" where
  "FAT_build_DIR_name name =
     (if length name > DIR_NAMELEN then None
      else map_option (\<lambda>out. out @ replicate (DIR_NAMELEN - length name) 0x20) (build_loop name))"

lemma drop_shorter: "xs \<noteq> [] \<Longrightarrow> length xs \<le> n \<Longrightarrow> length (drop (k + 1) xs) < n"
  by (cases xs) auto

text \<open>The loop over a path, with the names found and the number of names there is room for.\<close>

function parse_loop :: "(nat \<Rightarrow> bool) \<Rightarrow> u8 list \<Rightarrow> u8 list list \<Rightarrow> nat \<Rightarrow> u8 list list option" where
  "parse_loop mem path splits split_max =
     (let rest = dropWhile (\<lambda>c. c = SEP) path in
      if rest = [] then Some splits
      else
        (let name = takeWhile (\<lambda>c. c \<noteq> SEP) rest in
         if length name > DIR_NAMELEN then None
         else
           (case FAT_build_DIR_name name of
              None \<Rightarrow> None
            | Some out \<Rightarrow>
               let splits = splits @ [out]; rest = drop (length name + 1) rest in
               if length splits = split_max
               then (if \<not> mem ((split_max + 8) * DIR_NAMELEN) then None else parse_loop mem rest splits (split_max + 8))
               else parse_loop mem rest splits split_max)))"
  by pat_completeness auto

termination
  by (relation "measure (\<lambda>(mem, path, splits, m). length path)") (simp_all only: in_measure case_prod_conv wf_measure, (rule drop_shorter; simp add: length_dropWhile_le)+)

declare parse_loop.simps [simp del]

definition FAT_parse_directory :: "(nat \<Rightarrow> bool) \<Rightarrow> u8 list \<Rightarrow> u8 list list option" where
  "FAT_parse_directory mem directory =
     (if \<not> mem (8 * DIR_NAMELEN) then None else parse_loop mem directory [] 8)"

text \<open>\<open>None\<close>: an empty path, for which the length wraps around.\<close>

fun parse_last :: "u8 list \<Rightarrow> nat \<Rightarrow> nat option" where
  "parse_last directory 0 = None"
| "parse_last directory (Suc n) =
     (if directory ! n = SEP then Some n else if n = 0 then Some 0 else parse_last directory n)"

definition FAT_parse_directory_last :: "u8 list \<Rightarrow> nat option" where
  "FAT_parse_directory_last directory = parse_last directory (length directory)"

fun skip_common :: "u8 list \<Rightarrow> u8 list \<Rightarrow> (u8 list \<times> u8 list) option" where
  "skip_common [] [] = None"
| "skip_common (c # f) (d # r) = (if c = d then skip_common f r else Some (c # f, d # r))"
| "skip_common f r = Some (f, r)"

text \<open>The string at \<open>output\<close> afterwards; \<open>old\<close> is the one before, to which \<open>strcat\<close> appends when there is no step back.\<close>

definition FAT_make_path_relative :: "(nat \<Rightarrow> bool) \<Rightarrow> u8 list \<Rightarrow> u8 list \<Rightarrow> u8 list \<Rightarrow> u8 list option" where
  "FAT_make_path_relative mem filename relto old =
     (case skip_common filename relto of
        None \<Rightarrow> None
      | Some (f, r) \<Rightarrow>
         (case FAT_parse_directory mem r of
            None \<Rightarrow> None
          | Some splits \<Rightarrow> Some (if splits = [] then old @ f else concat (replicate (length splits) [0x2E, 0x2E, SEP]) @ f)))"

definition FAT_check_character :: "u8 \<Rightarrow> bool" where
  "FAT_check_character chk \<longleftrightarrow> \<not> check chk"

section \<open>Names\<close>

definition lower :: "u8 \<Rightarrow> u8" where
  "lower c = word_of_int (tolower (sint c))"

lemma sint_u8: "- 128 \<le> sint (c :: u8) \<and> sint c < 128"
  using sint_ge [of c] sint_lt [of c] by simp

lemma sint_back: "- 128 \<le> i \<Longrightarrow> i < 128 \<Longrightarrow> sint (word_of_int i :: u8) = i"
  by (simp add: signed_of_int signed_take_bit_int_eq_self)

lemma sint_upper: "sint (upper c) = toupper (sint c)" "sint (lower c) = tolower (sint c)"
proof -
  have "- 128 \<le> toupper (sint c) \<and> toupper (sint c) < 128" "- 128 \<le> tolower (sint c) \<and> tolower (sint c) < 128"
    using sint_u8 [of c] by (auto simp: ctype_defs)
  then show "sint (upper c) = toupper (sint c)" "sint (lower c) = tolower (sint c)"
    unfolding upper_def lower_def using sint_back by blast+
qed

lemma upper_upper [simp]: "upper (upper c) = upper c" "upper (lower c) = upper c"
  unfolding upper_def [of "upper c"] upper_def [of "lower c"] sint_upper by (auto simp: upper_def ctype_defs)

lemma check_upper [simp]: "check (upper c) = check c" "check (lower c) = check c"
  using sint_u8 [of c] by (auto simp: check_def sint_upper ctype_defs Let_def)

lemma check_blank [simp]: "\<not> check 0x20" "upper 0x20 = 0x20"
  by (simp_all add: check_def upper_def ctype_defs)

lemma build_loop_eq: "build_loop cs = (if \<exists>c\<in>set cs. check c then None else Some (map upper cs))"
  by (induction cs) auto

lemma build_name:
  "FAT_build_DIR_name name =
    (if length name \<le> 39 \<and> (\<forall>c\<in>set name. \<not> check c) then Some (map upper name @ replicate (39 - length name) 0x20) else None)"
  by (auto simp: FAT_build_DIR_name_def build_loop_eq DIR_NAMELEN_def)

lemma build_name_length: "FAT_build_DIR_name name = Some out \<Longrightarrow> length out = 39"
  by (auto simp: build_name split: if_splits)

text \<open>A name on disk is its own name, and names do not depend on the case.\<close>

lemma build_name_stable: "FAT_build_DIR_name name = Some out \<Longrightarrow> FAT_build_DIR_name out = Some out"
  by (auto simp: build_name split: if_splits)

lemma build_name_case: "FAT_build_DIR_name (map lower name) = FAT_build_DIR_name name"
  by (auto simp: build_name comp_def)

section \<open>Paths\<close>

text \<open>The components of a path: what stands between separators.\<close>

function components :: "u8 list \<Rightarrow> u8 list list" where
  "components path =
     (let rest = dropWhile (\<lambda>c. c = SEP) path in
      if rest = [] then [] else takeWhile (\<lambda>c. c \<noteq> SEP) rest # components (dropWhile (\<lambda>c. c \<noteq> SEP) rest))"
  by pat_completeness auto

termination
proof (relation "measure length", goal_cases)
  case (2 path x)
  then have "length x \<le> length path" "x \<noteq> []" "hd x \<noteq> SEP" using hd_dropWhile [of "\<lambda>c. c = SEP" path] by (simp_all add: length_dropWhile_le)
  then have "length (dropWhile (\<lambda>c. c \<noteq> SEP) x) < length x" by (cases x) (auto simp: length_dropWhile_le le_imp_less_Suc)
  then show ?case using \<open>length x \<le> length path\<close> by simp
qed simp

declare components.simps [simp del]

lemma components_skip: "components (SEP # path) = components path"
  by (subst (1 2) components.simps) simp

lemma drop_name: "dropWhile (\<lambda>c. c \<noteq> SEP) rest = [] \<and> drop (length (takeWhile (\<lambda>c. c \<noteq> SEP) rest) + 1) rest = [] \<or>
  dropWhile (\<lambda>c. c \<noteq> SEP) rest = SEP # drop (length (takeWhile (\<lambda>c. c \<noteq> SEP) rest) + 1) rest"
  by (induction rest) auto

lemma parse_loop_eq:
  assumes "mem = (\<lambda>_. True)"
  shows "parse_loop mem path splits m =
    (if \<forall>c\<in>set (components path). FAT_build_DIR_name c \<noteq> None
     then Some (splits @ map (\<lambda>c. the (FAT_build_DIR_name c)) (components path)) else None)"
  using assms
proof (induction mem path splits m rule: parse_loop.induct)
  case (1 mem path splits m)
  define rest where "rest = dropWhile (\<lambda>c. c = SEP) path"
  define name where "name = takeWhile (\<lambda>c. c \<noteq> SEP) rest"
  show ?case
  proof (cases "rest = []")
    case True
    then have "components path = []" by (subst components.simps) (simp add: rest_def)
    then show ?thesis using True by (subst parse_loop.simps) (simp add: rest_def)
  next
    case False
    have c: "components path = name # components (drop (length name + 1) rest)"
    proof -
      have "components path = name # components (dropWhile (\<lambda>c. c \<noteq> SEP) rest)"
        using False by (subst components.simps) (simp add: rest_def name_def Let_def)
      also have "components (dropWhile (\<lambda>c. c \<noteq> SEP) rest) = components (drop (length name + 1) rest)"
        using drop_name [of rest] unfolding name_def by (metis components_skip)
      finally show ?thesis .
    qed
    show ?thesis
    proof (cases "FAT_build_DIR_name name")
      case None
      then show ?thesis using c False by (subst parse_loop.simps) (simp add: rest_def name_def Let_def)
    next
      case (Some out)
      then have l: "length name \<le> DIR_NAMELEN" by (auto simp: build_name DIR_NAMELEN_def split: if_splits)
      have ih: "parse_loop mem (drop (length name + 1) rest) (splits @ [out]) m' =
          (if \<forall>c\<in>set (components (drop (length name + 1) rest)). FAT_build_DIR_name c \<noteq> None
           then Some ((splits @ [out]) @ map (\<lambda>c. the (FAT_build_DIR_name c)) (components (drop (length name + 1) rest))) else None)"
        if "m' = (if length (splits @ [out]) = m then m + 8 else m)" for m'
        using "1.IH"(1) [OF rest_def False name_def _ Some refl refl] "1.IH"(2) [OF rest_def False name_def _ Some refl refl] that l "1.prems"
        by (cases "length (splits @ [out]) = m") auto
      show ?thesis using Some c False l "1.prems" ih [OF refl]
        by (subst parse_loop.simps) (cases "length (splits @ [out]) = m"; simp add: rest_def [symmetric] name_def [symmetric] Let_def)
    qed
  qed
qed

end
