(* ===== verification/Calendar.thy ===== *)
theory Calendar
  imports Prelude "HOL-Library.Signed_Division"
begin

text \<open>
  The calendar of the C library: \<^verbatim>\<open>src/libs/libc/ansi/convtime.c\<close>, \<^verbatim>\<open>gmtime.c\<close>, \<^verbatim>\<open>localtime.c\<close>, \<^verbatim>\<open>mktime.c\<close>, \<^verbatim>\<open>tzset.c\<close> with
  \<^verbatim>\<open>loc_time.h\<close> and \<^verbatim>\<open>ansidata.c\<close>. \<open>int\<close> and \<open>long\<close> have 32 bits: a value is an integer, and an operation whose exact result does
  not fit returns \<open>None\<close>, as does an array access out of bounds; both are undefined in C. Division and remainder round towards zero
  (\<open>sdiv\<close>, \<open>smod\<close>). The structure \<open>tm\<close> is passed by value; \<open>convtime\<close> returns the address of one static object.
\<close>

section \<open>Data\<close>

definition i32 :: "int \<Rightarrow> int option" where
  "i32 x = (if - 2147483648 \<le> x \<and> x \<le> 2147483647 then Some x else None)"

abbreviation long_max :: int where "long_max \<equiv> 2147483647"

definition YEAR0 :: int where "YEAR0 = 2000"
definition EPOCH_YR :: int where "EPOCH_YR = 2015"
definition EPOCH_SECS :: int where "EPOCH_SECS = 473385600"
definition SECS_HOUR :: int where "SECS_HOUR = 60 * 60"
definition SECS_DAY :: int where "SECS_DAY = 24 * SECS_HOUR"

definition LEAPYEAR :: "int \<Rightarrow> bool" where
  "LEAPYEAR year \<longleftrightarrow> \<not> (year smod 4 \<noteq> 0) \<and> (year smod 100 \<noteq> 0 \<or> \<not> (year smod 400 \<noteq> 0))"

definition YEARSIZE :: "int \<Rightarrow> int" where
  "YEARSIZE year = (if LEAPYEAR year then 366 else 365)"

definition days_per_month :: "bool \<Rightarrow> int list" where
  "days_per_month leap =
     (if leap then [31, 29, 31, 30, 31, 30, 31, 31, 30, 31, 30, 31] else [31, 28, 31, 30, 31, 30, 31, 31, 30, 31, 30, 31])"

record tm =
  tm_sec :: int
  tm_min :: int
  tm_hour :: int
  tm_mday :: int
  tm_mon :: int
  tm_year :: int
  tm_wday :: int
  tm_yday :: int
  tm_isdst :: int

text \<open>The variables of \<^verbatim>\<open>ansidata.c\<close>, the two names of \<open>tzname\<close>, and \<open>errno\<close>.\<close>

record tz_vars =
  timezone :: int
  dst_off :: int
  daylight :: int
  tzname :: "string \<times> string"
  time_errno :: int

definition tzlist :: "(string \<times> string \<times> int \<times> int) list" where
  "tzlist = [(''UTC'', ''BST'', 0, 60), (''CET'', ''CEST'', - 60, 60), (''EET'', ''EEST'', - 120, 60), (''WET'', ''WEST'', 0, 60)]"

text \<open>An element of an array at a signed index.\<close>

definition elem_at :: "'a list \<Rightarrow> int \<Rightarrow> 'a option" where
  "elem_at xs i = (if 0 \<le> i then arr_get xs (nat i) else None)"

definition tzset :: "tz_vars \<Rightarrow> tz_vars option" where
  "tzset g = do {
     (nt, dst, tz, _) \<leftarrow> elem_at tzlist (timezone g);
     let g = g\<lparr>tzname := (nt, dst)\<rparr>;
     let g = g\<lparr>timezone := tz * 60\<rparr>;
     (_, _, _, dstofs) \<leftarrow> elem_at tzlist (timezone g);
     Some (g\<lparr>dst_off := dstofs * 60\<rparr>) }"

section \<open>From seconds to a date\<close>

definition month_offset :: "bool \<Rightarrow> int list" where
  "month_offset leap = (if leap then [0, 3, 4, 0, 2, 5, 0, 3, 6, 1, 4, 6] else [0, 3, 3, 6, 1, 4, 6, 2, 5, 0, 3, 5])"

definition wday :: "int \<Rightarrow> int \<Rightarrow> int \<Rightarrow> int option" where
  "wday year month day = do {
     ofs \<leftarrow> elem_at (month_offset (LEAPYEAR year)) month;
     let year = year - 1;
     Some ((day + ofs + 5 * (year smod 4) + 4 * (year smod 100) + 6 * (year smod 400)) smod 7) }"

text \<open>The two loops of \<open>convtime\<close>: the seconds counted, the number of rounds and the size of the last one.\<close>

function year_loop :: "int \<Rightarrow> int \<Rightarrow> int \<Rightarrow> int \<Rightarrow> (int \<times> int \<times> int) option" where
  "year_loop tmp counter myvar secy =
     (if counter \<le> tmp
      then (let secy = YEARSIZE (YEAR0 + myvar) * SECS_DAY in
            case i32 (counter + secy) of
              None \<Rightarrow> None
            | Some counter' \<Rightarrow> year_loop tmp counter' (myvar + 1) secy)
      else Some (counter, myvar, secy))"
  by pat_completeness auto

termination
  by (relation "measure (\<lambda>(tmp, counter, _, _). nat (tmp + 1 - counter))")
     (auto simp: i32_def YEARSIZE_def SECS_DAY_def SECS_HOUR_def split: if_splits)

function month_loop :: "bool \<Rightarrow> int \<Rightarrow> int \<Rightarrow> int \<Rightarrow> int \<Rightarrow> (int \<times> int \<times> int) option" where
  "month_loop leap tmp counter myvar secy =
     (if counter \<le> tmp
      then (case elem_at (days_per_month leap) myvar of
              None \<Rightarrow> None
            | Some days \<Rightarrow>
               let secy = days * SECS_DAY in
               case i32 (counter + secy) of
                 None \<Rightarrow> None
               | Some counter' \<Rightarrow> month_loop leap tmp counter' (myvar + 1) secy)
      else Some (counter, myvar, secy))"
  by pat_completeness auto

termination
  by (relation "measure (\<lambda>(_, _, _, myvar, _). nat (12 - myvar))")
     (auto simp: elem_at_def arr_get_def days_per_month_def split: if_splits)

declare year_loop.simps [simp del] month_loop.simps [simp del]

definition convtime :: "int \<Rightarrow> tm option" where
  "convtime epoch = do {
     let tmp = epoch;
     let sec = tmp smod 60;
     let min' = (tmp smod SECS_HOUR) sdiv 60;
     let hour = (tmp smod SECS_DAY) sdiv (60 * 60);
     (counter, myvar, secy) \<leftarrow> year_loop tmp 0 0 0;
     let year = (if myvar \<noteq> 0 then myvar - 1 else myvar);
     let counter = (if counter \<noteq> tmp then counter - secy else counter);
     let tmp = tmp - counter;
     let yday = tmp sdiv SECS_DAY;
     (counter, myvar, secy) \<leftarrow> month_loop (LEAPYEAR (YEAR0 + year)) tmp 0 0 secy;
     let (myvar, counter) = (if counter \<noteq> tmp then (myvar - 1, counter - secy) else (myvar, counter));
     let mon = myvar;
     let tmp = tmp - counter;
     let mday = tmp sdiv SECS_DAY + 1;
     wd \<leftarrow> wday (YEAR0 + year) mon mday;
     Some \<lparr>tm_sec = sec, tm_min = min', tm_hour = hour, tm_mday = mday, tm_mon = mon, tm_year = year, tm_wday = wd,
       tm_yday = yday, tm_isdst = - 1\<rparr> }"

text \<open>\<open>Some (None, g)\<close> is the null pointer, returned together with an error number.\<close>

definition gmtime :: "int option \<Rightarrow> tz_vars \<Rightarrow> (tm option \<times> tz_vars) option" where
  "gmtime timer g =
     (case timer of
        None \<Rightarrow> Some (None, g\<lparr>time_errno := errno_val EINVAL\<rparr>)
      | Some t \<Rightarrow> do {
          tmp \<leftarrow> i32 (t + EPOCH_SECS);
          if tmp < 0 then Some (None, g\<lparr>time_errno := errno_val EOVERFLOW\<rparr>)
          else do {
            retval \<leftarrow> convtime tmp;
            Some (Some (retval\<lparr>tm_isdst := 0\<rparr>), g) } })"

definition localtime :: "int option \<Rightarrow> tz_vars \<Rightarrow> (tm option \<times> tz_vars) option" where
  "localtime timer g =
     (case timer of
        None \<Rightarrow> Some (None, g\<lparr>time_errno := errno_val EINVAL\<rparr>)
      | Some t \<Rightarrow> do {
          g \<leftarrow> tzset g;
          tmp \<leftarrow> i32 (t + EPOCH_SECS);
          tmp \<leftarrow> i32 (tmp - timezone g);
          tmp \<leftarrow> (if daylight g \<noteq> 0 then i32 (tmp - dst_off g) else Some tmp);
          if tmp < 0 then Some (None, g\<lparr>time_errno := errno_val EOVERFLOW\<rparr>)
          else do {
            retval \<leftarrow> convtime tmp;
            Some (Some (retval\<lparr>tm_isdst := daylight g\<rparr>), g) } })"

section \<open>From a date to seconds\<close>

definition month_days :: "int \<Rightarrow> int \<Rightarrow> int option" where
  "month_days year mon = do { y \<leftarrow> i32 (YEAR0 + year); elem_at (days_per_month (LEAPYEAR y)) mon }"

lemma month_days_pos: "month_days y m = Some d \<Longrightarrow> 0 < d"
proof -
  assume "month_days y m = Some d"
  then have "\<exists>leap. d \<in> set (days_per_month leap)" by (auto intro!: exI [of _ "LEAPYEAR (YEAR0 + y)"] simp: month_days_def i32_def elem_at_def arr_get_def split: if_splits bind_splits)
  then show "0 < d" by (auto simp: days_per_month_def split: if_splits)
qed

text \<open>The day, year and month after the loop over negative days, and after the loop over days beyond the month.\<close>

function day_down :: "int \<Rightarrow> int \<Rightarrow> int \<Rightarrow> (int \<times> int \<times> int) option" where
  "day_down day year mon =
     (if day < 0
      then (let mon = mon - 1; (year, mon) = (if mon < 0 then (year - 1, 11) else (year, mon)) in
            case month_days year mon of None \<Rightarrow> None | Some days \<Rightarrow> day_down (day + days) year mon)
      else Some (day, year, mon))"
  by pat_completeness auto

termination
  by (relation "measure (\<lambda>(day, _, _). nat (- day))")
     (auto dest: month_days_pos)

function day_up :: "int \<Rightarrow> int \<Rightarrow> int \<Rightarrow> (int \<times> int \<times> int) option" where
  "day_up day year mon =
     (case month_days year mon of
        None \<Rightarrow> None
      | Some days \<Rightarrow>
         if day \<ge> days
         then (let day = day - days; mon = mon + 1; (mon, year) = (if mon = 12 then (0, year + 1) else (mon, year)) in day_up day year mon)
         else Some (day, year, mon))"
  by pat_completeness auto

termination
  by (relation "measure (\<lambda>(day, _, _). nat (day + 1))")
     (auto dest: month_days_pos)

declare day_down.simps [simp del] day_up.simps [simp del]

text \<open>The days of the months before \<open>mon\<close>, counting the rounds left.\<close>

fun yday_loop :: "bool \<Rightarrow> int \<Rightarrow> nat \<Rightarrow> int \<Rightarrow> int option" where
  "yday_loop leap month 0 yday = Some yday"
| "yday_loop leap month (Suc n) yday = do {
     days \<leftarrow> elem_at (days_per_month leap) month;
     yday_loop leap (month + 1) n (yday + days) }"

text \<open>The fields of \<open>copy\<close> after the overflows of seconds, minutes, hours and months are carried over: hour, minute, second, day, year, month.\<close>

definition carry :: "tm \<Rightarrow> (int \<times> int \<times> int \<times> int \<times> int \<times> int) option" where
  "carry copy = do {
     mi \<leftarrow> i32 (tm_min copy + tm_sec copy sdiv 60);
     let sec = tm_sec copy smod 60;
     (sec, mi) \<leftarrow> (if sec < 0 then do { mi \<leftarrow> i32 (mi - 1); Some (sec + 60, mi) } else Some (sec, mi));
     hour \<leftarrow> i32 (tm_hour copy + mi sdiv 60);
     let mi = mi smod 60;
     (mi, hour) \<leftarrow> (if mi < 0 then do { hour \<leftarrow> i32 (hour - 1); Some (mi + 60, hour) } else Some (mi, hour));
     let day = hour sdiv 24;
     let hour = hour smod 24;
     let (hour, day) = (if hour < 0 then (hour + 24, day - 1) else (hour, day));
     year \<leftarrow> i32 (tm_year copy + tm_mon copy sdiv 12);
     let mon = tm_mon copy smod 12;
     (mon, year) \<leftarrow> (if mon < 0 then do { year \<leftarrow> i32 (year - 1); Some (mon + 12, year) } else Some (mon, year));
     mday \<leftarrow> i32 (tm_mday copy - 1);
     day \<leftarrow> i32 (day + mday);
     Some (hour, mi, sec, day, year, mon) }"

text \<open>The days from the epoch to the first of January; \<open>Inl\<close> is the jump to \<open>overflow\<close>.\<close>

definition epoch_days :: "int \<Rightarrow> (unit + int) option" where
  "epoch_days year = do {
     n \<leftarrow> i32 (year - EPOCH_YR);
     if long_max sdiv 365 < n then Some (Inl ())
     else do {
       day \<leftarrow> i32 (n * 365);
       room \<leftarrow> i32 (long_max - day);
       if room < n sdiv 4 + 1 then Some (Inl ())
       else do {
         day \<leftarrow> i32 (day + (n sdiv 4 + of_bool (year smod 4 \<noteq> 0 \<and> year smod 4 < EPOCH_YR smod 4)));
         day \<leftarrow> i32 (day - (n sdiv 100 + of_bool (year smod 100 \<noteq> 0 \<and> year smod 100 < EPOCH_YR smod 100)));
         day \<leftarrow> i32 (day + (n sdiv 400 + of_bool (year smod 400 \<noteq> 0 \<and> year smod 400 < EPOCH_YR smod 400)));
         Some (Inr day) } } }"

text \<open>Time zone and daylight saving time, applied to the seconds: the seconds and the new \<open>tm_isdst\<close>.\<close>

definition adjust :: "tz_vars \<Rightarrow> int \<Rightarrow> int \<Rightarrow> (unit + int \<times> int) option" where
  "adjust g seconds isdst =
     (if timezone g > 0 \<and> long_max - timezone g < seconds \<or> timezone g < 0 \<and> seconds < - timezone g then Some (Inl ())
      else do {
        seconds \<leftarrow> i32 (seconds + timezone g);
        let (dst, isdst) = (if isdst > 0 then (dst_off g, isdst) else if isdst = 0 then (0, isdst)
                            else (if daylight g \<noteq> 0 then dst_off g else 0, daylight g));
        if dst > seconds then Some (Inl ())
        else do { seconds \<leftarrow> i32 (seconds - dst); Some (Inr (seconds, isdst)) } })"

text \<open>The result, the structure behind the pointer, and the variables; a null pointer is \<open>None\<close>.\<close>

definition mktime :: "tm option \<Rightarrow> tz_vars \<Rightarrow> (int \<times> tm option \<times> tz_vars) option" where
  "mktime timeptr g =
     (case timeptr of
        None \<Rightarrow> Some (- 1, timeptr, g)
      | Some t \<Rightarrow>
         if tm_year t < EPOCH_YR - YEAR0 then Some (- 1, timeptr, g)
         else do {
           (hour, mi, sec, day, year, mon) \<leftarrow> carry t;
           (day, year, mon) \<leftarrow> day_down day year mon;
           (day, year, mon) \<leftarrow> day_up day year mon;
           let mday = day + 1;
           g \<leftarrow> tzset g;
           let overflow = Some (- 1, timeptr, g\<lparr>time_errno := errno_val EOVERFLOW\<rparr>);
           tm_year' \<leftarrow> i32 (year + YEAR0);
           ed \<leftarrow> epoch_days tm_year';
           case ed of
             Inl _ \<Rightarrow> overflow
           | Inr day \<Rightarrow> do {
               yday \<leftarrow> yday_loop (LEAPYEAR tm_year') 0 (nat mon) 0;
               let yday = yday + (mday - 1);
               total \<leftarrow> i32 (day + yday);
               if total < 0 then overflow
               else do {
                 let day = total;
                 day4 \<leftarrow> i32 (day + 4);
                 let wd = day4 smod 7;
                 let seconds = (hour * 60 + mi) * 60 + sec;
                 if (long_max - seconds) sdiv SECS_DAY < day then overflow
                 else do {
                   seconds \<leftarrow> i32 (seconds + day * SECS_DAY);
                   ad \<leftarrow> adjust g seconds (tm_isdst t);
                   case ad of
                     Inl _ \<Rightarrow> overflow
                   | Inr (seconds, isdst) \<Rightarrow>
                       Some (seconds, Some \<lparr>tm_sec = sec, tm_min = mi, tm_hour = hour, tm_mday = mday, tm_mon = mon, tm_year = year,
                         tm_wday = wd, tm_yday = yday, tm_isdst = isdst\<rparr>, g) } } } })"

section \<open>The calendar\<close>

text \<open>
  The days from the first of January 2000 to the first of January of the year \<open>2000 + y\<close>; \<open>year_days_step\<close> below determines it.
\<close>

definition year_days :: "int \<Rightarrow> int" where
  "year_days y = 365 * y + (y + 3) div 4 - (y + 99) div 100 + (y + 399) div 400"

definition month_start :: "bool \<Rightarrow> int \<Rightarrow> int" where
  "month_start leap mon = sum_list (take (nat mon) (days_per_month leap))"

definition day_number :: "int \<Rightarrow> int \<Rightarrow> int \<Rightarrow> int" where
  "day_number y mon day = year_days y + month_start (LEAPYEAR (YEAR0 + y)) mon + day"

definition date_secs :: "tm \<Rightarrow> int" where
  "date_secs t = ((day_number (tm_year t + tm_mon t div 12) (tm_mon t mod 12) (tm_mday t - 1) * 24 + tm_hour t) * 60 + tm_min t) * 60 + tm_sec t"

definition month_len :: "int \<Rightarrow> int \<Rightarrow> int" where
  "month_len y mon = days_per_month (LEAPYEAR (YEAR0 + y)) ! nat mon"

text \<open>A date of the calendar, its day of the year and its day of the week included; the first of January 2000 was a Saturday.\<close>

definition calendar_date :: "tm \<Rightarrow> bool" where
  "calendar_date t \<longleftrightarrow>
     tm_sec t \<in> {0..<60} \<and> tm_min t \<in> {0..<60} \<and> tm_hour t \<in> {0..<24} \<and> tm_mon t \<in> {0..<12} \<and>
     1 \<le> tm_mday t \<and> tm_mday t \<le> month_len (tm_year t) (tm_mon t) \<and>
     tm_yday t = month_start (LEAPYEAR (YEAR0 + tm_year t)) (tm_mon t) + tm_mday t - 1 \<and>
     tm_wday t = (day_number (tm_year t) (tm_mon t) (tm_mday t - 1) + 6) mod 7"

lemma smod_0_iff: "(x :: int) smod k = 0 \<longleftrightarrow> k dvd x"
  by (auto simp: smod_int_alt_def sgn_0_0 dvd_eq_mod_eq_0 [symmetric])

lemma sdiv_nonneg: "0 \<le> x \<Longrightarrow> 0 < k \<Longrightarrow> x sdiv k = x div (k :: int)" "0 \<le> x \<Longrightarrow> 0 < k \<Longrightarrow> x smod k = x mod (k :: int)"
  by (auto simp: signed_divide_int_def smod_int_alt_def sgn_if)

lemma LEAPYEAR_iff: "LEAPYEAR (YEAR0 + y) \<longleftrightarrow> 4 dvd y \<and> (\<not> 100 dvd y \<or> 400 dvd y)"
proof -
  have "k dvd 2000 \<Longrightarrow> k dvd 2000 + y \<longleftrightarrow> k dvd y" for k :: int by (simp add: dvd_add_right_iff)
  then show ?thesis by (simp add: LEAPYEAR_def smod_0_iff YEAR0_def)
qed

lemma div_step: "0 < k \<Longrightarrow> (y + 1 + (k - 1)) div k = (y + (k - 1)) div k + of_bool (k dvd (y :: int))"
proof -
  assume k: "0 < k"
  let ?r = "y mod k"
  have y: "y = y div k * k + ?r" "0 \<le> ?r" "?r < k" using k by simp_all
  have *: "(y + c) div k = y div k + (?r + c) div k" for c
    using k div_mult_self3 [of k "y div k" "?r + c"] y(1) by (simp add: add.assoc [symmetric] add.commute)
  show ?thesis
  proof (cases "?r = 0")
    case True
    then show ?thesis using * [of k] * [of "k - 1"] k by (simp add: dvd_eq_mod_eq_0 algebra_simps)
  next
    case False
    then have "(?r + k) div k = 1" "(?r + (k - 1)) div k = 1"
      using y k int_div_pos_eq [of "?r + k" k 1 ?r] int_div_pos_eq [of "?r + (k - 1)" k 1 "?r - 1"] by linarith+
    then show ?thesis using * [of k] * [of "k - 1"] False by (simp add: dvd_eq_mod_eq_0 algebra_simps)
  qed
qed

lemma leap_count:
  "(q \<Longrightarrow> p) \<Longrightarrow> (r \<Longrightarrow> q) \<Longrightarrow> (if p \<and> (\<not> q \<or> r) then 366 else 365) = (365 + of_bool p - of_bool q + of_bool r :: int)"
  by (cases p; cases q; cases r; simp)

lemma year_days_step: "year_days (y + 1) = year_days y + YEARSIZE (YEAR0 + y)" "year_days 0 = 0"
proof -
  have "100 dvd y \<Longrightarrow> 4 dvd y" "400 dvd y \<Longrightarrow> 100 dvd y" using dvd_trans [of 4 100 y] dvd_trans [of 100 400 y] by auto
  then have size: "YEARSIZE (YEAR0 + y) = 365 + of_bool (4 dvd y) - of_bool (100 dvd y) + of_bool (400 dvd y)"
    unfolding YEARSIZE_def LEAPYEAR_iff by (rule leap_count)
  have a: "(y + 1 + 3) div 4 = (y + 3) div 4 + of_bool (4 dvd y)" using div_step [of 4 y] by simp
  have b: "(y + 1 + 99) div 100 = (y + 99) div 100 + of_bool (100 dvd y)" using div_step [of 100 y] by simp
  have c: "(y + 1 + 399) div 400 = (y + 399) div 400 + of_bool (400 dvd y)" using div_step [of 400 y] by simp
  show "year_days (y + 1) = year_days y + YEARSIZE (YEAR0 + y)"
    unfolding year_days_def size a b c by (simp only: distrib_left mult_1_right add_diff_eq diff_add_eq add_ac diff_diff_eq)
  show "year_days 0 = 0" by (simp add: year_days_def)
qed

lemma YEARSIZE_bounds: "365 \<le> YEARSIZE y" "YEARSIZE y \<le> 366"
  by (simp_all add: YEARSIZE_def)

lemma year_days_mono: "a \<le> b \<Longrightarrow> year_days a + 365 * (b - a) \<le> year_days b"
proof (induction "nat (b - a)" arbitrary: b)
  case (Suc n)
  then have "n = nat (b - 1 - a)" "a \<le> b - 1" by linarith+
  then have "year_days a + 365 * (b - 1 - a) \<le> year_days (b - 1)" by (rule Suc.hyps(1))
  then show ?case using year_days_step(1) [of "b - 1"] YEARSIZE_bounds(1) [of "YEAR0 + (b - 1)"] by simp
qed simp

lemma year_days_less: "year_days a < year_days b \<longleftrightarrow> a < b"
  using year_days_mono [of a b] year_days_mono [of b a] by (cases "a < b") auto

lemma year_days_at: "year_days 15 = 5479" "year_days 68 = 24837"
  by (simp_all add: year_days_def)

lemma month_facts:
  assumes "0 \<le> mon" "mon < 12"
  shows "elem_at (days_per_month leap) mon = Some (days_per_month leap ! nat mon)"
    "28 \<le> days_per_month leap ! nat mon" "days_per_month leap ! nat mon \<le> 31"
    "month_start leap (mon + 1) = month_start leap mon + days_per_month leap ! nat mon"
proof -
  have l: "nat mon < length (days_per_month leap)" using assms by (simp add: days_per_month_def)
  then show "elem_at (days_per_month leap) mon = Some (days_per_month leap ! nat mon)" using assms by (simp add: elem_at_def)
  have "\<forall>x\<in>set (days_per_month leap). 28 \<le> x \<and> x \<le> 31" by (simp add: days_per_month_def)
  then show "28 \<le> days_per_month leap ! nat mon" "days_per_month leap ! nat mon \<le> 31" using l by auto
  show "month_start leap (mon + 1) = month_start leap mon + days_per_month leap ! nat mon"
    using l assms by (simp add: month_start_def nat_add_distrib take_Suc_conv_app_nth)
qed

lemma month_start_ends: "month_start leap 0 = 0" "month_start (LEAPYEAR y) 12 = YEARSIZE y"
  by (simp_all add: month_start_def days_per_month_def YEARSIZE_def)

lemma month_days_ok:
  assumes "0 \<le> mon" "mon < 12" "- 2147485648 \<le> y" "y \<le> 2147481647"
  shows "month_days y mon = Some (month_len y mon)"
  using assms month_facts(1) [of mon "LEAPYEAR (YEAR0 + y)"] by (simp add: month_days_def i32_def YEAR0_def month_len_def)

lemma month_len_bounds: "0 \<le> mon \<Longrightarrow> mon < 12 \<Longrightarrow> 28 \<le> month_len y mon \<and> month_len y mon \<le> 31"
  by (simp add: month_len_def month_facts)

text \<open>The next month, and the month before.\<close>

lemma day_number_next:
  fixes mon y day :: int
  assumes "0 \<le> mon" "mon < 12"
  shows "(case (if mon + 1 = 12 then (0, y + 1) else (mon + 1, y)) of (m, y') \<Rightarrow> day_number y' m day) = day_number y mon (day + month_len y mon)"
  using assms month_facts(4) [of mon "LEAPYEAR (YEAR0 + y)"] month_start_ends(1) month_start_ends(2) [of "YEAR0 + y"] year_days_step(1) [of y]
  by (auto simp: day_number_def month_len_def)

lemma day_number_prev:
  assumes "0 \<le> mon" "mon < 12"
  shows "(case (if mon - 1 < 0 then (y - 1, 11) else (y, mon - 1)) of (y', m) \<Rightarrow> day_number y' m (day + month_len y' m)) = day_number y mon day"
proof (cases "mon = 0")
  case True
  then show ?thesis using day_number_next [where mon = 11 and y = "y - 1" and day = day] by simp
next
  case False
  then show ?thesis using assms day_number_next [where mon = "mon - 1" and y = y and day = day] by auto
qed

section \<open>The conversion to a date\<close>

lemma wday_ok:
  assumes "0 \<le> y" "0 \<le> mon" "mon < 12" "0 \<le> day"
  shows "wday (YEAR0 + y) mon (day + 1) = Some ((day_number y mon day + 6) mod 7)"
proof -
  let ?L = "LEAPYEAR (YEAR0 + y)"
  define a b c where "a = (y + 3) div 4" and "b = (y + 99) div 100" and "c = (y + 399) div 400"
  have len: "nat mon < 12" using assms by simp
  have ofs: "elem_at (month_offset l) mon = Some (month_offset l ! nat mon)" for l
    using assms(2) len by (simp add: elem_at_def arr_get_def month_offset_def)
  have "\<forall>l. \<forall>m<12. (month_offset l ! m) mod 7 = sum_list (take m (days_per_month l)) mod 7 \<and> 0 \<le> month_offset l ! m"
    by (simp add: numeral_eq_Suc All_less_Suc month_offset_def days_per_month_def)
  then have m: "(month_offset ?L ! nat mon) mod 7 = month_start ?L mon mod 7" "0 \<le> month_offset ?L ! nat mon"
    using len by (simp_all add: month_start_def)
  have "(y + 3 + 4 * 499) mod 4 = (y + 3) mod 4" "(y + 99 + 100 * 19) mod 100 = (y + 99) mod 100" "(y + 399 + 400 * 4) mod 400 = (y + 399) mod 400"
    by (rule mod_mult_self2)+
  moreover have "y + 3 + 4 * 499 = 1999 + y" "y + 99 + 100 * 19 = 1999 + y" "y + 399 + 400 * 4 = 1999 + y" by simp_all
  ultimately have y: "(1999 + y) mod 4 = y + 3 - 4 * a" "(1999 + y) mod 100 = y + 99 - 100 * b" "(1999 + y) mod 400 = y + 399 - 400 * c"
    unfolding a_def b_def c_def by (simp_all only: minus_mult_div_eq_mod)
  let ?e = "day + 1 + month_offset ?L ! nat mon + 5 * ((1999 + y) mod 4) + 4 * ((1999 + y) mod 100) + 6 * ((1999 + y) mod 400)"
  have "0 \<le> ?e" using assms(4) m(2) by simp
  moreover have "?e = month_offset ?L ! nat mon + (365 * y + a - b + c + day + 6) + 7 * (400 - 50 * y - 3 * a - 57 * b - 343 * c)"
    unfolding y by simp
  then have "?e mod 7 = (month_offset ?L ! nat mon + (365 * y + a - b + c + day + 6)) mod 7"
    by (simp only: mod_mult_self2)
  then have "?e mod 7 = (month_start ?L mon + (365 * y + a - b + c + day + 6)) mod 7"
    by (simp only: mod_add_cong [OF m(1) refl])
  moreover have "month_start ?L mon + (365 * y + a - b + c + day + 6) = day_number y mon day + 6"
    unfolding day_number_def year_days_def a_def b_def c_def by linarith
  moreover have "(1999 + y) smod 4 = (1999 + y) mod 4" "(1999 + y) smod 100 = (1999 + y) mod 100" "(1999 + y) smod 400 = (1999 + y) mod 400"
    using assms(1) by (simp_all add: sdiv_nonneg)
  moreover have "YEAR0 + y - 1 = 1999 + y" by (simp add: YEAR0_def)
  ultimately show ?thesis unfolding wday_def ofs by (simp only: Let_def bind.bind_lunit sdiv_nonneg(2) zero_less_numeral)
qed

lemma month_start_nonneg: "0 \<le> month_start leap mon"
  unfolding month_start_def by (rule sum_list_nonneg) (auto simp: days_per_month_def dest!: in_set_takeD split: if_splits)

lemma year_loop_ok:
  assumes "counter = year_days n * SECS_DAY" "0 \<le> n" "0 \<le> tmp" "tmp < year_days 68 * SECS_DAY"
    "counter \<le> tmp \<or> 0 < n \<and> year_days (n - 1) * SECS_DAY \<le> tmp \<and> secy = YEARSIZE (YEAR0 + (n - 1)) * SECS_DAY"
  shows "\<exists>k. 0 \<le> k \<and> k < 68 \<and> year_days k * SECS_DAY \<le> tmp \<and> tmp < year_days (k + 1) * SECS_DAY \<and>
    year_loop tmp counter n secy = Some (year_days (k + 1) * SECS_DAY, k + 1, YEARSIZE (YEAR0 + k) * SECS_DAY)"
  using assms
proof (induction tmp counter n secy rule: year_loop.induct)
  case (1 tmp counter n secy)
  have pos: "0 < SECS_DAY" by (simp add: SECS_DAY_def SECS_HOUR_def)
  show ?case
  proof (cases "counter \<le> tmp")
    case True
    then have "year_days n < year_days 68" using 1(2,5) pos by (smt (verit) mult_less_cancel_right)
    then have n: "n < 68" by (simp only: year_days_less)
    let ?secy = "YEARSIZE (YEAR0 + n) * SECS_DAY"
    have next': "counter + ?secy = year_days (n + 1) * SECS_DAY" using 1(2) by (simp add: year_days_step(1) distrib_right)
    have "year_days (n + 1) \<le> 24837" using n year_days_mono [of "n + 1" 68] by (simp add: year_days_at)
    moreover have "0 \<le> year_days n" using 1(3) year_days_mono [of 0 n] by (simp add: year_days_step(2))
    ultimately have "i32 (counter + ?secy) = Some (counter + ?secy)"
      unfolding next' using year_days_step(1) [of n] YEARSIZE_bounds(1) [of "YEAR0 + n"] by (simp add: i32_def SECS_DAY_def SECS_HOUR_def)
    moreover note 1(1) [OF True refl calculation] and True
    ultimately show ?thesis using 1(2-5) next' by (subst year_loop.simps) (simp add: Let_def)
  next
    case False
    then have p: "0 < n" "year_days (n - 1) * SECS_DAY \<le> tmp" "secy = YEARSIZE (YEAR0 + (n - 1)) * SECS_DAY" using 1(6) by auto
    have "year_days (n - 1) < year_days 68" using p(2) 1(5) pos by (smt (verit) mult_less_cancel_right)
    then have "n - 1 < 68" by (simp only: year_days_less)
    then show ?thesis using p False 1(2) by (subst year_loop.simps) (intro exI [of _ "n - 1"], simp)
  qed
qed

lemma month_loop_ok:
  assumes "counter = month_start leap n * SECS_DAY" "0 \<le> n" "n \<le> 12" "0 \<le> tmp" "tmp < month_start leap 12 * SECS_DAY"
    "counter \<le> tmp \<or> 0 < n \<and> month_start leap (n - 1) * SECS_DAY \<le> tmp \<and> secy = days_per_month leap ! nat (n - 1) * SECS_DAY"
  shows "\<exists>k. 0 \<le> k \<and> k < 12 \<and> month_start leap k * SECS_DAY \<le> tmp \<and> tmp < month_start leap (k + 1) * SECS_DAY \<and>
    month_loop leap tmp counter n secy = Some (month_start leap (k + 1) * SECS_DAY, k + 1, days_per_month leap ! nat k * SECS_DAY)"
  using assms
proof (induction leap tmp counter n secy rule: month_loop.induct)
  case (1 leap tmp counter n secy)
  show ?case
  proof (cases "counter \<le> tmp")
    case True
    then have "n \<noteq> 12" using 1(2,6) by auto
    then have n: "0 \<le> n" "n < 12" using 1(3,4) by simp_all
    let ?secy = "days_per_month leap ! nat n * SECS_DAY"
    have next': "counter + ?secy = month_start leap (n + 1) * SECS_DAY" using 1(2) by (simp add: month_facts(4) n distrib_right)
    have "tmp < 366 * SECS_DAY" using 1(6) by (simp add: month_start_def days_per_month_def SECS_DAY_def SECS_HOUR_def split: if_splits)
    then have "i32 (counter + ?secy) = Some (counter + ?secy)"
      using True 1(2) month_facts(2,3) [OF n, of leap] month_start_nonneg [of leap n] by (simp add: i32_def SECS_DAY_def SECS_HOUR_def)
    moreover note 1(1) [OF True month_facts(1) [OF n] refl calculation] and True
    ultimately show ?thesis using 1(2-6) n next' by (subst month_loop.simps) (simp add: Let_def month_facts(1))
  next
    case False
    then show ?thesis using 1(2-7) by (subst month_loop.simps) (intro exI [of _ "n - 1"], simp)
  qed
qed

text \<open>Seconds of a day, and the day.\<close>

lemma int_div_less: "0 < k \<Longrightarrow> x < c * k \<Longrightarrow> x div k < (c :: int)"
  using mult_right_mono [of c "x div k" k] div_mult_mod_eq [of x k] pos_mod_sign [of k x] by linarith

lemma clock_digits: "t = a * 86400 + b \<Longrightarrow> b = c * 3600 + d \<Longrightarrow> d = e * 60 + f \<Longrightarrow> t = ((a * 24 + c) * 60 + e) * 60 + (f :: int)"
  by simp

lemma day_split:
  assumes "0 \<le> (t :: int)"
  shows "t = ((t div SECS_DAY * 24 + t mod SECS_DAY div (60 * 60)) * 60 + t mod SECS_HOUR div 60) * 60 + t mod 60"
    "t mod SECS_DAY div (60 * 60) \<in> {0..<24}" "t mod SECS_HOUR div 60 \<in> {0..<60}" "t mod 60 \<in> {0..<60}"
proof -
  have c: "SECS_DAY = 86400" "SECS_HOUR = 3600" "60 * 60 = (3600 :: int)" by (simp_all add: SECS_DAY_def SECS_HOUR_def)
  have "t mod 86400 mod 3600 = t mod 3600" "t mod 3600 mod 60 = t mod 60" by (simp_all add: mod_mod_cancel)
  then have "t mod 86400 = t mod 86400 div 3600 * 3600 + t mod 3600" "t mod 3600 = t mod 3600 div 60 * 60 + t mod 60"
    using div_mult_mod_eq [of "t mod 86400" 3600] div_mult_mod_eq [of "t mod 3600" 60] by argo+
  with div_mult_mod_eq [of t 86400, symmetric]
  show "t = ((t div SECS_DAY * 24 + t mod SECS_DAY div (60 * 60)) * 60 + t mod SECS_HOUR div 60) * 60 + t mod 60"
    unfolding c by (rule clock_digits)
  show "t mod SECS_DAY div (60 * 60) \<in> {0..<24}" "t mod SECS_HOUR div 60 \<in> {0..<60}" "t mod 60 \<in> {0..<60}"
    unfolding c by (simp_all add: div_int_pos_iff int_div_less)
qed

lemma convtime_ok:
  assumes "0 \<le> t" "t < year_days 68 * SECS_DAY"
  shows "\<exists>m. convtime t = Some m \<and> calendar_date m \<and> date_secs m = t \<and> 0 \<le> tm_year m \<and> tm_isdst m = - 1"
proof -
  have pos: "0 < SECS_DAY" by (simp add: SECS_DAY_def SECS_HOUR_def)
  obtain y where y: "0 \<le> y" "year_days y * SECS_DAY \<le> t" "t < year_days (y + 1) * SECS_DAY"
    and yl: "year_loop t 0 0 0 = Some (year_days (y + 1) * SECS_DAY, y + 1, YEARSIZE (YEAR0 + y) * SECS_DAY)"
    using year_loop_ok [of 0 0 t 0] assms by (auto simp: year_days_step(2))
  define L where "L = LEAPYEAR (YEAR0 + y)"
  define r where "r = t - year_days y * SECS_DAY"
  have cnt: "year_days (y + 1) * SECS_DAY - YEARSIZE (YEAR0 + y) * SECS_DAY = year_days y * SECS_DAY"
    by (simp add: year_days_step(1) distrib_right)
  have r: "0 \<le> r" "r < month_start L 12 * SECS_DAY"
    using y(2,3) by (simp_all add: r_def L_def month_start_ends year_days_step(1) distrib_right)
  obtain m where m: "0 \<le> m" "m < 12" "month_start L m * SECS_DAY \<le> r" "r < month_start L (m + 1) * SECS_DAY"
    and ml: "month_loop L r 0 0 (YEARSIZE (YEAR0 + y) * SECS_DAY) =
      Some (month_start L (m + 1) * SECS_DAY, m + 1, days_per_month L ! nat m * SECS_DAY)"
    using month_loop_ok [of 0 L 0 r "YEARSIZE (YEAR0 + y) * SECS_DAY"] r by (auto simp: month_start_ends)
  define d where "d = (r - month_start L m * SECS_DAY) div SECS_DAY"
  have sp: "r - month_start L m * SECS_DAY = d * SECS_DAY + t mod SECS_DAY"
  proof -
    have "(r - month_start L m * SECS_DAY) mod SECS_DAY = t mod SECS_DAY" by (simp add: r_def mod_diff_eq [symmetric])
    then show ?thesis using div_mult_mod_eq [of "r - month_start L m * SECS_DAY" SECS_DAY] by (simp add: d_def)
  qed
  have "0 \<le> d" using m(3) pos by (simp add: d_def div_int_pos_iff)
  have "d < month_len y m"
    using m(4) month_facts(4) [OF m(1,2), of L] by (simp add: d_def month_len_def L_def distrib_right int_div_less pos)
  have dn: "t div SECS_DAY = day_number y m d"
  proof -
    have "t div SECS_DAY * SECS_DAY = day_number y m d * SECS_DAY"
      using sp div_mult_mod_eq [of t SECS_DAY] unfolding r_def day_number_def L_def distrib_right by linarith
    then show ?thesis using pos by simp
  qed
  define m' where "m' = \<lparr>tm_sec = t mod 60, tm_min = t mod SECS_HOUR div 60, tm_hour = t mod SECS_DAY div (60 * 60), tm_mday = d + 1,
    tm_mon = m, tm_year = y, tm_wday = (day_number y m d + 6) mod 7, tm_yday = r div SECS_DAY, tm_isdst = - 1\<rparr>"
  have "convtime t = Some m'"
    using y(1,3) m(4) assms(1) r(1) m(3) pos wday_ok [OF y(1) m(1,2) \<open>0 \<le> d\<close>] month_facts(4) [OF m(1,2), of L]
    by (simp add: convtime_def yl cnt r_def [symmetric] L_def [symmetric] ml m'_def sdiv_nonneg d_def SECS_HOUR_def distrib_right)
  moreover have "r div SECS_DAY = month_start L m + d"
  proof (rule int_div_pos_eq)
    show "r = SECS_DAY * (month_start L m + d) + t mod SECS_DAY" using sp unfolding distrib_left by (simp add: mult.commute)
  qed (use pos in simp_all)
  then have "calendar_date m'"
    using day_split(2-4) [OF assms(1)] m(1,2) \<open>0 \<le> d\<close> \<open>d < month_len y m\<close> by (simp add: calendar_date_def m'_def L_def)
  moreover have "date_secs m' = t"
    using day_split(1) [OF assms(1)] m(1,2) by (simp add: date_secs_def m'_def dn [symmetric])
  ultimately show ?thesis using y(1) by (auto simp: m'_def)
qed

section \<open>The conversion of a date\<close>

lemma trunc_floor:
  assumes "0 < (k :: int)"
  shows "x smod k < 0 \<Longrightarrow> x smod k + k = x mod k \<and> x sdiv k - 1 = x div k" "\<not> x smod k < 0 \<Longrightarrow> x smod k = x mod k \<and> x sdiv k = x div k"
proof -
  have "0 \<le> \<bar>x\<bar> mod k" "\<bar>x\<bar> mod k < k" using assms by simp_all
  then have b: "- k < x smod k" "x smod k < k" unfolding smod_int_alt_def sgn_if abs_of_pos [OF assms] by (auto; linarith)+
  have e: "x = k * (x sdiv k) + x smod k" by (rule mult_sdiv_smod_eq [symmetric])
  show "x smod k + k = x mod k \<and> x sdiv k - 1 = x div k" if "x smod k < 0"
  proof
    have *: "x = k * (x sdiv k - 1) + (x smod k + k)" using e unfolding right_diff_distrib by linarith
    show "x smod k + k = x mod k" using that b(1) by (intro int_mod_pos_eq [OF *, symmetric]) linarith+
    show "x sdiv k - 1 = x div k" using that b(1) by (intro int_div_pos_eq [OF *, symmetric]) linarith+
  qed
  show "x smod k = x mod k \<and> x sdiv k = x div k" if "\<not> x smod k < 0"
    using that b(2) int_div_pos_eq [OF e] int_mod_pos_eq [OF e] by simp
qed

definition small :: "int \<Rightarrow> bool" where
  "small x \<longleftrightarrow> - 1073741824 \<le> x \<and> x \<le> 1073741824"

lemma carry_step:
  assumes "0 < k" "- 2147483648 \<le> b + x div k" "b + x div k \<le> 2147483646"
  shows "do { h \<leftarrow> i32 (b + x sdiv k);
    (l, h) \<leftarrow> (if x smod k < 0 then do { h \<leftarrow> i32 (h - 1); Some (x smod k + k, h) } else Some (x smod k, h)); f l h } = f (x mod k) (b + x div k)"
  using trunc_floor [OF assms(1), of x] assms(2,3) by (cases "x smod k < 0") (auto simp: i32_def add_diff_eq [symmetric])

lemma carry_ok:
  assumes "small (tm_sec t)" "small (tm_min t)" "small (tm_hour t)" "small (tm_mday t)" "small (tm_mon t)" "15 \<le> tm_year t" "small (tm_year t)"
  defines "mi \<equiv> tm_min t + tm_sec t div 60"
  defines "hour \<equiv> tm_hour t + mi div 60"
  shows "carry t = Some (hour mod 24, mi mod 60, tm_sec t mod 60, hour div 24 + (tm_mday t - 1), tm_year t + tm_mon t div 12, tm_mon t mod 12)"
    "- 1200000000 \<le> hour div 24 + (tm_mday t - 1)" "hour div 24 + (tm_mday t - 1) \<le> 1200000000"
proof -
  have s: "- 17895698 \<le> tm_sec t div 60" "tm_sec t div 60 \<le> 17895698" using assms(1) unfolding small_def by linarith+
  have m: "- 1091637522 \<le> mi" "mi \<le> 1091637522" using s assms(2) by (simp_all add: small_def mi_def)
  then have m': "- 18193959 \<le> mi div 60" "mi div 60 \<le> 18193959" by linarith+
  have h: "- 1091935783 \<le> hour" "hour \<le> 1091935783" using m' assms(3) by (simp_all add: small_def hour_def)
  then have h': "- 45497325 \<le> hour div 24" "hour div 24 \<le> 45497325" by linarith+
  have mo: "- 89478486 \<le> tm_mon t div 12" "tm_mon t div 12 \<le> 89478486" using assms(5) unfolding small_def by linarith+
  show "- 1200000000 \<le> hour div 24 + (tm_mday t - 1)" "hour div 24 + (tm_mday t - 1) \<le> 1200000000"
    using h' assms(4) by (simp_all add: small_def)
  show "carry t = Some (hour mod 24, mi mod 60, tm_sec t mod 60, hour div 24 + (tm_mday t - 1), tm_year t + tm_mon t div 12, tm_mon t mod 12)"
  proof -
    have c1: "- 2147483648 \<le> tm_min t + tm_sec t div 60" "tm_min t + tm_sec t div 60 \<le> 2147483646"
      "- 2147483648 \<le> tm_hour t + mi div 60" "tm_hour t + mi div 60 \<le> 2147483646"
      "- 2147483648 \<le> tm_year t + tm_mon t div 12" "tm_year t + tm_mon t div 12 \<le> 2147483646"
      using m h mo assms(6,7) unfolding mi_def [symmetric] hour_def [symmetric] small_def by linarith+
    have "i32 (tm_mday t - 1) = Some (tm_mday t - 1)" "i32 (hour div 24 + (tm_mday t - 1)) = Some (hour div 24 + (tm_mday t - 1))"
      using h' assms(4) by (simp_all add: i32_def small_def)
    moreover have hd: "(if hour smod 24 < 0 then (hour smod 24 + 24, hour sdiv 24 - 1) else (hour smod 24, hour sdiv 24)) = (hour mod 24, hour div 24)"
      using trunc_floor [of 24 hour] by simp
    ultimately show ?thesis
      unfolding carry_def Let_def carry_step [OF zero_less_numeral c1(1,2)] mi_def [symmetric] carry_step [OF zero_less_numeral c1(3,4)]
        hour_def [symmetric] carry_step [OF zero_less_numeral c1(5,6)] hd prod.case
      by simp
  qed
qed

lemma day_down_ok:
  assumes "0 \<le> mon" "mon < 12" "- 100000000 \<le> year" "year \<le> 2000000000" "0 \<le> 28 * (12 * (year + 100000000) + mon) + day"
  shows "\<exists>day' year' mon'. day_down day year mon = Some (day', year', mon') \<and> 0 \<le> day' \<and> 0 \<le> mon' \<and> mon' < 12 \<and>
    - 100000000 \<le> year' \<and> year' \<le> year \<and> day' \<le> max day 31 \<and> day_number year' mon' day' = day_number year mon day"
  using assms
proof (induction day year mon rule: day_down.induct)
  case (1 day year mon)
  show ?case
  proof (cases "day < 0")
    case True
    define ym where "ym = (if mon - 1 < 0 then (year - 1, 11) else (year, mon - 1))"
    obtain y m where ym: "ym = (y, m)" by (cases ym)
    have m: "0 \<le> m" "m < 12" "- 100000000 \<le> y" "y \<le> year" "12 * (y + 100000000) + m = 12 * (year + 100000000) + mon - 1"
      using ym 1(2-6) True by (auto simp: ym_def split: if_splits)
    have md: "month_days y m = Some (month_len y m)" using m 1(5) by (intro month_days_ok) linarith+
    note l = month_len_bounds [OF m(1,2), of y]
    have "day_number y m (day + month_len y m) = day_number year mon day"
      using day_number_prev [OF 1(2,3), where y = year and day = day] ym by (simp add: ym_def)
    moreover have "day_down day year mon = day_down (day + month_len y m) y m"
      using True ym md by (subst day_down.simps) (simp add: ym_def Let_def split: if_splits)
    moreover note 1(1) [OF True refl _ refl md, unfolded ym [symmetric] ym_def]
    ultimately show ?thesis using 1(5,6) True m l by force
  next
    case False
    then show ?thesis using 1(2-6) by (subst day_down.simps) simp
  qed
qed

lemma day_up_ok:
  assumes "0 \<le> mon" "mon < 12" "- 100000000 \<le> year" "year \<le> 2000000000" "0 \<le> day" "0 \<le> 28 * (12 * (2000000000 - year) - mon) - day"
  shows "\<exists>day' year' mon'. day_up day year mon = Some (day', year', mon') \<and> 0 \<le> day' \<and> 0 \<le> mon' \<and> mon' < 12 \<and>
    - 100000000 \<le> year' \<and> year' \<le> 2000000000 \<and> day' < month_len year' mon' \<and> day_number year' mon' day' = day_number year mon day"
  using assms
proof (induction day year mon rule: day_up.induct)
  case (1 day year mon)
  have md: "month_days year mon = Some (month_len year mon)" using 1(2-5) by (intro month_days_ok) linarith+
  note l = month_len_bounds [OF 1(2,3), of year]
  show ?case
  proof (cases "month_len year mon \<le> day")
    case True
    define my where "my = (if mon + 1 = 12 then (0, year + 1) else (mon + 1, year))"
    obtain y m where my: "my = (m, y)" by (cases my)
    have m: "0 \<le> m" "m < 12" "- 100000000 \<le> y" "y \<le> 2000000000" "12 * (2000000000 - y) - m = 12 * (2000000000 - year) - mon - 1"
      using my 1(2-7) True l by (auto simp: my_def split: if_splits)
    have "day_number y m (day - month_len year mon) = day_number year mon day"
      using day_number_next [OF 1(2,3), where y = year and day = "day - month_len year mon"] my by (simp add: my_def)
    moreover have "day_up day year mon = day_up (day - month_len year mon) y m"
      using True my md by (subst day_up.simps) (simp add: my_def Let_def split: if_splits)
    moreover note 1(1) [OF md True refl refl, of my m y, unfolded my my_def]
    ultimately show ?thesis using 1(6,7) True m l my by (simp add: my_def)
  next
    case False
    then show ?thesis using 1(2-7) md by (subst day_up.simps) simp
  qed
qed

lemma leap_days:
  assumes "0 < e" "e < (c :: int)"
  shows "(y - e) div c + of_bool (y mod c \<noteq> 0 \<and> y mod c < e) = (y + (c - 1)) div c - 1"
proof -
  define q r where "q = y div c" and "r = y mod c"
  have y: "y = c * q + r" "0 \<le> r" "r < c" using assms by (simp_all add: q_def r_def)
  have a: "(y - e) div c = (if e \<le> r then q else q - 1)"
    using y assms int_div_pos_eq [of "y - e" c q "r - e"] int_div_pos_eq [of "y - e" c "q - 1" "r - e + c"] by (simp add: right_diff_distrib)
  have b: "(y + (c - 1)) div c = (if r = 0 then q else q + 1)"
    using y assms int_div_pos_eq [of "y + (c - 1)" c q "c - 1"] int_div_pos_eq [of "y + (c - 1)" c "q + 1" "r - 1"] by (simp add: distrib_left)
  show ?thesis unfolding a b r_def [symmetric] using y(2) assms by (simp add: of_bool_def)
qed

lemma leap_days_4: "(y - 15) div 4 + of_bool (y mod 4 \<noteq> 0 \<and> y mod 4 < 3) = (y + 3) div 4 - (4 :: int)"
proof -
  have "(y - 15) div 4 = (y - 3 + (- 3) * 4) div 4" by simp
  also have "\<dots> = (y - 3) div 4 - 3" by (subst div_mult_self1) simp_all
  finally show ?thesis using leap_days [of 3 4 y] by (simp only: eq_diff_eq) simp
qed

lemma epoch_days_early: "y < 15 \<Longrightarrow> - 100000000 \<le> y \<Longrightarrow> epoch_days (YEAR0 + y) = None"
  by (auto simp: epoch_days_def i32_def YEAR0_def EPOCH_YR_def signed_divide_int_def split: bind_splits)

lemma epoch_days_ok:
  assumes "15 \<le> y" "y \<le> 2000000000"
  defines "D \<equiv> year_days y - year_days 15"
  shows "epoch_days (YEAR0 + y) = Some (Inr D) \<and> D \<le> 2147483000 \<or> epoch_days (YEAR0 + y) = Some (Inl ()) \<and> 24856 < D"
proof -
  define n where "n = y - 15"
  have n: "0 \<le> n" using assms(1) by (simp add: n_def)
  have D: "D = 365 * n + (n div 4 + of_bool (y mod 4 \<noteq> 0 \<and> y mod 4 < 3)) -
      (n div 100 + of_bool (y mod 100 \<noteq> 0 \<and> y mod 100 < 15)) + (n div 400 + of_bool (y mod 400 \<noteq> 0 \<and> y mod 400 < 15))"
  proof -
    have "365 * y + a - b + c - 5479 = 365 * (y - 15) + (a - 4) - (b - 1) + (c - 1)" for a b c :: int by simp
    moreover have "(y - 15) div 100 + of_bool (y mod 100 \<noteq> 0 \<and> y mod 100 < 15) = (y + 99) div 100 - 1" using leap_days [of 15 100 y] by simp
    moreover have "(y - 15) div 400 + of_bool (y mod 400 \<noteq> 0 \<and> y mod 400 < 15) = (y + 399) div 400 - 1" using leap_days [of 15 400 y] by simp
    ultimately show ?thesis unfolding n_def leap_days_4 D_def year_days_at(1) by (simp only: year_days_def)
  qed
  have ms: "(2000 + y) smod 4 = y mod 4" "(2000 + y) smod 100 = y mod 100" "(2000 + y) smod 400 = y mod 400"
    "2015 smod 4 = (3 :: int)" "2015 smod 100 = (15 :: int)" "2015 smod 400 = (15 :: int)"
  proof -
    have "(y + 4 * 500) mod 4 = y mod 4" "(y + 100 * 20) mod 100 = y mod 100" "(y + 400 * 5) mod 400 = y mod 400" by (rule mod_mult_self2)+
    then show "(2000 + y) smod 4 = y mod 4" "(2000 + y) smod 100 = y mod 100" "(2000 + y) smod 400 = y mod 400"
      using assms(1) by (simp_all add: sdiv_nonneg add.commute)
  qed (simp_all add: smod_int_alt_def)
  have di: "n sdiv 4 = n div 4" "n sdiv 100 = n div 100" "n sdiv 400 = n div 400" using n by (simp_all add: sdiv_nonneg)
  define p q r where "p = n div 4" and "q = n div 100" and "r = n div 400"
  define P Q R :: int where "P = of_bool (y mod 4 \<noteq> 0 \<and> y mod 4 < 3)" and "Q = of_bool (y mod 100 \<noteq> 0 \<and> y mod 100 < 15)"
    and "R = of_bool (y mod 400 \<noteq> 0 \<and> y mod 400 < 15)"
  have b: "0 \<le> P" "P \<le> 1" "0 \<le> Q" "Q \<le> 1" "0 \<le> R" "R \<le> 1" by (simp_all add: P_def Q_def R_def)
  have d: "4 * p \<le> n" "n < 4 * p + 4" "100 * q \<le> n" "n < 100 * q + 100" "400 * r \<le> n" "n < 400 * r + 400" 
    unfolding p_def q_def r_def by linarith+
  have n2: "n \<le> 2000000000" "2000 + y - 2015 = n" "i32 n = Some n" using assms n by (simp_all add: n_def i32_def)
  have "epoch_days (YEAR0 + y) =
    (if 5883516 < n \<or> 2147483647 - 365 * n < p + 1 then Some (Inl ())
     else do { day \<leftarrow> i32 (365 * n + (p + P)); day \<leftarrow> i32 (day - (q + Q)); day \<leftarrow> i32 (day + (r + R)); Some (Inr day) })"
    (is "_ = ?rhs")
  proof (cases "5883516 < n")
    case False
    then have fit: "i32 (n * 365) = Some (n * 365)" "i32 (long_max - n * 365) = Some (long_max - n * 365)" using n by (simp_all add: i32_def)
    show ?thesis
    unfolding epoch_days_def YEAR0_def EPOCH_YR_def n2(2,3) bind.bind_lunit ms di p_def [symmetric] q_def [symmetric] r_def [symmetric]
      P_def [symmetric] Q_def [symmetric] R_def [symmetric]
    using False fit by (simp add: signed_divide_int_def mult.commute)
  qed (simp add: epoch_days_def YEAR0_def EPOCH_YR_def n2 signed_divide_int_def)
  also have "\<dots> = (if 5883516 < n \<or> 2147483647 - 365 * n < p + 1 then Some (Inl ()) else Some (Inr (365 * n + (p + P) - (q + Q) + (r + R))))"
    using b d n by (auto simp: i32_def)
  finally have e: "epoch_days (YEAR0 + y) =
    (if 5883516 < n \<or> 2147483647 - 365 * n < p + 1 then Some (Inl ()) else Some (Inr D))"
    unfolding D p_def q_def r_def P_def Q_def R_def .
  have D2: "D = 365 * n + (p + P) - (q + Q) + (r + R)" unfolding D p_def q_def r_def P_def Q_def R_def ..
  show ?thesis
  proof (cases "5883516 < n \<or> 2147483647 - 365 * n < p + 1")
    case True
    then have "24856 < D" using b d n unfolding D2 by linarith
    then show ?thesis using True e by simp
  next
    case False
    then have "D \<le> 2147483000" using b d n unfolding D2 by linarith
    then show ?thesis using False e by simp
  qed
qed

lemma yday_loop_ok:
  assumes "0 \<le> m" "m + int n \<le> 12"
  shows "yday_loop leap m n s = Some (s + month_start leap (m + int n) - month_start leap m)"
  using assms
proof (induction n arbitrary: m s)
  case (Suc n)
  then have "0 \<le> m" "m < 12" by simp_all
  then show ?case using Suc.IH [of "m + 1"] Suc.prems month_facts [of m leap] by (simp add: add_ac)
qed simp

definition small_fields :: "tm \<Rightarrow> bool" where
  "small_fields t \<longleftrightarrow> small (tm_sec t) \<and> small (tm_min t) \<and> small (tm_hour t) \<and> small (tm_mday t) \<and> small (tm_mon t) \<and> small (tm_year t)"

text \<open>The fields \<open>mktime\<close> converts: it refuses a year field before 2015 at once, whatever the others carry into it.\<close>

definition fields_ok :: "tm \<Rightarrow> bool" where
  "fields_ok t \<longleftrightarrow> small_fields t \<and> 15 \<le> tm_year t"

lemma month_start_le: "month_start leap mon \<le> month_start leap 12" "month_start leap 12 \<le> 366"
proof -
  have "sum_list (days_per_month leap) = sum_list (take (nat mon) (days_per_month leap)) + sum_list (drop (nat mon) (days_per_month leap))"
    by (metis append_take_drop_id sum_list_append)
  moreover have "0 \<le> sum_list (drop (nat mon) (days_per_month leap))"
    by (rule sum_list_nonneg) (auto simp: days_per_month_def dest!: in_set_dropD split: if_splits)
  moreover have "sum_list (days_per_month leap) = month_start leap 12" by (simp add: month_start_def days_per_month_def)
  ultimately show "month_start leap mon \<le> month_start leap 12" by (simp add: month_start_def)
  show "month_start leap 12 \<le> 366" by (simp add: month_start_def days_per_month_def)
qed

lemma clock_carry:
  "se = a * 60 + s \<Longrightarrow> mi + a = b * 60 + m \<Longrightarrow> ho + b = c * 24 + h \<Longrightarrow>
   ((n * 24 + ho) * 60 + mi) * 60 + se = (n + c) * 86400 + ((h * 60 + m) * 60 + (s :: int))"
  by simp

text \<open>The loops of \<open>mktime\<close> bring the fields into their ranges without changing the moment they denote.\<close>

lemma mktime_normalises:
  assumes "fields_ok t"
  obtains hour mi sec day year mon day1 year1 mon1 day2 year2 mon2 where
    "carry t = Some (hour, mi, sec, day, year, mon)" "day_down day year mon = Some (day1, year1, mon1)"
    "day_up day1 year1 mon1 = Some (day2, year2, mon2)"
    "hour \<in> {0..<24}" "mi \<in> {0..<60}" "sec \<in> {0..<60}" "mon2 \<in> {0..<12}" "0 \<le> day2" "day2 < month_len year2 mon2"
    "- 100000000 \<le> year2" "year2 \<le> 2000000000"
    "date_secs t = day_number year2 mon2 day2 * SECS_DAY + ((hour * 60 + mi) * 60 + sec)"
proof -
  define mi where "mi = tm_min t + tm_sec t div 60"
  define hour where "hour = tm_hour t + mi div 60"
  define Y M D where "Y = tm_year t + tm_mon t div 12" and "M = tm_mon t mod 12" and "D = hour div 24 + (tm_mday t - 1)"
  have f: "small (tm_sec t)" "small (tm_min t)" "small (tm_hour t)" "small (tm_mday t)" "small (tm_mon t)" "15 \<le> tm_year t" "small (tm_year t)"
    using assms by (simp_all add: fields_ok_def small_fields_def)
  have c: "carry t = Some (hour mod 24, mi mod 60, tm_sec t mod 60, D, Y, M)"
    using carry_ok(1) [OF f] by (simp add: mi_def hour_def Y_def M_def D_def)
  have "- 89478486 \<le> tm_mon t div 12" "tm_mon t div 12 \<le> 89478486" using f(5) unfolding small_def by linarith+
  then have Y: "- 89478486 \<le> Y" "Y \<le> 1200000000" using f(6,7) by (simp_all add: Y_def small_def)
  have M: "0 \<le> M" "M < 12" by (simp_all add: M_def)
  have D: "- 1200000000 \<le> D" "D \<le> 1200000000"
    using carry_ok(2,3) [OF f] by (simp_all add: mi_def hour_def D_def)
  obtain d1 y1 m1 where dd: "day_down D Y M = Some (d1, y1, m1)" and b1: "0 \<le> d1" "0 \<le> m1" "m1 < 12" "- 100000000 \<le> y1" "y1 \<le> Y" "d1 \<le> max D 31"
    and n1: "day_number y1 m1 d1 = day_number Y M D"
    using day_down_ok [of M Y D] M Y D by auto
  have "d1 \<le> 1200000000" using b1(6) D by (simp add: max_def split: if_splits)
  then obtain d2 y2 m2 where du: "day_up d1 y1 m1 = Some (d2, y2, m2)" and b2: "0 \<le> d2" "0 \<le> m2" "m2 < 12" "- 100000000 \<le> y2" "y2 \<le> 2000000000"
      "d2 < month_len y2 m2"
    and n2: "day_number y2 m2 d2 = day_number y1 m1 d1"
    using day_up_ok [of m1 y1 d1] b1(1-5) Y by auto
  have s: "date_secs t = day_number Y M D * SECS_DAY + ((hour mod 24 * 60 + mi mod 60) * 60 + tm_sec t mod 60)"
  proof -
    have "day_number Y M D = day_number Y M (tm_mday t - 1) + hour div 24" by (simp add: day_number_def D_def)
    then show ?thesis
      unfolding date_secs_def Y_def [symmetric] M_def [symmetric] SECS_DAY_def SECS_HOUR_def
      using clock_carry [of "tm_sec t" "tm_sec t div 60" "tm_sec t mod 60" "tm_min t" "mi div 60" "mi mod 60" "tm_hour t" "hour div 24" "hour mod 24"
        "day_number Y M (tm_mday t - 1)"] by (simp add: mi_def [symmetric] hour_def [symmetric])
  qed
  show thesis
    by (rule that [OF c dd du]) (use b2 s n1 n2 in simp_all)
qed

lemma mktime_eq:
  assumes ok: "fields_ok t" and tz: "tzset g = Some g1"
  defines "T \<equiv> date_secs t - EPOCH_SECS" and "overflow \<equiv> Some (- 1, Some t, g1\<lparr>time_errno := errno_val EOVERFLOW\<rparr>)"
  shows "T < 0 \<Longrightarrow> mktime (Some t) g = None"
    "T > long_max \<Longrightarrow> mktime (Some t) g = overflow"
    "0 \<le> T \<Longrightarrow> T \<le> long_max \<Longrightarrow> \<exists>m. calendar_date m \<and> date_secs m = date_secs t \<and>
       mktime (Some t) g = (case adjust g1 T (tm_isdst t) of None \<Rightarrow> None | Some (Inl _) \<Rightarrow> overflow
         | Some (Inr (s, isdst)) \<Rightarrow> Some (s, Some (m\<lparr>tm_isdst := isdst\<rparr>), g1))"
proof -
  obtain hour mi sec day year mon day1 year1 mon1 d y m where
    st: "carry t = Some (hour, mi, sec, day, year, mon)" "day_down day year mon = Some (day1, year1, mon1)" "day_up day1 year1 mon1 = Some (d, y, m)"
    and r: "hour \<in> {0..<24}" "mi \<in> {0..<60}" "sec \<in> {0..<60}" "m \<in> {0..<12}" "0 \<le> d" "d < month_len y m" "- 100000000 \<le> y" "y \<le> 2000000000"
    and ds: "date_secs t = day_number y m d * SECS_DAY + ((hour * 60 + mi) * 60 + sec)"
    using mktime_normalises [OF ok] .
  define S where "S = (hour * 60 + mi) * 60 + sec"
  have S: "0 \<le> S" "S < 86400" using r(1-3) by (simp_all add: S_def)
  define L where "L = LEAPYEAR (YEAR0 + y)"
  define N where "N = day_number y m d - year_days 15"
  have T: "T = N * 86400 + S" by (simp add: T_def ds N_def S_def year_days_at EPOCH_SECS_def SECS_DAY_def SECS_HOUR_def)
  have "month_len y m \<le> 31" using r(4) month_len_bounds [of m y] by simp
  then have yd: "0 \<le> month_start L m + d" "month_start L m + d < 400"
    using r(5,6) month_start_nonneg [of L m] month_start_le(1) [of L m] month_start_le(2) [of L] by linarith+
  have nonneg: "\<not> tm_year t < EPOCH_YR - YEAR0" using ok by (simp add: fields_ok_def EPOCH_YR_def YEAR0_def)
  have fy: "i32 (y + YEAR0) = Some (YEAR0 + y)" using r(7,8) by (simp add: i32_def YEAR0_def)
  define rest where "rest = (\<lambda>ed :: unit + int. case ed of Inl _ \<Rightarrow> overflow | Inr day \<Rightarrow> do {
      total \<leftarrow> i32 (day + (month_start L m + d));
      if total < 0 then overflow
      else do {
        day4 \<leftarrow> i32 (total + 4);
        if (long_max - S) sdiv SECS_DAY < total then overflow
        else do {
          seconds \<leftarrow> i32 (S + total * SECS_DAY);
          ad \<leftarrow> adjust g1 seconds (tm_isdst t);
          case ad of Inl _ \<Rightarrow> overflow
          | Inr (seconds, isdst) \<Rightarrow>
              Some (seconds, Some \<lparr>tm_sec = sec, tm_min = mi, tm_hour = hour, tm_mday = d + 1, tm_mon = m, tm_year = y,
                tm_wday = day4 smod 7, tm_yday = month_start L m + d, tm_isdst = isdst\<rparr>, g1) } } })"
  have yl: "yday_loop L 0 (nat m) 0 = Some (month_start L m)" using yday_loop_ok [of 0 "nat m" L 0] r(4) by (simp add: month_start_ends)
  have mk: "mktime (Some t) g = do { ed \<leftarrow> epoch_days (YEAR0 + y); rest ed }"
    using nonneg by (simp add: mktime_def st tz fy rest_def L_def [symmetric] yl overflow_def S_def Let_def cong: if_cong sum.case_cong)
  consider "y < 15" | "15 \<le> y" "epoch_days (YEAR0 + y) = Some (Inr (year_days y - year_days 15))" "year_days y - year_days 15 \<le> 2147483000"
    | "15 \<le> y" "epoch_days (YEAR0 + y) = Some (Inl ())" "24856 < year_days y - year_days 15"
    using epoch_days_ok [of y] r(8) by force
  then have "(T < 0 \<longrightarrow> mktime (Some t) g = None) \<and> (T > long_max \<longrightarrow> mktime (Some t) g = overflow) \<and> (0 \<le> T \<longrightarrow> T \<le> long_max \<longrightarrow>
     (\<exists>m. calendar_date m \<and> date_secs m = date_secs t \<and>
       mktime (Some t) g = (case adjust g1 T (tm_isdst t) of None \<Rightarrow> None | Some (Inl _) \<Rightarrow> overflow
         | Some (Inr (s, isdst)) \<Rightarrow> Some (s, Some (m\<lparr>tm_isdst := isdst\<rparr>), g1))))"
  proof cases
    case 1
    then have "N < 0"
      using month_facts(4) [of m L] month_start_le(1) [of L "m + 1"] r(4,6) year_days_step(1) [of y] month_start_ends(2) [of "YEAR0 + y"]
        year_days_mono [of "y + 1" 15] by (simp add: N_def day_number_def L_def month_len_def)
    then show ?thesis using T S mk epoch_days_early [OF 1 r(7)] by simp
  next
    case 2
    have N: "year_days y - year_days 15 + (month_start L m + d) = N" by (simp add: N_def day_number_def L_def)
    have "0 \<le> N" "N \<le> 2147483400" using N yd 2 year_days_mono [of 15 y] by simp_all
    then have fit: "i32 N = Some N" "i32 (N + 4) = Some (N + 4)" by (simp_all add: i32_def)
    have "(long_max - S) sdiv SECS_DAY < N \<longleftrightarrow> long_max < T"
    proof -
      have "(long_max - S) sdiv SECS_DAY = (long_max - S) div 86400" using S by (simp add: sdiv_nonneg SECS_DAY_def SECS_HOUR_def)
      then show ?thesis unfolding T by linarith
    qed
    moreover have "0 \<le> T" using T S \<open>0 \<le> N\<close> by simp
    moreover from this have "\<not> long_max < T \<Longrightarrow> i32 (S + N * SECS_DAY) = Some T" by (simp add: T SECS_DAY_def SECS_HOUR_def i32_def)
    moreover define m' where "m' = \<lparr>tm_sec = sec, tm_min = mi, tm_hour = hour, tm_mday = d + 1, tm_mon = m, tm_year = y,
      tm_wday = (N + 4) smod 7, tm_yday = month_start L m + d, tm_isdst = 0\<rparr>"
    ultimately have "mktime (Some t) g = (if long_max < T then overflow
      else case adjust g1 T (tm_isdst t) of None \<Rightarrow> None | Some (Inl _) \<Rightarrow> overflow
         | Some (Inr (s, isdst)) \<Rightarrow> Some (s, Some (m'\<lparr>tm_isdst := isdst\<rparr>), g1))"
      using \<open>0 \<le> N\<close> by (cases "long_max < T") (auto simp: mk 2(2) rest_def N fit split: option.splits sum.splits)
    moreover have "date_secs m' = date_secs t"
      unfolding ds SECS_DAY_def SECS_HOUR_def using r(4) by (simp add: m'_def date_secs_def)
    moreover have "calendar_date m'"
    proof -
      have "day_number y m d + 6 = N + 4 + 7 * 783" by (simp add: N_def year_days_at)
      then have "(day_number y m d + 6) mod 7 = (N + 4) mod 7" by (simp only: mod_mult_self2)
      then show ?thesis using r \<open>0 \<le> N\<close> by (simp add: calendar_date_def m'_def L_def sdiv_nonneg)
    qed
    ultimately show ?thesis using \<open>0 \<le> T\<close> by auto
  next
    case 3
    then have "24856 < N" using yd by (simp add: N_def day_number_def L_def)
    then show ?thesis using T S mk 3 by (simp add: rest_def)
  qed
  then show "T < 0 \<Longrightarrow> mktime (Some t) g = None" "T > long_max \<Longrightarrow> mktime (Some t) g = overflow"
    "0 \<le> T \<Longrightarrow> T \<le> long_max \<Longrightarrow> \<exists>m. calendar_date m \<and> date_secs m = date_secs t \<and>
       mktime (Some t) g = (case adjust g1 T (tm_isdst t) of None \<Rightarrow> None | Some (Inl _) \<Rightarrow> overflow
         | Some (Inr (s, isdst)) \<Rightarrow> Some (s, Some (m\<lparr>tm_isdst := isdst\<rparr>), g1))" by blast+
qed

section \<open>What the conversions compute\<close>

lemma tzset_utc: "timezone g = 0 \<Longrightarrow> tzset g = Some (g\<lparr>tzname := (''UTC'', ''BST''), dst_off := 3600\<rparr>)"
  by (simp add: tzset_def tzlist_def elem_at_def)

text \<open>A moment has one date.\<close>

lemma day_number_in_year:
  assumes "m \<in> {0..<12}" "0 \<le> d" "d < month_len y m"
  shows "year_days y \<le> day_number y m d" "day_number y m d < year_days (y + 1)"
  using assms month_start_nonneg [of "LEAPYEAR (YEAR0 + y)" m] month_facts(4) [of m "LEAPYEAR (YEAR0 + y)"] month_start_ends(2) [of "YEAR0 + y"]
    month_start_le(1) [of "LEAPYEAR (YEAR0 + y)" "m + 1"] year_days_step(1) [of y] by (simp_all add: day_number_def month_len_def)

lemma day_number_unique:
  assumes "day_number y m d = day_number y' m' d'" "m \<in> {0..<12}" "m' \<in> {0..<12}" "0 \<le> d" "d < month_len y m" "0 \<le> d'" "d' < month_len y' m'"
  shows "y = y' \<and> m = m' \<and> d = d'"
proof -
  have "year_days y < year_days (y' + 1)" "year_days y' < year_days (y + 1)"
    using day_number_in_year [OF assms(2,4,5)] day_number_in_year [OF assms(3,6,7)] assms(1) by simp_all
  then have y: "y = y'" by (simp add: year_days_less)
  let ?L = "LEAPYEAR (YEAR0 + y)"
  have mono: "month_start ?L a + month_len y a \<le> month_start ?L b" if "0 \<le> a" "a < b" "b < 12" for a b
    using that
  proof (induction "nat (b - a)" arbitrary: b)
    case (Suc n)
    show ?case
    proof (cases "b = a + 1")
      case False
      then have "month_start ?L a + month_len y a \<le> month_start ?L (b - 1)" using Suc.hyps(2) Suc.prems by (intro Suc.hyps(1)) linarith+
      then show ?thesis using Suc.prems month_facts(2,4) [of "b - 1" ?L] by simp
    qed (use Suc.prems month_facts(4) [of a ?L] in \<open>simp add: month_len_def\<close>)
  qed simp
  have "month_start ?L m + d = month_start ?L m' + d'" using assms(1) y by (simp add: day_number_def)
  then have "m = m'" using mono [of m m'] mono [of m' m] assms(2-7) y by (cases m m' rule: linorder_cases) auto
  then show ?thesis using y assms(1) by (simp add: day_number_def)
qed

lemma digit_unique: "a \<in> {0..<k} \<Longrightarrow> b \<in> {0..<k} \<Longrightarrow> x * k + a = y * k + b \<Longrightarrow> x = y \<and> a = (b :: int)"
  using mod_mult_self3 [of x k a] mod_mult_self3 [of y k b] by simp

lemma calendar_date_unique:
  assumes "calendar_date a" "calendar_date b" "date_secs a = date_secs b" "tm_isdst a = tm_isdst b"
  shows "a = b"
proof -
  define N where "N = (\<lambda>t :: tm. day_number (tm_year t) (tm_mon t) (tm_mday t - 1))"
  have n: "date_secs t = ((N t * 24 + tm_hour t) * 60 + tm_min t) * 60 + tm_sec t" if "calendar_date t" for t
    using that by (simp add: date_secs_def N_def calendar_date_def)
  have "N a = N b \<and> tm_hour a = tm_hour b \<and> tm_min a = tm_min b \<and> tm_sec a = tm_sec b"
    using digit_unique [of "tm_sec a" 60 "tm_sec b"] digit_unique [of "tm_min a" 60 "tm_min b"] digit_unique [of "tm_hour a" 24 "tm_hour b" "N a" "N b"]
      assms(1,2) n [OF assms(1)] n [OF assms(2)] assms(3) unfolding calendar_date_def by metis
  moreover from this have "N a = N b" ..
  then have "tm_year a = tm_year b \<and> tm_mon a = tm_mon b \<and> tm_mday a - 1 = tm_mday b - 1"
    unfolding N_def by (rule day_number_unique) (use assms(1,2) in \<open>auto simp: calendar_date_def\<close>)
  ultimately show ?thesis using assms by (intro tm.equality) (auto simp: calendar_date_def)
qed

lemma mktime_utc:
  assumes "fields_ok t" "tm_isdst t = 0" "timezone g = 0"
  defines "T \<equiv> date_secs t - EPOCH_SECS" and "g' \<equiv> g\<lparr>tzname := (''UTC'', ''BST''), dst_off := 3600\<rparr>"
  shows "T < 0 \<Longrightarrow> mktime (Some t) g = None"
    and "0 \<le> T \<Longrightarrow> T \<le> long_max \<Longrightarrow>
      \<exists>m. mktime (Some t) g = Some (T, Some m, g') \<and> calendar_date m \<and> date_secs m = date_secs t \<and> tm_isdst m = 0"
    and "T > long_max \<Longrightarrow> mktime (Some t) g = Some (- 1, Some t, g'\<lparr>time_errno := errno_val EOVERFLOW\<rparr>)"
proof -
  note eq = mktime_eq [OF assms(1) tzset_utc [OF assms(3)], folded T_def g'_def]
  show "T < 0 \<Longrightarrow> mktime (Some t) g = None" by (rule eq(1))
  show "T > long_max \<Longrightarrow> mktime (Some t) g = Some (- 1, Some t, g'\<lparr>time_errno := errno_val EOVERFLOW\<rparr>)" by (rule eq(2))
  assume T: "0 \<le> T" "T \<le> long_max"
  then have "adjust g' T (tm_isdst t) = Some (Inr (T, 0))" using assms(2,3) by (simp add: adjust_def g'_def i32_def)
  with eq(3) [OF T] obtain m where "calendar_date m" "date_secs m = date_secs t" "mktime (Some t) g = Some (T, Some (m\<lparr>tm_isdst := 0\<rparr>), g')"
    by auto
  then show "\<exists>m. mktime (Some t) g = Some (T, Some m, g') \<and> calendar_date m \<and> date_secs m = date_secs t \<and> tm_isdst m = 0"
    by (intro exI [of _ "m\<lparr>tm_isdst := 0\<rparr>"]) (simp add: calendar_date_def date_secs_def)
qed

lemma calendar_fields_ok:
  assumes "calendar_date m" "15 \<le> tm_year m" "tm_year m \<le> 1000"
  shows "fields_ok m"
  using assms month_len_bounds [of "tm_mon m" "tm_year m"] by (auto simp: calendar_date_def fields_ok_def small_fields_def small_def)

lemma year_bounds:
  assumes "calendar_date m" "date_secs m = t" "EPOCH_SECS \<le> t" "t < year_days 68 * SECS_DAY"
  shows "15 \<le> tm_year m" "tm_year m < 68"
proof -
  define N where "N = day_number (tm_year m) (tm_mon m) (tm_mday m - 1)"
  have "t = N * 86400 + ((tm_hour m * 60 + tm_min m) * 60 + tm_sec m)" using assms(1,2) by (simp add: date_secs_def N_def calendar_date_def)
  moreover have "0 \<le> (tm_hour m * 60 + tm_min m) * 60 + tm_sec m" "(tm_hour m * 60 + tm_min m) * 60 + tm_sec m < 86400"
    using assms(1) by (auto simp: calendar_date_def)
  moreover have "year_days 15 * 86400 \<le> t" "t < year_days 68 * 86400"
    using assms(3,4) by (simp_all add: EPOCH_SECS_def year_days_at SECS_DAY_def SECS_HOUR_def)
  ultimately have "year_days 15 \<le> N" "N < year_days 68" by linarith+
  moreover have "year_days (tm_year m) \<le> N" "N < year_days (tm_year m + 1)"
    unfolding N_def using assms(1) by (auto simp: calendar_date_def intro!: day_number_in_year)
  ultimately have "year_days 15 < year_days (tm_year m + 1)" "year_days (tm_year m) < year_days 68" by linarith+
  then show "15 \<le> tm_year m" "tm_year m < 68" by (simp_all add: year_days_less)
qed

text \<open>C20: \<open>mktime\<close> at UTC (\<open>timezone\<close> 0) and without daylight saving time, for fields of any size up to \<open>2 ^ 30\<close> (months and days out of
  range and negative values included). A year field before 2015 is refused with -1 at once and nothing changes, even when the month field
  carries the moment past 2015. Otherwise it returns the seconds from 2015 of the moment the fields denote and puts the fields into
  calendar form, day of the week and of the year included; a moment beyond \<open>LONG_MAX\<close> is \<open>EOVERFLOW\<close> and leaves the structure alone; a
  moment the other fields carry back before 2015 overflows a signed subtraction.\<close>

theorem mktime_correct:
  assumes "small_fields t" "tm_isdst t = 0" "timezone g = 0"
  defines "T \<equiv> date_secs t - EPOCH_SECS" and "g' \<equiv> g\<lparr>tzname := (''UTC'', ''BST''), dst_off := 3600\<rparr>"
  shows "if tm_year t < 15 then mktime (Some t) g = Some (- 1, Some t, g)
    else if T < 0 then mktime (Some t) g = None
    else if T \<le> long_max
    then \<exists>m. mktime (Some t) g = Some (T, Some m, g') \<and> calendar_date m \<and> date_secs m = date_secs t \<and> tm_isdst m = 0
    else mktime (Some t) g = Some (- 1, Some t, g'\<lparr>time_errno := errno_val EOVERFLOW\<rparr>)"
proof (cases "tm_year t < 15")
  case True
  then show ?thesis by (simp add: mktime_def EPOCH_YR_def YEAR0_def)
next
  case False
  then have "fields_ok t" using assms(1) by (simp add: fields_ok_def)
  from mktime_utc [OF this assms(2,3)] False show ?thesis by (simp add: T_def g'_def)
qed

text \<open>C19: at UTC (\<open>timezone\<close> 0) \<open>gmtime\<close> and \<open>mktime\<close> are inverse to each other for every time from 2015 to the end of 2067: the date \<open>gmtime\<close> returns is a
  date of the calendar, and \<open>mktime\<close> returns the time it came from and leaves the date as it is.\<close>

theorem gmtime_mktime:
  assumes "0 \<le> t" "t < 1672531200" "timezone g = 0"
  shows "\<exists>m. gmtime (Some t) g = Some (Some m, g) \<and> calendar_date m \<and> date_secs m = t + EPOCH_SECS \<and>
    mktime (Some m) g = Some (t, Some m, g\<lparr>tzname := (''UTC'', ''BST''), dst_off := 3600\<rparr>)"
proof -
  let ?T = "t + EPOCH_SECS"
  have T: "0 \<le> ?T" "?T < year_days 68 * SECS_DAY" "i32 ?T = Some ?T" "EPOCH_SECS \<le> ?T"
    using assms(1,2) by (simp_all add: EPOCH_SECS_def year_days_at SECS_DAY_def SECS_HOUR_def i32_def)
  obtain c where c: "convtime ?T = Some c" "calendar_date c" "date_secs c = ?T" using convtime_ok [OF T(1,2)] by blast
  define m where "m = c\<lparr>tm_isdst := 0\<rparr>"
  have m: "calendar_date m" "date_secs m = ?T" "tm_isdst m = 0" using c by (simp_all add: m_def calendar_date_def date_secs_def)
  have g: "gmtime (Some t) g = Some (Some m, g)" using T c by (simp add: gmtime_def m_def)
  have "fields_ok m" using year_bounds [OF m(1,2) T(4,2)] m(1) by (intro calendar_fields_ok) simp_all
  from mktime_utc(2) [OF this m(3) assms(3)] obtain m' where
    "mktime (Some m) g = Some (t, Some m', g\<lparr>tzname := (''UTC'', ''BST''), dst_off := 3600\<rparr>)" "calendar_date m'" "date_secs m' = ?T" "tm_isdst m' = 0"
    using assms(1,2) m(2) by auto
  moreover from this have "m' = m" using m by (intro calendar_date_unique) simp_all
  ultimately show ?thesis using g m by blast
qed

definition utc :: tz_vars where
  "utc = \<lparr>timezone = 0, dst_off = 3600, daylight = 0, tzname = ([], []), time_errno = 0\<rparr>"

definition leap_day :: tm where
  "leap_day = \<lparr>tm_sec = 59, tm_min = - 1, tm_hour = 24, tm_mday = 60, tm_mon = 12, tm_year = 15, tm_wday = 0, tm_yday = 0, tm_isdst = 0\<rparr>"

theorem mktime_correct_witness:
  "small_fields leap_day \<and> (\<exists>m. mktime (Some leap_day) utc = Some (36719999, Some m, utc\<lparr>tzname := (''UTC'', ''BST''), dst_off := 3600\<rparr>) \<and> calendar_date m)"
  using mktime_correct [of leap_day utc]
  by (auto simp: leap_day_def utc_def small_fields_def small_def date_secs_def day_number_def year_days_def month_start_def days_per_month_def
    EPOCH_SECS_def YEAR0_def LEAPYEAR_def smod_int_alt_def)

theorem gmtime_mktime_witness:
  "\<exists>m. gmtime (Some 1000000000) utc = Some (Some m, utc) \<and>
    mktime (Some m) utc = Some (1000000000, Some m, utc\<lparr>tzname := (''UTC'', ''BST''), dst_off := 3600\<rparr>)"
  using gmtime_mktime [of 1000000000 utc] by (auto simp: utc_def)

section \<open>Where the conversions go wrong\<close>

text \<open>The zone is broken. \<open>tzset\<close> takes \<open>timezone\<close> for an index, overwrites it with seconds and uses it as an index again: for the zones CET
  and EET the second access is out of the table, so \<open>localtime\<close> and \<open>mktime\<close> have no defined result. In the zone UTC with daylight saving
  time \<open>localtime\<close> moves the clock back by an hour where it must go forward, and \<open>mktime\<close> takes off another: the time comes back two hours early.\<close>

theorem local_time_defects:
  "(timezone g = 1 \<or> timezone g = 2 \<longrightarrow>
     tzset g = None \<and> localtime (Some t) g = None \<and> (fields_ok d \<longrightarrow> mktime (Some d) g = None)) \<and>
   (timezone g = 0 \<and> daylight g = 1 \<and> 7200 \<le> t \<and> t < 1672531200 \<longrightarrow>
     (\<exists>m g'. localtime (Some t) g = Some (Some m, g') \<and> calendar_date m \<and> date_secs m = t + EPOCH_SECS - 3600 \<and>
       (\<exists>m2. mktime (Some m) g' = Some (t - 7200, m2, g'))))"
proof (intro conjI impI; (elim conjE)?)
  assume "timezone g = 1 \<or> timezone g = 2"
  then show "tzset g = None" by (auto simp: tzset_def tzlist_def elem_at_def)
  then show "localtime (Some t) g = None" by (simp add: localtime_def)
  assume "fields_ok d"
  then show "mktime (Some d) g = None"
    using mktime_normalises [OF \<open>fields_ok d\<close>] \<open>tzset g = None\<close>
    by (fastforce simp: mktime_def fields_ok_def EPOCH_YR_def YEAR0_def)
next
  assume h: "timezone g = 0" "daylight g = 1" "7200 \<le> t" "t < 1672531200"
  define g' where "g' = g\<lparr>tzname := (''UTC'', ''BST''), dst_off := 3600\<rparr>"
  let ?T = "t + EPOCH_SECS - 3600"
  have T: "0 \<le> ?T" "?T < year_days 68 * SECS_DAY" "EPOCH_SECS \<le> ?T" "i32 (t + EPOCH_SECS) = Some (t + EPOCH_SECS)" "i32 ?T = Some ?T"
    using h(3,4) by (simp_all add: EPOCH_SECS_def year_days_at SECS_DAY_def SECS_HOUR_def i32_def)
  obtain c where c: "convtime ?T = Some c" "calendar_date c" "date_secs c = ?T" using convtime_ok [OF T(1,2)] by blast
  define m where "m = c\<lparr>tm_isdst := 1\<rparr>"
  have m: "calendar_date m" "date_secs m = ?T" "tm_isdst m = 1" using c by (simp_all add: m_def calendar_date_def date_secs_def)
  have l: "localtime (Some t) g = Some (Some m, g')"
    using h T c by (simp add: localtime_def tzset_utc g'_def [symmetric] m_def) (simp add: g'_def)
  have "fields_ok m" using year_bounds [OF m(1,2) T(3,2)] m(1) by (intro calendar_fields_ok) simp_all
  moreover have "tzset g' = Some g'" using h(1) by (simp add: tzset_utc g'_def)
  moreover have "adjust g' (t - 3600) 1 = Some (Inr (t - 7200, 1))" using h by (simp add: adjust_def g'_def i32_def)
  ultimately have "\<exists>m2. mktime (Some m) g' = Some (t - 7200, m2, g')"
    using mktime_eq(3) [of m g' g'] m h(3,4) by auto
  then show "\<exists>m g'. localtime (Some t) g = Some (Some m, g') \<and> calendar_date m \<and> date_secs m = t + EPOCH_SECS - 3600 \<and>
       (\<exists>m2. mktime (Some m) g' = Some (t - 7200, m2, g'))"
    using l m by blast
qed

theorem local_time_defects_witness:
  "localtime (Some 0) (utc\<lparr>timezone := 1\<rparr>) = None \<and>
   (\<exists>m g'. localtime (Some 7200) (utc\<lparr>daylight := 1\<rparr>) = Some (Some m, g') \<and> date_secs m = 3600 + EPOCH_SECS \<and> (\<exists>m2. mktime (Some m) g' = Some (0, m2, g')))"
proof -
  have "localtime (Some 0) (utc\<lparr>timezone := 1\<rparr>) = None" using local_time_defects [of "utc\<lparr>timezone := 1\<rparr>" 0 leap_day] by simp
  moreover have "\<exists>m g'. localtime (Some 7200) (utc\<lparr>daylight := 1\<rparr>) = Some (Some m, g') \<and> calendar_date m \<and> date_secs m = 7200 + EPOCH_SECS - 3600 \<and>
       (\<exists>m2. mktime (Some m) g' = Some (7200 - 7200, m2, g'))"
    using local_time_defects [of "utc\<lparr>daylight := 1\<rparr>" 7200 leap_day] by (simp add: utc_def)
  ultimately show ?thesis by auto
qed

text \<open>The last year of \<open>convtime\<close>: the sum of the years exceeds \<open>long\<close> for every time in 2068.\<close>

lemma year_loop_overflow:
  assumes "counter = year_days n * SECS_DAY" "0 \<le> n" "n \<le> 68" "year_days 68 * SECS_DAY \<le> tmp"
  shows "year_loop tmp counter n secy = None"
  using assms
proof (induction tmp counter n secy rule: year_loop.induct)
  case (1 tmp counter n secy)
  have "year_days n \<le> year_days 68" using year_days_mono [of n 68] 1(4) by simp
  then have le: "counter \<le> tmp" using 1(2,5) by (simp add: SECS_DAY_def SECS_HOUR_def)
  let ?secy = "YEARSIZE (YEAR0 + n) * SECS_DAY"
  have next': "counter + ?secy = year_days (n + 1) * SECS_DAY" using 1(2) by (simp add: year_days_step(1) distrib_right)
  show ?case
  proof (cases "n = 68")
    case True
    then have "i32 (counter + ?secy) = None"
      unfolding next' by (simp add: year_days_def SECS_DAY_def SECS_HOUR_def i32_def)
    then show ?thesis using le by (subst year_loop.simps) (simp add: Let_def)
  next
    case False
    then show ?thesis
      using le 1(1) [OF le refl, of "counter + ?secy"] 1(3-5) next' by (subst year_loop.simps) (auto simp: Let_def i32_def split: if_splits)
  qed
qed

lemma convtime_last_year: "year_days 68 * SECS_DAY \<le> t \<Longrightarrow> convtime t = None"
  using year_loop_overflow [of 0 0 t 0] by (simp add: convtime_def year_days_step(2))

end
