(* ===== verification/FatDir.thy ===== *)
theory FatDir
  imports FatTable FatNames Calendar
begin

text \<open>
  Directories of the FAT file system: the searches and updates of \<^verbatim>\<open>src/fat/fat.c\<close>, and the functions on entries of
  \<^verbatim>\<open>src/fat/fat_internals.c\<close>. Beside the conventions of \<open>FatTable\<close>: an error of the code is \<open>None\<close> inside, or \<open>False\<close>; a local
  variable that is read before it is set is an argument (\<open>junk\<close>); the broken-down time, a \<open>tm\<close> of the calendar, is the argument \<open>now\<close>.
\<close>

section \<open>Disk access\<close>

text \<open>The address of a cluster, in 32 bits.\<close>

definition FAT_FSoC :: "fatvol \<Rightarrow> u16 \<Rightarrow> u32" where
  "FAT_FSoC vol N = (ucast N - 2) * ucast (SecPerClus (PB vol)) + FirstDataSector vol"

text \<open>Reads go to the scratch buffer, which has \<open>BytesPerCluster\<close> bytes; a longer read is a fault, as is a write from a shorter
  block.\<close>

definition diskRead :: "fatvol \<Rightarrow> u32 \<Rightarrow> u32 \<Rightarrow> u8 list option option" where
  "diskRead vol sec numsec =
     (if unat numsec * unat (bytes_per_sector (vctx vol)) \<le> unat (BytesPerCluster vol)
      then Some (disk_read (vctx vol) (FirstSector vol + sec) numsec) else None)"

definition diskWrite :: "fatvol \<Rightarrow> u32 \<Rightarrow> u32 \<Rightarrow> u8 list \<Rightarrow> (bool \<times> fatvol) option" where
  "diskWrite vol sec numsec buf =
     (if length buf < unat numsec * unat (bytes_per_sector (vctx vol)) then None
      else Some (case disk_write (vctx vol) (FirstSector vol + sec) numsec buf of
                   None \<Rightarrow> (False, vol)
                 | Some d \<Rightarrow> (True, vol\<lparr>vctx := d\<rparr>)))"

definition diskReadC :: "fatvol \<Rightarrow> u32 \<Rightarrow> u8 list option option" where
  "diskReadC vol sec = diskRead vol sec (ucast (SecPerClus (PB vol)))"

definition diskWriteC :: "fatvol \<Rightarrow> u32 \<Rightarrow> u8 list \<Rightarrow> (bool \<times> fatvol) option" where
  "diskWriteC vol sec buf = diskWrite vol sec (ucast (SecPerClus (PB vol))) buf"

section \<open>Entries\<close>

definition FAT_check_DIR_entry :: "dirent \<Rightarrow> int" where
  "FAT_check_DIR_entry e =
     (let mask = ATTR_DIRECTORY OR ATTR_VOLUME_ID in
      if DIR_Name e ! 0 = 0 then 0
      else if DIR_Name e ! 0 \<noteq> DIR_ENTRY_FREE \<and> DIR_Attr e AND mask \<noteq> mask then 1
      else - 1)"

definition FAT_check_attrib :: "u8 \<Rightarrow> bool" where
  "FAT_check_attrib attributes \<longleftrightarrow> (let mask = ATTR_DIRECTORY OR ATTR_VOLUME_ID in attributes AND mask \<noteq> mask)"

definition FAT_TS_CREATE :: u32 where "FAT_TS_CREATE = 1"
definition FAT_TS_WRITE :: u32 where "FAT_TS_WRITE = 2"
definition FAT_TS_READ :: u32 where "FAT_TS_READ = 4"

text \<open>The bit fields of the time stamps; the upper five bits of a time are not assigned.\<close>

definition stamp_time :: "tm \<Rightarrow> u32 \<Rightarrow> u32" where
  "stamp_time now old = (old AND 0xF8000000) OR push_bit 10 (word_of_int (tm_sec now) AND 63) OR
     push_bit 16 (word_of_int (tm_min now) AND 63) OR push_bit 22 (word_of_int (tm_hour now) AND 31)"

definition stamp_date :: "tm \<Rightarrow> u16" where
  "stamp_date now = (word_of_int (tm_mday now) AND 31) OR push_bit 5 (word_of_int (tm_mon now + 1) AND 15) OR
     push_bit 9 (word_of_int (if tm_year now > 100 then tm_year now - 100 else 0) AND 127)"

definition FAT_update_timestamps :: "tm \<Rightarrow> dirent \<Rightarrow> u32 \<Rightarrow> dirent" where
  "FAT_update_timestamps now e flags =
     (let e = (if flags AND (FAT_TS_WRITE OR FAT_TS_CREATE) \<noteq> 0
               then e\<lparr>DIR_WrtTime := stamp_time now (DIR_WrtTime e), DIR_WrtDate := stamp_date now\<rparr> else e);
          e = (if flags AND FAT_TS_CREATE \<noteq> 0
               then e\<lparr>DIR_CrtTime := stamp_time now (DIR_CrtTime e), DIR_CrtDate := stamp_date now\<rparr> else e)
      in if flags AND (FAT_TS_READ OR FAT_TS_WRITE OR FAT_TS_CREATE) \<noteq> 0
         then e\<lparr>DIR_AccTime := stamp_time now (DIR_AccTime e), DIR_AccDate := stamp_date now\<rparr> else e)"

record fat_statistics =
  totbytes :: u32
  totfiles :: u32
  totlinks :: u32
  totdirs :: u32
  totavail :: u32

fun FAT_update_statistics :: "dirent list \<Rightarrow> fat_statistics \<Rightarrow> fat_statistics" where
  "FAT_update_statistics [] st = st"
| "FAT_update_statistics (e # es) st =
     (if DIR_Name e ! 0 = DIR_ENTRY_FREE then FAT_update_statistics es (st\<lparr>totavail := totavail st + 1\<rparr>)
      else if DIR_Name e ! 0 = DIR_ENTRY_LAST_FREE then st
      else
        (let st = (if DIR_Attr e AND ATTR_LINK \<noteq> 0 then st\<lparr>totlinks := totlinks st + 1\<rparr> else st);
             st = (if DIR_Attr e AND ATTR_DIRECTORY \<noteq> 0 then st\<lparr>totdirs := totdirs st + 1\<rparr> else st\<lparr>totfiles := totfiles st + 1\<rparr>)
         in FAT_update_statistics es (st\<lparr>totbytes := totbytes st + DIR_FileSize e\<rparr>)))"

section \<open>Searching\<close>

record search_result =
  sr_entry :: dirent
  sr_sector :: u32
  sr_offset :: nat
  sr_container :: u16

text \<open>The entries of a cluster; \<open>strncmp\<close> of two names is 0.\<close>

definition entry_at :: "u8 list \<Rightarrow> nat \<Rightarrow> dirent" where
  "entry_at bs i = decode_entry (bytes_at bs (ENTRY_SIZE * i) ENTRY_SIZE)"

definition entries_of :: "u8 list \<Rightarrow> nat \<Rightarrow> dirent list option" where
  "entries_of bs items = (if ENTRY_SIZE * items \<le> length bs then Some (map (entry_at bs) [0..<items]) else None)"

definition same_name :: "u8 list \<Rightarrow> u8 list \<Rightarrow> bool" where
  "same_name a b \<longleftrightarrow> takeWhile (\<lambda>c. c \<noteq> 0) (take DIR_NAMELEN a) = takeWhile (\<lambda>c. c \<noteq> 0) (take DIR_NAMELEN b)"

fun FAT_search_loop :: "u8 list \<Rightarrow> dirent list \<Rightarrow> nat" where
  "FAT_search_loop name [] = 0"
| "FAT_search_loop name (e # es) =
     (if DIR_Name e ! 0 = DIR_ENTRY_FREE then Suc (FAT_search_loop name es)
      else if DIR_Name e ! 0 = DIR_ENTRY_LAST_FREE then Suc (length es)
      else if same_name (DIR_Name e) name then 0
      else Suc (FAT_search_loop name es))"

fun FAT_search_free_loop :: "u8 list \<Rightarrow> dirent list \<Rightarrow> nat" where
  "FAT_search_free_loop name [] = 0"
| "FAT_search_free_loop name (e # es) =
     (if DIR_Name e ! 0 = DIR_ENTRY_FREE \<or> DIR_Name e ! 0 = DIR_ENTRY_LAST_FREE then 0
      else Suc (FAT_search_free_loop name es))"

definition dir_items :: "fatvol \<Rightarrow> nat" where
  "dir_items vol = FATEntriesPerSec vol * unat (SecPerClus (PB vol))"

definition FAT_dir_foreach ::
  "fatvol \<Rightarrow> u8 list \<Rightarrow> u16 \<Rightarrow> search_result \<Rightarrow> (u8 list \<Rightarrow> dirent list \<Rightarrow> nat) \<Rightarrow> (bool \<times> search_result) option" where
  "FAT_dir_foreach vol name cluster res fn =
     (let sector = FAT_FSoC vol cluster in
      do { r \<leftarrow> diskReadC vol sector;
           case r of
             None \<Rightarrow> Some (False, res)
           | Some bs \<Rightarrow>
              do { es \<leftarrow> entries_of bs (dir_items vol);
                   let i = fn name es;
                   if i < dir_items vol
                   then Some (True, res\<lparr>sr_entry := es ! i, sr_sector := sector + of_nat (i div FATEntriesPerSec vol),
                                        sr_offset := i mod FATEntriesPerSec vol\<rparr>)
                   else Some (False, res) } })"

text \<open>The loop over the clusters of a directory, with the cluster at which it stops.\<close>

partial_function (option) foreach_chain ::
  "fatvol \<Rightarrow> u8 list \<Rightarrow> (u8 list \<Rightarrow> dirent list \<Rightarrow> nat) \<Rightarrow> u16 \<Rightarrow> search_result \<Rightarrow> (bool \<times> u16 \<times> search_result) option" where
  "foreach_chain vol name fn cluster res =
     (if FAT_cluster_isEOC cluster then Some (False, cluster, res)
      else do { (found, res1) \<leftarrow> FAT_dir_foreach vol name cluster res fn;
                if found then Some (True, cluster, res1)
                else do { c \<leftarrow> FAT_get_cluster_from_table vol cluster; foreach_chain vol name fn c res1 } })"

declare foreach_chain.simps [code]

text \<open>\<open>found\<close> keeps its value when the loop over the clusters does not run.\<close>

fun search_splits :: "fatvol \<Rightarrow> u8 list list \<Rightarrow> u16 \<Rightarrow> bool \<Rightarrow> search_result \<Rightarrow> search_result option option" where
  "search_splits vol [] cluster found res = Some (Some (res\<lparr>sr_container := cluster\<rparr>))"
| "search_splits vol (name # names) cluster found res =
     do { (ok, _, res1) \<leftarrow> foreach_chain vol name FAT_search_loop cluster res;
          let found1 = (if FAT_cluster_isEOC cluster then found else ok);
          if \<not> found1 then Some None
          else if names \<noteq> [] \<and> DIR_Attr (sr_entry res1) AND ATTR_DIRECTORY = 0 then Some None
          else search_splits vol names (DIR_FstClus (sr_entry res1)) found1 res1 }"

definition FILENAME_MAX :: nat where "FILENAME_MAX = 255"

definition FAT_search_DIR_entry ::
  "(nat \<Rightarrow> bool) \<Rightarrow> search_result \<Rightarrow> fatvol \<Rightarrow> u8 list \<Rightarrow> search_result option option" where
  "FAT_search_DIR_entry mem junk vol directory =
     (if length directory = 0 \<or> length directory > FILENAME_MAX then Some None
      else case FAT_parse_directory mem directory of
             None \<Rightarrow> Some None
           | Some names \<Rightarrow> search_splits vol names (RootClus (PB vol)) False junk)"

section \<open>Writing entries and the table\<close>

definition put_entry :: "u8 list \<Rightarrow> nat \<Rightarrow> dirent \<Rightarrow> u8 list option" where
  "put_entry buf i e = (if ENTRY_SIZE * i + ENTRY_SIZE \<le> length buf then Some (splice buf (ENTRY_SIZE * i) (encode_entry e)) else None)"

definition FAT_write_DIR_entry :: "fatvol \<Rightarrow> search_result \<Rightarrow> (bool \<times> fatvol) option" where
  "FAT_write_DIR_entry vol entry =
     do { r \<leftarrow> diskRead vol (sr_sector entry) 1;
          case r of
            None \<Rightarrow> Some (False, vol)
          | Some buf \<Rightarrow> do { buf' \<leftarrow> put_entry buf (sr_offset entry) (sr_entry entry); diskWrite vol (sr_sector entry) 1 buf' } }"

definition table_bytes :: "u16 list \<Rightarrow> u8 list" where
  "table_bytes t = concat (map (\<lambda>w. le_bytes 2 (unat w)) t)"

fun write_tables :: "fatvol \<Rightarrow> u8 list \<Rightarrow> u32 \<Rightarrow> nat \<Rightarrow> (bool \<times> fatvol) option" where
  "write_tables vol bytes sec 0 = Some (True, vol)"
| "write_tables vol bytes sec (Suc n) =
     do { (ok, vol1) \<leftarrow> diskWrite vol sec (ucast (FATSz16 (PB vol))) bytes;
          if \<not> ok then Some (False, vol1) else write_tables vol1 bytes (sec + ucast (FATSz16 (PB vol))) n }"

definition FAT_write_FAT_table :: "fatvol \<Rightarrow> (bool \<times> fatvol) option" where
  "FAT_write_FAT_table vol =
     do { t \<leftarrow> FAT vol; write_tables vol (table_bytes t) (ucast (ResvdSecCnt (PB vol))) (unat (NumFATs (PB vol))) }"

text \<open>Whether a directory has no entries in use; \<open>start\<close> skips the first two in the first cluster.\<close>

fun void_scan :: "dirent list \<Rightarrow> bool option" where
  "void_scan [] = None"
| "void_scan (e # es) =
     (if DIR_Name e ! 0 \<noteq> DIR_ENTRY_FREE then Some (DIR_Name e ! 0 = DIR_ENTRY_LAST_FREE) else void_scan es)"

partial_function (option) void_loop :: "fatvol \<Rightarrow> u16 \<Rightarrow> nat \<Rightarrow> bool option" where
  "void_loop vol cluster start =
     (if FAT_cluster_isEOC cluster then Some True
      else do { r \<leftarrow> diskReadC vol (FAT_FSoC vol cluster);
                case r of
                  None \<Rightarrow> Some False
                | Some bs \<Rightarrow>
                   do { es \<leftarrow> entries_of bs (dir_items vol);
                        case void_scan (drop start es) of
                          Some b \<Rightarrow> Some b
                        | None \<Rightarrow> do { c \<leftarrow> FAT_get_cluster_from_table vol cluster; void_loop vol c 0 } } })"

declare void_loop.simps [code]

definition FAT_directory_is_void :: "fatvol \<Rightarrow> dirent \<Rightarrow> bool option" where
  "FAT_directory_is_void vol dir = void_loop vol (DIR_FstClus dir) 2"

end
