(* ===== verification/FatOps.thy ===== *)
theory FatOps
  imports FatDir
begin

text \<open>
  The operations of \<^verbatim>\<open>src/fat/fat.c\<close> on entries of directories: look-up, creation, links, attributes, renaming, truncation, deletion
  and the statistics of a listing. \<open>False\<close> is the result \<open>-1\<close>; the volume is returned as it is then.
\<close>

section \<open>Look-up\<close>

definition FAT_get_entry :: "(nat \<Rightarrow> bool) \<Rightarrow> search_result \<Rightarrow> fatvol \<Rightarrow> u8 list \<Rightarrow> (bool \<times> dirent) option" where
  "FAT_get_entry mem junk vol entryname =
     (if length entryname = 0 then Some (False, sr_entry junk)
      else do { r \<leftarrow> FAT_search_DIR_entry mem junk vol entryname;
                case r of
                  None \<Rightarrow> Some (False, zero_entry)
                | Some search \<Rightarrow>
                   if FAT_check_DIR_entry (sr_entry search) > 0 then Some (True, sr_entry search) else Some (False, zero_entry) })"

section \<open>Creation\<close>

text \<open>What \<open>FAT_create_entry\<close> and \<open>FAT_create_link\<close> have in common: the containing directory exists, the new name is valid
  and not in use, and there is a free entry for it. A directory without one would grow by a cluster.\<close>

definition grow_directory :: "fatvol \<Rightarrow> u16 \<Rightarrow> u16 \<Rightarrow> search_result \<Rightarrow> (search_result option \<times> fatvol) option" where
  "grow_directory vol first cluster res =
     do { (FATcluster, vol1) \<leftarrow> FAT_get_free_cluster_from_table vol;
          if FATcluster = 0 then Some (None, vol1)
          else
            do { (ok, vol2) \<leftarrow> FAT_set_cluster_into_table vol1 cluster FATcluster;
                 if \<not> ok then Some (None, vol2)
                 else
                   do { (ok, vol3) \<leftarrow> FAT_set_EOC_into_table vol2 FATcluster;
                        if \<not> ok then do { (_, vol4) \<leftarrow> FAT_set_EOC_into_table vol3 cluster; Some (None, vol4) }
                        else
                          do { (ok, vol4) \<leftarrow> FAT_write_FAT_table vol3;
                               if \<not> ok then Some (None, vol4)
                               else
                                 do { (ok, vol5) \<leftarrow> FAT_write_FAT_table vol4;
                                      Some (if ok then Some (res\<lparr>sr_sector := FAT_FSoC vol cluster, sr_offset := 0, sr_container := first\<rparr>)
                                            else None, vol5) } } } } }"

definition container_cluster :: "(nat \<Rightarrow> bool) \<Rightarrow> search_result \<Rightarrow> fatvol \<Rightarrow> u8 list \<Rightarrow> u16 option option" where
  "container_cluster mem junk vol name =
     (if name = [] then Some (Some (RootClus (PB vol)))
      else do { r \<leftarrow> FAT_search_DIR_entry mem junk vol name; Some (map_option (\<lambda>s. DIR_FstClus (sr_entry s)) r) })"

definition find_slot ::
  "(nat \<Rightarrow> bool) \<Rightarrow> search_result \<Rightarrow> fatvol \<Rightarrow> u8 list \<Rightarrow> ((search_result \<times> u8 list) option \<times> fatvol) option" where
  "find_slot mem junk vol path =
     do { pos \<leftarrow> FAT_parse_directory_last path;
          if length path - pos - 1 > DIR_NAMELEN \<or> \<not> mem (pos + 1) then Some (None, vol)
          else
            do { first \<leftarrow> container_cluster mem junk vol (take pos path);
                 case (first, FAT_build_DIR_name (drop (pos + 1) path)) of
                   (Some first, Some localname) \<Rightarrow>
                     do { (found, _, res) \<leftarrow> foreach_chain vol localname FAT_search_loop first junk;
                          if found then Some (None, vol)
                          else
                            do { (_, cluster, res) \<leftarrow> foreach_chain vol [] FAT_search_free_loop first res;
                                 if FAT_cluster_isEOC cluster
                                 then do { (r, vol1) \<leftarrow> grow_directory vol first cluster res;
                                           Some (map_option (\<lambda>r. (r, localname)) r, vol1) }
                                 else Some (Some (res, localname), vol) } }
                 | _ \<Rightarrow> Some (None, vol) } }"

text \<open>The first two entries of a new directory.\<close>

definition dots_buffer :: "fatvol \<Rightarrow> search_result \<Rightarrow> u8 list option" where
  "dots_buffer vol res =
     (let e0 = (sr_entry res)\<lparr>DIR_Name := 0x2E # replicate (DIR_NAMELEN - 1) 0x20\<rparr>;
          e1 = e0\<lparr>DIR_Name := 0x2E # 0x2E # replicate (DIR_NAMELEN - 2) 0x20, DIR_FstClus := sr_container res\<rparr>
      in do { b \<leftarrow> put_entry (replicate (unat (BytesPerCluster vol)) 0) 0 e0; put_entry b 1 e1 })"

definition make_directory ::
  "(nat \<Rightarrow> bool) \<Rightarrow> fatvol \<Rightarrow> search_result \<Rightarrow> (search_result option \<times> fatvol) option" where
  "make_directory mem vol res =
     do { (FATcluster, vol1) \<leftarrow> FAT_get_free_cluster_from_table vol;
          if FATcluster = 0 \<or> \<not> mem (unat (BytesPerCluster vol)) then Some (None, vol1)
          else
            (let res = res\<lparr>sr_entry := (sr_entry res)\<lparr>DIR_FstClus := FATcluster\<rparr>\<rparr> in
             do { buf \<leftarrow> dots_buffer vol1 res;
                  (ok, vol2) \<leftarrow> diskWriteC vol1 (FAT_FSoC vol1 FATcluster) buf;
                  if \<not> ok then Some (None, vol2)
                  else do { (_, vol3) \<leftarrow> FAT_set_EOC_into_table vol2 FATcluster;
                            (_, vol4) \<leftarrow> FAT_write_FAT_table vol3; Some (Some res, vol4) } }) }"

definition FAT_create_entry ::
  "(nat \<Rightarrow> bool) \<Rightarrow> search_result \<Rightarrow> tm \<Rightarrow> fatvol \<Rightarrow> u8 list \<Rightarrow> u8 \<Rightarrow> (bool \<times> fatvol) option" where
  "FAT_create_entry mem junk now vol entryname attributes =
     (if length entryname < 2 \<or> entryname ! 0 \<noteq> SEP then Some (False, vol)
      else if \<not> FAT_check_attrib attributes \<or> attributes AND ATTR_LINK \<noteq> 0 then Some (False, vol)
      else
        do { (slot, vol1) \<leftarrow> find_slot mem junk vol entryname;
             case slot of
               None \<Rightarrow> Some (False, vol1)
             | Some (res, localname) \<Rightarrow>
                (let e = zero_entry\<lparr>DIR_Name := localname, DIR_Attr := attributes\<rparr>;
                     res = res\<lparr>sr_entry := FAT_update_timestamps now e FAT_TS_CREATE\<rparr>
                 in do { (res, vol2) \<leftarrow> (if attributes AND ATTR_DIRECTORY \<noteq> 0 then make_directory mem vol1 res else Some (Some res, vol1));
                         case res of
                           None \<Rightarrow> Some (False, vol2)
                         | Some res \<Rightarrow> FAT_write_DIR_entry vol2 res }) })"

definition PATH_MAX :: nat where "PATH_MAX = 1023"

definition FAT_create_link ::
  "(nat \<Rightarrow> bool) \<Rightarrow> search_result \<Rightarrow> tm \<Rightarrow> fatvol \<Rightarrow> u8 list \<Rightarrow> u8 list \<Rightarrow> (bool \<times> fatvol) option" where
  "FAT_create_link mem junk now vol linkname entryname =
     (if length linkname < 2 \<or> length linkname > PATH_MAX \<or> linkname ! 0 \<noteq> SEP then Some (False, vol)
      else if length entryname < 2 \<or> length entryname > PATH_MAX \<or> entryname ! 0 \<noteq> SEP then Some (False, vol)
      else
        do { (slot, vol1) \<leftarrow> find_slot mem junk vol linkname;
             case slot of
               None \<Rightarrow> Some (False, vol1)
             | Some (res, localname) \<Rightarrow>
                (let e = zero_entry\<lparr>DIR_Name := localname, DIR_Attr := ATTR_LINK, DIR_FileSize := of_nat (length entryname)\<rparr>;
                     e = FAT_update_timestamps now e FAT_TS_CREATE
                 in do { (FATcluster, vol2) \<leftarrow> FAT_get_free_cluster_from_table vol1;
                         if FATcluster = 0 \<or> \<not> mem (unat (BytesPerCluster vol2)) then Some (False, vol2)
                         else if length entryname > unat (BytesPerCluster vol2) then None
                         else
                           do { (ok, vol3) \<leftarrow> diskWriteC vol2 (FAT_FSoC vol2 FATcluster)
                                               (splice (replicate (unat (BytesPerCluster vol2)) 0) 0 entryname);
                                if \<not> ok then Some (False, vol3)
                                else do { (_, vol4) \<leftarrow> FAT_set_EOC_into_table vol3 FATcluster;
                                          (_, vol5) \<leftarrow> FAT_write_FAT_table vol4;
                                          FAT_write_DIR_entry vol5 (res\<lparr>sr_entry := e\<lparr>DIR_FstClus := FATcluster\<rparr>\<rparr>) } } }) })"

section \<open>Changes\<close>

definition FAT_modify_entry_attr ::
  "(nat \<Rightarrow> bool) \<Rightarrow> search_result \<Rightarrow> fatvol \<Rightarrow> u8 list \<Rightarrow> u8 \<Rightarrow> (bool \<times> fatvol) option" where
  "FAT_modify_entry_attr mem junk vol entryname attributes =
     (let allowed = ATTR_READ_ONLY OR ATTR_HIDDEN OR ATTR_SYSTEM in
      if attributes AND NOT allowed \<noteq> 0 then Some (False, vol)
      else do { r \<leftarrow> FAT_search_DIR_entry mem junk vol entryname;
                case r of
                  None \<Rightarrow> Some (False, vol)
                | Some result \<Rightarrow>
                   (let e = sr_entry result in
                    if DIR_Attr e AND (ATTR_LINK OR ATTR_VOLUME_ID) \<noteq> 0 then Some (False, vol)
                    else FAT_write_DIR_entry vol (result\<lparr>sr_entry := e\<lparr>DIR_Attr := (DIR_Attr e AND NOT allowed) OR attributes\<rparr>\<rparr>)) })"

definition FAT_rename_entry ::
  "(nat \<Rightarrow> bool) \<Rightarrow> search_result \<Rightarrow> fatvol \<Rightarrow> u8 list \<Rightarrow> u8 list \<Rightarrow> (bool \<times> fatvol) option" where
  "FAT_rename_entry mem junk vol entryname newname =
     do { r \<leftarrow> FAT_search_DIR_entry mem junk vol entryname;
          case r of
            None \<Rightarrow> Some (False, vol)
          | Some entry \<Rightarrow>
             if DIR_Attr (sr_entry entry) AND (ATTR_SYSTEM OR ATTR_VOLUME_ID) \<noteq> 0 then Some (False, vol)
             else
               (case FAT_build_DIR_name newname of
                  None \<Rightarrow> Some (False, vol)
                | Some localname \<Rightarrow>
                   do { (found, _, _) \<leftarrow> foreach_chain vol localname FAT_search_loop (sr_container entry) junk;
                        if found then Some (False, vol)
                        else FAT_write_DIR_entry vol (entry\<lparr>sr_entry := (sr_entry entry)\<lparr>DIR_Name := localname\<rparr>\<rparr>) }) }"

definition FAT_truncate_entry ::
  "(nat \<Rightarrow> bool) \<Rightarrow> search_result \<Rightarrow> fatvol \<Rightarrow> u8 list \<Rightarrow> (bool \<times> fatvol) option" where
  "FAT_truncate_entry mem junk vol entryname =
     do { r \<leftarrow> FAT_search_DIR_entry mem junk vol entryname;
          case r of
            None \<Rightarrow> Some (False, vol)
          | Some entry \<Rightarrow>
             if DIR_Attr (sr_entry entry) AND (ATTR_READ_ONLY OR ATTR_SYSTEM OR ATTR_DIRECTORY OR ATTR_VOLUME_ID) \<noteq> 0
             then Some (False, vol)
             else
               do { (ok, vol1) \<leftarrow> FAT_clear_cluster_chain vol (sr_entry entry);
                    if \<not> ok then Some (False, vol1)
                    else
                      do { (ok, vol2) \<leftarrow> FAT_write_DIR_entry vol1 (entry\<lparr>sr_entry := (sr_entry entry)\<lparr>DIR_FstClus := 0, DIR_FileSize := 0\<rparr>\<rparr>);
                           if \<not> ok then Some (False, vol2) else FAT_write_FAT_table vol2 } } }"

definition FAT_delete_entry ::
  "(nat \<Rightarrow> bool) \<Rightarrow> search_result \<Rightarrow> fatvol \<Rightarrow> u8 list \<Rightarrow> (bool \<times> fatvol) option" where
  "FAT_delete_entry mem junk vol entryname =
     do { r \<leftarrow> FAT_search_DIR_entry mem junk vol entryname;
          case r of
            None \<Rightarrow> Some (False, vol)
          | Some entry \<Rightarrow>
             (let e = sr_entry entry in
              if DIR_Attr e AND (ATTR_READ_ONLY OR ATTR_SYSTEM OR ATTR_VOLUME_ID) \<noteq> 0 then Some (False, vol)
              else
                do { void \<leftarrow> (if DIR_Attr e AND ATTR_DIRECTORY \<noteq> 0 then FAT_directory_is_void vol e else Some True);
                     if \<not> void then Some (False, vol)
                     else
                       (let e = e\<lparr>DIR_Name := (DIR_Name e)[0 := DIR_ENTRY_FREE]\<rparr> in
                        do { (ok, vol1) \<leftarrow> FAT_write_DIR_entry vol (entry\<lparr>sr_entry := e\<rparr>);
                             if \<not> ok then Some (False, vol1)
                             else
                               do { (ok, vol2) \<leftarrow> FAT_clear_cluster_chain vol1 e;
                                    if \<not> ok then Some (False, vol2) else FAT_write_FAT_table vol2 } }) }) }"

section \<open>Listing\<close>

definition FAT_list_cluster :: "fatvol \<Rightarrow> u16 \<Rightarrow> fat_statistics \<Rightarrow> fat_statistics option" where
  "FAT_list_cluster vol cluster st =
     do { r \<leftarrow> diskReadC vol (FAT_FSoC vol cluster);
          case r of
            None \<Rightarrow> Some st
          | Some bs \<Rightarrow> do { es \<leftarrow> entries_of bs (dir_items vol); Some (FAT_update_statistics es st) } }"

partial_function (option) list_loop :: "fatvol \<Rightarrow> u16 \<Rightarrow> fat_statistics \<Rightarrow> fat_statistics option" where
  "list_loop vol cluster st =
     (if FAT_cluster_isEOC cluster then Some st
      else do { st1 \<leftarrow> FAT_list_cluster vol cluster st;
                c \<leftarrow> FAT_get_cluster_from_table vol cluster; list_loop vol c st1 })"

declare list_loop.simps [code]

text \<open>The statistics that are printed; a single file has none.\<close>

definition FAT_list :: "(nat \<Rightarrow> bool) \<Rightarrow> search_result \<Rightarrow> fatvol \<Rightarrow> u8 list \<Rightarrow> (bool \<times> fat_statistics option) option" where
  "FAT_list mem junk vol directory =
     (let st = \<lparr>totbytes = 0, totfiles = 0, totlinks = 0, totdirs = 0, totavail = 0\<rparr> in
      if directory = [SEP] then do { st \<leftarrow> FAT_list_cluster vol (RootClus (PB vol)) st; Some (True, Some st) }
      else do { r \<leftarrow> FAT_search_DIR_entry mem junk vol directory;
                case r of
                  None \<Rightarrow> Some (False, None)
                | Some search \<Rightarrow>
                   if DIR_Attr (sr_entry search) AND ATTR_DIRECTORY = 0 then Some (True, None)
                   else do { st \<leftarrow> list_loop vol (DIR_FstClus (sr_entry search)) st; Some (True, Some st) } })"

definition FAT_available :: "fatvol \<Rightarrow> (u32 \<times> u16) option option" where
  "FAT_available vol =
     (case FAT vol of
        None \<Rightarrow> Some None
      | Some t \<Rightarrow>
          if unat (FATSize vol) \<le> length t \<or> FATSize vol \<le> 2
          then (let n = of_nat (length (filter (\<lambda>i. FAT_cluster_isFREE (t ! i)) [2..<unat (FATSize vol)])) :: u16
                in Some (Some (ucast n * ucast (BytesPerCluster vol), n)))
          else None)"

section \<open>Directories do not grow\<close>

text \<open>The new cluster is to be linked at the index that ended the search, an end of chain value that is no index of the table: a directory whose
  clusters are full takes no further entry.\<close>

lemma directory_never_grows:
  assumes "vol_table vol t" "FAT_cluster_isEOC cluster"
  shows "\<exists>vol'. grow_directory vol first cluster res = Some (None, vol')"
proof -
  have c: "\<not> cluster < FATSize vol" "FATSize vol \<noteq> 0" "FAT vol = Some t"
    using assms by (auto simp: vol_table_def cluster_defs word_less_nat_alt word_le_nat_alt)
  show ?thesis
    by (rule get_free [OF assms(1)]) (use c in \<open>auto simp: grow_directory_def FAT_set_cluster_into_table_def\<close>)
qed

end
