(* ===== verification/FatStore.thy ===== *)
theory FatStore
  imports FatDir
begin

text \<open>
  The layout of a well-formed volume on its disk: clusters are disjoint ranges of bytes behind the reserved sectors and the
  tables, so that reading and writing a cluster, a table or a directory entry have simple laws.
\<close>

section \<open>Geometry\<close>

definition bps :: "fatvol \<Rightarrow> nat" where "bps vol = unat (bytes_per_sector (vctx vol))"
definition spc :: "fatvol \<Rightarrow> nat" where "spc vol = unat (SecPerClus (PB vol))"
definition bpc :: "fatvol \<Rightarrow> nat" where "bpc vol = unat (BytesPerCluster vol)"
definition data_sector :: "fatvol \<Rightarrow> nat" where "data_sector vol = unat (FirstSector vol) + unat (FirstDataSector vol)"
definition file_of :: "fatvol \<Rightarrow> u8 list" where "file_of vol = d_file (vctx vol)"

definition geometry_ok :: "fatvol \<Rightarrow> bool" where
  "geometry_ok vol \<longleftrightarrow> disk_ok (vctx vol) \<and> BytsPerSec (PB vol) = bytes_per_sector (vctx vol) \<and> 0 < spc vol \<and> bpc vol = spc vol * bps vol \<and>
     FATEntriesPerSec vol = bps vol div 64 \<and> FATSz16 (PB vol) \<noteq> 0 \<and>
     unat (ResvdSecCnt (PB vol)) + unat (NumFATs (PB vol)) * unat (FATSz16 (PB vol)) = unat (FirstDataSector vol) \<and>
     2 \<le> fsize vol \<and> data_sector vol + (fsize vol - 2) * spc vol \<le> unat (num_of_sectors (vctx vol))"

definition vol_ok :: "fatvol \<Rightarrow> u16 list \<Rightarrow> bool" where
  "vol_ok vol t \<longleftrightarrow> geometry_ok vol \<and> vol_table vol t \<and> 2 * length t = unat (FATSz16 (PB vol)) * bps vol"

text \<open>The position of a cluster on the disk.\<close>

definition cluster_sector :: "fatvol \<Rightarrow> u16 \<Rightarrow> nat" where
  "cluster_sector vol c = data_sector vol + (unat c - 2) * spc vol"

definition cluster_pos :: "fatvol \<Rightarrow> u16 \<Rightarrow> nat" where
  "cluster_pos vol c = cluster_sector vol c * bps vol"

definition cluster_data :: "fatvol \<Rightarrow> u16 \<Rightarrow> u8 list" where
  "cluster_data vol c = bytes_at (file_of vol) (cluster_pos vol c) (bpc vol)"

lemma geometryD:
  assumes "geometry_ok vol"
  shows "disk_ok (vctx vol)" "0 < spc vol" "bpc vol = spc vol * bps vol" "0 < bps vol" "0 < bpc vol"
    "length (file_of vol) = unat (num_of_sectors (vctx vol)) * bps vol" "unat (num_of_sectors (vctx vol)) < 2 ^ 31"
    "data_sector vol + (fsize vol - 2) * spc vol \<le> unat (num_of_sectors (vctx vol))" "2 \<le> fsize vol"
  using assms by (auto simp: geometry_ok_def disk_ok_def bps_def file_of_def unat_gt_0)

lemma cluster_in_disk:
  assumes "geometry_ok vol" "in_data (fsize vol) c"
  shows "cluster_sector vol c + spc vol \<le> unat (num_of_sectors (vctx vol))" "cluster_pos vol c + bpc vol \<le> length (file_of vol)"
    "data_sector vol \<le> cluster_sector vol c"
proof -
  note g = geometryD [OF assms(1)]
  have "(unat c - 2) * spc vol + spc vol = Suc (unat c - 2) * spc vol" by simp
  also have "\<dots> \<le> (fsize vol - 2) * spc vol" using assms(2) by (intro mult_right_mono) (auto simp: in_data_def)
  finally show s: "cluster_sector vol c + spc vol \<le> unat (num_of_sectors (vctx vol))" using g(8) by (simp add: cluster_sector_def)
  then have "(cluster_sector vol c + spc vol) * bps vol \<le> unat (num_of_sectors (vctx vol)) * bps vol" by (rule mult_right_mono) simp
  then show "cluster_pos vol c + bpc vol \<le> length (file_of vol)" using g(3,6) by (simp add: cluster_pos_def algebra_simps)
  show "data_sector vol \<le> cluster_sector vol c" by (simp add: cluster_sector_def)
qed

lemma FSoC_sector:
  assumes "geometry_ok vol" "in_data (fsize vol) c"
  shows "unat (FirstSector vol + FAT_FSoC vol c) = cluster_sector vol c"
proof -
  have c: "cluster_sector vol c < 2 ^ 32"
    using cluster_in_disk(1) [OF assms] geometryD(7) [OF assms(1)] by simp
  have "(ucast c - 2 :: u32) = of_nat (unat c - 2)" using assms(2) by (simp add: in_data_def of_nat_diff)
  then have "FirstSector vol + FAT_FSoC vol c = of_nat (cluster_sector vol c)"
    by (simp add: FAT_FSoC_def cluster_sector_def data_sector_def spc_def)
  then show ?thesis using c by simp
qed

lemma clusters_apart:
  assumes "geometry_ok vol" "in_data (fsize vol) c" "in_data (fsize vol) d" "c \<noteq> d"
  shows "cluster_pos vol c + bpc vol \<le> cluster_pos vol d \<or> cluster_pos vol d + bpc vol \<le> cluster_pos vol c"
proof -
  have less: "cluster_pos vol a + bpc vol \<le> cluster_pos vol b" if "unat a < unat b" "2 \<le> unat a" for a b
  proof -
    have "Suc (unat a - 2) \<le> unat b - 2" using that by linarith
    then have "(unat a - 2) * spc vol + spc vol \<le> (unat b - 2) * spc vol"
      using mult_right_mono [of "Suc (unat a - 2)" "unat b - 2" "spc vol"] by simp
    then have "(cluster_sector vol a + spc vol) * bps vol \<le> cluster_sector vol b * bps vol"
      by (intro mult_right_mono) (simp_all add: cluster_sector_def)
    then show ?thesis using geometryD(3) [OF assms(1)] by (simp add: cluster_pos_def algebra_simps)
  qed
  consider "unat c < unat d" | "unat d < unat c" using assms(4) by (metis linorder_neqE word_unat_eq_iff)
  then show ?thesis using less [of c d] less [of d c] assms(2,3) by cases (auto simp: in_data_def)
qed

section \<open>Writing to the disk\<close>

definition put_bytes :: "fatvol \<Rightarrow> nat \<Rightarrow> u8 list \<Rightarrow> fatvol" where
  "put_bytes vol a ys = vol\<lparr>vctx := (vctx vol)\<lparr>d_file := splice (file_of vol) a ys\<rparr>\<rparr>"

lemma put_bytes_simps [simp]:
  "PB (put_bytes vol a ys) = PB vol" "FAT (put_bytes vol a ys) = FAT vol" "FirstSector (put_bytes vol a ys) = FirstSector vol"
  "FATSize (put_bytes vol a ys) = FATSize vol" "BytesPerCluster (put_bytes vol a ys) = BytesPerCluster vol"
  "lastFreeFATEntry (put_bytes vol a ys) = lastFreeFATEntry vol" "fsize (put_bytes vol a ys) = fsize vol" "bps (put_bytes vol a ys) = bps vol"
  "spc (put_bytes vol a ys) = spc vol" "bpc (put_bytes vol a ys) = bpc vol" "data_sector (put_bytes vol a ys) = data_sector vol"
  "cluster_sector (put_bytes vol a ys) c = cluster_sector vol c" "cluster_pos (put_bytes vol a ys) c = cluster_pos vol c"
  "file_of (put_bytes vol a ys) = splice (file_of vol) a ys" "num_of_sectors (vctx (put_bytes vol a ys)) = num_of_sectors (vctx vol)"
  "vol_table (put_bytes vol a ys) t = vol_table vol t" "FAT_FSoC (put_bytes vol a ys) c = FAT_FSoC vol c"
  by (simp_all add: put_bytes_def fsize_def bps_def spc_def bpc_def data_sector_def cluster_sector_def cluster_pos_def file_of_def
      vol_table_def FAT_FSoC_def)

lemma put_bytes_geometry:
  "geometry_ok vol \<Longrightarrow> a + length ys \<le> length (file_of vol) \<Longrightarrow> geometry_ok (put_bytes vol a ys)"
  by (auto simp: geometry_ok_def disk_ok_def put_bytes_def file_of_def splice_length fsize_def bps_def spc_def bpc_def data_sector_def)

lemma put_bytes_ok: "vol_ok vol t \<Longrightarrow> a + length ys \<le> length (file_of vol) \<Longrightarrow> vol_ok (put_bytes vol a ys) t"
  by (simp add: vol_ok_def put_bytes_geometry)

lemma ucast_spc: "unat (ucast (SecPerClus (PB vol)) :: u32) = spc vol" "0 < spc vol \<Longrightarrow> (ucast (SecPerClus (PB vol)) :: u32) \<noteq> 0"
  by (auto simp: spc_def unat_ucast_up ucast_up_0_iff unat_gt_0)

lemma readC_ok:
  assumes "geometry_ok vol" "in_data (fsize vol) c"
  shows "diskReadC vol (FAT_FSoC vol c) = Some (Some (cluster_data vol c))"
proof -
  note g = geometryD [OF assms(1)]
  have "disk_read (vctx vol) (FirstSector vol + FAT_FSoC vol c) (ucast (SecPerClus (PB vol))) = Some (cluster_data vol c)"
    using disk_read_ok [OF g(1), of "ucast (SecPerClus (PB vol))" "FirstSector vol + FAT_FSoC vol c"] cluster_in_disk(1) [OF assms] g(2,3)
    by (simp add: FSoC_sector [OF assms] ucast_spc cluster_data_def cluster_pos_def file_of_def bps_def [symmetric])
  then show ?thesis using g(3) by (simp add: diskReadC_def diskRead_def ucast_spc bpc_def bps_def)
qed

lemma writeC_ok:
  assumes "geometry_ok vol" "in_data (fsize vol) c" "bpc vol \<le> length buf"
  shows "diskWriteC vol (FAT_FSoC vol c) buf = Some (True, put_bytes vol (cluster_pos vol c) (take (bpc vol) buf))"
proof -
  note g = geometryD [OF assms(1)]
  have "\<not> bad_range (vctx vol) (FirstSector vol + FAT_FSoC vol c) (ucast (SecPerClus (PB vol)))"
    by (rule range_ok(1) [OF g(1)]) (use g(2) cluster_in_disk(1) [OF assms(1,2)] in
      \<open>simp_all add: FSoC_sector [OF assms(1,2)] ucast_spc\<close>)
  then show ?thesis using assms(3) g(3)
    by (simp add: diskWriteC_def diskWrite_def disk_write_def ucast_spc FSoC_sector [OF assms(1,2)] put_bytes_def cluster_pos_def file_of_def bps_def)
qed

lemma cluster_data_length: "geometry_ok vol \<Longrightarrow> in_data (fsize vol) c \<Longrightarrow> length (cluster_data vol c) = bpc vol"
  using cluster_in_disk(2) by (simp add: cluster_data_def bytes_at_length)

lemma cluster_data_put:
  assumes "geometry_ok vol" "in_data (fsize vol) c" "in_data (fsize vol) d" "length ys = bpc vol"
  shows "cluster_data (put_bytes vol (cluster_pos vol c) ys) d = (if d = c then ys else cluster_data vol d)"
  using clusters_apart [OF assms(1-3)] cluster_in_disk(2) [OF assms(1,2)] cluster_in_disk(2) [OF assms(1,3)] assms(4)
  by (auto simp: cluster_data_def bytes_at_splice_same intro!: bytes_at_splice_apart)

section \<open>What a step may change\<close>

text \<open>The table and the bytes of the disk at the positions \<open>A\<close> change, nothing else does.\<close>

definition evolves :: "fatvol \<Rightarrow> fatvol \<Rightarrow> u16 list \<Rightarrow> nat set \<Rightarrow> bool" where
  "evolves vol vol' t' A \<longleftrightarrow> vol_ok vol' t' \<and>
     (\<exists>l f. vol' = vol\<lparr>FAT := Some t', lastFreeFATEntry := l, vctx := (vctx vol)\<lparr>d_file := f\<rparr>\<rparr> \<and> length f = length (file_of vol) \<and>
       (\<forall>i < length f. i \<notin> A \<longrightarrow> f ! i = file_of vol ! i))"

lemma evolvesD:
  assumes "evolves vol vol' t' A"
  shows "vol_ok vol' t'" "fsize vol' = fsize vol" "bps vol' = bps vol" "spc vol' = spc vol" "bpc vol' = bpc vol" "data_sector vol' = data_sector vol"
    "cluster_pos vol' c = cluster_pos vol c" "length (file_of vol') = length (file_of vol)" "PB vol' = PB vol" "FirstSector vol' = FirstSector vol"
    "FirstDataSector vol' = FirstDataSector vol" "num_of_sectors (vctx vol') = num_of_sectors (vctx vol)" "BytesPerCluster vol' = BytesPerCluster vol"
    "i < length (file_of vol) \<Longrightarrow> i \<notin> A \<Longrightarrow> file_of vol' ! i = file_of vol ! i" "FATEntriesPerSec vol' = FATEntriesPerSec vol"
  using assms by (auto simp: evolves_def fsize_def bps_def spc_def bpc_def data_sector_def cluster_pos_def cluster_sector_def file_of_def)

lemma evolves_refl: "vol_ok vol t \<Longrightarrow> evolves vol vol t A"
  unfolding evolves_def by (intro conjI exI [of _ "lastFreeFATEntry vol"] exI [of _ "file_of vol"])
    (auto simp: file_of_def vol_ok_def vol_table_def)

lemma evolves_trans:
  assumes "evolves v0 v1 t1 A" "evolves v1 v2 t2 B"
  shows "evolves v0 v2 t2 (A \<union> B)"
proof -
  obtain l f where f: "v1 = v0\<lparr>FAT := Some t1, lastFreeFATEntry := l, vctx := (vctx v0)\<lparr>d_file := f\<rparr>\<rparr>" "length f = length (file_of v0)"
    "\<forall>i < length f. i \<notin> A \<longrightarrow> f ! i = file_of v0 ! i" using assms(1) by (auto simp: evolves_def)
  obtain l' f' where f': "v2 = v1\<lparr>FAT := Some t2, lastFreeFATEntry := l', vctx := (vctx v1)\<lparr>d_file := f'\<rparr>\<rparr>" "length f' = length (file_of v1)"
    "\<forall>i < length f'. i \<notin> B \<longrightarrow> f' ! i = file_of v1 ! i" using assms(2) by (auto simp: evolves_def)
  have "v2 = v0\<lparr>FAT := Some t2, lastFreeFATEntry := l', vctx := (vctx v0)\<lparr>d_file := f'\<rparr>\<rparr>" using f(1) f'(1) by simp
  moreover have "length f' = length (file_of v0)" "\<forall>i < length f'. i \<notin> A \<union> B \<longrightarrow> f' ! i = file_of v0 ! i"
    using f f' by (simp_all add: file_of_def)
  ultimately show ?thesis using assms(2) unfolding evolves_def by blast
qed

lemma evolves_mono: "evolves vol vol' t' A \<Longrightarrow> A \<subseteq> B \<Longrightarrow> evolves vol vol' t' B"
  unfolding evolves_def by blast

lemma evolves_put:
  assumes "vol_ok vol t" "a + length ys \<le> length (file_of vol)" "{a..<a + length ys} \<subseteq> A"
  shows "evolves vol (put_bytes vol a ys) t A"
proof -
  have "FAT vol = Some t" using assms(1) by (simp add: vol_ok_def vol_table_def)
  then show ?thesis unfolding evolves_def
    by (intro conjI exI [of _ "lastFreeFATEntry vol"] exI [of _ "splice (file_of vol) a ys"])
      (use assms put_bytes_ok in \<open>auto simp: put_bytes_def splice_length splice_nth\<close>)
qed

lemma evolves_table:
  assumes "vol_ok vol t" "length t' = length t" "vol_table (vol\<lparr>FAT := Some t', lastFreeFATEntry := y\<rparr>) t'"
  shows "evolves vol (vol\<lparr>FAT := Some t', lastFreeFATEntry := y\<rparr>) t' A"
  unfolding evolves_def
  by (intro conjI exI [of _ y] exI [of _ "file_of vol"])
    (use assms in \<open>auto simp: file_of_def vol_ok_def geometry_ok_def fsize_def bps_def spc_def bpc_def data_sector_def\<close>)

lemma evolves_bytes:
  assumes "evolves vol vol' t' A" "a + n \<le> length (file_of vol)" "{a..<a + n} \<inter> A = {}"
  shows "bytes_at (file_of vol') a n = bytes_at (file_of vol) a n"
proof (rule nth_equalityI)
  fix i assume "i < length (bytes_at (file_of vol') a n)"
  then have i: "i < n" using assms(2) evolvesD(8) [OF assms(1)] by (simp add: bytes_at_length)
  then have "a + i \<in> {a..<a + n}" by simp
  then have "a + i \<notin> A" using assms(3) by blast
  then show "bytes_at (file_of vol') a n ! i = bytes_at (file_of vol) a n ! i"
    using i assms(2) evolvesD(8) [OF assms(1)] evolvesD(14) [OF assms(1), of "a + i"] by (simp add: bytes_at_nth)
qed (use assms(2) evolvesD(8) [OF assms(1)] in \<open>simp add: bytes_at_length\<close>)

text \<open>The bytes of a cluster.\<close>

definition crange :: "fatvol \<Rightarrow> u16 \<Rightarrow> nat set" where
  "crange vol c = {cluster_pos vol c..<cluster_pos vol c + bpc vol}"

lemma crange_apart:
  assumes "geometry_ok vol" "in_data (fsize vol) c" "in_data (fsize vol) d" "c \<noteq> d"
  shows "crange vol c \<inter> crange vol d = {}"
  using clusters_apart [OF assms] by (auto simp: crange_def)

lemma evolves_cluster_data:
  assumes "evolves vol vol' t' (\<Union>c\<in>C. crange vol c)" "geometry_ok vol" "in_data (fsize vol) d" "d \<notin> C" "\<forall>c\<in>C. in_data (fsize vol) c"
  shows "cluster_data vol' d = cluster_data vol d"
proof -
  have "crange vol d \<inter> (\<Union>c\<in>C. crange vol c) = {}" using crange_apart [OF assms(2,3)] assms(4,5) by blast
  then show ?thesis using evolves_bytes [OF assms(1) cluster_in_disk(2) [OF assms(2,3)]] evolvesD(5,7) [OF assms(1)]
    by (simp add: cluster_data_def crange_def)
qed

section \<open>Directory entries and tables on disk\<close>

text \<open>The place of an entry on disk, and the entry there.\<close>

definition entry_pos :: "fatvol \<Rightarrow> search_result \<Rightarrow> nat" where
  "entry_pos vol s = (unat (FirstSector vol) + unat (sr_sector s)) * bps vol + 64 * sr_offset s"

definition entry_on_disk :: "fatvol \<Rightarrow> search_result \<Rightarrow> dirent" where
  "entry_on_disk vol s = decode_entry (bytes_at (file_of vol) (entry_pos vol s) 64)"

definition entry_place :: "fatvol \<Rightarrow> search_result \<Rightarrow> bool" where
  "entry_place vol s \<longleftrightarrow> unat (FirstSector vol) + unat (sr_sector s) < unat (num_of_sectors (vctx vol)) \<and> 64 * sr_offset s + 64 \<le> bps vol"

lemma splice_splice:
  assumes "b + length ys \<le> n" "a + n \<le> length xs"
  shows "splice xs a (splice (bytes_at xs a n) b ys) = splice xs (a + b) ys"
  by (rule nth_equalityI)
    (use assms in \<open>auto simp: splice_length bytes_at_length splice_nth bytes_at_nth\<close>)

lemma entry_pos_bound:
  assumes "geometry_ok vol" "entry_place vol s"
  shows "entry_pos vol s + 64 \<le> length (file_of vol)"
proof -
  have "Suc (unat (FirstSector vol) + unat (sr_sector s)) * bps vol \<le> unat (num_of_sectors (vctx vol)) * bps vol"
    using assms(2) by (intro mult_right_mono) (simp_all add: entry_place_def)
  then show ?thesis using assms(2) geometryD(6) [OF assms(1)] by (simp add: entry_pos_def entry_place_def)
qed

lemma write_entry_ok:
  assumes "geometry_ok vol" "entry_place vol s" "length (DIR_Name (sr_entry s)) = 39"
  shows "FAT_write_DIR_entry vol s = Some (True, put_bytes vol (entry_pos vol s) (encode_entry (sr_entry s)))"
proof -
  note g = geometryD [OF assms(1)]
  let ?s = "FirstSector vol + sr_sector s" and ?p = "(unat (FirstSector vol) + unat (sr_sector s)) * bps vol"
  have u: "unat ?s = unat (FirstSector vol) + unat (sr_sector s)"
    by (rule unat_add_small) (use assms(2) g(7) in \<open>simp add: entry_place_def\<close>)
  have le: "unat ?s + unat (1 :: u32) \<le> unat (num_of_sectors (vctx vol))" using assms(2) u by (simp add: entry_place_def)
  have b: "bps vol \<le> bpc vol" using g(2,3) by simp
  have r: "diskRead vol (sr_sector s) 1 = Some (Some (bytes_at (file_of vol) ?p (bps vol)))"
    using disk_read_ok [OF g(1) _ le] b by (simp add: diskRead_def u bps_def [symmetric] bpc_def [symmetric] file_of_def)
  have in_file: "?p + bps vol \<le> length (file_of vol)" using range_ok(2) [OF g(1) _ le] by (simp add: u bps_def file_of_def)
  let ?b = "splice (bytes_at (file_of vol) ?p (bps vol)) (64 * sr_offset s) (encode_entry (sr_entry s))"
  have p: "put_entry (bytes_at (file_of vol) ?p (bps vol)) (sr_offset s) (sr_entry s) = Some ?b"
    using assms(2) in_file by (simp add: put_entry_def ENTRY_SIZE_def bytes_at_length entry_place_def)
  have l: "length ?b = bps vol" using assms(2,3) in_file by (simp add: splice_length bytes_at_length encode_length entry_place_def)
  have w: "diskWrite vol (sr_sector s) 1 ?b = Some (True, put_bytes vol ?p ?b)"
    using range_ok(1) [OF g(1) _ le] l by (simp add: diskWrite_def disk_write_def u bps_def [symmetric] put_bytes_def file_of_def)
  have "splice (file_of vol) ?p ?b = splice (file_of vol) (entry_pos vol s) (encode_entry (sr_entry s))"
    unfolding entry_pos_def using assms(2,3) in_file by (intro splice_splice) (simp_all add: encode_length entry_place_def)
  then have "put_bytes vol ?p ?b = put_bytes vol (entry_pos vol s) (encode_entry (sr_entry s))" by (simp add: put_bytes_def)
  then show ?thesis using r p w by (simp add: FAT_write_DIR_entry_def)
qed

lemma entry_on_disk_put:
  assumes "geometry_ok vol" "entry_place vol s" "length (DIR_Name e) = 39"
  shows "entry_on_disk (put_bytes vol (entry_pos vol s) (encode_entry e)) s = e"
  using entry_pos_bound [OF assms(1,2)] assms(3) encode_length [OF assms(3)]
  by (simp add: entry_on_disk_def entry_pos_def bytes_at_splice_same decode_encode)

text \<open>The tables lie in front of the data.\<close>

definition table_range :: "fatvol \<Rightarrow> nat set" where
  "table_range vol = {(unat (FirstSector vol) + unat (ResvdSecCnt (PB vol))) * bps vol..<data_sector vol * bps vol}"

lemma table_bytes_length [simp]: "length (table_bytes t) = 2 * length t"
  by (induction t) (simp_all add: table_bytes_def)

text \<open>The copies of the table on disk hold the bytes of \<open>t\<close>.\<close>

definition tables_on_disk :: "fatvol \<Rightarrow> u16 list \<Rightarrow> bool" where
  "tables_on_disk vol t \<longleftrightarrow> (\<forall>k < unat (NumFATs (PB vol)).
     bytes_at (file_of vol) ((unat (FirstSector vol) + unat (ResvdSecCnt (PB vol)) + k * unat (FATSz16 (PB vol))) * bps vol)
       (unat (FATSz16 (PB vol)) * bps vol) = table_bytes t)"

lemma write_tables_ok:
  assumes "vol_ok vol t" "length bytes = unat (FATSz16 (PB vol)) * bps vol"
    and "unat (FirstSector vol) + unat sec + n * unat (FATSz16 (PB vol)) = data_sector vol"
  shows "\<exists>vol'. write_tables vol bytes sec n = Some (True, vol') \<and>
    evolves vol vol' t {(unat (FirstSector vol) + unat sec) * bps vol..<data_sector vol * bps vol} \<and>
    (\<forall>k < n. bytes_at (file_of vol') ((unat (FirstSector vol) + unat sec + k * unat (FATSz16 (PB vol))) * bps vol) (length bytes) = bytes)"
  using assms
proof (induction n arbitrary: vol sec)
  case 0
  then show ?case using evolves_refl by auto
next
  case (Suc n)
  let ?z = "unat (FATSz16 (PB vol))" and ?s = "FirstSector vol + sec" and ?w = "ucast (FATSz16 (PB vol)) :: u32"
  have g: "geometry_ok vol" using Suc.prems(1) by (simp add: vol_ok_def)
  note gd = geometryD [OF g]
  have z: "unat ?w = ?z" "?w \<noteq> 0" using g by (simp_all add: unat_ucast_up ucast_up_0_iff geometry_ok_def)
  have ds: "unat (FirstSector vol) + unat sec + (?z + n * ?z) = data_sector vol" using Suc.prems(3) by simp
  have nos: "data_sector vol \<le> unat (num_of_sectors (vctx vol))" using gd(8) by linarith
  have u: "unat ?s = unat (FirstSector vol) + unat sec" by (rule unat_add_small) (use ds nos gd(7) in simp)
  have us: "unat (sec + ?w) = unat sec + ?z" unfolding z(1) [symmetric] by (rule unat_add_small) (use ds nos gd(7) z(1) in simp)
  have le: "unat ?s + unat ?w \<le> unat (num_of_sectors (vctx vol))" using u z ds nos by simp
  define P where "P = (unat (FirstSector vol) + unat sec) * bps vol"
  define v1 where "v1 = put_bytes vol P bytes"
  have in_file: "P + length bytes \<le> length (file_of vol)" using range_ok(2) [OF gd(1) z(2) le] Suc.prems(2) z(1) u by (simp add: bps_def file_of_def P_def)
  have w: "diskWrite vol sec ?w bytes = Some (True, v1)"
    using range_ok(1) [OF gd(1) z(2) le] Suc.prems(2) z(1) u by (simp add: diskWrite_def disk_write_def put_bytes_def file_of_def bps_def P_def v1_def)
  have nx: "(unat (FirstSector vol) + (unat sec + ?z)) * bps vol = P + length bytes" using Suc.prems(2) by (simp add: P_def algebra_simps)
  have "(unat (FirstSector vol) + (unat sec + ?z)) * bps vol \<le> data_sector vol * bps vol" using ds by (intro mult_right_mono) simp_all
  then have up: "P + length bytes \<le> data_sector vol * bps vol" using nx by simp
  then have e: "evolves vol v1 t {P..<data_sector vol * bps vol}"
    unfolding v1_def using in_file by (intro evolves_put [OF Suc.prems(1)]) auto
  have same: "FirstSector v1 = FirstSector vol" "PB v1 = PB vol" "bps v1 = bps vol" "data_sector v1 = data_sector vol" by (simp_all add: v1_def)
  obtain vol' where v: "write_tables v1 bytes (sec + ?w) n = Some (True, vol')"
    "evolves v1 vol' t {P + length bytes..<data_sector vol * bps vol}"
    "\<forall>k < n. bytes_at (file_of vol') ((unat (FirstSector vol) + (unat sec + ?z) + k * ?z) * bps vol) (length bytes) = bytes"
    using Suc.IH [of v1 "sec + ?w"] evolvesD(1) [OF e] Suc.prems us ds same nx by auto
  have "evolves v1 vol' t {P..<data_sector vol * bps vol}" using v(2) by (rule evolves_mono) auto
  from evolves_trans [OF e this] have E: "evolves vol vol' t {P..<data_sector vol * bps vol}" by simp
  have "bytes_at (file_of vol') P (length bytes) = bytes_at (file_of v1) P (length bytes)"
    by (rule evolves_bytes [OF v(2)]) (use in_file in \<open>auto simp: v1_def splice_length\<close>)
  also have "\<dots> = bytes" unfolding v1_def using in_file by (simp add: bytes_at_splice_same)
  finally have first: "bytes_at (file_of vol') P (length bytes) = bytes" .
  have "bytes_at (file_of vol') ((unat (FirstSector vol) + unat sec + k * ?z) * bps vol) (length bytes) = bytes" if "k < Suc n" for k
  proof (cases k)
    case 0
    then show ?thesis using first by (simp add: P_def)
  next
    case (Suc j)
    then show ?thesis using v(3) that by (simp add: add.assoc)
  qed
  then show ?case using w v(1) E by (simp add: P_def)
qed

lemma write_table_ok:
  assumes "vol_ok vol t"
  obtains vol' where "FAT_write_FAT_table vol = Some (True, vol')" "evolves vol vol' t (table_range vol)" "tables_on_disk vol' t"
proof -
  have g: "geometry_ok vol" and f: "FAT vol = Some t" and l: "length (table_bytes t) = unat (FATSz16 (PB vol)) * bps vol"
    using assms by (simp_all add: vol_ok_def vol_table_def)
  have r: "unat (ucast (ResvdSecCnt (PB vol)) :: u32) = unat (ResvdSecCnt (PB vol))" by (simp add: unat_ucast_up)
  have "unat (FirstSector vol) + unat (ucast (ResvdSecCnt (PB vol)) :: u32) + unat (NumFATs (PB vol)) * unat (FATSz16 (PB vol)) = data_sector vol"
    using g r by (simp add: geometry_ok_def data_sector_def)
  from write_tables_ok [OF assms l this] obtain vol' where
    v: "write_tables vol (table_bytes t) (ucast (ResvdSecCnt (PB vol))) (unat (NumFATs (PB vol))) = Some (True, vol')"
    "evolves vol vol' t (table_range vol)"
    "\<forall>k < unat (NumFATs (PB vol)). bytes_at (file_of vol') ((unat (FirstSector vol) + unat (ResvdSecCnt (PB vol)) + k * unat (FATSz16 (PB vol))) * bps vol)
       (unat (FATSz16 (PB vol)) * bps vol) = table_bytes t"
    unfolding r l table_range_def by blast
  have "tables_on_disk vol' t" using v(3) evolvesD(3,9,10) [OF v(2)] by (simp add: tables_on_disk_def)
  then show ?thesis using that v(1,2) f by (simp add: FAT_write_FAT_table_def)
qed

end
