(* ===== verification/FatFile.thy ===== *)
theory FatFile
  imports FatStore
begin

text \<open>
  Reading and writing files, \<^verbatim>\<open>FAT_read\<close> and \<^verbatim>\<open>FAT_write\<close> of \<^verbatim>\<open>src/fat/fat.c\<close>. The destination of a read is a list of
  bytes, and a copy beyond its end is a fault; the source of a write is the list of the \<open>buflen\<close> bytes to be written. The
  returned integers are the counts stored through \<open>readlen\<close> and \<open>writelen\<close>.
\<close>

section \<open>Reading\<close>

definition copy_out :: "u8 list \<Rightarrow> nat \<Rightarrow> u8 list \<Rightarrow> u8 list option" where
  "copy_out buf pos bytes = (if pos + length bytes \<le> length buf then Some (splice buf pos bytes) else None)"

text \<open>The state of a read: the cluster, what is left to read, the position in the buffer, the buffer, the count.\<close>

record reading =
  rd_cluster :: u16
  rd_left :: nat
  rd_pos :: nat
  rd_buf :: "u8 list"
  rd_len :: nat

text \<open>A read that ends early has a result; \<open>Inr\<close> continues.\<close>

type_synonym 'a early = "(bool \<times> 'a) + 'a"

definition read_head :: "fatvol \<Rightarrow> nat \<Rightarrow> reading \<Rightarrow> reading early option" where
  "read_head vol offset r =
     (let bpc = unat (BytesPerCluster vol) in
      if offset mod bpc = 0 then Some (Inr r)
      else
        do { d \<leftarrow> diskReadC vol (FAT_FSoC vol (rd_cluster r));
             case d of
               None \<Rightarrow> Some (Inl (False, r))
             | Some bs \<Rightarrow>
                (let offset = offset mod bpc;
                     n = min (rd_left r) (bpc - offset)
                 in do { buf \<leftarrow> copy_out (rd_buf r) (rd_pos r) (bytes_at bs offset n);
                         let r = r\<lparr>rd_buf := buf, rd_len := rd_len r + n, rd_left := rd_left r - n\<rparr>;
                         if rd_left r = 0 then Some (Inl (True, r))
                         else do { c \<leftarrow> FAT_get_cluster_from_table vol (rd_cluster r);
                                   Some (Inr (r\<lparr>rd_pos := rd_pos r + min (rd_left r) (bpc - offset), rd_cluster := c\<rparr>)) } }) })"

partial_function (option) read_loop :: "fatvol \<Rightarrow> reading \<Rightarrow> reading early option" where
  "read_loop vol r =
     (let bpc = unat (BytesPerCluster vol) in
      if rd_left r \<ge> bpc
      then (if \<not> FAT_cluster_isReadable (rd_cluster r) then Some (Inl (FAT_cluster_isEOC (rd_cluster r), r))
            else
              do { d \<leftarrow> diskReadC vol (FAT_FSoC vol (rd_cluster r));
                   case d of
                     None \<Rightarrow> Some (Inl (False, r))
                   | Some bs \<Rightarrow>
                      do { buf \<leftarrow> copy_out (rd_buf r) (rd_pos r) (take bpc bs);
                           c \<leftarrow> FAT_get_cluster_from_table vol (rd_cluster r);
                           read_loop vol (r\<lparr>rd_buf := buf, rd_len := rd_len r + bpc, rd_pos := rd_pos r + bpc, rd_left := rd_left r - bpc,
                                            rd_cluster := c\<rparr>) } })
      else Some (Inr r))"

declare read_loop.simps [code]

definition read_tail :: "fatvol \<Rightarrow> reading \<Rightarrow> (bool \<times> reading) option" where
  "read_tail vol r =
     (if rd_left r = 0 then Some (True, r)
      else if \<not> FAT_cluster_isReadable (rd_cluster r) then Some (FAT_cluster_isEOC (rd_cluster r), r)
      else
        do { d \<leftarrow> diskReadC vol (FAT_FSoC vol (rd_cluster r));
             case d of
               None \<Rightarrow> Some (False, r)
             | Some bs \<Rightarrow> do { buf \<leftarrow> copy_out (rd_buf r) (rd_pos r) (take (rd_left r) bs);
                               Some (True, r\<lparr>rd_buf := buf, rd_len := rd_len r + rd_left r\<rparr>) } })"

definition read_clusters :: "fatvol \<Rightarrow> nat \<Rightarrow> reading \<Rightarrow> (bool \<times> reading) option" where
  "read_clusters vol offset r =
     do { h \<leftarrow> read_head vol offset r;
          case h of
            Inl x \<Rightarrow> Some x
          | Inr r1 \<Rightarrow> do { l \<leftarrow> read_loop vol r1; case l of Inl x \<Rightarrow> Some x | Inr r2 \<Rightarrow> read_tail vol r2 } }"

definition FAT_read ::
  "(nat \<Rightarrow> bool) \<Rightarrow> search_result \<Rightarrow> tm \<Rightarrow> fatvol \<Rightarrow> u8 list \<Rightarrow> u32 \<Rightarrow> u8 list \<Rightarrow> u32 \<Rightarrow> (bool \<times> u8 list \<times> nat \<times> fatvol) option" where
  "FAT_read mem junk now vol entryname offset buffer buflen =
     (if buflen = 0 then Some (False, buffer, 0, vol)
      else
        do { r \<leftarrow> FAT_search_DIR_entry mem junk vol entryname;
             case r of
               None \<Rightarrow> Some (False, buffer, 0, vol)
             | Some search \<Rightarrow>
                (let e = sr_entry search in
                 if DIR_Attr e AND (ATTR_DIRECTORY OR ATTR_VOLUME_ID) \<noteq> 0 then Some (False, buffer, 0, vol)
                 else if DIR_FileSize e \<le> offset then Some (True, buffer, 0, vol)
                 else
                   (let buflen = (if DIR_FileSize e - offset < buflen then DIR_FileSize e - offset else buflen) in
                    do { cluster \<leftarrow> FAT_lookup_FAT_table vol e offset;
                         if \<not> FAT_cluster_isReadable cluster then Some (False, buffer, 0, vol)
                         else
                           do { (ok, vol1) \<leftarrow> FAT_write_DIR_entry vol (search\<lparr>sr_entry := FAT_update_timestamps now e FAT_TS_READ\<rparr>);
                                if \<not> ok then Some (False, buffer, 0, vol1)
                                else
                                  do { (ok, r) \<leftarrow> read_clusters vol1 (unat offset)
                                         \<lparr>rd_cluster = cluster, rd_left = unat buflen, rd_pos = 0, rd_buf = buffer, rd_len = 0\<rparr>;
                                       Some (ok, rd_buf r, rd_len r, vol1) } } })) })"

section \<open>Writing\<close>

text \<open>\<open>appended\<close> is \<open>1\<close> for a new cluster, \<open>0\<close> for one of the chain, \<open>- 1\<close> for an error, when \<open>newcluster\<close> is not set.\<close>

definition append_result :: "u16 \<Rightarrow> u16 option \<times> fatvol \<Rightarrow> int \<times> u16 \<times> fatvol" where
  "append_result old r = (case r of (None, v) \<Rightarrow> (- 1, old, v) | (Some c, v) \<Rightarrow> (1, c, v))"

definition FAT_write_get_first :: "u32 \<Rightarrow> fatvol \<Rightarrow> dirent \<Rightarrow> (int \<times> u16 \<times> fatvol) option" where
  "FAT_write_get_first filepos vol entry =
     do { cluster \<leftarrow> FAT_lookup_FAT_table vol entry filepos;
          if FAT_cluster_isFREE cluster then map_option (append_result 0) (FAT_append_cluster_chain vol 0)
          else if FAT_cluster_isEOC cluster then map_option (append_result 0) (FAT_append_cluster_chain vol (DIR_FstClus entry))
          else if FAT_cluster_isBAD cluster then Some (- 1, 0, vol)
          else Some (0, cluster, vol) }"

definition FAT_write_get_next :: "u16 \<Rightarrow> fatvol \<Rightarrow> (int \<times> u16 \<times> fatvol) option" where
  "FAT_write_get_next cluster vol =
     do { content \<leftarrow> FAT_get_cluster_from_table vol cluster;
          if FAT_cluster_isEOC content then map_option (append_result cluster) (FAT_append_cluster_chain vol cluster)
          else if FAT_cluster_isBAD content \<or> FAT_cluster_isFREE content then Some (- 1, cluster, vol)
          else Some (0, content, vol) }"

definition FAT_write_update_on_disk :: "tm \<Rightarrow> int \<Rightarrow> u32 \<Rightarrow> fatvol \<Rightarrow> search_result \<Rightarrow> fatvol option" where
  "FAT_write_update_on_disk now appended filepos vol direntry =
     (let e = sr_entry direntry;
          e = (if filepos > DIR_FileSize e then e\<lparr>DIR_FileSize := filepos\<rparr> else e)
      in do { (_, vol1) \<leftarrow> (if appended \<noteq> 0 then FAT_write_FAT_table vol else Some (True, vol));
              (_, vol2) \<leftarrow> FAT_write_DIR_entry vol1 (direntry\<lparr>sr_entry := FAT_update_timestamps now e FAT_TS_WRITE\<rparr>);
              Some vol2 })"

text \<open>The state of a write: the volume, the cluster, whether it is new, the position in the file, the data left. An early end
  either updates the entry on disk (\<open>True\<close>) or returns at once.\<close>

record writing =
  wr_vol :: fatvol
  wr_cluster :: u16
  wr_appended :: int
  wr_filepos :: u32
  wr_data :: "u8 list"

definition write_next :: "writing \<Rightarrow> ((bool \<times> bool \<times> writing) + writing) option" where
  "write_next w =
     do { (a, c, vol) \<leftarrow> FAT_write_get_next (wr_cluster w) (wr_vol w);
          let w = w\<lparr>wr_vol := vol, wr_cluster := c, wr_appended := a\<rparr>;
          Some (if a < 0 then Inl (False, True, w) else Inr w) }"

definition write_head :: "nat \<Rightarrow> writing \<Rightarrow> ((bool \<times> bool \<times> writing) + writing) option" where
  "write_head offset w =
     (let vol = wr_vol w; bpc = unat (BytesPerCluster vol); sector = FAT_FSoC vol (wr_cluster w) in
      if offset mod bpc = 0 then Some (Inr w)
      else
        do { d \<leftarrow> diskReadC vol sector;
             case d of
               None \<Rightarrow> Some (Inl (False, False, w))
             | Some bs \<Rightarrow>
                (let offset = offset mod bpc; n = min (length (wr_data w)) (bpc - offset) in
                 do { (ok, vol1) \<leftarrow> diskWriteC vol sector (splice bs offset (take n (wr_data w)));
                      if \<not> ok then Some (Inl (False, False, w\<lparr>wr_vol := vol1\<rparr>))
                      else
                        (let w = w\<lparr>wr_vol := vol1, wr_filepos := wr_filepos w + of_nat n, wr_data := drop n (wr_data w)\<rparr> in
                         if wr_data w = [] then Some (Inl (True, True, w)) else write_next w) }) })"

partial_function (option) write_loop :: "writing \<Rightarrow> ((bool \<times> bool \<times> writing) + writing) option" where
  "write_loop w =
     (let vol = wr_vol w; bpc = unat (BytesPerCluster vol) in
      if length (wr_data w) \<ge> bpc
      then do { (ok, vol1) \<leftarrow> diskWriteC vol (FAT_FSoC vol (wr_cluster w)) (wr_data w);
                if \<not> ok then Some (Inl (False, True, w\<lparr>wr_vol := vol1\<rparr>))
                else
                  (let w = w\<lparr>wr_vol := vol1, wr_filepos := wr_filepos w + of_nat bpc, wr_data := drop bpc (wr_data w)\<rparr> in
                   if wr_data w = [] then Some (Inr w)
                   else do { n \<leftarrow> write_next w; case n of Inl x \<Rightarrow> Some (Inl x) | Inr w1 \<Rightarrow> write_loop w1 }) }
      else Some (Inr w))"

declare write_loop.simps [code]

definition write_tail :: "writing \<Rightarrow> (bool \<times> bool \<times> writing) option" where
  "write_tail w =
     (let vol = wr_vol w; bpc = unat (BytesPerCluster vol); sector = FAT_FSoC vol (wr_cluster w); n = length (wr_data w) in
      if n = 0 then Some (True, True, w)
      else
        do { d \<leftarrow> diskReadC vol sector;
             case d of
               None \<Rightarrow> Some (False, True, w)
             | Some bs \<Rightarrow>
                (let bs = splice bs 0 (wr_data w);
                     bs = (if wr_appended w \<noteq> 0 then splice bs n (replicate (bpc - n) 0) else bs)
                 in do { (ok, vol1) \<leftarrow> diskWriteC vol sector bs;
                         Some (ok, True, w\<lparr>wr_vol := vol1, wr_filepos := (if ok then wr_filepos w + of_nat n else wr_filepos w),
                                           wr_data := (if ok then [] else wr_data w)\<rparr>) }) })"

definition write_clusters :: "nat \<Rightarrow> writing \<Rightarrow> (bool \<times> bool \<times> writing) option" where
  "write_clusters offset w =
     do { h \<leftarrow> write_head offset w;
          case h of
            Inl x \<Rightarrow> Some x
          | Inr w1 \<Rightarrow> do { l \<leftarrow> write_loop w1; case l of Inl x \<Rightarrow> Some x | Inr w2 \<Rightarrow> write_tail w2 } }"

text \<open>The write behind the checks of the entry.\<close>

definition write_found :: "tm \<Rightarrow> fatvol \<Rightarrow> search_result \<Rightarrow> u32 \<Rightarrow> u8 list \<Rightarrow> (bool \<times> nat \<times> fatvol) option" where
  "write_found now vol search offset data =
     (let e = sr_entry search in
      do { (appended, cluster, vol1) \<leftarrow> FAT_write_get_first offset vol e;
           if appended < 0 then Some (False, 0, vol1)
           else
             (let e = (if appended > 0 \<and> unat offset < unat (BytesPerCluster vol) then e\<lparr>DIR_FstClus := cluster\<rparr> else e) in
              do { (ok, update, w) \<leftarrow> write_clusters (unat offset)
                     \<lparr>wr_vol = vol1, wr_cluster = cluster, wr_appended = appended, wr_filepos = offset, wr_data = data\<rparr>;
                   let n = length data - length (wr_data w);
                   if update
                   then do { vol2 \<leftarrow> FAT_write_update_on_disk now (wr_appended w) (wr_filepos w) (wr_vol w) (search\<lparr>sr_entry := e\<rparr>);
                             Some (ok, n, vol2) }
                   else Some (ok, n, wr_vol w) }) })"

definition FAT_write ::
  "(nat \<Rightarrow> bool) \<Rightarrow> search_result \<Rightarrow> tm \<Rightarrow> fatvol \<Rightarrow> u8 list \<Rightarrow> u32 \<Rightarrow> u8 list \<Rightarrow> (bool \<times> nat \<times> fatvol) option" where
  "FAT_write mem junk now vol entryname offset data =
     (if data = [] then Some (False, 0, vol)
      else
        do { r \<leftarrow> FAT_search_DIR_entry mem junk vol entryname;
             case r of
               None \<Rightarrow> Some (False, 0, vol)
             | Some search \<Rightarrow>
                (let e = sr_entry search in
                 if DIR_Attr e AND (ATTR_DIRECTORY OR ATTR_READ_ONLY OR ATTR_LINK OR ATTR_VOLUME_ID) \<noteq> 0 then Some (False, 0, vol)
                 else if DIR_FileSize e < offset then Some (False, 0, vol)
                 else write_found now vol search offset data) })"

section \<open>The bytes of a file\<close>

text \<open>Byte \<open>i\<close> of a file whose clusters are \<open>cs\<close>.\<close>

definition fbyte :: "fatvol \<Rightarrow> u16 list \<Rightarrow> nat \<Rightarrow> u8" where
  "fbyte vol cs i = file_of vol ! (cluster_pos vol (cs ! (i div bpc vol)) + i mod bpc vol)"

definition in_chain :: "fatvol \<Rightarrow> u16 list \<Rightarrow> u16 list \<Rightarrow> bool" where
  "in_chain vol t cs \<longleftrightarrow> cs \<noteq> [] \<and> cluster_chain t (fsize vol) (hd cs) cs"

lemma vol_okD:
  assumes "vol_ok vol t"
  shows "geometry_ok vol" "vol_table vol t" "fsize vol \<le> length t" "fsize vol \<le> 0xFFF0"
  using assms vol_tableD by (auto simp: vol_ok_def)

lemma in_chainD:
  assumes "in_chain vol t cs" "vol_ok vol t"
  shows "distinct cs" "k < length cs \<Longrightarrow> in_data (fsize vol) (cs ! k)" "c \<in> set cs \<Longrightarrow> in_data (fsize vol) c" "c \<in> set cs \<Longrightarrow> t ! unat c \<noteq> 0"
  using assms chain_distinct chain_in_data chain_nonzero vol_okD(4) [OF assms(2)] unfolding in_chain_def by (auto simp: nth_mem)

lemma fbyte_cluster:
  assumes "vol_ok vol t" "in_chain vol t cs" "i < length cs * bpc vol"
  shows "fbyte vol cs i = cluster_data vol (cs ! (i div bpc vol)) ! (i mod bpc vol)"
proof -
  note g = vol_okD(1) [OF assms(1)]
  have k: "i div bpc vol < length cs" using assms(3) by (simp add: less_mult_imp_div_less)
  show ?thesis using cluster_in_disk(2) [OF g in_chainD(2) [OF assms(2,1) k]] geometryD(5) [OF g]
    by (simp add: fbyte_def cluster_data_def bytes_at_nth)
qed

text \<open>From a volume with the clusters \<open>cs\<close>, the bytes \<open>X\<close> have been written at position \<open>p\<close>: the chain may have grown by clusters that
  were free, what was written earlier and the first \<open>N\<close> clusters behind \<open>X\<close> keep their bytes, and outside the clusters of the file
  neither the disk nor the table has changed.\<close>

definition wrote :: "nat \<Rightarrow> fatvol \<Rightarrow> u16 list \<Rightarrow> u16 list \<Rightarrow> fatvol \<Rightarrow> u16 list \<Rightarrow> u16 list \<Rightarrow> nat \<Rightarrow> u8 list \<Rightarrow> bool" where
  "wrote N vol t cs vol' t' cs' p X \<longleftrightarrow>
     (\<exists>ns. cs' = cs @ ns) \<and> in_chain vol' t' cs' \<and> evolves vol vol' t' (\<Union>c\<in>set cs'. crange vol c) \<and>
     (\<forall>c. in_data (fsize vol) c \<and> c \<notin> set cs' \<longrightarrow> t' ! unat c = t ! unat c) \<and> (\<forall>c\<in>set cs' - set cs. t ! unat c = 0) \<and>
     p + length X \<le> length cs' * bpc vol \<and> (\<forall>i < length X. fbyte vol' cs' (p + i) = X ! i) \<and>
     (\<forall>i < length cs * bpc vol. i < p \<or> p + length X \<le> i \<and> i < N * bpc vol \<longrightarrow> fbyte vol' cs' i = fbyte vol cs i)"

lemma wroteD:
  assumes "wrote N vol t cs vol' t' cs' p X"
  shows "vol_ok vol' t'" "in_chain vol' t' cs'" "evolves vol vol' t' (\<Union>c\<in>set cs'. crange vol c)" "bpc vol' = bpc vol" "fsize vol' = fsize vol"
  using assms evolvesD(1,2,5) unfolding wrote_def by metis+

lemma wrote_trans:
  assumes a: "wrote N v0 t0 c0 v1 t1 c1 p X" and b: "wrote N v1 t1 c1 v2 t2 c2 (p + length X) Y"
  shows "wrote N v0 t0 c0 v2 t2 c2 p (X @ Y)"
proof -
  have e1: "evolves v0 v1 t1 (\<Union>c\<in>set c1. crange v0 c)" and e2: "evolves v1 v2 t2 (\<Union>c\<in>set c2. crange v1 c)"
    using a b by (auto simp: wrote_def)
  note s = evolvesD(2,5) [OF e1]
  have cr: "crange v1 c = crange v0 c" for c using evolvesD(5,7) [OF e1] by (simp add: crange_def)
  obtain n1 n2 where n: "c1 = c0 @ n1" "c2 = c1 @ n2" using a b by (auto simp: wrote_def)
  have e: "evolves v0 v2 t2 (\<Union>c\<in>set c2. crange v0 c)"
    using evolves_trans [OF e1 e2 [unfolded cr]] n(2) by (auto intro: evolves_mono)
  have "t2 ! unat c = t0 ! unat c" if "in_data (fsize v0) c" "c \<notin> set c2" for c using a b that n s by (auto simp: wrote_def)
  moreover have "t0 ! unat c = 0" if "c \<in> set c2 - set c0" for c
  proof (cases "c \<in> set c1")
    case False
    then have z: "t1 ! unat c = 0" using b that by (auto simp: wrote_def)
    have "in_data (fsize v0) c" using b that s evolvesD(1,2) [OF e2] in_chainD(3) by (fastforce simp: wrote_def)
    then show ?thesis using a z False by (auto simp: wrote_def)
  qed (use a that in \<open>auto simp: wrote_def\<close>)
  moreover have "fbyte v2 c2 (p + i) = (X @ Y) ! i" if "i < length (X @ Y)" for i
  proof (cases "i < length X")
    case True
    then have "fbyte v2 c2 (p + i) = fbyte v1 c1 (p + i)" using a b s by (auto simp: wrote_def)
    then show ?thesis using a True by (simp add: wrote_def nth_append)
  next
    case False
    then show ?thesis using b that by (auto simp: wrote_def nth_append dest!: spec [of _ "i - length X"])
  qed
  moreover have "fbyte v2 c2 i = fbyte v0 c0 i" if "i < length c0 * bpc v0" "i < p \<or> p + length (X @ Y) \<le> i \<and> i < N * bpc v0" for i
  proof -
    have "length c0 * bpc v0 \<le> length c1 * bpc v0" using n(1) by simp
    then have "i < length c1 * bpc v1" unfolding s(2) using that(1) by (rule less_le_trans [rotated])
    then have "fbyte v2 c2 i = fbyte v1 c1 i" using b that s by (auto simp: wrote_def)
    moreover have "fbyte v1 c1 i = fbyte v0 c0 i" using a that by (auto simp: wrote_def)
    ultimately show ?thesis by simp
  qed
  ultimately show ?thesis using b e n s by (auto simp: wrote_def)
qed

lemma wrote_cluster:
  assumes ok: "vol_ok vol t" and ch: "in_chain vol t cs" and k: "k < length cs" and buf: "bpc vol \<le> length buf"
    and p: "k * bpc vol \<le> p" "p + length X \<le> Suc k * bpc vol"
    and inside: "\<And>j. j < length X \<Longrightarrow> buf ! (p - k * bpc vol + j) = X ! j"
    and outside: "\<And>j. j < bpc vol \<Longrightarrow> k * bpc vol + j < p \<or> p + length X \<le> k * bpc vol + j \<and> k < N \<Longrightarrow> buf ! j = cluster_data vol (cs ! k) ! j"
  shows "wrote N vol t cs (put_bytes vol (cluster_pos vol (cs ! k)) (take (bpc vol) buf)) t cs p X"
proof -
  let ?B = "bpc vol" and ?v = "put_bytes vol (cluster_pos vol (cs ! k)) (take (bpc vol) buf)"
  note g = vol_okD(1) [OF ok]
  note d = in_chainD [OF ch ok]
  have B: "0 < ?B" by (rule geometryD(5) [OF g])
  have e: "evolves vol ?v t (\<Union>c\<in>set cs. crange vol c)"
    by (rule evolves_put [OF ok]) (use cluster_in_disk(2) [OF g d(2) [OF k]] buf k in \<open>auto simp: crange_def intro!: bexI [of _ "cs ! k"]\<close>)
  have ch': "in_chain ?v t cs" using ch by (simp add: in_chain_def)
  have fb: "fbyte ?v cs i = (if i div ?B = k then buf ! (i mod ?B) else fbyte vol cs i)" if "i < length cs * ?B" for i
  proof -
    have m: "i div ?B < length cs" using that by (simp add: less_mult_imp_div_less)
    then have "cs ! (i div ?B) = cs ! k \<longleftrightarrow> i div ?B = k" using d(1) k by (simp add: nth_eq_iff_index_eq)
    then have "cluster_data ?v (cs ! (i div ?B)) = (if i div ?B = k then take ?B buf else cluster_data vol (cs ! (i div ?B)))"
      using cluster_data_put [OF g d(2) [OF k] d(2) [OF m], of "take ?B buf"] buf by simp
    then show ?thesis using fbyte_cluster [OF evolvesD(1) [OF e] ch', of i] fbyte_cluster [OF ok ch that] that B by simp
  qed
  have kl: "Suc k * ?B \<le> length cs * ?B" using k by (intro mult_right_mono) simp_all
  have "fbyte ?v cs (p + i) = X ! i" if "i < length X" for i
  proof -
    have i: "k * ?B \<le> p + i" "p + i < Suc k * ?B" using p that by linarith+
    then have "(p + i) div ?B = k" by (simp add: div_nat_eqI mult.commute)
    moreover from this have "(p + i) mod ?B = p - k * ?B + i" using p(1) by (simp add: modulo_nat_def mult.commute)
    ultimately show ?thesis using fb [of "p + i"] inside [OF that] i(2) kl by simp
  qed
  moreover have "fbyte ?v cs i = fbyte vol cs i" if "i < length cs * ?B" "i < p \<or> p + length X \<le> i \<and> i < N * ?B" for i
  proof (cases "i div ?B = k")
    case True
    have i: "k * ?B + i mod ?B = i" using True by (metis div_mult_mod_eq)
    have "i < N * ?B \<Longrightarrow> k < N" using True by (metis less_mult_imp_div_less)
    then have "buf ! (i mod ?B) = cluster_data vol (cs ! k) ! (i mod ?B)" using outside [of "i mod ?B"] that(2) i B by auto
    then show ?thesis using fb [OF that(1)] True fbyte_cluster [OF ok ch that(1)] by simp
  qed (use fb [OF that(1)] in simp)
  ultimately show ?thesis using e ch' p(2) kl unfolding wrote_def by auto
qed

lemma wrote_append:
  assumes ok: "vol_ok vol t" and y: "in_data (fsize vol) y" "t ! unat y = 0" and v: "vol' = vol\<lparr>FAT := Some t', lastFreeFATEntry := y\<rparr>"
    and t': "vol_table vol' t'" "cluster_chain t' (fsize vol) (hd (cs @ [y])) (cs @ [y])" "t' = (if cs = [] then t else t[unat (last cs) := y])[unat y := 0xFFFF]"
    and p: "p \<le> length (cs @ [y]) * bpc vol" and cs: "cs = [] \<or> in_chain vol t cs"
  shows "wrote N vol t cs vol' t' (cs @ [y]) p []"
proof -
  have e: "evolves vol vol' t' A" for A using evolves_table [OF ok] t'(1,3) unfolding v by (auto split: if_splits)
  have fs: "fsize vol' = fsize vol" "bpc vol' = bpc vol" "file_of vol' = file_of vol" "cluster_pos vol' c = cluster_pos vol c" for c
    using evolvesD(2,5,7) [OF e] by (simp_all add: v file_of_def)
  have ch: "in_chain vol' t' (cs @ [y])" using t'(2) fs by (simp add: in_chain_def)
  have "t' ! unat c = t ! unat c" if "c \<notin> set (cs @ [y])" for c
  proof -
    have "c \<noteq> y" "cs \<noteq> [] \<Longrightarrow> c \<noteq> last cs" using that by auto
    then have "unat c \<noteq> unat y" "cs \<noteq> [] \<Longrightarrow> unat c \<noteq> unat (last cs)" by (simp_all add: word_unat_eq_iff)
    then show ?thesis by (cases "cs = []") (simp_all add: t'(3))
  qed
  moreover have "fbyte vol' (cs @ [y]) i = fbyte vol cs i" if "i < length cs * bpc vol" for i
    using that fs by (simp add: fbyte_def nth_append less_mult_imp_div_less)
  ultimately show ?thesis using e ch y(2) p unfolding wrote_def by auto
qed

section \<open>The steps of a write\<close>

definition no_free :: "fatvol \<Rightarrow> u16 list \<Rightarrow> bool" where
  "no_free vol t \<longleftrightarrow> (\<forall>c. in_data (fsize vol) c \<longrightarrow> t ! unat c \<noteq> 0)"

text \<open>The writer stands at cluster \<open>k\<close> of the chain; a cluster that it takes for a new one is none of the first \<open>N\<close>.\<close>

definition wstate :: "nat \<Rightarrow> writing \<Rightarrow> u16 list \<Rightarrow> u16 list \<Rightarrow> nat \<Rightarrow> bool" where
  "wstate N w t cs k \<longleftrightarrow> vol_ok (wr_vol w) t \<and> in_chain (wr_vol w) t cs \<and> k < length cs \<and> wr_cluster w = cs ! k \<and> N \<le> length cs \<and>
     (wr_appended w \<noteq> 0 \<longrightarrow> N \<le> k)"

text \<open>A write has ended: \<open>X\<close> is what was written, all of the data unless the volume is full.\<close>

definition wdone :: "nat \<Rightarrow> fatvol \<Rightarrow> u16 list \<Rightarrow> u16 list \<Rightarrow> nat \<Rightarrow> u8 list \<Rightarrow> bool \<times> bool \<times> writing \<Rightarrow> bool" where
  "wdone N vol t cs p data r \<longleftrightarrow> (case r of (ok, update, w) \<Rightarrow> update \<and>
     (\<exists>t' cs' X. data = X @ wr_data w \<and> wrote N vol t cs (wr_vol w) t' cs' p X \<and> wr_filepos w = of_nat (p + length X) \<and>
       (if ok then wr_data w = [] else no_free (wr_vol w) t')))"

lemma get_next_ok:
  assumes ok: "vol_ok vol t" and ch: "in_chain vol t cs" and k: "k < length cs"
  obtains "Suc k < length cs" "FAT_write_get_next (cs ! k) vol = Some (0, cs ! Suc k, vol)"
  | y vol' t' where "Suc k = length cs" "FAT_write_get_next (cs ! k) vol = Some (1, y, vol')" "\<And>N. wrote N vol t cs vol' t' (cs @ [y]) (Suc k * bpc vol) []"
  | "Suc k = length cs" "FAT_write_get_next (cs ! k) vol = Some (- 1, cs ! k, vol)" "no_free vol t"
proof -
  note cases = that
  note T = vol_okD(2) [OF ok]
  have c: "in_data (fsize vol) (cs ! k)" using in_chainD(2) [OF ch ok k] .
  have e: "cs = take k cs @ cs ! k # drop (Suc k) cs" using id_take_nth_drop [OF k] .
  have "cluster_chain t (fsize vol) (hd cs) (take k cs @ cs ! k # drop (Suc k) cs)" using ch e by (simp add: in_chain_def)
  then have x: "cluster_chain t (fsize vol) (cs ! k) (cs ! k # drop (Suc k) cs)" by (rule chain_suffix)
  have get: "FAT_get_cluster_from_table vol (cs ! k) = Some (t ! unat (cs ! k))" using c get_cluster [OF T] by (simp add: in_data_def)
  show thesis
  proof (cases "Suc k < length cs")
    case True
    then have n: "t ! unat (cs ! k) = cs ! Suc k" "in_data (fsize vol) (cs ! Suc k)" using x in_chainD(2) [OF ch ok True] by (simp_all add: Cons_nth_drop_Suc [symmetric])
    then show thesis using in_data_readable [OF n(2) vol_okD(4) [OF ok]] get True
      by (intro cases(1)) (simp_all add: FAT_write_get_next_def FAT_cluster_isReadable_def)
  next
    case False
    then have l: "Suc k = length cs" using k by simp
    then have eoc: "FAT_cluster_isEOC (t ! unat (cs ! k))" using x by simp
    have "cs \<noteq> []" and ch0: "cluster_chain t (fsize vol) (hd cs) cs" using ch by (auto simp: in_chain_def)
    show thesis
    proof (rule append_chain [OF T, of cs "cs ! k"])
      show "cs = [] \<and> cs ! k = 0 \<or> cluster_chain t (fsize vol) (hd cs) cs \<and> cs ! k \<in> set cs" using ch0 k by simp
    next
      assume "FAT_append_cluster_chain vol (cs ! k) = Some (None, vol)" "\<And>c. in_data (fsize vol) c \<Longrightarrow> t ! unat c \<noteq> 0"
      then show thesis using get eoc l by (intro cases(3)) (simp_all add: FAT_write_get_next_def append_result_def no_free_def)
    next
      fix y t' assume a: "FAT_append_cluster_chain vol (cs ! k) = Some (Some y, vol\<lparr>FAT := Some t', lastFreeFATEntry := y\<rparr>)"
        "in_data (fsize vol) y" "t ! unat y = 0" "y \<notin> set cs" "vol_table (vol\<lparr>FAT := Some t', lastFreeFATEntry := y\<rparr>) t'"
        "cluster_chain t' (fsize vol) (hd (cs @ [y])) (cs @ [y])" "t' = (if cs = [] then t else t[unat (last cs) := y])[unat y := 0xFFFF]"
      have "wrote N vol t cs (vol\<lparr>FAT := Some t', lastFreeFATEntry := y\<rparr>) t' (cs @ [y]) (Suc k * bpc vol) []" for N
        by (rule wrote_append [OF ok a(2,3) refl a(5,6,7)]) (use l ch in simp_all)
      then show thesis using get eoc l a(1) by (intro cases(2)) (simp_all add: FAT_write_get_next_def append_result_def)
    qed
  qed
qed

lemma write_next_ok:
  assumes "wstate N w t cs k"
  obtains w1 t1 cs1 where "write_next w = Some (Inr w1)" "wstate N w1 t1 cs1 (Suc k)" "wr_data w1 = wr_data w" "wr_filepos w1 = wr_filepos w"
      "wrote N (wr_vol w) t cs (wr_vol w1) t1 cs1 (Suc k * bpc (wr_vol w)) []"
  | w1 where "write_next w = Some (Inl (False, True, w1))" "wr_vol w1 = wr_vol w" "wr_data w1 = wr_data w" "wr_filepos w1 = wr_filepos w"
      "no_free (wr_vol w) t"
proof -
  note cases = that
  have s: "vol_ok (wr_vol w) t" "in_chain (wr_vol w) t cs" "k < length cs" "wr_cluster w = cs ! k" "N \<le> length cs" using assms by (auto simp: wstate_def)
  show thesis
  proof (rule get_next_ok [OF s(1-3)])
    assume a: "Suc k < length cs" "FAT_write_get_next (cs ! k) (wr_vol w) = Some (0, cs ! Suc k, wr_vol w)"
    have "Suc k * bpc (wr_vol w) \<le> length cs * bpc (wr_vol w)" using a(1) by (intro mult_right_mono) simp_all
    then have "wrote N (wr_vol w) t cs (wr_vol w) t cs (Suc k * bpc (wr_vol w)) []"
      using s evolves_refl by (auto simp: wrote_def)
    then show thesis using a s by (intro cases(1) [of "w\<lparr>wr_cluster := cs ! Suc k, wr_appended := 0\<rparr>" t cs]) (simp_all add: write_next_def wstate_def)
  next
    fix y vol' t' assume a: "Suc k = length cs" "FAT_write_get_next (cs ! k) (wr_vol w) = Some (1, y, vol')"
      "\<And>N. wrote N (wr_vol w) t cs vol' t' (cs @ [y]) (Suc k * bpc (wr_vol w)) []"
    have "vol_ok vol' t'" "in_chain vol' t' (cs @ [y])" using wroteD(1,2) [OF a(3)] .
    then show thesis using a s
      by (intro cases(1) [of "w\<lparr>wr_vol := vol', wr_cluster := y, wr_appended := 1\<rparr>" t' "cs @ [y]"]) (simp_all add: write_next_def wstate_def nth_append)
  next
    assume "Suc k = length cs" "FAT_write_get_next (cs ! k) (wr_vol w) = Some (- 1, cs ! k, wr_vol w)" "no_free (wr_vol w) t"
    then show thesis using s by (intro cases(2) [of "w\<lparr>wr_cluster := cs ! k, wr_appended := - 1\<rparr>"]) (simp_all add: write_next_def)
  qed
qed

lemma wdone_trans:
  assumes "wrote N v0 t0 c0 v1 t1 c1 p X" "wdone N v1 t1 c1 (p + length X) Y r"
  shows "wdone N v0 t0 c0 p (X @ Y) r"
proof -
  obtain ok up w where r: "r = (ok, up, w)" by (metis prod_cases3)
  obtain t' cs' Z where "up" "Y = Z @ wr_data w" "wrote N v1 t1 c1 (wr_vol w) t' cs' (p + length X) Z"
    "wr_filepos w = of_nat (p + length X + length Z)" "if ok then wr_data w = [] else no_free (wr_vol w) t'"
    using assms(2) by (auto simp: wdone_def r)
  note z = this
  have "wrote N v0 t0 c0 (wr_vol w) t' cs' p (X @ Z)" using wrote_trans [OF assms(1) z(3)] .
  then show ?thesis using z unfolding wdone_def r by (fastforce simp: add.assoc)
qed

text \<open>One cluster and the step to the next one.\<close>

lemma write_cluster_ok:
  assumes st: "wstate N w t cs k" and w: "wrote N (wr_vol w) t cs vol1 t cs p X" "p + length X = Suc k * bpc (wr_vol w)"
    and w1: "w1 = w\<lparr>wr_vol := vol1, wr_filepos := of_nat (p + length X), wr_data := Y\<rparr>" "wr_data w = X @ Y"
  obtains w2 t2 cs2 where "write_next w1 = Some (Inr w2)" "wstate N w2 t2 cs2 (Suc k)" "wr_data w2 = Y" "wr_filepos w2 = of_nat (p + length X)"
      "wrote N (wr_vol w) t cs (wr_vol w2) t2 cs2 p X"
  | w2 where "write_next w1 = Some (Inl (False, True, w2))" "wdone N (wr_vol w) t cs p (X @ Y) (False, True, w2)"
proof -
  note cases = that
  have e: "evolves (wr_vol w) vol1 t (\<Union>c\<in>set cs. crange (wr_vol w) c)" "in_chain vol1 t cs" using w(1) by (simp_all add: wrote_def)
  have st1: "wstate N w1 t cs k" using st e evolvesD(1) [OF e(1)] by (simp add: wstate_def w1)
  have b: "bpc vol1 = bpc (wr_vol w)" using evolvesD(5) [OF e(1)] .
  show thesis
  proof (rule write_next_ok [OF st1])
    fix w2 t2 cs2 assume a: "write_next w1 = Some (Inr w2)" "wstate N w2 t2 cs2 (Suc k)" "wr_data w2 = wr_data w1" "wr_filepos w2 = wr_filepos w1"
      "wrote N (wr_vol w1) t cs (wr_vol w2) t2 cs2 (Suc k * bpc (wr_vol w1)) []"
    have "wrote N (wr_vol w) t cs (wr_vol w2) t2 cs2 p (X @ [])" by (rule wrote_trans [OF w(1)]) (use a(5) w(2) b in \<open>simp add: w1\<close>)
    then show thesis using a by (intro cases(1)) (simp_all add: w1)
  next
    fix w2 assume a: "write_next w1 = Some (Inl (False, True, w2))" "wr_vol w2 = wr_vol w1" "wr_data w2 = wr_data w1" "wr_filepos w2 = wr_filepos w1"
      "no_free (wr_vol w1) t"
    then have "wdone N (wr_vol w) t cs p (X @ Y) (False, True, w2)" using w(1) by (auto simp: wdone_def w1)
    then show thesis using a(1) by (intro cases(2))
  qed
qed

text \<open>The middle part has written whole clusters: it has failed for lack of space, or less than a cluster is left for the one it
  stands at.\<close>

definition wmiddle :: "nat \<Rightarrow> fatvol \<Rightarrow> u16 list \<Rightarrow> u16 list \<Rightarrow> nat \<Rightarrow> u8 list \<Rightarrow> (bool \<times> bool \<times> writing) + writing \<Rightarrow> bool" where
  "wmiddle N vol t cs p data r \<longleftrightarrow> (case r of
       Inl x \<Rightarrow> wdone N vol t cs p data x
     | Inr w \<Rightarrow> length (wr_data w) < bpc vol \<and>
         (\<exists>t' cs' X. data = X @ wr_data w \<and> wrote N vol t cs (wr_vol w) t' cs' p X \<and> wr_filepos w = of_nat (p + length X) \<and>
           (wr_data w \<noteq> [] \<longrightarrow> (\<exists>k. wstate N w t' cs' k \<and> p + length X = k * bpc vol))))"

lemma wmiddle_trans:
  assumes "wrote N v0 t0 c0 v1 t1 c1 p X" "wmiddle N v1 t1 c1 (p + length X) Y r"
  shows "wmiddle N v0 t0 c0 p (X @ Y) r"
proof (cases r)
  case (Inl x)
  then show ?thesis using assms wdone_trans by (simp add: wmiddle_def)
next
  case (Inr w)
  note b = wroteD(4) [OF assms(1)]
  obtain t' cs' Z where z: "length (wr_data w) < bpc v0" "Y = Z @ wr_data w" "wrote N v1 t1 c1 (wr_vol w) t' cs' (p + length X) Z"
    "wr_filepos w = of_nat (p + length X + length Z)"
    "wr_data w \<noteq> [] \<longrightarrow> (\<exists>k. wstate N w t' cs' k \<and> p + length X + length Z = k * bpc v0)"
    using assms(2) Inr b by (auto simp: wmiddle_def)
  have "wrote N v0 t0 c0 (wr_vol w) t' cs' p (X @ Z)" using wrote_trans [OF assms(1) z(3)] .
  then show ?thesis using z unfolding wmiddle_def Inr by (fastforce simp: add.assoc)
qed

lemma write_loop_ok:
  assumes "wstate N w t cs k" "wr_filepos w = of_nat (k * bpc (wr_vol w))"
  shows "\<exists>r. write_loop w = Some r \<and> wmiddle N (wr_vol w) t cs (k * bpc (wr_vol w)) (wr_data w) r"
  using assms
proof (induction "length (wr_data w)" arbitrary: w t cs k rule: less_induct)
  case less
  let ?v = "wr_vol w" and ?d = "wr_data w"
  let ?B = "bpc ?v"
  have s: "vol_ok ?v t" "in_chain ?v t cs" "k < length cs" "wr_cluster w = cs ! k" using less.prems(1) by (auto simp: wstate_def)
  note g = vol_okD(1) [OF s(1)]
  have B: "0 < ?B" "unat (BytesPerCluster ?v) = ?B" using geometryD(5) [OF g] by (simp_all add: bpc_def)
  note c = in_chainD(2) [OF s(2,1,3)]
  show ?case
  proof (cases "?B \<le> length ?d")
    case False
    have "k * ?B \<le> length cs * ?B" using s(3) by simp
    then have "wrote N ?v t cs ?v t cs (k * ?B) []" using s(1,2) evolves_refl [OF s(1)] by (auto simp: wrote_def)
    then have "wmiddle N ?v t cs (k * ?B) ?d (Inr w)" using False less.prems by (auto simp: wmiddle_def)
    then show ?thesis using False B by (subst write_loop.simps) simp
  next
    case True
    let ?X = "take ?B ?d" and ?Y = "drop ?B ?d"
    let ?v1 = "put_bytes ?v (cluster_pos ?v (cs ! k)) (take ?B ?d)"
    let ?w1 = "w\<lparr>wr_vol := ?v1, wr_filepos := of_nat (k * ?B + length ?X), wr_data := ?Y\<rparr>"
    have lx: "length ?X = ?B" using True by simp
    have wr: "wrote N ?v t cs ?v1 t cs (k * ?B) ?X"
      by (rule wrote_cluster [OF s(1-3) True]) (use True in simp_all)
    have wc: "diskWriteC ?v (FAT_FSoC ?v (cs ! k)) ?d = Some (True, ?v1)" using writeC_ok [OF g c True] .
    have fp: "wr_filepos w + of_nat ?B = of_nat (k * ?B + length ?X)" using less.prems(2) lx by (simp add: add.commute)
    show ?thesis
    proof (cases "?Y = []")
      case True1: True
      then have "?d = ?X" by simp
      then have "wmiddle N ?v t cs (k * ?B) ?d (Inr ?w1)" using wr True1 B(1) unfolding wmiddle_def by auto
      moreover have "write_loop w = Some (Inr ?w1)"
        using True True1 wc s(4) fp B(2) by (subst write_loop.simps) (simp add: Let_def)
      ultimately show ?thesis by blast
    next
      case Y: False
      have step: "write_loop w = do { n \<leftarrow> write_next ?w1; case n of Inl x \<Rightarrow> Some (Inl x) | Inr w1 \<Rightarrow> write_loop w1 }"
        using True Y wc s(4) fp B(2) by (subst write_loop.simps) (simp add: Let_def)
      have pk: "k * ?B + length ?X = Suc k * ?B" using lx by simp
      show ?thesis
      proof (rule write_cluster_ok [OF less.prems(1) wr pk refl])
        show "?d = ?X @ ?Y" by simp
      next
        fix w2 t2 cs2 assume a: "write_next ?w1 = Some (Inr w2)" "wstate N w2 t2 cs2 (Suc k)" "wr_data w2 = ?Y"
          "wr_filepos w2 = of_nat (k * ?B + length ?X)" "wrote N ?v t cs (wr_vol w2) t2 cs2 (k * ?B) ?X"
        have b: "bpc (wr_vol w2) = ?B" using wroteD(4) [OF a(5)] .
        have "length (wr_data w2) < length ?d" using a(3) True B(1) by simp
        then obtain r where r: "write_loop w2 = Some r" "wmiddle N (wr_vol w2) t2 cs2 (Suc k * bpc (wr_vol w2)) (wr_data w2) r"
          using less.hyps a(2,4) pk b by metis
        have "wmiddle N ?v t cs (k * ?B) (?X @ ?Y) r" by (rule wmiddle_trans [OF a(5)]) (use r(2) [unfolded b a(3)] pk in \<open>simp del: mult_Suc length_take\<close>)
        then show ?thesis using step a(1) r(1) by simp
      next
        fix w2 assume a: "write_next ?w1 = Some (Inl (False, True, w2))" "wdone N ?v t cs (k * ?B) (?X @ ?Y) (False, True, w2)"
        then show ?thesis using step by (simp add: wmiddle_def)
      qed
    qed
  qed
qed

lemma write_tail_ok:
  assumes "wstate N w t cs k" "wr_filepos w = of_nat (k * bpc (wr_vol w))" "length (wr_data w) < bpc (wr_vol w)" "wr_data w \<noteq> []"
  shows "\<exists>r. write_tail w = Some r \<and> wdone N (wr_vol w) t cs (k * bpc (wr_vol w)) (wr_data w) r"
proof -
  let ?v = "wr_vol w" and ?d = "wr_data w"
  let ?B = "bpc ?v"
  have s: "vol_ok ?v t" "in_chain ?v t cs" "k < length cs" "wr_cluster w = cs ! k" "wr_appended w \<noteq> 0 \<Longrightarrow> N \<le> k"
    using assms(1) by (auto simp: wstate_def)
  note g = vol_okD(1) [OF s(1)]
  note c = in_chainD(2) [OF s(2,1,3)]
  have B: "unat (BytesPerCluster ?v) = ?B" by (simp add: bpc_def)
  let ?bs = "cluster_data ?v (cs ! k)"
  have lb: "length ?bs = ?B" by (rule cluster_data_length [OF g c])
  let ?b1 = "splice ?bs 0 ?d"
  let ?b = "if wr_appended w \<noteq> 0 then splice ?b1 (length ?d) (replicate (?B - length ?d) 0) else ?b1"
  have l1: "length ?b1 = ?B" using lb assms(3) by (simp add: splice_length)
  have l: "length ?b = ?B" using l1 assms(3) by (simp add: splice_length)
  have n: "?b ! j = (if j < length ?d then ?d ! j else if wr_appended w \<noteq> 0 then 0 else ?bs ! j)" if "j < ?B" for j
    using that assms(3) lb l1 by (simp add: splice_nth)
  let ?v1 = "put_bytes ?v (cluster_pos ?v (cs ! k)) (take ?B ?b)"
  have wr: "wrote N ?v t cs ?v1 t cs (k * ?B) ?d"
  proof (rule wrote_cluster [OF s(1-3)])
    fix j assume "j < ?B" "k * ?B + j < k * ?B \<or> k * ?B + length ?d \<le> k * ?B + j \<and> k < N"
    then show "?b ! j = ?bs ! j" using n [of j] s(5) by auto
  qed (use l n assms(3) in auto)
  have wc: "diskWriteC ?v (FAT_FSoC ?v (cs ! k)) ?b = Some (True, ?v1)" using writeC_ok [OF g c] l by simp
  have "write_tail w = Some (True, True, w\<lparr>wr_vol := ?v1, wr_filepos := wr_filepos w + of_nat (length ?d), wr_data := []\<rparr>)"
    using assms(4) wc s(4) B readC_ok [OF g c] unfolding write_tail_def Let_def by (simp split del: if_split cong: if_cong)
  moreover have "wdone N ?v t cs (k * ?B) ?d (True, True, w\<lparr>wr_vol := ?v1, wr_filepos := wr_filepos w + of_nat (length ?d), wr_data := []\<rparr>)"
    unfolding wdone_def prod.case using wr assms(2) by (intro conjI exI [of _ t] exI [of _ cs] exI [of _ ?d]) (simp_all split del: if_split)
  ultimately show ?thesis by blast
qed

lemma write_rest_ok:
  assumes "wstate N w t cs k" "wr_filepos w = of_nat (k * bpc (wr_vol w))"
  shows "\<exists>r. do { l \<leftarrow> write_loop w; case l of Inl x \<Rightarrow> Some x | Inr w2 \<Rightarrow> write_tail w2 } = Some r \<and>
    wdone N (wr_vol w) t cs (k * bpc (wr_vol w)) (wr_data w) r"
proof -
  let ?p = "k * bpc (wr_vol w)"
  obtain l where l: "write_loop w = Some l" "wmiddle N (wr_vol w) t cs ?p (wr_data w) l"
    using write_loop_ok [OF assms] by blast
  show ?thesis
  proof (cases l)
    case (Inl x)
    then show ?thesis using l by (simp add: wmiddle_def)
  next
    case (Inr w2)
    obtain t' cs' X where x: "length (wr_data w2) < bpc (wr_vol w)" "wr_data w = X @ wr_data w2"
      "wrote N (wr_vol w) t cs (wr_vol w2) t' cs' ?p X" "wr_filepos w2 = of_nat (?p + length X)"
      "wr_data w2 \<noteq> [] \<longrightarrow> (\<exists>k. wstate N w2 t' cs' k \<and> ?p + length X = k * bpc (wr_vol w))"
      using l(2) Inr by (auto simp: wmiddle_def)
    have b: "bpc (wr_vol w2) = bpc (wr_vol w)" using wroteD(4) [OF x(3)] .
    show ?thesis
    proof (cases "wr_data w2 = []")
      case True
      then have "wdone N (wr_vol w) t cs ?p (wr_data w) (True, True, w2)" using x by (auto simp: wdone_def)
      then show ?thesis using l(1) Inr True by (simp add: write_tail_def)
    next
      case False
      then obtain k' where k': "wstate N w2 t' cs' k'" "?p + length X = k' * bpc (wr_vol w2)" using x(5) b by auto
      obtain r where r: "write_tail w2 = Some r" "wdone N (wr_vol w2) t' cs' (k' * bpc (wr_vol w2)) (wr_data w2) r"
        using write_tail_ok [OF k'(1)] x(1,4) b k'(2) False by auto
      have "wdone N (wr_vol w) t cs ?p (X @ wr_data w2) r" using wdone_trans [OF x(3)] r(2) k'(2) by simp
      then show ?thesis using l(1) Inr r(1) x(2) by simp
    qed
  qed
qed

lemma write_clusters_ok:
  assumes st: "wstate N w t cs k" and k: "k = offset div bpc (wr_vol w)" and fp: "wr_filepos w = of_nat offset" and d: "wr_data w \<noteq> []"
  shows "\<exists>r. write_clusters offset w = Some r \<and> wdone N (wr_vol w) t cs offset (wr_data w) r"
proof -
  let ?v = "wr_vol w" and ?d = "wr_data w"
  let ?B = "bpc ?v"
  have B: "unat (BytesPerCluster ?v) = ?B" by (simp add: bpc_def)
  show ?thesis
  proof (cases "offset mod ?B = 0")
    case True
    then have o: "offset = k * ?B" using k by (metis add.right_neutral div_mult_mod_eq)
    then have "write_head offset w = Some (Inr w)" using True B by (simp add: write_head_def)
    then show ?thesis using write_rest_ok [OF st] fp o by (simp add: write_clusters_def)
  next
    case False
    have s: "vol_ok ?v t" "in_chain ?v t cs" "k < length cs" "wr_cluster w = cs ! k" "wr_appended w \<noteq> 0 \<Longrightarrow> N \<le> k"
      using st by (auto simp: wstate_def)
    note g = vol_okD(1) [OF s(1)]
    note c = in_chainD(2) [OF s(2,1,3)]
    have B0: "0 < ?B" by (rule geometryD(5) [OF g])
    let ?o = "offset mod ?B"
    define n where "n = min (length ?d) (?B - ?o)"
    have o: "offset = k * ?B + ?o" using k by simp
    have ob: "?o < ?B" using B0 by simp
    let ?X = "take n ?d" and ?Y = "drop n ?d"
    have lx: "length ?X = n" "?o + n \<le> ?B" using ob by (auto simp: n_def)
    let ?bs = "cluster_data ?v (cs ! k)"
    have lb: "length ?bs = ?B" by (rule cluster_data_length [OF g c])
    let ?b = "splice ?bs ?o ?X"
    have l: "length ?b = ?B" using lb lx by (simp add: splice_length)
    let ?v1 = "put_bytes ?v (cluster_pos ?v (cs ! k)) (take ?B ?b)"
    let ?w1 = "w\<lparr>wr_vol := ?v1, wr_filepos := of_nat (offset + length ?X), wr_data := ?Y\<rparr>"
    have wr: "wrote N ?v t cs ?v1 t cs offset ?X"
    proof (rule wrote_cluster [OF s(1-3)])
      fix j assume "j < ?B" "k * ?B + j < offset \<or> offset + length ?X \<le> k * ?B + j \<and> k < N"
      then show "?b ! j = ?bs ! j" using lb lx o by (auto simp: splice_nth)
    qed (use l lx lb o in \<open>auto simp: splice_nth\<close>)
    have wc: "diskWriteC ?v (FAT_FSoC ?v (cs ! k)) ?b = Some (True, ?v1)" using writeC_ok [OF g c] l by simp
    have fp1: "wr_filepos w + of_nat n = of_nat (offset + length ?X)" using fp lx by simp
    have h: "write_head offset w = (if ?Y = [] then Some (Inl (True, True, ?w1)) else write_next ?w1)"
      using False wc fp1 unfolding write_head_def Let_def B n_def [symmetric] s(4) readC_ok [OF g c] by (simp del: length_take)
    show ?thesis
    proof (cases "?Y = []")
      case True
      then have "wdone N ?v t cs offset ?d (True, True, ?w1)" using wr unfolding wdone_def by auto
      then show ?thesis using h True by (simp add: write_clusters_def)
    next
      case Y: False
      then have "n = ?B - ?o" by (auto simp: n_def min_def)
      then have pk: "offset + length ?X = Suc k * ?B" using o lx ob by simp
      show ?thesis
      proof (rule write_cluster_ok [OF st wr pk refl])
        show "?d = ?X @ ?Y" by simp
      next
        fix w2 t2 cs2 assume a: "write_next ?w1 = Some (Inr w2)" "wstate N w2 t2 cs2 (Suc k)" "wr_data w2 = ?Y"
          "wr_filepos w2 = of_nat (offset + length ?X)" "wrote N ?v t cs (wr_vol w2) t2 cs2 offset ?X"
        have b: "bpc (wr_vol w2) = ?B" using wroteD(4) [OF a(5)] .
        obtain r where r: "do { l \<leftarrow> write_loop w2; case l of Inl x \<Rightarrow> Some x | Inr w2 \<Rightarrow> write_tail w2 } = Some r"
          "wdone N (wr_vol w2) t2 cs2 (Suc k * bpc (wr_vol w2)) (wr_data w2) r"
          using write_rest_ok [OF a(2)] a(4) unfolding pk b by blast
        have "wdone N ?v t cs offset (?X @ ?Y) r" by (rule wdone_trans [OF a(5)]) (use r(2) [unfolded b a(3)] pk in \<open>simp del: mult_Suc length_take\<close>)
        then show ?thesis using h Y a(1) r(1) by (simp add: write_clusters_def)
      next
        fix w2 assume "write_next ?w1 = Some (Inl (False, True, w2))" "wdone N ?v t cs offset (?X @ ?Y) (False, True, w2)"
        then show ?thesis using h Y by (simp add: write_clusters_def)
      qed
    qed
  qed
qed

end
