(* ===== verification/FatWrite.thy ===== *)
theory FatWrite
  imports FatFile
begin

text \<open>
  What \<^verbatim>\<open>FAT_write\<close> of \<^verbatim>\<open>src/fat/fat.c\<close> does to a file: its bytes, its entry, the table and the rest of the disk.
\<close>

section \<open>Files\<close>

text \<open>The entry found by a search, \<open>s\<close>, is the one of a file with the clusters \<open>cs\<close>; the sector of the entry is part of the directory
  cluster \<open>d\<close>, which is in use and not part of the file.\<close>

definition file_ok :: "fatvol \<Rightarrow> u16 list \<Rightarrow> search_result \<Rightarrow> u16 list \<Rightarrow> u16 \<Rightarrow> bool" where
  "file_ok vol t s cs d \<longleftrightarrow> vol_ok vol t \<and> length (DIR_Name (sr_entry s)) = 39 \<and> entry_place vol s \<and>
     entry_on_disk vol s = sr_entry s \<and> in_data (fsize vol) d \<and> t ! unat d \<noteq> 0 \<and> d \<notin> set cs \<and> {entry_pos vol s..<entry_pos vol s + 64} \<subseteq> crange vol d \<and>
     unat (DIR_FileSize (sr_entry s)) \<le> length cs * bpc vol \<and>
     (if cs = [] then DIR_FstClus (sr_entry s) = 0 else cluster_chain t (fsize vol) (DIR_FstClus (sr_entry s)) cs)"

definition content :: "fatvol \<Rightarrow> u16 list \<Rightarrow> nat \<Rightarrow> u8 list" where
  "content vol cs n = map (fbyte vol cs) [0..<n]"

lemma file_okD:
  assumes "file_ok vol t s cs d"
  shows "vol_ok vol t" "cs \<noteq> [] \<Longrightarrow> in_chain vol t cs" "cs \<noteq> [] \<Longrightarrow> DIR_FstClus (sr_entry s) = hd cs"
proof -
  show "vol_ok vol t" using assms by (simp add: file_ok_def)
  show "DIR_FstClus (sr_entry s) = hd cs" if "cs \<noteq> []" using assms that by (cases cs) (auto simp: file_ok_def)
  then show "in_chain vol t cs" if "cs \<noteq> []" using assms that by (simp add: file_ok_def in_chain_def)
qed

lemma wrote_refl:
  assumes "vol_ok vol t" "in_chain vol t cs" "p \<le> length cs * bpc vol"
  shows "wrote N vol t cs vol t cs p []"
  using assms evolves_refl [OF assms(1)] by (auto simp: wrote_def)

text \<open>The first cluster of a write.\<close>

lemma get_first_ok:
  assumes f: "file_ok vol t s cs d" and off: "offset \<le> DIR_FileSize (sr_entry s)"
  defines "k \<equiv> unat offset div bpc vol"
  obtains "FAT_write_get_first offset vol (sr_entry s) = Some (- 1, 0, vol)" "no_free vol t"
  | "k < length cs" "FAT_write_get_first offset vol (sr_entry s) = Some (0, cs ! k, vol)"
  | y vol' t' where "k = length cs" "FAT_write_get_first offset vol (sr_entry s) = Some (1, y, vol')"
      "\<And>N. wrote N vol t cs vol' t' (cs @ [y]) (unat offset) []"
proof -
  note cases = that
  note ok = file_okD(1) [OF f]
  note T = vol_okD(2) [OF ok] and g = vol_okD(1) [OF ok]
  have B: "0 < bpc vol" "unat (BytesPerCluster vol) = bpc vol" "BytesPerCluster vol \<noteq> 0"
    using geometryD(5) [OF g] by (auto simp: bpc_def)
  have o: "unat offset \<le> length cs * bpc vol" using f off by (simp add: file_ok_def word_le_nat_alt)
  then have k: "k \<le> length cs" unfolding k_def using B(1) by (metis div_le_mono nonzero_mult_div_cancel_right less_not_refl2)
  let ?c = "DIR_FstClus (sr_entry s)"
  have lookup: "FAT_lookup_FAT_table vol (sr_entry s) offset = fat_lookup_loop vol ?c k" using B by (simp add: FAT_lookup_FAT_table_def k_def)
  show thesis
  proof (cases "k < length cs")
    case True
    then have ne: "cs \<noteq> []" by auto
    have "fat_lookup_loop vol ?c k = Some (cs ! k)" using lookup_chain [OF T _ True, of ?c] f ne by (simp add: file_ok_def)
    moreover have "in_data (fsize vol) (cs ! k)" using in_chainD(2) [OF file_okD(2) [OF f ne] ok True] .
    ultimately show thesis using in_data_readable [OF _ vol_okD(4) [OF ok]] True lookup
      by (intro cases(2)) (simp_all add: FAT_write_get_first_def FAT_cluster_isReadable_def)
  next
    case False
    then have kl: "k = length cs" using k by simp
    have first: "FAT_write_get_first offset vol (sr_entry s) = map_option (append_result 0) (FAT_append_cluster_chain vol ?c)"
    proof (cases "cs = []")
      case True
      then have "?c = 0" using f by (simp add: file_ok_def)
      then show ?thesis using lookup kl True by (simp add: FAT_write_get_first_def cluster_defs)
    next
      case ne: False
      obtain e where "fat_lookup_loop vol ?c (length cs) = Some e" "FAT_cluster_isEOC e"
        using lookup_end [OF T, of ?c cs] f ne by (auto simp: file_ok_def)
      moreover have "\<not> FAT_cluster_isFREE e" using calculation(2) by (auto simp: cluster_defs)
      ultimately show ?thesis using lookup kl by (simp add: FAT_write_get_first_def)
    qed
    show thesis
    proof (rule append_chain [OF T, of cs ?c])
      show "cs = [] \<and> ?c = 0 \<or> cluster_chain t (fsize vol) (hd cs) cs \<and> ?c \<in> set cs"
        using f file_okD(3) [OF f] by (cases "cs = []") (auto simp: file_ok_def)
    next
      assume "FAT_append_cluster_chain vol ?c = Some (None, vol)" "\<And>c. in_data (fsize vol) c \<Longrightarrow> t ! unat c \<noteq> 0"
      then show thesis using first by (intro cases(1)) (simp_all add: append_result_def no_free_def)
    next
      fix y t' assume a: "FAT_append_cluster_chain vol ?c = Some (Some y, vol\<lparr>FAT := Some t', lastFreeFATEntry := y\<rparr>)"
        "in_data (fsize vol) y" "t ! unat y = 0" "y \<notin> set cs" "vol_table (vol\<lparr>FAT := Some t', lastFreeFATEntry := y\<rparr>) t'"
        "cluster_chain t' (fsize vol) (hd (cs @ [y])) (cs @ [y])" "t' = (if cs = [] then t else t[unat (last cs) := y])[unat y := 0xFFFF]"
      have "unat offset \<le> length (cs @ [y]) * bpc vol" using o by simp
      then have "wrote N vol t cs (vol\<lparr>FAT := Some t', lastFreeFATEntry := y\<rparr>) t' (cs @ [y]) (unat offset) []" for N
        by (intro wrote_append [OF ok a(2,3) refl a(5,6,7)]) (use file_okD(2) [OF f] in auto)
      then show thesis using first a(1) kl by (intro cases(3)) (simp_all add: append_result_def)
    qed
  qed
qed

section \<open>The entry and the table on disk\<close>

definition entry_range :: "fatvol \<Rightarrow> search_result \<Rightarrow> nat set" where
  "entry_range vol s = {entry_pos vol s..<entry_pos vol s + 64}"

lemma timestamps_keep [simp]:
  "DIR_Name (FAT_update_timestamps now e f) = DIR_Name e" "DIR_FstClus (FAT_update_timestamps now e f) = DIR_FstClus e"
  "DIR_FileSize (FAT_update_timestamps now e f) = DIR_FileSize e" "DIR_Attr (FAT_update_timestamps now e f) = DIR_Attr e"
  by (simp_all add: FAT_update_timestamps_def Let_def)

lemma same_place:
  assumes "evolves vol vol' t' A"
  shows "entry_place vol' s = entry_place vol s" "entry_pos vol' s = entry_pos vol s" "entry_range vol' s = entry_range vol s"
    "table_range vol' = table_range vol" "crange vol' c = crange vol c"
  using evolvesD [OF assms] by (simp_all add: entry_place_def entry_pos_def entry_range_def table_range_def crange_def)

lemma entry_of_update [simp]:
  "entry_pos vol (s\<lparr>sr_entry := e\<rparr>) = entry_pos vol s" "entry_place vol (s\<lparr>sr_entry := e\<rparr>) = entry_place vol s"
  by (simp_all add: entry_pos_def entry_place_def)

lemma update_on_disk_ok:
  assumes ok: "vol_ok vol t" and p: "entry_place vol s" and n: "length (DIR_Name (sr_entry s)) = 39"
  shows "\<exists>vol'. FAT_write_update_on_disk now a pos vol s = Some vol' \<and> evolves vol vol' t (table_range vol \<union> entry_range vol s) \<and>
    entry_on_disk vol' s = FAT_update_timestamps now ((sr_entry s)\<lparr>DIR_FileSize := max pos (DIR_FileSize (sr_entry s))\<rparr>) FAT_TS_WRITE"
proof -
  let ?e = "FAT_update_timestamps now ((sr_entry s)\<lparr>DIR_FileSize := max pos (DIR_FileSize (sr_entry s))\<rparr>) FAT_TS_WRITE"
  obtain v where v: "FAT_write_FAT_table vol = Some (True, v)" "evolves vol v t (table_range vol)" using write_table_ok [OF ok] by blast
  obtain b vol1 where w: "(if a \<noteq> 0 then FAT_write_FAT_table vol else Some (True, vol)) = Some (b, vol1)" "evolves vol vol1 t (table_range vol)"
    using v evolves_refl [OF ok] by (cases "a = 0") auto
  note same = same_place [OF w(2)]
  note g = vol_okD(1) [OF evolvesD(1) [OF w(2)]]
  have e: "(if pos > DIR_FileSize (sr_entry s) then (sr_entry s)\<lparr>DIR_FileSize := pos\<rparr> else sr_entry s) =
    (sr_entry s)\<lparr>DIR_FileSize := max pos (DIR_FileSize (sr_entry s))\<rparr>" by (simp add: max_def not_less)
  let ?v = "put_bytes vol1 (entry_pos vol1 s) (encode_entry ?e)"
  have wr: "FAT_write_DIR_entry vol1 (s\<lparr>sr_entry := ?e\<rparr>) = Some (True, ?v)"
    using write_entry_ok [OF g, of "s\<lparr>sr_entry := ?e\<rparr>"] p same n by simp
  have "evolves vol1 ?v t (entry_range vol s)"
    by (rule evolves_put [OF evolvesD(1) [OF w(2)]]) (use entry_pos_bound [OF g, of s] p same n in \<open>simp_all add: encode_length entry_range_def\<close>)
  then have "evolves vol ?v t (table_range vol \<union> entry_range vol s)" by (rule evolves_trans [OF w(2)])
  moreover have "entry_on_disk ?v s = ?e" by (rule entry_on_disk_put [OF g]) (use p same n in simp_all)
  moreover have "FAT_write_update_on_disk now a pos vol s = Some ?v"
    unfolding FAT_write_update_on_disk_def Let_def e w(1) by (simp add: wr)
  ultimately show ?thesis by blast
qed

text \<open>Clusters lie behind the tables, and the bytes of a file are those of its clusters.\<close>

lemma crange_table:
  assumes "geometry_ok vol" "in_data (fsize vol) c"
  shows "crange vol c \<inter> table_range vol = {}"
proof -
  have "data_sector vol * bps vol \<le> cluster_pos vol c"
    unfolding cluster_pos_def using cluster_in_disk(3) [OF assms] by (rule mult_right_mono) simp
  then show ?thesis by (auto simp: crange_def table_range_def)
qed

lemma evolves_fbyte:
  assumes e: "evolves vol vol' t' A" and g: "geometry_ok vol" and c: "\<And>c. c \<in> set cs \<Longrightarrow> in_data (fsize vol) c \<and> crange vol c \<inter> A = {}"
    and i: "i < length cs * bpc vol"
  shows "fbyte vol' cs i = fbyte vol cs i"
proof -
  let ?c = "cs ! (i div bpc vol)"
  have "?c \<in> set cs" using i by (simp add: less_mult_imp_div_less)
  then have d: "in_data (fsize vol) ?c" "crange vol ?c \<inter> A = {}" using c by auto
  have m: "cluster_pos vol ?c + i mod bpc vol \<in> crange vol ?c" using geometryD(5) [OF g] by (simp add: crange_def)
  then have "cluster_pos vol ?c + i mod bpc vol < length (file_of vol)" using cluster_in_disk(2) [OF g d(1)] by (simp add: crange_def)
  then show ?thesis using evolvesD(5,7,14) [OF e] m d(2) by (auto simp: fbyte_def)
qed

lemma content_eq: "(\<And>i. i < n \<Longrightarrow> fbyte vol' cs i = fbyte vol cs' i) \<Longrightarrow> content vol' cs n = content vol cs' n"
  by (simp add: content_def)

lemma content_wrote:
  assumes w: "wrote (length cs) vol t cs vol' t' cs' p X" and p: "p \<le> n" "n \<le> length cs * bpc vol"
  shows "content vol' cs' (max n (p + length X)) = take p (content vol cs n) @ X @ drop (p + length X) (content vol cs n)"
proof (rule nth_equalityI)
  show "length (content vol' cs' (max n (p + length X))) = length (take p (content vol cs n) @ X @ drop (p + length X) (content vol cs n))"
    using p by (simp add: content_def)
next
  fix i assume "i < length (content vol' cs' (max n (p + length X)))"
  then have i: "i < max n (p + length X)" by (simp add: content_def)
  have same: "fbyte vol' cs' i = fbyte vol cs i" if "i < n" "i < p \<or> p + length X \<le> i"
    using w that p(2) less_le_trans [OF that(1) p(2)] by (auto simp: wrote_def)
  have new: "fbyte vol' cs' i = X ! (i - p)" if "p \<le> i" "i < p + length X"
    using w that by (auto simp: wrote_def dest!: spec [of _ "i - p"])
  consider "i < p" | "p \<le> i" "i < p + length X" | "p + length X \<le> i" by linarith
  then show "content vol' cs' (max n (p + length X)) ! i = (take p (content vol cs n) @ X @ drop (p + length X) (content vol cs n)) ! i"
    by cases (use i p same new in \<open>auto simp: content_def nth_append min_def\<close>)
qed

section \<open>Writing a file\<close>

text \<open>The clusters of a write: the first one is found or appended, then the bytes are written, all of them unless no cluster is
  free.\<close>

lemma write_from_first:
  assumes w: "wrote (length cs) vol t cs vol1 t1 cs1 (unat offset) []" and k: "k = unat offset div bpc vol" "k < length cs1" "cs1 ! k = c"
    and a: "a \<noteq> 0 \<Longrightarrow> length cs \<le> k" and data: "data \<noteq> []"
  obtains ok w t2 cs2 X where "write_clusters (unat offset) \<lparr>wr_vol = vol1, wr_cluster = c, wr_appended = a, wr_filepos = offset, wr_data = data\<rparr> =
      Some (ok, True, w)" "data = X @ wr_data w" "wrote (length cs) vol t cs (wr_vol w) t2 cs2 (unat offset) X" "hd cs2 = hd cs1"
    "wr_filepos w = of_nat (unat offset + length X)" "if ok then wr_data w = [] else no_free (wr_vol w) t2"
proof -
  let ?w = "\<lparr>wr_vol = vol1, wr_cluster = c, wr_appended = a, wr_filepos = offset, wr_data = data\<rparr>"
  have "length cs \<le> length cs1" using w by (auto simp: wrote_def)
  then have "wstate (length cs) ?w t1 cs1 k" using wroteD(1,2) [OF w] k a by (simp add: wstate_def)
  then obtain r where r: "write_clusters (unat offset) ?w = Some r" "wdone (length cs) vol1 t1 cs1 (unat offset) data r"
    using write_clusters_ok [of "length cs" ?w t1 cs1 k "unat offset"] wroteD(4) [OF w] k(1) data by auto
  obtain ok w2 where rw: "r = (ok, True, w2)" using r(2) by (auto simp: wdone_def split: prod.splits)
  obtain t2 cs2 X where x: "data = X @ wr_data w2" "wrote (length cs) vol1 t1 cs1 (wr_vol w2) t2 cs2 (unat offset) X"
    "wr_filepos w2 = of_nat (unat offset + length X)" "if ok then wr_data w2 = [] else no_free (wr_vol w2) t2"
    using r(2) unfolding rw wdone_def by auto
  have "cs1 \<noteq> []" using wroteD(2) [OF w] by (simp add: in_chain_def)
  then have "hd cs2 = hd cs1" using x(2) by (auto simp: wrote_def)
  moreover have "wrote (length cs) vol t cs (wr_vol w2) t2 cs2 (unat offset) X" using wrote_trans [OF w, of _ _ _ X] x(2) by simp
  ultimately show thesis using that r(1) x unfolding rw by metis
qed

text \<open>What a write leaves: the bytes \<open>X\<close> at \<open>offset\<close>, and an entry that describes the file.\<close>

definition file_written ::
  "fatvol \<Rightarrow> u16 list \<Rightarrow> search_result \<Rightarrow> u16 list \<Rightarrow> u16 \<Rightarrow> nat \<Rightarrow> u8 list \<Rightarrow> fatvol \<Rightarrow> u16 list \<Rightarrow> u16 list \<Rightarrow> dirent \<Rightarrow> bool" where
  "file_written vol t s cs d offset X vol' t' cs' e \<longleftrightarrow>
     (let size = unat (DIR_FileSize (sr_entry s)); size' = max size (offset + length X); old = content vol cs size in
      file_ok vol' t' (s\<lparr>sr_entry := e\<rparr>) cs' d \<and> DIR_Name e = DIR_Name (sr_entry s) \<and> DIR_Attr e = DIR_Attr (sr_entry s) \<and>
      unat (DIR_FileSize e) = size' \<and> content vol' cs' size' = take offset old @ X @ drop (offset + length X) old \<and>
      (\<exists>new. cs' = cs @ new \<and> (\<forall>c\<in>set new. t ! unat c = 0)) \<and>
      (\<forall>c. in_data (fsize vol) c \<and> c \<notin> set cs' \<longrightarrow> t' ! unat c = t ! unat c) \<and>
      evolves vol vol' t' ((\<Union>c\<in>set cs'. crange vol c) \<union> (table_range vol \<union> entry_range vol s)))"

lemma file_written_refl:
  assumes f: "file_ok vol t s cs d" and off: "offset \<le> unat (DIR_FileSize (sr_entry s))"
  shows "file_written vol t s cs d offset [] vol t cs (sr_entry s)"
  using assms evolves_refl [OF file_okD(1) [OF f]] by (auto simp: file_written_def Let_def content_def take_map drop_map map_append [symmetric] simp del: map_append)

lemma file_written_update:
  assumes f: "file_ok vol t s cs d" and off: "p \<le> unat (DIR_FileSize (sr_entry s))" and len: "p + length X < 2 ^ 32"
    and w: "wrote (length cs) vol t cs vol1 t1 cs1 p X" and c: "c = hd cs1"
    and u: "FAT_write_update_on_disk now a (of_nat (p + length X)) vol1 (s\<lparr>sr_entry := (sr_entry s)\<lparr>DIR_FstClus := c\<rparr>\<rparr>) = Some vol2"
  shows "\<exists>e. file_written vol t s cs d p X vol2 t1 cs1 e"
proof -
  let ?e = "(sr_entry s)\<lparr>DIR_FstClus := c\<rparr>" and ?n = "DIR_FileSize (sr_entry s)"
  note e1 = wroteD(3) [OF w] and ch = wroteD(2) [OF w]
  note same = same_place [OF e1] and ok1 = wroteD(1) [OF w] and ok = file_okD(1) [OF f]
  note g = vol_okD(1) [OF ok] and g1 = vol_okD(1) [OF ok1]
  have p: "entry_place vol s" "length (DIR_Name (sr_entry s)) = 39" using f by (simp_all add: file_ok_def)
  let ?r = "table_range vol \<union> entry_range vol s"
  let ?e2 = "FAT_update_timestamps now (?e\<lparr>DIR_FileSize := max (of_nat (p + length X)) ?n\<rparr>) FAT_TS_WRITE"
  have e2: "evolves vol1 vol2 t1 ?r" "entry_on_disk vol2 s = ?e2"
    using update_on_disk_ok [OF ok1, of "s\<lparr>sr_entry := ?e\<rparr>" now a "of_nat (p + length X)"] u p same
    by (simp_all add: entry_range_def entry_on_disk_def)
  have size: "unat (max (of_nat (p + length X)) ?n) = max (unat ?n) (p + length X)"
  proof -
    have "unat (of_nat (p + length X) :: u32) = p + length X" using len by (simp add: unat_of_nat take_bit_nat_eq_self del: of_nat_add)
    then show ?thesis by (simp add: max_def word_le_nat_alt del: of_nat_add)
  qed
  obtain new where new: "cs1 = cs @ new" using w by (auto simp: wrote_def)
  have z: "t ! unat x = 0" if "x \<in> set cs1 - set cs" for x using w that by (auto simp: wrote_def)
  have d1: "d \<notin> set cs1" using z [of d] f by (auto simp: file_ok_def)
  have cd: "in_data (fsize vol) x" if "x \<in> set cs1" for x using in_chainD(3) [OF ch ok1 that] wroteD(5) [OF w] by simp
  have apart: "in_data (fsize vol1) x \<and> crange vol1 x \<inter> ?r = {}" if "x \<in> set cs1" for x
  proof -
    have "x \<noteq> d" using that d1 by auto
    then have "crange vol x \<inter> crange vol d = {}" using crange_apart [OF g cd [OF that], of d] f by (simp add: file_ok_def)
    then show ?thesis using crange_table [OF g cd [OF that]] cd [OF that] f wroteD(5) [OF w] same(5) by (auto simp: file_ok_def entry_range_def)
  qed
  note size' = wroteD(4,5) [OF w] and fs = evolvesD(1,2,5) [OF e2(1)]
  have pl: "p + length X \<le> length cs1 * bpc vol" "unat ?n \<le> length cs * bpc vol" using w f by (auto simp: wrote_def file_ok_def)
  have lc: "unat ?n \<le> length cs1 * bpc vol" using pl(2) unfolding new by (simp add: add_mult_distrib)
  have "content vol2 cs1 m = content vol1 cs1 m" if "m \<le> length cs1 * bpc vol" for m
    using evolves_fbyte [OF e2(1) g1 apart] that size' by (intro content_eq) simp
  then have "content vol2 cs1 (max (unat ?n) (p + length X)) =
      take p (content vol cs (unat ?n)) @ X @ drop (p + length X) (content vol cs (unat ?n))"
    using content_wrote [OF w off pl(2)] pl(1) lc by simp
  moreover have "file_ok vol2 t1 (s\<lparr>sr_entry := ?e2\<rparr>) cs1 d"
  proof -
    have "t1 ! unat d = t ! unat d" using w d1 f by (auto simp: wrote_def file_ok_def)
    moreover have "cluster_chain t1 (fsize vol2) c cs1" "cs1 \<noteq> []" using ch c fs(2) by (simp_all add: in_chain_def)
    moreover note same2 = same_place [OF e2(1)]
    moreover have "max (unat ?n) (p + length X) \<le> length cs1 * bpc vol2" using pl(1) lc fs(3) size' by simp
    moreover have "entry_on_disk vol2 (s\<lparr>sr_entry := ?e2\<rparr>) = ?e2" using e2(2) by (simp add: entry_on_disk_def)
    ultimately show ?thesis using f d1 fs size' size same same2 p unfolding file_ok_def by (simp del: of_nat_add)
  qed
  moreover have "evolves vol vol2 t1 ((\<Union>c\<in>set cs1. crange vol c) \<union> ?r)" by (rule evolves_trans [OF e1 e2(1)])
  ultimately have "file_written vol t s cs d p X vol2 t1 cs1 ?e2"
    using w size new in_chainD(1) [OF ch ok1] z unfolding file_written_def Let_def by (auto simp: wrote_def simp del: of_nat_add)
  then show ?thesis ..
qed

text \<open>The result of a write, with the clusters and the entry of the file left existential.\<close>

definition write_result :: "fatvol \<Rightarrow> u16 list \<Rightarrow> search_result \<Rightarrow> u16 list \<Rightarrow> u16 \<Rightarrow> nat \<Rightarrow> u8 list \<Rightarrow> (bool \<times> nat \<times> fatvol) option \<Rightarrow> bool" where
  "write_result vol t s cs d offset data r \<longleftrightarrow>
     (\<exists>ok n vol' t' cs' e. r = Some (ok, n, vol') \<and> n \<le> length data \<and> (if ok then n = length data else no_free vol' t') \<and>
       file_written vol t s cs d offset (take n data) vol' t' cs' e)"

lemma write_found_rest:
  assumes f: "file_ok vol t s cs d" and off: "offset \<le> DIR_FileSize (sr_entry s)" and data: "data \<noteq> []" "unat offset + length data < 2 ^ 32"
    and first: "FAT_write_get_first offset vol (sr_entry s) = Some (a, c, vol1)" "0 \<le> a"
    and w1: "wrote (length cs) vol t cs vol1 t1 cs1 (unat offset) []" and k: "k = unat offset div bpc vol" "k < length cs1" "cs1 ! k = c"
    and a: "a \<noteq> 0 \<Longrightarrow> length cs \<le> k"
    and c: "(if a > 0 \<and> unat offset < unat (BytesPerCluster vol) then (sr_entry s)\<lparr>DIR_FstClus := c\<rparr> else sr_entry s) =
      (sr_entry s)\<lparr>DIR_FstClus := hd cs1\<rparr>"
  shows "write_result vol t s cs d (unat offset) data (write_found now vol s offset data)"
proof -
  obtain ok w t2 cs2 X where
    x: "write_clusters (unat offset) \<lparr>wr_vol = vol1, wr_cluster = c, wr_appended = a, wr_filepos = offset, wr_data = data\<rparr> = Some (ok, True, w)"
    "data = X @ wr_data w" "wrote (length cs) vol t cs (wr_vol w) t2 cs2 (unat offset) X" "hd cs2 = hd cs1"
    "wr_filepos w = of_nat (unat offset + length X)" "if ok then wr_data w = [] else no_free (wr_vol w) t2"
    by (rule write_from_first [OF w1 k a data(1)])
  let ?s = "s\<lparr>sr_entry := (sr_entry s)\<lparr>DIR_FstClus := hd cs1\<rparr>\<rparr>"
  have "entry_place (wr_vol w) ?s" "length (DIR_Name (sr_entry ?s)) = 39"
    using same_place(1) [OF wroteD(3) [OF x(3)]] f by (simp_all add: file_ok_def)
  then obtain vol2 where u: "FAT_write_update_on_disk now (wr_appended w) (wr_filepos w) (wr_vol w) ?s = Some vol2"
    "evolves (wr_vol w) vol2 t2 (table_range (wr_vol w) \<union> entry_range (wr_vol w) ?s)" using update_on_disk_ok [OF wroteD(1) [OF x(3)]] by metis
  have len: "unat offset + length X < 2 ^ 32" using data(2) x(2) by (metis add.assoc le_add1 le_less_trans length_append)
  have "\<exists>e. file_written vol t s cs d (unat offset) X vol2 t2 cs2 e"
    by (rule file_written_update [OF f _ len x(3) x(4) [symmetric]]) (use off u(1) x(5) in \<open>simp_all add: word_le_nat_alt\<close>)
  moreover have "write_found now vol s offset data = Some (ok, length X, vol2)"
    unfolding write_found_def Let_def first(1) using first(2) x(1,2) u(1) by (simp add: c)
  moreover have "no_free vol2 t2" if "\<not> ok" using that x(6) evolvesD(2) [OF u(2)] by (simp add: no_free_def)
  moreover have "take (length X) data = X" "length X \<le> length data" "ok \<Longrightarrow> length X = length data" using x(2,6) by auto
  ultimately show ?thesis unfolding write_result_def by metis
qed

lemma write_found_ok:
  assumes f: "file_ok vol t s cs d" and off: "offset \<le> DIR_FileSize (sr_entry s)" and data: "data \<noteq> []" "unat offset + length data < 2 ^ 32"
  shows "write_result vol t s cs d (unat offset) data (write_found now vol s offset data)"
proof (rule get_first_ok [OF f off])
  assume a: "FAT_write_get_first offset vol (sr_entry s) = Some (- 1, 0, vol)" "no_free vol t"
  have "file_written vol t s cs d (unat offset) [] vol t cs (sr_entry s)" using off by (intro file_written_refl [OF f]) (simp add: word_le_nat_alt)
  then show ?thesis using a by (force simp: write_result_def write_found_def)
next
  let ?k = "unat offset div bpc vol"
  assume a: "?k < length cs" "FAT_write_get_first offset vol (sr_entry s) = Some (0, cs ! ?k, vol)"
  then have ne: "cs \<noteq> []" by auto
  have "unat offset \<le> length cs * bpc vol" using f off by (simp add: file_ok_def word_le_nat_alt)
  then have w: "wrote (length cs) vol t cs vol t cs (unat offset) []" by (rule wrote_refl [OF file_okD(1) [OF f] file_okD(2) [OF f ne]])
  show ?thesis by (rule write_found_rest [OF f off data a(2) _ w refl a(1) refl]) (use file_okD(3) [OF f ne] in auto)
next
  fix y vol' t' assume a: "unat offset div bpc vol = length cs" "FAT_write_get_first offset vol (sr_entry s) = Some (1, y, vol')"
    "\<And>N. wrote N vol t cs vol' t' (cs @ [y]) (unat offset) []"
  have "unat offset < bpc vol \<longleftrightarrow> cs = []"
    using a(1) geometryD(5) [OF vol_okD(1) [OF file_okD(1) [OF f]]] by (metis div_less div_greater_zero_iff length_0_conv less_not_refl not_less)
  then show ?thesis by (intro write_found_rest [OF f off data a(2) _ a(3) refl]) (use a(1) file_okD(3) [OF f] in \<open>auto simp: bpc_def\<close>)
qed

text \<open>C15: writing \<open>data\<close> at \<open>offset\<close>, at most the size of the file, changes the file as it should: the call returns, the bytes of the file are the old ones
  in front of \<open>offset\<close>, the first \<open>n\<close> bytes of \<open>data\<close>, and the old ones behind; the entry on disk has the new size and the first cluster, the clusters
  of the file are its old ones and some that were free, and nothing else changes in the table or on the disk except the entry and the copies of the
  table (the bytes of those copies are not part of the statement). Everything is written, unless no cluster of the volume is free.\<close>

theorem FAT_write_correct:
  assumes "file_ok vol t s cs d" "FAT_search_DIR_entry mem junk vol name = Some (Some s)"
    and "DIR_Attr (sr_entry s) AND (ATTR_DIRECTORY OR ATTR_READ_ONLY OR ATTR_LINK OR ATTR_VOLUME_ID) = 0"
    and "offset \<le> DIR_FileSize (sr_entry s)" "data \<noteq> []" "unat offset + length data < 2 ^ 32"
  shows "write_result vol t s cs d (unat offset) data (FAT_write mem junk now vol name offset data)"
proof -
  have "FAT_write mem junk now vol name offset data = write_found now vol s offset data"
    using assms unfolding FAT_write_def by (simp add: leD)
  then show ?thesis using write_found_ok [OF assms(1,4,5,6)] by simp
qed

text \<open>A volume with sectors of 64 bytes: a reserved sector, a table, the root directory with a file \<open>A\<close> of three bytes, its cluster, and
  a free one.\<close>

definition demo_entry :: dirent where
  "demo_entry = \<lparr>DIR_Name = 65 # replicate 38 0x20, DIR_Attr = 0, DIR_FstClus = 3, DIR_AccDate = 0, DIR_CrtDate = 0, DIR_WrtDate = 0,
     DIR_AccTime = 0, DIR_CrtTime = 0, DIR_WrtTime = 0, DIR_FileSize = 3\<rparr>"

definition demo_table :: "u16 list" where
  "demo_table = [0xFFFF, 0xFFFF, 0xFFFF, 0xFFFF] @ replicate 28 0"

definition demo_vol :: fatvol where
  "demo_vol = \<lparr>PB = \<lparr>OEMName = [], BytsPerSec = 64, SecPerClus = 1, NumFATs = 1, ResvdSecCnt = 1, FATSz16 = 1, HiddSec = 0, TotSec = 5, VolID = 0,
       PBFlags = 0, VolLab = [], FilSysType = [], RootClus = 2\<rparr>, FAT = Some demo_table, FirstSector = 0, FirstDataSector = 2,
     CountOfClusters = 3, DataSectors = 3, BytesPerCluster = 64, FATSize = 5, FATEntriesPerSec = 1, mounted = True,
     vctx = \<lparr>d_file = replicate 128 0 @ encode_entry demo_entry @ [1, 2, 3] @ replicate 125 0, bytes_per_sector = 64, num_of_sectors = 5\<rparr>,
     lastFreeFATEntry = 2\<rparr>"

definition demo_search :: search_result where
  "demo_search = \<lparr>sr_entry = demo_entry, sr_sector = 2, sr_offset = 0, sr_container = 3\<rparr>"

definition demo_now :: tm where
  "demo_now = \<lparr>tm_sec = 1, tm_min = 2, tm_hour = 3, tm_mday = 4, tm_mon = 5, tm_year = 120, tm_wday = 4, tm_yday = 155, tm_isdst = 0\<rparr>"

lemma demo_search_found: "FAT_search_DIR_entry (\<lambda>_. True) demo_search demo_vol [0x61] = Some (Some demo_search)"
  by code_simp

lemma demo_file_ok: "file_ok demo_vol demo_table demo_search [3] 2"
proof -
  have "vol_ok demo_vol demo_table"
    by (simp add: vol_ok_def geometry_ok_def disk_ok_def vol_table_def demo_vol_def demo_table_def bps_def spc_def bpc_def fsize_def data_sector_def
        encode_length demo_entry_def)
  moreover have "entry_place demo_vol demo_search" "entry_on_disk demo_vol demo_search = sr_entry demo_search" by code_simp+
  moreover have "cluster_chain demo_table (fsize demo_vol) (DIR_FstClus (sr_entry demo_search)) [3]" by code_simp
  moreover have "in_data (fsize demo_vol) 2" "demo_table ! unat (2 :: u16) \<noteq> 0" "unat (DIR_FileSize (sr_entry demo_search)) \<le> bpc demo_vol" by code_simp+
  moreover have "entry_pos demo_vol demo_search = 128" "cluster_pos demo_vol 2 = 128" "bpc demo_vol = 64" by code_simp+
  moreover have "length (DIR_Name (sr_entry demo_search)) = 39" by code_simp
  ultimately show ?thesis by (simp add: file_ok_def crange_def del: cluster_chain.simps)
qed

theorem FAT_write_correct_witness:
  "write_result demo_vol demo_table demo_search [3] 2 1 (replicate 70 9) (FAT_write (\<lambda>_. True) demo_search demo_now demo_vol [0x61] 1 (replicate 70 9))"
proof -
  have "DIR_Attr (sr_entry demo_search) AND (ATTR_DIRECTORY OR ATTR_READ_ONLY OR ATTR_LINK OR ATTR_VOLUME_ID) = 0"
    "1 \<le> DIR_FileSize (sr_entry demo_search)" by code_simp+
  then show ?thesis using FAT_write_correct [OF demo_file_ok demo_search_found, of 1 "replicate 70 9" demo_now] by simp
qed

end
