(* ===== verification/FatRead.thy ===== *)
theory FatRead
  imports FatWrite
begin

text \<open>
  What \<^verbatim>\<open>FAT_read\<close> of \<^verbatim>\<open>src/fat/fat.c\<close> puts into the buffer of the caller.
\<close>

section \<open>The steps of a read\<close>

lemma splice_append:
  assumes "p + length X + length Y \<le> length buf"
  shows "splice (splice buf p X) (p + length X) Y = splice buf p (X @ Y)"
  by (rule nth_equalityI) (use assms in \<open>auto simp: splice_length splice_nth nth_append\<close>)

lemma splice_nil [simp]: "p \<le> length buf \<Longrightarrow> splice buf p [] = buf"
  by (simp add: splice_def)

lemma chain_step:
  assumes "vol_ok vol t" "in_chain vol t cs" "k < length cs"
  shows "FAT_get_cluster_from_table vol (cs ! k) = Some (t ! unat (cs ! k))" "Suc k < length cs \<Longrightarrow> t ! unat (cs ! k) = cs ! Suc k"
    "FAT_cluster_isReadable (cs ! k)" "diskReadC vol (FAT_FSoC vol (cs ! k)) = Some (Some (cluster_data vol (cs ! k)))"
proof -
  have c: "in_data (fsize vol) (cs ! k)" using in_chainD(2) [OF assms(2,1,3)] .
  then show "FAT_get_cluster_from_table vol (cs ! k) = Some (t ! unat (cs ! k))"
    using get_cluster [OF vol_okD(2) [OF assms(1)]] by (simp add: in_data_def)
  have "cluster_chain t (fsize vol) (hd cs) (take k cs @ cs ! k # drop (Suc k) cs)"
    using assms(2) id_take_nth_drop [OF assms(3)] by (simp add: in_chain_def)
  then have "cluster_chain t (fsize vol) (cs ! k) (cs ! k # drop (Suc k) cs)" by (rule chain_suffix)
  then show "t ! unat (cs ! k) = cs ! Suc k" if "Suc k < length cs" using that by (simp add: Cons_nth_drop_Suc [symmetric])
  show "FAT_cluster_isReadable (cs ! k)" using in_data_readable(2) [OF c vol_okD(4) [OF assms(1)]] .
  show "diskReadC vol (FAT_FSoC vol (cs ! k)) = Some (Some (cluster_data vol (cs ! k)))" using readC_ok [OF vol_okD(1) [OF assms(1)] c] .
qed

text \<open>A part of a cluster is a part of the file.\<close>

lemma cluster_part:
  assumes "vol_ok vol t" "in_chain vol t cs" "k < length cs" "j + n \<le> bpc vol"
  shows "bytes_at (cluster_data vol (cs ! k)) j n = map (fbyte vol cs) [k * bpc vol + j..<k * bpc vol + j + n]"
proof (rule nth_equalityI)
  have l: "length (cluster_data vol (cs ! k)) = bpc vol"
    by (rule cluster_data_length [OF vol_okD(1) [OF assms(1)] in_chainD(2) [OF assms(2,1,3)]])
  then show "length (bytes_at (cluster_data vol (cs ! k)) j n) = length (map (fbyte vol cs) [k * bpc vol + j..<k * bpc vol + j + n])"
    using assms(4) by (simp add: bytes_at_length)
  fix i assume "i < length (bytes_at (cluster_data vol (cs ! k)) j n)"
  then have i: "j + i < bpc vol" "i < n" using l assms(4) by (simp_all add: bytes_at_length)
  have "Suc k * bpc vol \<le> length cs * bpc vol" using assms(3) by (intro mult_right_mono) simp_all
  then have "k * bpc vol + (j + i) < length cs * bpc vol" using i by simp
  then have "fbyte vol cs (k * bpc vol + (j + i)) = cluster_data vol (cs ! k) ! (j + i)"
    using fbyte_cluster [OF assms(1,2), of "k * bpc vol + (j + i)"] i by simp
  then show "bytes_at (cluster_data vol (cs ! k)) j n ! i = map (fbyte vol cs) [k * bpc vol + j..<k * bpc vol + j + n] ! i"
    using i l assms(4) by (simp add: bytes_at_nth add.assoc)
qed

definition read_rest :: "fatvol \<Rightarrow> reading \<Rightarrow> (bool \<times> reading) option" where
  "read_rest vol r = do { l \<leftarrow> read_loop vol r; case l of Inl x \<Rightarrow> Some x | Inr r2 \<Rightarrow> read_tail vol r2 }"

lemma read_rest_ok:
  assumes ok: "vol_ok vol t" "in_chain vol t cs" and "k * bpc vol + rd_left r \<le> length cs * bpc vol" "rd_left r > 0 \<Longrightarrow> rd_cluster r = cs ! k"
    and "rd_pos r + rd_left r \<le> length (rd_buf r)"
  shows "\<exists>r'. read_rest vol r = Some (True, r') \<and> rd_len r' = rd_len r + rd_left r \<and>
    rd_buf r' = splice (rd_buf r) (rd_pos r) (map (fbyte vol cs) [k * bpc vol..<k * bpc vol + rd_left r])"
  using assms(3-)
proof (induction "rd_left r" arbitrary: r k rule: less_induct)
  case less
  let ?B = "bpc vol" and ?n = "rd_left r" and ?f = "map (fbyte vol cs)"
  have B: "0 < ?B" "unat (BytesPerCluster vol) = ?B" using geometryD(5) [OF vol_okD(1) [OF ok(1)]] by (simp_all add: bpc_def)
  show ?case
  proof (cases "?n = 0")
    case True
    then show ?thesis using B less.prems(3) by (subst (1) read_rest_def, subst read_loop.simps) (simp add: read_tail_def)
  next
    case left: False
    then have k: "k < length cs" using less.prems(1) by (metis add_gr_0 le_less_trans less_add_same_cancel1 linorder_not_le mult_le_mono1 neq0_conv not_less)
    have c: "rd_cluster r = cs ! k" using less.prems(2) left by simp
    note st = chain_step [OF ok k]
    have d: "length (cluster_data vol (cs ! k)) = ?B" by (rule cluster_data_length [OF vol_okD(1) [OF ok(1)] in_chainD(2) [OF ok(2,1) k]])
    have part: "take m (cluster_data vol (cs ! k)) = ?f [k * ?B..<k * ?B + m]" if "m \<le> ?B" for m
      using cluster_part [OF ok k, of 0 m] that by (simp add: bytes_at_def)
    show ?thesis
    proof (cases "?B \<le> ?n")
      case False
      have "read_loop vol r = Some (Inr r)" using False B by (subst read_loop.simps) simp
      then show ?thesis using left False c st(3,4) less.prems(3) part [of ?n] by (simp add: read_rest_def read_tail_def copy_out_def)
    next
      case True
      let ?X = "?f [k * ?B..<k * ?B + ?B]"
      let ?r = "r\<lparr>rd_buf := splice (rd_buf r) (rd_pos r) ?X, rd_len := rd_len r + ?B, rd_pos := rd_pos r + ?B, rd_left := ?n - ?B, rd_cluster := t ! unat (cs ! k)\<rparr>"
      have co: "copy_out (rd_buf r) (rd_pos r) (take ?B (cluster_data vol (cs ! k))) = Some (splice (rd_buf r) (rd_pos r) ?X)"
        using part [of ?B] True less.prems(3) by (simp add: copy_out_def)
      have step: "read_rest vol r = read_rest vol ?r"
        unfolding read_rest_def using True B(2) c st(1,3,4) co by (subst read_loop.simps) (simp add: Let_def)
      have nx: "t ! unat (cs ! k) = cs ! Suc k" if "?n - ?B > 0"
      proof -
        have "Suc k * ?B < length cs * ?B" using less.prems(1) True that by simp
        then have "Suc k < length cs" by (metis mult_less_cancel2)
        then show ?thesis by (rule st(2))
      qed
      have "\<exists>r'. read_rest vol ?r = Some (True, r') \<and> rd_len r' = rd_len ?r + rd_left ?r \<and>
        rd_buf r' = splice (rd_buf ?r) (rd_pos ?r) (?f [Suc k * ?B..<Suc k * ?B + rd_left ?r])"
        by (rule less.hyps) (use True B(1) less.prems nx left in \<open>simp_all add: splice_length\<close>)
      moreover have "?X @ ?f [Suc k * ?B..<Suc k * ?B + (?n - ?B)] = ?f [k * ?B..<k * ?B + ?n]"
        using True upt_add_eq_append [of "k * ?B" "k * ?B + ?B" "?n - ?B"] by (simp add: add.commute)
      moreover have "splice (splice (rd_buf r) (rd_pos r) ?X) (rd_pos r + ?B) Y = splice (rd_buf r) (rd_pos r) (?X @ Y)" if "length Y = ?n - ?B" for Y
        using splice_append [of "rd_pos r" ?X Y "rd_buf r"] that True less.prems(3) by simp
      ultimately show ?thesis unfolding step using True by auto
    qed
  qed
qed

section \<open>Reading a file\<close>

text \<open>Where the bytes \<open>X\<close> land when the first \<open>m\<close> of them come from a cluster that is not read from its start: the buffer pointer is
  advanced by the smaller one of \<open>m\<close> and of what is left.\<close>

definition read_placed :: "nat \<Rightarrow> u8 list \<Rightarrow> u8 list \<Rightarrow> u8 list" where
  "read_placed m buf X = (let a = take m X; b = drop m X in splice (splice buf 0 a) (min (length b) m) b)"

definition first_part :: "fatvol \<Rightarrow> nat \<Rightarrow> nat" where
  "first_part vol offset = (if offset mod bpc vol = 0 then 0 else bpc vol - offset mod bpc vol)"

lemma read_placed_correct:
  assumes "m = 0 \<or> length X \<le> m \<or> 2 * m \<le> length X" "length X \<le> length buf"
  shows "read_placed m buf X = X @ drop (length X) buf"
proof (cases "length X \<le> m")
  case False
  then have "min (length X - m) m = m" using assms(1) by auto
  then have "read_placed m buf X = splice buf 0 (take m X @ drop m X)"
    using splice_append [of 0 "take m X" "drop m X" buf] assms(2) False by (simp add: read_placed_def Let_def)
  then show ?thesis by (simp add: splice_def)
qed (simp add: read_placed_def splice_def)

lemma read_clusters_ok:
  assumes ok: "vol_ok vol t" "in_chain vol t cs" and k: "k = offset div bpc vol" and left: "0 < rd_left r" "offset + rd_left r \<le> length cs * bpc vol"
    and r: "rd_cluster r = cs ! k" "rd_pos r = 0" "rd_left r \<le> length (rd_buf r)"
  shows "\<exists>r'. read_clusters vol offset r = Some (True, r') \<and> rd_len r' = rd_len r + rd_left r \<and>
    rd_buf r' = read_placed (first_part vol offset) (rd_buf r) (map (fbyte vol cs) [offset..<offset + rd_left r])"
proof -
  let ?B = "bpc vol" and ?n = "rd_left r" and ?f = "map (fbyte vol cs)"
  have B: "0 < ?B" "unat (BytesPerCluster vol) = ?B" using geometryD(5) [OF vol_okD(1) [OF ok(1)]] by (simp_all add: bpc_def)
  have "offset < length cs * ?B" using left by linarith
  then have kl: "k < length cs" unfolding k by (simp add: less_mult_imp_div_less)
  have o: "offset = k * ?B + offset mod ?B" using k by simp
  note st = chain_step [OF ok kl]
  show ?thesis
  proof (cases "offset mod ?B = 0")
    case True
    then have "read_clusters vol offset r = read_rest vol r" using B(2) by (simp add: read_clusters_def read_head_def read_rest_def)
    then show ?thesis using read_rest_ok [OF ok, of k r] left r o True by (simp add: first_part_def read_placed_def)
  next
    case False
    let ?m = "?B - offset mod ?B"
    have m: "first_part vol offset = ?m" "offset mod ?B < ?B" using False B(1) by (simp_all add: first_part_def)
    define n where "n = min ?n ?m"
    have X: "bytes_at (cluster_data vol (cs ! k)) (offset mod ?B) n = ?f [offset..<offset + n]"
      using cluster_part [OF ok kl, of "offset mod ?B" n] m(2) o by (simp add: n_def)
    have nb: "n \<le> length (rd_buf r)" using r(3) by (simp add: n_def)
    let ?r = "r\<lparr>rd_buf := splice (rd_buf r) 0 (?f [offset..<offset + n]), rd_len := rd_len r + n, rd_left := ?n - n\<rparr>"
    have head: "read_head vol offset r = (if ?n - n = 0 then Some (Inl (True, ?r))
        else Some (Inr (?r\<lparr>rd_pos := min (?n - n) ?m, rd_cluster := t ! unat (cs ! k)\<rparr>)))"
      using False r(1,2) nb X st(1) unfolding read_head_def Let_def B(2) r(1) st(4) n_def [symmetric] by (simp add: copy_out_def r(1))
    show ?thesis
    proof (cases "?n \<le> ?m")
      case True
      then show ?thesis using head by (simp add: read_clusters_def n_def m(1) read_placed_def splice_length)
    next
      case more: False
      then have n: "n = ?m" by (simp add: n_def)
      let ?r1 = "?r\<lparr>rd_pos := min (?n - n) ?m, rd_cluster := t ! unat (cs ! k)\<rparr>"
      have step: "read_clusters vol offset r = read_rest vol ?r1" using head more n by (simp add: read_clusters_def read_rest_def)
      have sk: "Suc k * ?B = offset + n" using o n m(2) by simp
      have "Suc k * ?B < length cs * ?B" using left(2) more n sk by linarith
      then have "t ! unat (cs ! k) = cs ! Suc k" by (intro st(2)) (metis mult_less_cancel2)
      then have "\<exists>r'. read_rest vol ?r1 = Some (True, r') \<and> rd_len r' = rd_len ?r1 + rd_left ?r1 \<and>
        rd_buf r' = splice (rd_buf ?r1) (rd_pos ?r1) (?f [Suc k * ?B..<Suc k * ?B + rd_left ?r1])"
        by (intro read_rest_ok [OF ok]) (use sk left r(3) more n in \<open>simp_all del: mult_Suc add: splice_length\<close>)
      moreover have "drop n (?f [offset..<offset + ?n]) = ?f [offset + n..<offset + ?n]" "take n (?f [offset..<offset + ?n]) = ?f [offset..<offset + n]"
        using more n by (simp_all add: drop_map take_map)
      ultimately show ?thesis unfolding step sk using more n by (auto simp: m(1) read_placed_def Let_def)
    qed
  qed
qed

text \<open>Rewriting the entry of a file leaves the file alone.\<close>

lemma entry_update_ok:
  assumes f: "file_ok vol t s cs d" and e: "length (DIR_Name e) = 39"
  obtains vol' where "FAT_write_DIR_entry vol (s\<lparr>sr_entry := e\<rparr>) = Some (True, vol')" "evolves vol vol' t (entry_range vol s)"
    "entry_on_disk vol' s = e" "\<And>i. i < length cs * bpc vol \<Longrightarrow> fbyte vol' cs i = fbyte vol cs i"
proof -
  let ?v = "put_bytes vol (entry_pos vol s) (encode_entry e)"
  note ok = file_okD(1) [OF f]
  note g = vol_okD(1) [OF ok]
  have p: "entry_place vol s" using f by (simp add: file_ok_def)
  have ev: "evolves vol ?v t (entry_range vol s)"
    by (rule evolves_put [OF ok]) (use entry_pos_bound [OF g p] e in \<open>simp_all add: encode_length entry_range_def\<close>)
  have apart: "in_data (fsize vol) c \<and> crange vol c \<inter> entry_range vol s = {}" if "c \<in> set cs" for c
  proof -
    have c: "in_data (fsize vol) c" using in_chainD(3) [OF file_okD(2) [OF f] ok that] that by (cases cs) auto
    have "c \<noteq> d" "in_data (fsize vol) d" "entry_range vol s \<subseteq> crange vol d" using f that by (auto simp: file_ok_def entry_range_def)
    then show ?thesis using crange_apart [OF g c, of d] c by blast
  qed
  show thesis
  proof (rule that)
    show "FAT_write_DIR_entry vol (s\<lparr>sr_entry := e\<rparr>) = Some (True, ?v)" using write_entry_ok [OF g, of "s\<lparr>sr_entry := e\<rparr>"] p e by simp
    show "entry_on_disk ?v s = e" by (rule entry_on_disk_put [OF g p e])
    show "fbyte ?v cs i = fbyte vol cs i" if "i < length cs * bpc vol" for i using evolves_fbyte [OF ev g apart that] .
  qed (rule ev)
qed

text \<open>C16: reading gives the bytes of the file, as many as were asked for or as there are, and stamps the entry. They are in the right order when the read
  starts at a cluster, ends in the cluster it starts in, or takes at least as much behind that cluster as from it; otherwise the last part is copied
  into the middle of the first one.\<close>

theorem FAT_read_correct:
  assumes f: "file_ok vol t s cs d" and found: "FAT_search_DIR_entry mem junk vol name = Some (Some s)"
    and attr: "DIR_Attr (sr_entry s) AND (ATTR_DIRECTORY OR ATTR_VOLUME_ID) = 0"
    and off: "offset < DIR_FileSize (sr_entry s)" and len: "buflen \<noteq> 0" "unat buflen \<le> length buffer"
    and X: "X = take (unat buflen) (drop (unat offset) (content vol cs (unat (DIR_FileSize (sr_entry s)))))" and m: "m = first_part vol (unat offset)"
  shows "\<exists>vol' buffer'. FAT_read mem junk now vol name offset buffer buflen = Some (True, buffer', length X, vol') \<and>
    buffer' = read_placed m buffer X \<and> (m = 0 \<or> length X \<le> m \<or> 2 * m \<le> length X \<longrightarrow> buffer' = X @ drop (length X) buffer) \<and>
    evolves vol vol' t (entry_range vol s) \<and> entry_on_disk vol' s = FAT_update_timestamps now (sr_entry s) FAT_TS_READ"
proof -
  let ?e = "sr_entry s" and ?size = "unat (DIR_FileSize (sr_entry s))" and ?k = "unat offset div bpc vol"
  note ok = file_okD(1) [OF f]
  have o: "unat offset < ?size" using off by (simp add: word_less_nat_alt)
  have sz: "?size \<le> length cs * bpc vol" using f by (simp add: file_ok_def)
  then have ne: "cs \<noteq> []" using o by auto
  note ch = file_okD(2) [OF f ne]
  have B: "unat (BytesPerCluster vol) = bpc vol" "BytesPerCluster vol \<noteq> 0" using geometryD(5) [OF vol_okD(1) [OF ok]] by (auto simp: bpc_def)
  have k: "?k < length cs" using o sz by (intro less_mult_imp_div_less) linarith
  have lookup: "FAT_lookup_FAT_table vol ?e offset = Some (cs ! ?k)"
    using lookup_chain [OF vol_okD(2) [OF ok] _ k, of "DIR_FstClus ?e"] f ne B by (simp add: FAT_lookup_FAT_table_def file_ok_def)
  define n where "n = (if DIR_FileSize ?e - offset < buflen then DIR_FileSize ?e - offset else buflen)"
  have n: "unat n = min (unat buflen) (?size - unat offset)" using off by (auto simp: n_def word_less_nat_alt unat_sub_if_size min_def)
  have b: "0 < unat n" "unat offset + unat n \<le> length cs * bpc vol" "unat n \<le> length buffer" using n o sz len by (auto simp: unat_gt_0)
  have lX: "length X = unat n" "X = map (fbyte vol cs) [unat offset..<unat offset + unat n]"
    using n o by (auto simp: X content_def take_map drop_map min_def)
  obtain v where v: "FAT_write_DIR_entry vol (s\<lparr>sr_entry := FAT_update_timestamps now ?e FAT_TS_READ\<rparr>) = Some (True, v)"
    "evolves vol v t (entry_range vol s)" "entry_on_disk v s = FAT_update_timestamps now ?e FAT_TS_READ"
    "\<And>i. i < length cs * bpc vol \<Longrightarrow> fbyte v cs i = fbyte vol cs i"
    by (rule entry_update_ok [OF f, of "FAT_update_timestamps now ?e FAT_TS_READ"]) (use f in \<open>simp_all add: file_ok_def\<close>)
  let ?r = "\<lparr>rd_cluster = cs ! ?k, rd_left = unat n, rd_pos = 0, rd_buf = buffer, rd_len = 0\<rparr>"
  have same: "map (fbyte v cs) [unat offset..<unat offset + unat n] = X" unfolding lX(2) using v(4) b(2) by auto
  note vs = evolvesD(1,2,5) [OF v(2)]
  have "in_chain v t cs" using ch vs(2) by (simp add: in_chain_def)
  then obtain r' where r': "read_clusters v (unat offset) ?r = Some (True, r')" "rd_len r' = unat n" "rd_buf r' = read_placed m buffer X"
    using read_clusters_ok [OF vs(1), of cs ?k "unat offset" ?r] b same vs(3) m by (auto simp: first_part_def)
  have "(DIR_FileSize ?e \<le> offset) = False" using off by (simp add: not_le)
  then have "FAT_read mem junk now vol name offset buffer buflen = Some (True, rd_buf r', unat n, v)"
    unfolding FAT_read_def using len(1) found attr lookup chain_step(3) [OF ok ch k] v(1) r' by (simp add: Let_def n_def [symmetric])
  then show ?thesis using r' v(2,3) b(3) lX(1) read_placed_correct by auto
qed

theorem FAT_read_correct_witness:
  "\<exists>vol'. FAT_read (\<lambda>_. True) demo_search demo_now demo_vol [0x61] 1 [0, 0, 0, 0] 3 = Some (True, [2, 3, 0, 0], 2, vol')"
proof -
  have "content demo_vol [3] (unat (DIR_FileSize (sr_entry demo_search))) = [1, 2, 3]" "first_part demo_vol (unat (1 :: u32)) = 63" by code_simp+
  moreover have "DIR_Attr (sr_entry demo_search) AND (ATTR_DIRECTORY OR ATTR_VOLUME_ID) = 0" "1 < DIR_FileSize (sr_entry demo_search)" by code_simp+
  ultimately show ?thesis
    using FAT_read_correct [OF demo_file_ok demo_search_found, of 1 3 "[0, 0, 0, 0]" "[2, 3]" 63 demo_now] by auto
qed

text \<open>When the rest of the data is shorter than the part in the first cluster, it lands inside that part.\<close>

lemma read_misplaced: "read_placed 4 [0, 0, 0, 0, 0, 0] [1, 2, 3, 4, 5] = [1, 5, 3, 4, 0, 0]"
  by code_simp

end
