(* ===== verification/FatDelete.thy ===== *)
theory FatDelete
  imports FatOps FatRead
begin

text \<open>
  Truncation and deletion of a file by \<^verbatim>\<open>src/fat/fat.c\<close>: the entry is updated and the clusters are released, but with a mark that
  no other function takes for free.
\<close>

section \<open>The parts\<close>

lemma clear_file:
  assumes f: "file_ok vol t s cs d" and ne: "cs \<noteq> []" and e: "DIR_FstClus e = DIR_FstClus (sr_entry s)" "DIR_FileSize e \<noteq> 0"
  shows "FAT_clear_cluster_chain vol e = Some (True, vol\<lparr>FAT := Some (marked t cs)\<rparr>)" "evolves vol (vol\<lparr>FAT := Some (marked t cs)\<rparr>) (marked t cs) {}"
proof -
  note ok = file_okD(1) [OF f]
  have ch: "cluster_chain t (fsize vol) (DIR_FstClus e) cs" using f ne e by (simp add: file_ok_def)
  have "in_data (fsize vol) (DIR_FstClus e)" using ch ne by (cases cs) auto
  then have "\<not> FAT_cluster_isFREE (DIR_FstClus e)" by (auto simp: in_data_def cluster_defs)
  then show "FAT_clear_cluster_chain vol e = Some (True, vol\<lparr>FAT := Some (marked t cs)\<rparr>)"
    using clear_chain(1) [OF vol_okD(2) [OF ok] ch] e(2) by (simp add: FAT_clear_cluster_chain_def)
  have "vol\<lparr>FAT := Some (marked t cs)\<rparr> = vol\<lparr>FAT := Some (marked t cs), lastFreeFATEntry := lastFreeFATEntry vol\<rparr>" by simp
  then show "evolves vol (vol\<lparr>FAT := Some (marked t cs)\<rparr>) (marked t cs) {}"
    using evolves_table [OF ok, of "marked t cs" "lastFreeFATEntry vol" "{}"] clear_chain(2) [OF vol_okD(2) [OF ok] ch] by simp
qed

lemma evolves_entry:
  assumes "evolves vol vol' t' A" "geometry_ok vol" "entry_place vol s" "entry_range vol s \<inter> A = {}"
  shows "entry_on_disk vol' s = entry_on_disk vol s"
  using evolves_bytes [OF assms(1) entry_pos_bound [OF assms(2,3)]] assms(4) same_place(2) [OF assms(1)]
  by (simp add: entry_on_disk_def entry_range_def)

lemma entry_apart_from_table:
  assumes "file_ok vol t s cs d"
  shows "entry_range vol s \<inter> table_range vol = {}"
  using crange_table [OF vol_okD(1) [OF file_okD(1) [OF assms]], of d] assms by (auto simp: file_ok_def entry_range_def)

text \<open>The places of a file do not depend on the table.\<close>

lemma put_entry_ok:
  assumes f: "file_ok vol t s cs d" and ev: "evolves vol vol1 t1 A" and e: "length (DIR_Name e) = 39"
  obtains vol2 where "FAT_write_DIR_entry vol1 (s\<lparr>sr_entry := e\<rparr>) = Some (True, vol2)" "evolves vol vol2 t1 (A \<union> entry_range vol s)"
    "entry_on_disk vol2 s = e"
proof -
  let ?v = "put_bytes vol1 (entry_pos vol1 s) (encode_entry e)"
  note same = same_place [OF ev] and ok1 = evolvesD(1) [OF ev]
  note g1 = vol_okD(1) [OF ok1]
  have p: "entry_place vol1 s" using f same(1) by (simp add: file_ok_def)
  have "evolves vol1 ?v t1 (entry_range vol s)"
    by (rule evolves_put [OF ok1]) (use entry_pos_bound [OF g1 p] e same(2) in \<open>simp_all add: encode_length entry_range_def\<close>)
  then show thesis using that [of ?v] evolves_trans [OF ev] entry_on_disk_put [OF g1 p e] write_entry_ok [OF g1, of "s\<lparr>sr_entry := e\<rparr>"] p e by simp
qed

lemma put_table_ok:
  assumes f: "file_ok vol t s cs d" and ev: "evolves vol vol1 t1 A"
  obtains vol2 where "FAT_write_FAT_table vol1 = Some (True, vol2)" "evolves vol vol2 t1 (A \<union> table_range vol)" "entry_on_disk vol2 s = entry_on_disk vol1 s"
    "tables_on_disk vol2 t1"
proof -
  note same = same_place [OF ev] and ok1 = evolvesD(1) [OF ev]
  obtain vol2 where v: "FAT_write_FAT_table vol1 = Some (True, vol2)" "evolves vol1 vol2 t1 (table_range vol)" "tables_on_disk vol2 t1"
    using write_table_ok [OF ok1] same(4) by metis
  have "entry_on_disk vol2 s = entry_on_disk vol1 s"
    by (rule evolves_entry [OF v(2) vol_okD(1) [OF ok1]]) (use f same entry_apart_from_table [OF f] in \<open>simp_all add: file_ok_def\<close>)
  then show thesis using that v evolves_trans [OF ev v(2)] by blast
qed

section \<open>Truncation and deletion\<close>

text \<open>The clusters of a file have been released: the table has the mark in their entries, the rest of the table is as it was, every copy of
  the table on disk holds the bytes of the new table, and nothing but these copies and the entry has changed on disk.\<close>

definition file_released :: "fatvol \<Rightarrow> u16 list \<Rightarrow> search_result \<Rightarrow> u16 list \<Rightarrow> fatvol \<Rightarrow> dirent \<Rightarrow> bool" where
  "file_released vol t s cs vol' e \<longleftrightarrow> evolves vol vol' (marked t cs) (table_range vol \<union> entry_range vol s) \<and> entry_on_disk vol' s = e \<and>
     tables_on_disk vol' (marked t cs)"

lemma truncate_ok:
  assumes f: "file_ok vol t s cs d" and ne: "cs \<noteq> []" and size: "DIR_FileSize (sr_entry s) \<noteq> 0"
    and found: "FAT_search_DIR_entry mem junk vol name = Some (Some s)"
    and attr: "DIR_Attr (sr_entry s) AND (ATTR_READ_ONLY OR ATTR_SYSTEM OR ATTR_DIRECTORY OR ATTR_VOLUME_ID) = 0"
  shows "\<exists>vol'. FAT_truncate_entry mem junk vol name = Some (True, vol') \<and>
    file_released vol t s cs vol' ((sr_entry s)\<lparr>DIR_FstClus := 0, DIR_FileSize := 0\<rparr>)"
proof -
  let ?e = "(sr_entry s)\<lparr>DIR_FstClus := 0, DIR_FileSize := 0\<rparr>"
  note c = clear_file [OF f ne refl size]
  have n: "length (DIR_Name ?e) = 39" using f by (simp add: file_ok_def)
  obtain v2 where v2: "FAT_write_DIR_entry (vol\<lparr>FAT := Some (marked t cs)\<rparr>) (s\<lparr>sr_entry := ?e\<rparr>) = Some (True, v2)"
    "evolves vol v2 (marked t cs) ({} \<union> entry_range vol s)" "entry_on_disk v2 s = ?e" by (rule put_entry_ok [OF f c(2) n])
  obtain v3 where v3: "FAT_write_FAT_table v2 = Some (True, v3)" "evolves vol v3 (marked t cs) ({} \<union> entry_range vol s \<union> table_range vol)"
    "entry_on_disk v3 s = entry_on_disk v2 s" "tables_on_disk v3 (marked t cs)" by (rule put_table_ok [OF f v2(2)])
  have "FAT_truncate_entry mem junk vol name = Some (True, v3)" using found attr c(1) v2(1) v3(1) by (simp add: FAT_truncate_entry_def)
  then show ?thesis using v2(3) v3(2-4) by (simp add: file_released_def Un_commute)
qed

lemma delete_ok:
  assumes f: "file_ok vol t s cs d" and ne: "cs \<noteq> []" and size: "DIR_FileSize (sr_entry s) \<noteq> 0"
    and found: "FAT_search_DIR_entry mem junk vol name = Some (Some s)"
    and attr: "DIR_Attr (sr_entry s) AND (ATTR_READ_ONLY OR ATTR_SYSTEM OR ATTR_VOLUME_ID) = 0" "DIR_Attr (sr_entry s) AND ATTR_DIRECTORY = 0"
  shows "\<exists>vol'. FAT_delete_entry mem junk vol name = Some (True, vol') \<and>
    file_released vol t s cs vol' ((sr_entry s)\<lparr>DIR_Name := (DIR_Name (sr_entry s))[0 := DIR_ENTRY_FREE]\<rparr>)"
proof -
  let ?e = "(sr_entry s)\<lparr>DIR_Name := (DIR_Name (sr_entry s))[0 := DIR_ENTRY_FREE]\<rparr>"
  have n: "length (DIR_Name ?e) = 39" using f by (simp add: file_ok_def)
  note ok = file_okD(1) [OF f]
  obtain v1 where v1: "FAT_write_DIR_entry vol (s\<lparr>sr_entry := ?e\<rparr>) = Some (True, v1)" "evolves vol v1 t ({} \<union> entry_range vol s)" "entry_on_disk v1 s = ?e"
    by (rule put_entry_ok [OF f evolves_refl [OF ok] n])
  note same = same_place [OF v1(2)] and fs = evolvesD(1,2,5) [OF v1(2)]
  have "file_ok v1 t (s\<lparr>sr_entry := ?e\<rparr>) cs d"
    using f same fs v1(3) n by (auto simp: file_ok_def entry_on_disk_def)
  note c = clear_file [OF this ne, of ?e, simplified, OF size]
  note ev = evolves_trans [OF v1(2) c(2)]
  obtain v3 where v3: "FAT_write_FAT_table (v1\<lparr>FAT := Some (marked t cs)\<rparr>) = Some (True, v3)"
    "evolves vol v3 (marked t cs) ({} \<union> entry_range vol s \<union> {} \<union> table_range vol)" "entry_on_disk v3 s = entry_on_disk (v1\<lparr>FAT := Some (marked t cs)\<rparr>) s"
    "tables_on_disk v3 (marked t cs)" by (rule put_table_ok [OF f ev])
  have "entry_on_disk (v1\<lparr>FAT := Some (marked t cs)\<rparr>) s = ?e" using v1(3) by (simp add: entry_on_disk_def file_of_def entry_pos_def bps_def)
  moreover have "FAT_delete_entry mem junk vol name = Some (True, v3)" using found attr c(1) v1(1) v3(1) by (simp add: FAT_delete_entry_def Let_def)
  ultimately show ?thesis using v3(2-4) by (simp add: file_released_def Un_commute)
qed

section \<open>Released clusters are lost\<close>

lemma released_space_lost:
  assumes f: "file_ok vol t s cs d" and ne: "cs \<noteq> []" and r: "file_released vol t s cs vol' e"
  shows "FAT_available vol' = FAT_available vol"
    "vol_table w u \<Longrightarrow> \<forall>x \<in> set cs. u ! unat x = marked t cs ! unat x \<Longrightarrow> FAT_get_free_cluster_from_table w = Some (c, w') \<Longrightarrow> c \<notin> set cs"
proof -
  note ok = file_okD(1) [OF f]
  note d = vol_okD [OF ok]
  have ev: "evolves vol vol' (marked t cs) (table_range vol \<union> entry_range vol s)" using r by (simp add: file_released_def)
  note T' = vol_okD(2) [OF evolvesD(1) [OF ev]]
  have cl: "t ! unat c \<noteq> 0" if "c \<in> set cs" for c using in_chainD(4) [OF file_okD(2) [OF f ne] ok that] .
  have fs: "FATSize vol' = FATSize vol" "BytesPerCluster vol' = BytesPerCluster vol" using ev by (auto simp: evolves_def)
  have free: "FAT_cluster_isFREE (marked t cs ! i) = FAT_cluster_isFREE (t ! i)" if "i < unat (FATSize vol)" for i
  proof -
    have i: "unat (of_nat i :: u16) = i" using that unat_bound [of "FATSize vol"] by (simp add: unat_of_nat take_bit_nat_eq_self)
    have "unat (of_nat i :: u16) < length t" using that d(3) i by (simp add: fsize_def)
    from marked_nth [OF this, of cs] show ?thesis using cl [of "of_nat i"] by (auto simp: i freed_mark_val cluster_defs)
  qed
  have "filter (\<lambda>i. FAT_cluster_isFREE (marked t cs ! i)) [2..<unat (FATSize vol)] = filter (\<lambda>i. FAT_cluster_isFREE (t ! i)) [2..<unat (FATSize vol)]"
    by (rule filter_cong) (use free in auto)
  then show "FAT_available vol' = FAT_available vol" using T' d(2) fs by (simp add: FAT_available_def vol_table_def)
  assume u: "vol_table w u" "\<forall>x \<in> set cs. u ! unat x = marked t cs ! unat x" and g: "FAT_get_free_cluster_from_table w = Some (c, w')"
  show "c \<notin> set cs"
  proof
    assume c: "c \<in> set cs"
    then have i: "in_data (fsize vol) c" using in_chainD(3) [OF file_okD(2) [OF f ne] ok] by blast
    then have "unat c < length t" using d(3) by (simp add: in_data_def)
    then have m: "u ! unat c = freed_mark" using marked_nth [of c t cs] u(2) c by simp
    show False
    proof (rule get_free [OF u(1)])
      assume "FAT_get_free_cluster_from_table w = Some (0, w)"
      then show False using g i by (simp add: in_data_def)
    next
      fix y assume "FAT_get_free_cluster_from_table w = Some (y, w\<lparr>lastFreeFATEntry := y\<rparr>)" "u ! unat y = 0"
      then show False using g m by (simp add: freed_mark_val)
    qed
  qed
qed

text \<open>C40: deleting and truncating a file update its entry on disk and put a mark into the table entries of its clusters, in memory and in every copy of the table on
  disk, and leave everything else; but the mark is not the one of a free cluster: the number of available clusters stays the same, and as long as the mark stands
  in the table of a volume in order, the search for a free cluster never returns one of the released clusters. The conditions: the search finds the file, its entry
  has none of the attributes that forbid the call, and it is not empty.\<close>

theorem FAT_delete_leaks:
  assumes "file_ok vol t s cs d" "cs \<noteq> []" "DIR_FileSize (sr_entry s) \<noteq> 0" "FAT_search_DIR_entry mem junk vol name = Some (Some s)"
    and "DIR_Attr (sr_entry s) AND (ATTR_READ_ONLY OR ATTR_SYSTEM OR ATTR_VOLUME_ID OR ATTR_DIRECTORY) = 0"
  shows "(\<exists>vol'. FAT_delete_entry mem junk vol name = Some (True, vol') \<and>
      file_released vol t s cs vol' ((sr_entry s)\<lparr>DIR_Name := (DIR_Name (sr_entry s))[0 := DIR_ENTRY_FREE]\<rparr>) \<and>
      FAT_available vol' = FAT_available vol) \<and>
    (\<exists>vol'. FAT_truncate_entry mem junk vol name = Some (True, vol') \<and>
      file_released vol t s cs vol' ((sr_entry s)\<lparr>DIR_FstClus := 0, DIR_FileSize := 0\<rparr>) \<and>
      FAT_available vol' = FAT_available vol) \<and>
    (\<forall>w u c w'. vol_table w u \<and> (\<forall>x \<in> set cs. u ! unat x = marked t cs ! unat x) \<and> FAT_get_free_cluster_from_table w = Some (c, w') \<longrightarrow> c \<notin> set cs)"
proof -
  have attr: "DIR_Attr (sr_entry s) AND (ATTR_READ_ONLY OR ATTR_SYSTEM OR ATTR_VOLUME_ID) = 0" "DIR_Attr (sr_entry s) AND ATTR_DIRECTORY = 0"
    "DIR_Attr (sr_entry s) AND (ATTR_READ_ONLY OR ATTR_SYSTEM OR ATTR_DIRECTORY OR ATTR_VOLUME_ID) = 0"
    using assms(5) by (simp_all add: bit.conj_disj_distrib or_eq_0_iff or.left_commute or.commute)
  obtain vol1 where d: "FAT_delete_entry mem junk vol name = Some (True, vol1)"
      "file_released vol t s cs vol1 ((sr_entry s)\<lparr>DIR_Name := (DIR_Name (sr_entry s))[0 := DIR_ENTRY_FREE]\<rparr>)"
    using delete_ok [OF assms(1-4) attr(1,2)] by blast
  obtain vol2 where t: "FAT_truncate_entry mem junk vol name = Some (True, vol2)"
      "file_released vol t s cs vol2 ((sr_entry s)\<lparr>DIR_FstClus := 0, DIR_FileSize := 0\<rparr>)"
    using truncate_ok [OF assms(1-4) attr(3)] by blast
  show ?thesis using d t released_space_lost [OF assms(1,2) d(2)] released_space_lost(1) [OF assms(1,2) t(2)] by blast
qed

theorem FAT_delete_leaks_witness:
  "(\<exists>vol'. FAT_delete_entry (\<lambda>_. True) demo_search demo_vol [0x61] = Some (True, vol') \<and> FAT_available vol' = FAT_available demo_vol) \<and>
   FAT_available demo_vol = Some (Some (64, 1))"
proof -
  have "DIR_FileSize (sr_entry demo_search) \<noteq> 0"
    "DIR_Attr (sr_entry demo_search) AND (ATTR_READ_ONLY OR ATTR_SYSTEM OR ATTR_VOLUME_ID OR ATTR_DIRECTORY) = 0"
    "FAT_available demo_vol = Some (Some (64, 1))" by code_simp+
  then show ?thesis using FAT_delete_leaks [OF demo_file_ok _ _ demo_search_found] by auto
qed

end
