(* ===== verification/FatFormat.thy ===== *)
theory FatFormat
  imports FatDelete
begin

text \<open>
  Creating and mounting volumes: \<^verbatim>\<open>src/fat/fat_format.c\<close>, \<^verbatim>\<open>FAT_mount\<close> and \<^verbatim>\<open>FAT_unmount\<close> of \<^verbatim>\<open>src/fat/fat.c\<close>,
  \<^verbatim>\<open>src/fat/mbr.c\<close> and \<^verbatim>\<open>src/fat/bpb.c\<close>. What \<open>malloc\<close> can serve is the argument \<open>mem\<close>; \<open>None\<close> is an access outside a buffer or a
  division by zero; the volume record that is filled in, the field \<open>Flags\<close> that is not set, and the clock are arguments.
\<close>

section \<open>The parameter block\<close>

definition PB_SIZE :: nat where "PB_SIZE = 58"

definition encode_pb :: "param_block \<Rightarrow> u8 list" where
  "encode_pb p = OEMName p @ le_bytes 2 (unat (BytsPerSec p)) @ [SecPerClus p, NumFATs p] @ le_bytes 2 (unat (ResvdSecCnt p)) @
     le_bytes 2 (unat (FATSz16 p)) @ le_bytes 4 (unat (HiddSec p)) @ le_bytes 4 (unat (TotSec p)) @ le_bytes 4 (unat (VolID p)) @
     le_bytes 4 (unat (PBFlags p)) @ VolLab p @ FilSysType p @ le_bytes 2 (unat (RootClus p))"

definition decode_pb :: "u8 list \<Rightarrow> param_block" where
  "decode_pb bs = \<lparr>OEMName = take 8 bs, BytsPerSec = of_nat (le_nat (bytes_at bs 8 2)), SecPerClus = bs ! 10, NumFATs = bs ! 11,
     ResvdSecCnt = of_nat (le_nat (bytes_at bs 12 2)), FATSz16 = of_nat (le_nat (bytes_at bs 14 2)),
     HiddSec = of_nat (le_nat (bytes_at bs 16 4)), TotSec = of_nat (le_nat (bytes_at bs 20 4)), VolID = of_nat (le_nat (bytes_at bs 24 4)),
     PBFlags = of_nat (le_nat (bytes_at bs 28 4)), VolLab = bytes_at bs 32 16, FilSysType = bytes_at bs 48 8,
     RootClus = of_nat (le_nat (bytes_at bs 56 2))\<rparr>"

definition zero_pb :: param_block where
  "zero_pb = decode_pb (replicate 58 0)"

section \<open>Formatting\<close>

record FATPartition =
  startsector :: u32
  endsector :: u32
  secpercluster :: u8
  label :: "u8 list"

definition MAX_CLUSTERS :: u32 where "MAX_CLUSTERS = 65524"
definition RES_SECTORS :: u32 where "RES_SECTORS = 1"
definition NUM_FATS :: u8 where "NUM_FATS = 2"
definition MAX_CLUS_SIZE :: nat where "MAX_CLUS_SIZE = 32768"

partial_function (option) secperclus_loop :: "u16 \<Rightarrow> u32 \<Rightarrow> u8 \<Rightarrow> u8 option" where
  "secperclus_loop nbytes sectors retval =
     (if retval \<noteq> 0 \<and> MAX_CLUSTERS * ucast retval < sectors
      then (let retval = retval + retval in
            if unat retval * unat nbytes > MAX_CLUS_SIZE then Some 0
            else secperclus_loop nbytes sectors retval)
      else Some retval)"

declare secperclus_loop.simps [code]

definition compute_secperclus :: "u16 \<Rightarrow> u32 \<Rightarrow> u8 option" where
  "compute_secperclus nbytes sectors = secperclus_loop nbytes (sectors - RES_SECTORS) 1"

text \<open>A given number of sectors per cluster has to be a power of two, and the cluster not too large.\<close>

definition choose_secpercluster :: "u16 \<Rightarrow> u32 \<Rightarrow> u8 \<Rightarrow> u8 option option" where
  "choose_secpercluster nbytes sectors given =
     (if given = 0
      then do { s \<leftarrow> compute_secperclus nbytes sectors; Some (if s = 0 then None else Some s) }
      else if given \<in> {1, 2, 4, 8, 16, 32, 64, 128} \<and> unat given * unat nbytes \<le> MAX_CLUS_SIZE
      then Some (Some given) else Some None)"

text \<open>\<open>strncpy\<close> of a string literal or a label to a field.\<close>

definition strncpy_field :: "nat \<Rightarrow> u8 list \<Rightarrow> u8 list" where
  "strncpy_field n s = (let t = takeWhile (\<lambda>c. c \<noteq> 0) (take n s) in t @ replicate (n - length t) 0)"

definition DiegOS :: "u8 list" where "DiegOS = [0x44, 0x69, 0x65, 0x67, 0x4F, 0x53, 0x20, 0x20]"
definition FAT16_1 :: "u8 list" where "FAT16_1 = [0x46, 0x41, 0x54, 0x31, 0x36, 0x2E, 0x31, 0x20]"

definition new_pb :: "u32 \<Rightarrow> u32 \<Rightarrow> u16 \<Rightarrow> u32 \<Rightarrow> u8 \<Rightarrow> u8 list \<Rightarrow> param_block" where
  "new_pb flags clock nbytes sectors secs lab =
     (let TmpVal1 = sectors - RES_SECTORS;
          TmpVal2 = 256 * ucast secs + ucast NUM_FATS :: u32;
          FATSz = (TmpVal1 + (TmpVal2 - 1)) div TmpVal2
      in \<lparr>OEMName = strncpy_field 8 DiegOS, BytsPerSec = nbytes, SecPerClus = secs, NumFATs = NUM_FATS, ResvdSecCnt = ucast RES_SECTORS,
          FATSz16 = ucast (FATSz AND 0xFFFF), HiddSec = 0, TotSec = sectors, VolID = clock, PBFlags = flags, VolLab = strncpy_field 16 lab,
          FilSysType = strncpy_field 8 FAT16_1, RootClus = 2\<rparr>)"

text \<open>Writing a sector, and \<open>n\<close> sectors of zeros; \<open>False\<close> is an error of the disk.\<close>

definition put_sector :: "u32 \<Rightarrow> u8 list \<Rightarrow> disk \<Rightarrow> bool \<times> disk" where
  "put_sector k buf d = (case disk_write d k 1 buf of None \<Rightarrow> (False, d) | Some d1 \<Rightarrow> (True, d1))"

fun put_zeros :: "u32 \<Rightarrow> nat \<Rightarrow> disk \<Rightarrow> bool \<times> disk" where
  "put_zeros k 0 d = (True, d)"
| "put_zeros k (Suc n) d =
     (case put_sector k (replicate (unat (bytes_per_sector d)) 0) d of
        (ok, d1) \<Rightarrow> if ok then put_zeros (k + 1) n d1 else (False, d1))"

definition table_sector :: "nat \<Rightarrow> u16 \<Rightarrow> u8 list" where
  "table_sector nbytes root = (replicate nbytes 0)[0 := 0, 1 := 0xFF, 2 := 0xFF, 3 := 0xFF, unat root * 2 := 0xFF, unat root * 2 + 1 := 0xFF]"

definition put_table :: "u32 \<Rightarrow> param_block \<Rightarrow> nat \<Rightarrow> disk \<Rightarrow> bool \<times> disk" where
  "put_table start p j d =
     (let k = start + ucast (ResvdSecCnt p) + of_nat j * ucast (FATSz16 p) in
      case put_sector k (table_sector (unat (bytes_per_sector d)) (RootClus p)) d of
        (ok, d1) \<Rightarrow> if ok then put_zeros (k + 1) (unat (FATSz16 p) - 1) d1 else (False, d1))"

fun put_tables :: "u32 \<Rightarrow> param_block \<Rightarrow> nat \<Rightarrow> nat \<Rightarrow> disk \<Rightarrow> bool \<times> disk" where
  "put_tables start p j 0 d = (True, d)"
| "put_tables start p j (Suc n) d =
     (case put_table start p j d of (ok, d1) \<Rightarrow> if ok then put_tables start p (Suc j) n d1 else (False, d1))"

definition volume_entry :: "tm \<Rightarrow> param_block \<Rightarrow> dirent" where
  "volume_entry now p = FAT_update_timestamps now
     (zero_entry\<lparr>DIR_Attr := ATTR_VOLUME_ID, DIR_Name := splice (replicate DIR_NAMELEN 0x20) 0 (VolLab p)\<rparr>) FAT_TS_CREATE"

text \<open>The data region: the entry of the volume, then zeros up to the last sector of the partition.\<close>

definition put_data :: "tm \<Rightarrow> FATPartition \<Rightarrow> param_block \<Rightarrow> disk \<Rightarrow> bool \<times> disk" where
  "put_data now part p d =
     (let k = startsector part + ucast (ResvdSecCnt p) + ucast (NumFATs p) * ucast (FATSz16 p) in
      case put_sector k (splice (replicate (unat (bytes_per_sector d)) 0) 0 (encode_entry (volume_entry now p))) d of
        (ok, d1) \<Rightarrow> if ok then put_zeros (k + 1) (unat (endsector part + 1) - unat (k + 1)) d1 else (False, d1))"

definition put_volume :: "tm \<Rightarrow> FATPartition \<Rightarrow> param_block \<Rightarrow> disk \<Rightarrow> bool \<times> disk" where
  "put_volume now part p d =
     (case put_sector (startsector part) (splice (replicate (unat (bytes_per_sector d)) 0) 0 (encode_pb p)) d of
        (ok, d1) \<Rightarrow>
          if \<not> ok then (False, d1)
          else (case put_zeros (startsector part + 1) (unat (ResvdSecCnt p) - 1) d1 of
                  (ok, d2) \<Rightarrow>
                    if \<not> ok then (False, d2)
                    else (case put_tables (startsector part) p 0 (unat (NumFATs p)) d2 of
                            (ok, d3) \<Rightarrow> if \<not> ok then (False, d3) else put_data now part p d3)))"

definition FAT_format ::
  "(nat \<Rightarrow> bool) \<Rightarrow> u32 \<Rightarrow> u32 \<Rightarrow> tm \<Rightarrow> disk \<Rightarrow> FATPartition \<Rightarrow> (bool \<times> FATPartition \<times> disk) option" where
  "FAT_format mem flags clock now d part =
     (let sectors = endsector part - startsector part + 1; nbytes = bytes_per_sector d in
      if \<exists>c\<in>set (label part). \<not> FAT_check_character c then Some (False, part, d)
      else
        do { s \<leftarrow> choose_secpercluster nbytes sectors (secpercluster part);
             case s of
               None \<Rightarrow> Some (False, if secpercluster part = 0 then part\<lparr>secpercluster := 0\<rparr> else part, d)
             | Some secs \<Rightarrow>
                (let part = part\<lparr>secpercluster := secs\<rparr>; p = new_pb flags clock nbytes sectors secs (label part) in
                 if \<not> mem (unat nbytes) then Some (False, part, d)
                 else if unat nbytes < ENTRY_SIZE then None
                 else (case put_volume now part p d of (ok, d1) \<Rightarrow> Some (ok, part, d1))) })"

section \<open>Mounting\<close>

definition table_of :: "u8 list \<Rightarrow> u16 list" where
  "table_of bs = map (\<lambda>i. of_nat (le_nat (bytes_at bs (2 * i) 2))) [0..<length bs div 2]"

text \<open>A mount that fails after the parameter block was read clears what it has set.\<close>

definition clear_volume :: "fatvol \<Rightarrow> fatvol" where
  "clear_volume vol = vol\<lparr>PB := zero_pb, FAT := None, DataSectors := 0, FirstDataSector := 0, CountOfClusters := 0, FATSize := 0, FATEntriesPerSec := 0\<rparr>"

definition set_geometry :: "fatvol \<Rightarrow> param_block \<Rightarrow> fatvol option" where
  "set_geometry vol p =
     (let first = ucast (ResvdSecCnt p) + ucast (NumFATs p) * ucast (FATSz16 p) :: u32;
          data = TotSec p - first;
          clusters = ucast (data div ucast (SecPerClus p)) :: u16
      in if SecPerClus p = 0 then None
         else Some (vol\<lparr>PB := p, FirstDataSector := first, DataSectors := data, CountOfClusters := clusters, FATSize := clusters + 2,
                FATEntriesPerSec := unat (BytsPerSec p) div ENTRY_SIZE, BytesPerCluster := BytsPerSec p * ucast (SecPerClus p)\<rparr>))"

definition FAT_mount :: "(nat \<Rightarrow> bool) \<Rightarrow> disk \<Rightarrow> u32 \<Rightarrow> fatvol \<Rightarrow> (bool \<times> fatvol) option" where
  "FAT_mount mem ctx first_sec_on_disk vol =
     (if mounted vol then Some (False, vol)
      else
        (let vol = vol\<lparr>vctx := ctx, FirstSector := first_sec_on_disk\<rparr> in
         if \<not> mem (unat (bytes_per_sector ctx)) then Some (False, vol)
         else
           (case disk_read ctx first_sec_on_disk 1 of
              None \<Rightarrow> Some (False, vol)
            | Some buffer \<Rightarrow>
               if length buffer < PB_SIZE then None
               else
                 do { vol \<leftarrow> set_geometry vol (decode_pb buffer);
                      let p = PB vol;
                      let n = unat (FATSz16 p) * unat (BytsPerSec p);
                      if n \<ge> 2 ^ 31 then None
                      else if \<not> mem n \<or> \<not> mem (unat (BytesPerCluster vol)) then Some (False, clear_volume vol)
                      else
                        (case disk_read ctx (first_sec_on_disk + ucast (ResvdSecCnt p)) (ucast (FATSz16 p)) of
                           None \<Rightarrow> Some (False, clear_volume vol)
                         | Some bs \<Rightarrow> if length bs > n then None
                                      else Some (True, vol\<lparr>FAT := Some (table_of bs), mounted := True, lastFreeFATEntry := 2\<rparr>)) })))"

text \<open>\<open>FLAG_ACTIVE\<close> is never set. The disk stays as the table has been flushed to it.\<close>

definition FAT_unmount :: "fatvol \<Rightarrow> (bool \<times> fatvol) option" where
  "FAT_unmount vol =
     (if \<not> mounted vol then Some (False, vol)
      else do { (_, vol1) \<leftarrow> FAT_write_FAT_table vol; Some (True, vol1\<lparr>FAT := None, mounted := False\<rparr>) })"

section \<open>What formatting writes\<close>

text \<open>The disk with a block of bytes at the start of a partition; formatting extends the block sector by sector.\<close>

definition with_bytes :: "disk \<Rightarrow> nat \<Rightarrow> u8 list \<Rightarrow> disk" where
  "with_bytes d p X = d\<lparr>d_file := splice (d_file d) p X\<rparr>"

lemma with_bytes_simps [simp]:
  "bytes_per_sector (with_bytes d p X) = bytes_per_sector d" "num_of_sectors (with_bytes d p X) = num_of_sectors d"
  by (simp_all add: with_bytes_def)

lemma put_sector_ok:
  assumes d: "disk_ok d" and B: "B = unat (bytes_per_sector d)" and k: "unat k = a + m" "a + m < unat (num_of_sectors d)"
    and X: "length X = m * B" and buf: "length buf = B"
  shows "put_sector k buf (with_bytes d (a * B) X) = (True, with_bytes d (a * B) (X @ buf))"
proof -
  have "Suc (a + m) * B \<le> unat (num_of_sectors d) * B" using k(2) by (intro mult_right_mono) simp_all
  then have l: "a * B + length X + length buf \<le> length (d_file d)" using d B X buf by (simp add: disk_ok_def algebra_simps)
  have d': "disk_ok (with_bytes d (a * B) X)" using d l by (simp add: disk_ok_def with_bytes_def splice_length)
  have "\<not> bad_range (with_bytes d (a * B) X) k 1" by (rule range_ok(1) [OF d']) (use k in simp_all)
  moreover have "unat k * B = a * B + length X" using k(1) X by (simp add: algebra_simps)
  ultimately show ?thesis using splice_append [of "a * B" X buf "d_file d"] l buf
    by (simp add: put_sector_def disk_write_def with_bytes_def B)
qed

lemma put_zeros_ok:
  assumes d: "disk_ok d" and B: "B = unat (bytes_per_sector d)" and "n \<noteq> 0 \<Longrightarrow> unat k = a + m" "a + m + n \<le> unat (num_of_sectors d)"
    and "length X = m * B"
  shows "put_zeros k n (with_bytes d (a * B) X) = (True, with_bytes d (a * B) (X @ replicate (n * B) 0))"
  using assms(3-)
proof (induction n arbitrary: k m X)
  case (Suc n)
  have k: "unat k = a + m" "a + m < unat (num_of_sectors d)" using Suc.prems by simp_all
  have "unat (k + 1) = a + Suc m" using k d by (subst unat_add_small) (simp_all add: disk_ok_def)
  then have "put_zeros (k + 1) n (with_bytes d (a * B) (X @ replicate B 0)) =
      (True, with_bytes d (a * B) ((X @ replicate B 0) @ replicate (n * B) 0))"
    using Suc.prems by (intro Suc.IH [of "k + 1" "Suc m"]) simp_all
  then show ?case using put_sector_ok [OF d B k Suc.prems(3), of "replicate B 0"] B by (simp add: replicate_add)
qed simp

definition pb_sector :: "nat \<Rightarrow> param_block \<Rightarrow> u8 list" where
  "pb_sector B p = splice (replicate B 0) 0 (encode_pb p)"

definition blank_table :: "nat \<Rightarrow> param_block \<Rightarrow> u8 list" where
  "blank_table B p = table_sector B (RootClus p) @ replicate ((unat (FATSz16 p) - 1) * B) 0"

definition label_sector :: "nat \<Rightarrow> tm \<Rightarrow> param_block \<Rightarrow> u8 list" where
  "label_sector B now p = splice (replicate B 0) 0 (encode_entry (volume_entry now p))"

lemma blank_table_length: "FATSz16 p \<noteq> 0 \<Longrightarrow> length (blank_table B p) = unat (FATSz16 p) * B"
proof -
  assume "FATSz16 p \<noteq> 0"
  then obtain n where "unat (FATSz16 p) = Suc n" by (metis unat_gt_0 gr0_implies_Suc)
  then show ?thesis by (simp add: blank_table_def table_sector_def)
qed

lemma put_tables_ok:
  assumes d: "disk_ok d" and B: "B = unat (bytes_per_sector d)" and F: "F = unat (FATSz16 p)" "F \<noteq> 0" and R: "ResvdSecCnt p = 1"
    and a: "a = unat start" and "a + 1 + (j + n) * F \<le> unat (num_of_sectors d)" "length X = (1 + j * F) * B"
  shows "put_tables start p j n (with_bytes d (a * B) X) = (True, with_bytes d (a * B) (X @ concat (replicate n (blank_table B p))))"
  using assms(7-)
proof (induction n arbitrary: j X)
  case (Suc n)
  let ?k = "start + 1 + of_nat j * ucast (FATSz16 p)" and ?S = "table_sector B (RootClus p)"
  have nz: "FATSz16 p \<noteq> 0" using F by auto
  have le: "a + 1 + j * F + F \<le> unat (num_of_sectors d)" using Suc.prems(1) by (simp add: algebra_simps)
  have nos: "unat (num_of_sectors d) < 2 ^ 31" using d by (simp add: disk_ok_def)
  have jF: "start + 1 + of_nat j * ucast (FATSz16 p) = of_nat (a + (1 + j * F))" by (simp add: a F(1))
  have k: "unat ?k = a + (1 + j * F)" unfolding jF using le nos by (subst unat_of_nat_small) simp_all
  have k1: "unat (?k + 1) = a + Suc (1 + j * F)" using k le F(2) nos by (subst unat_add_small) simp_all
  have "put_sector ?k ?S (with_bytes d (a * B) X) = (True, with_bytes d (a * B) (X @ ?S))"
    using le F(2) by (intro put_sector_ok [OF d B k _ Suc.prems(2)]) (simp_all add: table_sector_def)
  moreover have "put_zeros (?k + 1) (F - 1) (with_bytes d (a * B) (X @ ?S)) = (True, with_bytes d (a * B) ((X @ ?S) @ replicate ((F - 1) * B) 0))"
    using le F(2) Suc.prems(2) by (intro put_zeros_ok [OF d B k1]) (simp_all add: table_sector_def)
  ultimately have t: "put_table start p j (with_bytes d (a * B) X) = (True, with_bytes d (a * B) (X @ blank_table B p))"
    using R F(1) B by (simp add: put_table_def Let_def blank_table_def)
  have "put_tables start p (Suc j) n (with_bytes d (a * B) (X @ blank_table B p)) =
      (True, with_bytes d (a * B) ((X @ blank_table B p) @ concat (replicate n (blank_table B p))))"
    using Suc.prems F blank_table_length [OF nz, of B] by (intro Suc.IH) (simp_all add: algebra_simps)
  then show ?case using t by simp
qed simp

text \<open>The bytes of a formatted partition.\<close>

definition volume_image :: "nat \<Rightarrow> tm \<Rightarrow> param_block \<Rightarrow> nat \<Rightarrow> u8 list" where
  "volume_image B now p rest = pb_sector B p @ blank_table B p @ blank_table B p @ label_sector B now p @ replicate (rest * B) 0"

lemma put_volume_ok:
  assumes d: "disk_ok d" and B: "B = unat (bytes_per_sector d)" "64 \<le> B" and F: "F = unat (FATSz16 p)" "F \<noteq> 0"
    and p: "ResvdSecCnt p = 1" "NumFATs p = 2" "length (encode_pb p) = 58" "length (VolLab p) = 16"
    and a: "a = unat (startsector part)" "e = unat (endsector part)" "a + 1 + 2 * F \<le> e" "e < unat (num_of_sectors d)"
  shows "put_volume now part p d = (True, with_bytes d (a * B) (volume_image B now p (e - (a + 1 + 2 * F))))"
proof -
  have nos: "unat (num_of_sectors d) < 2 ^ 31" using d by (simp add: disk_ok_def)
  have nz: "FATSz16 p \<noteq> 0" using F by auto
  let ?k = "startsector part + 1 + 2 * ucast (FATSz16 p)" and ?D = "1 + 2 * F"
  have kw: "?k = of_nat (a + ?D)" by (simp add: a(1) F(1))
  have k: "unat ?k = a + ?D" unfolding kw using a nos by (subst unat_of_nat_small) simp_all
  have k1: "unat (?k + 1) = a + Suc ?D" using k a nos by (subst unat_add_small) simp_all
  have e1: "unat (endsector part + 1) = Suc e" using a nos by (subst unat_add_small) simp_all
  let ?P = "pb_sector B p" and ?T = "blank_table B p" and ?L = "label_sector B now p"
  have lP: "length ?P = 1 * B" using p(3) B(2) by (simp add: pb_sector_def splice_length)
  have lL: "length ?L = B" using B(2) p(4)
    by (simp add: label_sector_def volume_entry_def splice_length encode_length DIR_NAMELEN_def)
  have start: "d = with_bytes d (a * B) []"
    using a d B(1) by (simp add: with_bytes_def disk_ok_def)
  have 1: "put_sector (startsector part) ?P d = (True, with_bytes d (a * B) ?P)"
    using put_sector_ok [OF d B(1), of "startsector part" a 0 "[]" ?P] a lP start by simp
  have 2: "put_tables (startsector part) p 0 2 (with_bytes d (a * B) ?P) = (True, with_bytes d (a * B) (?P @ ?T @ ?T))"
    using put_tables_ok [OF d B(1) F p(1) a(1), of 0 2 ?P] a lP by (simp add: numeral_2_eq_2)
  have lX: "length (?P @ ?T @ ?T) = ?D * B" using lP blank_table_length [OF nz, of B] F(1) by (simp add: algebra_simps)
  have 3: "put_sector ?k ?L (with_bytes d (a * B) (?P @ ?T @ ?T)) = (True, with_bytes d (a * B) ((?P @ ?T @ ?T) @ ?L))"
    by (rule put_sector_ok [OF d B(1) k _ lX lL]) (use a in simp)
  have 4: "put_zeros (?k + 1) (e - (a + ?D)) (with_bytes d (a * B) ((?P @ ?T @ ?T) @ ?L)) =
      (True, with_bytes d (a * B) (((?P @ ?T @ ?T) @ ?L) @ replicate ((e - (a + ?D)) * B) 0))"
    by (rule put_zeros_ok [OF d B(1) k1]) (use a lX lL in simp_all)
  have "put_data now part p (with_bytes d (a * B) (?P @ ?T @ ?T)) = (True, with_bytes d (a * B) (volume_image B now p (e - (a + 1 + 2 * F))))"
    unfolding put_data_def Let_def p(1,2) using 3 4 k1 e1 B(1) by (simp add: volume_image_def label_sector_def)
  then show ?thesis unfolding put_volume_def p(1,2) using 1 2 B(1) by (simp add: pb_sector_def)
qed

section \<open>Mounting what was formatted\<close>

lemma decode_encode_pb:
  assumes "length (OEMName p) = 8" "length (VolLab p) = 16" "length (FilSysType p) = 8"
  shows "length (encode_pb p) = 58" "decode_pb (encode_pb p @ rest) = p"
proof -
  show "length (encode_pb p) = 58" using assms by (simp add: encode_pb_def)
  have w: "le_nat (le_bytes 2 (unat (w :: u16))) = unat w" "le_nat (le_bytes 4 (unat (v :: u32))) = unat v" for w v
    using unat_bound [of w] unat_bound [of v] by (simp_all add: le_nat_bytes)
  show "decode_pb (encode_pb p @ rest) = p" using assms by (simp add: decode_pb_def encode_pb_def bytes_at_def nth_append w)
qed

definition blank_entries :: "nat \<Rightarrow> u16 list" where
  "blank_entries n = [0xFF00, 0xFFFF, 0xFFFF] @ replicate (n - 3) 0"

lemma table_sector_512: "table_sector 512 2 = [0, 0xFF, 0xFF, 0xFF, 0xFF, 0xFF] @ replicate 506 0"
  by code_simp

lemma table_of_blank:
  assumes "RootClus p = 2" "FATSz16 p \<noteq> 0"
  shows "table_of (blank_table 512 p) = blank_entries (256 * unat (FATSz16 p))"
proof (rule nth_equalityI)
  let ?F = "unat (FATSz16 p)"
  have F: "0 < ?F" using assms(2) by (simp add: unat_gt_0)
  note l = blank_table_length [OF assms(2), of 512]
  show len: "length (table_of (blank_table 512 p)) = length (blank_entries (256 * ?F))"
    using F l by (simp add: table_of_def blank_entries_def)
  have b: "blank_table 512 p = [0, 0xFF, 0xFF, 0xFF, 0xFF, 0xFF] @ replicate (?F * 512 - 6) 0"
  proof -
    have "?F * 512 - 6 = 506 + (?F - 1) * 512" using F by (cases ?F) auto
    then show ?thesis by (simp add: blank_table_def assms(1) table_sector_512 replicate_add)
  qed
  fix i assume "i < length (table_of (blank_table 512 p))"
  then have i: "i < 256 * ?F" using l by (simp add: table_of_def)
  show "table_of (blank_table 512 p) ! i = blank_entries (256 * ?F) ! i"
  proof (cases "i < 3")
    case True
    then have "i = 0 \<or> i = 1 \<or> i = 2" by auto
    then show ?thesis using i l by (elim disjE) (simp_all add: table_of_def blank_entries_def b bytes_at_def)
  next
    case False
    then have m: "2 * i = 6 + 2 * (i - 3)" "min 2 (?F * 512 - (6 + 2 * (i - 3))) = 2" using i by simp_all
    have "bytes_at (blank_table 512 p) (2 * i) 2 = replicate 2 0" unfolding b bytes_at_def m(1) drop_append by (simp add: m(2))
    then have "bytes_at (blank_table 512 p) (2 * i) 2 = [0, 0]" by (simp add: numeral_2_eq_2)
    then show ?thesis using i l False by (simp add: table_of_def blank_entries_def nth_append)
  qed
qed

text \<open>A parameter block as formatting makes it, for sectors of 512 bytes and \<open>S\<close> sectors per cluster.\<close>

definition pb_ok :: "param_block \<Rightarrow> nat \<Rightarrow> nat \<Rightarrow> nat \<Rightarrow> bool" where
  "pb_ok p S F n \<longleftrightarrow> length (OEMName p) = 8 \<and> length (VolLab p) = 16 \<and> length (FilSysType p) = 8 \<and> BytsPerSec p = 512 \<and>
     unat (SecPerClus p) = S \<and> 0 < S \<and> S \<le> 64 \<and> NumFATs p = 2 \<and> ResvdSecCnt p = 1 \<and> unat (FATSz16 p) = F \<and> 0 < F \<and>
     unat (TotSec p) = n + 1 \<and> 2 * F < n \<and> RootClus p = 2"

text \<open>The volume that is mounted from a formatted partition.\<close>

definition mounted_volume :: "fatvol \<Rightarrow> disk \<Rightarrow> u32 \<Rightarrow> param_block \<Rightarrow> nat \<Rightarrow> nat \<Rightarrow> nat \<Rightarrow> fatvol" where
  "mounted_volume vol d start p S F C = vol\<lparr>vctx := d, FirstSector := start, PB := p, FirstDataSector := of_nat (1 + 2 * F),
     DataSectors := TotSec p - of_nat (1 + 2 * F), CountOfClusters := of_nat C, FATSize := of_nat (C + 2), FATEntriesPerSec := 8,
     BytesPerCluster := of_nat (512 * S), FAT := Some (blank_entries (256 * F)), mounted := True, lastFreeFATEntry := 2\<rparr>"

lemma unat_512: "unat (512 :: u16) = 512"
  by simp

lemma set_geometry_ok:
  assumes p: "pb_ok p S F n" and C: "C = (n - 2 * F) div S"
  shows "set_geometry vol p = Some (vol\<lparr>PB := p, FirstDataSector := of_nat (1 + 2 * F), DataSectors := TotSec p - of_nat (1 + 2 * F),
    CountOfClusters := of_nat C, FATSize := of_nat (C + 2), FATEntriesPerSec := 8, BytesPerCluster := of_nat (512 * S)\<rparr>)"
proof -
  have F: "ucast (FATSz16 p) = (of_nat F :: u32)" "F < 65536" using p unat_bound [of "FATSz16 p"] by (auto simp: pb_ok_def)
  have S: "ucast (SecPerClus p) = (of_nat S :: u32)" "ucast (SecPerClus p) = (of_nat S :: u16)" "SecPerClus p \<noteq> 0" using p by (auto simp: pb_ok_def)
  have first: "ucast (1 :: u16) + ucast (2 :: u8) * ucast (FATSz16 p) = (of_nat (1 + 2 * F) :: u32)" by (simp add: F(1))
  have "unat (of_nat (1 + 2 * F) :: u32) = 1 + 2 * F" using F(2) by (subst unat_of_nat_small) simp_all
  then have data: "unat (TotSec p - of_nat (1 + 2 * F)) = n - 2 * F" using p by (subst unat_sub) (simp_all add: word_le_nat_alt pb_ok_def)
  have "unat (ucast (SecPerClus p) :: u32) = S" using p by (simp add: unat_ucast_up pb_ok_def)
  then have "unat ((TotSec p - of_nat (1 + 2 * F)) div ucast (SecPerClus p)) = C" using data by (simp add: unat_div C)
  then have clusters: "ucast ((TotSec p - of_nat (1 + 2 * F)) div ucast (SecPerClus p)) = (of_nat C :: u16)" by (metis of_nat_unat)
  have b: "BytsPerSec p * ucast (SecPerClus p) = of_nat (512 * S)" "unat (BytsPerSec p) div ENTRY_SIZE = 8"
    using p S(2) by (simp_all add: pb_ok_def ENTRY_SIZE_def)
  have q: "ResvdSecCnt p = 1" "NumFATs p = 2" using p by (simp_all add: pb_ok_def)
  show ?thesis using S(3) unfolding set_geometry_def Let_def b q first clusters by (simp add: add.commute)
qed

lemma mount_formatted:
  assumes d: "disk_ok d" "bytes_per_sector d = 512" and p: "pb_ok p S F n" and C: "C = (n - 2 * F) div S"
    and a: "a = unat start" "a + n < unat (num_of_sectors d)" and m: "\<And>k. mem k" and vol: "\<not> mounted vol"
    and d': "d' = with_bytes d (a * 512) (volume_image 512 now p (n - (1 + 2 * F)))"
  shows "FAT_mount mem d' start vol = Some (True, mounted_volume vol d' start p S F C)" "disk_ok d'"
proof -
  have F: "F = unat (FATSz16 p)" "F \<noteq> 0" "FATSz16 p \<noteq> 0" "F < 65536" using p unat_bound [of "FATSz16 p"] by (auto simp: pb_ok_def)
  note pb = decode_encode_pb [of p]
  have l: "length (encode_pb p) = 58" "2 * F < n" using pb(1) p by (simp_all add: pb_ok_def)
  have lP: "length (pb_sector 512 p) = 512" using l by (simp add: pb_sector_def splice_length)
  have lL: "length (label_sector 512 now p) = 512" using p
    by (simp add: label_sector_def volume_entry_def splice_length encode_length DIR_NAMELEN_def pb_ok_def)
  note lT = blank_table_length [OF F(3), of 512, folded F(1)]
  let ?I = "volume_image 512 now p (n - (1 + 2 * F))"
  have "length ?I = (n + 1) * 512" using lP lL lT l(2) by (simp add: volume_image_def algebra_simps)
  moreover have "Suc (a + n) * 512 \<le> unat (num_of_sectors d) * 512" using a(2) by (intro mult_right_mono) simp_all
  ultimately have in_file: "a * 512 + length ?I \<le> length (d_file d)" using d by (simp add: disk_ok_def)
  then show ok: "disk_ok d'" using d by (simp add: disk_ok_def d' with_bytes_def splice_length)
  have image: "bytes_at (d_file d') (a * 512 + i) k = bytes_at ?I i k" if "i + k \<le> length ?I" for i k
    using bytes_at_splice_inside [of "a * 512" "?I" "d_file d" "a * 512 + i" k] in_file that by (simp add: d' with_bytes_def)
  have B: "unat (bytes_per_sector d') = 512" "num_of_sectors d' = num_of_sectors d" using d by (simp_all add: d')
  have r1: "disk_read d' start 1 = Some (pb_sector 512 p)"
    using disk_read_ok [OF ok, of 1 start] image [of 0 512] a lP B by (simp add: bytes_at_def volume_image_def)
  have s1: "unat (start + 1) = a + 1" using a d by (subst unat_add_small) (simp_all add: disk_ok_def)
  have uF: "unat (ucast (FATSz16 p) :: u32) = F" using F(1) by (simp add: unat_ucast_up)
  have "bytes_at ?I 512 (F * 512) = blank_table 512 p" using lP lT by (simp add: bytes_at_def volume_image_def)
  then have r2: "disk_read d' (start + 1) (ucast (FATSz16 p)) = Some (blank_table 512 p)"
    using disk_read_ok [OF ok, of "ucast (FATSz16 p)" "start + 1"] image [of 512 "F * 512"] a l(2) lP lT B s1 uF F(3)
    by (simp add: ucast_up_0_iff volume_image_def algebra_simps)
  have dec: "decode_pb (pb_sector 512 p) = p" using pb(2) p l by (simp add: pb_sector_def splice_def pb_ok_def)
  have q: "BytsPerSec p = 512" "ResvdSecCnt p = 1" "RootClus p = 2" using p by (simp_all add: pb_ok_def)
  show "FAT_mount mem d' start vol = Some (True, mounted_volume vol d' start p S F C)"
    using vol m r1 r2 lP lT F(4) table_of_blank [OF q(3) F(3)] q
    by (simp add: FAT_mount_def Let_def PB_SIZE_def dec set_geometry_ok [OF p C] mounted_volume_def F(1) [symmetric] unat_512)
qed

text \<open>The number of sectors of a table, rounded up, and the number of clusters.\<close>

definition table_sectors :: "nat \<Rightarrow> nat \<Rightarrow> nat" where
  "table_sectors n S = (n + (256 * S + 1)) div (256 * S + 2)"

definition cluster_count :: "nat \<Rightarrow> nat \<Rightarrow> nat" where
  "cluster_count n S = (n - 2 * table_sectors n S) div S"

text \<open>There is an entry for every cluster, but not always for the two reserved ones.\<close>

lemma cluster_count_bound:
  assumes "0 < S"
  shows "cluster_count n S \<le> 256 * table_sectors n S"
proof -
  let ?F = "table_sectors n S" and ?m = "256 * S + 2"
  have "n + (?m - 1) < ?m + ?m * ((n + (?m - 1)) div ?m)" by (rule dividend_less_times_div) simp
  then have "n < ?m * Suc ?F - (?m - 1)" by (simp add: table_sectors_def)
  then have "n - 2 * ?F \<le> 256 * ?F * S" by (simp add: algebra_simps)
  then have "(n - 2 * ?F) div S \<le> 256 * ?F * S div S" by (rule div_le_mono)
  then show ?thesis using assms by (simp add: cluster_count_def)
qed

lemma new_pb_ok:
  assumes n: "unat sectors = n + 1" "unat sectors < 2 ^ 31" and S: "unat secs = S" "0 < S" "S \<le> 64" and lab: "length lab = 16" "0 \<notin> set lab"
    and F: "F = table_sectors n S" "0 < F" "F < 65536" "2 * F < n"
  shows "pb_ok (new_pb flags clock 512 sectors secs lab) S F n" "VolLab (new_pb flags clock 512 sectors secs lab) = lab"
proof -
  have "sectors = of_nat (n + 1)" using n(1) by (metis of_nat_unat ucast_id)
  then have T1: "sectors - RES_SECTORS = of_nat n" by (simp add: RES_SECTORS_def)
  have T2: "256 * ucast secs + ucast NUM_FATS = (of_nat (256 * S + 2) :: u32)" using S(1) by (auto simp: NUM_FATS_def)
  have sum: "of_nat n + (of_nat (256 * S + 2) - 1) = (of_nat (n + (256 * S + 1)) :: u32)" by simp
  have u: "unat (of_nat (n + (256 * S + 1)) :: u32) = n + (256 * S + 1)" "unat (of_nat (256 * S + 2) :: u32) = 256 * S + 2"
    using n S(3) by (subst unat_of_nat_small; simp)+
  have FW: "unat ((of_nat n + (of_nat (256 * S + 2) - 1)) div (of_nat (256 * S + 2) :: u32)) = F"
    unfolding sum unat_div u F(1) table_sectors_def ..
  let ?x = "(of_nat n + (of_nat (256 * S + 2) - 1)) div (of_nat (256 * S + 2) :: u32)"
  have "?x AND 0xFFFF = take_bit 16 ?x" by (simp add: take_bit_eq_mask mask_eq_exp_minus_1)
  then have "unat (ucast (?x AND 0xFFFF) :: u16) = F" using FW F(3) by (simp only: unsigned_ucast_eq unsigned_take_bit_eq) (simp add: take_bit_nat_eq_self)
  moreover have lab': "strncpy_field 16 lab = lab" 
  proof -
    have "takeWhile (\<lambda>c. c \<noteq> 0) lab = lab" using lab(2) by (auto simp: takeWhile_eq_all_conv)
    then show ?thesis using lab(1) unfolding strncpy_field_def by (simp only: take_all le_refl Let_def) simp
  qed
  moreover have "length (strncpy_field 8 DiegOS) = 8" "length (strncpy_field 8 FAT16_1) = 8" by code_simp+
  ultimately show "pb_ok (new_pb flags clock 512 sectors secs lab) S F n"
    unfolding pb_ok_def new_pb_def Let_def T1 T2 using n S lab F by (simp add: NUM_FATS_def RES_SECTORS_def)
  show "VolLab (new_pb flags clock 512 sectors secs lab) = lab" using lab' by (simp add: new_pb_def Let_def)
qed

lemma secperclus_step:
  assumes "r \<noteq> 0"
  shows "secperclus_loop 512 m r = (if MAX_CLUSTERS * ucast r < m then (if unat (r + r) * 512 > 32768 then Some 0 else secperclus_loop 512 m (r + r)) else Some r)"
  using assms by (subst secperclus_loop.simps) (simp add: Let_def MAX_CLUS_SIZE_def unat_512)

text \<open>The number of sectors per cluster: the smallest power of two with which the clusters reach the end of the partition.\<close>

lemma secperclus_512:
  "secperclus_loop 512 m 1 = Some (if m \<le> 65524 then 1 else if m \<le> 131048 then 2 else if m \<le> 262096 then 4 else if m \<le> 524192 then 8
     else if m \<le> 1048384 then 16 else if m \<le> 2096768 then 32 else if m \<le> 4193536 then 64 else 0)"
proof -
  have 64: "secperclus_loop 512 m 64 = Some (if m \<le> 4193536 then 64 else 0)" by (subst secperclus_step) (auto simp: MAX_CLUSTERS_def not_less)
  have 32: "secperclus_loop 512 m 32 = (if m \<le> 2096768 then Some 32 else secperclus_loop 512 m 64)" by (subst secperclus_step) (auto simp: MAX_CLUSTERS_def not_less)
  have 16: "secperclus_loop 512 m 16 = (if m \<le> 1048384 then Some 16 else secperclus_loop 512 m 32)" by (subst secperclus_step) (auto simp: MAX_CLUSTERS_def not_less)
  have 8: "secperclus_loop 512 m 8 = (if m \<le> 524192 then Some 8 else secperclus_loop 512 m 16)" by (subst secperclus_step) (auto simp: MAX_CLUSTERS_def not_less)
  have 4: "secperclus_loop 512 m 4 = (if m \<le> 262096 then Some 4 else secperclus_loop 512 m 8)" by (subst secperclus_step) (auto simp: MAX_CLUSTERS_def not_less)
  have 2: "secperclus_loop 512 m 2 = (if m \<le> 131048 then Some 2 else secperclus_loop 512 m 4)" by (subst secperclus_step) (auto simp: MAX_CLUSTERS_def not_less)
  have 1: "secperclus_loop 512 m 1 = (if m \<le> 65524 then Some 1 else secperclus_loop 512 m 2)" by (subst secperclus_step) (auto simp: MAX_CLUSTERS_def not_less)
  show ?thesis unfolding 1 2 4 8 16 32 64 by simp
qed

lemma choose_bounds:
  assumes "choose_secpercluster 512 sectors given = Some (Some secs)"
  shows "0 < unat secs" "unat secs \<le> 64"
  using assms by (auto simp: choose_secpercluster_def compute_secperclus_def secperclus_512 MAX_CLUS_SIZE_def unat_gt_0 unat_512 split: if_splits)

text \<open>A partition that can be formatted: the label is printable, the sectors are on the disk, and a table has at most 65535 sectors.\<close>

definition can_format :: "disk \<Rightarrow> FATPartition \<Rightarrow> nat \<Rightarrow> nat \<Rightarrow> bool" where
  "can_format d part n S \<longleftrightarrow> disk_ok d \<and> bytes_per_sector d = 512 \<and> length (label part) = 16 \<and> (\<forall>c\<in>set (label part). FAT_check_character c) \<and>
     unat (startsector part) + n = unat (endsector part) \<and> unat (endsector part) < unat (num_of_sectors d) \<and>
     (\<exists>secs. choose_secpercluster 512 (endsector part - startsector part + 1) (secpercluster part) = Some (Some secs) \<and> unat secs = S) \<and>
     table_sectors n S < 65536 \<and> 2 * table_sectors n S < n"

lemma format_mount_raw:
  assumes c: "can_format d part n S" and m: "\<And>k. mem k" and vol: "\<not> mounted vol"
  obtains part' p d' where "FAT_format mem flags clock now d part = Some (True, part', d')" "pb_ok p S (table_sectors n S) n" "VolLab p = label part"
    "d' = with_bytes d (unat (startsector part) * 512) (volume_image 512 now p (n - (1 + 2 * table_sectors n S)))" "disk_ok d'"
    "FAT_mount mem d' (startsector part) vol = Some (True, mounted_volume vol d' (startsector part) p S (table_sectors n S) (cluster_count n S))"
proof -
  let ?sec = "endsector part - startsector part + 1" and ?F = "table_sectors n S" and ?a = "unat (startsector part)"
  obtain secs where s: "choose_secpercluster 512 ?sec (secpercluster part) = Some (Some secs)" "unat secs = S" using c by (auto simp: can_format_def)
  note S = choose_bounds [OF s(1), unfolded s(2)]
  have d: "disk_ok d" "bytes_per_sector d = 512" "?a + n = unat (endsector part)" "unat (endsector part) < unat (num_of_sectors d)" "?F < 65536" "2 * ?F < n"
    using c by (simp_all add: can_format_def)
  have nos: "unat (num_of_sectors d) < 2 ^ 31" using d(1) by (simp add: disk_ok_def)
  have "startsector part \<le> endsector part" unfolding word_le_nat_alt using d(3) by linarith
  then have "unat (endsector part - startsector part) = n" using d(3) unat_sub [of "startsector part" "endsector part"] by linarith
  then have n: "unat ?sec = n + 1" using d nos by (subst unat_add_small) simp_all
  have F0: "0 < ?F" using d(6) by (auto simp: table_sectors_def div_greater_zero_iff)
  have "0 \<notin> set (label part)" using c by (auto simp: can_format_def FAT_check_character_def check_def)
  moreover have "length (label part) = 16" using c by (simp add: can_format_def)
  moreover have "unat ?sec < 2 ^ 31" using n d nos by simp
  ultimately obtain p where p: "p = new_pb flags clock 512 ?sec secs (label part)" "pb_ok p S ?F n" "VolLab p = label part"
    using new_pb_ok [OF n _ s(2) S _ _ refl F0 d(5,6)] by auto
  let ?part = "part\<lparr>secpercluster := secs\<rparr>"
  let ?d = "with_bytes d (?a * 512) (volume_image 512 now p (n - (1 + 2 * ?F)))"
  have q: "unat (FATSz16 p) = ?F" "ResvdSecCnt p = 1" "NumFATs p = 2" "length (encode_pb p) = 58" "length (VolLab p) = 16"
    using p(2) decode_encode_pb(1) [of p] by (simp_all add: pb_ok_def)
  have "put_volume now ?part p d = (True, with_bytes d (?a * 512) (volume_image 512 now p (unat (endsector part) - (?a + 1 + 2 * ?F))))"
    by (rule put_volume_ok [OF d(1) _ _ q(1) [symmetric] _ q(2-5)]) (use d F0 in \<open>simp_all add: unat_512\<close>)
  moreover have "unat (endsector part) - (?a + 1 + 2 * ?F) = n - (1 + 2 * ?F)" using d(3) by simp
  ultimately have "put_volume now ?part p d = (True, ?d)" by simp
  then have "FAT_format mem flags clock now d part = Some (True, ?part, ?d)"
    using c s(1) m d(2) p(1) by (auto simp: FAT_format_def Let_def can_format_def ENTRY_SIZE_def unat_512)
  then show thesis using that p(2,3) mount_formatted [OF d(1,2) p(2) _ refl _ m vol refl] d by (simp add: cluster_count_def)
qed

section \<open>Formatted volumes\<close>

lemma mounted_volume_simps:
  assumes "C + 2 < 65536" "S \<le> 64" "F < 65536" "disk_ok d" "bytes_per_sector d = 512" and v_def: "v = mounted_volume vol d start p S F C"
  shows "fsize v = C + 2" "bps v = 512" "spc v = unat (SecPerClus p)" "bpc v = 512 * S" "data_sector v = unat start + (1 + 2 * F)" "PB v = p" "vctx v = d"
    "unat (FirstDataSector v) = 1 + 2 * F" "FATEntriesPerSec v = 8" "FAT v = Some (blank_entries (256 * F))" "lastFreeFATEntry v = 2"
    "FATSize v = of_nat (C + 2)" "file_of v = d_file d"
proof -
  have "unat (of_nat (C + 2) :: u16) = C + 2" "unat (of_nat (512 * S) :: u16) = 512 * S" "unat (of_nat (1 + 2 * F) :: u32) = 1 + 2 * F"
    using assms(1-3) by (subst unat_of_nat_small; simp)+
  then show "fsize v = C + 2" "bps v = 512" "spc v = unat (SecPerClus p)" "bpc v = 512 * S" "data_sector v = unat start + (1 + 2 * F)" "PB v = p" "vctx v = d"
    "unat (FirstDataSector v) = 1 + 2 * F" "FATEntriesPerSec v = 8" "FAT v = Some (blank_entries (256 * F))" "lastFreeFATEntry v = 2"
    "FATSize v = of_nat (C + 2)" "file_of v = d_file d"
    using assms(5) unfolding v_def mounted_volume_def fsize_def bps_def spc_def bpc_def data_sector_def file_of_def by (simp_all del: of_nat_add of_nat_mult add: unat_512)
qed

lemma blank_entries_nth: "i < n \<Longrightarrow> 3 \<le> n \<Longrightarrow> blank_entries n ! i = (if i = 0 then 0xFF00 else if i < 3 then 0xFFFF else 0)"
  by (auto simp: blank_entries_def nth_append less_Suc_eq numeral_3_eq_3 nth_Cons')

lemma formatted_vol_ok:
  assumes p: "pb_ok p S F n" and C: "C = (n - 2 * F) div S" "1 \<le> C" "C + 2 \<le> 256 * F" "C + 2 \<le> 0xFFF0"
    and d: "disk_ok d" "bytes_per_sector d = 512" "unat start + n < unat (num_of_sectors d)"
  shows "vol_ok (mounted_volume vol d start p S F C) (blank_entries (256 * F))"
proof -
  have q: "unat (SecPerClus p) = S" "0 < S" "S \<le> 64" "unat (FATSz16 p) = F" "0 < F" "F < 65536" "BytsPerSec p = 512" "ResvdSecCnt p = 1" "NumFATs p = 2" "2 * F < n"
    using p unat_bound [of "FATSz16 p"] by (auto simp: pb_ok_def)
  note v = mounted_volume_simps [OF _ q(3,6) d(1,2) refl]
  have c: "C + 2 < 65536" using C(4) by simp
  have u: "unat (of_nat (C + 2) :: u16) = C + 2" by (rule unat_of_nat_small) (use c in simp)
  then have w: "(of_nat (C + 2) :: u16) \<le> 0xFFF0" "2 < (of_nat (C + 2) :: u16)" "unat (of_nat (C + 2) :: u16) = C + 2"
    unfolding word_le_nat_alt word_less_nat_alt u using C(2,4) by simp_all
  have "C * S \<le> n - 2 * F" unfolding C(1) by (rule div_times_less_eq_dividend)
  then have "unat start + (1 + 2 * F) + C * S \<le> unat (num_of_sectors d)" using d(3) q(10) by linarith
  then have "geometry_ok (mounted_volume vol d start p S F C)"
    unfolding geometry_ok_def v [OF c] using q d c by (auto simp: mult.commute)
  moreover have "vol_table (mounted_volume vol d start p S F C) (blank_entries (256 * F))"
    unfolding vol_table_def v [OF c] using w C(3) q(5) by (auto simp: blank_entries_def)
  ultimately show ?thesis unfolding vol_ok_def v [OF c] using q(4,5) by (simp add: blank_entries_def)
qed

lemma formatted_root:
  assumes p: "pb_ok p S F n" and C: "S \<le> n - 2 * F" "C + 2 < 65536"
    and d: "disk_ok d'" "bytes_per_sector d' = 512" "d' = with_bytes d (unat start * 512) (volume_image 512 now p (n - (1 + 2 * F)))"
    and len: "unat start * 512 + (n + 1) * 512 \<le> length (d_file d)"
  shows "cluster_data (mounted_volume vol d' start p S F C) 2 = encode_entry (volume_entry now p) @ replicate (512 * S - 64) 0"
proof -
  have q: "unat (SecPerClus p) = S" "0 < S" "S \<le> 64" "unat (FATSz16 p) = F" "0 < F" "F < 65536" "FATSz16 p \<noteq> 0" "length (VolLab p) = 16"
    using p unat_bound [of "FATSz16 p"] by (auto simp: pb_ok_def)
  note v = mounted_volume_simps [OF C(2) q(3,6) d(1,2) refl]
  let ?I = "volume_image 512 now p (n - (1 + 2 * F))" and ?h = "pb_sector 512 p @ blank_table 512 p @ blank_table 512 p"
  let ?e = "encode_entry (volume_entry now p)"
  have le: "length ?e = 64" using q(8) by (simp add: volume_entry_def splice_length encode_length DIR_NAMELEN_def)
  have lh: "length ?h = (1 + 2 * F) * 512"
    using blank_table_length [OF q(7), of 512] q(4) decode_encode_pb(1) [of p] p by (simp add: pb_sector_def splice_length pb_ok_def)
  have I: "?I = ?h @ ?e @ replicate (448 + (n - (1 + 2 * F)) * 512) 0"
    using le by (simp add: volume_image_def label_sector_def splice_def replicate_add)
  have lI: "length ?I = (n + 1) * 512" unfolding I using lh le C(1) q(2) by (simp add: algebra_simps)
  have fd: "d_file d' = splice (d_file d) (unat start * 512) ?I" by (simp add: d(3) with_bytes_def)
  have "(1 + 2 * F) * 512 + 512 * S \<le> length ?I" unfolding lI using C(1) q(2) by (simp add: algebra_simps)
  then have "cluster_data (mounted_volume vol d' start p S F C) 2 = bytes_at ?I ((1 + 2 * F) * 512) (512 * S)"
    unfolding cluster_data_def cluster_pos_def cluster_sector_def v fd
    using bytes_at_splice_inside [of "unat start * 512" ?I "d_file d" "unat start * 512 + (1 + 2 * F) * 512" "512 * S"] lI len
    by (simp add: algebra_simps)
  also have "\<dots> = ?e @ replicate (512 * S - 64) 0"
    unfolding I bytes_at_def using lh le C(1) q(2) by (simp add: min_def)
  finally show ?thesis .
qed

text \<open>C17: a partition that has been formatted can be mounted, and gives a well-formed volume: every cluster but the one of the root directory is free, and that
  directory holds the entry with the label of the volume and nothing else. The conditions: a partition of sectors of 512 bytes that \<open>FAT_format\<close> accepts, memory for
  the buffers, no volume mounted yet, at least one cluster, and a number of clusters that with the two reserved entries fits both the 256 entries per sector of the
  table the format computes and the 16-bit entries (at most 0xFFF0).\<close>

theorem FAT_format_correct:
  assumes c: "can_format d part n S" and F: "F = table_sectors n S" and C: "C = cluster_count n S" "1 \<le> C" "C + 2 \<le> 256 * F" "C + 2 \<le> 0xFFF0"
    and m: "\<forall>k. mem k" and vol: "\<not> mounted vol"
  shows "\<exists>part' d' vol' t e. FAT_format mem flags clock now d part = Some (True, part', d') \<and>
    FAT_mount mem d' (startsector part) vol = Some (True, vol') \<and> vol_ok vol' t \<and> fsize vol' = C + 2 \<and>
    cluster_chain t (fsize vol') (RootClus (PB vol')) [2] \<and> (\<forall>c. in_data (fsize vol') c \<longrightarrow> (t ! unat c = 0 \<longleftrightarrow> c \<noteq> 2)) \<and>
    cluster_data vol' 2 = encode_entry e @ replicate (bpc vol' - 64) 0 \<and> DIR_Attr e = ATTR_VOLUME_ID \<and> take 16 (DIR_Name e) = label part"
proof -
  obtain part' p d' where r: "FAT_format mem flags clock now d part = Some (True, part', d')" "pb_ok p S F n" "VolLab p = label part"
    "d' = with_bytes d (unat (startsector part) * 512) (volume_image 512 now p (n - (1 + 2 * F)))" "disk_ok d'"
    "FAT_mount mem d' (startsector part) vol = Some (True, mounted_volume vol d' (startsector part) p S F C)"
    by (rule format_mount_raw [OF c, of mem vol, folded F C(1)]) (use m vol in auto)
  let ?v = "mounted_volume vol d' (startsector part) p S F C" and ?t = "blank_entries (256 * F)"
  have k: "disk_ok d" "bytes_per_sector d = 512" "unat (startsector part) + n = unat (endsector part)"
    "unat (endsector part) < unat (num_of_sectors d)" using c by (simp_all add: can_format_def)
  have d': "bytes_per_sector d' = 512" "num_of_sectors d' = num_of_sectors d" using k(2) by (simp_all add: r(4))
  have q: "0 < S" "S \<le> 64" "F < 65536" "0 < F" "RootClus p = 2" using r(2) unat_bound [of "FATSz16 p"] by (auto simp: pb_ok_def)
  have c2: "C + 2 < 65536" using C(4) by simp
  note v = mounted_volume_simps [OF c2 q(2,3) r(5) d'(1) refl, of vol "startsector part" p]
  have C': "C = (n - 2 * F) div S" using C(1) F by (simp add: cluster_count_def)
  have ok: "vol_ok ?v ?t" by (rule formatted_vol_ok [OF r(2) C' C(2-4) r(5) d'(1)]) (use k d'(2) in simp)
  have S: "S \<le> n - 2 * F" using C(2) C' q(1) by (metis One_nat_def div_greater_zero_iff less_eq_Suc_le)
  have "length (d_file d) = unat (num_of_sectors d) * 512" using k(1,2) by (simp add: disk_ok_def unat_512)
  moreover have "(unat (startsector part) + n + 1) * 512 \<le> unat (num_of_sectors d) * 512" using k(3,4) by (intro mult_right_mono) linarith+
  ultimately have "unat (startsector part) * 512 + (n + 1) * 512 \<le> length (d_file d)" by (simp add: add_mult_distrib)
  then have root: "cluster_data ?v 2 = encode_entry (volume_entry now p) @ replicate (512 * S - 64) 0" by (rule formatted_root [OF r(2) S c2 r(5) d'(1) r(4)])
  have t: "?t ! unat c = (if c = 2 then 0xFFFF else 0)" if "in_data (C + 2) c" for c :: u16
  proof -
    have i: "unat c < 256 * F" "3 \<le> 256 * F" "2 \<le> unat c" using that C(2,3) by (simp_all add: in_data_def)
    have "unat c < 3 \<longleftrightarrow> c = 2" using i(3) by (auto simp: word_unat_eq_iff)
    then show ?thesis using blank_entries_nth [OF i(1,2)] i(3) by simp
  qed
  have two: "in_data (C + 2) 2" using C(2) by (simp add: in_data_def)
  have "cluster_chain ?t (C + 2) 2 [2]" using two t [OF two] by (simp add: cluster_defs)
  moreover have "DIR_Attr (volume_entry now p) = ATTR_VOLUME_ID" "take 16 (DIR_Name (volume_entry now p)) = label part"
    using r(2,3) by (simp_all add: volume_entry_def splice_def pb_ok_def)
  moreover have "\<forall>c. in_data (C + 2) c \<longrightarrow> (?t ! unat c = 0 \<longleftrightarrow> c \<noteq> 2)" using t by simp
  ultimately have "vol_ok ?v ?t \<and> fsize ?v = C + 2 \<and> cluster_chain ?t (fsize ?v) (RootClus (PB ?v)) [2] \<and>
      (\<forall>c. in_data (fsize ?v) c \<longrightarrow> (?t ! unat c = 0 \<longleftrightarrow> c \<noteq> 2)) \<and> cluster_data ?v 2 = encode_entry (volume_entry now p) @ replicate (bpc ?v - 64) 0 \<and>
      DIR_Attr (volume_entry now p) = ATTR_VOLUME_ID \<and> take 16 (DIR_Name (volume_entry now p)) = label part"
    using ok root q(5) unfolding v by simp
  then show ?thesis using r(1,6) by blast
qed

text \<open>The size of the table does not allow for its two reserved entries: when the clusters fill the table, the mounted volume has more entries than its
  table, and counting the free clusters reads beyond it.\<close>

theorem FAT_format_table_too_small:
  assumes c: "can_format d part n S" and C: "C = cluster_count n S" "256 * table_sectors n S < C + 2" "C + 2 < 65536" "2 < C + 2"
    and m: "\<forall>k. mem k" and vol: "\<not> mounted vol"
  shows "\<exists>part' d' vol' t. FAT_format mem flags clock now d part = Some (True, part', d') \<and> FAT_mount mem d' (startsector part) vol = Some (True, vol') \<and>
    FAT vol' = Some t \<and> length t < unat (FATSize vol') \<and> FAT_available vol' = None"
proof -
  let ?F = "table_sectors n S"
  obtain part' p d' where r: "FAT_format mem flags clock now d part = Some (True, part', d')" "pb_ok p S ?F n" "disk_ok d'"
    "d' = with_bytes d (unat (startsector part) * 512) (volume_image 512 now p (n - (1 + 2 * ?F)))"
    "FAT_mount mem d' (startsector part) vol = Some (True, mounted_volume vol d' (startsector part) p S ?F C)"
    by (rule format_mount_raw [OF c, of mem vol, folded C(1)]) (use m vol in auto)
  have "bytes_per_sector d = 512" using c by (simp add: can_format_def)
  then have d': "bytes_per_sector d' = 512" by (simp add: r(4))
  have q: "S \<le> 64" "?F < 65536" "0 < ?F" using r(2) unat_bound [of "FATSz16 p"] by (auto simp: pb_ok_def)
  note v = mounted_volume_simps [OF C(3) q(1,2) r(3) d' refl, of vol "startsector part" p]
  have u: "unat (of_nat (C + 2) :: u16) = C + 2" by (rule unat_of_nat_small) (use C(3) in simp)
  let ?v = "mounted_volume vol d' (startsector part) p S ?F C"
  have "length (blank_entries (256 * ?F)) < unat (FATSize ?v)" unfolding v u using C(2) q(3) by (simp add: blank_entries_def)
  moreover have "\<not> FATSize ?v \<le> 2" unfolding v word_le_nat_alt u using C(4) by simp
  ultimately have "FAT_available ?v = None" using v(10) by (simp add: FAT_available_def not_le)
  then show ?thesis using r(1,5) v(10) \<open>length (blank_entries (256 * ?F)) < unat (FATSize ?v)\<close> by blast
qed

definition demo_disk :: disk where
  "demo_disk = \<lparr>d_file = replicate 153600 0, bytes_per_sector = 512, num_of_sectors = 300\<rparr>"

definition demo_part :: "u32 \<Rightarrow> FATPartition" where
  "demo_part e = \<lparr>startsector = 10, endsector = e, secpercluster = 1, label = replicate 16 0x41\<rparr>"

lemma demo_can_format:
  "can_format demo_disk (demo_part 110) 100 1" "can_format demo_disk (demo_part 268) 258 1"
proof -
  have "FAT_check_character 0x41" by code_simp
  moreover have "disk_ok demo_disk" by (simp add: demo_disk_def disk_ok_def)
  ultimately show "can_format demo_disk (demo_part 110) 100 1" "can_format demo_disk (demo_part 268) 258 1"
    by (simp_all add: can_format_def demo_disk_def demo_part_def choose_secpercluster_def MAX_CLUS_SIZE_def table_sectors_def)
qed

theorem FAT_format_correct_witness:
  "\<exists>part' d' vol' t. FAT_format (\<lambda>_. True) 0 0 demo_now demo_disk (demo_part 110) = Some (True, part', d') \<and>
    FAT_mount (\<lambda>_. True) d' 10 (demo_vol\<lparr>mounted := False\<rparr>) = Some (True, vol') \<and> vol_ok vol' t \<and> fsize vol' = 100"
proof -
  have "cluster_count 100 1 = 98" "table_sectors 100 1 = 1" by (simp_all add: cluster_count_def table_sectors_def)
  then show ?thesis using FAT_format_correct [OF demo_can_format(1), of 1 98 "\<lambda>_. True" "demo_vol\<lparr>mounted := False\<rparr>" 0 0 demo_now]
    by (auto simp: demo_part_def)
qed

theorem FAT_format_table_too_small_witness:
  "\<exists>part' d' vol'. FAT_format (\<lambda>_. True) 0 0 demo_now demo_disk (demo_part 268) = Some (True, part', d') \<and>
    FAT_mount (\<lambda>_. True) d' 10 (demo_vol\<lparr>mounted := False\<rparr>) = Some (True, vol') \<and> FAT_available vol' = None"
proof -
  have "cluster_count 258 1 = 256" "table_sectors 258 1 = 1" by (simp_all add: cluster_count_def table_sectors_def)
  then show ?thesis using FAT_format_table_too_small [OF demo_can_format(2), of 256 "\<lambda>_. True" "demo_vol\<lparr>mounted := False\<rparr>" 0 0 demo_now]
    by (auto simp: demo_part_def)
qed

end
