(* ===== verification/FatSearch.thy ===== *)
theory FatSearch
  imports FatWrite
begin

text \<open>
  Searching a directory, \<^verbatim>\<open>FAT_dir_foreach\<close> and the search of \<^verbatim>\<open>src/fat/fat.c\<close>: the search ends, and what it finds is the first entry in use with
  the name, with the place where the entry lies on disk.
\<close>

section \<open>One cluster\<close>

text \<open>An entry that a search for a name takes.\<close>

definition matches :: "u8 list \<Rightarrow> dirent \<Rightarrow> bool" where
  "matches name e \<longleftrightarrow> DIR_Name e ! 0 \<noteq> DIR_ENTRY_FREE \<and> DIR_Name e ! 0 \<noteq> DIR_ENTRY_LAST_FREE \<and> same_name (DIR_Name e) name"

text \<open>The entries in front of the end mark.\<close>

definition before_end :: "dirent list \<Rightarrow> dirent list" where
  "before_end es = takeWhile (\<lambda>e. DIR_Name e ! 0 \<noteq> DIR_ENTRY_LAST_FREE) es"

lemma free_not_last: "DIR_ENTRY_FREE \<noteq> DIR_ENTRY_LAST_FREE"
  by (simp add: DIR_ENTRY_FREE_def DIR_ENTRY_LAST_FREE_def)

lemma search_loop_found:
  assumes "FAT_search_loop name es < length es"
  shows "matches name (es ! FAT_search_loop name es)" "j < FAT_search_loop name es \<Longrightarrow> \<not> matches name (es ! j)"
    "FAT_search_loop name es < length (before_end es)"
proof -
  have "matches name (es ! FAT_search_loop name es) \<and> (j < FAT_search_loop name es \<longrightarrow> \<not> matches name (es ! j)) \<and>
    FAT_search_loop name es < length (before_end es)" using assms
  proof (induction name es arbitrary: j rule: FAT_search_loop.induct)
    case (2 name e es)
    then show ?case using free_not_last by (cases j) (auto simp: matches_def before_end_def split: if_splits)
  qed simp
  then show "matches name (es ! FAT_search_loop name es)" "j < FAT_search_loop name es \<Longrightarrow> \<not> matches name (es ! j)"
    "FAT_search_loop name es < length (before_end es)" by auto
qed

lemma search_loop_none:
  assumes "\<not> FAT_search_loop name es < length es" "e \<in> set (before_end es)"
  shows "\<not> matches name e"
  using assms
  by (induction name es rule: FAT_search_loop.induct) (auto simp: matches_def before_end_def split: if_splits)

section \<open>Places\<close>

lemma entry_of_cluster:
  assumes ok: "vol_ok vol t" and e8: "64 dvd bps vol" and c: "in_data (fsize vol) c" and i: "i < dir_items vol"
    and s: "s = res\<lparr>sr_entry := entry_at (cluster_data vol c) i, sr_sector := FAT_FSoC vol c + of_nat (i div FATEntriesPerSec vol), sr_offset := i mod FATEntriesPerSec vol\<rparr>"
  shows "entry_place vol s" "entry_on_disk vol s = sr_entry s" "{entry_pos vol s..<entry_pos vol s + 64} \<subseteq> crange vol c"
proof -
  note g = vol_okD(1) [OF ok]
  let ?E = "FATEntriesPerSec vol"
  have E: "?E = bps vol div 64" "bps vol = 64 * ?E" "0 < ?E" using g e8 geometryD(4) [OF g] by (auto simp: geometry_ok_def)
  have items: "i < ?E * spc vol" using i by (simp add: dir_items_def spc_def)
  then have q: "i div ?E < spc vol" by (simp add: div_less_iff_less_mult E(3) mult.commute)
  have sec: "cluster_sector vol c + spc vol \<le> unat (num_of_sectors (vctx vol))" "unat (num_of_sectors (vctx vol)) < 2 ^ 31"
    using cluster_in_disk(1) [OF g c] geometryD(7) [OF g] by simp_all
  have fs: "unat (FirstSector vol + FAT_FSoC vol c) = cluster_sector vol c" by (rule FSoC_sector [OF g c])
  have le: "unat (FirstSector vol) \<le> cluster_sector vol c" using cluster_in_disk(3) [OF g c] by (simp add: data_sector_def)
  have "FAT_FSoC vol c = of_nat (cluster_sector vol c - unat (FirstSector vol))"
  proof -
    have "FirstSector vol + FAT_FSoC vol c = of_nat (cluster_sector vol c)" using fs by (metis of_nat_unat ucast_id)
    then have "FAT_FSoC vol c = of_nat (cluster_sector vol c) - FirstSector vol" by (metis add_diff_cancel_left')
    then show ?thesis using le by (simp add: of_nat_diff)
  qed
  then have "sr_sector s = of_nat (cluster_sector vol c - unat (FirstSector vol) + i div ?E)" by (simp add: s)
  moreover have "unat (of_nat (cluster_sector vol c - unat (FirstSector vol) + i div ?E) :: u32) = cluster_sector vol c - unat (FirstSector vol) + i div ?E"
    by (rule unat_of_nat_small) (use sec q in simp)
  ultimately have "unat (sr_sector s) = cluster_sector vol c - unat (FirstSector vol) + i div ?E" by (simp only:)
  then have ss: "unat (FirstSector vol) + unat (sr_sector s) = cluster_sector vol c + i div ?E" using le by simp
  have off: "64 * sr_offset s + 64 \<le> bps vol" using E(2,3) mod_less_divisor [OF E(3), of i] by (simp add: s)
  show pl: "entry_place vol s" using ss off sec q by (simp add: entry_place_def)
  have pos: "entry_pos vol s = cluster_pos vol c + 64 * i"
  proof -
    have "i div ?E * bps vol + 64 * (i mod ?E) = 64 * i" unfolding E(2) by (metis add_mult_distrib2 div_mult_mod_eq mult.assoc mult.commute)
    moreover have "sr_offset s = i mod ?E" by (simp add: s)
    ultimately show ?thesis unfolding entry_pos_def ss by (simp add: add_mult_distrib cluster_pos_def)
  qed
  have "64 * Suc i \<le> 64 * (?E * spc vol)" using items by (intro mult_left_mono) simp_all
  then have in_c: "64 * i + 64 \<le> bpc vol" unfolding geometryD(3) [OF g] E(2) by (simp add: mult_ac)
  show "{entry_pos vol s..<entry_pos vol s + 64} \<subseteq> crange vol c" using pos in_c by (auto simp: crange_def)
  have "bytes_at (file_of vol) (cluster_pos vol c + 64 * i) 64 = bytes_at (cluster_data vol c) (64 * i) 64"
    using in_c by (simp add: cluster_data_def bytes_at_def drop_take min_def add.commute)
  moreover have "sr_entry s = decode_entry (bytes_at (cluster_data vol c) (64 * i) 64)" by (simp add: s entry_at_def ENTRY_SIZE_def)
  ultimately show "entry_on_disk vol s = sr_entry s" by (simp add: entry_on_disk_def pos)
qed

section \<open>A directory\<close>

definition cluster_entries :: "fatvol \<Rightarrow> u16 \<Rightarrow> dirent list" where
  "cluster_entries vol c = map (entry_at (cluster_data vol c)) [0..<dir_items vol]"

definition placed_entry :: "fatvol \<Rightarrow> search_result \<Rightarrow> u16 \<Rightarrow> nat \<Rightarrow> search_result" where
  "placed_entry vol res c i = res\<lparr>sr_entry := entry_at (cluster_data vol c) i, sr_sector := FAT_FSoC vol c + of_nat (i div FATEntriesPerSec vol),
     sr_offset := i mod FATEntriesPerSec vol\<rparr>"

lemma foreach_cluster:
  assumes "vol_ok vol t" "64 dvd bps vol" "in_data (fsize vol) c"
  shows "FAT_dir_foreach vol name c res fn =
    (let i = fn name (cluster_entries vol c) in if i < dir_items vol then Some (True, placed_entry vol res c i) else Some (False, res))"
proof -
  note g = vol_okD(1) [OF assms(1)]
  have "64 * dir_items vol = bpc vol"
    using g assms(2) geometryD(3) [OF g] by (auto simp: geometry_ok_def dir_items_def spc_def)
  then have "entries_of (cluster_data vol c) (dir_items vol) = Some (cluster_entries vol c)"
    using cluster_data_length [OF g assms(3)] by (simp add: entries_of_def cluster_entries_def ENTRY_SIZE_def)
  then show ?thesis using readC_ok [OF g assms(3)]
    by (simp add: FAT_dir_foreach_def Let_def placed_entry_def cluster_entries_def)
qed

text \<open>The search of the clusters \<open>cs\<close> of a directory: \<open>s\<close> is the first entry with the name, in cluster \<open>d\<close>.\<close>

definition found_in :: "fatvol \<Rightarrow> u8 list \<Rightarrow> u16 list \<Rightarrow> u16 \<Rightarrow> search_result \<Rightarrow> bool" where
  "found_in vol name cs d s \<longleftrightarrow> entry_place vol s \<and> entry_on_disk vol s = sr_entry s \<and> {entry_pos vol s..<entry_pos vol s + 64} \<subseteq> crange vol d \<and>
     (\<exists>pre post i. cs = pre @ d # post \<and> (\<forall>c\<in>set pre. \<forall>e\<in>set (before_end (cluster_entries vol c)). \<not> matches name e) \<and>
       i < length (before_end (cluster_entries vol d)) \<and> sr_entry s = cluster_entries vol d ! i \<and> matches name (sr_entry s) \<and>
       (\<forall>j<i. \<not> matches name (cluster_entries vol d ! j)))"

lemma found_in_first:
  assumes ok: "vol_ok vol t" "64 dvd bps vol" "in_data (fsize vol) c" and i: "FAT_search_loop name (cluster_entries vol c) < dir_items vol"
  shows "found_in vol name (c # cs) c (placed_entry vol res c (FAT_search_loop name (cluster_entries vol c)))"
proof -
  let ?i = "FAT_search_loop name (cluster_entries vol c)"
  have l: "?i < length (cluster_entries vol c)" using i by (simp add: cluster_entries_def)
  have e: "sr_entry (placed_entry vol res c ?i) = cluster_entries vol c ! ?i" using i by (simp add: placed_entry_def cluster_entries_def)
  show ?thesis unfolding found_in_def
    using entry_of_cluster [OF ok i placed_entry_def] search_loop_found [OF l] e
    by (intro conjI exI [of _ "[]"] exI [of _ cs] exI [of _ ?i]) auto
qed

lemma found_in_later:
  assumes "found_in vol name cs d s" "\<forall>e\<in>set (before_end (cluster_entries vol c)). \<not> matches name e"
  shows "found_in vol name (c # cs) d s"
proof -
  obtain pre post i where "cs = pre @ d # post" "\<forall>c\<in>set pre. \<forall>e\<in>set (before_end (cluster_entries vol c)). \<not> matches name e"
    "i < length (before_end (cluster_entries vol d))" "sr_entry s = cluster_entries vol d ! i" "matches name (sr_entry s)"
    "\<forall>j<i. \<not> matches name (cluster_entries vol d ! j)" using assms(1) by (auto simp: found_in_def)
  then have "\<exists>pre post i. c # cs = pre @ d # post \<and> (\<forall>c\<in>set pre. \<forall>e\<in>set (before_end (cluster_entries vol c)). \<not> matches name e) \<and>
       i < length (before_end (cluster_entries vol d)) \<and> sr_entry s = cluster_entries vol d ! i \<and> matches name (sr_entry s) \<and>
       (\<forall>j<i. \<not> matches name (cluster_entries vol d ! j))"
    using assms(2) by (intro exI [of _ "c # pre"] exI [of _ post] exI [of _ i]) auto
  then show ?thesis using assms(1) by (auto simp: found_in_def)
qed

lemma directory_search:
  assumes ok: "vol_ok vol t" "64 dvd bps vol" and ch: "cluster_chain t (fsize vol) c cs"
  shows "\<exists>found stop s. foreach_chain vol name FAT_search_loop c res = Some (found, stop, s) \<and> sr_container s = sr_container res \<and>
    (if found then stop \<in> set cs \<and> found_in vol name cs stop s
     else \<forall>d\<in>set cs. \<forall>e\<in>set (before_end (cluster_entries vol d)). \<not> matches name e)"
  using ch
proof (induction cs arbitrary: c res)
  case Nil
  then show ?case by (intro exI [of _ False] exI [of _ c] exI [of _ res], subst foreach_chain.simps) simp
next
  case (Cons x xs)
  then have c: "x = c" "in_data (fsize vol) c" "cluster_chain t (fsize vol) (t ! unat c) xs" by auto
  note eoc = in_data_readable(1) [OF c(2) vol_okD(4) [OF ok(1)]]
  have get: "FAT_get_cluster_from_table vol c = Some (t ! unat c)" using c(2) get_cluster [OF vol_okD(2) [OF ok(1)]] by (simp add: in_data_def)
  let ?i = "FAT_search_loop name (cluster_entries vol c)"
  note fe = foreach_cluster [OF ok c(2), of name res FAT_search_loop]
  show ?case
  proof (cases "?i < dir_items vol")
    case True
    then have "foreach_chain vol name FAT_search_loop c res = Some (True, c, placed_entry vol res c ?i)"
      using eoc fe by (subst foreach_chain.simps) (simp add: Let_def)
    then show ?thesis using found_in_first [OF ok c(2) True] c(1)
      by (intro exI [of _ True] exI [of _ c] exI [of _ "placed_entry vol res c ?i"]) (simp add: placed_entry_def)
  next
    case False
    then have none: "\<forall>e\<in>set (before_end (cluster_entries vol c)). \<not> matches name e"
      using search_loop_none [of name "cluster_entries vol c"] by (auto simp: cluster_entries_def)
    have step: "foreach_chain vol name FAT_search_loop c res = foreach_chain vol name FAT_search_loop (t ! unat c) res"
      using eoc fe False get by (subst foreach_chain.simps) (simp add: Let_def)
    obtain f st s where r: "foreach_chain vol name FAT_search_loop (t ! unat c) res = Some (f, st, s)" "sr_container s = sr_container res"
      "if f then st \<in> set xs \<and> found_in vol name xs st s else \<forall>d\<in>set xs. \<forall>e\<in>set (before_end (cluster_entries vol d)). \<not> matches name e"
      using Cons.IH [OF c(3), of res] by blast
    then show ?thesis unfolding step using none c(1) found_in_later by (cases f) auto
  qed
qed

section \<open>A path\<close>

text \<open>C18: the search for a path of one component ends. It returns the first entry of the root directory in use with that name, with the sector and the
  position where the entry lies on the disk, or reports that no entry in front of the end mark has the name.\<close>

theorem FAT_search_root:
  assumes ok: "vol_ok vol t" "64 dvd bps vol" and ch: "cluster_chain t (fsize vol) (RootClus (PB vol)) cs" "cs \<noteq> []"
    and path: "path \<noteq> []" "length path \<le> FILENAME_MAX" "FAT_parse_directory mem path = Some [name]"
  shows "(\<exists>s d. FAT_search_DIR_entry mem junk vol path = Some (Some s) \<and> d \<in> set cs \<and> found_in vol name cs d s \<and>
      sr_container s = DIR_FstClus (sr_entry s)) \<or>
    FAT_search_DIR_entry mem junk vol path = Some None \<and> (\<forall>d\<in>set cs. \<forall>e\<in>set (before_end (cluster_entries vol d)). \<not> matches name e)"
proof -
  let ?c = "RootClus (PB vol)"
  have "in_data (fsize vol) ?c" using ch by (cases cs) auto
  then have eoc: "\<not> FAT_cluster_isEOC ?c" using in_data_readable(1) vol_okD(4) [OF ok(1)] by blast
  obtain found stop s where r: "foreach_chain vol name FAT_search_loop ?c junk = Some (found, stop, s)"
    "if found then stop \<in> set cs \<and> found_in vol name cs stop s else \<forall>d\<in>set cs. \<forall>e\<in>set (before_end (cluster_entries vol d)). \<not> matches name e"
    using directory_search [OF ok ch(1), of name junk] by blast
  have srch: "FAT_search_DIR_entry mem junk vol path = Some (if found then Some (s\<lparr>sr_container := DIR_FstClus (sr_entry s)\<rparr>) else None)"
    using path r(1) eoc by (simp add: FAT_search_DIR_entry_def Let_def)
  have "found_in vol name cs stop (s\<lparr>sr_container := x\<rparr>) = found_in vol name cs stop s" for x
    by (simp add: found_in_def entry_place_def entry_on_disk_def entry_pos_def)
  then show ?thesis using r(2) srch by (cases found) auto
qed

theorem FAT_search_root_witness:
  "\<exists>s. FAT_search_DIR_entry (\<lambda>_. True) demo_search demo_vol [0x61] = Some (Some s) \<and> found_in demo_vol (65 # replicate 38 0x20) [2] 2 s"
proof -
  have "FAT_parse_directory (\<lambda>_. True) [0x61] = Some [65 # replicate 38 0x20]" by code_simp
  moreover have "cluster_chain demo_table (fsize demo_vol) (RootClus (PB demo_vol)) [2]" "bps demo_vol = 64" by code_simp+
  moreover have "vol_ok demo_vol demo_table" by (rule file_okD(1) [OF demo_file_ok])
  ultimately show ?thesis
    using FAT_search_root [of demo_vol demo_table "[2]" "[0x61]" "\<lambda>_. True" "65 # replicate 38 0x20" demo_search] demo_search_found
    by (simp add: FILENAME_MAX_def del: cluster_chain.simps)
qed

end
