(* ===== verification/FatBoot.thy ===== *)
theory FatBoot
  imports FatDisk
begin

text \<open>
  The first sector of a disk: \<^verbatim>\<open>src/fat/mbr.c\<close>, the table of partitions, and \<^verbatim>\<open>src/fat/bpb.c\<close>, a boot sector taken as its 512 bytes. \<open>mem\<close> is
  what \<open>malloc\<close> can serve; its result is not checked, so that the copy to a null pointer is a fault, as is one beyond the sector; the
  bytes of the buffer that are not set are the argument \<open>junk\<close>.
\<close>

section \<open>Layout\<close>

record MBR_partition_entry =
  status :: u8
  CHS_first_sector :: "u8 list"
  ptype :: u8
  CHS_last_sector :: "u8 list"
  LBA_first_Sector :: u32
  part_sectors :: u32

record MBR =
  bootcode :: "u8 list"
  partitions :: "MBR_partition_entry list"
  boot_signature :: "u8 list"

definition MBR_SIZE :: nat where "MBR_SIZE = 512"

definition encode_partition :: "MBR_partition_entry \<Rightarrow> u8 list" where
  "encode_partition e = [status e] @ CHS_first_sector e @ [ptype e] @ CHS_last_sector e @ le_bytes 4 (unat (LBA_first_Sector e)) @ le_bytes 4 (unat (part_sectors e))"

definition decode_partition :: "u8 list \<Rightarrow> MBR_partition_entry" where
  "decode_partition bs = \<lparr>status = bs ! 0, CHS_first_sector = bytes_at bs 1 3, ptype = bs ! 4, CHS_last_sector = bytes_at bs 5 3,
     LBA_first_Sector = of_nat (le_nat (bytes_at bs 8 4)), part_sectors = of_nat (le_nat (bytes_at bs 12 4))\<rparr>"

definition encode_mbr :: "MBR \<Rightarrow> u8 list" where
  "encode_mbr m = bootcode m @ concat (map encode_partition (partitions m)) @ boot_signature m"

definition decode_mbr :: "u8 list \<Rightarrow> MBR" where
  "decode_mbr bs = \<lparr>bootcode = take 446 bs, partitions = map (\<lambda>i. decode_partition (bytes_at bs (446 + 16 * i) 16)) [0..<4], boot_signature = bytes_at bs 510 2\<rparr>"

section \<open>Operations\<close>

text \<open>\<open>None\<close> inside is the error result.\<close>

definition MBR_read :: "(nat \<Rightarrow> bool) \<Rightarrow> disk \<Rightarrow> MBR option option" where
  "MBR_read mem ctx =
     (if \<not> mem (unat (bytes_per_sector ctx)) then Some None
      else case disk_read ctx 0 1 of
             None \<Rightarrow> Some None
           | Some buf \<Rightarrow> if length buf < MBR_SIZE then None else Some (Some (decode_mbr buf)))"

definition MBR_write :: "(nat \<Rightarrow> bool) \<Rightarrow> u8 list \<Rightarrow> disk \<Rightarrow> MBR \<Rightarrow> (bool \<times> disk) option" where
  "MBR_write mem junk ctx mbr =
     (let n = unat (bytes_per_sector ctx); buf = encode_mbr mbr @ junk in
      if \<not> mem n \<or> n < MBR_SIZE then None
      else Some (case disk_write ctx 0 1 buf of None \<Rightarrow> (False, ctx) | Some d \<Rightarrow> (True, d)))"

definition MBR_get_active_partition :: "MBR \<Rightarrow> int" where
  "MBR_get_active_partition mbr =
     (let i = length (takeWhile (\<lambda>e. status e \<noteq> 0x80) (take 4 (partitions mbr))) in if i < 4 then int i else - 1)"

definition MBR_get_partition_entry :: "MBR \<Rightarrow> int \<Rightarrow> MBR_partition_entry option" where
  "MBR_get_partition_entry mbr partnum = (if partnum < 0 \<or> partnum > 3 then None else Some (partitions mbr ! nat partnum))"

definition BPB_SIZE :: nat where "BPB_SIZE = 512"

definition BPB_read :: "(nat \<Rightarrow> bool) \<Rightarrow> disk \<Rightarrow> u8 list option option" where
  "BPB_read mem ctx =
     (if \<not> mem (unat (bytes_per_sector ctx)) then Some None
      else case disk_read ctx 0 1 of
             None \<Rightarrow> Some None
           | Some buf \<Rightarrow> if length buf < BPB_SIZE then None else Some (Some (take BPB_SIZE buf)))"

definition BPB_write :: "(nat \<Rightarrow> bool) \<Rightarrow> disk \<Rightarrow> u8 list \<Rightarrow> (bool \<times> disk) option" where
  "BPB_write mem ctx bpb =
     (if \<not> mem (unat (bytes_per_sector ctx)) then Some (False, ctx)
      else case disk_read ctx 0 1 of
             None \<Rightarrow> Some (False, ctx)
           | Some buf \<Rightarrow>
              if length buf < BPB_SIZE then None
              else Some (case disk_write ctx 0 1 (splice buf 0 bpb) of None \<Rightarrow> (False, ctx) | Some d \<Rightarrow> (True, d)))"

section \<open>Round trips\<close>

definition partition_ok :: "MBR_partition_entry \<Rightarrow> bool" where
  "partition_ok e \<longleftrightarrow> length (CHS_first_sector e) = 3 \<and> length (CHS_last_sector e) = 3"

definition mbr_ok :: "MBR \<Rightarrow> bool" where
  "mbr_ok m \<longleftrightarrow> length (bootcode m) = 446 \<and> length (partitions m) = 4 \<and> list_all partition_ok (partitions m) \<and> length (boot_signature m) = 2"

lemma decode_encode_partition:
  assumes "partition_ok e"
  shows "length (encode_partition e) = 16" "decode_partition (encode_partition e) = e"
proof -
  have w: "le_nat (le_bytes 4 (unat (v :: u32))) = unat v" for v using unat_bound [of v] by (simp add: le_nat_bytes)
  show "length (encode_partition e) = 16" using assms by (simp add: encode_partition_def partition_ok_def)
  show "decode_partition (encode_partition e) = e"
    using assms by (simp add: decode_partition_def encode_partition_def partition_ok_def bytes_at_def nth_append w)
qed

lemma decode_encode_mbr:
  assumes "mbr_ok m"
  shows "length (encode_mbr m) = 512" "decode_mbr (encode_mbr m @ rest) = m"
proof -
  have "length (partitions m) = 4" using assms by (simp add: mbr_ok_def)
  then obtain a b c d where p: "partitions m = [a, b, c, d]" by (auto simp: eval_nat_numeral length_Suc_conv)
  have ok: "partition_ok a" "partition_ok b" "partition_ok c" "partition_ok d" using assms p by (simp_all add: mbr_ok_def)
  note e = decode_encode_partition [OF ok(1)] decode_encode_partition [OF ok(2)] decode_encode_partition [OF ok(3)] decode_encode_partition [OF ok(4)]
  have l: "length (bootcode m) = 446" "length (boot_signature m) = 2" using assms by (simp_all add: mbr_ok_def)
  show "length (encode_mbr m) = 512" by (simp add: encode_mbr_def p e l)
  have "[0..<4] = [0, 1, 2, 3 :: nat]" by (simp add: upt_rec)
  then show "decode_mbr (encode_mbr m @ rest) = m" by (simp add: decode_mbr_def encode_mbr_def p e l bytes_at_def)
qed

lemma first_sector:
  assumes "disk_ok d" "bytes_per_sector d = 512" "0 < num_of_sectors d"
  shows "disk_read d 0 1 = Some (take 512 (d_file d))" "length buf = 512 \<Longrightarrow> disk_write d 0 1 buf = Some (d\<lparr>d_file := splice (d_file d) 0 buf\<rparr>)"
    "length buf = 512 \<Longrightarrow> disk_ok (d\<lparr>d_file := splice (d_file d) 0 buf\<rparr>)" "512 \<le> length (d_file d)"
proof -
  have n: "unat (0 :: u32) + unat (1 :: u32) \<le> unat (num_of_sectors d)" using assms(3) by (simp add: word_less_nat_alt)
  have u: "unat (bytes_per_sector d) = 512" using assms(2) by simp
  show "disk_read d 0 1 = Some (take 512 (d_file d))" using disk_read_ok [OF assms(1) _ n] u by (simp add: bytes_at_def)
  show "512 \<le> length (d_file d)" using range_ok(2) [OF assms(1) _ n] u by simp
  show "length buf = 512 \<Longrightarrow> disk_write d 0 1 buf = Some (d\<lparr>d_file := splice (d_file d) 0 buf\<rparr>)"
    "length buf = 512 \<Longrightarrow> disk_ok (d\<lparr>d_file := splice (d_file d) 0 buf\<rparr>)"
    using disk_write_ok [OF assms(1) _ n, of buf] u by simp_all
qed

text \<open>What is written is read back, and the rest of the disk is left alone.\<close>

theorem MBR_write_read:
  assumes d: "disk_ok d" "bytes_per_sector d = 512" "0 < num_of_sectors d" and m: "mbr_ok m" and mem: "mem 512"
  shows "\<exists>d'. MBR_write mem [] d m = Some (True, d') \<and> MBR_read mem d' = Some (Some m) \<and> disk_ok d' \<and> drop 512 (d_file d') = drop 512 (d_file d)"
proof -
  note s = first_sector [OF d]
  have e: "length (encode_mbr m) = 512" "decode_mbr (encode_mbr m) = m" using decode_encode_mbr(1) [OF m] decode_encode_mbr(2) [OF m, of "[]"] by simp_all
  let ?d = "d\<lparr>d_file := splice (d_file d) 0 (encode_mbr m)\<rparr>"
  note s' = first_sector [OF s(3) [OF e(1)], simplified, OF d(2,3)]
  have "take 512 (splice (d_file d) 0 (encode_mbr m)) = encode_mbr m" using e(1) by (simp add: splice_def)
  then have "MBR_read mem ?d = Some (Some m)" using s'(1) e mem d(2) by (simp add: MBR_read_def MBR_SIZE_def)
  moreover have "MBR_write mem [] d m = Some (True, ?d)" using s(2) [OF e(1)] mem d(2) by (simp add: MBR_write_def MBR_SIZE_def)
  moreover have "drop 512 (d_file ?d) = drop 512 (d_file d)" using e(1) by (simp add: splice_def)
  ultimately show ?thesis using s(3) [OF e(1)] by blast
qed

lemma BPB_write_read:
  assumes d: "disk_ok d" "bytes_per_sector d = 512" "0 < num_of_sectors d" and b: "length b = 512" and mem: "mem 512"
  shows "\<exists>d'. BPB_write mem d b = Some (True, d') \<and> BPB_read mem d' = Some (Some b) \<and> disk_ok d' \<and> drop 512 (d_file d') = drop 512 (d_file d)"
proof -
  note s = first_sector [OF d]
  let ?d = "d\<lparr>d_file := splice (d_file d) 0 b\<rparr>"
  note s' = first_sector [OF s(3) [OF b], simplified, OF d(2,3)]
  have "take 512 (splice (d_file d) 0 b) = b" "splice (take 512 (d_file d)) 0 b = b" using b s(4) by (simp_all add: splice_def)
  then have "BPB_read mem ?d = Some (Some b)" "BPB_write mem d b = Some (True, ?d)"
    using s(1,4) s(2) [OF b] s'(1) b mem d(2) by (simp_all add: BPB_read_def BPB_write_def BPB_SIZE_def)
  moreover have "drop 512 (d_file ?d) = drop 512 (d_file d)" using b by (simp add: splice_def)
  ultimately show ?thesis using s(3) [OF b] by blast
qed

lemma active_partition:
  assumes "length (partitions m) = 4"
  shows "MBR_get_active_partition m = - 1 \<longleftrightarrow> (\<forall>e\<in>set (partitions m). status e \<noteq> 0x80)"
    "0 \<le> MBR_get_active_partition m \<Longrightarrow> \<exists>e. MBR_get_partition_entry m (MBR_get_active_partition m) = Some e \<and> status e = 0x80"
proof -
  let ?tw = "takeWhile (\<lambda>e. status e \<noteq> 0x80) (partitions m)"
  have a: "MBR_get_active_partition m = (if length ?tw < 4 then int (length ?tw) else - 1)" using assms by (simp add: MBR_get_active_partition_def Let_def)
  have le: "length ?tw \<le> 4" using length_takeWhile_le [of "\<lambda>e. status e \<noteq> 0x80" "partitions m"] assms by simp
  have "length ?tw = length (partitions m) \<longleftrightarrow> (\<forall>e\<in>set (partitions m). status e \<noteq> 0x80)"
  proof
    assume "length ?tw = length (partitions m)"
    then have "?tw = partitions m" using takeWhile_eq_take [of "\<lambda>e. status e \<noteq> 0x80" "partitions m"] by simp
    then show "\<forall>e\<in>set (partitions m). status e \<noteq> 0x80" by (simp add: takeWhile_eq_all_conv)
  next
    assume "\<forall>e\<in>set (partitions m). status e \<noteq> 0x80"
    then have "?tw = partitions m" by (simp add: takeWhile_eq_all_conv)
    then show "length ?tw = length (partitions m)" by (rule arg_cong)
  qed
  then show "MBR_get_active_partition m = - 1 \<longleftrightarrow> (\<forall>e\<in>set (partitions m). status e \<noteq> 0x80)" using a le assms by auto
  assume "0 \<le> MBR_get_active_partition m"
  then have lt: "length ?tw < 4" using a by (auto split: if_splits)
  then have "status (partitions m ! length ?tw) = 0x80" using nth_length_takeWhile [of "\<lambda>e. status e \<noteq> 0x80" "partitions m"] assms by simp
  then show "\<exists>e. MBR_get_partition_entry m (MBR_get_active_partition m) = Some e \<and> status e = 0x80" using a lt by (simp add: MBR_get_partition_entry_def)
qed

end
