(* ===== verification/NetBuffers.thy ===== *)
theory NetBuffers
  imports Pakman Barriers
begin

text \<open>
  The buffers of the network stack, \<^verbatim>\<open>src/network/net_buffers.c\<close>, and the statistics of \<^verbatim>\<open>src/network/net_stats.c\<close>: a pool of
  packets, a queue of packets going into the stack, a queue going out, and the barrier the network thread waits on. A packet is the index of
  its descriptor in the pool, an interface a handle. The queues are the locale \<open>packet_queue\<close>, interpreted on both of them.
\<close>

record netbuf =
  netb :: "nat option"
  packet_manager :: "pakman option"
  in_cb :: cbuffer
  out_cb :: cbuffer
  in_queue :: "nat option list"
  out_queue :: "(nat option \<times> nat option) list"

text \<open>
  \<open>inq\<close>, \<open>outq\<close>: the two calls of \<open>calloc\<close> succeed; \<open>hdr\<close>, \<open>dsc\<close>, \<open>stg\<close> are the blocks of the pool and \<open>bar\<close> the block of the barrier.
  After a failure the queues and the pool are released; their pointers are left behind and not used.
\<close>

definition netbuf_init ::
  "u32 \<Rightarrow> u32 \<Rightarrow> bool \<Rightarrow> bool \<Rightarrow> bool \<Rightarrow> bool \<Rightarrow> u32 option \<Rightarrow> nat option \<Rightarrow> netbuf \<times> barriers \<Rightarrow> status \<times> netbuf \<times> barriers" where
  "netbuf_init bytes packets inq outq hdr dsc stg bar nbs =
     (case nbs of (nb, bs) \<Rightarrow>
      if bytes < CACHE_LINE \<or> packets < 8 then (EINVAL, nb, bs)
      else if \<not> (inq \<and> outq) then (ENOMEM, nb, bs)
      else
        (let nb = nb\<lparr>in_queue := replicate (unat packets) None, out_queue := replicate (unat packets) (None, None),
               in_cb := cbuffer_init packets, out_cb := cbuffer_init packets\<rparr>
         in case init_pakman hdr dsc stg bytes packets True of
              (r, pm) \<Rightarrow>
                if r \<noteq> EOK then (ENOMEM, nb, bs)
                else (case barrier_create (Some ''network'') False bar bs of
                        (None, bs) \<Rightarrow> (ENOMEM, nb\<lparr>packet_manager := pm, netb := None\<rparr>, bs)
                      | (Some h, bs) \<Rightarrow> (EOK, nb\<lparr>packet_manager := pm, netb := Some h\<rparr>, bs))))"

text \<open>The length is passed in 16 bits.\<close>

definition netbuf_get :: "u32 \<Rightarrow> netbuf \<Rightarrow> (status \<times> nat option \<times> netbuf) option" where
  "netbuf_get bytes nb = do {
     (pkt, pm) \<leftarrow> pakman_get_packet (packet_manager nb) (ucast bytes);
     Some (if pkt \<noteq> None then EOK else ENOBUFS, pkt, nb\<lparr>packet_manager := pm\<rparr>) }"

definition netbuf_put :: "nat option \<Rightarrow> netbuf \<Rightarrow> (status \<times> netbuf) option" where
  "netbuf_put pkt nb =
     (if pkt = None then Some (EINVAL, nb)
      else do { (r, pm) \<leftarrow> pakman_put_packet (packet_manager nb) pkt; Some (r, nb\<lparr>packet_manager := pm\<rparr>) })"

definition netbuf_in :: "nat option \<Rightarrow> netbuf \<times> barriers \<Rightarrow> (status \<times> netbuf \<times> barriers) option" where
  "netbuf_in pkt nbs =
     (case nbs of (nb, bs) \<Rightarrow>
      if pkt = None then Some (EINVAL, nb, bs)
      else if cbuffer_is_full (in_cb nb) then Some (ENOBUFS, nb, bs)
      else do {
        q \<leftarrow> arr_set (in_queue nb) (unat (cb_tail (in_cb nb))) pkt;
        let nb = nb\<lparr>in_queue := q\<rparr>;
        let nb = nb\<lparr>in_cb := cbuffer_add (in_cb nb)\<rparr>;
        let bs = snd (barrier_open (netb nb) bs);
        Some (EOK, nb, bs) })"

definition netbuf_out :: "nat option \<Rightarrow> nat option \<Rightarrow> netbuf \<times> barriers \<Rightarrow> (status \<times> netbuf \<times> barriers) option" where
  "netbuf_out pkt intf nbs =
     (case nbs of (nb, bs) \<Rightarrow>
      if pkt = None \<or> intf = None then Some (EINVAL, nb, bs)
      else if cbuffer_is_full (out_cb nb) then Some (ENOBUFS, nb, bs)
      else do {
        q \<leftarrow> arr_set (out_queue nb) (unat (cb_tail (out_cb nb))) (pkt, intf);
        let nb = nb\<lparr>out_queue := q\<rparr>;
        let nb = nb\<lparr>out_cb := cbuffer_add (out_cb nb)\<rparr>;
        let bs = snd (barrier_open (netb nb) bs);
        Some (EOK, nb, bs) })"

text \<open>\<open>ptr\<close>: the pointer the packet is stored through is not null.\<close>

definition netbuf_process_in :: "bool \<Rightarrow> netbuf \<Rightarrow> (status \<times> nat option \<times> netbuf) option" where
  "netbuf_process_in ptr nb =
     (if \<not> ptr then Some (EINVAL, None, nb)
      else if cbuffer_is_empty (in_cb nb) then Some (EAGAIN, None, nb)
      else do {
        pkt \<leftarrow> arr_get (in_queue nb) (unat (cb_head (in_cb nb)));
        Some (EOK, pkt, nb\<lparr>in_cb := cbuffer_remove (in_cb nb)\<rparr>) })"

definition netbuf_process_out :: "bool \<Rightarrow> bool \<Rightarrow> netbuf \<Rightarrow> (status \<times> (nat option \<times> nat option) \<times> netbuf) option" where
  "netbuf_process_out ptr iptr nb =
     (if \<not> ptr \<or> \<not> iptr then Some (EINVAL, (None, None), nb)
      else if cbuffer_is_empty (out_cb nb) then Some (EAGAIN, (None, None), nb)
      else do {
        e \<leftarrow> arr_get (out_queue nb) (unat (cb_head (out_cb nb)));
        Some (EOK, e, nb\<lparr>out_cb := cbuffer_remove (out_cb nb)\<rparr>) })"

text \<open>\<open>netbuf_wait\<close>: the call up to the point where it returns or sleeps, and the rest of it, run on the way out in both cases.\<close>

definition netbuf_wait_close :: "netbuf \<Rightarrow> barriers \<Rightarrow> barriers" where
  "netbuf_wait_close nb bs = snd (barrier_close (netb nb) bs)"

definition netbuf_wait_enter :: "u64 \<Rightarrow> netbuf \<Rightarrow> barriers \<times> sched \<Rightarrow> (barriers \<times> sched) entry option" where
  "netbuf_wait_enter now nb bss = do {
     r \<leftarrow> wait_for_barrier_enter now (netb nb) bss;
     Some (case r of
        Return st (bs, s) \<Rightarrow> Return EOK (netbuf_wait_close nb bs, s)
      | Blocked x \<Rightarrow> Blocked x) }"

text \<open>
  A frame is copied to the data of a packet: \<open>mem\<close> is the storage from the data on, as far as it goes. The tag behind the two addresses
  selects the position of the payload.
\<close>

definition ETHERTYPE_8021Q :: "u8 \<times> u8" where "ETHERTYPE_8021Q = (0x81, 0x00)"
definition ETHERTYPE_SVLAN :: "u8 \<times> u8" where "ETHERTYPE_SVLAN = (0x88, 0xA8)"

definition netbuf_copy_eth :: "u8 list option \<Rightarrow> packet_int option \<Rightarrow> u32 \<Rightarrow> u8 list \<Rightarrow> (status \<times> packet_int option \<times> u8 list) option" where
  "netbuf_copy_eth src pkt bytes mem =
     (case (src, pkt) of
        (Some s, Some p) \<Rightarrow>
          if bytes = 0 then Some (EINVAL, pkt, mem)
          else if length s < unat bytes \<or> length mem < unat bytes then None
          else do {
            let mem = take (unat bytes) s @ drop (unat bytes) mem;
            t0 \<leftarrow> arr_get mem 12;
            t1 \<leftarrow> arr_get mem 13;
            let p = p\<lparr>pk_payload_start := pk_data p\<rparr>;
            let p = p\<lparr>pk_payload_cursor := pk_data p +
              (if (t0, t1) = ETHERTYPE_SVLAN then 22 else if (t0, t1) = ETHERTYPE_8021Q then 18 else 14)\<rparr>;
            Some (EOK, Some (p\<lparr>pk_payload_size := ucast bytes\<rparr>), mem) }
      | _ \<Rightarrow> Some (EINVAL, pkt, mem))"

section \<open>Statistics\<close>

datatype net_stats_err = NETSTATS_RUNT | NETSTATS_LONG | NETSTATS_CRC | NETSTATS_OTHER

record net_stats =
  tx_bytes :: u64
  rx_bytes :: u64
  tx_packets :: u64
  rx_packets :: u64
  rx_err_packets :: u64
  rx_runt_packets :: u64
  rx_long_packets :: u64
  rx_crc_err_packets :: u64
  tx_err_packets :: u64

definition netstats_init :: "net_stats option \<Rightarrow> status \<times> net_stats option" where
  "netstats_init ns =
     (case ns of
        None \<Rightarrow> (EINVAL, None)
      | Some n \<Rightarrow> (EOK, Some \<lparr>tx_bytes = 0, rx_bytes = 0, tx_packets = 0, rx_packets = 0, rx_err_packets = 0, rx_runt_packets = 0,
          rx_long_packets = 0, rx_crc_err_packets = 0, tx_err_packets = 0\<rparr>))"

definition netstats_update_rx :: "net_stats option \<Rightarrow> u32 \<Rightarrow> status \<times> net_stats option" where
  "netstats_update_rx ns bytes =
     (case ns of
        Some n \<Rightarrow> if bytes \<noteq> 0 then (EOK, Some (n\<lparr>rx_bytes := rx_bytes n + ucast bytes, rx_packets := rx_packets n + 1\<rparr>)) else (EINVAL, ns)
      | None \<Rightarrow> (EINVAL, ns))"

definition netstats_update_tx :: "net_stats option \<Rightarrow> u32 \<Rightarrow> status \<times> net_stats option" where
  "netstats_update_tx ns bytes =
     (case ns of
        Some n \<Rightarrow> if bytes \<noteq> 0 then (EOK, Some (n\<lparr>tx_bytes := tx_bytes n + ucast bytes, tx_packets := tx_packets n + 1\<rparr>)) else (EINVAL, ns)
      | None \<Rightarrow> (EINVAL, ns))"

definition netstats_update_rx_err :: "net_stats option \<Rightarrow> u32 \<Rightarrow> net_stats_err \<Rightarrow> status \<times> net_stats option" where
  "netstats_update_rx_err ns bytes err =
     (case ns of
        Some n \<Rightarrow>
          if bytes \<noteq> 0 then
            (let n = n\<lparr>rx_bytes := rx_bytes n + ucast bytes, rx_packets := rx_packets n + 1, rx_err_packets := rx_err_packets n + 1\<rparr> in
             (EOK, Some (case err of
                NETSTATS_RUNT \<Rightarrow> n\<lparr>rx_runt_packets := rx_runt_packets n + 1\<rparr>
              | NETSTATS_LONG \<Rightarrow> n\<lparr>rx_long_packets := rx_long_packets n + 1\<rparr>
              | NETSTATS_CRC \<Rightarrow> n\<lparr>rx_crc_err_packets := rx_crc_err_packets n + 1\<rparr>
              | NETSTATS_OTHER \<Rightarrow> n)))
          else (EINVAL, ns)
      | None \<Rightarrow> (EINVAL, ns))"

definition netstats_update_tx_err :: "net_stats option \<Rightarrow> u32 \<Rightarrow> status \<times> net_stats option" where
  "netstats_update_tx_err ns bytes =
     (case ns of
        Some n \<Rightarrow>
          if bytes \<noteq> 0
          then (EOK, Some (n\<lparr>tx_bytes := tx_bytes n + ucast bytes, tx_packets := tx_packets n + 1, tx_err_packets := tx_err_packets n + 1\<rparr>))
          else (EINVAL, ns)
      | None \<Rightarrow> (EINVAL, ns))"

section \<open>Queues of packets\<close>

text \<open>What the drivers, the applications and the network thread rely on: a bounded queue, first in first out.\<close>

primrec put_all :: "('e \<Rightarrow> 's \<Rightarrow> (status \<times> 's) option) \<Rightarrow> 'e list \<Rightarrow> 's \<Rightarrow> 's option" where
  "put_all put [] s = Some s"
| "put_all put (e # es) s = do { (r, s') \<leftarrow> put e s; if r = EOK then put_all put es s' else None }"

primrec get_all :: "('s \<Rightarrow> (status \<times> 'e \<times> 's) option) \<Rightarrow> nat \<Rightarrow> 's \<Rightarrow> ('e list \<times> 's) option" where
  "get_all get 0 s = Some ([], s)"
| "get_all get (Suc n) s = do { (r, e, s') \<leftarrow> get s; if r = EOK then do { (es, s'') \<leftarrow> get_all get n s'; Some (e # es, s'') } else None }"

locale packet_queue =
  fixes put :: "'e \<Rightarrow> 's \<Rightarrow> (status \<times> 's) option"
    and get :: "'s \<Rightarrow> (status \<times> 'e \<times> 's) option"
    and contents :: "'s \<Rightarrow> 'e list"
    and room :: "'s \<Rightarrow> nat"
    and ok :: "'s \<Rightarrow> bool"
    and valid :: "'e \<Rightarrow> bool"
  assumes put_room: "ok s \<Longrightarrow> valid e \<Longrightarrow> length (contents s) < room s \<Longrightarrow>
      \<exists>s'. put e s = Some (EOK, s') \<and> ok s' \<and> contents s' = contents s @ [e] \<and> room s' = room s"
    and put_full: "ok s \<Longrightarrow> valid e \<Longrightarrow> \<not> length (contents s) < room s \<Longrightarrow> put e s = Some (ENOBUFS, s)"
    and get_first: "ok s \<Longrightarrow> contents s = e # es \<Longrightarrow> \<exists>s'. get s = Some (EOK, e, s') \<and> ok s' \<and> contents s' = es \<and> room s' = room s"
    and get_empty: "ok s \<Longrightarrow> contents s = [] \<Longrightarrow> \<exists>e. get s = Some (EAGAIN, e, s)"
begin

lemma put_all_ok:
  "ok s \<Longrightarrow> list_all valid es \<Longrightarrow> length (contents s) + length es \<le> room s \<Longrightarrow>
   \<exists>s'. put_all put es s = Some s' \<and> ok s' \<and> contents s' = contents s @ es \<and> room s' = room s"
proof (induction es arbitrary: s)
  case (Cons e es)
  then obtain s' where s': "put e s = Some (EOK, s')" "ok s'" "contents s' = contents s @ [e]" "room s' = room s"
    using put_room [of s e] by auto
  then show ?case using Cons.IH [of s'] Cons.prems by simp
qed simp

lemma get_all_ok:
  "ok s \<Longrightarrow> contents s = es @ rest \<Longrightarrow> \<exists>s'. get_all get (length es) s = Some (es, s') \<and> ok s' \<and> contents s' = rest \<and> room s' = room s"
proof (induction es arbitrary: s)
  case (Cons e es)
  then obtain s' where s': "get s = Some (EOK, e, s')" "ok s'" "contents s' = es @ rest" "room s' = room s"
    using get_first [of s e "es @ rest"] by auto
  then show ?case using Cons.IH [of s'] by auto
qed simp

text \<open>What is put comes out, in the order in which it went in, and only then what came later.\<close>

lemma fifo:
  assumes "ok s" "list_all valid es" "length (contents s) + length es \<le> room s"
  shows "\<exists>s1 s2. put_all put es s = Some s1 \<and> get_all get (length (contents s) + length es) s1 = Some (contents s @ es, s2) \<and>
    ok s2 \<and> contents s2 = []"
  using put_all_ok [OF assms] get_all_ok [of _ "contents s @ es" "[]"] by fastforce

end

definition ring_ok :: "cbuffer \<Rightarrow> 'a list \<Rightarrow> bool" where
  "ring_ok c q \<longleftrightarrow> cb_ok c \<and> length q = nsize c \<and> nused c + 2 \<le> nsize c"

definition nb_ok :: "netbuf \<Rightarrow> bool" where
  "nb_ok nb \<longleftrightarrow> ring_ok (in_cb nb) (in_queue nb) \<and> ring_ok (out_cb nb) (out_queue nb)"

definition inbound :: "netbuf \<Rightarrow> nat option list" where
  "inbound nb = ring_contents (in_cb nb) (in_queue nb)"

definition outbound :: "netbuf \<Rightarrow> (nat option \<times> nat option) list" where
  "outbound nb = ring_contents (out_cb nb) (out_queue nb)"

lemma is_full_nused: "cb_ok c \<Longrightarrow> cbuffer_is_full c \<longleftrightarrow> nsize c = nused c + 2"
  using free_space_nused [of c] nused_less [of c] by (auto simp: cbuffer_is_full_def word_unat_eq_iff)

lemma ring_ok_push:
  assumes "ring_ok c q" "\<not> cbuffer_is_full c"
  shows "arr_set q (unat (cb_tail c)) e = Some (q[ntail c := e])" "ring_ok (cbuffer_add c) (q[ntail c := e])"
    "ring_contents (cbuffer_add c) (q[ntail c := e]) = ring_contents c q @ [e]"
proof -
  have c: "cb_ok c" "length q = nsize c" "nused c + 2 < nsize c" using assms by (auto simp: ring_ok_def is_full_nused)
  then show "arr_set q (unat (cb_tail c)) e = Some (q[ntail c := e])" by (simp add: cb_ok_nat)
  show "ring_ok (cbuffer_add c) (q[ntail c := e])" using c by (simp add: ring_ok_def cb_ok_add nused_add)
  show "ring_contents (cbuffer_add c) (q[ntail c := e]) = ring_contents c q @ [e]" using c by (intro ring_push) simp_all
qed

lemma ring_ok_pop:
  assumes "ring_ok c q" "ring_contents c q = e # es"
  shows "\<not> cbuffer_is_empty c" "arr_get q (unat (cb_head c)) = Some e" "ring_ok (cbuffer_remove c) q" "ring_contents (cbuffer_remove c) q = es"
proof -
  have c: "cb_ok c" "length q = nsize c" "nused c + 2 \<le> nsize c" using assms(1) by (auto simp: ring_ok_def)
  have n: "0 < nused c" using assms(2) length_ring_contents [of c q] by simp
  show "\<not> cbuffer_is_empty c" using n c(1) by (simp add: is_empty_nused)
  note pop = ring_pop [OF c(1) n, of q]
  show "arr_get q (unat (cb_head c)) = Some e" using c pop assms(2) by (simp add: cb_ok_nat)
  show "ring_ok (cbuffer_remove c) q" using c n by (simp add: ring_ok_def cb_ok_remove nused_remove)
  show "ring_contents (cbuffer_remove c) q = es" using pop assms(2) by simp
qed

lemma ring_contents_empty: "ring_ok c q \<Longrightarrow> ring_contents c q = [] \<longleftrightarrow> cbuffer_is_empty c"
  using length_ring_contents [of c q] by (auto simp: ring_ok_def is_empty_nused simp flip: length_0_conv)

lemma ring_room: "ring_ok c q \<Longrightarrow> nused c < nsize c - 2 \<longleftrightarrow> \<not> cbuffer_is_full c"
  by (auto simp: ring_ok_def is_full_nused)

interpretation inq: packet_queue netbuf_in
  "\<lambda>(nb, bs). map_option (\<lambda>(r, p, nb'). (r, p, nb', bs)) (netbuf_process_in True nb)"
  "\<lambda>(nb, bs). inbound nb" "\<lambda>(nb, bs). nsize (in_cb nb) - 2" "\<lambda>(nb, bs). nb_ok nb" "\<lambda>e. e \<noteq> None"
proof (unfold_locales, goal_cases)
  case (1 s e)
  then show ?case using ring_ok_push [of "in_cb (fst s)" "in_queue (fst s)" e]
    by (cases s) (auto simp: nb_ok_def inbound_def netbuf_in_def dest: ring_room)
next
  case (2 s e)
  then show ?case by (cases s) (auto simp: nb_ok_def inbound_def netbuf_in_def dest: ring_room)
next
  case (3 s e es)
  then show ?case using ring_ok_pop [of "in_cb (fst s)" "in_queue (fst s)" e es]
    by (cases s) (auto simp: nb_ok_def inbound_def netbuf_process_in_def)
next
  case (4 s)
  then show ?case by (cases s) (auto simp: nb_ok_def inbound_def netbuf_process_in_def ring_contents_empty)
qed

interpretation outq: packet_queue "\<lambda>(p, i). netbuf_out p i"
  "\<lambda>(nb, bs). map_option (\<lambda>(r, p, nb'). (r, p, nb', bs)) (netbuf_process_out True True nb)"
  "\<lambda>(nb, bs). outbound nb" "\<lambda>(nb, bs). nsize (out_cb nb) - 2" "\<lambda>(nb, bs). nb_ok nb" "\<lambda>(p, i). p \<noteq> None \<and> i \<noteq> None"
proof (unfold_locales, goal_cases)
  case (1 s e)
  then show ?case using ring_ok_push [of "out_cb (fst s)" "out_queue (fst s)" e]
    by (cases s; cases e) (auto simp: nb_ok_def outbound_def netbuf_out_def dest: ring_room)
next
  case (2 s e)
  then show ?case by (cases s; cases e) (auto simp: nb_ok_def outbound_def netbuf_out_def dest: ring_room)
next
  case (3 s e es)
  then show ?case using ring_ok_pop [of "out_cb (fst s)" "out_queue (fst s)" e es]
    by (cases s) (auto simp: nb_ok_def outbound_def netbuf_process_out_def)
next
  case (4 s)
  then show ?case by (cases s) (auto simp: nb_ok_def outbound_def netbuf_process_out_def ring_contents_empty)
qed

section \<open>Initialisation\<close>

lemma init_ring: "8 \<le> unat n \<Longrightarrow>
    ring_ok (cbuffer_init n) (replicate (unat n) x) \<and> ring_contents (cbuffer_init n) (replicate (unat n) x) = [] \<and> nsize (cbuffer_init n) = unat n"
  by (auto simp: ring_ok_def cb_ok_def cbuffer_init_def word_less_nat_alt nused_def ring_contents_def)

lemma netbuf_init_ok:
  assumes "netbuf_init bytes packets inq outq hdr dsc stg bar (nb, bs) = (EOK, nb', bs')"
  shows "nb_ok nb' \<and> inbound nb' = [] \<and> outbound nb' = [] \<and> nsize (in_cb nb') = unat packets \<and> nsize (out_cb nb') = unat packets \<and> netb nb' = bar"
proof -
  have "8 \<le> unat packets" using assms by (auto simp: netbuf_init_def word_less_nat_alt split: if_splits)
  from init_ring [OF this, of None] init_ring [OF this, of "(None, None)"] show ?thesis
    using assms by (auto simp: netbuf_init_def nb_ok_def inbound_def outbound_def barrier_create_def Let_def split: if_splits prod.splits option.splits)
qed

section \<open>Properties\<close>

text \<open>The two queues of the network stack are bounded queues, first in first out: up to two packets less than they have slots, whatever the drivers
  put into the queue of incoming packets is returned by \<open>netbuf_process_in\<close> in the order of arrival, and likewise for the packets and
  interfaces of outgoing traffic.\<close>

theorem netbuf_queues_fifo:
  assumes "nb_ok nb"
  shows "(length (inbound nb) + length arrivals \<le> nsize (in_cb nb) - 2 \<and> None \<notin> set arrivals \<longrightarrow>
      (\<exists>s1 s2. put_all netbuf_in arrivals (nb, bs) = Some s1 \<and>
        get_all (\<lambda>(nb, bs). map_option (\<lambda>(r, p, nb'). (r, p, nb', bs)) (netbuf_process_in True nb)) (length (inbound nb) + length arrivals) s1 =
          Some (inbound nb @ arrivals, s2) \<and> nb_ok (fst s2) \<and> inbound (fst s2) = [])) \<and>
    (length (outbound nb) + length sends \<le> nsize (out_cb nb) - 2 \<and> (\<forall>(p, i) \<in> set sends. p \<noteq> None \<and> i \<noteq> None) \<longrightarrow>
      (\<exists>s1 s2. put_all (\<lambda>(p, i). netbuf_out p i) sends (nb, bs) = Some s1 \<and>
        get_all (\<lambda>(nb, bs). map_option (\<lambda>(r, p, nb'). (r, p, nb', bs)) (netbuf_process_out True True nb)) (length (outbound nb) + length sends) s1 =
          Some (outbound nb @ sends, s2) \<and> nb_ok (fst s2) \<and> outbound (fst s2) = []))"
proof -
  have "None \<notin> set arrivals \<longleftrightarrow> list_all (\<lambda>e. e \<noteq> None) arrivals" by (auto simp: list_all_iff) (metis not_None_eq)
  then show ?thesis
    using inq.fifo [of "(nb, bs)" arrivals] outq.fifo [of "(nb, bs)" sends] assms by (auto simp: list_all_iff split_beta)
qed

text \<open>Eight packets of one cache line each.\<close>

definition no_bars :: barriers where
  "no_bars = \<lparr>bar_list = [], bar_mem = (\<lambda>_. \<lparr>bar_ids = [], bar_name = [], bar_flags = 0\<rparr>)\<rparr>"

definition small_net :: "netbuf \<times> barriers" where
  "small_net = snd (netbuf_init 512 8 True True True True (Some 0x1000) (Some 1)
     (\<lparr>netb = None, packet_manager = None, in_cb = cbuffer_init 0, out_cb = cbuffer_init 0, in_queue = [], out_queue = []\<rparr>, no_bars))"

lemma small_net_init:
  "netbuf_init 512 8 True True True True (Some 0x1000) (Some 1)
     (\<lparr>netb = None, packet_manager = None, in_cb = cbuffer_init 0, out_cb = cbuffer_init 0, in_queue = [], out_queue = []\<rparr>, no_bars) =
   (EOK, fst small_net, snd small_net)"
  by (simp add: small_net_def netbuf_init_def init_pakman_def barrier_create_def CACHE_LINE_def ALNC_def no_bars_def Let_def)

lemmas small_net_facts = netbuf_init_ok [OF small_net_init]

theorem netbuf_queues_fifo_witness:
  "\<exists>s1 s2. put_all netbuf_in [Some 0, Some 1] small_net = Some s1 \<and>
     get_all (\<lambda>(nb, bs). map_option (\<lambda>(r, p, nb'). (r, p, nb', bs)) (netbuf_process_in True nb)) (length [Some 0, Some 1 :: nat option]) s1 =
       Some ([Some 0, Some 1], s2)"
proof -
  have "nb_ok (fst small_net)" "inbound (fst small_net) = []" "nsize (in_cb (fst small_net)) = 8" using small_net_facts by simp_all
  then show ?thesis
    using netbuf_queues_fifo [of "fst small_net" "[Some 0, Some 1]" "snd small_net" "[]"]
    by (simp del: put_all.simps get_all.simps) (elim conjE exE, intro exI conjI, assumption+)
qed

end
