(* ===== verification/NetCore.thy ===== *)
theory NetCore
  imports NetBuffers
begin

text \<open>
  The network thread, \<^verbatim>\<open>src/applications/network/network_core.c\<close>: the loop that empties the two queues and returns the packets to the pool, and the
  interleaving of the thread with the drivers and applications that fill the queues. A call of \<open>netbuf_in\<close> or \<open>netbuf_out\<close> and each half of
  a round are single steps: the code takes no lock between adding to a queue and opening the barrier, so an interrupt between the two is not
  modelled; allocation of packets from the pool does not touch the queues and is no step. \<open>network_core_process_in\<close> only prints the type of a
  packet and is left out.
\<close>

section \<open>The loop over the queues\<close>

text \<open>One half of a round: a packet that was found is put back.\<close>

definition drain_in :: "netbuf \<Rightarrow> (bool \<times> netbuf) option" where
  "drain_in nb = do {
     (r, pkt, nb) \<leftarrow> netbuf_process_in True nb;
     if r = EOK then do { (_, nb) \<leftarrow> netbuf_put pkt nb; Some (True, nb) } else Some (False, nb) }"

definition drain_out :: "netbuf \<Rightarrow> (bool \<times> netbuf) option" where
  "drain_out nb = do {
     (r, (pkt, intf), nb) \<leftarrow> netbuf_process_out True True nb;
     if r = EOK then do { (_, nb) \<leftarrow> netbuf_put pkt nb; Some (True, nb) } else Some (False, nb) }"

partial_function (option) network_drain :: "netbuf \<Rightarrow> netbuf option" where
  "network_drain nb = do {
     (rin, nb) \<leftarrow> drain_in nb;
     (rout, nb) \<leftarrow> drain_out nb;
     if \<not> rin \<and> \<not> rout then Some nb else network_drain nb }"

section \<open>The thread and its environment\<close>

text \<open>Where the thread stands, with the results of the two halves of the round.\<close>

datatype pc = AtWait | AtClose | AtIn | AtOut bool | AtTest bool bool

type_synonym thread_state = "pc \<times> netbuf \<times> barriers"

definition open_barrier :: "netbuf \<Rightarrow> barriers \<Rightarrow> bool" where
  "open_barrier nb bs = (case netb nb of None \<Rightarrow> False | Some h \<Rightarrow> bar_flags (bar_mem bs h) AND BARRIER_OPEN \<noteq> 0)"

inductive net_step :: "thread_state \<Rightarrow> thread_state \<Rightarrow> bool" where
  wake: "open_barrier nb bs \<Longrightarrow> net_step (AtWait, nb, bs) (AtClose, nb, bs)"
| close: "net_step (AtClose, nb, bs) (AtIn, nb, netbuf_wait_close nb bs)"
| take_in: "drain_in nb = Some (r, nb') \<Longrightarrow> net_step (AtIn, nb, bs) (AtOut r, nb', bs)"
| take_out: "drain_out nb = Some (q, nb') \<Longrightarrow> net_step (AtOut r, nb, bs) (AtTest r q, nb', bs)"
| test: "net_step (AtTest r q, nb, bs) (if \<not> r \<and> \<not> q then AtWait else AtIn, nb, bs)"
| arrive: "netbuf_in pkt (nb, bs) = Some (st, nb', bs') \<Longrightarrow> net_step (c, nb, bs) (c, nb', bs')"
| send: "netbuf_out pkt intf (nb, bs) = Some (st, nb', bs') \<Longrightarrow> net_step (c, nb, bs) (c, nb', bs')"

inductive reachable :: "thread_state \<Rightarrow> thread_state \<Rightarrow> bool" for s0 where
  start: "reachable s0 s0"
| more: "reachable s0 s \<Longrightarrow> net_step s s' \<Longrightarrow> reachable s0 s'"

section \<open>Emptying the queues\<close>

text \<open>The packets of the pool that are in use, the oldest first.\<close>

definition pool_order :: "pakman \<Rightarrow> nat list" where
  "pool_order pk = ring_contents (ring_of pk) [0..<length (pkts pk)]"

definition pkts_ok :: "netbuf \<Rightarrow> bool" where
  "pkts_ok nb = (case packet_manager nb of None \<Rightarrow> True | Some pk \<Rightarrow> cb_ok (ring_of pk) \<and> length (pkts pk) = nsize (ring_of pk))"

lemma put_total:
  assumes "pkts_ok nb"
  shows "\<exists>r nb'. netbuf_put p nb = Some (r, nb') \<and> pkts_ok nb' \<and> in_cb nb' = in_cb nb \<and> out_cb nb' = out_cb nb \<and>
    in_queue nb' = in_queue nb \<and> out_queue nb' = out_queue nb \<and> netb nb' = netb nb"
proof (cases "packet_manager nb")
  case None
  then show ?thesis using assms by (auto simp: netbuf_put_def pakman_put_packet_def pkts_ok_def split: option.splits)
next
  case (Some pk)
  then have c: "cb_ok (ring_of pk)" "length (pkts pk) = nsize (ring_of pk)" using assms by (simp_all add: pkts_ok_def)
  have "unat (pkts_head pk) < length (pkts pk)" using c by (auto simp: cb_ok_nat) (simp add: ring_of_def)
  moreover from this c have "packets_number pk \<noteq> 0" by auto
  ultimately show ?thesis
    using Some c cb_ok_remove [OF c(1)] ring_advance(2) [OF c(1)]
    by (cases p) (auto simp: netbuf_put_def pakman_put_packet_def pkts_ok_def)
qed

lemma put_oldest:
  assumes "packet_manager nb = Some pk" "pkts_ok nb" "pool_order pk = i # is"
  shows "\<exists>nb' pk'. netbuf_put (Some i) nb = Some (EOK, nb') \<and> packet_manager nb' = Some pk' \<and> pool_order pk' = is"
proof -
  have c: "cb_ok (ring_of pk)" "length (pkts pk) = nsize (ring_of pk)" using assms(1,2) by (simp_all add: pkts_ok_def)
  have h: "unat (pkts_head pk) < length (pkts pk)" "nhead (ring_of pk) = unat (pkts_head pk)" using c by (auto simp: cb_ok_nat) (simp_all add: ring_of_def)
  then have n0: "packets_number pk \<noteq> 0" using c by auto
  have n: "0 < nused (ring_of pk)" using assms(3) length_ring_contents [of "ring_of pk" "[0..<length (pkts pk)]"] by (simp add: pool_order_def)
  have "i = unat (pkts_head pk)" "is = ring_contents (cbuffer_remove (ring_of pk)) [0..<length (pkts pk)]"
    using ring_pop [OF c(1) n, of "[0..<length (pkts pk)]"] assms(3) h by (simp_all add: pool_order_def)
  then show ?thesis
    using h n0 ring_advance(2) [OF c(1)] by (simp add: netbuf_put_def assms(1) pakman_put_packet_def pool_order_def)
qed

lemma drain_in_empty: "nb_ok nb \<Longrightarrow> inbound nb = [] \<Longrightarrow> drain_in nb = Some (False, nb)"
  by (simp add: drain_in_def netbuf_process_in_def nb_ok_def inbound_def ring_contents_empty)

lemma drain_out_empty: "nb_ok nb \<Longrightarrow> outbound nb = [] \<Longrightarrow> drain_out nb = Some (False, nb)"
  by (simp add: drain_out_def netbuf_process_out_def nb_ok_def outbound_def ring_contents_empty)

lemma drain_in_first:
  assumes "nb_ok nb" "pkts_ok nb" "inbound nb = p # ps"
  shows "\<exists>r nb'. drain_in nb = Some (True, nb') \<and> netbuf_put p (nb\<lparr>in_cb := cbuffer_remove (in_cb nb)\<rparr>) = Some (r, nb') \<and>
    nb_ok nb' \<and> pkts_ok nb' \<and> inbound nb' = ps \<and> outbound nb' = outbound nb \<and> netb nb' = netb nb"
proof -
  define nb1 where "nb1 = nb\<lparr>in_cb := cbuffer_remove (in_cb nb)\<rparr>"
  note pop = ring_ok_pop [of "in_cb nb" "in_queue nb" p ps]
  have "pkts_ok nb1" using assms(2) by (simp add: nb1_def pkts_ok_def)
  then obtain r nb' where put: "netbuf_put p nb1 = Some (r, nb')" "pkts_ok nb'" "in_cb nb' = in_cb nb1" "out_cb nb' = out_cb nb1"
    "in_queue nb' = in_queue nb1" "out_queue nb' = out_queue nb1" "netb nb' = netb nb1"
    using put_total [of nb1 p] by auto
  have "drain_in nb = Some (True, nb')" using assms pop put(1) by (simp add: drain_in_def netbuf_process_in_def nb_ok_def inbound_def nb1_def)
  then show ?thesis using assms pop put by (auto simp: nb1_def nb_ok_def inbound_def outbound_def)
qed

lemma drain_out_first:
  assumes "nb_ok nb" "pkts_ok nb" "outbound nb = e # es"
  shows "\<exists>r nb'. drain_out nb = Some (True, nb') \<and> netbuf_put (fst e) (nb\<lparr>out_cb := cbuffer_remove (out_cb nb)\<rparr>) = Some (r, nb') \<and>
    nb_ok nb' \<and> pkts_ok nb' \<and> outbound nb' = es \<and> inbound nb' = inbound nb \<and> netb nb' = netb nb"
proof -
  obtain p i where e: "e = (p, i)" by (cases e)
  define nb1 where "nb1 = nb\<lparr>out_cb := cbuffer_remove (out_cb nb)\<rparr>"
  note pop = ring_ok_pop [of "out_cb nb" "out_queue nb" e es]
  have "pkts_ok nb1" using assms(2) by (simp add: nb1_def pkts_ok_def)
  then obtain r nb' where put: "netbuf_put p nb1 = Some (r, nb')" "pkts_ok nb'" "in_cb nb' = in_cb nb1" "out_cb nb' = out_cb nb1"
    "in_queue nb' = in_queue nb1" "out_queue nb' = out_queue nb1" "netb nb' = netb nb1"
    using put_total [of nb1 p] by auto
  have "drain_out nb = Some (True, nb')" using assms pop put(1) e by (simp add: drain_out_def netbuf_process_out_def nb_ok_def outbound_def nb1_def)
  then show ?thesis using assms pop put e by (auto simp: nb1_def nb_ok_def inbound_def outbound_def)
qed

text \<open>The halves of a round in any state.\<close>

lemma drain_in_total:
  assumes "nb_ok nb" "pkts_ok nb"
  shows "\<exists>nb'. drain_in nb = Some (inbound nb \<noteq> [], nb') \<and> nb_ok nb' \<and> pkts_ok nb' \<and> inbound nb' = tl (inbound nb) \<and>
    outbound nb' = outbound nb \<and> netb nb' = netb nb"
  using assms drain_in_empty [of nb] drain_in_first [of nb] by (cases "inbound nb") fastforce+

lemma drain_out_total:
  assumes "nb_ok nb" "pkts_ok nb"
  shows "\<exists>nb'. drain_out nb = Some (outbound nb \<noteq> [], nb') \<and> nb_ok nb' \<and> pkts_ok nb' \<and> outbound nb' = tl (outbound nb) \<and>
    inbound nb' = inbound nb \<and> netb nb' = netb nb"
  using assms drain_out_empty [of nb] drain_out_first [of nb] by (cases "outbound nb") fastforce+

lemma drain_returns:
  assumes "nb_ok nb" "pkts_ok nb"
  shows "\<exists>nb'. network_drain nb = Some nb' \<and> nb_ok nb' \<and> pkts_ok nb' \<and> inbound nb' = [] \<and> outbound nb' = []"
  using assms
proof (induction "length (inbound nb) + length (outbound nb)" arbitrary: nb rule: less_induct)
  case less
  obtain nb1 where 1: "drain_in nb = Some (inbound nb \<noteq> [], nb1)" "nb_ok nb1" "pkts_ok nb1" "inbound nb1 = tl (inbound nb)" "outbound nb1 = outbound nb"
    using drain_in_total [OF less.prems] by auto
  obtain nb2 where 2: "drain_out nb1 = Some (outbound nb \<noteq> [], nb2)" "nb_ok nb2" "pkts_ok nb2" "outbound nb2 = tl (outbound nb)" "inbound nb2 = tl (inbound nb)"
    using drain_out_total [OF 1(2,3)] 1(4,5) by auto
  show ?case
  proof (cases "inbound nb = [] \<and> outbound nb = []")
    case True
    then show ?thesis using 1 2 by (subst network_drain.simps) simp
  next
    case False
    then have "length (inbound nb2) + length (outbound nb2) < length (inbound nb) + length (outbound nb)"
      using 2 by (cases "inbound nb"; cases "outbound nb") auto
    then show ?thesis using less.hyps [of nb2] False 1 2 by (subst network_drain.simps) auto
  qed
qed

text \<open>The order in which the thread serves the packets: one of each queue in turn, and the rest of the longer one.\<close>

definition served :: "netbuf \<Rightarrow> nat option list" where
  "served nb = splice (inbound nb) (map fst (outbound nb))"

lemma put_oldest_frame:
  assumes "packet_manager nb = Some pk" "pkts_ok nb" "pool_order pk = i # ids" "netbuf_put (Some i) nb = Some (r, nb')"
  shows "\<exists>pk'. packet_manager nb' = Some pk' \<and> pool_order pk' = ids"
  using put_oldest [OF assms(1-3)] assms(4) by auto

lemma drain_in_releases:
  assumes "nb_ok nb" "pkts_ok nb" "packet_manager nb = Some pk" "served nb = map Some ids" "pool_order pk = ids @ js"
  shows "\<exists>nb' pk' ids'. drain_in nb = Some (inbound nb \<noteq> [], nb') \<and> nb_ok nb' \<and> pkts_ok nb' \<and> inbound nb' = tl (inbound nb) \<and>
    outbound nb' = outbound nb \<and> packet_manager nb' = Some pk' \<and>
    splice (map fst (outbound nb')) (inbound nb') = map Some ids' \<and> pool_order pk' = ids' @ js"
proof (cases "inbound nb")
  case Nil
  then show ?thesis using assms drain_in_empty [of nb] by (simp add: served_def)
next
  case (Cons p ps)
  define nb1 where "nb1 = nb\<lparr>in_cb := cbuffer_remove (in_cb nb)\<rparr>"
  obtain i ids' where i: "ids = i # ids'" "p = Some i" "splice (map fst (outbound nb)) ps = map Some ids'"
    using assms(4) Cons by (cases ids) (auto simp: served_def)
  obtain r nb' where d: "drain_in nb = Some (True, nb')" "netbuf_put (Some i) nb1 = Some (r, nb')"
    "nb_ok nb'" "pkts_ok nb'" "inbound nb' = ps" "outbound nb' = outbound nb"
    using drain_in_first [OF assms(1,2) Cons] i(2) by (auto simp: nb1_def)
  have "packet_manager nb1 = Some pk" "pkts_ok nb1" "pool_order pk = i # ids' @ js" using assms i(1) by (simp_all add: nb1_def pkts_ok_def)
  from put_oldest_frame [OF this d(2)] show ?thesis using d i Cons by auto
qed

lemma drain_out_releases:
  assumes "nb_ok nb" "pkts_ok nb" "packet_manager nb = Some pk" "splice (map fst (outbound nb)) (inbound nb) = map Some ids" "pool_order pk = ids @ js"
  shows "\<exists>nb' pk' ids'. drain_out nb = Some (outbound nb \<noteq> [], nb') \<and> nb_ok nb' \<and> pkts_ok nb' \<and> outbound nb' = tl (outbound nb) \<and>
    inbound nb' = inbound nb \<and> packet_manager nb' = Some pk' \<and> served nb' = map Some ids' \<and> pool_order pk' = ids' @ js"
proof (cases "outbound nb")
  case Nil
  then show ?thesis using assms drain_out_empty [of nb] by (simp add: served_def)
next
  case (Cons e es)
  define nb1 where "nb1 = nb\<lparr>out_cb := cbuffer_remove (out_cb nb)\<rparr>"
  obtain i ids' where i: "ids = i # ids'" "fst e = Some i" "splice (inbound nb) (map fst es) = map Some ids'"
    using assms(4) Cons by (cases ids) auto
  obtain r nb' where d: "drain_out nb = Some (True, nb')" "netbuf_put (Some i) nb1 = Some (r, nb')"
    "nb_ok nb'" "pkts_ok nb'" "outbound nb' = es" "inbound nb' = inbound nb"
    using drain_out_first [OF assms(1,2) Cons] i(2) by (auto simp: nb1_def)
  have "packet_manager nb1 = Some pk" "pkts_ok nb1" "pool_order pk = i # ids' @ js" using assms i(1) by (simp_all add: nb1_def pkts_ok_def)
  from put_oldest_frame [OF this d(2)] show ?thesis using d i Cons by (auto simp: served_def)
qed

lemma drain_releases:
  assumes "nb_ok nb" "pkts_ok nb" "packet_manager nb = Some pk" "served nb = map Some ids" "pool_order pk = ids @ js"
  shows "\<exists>nb' pk'. network_drain nb = Some nb' \<and> packet_manager nb' = Some pk' \<and> pool_order pk' = js"
  using assms
proof (induction "length (inbound nb) + length (outbound nb)" arbitrary: nb pk ids rule: less_induct)
  case less
  obtain nb1 pk1 ids1 where 1: "drain_in nb = Some (inbound nb \<noteq> [], nb1)" "nb_ok nb1" "pkts_ok nb1" "inbound nb1 = tl (inbound nb)"
    "outbound nb1 = outbound nb" "packet_manager nb1 = Some pk1" "splice (map fst (outbound nb1)) (inbound nb1) = map Some ids1" "pool_order pk1 = ids1 @ js"
    using drain_in_releases [OF less.prems] by blast
  obtain nb2 pk2 ids2 where 2: "drain_out nb1 = Some (outbound nb \<noteq> [], nb2)" "nb_ok nb2" "pkts_ok nb2" "outbound nb2 = tl (outbound nb)"
    "inbound nb2 = tl (inbound nb)" "packet_manager nb2 = Some pk2" "served nb2 = map Some ids2" "pool_order pk2 = ids2 @ js"
    using drain_out_releases [OF 1(2,3,6-8)] unfolding 1(4,5) by blast
  show ?case
  proof (cases "inbound nb = [] \<and> outbound nb = []")
    case True
    then have "ids2 = []" using 2(4,5,7) by (simp add: served_def)
    then show ?thesis using True 1 2 by (subst network_drain.simps) simp
  next
    case False
    then have "length (inbound nb2) + length (outbound nb2) < length (inbound nb) + length (outbound nb)"
      using 2 by (cases "inbound nb"; cases "outbound nb") auto
    from less.hyps [OF this 2(2,3,6-8)] show ?thesis using False 1 2 by (subst network_drain.simps) auto
  qed
qed

text \<open>C22: the loop of the network thread ends with both queues empty, whatever they held. When the packets waiting in the two queues, taken in the order in which the
  thread serves them (one of each queue in turn), are the oldest packets in use of the pool in the order in which they were allocated, every one of them
  is returned to the pool and only the packets allocated after them are still in use.\<close>

theorem network_thread_drains:
  assumes "nb_ok nb" "pkts_ok nb"
  shows "\<exists>nb'. network_drain nb = Some nb' \<and> nb_ok nb' \<and> pkts_ok nb' \<and> inbound nb' = [] \<and> outbound nb' = [] \<and>
    (\<forall>pk ids js. packet_manager nb = Some pk \<and> served nb = map Some ids \<and> pool_order pk = ids @ js \<longrightarrow>
      (\<exists>pk'. packet_manager nb' = Some pk' \<and> pool_order pk' = js))"
  using drain_returns [OF assms] drain_releases [OF assms] by fastforce

section \<open>No packet is left waiting\<close>

lemma open_after_open: "netb nb \<noteq> None \<Longrightarrow> open_barrier nb (snd (barrier_open (netb nb) bs))"
  by (auto simp: open_barrier_def barrier_open_def BARRIER_OPEN_def bit_simps intro!: bit_eqI)

lemma netbuf_in_cases:
  assumes "nb_ok nb" "netbuf_in pkt (nb, bs) = Some (st, nb', bs')"
  shows "nb' = nb \<and> bs' = bs \<or>
    nb_ok nb' \<and> packet_manager nb' = packet_manager nb \<and> netb nb' = netb nb \<and> bs' = snd (barrier_open (netb nb) bs)"
  using assms ring_ok_push [of "in_cb nb" "in_queue nb" pkt]
  by (auto simp: netbuf_in_def nb_ok_def inbound_def outbound_def split: if_splits)

lemma netbuf_out_cases:
  assumes "nb_ok nb" "netbuf_out pkt intf (nb, bs) = Some (st, nb', bs')"
  shows "nb' = nb \<and> bs' = bs \<or>
    nb_ok nb' \<and> packet_manager nb' = packet_manager nb \<and> netb nb' = netb nb \<and> bs' = snd (barrier_open (netb nb) bs)"
  using assms ring_ok_push [of "out_cb nb" "out_queue nb" "(pkt, intf)"]
  by (auto simp: netbuf_out_def nb_ok_def inbound_def outbound_def split: if_splits)

text \<open>A queue the thread has seen empty and that is not empty any more has an open barrier.\<close>

fun seen_in :: "pc \<Rightarrow> bool" where
  "seen_in AtWait = True"
| "seen_in (AtOut r) = (\<not> r)"
| "seen_in (AtTest r q) = (\<not> r)"
| "seen_in _ = False"

fun seen_out :: "pc \<Rightarrow> bool" where
  "seen_out AtWait = True"
| "seen_out (AtTest r q) = (\<not> q)"
| "seen_out _ = False"

definition net_inv :: "thread_state \<Rightarrow> bool" where
  "net_inv s = (case s of (c, nb, bs) \<Rightarrow>
     nb_ok nb \<and> pkts_ok nb \<and> netb nb \<noteq> None \<and>
     (seen_in c \<and> inbound nb \<noteq> [] \<longrightarrow> open_barrier nb bs) \<and> (seen_out c \<and> outbound nb \<noteq> [] \<longrightarrow> open_barrier nb bs))"

lemma open_barrier_netb: "netb nb' = netb nb \<Longrightarrow> open_barrier nb' bs = open_barrier nb bs"
  by (simp add: open_barrier_def)

lemma net_inv_step: "net_step s s' \<Longrightarrow> net_inv s \<Longrightarrow> net_inv s'"
proof (induction rule: net_step.induct)
  case (take_in nb r nb' bs)
  then show ?case using drain_in_total [of nb] by (auto simp: net_inv_def)
next
  case (take_out nb q nb' r bs)
  then show ?case using drain_out_total [of nb] open_barrier_netb [of nb' nb bs] by (auto simp: net_inv_def)
next
  case (arrive pkt nb bs st nb' bs' c)
  then show ?case using netbuf_in_cases [of nb pkt bs st nb' bs'] open_after_open [of nb bs] open_barrier_netb [of nb' nb bs']
    by (auto simp: net_inv_def pkts_ok_def)
next
  case (send pkt intf nb bs st nb' bs' c)
  then show ?case using netbuf_out_cases [of nb pkt intf bs st nb' bs'] open_after_open [of nb bs] open_barrier_netb [of nb' nb bs']
    by (auto simp: net_inv_def pkts_ok_def)
qed (auto simp: net_inv_def)

lemma net_inv_reachable: "reachable s0 s \<Longrightarrow> net_inv s0 \<Longrightarrow> net_inv s"
  by (induction rule: reachable.induct) (auto intro: net_inv_step)

text \<open>C21: no packet is left waiting. From a successful \<open>netbuf_init\<close> that leaves the ring of the packet pool well-formed (fewer than 65536 packets),
  however the arrivals from the drivers and the transmissions of the applications are interleaved with the steps of the network thread (each call
  of \<open>netbuf_in\<close> and \<open>netbuf_out\<close> and each half of a round of the thread is one step): when the thread comes to wait and a packet is in one of the
  queues, \<open>netbuf_wait\<close> does not put it to sleep.\<close>

theorem network_thread_never_sleeps_on_packets:
  assumes "netbuf_init bytes packets inq outq hdr dsc stg bar (nb0, bs0) = (EOK, nb1, bs1)" "pkts_ok nb1"
    "reachable (AtWait, nb1, bs1) (AtWait, nb, bs)" "inbound nb \<noteq> [] \<or> outbound nb \<noteq> []"
  shows "netbuf_wait_enter now nb (bs, s) = Some (Return EOK (netbuf_wait_close nb bs, s))"
proof -
  have "bar \<noteq> None" using assms(1) by (auto simp: netbuf_init_def barrier_create_def Let_def split: if_splits prod.splits option.splits)
  then have "net_inv (AtWait, nb1, bs1)" using netbuf_init_ok [OF assms(1)] assms(2) by (simp add: net_inv_def)
  then have "open_barrier nb bs" using net_inv_reachable [OF assms(3)] assms(4) by (auto simp: net_inv_def)
  then show ?thesis by (auto simp: netbuf_wait_enter_def wait_for_barrier_enter_def open_barrier_def split: option.splits)
qed

section \<open>Packets that get lost\<close>

lemma put_refused_nb:
  assumes "packet_manager nb = Some pk" "pkts_ok nb" "pool_order pk = a # rest" "p \<noteq> Some a"
  shows "\<exists>r. netbuf_put p nb = Some (r, nb)"
proof -
  have c: "cb_ok (ring_of pk)" "length (pkts pk) = nsize (ring_of pk)" using assms(1,2) by (simp_all add: pkts_ok_def)
  have n: "0 < nused (ring_of pk)" using assms(3) length_ring_contents [of "ring_of pk" "[0..<length (pkts pk)]"] by (simp add: pool_order_def)
  have "nhead (ring_of pk) < length (pkts pk)" using c by (simp add: cb_ok_nat)
  then have "a = unat (pkts_head pk)"
    using ring_pop [OF c(1) n, of "[0..<length (pkts pk)]"] assms(3) by (simp add: pool_order_def) (simp add: ring_of_def)
  then show ?thesis using assms(1,4) put_refused [of _ pk] by (cases p) (auto simp: netbuf_put_def)
qed

lemma drain_in_refused:
  assumes "nb_ok nb" "pkts_ok nb" "packet_manager nb = Some pk" "pool_order pk = a # rest" "Some a \<notin> set (inbound nb)"
    "drain_in nb = Some (r, nb')"
  shows "packet_manager nb' = Some pk"
proof (cases "inbound nb")
  case Nil
  then show ?thesis using assms drain_in_empty [of nb] by simp
next
  case (Cons p ps)
  let ?nb1 = "nb\<lparr>in_cb := cbuffer_remove (in_cb nb)\<rparr>"
  have "packet_manager ?nb1 = Some pk" "pkts_ok ?nb1" using assms(2,3) by (simp_all add: pkts_ok_def)
  then obtain q where "netbuf_put p ?nb1 = Some (q, ?nb1)" using put_refused_nb [of ?nb1 pk a rest p] assms(4,5) Cons by auto
  then show ?thesis using drain_in_first [OF assms(1,2) Cons] assms(3,6) by auto
qed

lemma drain_out_refused:
  assumes "nb_ok nb" "pkts_ok nb" "packet_manager nb = Some pk" "pool_order pk = a # rest" "Some a \<notin> fst ` set (outbound nb)"
    "drain_out nb = Some (r, nb')"
  shows "packet_manager nb' = Some pk"
proof (cases "outbound nb")
  case Nil
  then show ?thesis using assms drain_out_empty [of nb] by simp
next
  case (Cons e es)
  let ?nb1 = "nb\<lparr>out_cb := cbuffer_remove (out_cb nb)\<rparr>"
  have "packet_manager ?nb1 = Some pk" "pkts_ok ?nb1" using assms(2,3) by (simp_all add: pkts_ok_def)
  moreover have "fst e \<noteq> Some a" using assms(5) Cons by (metis image_eqI list.set_intros(1))
  ultimately obtain q where "netbuf_put (fst e) ?nb1 = Some (q, ?nb1)" using put_refused_nb [of ?nb1 pk a rest "fst e"] assms(4) by auto
  moreover note ring_ok_pop [of "out_cb nb" "out_queue nb" e es]
  ultimately show ?thesis using assms(1,3,6) Cons by (cases e) (auto simp: drain_out_def netbuf_process_out_def nb_ok_def outbound_def)
qed

text \<open>The pool takes packets back in the order in which it gave them out. While the oldest packet in use is still held by an application, the network
  thread empties its queues and returns none of the packets: \<open>netbuf_put\<close> refuses each one with \<open>EPERM\<close>, the thread ignores it, and
  no queue refers to the packets any more.\<close>

theorem packets_lost_behind_the_oldest:
  assumes "nb_ok nb" "pkts_ok nb" "packet_manager nb = Some pk" "pool_order pk = a # rest"
    "Some a \<notin> set (inbound nb)" "Some a \<notin> fst ` set (outbound nb)"
  shows "\<exists>nb'. network_drain nb = Some nb' \<and> inbound nb' = [] \<and> outbound nb' = [] \<and> packet_manager nb' = Some pk"
  using assms
proof (induction "length (inbound nb) + length (outbound nb)" arbitrary: nb rule: less_induct)
  case less
  obtain nb1 where 1: "drain_in nb = Some (inbound nb \<noteq> [], nb1)" "nb_ok nb1" "pkts_ok nb1" "inbound nb1 = tl (inbound nb)" "outbound nb1 = outbound nb"
    using drain_in_total [OF less.prems(1,2)] by auto
  have p1: "packet_manager nb1 = Some pk" using drain_in_refused [OF less.prems(1-5) 1(1)] .
  obtain nb2 where 2: "drain_out nb1 = Some (outbound nb \<noteq> [], nb2)" "nb_ok nb2" "pkts_ok nb2" "outbound nb2 = tl (outbound nb)" "inbound nb2 = tl (inbound nb)"
    using drain_out_total [OF 1(2,3)] 1(4,5) by auto
  have p2: "packet_manager nb2 = Some pk" using drain_out_refused [OF 1(2,3) p1 assms(4) _ 2(1)] less.prems(6) 1(5) by simp
  have sub: "set (tl xs) \<subseteq> set xs" for xs :: "'z list" by (cases xs) auto
  show ?case
  proof (cases "inbound nb = [] \<and> outbound nb = []")
    case True
    then show ?thesis using 1 2 p2 by (subst network_drain.simps) simp
  next
    case False
    then have "length (inbound nb2) + length (outbound nb2) < length (inbound nb) + length (outbound nb)"
      using 2 by (cases "inbound nb"; cases "outbound nb") auto
    moreover have "Some a \<notin> set (inbound nb2)" "Some a \<notin> fst ` set (outbound nb2)"
      using less.prems(5,6) 2(4,5) by (cases "inbound nb"; cases "outbound nb"; auto)+
    ultimately show ?thesis using less.hyps [of nb2] False 1 2 p2 assms(4) by (subst network_drain.simps) auto
  qed
qed

section \<open>Witnesses\<close>

text \<open>An application holds the packet 0, a driver delivers the packet 1.\<close>

definition two_packets :: "netbuf option" where
  "two_packets = do {
     (_, _, nb) \<leftarrow> netbuf_get 64 (fst small_net);
     (_, p, nb) \<leftarrow> netbuf_get 64 nb;
     (_, nb, _) \<leftarrow> netbuf_in p (nb, snd small_net);
     Some nb }"

lemma two_packets_eval: "two_packets = Some (the two_packets) \<and> nb_ok (the two_packets) \<and> pkts_ok (the two_packets) \<and> inbound (the two_packets) = [Some 1] \<and>
   outbound (the two_packets) = [] \<and> map_option pool_order (packet_manager (the two_packets)) = Some [0, 1]"
  by code_simp

text \<open>A driver delivers the packet 0, an application sends the packet 1 and holds the packet 2.\<close>

definition both_queues :: "netbuf option" where
  "both_queues = do {
     (_, p, nb) \<leftarrow> netbuf_get 64 (fst small_net);
     (_, q, nb) \<leftarrow> netbuf_get 64 nb;
     (_, _, nb) \<leftarrow> netbuf_get 64 nb;
     (_, nb, bs) \<leftarrow> netbuf_in p (nb, snd small_net);
     (_, nb, _) \<leftarrow> netbuf_out q (Some 1) (nb, bs);
     Some nb }"

lemma both_queues_eval: "both_queues = Some (the both_queues) \<and> nb_ok (the both_queues) \<and> pkts_ok (the both_queues) \<and>
   served (the both_queues) = [Some 0, Some 1] \<and> map_option pool_order (packet_manager (the both_queues)) = Some [0, 1, 2]"
  by code_simp

theorem network_thread_drains_witness:
  "\<exists>nb' pk'. network_drain (the both_queues) = Some nb' \<and> inbound nb' = [] \<and> outbound nb' = [] \<and>
     packet_manager nb' = Some pk' \<and> pool_order pk' = [2]"
proof -
  obtain pk where "packet_manager (the both_queues) = Some pk" "pool_order pk = [0, 1] @ [2]" using both_queues_eval by auto
  moreover have "served (the both_queues) = map Some [0, 1]" using both_queues_eval by simp
  ultimately show ?thesis using network_thread_drains [of "the both_queues"] both_queues_eval by metis
qed

theorem packets_lost_behind_the_oldest_witness:
  "\<exists>nb'. network_drain (the two_packets) = Some nb' \<and> inbound nb' = [] \<and> map_option pool_order (packet_manager nb') = Some [0, 1]"
proof -
  obtain pk where "packet_manager (the two_packets) = Some pk" "pool_order pk = [0, 1]" using two_packets_eval by auto
  then show ?thesis using packets_lost_behind_the_oldest [of "the two_packets" pk 0 "[1]"] two_packets_eval by auto
qed

definition one_arrival :: "(status \<times> netbuf \<times> barriers) option" where
  "one_arrival = netbuf_in (Some 0) small_net"

lemma one_arrival_eval:
  "map_option fst one_arrival = Some EOK \<and> inbound (fst (snd (the one_arrival))) = [Some 0] \<and> pkts_ok (fst small_net)"
  by code_simp

theorem network_thread_never_sleeps_on_packets_witness:
  "\<exists>nb bs. one_arrival = Some (EOK, nb, bs) \<and> inbound nb = [Some 0] \<and>
    (\<forall>now s. netbuf_wait_enter now nb (bs, s) = Some (Return EOK (netbuf_wait_close nb bs, s)))"
proof -
  obtain nb bs where o: "one_arrival = Some (EOK, nb, bs)" using one_arrival_eval by auto
  have i: "inbound nb = [Some 0]" using one_arrival_eval unfolding o option.sel fst_conv snd_conv by blast
  have "net_step (AtWait, fst small_net, snd small_net) (AtWait, nb, bs)"
    using o by (intro net_step.arrive [of "Some 0" _ _ EOK]) (simp add: one_arrival_def)
  then have r: "reachable (AtWait, fst small_net, snd small_net) (AtWait, nb, bs)" by (rule reachable.more [OF reachable.start])
  have "netbuf_wait_enter now nb (bs, s) = Some (Return EOK (netbuf_wait_close nb bs, s))" for now s
    using network_thread_never_sleeps_on_packets [OF small_net_init _ r] one_arrival_eval i by simp
  then show ?thesis by (intro exI [of _ nb] exI [of _ bs] conjI o i allI)
qed

end
