(* ===== verification/LocalLoop.thy ===== *)
theory LocalLoop
  imports FatDisk
begin

text \<open>
  The loopback interface, \<^verbatim>\<open>src/drivers/lo/local_loop.c\<close>: packets are stored one behind the other in \<open>lo_buffer\<close>, each with a word for its length, and
  read from the head. The buffer is the list of its bytes (with the little-endian words and the blocks of \<open>FatDisk\<close>); an access outside of
  it is \<open>None\<close>, as is a copy that leaves the memory of the receiver. The wake-up of the readers is a flag of the result, their sleep the outcome \<open>Blocked\<close>.
\<close>

section \<open>The driver\<close>

record lo =
  lo_buffer :: "u8 list"
  lo_head :: u32
  lo_tail :: u32

text \<open>\<open>sizeof(lo_buffer)\<close> and the largest packet.\<close>

definition lo_sizeof :: u32 where "lo_sizeof = 4 * (32767 div 4 + 1)"
definition lo_mtu :: u32 where "lo_mtu = 32767"

definition lo_word :: "u8 list \<Rightarrow> nat \<Rightarrow> u32 option" where
  "lo_word b i = (if 4 * i + 4 \<le> length b then Some (of_nat (le_nat (bytes_at b (4 * i) 4))) else None)"

definition lo_store :: "u8 list \<Rightarrow> nat \<Rightarrow> u8 list \<Rightarrow> u8 list option" where
  "lo_store b a ys = (if a + length ys \<le> length b then Some (splice b a ys) else None)"

definition lo_load :: "u8 list \<Rightarrow> nat \<Rightarrow> nat \<Rightarrow> u8 list option" where
  "lo_load b a n = (if a + n \<le> length b then Some (bytes_at b a n) else None)"

definition lo_init :: "u32 \<Rightarrow> status" where
  "lo_init unitno = (if unitno \<noteq> 0 then ENXIO else EOK)"

text \<open>The payload of a packet: its size and the memory at the cursor.\<close>

definition lo_tx :: "(u16 \<times> u8 list) option \<Rightarrow> lo \<Rightarrow> (status \<times> bool \<times> lo) option" where
  "lo_tx buf l =
     (case buf of
        None \<Rightarrow> Some (ENOBUFS, False, l)
      | Some (sz, cursor) \<Rightarrow>
         if lo_sizeof < lo_tail l + (ucast sz + 8) div 4 then Some (ENOBUFS, False, l)
         else if lo_mtu < ucast sz then Some (EPACKSIZE, False, l)
         else do {
           b \<leftarrow> lo_store (lo_buffer l) (4 * unat (lo_tail l)) (le_bytes 4 (unat sz));
           data \<leftarrow> lo_load cursor 0 (unat sz);
           b \<leftarrow> lo_store b (4 * (unat (lo_tail l) + 1)) data;
           Some (EOK, True, l\<lparr>lo_buffer := b, lo_tail := lo_tail l + (ucast sz + 8) div 4\<rparr>) })"

text \<open>The part of \<open>lo_rx\<close> after its loop; \<open>room\<close> is the size of the memory behind \<open>data_payload_start\<close>.\<close>

definition lo_rx_copy :: "nat \<Rightarrow> lo \<Rightarrow> (u8 list \<times> lo) option" where
  "lo_rx_copy room l = do {
     n \<leftarrow> lo_word (lo_buffer l) (unat (lo_head l));
     data \<leftarrow> lo_load (lo_buffer l) (4 * (unat (lo_head l) + 1)) (unat n);
     if room < unat n then None
     else do {
       let sz = (ucast n :: u16);
       let head = lo_head l + (ucast sz + 8) div 4;
       Some (data, if head = lo_tail l then l\<lparr>lo_head := 0, lo_tail := 0\<rparr> else l\<lparr>lo_head := head\<rparr>) } }"

text \<open>A reader that wakes up tests the queue again.\<close>

definition lo_rx_loop :: "nat \<Rightarrow> lo \<Rightarrow> (u8 list \<times> lo) entry option" where
  "lo_rx_loop room l =
     (if lo_tail l = lo_head l then Some (Blocked ([], l))
      else do { r \<leftarrow> lo_rx_copy room l; Some (Return EOK r) })"

definition lo_rx :: "u16 option \<Rightarrow> lo \<Rightarrow> (u8 list \<times> lo) entry option" where
  "lo_rx data_size l =
     (case data_size of
        None \<Rightarrow> Some (Return EIO ([], l))
      | Some sz \<Rightarrow> do {
          n \<leftarrow> lo_word (lo_buffer l) (unat (lo_head l));
          if ucast sz < n then Some (Return EPACKSIZE ([], l))
          else lo_rx_loop (unat sz) l })"

text \<open>The sizes of the first packets; \<open>ptr\<close> tells that \<open>bsize\<close> is not null.\<close>

fun lo_peak_loop :: "nat \<Rightarrow> u8 list \<Rightarrow> u32 \<Rightarrow> u32 \<Rightarrow> u32 list option" where
  "lo_peak_loop 0 b head tail = Some []"
| "lo_peak_loop (Suc items) b head tail =
     (if head = tail then Some []
      else do {
        n \<leftarrow> lo_word b (unat head);
        ns \<leftarrow> lo_peak_loop items b (head + (n + 8) div 4) tail;
        Some (n # ns) })"

definition lo_peak :: "bool \<Rightarrow> u32 \<Rightarrow> lo \<Rightarrow> (status \<times> u32 list) option" where
  "lo_peak ptr items l =
     (if \<not> ptr \<or> items = 0 then Some (EINVAL, [])
      else do { ns \<leftarrow> lo_peak_loop (unat items) (lo_buffer l) (lo_head l) (lo_tail l); Some (EOK, ns) })"

definition lo_readable :: "lo \<Rightarrow> bool" where
  "lo_readable l \<longleftrightarrow> lo_tail l \<noteq> lo_head l"

section \<open>The packets in the buffer\<close>

definition lo_words :: "u8 list \<Rightarrow> nat" where
  "lo_words p = (length p + 8) div 4"

fun frames :: "u8 list \<Rightarrow> nat \<Rightarrow> u8 list list \<Rightarrow> nat \<Rightarrow> bool" where
  "frames b h [] t \<longleftrightarrow> h = t"
| "frames b h (p # ps) t \<longleftrightarrow>
     length p \<le> 32767 \<and> 4 * (h + 1) + length p \<le> length b \<and> le_nat (bytes_at b (4 * h) 4) = length p \<and> bytes_at b (4 * (h + 1)) (length p) = p \<and>
     frames b (h + lo_words p) ps t"

definition lo_rep :: "lo \<Rightarrow> u8 list list \<Rightarrow> bool" where
  "lo_rep l ps \<longleftrightarrow> length (lo_buffer l) = 32768 \<and> frames (lo_buffer l) (unat (lo_head l)) ps (unat (lo_tail l)) \<and>
     unat (lo_tail l) \<le> 8192 \<and> unat (lo_head l) < 8192"

lemma frames_le: "frames b h ps t \<Longrightarrow> h \<le> t"
  by (induction ps arbitrary: h) (fastforce simp: lo_words_def)+

lemma frames_less: "frames b h (p # ps) t \<Longrightarrow> h < t"
  using frames_le [of b "h + lo_words p" ps t] by (simp add: lo_words_def)

lemma words_bytes: "4 * (h + 1) + length p \<le> 4 * (h + lo_words p)"
  by (simp add: lo_words_def)

lemma frames_keep:
  assumes "frames b h ps t" "4 * t \<le> a" "a + length ys \<le> length b"
  shows "frames (splice b a ys) h ps t"
  using assms(1)
proof (induction ps arbitrary: h)
  case (Cons p ps)
  have "h + lo_words p \<le> t" using Cons.prems frames_le [of b "h + lo_words p" ps t] by simp
  then have "4 * (h + 1) + length p \<le> a" using words_bytes [of h p] assms(2) by simp
  then show ?case using Cons assms(3) by (simp add: splice_length bytes_at_splice_apart)
qed simp

lemma frames_snoc:
  assumes "frames b h ps t" "length p \<le> 32767" "4 * (t + 1) + length p \<le> length b" "le_nat (bytes_at b (4 * t) 4) = length p"
    "bytes_at b (4 * (t + 1)) (length p) = p"
  shows "frames b h (ps @ [p]) (t + lo_words p)"
  using assms by (induction ps arbitrary: h) auto

lemma tail_step: "x \<le> 8192 \<Longrightarrow> unat (sz :: u16) \<le> 32767 \<Longrightarrow> x = unat (t :: u32) \<Longrightarrow> unat (t + (ucast sz + 8) div 4) = x + (unat sz + 8) div 4"
proof -
  assume a: "x \<le> 8192" "unat sz \<le> 32767" "x = unat t"
  have "unat (ucast sz + 8 :: u32) = unat sz + 8" using a(2) by (simp add: unat_add_small unat_ucast_up)
  then have "unat ((ucast sz + 8) div 4 :: u32) = (unat sz + 8) div 4" by (simp add: unat_div)
  then show ?thesis using a by (simp add: unat_add_small)
qed

lemma word_of_size: "lo_word b h = Some (of_nat n) \<longleftrightarrow> 4 * h + 4 \<le> length b \<and> (of_nat (le_nat (bytes_at b (4 * h) 4)) :: u32) = of_nat n"
  by (simp add: lo_word_def)

lemma lo_tx_ok:
  assumes "lo_rep l ps" "unat sz = length p" "length p \<le> 32767" "unat (lo_tail l) + lo_words p \<le> 8192"
  shows "\<exists>l'. lo_tx (Some (sz, p)) l = Some (EOK, True, l') \<and> lo_rep l' (ps @ [p])"
proof -
  define t where "t = unat (lo_tail l)"
  define b where "b = lo_buffer l"
  have r: "length b = 32768" "frames b (unat (lo_head l)) ps t" "unat (lo_head l) < 8192" using assms(1) by (simp_all add: lo_rep_def b_def t_def)
  have tw: "t + lo_words p \<le> 8192" "t \<le> 8192" using assms(4) by (simp_all add: t_def)
  have nt: "unat (lo_tail l + (ucast sz + 8) div 4) = t + lo_words p"
    using tail_step [of t sz "lo_tail l"] tw assms(2,3) by (simp add: t_def lo_words_def)
  have room: "4 * (t + 1) + length p \<le> 32768" using tw words_bytes [of t p] by simp
  define b1 where "b1 = splice b (4 * t) (le_bytes 4 (length p))"
  define b2 where "b2 = splice b1 (4 * (t + 1)) p"
  have l1: "length b1 = 32768" "length b2 = 32768" using room r(1) by (simp_all add: b1_def b2_def splice_length)
  have "lo_tx (Some (sz, p)) l = Some (EOK, True, l\<lparr>lo_buffer := b2, lo_tail := lo_tail l + (ucast sz + 8) div 4\<rparr>)"
  proof -
    have "\<not> lo_sizeof < lo_tail l + (ucast sz + 8) div 4" using nt tw by (simp add: word_less_nat_alt lo_sizeof_def)
    moreover have "\<not> lo_mtu < ucast sz" using assms(2,3) by (simp add: word_less_nat_alt lo_mtu_def unat_ucast_up)
    ultimately show ?thesis using room r(1) l1(1) assms(2)
      by (simp add: lo_tx_def lo_store_def lo_load_def b_def [symmetric] t_def [symmetric] b1_def [symmetric] bytes_at_def) (simp add: b2_def)
  qed
  moreover have "frames b2 (unat (lo_head l)) (ps @ [p]) (t + lo_words p)"
  proof (rule frames_snoc)
    have "frames b1 (unat (lo_head l)) ps t" unfolding b1_def using room r by (intro frames_keep) simp_all
    then show "frames b2 (unat (lo_head l)) ps t" unfolding b2_def using room l1 by (intro frames_keep) simp_all
    have "bytes_at b2 (4 * t) 4 = bytes_at b1 (4 * t) 4" unfolding b2_def using room l1 by (intro bytes_at_splice_apart) simp_all
    also have "\<dots> = le_bytes 4 (length p)" unfolding b1_def using room r by (intro bytes_at_splice_same) simp_all
    finally show "le_nat (bytes_at b2 (4 * t) 4) = length p" using assms(3) by (simp add: le_nat_bytes)
    show "bytes_at b2 (4 * (t + 1)) (length p) = p" unfolding b2_def using room l1 by (intro bytes_at_splice_same) simp_all
  qed (use room l1 assms(3) in simp_all)
  ultimately show ?thesis using nt tw l1 r(3) by (auto simp: lo_rep_def)
qed

lemma lo_rx_copy_ok:
  assumes "lo_rep l (p # ps)" "length p \<le> room"
  shows "\<exists>l'. lo_rx_copy room l = Some (p, l') \<and> lo_rep l' ps"
proof -
  define h where "h = unat (lo_head l)"
  define b where "b = lo_buffer l"
  have r: "length b = 32768" "length p \<le> 32767" "4 * (h + 1) + length p \<le> 32768" "le_nat (bytes_at b (4 * h) 4) = length p"
    "bytes_at b (4 * (h + 1)) (length p) = p" "frames b (h + lo_words p) ps (unat (lo_tail l))" "unat (lo_tail l) \<le> 8192" "h < 8192"
    using assms(1) by (simp_all add: lo_rep_def b_def h_def)
  let ?n = "of_nat (length p) :: u32"
  have n: "unat ?n = length p" "unat (ucast ?n :: u16) = length p" using r(2) by (simp_all add: unsigned_ucast_eq take_bit_nat_eq_self)
  let ?head = "lo_head l + (ucast (ucast ?n :: u16) + 8) div 4"
  have nh: "unat ?head = h + lo_words p" using tail_step [of h "ucast ?n" "lo_head l"] r(2,8) n by (simp add: h_def lo_words_def)
  have le: "h + lo_words p \<le> unat (lo_tail l)" using frames_le [OF r(6)] .
  have "lo_rx_copy room l = Some (p, if ?head = lo_tail l then l\<lparr>lo_head := 0, lo_tail := 0\<rparr> else l\<lparr>lo_head := ?head\<rparr>)"
    using r n assms(2) by (simp add: lo_rx_copy_def lo_word_def lo_load_def b_def [symmetric] h_def [symmetric] Let_def)
  moreover have "lo_rep (if ?head = lo_tail l then l\<lparr>lo_head := 0, lo_tail := 0\<rparr> else l\<lparr>lo_head := ?head\<rparr>) ps"
  proof (cases "?head = lo_tail l")
    case True
    then have "ps = []" using nh r(6) frames_less [of b "h + lo_words p" "hd ps" "tl ps"] by (cases ps) auto
    then show ?thesis using True r(1) by (simp add: lo_rep_def b_def)
  next
    case False
    then have "h + lo_words p < unat (lo_tail l)" using nh le by (metis le_neq_implies_less word_unat_eq_iff)
    then show ?thesis using False r nh by (simp add: lo_rep_def b_def)
  qed
  ultimately show ?thesis by blast
qed

section \<open>Properties\<close>

text \<open>C23: while the packets fit into \<open>lo_buffer\<close>, the loopback interface is a queue of packets: a packet sent is appended to those waiting and wakes the
  readers, the first packet waiting is received with exactly its bytes, or refused with \<open>EPACKSIZE\<close> and kept when the receiver has too little
  room. On the empty queue the size test still reads the word at the head, the length of a packet long gone: a reader with less room than that
  is refused with \<open>EPACKSIZE\<close>, any other sleeps; a sleeping reader that wakes to the empty queue sleeps again.\<close>

theorem loopback_queue:
  assumes "lo_rep l ps"
  shows "(\<forall>sz p. unat sz = length p \<and> length p \<le> 32767 \<and> unat (lo_tail l) + lo_words p \<le> 8192 \<longrightarrow>
      (\<exists>l'. lo_tx (Some (sz, p)) l = Some (EOK, True, l') \<and> lo_rep l' (ps @ [p]))) \<and>
    (\<forall>p qs room. ps = p # qs \<longrightarrow>
      (if length p \<le> unat room then \<exists>l'. lo_rx (Some room) l = Some (Return EOK (p, l')) \<and> lo_rep l' qs
       else lo_rx (Some room) l = Some (Return EPACKSIZE ([], l)))) \<and>
    (ps = [] \<longrightarrow> (\<exists>stale. lo_word (lo_buffer l) (unat (lo_head l)) = Some stale \<and>
       (\<forall>room. lo_rx (Some room) l = Some (if ucast room < stale then Return EPACKSIZE ([], l) else Blocked ([], l)))) \<and>
       lo_rx_loop room l = Some (Blocked ([], l)))"
proof (intro conjI allI impI; (elim conjE)?)
  assume "ps = []"
  then have "lo_tail l = lo_head l" "4 * unat (lo_head l) + 4 \<le> length (lo_buffer l)" using assms by (simp_all add: lo_rep_def word_unat_eq_iff)
  then show "\<exists>stale. lo_word (lo_buffer l) (unat (lo_head l)) = Some stale \<and>
       (\<forall>room. lo_rx (Some room) l = Some (if ucast room < stale then Return EPACKSIZE ([], l) else Blocked ([], l)))"
    by (simp add: lo_word_def lo_rx_def lo_rx_loop_def)
next
  fix p qs and room :: u16
  assume ps: "ps = p # qs"
  have r: "length p \<le> 32767" "4 * unat (lo_head l) + 4 \<le> length (lo_buffer l)"
    "lo_word (lo_buffer l) (unat (lo_head l)) = Some (of_nat (length p))" "lo_tail l \<noteq> lo_head l"
    using assms ps frames_less [of "lo_buffer l" "unat (lo_head l)" p qs "unat (lo_tail l)"] by (auto simp: lo_rep_def lo_word_def)
  have "ucast room < (of_nat (length p) :: u32) \<longleftrightarrow> unat room < length p" using r(1) by (simp add: word_less_nat_alt unat_ucast_up)
  then show "if length p \<le> unat room then \<exists>l'. lo_rx (Some room) l = Some (Return EOK (p, l')) \<and> lo_rep l' qs
       else lo_rx (Some room) l = Some (Return EPACKSIZE ([], l))"
    using r(3,4) lo_rx_copy_ok [of l p qs "unat room"] assms ps by (auto simp: lo_rx_def lo_rx_loop_def)
qed (use assms lo_tx_ok in \<open>auto simp: lo_rx_loop_def lo_rep_def word_unat_eq_iff\<close>)

definition lo_empty :: lo where
  "lo_empty = \<lparr>lo_buffer = replicate 32768 0, lo_head = 0, lo_tail = 0\<rparr>"

lemma lo_empty_rep: "lo_rep lo_empty []"
  by (simp add: lo_rep_def lo_empty_def)

theorem loopback_queue_witness:
  "\<exists>l' l''. lo_tx (Some (3, [1, 2, 3])) lo_empty = Some (EOK, True, l') \<and> lo_rx (Some 64) l' = Some (Return EOK ([1, 2, 3], l''))"
proof -
  obtain l' where l': "lo_tx (Some (3, [1, 2, 3])) lo_empty = Some (EOK, True, l')" "lo_rep l' [[1, 2, 3]]"
    using loopback_queue [OF lo_empty_rep, THEN conjunct1, rule_format, of 3 "[1, 2, 3]"] by (auto simp: lo_words_def lo_empty_def)
  then show ?thesis using loopback_queue [OF l'(2), THEN conjunct2, THEN conjunct1, rule_format, of "[1, 2, 3]" "[]" 64] by auto
qed

text \<open>C39: the size test of \<open>lo_tx\<close> compares words with bytes: a packet that fits in no way into what is left of \<open>lo_buffer\<close> passes it, and its bytes
  are written behind the buffer; for packets of more than 32764 bytes this happens even when the buffer is empty. And the size test of \<open>lo_rx\<close>
  comes before the wait: a reader that went to sleep is woken by a packet and copies it whatever the room it has.\<close>

theorem loopback_overruns:
  "(lo_rep l ps \<and> unat sz = length p \<and> length p \<le> 32767 \<and> 32768 < 4 * (unat (lo_tail l) + 1) + length p \<longrightarrow> lo_tx (Some (sz, p)) l = None) \<and>
   (lo_rep l [] \<and> lo_head l = 0 \<and> unat sz = length p \<and> length p \<le> 32763 \<and> room < length p \<longrightarrow>
     lo_rx_loop room l = Some (Blocked ([], l)) \<and> (\<exists>l'. lo_tx (Some (sz, p)) l = Some (EOK, True, l') \<and> lo_rx_loop room l' = None))"
proof (intro conjI impI; elim conjE)
  assume a: "lo_rep l ps" "unat sz = length p" "length p \<le> 32767" "32768 < 4 * (unat (lo_tail l) + 1) + length p"
  have t: "unat (lo_tail l) \<le> 8192" "length (lo_buffer l) = 32768" using a(1) by (simp_all add: lo_rep_def)
  have "unat (lo_tail l + (ucast sz + 8) div 4) \<le> 20000" using tail_step [OF t(1) _ refl, of sz] a(2,3) t(1) by simp
  then have "\<not> lo_sizeof < lo_tail l + (ucast sz + 8) div 4" by (simp add: word_less_nat_alt lo_sizeof_def)
  moreover have "\<not> lo_mtu < ucast sz" using a(2,3) by (simp add: word_less_nat_alt lo_mtu_def unat_ucast_up)
  moreover have "length (splice (lo_buffer l) (4 * unat (lo_tail l)) (le_bytes 4 (length p))) = 32768" if "4 * unat (lo_tail l) + 4 \<le> 32768"
    using that t(2) by (simp add: splice_length)
  ultimately show "lo_tx (Some (sz, p)) l = None" using a(2,4) t(2) by (auto simp: lo_tx_def lo_store_def lo_load_def bytes_at_def)
next
  assume a: "lo_rep l []" "lo_head l = 0" "unat sz = length p" "length p \<le> 32763" "room < length p"
  have e: "lo_tail l = lo_head l" using a(1) by (simp add: lo_rep_def word_unat_eq_iff)
  then show "lo_rx_loop room l = Some (Blocked ([], l))" by (simp add: lo_rx_loop_def)
  have "lo_words p \<le> 8192" using a(4) unfolding lo_words_def by linarith
  then obtain l' where l': "lo_tx (Some (sz, p)) l = Some (EOK, True, l')" "lo_rep l' [p]"
    using lo_tx_ok [OF a(1,3)] a(2,4) e by auto
  have "lo_word (lo_buffer l') (unat (lo_head l')) = Some (of_nat (length p))" "lo_tail l' \<noteq> lo_head l'"
    using l'(2) frames_less [of "lo_buffer l'" "unat (lo_head l')" p "[]"] by (auto simp: lo_rep_def lo_word_def)
  then have "lo_rx_loop room l' = None" using a(4,5) by (auto simp: lo_rx_loop_def lo_rx_copy_def lo_load_def)
  then show "\<exists>l'. lo_tx (Some (sz, p)) l = Some (EOK, True, l') \<and> lo_rx_loop room l' = None" using l'(1) by blast
qed

theorem loopback_overruns_witness:
  "lo_tx (Some (32767, replicate 32767 0)) lo_empty = None \<and> (\<exists>l'. lo_tx (Some (3, [1, 2, 3])) lo_empty = Some (EOK, True, l') \<and> lo_rx_loop 2 l' = None)"
proof -
  have "lo_head lo_empty = 0" "lo_tail lo_empty = 0" by (simp_all add: lo_empty_def)
  then show ?thesis
    using loopback_overruns [of lo_empty "[]" 32767 "replicate 32767 0" 0] loopback_overruns [of lo_empty "[]" 3 "[1, 2, 3]" 2] lo_empty_rep
    by simp
qed

section \<open>Sizes of the packets waiting\<close>

text \<open>\<open>lo_peak\<close> returns the sizes of the first packets.\<close>

lemma lo_peak_ok:
  assumes "lo_rep l ps" "items \<noteq> 0"
  shows "lo_peak True items l = Some (EOK, map (\<lambda>p. of_nat (length p)) (take (unat items) ps))"
proof -
  have "frames b (unat h) ps (unat t) \<Longrightarrow> length b = 32768 \<Longrightarrow> unat t \<le> 8192 \<Longrightarrow>
    lo_peak_loop n b h t = Some (map (\<lambda>p. of_nat (length p)) (take n ps))" for n b h t
  proof (induction n b h t arbitrary: ps rule: lo_peak_loop.induct)
    case (2 n b h t)
    show ?case
    proof (cases ps)
      case Nil
      then show ?thesis using 2 by (simp add: word_unat_eq_iff)
    next
      case (Cons p qs)
      note f = 2(2) [unfolded Cons frames.simps]
      have lt: "unat h < unat t" using frames_less 2(2) Cons by blast
      have w: "lo_word b (unat h) = Some (of_nat (length p))" using f 2(3) by (auto simp: lo_word_def)
      have "unat (of_nat (length p) + 8 :: u32) = length p + 8" using f by (simp add: unat_add_small)
      then have "unat ((of_nat (length p) + 8) div 4 :: u32) = lo_words p" by (simp add: unat_div lo_words_def)
      moreover have "unat h + lo_words p < 2 ^ 32" using frames_le [of b "unat h + lo_words p" qs "unat t"] f 2(4) by simp
      ultimately have "unat (h + (of_nat (length p) + 8) div 4) = unat h + lo_words p" by (simp add: unat_add_small)
      then show ?thesis using 2(1) [of "of_nat (length p)" qs] lt w f 2(3,4) Cons by auto
    qed
  qed simp
  then show ?thesis using assms by (simp add: lo_peak_def lo_rep_def)
qed

end
