(* ===== verification/Spec2Isabelle.thy ===== *)
theory Spec2Isabelle
  imports Boot Alarms Timers DList RBTreeEnum NetIf Unistd Hashes Pakman Malloc IoMalloc KFormat FatFormat FatSearch FatBoot NetCore LocalLoop
begin

text \<open>
  A verification of the kernel and of the support libraries of DiegOS, a small preemptive operating system in C
  for 32 bit PCs. Paths below are relative to the repository, under \<^verbatim>\<open>src/\<close>.

  \<^bold>\<open>The program and its parts.\<close> Threads live in a table (\<^verbatim>\<open>kernel/threads.c\<close>) and are linked by an
  intrusive queue node in exactly one queue of the scheduler (\<^verbatim>\<open>kernel/scheduler.c\<close>): a ready queue per priority, the wait
  queue, the delay queue sorted by time, the queue of dead threads; the running thread is linked nowhere. A call
  of the kernel (\<^verbatim>\<open>kernel/kernel.c\<close>, and the blocking calls of \<^verbatim>\<open>mutex.c\<close>, \<^verbatim>\<open>events.c\<close>, \<^verbatim>\<open>barriers.c\<close>,
  \<^verbatim>\<open>io_waits.c\<close>, \<^verbatim>\<open>poll.c\<close>) moves the running thread to a queue and ends in \<open>schedule_thread\<close>. A scheduling pass asks
  the event, barrier and I/O libraries for the threads to wake, walks the wait and the delay queue,
  picks the next thread and destroys the dead ones. Alarms and timers are callbacks of the clock
  (\<^verbatim>\<open>kernel/clock.c\<close>). Beside the scheduler stand the registries of devices (\<^verbatim>\<open>kernel/devices.c\<close>) and of network
  interfaces (\<^verbatim>\<open>kernel/net_interfaces.c\<close>). All of them are built from the containers of \<^verbatim>\<open>libs/\<close>.

  \<^bold>\<open>Theories and sources.\<close>
  \<^item> \<open>Prelude\<close>: machine types, error codes (\<^verbatim>\<open>include/errno.h\<close>), shared lemmas and fact collections.
  \<^item> \<open>Queue\<close> (\<^verbatim>\<open>libs/queue.c\<close>, \<^verbatim>\<open>libs/stack.c\<close>) and \<open>DList\<close> (\<^verbatim>\<open>libs/list.c\<close>): linked lists at pointer level. One
    memory holds all instances and nodes, so a node linked twice is a state of the model. \<open>qrep\<close> and
    \<open>lrep\<close> relate a memory to HOL lists; the locales \<open>queue_iface\<close> and \<open>dlist_iface\<close> are the contracts of the clients.
  \<^item> \<open>Bitmaps\<close> (\<^verbatim>\<open>include/libs/bitmaps.h\<close>), with the locale \<open>clearing_cb\<close> of the callbacks that clear the bit they
    are called for, and \<open>Cbuffers\<close> (\<^verbatim>\<open>include/libs/cbuffers.h\<close>).
  \<^item> \<open>Threads\<close>, \<open>Scheduler\<close>: the thread table and every operation of \<^verbatim>\<open>scheduler.c\<close> that calls no other library. The
    record \<open>sched\<close> has the static variables of the file; a pointer to a thread is the index of its slot.
    \<open>SchedulerOps\<close>, \<open>SchedulerPasses\<close> and \<open>SchedulerRun\<close> hold the lemmas: the invariant \<open>sinv\<close>, each operation as
    a list operation, each pass refined to a specification on lists.
  \<^item> \<open>Mutex\<close>, \<open>Events\<close>, \<open>Barriers\<close>, \<open>IoPoll\<close>, \<open>Clock\<close>, \<open>Alarms\<close>, \<open>Timers\<close>: the kernel libraries of the same names.
  \<^item> \<open>Kernel\<close>: the operations that span components, with the whole state in the record \<open>kernel\<close>. \<open>KernelInv\<close>:
    the invariant \<open>kinv\<close> and what a scheduling pass does. \<open>KernelSteps\<close>: the invariant \<open>kok\<close> between two
    calls, that every call keeps it, and the step relation \<open>kstep\<close>. \<open>Boot\<close>: start-up establishes \<open>kok\<close>.
  \<^item> \<open>RBTree\<close> (\<^verbatim>\<open>libs/red_black_tree.c\<close>), with \<open>RBTreeInv\<close>, \<open>RBTreeQuery\<close> and \<open>RBTreeEnum\<close> for its invariants, searches and
    enumerations. The locale \<open>key_order\<close> states what a comparison function promises; it is interpreted on
    the comparison functions of the network interfaces.
  \<^item> \<open>Chunks\<close> (\<^verbatim>\<open>libs/chunks.c\<close>), \<open>Pakman\<close> (\<^verbatim>\<open>libs/pakman.c\<close>), \<open>Hashes\<close> (\<^verbatim>\<open>libs/hash_list.c\<close>, \<^verbatim>\<open>libs/fnv.c\<close>).
  \<^item> \<open>CStrings\<close> (\<^verbatim>\<open>libs/libc/ansi/strncmp.c\<close>, \<^verbatim>\<open>strncpy.c\<close>), \<open>Devices\<close> (\<^verbatim>\<open>kernel/devices.c\<close>, on \<open>DList\<close>) and \<open>NetIf\<close>
    (\<^verbatim>\<open>kernel/net_interfaces.c\<close>, on \<open>RBTree\<close> and \<open>Chunks\<close>), and \<open>Unistd\<close> (\<^verbatim>\<open>kernel/libs/unistd\<close>), the file descriptors
    over \<open>Devices\<close>.
  \<^item> \<open>Memory\<close> (\<^verbatim>\<open>libs/libc/ansi/memcpy.c\<close>, \<^verbatim>\<open>memmove.c\<close>, \<^verbatim>\<open>memset.c\<close>, \<^verbatim>\<open>memcmp.c\<close>): a memory of bytes, the block functions on it
    and \<open>Malloc\<close> (\<^verbatim>\<open>malloc.c\<close>), the heap, whose headers are stored in that memory. The locale \<open>allocator\<close> (theory
    \<open>Allocator\<close>) is what a client may rely on; it is interpreted on \<open>malloc\<close> and \<open>free\<close>.
  \<^item> \<open>Sorting\<close> (\<^verbatim>\<open>qsort.c\<close>, \<^verbatim>\<open>bsearch.c\<close>), with the locales \<open>compares\<close> and \<open>searches\<close> of the comparison functions, and
    \<open>IoMalloc\<close> (\<^verbatim>\<open>kernel/libs/iomemory/iomalloc.c\<close>), the allocator of I/O memory, which sorts and searches its table with them.
  \<^item> \<open>Ctype\<close> (\<^verbatim>\<open>libs/libc/ansi/is*.c\<close>), \<open>Conversions\<close> (\<^verbatim>\<open>strtol.c\<close>, \<^verbatim>\<open>atoi.c\<close>, \<^verbatim>\<open>div.c\<close>, \<^verbatim>\<open>rand.c\<close>) and \<open>KPrint\<close> (\<^verbatim>\<open>kernel/kprintf.c\<close>), the formatted
    output of the kernel; \<open>KFormat\<close> states what a format means, apart from the code.
  \<^item> The FAT library (\<^verbatim>\<open>fat\<close>): \<open>FatDisk\<close> (\<^verbatim>\<open>disk_access.c\<close>, and the layout of the structures of \<^verbatim>\<open>fat_data.h\<close> in bytes), \<open>FatTable\<close>
    (\<^verbatim>\<open>fat_internals.c\<close> and the chains of \<^verbatim>\<open>fat.c\<close>), \<open>FatNames\<close> (\<^verbatim>\<open>fat_names.c\<close>), \<open>FatDir\<close> and \<open>FatOps\<close> (directories and the
    operations on entries, \<^verbatim>\<open>fat.c\<close>), \<open>FatFile\<close> (reading and writing), \<open>FatFormat\<close> (\<^verbatim>\<open>fat_format.c\<close>, mounting), \<open>FatBoot\<close> (\<^verbatim>\<open>mbr.c\<close>,
    \<^verbatim>\<open>bpb.c\<close>). \<open>FatStore\<close> has the laws of the layout on disk, \<open>FatWrite\<close>, \<open>FatRead\<close>, \<open>FatDelete\<close> and \<open>FatSearch\<close> what the operations do to a
    file. A volume contains its disk, a list of bytes; \<open>vol_ok\<close> is the invariant of a volume, \<open>file_ok\<close> that of a file in it.
  \<^item> \<open>Calendar\<close> (\<^verbatim>\<open>libs/libc/ansi/mktime.c\<close>, \<^verbatim>\<open>convtime.c\<close>, \<^verbatim>\<open>gmtime.c\<close>, \<^verbatim>\<open>localtime.c\<close>, \<^verbatim>\<open>tzset.c\<close>): times and dates; its structure \<open>tm\<close> is the one the FAT
    library stamps its entries with.
  \<^item> \<open>NetBuffers\<close> (\<^verbatim>\<open>network/net_buffers.c\<close>, \<^verbatim>\<open>net_stats.c\<close>), the queues between drivers and network stack over \<open>Pakman\<close>, \<open>Cbuffers\<close> and \<open>Barriers\<close>, with
    the locale \<open>packet_queue\<close> interpreted on both queues; \<open>NetCore\<close> (\<^verbatim>\<open>applications/network/network_core.c\<close>), the network thread and the step relation
    \<open>net_step\<close> of its interleaving with drivers and applications; \<open>LocalLoop\<close> (\<^verbatim>\<open>drivers/lo/local_loop.c\<close>), the loopback interface on the bytes of its buffer.

  \<^bold>\<open>Conventions.\<close> Integers have the width of the C code (\<open>unsigned\<close> and \<open>long\<close> are 32 bits); a product of two
  32 bit values wraps before it is widened. A pointer argument that may be \<open>NULL\<close> is an \<open>option\<close>. An
  operation that may dereference \<open>NULL\<close>, leave an array, divide by zero or not return has the result type
  \<open>option\<close>, and \<open>None\<close> is this fault: a theorem that concludes \<open>Some\<close> states that the call returns and is memory
  safe. Error codes are the datatype \<open>status\<close>. Loops over a pointer structure are \<open>partial_function (option)\<close>
  and need no fuel; loops with a counter are structural. What \<open>malloc\<close>, a driver or the platform returns is an
  argument of the operation; the hypotheses on it say that a new block is not one already in use. \<open>kernel_panic\<close>
  is the outcome \<open>Panic\<close>. A call that switches context ends, for the model, in the state in which the next
  thread runs; interrupts do not occur between two statements of a call, as the code masks them.

  \<^bold>\<open>What is shown.\<close>
  \<^item> This theory: a scheduling pass picks the highest ready thread and loses none; every state reached by kernel calls
    and clock ticks from a well-formed state is well formed; the blocking calls return without panic; a
    suspended thread yields to an equal. Theory \<open>Boot\<close>: the first such state is what start-up produces.
  \<^item> The scheduler: the delay queue stays sorted, expired threads are woken, the pass over the wait queue loses no thread
    and wakes the first that is due. It may skip a ready thread, and a delayed thread that is killed is lost:
    both are proved as they are.
  \<^item> The kernel libraries: a mutex refines an abstract lock with a FIFO of waiters; event, barrier and
    I/O completion wake exactly the threads registered; the clock conversions are exact within their bounds; a tick has every
    alarm that is due post its event once, timers fire when they are due.
  \<^item> The containers: queues, lists, circular buffers, hash lists and packet descriptors refine lists, queues and maps;
    red-black trees keep their invariants and their order under insertion and extraction, with the height bound; memory
    pools hand out distinct aligned chunks and take them back; FNV-1a separates buffers that differ in one byte.
  \<^item> The registries: devices and interfaces are kept sorted, creation keeps the invariant and gives every block back on
    failure, a look-up by name is exact, starting visits each device or interface once. \<open>open\<close> hands out the lowest free descriptor if the block for the name has room for its terminator.
  \<^item> The allocators: the heap serves the first block that fits, joins neighbours, and whatever a client does with its blocks they stay
    disjoint and keep their contents; the I/O allocator hands out aligned blocks apart from all others as long as it does not
    fill a hole and no sum wraps. Sorting sorts any comparison that is a weak order, searching finds an element of a sorted table.
  \<^item> Text: the formatted output is the text the items of the format stand for, with digits in positional notation, and a printed number is read back by
    \<open>strtol\<close> and \<open>strtoul\<close>, which compute the value of the digits or saturate.
  \<^item> Files: a formatted partition is mounted as a well-formed empty volume; a search finds the first entry with the name, and where it lies;
    a write splices its data into the bytes of the file, takes free clusters as it needs them, and leaves all other bytes of the disk and all
    other chains as they were; a read returns the bytes of the file.
  \<^item> Dates: \<open>mktime\<close> brings fields of any size into calendar form and returns the seconds of the moment they denote, for every outcome;
    \<open>gmtime\<close> and \<open>mktime\<close> are inverse up to the end of 2067.
  \<^item> The network: the queues are first in first out, the network thread empties them and ends, and under every interleaving it does not sleep while a
    packet waits; the loopback interface returns the packets sent as long as they fit into its buffer. The network thread
    returns to the pool the packets that are the oldest in use, in the order it serves the two queues.
  \<^item> Defects, each proved on the model: killing a thread that waits for a mutex links it twice, refused insertions
    break the colours of a red-black tree, the look-up of an interface by its index misses it, a packet can run past the
    storage, the I/O allocator hands out the same memory twice and grants blocks larger than its memory when the size wraps, the last digit of a unit alone names its
    device, \<open>open\<close> writes the terminator of the name behind a block of the size it asks for, a number with a long precision overruns the buffer of the formatted output, deleted files never
    give their clusters back, a read that starts inside a cluster can misplace its end, a full directory does not grow, a formatted volume can have a table that is too small, the loopback interface writes behind its buffer, packets behind one an application holds are lost, time zones other than UTC have no
    defined result, writing to a device hides EAGAIN and 0, \<open>access\<close> denies devices that can be read and written.

  \<^bold>\<open>Limits of the step relations.\<close> \<open>kstep\<close> has no step for killing a thread that waits for a mutex (the invariant fails there, as
  is proved below), for a wait for a mutex by the idle thread and for calls that panic; a caller links an event in one queue at a time and uses handles
  that exist. Destroying mutexes, events and barriers while threads wait is outside it. In \<open>net_step\<close> a call of \<open>netbuf_in\<close> or \<open>netbuf_out\<close> and each half
  round of the network thread are single steps; the code takes no lock there. \<open>evolves\<close>, the frame of the operations on a volume, leaves the bytes in its range
  open: what is written there is stated beside it (\<open>entry_on_disk\<close>, \<open>content\<close>, and for deletion \<open>tables_on_disk\<close>).

  \<^bold>\<open>Not modelled.\<close> Start-up assembly, interrupt and paging set-up (\<^verbatim>\<open>boot\<close>, \<^verbatim>\<open>platforms\<close>), the register access of the
  drivers (\<^verbatim>\<open>drivers\<close>, \<^verbatim>\<open>devices\<close>), PCI configuration (\<^verbatim>\<open>kernel/libs/pci\<close>), the console below \<open>kputc\<close>, busy delays, the C library apart
  from the functions above, the applications apart from the network thread, and the printing and the test program of \<^verbatim>\<open>fat\<close>. \<open>errno\<close> as a global variable and
  the contents of data buffers of devices are not part of the state.
\<close>

unbundle bit_operations_syntax

section \<open>A sample kernel state\<close>

text \<open>
  The sample states of the components put together: thread 2 runs, the idle thread is ready, thread
  3 waits for a message of event queue 6, thread 4 is delayed, thread 5 is dead; mutex 7 is held by
  the running thread.
\<close>

definition sample_kernel :: kernel where
  "sample_kernel = \<lparr>k_sched = sample_sched, k_mutexes = sample_mutexes, k_events = sample_evs,
     k_barriers = sample_bars, k_io = sample_io, k_clock = sample_clock\<rparr>"

lemma sample_kernel_simps [simp]:
  "k_sched sample_kernel = sample_sched" "k_mutexes sample_kernel = sample_mutexes" "k_events sample_kernel = sample_evs"
  "k_barriers sample_kernel = sample_bars" "k_io sample_kernel = sample_io" "k_clock sample_kernel = sample_clock"
  by (simp_all add: sample_kernel_def)

lemma sample_table: "table_ok (storage sample_sched)"
  by (auto simp: table_ok_def sample_sched_def sample_storage_def sample_thread_def THREAD_PRIORITIES_def)

lemma sample_kinv: "kinv sample_kernel sample_queues sample_msgs"
  using sample_inv sample_table sample_events_ok sample_bars_ok sample_io_ok
  by (simp add: kinv_def clock_ok_def sample_clock_def sample_ticks_def)

lemma sample_kok: "kok sample_kernel sample_queues sample_msgs"
proof -
  have "run_ok sample_sched sample_queues" using sample_run sample_unlinked by (auto simp: run_ok_def)
  moreover have "idle_ok sample_sched sample_queues" "\<not> doomed (storage sample_sched) 2"
    by (simp_all add: idle_ok_def single_lists_def sample_sched_def sample_storage_def sample_thread_def zero_thread_def THREAD_TID_IDLE_def)
  moreover have "mutexes_ok sample_mutexes" using sample_mutex_ok by (simp add: mutexes_ok_def sample_mutexes_def)
  ultimately show ?thesis using sample_kinv sample_run(1) by (simp add: kok_def)
qed

section \<open>Scheduling\<close>

text \<open>C1: a scheduling pass chooses correctly. As long as one ready thread is not marked for termination,
  \<open>schedule_thread\<close> returns with every invariant of the kernel intact; the thread that runs next is
  linked in no queue and not marked for termination, and no ready thread that is not marked has a
  higher priority; every thread that was ready and is not marked is still ready, or is the one that
  runs; all dead threads have been destroyed.\<close>

theorem schedule_thread_correct:
  assumes "kinv k f g" "c \<in> set (f (Ready i))" "\<not> doomed (storage (k_sched k)) c"
  shows "\<exists>k' f' x. schedule_thread ioctl k = Some k' \<and> kinv k' f' g \<and>
    running (k_sched k') = Some x \<and> run_ok (k_sched k') f' \<and> \<not> doomed (storage (k_sched k')) x \<and> f' Dead = [] \<and>
    (\<forall>m p. p \<in> set (f' (Ready m)) \<and> \<not> doomed (storage (k_sched k')) p \<longrightarrow> t_priority (storage (k_sched k') x) \<le> m) \<and>
    (\<forall>m p. p \<in> set (f (Ready m)) \<and> \<not> doomed (storage (k_sched k)) p \<longrightarrow>
       t_priority (storage (k_sched k') x) \<le> m \<and> (p = x \<or> p \<in> set (f' (Ready m))))"
  using schedule_thread_spec [OF assms, of ioctl] unfolding sched_post_def by blast

theorem schedule_thread_correct_witness:
  "sample_queues (Ready 3) = [0] \<and> (\<exists>k' f' x. schedule_thread (\<lambda>_. EOK) sample_kernel = Some k' \<and>
     kinv k' f' sample_msgs \<and> running (k_sched k') = Some x \<and> t_priority (storage (k_sched k') x) \<le> 3)"
proof -
  have q: "sample_queues (Ready 3) = [0]" by (simp add: single_lists_def)
  have d: "\<not> doomed (storage (k_sched sample_kernel)) 0" using kokD(3) [OF sample_kok] by (simp add: idle_ok_def)
  have c: "0 \<in> set (sample_queues (Ready 3))" using q by simp
  from schedule_thread_correct [OF sample_kinv c d, of "\<lambda>_. EOK"] obtain k' f' x where
    k: "schedule_thread (\<lambda>_. EOK) sample_kernel = Some k'" "kinv k' f' sample_msgs" "running (k_sched k') = Some x"
    "\<And>m p. p \<in> set (sample_queues (Ready m)) \<and> \<not> doomed (storage (k_sched sample_kernel)) p \<Longrightarrow>
       t_priority (storage (k_sched k') x) \<le> m" by blast
  have "t_priority (storage (k_sched k') x) \<le> 3" using k(4) [of 0 3] c d by blast
  with k(1-3) q show ?thesis by blast
qed

section \<open>The kernel as a state machine\<close>



text \<open>C3: the calls of the kernel return. In a well-formed state no suspension, delay, termination or
  wait dereferences \<open>NULL\<close>, leaves an array or loops for ever, and none of them panics, for every time-out, 0 (a wait without
  time-out) included, provided the caller is neither the idle nor the timers thread and uses a barrier and a mutex that exist; the state
  in which the next thread runs is well formed.\<close>

theorem kernel_calls_return:
  assumes "kok k f g" "running (k_sched k) = Some r"
    and "t_tid (storage (k_sched k) r) \<noteq> THREAD_TID_IDLE" "t_tid (storage (k_sched k) r) \<noteq> THREAD_TID_TMRS"
    and "b \<in> set (bar_list (k_barriers k))" "h \<in> set (mtx_list (k_mutexes k))"
  shows "(\<exists>k'. thread_suspend ioctl k = Some (Done k') \<and> kernel_ok k') \<and>
    (\<exists>k'. thread_may_suspend ioctl k = Some (Done k') \<and> kernel_ok k') \<and>
    (\<exists>k'. thread_delay ioctl ms k = Some (Done k') \<and> kernel_ok k') \<and>
    (\<exists>k'. thread_terminate ioctl k = Some (Done k') \<and> kernel_ok k') \<and>
    (\<exists>e. wait_for_events_timed ioctl q ms k = Some e \<and> kernel_ok (after e)) \<and>
    (\<exists>e. wait_for_barrier ioctl (Some b) k = Some e \<and> kernel_ok (after e)) \<and>
    (\<exists>e. thread_io_wait_timed ioctl w ms chunk k = Some e \<and> kernel_ok (after e)) \<and>
    (\<exists>e. thread_lock_mutex_timed ioctl (Some h) ms k = Some e \<and> kernel_ok (after e))"
proof -
  have "slot_ok r (storage (k_sched k) r)" using kokD(2) [OF assms(1)] assms(2) by (auto simp: run_ok_def)
  then have "running (k_sched k) \<noteq> Some 0" using tid_idle_slot assms(2,3) by auto
  then have lock: "\<exists>e. thread_lock_mutex_timed ioctl (Some h) ms k = Some e \<and> kernel_ok (after e)"
    using thread_lock_mutex_ok [OF assms(1), of "Some h" ioctl ms] assms(6) by blast
  have bar: "\<exists>e. wait_for_barrier ioctl (Some b) k = Some e \<and> kernel_ok (after e)"
    using wait_for_barrier_ok [OF assms(1), of "Some b" ioctl] assms(5) by blast
  have delay: "\<exists>k'. thread_delay ioctl ms k = Some (Done k') \<and> kernel_ok k'"
    using thread_delay_ok [OF assms(1-4), of ms ioctl] assms(1) by (cases "ms = 0") (auto simp: thread_delay_def)
  show ?thesis
    using thread_suspend_ok [OF assms(1,2), of ioctl] thread_may_suspend_ok [OF assms(1), of ioctl] delay
      thread_terminate_ok [OF assms(1-4), of ioctl]
      wait_for_events_ok [OF assms(1), of ioctl q ms] thread_io_wait_ok [OF assms(1), of ioctl w ms chunk] bar lock
    by blast
qed

theorem kernel_calls_return_witness:
  "\<exists>k' e. thread_delay (\<lambda>_. EOK) 10 sample_kernel = Some (Done k') \<and> kernel_ok k' \<and>
     wait_for_barrier (\<lambda>_. EOK) (Some 6) sample_kernel = Some e \<and> kernel_ok (after e)"
proof -
  have "running (k_sched sample_kernel) = Some 2" "t_tid (storage (k_sched sample_kernel) 2) \<noteq> THREAD_TID_IDLE"
    "t_tid (storage (k_sched sample_kernel) 2) \<noteq> THREAD_TID_TMRS"
    "6 \<in> set (bar_list (k_barriers sample_kernel))" "7 \<in> set (mtx_list (k_mutexes sample_kernel))"
    using sample_run by (simp_all add: thread_consts sample_bars_def sample_mutexes_def)
  from kernel_calls_return [OF sample_kok this, of "\<lambda>_. EOK"] show ?thesis by blast
qed

text \<open>C11: yielding. A thread that suspends itself is put behind the ready threads of its priority, and the
  processor is given to a thread of the same or a higher priority. When another thread of its priority is ready and not marked for termination, the
  caller does not go on running: it stays in its ready queue, and if no thread of a higher priority is chosen the one that runs is the first of
  those that stood in the queue.\<close>

theorem thread_suspend_yields:
  assumes "kok k f g" "running (k_sched k) = Some r"
  shows "\<exists>k' f' x. thread_suspend ioctl k = Some (Done k') \<and> kok k' f' g \<and> running (k_sched k') = Some x \<and>
    t_priority (storage (k_sched k') x) \<le> t_priority (storage (k_sched k) r) \<and>
    (r = x \<or> r \<in> set (f' (Ready (t_priority (storage (k_sched k) r))))) \<and>
    (\<forall>y. find (\<lambda>p. \<not> doomed (storage (k_sched k)) p) (f (Ready (t_priority (storage (k_sched k) r)))) = Some y \<longrightarrow>
      x \<noteq> r \<and> (t_priority (storage (k_sched k') x) = t_priority (storage (k_sched k) r) \<longrightarrow> x = y))"
  using thread_suspend_ok [OF assms, of ioctl] by blast

theorem thread_suspend_yields_witness:
  "\<exists>k' f' x. thread_suspend (\<lambda>_. EOK) sample_kernel = Some (Done k') \<and> kok k' f' sample_msgs \<and>
     running (k_sched k') = Some x \<and> t_priority (storage (k_sched k') x) \<le> 1"
proof -
  have "running (k_sched sample_kernel) = Some 2" "t_priority (storage (k_sched sample_kernel) 2) = 1"
    using sample_run(1) by (simp_all add: sample_sched_def sample_storage_def sample_thread_def)
  with thread_suspend_yields [OF sample_kok, of 2 "\<lambda>_. EOK"] show ?thesis by fastforce
qed

section \<open>Where the code departs from its documentation\<close>

text \<open>Locking a free mutex succeeds but reports \<open>EBUSY\<close>. The caller owns the mutex after the call,
  while the documentation promises \<open>EOK\<close> for success and \<open>EBUSY\<close> only for a mutex the caller already
  holds.\<close>

theorem lock_of_a_free_mutex_reports_busy:
  assumes "kok k f g" "h \<in> set (mtx_list (k_mutexes k))" "mtx_locker (mtx_mem (k_mutexes k) h) = THREAD_TID_INVALID"
  shows "\<exists>k'. thread_lock_mutex_timed ioctl (Some h) ms k = Some (Return EBUSY k') \<and>
    mutex_is_locked_by_me (Some h) (k_sched k') (k_mutexes k') \<and> mutex_is_locked (Some h) (k_mutexes k')"
proof -
  obtain r where r: "running (k_sched k) = Some r" "slot_ok r (storage (k_sched k) r)" by (rule kok_runner [OF assms(1)])
  let ?tid = "t_tid (storage (k_sched k) r)"
  have g: "get_thread ?tid (k_sched k) = Some r" using r(2) by (rule get_thread_slot)
  then have t: "?tid \<noteq> THREAD_TID_INVALID" using get_thread_valid by fastforce
  have "lock_mutex ?tid (Some h) (k_sched k) (k_mutexes k) =
      Some (True, upd_mtx h ((mtx_mem (k_mutexes k) h)\<lparr>mtx_locker := ?tid\<rparr>) (k_mutexes k))"
    using g t assms(3) by (simp add: lock_mutex_def Let_def)
  then show ?thesis using r(1) t assms(3)
    by (simp add: thread_lock_mutex_timed_def mutex_is_locked_def mutex_is_locked_by_me_def scheduler_running_tid_def)
qed

theorem lock_of_a_free_mutex_reports_busy_witness:
  "\<exists>k k'. kernel_ok k \<and> thread_lock_mutex_timed (\<lambda>_. EOK) (Some 7) 0 k = Some (Return EBUSY k') \<and>
     mutex_is_locked_by_me (Some 7) (k_sched k') (k_mutexes k')"
proof -
  define ms where "ms = snd (init_mutex (Some ''m'') (Some 7) \<lparr>mtx_list = [], mtx_mem = (\<lambda>_. zero_mutex)\<rparr>)"
  have ms: "mutexes_ok ms" "7 \<in> set (mtx_list ms)" "mtx_locker (mtx_mem ms 7) = THREAD_TID_INVALID"
    by (simp_all add: ms_def init_mutex_def mutexes_ok_def mutex_ok_def cb_ok_nat cbuffer_init_def cbuffer_is_empty_def thread_consts)
  have K: "kok (sample_kernel\<lparr>k_mutexes := ms\<rparr>) sample_queues sample_msgs"
    using sample_kok ms(1) by (simp add: kok_def kinv_def)
  from lock_of_a_free_mutex_reports_busy [OF K, of 7 "\<lambda>_. EOK" 0] ms K show ?thesis by auto
qed

text \<open>C37: killing a thread that waits for a mutex corrupts the queues. In a well-formed state, let a thread that waits for a mutex without a time-out, and that the
  mutex knows as a waiter, stand at the head of the wait queue, with the dead queue empty. Killing it succeeds and appends it to the dead
  queue while it is still linked in the wait queue: afterwards both queues start with the same node,
  so they are no longer disjoint lists.\<close>

theorem kill_of_a_mutex_waiter_links_it_twice:
  assumes "kok k f g" "f Wait = p # xs" "f Dead = []" "get_thread tid (k_sched k) = Some p"
    and "t_state (storage (k_sched k) p) = THREAD_WAITING"
    and "t_flags (storage (k_sched k) p) AND THREAD_MASK_WAIT = THREAD_FLAG_WAIT_MUTEX"
    and "tid \<noteq> THREAD_TID_IDLE" "tid \<noteq> THREAD_TID_TMRS"
    and "cancel_wait_on_mutex tid (k_sched k) (k_mutexes k) = Some (EOK, ms)"
  shows "\<exists>k'. thread_kill tid k = Some (Done k') \<and> sq_head Wait (k_sched k') = Some p \<and>
    sq_head Dead (k_sched k') = Some p \<and> (\<nexists>f'. qrep (sqm (k_sched k')) f')"
proof -
  let ?s = "k_sched k"
  have R: "qrep (sqm ?s) f" using sched_invD(1) [OF kokD(5) [OF assms(1)]] .
  have hw: "qi_head (qinst (sqm ?s) Wait) = Some p" and hd: "qi_head (qinst (sqm ?s) Dead) = None"
    using qrep_head [OF R, of Wait] qrep_head [OF R, of Dead] assms(2,3) by (simp_all add: queue_head_def)
  define i where "i = (qinst (sqm ?s) Dead)\<lparr>qi_head := Some p, qi_tail := Some p, qi_counter := 1\<rparr>"
  obtain m where m: "queue_enqueue (Some Dead) (Some p) (sqm ?s) = Some (EOK, m)" "qinst m = (qinst (sqm ?s))(Dead := i)"
    using hd by (auto simp: queue_enqueue_def Let_def i_def)
  define s1 where "s1 = (upd_thread p (\<lambda>t. t\<lparr>t_state := THREAD_DEAD\<rparr>) ?s)\<lparr>sqm := m\<rparr>"
  have e: "sq_enq Dead p (upd_thread p (\<lambda>t. t\<lparr>t_state := THREAD_DEAD\<rparr>) ?s) = Some (EOK, s1)"
    using m(1) by (simp add: sq_enq_def s1_def)
  have w: "THREAD_FLAG_WAIT_MUTEX \<noteq> THREAD_FLAG_WAIT_EVENT" "THREAD_FLAG_WAIT_MUTEX \<noteq> THREAD_FLAG_WAIT_BARRIER"
    "THREAD_FLAG_WAIT_MUTEX \<noteq> THREAD_FLAG_WAIT_COMPLETION" "THREAD_FLAG_WAIT_MUTEX \<noteq> THREAD_FLAG_WAIT_TIMEOUT"
    by (simp_all add: flag_defs)
  obtain r where r: "running ?s = Some r" "t_state (storage ?s r) = THREAD_RUNNING" by (rule kok_runner [OF assms(1)])
  have "tid \<noteq> scheduler_running_tid ?s"
  proof
    assume "tid = scheduler_running_tid ?s"
    moreover have "slot_ok r (storage ?s r)" using kokD(2) [OF assms(1)] r(1) by (auto simp: run_ok_def)
    ultimately have "p = r" using get_thread_slot [of r ?s] assms(4) r(1) by (simp add: scheduler_running_tid_def)
    with assms(5) r(2) show False by simp
  qed
  moreover have "\<exists>k'. scheduler_remove_thread tid k = Some (True, k') \<and> sqm (k_sched k') = sqm s1"
    using assms(4-9) w e by (simp add: scheduler_remove_thread_def Let_def)
  moreover have "sqm s1 = m" by (simp add: s1_def)
  ultimately obtain k' where k': "thread_kill tid k = Some (Done k')" "sqm (k_sched k') = m"
    by (auto simp: thread_kill_def)
  have h: "qi_head (qinst m Wait) = Some p" "qi_head (qinst m Dead) = Some p" using m(2) hw by (simp_all add: i_def)
  have no: "\<not> qrep m f'" for f'
  proof
    assume q: "qrep m f'"
    have "p \<in> set (f' Wait)" "p \<in> set (f' Dead)"
      using qrep_head [OF q, of Wait] qrep_head [OF q, of Dead] h
      by (cases "f' Wait", simp_all add: queue_head_def) (cases "f' Dead", simp_all)
    with qrep_disjoint [OF q, of Wait Dead p] show False by simp
  qed
  with k' h show ?thesis by (intro exI [of _ k']) (simp add: queue_head_def)
qed

text \<open>A state in which thread 3 waits for mutex 7 and no thread is dead.\<close>

definition blocked_sched :: sched where
  "blocked_sched = sample_sched\<lparr>sqm := singles (sample_heads(Dead := None)),
     storage := (storage sample_sched)(3 := sample_thread 3 2 THREAD_WAITING THREAD_FLAG_WAIT_MUTEX 0)\<rparr>"

lemma blocked_kok: "kok (sample_kernel\<lparr>k_sched := blocked_sched\<rparr>) (single_lists (sample_heads(Dead := None))) sample_msgs"
proof -
  let ?f = "single_lists (sample_heads(Dead := None))"
  have sub: "set (?f q) \<subseteq> set (sample_queues q)" for q by (cases q) (simp_all add: single_lists_def)
  have "qrep (sqm blocked_sched) ?f"
  proof (simp add: blocked_sched_def, rule singles_rep)
    fix p q x assume "(sample_heads(Dead := None)) p = Some x" "(sample_heads(Dead := None)) q = Some x"
    then show "p = q" by (cases p; cases q) (auto split: if_splits)
  qed
  moreover have "slot_ok p (storage blocked_sched p) \<and> place_ok q (storage blocked_sched p)" if p: "p \<in> set (?f q)" for p q
    using p by (cases q) (auto simp: single_lists_def blocked_sched_def sample_sched_def sample_storage_def sample_thread_def
        zero_thread_def slot_ok_def thread_consts flag_defs split: if_splits)
  moreover have "?f Delay = [4]" by (simp add: single_lists_def)
  ultimately have I: "sched_inv blocked_sched ?f" by (simp add: sched_inv_def sinv_def by_delay_def)
  have "table_ok (storage blocked_sched)"
    using sample_table by (auto simp: table_ok_def blocked_sched_def sample_thread_def THREAD_PRIORITIES_def)
  moreover have "run_ok blocked_sched ?f"
    using sample_run sample_unlinked sub by (auto simp: run_ok_def blocked_sched_def unlinked_def)
  moreover have "idle_ok blocked_sched ?f"
    using kokD(3) [OF sample_kok] by (simp add: idle_ok_def blocked_sched_def single_lists_def)
  moreover have "running blocked_sched = Some 2" "storage blocked_sched 2 = storage sample_sched 2"
    using sample_run(1) by (simp_all add: blocked_sched_def)
  ultimately show ?thesis using sample_kok I sample_run(1) by (simp add: kok_def kinv_def)
qed

theorem kill_of_a_mutex_waiter_links_it_twice_witness:
  "\<exists>k k'. kernel_ok k \<and> thread_kill 3 k = Some (Done k') \<and> sq_head Wait (k_sched k') = Some 3 \<and>
     sq_head Dead (k_sched k') = Some 3 \<and> \<not> kernel_ok k'"
proof -
  let ?k = "sample_kernel\<lparr>k_sched := blocked_sched\<rparr>" and ?f = "single_lists (sample_heads(Dead := None))"
  have f: "?f Wait = 3 # []" "?f Dead = []" by (simp_all add: single_lists_def)
  have s3: "storage blocked_sched 3 = sample_thread 3 2 THREAD_WAITING THREAD_FLAG_WAIT_MUTEX 0"
    by (simp add: blocked_sched_def)
  have t: "get_thread 3 blocked_sched = Some 3"
    "t_state (storage blocked_sched 3) = THREAD_WAITING"
    "t_flags (storage blocked_sched 3) AND THREAD_MASK_WAIT = THREAD_FLAG_WAIT_MUTEX"
    unfolding get_thread_def s3 by (simp_all add: s3 sample_thread_def thread_consts flag_defs)
  have m: "mtx_list sample_mutexes = [7]" "mtx_mem sample_mutexes 7 = sample_mutex" "mtx_locker sample_mutex = 2"
    by (simp_all add: sample_mutexes_def sample_mutex_def)
  have "\<exists>ms. cancel_wait_on_mutex 3 blocked_sched sample_mutexes = Some (EOK, ms)"
    using cancel_wait_on_mutex_waiter [of sample_mutexes "[]" 7 "[]" 3 blocked_sched] sample_mutex_ok sample_mutex_waiters m
    by auto
  then obtain ms where c: "cancel_wait_on_mutex 3 (k_sched ?k) (k_mutexes ?k) = Some (EOK, ms)" by auto
  have "\<exists>k'. thread_kill 3 ?k = Some (Done k') \<and> sq_head Wait (k_sched k') = Some 3 \<and>
    sq_head Dead (k_sched k') = Some 3 \<and> (\<nexists>f'. qrep (sqm (k_sched k')) f')"
    by (rule kill_of_a_mutex_waiter_links_it_twice [OF blocked_kok f _ _ _ _ _ c]) (use t in \<open>simp_all add: thread_consts\<close>)
  moreover have "qrep (sqm (k_sched k')) f'" if "kok k' f' g'" for k' f' g'
    using sched_invD(1) [OF kokD(5) [OF that]] .
  ultimately show ?thesis using blocked_kok by blast
qed

text \<open>Shutting the kernel down always ends in a panic. \<open>kernel_done\<close> kills the threads in the order of
  their identifiers and the first one, the idle thread, may not be removed.\<close>

theorem kernel_done_panics:
  assumes "kok k f g" "running (k_sched k) \<noteq> Some 0"
  shows "kernel_done k = Some Panic"
proof -
  have i: "t_tid (storage (k_sched k) 0) = 0" using kokD(3) [OF assms(1)] by (simp add: idle_ok_def THREAD_TID_IDLE_def)
  then have g: "get_thread 0 (k_sched k) = Some 0" by (simp add: get_thread_def thread_consts)
  obtain r where r: "running (k_sched k) = Some r" "slot_ok r (storage (k_sched k) r)" by (rule kok_runner [OF assms(1)])
  then have "scheduler_running_tid (k_sched k) \<noteq> THREAD_TID_IDLE"
    using tid_idle_slot [OF r(2)] assms(2) by (auto simp: scheduler_running_tid_def)
  then have "thread_kill 0 k = Some Panic"
    using remove_reserved [of 0 k] by (auto simp: thread_kill_def THREAD_TID_IDLE_def)
  moreover have "[0..<unat THREAD_TID_INVALID] = 0 # [1..<unat THREAD_TID_INVALID]"
    by (simp add: THREAD_TID_INVALID_def upt_conv_Cons)
  ultimately show ?thesis using g unfolding kernel_done_def by simp
qed

theorem kernel_done_panics_witness: "kernel_done sample_kernel = Some Panic"
  using kernel_done_panics [OF sample_kok] sample_run(1) by simp

end
